(* ===== verification/Prelude.thy ===== *)
theory Prelude
  imports Main "HOL-Library.Word" "HOL-Library.Monad_Syntax"
begin

text \<open>
  Shared vocabulary of the development.

  \<^item> The failure monad is \<^typ>\<open>'a option\<close>: \<open>None\<close> stands for a run that does not return a
    value because an \<open>assert\<close> of the code fails (the default build keeps them), because a
    \<open>NULL\<close> or unmapped pointer is dereferenced, or because a loop does not end.
    A C pointer is an option too (\<open>None\<close> is \<open>NULL\<close>), so that binding a pointer is dereferencing it.
  \<^item> Linked lists in memory: \<open>path nx p xs q\<close> says that following the links \<open>nx\<close> from \<open>p\<close> visits
    exactly the nodes \<open>xs\<close> and arrives at \<open>q\<close>.
  \<^item> Arithmetic of powers of two.
\<close>

unbundle bit_operations_syntax

named_theorems mem_simps \<open>field-by-field effect of the memory writes\<close>
named_theorems bind_simps \<open>rules that evaluate the failure monad\<close>

type_synonym u64 = "64 word"
type_synonym u32 = "32 word"

section \<open>The failure monad\<close>

definition assert_c :: "bool \<Rightarrow> unit option" where
  "assert_c b = (if b then Some () else None)"

lemma assert_c_True [simp, bind_simps]: "assert_c True = Some ()"
  and assert_c_False [simp, bind_simps]: "assert_c False = None"
  by (simp_all add: assert_c_def)

lemma assert_c_Some_iff [simp]: "assert_c b = Some u \<longleftrightarrow> b"
  by (simp add: assert_c_def)

lemma bind_assert_eq_Some_iff:
  "(assert_c b \<bind> f) = Some r \<longleftrightarrow> b \<and> f () = Some r"
  by (cases b) simp_all

section \<open>Linked lists\<close>

primrec path :: "('a \<Rightarrow> 'a option) \<Rightarrow> 'a option \<Rightarrow> 'a list \<Rightarrow> 'a option \<Rightarrow> bool" where
  "path nx p [] q \<longleftrightarrow> p = q"
| "path nx p (r # rs) q \<longleftrightarrow> p = Some r \<and> path nx (nx r) rs q"

abbreviation chain :: "('a \<Rightarrow> 'a option) \<Rightarrow> 'a option \<Rightarrow> 'a list \<Rightarrow> bool" where
  "chain nx p rs \<equiv> path nx p rs None"

lemma path_append: "path nx p (rs @ ss) q \<longleftrightarrow> (\<exists>m. path nx p rs m \<and> path nx m ss q)"
  by (induction rs arbitrary: p) auto

lemma path_snoc: "path nx p (rs @ [r]) q \<longleftrightarrow> path nx p rs (Some r) \<and> nx r = q"
  by (simp add: path_append)

lemma chain_None [simp]: "chain nx None rs \<longleftrightarrow> rs = []"
  by (cases rs) auto

lemma chain_Some: "chain nx (Some r) rs \<longleftrightarrow> (\<exists>ss. rs = r # ss \<and> chain nx (nx r) ss)"
  by (cases rs) auto

lemma path_cong:
  "(\<And>r. r \<in> set rs \<Longrightarrow> nx r = nx' r) \<Longrightarrow> path nx p rs q = path nx' p rs q"
  by (induction rs arbitrary: p) auto

lemma path_upd [simp]: "a \<notin> set rs \<Longrightarrow> path (nx(a := v)) p rs q = path nx p rs q"
  by (rule path_cong) auto

lemma path_mono:
  "path nx p rs q \<Longrightarrow> (\<And>r. r \<in> set rs \<Longrightarrow> nx r = nx' r) \<Longrightarrow> path nx' p rs q"
  using path_cong [of rs nx nx'] by blast

lemma chain_unique: "chain nx p rs \<Longrightarrow> chain nx p ss \<Longrightarrow> rs = ss"
proof (induction rs arbitrary: p ss)
  case Nil
  then show ?case by simp
next
  case (Cons r rs)
  then show ?case by (cases ss) auto
qed

lemma path_last: "path nx p rs q \<Longrightarrow> rs \<noteq> [] \<Longrightarrow> nx (last rs) = q"
  by (induction rs arbitrary: p) auto

text \<open>Relinking the last node of a segment moves its end.\<close>

lemma path_relink_last:
  assumes "path nx p rs q" and "rs \<noteq> []" and "distinct rs"
  shows "path (nx(last rs := q')) p rs q'"
proof -
  obtain ss r where rs: "rs = ss @ [r]"
    using \<open>rs \<noteq> []\<close> by (metis append_butlast_last_id)
  with assms show ?thesis by (auto simp: path_snoc)
qed

section \<open>Powers of two\<close>

lemma and_exp_minus_1_nat: "(x :: nat) AND (2 ^ k - 1) = x mod 2 ^ k"
  by (metis mask_eq_exp_minus_1 take_bit_eq_mask take_bit_eq_mod)

lemma mod_double_cases:
  fixes h :: nat
  assumes "h mod m = b"
  shows "h mod (2 * m) = b \<or> h mod (2 * m) = b + m"
proof -
  have "h mod (2 * m) = m * (h div m mod 2) + h mod m"
    by (metis mod_mult2_eq mult.commute)
  moreover have "h div m mod 2 = 0 \<or> h div m mod 2 = 1" by auto
  ultimately show ?thesis using assms by auto
qed

lemma mod_double_mod: "(h :: nat) mod (2 * m) mod m = h mod m"
  by (simp add: mod_mult2_eq mult.commute)

lemma and_xor_drop_bit_inverse:
  fixes x :: "'a::len word"
  assumes "LENGTH('a) \<le> 2 * k"
  shows "(x XOR drop_bit k x) XOR drop_bit k (x XOR drop_bit k x) = x"
proof -
  have "drop_bit k (drop_bit k x) = 0"
    using assms by (intro bit_word_eqI) (auto simp: bit_drop_bit_eq dest: bit_imp_le_length)
  then show ?thesis
    by (simp add: drop_bit_xor xor.assoc)
qed

end
