(* ===== verification/Utils.thy ===== *)
theory Utils
  imports Prelude
begin

text \<open>
  \<open>src/sri-glibc/malloc/utils.c\<close> and \<open>utils.h\<close>: the power-of-two test, the Jenkins and
  Fingerprint hashes of a pointer, the overflow-checked additions and multiplications of sizes,
  and \<open>ctz64\<close>. Sizes are 64 bit words, hashes 32 bit words.
\<close>

section \<open>Definitions\<close>

definition is_power_of_two :: "u32 \<Rightarrow> bool" where
  "is_power_of_two n = ((n AND (n - 1)) = 0)"

text \<open>\<open>rot(x,k)\<close> of the Jenkins mix: \<open>(x << k) | (x >> (32 - k))\<close>.\<close>

definition rot :: "u32 \<Rightarrow> nat \<Rightarrow> u32" where
  "rot x k = (push_bit k x) OR (drop_bit (32 - k) x)"

text \<open>The macro \<open>final(a,b,c)\<close>: seven xor/subtract steps on three registers.\<close>

definition final_mix :: "u32 \<Rightarrow> u32 \<Rightarrow> u32 \<Rightarrow> u32 \<times> u32 \<times> u32" where
  "final_mix a b c =
    (let c = c XOR b; c = c - rot b 14;
         a = a XOR c; a = a - rot c 11;
         b = b XOR a; b = b - rot a 25;
         c = c XOR b; c = c - rot b 16;
         a = a XOR c; a = a - rot c 4;
         b = b XOR a; b = b - rot a 14;
         c = c XOR b; c = c - rot b 24
     in (a, b, c))"

definition jenkins_hash_uint64 :: "u64 \<Rightarrow> u32" where
  "jenkins_hash_uint64 x =
    (let a = ucast x; b = ucast (drop_bit 32 x); c = 0xdeadbeef
     in snd (snd (final_mix a b c)))"

definition jenkins_hash_ptr :: "u64 \<Rightarrow> u32" where
  "jenkins_hash_ptr p = jenkins_hash_uint64 p"

text \<open>\<open>*sum\<close> is written only on success, so the out-parameter is an option.\<close>

definition add_size :: "u64 \<Rightarrow> u64 \<Rightarrow> u64 option" where
  "add_size s1 s2 =
    (let result = s1 + s2 in
     if result < s1 \<or> result < s2 then None else Some result)"

text \<open>
  \<open>mul_size\<close> ends with \<open>return result;\<close>, a size converted to \<open>bool\<close>: the success flag is
  \<open>result \<noteq> 0\<close>. The pair below is (returned flag, value stored in \<open>*prod\<close>).
\<close>

definition mul_size_c :: "u64 \<Rightarrow> u64 \<Rightarrow> bool \<times> u64 option" where
  "mul_size_c s1 s2 =
    (if s1 = 0 \<or> s2 = 0 then (True, Some 0)
     else let result = s1 * s2 in
       if result div s2 \<noteq> s1 then (False, None)
       else (result \<noteq> 0, Some result))"

text \<open>The callers' view: the product when the flag is set.\<close>

definition mul_size :: "u64 \<Rightarrow> u64 \<Rightarrow> u64 option" where
  "mul_size s1 s2 = (case mul_size_c s1 s2 of (ok, res) \<Rightarrow> if ok then res else None)"

text \<open>
  \<open>ctz64\<close>, the portable loop (the other branch of the \<open>#ifdef\<close> is the compiler's builtin of the same
  contract). \<open>m += m\<close> doubles the probe; the loop does not end for \<open>x = 0\<close>, which the
  assertion excludes.
\<close>

partial_function (option) ctz64_loop :: "u64 \<Rightarrow> u64 \<Rightarrow> nat \<Rightarrow> nat option" where
  "ctz64_loop x m i = (if x AND m = 0 then ctz64_loop x (m + m) (i + 1) else Some i)"

definition ctz64 :: "u64 \<Rightarrow> nat option" where
  "ctz64 x = do { assert_c (x \<noteq> 0); ctz64_loop x 1 0 }"

text \<open>\<open>Fingerprint\<close> of \<open>metadata.c\<close>, the Murmur-inspired hash of the default build.\<close>

definition kMul :: u64 where
  "kMul = 0x9ddfea08eb382d69"

definition Fingerprint :: "u64 \<Rightarrow> u64" where
  "Fingerprint x =
    (let b = x * kMul;
         b = b XOR drop_bit 44 b;
         b = b * kMul;
         b = b XOR drop_bit 41 b;
         b = b * kMul
     in b)"

text \<open>\<open>lpnext_power_of_two\<close> of \<open>lphash.c\<close> (the bit-smearing round-up).\<close>

definition lpnext_power_of_two :: "u32 \<Rightarrow> u32" where
  "lpnext_power_of_two num =
    (if num = 0 then 2
     else if num > push_bit 31 1 then push_bit 31 1
     else let val = num - 1;
              val = val OR drop_bit 1 val;
              val = val OR drop_bit 2 val;
              val = val OR drop_bit 4 val;
              val = val OR drop_bit 8 val;
              val = val OR drop_bit 16 val
          in val + 1)"

section \<open>Powers of two\<close>

lemma unat_lt_64: "unat (a :: u64) < 2 ^ 64"
  using unsigned_less [of a] by simp

lemma is_power_of_two_exp [simp]: "is_power_of_two (2 ^ k)"
proof -
  have "(2 ^ k :: u32) AND mask k = 0"
    by (rule bit_word_eqI) (auto simp: bit_and_iff bit_exp_iff bit_mask_iff)
  then show ?thesis by (simp add: is_power_of_two_def mask_eq_exp_minus_1)
qed

lemma is_power_of_two_of_nat [simp]: "is_power_of_two (of_nat (2 ^ k))"
  using is_power_of_two_exp [of k] by simp

lemma is_power_of_two_0: "is_power_of_two 0"
  by (simp add: is_power_of_two_def)

section \<open>Powers of two, continued\<close>

text \<open>
  \<open>is_power_of_two\<close>, the sanity check behind every fast modulus of the hash tables, accepts
  exactly the powers of two and, as the code does, zero.
\<close>

theorem is_power_of_two_iff: "is_power_of_two n \<longleftrightarrow> n = 0 \<or> (\<exists>k<32. n = 2 ^ k)"
proof
  assume a: "is_power_of_two n"
  show "n = 0 \<or> (\<exists>k<32. n = 2 ^ k)"
  proof (cases "n = 0")
    case False
    then obtain k0 where "bit n k0" using bit_word_eqI [of n 0] by auto
    define k where "k = (LEAST i. bit n i)"
    have k: "bit n k" unfolding k_def using \<open>bit n k0\<close> by (rule LeastI)
    have low: "\<not> bit n i" if "i < k" for i using that not_less_Least unfolding k_def by blast
    have k32: "k < 32" using k bit_imp_le_length by fastforce
    define m where "m = n - 2 ^ k"
    have disj: "m = n AND NOT (2 ^ k)"
    proof -
      have "n = (n AND NOT (2 ^ k)) OR (2 ^ k)"
        by (rule bit_word_eqI) (use k k32 in \<open>auto simp: bit_simps\<close>)
      also have "\<dots> = (n AND NOT (2 ^ k)) + 2 ^ k"
        by (rule disjunctive_add [symmetric]) (auto simp: bit_simps)
      finally show ?thesis unfolding m_def by (metis add_diff_cancel_right')
    qed
    have eq: "n - 1 = m OR mask k"
    proof -
      have "m OR mask k = m + mask k"
        by (rule disjunctive_add [symmetric]) (use low in \<open>auto simp: disj bit_simps\<close>)
      then show ?thesis by (simp add: m_def mask_eq_exp_minus_1)
    qed
    have "n AND (n - 1) = m"
      unfolding eq by (rule bit_word_eqI) (use low k in \<open>auto simp: disj bit_simps\<close>)
    with a have "m = 0" by (simp add: is_power_of_two_def)
    then show ?thesis using k32 by (auto simp: m_def)
  qed simp
qed (auto simp: is_power_of_two_0)

theorem is_power_of_two_iff_witness: "is_power_of_two 64 \<and> (\<exists>k<32. (64 :: u32) = 2 ^ k)"
proof -
  have "is_power_of_two 64" by (simp add: is_power_of_two_def)
  with is_power_of_two_iff [of 64] show ?thesis by simp
qed

section \<open>Fast modulus\<close>

text \<open>
  \<open>mod_power_of_two(x, y)\<close> of \<open>metadata.c\<close>. The arguments are sizes below \<open>2^64\<close>; \<open>y - 1\<close>
  wraps for \<open>y = 0\<close>, leaving the mask of all ones.
\<close>

definition mod_power_of_two :: "nat \<Rightarrow> nat \<Rightarrow> nat option" where
  "mod_power_of_two x y = do {
     assert_c (is_power_of_two (of_nat y));
     Some (if y = 0 then x else x AND (y - 1)) }"

lemma mod_power_of_two_exp [simp]: "mod_power_of_two x (2 ^ k) = Some (x mod 2 ^ k)"
  using is_power_of_two_of_nat [of k]
  by (simp add: mod_power_of_two_def and_exp_minus_1_nat [simplified])

section \<open>Overflow-checked sizes\<close>

lemma add_size_eq: "add_size a b = (if unat a + unat b < 2 ^ 64 then Some (a + b) else None)"
proof (cases "unat a + unat b < 2 ^ 64")
  case True
  then have "unat (a + b) = unat a + unat b" by (simp add: unat_word_ariths)
  with True show ?thesis by (auto simp: add_size_def word_less_nat_alt)
next
  case False
  then have "unat (a + b) = unat a + unat b - 2 ^ 64"
    using unat_lt_64 [of a] unat_lt_64 [of b] by (simp add: unat_word_ariths mod_if)
  moreover have "unat b < 2 ^ 64" by (rule unat_lt_64)
  ultimately have "unat (a + b) < unat a" using False by linarith
  with False show ?thesis by (auto simp: add_size_def word_less_nat_alt)
qed

text \<open>
  \<open>add_size\<close> reports failure exactly when the sum does not fit in 64 bits, and otherwise
  stores the sum.
\<close>

theorem add_size_correct: "add_size a b = (if unat a + unat b < 2 ^ 64 then Some (a + b) else None)"
  by (rule add_size_eq)

lemma mul_size_c_eq:
  "mul_size_c a b = (if unat a * unat b < 2 ^ 64 then (True, Some (a * b)) else (False, None))"
proof (cases "a = 0 \<or> b = 0")
  case True
  then show ?thesis by (auto simp: mul_size_c_def)
next
  case False
  then have pos: "0 < unat a" "0 < unat b" by (auto simp: unat_gt_0)
  have div: "unat ((a * b) div b) = unat (a * b) div unat b" by (simp add: unat_div)
  show ?thesis
  proof (cases "unat a * unat b < 2 ^ 64")
    case True
    then have m: "unat (a * b) = unat a * unat b" by (simp add: unat_word_ariths)
    with div pos have "(a * b) div b = a" by (metis div_mult_self_is_m word_unat_eq_iff)
    moreover from m pos have "a * b \<noteq> 0" by (metis mult_pos_pos not_gr_zero unat_0)
    ultimately show ?thesis using True False by (simp add: mul_size_c_def)
  next
    case over: False
    have "unat (a * b) < unat a * unat b"
      using over unat_lt_64 [of "a * b"] by (simp add: not_less)
    then have "unat (a * b) div unat b < unat a"
      using pos by (simp add: div_less_iff_less_mult)
    then have "(a * b) div b \<noteq> a" using div by auto
    then show ?thesis using False over by (simp add: mul_size_c_def)
  qed
qed

lemma mul_size_eq:
  "mul_size a b = (if unat a * unat b < 2 ^ 64 then Some (a * b) else None)"
  by (simp add: mul_size_def mul_size_c_eq)

text \<open>
  \<open>mul_size\<close> reports failure exactly when the product does not fit in 64 bits; although its
  last line returns the product itself as the success flag, the flag is set whenever the product fits.
\<close>

theorem mul_size_c_correct:
  "mul_size_c a b = (if unat a * unat b < 2 ^ 64 then (True, Some (a * b)) else (False, None))"
  by (rule mul_size_c_eq)

text \<open>The same on sizes given as natural numbers, the form the tables use.\<close>

lemma unat_of_nat_64: "x < 2 ^ 64 \<Longrightarrow> unat (of_nat x :: u64) = x"
  unfolding unsigned_of_nat by (simp add: take_bit_nat_eq_self)

lemma add_size_of_nat:
  "a + b < 2 ^ 64 \<Longrightarrow> add_size (of_nat a) (of_nat b) = Some (of_nat (a + b))"
  by (simp add: add_size_eq unat_of_nat_64)

lemma mul_size_of_nat:
  assumes "a < 2 ^ 60" and "b < 16"
  shows "mul_size (of_nat a) (of_nat b) = Some (of_nat (a * b))"
proof -
  have "a * b < 2 ^ 60 * 16" using assms by (intro mult_strict_mono) auto
  then show ?thesis using assms by (simp add: mul_size_eq unat_of_nat_64)
qed

section \<open>Trailing zeros\<close>

lemma ctz64_loop_bit:
  assumes "x \<noteq> (0 :: u64)" and "\<And>j. j < i \<Longrightarrow> \<not> bit x j"
  shows "ctz64_loop x (2 ^ i) i = Some (LEAST j. bit x j)"
proof -
  obtain j0 where "bit x j0" using assms(1) bit_word_eqI [of x 0] by auto
  define k where "k = (LEAST j. bit x j)"
  have k: "bit x k" unfolding k_def using \<open>bit x j0\<close> by (rule LeastI)
  then have k64: "k < 64" using bit_imp_le_length by fastforce
  have and_exp: "x AND 2 ^ n = 0 \<longleftrightarrow> \<not> bit x n" if "n < 64" for n
    by (rule and_exp_eq_0_iff_not_bit)
  have "i \<le> k" using assms(2) k by (meson not_less)
  then show ?thesis unfolding k_def [symmetric] using assms(2)
  proof (induction "k - i" arbitrary: i)
    case 0
    then have "i = k" by simp
    with k k64 and_exp show ?case by (subst ctz64_loop.simps) simp
  next
    case (Suc n)
    then have "\<not> bit x i" "i < k" using not_less_Least [of i "bit x"] k_def by auto
    with k64 and_exp [of i] have "x AND 2 ^ i = 0" by simp
    moreover have "(2 ^ i :: u64) + 2 ^ i = 2 ^ (i + 1)" by simp
    moreover have "ctz64_loop x (2 ^ (i + 1)) (i + 1) = Some k"
      using Suc.hyps Suc.prems \<open>i < k\<close> \<open>\<not> bit x i\<close> by (intro Suc.hyps(1)) (auto simp: less_Suc_eq)
    ultimately show ?case by (subst ctz64_loop.simps) simp
  qed
qed

lemma ctz64_eq: "x \<noteq> 0 \<Longrightarrow> ctz64 x = Some (LEAST j. bit x j)"
  using ctz64_loop_bit [of x 0] by (simp add: ctz64_def)

text \<open>
  C28: on every nonzero word \<open>ctz64\<close> returns, and its result is the index of the lowest set bit.
\<close>

theorem ctz64_lowest_set_bit:
  assumes "x \<noteq> 0"
  shows "\<exists>i. ctz64 x = Some i \<and> i < 64 \<and> bit x i \<and> (\<forall>j. bit x j \<longrightarrow> i \<le> j)"
proof -
  obtain j where j: "bit x j" using assms bit_word_eqI [of x 0] by auto
  then have "bit x (LEAST i. bit x i)" by (rule LeastI)
  moreover from this have "(LEAST i. bit x i) < 64" using bit_imp_le_length by fastforce
  ultimately show ?thesis using ctz64_eq [OF assms] by (auto intro: Least_le)
qed

theorem ctz64_lowest_set_bit_witness: "\<exists>i. ctz64 40 = Some i \<and> bit (40 :: u64) i"
  using ctz64_lowest_set_bit [of 40] by auto

section \<open>The hashes\<close>

definition kInv :: u64 where "kInv = 0xdc56e6f5090b32d9"

definition unfingerprint :: "u64 \<Rightarrow> u64" where
  "unfingerprint y =
    (let b = y * kInv;
         b = b XOR drop_bit 41 b;
         b = b * kInv;
         b = b XOR drop_bit 44 b
     in b * kInv)"

lemma kMul_inverse: "x * kMul * kInv = x"
proof -
  have "kMul * kInv = 1" by (simp add: kInv_def kMul_def)
  then show ?thesis by (simp add: mult.assoc)
qed

lemma unfingerprint_Fingerprint: "unfingerprint (Fingerprint x) = x"
proof -
  have x44: "(b XOR drop_bit 44 b) XOR drop_bit 44 (b XOR drop_bit 44 b) = b" for b :: u64
    by (rule and_xor_drop_bit_inverse) simp
  have x41: "(b XOR drop_bit 41 b) XOR drop_bit 41 (b XOR drop_bit 41 b) = b" for b :: u64
    by (rule and_xor_drop_bit_inverse) simp
  show ?thesis
    by (simp only: unfingerprint_def Fingerprint_def Let_def kMul_inverse x41 x44)
qed

text \<open>
  \<open>Fingerprint\<close> has an inverse (the multiplier is odd and both xor-shifts shift by more than half
  the width), so distinct pointers have distinct 64 bit fingerprints; the table hash is its low half.
\<close>

theorem Fingerprint_bijective: "unfingerprint (Fingerprint x) = x \<and> inj Fingerprint"
  by (metis unfingerprint_Fingerprint injI)


text \<open>Inverting \<open>final(a,b,c)\<close> step by step: the mix loses nothing.\<close>

definition final_unmix :: "u32 \<Rightarrow> u32 \<Rightarrow> u32 \<Rightarrow> u32 \<times> u32 \<times> u32" where
  "final_unmix a b c =
    (let c = (c + rot b 24) XOR b;
         b = (b + rot a 14) XOR a;
         a = (a + rot c 4) XOR c;
         c = (c + rot b 16) XOR b;
         b = (b + rot a 25) XOR a;
         a = (a + rot c 11) XOR c;
         c = (c + rot b 14) XOR b
     in (a, b, c))"

lemma xor_cancel_right: "((x :: 'a::len word) XOR y) XOR y = x"
  by (simp add: xor.assoc)

text \<open>
  C29: the Jenkins mix \<open>final(a,b,c)\<close> is a permutation of the register triples, so the three
  registers after the mix determine those before it.
\<close>

theorem final_mix_invertible:
  "(case final_mix a b c of (a', b', c') \<Rightarrow> final_unmix a' b' c') = (a, b, c)"
  by (simp only: final_mix_def final_unmix_def Let_def prod.case diff_add_cancel xor_cancel_right)

section \<open>Rounding up to a power of two\<close>

lemma smear_step:
  fixes a v :: "'a::len word"
  assumes "\<And>i. bit a i \<longleftrightarrow> (\<exists>j<n. bit v (i + j))"
  shows "bit (a OR drop_bit n a) i \<longleftrightarrow> (\<exists>j<2 * n. bit v (i + j))"
proof
  assume "bit (a OR drop_bit n a) i"
  then consider j where "j < n" "bit v (i + j)" | j where "j < n" "bit v (n + i + j)"
    using assms by (auto simp: bit_or_iff bit_drop_bit_eq)
  then show "\<exists>j<2 * n. bit v (i + j)"
  proof cases
    case 1 then show ?thesis by (intro exI [of _ j]) simp
  next
    case 2 then show ?thesis by (intro exI [of _ "n + j"]) (simp add: ac_simps)
  qed
next
  assume "\<exists>j<2 * n. bit v (i + j)"
  then obtain j where j: "j < 2 * n" "bit v (i + j)" by blast
  show "bit (a OR drop_bit n a) i"
  proof (cases "j < n")
    case True
    with j assms show ?thesis by (auto simp: bit_or_iff)
  next
    case False
    then have "j - n < n" "bit v (n + i + (j - n))" using j by (simp_all add: ac_simps)
    then have "bit a (n + i)" using assms by blast
    then show ?thesis by (simp add: bit_or_iff bit_drop_bit_eq)
  qed
qed

lemma smear_all:
  fixes v :: u32
  defines "r \<equiv> (let val = v OR drop_bit 1 v; val = val OR drop_bit 2 val; val = val OR drop_bit 4 val;
                   val = val OR drop_bit 8 val in val OR drop_bit 16 val)"
  shows "bit r i \<longleftrightarrow> (\<exists>j<32. bit v (i + j))"
proof -
  define v1 where "v1 = v OR drop_bit 1 v"
  define v2 where "v2 = v1 OR drop_bit 2 v1"
  define v3 where "v3 = v2 OR drop_bit 4 v2"
  define v4 where "v4 = v3 OR drop_bit 8 v3"
  have 1: "bit v1 i \<longleftrightarrow> (\<exists>j<2. bit v (i + j))" for i
    unfolding v1_def using smear_step [of v 1 v i] by auto
  have 2: "bit v2 i \<longleftrightarrow> (\<exists>j<4. bit v (i + j))" for i
    unfolding v2_def by (rule smear_step [where n = 2, simplified]) (rule 1)
  have 3: "bit v3 i \<longleftrightarrow> (\<exists>j<8. bit v (i + j))" for i
    unfolding v3_def by (rule smear_step [where n = 4, simplified]) (rule 2)
  have 4: "bit v4 i \<longleftrightarrow> (\<exists>j<16. bit v (i + j))" for i
    unfolding v4_def by (rule smear_step [where n = 8, simplified]) (rule 3)
  have "bit (v4 OR drop_bit 16 v4) i \<longleftrightarrow> (\<exists>j<32. bit v (i + j))"
    by (rule smear_step [where n = 16, simplified]) (rule 4)
  then show ?thesis by (simp only: r_def Let_def v4_def v3_def v2_def v1_def)
qed

lemma unat_between_bits:
  fixes v :: "'a::len word"
  assumes "bit v k" and "\<And>j. k < j \<Longrightarrow> \<not> bit v j"
  shows "2 ^ k \<le> unat v" and "unat v < 2 ^ (k + 1)"
proof -
  have "bit (unat v) k" using assms(1) by (simp add: bit_unsigned_iff bit_imp_le_length)
  then have "odd (unat v div 2 ^ k)" by (simp add: bit_iff_odd)
  then have "unat v div 2 ^ k \<noteq> 0" by (metis even_zero)
  then show "2 ^ k \<le> unat v" by (simp add: div_eq_0_iff)
  have "take_bit (k + 1) v = v"
    by (rule bit_word_eqI) (metis assms(2) bit_take_bit_iff less_Suc_eq_le not_less Suc_eq_plus1)
  then have "unat v = take_bit (k + 1) (unat v)" by (metis unsigned_take_bit_eq)
  then show "unat v < 2 ^ (k + 1)" by (metis take_bit_nat_less_exp)
qed

text \<open>
  between 1 and \<open>2^31\<close>, \<open>lpnext_power_of_two\<close> rounds up to the next power of two.
\<close>

theorem lpnext_power_of_two_least:
  assumes "1 \<le> unat num" and "unat num \<le> 2 ^ 31"
  shows "\<exists>k. unat (lpnext_power_of_two num) = 2 ^ k \<and> unat num \<le> 2 ^ k \<and> 2 ^ k < 2 * unat num"
proof -
  define v where "v = num - 1"
  have n0: "num \<noteq> 0" using assms(1) by auto
  then have uv: "unat v = unat num - 1" unfolding v_def by (simp add: unat_minus_one)
  have le: "\<not> num > push_bit 31 1"
    using assms(2) by (simp add: word_less_nat_alt)
  define r where "r = lpnext_power_of_two num - 1"
  have r: "bit r i \<longleftrightarrow> (\<exists>j<32. bit v (i + j))" for i
    using smear_all [of v i] n0 le by (simp add: r_def lpnext_power_of_two_def Let_def v_def)
  show ?thesis
  proof (cases "v = 0")
    case True
    then have "r = 0" using r by (intro bit_word_eqI) auto
    then have "lpnext_power_of_two num = 1" by (simp add: r_def)
    moreover have "unat num = 1" using uv True assms(1) by simp
    ultimately show ?thesis by (intro exI [of _ 0]) simp
  next
    case False
    then obtain j0 where j0: "bit v j0" using bit_word_eqI [of v 0] by auto
    define k where "k = Max {j. bit v j}"
    have fin: "finite {j. bit v j}"
      by (rule finite_subset [of _ "{..<32}"]) (use bit_imp_le_length [of v] in auto)
    have k: "bit v k" using Max_in [OF fin] j0 k_def by auto
    have up: "\<not> bit v j" if "k < j" for j
      using Max_ge [OF fin, of j] that unfolding k_def by fastforce
    have ub: "2 ^ k \<le> unat v" "unat v < 2 ^ (k + 1)" by (rule unat_between_bits [OF k up], assumption)+
    have k31: "k < 31"
    proof (rule ccontr)
      assume "\<not> k < 31"
      then have "(2::nat) ^ 31 \<le> 2 ^ k" by (intro power_increasing) auto
      with ub(1) uv assms show False by linarith
    qed
    have "r = mask (k + 1)"
    proof (rule bit_word_eqI)
      fix i assume "i < LENGTH(32)"
      show "bit r i = bit (mask (k + 1) :: u32) i"
      proof (cases "i \<le> k")
        case True
        then have "bit v (i + (k - i))" "k - i < 32" using k k31 by auto
        with True show ?thesis using r \<open>i < LENGTH(32)\<close> by (auto simp: bit_mask_iff)
      next
        case False
        then have "\<not> bit v (i + j)" for j using up by simp
        with False show ?thesis using r by (auto simp: bit_mask_iff)
      qed
    qed
    then have "lpnext_power_of_two num = 2 ^ (k + 1)"
      by (simp add: r_def mask_eq_exp_minus_1 eq_diff_eq)
    moreover have "unat (2 ^ (k + 1) :: u32) = 2 ^ (k + 1)"
    proof -
      have "(2::nat) ^ (k + 1) < 2 ^ 32" using k31 by (intro power_strict_increasing) auto
      then have "unat (of_nat (2 ^ (k + 1)) :: u32) = 2 ^ (k + 1)"
        unfolding unsigned_of_nat by (simp add: take_bit_nat_eq_self)
      then show ?thesis by simp
    qed
    ultimately show ?thesis using ub uv assms by (intro exI [of _ "k + 1"]) auto
  qed
qed

theorem lpnext_power_of_two_least_witness:
  "\<exists>k. unat (lpnext_power_of_two 1000) = 2 ^ k \<and> 1000 \<le> (2 :: nat) ^ k \<and> 2 ^ k < (2000 :: nat)"
  using lpnext_power_of_two_least [of 1000] by simp

end
