(* ===== verification/Memcxt.thy ===== *)
theory Memcxt
  imports Utils
begin

text \<open>
  \<open>src/sri-glibc/malloc/memcxt.c\<close>, \<open>memcxt.h\<close>, \<open>chunkinfo.h\<close> and the two mapping routines of
  \<open>utils.c\<close>: the memory the hash tables live in, and the pool allocator that serves it.

  An address is the base of a region obtained from \<open>mmap\<close>; a pointer to a bucket or a segment is
  the pool it lies in with its index there, so that \<open>buckp - bpool->pool\<close> is the index. The memory
  \<open>mem\<close> holds the objects of each type and the state of the \<open>memcxt_t\<close> whose pools it
  is. The record is polymorphic in the bucket type: \<open>metadata.c\<close> uses the whole \<open>chunkinfo\<close>,
  \<open>lphash.c\<close> a key and a value; both start with the fields of \<open>bucket\<close>.

  The operating system's \<open>mmap\<close> is a parameter (\<open>os_mmap\<close> of the environment record): from the
  mapped regions, the hint and the size it gives a base address, or \<open>None\<close> for \<open>MAP_FAILED\<close>.
  The compile-time constants (pool scales, bucket size, hash function) are fields of the same record.
\<close>

section \<open>Data\<close>

type_synonym addr = nat

datatype bptr = Bptr (bpool_of: addr) (bidx: nat)

datatype sptr = Sptr (spool_of: addr) (sidx: nat)

record bucket =
  chunk :: u64
  next_bucket :: "bptr option"
  bucket_pool_ptr :: addr

record segment =
  bins :: "nat \<Rightarrow> bptr option"
  segment_pool_ptr :: addr

record pool =
  bitmasks :: "nat \<Rightarrow> u64"
  free_count :: nat
  next_pool :: "addr option"

record darray =
  dsize :: nat
  dslot :: "nat \<Rightarrow> sptr option"

datatype errno_code = ENOMEM | EINVAL

record 'b mem =
  regions :: "addr set"
  bheap :: "bptr \<Rightarrow> 'b bucket_scheme"
  sheap :: "sptr \<Rightarrow> segment"
  dheap :: "addr \<Rightarrow> darray"
  bpools :: "addr \<Rightarrow> pool"
  spools :: "addr \<Rightarrow> pool"
  mc_segments :: "addr option"
  mc_buckets :: "addr option"
  errno :: "errno_code option"

record 'b env =
  os_mmap :: "addr set \<Rightarrow> addr option \<Rightarrow> nat \<Rightarrow> addr option"
  zero_bucket :: "'b bucket_scheme"
  BP_SCALE :: nat
  SP_SCALE :: nat
  sizeof_bucket :: nat
  hash_ptr :: "u64 \<Rightarrow> u32"

definition BITS_IN_MASK :: nat where
  "BITS_IN_MASK = 64"

abbreviation BP_LENGTH :: "('b, 'z) env_scheme \<Rightarrow> nat" where
  "BP_LENGTH E \<equiv> BP_SCALE E * 64"

abbreviation SP_LENGTH :: "('b, 'z) env_scheme \<Rightarrow> nat" where
  "SP_LENGTH E \<equiv> SP_SCALE E * 64"

definition zero_segment :: segment where
  "zero_segment = \<lparr>bins = (\<lambda>_. None), segment_pool_ptr = 0\<rparr>"

definition zero_pool :: pool where
  "zero_pool = \<lparr>bitmasks = (\<lambda>_. 0), free_count = 0, next_pool = None\<rparr>"

section \<open>Mapping and unmapping regions (\<open>utils.c\<close>)\<close>

text \<open>A fresh anonymous mapping reads as zeros, whatever type it is used at.\<close>

definition map_region :: "'b env \<Rightarrow> addr \<Rightarrow> nat \<Rightarrow> 'b mem \<Rightarrow> 'b mem" where
  "map_region E a sz m =
     m\<lparr>regions := insert a (regions m),
       bheap := (\<lambda>r. if bpool_of r = a then zero_bucket E else bheap m r),
       sheap := (\<lambda>s. if spool_of s = a then zero_segment else sheap m s),
       dheap := (dheap m)(a := \<lparr>dsize = sz div 8, dslot = (\<lambda>_. None)\<rparr>),
       bpools := (bpools m)(a := zero_pool),
       spools := (spools m)(a := zero_pool)\<rparr>"

definition sri_mmap :: "'b env \<Rightarrow> addr option \<Rightarrow> nat \<Rightarrow> 'b mem \<Rightarrow> addr option \<times> 'b mem" where
  "sri_mmap E oldaddr sz m =
    (let memory = os_mmap E (regions m) oldaddr sz;
         memory = (if oldaddr \<noteq> None \<and> memory = None
                   then os_mmap E (regions m) None sz else memory)
     in case memory of
          None \<Rightarrow> (None, m)
        | Some a \<Rightarrow> (Some a, map_region E a sz m))"

definition sri_munmap :: "addr \<Rightarrow> nat \<Rightarrow> 'b mem \<Rightarrow> 'b mem" where
  "sri_munmap memory sz m = m\<lparr>regions := regions m - {memory}\<rparr>"

section \<open>Bit masks\<close>

definition get_free_bit :: "u64 \<Rightarrow> nat option" where
  "get_free_bit msk = do {
     assert_c (msk \<noteq> - 1);
     ctz64 (NOT msk) }"

definition get_bit :: "u64 \<Rightarrow> nat \<Rightarrow> bool option" where
  "get_bit msk index = do {
     assert_c (index < BITS_IN_MASK);
     Some (msk AND push_bit index 1 \<noteq> 0) }"

definition set_bit_c :: "u64 \<Rightarrow> nat \<Rightarrow> u64 option" where
  "set_bit_c msk index = do {
     assert_c (index < BITS_IN_MASK);
     Some (msk OR push_bit index 1) }"

definition clear_bit_c :: "u64 \<Rightarrow> nat \<Rightarrow> u64 option" where
  "clear_bit_c msk index = do {
     assert_c (index < BITS_IN_MASK);
     Some (msk AND NOT (push_bit index 1)) }"

section \<open>Pools\<close>

definition init_bucket_pool :: "'b env \<Rightarrow> addr \<Rightarrow> 'b mem \<Rightarrow> 'b mem" where
  "init_bucket_pool E bp m =
     m\<lparr>bpools := (bpools m)(bp :=
          \<lparr>bitmasks = (\<lambda>scale. if scale < BP_SCALE E then 0 else bitmasks (bpools m bp) scale),
           free_count = BP_LENGTH E, next_pool = None\<rparr>),
       bheap := (\<lambda>r. if bpool_of r = bp \<and> bidx r < BP_LENGTH E
                     then (bheap m r)\<lparr>bucket_pool_ptr := bp\<rparr> else bheap m r)\<rparr>"

definition init_segment_pool :: "'b env \<Rightarrow> addr \<Rightarrow> 'b mem \<Rightarrow> 'b mem" where
  "init_segment_pool E sp m =
     m\<lparr>spools := (spools m)(sp :=
          \<lparr>bitmasks = (\<lambda>scale. if scale < SP_SCALE E then 0 else bitmasks (spools m sp) scale),
           free_count = SP_LENGTH E, next_pool = None\<rparr>),
       sheap := (\<lambda>s. if spool_of s = sp \<and> sidx s < SP_LENGTH E
                     then (sheap m s)\<lparr>segment_pool_ptr := sp\<rparr> else sheap m s)\<rparr>"

definition sizeof_segment :: nat where
  "sizeof_segment = 8 * 256 + 8"

definition bucket_pool_size :: "'b env \<Rightarrow> nat" where
  "bucket_pool_size E = BP_LENGTH E * sizeof_bucket E + BP_SCALE E * 8 + 8 + 8"

definition segment_pool_size :: "'b env \<Rightarrow> nat" where
  "segment_pool_size E = SP_LENGTH E * sizeof_segment + SP_SCALE E * 8 + 8 + 8"

definition new_segments :: "'b env \<Rightarrow> 'b mem \<Rightarrow> addr option \<times> 'b mem" where
  "new_segments E m =
    (case sri_mmap E None (segment_pool_size E) m of
       (None, m) \<Rightarrow> (None, m)
     | (Some sptr, m) \<Rightarrow> (Some sptr, init_segment_pool E sptr m))"

definition new_buckets :: "'b env \<Rightarrow> 'b mem \<Rightarrow> addr option \<times> 'b mem" where
  "new_buckets E m =
    (case sri_mmap E None (bucket_pool_size E) m of
       (None, m) \<Rightarrow> (None, m)
     | (Some bptr, m) \<Rightarrow> (Some bptr, init_bucket_pool E bptr m))"

definition init_memcxt :: "'b env \<Rightarrow> 'b mem \<Rightarrow> bool \<times> 'b mem" where
  "init_memcxt E m =
    (let (segs, m) = new_segments E m;
         m = m\<lparr>mc_segments := segs\<rparr>;
         (bucks, m) = new_buckets E m;
         m = m\<lparr>mc_buckets := bucks\<rparr>
     in (segs \<noteq> None \<and> bucks \<noteq> None, m))"

text \<open>
  The inner \<open>for (scale ...)\<close> loop of the two allocators: the first mask word with a clear bit,
  and the outer loop over the list of pools. \<open>UINT64_MAX\<close> is \<open>-1\<close>.
\<close>

fun scan_masks :: "(nat \<Rightarrow> u64) \<Rightarrow> nat \<Rightarrow> nat \<Rightarrow> nat option" where
  "scan_masks masks scale 0 = None"
| "scan_masks masks scale (Suc n) =
    (if masks scale < - 1 then Some scale else scan_masks masks (Suc scale) n)"

partial_function (option) find_free ::
  "(addr \<Rightarrow> pool) \<Rightarrow> nat \<Rightarrow> addr option \<Rightarrow> (addr \<times> nat) option option" where
  "find_free pools n current =
    (case current of
       None \<Rightarrow> Some None
     | Some p \<Rightarrow>
         (if free_count (pools p) > 0
          then (case scan_masks (bitmasks (pools p)) 0 n of
                  Some scale \<Rightarrow> Some (Some (p, scale))
                | None \<Rightarrow> find_free pools n (next_pool (pools p)))
          else find_free pools n (next_pool (pools p))))"

text \<open>Taking bit \<open>index\<close> of mask word \<open>scale\<close>, and giving it back.\<close>

definition take_slot :: "pool \<Rightarrow> nat \<Rightarrow> (nat \<times> pool) option" where
  "take_slot pl scale = do {
     index \<leftarrow> get_free_bit (bitmasks pl scale);
     assert_c (index < BITS_IN_MASK);
     msk \<leftarrow> set_bit_c (bitmasks pl scale) index;
     Some (scale * BITS_IN_MASK + index,
           pl\<lparr>bitmasks := (bitmasks pl)(scale := msk), free_count := free_count pl - 1\<rparr>) }"

definition give_slot :: "pool \<Rightarrow> nat \<Rightarrow> nat \<Rightarrow> pool option" where
  "give_slot pl index len = do {
     let pmask_index = index div BITS_IN_MASK;
     let pmask_bit = index mod BITS_IN_MASK;
     used \<leftarrow> get_bit (bitmasks pl pmask_index) pmask_bit;
     assert_c used;
     msk \<leftarrow> clear_bit_c (bitmasks pl pmask_index) pmask_bit;
     let pl = pl\<lparr>bitmasks := (bitmasks pl)(pmask_index := msk), free_count := free_count pl + 1\<rparr>;
     assert_c (free_count pl > 0 \<and> free_count pl \<le> len);
     Some pl }"

text \<open>A pool just mapped: it becomes the head of the list and its first slot is taken.\<close>

definition push_pool :: "pool \<Rightarrow> addr option \<Rightarrow> pool" where
  "push_pool pl rest =
     pl\<lparr>next_pool := rest, free_count := free_count pl - 1, bitmasks := (bitmasks pl)(0 := 1)\<rparr>"

definition alloc_bucket :: "'b env \<Rightarrow> 'b mem \<Rightarrow> (bptr option \<times> 'b mem) option" where
  "alloc_bucket E m = do {
     hit \<leftarrow> find_free (bpools m) (BP_SCALE E) (mc_buckets m);
     case hit of
       Some (p, scale) \<Rightarrow> do {
         (i, pl) \<leftarrow> take_slot (bpools m p) scale;
         Some (Some (Bptr p i), m\<lparr>bpools := (bpools m)(p := pl)\<rparr>) }
     | None \<Rightarrow>
         (case new_buckets E m of
            (None, m) \<Rightarrow> Some (None, m)
          | (Some p, m) \<Rightarrow>
              Some (Some (Bptr p 0),
                    m\<lparr>bpools := (bpools m)(p := push_pool (bpools m p) (mc_buckets m)),
                      mc_buckets := Some p\<rparr>)) }"

definition free_bucket :: "'b env \<Rightarrow> bptr \<Rightarrow> 'b mem \<Rightarrow> 'b mem option" where
  "free_bucket E buckp m = do {
     let bpool = bucket_pool_ptr (bheap m buckp);
     assert_c (bpool_of buckp = bpool \<and> bidx buckp < BP_LENGTH E);
     pl \<leftarrow> give_slot (bpools m bpool) (bidx buckp) (BP_LENGTH E);
     Some (m\<lparr>bpools := (bpools m)(bpool := pl)\<rparr>) }"

definition alloc_segment :: "'b env \<Rightarrow> 'b mem \<Rightarrow> (sptr option \<times> 'b mem) option" where
  "alloc_segment E m = do {
     hit \<leftarrow> find_free (spools m) (SP_SCALE E) (mc_segments m);
     case hit of
       Some (p, scale) \<Rightarrow> do {
         (i, pl) \<leftarrow> take_slot (spools m p) scale;
         Some (Some (Sptr p i), m\<lparr>spools := (spools m)(p := pl)\<rparr>) }
     | None \<Rightarrow>
         (case new_segments E m of
            (None, m) \<Rightarrow> Some (None, m)
          | (Some p, m) \<Rightarrow>
              Some (Some (Sptr p 0),
                    m\<lparr>spools := (spools m)(p := push_pool (spools m p) (mc_segments m)),
                      mc_segments := Some p\<rparr>)) }"

definition free_segment :: "'b env \<Rightarrow> sptr \<Rightarrow> 'b mem \<Rightarrow> 'b mem option" where
  "free_segment E segp m = do {
     let spool = segment_pool_ptr (sheap m segp);
     assert_c (spool_of segp = spool \<and> sidx segp < SP_LENGTH E);
     pl \<leftarrow> give_slot (spools m spool) (sidx segp) (SP_LENGTH E);
     Some (m\<lparr>spools := (spools m)(spool := pl)\<rparr>) }"

section \<open>The interface of \<open>memcxt.h\<close>\<close>

datatype memtype = DIRECTORY | SEGMENT | BUCKET

datatype vptr = VDir (dir_ptr: addr) | VSeg (seg_ptr: sptr) | VBkt (bkt_ptr: bptr)

fun as_dir :: "vptr \<Rightarrow> addr option" where
  "as_dir (VDir d) = Some d"
| "as_dir _ = None"

fun memcxt_allocate ::
  "'b env \<Rightarrow> memtype \<Rightarrow> vptr option \<Rightarrow> nat \<Rightarrow> 'b mem \<Rightarrow> (vptr option \<times> 'b mem) option" where
  "memcxt_allocate E DIRECTORY oldptr sz m =
     (case sri_mmap E (oldptr \<bind> as_dir) sz m of
        (d, m) \<Rightarrow> Some (map_option VDir d, m))"
| "memcxt_allocate E SEGMENT oldptr sz m = do {
     assert_c (oldptr = None);
     (s, m) \<leftarrow> alloc_segment E m;
     Some (map_option VSeg s, m) }"
| "memcxt_allocate E BUCKET oldptr sz m = do {
     assert_c (oldptr = None);
     (b, m) \<leftarrow> alloc_bucket E m;
     Some (map_option VBkt b, m) }"

text \<open>
  Releasing an object: the pointer must be of the type it is released at (the C code would
  reinterpret it).
\<close>

fun memcxt_release :: "'b env \<Rightarrow> memtype \<Rightarrow> vptr \<Rightarrow> nat \<Rightarrow> 'b mem \<Rightarrow> 'b mem option" where
  "memcxt_release E DIRECTORY (VDir d) sz m = Some (sri_munmap d sz m)"
| "memcxt_release E SEGMENT (VSeg s) sz m = free_segment E s m"
| "memcxt_release E BUCKET (VBkt b) sz m = free_bucket E b m"
| "memcxt_release E _ _ sz m = None"

partial_function (option) unmap_pools ::
  "(addr \<Rightarrow> pool) \<Rightarrow> nat \<Rightarrow> addr option \<Rightarrow> 'b mem \<Rightarrow> 'b mem option" where
  "unmap_pools pools sz current m =
    (case current of
       None \<Rightarrow> Some m
     | Some p \<Rightarrow> unmap_pools pools sz (next_pool (pools p)) (sri_munmap p sz m))"

definition delete_memcxt :: "'b env \<Rightarrow> 'b mem \<Rightarrow> 'b mem option" where
  "delete_memcxt E m = do {
     let segments = mc_segments m;
     m \<leftarrow> unmap_pools (spools m) (segment_pool_size E) segments (m\<lparr>mc_segments := None\<rparr>);
     let buckets = mc_buckets m;
     unmap_pools (bpools m) (bucket_pool_size E) buckets (m\<lparr>mc_buckets := None\<rparr>) }"

end
