(* ===== verification/Memcxt_Inv.thy ===== *)
theory Memcxt_Inv
  imports Memcxt
begin

text \<open>
  Correctness of the pool allocator. A family of pools (the list hanging off \<open>memcxt->buckets\<close> or
  \<open>memcxt->segments\<close>) is well formed when the list is in mapped memory and every \<open>free_count\<close> is the
  number of clear mask bits. The live slots are those whose bit is set. Allocation hands out a slot
  that was not live, release takes back a live one, and nothing else changes; the interface is the
  locale \<open>slot_allocator\<close>, interpreted for buckets and for segments.
\<close>

section \<open>Single pools\<close>

definition slot_used :: "pool \<Rightarrow> nat \<Rightarrow> bool" where
  "slot_used pl i = bit (bitmasks pl (i div 64)) (i mod 64)"

definition free_set :: "pool \<Rightarrow> nat \<Rightarrow> nat set" where
  "free_set pl n = {i. i < n * 64 \<and> \<not> slot_used pl i}"

definition pool_ok :: "pool \<Rightarrow> nat \<Rightarrow> bool" where
  "pool_ok pl n \<longleftrightarrow> free_count pl = card (free_set pl n)"

lemma finite_free_set [simp]: "finite (free_set pl n)"
  by (simp add: free_set_def)

lemma get_free_bit_correct:
  assumes "msk \<noteq> (- 1 :: u64)"
  obtains i where "get_free_bit msk = Some i" and "i < 64" and "\<not> bit msk i"
proof -
  have "NOT msk \<noteq> 0" using assms by (metis bit.compl_zero bit.double_compl)
  then obtain j where j: "bit (NOT msk) j" using bit_word_eqI [of "NOT msk" 0] by auto
  then have l: "bit (NOT msk) (LEAST i. bit (NOT msk) i)" by (rule LeastI)
  then have "(LEAST i. bit (NOT msk) i) < 64" using bit_imp_le_length by fastforce
  with l assms \<open>NOT msk \<noteq> 0\<close> that show ?thesis
    by (simp add: get_free_bit_def ctz64_eq bit_not_iff)
qed

lemma slot_div_mod:
  assumes "(i :: nat) < 64"
  shows "(s * 64 + i) div 64 = s" and "(s * 64 + i) mod 64 = i"
  using assms by auto

lemma slot_used_upd:
  "slot_used (pl\<lparr>bitmasks := (bitmasks pl)(s := w), free_count := c\<rparr>) j \<longleftrightarrow>
     (if j div 64 = s then bit w (j mod 64) else slot_used pl j)"
  by (auto simp: slot_used_def)

lemma take_slot_correct:
  assumes "scale < n" and "bitmasks pl scale < - 1" and "pool_ok pl n"
  obtains i pl' where "take_slot pl scale = Some (i, pl')" and "i < n * 64" and "\<not> slot_used pl i"
    and "\<And>j. slot_used pl' j \<longleftrightarrow> slot_used pl j \<or> j = i"
    and "next_pool pl' = next_pool pl" and "pool_ok pl' n"
proof -
  have "bitmasks pl scale \<noteq> - 1" using assms(2) by auto
  then obtain b where b: "get_free_bit (bitmasks pl scale) = Some b" "b < 64" "\<not> bit (bitmasks pl scale) b"
    by (rule get_free_bit_correct)
  define i where "i = scale * 64 + b"
  define pl' where "pl' = pl\<lparr>bitmasks := (bitmasks pl)(scale := bitmasks pl scale OR push_bit b 1),
    free_count := free_count pl - 1\<rparr>"
  have ts: "take_slot pl scale = Some (i, pl')"
    using b by (simp add: take_slot_def set_bit_c_def BITS_IN_MASK_def i_def pl'_def)
  have i_div: "i div 64 = scale" "i mod 64 = b" using b(2) by (simp_all add: i_def)
  have iff: "slot_used pl' j \<longleftrightarrow> slot_used pl j \<or> j = i" for j
  proof -
    have "bit (bitmasks pl scale OR push_bit b 1) (j mod 64) \<longleftrightarrow> bit (bitmasks pl scale) (j mod 64) \<or> j mod 64 = b"
      using b(2) by (auto simp: bit_simps)
    moreover have "j div 64 = scale \<Longrightarrow> j mod 64 = b \<longleftrightarrow> j = i"
      by (metis i_div div_mult_mod_eq)
    ultimately show ?thesis
      unfolding pl'_def slot_used_upd
      by (cases "j div 64 = scale") (simp_all add: slot_used_def, metis i_div)
  qed
  have i_lt: "i < n * 64"
    using assms(1) b(2) by (simp add: i_def)
  have nu: "\<not> slot_used pl i" using b by (simp add: slot_used_def i_div)
  have fs: "free_set pl' n = free_set pl n - {i}" using iff by (auto simp: free_set_def)
  have "i \<in> free_set pl n" using i_lt nu by (simp add: free_set_def)
  then have "card (free_set pl' n) = card (free_set pl n) - 1" by (simp add: fs)
  moreover have "free_count pl' = free_count pl - 1" by (simp add: pl'_def)
  ultimately have "pool_ok pl' n" using assms(3) by (simp add: pool_ok_def)
  moreover have "next_pool pl' = next_pool pl" by (simp add: pl'_def)
  ultimately show ?thesis using that [OF ts i_lt nu iff] by blast
qed

lemma give_slot_correct:
  assumes "i < n * 64" and "slot_used pl i" and "pool_ok pl n"
  obtains pl' where "give_slot pl i (n * 64) = Some pl'"
    and "\<And>j. slot_used pl' j \<longleftrightarrow> slot_used pl j \<and> j \<noteq> i"
    and "next_pool pl' = next_pool pl" and "pool_ok pl' n"
proof -
  define s b where "s = i div 64" and "b = i mod 64"
  have b64: "b < 64" by (simp add: b_def)
  define pl' where "pl' = pl\<lparr>bitmasks := (bitmasks pl)(s := bitmasks pl s AND NOT (push_bit b 1)),
    free_count := free_count pl + 1\<rparr>"
  have used: "bit (bitmasks pl s) b" using assms(2) by (simp add: slot_used_def s_def b_def)
  then have "bitmasks pl s AND push_bit b 1 \<noteq> 0"
    using b64 by (metis and_exp_eq_0_iff_not_bit push_bit_eq_mult mult_1)
  have iff: "slot_used pl' j \<longleftrightarrow> slot_used pl j \<and> j \<noteq> i" for j
  proof -
    have "bit (bitmasks pl s AND NOT (push_bit b 1)) (j mod 64) \<longleftrightarrow> bit (bitmasks pl s) (j mod 64) \<and> j mod 64 \<noteq> b"
      using b64 by (auto simp: bit_simps)
    moreover have "j div 64 = s \<Longrightarrow> j mod 64 = b \<longleftrightarrow> j = i"
      by (metis b_def s_def div_mult_mod_eq)
    ultimately show ?thesis
      unfolding pl'_def slot_used_upd
      by (cases "j div 64 = s") (simp_all add: slot_used_def, metis s_def)
  qed
  have fs: "free_set pl' n = insert i (free_set pl n)" "i \<notin> free_set pl n"
    using iff assms(1,2) by (auto simp: free_set_def)
  then have "card (free_set pl' n) = card (free_set pl n) + 1" by simp
  moreover have "free_count pl' = free_count pl + 1" by (simp add: pl'_def)
  ultimately have ok: "pool_ok pl' n" using assms(3) by (simp add: pool_ok_def)
  have "free_count pl' \<le> n * 64"
    using ok card_mono [of "{..<n * 64}" "free_set pl' n"] by (auto simp: pool_ok_def free_set_def)
  then have "give_slot pl i (n * 64) = Some pl'"
    using \<open>bitmasks pl s AND push_bit b 1 \<noteq> 0\<close> b64
    by (simp add: give_slot_def get_bit_def clear_bit_c_def BITS_IN_MASK_def pl'_def Let_def
        flip: s_def b_def)
  moreover have "next_pool pl' = next_pool pl" by (simp add: pl'_def)
  ultimately show ?thesis using that [OF _ iff _ ok] by blast
qed

lemma scan_masks_Some:
  "scan_masks ms s n = Some t \<Longrightarrow> s \<le> t \<and> t < s + n \<and> ms t < - 1"
  by (induction ms s n rule: scan_masks.induct) (auto split: if_splits)

section \<open>Families of pools\<close>

abbreviation pool_links :: "(addr \<Rightarrow> pool) \<Rightarrow> addr \<Rightarrow> addr option" where
  "pool_links pools \<equiv> \<lambda>a. next_pool (pools a)"

definition family :: "(addr \<Rightarrow> pool) \<Rightarrow> addr option \<Rightarrow> addr set" where
  "family pools first = {p. \<exists>ps. chain (pool_links pools) first ps \<and> p \<in> set ps}"

definition family_ok :: "addr set \<Rightarrow> (addr \<Rightarrow> pool) \<Rightarrow> addr option \<Rightarrow> nat \<Rightarrow> bool" where
  "family_ok R pools first n \<longleftrightarrow>
     (\<exists>ps. chain (pool_links pools) first ps \<and> set ps \<subseteq> R \<and> (\<forall>p\<in>set ps. pool_ok (pools p) n))"

definition family_live :: "(addr \<Rightarrow> pool) \<Rightarrow> addr option \<Rightarrow> nat \<Rightarrow> (addr \<times> nat) set" where
  "family_live pools first n =
     {(p, i). p \<in> family pools first \<and> i < n * 64 \<and> slot_used (pools p) i}"

lemma family_chain: "chain (pool_links pools) first ps \<Longrightarrow> family pools first = set ps"
  by (auto simp: family_def dest: chain_unique)

lemma family_okE:
  assumes "family_ok R pools first n"
  obtains ps where "chain (pool_links pools) first ps" and "set ps \<subseteq> R"
    and "\<And>p. p \<in> set ps \<Longrightarrow> pool_ok (pools p) n" and "family pools first = set ps"
  using assms family_chain unfolding family_ok_def by blast

lemma family_ok_subset: "family_ok R pools first n \<Longrightarrow> family pools first \<subseteq> R"
  by (auto elim: family_okE)

lemma family_ok_pool: "family_ok R pools first n \<Longrightarrow> p \<in> family pools first \<Longrightarrow> pool_ok (pools p) n"
  by (auto elim: family_okE)

lemma family_ok_mono:
  "family_ok R pools first n \<Longrightarrow> family pools first \<subseteq> R' \<Longrightarrow> family_ok R' pools first n"
  using family_chain unfolding family_ok_def by blast

text \<open>Only the pools of the list matter.\<close>

lemma family_cong:
  assumes "family_ok R pools first n" and "\<And>p. p \<in> R \<Longrightarrow> pools' p = pools p"
  shows "family_ok R pools' first n" and "family pools' first = family pools first"
    and "family_live pools' first n = family_live pools first n"
proof -
  from assms(1) obtain ps where ps: "chain (pool_links pools) first ps" "set ps \<subseteq> R"
    "\<And>p. p \<in> set ps \<Longrightarrow> pool_ok (pools p) n" "family pools first = set ps"
    by (rule family_okE) blast
  then have c': "chain (pool_links pools') first ps"
    using assms(2) by (elim path_mono) auto
  with ps assms(2) show "family_ok R pools' first n"
    unfolding family_ok_def by (metis subsetD)
  show f: "family pools' first = family pools first"
    using c' ps(4) by (simp add: family_chain)
  show "family_live pools' first n = family_live pools first n"
    using f ps(2,4) assms(2) by (auto simp: family_live_def)
qed

text \<open>Changing the contents of one pool but not its link.\<close>

lemma family_upd:
  assumes "family_ok R pools first n" and "next_pool pl = next_pool (pools p)" and "pool_ok pl n"
  shows "family_ok R (pools(p := pl)) first n" and "family (pools(p := pl)) first = family pools first"
proof -
  from assms(1) obtain ps where ps: "chain (pool_links pools) first ps" "set ps \<subseteq> R"
    "\<And>p. p \<in> set ps \<Longrightarrow> pool_ok (pools p) n" "family pools first = set ps"
    by (rule family_okE) blast
  have "pool_links (pools(p := pl)) = pool_links pools" using assms(2) by auto
  then have c': "chain (pool_links (pools(p := pl))) first ps" using ps(1) by simp
  with ps assms(3) show "family_ok R (pools(p := pl)) first n"
    unfolding family_ok_def by auto
  show "family (pools(p := pl)) first = family pools first"
    using c' ps(4) by (simp add: family_chain)
qed

lemma find_free_correct:
  assumes "family_ok R pools first n"
  obtains "find_free pools n first = Some None"
  | p s where "find_free pools n first = Some (Some (p, s))" and "p \<in> family pools first" and "s < n"
      and "bitmasks (pools p) s < - 1"
proof -
  have "chain (pool_links pools) first ps \<Longrightarrow>
      find_free pools n first = Some None \<or>
      (\<exists>p s. find_free pools n first = Some (Some (p, s)) \<and> p \<in> set ps \<and> s < n \<and> bitmasks (pools p) s < - 1)"
    for ps
  proof (induction ps arbitrary: first)
    case Nil
    then show ?case by (simp add: find_free.simps)
  next
    case (Cons p ps)
    then have first: "first = Some p" and rest: "chain (pool_links pools) (next_pool (pools p)) ps" by auto
    show ?case
    proof (cases "free_count (pools p) > 0 \<and> scan_masks (bitmasks (pools p)) 0 n \<noteq> None")
      case True
      then obtain s where s: "scan_masks (bitmasks (pools p)) 0 n = Some s" by auto
      then have "find_free pools n first = Some (Some (p, s))"
        using True by (subst find_free.simps) (simp add: first)
      with scan_masks_Some [OF s] show ?thesis by auto
    next
      case False
      then have "find_free pools n first = find_free pools n (next_pool (pools p))"
        by (subst find_free.simps) (auto simp: first)
      with Cons.IH [OF rest] show ?thesis by auto
    qed
  qed
  moreover obtain ps where "chain (pool_links pools) first ps" "family pools first = set ps"
    using assms by (rule family_okE)
  ultimately show ?thesis using that by blast
qed

lemma family_take:
  assumes "family_ok R pools first n" and "find_free pools n first = Some (Some (p, s))"
  obtains i pl where "take_slot (pools p) s = Some (i, pl)" and "(p, i) \<notin> family_live pools first n"
    and "p \<in> family pools first" and "i < n * 64"
    and "family_ok R (pools(p := pl)) first n"
    and "family_live (pools(p := pl)) first n = insert (p, i) (family_live pools first n)"
    and "family (pools(p := pl)) first = family pools first"
proof -
  have p: "p \<in> family pools first" "s < n" "bitmasks (pools p) s < - 1"
    using find_free_correct [OF assms(1)] assms(2) by (metis option.inject option.distinct(1) prod.inject)+
  then have "pool_ok (pools p) n" using assms(1) by (auto intro: family_ok_pool)
  with p(2,3) obtain i pl where i: "take_slot (pools p) s = Some (i, pl)" "i < n * 64"
    "\<not> slot_used (pools p) i" "\<And>j. slot_used pl j \<longleftrightarrow> slot_used (pools p) j \<or> j = i"
    "next_pool pl = next_pool (pools p)" "pool_ok pl n"
    by (rule take_slot_correct) blast
  note fam = family_upd [OF assms(1) i(5,6)]
  have "family_live (pools(p := pl)) first n = insert (p, i) (family_live pools first n)"
    using fam(2) p(1) i(2,4) by (auto simp: family_live_def split: if_splits)
  moreover have "(p, i) \<notin> family_live pools first n" using i(3) by (simp add: family_live_def)
  ultimately show ?thesis using that i(1,2) p(1) fam by blast
qed

lemma family_give:
  assumes "family_ok R pools first n" and "(p, i) \<in> family_live pools first n"
  obtains pl where "give_slot (pools p) i (n * 64) = Some pl"
    and "family_ok R (pools(p := pl)) first n"
    and "family_live (pools(p := pl)) first n = family_live pools first n - {(p, i)}"
    and "family (pools(p := pl)) first = family pools first"
proof -
  have p: "p \<in> family pools first" "i < n * 64" "slot_used (pools p) i"
    using assms(2) by (auto simp: family_live_def)
  then have "pool_ok (pools p) n" using assms(1) by (auto intro: family_ok_pool)
  with p(2,3) obtain pl where i: "give_slot (pools p) i (n * 64) = Some pl"
    "\<And>j. slot_used pl j \<longleftrightarrow> slot_used (pools p) j \<and> j \<noteq> i"
    "next_pool pl = next_pool (pools p)" "pool_ok pl n"
    by (rule give_slot_correct) blast
  note fam = family_upd [OF assms(1) i(3,4)]
  have "family_live (pools(p := pl)) first n = family_live pools first n - {(p, i)}"
    using fam(2) p(1) i(2) by (auto simp: family_live_def split: if_splits)
  then show ?thesis using that i(1) fam by blast
qed

text \<open>A freshly initialised pool pushed in front of the list.\<close>

lemma slot_used_push:
  assumes "\<And>s. s < n \<Longrightarrow> bitmasks pl s = 0" and "i < n * 64"
  shows "slot_used (push_pool pl rest) i \<longleftrightarrow> i = 0"
proof (cases "i div 64 = 0")
  case True
  then show ?thesis by (auto simp: slot_used_def push_pool_def bit_1_iff)
next
  case False
  moreover have "i div 64 < n" using assms(2) by (simp add: less_mult_imp_div_less)
  ultimately show ?thesis using assms(1) by (auto simp: slot_used_def push_pool_def)
qed

lemma family_push:
  assumes "family_ok R pools first n" and "a \<notin> R" and "0 < n"
    and "\<And>s. s < n \<Longrightarrow> bitmasks pl s = 0" and "free_count pl = n * 64"
  defines "pools' \<equiv> pools(a := push_pool pl first)"
  shows "family_ok (insert a R) pools' (Some a) n"
    and "family_live pools' (Some a) n = insert (a, 0) (family_live pools first n)"
    and "family pools' (Some a) = insert a (family pools first)"
proof -
  from assms(1) obtain ps where ps: "chain (pool_links pools) first ps" "set ps \<subseteq> R"
    "\<And>p. p \<in> set ps \<Longrightarrow> pool_ok (pools p) n" "family pools first = set ps"
    by (rule family_okE) blast
  have a: "a \<notin> set ps" using ps(2) assms(2) by blast
  have used: "slot_used (push_pool pl first) i \<longleftrightarrow> i = 0" if "i < n * 64" for i
    using slot_used_push assms(4) that by blast
  have "chain (pool_links pools') first ps"
    using ps(1) a by (elim path_mono) (auto simp: pools'_def)
  then have c: "chain (pool_links pools') (Some a) (a # ps)"
    by (simp add: pools'_def push_pool_def)
  show f: "family pools' (Some a) = insert a (family pools first)"
    using family_chain [OF c] ps(4) by simp
  have "free_set (push_pool pl first) n = {..<n * 64} - {0}"
    using used by (auto simp: free_set_def)
  then have "card (free_set (push_pool pl first) n) = n * 64 - 1"
    using assms(3) by (simp add: card_Diff_singleton)
  then have "pool_ok (push_pool pl first) n"
    using assms(5) by (simp add: pool_ok_def push_pool_def)
  then show "family_ok (insert a R) pools' (Some a) n"
    unfolding family_ok_def using c ps(2,3) by (intro exI [of _ "a # ps"]) (auto simp: pools'_def)
  show "family_live pools' (Some a) n = insert (a, 0) (family_live pools first n)"
    unfolding family_live_def f using ps(4) a used assms(3) by (auto simp: pools'_def split: if_splits)
qed

section \<open>The memory\<close>

text \<open>
  What the code relies on from the operating system: a successful \<open>mmap\<close> (without \<open>MAP_FIXED\<close>)
  returns a region that is not mapped yet, whatever the hint.
\<close>

definition mmap_fresh :: "'b env \<Rightarrow> bool" where
  "mmap_fresh E \<longleftrightarrow> (\<forall>R h n a. os_mmap E R h n = Some a \<longrightarrow> a \<notin> R)"

definition env_ok :: "'b env \<Rightarrow> bool" where
  "env_ok E \<longleftrightarrow> mmap_fresh E \<and> 0 < BP_SCALE E \<and> 0 < SP_SCALE E"

definition bucket_pools :: "'b mem \<Rightarrow> addr set" where
  "bucket_pools m = family (bpools m) (mc_buckets m)"

definition segment_pools :: "'b mem \<Rightarrow> addr set" where
  "segment_pools m = family (spools m) (mc_segments m)"

definition live_buckets :: "'b env \<Rightarrow> 'b mem \<Rightarrow> bptr set" where
  "live_buckets E m = {r. (bpool_of r, bidx r) \<in> family_live (bpools m) (mc_buckets m) (BP_SCALE E)}"

definition live_segments :: "'b env \<Rightarrow> 'b mem \<Rightarrow> sptr set" where
  "live_segments E m = {s. (spool_of s, sidx s) \<in> family_live (spools m) (mc_segments m) (SP_SCALE E)}"

definition memcxt_ok :: "'b env \<Rightarrow> 'b mem \<Rightarrow> bool" where
  "memcxt_ok E m \<longleftrightarrow>
     env_ok E \<and> finite (regions m) \<and> mc_segments m \<noteq> None \<and>
     family_ok (regions m) (bpools m) (mc_buckets m) (BP_SCALE E) \<and>
     family_ok (regions m) (spools m) (mc_segments m) (SP_SCALE E) \<and>
     (\<forall>p \<in> bucket_pools m. \<forall>i < BP_LENGTH E. bucket_pool_ptr (bheap m (Bptr p i)) = p) \<and>
     (\<forall>p \<in> segment_pools m. \<forall>i < SP_LENGTH E. segment_pool_ptr (sheap m (Sptr p i)) = p)"

text \<open>The part of a memory that was mapped before is untouched.\<close>

definition grows :: "'b mem \<Rightarrow> 'b mem \<Rightarrow> bool" where
  "grows m m' \<longleftrightarrow>
     regions m \<subseteq> regions m' \<and>
     (\<forall>r. bpool_of r \<in> regions m \<longrightarrow> bheap m' r = bheap m r) \<and>
     (\<forall>s. spool_of s \<in> regions m \<longrightarrow> sheap m' s = sheap m s) \<and>
     (\<forall>d \<in> regions m. dheap m' d = dheap m d)"

lemma grows_refl [simp]: "grows m m"
  by (simp add: grows_def)

lemma grows_trans: "grows m m' \<Longrightarrow> grows m' m'' \<Longrightarrow> grows m m''"
  unfolding grows_def by (metis subset_iff)

lemma grows_map_region: "a \<notin> regions m \<Longrightarrow> grows m (map_region E a sz m)"
  by (auto simp: grows_def map_region_def)

text \<open>An operating system that does not run out of memory.\<close>

definition mmap_total :: "'b env \<Rightarrow> bool" where
  "mmap_total E \<longleftrightarrow> (\<forall>R h n. finite R \<longrightarrow> os_mmap E R h n \<noteq> None)"

lemma sri_mmap_cases:
  assumes "mmap_fresh E"
  obtains "sri_mmap E h sz m = (None, m)" and "finite (regions m) \<Longrightarrow> \<not> mmap_total E"
  | a where "sri_mmap E h sz m = (Some a, map_region E a sz m)" and "a \<notin> regions m"
proof -
  define r where "r = (let r = os_mmap E (regions m) h sz in
    if h \<noteq> None \<and> r = None then os_mmap E (regions m) None sz else r)"
  have eq: "sri_mmap E h sz m = (case r of None \<Rightarrow> (None, m) | Some a \<Rightarrow> (Some a, map_region E a sz m))"
    by (simp add: sri_mmap_def r_def Let_def)
  show ?thesis
  proof (cases r)
    case None
    then have "\<exists>h. os_mmap E (regions m) h sz = None" by (auto simp: r_def Let_def split: if_splits)
    then have "finite (regions m) \<Longrightarrow> \<not> mmap_total E" by (auto simp: mmap_total_def)
    then show ?thesis using that(1) eq None by simp
  next
    case (Some a)
    then obtain h' where "os_mmap E (regions m) h' sz = Some a"
      by (auto simp: r_def Let_def split: if_splits)
    then have "a \<notin> regions m" using assms by (auto simp: mmap_fresh_def)
    then show ?thesis using that(2) eq Some by simp
  qed
qed

lemma memcxt_ok_families:
  assumes "memcxt_ok E m"
  shows "family_ok (regions m) (bpools m) (mc_buckets m) (BP_SCALE E)"
    and "family_ok (regions m) (spools m) (mc_segments m) (SP_SCALE E)"
  using assms by (simp_all add: memcxt_ok_def)

lemma memcxt_ok_env:
  assumes "memcxt_ok E m"
  shows "env_ok E" and "mmap_fresh E" and "0 < BP_SCALE E" and "0 < SP_SCALE E" and "finite (regions m)"
    and "mc_segments m \<noteq> None"
  using assms by (simp_all add: memcxt_ok_def env_ok_def)

lemma bucket_pools_mapped: "memcxt_ok E m \<Longrightarrow> bucket_pools m \<subseteq> regions m"
  unfolding bucket_pools_def by (rule family_ok_subset [OF memcxt_ok_families(1)])

lemma segment_pools_mapped: "memcxt_ok E m \<Longrightarrow> segment_pools m \<subseteq> regions m"
  unfolding segment_pools_def by (rule family_ok_subset [OF memcxt_ok_families(2)])

lemma live_bucketD:
  "r \<in> live_buckets E m \<Longrightarrow> bpool_of r \<in> bucket_pools m \<and> bidx r < BP_LENGTH E"
  by (simp add: live_buckets_def family_live_def bucket_pools_def)

lemma live_segmentD:
  "s \<in> live_segments E m \<Longrightarrow> spool_of s \<in> segment_pools m \<and> sidx s < SP_LENGTH E"
  by (simp add: live_segments_def family_live_def segment_pools_def)

lemma live_bucket_mapped: "memcxt_ok E m \<Longrightarrow> r \<in> live_buckets E m \<Longrightarrow> bpool_of r \<in> regions m"
  using live_bucketD bucket_pools_mapped by blast

lemma live_segment_mapped: "memcxt_ok E m \<Longrightarrow> s \<in> live_segments E m \<Longrightarrow> spool_of s \<in> regions m"
  using live_segmentD segment_pools_mapped by blast

text \<open>
  Updates of the contents of buckets, segments and directories, and of \<open>errno\<close>, do not concern the
  allocator as long as the pool pointers are kept.
\<close>

definition same_pools :: "'b mem \<Rightarrow> 'b mem \<Rightarrow> bool" where
  "same_pools m m' \<longleftrightarrow>
     bpools m' = bpools m \<and> spools m' = spools m \<and> mc_buckets m' = mc_buckets m \<and>
     mc_segments m' = mc_segments m \<and>
     (\<forall>r. bucket_pool_ptr (bheap m' r) = bucket_pool_ptr (bheap m r)) \<and>
     (\<forall>s. segment_pool_ptr (sheap m' s) = segment_pool_ptr (sheap m s))"

lemma same_pools_simps:
  assumes "same_pools m m'"
  shows "bucket_pools m' = bucket_pools m" and "segment_pools m' = segment_pools m"
    and "live_buckets E m' = live_buckets E m" and "live_segments E m' = live_segments E m"
  using assms by (simp_all add: same_pools_def bucket_pools_def segment_pools_def live_buckets_def live_segments_def)

lemma same_pools_ok:
  assumes "same_pools m m'" and "memcxt_ok E m" and "regions m \<subseteq> regions m'" and "finite (regions m')"
  shows "memcxt_ok E m'"
proof -
  have "family_ok (regions m') (bpools m) (mc_buckets m) (BP_SCALE E)"
    by (rule family_ok_mono [OF memcxt_ok_families(1) [OF assms(2)]])
      (use bucket_pools_mapped [OF assms(2)] assms(3) in \<open>simp add: bucket_pools_def\<close>)
  moreover have "family_ok (regions m') (spools m) (mc_segments m) (SP_SCALE E)"
    by (rule family_ok_mono [OF memcxt_ok_families(2) [OF assms(2)]])
      (use segment_pools_mapped [OF assms(2)] assms(3) in \<open>simp add: segment_pools_def\<close>)
  ultimately show ?thesis
    using assms(1,2,4) same_pools_simps [OF assms(1)]
    by (simp add: memcxt_ok_def same_pools_def)
qed

lemma same_pools_refl [simp]: "same_pools m m"
  by (simp add: same_pools_def)

lemma same_pools_trans: "same_pools m m' \<Longrightarrow> same_pools m' m'' \<Longrightarrow> same_pools m m''"
  by (simp add: same_pools_def)

section \<open>Allocation and release\<close>

definition segment_clear :: "segment \<Rightarrow> bool" where
  "segment_clear sg \<longleftrightarrow> (\<forall>i < 256. bins sg i = None)"

definition free_segments_clear :: "'b env \<Rightarrow> 'b mem \<Rightarrow> bool" where
  "free_segments_clear E m \<longleftrightarrow>
     (\<forall>s. spool_of s \<in> segment_pools m \<and> sidx s < SP_LENGTH E \<and> s \<notin> live_segments E m
          \<longrightarrow> segment_clear (sheap m s))"

definition same_store :: "'b mem \<Rightarrow> 'b mem \<Rightarrow> bool" where
  "same_store m m' \<longleftrightarrow>
     regions m' = regions m \<and> bheap m' = bheap m \<and> sheap m' = sheap m \<and> dheap m' = dheap m"

lemma same_store_grows: "same_store m m' \<Longrightarrow> grows m m'"
  by (simp add: same_store_def grows_def)

lemma memcxt_okI_bpools:
  assumes "memcxt_ok E m" and "family_ok (regions m) bp (mc_buckets m) (BP_SCALE E)"
    and "family bp (mc_buckets m) = bucket_pools m"
  shows "memcxt_ok E (m\<lparr>bpools := bp\<rparr>)"
  using assms by (simp add: memcxt_ok_def bucket_pools_def segment_pools_def)

lemma memcxt_okI_spools:
  assumes "memcxt_ok E m" and "family_ok (regions m) sp (mc_segments m) (SP_SCALE E)"
    and "family sp (mc_segments m) = segment_pools m"
  shows "memcxt_ok E (m\<lparr>spools := sp\<rparr>)"
  using assms by (simp add: memcxt_ok_def bucket_pools_def segment_pools_def)

lemma live_buckets_bpools:
  "live_buckets E (m\<lparr>bpools := bp\<rparr>) =
     {r. (bpool_of r, bidx r) \<in> family_live bp (mc_buckets m) (BP_SCALE E)}"
  by (simp add: live_buckets_def)

lemma live_segments_spools:
  "live_segments E (m\<lparr>spools := sp\<rparr>) =
     {s. (spool_of s, sidx s) \<in> family_live sp (mc_segments m) (SP_SCALE E)}"
  by (simp add: live_segments_def)

lemma pools_bpools_simps [simp]:
  "live_segments E (m\<lparr>bpools := bp\<rparr>) = live_segments E m"
  "segment_pools (m\<lparr>bpools := bp\<rparr>) = segment_pools m"
  "live_buckets E (m\<lparr>spools := sp\<rparr>) = live_buckets E m"
  "bucket_pools (m\<lparr>spools := sp\<rparr>) = bucket_pools m"
  by (simp_all add: live_segments_def segment_pools_def live_buckets_def bucket_pools_def)

text \<open>The memory after a new pool of buckets has been mapped, initialised and pushed.\<close>

definition pushed_buckets :: "'b env \<Rightarrow> addr \<Rightarrow> 'b mem \<Rightarrow> 'b mem" where
  "pushed_buckets E a m =
    (let m1 = init_bucket_pool E a (map_region E a (bucket_pool_size E) m)
     in m1\<lparr>bpools := (bpools m1)(a := push_pool (bpools m1 a) (mc_buckets m1)), mc_buckets := Some a\<rparr>)"

lemma pushed_buckets_sel:
  "regions (pushed_buckets E a m) = insert a (regions m)"
  "mc_buckets (pushed_buckets E a m) = Some a"
  "mc_segments (pushed_buckets E a m) = mc_segments m"
  "errno (pushed_buckets E a m) = errno m"
  "spools (pushed_buckets E a m) = (spools m)(a := zero_pool)"
  "bpools (pushed_buckets E a m) = (bpools m)(a := push_pool
     \<lparr>bitmasks = (\<lambda>_. 0), free_count = BP_LENGTH E, next_pool = None\<rparr> (mc_buckets m))"
  "sheap (pushed_buckets E a m) = (\<lambda>s. if spool_of s = a then zero_segment else sheap m s)"
  "dheap (pushed_buckets E a m) = (dheap m)(a := \<lparr>dsize = bucket_pool_size E div 8, dslot = (\<lambda>_. None)\<rparr>)"
  "bheap (pushed_buckets E a m) =
     (\<lambda>r. if bpool_of r = a
          then (if bidx r < BP_LENGTH E then (zero_bucket E)\<lparr>bucket_pool_ptr := a\<rparr> else zero_bucket E)
          else bheap m r)"
  by (auto simp: pushed_buckets_def init_bucket_pool_def map_region_def Let_def zero_pool_def
      cong: if_cong)

definition pushed_segments :: "'b env \<Rightarrow> addr \<Rightarrow> 'b mem \<Rightarrow> 'b mem" where
  "pushed_segments E a m =
    (let m1 = init_segment_pool E a (map_region E a (segment_pool_size E) m)
     in m1\<lparr>spools := (spools m1)(a := push_pool (spools m1 a) (mc_segments m1)), mc_segments := Some a\<rparr>)"

lemma pushed_segments_sel:
  "regions (pushed_segments E a m) = insert a (regions m)"
  "mc_segments (pushed_segments E a m) = Some a"
  "mc_buckets (pushed_segments E a m) = mc_buckets m"
  "errno (pushed_segments E a m) = errno m"
  "bpools (pushed_segments E a m) = (bpools m)(a := zero_pool)"
  "spools (pushed_segments E a m) = (spools m)(a := push_pool
     \<lparr>bitmasks = (\<lambda>_. 0), free_count = SP_LENGTH E, next_pool = None\<rparr> (mc_segments m))"
  "bheap (pushed_segments E a m) = (\<lambda>r. if bpool_of r = a then zero_bucket E else bheap m r)"
  "dheap (pushed_segments E a m) = (dheap m)(a := \<lparr>dsize = segment_pool_size E div 8, dslot = (\<lambda>_. None)\<rparr>)"
  "sheap (pushed_segments E a m) =
     (\<lambda>s. if spool_of s = a
          then (if sidx s < SP_LENGTH E then zero_segment\<lparr>segment_pool_ptr := a\<rparr> else zero_segment)
          else sheap m s)"
  by (auto simp: pushed_segments_def init_segment_pool_def map_region_def Let_def zero_pool_def
      cong: if_cong)

lemma pushed_buckets_correct:
  assumes ok: "memcxt_ok E m" and a: "a \<notin> regions m"
  defines "m' \<equiv> pushed_buckets E a m"
  shows "memcxt_ok E m'" and "live_buckets E m' = insert (Bptr a 0) (live_buckets E m)"
    and "live_segments E m' = live_segments E m" and "segment_pools m' = segment_pools m"
    and "bucket_pools m' = insert a (bucket_pools m)" and "grows m m'"
proof -
  note env = memcxt_ok_env [OF ok]
  note B = memcxt_ok_families(1) [OF ok] and S = memcxt_ok_families(2) [OF ok]
  have push: "family_ok (regions m') (bpools m') (mc_buckets m') (BP_SCALE E)"
    "family_live (bpools m') (mc_buckets m') (BP_SCALE E) =
       insert (a, 0) (family_live (bpools m) (mc_buckets m) (BP_SCALE E))"
    "family (bpools m') (mc_buckets m') = insert a (family (bpools m) (mc_buckets m))"
    unfolding m'_def pushed_buckets_sel using B a env(3) by (intro family_push; simp)+
  have seg: "family_ok (regions m) (spools m') (mc_segments m) (SP_SCALE E)"
    "family (spools m') (mc_segments m) = family (spools m) (mc_segments m)"
    "family_live (spools m') (mc_segments m) (SP_SCALE E) = family_live (spools m) (mc_segments m) (SP_SCALE E)"
    by (rule family_cong [OF S]; use a in \<open>auto simp: m'_def pushed_buckets_sel\<close>)+
  have mc: "mc_segments m' = mc_segments m" "regions m' = insert a (regions m)"
    by (simp_all add: m'_def pushed_buckets_sel)
  show lb: "live_buckets E m' = insert (Bptr a 0) (live_buckets E m)"
    using push(2) by (auto simp: live_buckets_def intro: bptr.expand)
  show "live_segments E m' = live_segments E m" using seg(3) mc by (simp add: live_segments_def)
  show sp: "segment_pools m' = segment_pools m" using seg(2) mc by (simp add: segment_pools_def)
  show bp: "bucket_pools m' = insert a (bucket_pools m)" using push(3) by (simp add: bucket_pools_def)
  show "grows m m'"
    using a by (auto simp: grows_def m'_def pushed_buckets_sel)
  have "family_ok (regions m') (spools m') (mc_segments m') (SP_SCALE E)"
    using family_ok_mono [OF seg(1)] segment_pools_mapped [OF ok] seg(2) mc
    by (auto simp: segment_pools_def)
  moreover have "segment_pool_ptr (sheap m' (Sptr p i)) = p" if "p \<in> segment_pools m" "i < SP_LENGTH E" for p i
    using that ok a segment_pools_mapped [OF ok] by (auto simp: memcxt_ok_def m'_def pushed_buckets_sel)
  moreover have "bucket_pool_ptr (bheap m' (Bptr p i)) = p" if "p \<in> insert a (bucket_pools m)" "i < BP_LENGTH E" for p i
    using that ok a bucket_pools_mapped [OF ok] by (auto simp: memcxt_ok_def m'_def pushed_buckets_sel)
  ultimately show "memcxt_ok E m'"
    using env(1,5,6) push(1) sp bp mc by (simp add: memcxt_ok_def)
qed

lemma pushed_segments_correct:
  assumes ok: "memcxt_ok E m" and a: "a \<notin> regions m"
  defines "m' \<equiv> pushed_segments E a m"
  shows "memcxt_ok E m'" and "live_segments E m' = insert (Sptr a 0) (live_segments E m)"
    and "live_buckets E m' = live_buckets E m" and "bucket_pools m' = bucket_pools m"
    and "segment_pools m' = insert a (segment_pools m)" and "grows m m'"
proof -
  note env = memcxt_ok_env [OF ok]
  note B = memcxt_ok_families(1) [OF ok] and S = memcxt_ok_families(2) [OF ok]
  have push: "family_ok (regions m') (spools m') (mc_segments m') (SP_SCALE E)"
    "family_live (spools m') (mc_segments m') (SP_SCALE E) =
       insert (a, 0) (family_live (spools m) (mc_segments m) (SP_SCALE E))"
    "family (spools m') (mc_segments m') = insert a (family (spools m) (mc_segments m))"
    unfolding m'_def pushed_segments_sel using S a env(4) by (intro family_push; simp)+
  have buc: "family_ok (regions m) (bpools m') (mc_buckets m) (BP_SCALE E)"
    "family (bpools m') (mc_buckets m) = family (bpools m) (mc_buckets m)"
    "family_live (bpools m') (mc_buckets m) (BP_SCALE E) = family_live (bpools m) (mc_buckets m) (BP_SCALE E)"
    by (rule family_cong [OF B]; use a in \<open>auto simp: m'_def pushed_segments_sel\<close>)+
  have mc: "mc_buckets m' = mc_buckets m" "regions m' = insert a (regions m)"
    by (simp_all add: m'_def pushed_segments_sel)
  show lb: "live_segments E m' = insert (Sptr a 0) (live_segments E m)"
    using push(2) by (auto simp: live_segments_def intro: sptr.expand)
  show "live_buckets E m' = live_buckets E m" using buc(3) mc by (simp add: live_buckets_def)
  show bp: "bucket_pools m' = bucket_pools m" using buc(2) mc by (simp add: bucket_pools_def)
  show sp: "segment_pools m' = insert a (segment_pools m)" using push(3) by (simp add: segment_pools_def)
  show "grows m m'"
    using a by (auto simp: grows_def m'_def pushed_segments_sel)
  have "family_ok (regions m') (bpools m') (mc_buckets m') (BP_SCALE E)"
    using family_ok_mono [OF buc(1)] bucket_pools_mapped [OF ok] buc(2) mc
    by (auto simp: bucket_pools_def)
  moreover have "segment_pool_ptr (sheap m' (Sptr p i)) = p" if "p \<in> insert a (segment_pools m)" "i < SP_LENGTH E" for p i
    using that ok a segment_pools_mapped [OF ok] by (auto simp: memcxt_ok_def m'_def pushed_segments_sel)
  moreover have "bucket_pool_ptr (bheap m' (Bptr p i)) = p" if "p \<in> bucket_pools m" "i < BP_LENGTH E" for p i
    using that ok a bucket_pools_mapped [OF ok] by (auto simp: memcxt_ok_def m'_def pushed_segments_sel)
  ultimately show "memcxt_ok E m'"
    using env(1,5) push(1) sp bp mc(2) pushed_segments_sel(2) [of E a m]
    by (simp add: memcxt_ok_def m'_def)
qed

lemma alloc_bucket_cases:
  assumes ok: "memcxt_ok E m"
  obtains (none) "alloc_bucket E m = Some (None, m)" and "\<not> mmap_total E"
  | (some) r m' where "alloc_bucket E m = Some (Some r, m')" and "memcxt_ok E m'"
      and "r \<notin> live_buckets E m" and "live_buckets E m' = insert r (live_buckets E m)"
      and "live_segments E m' = live_segments E m" and "segment_pools m' = segment_pools m"
      and "grows m m'" and "bucket_pools m' \<subseteq> bucket_pools m \<union> - regions m"
proof -
  note B = memcxt_ok_families(1) [OF ok]
  consider (new) "find_free (bpools m) (BP_SCALE E) (mc_buckets m) = Some None"
    | (hit) p s where "find_free (bpools m) (BP_SCALE E) (mc_buckets m) = Some (Some (p, s))"
    using find_free_correct [OF B] by metis
  then show ?thesis
  proof cases
    case hit
    then obtain i pl where t: "take_slot (bpools m p) s = Some (i, pl)"
      "(p, i) \<notin> family_live (bpools m) (mc_buckets m) (BP_SCALE E)"
      "family_ok (regions m) ((bpools m)(p := pl)) (mc_buckets m) (BP_SCALE E)"
      "family_live ((bpools m)(p := pl)) (mc_buckets m) (BP_SCALE E) =
         insert (p, i) (family_live (bpools m) (mc_buckets m) (BP_SCALE E))"
      "family ((bpools m)(p := pl)) (mc_buckets m) = family (bpools m) (mc_buckets m)"
      by (rule family_take [OF B]) blast
    let ?m = "m\<lparr>bpools := (bpools m)(p := pl)\<rparr>"
    have "alloc_bucket E m = Some (Some (Bptr p i), ?m)"
      using hit t(1) by (simp add: alloc_bucket_def)
    moreover have "memcxt_ok E ?m"
      by (rule memcxt_okI_bpools [OF ok t(3)]) (simp add: t(5) bucket_pools_def)
    moreover have "Bptr p i \<notin> live_buckets E m" using t(2) by (simp add: live_buckets_def)
    moreover have "live_buckets E ?m = insert (Bptr p i) (live_buckets E m)"
      unfolding live_buckets_bpools t(4) by (auto simp: live_buckets_def intro: bptr.expand)
    moreover have "bucket_pools ?m = bucket_pools m" using t(5) by (simp add: bucket_pools_def)
    ultimately show ?thesis by (intro some [of "Bptr p i" ?m]) (simp_all add: grows_def)
  next
    case new
    show ?thesis
    proof (rule sri_mmap_cases [OF memcxt_ok_env(2) [OF ok], of None "bucket_pool_size E" m])
      assume "sri_mmap E None (bucket_pool_size E) m = (None, m)" "finite (regions m) \<Longrightarrow> \<not> mmap_total E"
      then show ?thesis using none new memcxt_ok_env(5) [OF ok] by (simp add: alloc_bucket_def new_buckets_def)
    next
      fix a assume a: "sri_mmap E None (bucket_pool_size E) m = (Some a, map_region E a (bucket_pool_size E) m)"
        "a \<notin> regions m"
      then have "alloc_bucket E m = Some (Some (Bptr a 0), pushed_buckets E a m)"
        using new by (simp add: alloc_bucket_def new_buckets_def pushed_buckets_def Let_def)
      moreover have "Bptr a 0 \<notin> live_buckets E m" using live_bucket_mapped [OF ok] a(2) by fastforce
      moreover note pushed_buckets_correct [OF ok a(2)]
      ultimately show ?thesis using a(2) by (intro some) auto
    qed
  qed
qed

lemma free_bucket_correct:
  assumes ok: "memcxt_ok E m" and r: "r \<in> live_buckets E m"
  obtains m' where "free_bucket E r m = Some m'" and "memcxt_ok E m'" and "same_store m m'"
    and "live_buckets E m' = live_buckets E m - {r}" and "live_segments E m' = live_segments E m"
    and "segment_pools m' = segment_pools m" and "bucket_pools m' = bucket_pools m"
proof -
  note B = memcxt_ok_families(1) [OF ok]
  obtain p i where rp: "r = Bptr p i" by (cases r)
  then have "(p, i) \<in> family_live (bpools m) (mc_buckets m) (BP_SCALE E)"
    using r by (simp add: live_buckets_def)
  then obtain pl where g: "give_slot (bpools m p) i (BP_SCALE E * 64) = Some pl"
    "family_ok (regions m) ((bpools m)(p := pl)) (mc_buckets m) (BP_SCALE E)"
    "family_live ((bpools m)(p := pl)) (mc_buckets m) (BP_SCALE E) =
       family_live (bpools m) (mc_buckets m) (BP_SCALE E) - {(p, i)}"
    "family ((bpools m)(p := pl)) (mc_buckets m) = family (bpools m) (mc_buckets m)"
    by (rule family_give [OF B])
  have pi: "p \<in> bucket_pools m" "i < BP_LENGTH E" using live_bucketD [OF r] rp by auto
  then have "bucket_pool_ptr (bheap m (Bptr p i)) = p" using ok by (simp add: memcxt_ok_def)
  then have "free_bucket E r m = Some (m\<lparr>bpools := (bpools m)(p := pl)\<rparr>)"
    using g(1) pi(2) by (simp add: free_bucket_def rp)
  moreover have "memcxt_ok E (m\<lparr>bpools := (bpools m)(p := pl)\<rparr>)"
    by (rule memcxt_okI_bpools [OF ok g(2)]) (simp add: g(4) bucket_pools_def)
  moreover have "live_buckets E (m\<lparr>bpools := (bpools m)(p := pl)\<rparr>) = live_buckets E m - {r}"
    unfolding live_buckets_bpools g(3) by (auto simp: live_buckets_def rp intro: bptr.expand)
  moreover have "bucket_pools (m\<lparr>bpools := (bpools m)(p := pl)\<rparr>) = bucket_pools m"
    using g(4) by (simp add: bucket_pools_def)
  ultimately show ?thesis by (intro that [of "m\<lparr>bpools := (bpools m)(p := pl)\<rparr>"]) (simp_all add: same_store_def)
qed

lemma alloc_segment_cases:
  assumes ok: "memcxt_ok E m"
  obtains (none) "alloc_segment E m = Some (None, m)" and "\<not> mmap_total E"
  | (some) s m' where "alloc_segment E m = Some (Some s, m')" and "memcxt_ok E m'"
      and "s \<notin> live_segments E m" and "live_segments E m' = insert s (live_segments E m)"
      and "live_buckets E m' = live_buckets E m" and "bucket_pools m' = bucket_pools m"
      and "grows m m'" and "segment_pools m' \<subseteq> segment_pools m \<union> - regions m"
      and "free_segments_clear E m \<Longrightarrow> free_segments_clear E m' \<and> segment_clear (sheap m' s)"
proof -
  note S = memcxt_ok_families(2) [OF ok]
  consider (new) "find_free (spools m) (SP_SCALE E) (mc_segments m) = Some None"
    | (hit) p s where "find_free (spools m) (SP_SCALE E) (mc_segments m) = Some (Some (p, s))"
    using find_free_correct [OF S] by metis
  then show ?thesis
  proof cases
    case hit
    then obtain i pl where t: "take_slot (spools m p) s = Some (i, pl)"
      "(p, i) \<notin> family_live (spools m) (mc_segments m) (SP_SCALE E)"
      "p \<in> family (spools m) (mc_segments m)" "i < SP_LENGTH E"
      "family_ok (regions m) ((spools m)(p := pl)) (mc_segments m) (SP_SCALE E)"
      "family_live ((spools m)(p := pl)) (mc_segments m) (SP_SCALE E) =
         insert (p, i) (family_live (spools m) (mc_segments m) (SP_SCALE E))"
      "family ((spools m)(p := pl)) (mc_segments m) = family (spools m) (mc_segments m)"
      by (rule family_take [OF S]) blast
    let ?m = "m\<lparr>spools := (spools m)(p := pl)\<rparr>"
    have "alloc_segment E m = Some (Some (Sptr p i), ?m)"
      using hit t(1) by (simp add: alloc_segment_def)
    moreover have "memcxt_ok E ?m"
      by (rule memcxt_okI_spools [OF ok t(5)]) (simp add: t(7) segment_pools_def)
    moreover have nl: "Sptr p i \<notin> live_segments E m" using t(2) by (simp add: live_segments_def)
    moreover have li: "live_segments E ?m = insert (Sptr p i) (live_segments E m)"
      unfolding live_segments_spools t(6) by (auto simp: live_segments_def intro: sptr.expand)
    moreover have pools: "segment_pools ?m = segment_pools m" using t(7) by (simp add: segment_pools_def)
    moreover have "free_segments_clear E m \<Longrightarrow> free_segments_clear E ?m \<and> segment_clear (sheap ?m (Sptr p i))"
      using nl li pools t(3,4) by (simp add: free_segments_clear_def segment_pools_def)
    ultimately show ?thesis by (intro some [of "Sptr p i" ?m]) (simp_all add: grows_def)
  next
    case new
    show ?thesis
    proof (rule sri_mmap_cases [OF memcxt_ok_env(2) [OF ok], of None "segment_pool_size E" m])
      assume "sri_mmap E None (segment_pool_size E) m = (None, m)" "finite (regions m) \<Longrightarrow> \<not> mmap_total E"
      then show ?thesis using none new memcxt_ok_env(5) [OF ok] by (simp add: alloc_segment_def new_segments_def)
    next
      fix a assume a: "sri_mmap E None (segment_pool_size E) m = (Some a, map_region E a (segment_pool_size E) m)"
        "a \<notin> regions m"
      let ?m = "pushed_segments E a m"
      have "alloc_segment E m = Some (Some (Sptr a 0), ?m)"
        using new a(1) by (simp add: alloc_segment_def new_segments_def pushed_segments_def Let_def)
      moreover have "Sptr a 0 \<notin> live_segments E m" using live_segment_mapped [OF ok] a(2) by fastforce
      moreover note push = pushed_segments_correct [OF ok a(2)]
      moreover have "free_segments_clear E m \<Longrightarrow> free_segments_clear E ?m \<and> segment_clear (sheap ?m (Sptr a 0))"
        unfolding free_segments_clear_def push(2,5)
        using a(2) segment_pools_mapped [OF ok] by (auto simp: pushed_segments_sel zero_segment_def segment_clear_def)
      ultimately show ?thesis using a(2) by (intro some) auto
    qed
  qed
qed

lemma free_segment_correct:
  assumes ok: "memcxt_ok E m" and s: "s \<in> live_segments E m"
  obtains m' where "free_segment E s m = Some m'" and "memcxt_ok E m'" and "same_store m m'"
    and "live_segments E m' = live_segments E m - {s}" and "live_buckets E m' = live_buckets E m"
    and "bucket_pools m' = bucket_pools m" and "segment_pools m' = segment_pools m"
proof -
  note S = memcxt_ok_families(2) [OF ok]
  obtain p i where sp: "s = Sptr p i" by (cases s)
  then have "(p, i) \<in> family_live (spools m) (mc_segments m) (SP_SCALE E)"
    using s by (simp add: live_segments_def)
  then obtain pl where g: "give_slot (spools m p) i (SP_SCALE E * 64) = Some pl"
    "family_ok (regions m) ((spools m)(p := pl)) (mc_segments m) (SP_SCALE E)"
    "family_live ((spools m)(p := pl)) (mc_segments m) (SP_SCALE E) =
       family_live (spools m) (mc_segments m) (SP_SCALE E) - {(p, i)}"
    "family ((spools m)(p := pl)) (mc_segments m) = family (spools m) (mc_segments m)"
    by (rule family_give [OF S])
  have pi: "p \<in> segment_pools m" "i < SP_LENGTH E" using live_segmentD [OF s] sp by auto
  then have "segment_pool_ptr (sheap m (Sptr p i)) = p" using ok by (simp add: memcxt_ok_def)
  then have "free_segment E s m = Some (m\<lparr>spools := (spools m)(p := pl)\<rparr>)"
    using g(1) pi(2) by (simp add: free_segment_def sp)
  moreover have "memcxt_ok E (m\<lparr>spools := (spools m)(p := pl)\<rparr>)"
    by (rule memcxt_okI_spools [OF ok g(2)]) (simp add: g(4) segment_pools_def)
  moreover have "live_segments E (m\<lparr>spools := (spools m)(p := pl)\<rparr>) = live_segments E m - {s}"
    unfolding live_segments_spools g(3) by (auto simp: live_segments_def sp intro: sptr.expand)
  moreover have "segment_pools (m\<lparr>spools := (spools m)(p := pl)\<rparr>) = segment_pools m"
    using g(4) by (simp add: segment_pools_def)
  ultimately show ?thesis by (intro that [of "m\<lparr>spools := (spools m)(p := pl)\<rparr>"]) (simp_all add: same_store_def)
qed

section \<open>The allocator interface\<close>

locale slot_allocator =
  fixes alloc :: "'m \<Rightarrow> ('p option \<times> 'm) option"
    and release :: "'p \<Rightarrow> 'm \<Rightarrow> 'm option"
    and live :: "'m \<Rightarrow> 'p set"
    and ok :: "'m \<Rightarrow> bool"
  assumes alloc_total: "ok m \<Longrightarrow> \<exists>r m'. alloc m = Some (r, m') \<and> ok m'"
    and alloc_fail: "ok m \<Longrightarrow> alloc m = Some (None, m') \<Longrightarrow> live m' = live m"
    and alloc_fresh: "ok m \<Longrightarrow> alloc m = Some (Some p, m') \<Longrightarrow> p \<notin> live m"
    and alloc_live: "ok m \<Longrightarrow> alloc m = Some (Some p, m') \<Longrightarrow> live m' = insert p (live m)"
    and release_total: "ok m \<Longrightarrow> p \<in> live m \<Longrightarrow> \<exists>m'. release p m = Some m' \<and> ok m'"
    and release_live: "ok m \<Longrightarrow> p \<in> live m \<Longrightarrow> release p m = Some m' \<Longrightarrow> live m' = live m - {p}"

text \<open>
  A client of an allocator: a sequence of requests, each either asking for an object or giving back
  the \<open>i\<close>-th object it holds.
\<close>

datatype request = Get | Put nat

fun drop_nth :: "nat \<Rightarrow> 'a list \<Rightarrow> 'a list" where
  "drop_nth i [] = []"
| "drop_nth 0 (x # xs) = xs"
| "drop_nth (Suc i) (x # xs) = x # drop_nth i xs"

fun serve ::
  "('m \<Rightarrow> ('p option \<times> 'm) option) \<Rightarrow> ('p \<Rightarrow> 'm \<Rightarrow> 'm option) \<Rightarrow> request list \<Rightarrow> 'p list \<Rightarrow> 'm
     \<Rightarrow> ('p list \<times> 'm) option" where
  "serve alloc release [] held m = Some (held, m)"
| "serve alloc release (Get # rs) held m = do {
     (r, m) \<leftarrow> alloc m;
     serve alloc release rs (case r of None \<Rightarrow> held | Some p \<Rightarrow> p # held) m }"
| "serve alloc release (Put i # rs) held m =
     (if i < length held
      then do { m \<leftarrow> release (held ! i) m; serve alloc release rs (drop_nth i held) m }
      else serve alloc release rs held m)"

lemma drop_nth_distinct:
  assumes "distinct xs" and "i < length xs"
  shows "distinct (drop_nth i xs)" and "set (drop_nth i xs) = set xs - {xs ! i}"
proof -
  have "distinct (drop_nth i xs) \<and> set (drop_nth i xs) = set xs - {xs ! i}"
    using assms
  proof (induction i xs rule: drop_nth.induct)
    case (3 i x xs)
    then have IH: "distinct (drop_nth i xs)" "set (drop_nth i xs) = set xs - {xs ! i}" by simp_all
    have "x \<notin> set xs" "xs ! i \<in> set xs" using "3.prems" by auto
    then show ?case using IH by auto
  qed auto
  then show "distinct (drop_nth i xs)" and "set (drop_nth i xs) = set xs - {xs ! i}" by simp_all
qed

context slot_allocator begin

text \<open>No sequence of requests faults, and no object is held twice.\<close>

lemma serve_safe:
  assumes "ok m" and "distinct held" and "set held \<subseteq> live m"
  shows "\<exists>held' m'. serve alloc release rs held m = Some (held', m') \<and>
    ok m' \<and> distinct held' \<and> set held' \<subseteq> live m' \<and> live m' - set held' = live m - set held"
  using assms
proof (induction rs arbitrary: held m)
  case Nil
  then show ?case by simp
next
  case (Cons q rs)
  show ?case
  proof (cases q)
    case Get
    obtain r m1 where a: "alloc m = Some (r, m1)" "ok m1" using alloc_total Cons.prems(1) by blast
    show ?thesis
    proof (cases r)
      case None
      with a alloc_fail Cons.prems(1) have l: "live m1 = live m" by blast
      then have "set held \<subseteq> live m1" using Cons.prems(3) by simp
      moreover have "serve alloc release (q # rs) held m = serve alloc release rs held m1"
        using Get a(1) None by simp
      ultimately show ?thesis using Cons.IH [OF a(2) Cons.prems(2)] l by (simp only:)
    next
      case (Some p)
      have p: "p \<notin> live m" "live m1 = insert p (live m)"
        using alloc_fresh alloc_live a Some Cons.prems(1) by blast+
      then have "distinct (p # held)" "set (p # held) \<subseteq> live m1" using Cons.prems(2,3) by auto
      moreover have "serve alloc release (q # rs) held m = serve alloc release rs (p # held) m1"
        using Get a(1) Some by simp
      moreover have "live m1 - set (p # held) = live m - set held" using p Cons.prems(3) by auto
      ultimately show ?thesis using Cons.IH [OF a(2), of "p # held"] by (simp only:)
    qed
  next
    case (Put i)
    show ?thesis
    proof (cases "i < length held")
      case False
      have "serve alloc release (q # rs) held m = serve alloc release rs held m"
        using False Put by simp
      then show ?thesis using Cons.IH [OF Cons.prems] by (simp only:)
    next
      case True
      then have h: "held ! i \<in> live m" using Cons.prems(3) by auto
      obtain m1 where r: "release (held ! i) m = Some m1" "ok m1"
        using release_total Cons.prems(1) h by blast
      have l: "live m1 = live m - {held ! i}" using release_live Cons.prems(1) h r(1) by blast
      have d: "distinct (drop_nth i held)" "set (drop_nth i held) = set held - {held ! i}"
        using drop_nth_distinct [OF Cons.prems(2) True] by simp_all
      then have "set (drop_nth i held) \<subseteq> live m1" using l Cons.prems(3) by auto
      moreover have "live m1 - set (drop_nth i held) = live m - set held"
        unfolding l d(2) using nth_mem [OF True] by blast
      moreover have "serve alloc release (q # rs) held m = serve alloc release rs (drop_nth i held) m1"
        using r(1) True Put by simp
      ultimately show ?thesis using Cons.IH [OF r(2) d(1)] by (simp only:)
    qed
  qed
qed

end

interpretation bucket_alloc: slot_allocator "alloc_bucket E" "free_bucket E" "live_buckets E" "memcxt_ok E"
  for E :: "'b env"
proof unfold_locales
  fix m :: "'b mem" and m' p
  assume ok: "memcxt_ok E m"
  show "\<exists>r m'. alloc_bucket E m = Some (r, m') \<and> memcxt_ok E m'"
    by (rule alloc_bucket_cases [OF ok]) (use ok in auto)
  show "live_buckets E m' = live_buckets E m" if "alloc_bucket E m = Some (None, m')"
    by (rule alloc_bucket_cases [OF ok]) (use that in auto)
  show "p \<notin> live_buckets E m" if "alloc_bucket E m = Some (Some p, m')"
    by (rule alloc_bucket_cases [OF ok]) (use that in auto)
  show "live_buckets E m' = insert p (live_buckets E m)" if "alloc_bucket E m = Some (Some p, m')"
    by (rule alloc_bucket_cases [OF ok]) (use that in auto)
  assume p: "p \<in> live_buckets E m"
  show "\<exists>m'. free_bucket E p m = Some m' \<and> memcxt_ok E m'"
    by (rule free_bucket_correct [OF ok p]) auto
  show "live_buckets E m' = live_buckets E m - {p}" if "free_bucket E p m = Some m'"
    by (rule free_bucket_correct [OF ok p]) (use that in auto)
qed

interpretation segment_alloc: slot_allocator "alloc_segment E" "free_segment E" "live_segments E" "memcxt_ok E"
  for E :: "'b env"
proof unfold_locales
  fix m :: "'b mem" and m' p
  assume ok: "memcxt_ok E m"
  show "\<exists>r m'. alloc_segment E m = Some (r, m') \<and> memcxt_ok E m'"
    by (rule alloc_segment_cases [OF ok]) (use ok in auto)
  show "live_segments E m' = live_segments E m" if "alloc_segment E m = Some (None, m')"
    by (rule alloc_segment_cases [OF ok]) (use that in auto)
  show "p \<notin> live_segments E m" if "alloc_segment E m = Some (Some p, m')"
    by (rule alloc_segment_cases [OF ok]) (use that in auto)
  show "live_segments E m' = insert p (live_segments E m)" if "alloc_segment E m = Some (Some p, m')"
    by (rule alloc_segment_cases [OF ok]) (use that in auto)
  assume p: "p \<in> live_segments E m"
  show "\<exists>m'. free_segment E p m = Some m' \<and> memcxt_ok E m'"
    by (rule free_segment_correct [OF ok p]) auto
  show "live_segments E m' = live_segments E m - {p}" if "free_segment E p m = Some m'"
    by (rule free_segment_correct [OF ok p]) (use that in auto)
qed

section \<open>Initialisation\<close>

lemma family_single:
  assumes "next_pool (pools a) = None" and "\<And>s. s < n \<Longrightarrow> bitmasks (pools a) s = 0"
    and "free_count (pools a) = n * 64" and "a \<in> R"
  shows "family_ok R pools (Some a) n" and "family pools (Some a) = {a}"
    and "family_live pools (Some a) n = {}"
proof -
  have c: "chain (pool_links pools) (Some a) [a]" using assms(1) by simp
  have nu: "\<not> slot_used (pools a) i" if "i < n * 64" for i
    using that assms(2) by (simp add: slot_used_def less_mult_imp_div_less)
  then have "free_set (pools a) n = {..<n * 64}" by (auto simp: free_set_def)
  then have "pool_ok (pools a) n" using assms(3) by (simp add: pool_ok_def)
  then show "family_ok R pools (Some a) n"
    unfolding family_ok_def using c assms(4) by (intro exI [of _ "[a]"]) auto
  show f: "family pools (Some a) = {a}" using family_chain [OF c] by simp
  show "family_live pools (Some a) n = {}" using f nu by (auto simp: family_live_def)
qed

lemma init_memcxt_cases:
  assumes "env_ok E" and "finite (regions m)"
  obtains (fail) m' where "init_memcxt E m = (False, m')"
  | (ok) m' where "init_memcxt E m = (True, m')" and "memcxt_ok E m'" and "live_buckets E m' = {}"
      and "live_segments E m' = {}" and "free_segments_clear E m'" and "errno m' = errno m"
proof -
  have fresh: "mmap_fresh E" using assms(1) by (simp add: env_ok_def)
  obtain b m' where im: "init_memcxt E m = (b, m')" by (cases "init_memcxt E m")
  show ?thesis
  proof (cases b)
    case False
    then show ?thesis using im fail by simp
  next
    case True
    obtain a where a: "sri_mmap E None (segment_pool_size E) m = (Some a, map_region E a (segment_pool_size E) m)"
      "a \<notin> regions m"
      by (rule sri_mmap_cases [OF fresh, of None "segment_pool_size E" m])
        (use im True in \<open>auto simp: init_memcxt_def new_segments_def split: prod.splits\<close>)
    define m1 where "m1 = (init_segment_pool E a (map_region E a (segment_pool_size E) m))\<lparr>mc_segments := Some a\<rparr>"
    have im1: "init_memcxt E m = (let (bucks, m2) = new_buckets E m1 in (bucks \<noteq> None, m2\<lparr>mc_buckets := bucks\<rparr>))"
      using a(1) by (simp add: init_memcxt_def new_segments_def m1_def Let_def split: prod.splits)
    obtain c where c: "sri_mmap E None (bucket_pool_size E) m1 = (Some c, map_region E c (bucket_pool_size E) m1)"
      "c \<notin> regions m1"
      by (rule sri_mmap_cases [OF fresh, of None "bucket_pool_size E" m1])
        (use im True im1 in \<open>auto simp: new_buckets_def split: prod.splits\<close>)
    have m': "m' = (init_bucket_pool E c (map_region E c (bucket_pool_size E) m1))\<lparr>mc_buckets := Some c\<rparr>"
      using im im1 c(1) by (simp add: new_buckets_def)
    have ac: "a \<noteq> c" using c(2) by (simp add: m1_def init_segment_pool_def map_region_def)
    have sel: "mc_segments m' = Some a" "mc_buckets m' = Some c" "a \<in> regions m'" "c \<in> regions m'"
      "spools m' a = \<lparr>bitmasks = (\<lambda>_. 0), free_count = SP_LENGTH E, next_pool = None\<rparr>"
      "bpools m' c = \<lparr>bitmasks = (\<lambda>_. 0), free_count = BP_LENGTH E, next_pool = None\<rparr>"
      "errno m' = errno m"
      using ac by (auto simp: m' m1_def init_segment_pool_def init_bucket_pool_def map_region_def zero_pool_def)
    have ptrs: "bucket_pool_ptr (bheap m' (Bptr c i)) = c" if "i < BP_LENGTH E" for i
      using that by (simp add: m' init_bucket_pool_def map_region_def)
    have segs: "sheap m' (Sptr a i) = zero_segment\<lparr>segment_pool_ptr := a\<rparr>" if "i < SP_LENGTH E" for i
      using that ac by (simp add: m' m1_def init_segment_pool_def init_bucket_pool_def map_region_def)
    have B: "family_ok (regions m') (bpools m') (Some c) (BP_SCALE E)" "family (bpools m') (Some c) = {c}"
      "family_live (bpools m') (Some c) (BP_SCALE E) = {}"
      using family_single [of "bpools m'" c "BP_SCALE E" "regions m'"] by (simp_all add: sel)
    have S: "family_ok (regions m') (spools m') (Some a) (SP_SCALE E)" "family (spools m') (Some a) = {a}"
      "family_live (spools m') (Some a) (SP_SCALE E) = {}"
      using family_single [of "spools m'" a "SP_SCALE E" "regions m'"] by (simp_all add: sel)
    have "regions m' = {a, c} \<union> regions m"
      by (auto simp: m' m1_def init_segment_pool_def init_bucket_pool_def map_region_def)
    then have "memcxt_ok E m'"
      using B S ptrs segs assms by (simp add: memcxt_ok_def sel bucket_pools_def segment_pools_def)
    moreover have "live_buckets E m' = {}" using B(3) by (simp add: live_buckets_def sel)
    moreover have "live_segments E m' = {}" using S(3) by (simp add: live_segments_def sel)
    moreover have "free_segments_clear E m'"
      unfolding free_segments_clear_def
    proof (intro allI impI)
      fix s assume s: "spool_of s \<in> segment_pools m' \<and> sidx s < SP_LENGTH E \<and> s \<notin> live_segments E m'"
      then have "s = Sptr a (sidx s)" using S(2) by (cases s) (simp add: segment_pools_def sel)
      then have "sheap m' s = zero_segment\<lparr>segment_pool_ptr := a\<rparr>" using segs [of "sidx s"] s by simp
      then show "segment_clear (sheap m' s)" by (simp add: zero_segment_def segment_clear_def)
    qed
    moreover have "init_memcxt E m = (True, m')" using im True by simp
    ultimately show ?thesis using sel(7) by (intro ok)
  qed
qed

lemma init_memcxt_total:
  assumes "env_ok E" and "finite (regions m)" and "mmap_total E"
  shows "fst (init_memcxt E m)"
proof -
  have fresh: "mmap_fresh E" using assms(1) by (simp add: env_ok_def)
  have fin: "finite (regions (init_segment_pool E a (map_region E a sz m)))" for a sz
    using assms(2) by (simp add: init_segment_pool_def map_region_def)
  obtain a m1 where a: "new_segments E m = (Some a, m1)" "finite (regions m1)"
    by (rule sri_mmap_cases [OF fresh, of None "segment_pool_size E" m])
      (use assms(2,3) fin in \<open>auto simp: new_segments_def\<close>)
  obtain b m2 where b: "new_buckets E (m1\<lparr>mc_segments := Some a\<rparr>) = (Some b, m2)"
    by (rule sri_mmap_cases [OF fresh, of None "bucket_pool_size E" "m1\<lparr>mc_segments := Some a\<rparr>"])
      (use assms(3) a(2) in \<open>auto simp: new_buckets_def\<close>)
  show ?thesis using a(1) b by (simp add: init_memcxt_def)
qed

section \<open>A concrete operating system\<close>

text \<open>
  For the witnesses: an \<open>mmap\<close> that always maps a region above all others, and a memory before any
  mapping.
\<close>

definition first_fit :: "addr set \<Rightarrow> addr option \<Rightarrow> nat \<Rightarrow> addr option" where
  "first_fit R hint sz = (if finite R then Some (Suc (Max (insert 0 R))) else None)"

lemma first_fit_fresh: "first_fit R h n = Some a \<Longrightarrow> a \<notin> R"
proof
  assume "first_fit R h n = Some a" and "a \<in> R"
  then have "finite R" and "a = Suc (Max (insert 0 R))" by (auto simp: first_fit_def split: if_splits)
  moreover from this \<open>a \<in> R\<close> have "a \<le> Max (insert 0 R)" by (intro Max_ge) auto
  ultimately show False by simp
qed

definition boot_mem :: "'b env \<Rightarrow> 'b mem" where
  "boot_mem E =
     \<lparr>regions = {}, bheap = (\<lambda>_. zero_bucket E), sheap = (\<lambda>_. zero_segment),
      dheap = (\<lambda>_. \<lparr>dsize = 0, dslot = (\<lambda>_. None)\<rparr>), bpools = (\<lambda>_. zero_pool),
      spools = (\<lambda>_. zero_pool), mc_segments = None, mc_buckets = None, errno = None\<rparr>"

lemma boot_mem_regions [simp]: "regions (boot_mem E) = {}"
  by (simp add: boot_mem_def)

lemma init_memcxt_first_fit:
  assumes "os_mmap E = first_fit" and "0 < BP_SCALE E" and "0 < SP_SCALE E"
  shows "env_ok E" and "fst (init_memcxt E (boot_mem E))"
    and "regions (snd (init_memcxt E (boot_mem E))) = {1, 2}"
proof -
  show "env_ok E"
    using assms first_fit_fresh by (auto simp: env_ok_def mmap_fresh_def)
  show "fst (init_memcxt E (boot_mem E))" "regions (snd (init_memcxt E (boot_mem E))) = {1, 2}"
    using assms(1)
    by (auto simp: init_memcxt_def new_segments_def new_buckets_def sri_mmap_def first_fit_def boot_mem_def
        map_region_def init_segment_pool_def init_bucket_pool_def Let_def)
qed

definition example_env :: "unit env" where
  "example_env =
     \<lparr>os_mmap = first_fit, zero_bucket = \<lparr>chunk = 0, next_bucket = None, bucket_pool_ptr = 0\<rparr>,
      BP_SCALE = 1024, SP_SCALE = 8, sizeof_bucket = 88, hash_ptr = (\<lambda>p. ucast (Fingerprint p))\<rparr>"

definition example_mem :: "unit mem" where
  "example_mem = snd (init_memcxt example_env (boot_mem example_env))"

lemma example_mem_ok: "memcxt_ok example_env example_mem"
proof -
  have e: "env_ok example_env" "fst (init_memcxt example_env (boot_mem example_env))"
    by (rule init_memcxt_first_fit; simp add: example_env_def)+
  show ?thesis
    by (rule init_memcxt_cases [OF e(1), of "boot_mem example_env"])
      (use e(2) boot_mem_regions in \<open>auto simp: example_mem_def\<close>)
qed

section \<open>Properties\<close>

text \<open>
  when \<open>init_memcxt\<close> succeeds it leaves two well-formed pools with every slot free and every
  segment slot cleared, whatever the memory was before; it can only fail through \<open>mmap\<close>.
\<close>

theorem init_memcxt_establishes_pools:
  assumes "env_ok E" and "finite (regions m)" and "init_memcxt E m = (True, m')"
  shows "memcxt_ok E m' \<and> live_buckets E m' = {} \<and> live_segments E m' = {} \<and> free_segments_clear E m'"
  by (rule init_memcxt_cases [OF assms(1,2)]) (use assms(3) in auto)

theorem init_memcxt_establishes_pools_witness:
  "\<exists>m'. init_memcxt example_env (boot_mem example_env) = (True, m') \<and> live_buckets example_env m' = {}"
proof -
  have e: "env_ok example_env" "fst (init_memcxt example_env (boot_mem example_env))"
    by (rule init_memcxt_first_fit; simp add: example_env_def)+
  then obtain m' where m': "init_memcxt example_env (boot_mem example_env) = (True, m')"
    by (metis prod.collapse)
  with init_memcxt_establishes_pools [OF e(1) _ m'] show ?thesis by simp
qed





text \<open>
  a free bit is found exactly: on every mask that is not full, \<open>get_free_bit\<close> returns the lowest
  clear bit, and setting it makes \<open>get_bit\<close> true there and nowhere else new.
\<close>

theorem get_free_bit_lowest:
  assumes "msk \<noteq> - 1"
  shows "\<exists>i w. get_free_bit msk = Some i \<and> i < 64 \<and> \<not> bit msk i \<and> (\<forall>j<i. bit msk j) \<and>
    set_bit_c msk i = Some w \<and> (\<forall>j. bit w j \<longleftrightarrow> bit msk j \<or> j = i)"
proof -
  obtain i where i: "get_free_bit msk = Some i" "i < 64" "\<not> bit msk i"
    using assms by (rule get_free_bit_correct)
  have nz: "NOT msk \<noteq> 0" using assms by (metis bit.compl_zero bit.double_compl)
  then have il: "i = (LEAST j. bit (NOT msk) j)"
    using i(1) assms by (simp add: get_free_bit_def ctz64_eq)
  have low: "bit msk j" if "j < i" for j
    using not_less_Least [of j "bit (NOT msk)"] that il i(2) by (auto simp: bit_not_iff)
  have "set_bit_c msk i = Some (msk OR push_bit i 1)"
    using i(2) by (simp add: set_bit_c_def BITS_IN_MASK_def)
  moreover have "bit (msk OR push_bit i 1) j \<longleftrightarrow> bit msk j \<or> j = i" for j
    using i(2) by (auto simp: bit_simps)
  ultimately show ?thesis using i low by blast
qed

theorem get_free_bit_lowest_witness: "\<exists>i. get_free_bit 7 = Some i \<and> \<not> bit (7 :: u64) i \<and> (\<forall>j<i. bit (7 :: u64) j)"
  using get_free_bit_lowest [of 7] by auto

end
