(* ===== verification/Metadata.thy ===== *)
theory Metadata
  imports Memcxt_Inv
begin

text \<open>
  \<open>src/sri-glibc/malloc/metadata.c\<close> and \<open>metadata.h\<close>: Larson's dynamic hashing. A table is a
  directory of segments, a segment an array of 256 bins, a bin a chain of buckets linked by
  \<open>next_bucket\<close>. The model works on the same memory as the code: bins and links are written one
  at a time, loops follow the chains, and every \<open>assert\<close>, every \<open>NULL\<close> dereference and every
  access outside a mapped directory makes the run \<open>None\<close>.

  The counters of a table other than \<open>count\<close> are natural numbers: the guards of the code keep them
  below \<open>bincount_max = 2^32 - 1\<close>, and the one place where a \<open>size_t\<close> wraps
  (\<open>p -= 1\<close> in \<open>metadata_contract_table\<close>) is written out. \<open>count\<close> is a 64 bit word.
\<close>

section \<open>Data\<close>

definition SEGMENT_LENGTH :: nat where
  "SEGMENT_LENGTH = 256"

definition DIRECTORY_LENGTH :: nat where
  "DIRECTORY_LENGTH = 1024"

definition UINT32_MAX :: nat where
  "UINT32_MAX = 4294967295"

record metadata_cfg =
  segment_length :: nat
  initial_directory_length :: nat
  directory_length_max :: nat
  bincount_max :: nat
  min_load :: nat
  max_load :: nat
  multithreaded :: bool

record metadata =
  cfg :: metadata_cfg
  directory :: "addr option"
  directory_length :: nat
  directory_current :: nat
  tN :: nat
  tL :: nat
  tp :: nat
  tcount :: u64
  maxp :: nat
  bincount :: nat

text \<open>The entries of \<open>chunkinfo.h\<close>, after the fields every bucket has.\<close>

record chunkinfo = bucket +
  prev_size :: u64
  csize :: u64
  fd :: "bptr option"
  bk :: "bptr option"
  fd_nextsize :: "bptr option"
  bk_nextsize :: "bptr option"
  md_next :: "bptr option"
  md_prev :: "bptr option"

section \<open>Memory accesses\<close>

type_synonym cell = "sptr \<times> nat"

definition get_bin :: "'b mem \<Rightarrow> cell \<Rightarrow> bptr option" where
  "get_bin m c = bins (sheap m (fst c)) (snd c)"

definition set_bin :: "'b mem \<Rightarrow> cell \<Rightarrow> bptr option \<Rightarrow> 'b mem" where
  "set_bin m c v =
     m\<lparr>sheap := (sheap m)(fst c := (sheap m (fst c))\<lparr>bins := (bins (sheap m (fst c)))(snd c := v)\<rparr>)\<rparr>"

definition get_next :: "'b mem \<Rightarrow> bptr \<Rightarrow> bptr option" where
  "get_next m r = next_bucket (bheap m r)"

definition set_next :: "'b mem \<Rightarrow> bptr \<Rightarrow> bptr option \<Rightarrow> 'b mem" where
  "set_next m r v = m\<lparr>bheap := (bheap m)(r := (bheap m r)\<lparr>next_bucket := v\<rparr>)\<rparr>"

definition dir_get :: "'b mem \<Rightarrow> addr option \<Rightarrow> nat \<Rightarrow> sptr option option" where
  "dir_get m dir i = do {
     d \<leftarrow> dir;
     assert_c (d \<in> regions m \<and> i < dsize (dheap m d));
     Some (dslot (dheap m d) i) }"

definition dir_set :: "'b mem \<Rightarrow> addr option \<Rightarrow> nat \<Rightarrow> sptr option \<Rightarrow> 'b mem option" where
  "dir_set m dir i v = do {
     d \<leftarrow> dir;
     assert_c (d \<in> regions m \<and> i < dsize (dheap m d));
     Some (m\<lparr>dheap := (dheap m)(d := (dheap m d)\<lparr>dslot := (dslot (dheap m d))(i := v)\<rparr>)\<rparr>) }"

section \<open>Configuration and initialisation\<close>

definition metadata_load :: "metadata \<Rightarrow> nat" where
  "metadata_load lhtbl = unat (tcount lhtbl) div bincount lhtbl"

definition metadata_cfg_init :: "metadata_cfg option" where
  "metadata_cfg_init = do {
     let c = \<lparr>segment_length = SEGMENT_LENGTH, initial_directory_length = DIRECTORY_LENGTH,
              directory_length_max = UINT32_MAX div SEGMENT_LENGTH, bincount_max = UINT32_MAX,
              min_load = 2, max_load = 3, multithreaded = False\<rparr>;
     assert_c (is_power_of_two (of_nat (segment_length c)));
     assert_c (is_power_of_two (of_nat (initial_directory_length c)));
     Some c }"

text \<open>The loop that creates the start segments; it stops at the first failed allocation.\<close>

fun create_segments ::
  "'b env \<Rightarrow> addr option \<Rightarrow> nat \<Rightarrow> nat \<Rightarrow> 'b mem \<Rightarrow> (bool \<times> 'b mem) option" where
  "create_segments E dir index 0 m = Some (True, m)"
| "create_segments E dir index (Suc n) m = do {
     (seg, m) \<leftarrow> memcxt_allocate E SEGMENT None sizeof_segment m;
     m \<leftarrow> dir_set m dir index (map_option seg_ptr seg);
     if seg = None then Some (False, m\<lparr>errno := Some ENOMEM\<rparr>)
     else create_segments E dir (Suc index) n m }"

text \<open>
  The body of \<open>init_metadata\<close> after the configuration: \<open>lphash.c\<close> has the same text. The second
  component of the result is the table as far as it has been filled in.
\<close>

definition init_table ::
  "'b env \<Rightarrow> metadata_cfg \<Rightarrow> nat \<Rightarrow> metadata \<Rightarrow> 'b mem \<Rightarrow> (bool \<times> metadata \<times> 'b mem) option" where
  "init_table E c segments_at_startup t m = do {
     let t = t\<lparr>cfg := c, directory_length := initial_directory_length c,
               directory_current := segments_at_startup\<rparr>;
     case mul_size (of_nat (directory_length t)) 8 of
       None \<Rightarrow> Some (False, t, m\<lparr>errno := Some EINVAL\<rparr>)
     | Some dirsz \<Rightarrow> do {
         (dir, m) \<leftarrow> memcxt_allocate E DIRECTORY None (unat dirsz) m;
         let t = t\<lparr>directory := map_option dir_ptr dir\<rparr>;
         if directory t = None then Some (False, t, m\<lparr>errno := Some ENOMEM\<rparr>)
         else case mul_size (of_nat (segment_length c)) (of_nat (directory_current t)) of
           None \<Rightarrow> Some (False, t, m\<lparr>errno := Some EINVAL\<rparr>)
         | Some binsz \<Rightarrow> do {
             let t = t\<lparr>tN := unat binsz, tL := 0, tp := 0, tcount := 0,
                       maxp := unat binsz, bincount := unat binsz\<rparr>;
             assert_c (is_power_of_two (of_nat (maxp t)));
             (ok, m) \<leftarrow> create_segments E (directory t) 0 (directory_current t) m;
             Some (ok, t, m) } } }"

text \<open>\<open>NULL\<close> arguments are \<open>None\<close> for the table and \<open>False\<close> for the memory context.\<close>

definition init_metadata ::
  "'b env \<Rightarrow> metadata option \<Rightarrow> bool \<Rightarrow> 'b mem \<Rightarrow> (bool \<times> metadata option \<times> 'b mem) option" where
  "init_metadata E lhtbl memcxt m =
    (case lhtbl of
       None \<Rightarrow> Some (False, None, m\<lparr>errno := Some EINVAL\<rparr>)
     | Some t \<Rightarrow>
         (if \<not> memcxt then Some (False, Some t, m\<lparr>errno := Some EINVAL\<rparr>)
          else do {
            c \<leftarrow> metadata_cfg_init;
            (ok, t, m) \<leftarrow> init_table E c 1 t m;
            Some (ok, Some t, m) }))"

section \<open>Addressing\<close>

definition metadata_bindex :: "'b env \<Rightarrow> metadata \<Rightarrow> u64 \<Rightarrow> nat option" where
  "metadata_bindex E lhtbl p = do {
     let jhash = unat (hash_ptr E p);
     l \<leftarrow> mod_power_of_two jhash (maxp lhtbl);
     if l < tp lhtbl then do {
       let next_maxp = 2 * maxp lhtbl;
       if next_maxp < bincount_max (cfg lhtbl) then mod_power_of_two jhash next_maxp else Some l }
     else Some l }"

definition bindex2bin :: "metadata \<Rightarrow> 'b mem \<Rightarrow> nat \<Rightarrow> cell option" where
  "bindex2bin lhtbl m bindex = do {
     assert_c (bindex < bincount lhtbl);
     let seglen = segment_length (cfg lhtbl);
     let segindex = bindex div seglen;
     assert_c (segindex < directory_current lhtbl);
     slot \<leftarrow> dir_get m (directory lhtbl) segindex;
     segptr \<leftarrow> slot;
     index \<leftarrow> mod_power_of_two bindex seglen;
     Some (segptr, index) }"

definition metadata_fetch_bucket :: "'b env \<Rightarrow> metadata \<Rightarrow> 'b mem \<Rightarrow> u64 \<Rightarrow> cell option" where
  "metadata_fetch_bucket E lhtbl m p = do {
     bindex \<leftarrow> metadata_bindex E lhtbl p;
     bindex2bin lhtbl m bindex }"

section \<open>Expansion\<close>

text \<open>\<open>for(index = 0; index < n; index++) newdir[index] = olddir[index];\<close>\<close>

fun copy_dir :: "addr option \<Rightarrow> addr option \<Rightarrow> nat \<Rightarrow> 'b mem \<Rightarrow> 'b mem option" where
  "copy_dir olddir newdir 0 m = Some m"
| "copy_dir olddir newdir (Suc n) m = do {
     m \<leftarrow> copy_dir olddir newdir n m;
     s \<leftarrow> dir_get m olddir n;
     dir_set m newdir n s }"

definition metadata_expand_directory ::
  "'b env \<Rightarrow> metadata \<Rightarrow> 'b mem \<Rightarrow> (bool \<times> metadata \<times> 'b mem) option" where
  "metadata_expand_directory E lhtbl m = do {
     let old_dirlen = directory_length lhtbl;
     assert_c (old_dirlen = directory_current lhtbl);
     let new_dirlen = 2 * old_dirlen;
     assert_c (new_dirlen < directory_length_max (cfg lhtbl));
     let olddir = directory lhtbl;
     case mul_size (of_nat new_dirlen) 8 of
       None \<Rightarrow> Some (False, lhtbl, m\<lparr>errno := Some EINVAL\<rparr>)
     | Some new_dirsz \<Rightarrow> do {
         (newdir, m) \<leftarrow> memcxt_allocate E DIRECTORY (map_option VDir olddir) (unat new_dirsz) m;
         let newdir = map_option dir_ptr newdir;
         if newdir = None then Some (False, lhtbl, m\<lparr>errno := Some ENOMEM\<rparr>)
         else do {
           (lhtbl, m) \<leftarrow>
             (if newdir \<noteq> olddir then do {
                m \<leftarrow> copy_dir olddir newdir old_dirlen m;
                Some (lhtbl\<lparr>directory := newdir\<rparr>, m) }
              else Some (lhtbl, m));
           let lhtbl = lhtbl\<lparr>directory_length := new_dirlen\<rparr>;
           case mul_size (of_nat old_dirlen) 8 of
             None \<Rightarrow> Some (False, lhtbl, m\<lparr>errno := Some EINVAL\<rparr>)
           | Some old_dirsz \<Rightarrow> do {
               d \<leftarrow> olddir;
               m \<leftarrow> memcxt_release E DIRECTORY (VDir d) (unat old_dirsz) m;
               Some (True, lhtbl, m) } } } }"

text \<open>
  The loop that splits the chain of the bin \<open>oldbucketp\<close>: the buckets whose index is now \<open>new_bindex\<close>
  are unlinked and appended to the bin \<open>newbin\<close>. The last step of a moved bucket reads its link
  before clearing it, as the three assignments of the code do.
\<close>

partial_function (option) split_loop ::
  "'b env \<Rightarrow> metadata \<Rightarrow> nat \<Rightarrow> cell \<Rightarrow> cell \<Rightarrow> bptr option \<Rightarrow> bptr option \<Rightarrow> bptr option \<Rightarrow> 'b mem
     \<Rightarrow> 'b mem option" where
  "split_loop E lhtbl new_bindex oldbucketp newbin current previous lastofnew m =
    (case current of
       None \<Rightarrow> Some m
     | Some cur \<Rightarrow> do {
         b \<leftarrow> metadata_bindex E lhtbl (chunk (bheap m cur));
         if b = new_bindex then do {
           let m = (case lastofnew of None \<Rightarrow> set_bin m newbin current
                                    | Some l \<Rightarrow> set_next m l current);
           let m = (case previous of None \<Rightarrow> set_bin m oldbucketp (get_next m cur)
                                   | Some q \<Rightarrow> set_next m q (get_next m cur));
           let following = get_next m cur;
           let m = set_next m cur None;
           split_loop E lhtbl new_bindex oldbucketp newbin following previous current m }
         else
           split_loop E lhtbl new_bindex oldbucketp newbin (get_next m cur) current lastofnew m })"

text \<open>\<open>p += 1\<close>, doubling \<open>maxp\<close> when a round is complete.\<close>

definition advance_p :: "metadata \<Rightarrow> metadata" where
  "advance_p lhtbl =
    (let lhtbl = lhtbl\<lparr>tp := tp lhtbl + 1\<rparr>;
         lhtbl = (if tp lhtbl = maxp lhtbl
                  then lhtbl\<lparr>maxp := 2 * maxp lhtbl, tp := 0, tL := tL lhtbl + 1\<rparr> else lhtbl)
     in lhtbl\<lparr>bincount := bincount lhtbl + 1\<rparr>)"

text \<open>Making sure that the segment of the new bin exists.\<close>

definition ensure_segment ::
  "'b env \<Rightarrow> metadata \<Rightarrow> nat \<Rightarrow> nat \<Rightarrow> 'b mem \<Rightarrow> (bool \<times> metadata \<times> 'b mem) option" where
  "ensure_segment E lhtbl new_segindex newsegindex m = do {
     missing \<leftarrow>
       (if newsegindex = 0 then do { s \<leftarrow> dir_get m (directory lhtbl) new_segindex; Some (s = None) }
        else Some False);
     if missing then do {
       (newseg, m) \<leftarrow> memcxt_allocate E SEGMENT None sizeof_segment m;
       if newseg = None then Some (False, lhtbl, m\<lparr>errno := Some ENOMEM\<rparr>)
       else do {
         m \<leftarrow> dir_set m (directory lhtbl) new_segindex (map_option seg_ptr newseg);
         Some (True, lhtbl\<lparr>directory_current := directory_current lhtbl + 1\<rparr>, m) } }
     else Some (True, lhtbl, m) }"

definition metadata_expand_table ::
  "'b env \<Rightarrow> metadata \<Rightarrow> 'b mem \<Rightarrow> (bool \<times> metadata \<times> 'b mem) option" where
  "metadata_expand_table E lhtbl m =
    (case add_size (of_nat (maxp lhtbl)) (of_nat (tp lhtbl)) of
       None \<Rightarrow> Some (False, lhtbl, m\<lparr>errno := Some EINVAL\<rparr>)
     | Some s1 \<Rightarrow> do {
         let new_bindex = unat s1;
         assert_c (new_bindex < bincount_max (cfg lhtbl));
         (success, lhtbl, m) \<leftarrow>
           (if directory_length lhtbl = directory_current lhtbl
            then metadata_expand_directory E lhtbl m else Some (True, lhtbl, m));
         if \<not> success then Some (False, lhtbl, m)
         else if new_bindex < bincount_max (cfg lhtbl) then do {
           oldbucketp \<leftarrow> bindex2bin lhtbl m (tp lhtbl);
           let seglen = segment_length (cfg lhtbl);
           let new_segindex = new_bindex div seglen;
           newsegindex \<leftarrow> mod_power_of_two new_bindex seglen;
           (success, lhtbl, m) \<leftarrow> ensure_segment E lhtbl new_segindex newsegindex m;
           if \<not> success then Some (False, lhtbl, m)
           else do {
             slot \<leftarrow> dir_get m (directory lhtbl) new_segindex;
             newseg \<leftarrow> slot;
             let lhtbl = advance_p lhtbl;
             let current = get_bin m oldbucketp;
             assert_c (get_bin m (newseg, newsegindex) = None);
             m \<leftarrow> split_loop E lhtbl new_bindex oldbucketp (newseg, newsegindex) current None None m;
             Some (True, lhtbl, m) } }
         else Some (True, lhtbl, m) })"

definition metadata_expand_check ::
  "'b env \<Rightarrow> metadata \<Rightarrow> 'b mem \<Rightarrow> (bool \<times> metadata \<times> 'b mem) option" where
  "metadata_expand_check E lhtbl m =
    (if bincount lhtbl < bincount_max (cfg lhtbl) \<and> metadata_load lhtbl > max_load (cfg lhtbl)
     then metadata_expand_table E lhtbl m else Some (True, lhtbl, m))"

section \<open>Contraction\<close>

definition metadata_contract_directory ::
  "'b env \<Rightarrow> metadata \<Rightarrow> 'b mem \<Rightarrow> (metadata \<times> 'b mem) option" where
  "metadata_contract_directory E lhtbl m = do {
     let oldlen = directory_length lhtbl;
     let curlen = directory_current lhtbl;
     let newlen = oldlen div 2;
     newsz \<leftarrow> mul_size (of_nat newlen) 8;
     oldsz \<leftarrow> mul_size (of_nat oldlen) 8;
     assert_c (curlen < newlen);
     let olddir = directory lhtbl;
     (newdir, m) \<leftarrow> memcxt_allocate E DIRECTORY (map_option VDir olddir) (unat newsz) m;
     let newdir = map_option dir_ptr newdir;
     (lhtbl, m) \<leftarrow>
       (if olddir \<noteq> newdir then do {
          m \<leftarrow> copy_dir olddir newdir newlen m;
          Some (lhtbl\<lparr>directory := newdir\<rparr>, m) }
        else Some (lhtbl, m));
     let lhtbl = lhtbl\<lparr>directory_length := newlen\<rparr>;
     d \<leftarrow> olddir;
     m \<leftarrow> memcxt_release E DIRECTORY (VDir d) (unat oldsz) m;
     Some (lhtbl, m) }"

text \<open>\<open>while(tmp->next_bucket != NULL) tmp = tmp->next_bucket;\<close>\<close>

partial_function (option) last_bucket :: "'b mem \<Rightarrow> bptr \<Rightarrow> bptr option" where
  "last_bucket m tmp =
    (case get_next m tmp of None \<Rightarrow> Some tmp | Some nx \<Rightarrow> last_bucket m nx)"

definition move_buckets :: "cell \<Rightarrow> cell \<Rightarrow> 'b mem \<Rightarrow> 'b mem option" where
  "move_buckets srcbin tgtbin m =
    (case get_bin m srcbin of
       None \<Rightarrow> Some m
     | Some src \<Rightarrow>
         (case get_bin m tgtbin of
            None \<Rightarrow> Some (set_bin (set_bin m tgtbin (Some src)) srcbin None)
          | Some tgt \<Rightarrow> do {
              tmp \<leftarrow> last_bucket m tgt;
              Some (set_bin (set_next m tmp (Some src)) srcbin None) }))"

text \<open>\<open>p -= 1\<close> on a \<open>size_t\<close>, with the test for the wrap-around to \<open>-1\<close>.\<close>

definition retreat_p :: "metadata \<Rightarrow> metadata" where
  "retreat_p lhtbl =
    (let lhtbl = lhtbl\<lparr>tp := (if tp lhtbl = 0 then 2 ^ 64 - 1 else tp lhtbl - 1)\<rparr>;
         lhtbl = (if tp lhtbl = 2 ^ 64 - 1
                  then (let lhtbl = lhtbl\<lparr>maxp := maxp lhtbl div 2\<rparr>
                        in lhtbl\<lparr>tp := maxp lhtbl - 1, tL := tL lhtbl - 1\<rparr>)
                  else lhtbl)
     in lhtbl\<lparr>bincount := bincount lhtbl - 1\<rparr>)"

definition metadata_contract_table ::
  "'b env \<Rightarrow> metadata \<Rightarrow> 'b mem \<Rightarrow> (metadata \<times> 'b mem) option" where
  "metadata_contract_table E lhtbl m = do {
     (lhtbl, m) \<leftarrow>
       (if directory_length lhtbl > initial_directory_length (cfg lhtbl) \<and>
           directory_current lhtbl < directory_length lhtbl div 2
        then metadata_contract_directory E lhtbl m else Some (lhtbl, m));
     (tgtindex, srcindex) \<leftarrow>
       (if tp lhtbl = 0 then Some (maxp lhtbl div 2 - 1, maxp lhtbl - 1)
        else do {
          s1 \<leftarrow> add_size (of_nat (maxp lhtbl)) (of_nat (tp lhtbl - 1));
          Some (tp lhtbl - 1, unat s1) });
     assert_c (srcindex < bincount lhtbl);
     assert_c (tgtindex < bincount lhtbl);
     srcbin \<leftarrow> bindex2bin lhtbl m srcindex;
     tgtbin \<leftarrow> bindex2bin lhtbl m tgtindex;
     m \<leftarrow> move_buckets srcbin tgtbin m;
     let seglen = segment_length (cfg lhtbl);
     let segindex = srcindex div seglen;
     r \<leftarrow> mod_power_of_two srcindex seglen;
     (lhtbl, m) \<leftarrow>
       (if r = 0 then do {
          slot \<leftarrow> dir_get m (directory lhtbl) segindex;
          s \<leftarrow> slot;
          m \<leftarrow> memcxt_release E SEGMENT (VSeg s) sizeof_segment m;
          m \<leftarrow> dir_set m (directory lhtbl) segindex None;
          Some (lhtbl\<lparr>directory_current := directory_current lhtbl - 1\<rparr>, m) }
        else Some (lhtbl, m));
     Some (retreat_p lhtbl, m) }"

definition metadata_contract_check ::
  "'b env \<Rightarrow> metadata \<Rightarrow> 'b mem \<Rightarrow> (metadata \<times> 'b mem) option" where
  "metadata_contract_check E lhtbl m =
    (if tL lhtbl > 0 \<and> metadata_load lhtbl < min_load (cfg lhtbl)
     then metadata_contract_table E lhtbl m else Some (lhtbl, m))"


section \<open>Insertion, lookup and deletion\<close>

definition metadata_add ::
  "'b env \<Rightarrow> metadata \<Rightarrow> bptr \<Rightarrow> 'b mem \<Rightarrow> (bool \<times> metadata \<times> 'b mem) option" where
  "metadata_add E lhtbl newbucket m = do {
     binp \<leftarrow> metadata_fetch_bucket E lhtbl m (chunk (bheap m newbucket));
     let m = set_next m newbucket (get_bin m binp);
     let m = set_bin m binp (Some newbucket);
     let lhtbl = lhtbl\<lparr>tcount := tcount lhtbl + 1\<rparr>;
     metadata_expand_check E lhtbl m }"

text \<open>The search loop of \<open>metadata_lookup\<close>: the final values of \<open>value\<close> and \<open>bucketp_prev\<close>.\<close>

partial_function (option) lookup_loop ::
  "'b mem \<Rightarrow> u64 \<Rightarrow> bptr option \<Rightarrow> bptr option \<Rightarrow> (bptr option \<times> bptr option) option" where
  "lookup_loop m key bucketp bucketp_prev =
    (case bucketp of
       None \<Rightarrow> Some (None, bucketp_prev)
     | Some b \<Rightarrow>
         (if key = chunk (bheap m b) then Some (bucketp, bucketp_prev)
          else lookup_loop m key (get_next m b) bucketp))"

definition metadata_lookup ::
  "'b env \<Rightarrow> metadata \<Rightarrow> u64 \<Rightarrow> 'b mem \<Rightarrow> (bptr option \<times> 'b mem) option" where
  "metadata_lookup E lhtbl key m = do {
     binp \<leftarrow> metadata_fetch_bucket E lhtbl m key;
     (val, bucketp_prev) \<leftarrow> lookup_loop m key (get_bin m binp) (get_bin m binp);
     case val of
       None \<Rightarrow> Some (None, m)
     | Some bucketp \<Rightarrow>
         (if bucketp_prev \<noteq> get_bin m binp then do {
            q \<leftarrow> bucketp_prev;
            let m = set_next m q (get_next m bucketp);
            let m = set_next m bucketp (get_bin m binp);
            let m = set_bin m binp (Some bucketp);
            Some (Some bucketp, m) }
          else Some (Some bucketp, m)) }"

text \<open>Unlinking a bucket, as both deletion loops do it.\<close>

definition unlink_bucket :: "'b mem \<Rightarrow> cell \<Rightarrow> bptr option \<Rightarrow> bptr \<Rightarrow> 'b mem" where
  "unlink_bucket m binp previous_bucketp current_bucketp =
    (case previous_bucketp of
       None \<Rightarrow> set_bin m binp (get_next m current_bucketp)
     | Some q \<Rightarrow> set_next m q (get_next m current_bucketp))"

partial_function (option) delete_loop ::
  "'b env \<Rightarrow> cell \<Rightarrow> u64 \<Rightarrow> bptr option \<Rightarrow> bptr option \<Rightarrow> 'b mem \<Rightarrow> (bool \<times> 'b mem) option" where
  "delete_loop E binp key previous_bucketp current_bucketp m =
    (case current_bucketp of
       None \<Rightarrow> Some (False, m)
     | Some b \<Rightarrow>
         (if key = chunk (bheap m b) then do {
            m \<leftarrow> memcxt_release E BUCKET (VBkt b) (sizeof_bucket E)
                  (unlink_bucket m binp previous_bucketp b);
            Some (True, m) }
          else delete_loop E binp key current_bucketp (get_next m b) m))"

definition metadata_delete ::
  "'b env \<Rightarrow> metadata \<Rightarrow> u64 \<Rightarrow> 'b mem \<Rightarrow> (bool \<times> metadata \<times> 'b mem) option" where
  "metadata_delete E lhtbl key m = do {
     binp \<leftarrow> metadata_fetch_bucket E lhtbl m key;
     (found, m) \<leftarrow> delete_loop E binp key None (get_bin m binp) m;
     if found then do {
       let lhtbl = lhtbl\<lparr>tcount := tcount lhtbl - 1\<rparr>;
       (lhtbl, m) \<leftarrow> metadata_contract_check E lhtbl m;
       Some (True, lhtbl, m) }
     else Some (False, lhtbl, m) }"

partial_function (option) delete_all_loop ::
  "'b env \<Rightarrow> cell \<Rightarrow> u64 \<Rightarrow> bptr option \<Rightarrow> bptr option \<Rightarrow> nat \<Rightarrow> 'b mem \<Rightarrow> (nat \<times> 'b mem) option" where
  "delete_all_loop E binp key previous_bucketp current_bucketp count m =
    (case current_bucketp of
       None \<Rightarrow> Some (count, m)
     | Some b \<Rightarrow>
         (if key = chunk (bheap m b) then do {
            let following = get_next m b;
            m \<leftarrow> memcxt_release E BUCKET (VBkt b) (sizeof_bucket E)
                  (unlink_bucket m binp previous_bucketp b);
            delete_all_loop E binp key previous_bucketp following (count + 1) m }
          else delete_all_loop E binp key current_bucketp (get_next m b) count m))"

definition metadata_delete_all ::
  "'b env \<Rightarrow> metadata \<Rightarrow> u64 \<Rightarrow> 'b mem \<Rightarrow> (nat \<times> metadata \<times> 'b mem) option" where
  "metadata_delete_all E lhtbl key m = do {
     binp \<leftarrow> metadata_fetch_bucket E lhtbl m key;
     (count, m) \<leftarrow> delete_all_loop E binp key None (get_bin m binp) 0 m;
     let lhtbl = lhtbl\<lparr>tcount := tcount lhtbl - of_nat count\<rparr>;
     (lhtbl, m) \<leftarrow> (if count > 0 then metadata_contract_check E lhtbl m else Some (lhtbl, m));
     Some (count, lhtbl, m) }"

partial_function (option) length_loop :: "'b mem \<Rightarrow> bptr option \<Rightarrow> nat \<Rightarrow> nat option" where
  "length_loop m current count =
    (case current of
       None \<Rightarrow> Some count
     | Some b \<Rightarrow> length_loop m (get_next m b) (count + 1))"

definition bucket_length :: "'b mem \<Rightarrow> bptr option \<Rightarrow> nat option" where
  "bucket_length m bucket = length_loop m bucket 0"

section \<open>Deleting the table\<close>

partial_function (option) release_chain ::
  "'b env \<Rightarrow> bptr option \<Rightarrow> 'b mem \<Rightarrow> 'b mem option" where
  "release_chain E current_bucket m =
    (case current_bucket of
       None \<Rightarrow> Some m
     | Some b \<Rightarrow> do {
         let next_b = get_next m b;
         m \<leftarrow> memcxt_release E BUCKET (VBkt b) (sizeof_bucket E) m;
         release_chain E next_b m })"

fun release_bins :: "'b env \<Rightarrow> sptr \<Rightarrow> nat \<Rightarrow> nat \<Rightarrow> 'b mem \<Rightarrow> 'b mem option" where
  "release_bins E current_segment index 0 m = Some m"
| "release_bins E current_segment index (Suc n) m = do {
     m \<leftarrow> release_chain E (get_bin m (current_segment, index)) m;
     release_bins E current_segment (Suc index) n m }"

fun release_segments ::
  "'b env \<Rightarrow> metadata \<Rightarrow> nat \<Rightarrow> nat \<Rightarrow> 'b mem \<Rightarrow> 'b mem option" where
  "release_segments E lhtbl segindex 0 m = Some m"
| "release_segments E lhtbl segindex (Suc n) m = do {
     slot \<leftarrow> dir_get m (directory lhtbl) segindex;
     current_segment \<leftarrow> slot;
     m \<leftarrow> release_bins E current_segment 0 (segment_length (cfg lhtbl)) m;
     m \<leftarrow> memcxt_release E SEGMENT (VSeg current_segment) sizeof_segment m;
     release_segments E lhtbl (Suc segindex) n m }"

definition delete_metadata :: "'b env \<Rightarrow> metadata \<Rightarrow> 'b mem \<Rightarrow> 'b mem option" where
  "delete_metadata E lhtbl m = do {
     m \<leftarrow> release_segments E lhtbl 0 (directory_current lhtbl) m;
     dirsz \<leftarrow> mul_size (of_nat (directory_length lhtbl)) 8;
     d \<leftarrow> directory lhtbl;
     memcxt_release E DIRECTORY (VDir d) (unat dirsz) m }"

section \<open>The two element cache (\<open>SRI_METADATA_CACHE\<close>, off by default)\<close>

record mcache =
  nextUpdateIsZero :: bool
  cacheKeys0 :: u64
  cacheKeys1 :: u64
  cacheValues0 :: "bptr option"
  cacheValues1 :: "bptr option"
  cacheHits :: u64
  cacheMisses :: u64

definition init_cache :: mcache where
  "init_cache = \<lparr>nextUpdateIsZero = True, cacheKeys0 = 0, cacheKeys1 = 0, cacheValues0 = None,
                 cacheValues1 = None, cacheHits = 0, cacheMisses = 0\<rparr>"

definition cache_insert :: "mcache \<Rightarrow> u64 \<Rightarrow> bptr option \<Rightarrow> mcache" where
  "cache_insert c key v =
    (if nextUpdateIsZero c
     then c\<lparr>cacheKeys0 := key, cacheValues0 := v, nextUpdateIsZero := False\<rparr>
     else c\<lparr>cacheKeys1 := key, cacheValues1 := v, nextUpdateIsZero := True\<rparr>)"

definition cache_delete :: "mcache \<Rightarrow> u64 \<Rightarrow> mcache" where
  "cache_delete c key =
    (if cacheKeys0 c = key
     then c\<lparr>cacheKeys0 := 0, cacheValues0 := None, nextUpdateIsZero := True\<rparr>
     else if cacheKeys1 c = key
     then c\<lparr>cacheKeys1 := 0, cacheValues1 := None, nextUpdateIsZero := False\<rparr>
     else c)"

definition cache_lookup :: "mcache \<Rightarrow> u64 \<Rightarrow> bptr option \<times> mcache" where
  "cache_lookup c key =
    (if cacheKeys0 c = key
     then (cacheValues0 c, c\<lparr>nextUpdateIsZero := False, cacheHits := cacheHits c + 1\<rparr>)
     else if cacheKeys1 c = key
     then (cacheValues1 c, c\<lparr>nextUpdateIsZero := True, cacheHits := cacheHits c + 1\<rparr>)
     else (None, c\<lparr>cacheMisses := cacheMisses c + 1\<rparr>))"

definition cached_add ::
  "'b env \<Rightarrow> metadata \<Rightarrow> mcache \<Rightarrow> bptr \<Rightarrow> 'b mem \<Rightarrow> (bool \<times> metadata \<times> mcache \<times> 'b mem) option" where
  "cached_add E lhtbl c newbucket m = do {
     let c = cache_insert c (chunk (bheap m newbucket)) (Some newbucket);
     (ok, lhtbl, m) \<leftarrow> metadata_add E lhtbl newbucket m;
     Some (ok, lhtbl, c, m) }"

definition cached_lookup ::
  "'b env \<Rightarrow> metadata \<Rightarrow> mcache \<Rightarrow> u64 \<Rightarrow> 'b mem \<Rightarrow> (bptr option \<times> mcache \<times> 'b mem) option" where
  "cached_lookup E lhtbl c key m =
    (case cache_lookup c key of
       (Some v, c) \<Rightarrow> Some (Some v, c, m)
     | (None, c) \<Rightarrow> do {
         (val, m) \<leftarrow> metadata_lookup E lhtbl key m;
         Some (val, cache_insert c key val, m) })"

definition cached_delete ::
  "'b env \<Rightarrow> metadata \<Rightarrow> mcache \<Rightarrow> u64 \<Rightarrow> 'b mem \<Rightarrow> (bool \<times> metadata \<times> mcache \<times> 'b mem) option" where
  "cached_delete E lhtbl c key m = do {
     let c = cache_delete c key;
     (found, lhtbl, m) \<leftarrow> metadata_delete E lhtbl key m;
     Some (found, lhtbl, c, m) }"

section \<open>The allocator's use of the table (\<open>metadata.h\<close>)\<close>

type_synonym ci_mem = "unit chunkinfo_ext mem"
type_synonym ci_env = "unit chunkinfo_ext env"

definition zero_chunkinfo :: chunkinfo where
  "zero_chunkinfo =
     \<lparr>chunk = 0, next_bucket = None, bucket_pool_ptr = 0, prev_size = 0, csize = 0, fd = None,
      bk = None, fd_nextsize = None, bk_nextsize = None, md_next = None, md_prev = None\<rparr>"

text \<open>The build of \<open>malloc.c\<close>: \<open>SRI_JENKINS_HASH\<close> selects the hash function.\<close>

definition metadata_env ::
  "bool \<Rightarrow> (addr set \<Rightarrow> addr option \<Rightarrow> nat \<Rightarrow> addr option) \<Rightarrow> ci_env" where
  "metadata_env jenkins mm =
     \<lparr>os_mmap = mm, zero_bucket = zero_chunkinfo, BP_SCALE = 1024, SP_SCALE = 8, sizeof_bucket = 88,
      hash_ptr = (if jenkins then jenkins_hash_ptr else (\<lambda>p. ucast (Fingerprint p)))\<rparr>"

definition allocate_chunkinfoptr ::
  "ci_env \<Rightarrow> ci_mem \<Rightarrow> (bptr option \<times> ci_mem) option" where
  "allocate_chunkinfoptr E m = do {
     (v, m) \<leftarrow> memcxt_allocate E BUCKET None (sizeof_bucket E) m;
     case v of
       None \<Rightarrow> Some (None, m)
     | Some v \<Rightarrow> do {
         let b = bkt_ptr v;
         let retval = (bheap m b)\<lparr>prev_size := 0, csize := 0, fd := None, bk := None,
               fd_nextsize := None, bk_nextsize := None, chunk := 0, md_next := None,
               md_prev := None, next_bucket := None\<rparr>;
         Some (Some b, m\<lparr>bheap := (bheap m)(b := retval)\<rparr>) } }"

definition release_chunkinfoptr :: "ci_env \<Rightarrow> bptr \<Rightarrow> ci_mem \<Rightarrow> ci_mem option" where
  "release_chunkinfoptr E b m = memcxt_release E BUCKET (VBkt b) (sizeof_bucket E) m"

definition metadata_insert ::
  "ci_env \<Rightarrow> metadata \<Rightarrow> bptr option \<Rightarrow> bptr \<Rightarrow> ci_mem \<Rightarrow> (bool \<times> metadata \<times> ci_mem) option" where
  "metadata_insert E htbl ci_orig ci_insert m = metadata_add E htbl ci_insert m"

definition metadata_skiprm ::
  "ci_env \<Rightarrow> metadata \<Rightarrow> bptr option \<Rightarrow> bptr \<Rightarrow> ci_mem \<Rightarrow> (bool \<times> metadata \<times> ci_mem) option" where
  "metadata_skiprm E htbl ci_orig ci_todelete m =
     metadata_delete E htbl (chunk (bheap m ci_todelete)) m"

definition metadata_insert_chunk ::
  "ci_env \<Rightarrow> metadata \<Rightarrow> u64 \<Rightarrow> ci_mem \<Rightarrow> (bool \<times> metadata \<times> ci_mem) option" where
  "metadata_insert_chunk E htbl ptr m = do {
     (newb, m) \<leftarrow> allocate_chunkinfoptr E m;
     case newb of
       None \<Rightarrow> Some (False, htbl, m)
     | Some b \<Rightarrow> metadata_add E htbl b (m\<lparr>bheap := (bheap m)(b := (bheap m b)\<lparr>chunk := ptr\<rparr>)\<rparr>) }"

end
