(* ===== verification/Metadata_Links.thy ===== *)
theory Metadata_Links
  imports Metadata
begin

text \<open>
  The loops of \<open>metadata.c\<close> that follow and rewrite chains. All of them change only links
  (\<open>next_bucket\<close> fields and bins), so a memory they reach is \<open>relink nx bn m\<close> for the memory \<open>m\<close> they
  started in and new links \<open>nx\<close> and bins \<open>bn\<close>; each loop is then a statement about lists.
\<close>

section \<open>Memories that differ in their links\<close>

definition relink :: "(bptr \<Rightarrow> bptr option) \<Rightarrow> (cell \<Rightarrow> bptr option) \<Rightarrow> 'b mem \<Rightarrow> 'b mem" where
  "relink nx bn m = m\<lparr>bheap := (\<lambda>r. (bheap m r)\<lparr>next_bucket := nx r\<rparr>),
                       sheap := (\<lambda>s. (sheap m s)\<lparr>bins := (\<lambda>i. bn (s, i))\<rparr>)\<rparr>"

lemma relink_relink [simp]: "relink nx bn (relink nx' bn' m) = relink nx bn m"
  by (simp add: relink_def)

lemma relink_self [simp]: "relink (get_next m) (get_bin m) m = m"
  by (simp add: relink_def get_next_def get_bin_def)

lemma get_relink [simp, mem_simps]:
  "get_next (relink nx bn m) = nx" "get_bin (relink nx bn m) = bn"
  by (auto simp: relink_def get_next_def get_bin_def)

lemma set_next_relink [simp, mem_simps]: "set_next (relink nx bn m) r v = relink (nx(r := v)) bn m"
  by (auto simp: relink_def set_next_def fun_eq_iff)

lemma set_bin_relink [simp, mem_simps]: "set_bin (relink nx bn m) c v = relink nx (bn(c := v)) m"
  by (cases c) (auto simp: relink_def set_bin_def fun_eq_iff)

lemma set_next_eq_relink: "set_next m r v = relink ((get_next m)(r := v)) (get_bin m) m"
  by (metis relink_self set_next_relink)

lemma set_bin_eq_relink: "set_bin m c v = relink (get_next m) ((get_bin m)(c := v)) m"
  by (metis relink_self set_bin_relink)

lemma relink_sel [simp, mem_simps]:
  "regions (relink nx bn m) = regions m" "dheap (relink nx bn m) = dheap m"
  "bpools (relink nx bn m) = bpools m" "spools (relink nx bn m) = spools m"
  "mc_buckets (relink nx bn m) = mc_buckets m" "mc_segments (relink nx bn m) = mc_segments m"
  "errno (relink nx bn m) = errno m"
  "chunk (bheap (relink nx bn m) r) = chunk (bheap m r)"
  "bucket_pool_ptr (bheap (relink nx bn m) r) = bucket_pool_ptr (bheap m r)"
  "segment_pool_ptr (sheap (relink nx bn m) s) = segment_pool_ptr (sheap m s)"
  "bins (sheap (relink nx bn m) s) = (\<lambda>i. bn (s, i))"
  by (simp_all add: relink_def)

lemma same_pools_relink: "same_pools m (relink nx bn m)"
  by (simp add: same_pools_def)

lemmas pools_relink [simp] = same_pools_simps [OF same_pools_relink]

lemma memcxt_ok_relink [simp]: "memcxt_ok E (relink nx bn m) = memcxt_ok E m"
proof
  assume "memcxt_ok E (relink nx bn m)"
  then have "memcxt_ok E (relink (get_next m) (get_bin m) (relink nx bn m))"
    by (rule same_pools_ok [OF same_pools_relink]) (use memcxt_ok_env(5) [OF \<open>memcxt_ok E (relink nx bn m)\<close>] in simp_all)
  then show "memcxt_ok E m" by simp
qed (simp add: same_pools_ok [OF same_pools_relink] memcxt_ok_env(5))

lemma dir_get_relink [simp]: "dir_get (relink nx bn m) d i = dir_get m d i"
  by (simp add: dir_get_def)

lemma bindex2bin_relink [simp]: "bindex2bin t (relink nx bn m) i = bindex2bin t m i"
  by (simp add: bindex2bin_def Let_def)

section \<open>Lists in memory\<close>

lemma chain_distinct: "chain nx p rs \<Longrightarrow> distinct rs"
proof (induction rs arbitrary: p)
  case (Cons r rs)
  then have p: "p = Some r" and rest: "chain nx (nx r) rs" by auto
  moreover have "r \<notin> set rs"
  proof
    assume "r \<in> set rs"
    then obtain as bs where rs: "rs = as @ r # bs" by (metis split_list)
    then have "chain nx (nx r) bs" using rest by (auto simp: path_append)
    then have "bs = rs" using rest by (rule chain_unique)
    then show False using rs by (metis append_Cons append_assoc append_self_conv2 list.discI self_append_conv2 append.assoc same_append_eq length_append length_Cons not_add_less2 lessI less_add_Suc2)
  qed
  ultimately show ?case using Cons.IH by auto
qed simp

definition last_opt :: "'a list \<Rightarrow> 'a option" where
  "last_opt rs = (if rs = [] then None else Some (last rs))"

lemma last_opt_simps [simp]: "last_opt [] = None" "last_opt (rs @ [r]) = Some r"
  by (simp_all add: last_opt_def)

text \<open>Appending a node behind the last one of a chain, or into the bin when there is none.\<close>

definition append_link ::
  "cell \<Rightarrow> bptr list \<Rightarrow> bptr option \<Rightarrow> (bptr \<Rightarrow> bptr option) \<Rightarrow> (cell \<Rightarrow> bptr option)
    \<Rightarrow> (bptr \<Rightarrow> bptr option) \<times> (cell \<Rightarrow> bptr option)" where
  "append_link c rs v nx bn =
    (case last_opt rs of None \<Rightarrow> (nx, bn(c := v)) | Some l \<Rightarrow> (nx(l := v), bn))"

lemma append_link_path:
  assumes "path nx (bn c) rs q" and "distinct rs" and "append_link c rs v nx bn = (nx', bn')"
  shows "path nx' (bn' c) rs v"
proof (cases "rs = []")
  case True
  then show ?thesis using assms by (auto simp: append_link_def)
next
  case False
  then have "nx' = nx(last rs := v)" "bn' = bn"
    using assms(3) by (simp_all add: append_link_def last_opt_def)
  with path_relink_last [OF assms(1) False assms(2), of v] show ?thesis by simp
qed

lemma append_link_frame:
  assumes "append_link c rs v nx bn = (nx', bn')"
  shows "r \<notin> set rs \<Longrightarrow> nx' r = nx r" and "d \<noteq> c \<Longrightarrow> bn' d = bn d"
  using assms by (auto simp: append_link_def last_opt_def split: if_splits)

lemma set_last_relink:
  "append_link c rs v nx bn = (nx', bn') \<Longrightarrow>
    (case last_opt rs of None \<Rightarrow> relink nx (bn(c := v)) m | Some l \<Rightarrow> relink (nx(l := v)) bn m)
      = relink nx' bn' m"
  by (auto simp: append_link_def split: option.splits)

text \<open>Links outside the nodes of a list do not matter.\<close>

lemma path_frame:
  assumes "path nx p rs q" and "\<And>r. r \<notin> S \<Longrightarrow> nx' r = nx r" and "set rs \<inter> S = {}"
  shows "path nx' p rs q"
  using assms(1)
proof (rule path_mono)
  fix r assume "r \<in> set rs"
  then show "nx r = nx' r" using assms(2,3) by (metis disjoint_iff)
qed

section \<open>Splitting a chain\<close>

lemma split_loop_correct:
  assumes "old \<noteq> new" and "\<And>r. r \<in> set rs \<Longrightarrow> metadata_bindex E t (chunk (bheap m r)) = Some (ix r)"
    and "chain nx cur rs" and "path nx (bn old) ys cur" and "chain nx (bn new) zs"
    and "distinct (ys @ zs @ rs)"
  shows "\<exists>nx' bn'. split_loop E t nb old new cur (last_opt ys) (last_opt zs) (relink nx bn m) = Some (relink nx' bn' m)
    \<and> chain nx' (bn' old) (ys @ filter (\<lambda>r. ix r \<noteq> nb) rs)
    \<and> chain nx' (bn' new) (zs @ filter (\<lambda>r. ix r = nb) rs)
    \<and> (\<forall>r. r \<notin> set (ys @ zs @ rs) \<longrightarrow> nx' r = nx r) \<and> (\<forall>c. c \<noteq> old \<and> c \<noteq> new \<longrightarrow> bn' c = bn c)"
  using assms(2-)
proof (induction rs arbitrary: cur nx bn ys zs)
  case Nil
  then show ?case by (auto simp: split_loop.simps)
next
  case (Cons r rs)
  from Cons.prems(2) have cur: "cur = Some r" and rest: "chain nx (nx r) rs" by auto
  have ix: "metadata_bindex E t (chunk (bheap m r)) = Some (ix r)" using Cons.prems(1) by simp
  show ?case
  proof (cases "ix r = nb")
    case False
    have p: "path nx (bn old) (ys @ [r]) (nx r)" using Cons.prems(3) cur by (simp add: path_snoc)
    have step: "split_loop E t nb old new cur (last_opt ys) (last_opt zs) (relink nx bn m)
        = split_loop E t nb old new (nx r) (last_opt (ys @ [r])) (last_opt zs) (relink nx bn m)"
      using False ix by (subst split_loop.simps) (simp add: cur)
    have "\<exists>nx' bn'. split_loop E t nb old new (nx r) (last_opt (ys @ [r])) (last_opt zs) (relink nx bn m) = Some (relink nx' bn' m)
      \<and> chain nx' (bn' old) ((ys @ [r]) @ filter (\<lambda>r. ix r \<noteq> nb) rs)
      \<and> chain nx' (bn' new) (zs @ filter (\<lambda>r. ix r = nb) rs)
      \<and> (\<forall>s. s \<notin> set ((ys @ [r]) @ zs @ rs) \<longrightarrow> nx' s = nx s) \<and> (\<forall>c. c \<noteq> old \<and> c \<noteq> new \<longrightarrow> bn' c = bn c)"
      by (rule Cons.IH [OF _ rest p Cons.prems(4)]) (use Cons.prems(1,5) in auto)
    then show ?thesis unfolding step using False by auto
  next
    case True
    obtain nx1 bn1 where a1: "append_link new zs cur nx bn = (nx1, bn1)" by fastforce
    obtain nx2 bn2 where a2: "append_link old ys (nx r) nx1 bn1 = (nx2, bn2)" by fastforce
    define nx3 where "nx3 = nx2(r := None)"
    have r: "r \<notin> set ys" "r \<notin> set zs" "r \<notin> set rs" using Cons.prems(5) by auto
    have nxr: "nx1 r = nx r" "nx2 r = nx r"
      using append_link_frame(1) [OF a1] append_link_frame(1) [OF a2] r by auto
    have step: "split_loop E t nb old new cur (last_opt ys) (last_opt zs) (relink nx bn m)
        = split_loop E t nb old new (nx r) (last_opt ys) (last_opt (zs @ [r])) (relink nx3 bn2 m)"
      using True ix nxr
      by (subst split_loop.simps) (simp add: cur Let_def set_last_relink [OF a1 [unfolded cur]] set_last_relink [OF a2] nx3_def cong: option.case_cong)
    have n1: "nx3 s = nx s" if "s \<notin> set ys" "s \<notin> set zs" "s \<noteq> r" for s
      using that append_link_frame(1) [OF a1] append_link_frame(1) [OF a2] by (simp add: nx3_def)
    have b: "bn2 c = bn c" if "c \<noteq> old" "c \<noteq> new" for c
      using that append_link_frame(2) [OF a1] append_link_frame(2) [OF a2] by simp
    have rest3: "chain nx3 (nx r) rs"
      by (rule path_frame [OF rest, of "set ys \<union> set zs \<union> {r}"]) (use n1 Cons.prems(5) in auto)
    have "path nx1 (bn1 old) ys cur"
      by (rule path_frame [of nx _ _ _ "set zs"])
        (use Cons.prems(3,5) append_link_frame(1) [OF a1] append_link_frame(2) [OF a1 assms(1)] in auto)
    then have p2: "path nx2 (bn2 old) ys (nx r)"
      by (rule append_link_path [OF _ _ a2]) (use Cons.prems(5) in auto)
    have p3: "path nx3 (bn2 old) ys (nx r)"
      by (rule path_frame [OF p2, of "{r}"]) (use r in \<open>auto simp: nx3_def\<close>)
    have "path nx1 (bn1 new) zs cur"
      by (rule append_link_path [OF Cons.prems(4) _ a1]) (use Cons.prems(5) in auto)
    then have z1: "path nx1 (bn2 new) zs (Some r)"
      using append_link_frame(2) [OF a2, of new] assms(1) by (simp add: cur)
    have z2: "path nx2 (bn2 new) zs (Some r)"
      by (rule path_frame [OF z1, of "set ys"])
        (use Cons.prems(5) append_link_frame(1) [OF a2] in auto)
    have z3: "chain nx3 (bn2 new) (zs @ [r])"
      using path_frame [OF z2, of "{r}" nx3] r by (simp add: path_snoc nx3_def)
    have "\<exists>nx' bn'. split_loop E t nb old new (nx r) (last_opt ys) (last_opt (zs @ [r])) (relink nx3 bn2 m) = Some (relink nx' bn' m)
      \<and> chain nx' (bn' old) (ys @ filter (\<lambda>r. ix r \<noteq> nb) rs)
      \<and> chain nx' (bn' new) ((zs @ [r]) @ filter (\<lambda>r. ix r = nb) rs)
      \<and> (\<forall>s. s \<notin> set (ys @ (zs @ [r]) @ rs) \<longrightarrow> nx' s = nx3 s) \<and> (\<forall>c. c \<noteq> old \<and> c \<noteq> new \<longrightarrow> bn' c = bn2 c)"
      by (rule Cons.IH [OF _ rest3 p3 z3]) (use Cons.prems(1,5) in auto)
    then obtain nx' bn' where out:
      "split_loop E t nb old new (nx r) (last_opt ys) (last_opt (zs @ [r])) (relink nx3 bn2 m) = Some (relink nx' bn' m)"
      "chain nx' (bn' old) (ys @ filter (\<lambda>r. ix r \<noteq> nb) rs)"
      "chain nx' (bn' new) ((zs @ [r]) @ filter (\<lambda>r. ix r = nb) rs)"
      "\<And>s. s \<notin> set (ys @ (zs @ [r]) @ rs) \<Longrightarrow> nx' s = nx3 s" "\<And>c. c \<noteq> old \<Longrightarrow> c \<noteq> new \<Longrightarrow> bn' c = bn2 c"
      by blast
    have "nx' s = nx s" if "s \<notin> set (ys @ zs @ r # rs)" for s
      using that out(4) [of s] n1 [of s] by simp
    moreover have "bn' c = bn c" if "c \<noteq> old" "c \<noteq> new" for c
      using that out(5) b by simp
    ultimately show ?thesis unfolding step
      using True out(1,2,3) by (intro exI [of _ nx'] exI [of _ bn']) simp
  qed
qed

section \<open>Joining two chains\<close>

lemma last_bucket_correct:
  assumes "path nx (Some r) (rs @ [l]) None"
  shows "last_bucket (relink nx bn m) r = Some l"
  using assms
proof (induction rs arbitrary: r)
  case Nil
  then show ?case by (subst last_bucket.simps) simp
next
  case (Cons s rs)
  then have rest: "r = s" "path nx (nx s) (rs @ [l]) None" by auto
  then obtain u where u: "nx s = Some u" by (cases "nx s"; cases rs; auto)
  then show ?case using Cons.IH [of u] rest by (subst last_bucket.simps) simp
qed

lemma move_buckets_correct:
  assumes "src \<noteq> tgt" and "chain nx (bn src) rs" and "chain nx (bn tgt) ts" and "distinct (ts @ rs)"
  shows "\<exists>nx' bn'. move_buckets src tgt (relink nx bn m) = Some (relink nx' bn' m)
    \<and> bn' src = None \<and> chain nx' (bn' tgt) (ts @ rs)
    \<and> (\<forall>r. r \<notin> set ts \<longrightarrow> nx' r = nx r) \<and> (\<forall>c. c \<noteq> src \<and> c \<noteq> tgt \<longrightarrow> bn' c = bn c)"
proof (cases rs)
  case Nil
  then show ?thesis using assms by (intro exI [of _ nx] exI [of _ bn]) (simp add: move_buckets_def)
next
  case (Cons r rs')
  then have src: "bn src = Some r" using assms(2) by simp
  show ?thesis
  proof (cases ts rule: rev_cases)
    case Nil
    then have "bn tgt = None" using assms(3) by simp
    then have "move_buckets src tgt (relink nx bn m) = Some (relink nx (bn(tgt := Some r, src := None)) m)"
      by (simp add: move_buckets_def src)
    moreover have "chain nx (Some r) rs" using assms(2) src by simp
    ultimately show ?thesis using assms(1) Nil by fastforce
  next
    case (snoc ts' l)
    then obtain u where u: "bn tgt = Some u" using assms(3) by (cases "bn tgt") auto
    have l: "last_bucket (relink nx bn m) u = Some l"
      by (rule last_bucket_correct [of nx u ts']) (use assms(3) u snoc in simp)
    then have "move_buckets src tgt (relink nx bn m) = Some (relink (nx(l := Some r)) (bn(src := None)) m)"
      by (simp add: move_buckets_def src u)
    moreover have "path (nx(l := Some r)) (bn tgt) ts (Some r)"
      using path_relink_last [OF assms(3), of "Some r"] snoc assms(4) by simp
    moreover have "chain (nx(l := Some r)) (Some r) rs"
      using assms(2) src snoc assms(4) by simp
    ultimately have "chain (nx(l := Some r)) (bn tgt) (ts @ rs)"
      by (auto simp only: path_append)
    with \<open>move_buckets _ _ _ = _\<close> assms(1) snoc show ?thesis by fastforce
  qed
qed

section \<open>Searching and unlinking\<close>

lemma find_first:
  obtains (none) "\<And>r. r \<in> set rs \<Longrightarrow> f r \<noteq> k"
  | (some) as r bs where "rs = as @ r # bs" and "f r = k" and "\<And>a. a \<in> set as \<Longrightarrow> f a \<noteq> k"
  using split_list_first_prop [of rs "\<lambda>r. f r = k"] by blast

lemma lookup_loop_none:
  assumes "chain nx cur rs" and "\<And>r. r \<in> set rs \<Longrightarrow> chunk (bheap m r) \<noteq> key"
  shows "\<exists>q. lookup_loop (relink nx bn m) key cur prev = Some (None, q)"
  using assms
proof (induction rs arbitrary: cur prev)
  case Nil
  then show ?case by (simp add: lookup_loop.simps)
next
  case (Cons r rs)
  then have "chunk (bheap m r) \<noteq> key" by simp
  then have "lookup_loop (relink nx bn m) key cur prev = lookup_loop (relink nx bn m) key (nx r) cur"
    using Cons.prems(1) by (subst lookup_loop.simps) auto
  with Cons show ?case by simp
qed

lemma lookup_loop_some:
  assumes "path nx cur as (Some r)" and "\<And>a. a \<in> set as \<Longrightarrow> chunk (bheap m a) \<noteq> key" and "chunk (bheap m r) = key"
  shows "lookup_loop (relink nx bn m) key cur prev = Some (Some r, if as = [] then prev else Some (last as))"
  using assms(1,2)
proof (induction as arbitrary: cur prev)
  case Nil
  then show ?case using assms(3) by (simp add: lookup_loop.simps)
next
  case (Cons a as)
  then have "chunk (bheap m a) \<noteq> key" by simp
  then have "lookup_loop (relink nx bn m) key cur prev = lookup_loop (relink nx bn m) key (nx a) cur"
    using Cons.prems(1) by (subst lookup_loop.simps) auto
  with Cons show ?case by simp
qed

text \<open>Moving a bucket from behind \<open>as\<close> to the front of its bin.\<close>

definition to_front :: "'a list \<Rightarrow> 'a \<Rightarrow> 'a list \<Rightarrow> 'a list" where
  "to_front as r bs = (if length as \<le> 1 then as @ r # bs else r # as @ bs)"

lemma move_to_front_links:
  assumes "path nx (Some h) as (Some r)" and "chain nx (nx r) bs" and "distinct (as @ r # bs)" and "as \<noteq> []"
  shows "chain (nx(last as := nx r, r := Some h)) (Some r) (r # as @ bs)"
proof -
  have "path (nx(last as := nx r)) (Some h) as (nx r)"
    using path_relink_last [OF assms(1,4)] assms(3) by simp
  then have "path (nx(last as := nx r, r := Some h)) (Some h) as (nx r)"
    by (rule path_frame [of _ _ _ _ "{r}"]) (use assms(3) in auto)
  moreover have "chain (nx(last as := nx r, r := Some h)) (nx r) bs"
  proof (rule path_frame [OF assms(2), of "set as \<union> {r}"])
    show "(nx(last as := nx r, r := Some h)) s = nx s" if "s \<notin> set as \<union> {r}" for s
      using that last_in_set [OF assms(4)] by auto
    show "set bs \<inter> (set as \<union> {r}) = {}" using assms(3) by auto
  qed
  ultimately show ?thesis by (auto simp: path_append)
qed

text \<open>Taking a bucket out of its chain.\<close>

lemma unlink_bucket_correct:
  assumes "path nx (bn c) as (Some r)" and "chain nx (nx r) bs" and "distinct (as @ r # bs)"
  shows "\<exists>nx' bn'. unlink_bucket (relink nx bn m) c (last_opt as) r = relink nx' bn' m
    \<and> path nx' (bn' c) as (nx r) \<and> chain nx' (nx r) bs
    \<and> (\<forall>s. s \<notin> set as \<longrightarrow> nx' s = nx s) \<and> (\<forall>d. d \<noteq> c \<longrightarrow> bn' d = bn d)"
proof -
  obtain nx' bn' where a: "append_link c as (nx r) nx bn = (nx', bn')" by fastforce
  then have "unlink_bucket (relink nx bn m) c (last_opt as) r = relink nx' bn' m"
    by (auto simp: unlink_bucket_def append_link_def split: option.splits)
  moreover have "path nx' (bn' c) as (nx r)"
    using append_link_path [OF assms(1) _ a] assms(3) by simp
  moreover have "chain nx' (nx r) bs"
    by (rule path_frame [OF assms(2), of "set as"]) (use assms(3) append_link_frame [OF a] in auto)
  ultimately show ?thesis using append_link_frame [OF a] by blast
qed

lemma delete_loop_none:
  assumes "chain nx cur rs" and "\<And>r. r \<in> set rs \<Longrightarrow> chunk (bheap m r) \<noteq> key"
  shows "delete_loop E c key prev cur (relink nx bn m) = Some (False, relink nx bn m)"
  using assms
proof (induction rs arbitrary: cur prev)
  case Nil
  then show ?case by (simp add: delete_loop.simps)
next
  case (Cons r rs)
  then have "chunk (bheap m r) \<noteq> key" by simp
  then have "delete_loop E c key prev cur (relink nx bn m) = delete_loop E c key cur (nx r) (relink nx bn m)"
    using Cons.prems(1) by (subst delete_loop.simps) auto
  with Cons show ?case by simp
qed

lemma delete_loop_some:
  assumes "path nx cur as (Some r)" and "\<And>a. a \<in> set as \<Longrightarrow> chunk (bheap m a) \<noteq> key" and "chunk (bheap m r) = key"
  shows "delete_loop E c key (last_opt ys) cur (relink nx bn m) = do {
    m \<leftarrow> free_bucket E r (unlink_bucket (relink nx bn m) c (last_opt (ys @ as)) r); Some (True, m) }"
  using assms(1,2)
proof (induction as arbitrary: cur ys)
  case Nil
  then show ?case using assms(3) by (simp add: delete_loop.simps)
next
  case (Cons a as)
  then have cur: "cur = Some a" and "chunk (bheap m a) \<noteq> key" by auto
  then have "delete_loop E c key (last_opt ys) cur (relink nx bn m) =
      delete_loop E c key (last_opt (ys @ [a])) (nx a) (relink nx bn m)"
    by (subst delete_loop.simps) simp
  also have "\<dots> = do { m \<leftarrow> free_bucket E r (unlink_bucket (relink nx bn m) c (last_opt ((ys @ [a]) @ as)) r); Some (True, m) }"
    by (rule Cons.IH) (use Cons.prems in auto)
  finally show ?case by simp
qed

lemma same_store_links:
  assumes "same_store m m'"
  shows "get_next m' = get_next m" and "get_bin m' = get_bin m" and "dir_get m' = dir_get m"
    and "bheap m' = bheap m" and "regions m' = regions m" and "dheap m' = dheap m" and "sheap m' = sheap m"
  using assms by (auto simp: same_store_def get_next_def get_bin_def dir_get_def fun_eq_iff)

lemma same_store_relink: "same_store m m' \<Longrightarrow> same_store (relink nx bn m) (relink nx bn m')"
  by (simp add: same_store_def relink_def)

lemma same_store_trans: "same_store m m' \<Longrightarrow> same_store m' m'' \<Longrightarrow> same_store m m''"
  by (simp add: same_store_def)

text \<open>What is left of the allocator's state after buckets \<open>D\<close> have been released.\<close>

definition released :: "'b env \<Rightarrow> bptr set \<Rightarrow> 'b mem \<Rightarrow> 'b mem \<Rightarrow> bool" where
  "released E D m m' \<longleftrightarrow> memcxt_ok E m' \<and> live_buckets E m' = live_buckets E m - D \<and>
     live_segments E m' = live_segments E m \<and> segment_pools m' = segment_pools m \<and>
     bucket_pools m' = bucket_pools m"

lemma free_bucket_relink:
  assumes "memcxt_ok E m" and "r \<in> live_buckets E m"
  obtains m' where "free_bucket E r (relink nx bn m) = Some m'" and "same_store (relink nx bn m) m'"
    and "released E {r} m m'"
  by (rule free_bucket_correct [of E "relink nx bn m" r]) (use assms in \<open>auto simp: released_def\<close>)

lemma delete_all_loop_correct:
  assumes "memcxt_ok E m" and "chain (get_next m) cur rs" and "path (get_next m) (get_bin m c) ys cur"
    and "distinct (ys @ rs)" and "set rs \<subseteq> live_buckets E m"
  shows "\<exists>nx' bn' m'. delete_all_loop E c key (last_opt ys) cur n m
      = Some (n + length (filter (\<lambda>r. chunk (bheap m r) = key) rs), m')
    \<and> same_store (relink nx' bn' m) m' \<and> released E {r \<in> set rs. chunk (bheap m r) = key} m m'
    \<and> chain nx' (bn' c) (ys @ filter (\<lambda>r. chunk (bheap m r) \<noteq> key) rs)
    \<and> (\<forall>s. s \<notin> set (ys @ rs) \<longrightarrow> nx' s = get_next m s) \<and> (\<forall>d. d \<noteq> c \<longrightarrow> bn' d = get_bin m d)"
  using assms
proof (induction rs arbitrary: cur ys n m)
  case Nil
  then show ?case
    by (intro exI [of _ "get_next m"] exI [of _ "get_bin m"] exI [of _ m])
      (simp add: delete_all_loop.simps released_def same_store_def)
next
  case (Cons r rs)
  then have cur: "cur = Some r" and rest: "chain (get_next m) (get_next m r) rs" by auto
  show ?case
  proof (cases "chunk (bheap m r) = key")
    case False
    then have step: "delete_all_loop E c key (last_opt ys) cur n m
        = delete_all_loop E c key (last_opt (ys @ [r])) (get_next m r) n m"
      by (subst delete_all_loop.simps) (simp add: cur)
    have "\<exists>nx' bn' m'. delete_all_loop E c key (last_opt (ys @ [r])) (get_next m r) n m
        = Some (n + length (filter (\<lambda>r. chunk (bheap m r) = key) rs), m')
      \<and> same_store (relink nx' bn' m) m' \<and> released E {r \<in> set rs. chunk (bheap m r) = key} m m'
      \<and> chain nx' (bn' c) ((ys @ [r]) @ filter (\<lambda>r. chunk (bheap m r) \<noteq> key) rs)
      \<and> (\<forall>s. s \<notin> set ((ys @ [r]) @ rs) \<longrightarrow> nx' s = get_next m s) \<and> (\<forall>d. d \<noteq> c \<longrightarrow> bn' d = get_bin m d)"
      by (rule Cons.IH) (use Cons.prems rest cur in \<open>auto simp: path_snoc\<close>)
    moreover have "{s \<in> set (r # rs). chunk (bheap m s) = key} = {s \<in> set rs. chunk (bheap m s) = key}"
      using False by auto
    ultimately show ?thesis unfolding step using False by auto
  next
    case True
    have "path (get_next m) (get_bin m c) ys (Some r)" using Cons.prems(3) cur by simp
    from unlink_bucket_correct [of "get_next m" "get_bin m" c ys r rs m, OF this rest] obtain nx1 bn1 where
      u: "unlink_bucket m c (last_opt ys) r = relink nx1 bn1 m"
        "path nx1 (bn1 c) ys (get_next m r)" "chain nx1 (get_next m r) rs"
        "\<And>s. s \<notin> set ys \<Longrightarrow> nx1 s = get_next m s" "\<And>d. d \<noteq> c \<Longrightarrow> bn1 d = get_bin m d"
      using Cons.prems(4) by auto
    obtain m1 where f: "free_bucket E r (relink nx1 bn1 m) = Some m1" "same_store (relink nx1 bn1 m) m1"
      "released E {r} m m1"
      by (rule free_bucket_relink [OF Cons.prems(1), of r]) (use Cons.prems(5) in auto)
    note m1 = same_store_links [OF f(2)]
    have chk: "chunk (bheap m1 s) = chunk (bheap m s)" for s using m1(4) by simp
    have step: "delete_all_loop E c key (last_opt ys) cur n m
        = delete_all_loop E c key (last_opt ys) (get_next m r) (n + 1) m1"
      using True by (subst delete_all_loop.simps) (simp add: cur Let_def u(1) f(1))
    have "\<exists>nx' bn' m'. delete_all_loop E c key (last_opt ys) (get_next m r) (n + 1) m1
        = Some (n + 1 + length (filter (\<lambda>r. chunk (bheap m1 r) = key) rs), m')
      \<and> same_store (relink nx' bn' m1) m' \<and> released E {r \<in> set rs. chunk (bheap m1 r) = key} m1 m'
      \<and> chain nx' (bn' c) (ys @ filter (\<lambda>r. chunk (bheap m1 r) \<noteq> key) rs)
      \<and> (\<forall>s. s \<notin> set (ys @ rs) \<longrightarrow> nx' s = get_next m1 s) \<and> (\<forall>d. d \<noteq> c \<longrightarrow> bn' d = get_bin m1 d)"
      by (rule Cons.IH) (use Cons.prems u f(3) m1 in \<open>auto simp: released_def\<close>)
    then obtain nx' bn' m' where out: "delete_all_loop E c key (last_opt ys) (get_next m r) (n + 1) m1
        = Some (n + 1 + length (filter (\<lambda>r. chunk (bheap m r) = key) rs), m')"
      "same_store (relink nx' bn' m1) m'" "released E {r \<in> set rs. chunk (bheap m r) = key} m1 m'"
      "chain nx' (bn' c) (ys @ filter (\<lambda>r. chunk (bheap m r) \<noteq> key) rs)"
      "\<And>s. s \<notin> set (ys @ rs) \<Longrightarrow> nx' s = nx1 s" "\<And>d. d \<noteq> c \<Longrightarrow> bn' d = bn1 d"
      unfolding chk m1(1,2) get_relink by blast
    have "same_store (relink nx' bn' m) m'"
      using same_store_relink [OF f(2), of nx' bn'] out(2) by (simp add: same_store_trans)
    moreover have "released E {s \<in> set (r # rs). chunk (bheap m s) = key} m m'"
      using out(3) f(3) True by (auto simp: released_def)
    moreover have "nx' s = get_next m s" if "s \<notin> set (ys @ r # rs)" for s
      using that out(5) u(4) by simp
    moreover have "bn' d = get_bin m d" if "d \<noteq> c" for d using that out(6) u(5) by simp
    ultimately show ?thesis unfolding step using True out(1,4)
      by (intro exI [of _ nx'] exI [of _ bn'] exI [of _ m']) simp
  qed
qed

lemma length_loop_correct: "chain (get_next m) cur rs \<Longrightarrow> length_loop m cur n = Some (n + length rs)"
proof (induction rs arbitrary: cur n)
  case Nil
  then show ?case by (simp add: length_loop.simps)
next
  case (Cons r rs)
  then show ?case by (subst length_loop.simps) auto
qed

lemma release_chain_correct:
  assumes "memcxt_ok E m" and "chain (get_next m) cur rs" and "set rs \<subseteq> live_buckets E m"
  shows "\<exists>m'. release_chain E cur m = Some m' \<and> same_store m m' \<and> released E (set rs) m m'"
  using assms
proof (induction rs arbitrary: cur m)
  case Nil
  then show ?case by (simp add: release_chain.simps same_store_def released_def)
next
  case (Cons r rs)
  then have cur: "cur = Some r" by simp
  obtain m1 where f: "free_bucket E r m = Some m1" "same_store m m1" "released E {r} m m1"
    by (rule free_bucket_relink [OF Cons.prems(1), of r "get_next m" "get_bin m"]) (use Cons.prems(3) in auto)
  note m1 = same_store_links [OF f(2)]
  have "r \<notin> set rs" using chain_distinct [OF Cons.prems(2)] by simp
  then have "\<exists>m'. release_chain E (get_next m r) m1 = Some m' \<and> same_store m1 m' \<and> released E (set rs) m1 m'"
    by (intro Cons.IH) (use Cons.prems f(3) m1 in \<open>auto simp: released_def\<close>)
  then obtain m' where "release_chain E (get_next m r) m1 = Some m'" "same_store m1 m'" "released E (set rs) m1 m'"
    by blast
  moreover from this have "release_chain E cur m = Some m'"
    using f(1) by (subst release_chain.simps) (simp add: cur Let_def)
  moreover have "released E (set (r # rs)) m m'"
    using calculation(3) f(3) by (auto simp: released_def)
  ultimately show ?case using f(2) same_store_trans by blast
qed

end
