(* ===== verification/Metadata_Inv.thy ===== *)
theory Metadata_Inv
  imports Metadata_Links
begin

text \<open>
  The invariant of the hash table of \<open>metadata.c\<close> and the abstraction to a map from keys to lists
  of buckets. \<open>shape\<close> relates the counters of the table (Larson's \<open>N\<close>, \<open>L\<close>, \<open>p\<close>, \<open>maxp\<close>), \<open>dir_ok\<close>
  says that the directory is a mapped array whose first \<open>directory_current\<close> slots are distinct
  allocated segments, \<open>bins_ok\<close> that bin \<open>i\<close> holds the chain \<open>B i\<close> of allocated buckets whose key is
  addressed to \<open>i\<close>. \<open>represents E t m c\<close> hides \<open>B\<close>: \<open>c k\<close> is the list of the buckets with key \<open>k\<close>, most
  recent first.
\<close>

section \<open>Counters and addressing\<close>

definition shape :: "metadata \<Rightarrow> bool" where
  "shape t \<longleftrightarrow>
     segment_length (cfg t) = 256 \<and> initial_directory_length (cfg t) = 1024 \<and>
     bincount_max (cfg t) = UINT32_MAX \<and> directory_length_max (cfg t) = UINT32_MAX div 256 \<and>
     maxp t = 256 * 2 ^ tL t \<and> tp t < maxp t \<and> bincount t = maxp t + tp t \<and> bincount t \<le> 2 ^ 31 \<and>
     directory_current t = (bincount t + 255) div 256 \<and>
     (\<exists>k. directory_length t = 1024 * 2 ^ k) \<and> directory_length t \<le> 2 ^ 23 \<and>
     directory_current t \<le> directory_length t"

definition hidx :: "metadata \<Rightarrow> nat \<Rightarrow> nat" where
  "hidx t h = (if h mod maxp t < tp t then h mod (2 * maxp t) else h mod maxp t)"

definition key_bin :: "'b env \<Rightarrow> metadata \<Rightarrow> u64 \<Rightarrow> nat" where
  "key_bin E t k = hidx t (unat (hash_ptr E k))"

lemma shapeD:
  assumes "shape t"
  shows "segment_length (cfg t) = 256" and "initial_directory_length (cfg t) = 1024"
    and "bincount_max (cfg t) = UINT32_MAX" and "directory_length_max (cfg t) = UINT32_MAX div 256"
    and "maxp t = 256 * 2 ^ tL t" and "tp t < maxp t" and "bincount t = maxp t + tp t"
    and "bincount t \<le> 2 ^ 31" and "directory_current t = (bincount t + 255) div 256"
    and "directory_length t \<le> 2 ^ 23" and "directory_current t \<le> directory_length t"
    and "\<exists>k. directory_length t = 1024 * 2 ^ k"
  using assms unfolding shape_def by auto

lemma mod_power_of_two_256 [simp]:
  "mod_power_of_two x 256 = Some (x mod 256)"
  "mod_power_of_two x (256 * 2 ^ L) = Some (x mod (256 * 2 ^ L))"
  using mod_power_of_two_exp [of x 8] mod_power_of_two_exp [of x "8 + L"] by (simp_all add: power_add)

lemma maxp_double:
  assumes "shape t" and "tp t > 0"
  shows "2 * maxp t \<le> 2 ^ 31"
proof -
  have "256 * 2 ^ tL t < (2 ^ 31 :: nat)"
    using shapeD(5,7,8) [OF assms(1)] assms(2) by linarith
  then have lt: "(2 :: nat) ^ (8 + tL t) < 2 ^ 31"
    by (simp only: power_add) simp
  then have "8 + tL t < 31" by (rule power_less_imp_less_exp [rotated]) simp
  then have "(2 :: nat) ^ (9 + tL t) \<le> 2 ^ 31" by (intro power_increasing) auto
  then show ?thesis unfolding shapeD(5) [OF assms(1)] power_add by simp
qed

lemma hidx_less:
  assumes "shape t"
  shows "hidx t h < bincount t"
proof (cases "h mod maxp t < tp t")
  case True
  have "h mod (2 * maxp t) = h mod maxp t \<or> h mod (2 * maxp t) = h mod maxp t + maxp t"
    by (rule mod_double_cases) simp
  then show ?thesis using True shapeD(6,7) [OF assms] by (auto simp: hidx_def)
next
  case False
  have "0 < maxp t" using shapeD(5) [OF assms] by simp
  then show ?thesis using False shapeD(7) [OF assms] by (simp add: hidx_def trans_less_add1)
qed

lemma metadata_bindex_eq:
  assumes "shape t"
  shows "metadata_bindex E t k = Some (key_bin E t k)"
proof -
  have "2 * maxp t < bincount_max (cfg t)" if "tp t > 0"
    using maxp_double [OF assms that] shapeD(3) [OF assms] by (simp add: UINT32_MAX_def)
  moreover have "2 * (256 * 2 ^ tL t) = 256 * (2 ^ (tL t + 1) :: nat)" by simp
  then have "mod_power_of_two x (2 * maxp t) = Some (x mod (2 * maxp t))" for x
    using mod_power_of_two_256(2) [of x "tL t + 1"] shapeD(5) [OF assms] by simp
  ultimately show ?thesis
    using shapeD(5) [OF assms] by (auto simp: metadata_bindex_def key_bin_def hidx_def Let_def)
qed

text \<open>How the addressing changes when \<open>p\<close> advances or retreats: only one bin is affected.\<close>

lemma hidx_advance:
  assumes "shape t"
  shows "hidx (advance_p t) h =
    (if hidx t h = tp t then (if h mod (2 * maxp t) = tp t then tp t else maxp t + tp t) else hidx t h)"
proof -
  have pos: "0 < maxp t" and p: "tp t < maxp t" using shapeD(5,6) [OF assms] by simp_all
  have two: "h mod (2 * maxp t) = h mod maxp t \<or> h mod (2 * maxp t) = h mod maxp t + maxp t"
    by (rule mod_double_cases) simp
  have l: "h mod maxp t < maxp t" using pos by simp
  define a b where "a = h mod maxp t" and "b = h mod (2 * maxp t)"
  have "hidx (advance_p t) h = (if tp t + 1 = maxp t then b else if a < tp t + 1 then b else a)"
    using shapeD(5) [OF assms] by (auto simp: advance_p_def hidx_def Let_def a_def b_def)
  moreover have "hidx t h = (if a < tp t then b else a)" by (simp add: hidx_def a_def b_def)
  ultimately show ?thesis
    using two l p unfolding a_def [symmetric] b_def [symmetric] by (auto split: if_splits)
qed

lemma advance_p_sel:
  assumes "shape t"
  shows "bincount (advance_p t) = bincount t + 1" and "cfg (advance_p t) = cfg t"
    and "directory (advance_p t) = directory t" and "directory_length (advance_p t) = directory_length t"
    and "directory_current (advance_p t) = directory_current t" and "tcount (advance_p t) = tcount t"
    and "maxp (advance_p t) = 256 * 2 ^ tL (advance_p t)" and "tp (advance_p t) < maxp (advance_p t)"
    and "bincount (advance_p t) = maxp (advance_p t) + tp (advance_p t)"
  using shapeD(5,6,7) [OF assms] by (auto simp: advance_p_def Let_def)

lemma retreat_p_sel:
  assumes "shape t" and "0 < tL t"
  shows "bincount (retreat_p t) = bincount t - 1" and "cfg (retreat_p t) = cfg t"
    and "directory (retreat_p t) = directory t" and "directory_length (retreat_p t) = directory_length t"
    and "directory_current (retreat_p t) = directory_current t" and "tcount (retreat_p t) = tcount t"
    and "maxp (retreat_p t) = 256 * 2 ^ tL (retreat_p t)" and "tp (retreat_p t) < maxp (retreat_p t)"
    and "bincount (retreat_p t) = maxp (retreat_p t) + tp (retreat_p t)"
proof -
  obtain L where L: "tL t = Suc L" using assms(2) by (cases "tL t") auto
  have "tp t < 2 ^ 64 - 1"
    using shapeD(6,7,8) [OF assms(1)] by simp
  then show "bincount (retreat_p t) = bincount t - 1" and "cfg (retreat_p t) = cfg t"
    and "directory (retreat_p t) = directory t" and "directory_length (retreat_p t) = directory_length t"
    and "directory_current (retreat_p t) = directory_current t" and "tcount (retreat_p t) = tcount t"
    and "maxp (retreat_p t) = 256 * 2 ^ tL (retreat_p t)" and "tp (retreat_p t) < maxp (retreat_p t)"
    and "bincount (retreat_p t) = maxp (retreat_p t) + tp (retreat_p t)"
    using shapeD(5,6,7) [OF assms(1)] L by (auto simp: retreat_p_def Let_def)
qed

text \<open>The two bins joined by a contraction.\<close>

definition contract_target :: "metadata \<Rightarrow> nat" where
  "contract_target t = (if tp t = 0 then maxp t div 2 - 1 else tp t - 1)"

lemma hidx_retreat:
  assumes "shape t" and "0 < tL t"
  shows "hidx (retreat_p t) h = (if hidx t h = bincount t - 1 then contract_target t else hidx t h)"
proof -
  obtain L where L: "tL t = Suc L" using assms(2) by (cases "tL t") auto
  define n where "n = 256 * (2 :: nat) ^ L"
  have n: "maxp t = 2 * n" "0 < n" using shapeD(5) [OF assms(1)] L by (simp_all add: n_def)
  have lt: "tp t < 2 ^ 64 - 1" and p: "tp t < maxp t"
    using shapeD(6,7,8) [OF assms(1)] by simp_all
  note bc = shapeD(7) [OF assms(1)]
  show ?thesis
  proof (cases "tp t = 0")
    case True
    then have r: "maxp (retreat_p t) = n" "tp (retreat_p t) = n - 1"
      using n by (simp_all add: retreat_p_def Let_def)
    have two: "h mod (2 * n) = h mod n \<or> h mod (2 * n) = h mod n + n" by (rule mod_double_cases) simp
    have l: "h mod n < n" using n by simp
    define a b where "a = h mod n" and "b = h mod (2 * n)"
    have "hidx (retreat_p t) h = (if a < n - 1 then b else a)" "hidx t h = b"
      using True n by (simp_all add: hidx_def r a_def b_def)
    then show ?thesis
      using True two l n bc unfolding a_def [symmetric] b_def [symmetric]
      by (auto simp: contract_target_def split: if_splits)
  next
    case False
    then have r: "maxp (retreat_p t) = maxp t" "tp (retreat_p t) = tp t - 1"
      using lt by (auto simp: retreat_p_def Let_def)
    have two: "h mod (2 * maxp t) = h mod maxp t \<or> h mod (2 * maxp t) = h mod maxp t + maxp t"
      by (rule mod_double_cases) simp
    have l: "h mod maxp t < maxp t" using n by simp
    define a b where "a = h mod maxp t" and "b = h mod (2 * maxp t)"
    have "hidx (retreat_p t) h = (if a < tp t - 1 then b else a)" "hidx t h = (if a < tp t then b else a)"
      by (simp_all add: hidx_def r a_def b_def)
    then show ?thesis
      using False two l p bc unfolding a_def [symmetric] b_def [symmetric]
      by (auto simp: contract_target_def split: if_splits)
  qed
qed

section \<open>The invariant\<close>

definition seg_at :: "metadata \<Rightarrow> 'b mem \<Rightarrow> nat \<Rightarrow> sptr option" where
  "seg_at t m = dslot (dheap m (the (directory t)))"

definition cell_of :: "metadata \<Rightarrow> 'b mem \<Rightarrow> nat \<Rightarrow> cell" where
  "cell_of t m i = (the (seg_at t m (i div 256)), i mod 256)"

definition dir_ok :: "'b env \<Rightarrow> metadata \<Rightarrow> 'b mem \<Rightarrow> bool" where
  "dir_ok E t m \<longleftrightarrow>
     (\<exists>d. directory t = Some d \<and> d \<in> regions m \<and> d \<notin> bucket_pools m \<and> d \<notin> segment_pools m \<and>
          dsize (dheap m d) = directory_length t) \<and>
     (\<forall>i < directory_current t. \<exists>s. seg_at t m i = Some s \<and> s \<in> live_segments E m) \<and>
     inj_on (seg_at t m) {..<directory_current t} \<and>
     (\<forall>i \<ge> directory_current t. seg_at t m i = None)"

definition bins_ok :: "'b env \<Rightarrow> metadata \<Rightarrow> 'b mem \<Rightarrow> (nat \<Rightarrow> bptr list) \<Rightarrow> bool" where
  "bins_ok E t m B \<longleftrightarrow>
     (\<forall>i < 256 * directory_current t. chain (get_next m) (get_bin m (cell_of t m i)) (B i)) \<and>
     (\<forall>i \<ge> bincount t. B i = []) \<and>
     (\<forall>i. \<forall>r \<in> set (B i). r \<in> live_buckets E m \<and> key_bin E t (chunk (bheap m r)) = i)"

definition entries :: "(nat \<Rightarrow> bptr list) \<Rightarrow> bptr set" where
  "entries B = (\<Union>i. set (B i))"

definition table_rep :: "'b env \<Rightarrow> metadata \<Rightarrow> 'b mem \<Rightarrow> (nat \<Rightarrow> bptr list) \<Rightarrow> bool" where
  "table_rep E t m B \<longleftrightarrow> memcxt_ok E m \<and> free_segments_clear E m \<and> shape t \<and> dir_ok E t m \<and>
     bins_ok E t m B \<and> tcount t = of_nat (card (entries B))"

text \<open>The buckets with key \<open>k\<close> are all in one bin.\<close>

definition key_list :: "'b env \<Rightarrow> metadata \<Rightarrow> 'b mem \<Rightarrow> (nat \<Rightarrow> bptr list) \<Rightarrow> u64 \<Rightarrow> bptr list" where
  "key_list E t m B k = filter (\<lambda>r. chunk (bheap m r) = k) (B (key_bin E t k))"

definition represents :: "'b env \<Rightarrow> metadata \<Rightarrow> 'b mem \<Rightarrow> (u64 \<Rightarrow> bptr list) \<Rightarrow> bool" where
  "represents E t m c \<longleftrightarrow> (\<exists>B. table_rep E t m B \<and> c = key_list E t m B)"

text \<open>Buckets keep their contents other than the link.\<close>

definition kept :: "'b env \<Rightarrow> 'b mem \<Rightarrow> 'b mem \<Rightarrow> bool" where
  "kept E m m' \<longleftrightarrow>
     (\<forall>r \<in> live_buckets E m. (bheap m' r)\<lparr>next_bucket := None\<rparr> = (bheap m r)\<lparr>next_bucket := None\<rparr>)"

lemma keptD: "kept E m m' \<Longrightarrow> r \<in> live_buckets E m \<Longrightarrow> chunk (bheap m' r) = chunk (bheap m r)"
  unfolding kept_def by (metis bucket.select_convs(1) bucket.surjective bucket.update_convs(2))

lemma kept_refl [simp]: "kept E m m"
  by (simp add: kept_def)

lemma kept_trans: "kept E m m' \<Longrightarrow> kept E m' m'' \<Longrightarrow> live_buckets E m \<subseteq> live_buckets E m' \<Longrightarrow> kept E m m''"
  unfolding kept_def by (metis subsetD)

lemma kept_relink [simp]: "kept E m (relink nx bn m)"
  by (simp add: kept_def relink_def)

lemma table_repD:
  assumes "table_rep E t m B"
  shows "memcxt_ok E m" and "free_segments_clear E m" and "shape t" and "dir_ok E t m"
    and "bins_ok E t m B" and "tcount t = of_nat (card (entries B))"
  using assms by (simp_all add: table_rep_def)

lemma bins_okD:
  assumes "bins_ok E t m B"
  shows "i < 256 * directory_current t \<Longrightarrow> chain (get_next m) (get_bin m (cell_of t m i)) (B i)"
    and "bincount t \<le> i \<Longrightarrow> B i = []"
    and "r \<in> set (B i) \<Longrightarrow> r \<in> live_buckets E m"
    and "r \<in> set (B i) \<Longrightarrow> key_bin E t (chunk (bheap m r)) = i"
  using assms by (simp_all add: bins_ok_def)

lemma dir_okD:
  assumes "dir_ok E t m"
  obtains d where "directory t = Some d" and "d \<in> regions m" and "d \<notin> bucket_pools m"
    and "d \<notin> segment_pools m" and "dsize (dheap m d) = directory_length t"
    and "seg_at t m = dslot (dheap m d)"
  using assms unfolding dir_ok_def seg_at_def by (metis ext option.sel)

lemma dir_ok_seg:
  assumes "dir_ok E t m"
  shows "i < directory_current t \<Longrightarrow> \<exists>s. seg_at t m i = Some s \<and> s \<in> live_segments E m"
    and "directory_current t \<le> i \<Longrightarrow> seg_at t m i = None"
    and "inj_on (seg_at t m) {..<directory_current t}"
  using assms by (simp_all add: dir_ok_def)

lemma current_bound:
  assumes "shape t"
  shows "bincount t \<le> 256 * directory_current t" and "i < bincount t \<Longrightarrow> i div 256 < directory_current t"
  using shapeD(9) [OF assms] by auto

lemma cell_of_inj:
  assumes "dir_ok E t m" and "i < 256 * directory_current t" and "j < 256 * directory_current t"
    and "i \<noteq> j"
  shows "cell_of t m i \<noteq> cell_of t m j"
proof
  assume eq: "cell_of t m i = cell_of t m j"
  have d: "i div 256 < directory_current t" "j div 256 < directory_current t" using assms(2,3) by auto
  then have "seg_at t m (i div 256) = seg_at t m (j div 256)"
    using eq dir_ok_seg(1) [OF assms(1) d(1)] dir_ok_seg(1) [OF assms(1) d(2)]
    by (auto simp: cell_of_def)
  then have "i div 256 = j div 256"
    using dir_ok_seg(3) [OF assms(1)] d by (auto dest: inj_onD)
  moreover have "i mod 256 = j mod 256" using eq by (simp add: cell_of_def)
  ultimately show False using assms(4) by (metis div_mult_mod_eq)
qed

lemma cell_of_live:
  assumes "dir_ok E t m" and "i < 256 * directory_current t"
  shows "fst (cell_of t m i) \<in> live_segments E m"
proof -
  have "i div 256 < directory_current t" using assms(2) by auto
  then obtain s where "seg_at t m (i div 256) = Some s" "s \<in> live_segments E m"
    using dir_ok_seg(1) [OF assms(1)] by blast
  then show ?thesis by (simp add: cell_of_def)
qed

lemma bindex2bin_eq:
  assumes "shape t" and "dir_ok E t m" and "i < bincount t"
  shows "bindex2bin t m i = Some (cell_of t m i)"
proof -
  obtain d where d: "directory t = Some d" "d \<in> regions m" "dsize (dheap m d) = directory_length t"
    "seg_at t m = dslot (dheap m d)"
    using assms(2) by (rule dir_okD)
  have i: "i div 256 < directory_current t" using current_bound(2) [OF assms(1,3)] .
  then obtain s where "seg_at t m (i div 256) = Some s" using dir_ok_seg(1) [OF assms(2)] by blast
  then show ?thesis
    using d i assms(3) shapeD(1,11) [OF assms(1)] by (simp add: bindex2bin_def dir_get_def cell_of_def)
qed

lemma fetch_bucket_eq:
  assumes "shape t" and "dir_ok E t m"
  shows "metadata_fetch_bucket E t m k = Some (cell_of t m (key_bin E t k))"
  using bindex2bin_eq [OF assms hidx_less [OF assms(1)]] metadata_bindex_eq [OF assms(1), of E k]
  by (simp add: metadata_fetch_bucket_def key_bin_def)

lemma finite_entries: "bins_ok E t m B \<Longrightarrow> finite (entries B)"
proof -
  assume b: "bins_ok E t m B"
  have "entries B \<subseteq> (\<Union>i<bincount t. set (B i))"
  proof
    fix r assume "r \<in> entries B"
    then obtain i where i: "r \<in> set (B i)" by (auto simp: entries_def)
    then have "i < bincount t" using bins_okD(2) [OF b, of i] by (cases "i < bincount t") auto
    with i show "r \<in> (\<Union>i<bincount t. set (B i))" by blast
  qed
  then show ?thesis by (rule finite_subset) simp
qed

lemma entries_key_list: "bins_ok E t m B \<Longrightarrow> entries B = (\<Union>k. set (key_list E t m B k))"
proof -
  assume b: "bins_ok E t m B"
  have "r \<in> set (key_list E t m B (chunk (bheap m r)))" if "r \<in> set (B i)" for r i
    using that bins_okD(4) [OF b that] by (simp add: key_list_def)
  then show ?thesis by (auto simp: entries_def key_list_def)
qed

lemma bin_distinct:
  assumes "bins_ok E t m B" and "shape t"
  shows "distinct (B i)" and "i \<noteq> j \<Longrightarrow> set (B i) \<inter> set (B j) = {}"
proof -
  show "distinct (B i)"
  proof (cases "i < bincount t")
    case True
    then have "i < 256 * directory_current t" using current_bound(1) [OF assms(2)] by simp
    then show ?thesis using bins_okD(1) [OF assms(1)] chain_distinct by blast
  next
    case False
    then show ?thesis using bins_okD(2) [OF assms(1)] by simp
  qed
  show "i \<noteq> j \<Longrightarrow> set (B i) \<inter> set (B j) = {}" using bins_okD(4) [OF assms(1)] by blast
qed

section \<open>Frames\<close>

lemma seg_at_relink [simp]: "seg_at t (relink nx bn m) = seg_at t m"
  by (simp add: seg_at_def)

lemma cell_of_relink [simp]: "cell_of t (relink nx bn m) = cell_of t m"
  by (simp add: cell_of_def fun_eq_iff)

lemma dir_ok_relink [simp]: "dir_ok E t (relink nx bn m) = dir_ok E t m"
  by (simp add: dir_ok_def)

lemma seg_at_same_store: "same_store m m' \<Longrightarrow> seg_at t m' = seg_at t m"
  by (simp add: seg_at_def same_store_def)

lemma cell_of_same_store: "same_store m m' \<Longrightarrow> cell_of t m' = cell_of t m"
  by (simp add: cell_of_def seg_at_same_store fun_eq_iff)

text \<open>Writing the bins of allocated segments keeps the free ones clear.\<close>

lemma free_segments_clear_relink:
  assumes "free_segments_clear E m" and "\<And>c. fst c \<notin> live_segments E m \<Longrightarrow> bn c = get_bin m c"
  shows "free_segments_clear E (relink nx bn m)"
  using assms by (auto simp: free_segments_clear_def segment_clear_def get_bin_def)

lemma grows_links:
  assumes "grows m m'"
  shows "bpool_of r \<in> regions m \<Longrightarrow> get_next m' r = get_next m r"
    and "spool_of (fst c) \<in> regions m \<Longrightarrow> get_bin m' c = get_bin m c"
    and "bpool_of r \<in> regions m \<Longrightarrow> bheap m' r = bheap m r"
  using assms by (simp_all add: grows_def get_next_def get_bin_def)

text \<open>An allocation elsewhere leaves the table as it is.\<close>

lemma table_rep_grows:
  assumes rep: "table_rep E t m B" and g: "grows m m'" and ok: "memcxt_ok E m'"
    and fsc: "free_segments_clear E m'"
    and lb: "live_buckets E m \<subseteq> live_buckets E m'" and ls: "live_segments E m \<subseteq> live_segments E m'"
    and bp: "bucket_pools m' \<subseteq> bucket_pools m \<union> - regions m"
    and sp: "segment_pools m' \<subseteq> segment_pools m \<union> - regions m"
  shows "table_rep E t m' B" and "key_list E t m' B = key_list E t m B" and "seg_at t m' = seg_at t m"
    and "cell_of t m' = cell_of t m" and "kept E m m'"
proof -
  note R = table_repD [OF rep]
  obtain d where d: "directory t = Some d" "d \<in> regions m" "d \<notin> bucket_pools m"
    "d \<notin> segment_pools m" "dsize (dheap m d) = directory_length t" "seg_at t m = dslot (dheap m d)"
    using R(4) by (rule dir_okD)
  have dh: "dheap m' d = dheap m d" using g d(2) by (simp add: grows_def)
  then show s: "seg_at t m' = seg_at t m" using d(1,6) by (simp add: seg_at_def)
  then show c: "cell_of t m' = cell_of t m" by (simp add: cell_of_def fun_eq_iff)
  have mapped: "bpool_of r \<in> regions m" if "r \<in> set (B i)" for r i
    using live_bucket_mapped [OF R(1)] bins_okD(3) [OF R(5) that] by blast
  have bh: "bheap m' r = bheap m r" if "r \<in> set (B i)" for r i
    using grows_links(3) [OF g mapped [OF that]] .
  have "d \<in> regions m'" using g d(2) by (auto simp: grows_def)
  moreover have "d \<notin> bucket_pools m'" "d \<notin> segment_pools m'" using d(2-4) bp sp by blast+
  moreover have "\<exists>s. seg_at t m i = Some s \<and> s \<in> live_segments E m'" if "i < directory_current t" for i
    using dir_ok_seg(1) [OF R(4) that] ls by blast
  ultimately have "dir_ok E t m'"
    using d(1,5) dh dir_ok_seg(2,3) [OF R(4)] by (simp add: dir_ok_def s)
  moreover have "bins_ok E t m' B"
  proof -
    have "chain (get_next m') (get_bin m' (cell_of t m i)) (B i)" if "i < 256 * directory_current t" for i
    proof -
      have "spool_of (fst (cell_of t m i)) \<in> regions m"
        using live_segment_mapped [OF R(1) cell_of_live [OF R(4) that]] .
      then have "chain (get_next m) (get_bin m' (cell_of t m i)) (B i)"
        using bins_okD(1) [OF R(5) that] grows_links(2) [OF g] by simp
      then show ?thesis
        by (rule path_mono) (use grows_links(1) [OF g] mapped in auto)
    qed
    then show ?thesis
      using bins_okD(2-4) [OF R(5)] bh lb unfolding bins_ok_def c by auto
  qed
  ultimately show "table_rep E t m' B" using ok fsc R(3,6) by (simp add: table_rep_def)
  show "key_list E t m' B = key_list E t m B"
    using bh by (auto simp: key_list_def fun_eq_iff intro: filter_cong)
  show "kept E m m'"
    using live_bucket_mapped [OF R(1)] grows_links(3) [OF g] by (simp add: kept_def)
qed

text \<open>Changing a few bins and the links of their buckets.\<close>

lemma bins_ok_relink:
  assumes "bins_ok E t m B" and "dir_ok E t m"
    and "\<And>i. i < 256 * directory_current t \<Longrightarrow> i \<notin> I \<Longrightarrow> bn (cell_of t m i) = get_bin m (cell_of t m i)"
    and "\<And>r. \<forall>i\<in>I. r \<notin> set (B i) \<Longrightarrow> nx r = get_next m r \<or> r \<notin> entries B"
    and "i < 256 * directory_current t" and "i \<notin> I"
  shows "chain nx (bn (cell_of t m i)) (B i)"
proof -
  have "chain (get_next m) (bn (cell_of t m i)) (B i)"
    using bins_okD(1) [OF assms(1,5)] assms(3,5,6) by simp
  then show ?thesis
  proof (rule path_mono)
    fix r assume r: "r \<in> set (B i)"
    then have "\<forall>j\<in>I. r \<notin> set (B j)" using bins_okD(4) [OF assms(1)] assms(6) by blast
    then show "get_next m r = nx r" using assms(4) r by (force simp: entries_def)
  qed
qed

end
