(* ===== verification/Metadata_Resize.thy ===== *)
theory Metadata_Resize
  imports Metadata_Inv
begin

text \<open>
  Growing and shrinking the table of \<open>metadata.c\<close>: replacing the directory, splitting one bin
  (\<open>metadata_expand_table\<close>) and joining two (\<open>metadata_contract_table\<close>) keep the invariant and what
  the table represents.
\<close>

section \<open>Replacing the directory\<close>

lemma map_region_ok:
  fixes sz :: nat
  assumes ok: "memcxt_ok E m" and a: "a \<notin> regions m"
  defines "m' \<equiv> map_region E a sz m"
  shows "memcxt_ok E m'" and "live_buckets E m' = live_buckets E m" and "live_segments E m' = live_segments E m"
    and "bucket_pools m' = bucket_pools m" and "segment_pools m' = segment_pools m"
    and "free_segments_clear E m \<Longrightarrow> free_segments_clear E m'" and "grows m m'"
proof -
  note B = memcxt_ok_families(1) [OF ok] and S = memcxt_ok_families(2) [OF ok]
  have mc: "mc_buckets m' = mc_buckets m" "mc_segments m' = mc_segments m" "regions m' = insert a (regions m)"
    by (simp_all add: m'_def map_region_def)
  have b: "family_ok (regions m) (bpools m') (mc_buckets m) (BP_SCALE E)"
    "family (bpools m') (mc_buckets m) = family (bpools m) (mc_buckets m)"
    "family_live (bpools m') (mc_buckets m) (BP_SCALE E) = family_live (bpools m) (mc_buckets m) (BP_SCALE E)"
    by (rule family_cong [OF B]; use a in \<open>auto simp: m'_def map_region_def\<close>)+
  have s: "family_ok (regions m) (spools m') (mc_segments m) (SP_SCALE E)"
    "family (spools m') (mc_segments m) = family (spools m) (mc_segments m)"
    "family_live (spools m') (mc_segments m) (SP_SCALE E) = family_live (spools m) (mc_segments m) (SP_SCALE E)"
    by (rule family_cong [OF S]; use a in \<open>auto simp: m'_def map_region_def\<close>)+
  show lb: "live_buckets E m' = live_buckets E m" using b(3) mc by (simp add: live_buckets_def)
  show ls: "live_segments E m' = live_segments E m" using s(3) mc by (simp add: live_segments_def)
  show bp: "bucket_pools m' = bucket_pools m" using b(2) mc by (simp add: bucket_pools_def)
  show sp: "segment_pools m' = segment_pools m" using s(2) mc by (simp add: segment_pools_def)
  show g: "grows m m'" unfolding m'_def using a by (rule grows_map_region)
  have "family_ok (regions m') (bpools m') (mc_buckets m') (BP_SCALE E)"
    using family_ok_mono [OF b(1)] bucket_pools_mapped [OF ok] b(2) mc by (auto simp: bucket_pools_def)
  moreover have "family_ok (regions m') (spools m') (mc_segments m') (SP_SCALE E)"
    using family_ok_mono [OF s(1)] segment_pools_mapped [OF ok] s(2) mc by (auto simp: segment_pools_def)
  moreover have "bheap m' (Bptr p i) = bheap m (Bptr p i)" if "p \<in> bucket_pools m" for p i
    using g that bucket_pools_mapped [OF ok] by (auto simp: grows_def)
  moreover have sh: "sheap m' (Sptr p i) = sheap m (Sptr p i)" if "p \<in> segment_pools m" for p i
    using g that segment_pools_mapped [OF ok] by (auto simp: grows_def)
  ultimately show "memcxt_ok E m'"
    using ok mc(2,3) unfolding memcxt_ok_def bp sp by simp
  show "free_segments_clear E m'" if "free_segments_clear E m"
    using that unfolding free_segments_clear_def ls sp by (metis sh sptr.collapse)
qed

lemma munmap_ok:
  assumes "memcxt_ok E m" and "d \<notin> bucket_pools m" and "d \<notin> segment_pools m"
  shows "memcxt_ok E (sri_munmap d sz m)"
proof -
  have "family_ok (regions m - {d}) (bpools m) (mc_buckets m) (BP_SCALE E)"
    by (rule family_ok_mono [OF memcxt_ok_families(1) [OF assms(1)]])
      (use bucket_pools_mapped [OF assms(1)] assms(2) in \<open>auto simp: bucket_pools_def\<close>)
  moreover have "family_ok (regions m - {d}) (spools m) (mc_segments m) (SP_SCALE E)"
    by (rule family_ok_mono [OF memcxt_ok_families(2) [OF assms(1)]])
      (use segment_pools_mapped [OF assms(1)] assms(3) in \<open>auto simp: segment_pools_def\<close>)
  ultimately show ?thesis
    using assms(1) by (simp add: memcxt_ok_def sri_munmap_def bucket_pools_def segment_pools_def)
qed

lemma munmap_sel [simp]:
  "live_buckets E (sri_munmap d sz m) = live_buckets E m"
  "live_segments E (sri_munmap d sz m) = live_segments E m"
  "bucket_pools (sri_munmap d sz m) = bucket_pools m"
  "segment_pools (sri_munmap d sz m) = segment_pools m"
  "free_segments_clear E (sri_munmap d sz m) = free_segments_clear E m"
  "get_next (sri_munmap d sz m) = get_next m" "get_bin (sri_munmap d sz m) = get_bin m"
  "bheap (sri_munmap d sz m) = bheap m" "dheap (sri_munmap d sz m) = dheap m"
  "regions (sri_munmap d sz m) = regions m - {d}"
  by (auto simp: sri_munmap_def live_buckets_def live_segments_def bucket_pools_def segment_pools_def
      free_segments_clear_def get_next_def get_bin_def fun_eq_iff)

lemma dheap_upd_sel [simp]:
  "live_buckets E (m\<lparr>dheap := dh\<rparr>) = live_buckets E m"
  "live_segments E (m\<lparr>dheap := dh\<rparr>) = live_segments E m"
  "bucket_pools (m\<lparr>dheap := dh\<rparr>) = bucket_pools m" "segment_pools (m\<lparr>dheap := dh\<rparr>) = segment_pools m"
  "free_segments_clear E (m\<lparr>dheap := dh\<rparr>) = free_segments_clear E m"
  "get_next (m\<lparr>dheap := dh\<rparr>) = get_next m" "get_bin (m\<lparr>dheap := dh\<rparr>) = get_bin m"
  "memcxt_ok E (m\<lparr>dheap := dh\<rparr>) = memcxt_ok E m"
  by (auto simp: live_buckets_def live_segments_def bucket_pools_def segment_pools_def memcxt_ok_def
      free_segments_clear_def get_next_def get_bin_def fun_eq_iff)

lemma errno_upd_sel [simp]:
  "live_buckets E (m\<lparr>errno := e\<rparr>) = live_buckets E m"
  "live_segments E (m\<lparr>errno := e\<rparr>) = live_segments E m"
  "bucket_pools (m\<lparr>errno := e\<rparr>) = bucket_pools m" "segment_pools (m\<lparr>errno := e\<rparr>) = segment_pools m"
  "free_segments_clear E (m\<lparr>errno := e\<rparr>) = free_segments_clear E m"
  "get_next (m\<lparr>errno := e\<rparr>) = get_next m" "get_bin (m\<lparr>errno := e\<rparr>) = get_bin m"
  "memcxt_ok E (m\<lparr>errno := e\<rparr>) = memcxt_ok E m" "seg_at t (m\<lparr>errno := e\<rparr>) = seg_at t m"
  "cell_of t (m\<lparr>errno := e\<rparr>) = cell_of t m" "kept E m (m\<lparr>errno := e\<rparr>)"
  by (auto simp: live_buckets_def live_segments_def bucket_pools_def segment_pools_def memcxt_ok_def
      free_segments_clear_def get_next_def get_bin_def fun_eq_iff seg_at_def cell_of_def kept_def)

lemma table_rep_errno [simp]: "table_rep E t (m\<lparr>errno := e\<rparr>) B = table_rep E t m B"
  by (simp add: table_rep_def dir_ok_def bins_ok_def)

lemma key_list_errno [simp]: "key_list E t (m\<lparr>errno := e\<rparr>) B = key_list E t m B"
  by (simp add: key_list_def fun_eq_iff)

lemma copy_dir_correct:
  assumes "d \<noteq> a" and "d \<in> regions m" and "a \<in> regions m" and "n \<le> dsize (dheap m d)" and "n \<le> dsize (dheap m a)"
  shows "copy_dir (Some d) (Some a) n m = Some (m\<lparr>dheap := (dheap m)(a := (dheap m a)\<lparr>dslot :=
    (\<lambda>i. if i < n then dslot (dheap m d) i else dslot (dheap m a) i)\<rparr>)\<rparr>)"
  using assms(4,5)
proof (induction n)
  case 0
  then show ?case by (simp add: fun_upd_idem_iff)
next
  case (Suc n)
  have "copy_dir (Some d) (Some a) n m = Some (m\<lparr>dheap := (dheap m)(a := (dheap m a)\<lparr>dslot :=
    (\<lambda>i. if i < n then dslot (dheap m d) i else dslot (dheap m a) i)\<rparr>)\<rparr>)"
    by (rule Suc.IH) (use Suc.prems in auto)
  moreover have "(\<lambda>i. if i < n then dslot (dheap m d) i else dslot (dheap m a) i)(n := dslot (dheap m d) n) =
      (\<lambda>i. if i < Suc n then dslot (dheap m d) i else dslot (dheap m a) i)"
    by (auto simp: fun_eq_iff less_Suc_eq)
  ultimately show ?case
    using Suc.prems assms(1-3) by (simp add: dir_get_def dir_set_def) (simp add: fun_upd_def)
qed

text \<open>The memory and the table after the old directory \<open>d\<close> has been exchanged for \<open>a\<close>.\<close>

definition new_dir :: "'b env \<Rightarrow> addr \<Rightarrow> addr \<Rightarrow> nat \<Rightarrow> 'b mem \<Rightarrow> 'b mem" where
  "new_dir E d a len m =
    (let m1 = map_region E a (len * 8) m
     in m1\<lparr>dheap := (dheap m1)(a := \<lparr>dsize = len, dslot = dslot (dheap m d)\<rparr>)\<rparr>)"

lemma new_dir_correct:
  fixes sz :: nat
  assumes rep: "table_rep E t m B" and d: "directory t = Some d" and a: "a \<notin> regions m"
    and len: "directory_current t \<le> len" "len = 1024 * 2 ^ k" "len \<le> 2 ^ 23"
  defines "m' \<equiv> sri_munmap d sz (new_dir E d a len m)"
    and "t' \<equiv> t\<lparr>directory := Some a, directory_length := len\<rparr>"
  shows "table_rep E t' m' B" and "key_list E t' m' B = key_list E t m B"
    and "live_buckets E m' = live_buckets E m" and "live_segments E m' = live_segments E m" and "kept E m m'"
proof -
  note R = table_repD [OF rep]
  let ?m1 = "map_region E a (len * 8) m"
  note M = map_region_ok [OF R(1) a, of "len * 8"]
  have rep1: "table_rep E t ?m1 B" "key_list E t ?m1 B = key_list E t m B" "cell_of t ?m1 = cell_of t m"
    "kept E m ?m1" "seg_at t ?m1 = seg_at t m"
    using table_rep_grows [OF rep M(7,1)] M R(2) by auto
  have da: "d \<noteq> a" "d \<in> regions m" "d \<notin> bucket_pools m" "d \<notin> segment_pools m"
    using R(4) d a by (auto elim: dir_okD)
  have sel: "live_buckets E (new_dir E d a len m) = live_buckets E m"
    "live_segments E (new_dir E d a len m) = live_segments E m"
    "bucket_pools (new_dir E d a len m) = bucket_pools m" "segment_pools (new_dir E d a len m) = segment_pools m"
    "free_segments_clear E (new_dir E d a len m)" "memcxt_ok E (new_dir E d a len m)"
    "get_next (new_dir E d a len m) = get_next ?m1" "get_bin (new_dir E d a len m) = get_bin ?m1"
    "bheap (new_dir E d a len m) = bheap ?m1" "regions (new_dir E d a len m) = regions ?m1"
    "dheap (new_dir E d a len m) a = \<lparr>dsize = len, dslot = dslot (dheap m d)\<rparr>"
    using M(1-5) M(6) [OF R(2)] by (simp_all add: new_dir_def Let_def)
  have reg: "regions ?m1 = insert a (regions m)" by (simp add: map_region_def)
  show lb: "live_buckets E m' = live_buckets E m" and ls: "live_segments E m' = live_segments E m"
    by (simp_all add: m'_def sel)
  have seg: "seg_at t' m' = seg_at t m" using d sel(11) by (simp add: seg_at_def m'_def t'_def)
  have cell: "cell_of t' m' = cell_of t ?m1" using seg rep1(5) by (simp add: cell_of_def fun_eq_iff)
  have same: "bincount t' = bincount t" "directory_current t' = directory_current t" "tcount t' = tcount t"
    "key_bin E t' = key_bin E t" "directory t' = Some a" "directory_length t' = len"
    by (simp_all add: t'_def key_bin_def hidx_def fun_eq_iff)
  have "memcxt_ok E m'" unfolding m'_def using sel(6) da sel(3,4) by (intro munmap_ok) auto
  moreover have "free_segments_clear E m'" by (simp add: m'_def sel)
  moreover have "shape t'" using R(3) len by (auto simp: shape_def t'_def)
  moreover have "a \<in> regions m'" using da by (simp add: m'_def sel reg)
  moreover have "a \<notin> bucket_pools m'" "a \<notin> segment_pools m'"
    using bucket_pools_mapped [OF R(1)] segment_pools_mapped [OF R(1)] a by (auto simp: m'_def sel)
  moreover have "dsize (dheap m' a) = len" by (simp add: m'_def sel)
  moreover from calculation have "dir_ok E t' m'"
    using dir_ok_seg [OF R(4)] unfolding dir_ok_def seg same ls by auto
  moreover have "bins_ok E t' m' B"
    using table_repD(5) [OF rep1(1)] M(2) unfolding bins_ok_def cell same lb by (simp add: m'_def sel)
  ultimately show "table_rep E t' m' B" using R(6) by (simp add: table_rep_def same)
  show "key_list E t' m' B = key_list E t m B"
    using rep1(2) by (simp add: key_list_def fun_eq_iff same m'_def sel)
  show "kept E m m'" using rep1(4) by (simp add: kept_def m'_def sel)
qed

lemma new_dir_copy:
  assumes "d \<noteq> a" and "d \<in> regions m" and "n \<le> dsize (dheap m d)" and "n \<le> len"
    and "\<And>i. n \<le> i \<Longrightarrow> dslot (dheap m d) i = None"
  shows "copy_dir (Some d) (Some a) n (map_region E a (len * 8) m) = Some (new_dir E d a len m)"
proof -
  let ?m1 = "map_region E a (len * 8) m"
  have "dheap ?m1 d = dheap m d" "dheap ?m1 a = \<lparr>dsize = len, dslot = (\<lambda>_. None)\<rparr>"
    "regions ?m1 = insert a (regions m)"
    using assms(1) by (simp_all add: map_region_def)
  moreover have "(\<lambda>i. if i < n then dslot (dheap m d) i else None) = dslot (dheap m d)"
    using assms(5) by (auto simp: fun_eq_iff)
  ultimately show ?thesis
    using copy_dir_correct [of d a ?m1 n] assms(1-4) by (simp add: new_dir_def Let_def cong: if_cong)
qed

text \<open>A change of the table that its users do not see.\<close>

definition stays ::
  "'b env \<Rightarrow> metadata \<Rightarrow> 'b mem \<Rightarrow> (nat \<Rightarrow> bptr list) \<Rightarrow> metadata \<Rightarrow> 'b mem \<Rightarrow> (nat \<Rightarrow> bptr list) \<Rightarrow> bool" where
  "stays E t m B t' m' B' \<longleftrightarrow> table_rep E t' m' B' \<and> key_list E t' m' B' = key_list E t m B \<and>
     live_buckets E m' = live_buckets E m \<and> kept E m m' \<and> cfg t' = cfg t"

lemma stays_trans:
  "stays E t m B t' m' B' \<Longrightarrow> stays E t' m' B' t'' m'' B'' \<Longrightarrow> stays E t m B t'' m'' B''"
  unfolding stays_def by (metis kept_trans subset_refl)

lemma stays_errno: "table_rep E t m B \<Longrightarrow> stays E t m B t (m\<lparr>errno := e\<rparr>) B"
  by (simp add: stays_def)

lemma mul_size_8:
  assumes "x \<le> 2 ^ 24"
  shows "mul_size (of_nat x) 8 = Some (of_nat (x * 8))" and "unat (of_nat (x * 8) :: u64) = x * 8"
proof -
  show "mul_size (of_nat x) 8 = Some (of_nat (x * 8))"
    using mul_size_of_nat [of x 8] assms by simp
  show "unat (of_nat (x * 8) :: u64) = x * 8"
    using assms by (intro unat_of_nat_64) simp
qed

lemma allocate_directory_cases:
  assumes "memcxt_ok E m"
  obtains "memcxt_allocate E DIRECTORY h sz m = Some (None, m)" and "\<not> mmap_total E"
  | a where "memcxt_allocate E DIRECTORY h sz m = Some (Some (VDir a), map_region E a sz m)" and "a \<notin> regions m"
  by (rule sri_mmap_cases [OF memcxt_ok_env(2) [OF assms], of "h \<bind> as_dir" sz m])
    (use that memcxt_ok_env(5) [OF assms] in auto)

text \<open>Copying the first \<open>n\<close> slots into a fresh directory and unmapping the old one.\<close>

lemma directory_exchange:
  assumes rep: "table_rep E t m B" and d: "directory t = Some d" and a: "a \<notin> regions m"
    and n: "directory_current t \<le> n" "n \<le> directory_length t" "n \<le> len"
    and len: "len = 1024 * 2 ^ k" "len \<le> 2 ^ 23"
  shows "copy_dir (directory t) (Some a) n (map_region E a (len * 8) m) = Some (new_dir E d a len m)"
    and "stays E t m B (t\<lparr>directory := Some a, directory_length := len\<rparr>)
           (sri_munmap d sz (new_dir E d a len m)) B"
proof -
  note R = table_repD [OF rep]
  obtain d' where "directory t = Some d'" "d' \<in> regions m" "dsize (dheap m d') = directory_length t"
    "seg_at t m = dslot (dheap m d')"
    using R(4) by (rule dir_okD)
  then have dd: "d \<in> regions m" "dsize (dheap m d) = directory_length t" "seg_at t m = dslot (dheap m d)"
    using d by simp_all
  have "dslot (dheap m d) i = None" if "n \<le> i" for i
    using dir_ok_seg(2) [OF R(4), of i] that n(1) dd(3) by simp
  then show "copy_dir (directory t) (Some a) n (map_region E a (len * 8) m) = Some (new_dir E d a len m)"
    unfolding d using dd a n by (intro new_dir_copy) auto
  show "stays E t m B (t\<lparr>directory := Some a, directory_length := len\<rparr>)
           (sri_munmap d sz (new_dir E d a len m)) B"
    unfolding stays_def using new_dir_correct [OF rep d a _ len, of sz] n by auto
qed

section \<open>Expansion\<close>

lemma expand_directory_cases:
  assumes rep: "table_rep E t m B" and full: "directory_length t = directory_current t"
    and room: "bincount t \<le> 2 ^ 31 - 256"
  obtains "metadata_expand_directory E t m = Some (False, t, m\<lparr>errno := Some ENOMEM\<rparr>)" and "\<not> mmap_total E"
  | a m' where "metadata_expand_directory E t m =
        Some (True, t\<lparr>directory := Some a, directory_length := 2 * directory_length t\<rparr>, m')"
      and "stays E t m B (t\<lparr>directory := Some a, directory_length := 2 * directory_length t\<rparr>) m' B"
proof -
  note R = table_repD [OF rep]
  obtain d where d: "directory t = Some d" "d \<in> regions m" using R(4) by (rule dir_okD)
  obtain k where k: "directory_length t = 1024 * 2 ^ k" using shapeD(12) [OF R(3)] by blast
  have "directory_length t < 2 ^ 23" using full room shapeD(9) [OF R(3)] by simp
  then have "(2 :: nat) ^ (10 + k) < 2 ^ 23" using k by (simp add: power_add)
  then have "10 + k < 23" by (rule power_less_imp_less_exp [rotated]) simp
  then have "(2 :: nat) ^ (11 + k) \<le> 2 ^ 23" by (intro power_increasing) auto
  then have le: "2 * directory_length t \<le> 2 ^ 23" using k by (simp add: power_add)
  have k2: "2 * directory_length t = 1024 * 2 ^ (k + 1)" using k by simp
  have max: "2 * directory_length t < directory_length_max (cfg t)"
    using le shapeD(4) [OF R(3)] by (simp add: UINT32_MAX_def)
  note sz = mul_size_8 [of "2 * directory_length t"] mul_size_8 [of "directory_length t"]
  show ?thesis
  proof (rule allocate_directory_cases [OF R(1), of "map_option VDir (directory t)" "2 * directory_length t * 8"])
    assume "memcxt_allocate E DIRECTORY (map_option VDir (directory t)) (2 * directory_length t * 8) m = Some (None, m)"
      "\<not> mmap_total E"
    then show ?thesis
      using that(1) full max le sz by (simp add: metadata_expand_directory_def Let_def)
  next
    fix a
    assume a: "memcxt_allocate E DIRECTORY (map_option VDir (directory t)) (2 * directory_length t * 8) m =
        Some (Some (VDir a), map_region E a (2 * directory_length t * 8) m)" "a \<notin> regions m"
    let ?sz = "unat (of_nat (directory_length t * 8) :: u64)"
    note ex = directory_exchange [OF rep d(1) a(2) _ _ _ k2 le, of "directory_length t"]
    have "a \<noteq> d" using a(2) d(2) by blast
    then have "metadata_expand_directory E t m =
        Some (True, t\<lparr>directory := Some a, directory_length := 2 * directory_length t\<rparr>,
              sri_munmap d ?sz (new_dir E d a (2 * directory_length t) m))"
      using full max le sz a(1) ex(1) d(1) by (simp add: metadata_expand_directory_def Let_def)
    then show ?thesis using that(2) ex(2) full by simp
  qed
qed

lemma dir_set_segment:
  assumes "dir_ok E t m" and "shape t" and "n < directory_length t"
  shows "dir_set m (directory t) n v = Some (m\<lparr>dheap := (dheap m)(the (directory t) :=
    (dheap m (the (directory t)))\<lparr>dslot := (seg_at t m)(n := v)\<rparr>)\<rparr>)"
    and "dir_get m (directory t) n = Some (seg_at t m n)"
  using assms by (auto simp: dir_set_def dir_get_def elim!: dir_okD)

lemma allocate_segment_cases:
  assumes ok: "memcxt_ok E m"
  obtains (none) "memcxt_allocate E SEGMENT None sz m = Some (None, m)" and "\<not> mmap_total E"
  | (some) s m' where "memcxt_allocate E SEGMENT None sz m = Some (Some (VSeg s), m')" and "memcxt_ok E m'"
      and "s \<notin> live_segments E m" and "live_segments E m' = insert s (live_segments E m)"
      and "live_buckets E m' = live_buckets E m" and "bucket_pools m' = bucket_pools m"
      and "grows m m'" and "segment_pools m' \<subseteq> segment_pools m \<union> - regions m"
      and "free_segments_clear E m \<Longrightarrow> free_segments_clear E m' \<and> segment_clear (sheap m' s)"
  by (rule alloc_segment_cases [OF ok]) (use that in auto)

lemma ceil_256: "((n :: nat) + 255) div 256 = (if n mod 256 = 0 then n div 256 else n div 256 + 1)"
proof -
  define q r where "q = n div 256" and "r = n mod 256"
  have n: "n = r + 256 * q" and r: "r < 256" by (simp_all add: q_def r_def)
  have "(n + 255) div 256 = q + (r + 255) div 256" unfolding n by simp
  moreover have "(r + 255) div 256 = (if r = 0 then 0 else 1)" using r by (auto simp: div_nat_eqI)
  ultimately show ?thesis by (simp add: q_def r_def)
qed

text \<open>Between the creation of the segment and the split the counters lag behind.\<close>

definition half_way ::
  "'b env \<Rightarrow> metadata \<Rightarrow> 'b mem \<Rightarrow> (nat \<Rightarrow> bptr list) \<Rightarrow> 'b mem \<Rightarrow> bool" where
  "half_way E t m B m1 \<longleftrightarrow>
     (let t1 = t\<lparr>directory_current := bincount t div 256 + 1\<rparr> in
      memcxt_ok E m1 \<and> free_segments_clear E m1 \<and> dir_ok E t1 m1 \<and> bins_ok E t1 m1 B \<and>
      key_list E t1 m1 B = key_list E t m B \<and> live_buckets E m1 = live_buckets E m \<and> kept E m m1 \<and>
      (\<forall>i < bincount t. cell_of t1 m1 i = cell_of t m i))"

lemma same_key_bin [simp]:
  "key_bin E (t\<lparr>directory_current := n\<rparr>) = key_bin E t"
  "key_list E (t\<lparr>directory_current := n\<rparr>) = key_list E t"
  "seg_at (t\<lparr>directory_current := n\<rparr>) = seg_at t"
  "cell_of (t\<lparr>directory_current := n\<rparr>) = cell_of t"
  by (simp_all add: key_bin_def hidx_def key_list_def fun_eq_iff seg_at_def cell_of_def)

lemma half_way_present:
  assumes "table_rep E t m B" and "bincount t mod 256 \<noteq> 0"
  shows "half_way E t m B m"
proof -
  have "bincount t div 256 + 1 = directory_current t"
    using shapeD(9) [OF table_repD(3) [OF assms(1)]] assms(2) by (simp add: ceil_256)
  then show ?thesis using table_repD [OF assms(1)] by (simp add: half_way_def Let_def)
qed

lemma half_way_created:
  assumes rep: "table_rep E t m B" and z: "bincount t mod 256 = 0"
    and m1: "memcxt_ok E m1" "s \<notin> live_segments E m" "live_segments E m1 = insert s (live_segments E m)"
      "live_buckets E m1 = live_buckets E m" "bucket_pools m1 = bucket_pools m" "grows m m1"
      "segment_pools m1 \<subseteq> segment_pools m \<union> - regions m" "free_segments_clear E m1"
      "segment_clear (sheap m1 s)"
    and d: "directory t = Some d"
  defines "m2 \<equiv> m1\<lparr>dheap := (dheap m1)(d := (dheap m1 d)\<lparr>dslot := (seg_at t m1)(bincount t div 256 := Some s)\<rparr>)\<rparr>"
  shows "half_way E t m B m2" and "seg_at t m2 = (seg_at t m1)(bincount t div 256 := Some s)"
proof -
  let ?n = "bincount t div 256"
  note R = table_repD [OF rep]
  have cur: "directory_current t = ?n" using shapeD(9) [OF R(3)] z by (simp add: ceil_256)
  have rep1: "table_rep E t m1 B" "key_list E t m1 B = key_list E t m B" "seg_at t m1 = seg_at t m"
    "cell_of t m1 = cell_of t m" "kept E m m1"
    using table_rep_grows [OF rep m1(6,1,8)] m1 by auto
  note R1 = table_repD [OF rep1(1)]
  show seg: "seg_at t m2 = (seg_at t m1)(?n := Some s)" by (simp add: seg_at_def m2_def d)
  have sel: "live_segments E m2 = insert s (live_segments E m)" "live_buckets E m2 = live_buckets E m"
    "bucket_pools m2 = bucket_pools m1" "segment_pools m2 = segment_pools m1" "get_next m2 = get_next m1"
    "get_bin m2 = get_bin m1" "bheap m2 = bheap m1" "regions m2 = regions m1" "memcxt_ok E m2"
    "free_segments_clear E m2" "dsize (dheap m2 d) = dsize (dheap m1 d)"
    using m1(1,3,4,8) by (simp_all add: m2_def)
  have cells: "cell_of t m2 i = cell_of t m i" if "i < 256 * ?n" for i
  proof -
    have "i div 256 \<noteq> ?n" using that by auto
    then show ?thesis using rep1(4) by (simp add: cell_of_def seg fun_eq_iff)
  qed
  have "\<exists>x. seg_at t m2 i = Some x \<and> x \<in> live_segments E m2" if "i < ?n + 1" for i
    using dir_ok_seg(1) [OF R1(4), of i] that cur m1(3) by (cases "i = ?n") (auto simp: seg sel rep1(3))
  moreover have "inj_on (seg_at t m2) {..<?n + 1}"
  proof -
    have "inj_on (seg_at t m2) {..<?n}"
      using dir_ok_seg(3) [OF R1(4)] cur by (simp add: seg inj_on_def)
    moreover have "seg_at t m2 i \<noteq> Some s" if "i < ?n" for i
      using dir_ok_seg(1) [OF R(4), of i] that cur m1(2) rep1(3) by (auto simp: seg)
    then have "seg_at t m2 ?n \<notin> seg_at t m2 ` {..<?n}" by (force simp: seg)
    ultimately show ?thesis by (simp add: lessThan_Suc)
  qed
  moreover have "seg_at t m2 i = None" if "?n + 1 \<le> i" for i
    using dir_ok_seg(2) [OF R1(4), of i] that cur by (simp add: seg)
  ultimately have dok: "dir_ok E (t\<lparr>directory_current := ?n + 1\<rparr>) m2"
    using R1(4) by (simp add: dir_ok_def sel d)
  have new: "get_bin m2 (cell_of t m2 i) = None" if "256 * ?n \<le> i" "i < 256 * (?n + 1)" for i
  proof -
    have "i div 256 = ?n" using that by (intro div_nat_eqI) simp_all
    then show ?thesis using m1(9) by (simp add: cell_of_def seg sel get_bin_def segment_clear_def)
  qed
  have "chain (get_next m2) (get_bin m2 (cell_of t m2 i)) (B i)" if i: "i < 256 * (?n + 1)" for i
  proof (cases "i < 256 * ?n")
    case True
    then show ?thesis
      using bins_okD(1) [OF R1(5), of i] cells [OF True] rep1(4) cur by (simp add: sel)
  next
    case False
    then have "bincount t \<le> i" using z by (simp add: mod_eq_0_iff_dvd)
    then show ?thesis using bins_okD(2) [OF R(5)] new [of i] False i by simp
  qed
  then have bok: "bins_ok E (t\<lparr>directory_current := ?n + 1\<rparr>) m2 B"
    using bins_okD(2-4) [OF R1(5)] unfolding bins_ok_def by (simp add: sel m1(4))
  have "key_list E t m2 B = key_list E t m B" "kept E m m2"
    using rep1(2,5) by (simp_all add: key_list_def sel kept_def fun_eq_iff)
  moreover have "bincount t = 256 * ?n" using z by (simp add: mod_eq_0_iff_dvd)
  ultimately show "half_way E t m B m2"
    using dok bok cells by (simp add: half_way_def sel Let_def)
qed

lemma ensure_segment_cases:
  assumes rep: "table_rep E t m B" and room: "directory_current t < directory_length t"
  obtains "ensure_segment E t (bincount t div 256) (bincount t mod 256) m = Some (False, t, m\<lparr>errno := Some ENOMEM\<rparr>)"
      and "\<not> mmap_total E"
  | s m1 where "ensure_segment E t (bincount t div 256) (bincount t mod 256) m
        = Some (True, t\<lparr>directory_current := bincount t div 256 + 1\<rparr>, m1)"
      and "half_way E t m B m1" and "seg_at t m1 (bincount t div 256) = Some s"
proof (cases "bincount t mod 256 = 0")
  case False
  note R = table_repD [OF rep]
  have cur: "bincount t div 256 + 1 = directory_current t" using shapeD(9) [OF R(3)] False by (simp add: ceil_256)
  then obtain s where "seg_at t m (bincount t div 256) = Some s"
    using dir_ok_seg(1) [OF R(4), of "bincount t div 256"] by auto
  moreover have "ensure_segment E t (bincount t div 256) (bincount t mod 256) m
        = Some (True, t\<lparr>directory_current := bincount t div 256 + 1\<rparr>, m)"
    using False cur by (simp add: ensure_segment_def)
  ultimately show ?thesis using that(2) half_way_present [OF rep False] by blast
next
  case True
  note R = table_repD [OF rep]
  let ?n = "bincount t div 256"
  have cur: "directory_current t = ?n" using shapeD(9) [OF R(3)] True by (simp add: ceil_256)
  obtain d where d: "directory t = Some d" using R(4) by (rule dir_okD)
  have none: "dir_get m (directory t) ?n = Some None"
    using dir_set_segment(2) [OF R(4,3), of ?n] room cur dir_ok_seg(2) [OF R(4), of ?n] by simp
  show ?thesis
  proof (rule allocate_segment_cases [OF R(1), of sizeof_segment])
    assume "memcxt_allocate E SEGMENT None sizeof_segment m = Some (None, m)" "\<not> mmap_total E"
    then show ?thesis using that(1) True none by (simp add: ensure_segment_def)
  next
    fix s m1
    assume a: "memcxt_allocate E SEGMENT None sizeof_segment m = Some (Some (VSeg s), m1)"
      and m1: "memcxt_ok E m1" "s \<notin> live_segments E m" "live_segments E m1 = insert s (live_segments E m)"
        "live_buckets E m1 = live_buckets E m" "bucket_pools m1 = bucket_pools m" "grows m m1"
        "segment_pools m1 \<subseteq> segment_pools m \<union> - regions m"
      and fc: "free_segments_clear E m \<Longrightarrow> free_segments_clear E m1 \<and> segment_clear (sheap m1 s)"
    have fc': "free_segments_clear E m1" "segment_clear (sheap m1 s)" using fc R(2) by auto
    note h = half_way_created [OF rep True m1 fc' d]
    have "table_rep E t m1 B" using table_rep_grows(1) [OF rep m1(6,1) fc'(1)] m1 by auto
    from dir_set_segment(1) [OF table_repD(4,3) [OF this], of ?n] room cur
    have "ensure_segment E t ?n (bincount t mod 256) m = Some (True, t\<lparr>directory_current := ?n + 1\<rparr>,
        m1\<lparr>dheap := (dheap m1)(d := (dheap m1 d)\<lparr>dslot := (seg_at t m1)(?n := Some s)\<rparr>)\<rparr>)"
      using True none a by (simp add: ensure_segment_def d)
    then show ?thesis using that(2) h by simp
  qed
qed

text \<open>The state after the split, from the state before the counters advance.\<close>

definition split_bins :: "'b env \<Rightarrow> metadata \<Rightarrow> 'b mem \<Rightarrow> (nat \<Rightarrow> bptr list) \<Rightarrow> nat \<Rightarrow> bptr list" where
  "split_bins E t m B =
    (let ix = (\<lambda>r. key_bin E (advance_p t) (chunk (bheap m r))) in
     B(tp t := filter (\<lambda>r. ix r \<noteq> bincount t) (B (tp t)),
       bincount t := filter (\<lambda>r. ix r = bincount t) (B (tp t))))"

lemma key_bin_advance:
  assumes "shape t"
  shows "key_bin E (advance_p t) k = key_bin E t k \<or>
    (key_bin E t k = tp t \<and> key_bin E (advance_p t) k = bincount t)"
    and "key_bin E (advance_p t) k = tp t \<Longrightarrow> key_bin E t k = tp t"
    and "key_bin E (advance_p t) k = bincount t \<Longrightarrow> key_bin E t k = tp t"
proof -
  let ?h = "unat (hash_ptr E k)"
  have "tp t < maxp t" "bincount t = maxp t + tp t" "hidx t ?h < bincount t"
    using shapeD(6,7) hidx_less assms by auto
  then show "key_bin E (advance_p t) k = key_bin E t k \<or>
    (key_bin E t k = tp t \<and> key_bin E (advance_p t) k = bincount t)"
    "key_bin E (advance_p t) k = tp t \<Longrightarrow> key_bin E t k = tp t"
    "key_bin E (advance_p t) k = bincount t \<Longrightarrow> key_bin E t k = tp t"
    using hidx_advance [OF assms, of ?h] by (auto simp: key_bin_def split: if_splits)
qed

lemma split_bins_props:
  assumes b: "bins_ok E t m B" and sh: "shape t"
  shows "entries (split_bins E t m B) = entries B"
    and "\<And>i. bincount t + 1 \<le> i \<Longrightarrow> split_bins E t m B i = []"
    and "\<And>i r. r \<in> set (split_bins E t m B i) \<Longrightarrow>
          r \<in> live_buckets E m \<and> key_bin E (advance_p t) (chunk (bheap m r)) = i"
    and "key_list E (advance_p t) m (split_bins E t m B) = key_list E t m B"
proof -
  let ?n = "bincount t" and ?p = "tp t" and ?ix = "\<lambda>r. key_bin E (advance_p t) (chunk (bheap m r))"
  note K = key_bin_advance [OF sh]
  have pn: "?p < ?n" using shapeD(6,7) [OF sh] by simp
  have S: "split_bins E t m B ?p = filter (\<lambda>r. ?ix r \<noteq> ?n) (B ?p)"
    "split_bins E t m B ?n = filter (\<lambda>r. ?ix r = ?n) (B ?p)"
    "\<And>i. i \<noteq> ?p \<Longrightarrow> i \<noteq> ?n \<Longrightarrow> split_bins E t m B i = B i"
    using pn by (simp_all add: split_bins_def Let_def)
  have Bn: "B i = []" if "?n \<le> i" for i using bins_okD(2) [OF b that] .
  show "split_bins E t m B i = []" if "?n + 1 \<le> i" for i using that pn S(3) Bn by simp
  show "r \<in> live_buckets E m \<and> ?ix r = i" if r: "r \<in> set (split_bins E t m B i)" for i r
  proof -
    consider "i = ?p" | "i = ?n" | "i \<noteq> ?p" "i \<noteq> ?n" by blast
    then show ?thesis
    proof cases
      case 1
      then have "r \<in> set (B ?p)" "?ix r \<noteq> ?n" using r S(1) by auto
      then show ?thesis using 1 K(1) [of E "chunk (bheap m r)"] bins_okD(3,4) [OF b] by auto
    next
      case 2
      then show ?thesis using r S(2) bins_okD(3) [OF b] by auto
    next
      case 3
      then have "r \<in> set (B i)" using r S(3) by simp
      then show ?thesis using 3 K(1) [of E "chunk (bheap m r)"] bins_okD(3,4) [OF b] by auto
    qed
  qed
  have "set (split_bins E t m B ?p) \<union> set (split_bins E t m B ?n) = set (B ?p)" unfolding S by auto
  then show "entries (split_bins E t m B) = entries B"
  proof -
    assume u: "set (split_bins E t m B ?p) \<union> set (split_bins E t m B ?n) = set (B ?p)"
    have all: "(\<Union>i. f i) = f ?p \<union> f ?n \<union> (\<Union>i\<in>- {?p, ?n}. f i)" for f :: "nat \<Rightarrow> bptr set"
      using UN_Un [of f "{?p, ?n}" "- {?p, ?n}"] by simp
    have "(\<Union>i\<in>- {?p, ?n}. set (split_bins E t m B i)) = (\<Union>i\<in>- {?p, ?n}. set (B i))"
      by (rule SUP_cong) (use S(3) in auto)
    then show ?thesis
      unfolding entries_def all [of "\<lambda>i. set (split_bins E t m B i)"] all [of "\<lambda>i. set (B i)"]
      using u Bn [of ?n] by simp
  qed
  show "key_list E (advance_p t) m (split_bins E t m B) = key_list E t m B"
  proof
    fix k
    let ?j = "key_bin E (advance_p t) k"
    consider "?j = ?p" | "?j = ?n" | "?j \<noteq> ?p" "?j \<noteq> ?n" by blast
    then show "key_list E (advance_p t) m (split_bins E t m B) k = key_list E t m B k"
    proof cases
      case 1
      then have "key_bin E t k = ?p" using K(2) by blast
      then show ?thesis using 1 pn by (auto simp: key_list_def S intro!: filter_cong)
    next
      case 2
      then have "key_bin E t k = ?p" using K(3) by blast
      then show ?thesis using 2 by (auto simp: key_list_def S intro!: filter_cong)
    next
      case 3
      then have "key_bin E t k = ?j" using K(1) [of E k] by auto
      then show ?thesis using 3 by (simp add: key_list_def S)
    qed
  qed
qed

lemma half_way_split:
  assumes rep: "table_rep E t m B" and h: "half_way E t m B m1"
    and room: "bincount t < 2 ^ 31" "bincount t div 256 < directory_length t"
  defines "t2 \<equiv> advance_p (t\<lparr>directory_current := bincount t div 256 + 1\<rparr>)"
  shows "get_bin m1 (cell_of t m1 (bincount t)) = None"
    and "\<exists>m2 B2. split_loop E t2 (bincount t) (cell_of t m (tp t)) (cell_of t m1 (bincount t))
           (get_bin m1 (cell_of t m (tp t))) None None m1 = Some m2 \<and> stays E t m B t2 m2 B2"
proof -
  let ?n = "bincount t" and ?p = "tp t"
  let ?t1 = "t\<lparr>directory_current := ?n div 256 + 1\<rparr>"
  note R = table_repD [OF rep]
  have H: "memcxt_ok E m1" "free_segments_clear E m1" "dir_ok E ?t1 m1" "bins_ok E ?t1 m1 B"
    "key_list E t m1 B = key_list E t m B" "live_buckets E m1 = live_buckets E m" "kept E m m1"
    "\<And>i. i < ?n \<Longrightarrow> cell_of t m1 i = cell_of t m i"
    using h by (simp_all add: half_way_def Let_def)
  have pn: "?p < ?n" "?n < 256 * (?n div 256 + 1)" using shapeD(6,7) [OF R(3)] by auto
  have bt: "bins_ok E t m1 B"
    using H(4) pn(2) shapeD(9) [OF R(3)] unfolding bins_ok_def by (auto simp: ceil_256 split: if_splits)
  have t2: "t2 = (advance_p t)\<lparr>directory_current := ?n div 256 + 1\<rparr>"
    by (simp add: t2_def advance_p_def Let_def)
  have dc: "(?n + 1 + 255) div 256 = ?n div 256 + 1" by simp
  have sh2: "shape t2"
    using R(3) advance_p_sel [OF R(3)] room unfolding shape_def t2 by (simp add: dc)
  define old new where "old = cell_of t m ?p" and "new = cell_of t m1 ?n"
  have old: "old = cell_of t m1 ?p" using H(8) pn(1) by (simp add: old_def)
  have ne: "old \<noteq> new"
    using cell_of_inj [OF H(3), of ?p ?n] pn by (simp add: old new_def)
  have chains: "chain (get_next m1) (get_bin m1 (cell_of t m1 i)) (B i)" if "i < 256 * (?n div 256 + 1)" for i
    using bins_okD(1) [OF H(4), of i] that by simp
  have Bn: "B ?n = []" using bins_okD(2) [OF bt] by simp
  then show none: "get_bin m1 (cell_of t m1 ?n) = None" using chains [OF pn(2)] by simp
  let ?ix = "\<lambda>r. key_bin E t2 (chunk (bheap m1 r))"
  let ?B2 = "split_bins E t m1 B"
  have kb: "key_bin E t2 = key_bin E (advance_p t)" by (simp add: t2)
  have "\<exists>nx bn. split_loop E t2 ?n old new (get_bin m1 old) (last_opt []) (last_opt []) (relink (get_next m1) (get_bin m1) m1)
        = Some (relink nx bn m1)
    \<and> chain nx (bn old) ([] @ filter (\<lambda>r. ?ix r \<noteq> ?n) (B ?p)) \<and> chain nx (bn new) ([] @ filter (\<lambda>r. ?ix r = ?n) (B ?p))
    \<and> (\<forall>r. r \<notin> set ([] @ [] @ B ?p) \<longrightarrow> nx r = get_next m1 r) \<and> (\<forall>c. c \<noteq> old \<and> c \<noteq> new \<longrightarrow> bn c = get_bin m1 c)"
    by (rule split_loop_correct [OF ne])
      (use metadata_bindex_eq [OF sh2] chains [of ?p] pn old none bin_distinct(1) [OF bt R(3)] in \<open>simp_all add: new_def\<close>)
  then obtain nx bn where sp: "split_loop E t2 ?n old new (get_bin m1 old) None None m1 = Some (relink nx bn m1)"
    "chain nx (bn old) (?B2 ?p)" "chain nx (bn new) (?B2 ?n)"
    "\<And>r. r \<notin> set (B ?p) \<Longrightarrow> nx r = get_next m1 r" "\<And>c. c \<noteq> old \<Longrightarrow> c \<noteq> new \<Longrightarrow> bn c = get_bin m1 c"
    using pn(1) by (auto simp: split_bins_def Let_def kb)
  note P = split_bins_props [OF bt R(3)]
  have chains2: "chain nx (bn (cell_of t m1 i)) (?B2 i)" if i: "i < 256 * (?n div 256 + 1)" for i
  proof -
    consider "i = ?p" | "i = ?n" | "i \<noteq> ?p" "i \<noteq> ?n" by blast
    then show ?thesis
    proof cases
      case 3
      have "cell_of t m1 i \<noteq> old" "cell_of t m1 i \<noteq> new"
        using cell_of_inj [OF H(3), of i ?p] cell_of_inj [OF H(3), of i ?n] 3 i pn by (simp_all add: old new_def)
      then have "chain (get_next m1) (bn (cell_of t m1 i)) (B i)" using chains [OF i] sp(5) by simp
      then have "chain nx (bn (cell_of t m1 i)) (B i)"
        by (rule path_frame [of _ _ _ _ "set (B ?p)"]) (use sp(4) bin_distinct(2) [OF bt R(3) 3(1)] in auto)
      then show ?thesis using 3 by (simp add: split_bins_def Let_def)
    qed (use sp(2,3) old new_def in simp_all)
  qed
  have cells: "cell_of t2 = (cell_of t :: 'a mem \<Rightarrow> _)"
    by (simp add: cell_of_def seg_at_def t2 fun_eq_iff advance_p_sel [OF R(3)])
  have seg2: "seg_at (advance_p t) = (seg_at t :: 'a mem \<Rightarrow> _)"
    by (simp add: seg_at_def fun_eq_iff advance_p_sel [OF R(3)])
  have "dir_ok E t2 (relink nx bn m1)"
    using H(3) unfolding dir_ok_relink by (simp add: dir_ok_def seg2 t2 advance_p_sel [OF R(3)])
  moreover have "free_segments_clear E (relink nx bn m1)"
  proof (rule free_segments_clear_relink [OF H(2)])
    fix c :: cell assume "fst c \<notin> live_segments E m1"
    then have "c \<noteq> old" "c \<noteq> new"
      using cell_of_live [OF H(3), of ?p] cell_of_live [OF H(3), of ?n] pn by (auto simp: old new_def)
    then show "bn c = get_bin m1 c" by (rule sp(5))
  qed
  moreover have "bins_ok E t2 (relink nx bn m1) ?B2"
    using chains2 P(2,3) advance_p_sel [OF R(3)] unfolding bins_ok_def cells
    by (simp add: t2)
  ultimately have "table_rep E t2 (relink nx bn m1) ?B2"
    using H(1) sh2 R(6) P(1) advance_p_sel [OF R(3)] by (simp add: table_rep_def t2)
  moreover have "key_list E t2 (relink nx bn m1) ?B2 = key_list E t m B"
    using P(4) H(5) by (simp add: key_list_def t2 fun_eq_iff)
  moreover have "kept E m (relink nx bn m1)"
    using H(6,7) kept_trans [OF H(7) kept_relink] by simp
  ultimately have "stays E t m B t2 (relink nx bn m1) ?B2" using H(6) advance_p_sel(2) [OF R(3)]
    by (simp add: stays_def t2)
  then show "\<exists>m2 B2. split_loop E t2 ?n (cell_of t m ?p) (cell_of t m1 ?n)
           (get_bin m1 (cell_of t m ?p)) None None m1 = Some m2 \<and> stays E t m B t2 m2 B2"
    using sp(1) unfolding old_def new_def by blast
qed

definition grow_directory ::
  "'b env \<Rightarrow> metadata \<Rightarrow> 'b mem \<Rightarrow> (bool \<times> metadata \<times> 'b mem) option" where
  "grow_directory E t m =
    (if directory_length t = directory_current t then metadata_expand_directory E t m else Some (True, t, m))"

lemma grow_directory_cases:
  assumes rep: "table_rep E t m B" and room: "bincount t \<le> 2 ^ 31 - 256"
  obtains "grow_directory E t m = Some (False, t, m\<lparr>errno := Some ENOMEM\<rparr>)" and "\<not> mmap_total E"
  | d l m' where "grow_directory E t m = Some (True, t\<lparr>directory := d, directory_length := l\<rparr>, m')"
      and "stays E t m B (t\<lparr>directory := d, directory_length := l\<rparr>) m' B" and "directory_current t < l"
proof (cases "directory_length t = directory_current t")
  case True
  note R = table_repD [OF rep]
  have "0 < bincount t" using shapeD(6,7) [OF R(3)] by linarith
  then have pos: "0 < directory_current t" unfolding shapeD(9) [OF R(3)] by (simp add: div_greater_zero_iff)
  show ?thesis
    by (rule expand_directory_cases [OF rep True room]) (use that True pos in \<open>auto simp: grow_directory_def\<close>)
next
  case False
  have "stays E t m B t m B" using rep by (simp add: stays_def)
  moreover have "directory_current t < directory_length t"
    using shapeD(11) [OF table_repD(3) [OF rep]] False by simp
  ultimately show ?thesis
    using that(2) [where d = "directory t" and l = "directory_length t" and m' = m] False
    by (simp add: grow_directory_def)
qed

lemma expand_table_correct:
  assumes rep: "table_rep E t m B" and room: "bincount t \<le> 2 ^ 31 - 256"
  shows "\<exists>ok t' m' B'. metadata_expand_table E t m = Some (ok, t', m') \<and> stays E t m B t' m' B' \<and>
    bincount t' = (if ok then bincount t + 1 else bincount t) \<and>
    (\<not> ok \<longrightarrow> errno m' = Some ENOMEM \<and> \<not> mmap_total E)"
proof -
  note R = table_repD [OF rep]
  have bc: "bincount t = maxp t + tp t" "bincount t < 2 ^ 64" using shapeD(7,8) [OF R(3)] by simp_all
  have add: "add_size (of_nat (maxp t)) (of_nat (tp t)) = Some (of_nat (bincount t))"
    "unat (of_nat (bincount t) :: u64) = bincount t"
    using add_size_of_nat [of "maxp t" "tp t"] unat_of_nat_64 [OF bc(2)] bc by simp_all
  have max: "bincount t < bincount_max (cfg t)"
    using shapeD(3) [OF R(3)] room by (simp add: UINT32_MAX_def)
  have start: "metadata_expand_table E t m = (grow_directory E t m \<bind> (\<lambda>(success, lhtbl, m).
      if \<not> success then Some (False, lhtbl, m)
         else if bincount t < bincount_max (cfg lhtbl) then do {
           oldbucketp \<leftarrow> bindex2bin lhtbl m (tp lhtbl);
           let seglen = segment_length (cfg lhtbl);
           let new_segindex = bincount t div seglen;
           newsegindex \<leftarrow> mod_power_of_two (bincount t) seglen;
           (success, lhtbl, m) \<leftarrow> ensure_segment E lhtbl new_segindex newsegindex m;
           if \<not> success then Some (False, lhtbl, m)
           else do {
             slot \<leftarrow> dir_get m (directory lhtbl) new_segindex;
             newseg \<leftarrow> slot;
             let lhtbl = advance_p lhtbl;
             let current = get_bin m oldbucketp;
             assert_c (get_bin m (newseg, newsegindex) = None);
             m \<leftarrow> split_loop E lhtbl (bincount t) oldbucketp (newseg, newsegindex) current None None m;
             Some (True, lhtbl, m) } }
         else Some (True, lhtbl, m)))"
    by (simp add: metadata_expand_table_def grow_directory_def add max Let_def)
  show ?thesis
  proof (rule grow_directory_cases [OF rep room])
    assume "grow_directory E t m = Some (False, t, m\<lparr>errno := Some ENOMEM\<rparr>)" "\<not> mmap_total E"
    then show ?thesis using start stays_errno [OF rep, of "Some ENOMEM"] by auto
  next
    fix d l m0
    let ?t0 = "t\<lparr>directory := d, directory_length := l\<rparr>"
    assume g: "grow_directory E t m = Some (True, ?t0, m0)" and st: "stays E t m B ?t0 m0 B"
      and l: "directory_current t < l"
    have rep0: "table_rep E ?t0 m0 B" using st by (simp add: stays_def)
    note R0 = table_repD [OF rep0]
    have old: "bindex2bin ?t0 m0 (tp t) = Some (cell_of ?t0 m0 (tp t))"
      using bindex2bin_eq [OF R0(3,4), of "tp t"] shapeD(6,7) [OF R(3)] by simp
    have seglen: "segment_length (cfg t) = 256" using shapeD(1) [OF R(3)] .
    have rest: "metadata_expand_table E t m =
        (ensure_segment E ?t0 (bincount t div 256) (bincount t mod 256) m0 \<bind> (\<lambda>(success, lhtbl, m).
           if \<not> success then Some (False, lhtbl, m)
           else do {
             slot \<leftarrow> dir_get m (directory lhtbl) (bincount t div 256);
             newseg \<leftarrow> slot;
             let lhtbl = advance_p lhtbl;
             let current = get_bin m (cell_of ?t0 m0 (tp t));
             assert_c (get_bin m (newseg, bincount t mod 256) = None);
             m \<leftarrow> split_loop E lhtbl (bincount t) (cell_of ?t0 m0 (tp t)) (newseg, bincount t mod 256) current None None m;
             Some (True, lhtbl, m) }))"
      unfolding start g by (simp add: old seglen max Let_def)
    show ?thesis
    proof (rule ensure_segment_cases [OF rep0])
      show "directory_current ?t0 < directory_length ?t0" using l by simp
    next
      assume "ensure_segment E ?t0 (bincount ?t0 div 256) (bincount ?t0 mod 256) m0
        = Some (False, ?t0, m0\<lparr>errno := Some ENOMEM\<rparr>)" "\<not> mmap_total E"
      then have "metadata_expand_table E t m = Some (False, ?t0, m0\<lparr>errno := Some ENOMEM\<rparr>)"
        unfolding rest by simp
      then show ?thesis using stays_trans [OF st stays_errno [OF rep0, of "Some ENOMEM"]] \<open>\<not> mmap_total E\<close>
        by (intro exI [of _ False] exI [of _ ?t0] exI [of _ "m0\<lparr>errno := Some ENOMEM\<rparr>"] exI [of _ B]) simp
    next
      fix s m1
      let ?t1 = "?t0\<lparr>directory_current := bincount ?t0 div 256 + 1\<rparr>"
      assume e: "ensure_segment E ?t0 (bincount ?t0 div 256) (bincount ?t0 mod 256) m0 = Some (True, ?t1, m1)"
        and h: "half_way E ?t0 m0 B m1" and s: "seg_at ?t0 m1 (bincount ?t0 div 256) = Some s"
      have lt: "bincount t < 2 ^ 31" "bincount t div 256 < l"
        using room l shapeD(9) [OF R(3)] by (auto simp: ceil_256 split: if_splits)
      have d1: "dir_ok E ?t1 m1" using h by (simp add: half_way_def Let_def)
      then have slot: "dir_get m1 d (bincount t div 256) = Some (Some s)"
        using lt(2) s by (auto simp: dir_get_def seg_at_def elim!: dir_okD)
      have cell: "cell_of ?t0 m1 (bincount t) = (s, bincount t mod 256)" using s by (simp add: cell_of_def)
      from half_way_split [OF rep0 h] lt obtain m2 B2 where
        "get_bin m1 (s, bincount t mod 256) = None"
        "split_loop E (advance_p ?t1) (bincount t) (cell_of ?t0 m0 (tp t)) (s, bincount t mod 256)
           (get_bin m1 (cell_of ?t0 m0 (tp t))) None None m1 = Some m2"
        "stays E ?t0 m0 B (advance_p ?t1) m2 B2"
        by (auto simp: cell)
      moreover from this have "metadata_expand_table E t m = Some (True, advance_p ?t1, m2)"
        unfolding rest using e slot by simp
      moreover have "bincount (advance_p ?t1) = bincount t + 1" by (simp add: advance_p_def Let_def)
      ultimately show ?thesis using stays_trans [OF st]
        by (intro exI [of _ True] exI [of _ "advance_p ?t1"] exI [of _ m2] exI [of _ B2]) auto
    qed
  qed
qed

lemma expand_check_correct:
  assumes rep: "table_rep E t m B" and room: "bincount t \<le> 2 ^ 31 - 256"
  shows "\<exists>ok t' m' B'. metadata_expand_check E t m = Some (ok, t', m') \<and> stays E t m B t' m' B' \<and>
    bincount t' \<le> bincount t + 1 \<and> bincount t \<le> bincount t' \<and>
    (\<not> ok \<longrightarrow> errno m' = Some ENOMEM \<and> \<not> mmap_total E)"
proof (cases "bincount t < bincount_max (cfg t) \<and> metadata_load t > max_load (cfg t)")
  case True
  then have "metadata_expand_check E t m = metadata_expand_table E t m"
    by (simp add: metadata_expand_check_def)
  moreover obtain ok t' m' B' where "metadata_expand_table E t m = Some (ok, t', m')" "stays E t m B t' m' B'"
    "bincount t' = (if ok then bincount t + 1 else bincount t)"
    "\<not> ok \<longrightarrow> errno m' = Some ENOMEM \<and> \<not> mmap_total E"
    using expand_table_correct [OF rep room] by blast
  moreover from this(3) have "bincount t' \<le> bincount t + 1 \<and> bincount t \<le> bincount t'" by (cases ok) simp_all
  ultimately show ?thesis by auto
next
  case False
  then have "metadata_expand_check E t m = Some (True, t, m)"
    by (auto simp: metadata_expand_check_def)
  then show ?thesis using rep by (auto simp: stays_def)
qed

end
