(* ===== verification/Metadata_Shrink.thy ===== *)
theory Metadata_Shrink
  imports Metadata_Resize
begin

text \<open>
  Contraction of the table: joining the last bin with the one it was split from, giving back a
  segment that has become empty, and halving a directory that is less than half full.
  \<open>metadata_contract_directory\<close> does not test the result of its allocation, so the lemmas assume
  that either the directory has its initial size or \<open>mmap\<close> does not fail (\<open>can_shrink\<close>).
\<close>

definition can_shrink :: "'b env \<Rightarrow> metadata \<Rightarrow> bool" where
  "can_shrink E t \<longleftrightarrow> directory_length t = 1024 \<or> mmap_total E"

lemma sri_mmap_total:
  assumes "mmap_total E" and "memcxt_ok E m"
  obtains a where "sri_mmap E h sz m = (Some a, map_region E a sz m)" and "a \<notin> regions m"
  by (rule sri_mmap_cases [OF memcxt_ok_env(2) [OF assms(2)], of h sz m])
    (use assms(1) memcxt_ok_env(5) [OF assms(2)] that in auto)

lemma contract_directory_correct:
  assumes rep: "table_rep E t m B" and total: "mmap_total E"
    and big: "1024 < directory_length t" and half: "directory_current t < directory_length t div 2"
  shows "\<exists>a m'. metadata_contract_directory E t m =
      Some (t\<lparr>directory := Some a, directory_length := directory_length t div 2\<rparr>, m')
    \<and> stays E t m B (t\<lparr>directory := Some a, directory_length := directory_length t div 2\<rparr>) m' B"
proof -
  note R = table_repD [OF rep]
  let ?len = "directory_length t div 2"
  obtain d where d: "directory t = Some d" "d \<in> regions m" using R(4) by (rule dir_okD)
  obtain k where k: "directory_length t = 1024 * 2 ^ k" using shapeD(12) [OF R(3)] by blast
  then obtain k' where "k = Suc k'" using big by (cases k) auto
  then have len: "?len = 1024 * 2 ^ k'" "?len \<le> 2 ^ 23" using k shapeD(10) [OF R(3)] by simp_all
  have le: "directory_length t \<le> 2 ^ 24" "?len \<le> 2 ^ 24" using shapeD(10) [OF R(3)] by simp_all
  obtain a where a: "sri_mmap E (Some d) (?len * 8) m = (Some a, map_region E a (?len * 8) m)" "a \<notin> regions m"
    by (rule sri_mmap_total [OF total R(1)])
  have ad: "a \<noteq> d" using a(2) d(2) by blast
  let ?sz = "unat (of_nat (directory_length t * 8) :: u64)"
  have ex: "copy_dir (directory t) (Some a) ?len (map_region E a (?len * 8) m) = Some (new_dir E d a ?len m)"
    by (rule directory_exchange(1) [OF rep d(1) a(2) _ _ _ len]) (use half in auto)
  have st: "stays E t m B (t\<lparr>directory := Some a, directory_length := ?len\<rparr>)
           (sri_munmap d ?sz (new_dir E d a ?len m)) B"
    by (rule directory_exchange(2) [OF rep d(1) a(2) _ _ _ len, of ?len]) (use half in auto)
  have "metadata_contract_directory E t m =
      Some (t\<lparr>directory := Some a, directory_length := ?len\<rparr>, sri_munmap d ?sz (new_dir E d a ?len m))"
    using mul_size_8 [OF le(1)] mul_size_8 [OF le(2)] half a(1) ad ex d(1)
    by (simp add: metadata_contract_directory_def Let_def)
  then show ?thesis using st by blast
qed

section \<open>Joining two bins\<close>

definition join_bins :: "metadata \<Rightarrow> (nat \<Rightarrow> bptr list) \<Rightarrow> nat \<Rightarrow> bptr list" where
  "join_bins t B =
     B(contract_target t := B (contract_target t) @ B (bincount t - 1), bincount t - 1 := [])"

lemma contract_target_dir [simp]:
  "contract_target (t\<lparr>directory := d, directory_length := l\<rparr>) = contract_target t"
  by (simp add: contract_target_def)

lemma contract_target_less:
  assumes "shape t" and "0 < tL t"
  shows "contract_target t < bincount t - 1" and "0 < bincount t"
proof -
  obtain L where "tL t = Suc L" using assms(2) by (cases "tL t") auto
  define n where "n = 256 * (2 :: nat) ^ L"
  have "maxp t = 2 * n" "0 < n" using shapeD(5) [OF assms(1)] \<open>tL t = Suc L\<close> by (simp_all add: n_def)
  then show "contract_target t < bincount t - 1" "0 < bincount t"
    using shapeD(6,7) [OF assms(1)] by (auto simp: contract_target_def)
qed

lemma key_bin_retreat:
  assumes "shape t" and "0 < tL t"
  shows "key_bin E (retreat_p t) k =
    (if key_bin E t k = bincount t - 1 then contract_target t else key_bin E t k)"
  by (simp add: key_bin_def hidx_retreat [OF assms])

lemma join_bins_props:
  assumes b: "bins_ok E t m B" and sh: "shape t" and L: "0 < tL t"
  shows "entries (join_bins t B) = entries B"
    and "\<And>i. bincount t - 1 \<le> i \<Longrightarrow> join_bins t B i = []"
    and "\<And>i r. r \<in> set (join_bins t B i) \<Longrightarrow>
          r \<in> live_buckets E m \<and> key_bin E (retreat_p t) (chunk (bheap m r)) = i"
    and "key_list E (retreat_p t) m (join_bins t B) = key_list E t m B"
proof -
  let ?s = "bincount t - 1" and ?g = "contract_target t"
  note K = key_bin_retreat [OF sh L]
  have g: "?g < ?s" "0 < bincount t" using contract_target_less [OF sh L] by simp_all
  have J: "join_bins t B ?g = B ?g @ B ?s" "join_bins t B ?s = []"
    "\<And>i. i \<noteq> ?g \<Longrightarrow> i \<noteq> ?s \<Longrightarrow> join_bins t B i = B i"
    using g(1) by (simp_all add: join_bins_def)
  have mem: "r \<in> set (B i) \<Longrightarrow> key_bin E t (chunk (bheap m r)) = i" for r i using bins_okD(4) [OF b] .
  show "join_bins t B i = []" if "?s \<le> i" for i
  proof (cases "i = ?s")
    case False
    then have "bincount t \<le> i" "i \<noteq> ?g" using that g by auto
    then show ?thesis using False J(3) bins_okD(2) [OF b] by simp
  qed (use J(2) in simp)
  show "r \<in> live_buckets E m \<and> key_bin E (retreat_p t) (chunk (bheap m r)) = i"
    if r: "r \<in> set (join_bins t B i)" for i r
  proof -
    consider "i = ?g" "r \<in> set (B ?g) \<or> r \<in> set (B ?s)" | "i \<noteq> ?g" "i \<noteq> ?s" "r \<in> set (B i)"
      using r J by (cases "i = ?g"; cases "i = ?s") auto
    then show ?thesis
    proof cases
      case 1
      then have "key_bin E t (chunk (bheap m r)) = ?g \<or> key_bin E t (chunk (bheap m r)) = ?s"
        using mem by blast
      moreover have "r \<in> live_buckets E m" using 1(2) bins_okD(3) [OF b] by blast
      ultimately show ?thesis using 1(1) g(1) by (auto simp: K)
    next
      case 2
      then have "key_bin E t (chunk (bheap m r)) = i" "r \<in> live_buckets E m"
        using mem bins_okD(3) [OF b] by blast+
      then show ?thesis using 2(1,2) by (simp add: K)
    qed
  qed
  have "entries B \<subseteq> entries (join_bins t B)"
  proof
    fix r assume "r \<in> entries B"
    then obtain i where i: "r \<in> set (B i)" by (auto simp: entries_def)
    have "r \<in> set (join_bins t B (if i = ?s then ?g else i))"
      using i J g(1) by (cases "i = ?s"; cases "i = ?g") auto
    then show "r \<in> entries (join_bins t B)" by (auto simp: entries_def)
  qed
  moreover have "entries (join_bins t B) \<subseteq> entries B"
    by (auto simp: entries_def join_bins_def split: if_splits)
  ultimately show "entries (join_bins t B) = entries B" by blast
  show "key_list E (retreat_p t) m (join_bins t B) = key_list E t m B"
  proof
    fix k
    have none: "filter (\<lambda>r. chunk (bheap m r) = k) (B i) = []" if "i \<noteq> key_bin E t k" for i
      using mem that by (auto simp: filter_empty_conv)
    consider "key_bin E t k = ?s" | "key_bin E t k = ?g" | "key_bin E t k \<noteq> ?s" "key_bin E t k \<noteq> ?g" by blast
    then show "key_list E (retreat_p t) m (join_bins t B) k = key_list E t m B k"
    proof cases
      case 1
      then show ?thesis using none [of ?g] g(1) by (simp add: key_list_def K J)
    next
      case 2
      then show ?thesis using none [of ?s] g(1) by (simp add: key_list_def K J)
    next
      case 3
      then show ?thesis by (simp add: key_list_def K J)
    qed
  qed
qed

text \<open>The chains after the move; the directory and the counters are still the old ones.\<close>

lemma move_buckets_join:
  assumes rep: "table_rep E t m B" and L: "0 < tL t"
  shows "\<exists>nx bn. move_buckets (cell_of t m (bincount t - 1)) (cell_of t m (contract_target t)) m = Some (relink nx bn m)
    \<and> (\<forall>i < 256 * directory_current t. chain nx (bn (cell_of t m i)) (join_bins t B i))
    \<and> (\<forall>c. fst c \<notin> live_segments E m \<longrightarrow> bn c = get_bin m c)"
proof -
  let ?s = "bincount t - 1" and ?g = "contract_target t"
  note R = table_repD [OF rep]
  have g: "?g < ?s" "0 < bincount t" using contract_target_less [OF R(3) L] by simp_all
  have lt: "?s < 256 * directory_current t" "?g < 256 * directory_current t"
    using current_bound(1) [OF R(3)] g by linarith+
  define src tgt where "src = cell_of t m ?s" and "tgt = cell_of t m ?g"
  have ne: "src \<noteq> tgt" using cell_of_inj [OF R(4) lt] g(1) by (simp add: src_def tgt_def)
  note chains = bins_okD(1) [OF R(5)]
  have "\<exists>nx' bn'. move_buckets src tgt (relink (get_next m) (get_bin m) m) = Some (relink nx' bn' m)
    \<and> bn' src = None \<and> chain nx' (bn' tgt) (B ?g @ B ?s)
    \<and> (\<forall>r. r \<notin> set (B ?g) \<longrightarrow> nx' r = get_next m r) \<and> (\<forall>c. c \<noteq> src \<and> c \<noteq> tgt \<longrightarrow> bn' c = get_bin m c)"
    by (rule move_buckets_correct [OF ne])
      (use chains [OF lt(1)] chains [OF lt(2)] bin_distinct [OF R(5,3)] g(1) in \<open>auto simp: src_def tgt_def\<close>)
  then obtain nx bn where mv: "move_buckets src tgt m = Some (relink nx bn m)" "bn src = None"
    "chain nx (bn tgt) (B ?g @ B ?s)" "\<And>r. r \<notin> set (B ?g) \<Longrightarrow> nx r = get_next m r"
    "\<And>c. c \<noteq> src \<Longrightarrow> c \<noteq> tgt \<Longrightarrow> bn c = get_bin m c"
    by auto
  have "chain nx (bn (cell_of t m i)) (join_bins t B i)" if i: "i < 256 * directory_current t" for i
  proof -
    consider "i = ?s" | "i = ?g" | "i \<noteq> ?s" "i \<noteq> ?g" by blast
    then show ?thesis
    proof cases
      case 3
      have "cell_of t m i \<noteq> src" "cell_of t m i \<noteq> tgt"
        using cell_of_inj [OF R(4) i] lt 3 by (simp_all add: src_def tgt_def)
      then have "chain (get_next m) (bn (cell_of t m i)) (B i)" using chains [OF i] mv(5) by simp
      then have "chain nx (bn (cell_of t m i)) (B i)"
        by (rule path_frame [of _ _ _ _ "set (B ?g)"]) (use mv(4) bin_distinct(2) [OF R(5,3) 3(2)] in auto)
      then show ?thesis using 3 by (simp add: join_bins_def)
    qed (use mv(2,3) g(1) in \<open>simp_all add: join_bins_def src_def tgt_def\<close>)
  qed
  moreover have "bn c = get_bin m c" if "fst c \<notin> live_segments E m" for c
    using mv(5) [of c] cell_of_live [OF R(4) lt(1)] cell_of_live [OF R(4) lt(2)] that
    by (metis src_def tgt_def)
  ultimately show ?thesis using mv(1) unfolding src_def tgt_def by blast
qed

section \<open>Contraction\<close>

text \<open>The table after the bins have been joined and the counters have moved back.\<close>

definition shrunk :: "metadata \<Rightarrow> metadata" where
  "shrunk t = retreat_p (t\<lparr>directory_current := (bincount t + 254) div 256\<rparr>)"

lemma shrunk_eq: "shrunk t = (retreat_p t)\<lparr>directory_current := (bincount t + 254) div 256\<rparr>"
  by (simp add: shrunk_def retreat_p_def Let_def)

lemma shrunk_shape:
  assumes "shape t" and "0 < tL t"
  shows "shape (shrunk t)"
proof -
  define n q where "n = bincount t - 1" and "q = (bincount t + 254) div 256"
  have n: "bincount t = n + 1" using contract_target_less(2) [OF assms] by (simp add: n_def)
  have "q \<le> directory_current t" unfolding shapeD(9) [OF assms(1)] q_def by (rule div_le_mono) simp
  then have "q \<le> directory_length t" using shapeD(11) [OF assms(1)] by simp
  moreover have "n \<le> 2 ^ 31" using shapeD(8) [OF assms(1)] n by simp
  moreover have "bincount (retreat_p t) = n" "q = (n + 255) div 256"
    using retreat_p_sel(1) [OF assms] by (simp_all add: n q_def)
  ultimately show ?thesis
    using shapeD(1-4,10,12) [OF assms(1)] retreat_p_sel(2-9) [OF assms]
    unfolding shape_def shrunk_eq q_def [symmetric] by simp
qed

lemma shrunk_current:
  assumes "shape t" and "0 < tL t"
  shows "(bincount t - 1) mod 256 \<noteq> 0 \<Longrightarrow> (bincount t + 254) div 256 = directory_current t"
    and "(bincount t - 1) mod 256 = 0 \<Longrightarrow> directory_current t = Suc ((bincount t + 254) div 256)"
    and "(bincount t - 1) mod 256 = 0 \<Longrightarrow> (bincount t - 1) div 256 = (bincount t + 254) div 256"
proof -
  define n where "n = bincount t - 1"
  have n: "bincount t = n + 1" using contract_target_less(2) [OF assms] by (simp add: n_def)
  have a: "(bincount t + 254) div 256 = (n + 255) div 256" "directory_current t = Suc (n div 256)"
    using shapeD(9) [OF assms(1)] by (simp_all add: n)
  show "(bincount t - 1) mod 256 \<noteq> 0 \<Longrightarrow> (bincount t + 254) div 256 = directory_current t"
    "(bincount t - 1) mod 256 = 0 \<Longrightarrow> directory_current t = Suc ((bincount t + 254) div 256)"
    "(bincount t - 1) mod 256 = 0 \<Longrightarrow> (bincount t - 1) div 256 = (bincount t + 254) div 256"
    unfolding n_def [symmetric] a ceil_256 by auto
qed

text \<open>The invariant of the smaller table, on a memory whose last segment may be gone.\<close>

lemma shrunk_rep:
  assumes rep: "table_rep E t m B" and L: "0 < tL t"
    and chains: "\<And>i. i < 256 * directory_current t \<Longrightarrow> chain nx (bn (cell_of t m i)) (join_bins t B i)"
    and ok: "memcxt_ok E m'" and fsc: "free_segments_clear E m'"
    and dir: "dir_ok E (shrunk t) m'" and lb: "live_buckets E m' = live_buckets E m"
    and links: "get_next m' = nx" "get_bin m' = bn" "\<And>r. chunk (bheap m' r) = chunk (bheap m r)"
    and kept: "kept E m m'"
    and cells: "\<And>i. i < 256 * ((bincount t + 254) div 256) \<Longrightarrow> cell_of t m' i = cell_of t m i"
  shows "stays E t m B (shrunk t) m' (join_bins t B)"
proof -
  note R = table_repD [OF rep]
  note P = join_bins_props [OF R(5,3) L] and S = retreat_p_sel [OF R(3) L]
  have cur: "(bincount t + 254) div 256 \<le> directory_current t"
    unfolding shapeD(9) [OF R(3)] by (rule div_le_mono) simp
  have kb: "key_bin E (shrunk t) = key_bin E (retreat_p t)" by (simp add: shrunk_eq)
  have cell: "cell_of (shrunk t) m' = cell_of t m'"
    by (simp add: cell_of_def seg_at_def shrunk_eq S fun_eq_iff)
  have "bins_ok E (shrunk t) m' (join_bins t B)"
    using chains cells cur P(2,3) unfolding bins_ok_def cell kb lb links
    by (simp add: shrunk_eq S)
  then have "table_rep E (shrunk t) m' (join_bins t B)"
    using ok fsc dir R(6) shrunk_shape [OF R(3) L] P(1) by (simp add: table_rep_def shrunk_eq S)
  moreover have "key_list E (shrunk t) m' (join_bins t B) = key_list E t m B"
    using P(4) by (simp add: key_list_def kb links fun_eq_iff)
  ultimately show ?thesis using lb kept S(2) by (simp add: stays_def shrunk_eq)
qed

definition reclaim_segment ::
  "'b env \<Rightarrow> metadata \<Rightarrow> nat \<Rightarrow> 'b mem \<Rightarrow> (metadata \<times> 'b mem) option" where
  "reclaim_segment E t i m = (if i mod 256 = 0 then do {
       slot \<leftarrow> dir_get m (directory t) (i div 256);
       s \<leftarrow> slot;
       m \<leftarrow> memcxt_release E SEGMENT (VSeg s) sizeof_segment m;
       m \<leftarrow> dir_set m (directory t) (i div 256) None;
       Some (t\<lparr>directory_current := directory_current t - 1\<rparr>, m) }
     else Some (t, m))"

lemma join_and_reclaim:
  assumes rep: "table_rep E t m B" and L: "0 < tL t"
    and chains: "\<And>i. i < 256 * directory_current t \<Longrightarrow> chain nx (bn (cell_of t m i)) (join_bins t B i)"
    and frame: "\<And>c. fst c \<notin> live_segments E m \<Longrightarrow> bn c = get_bin m c"
  shows "\<exists>m'. reclaim_segment E t (bincount t - 1) (relink nx bn m) =
      Some (t\<lparr>directory_current := (bincount t + 254) div 256\<rparr>, m')
    \<and> stays E t m B (shrunk t) m' (join_bins t B)"
proof -
  let ?m1 = "relink nx bn m" and ?n = "(bincount t + 254) div 256"
  note R = table_repD [OF rep] and S = retreat_p_sel [OF table_repD(3) [OF rep] L]
  note C = shrunk_current [OF R(3) L]
  have fsc: "free_segments_clear E ?m1" using R(2) frame by (rule free_segments_clear_relink)
  obtain d where d: "directory t = Some d" "d \<in> regions m" "d \<notin> bucket_pools m"
    "d \<notin> segment_pools m" "dsize (dheap m d) = directory_length t" "seg_at t m = dslot (dheap m d)"
    using R(4) by (rule dir_okD)
  show ?thesis
  proof (cases "(bincount t - 1) mod 256 = 0")
    case False
    have t: "t\<lparr>directory_current := ?n\<rparr> = t" using C(1) [OF False] by simp
    have "dir_ok E (shrunk t) ?m1"
      using R(4) C(1) [OF False] by (simp add: dir_ok_def shrunk_eq S seg_at_def)
    then have "stays E t m B (shrunk t) ?m1 (join_bins t B)"
      by (intro shrunk_rep [OF rep L chains _ fsc]) (use R(1) in simp_all)
    then show ?thesis using False t by (simp add: reclaim_segment_def)
  next
    case True
    have cur: "directory_current t = Suc ?n" "(bincount t - 1) div 256 = ?n"
      using C(2,3) [OF True] by simp_all
    have le: "?n < directory_length t" using shapeD(11) [OF R(3)] cur by simp
    obtain s where s: "seg_at t m ?n = Some s" "s \<in> live_segments E m"
      using dir_ok_seg(1) [OF R(4), of ?n] cur by auto
    obtain m2 where f: "free_segment E s ?m1 = Some m2" "memcxt_ok E m2" "same_store ?m1 m2"
      "live_segments E m2 = live_segments E m - {s}" "live_buckets E m2 = live_buckets E m"
      "bucket_pools m2 = bucket_pools m" "segment_pools m2 = segment_pools m"
      by (rule free_segment_correct [of E ?m1 s]) (use R(1) s(2) in auto)
    note m2 = same_store_links [OF f(3)]
    define m3 where "m3 = m2\<lparr>dheap := (dheap m2)(d := (dheap m2 d)\<lparr>dslot := (dslot (dheap m d))(?n := None)\<rparr>)\<rparr>"
    have set3: "dir_set m2 (directory t) ?n None = Some m3"
      using d le m2 by (simp add: dir_set_def m3_def)
    have get1: "dir_get ?m1 (directory t) ?n = Some (Some s)"
      using d le s(1) by (simp add: dir_get_def)
    have seg3: "seg_at t m3 = (seg_at t m)(?n := None)" using d by (simp add: seg_at_def m3_def)
    have sel3: "live_segments E m3 = live_segments E m - {s}" "live_buckets E m3 = live_buckets E m"
      "bucket_pools m3 = bucket_pools m" "segment_pools m3 = segment_pools m" "regions m3 = regions m"
      "memcxt_ok E m3" "get_next m3 = nx" "get_bin m3 = bn" "bheap m3 = bheap ?m1" "sheap m3 = sheap ?m1"
      "dsize (dheap m3 d) = directory_length t"
      using f m2 d(5) by (simp_all add: m3_def)
    have other: "seg_at t m i \<noteq> Some s" if "i < ?n" for i
      using dir_ok_seg(3) [OF R(4)] that cur(1) s(1) by (auto dest!: inj_onD [of _ _ i ?n])
    have "\<exists>x. seg_at t m3 i = Some x \<and> x \<in> live_segments E m3" if "i < ?n" for i
      using dir_ok_seg(1) [OF R(4), of i] that cur(1) other [OF that] by (auto simp: seg3 sel3)
    moreover have "inj_on (seg_at t m3) {..<?n}"
      using dir_ok_seg(3) [OF R(4)] cur(1) by (auto simp: seg3 inj_on_def)
    moreover have "seg_at t m3 i = None" if "?n \<le> i" for i
      using dir_ok_seg(2) [OF R(4), of i] that cur(1) by (cases "i = ?n") (simp_all add: seg3)
    moreover have "seg_at (shrunk t) m3 = seg_at t m3" by (simp add: seg_at_def shrunk_eq S)
    ultimately have dok: "dir_ok E (shrunk t) m3"
      using d by (simp add: dir_ok_def sel3 shrunk_eq S)
    have "bn (s, j) = None" if "j < 256" for j
    proof -
      let ?i = "256 * ?n + j"
      have "cell_of t m ?i = (s, j)" using s(1) that by (simp add: cell_of_def)
      moreover have "bincount t - 1 \<le> ?i" using cur(2) True by (simp add: mod_eq_0_iff_dvd)
      ultimately show ?thesis
        using chains [of ?i] cur(1) that join_bins_props(2) [OF R(5,3) L, of ?i] by simp
    qed
    then have "free_segments_clear E m3"
      using fsc unfolding free_segments_clear_def segment_clear_def sel3 by auto
    moreover have "cell_of t m3 i = cell_of t m i" if "i < 256 * ?n" for i
    proof -
      have "i div 256 \<noteq> ?n" using that by auto
      then show ?thesis by (simp add: cell_of_def seg3)
    qed
    moreover have "kept E m m3" by (simp add: kept_def sel3(9) relink_def)
    ultimately have "stays E t m B (shrunk t) m3 (join_bins t B)"
      using dok by (intro shrunk_rep [OF rep L chains]) (simp_all add: sel3)
    moreover have "reclaim_segment E t (bincount t - 1) ?m1 = Some (t\<lparr>directory_current := ?n\<rparr>, m3)"
      unfolding reclaim_segment_def if_P [OF True] cur(2) get1
      by (simp add: f(1) set3 cur(1))
    ultimately show ?thesis by blast
  qed
qed

definition shrink_directory ::
  "'b env \<Rightarrow> metadata \<Rightarrow> 'b mem \<Rightarrow> (metadata \<times> 'b mem) option" where
  "shrink_directory E t m =
    (if directory_length t > initial_directory_length (cfg t) \<and>
        directory_current t < directory_length t div 2
     then metadata_contract_directory E t m else Some (t, m))"

lemma shrink_directory_correct:
  assumes rep: "table_rep E t m B" and sh: "can_shrink E t"
  shows "\<exists>d l m'. shrink_directory E t m = Some (t\<lparr>directory := d, directory_length := l\<rparr>, m')
    \<and> stays E t m B (t\<lparr>directory := d, directory_length := l\<rparr>) m' B \<and> can_shrink E (t\<lparr>directory := d, directory_length := l\<rparr>)"
proof (cases "directory_length t > initial_directory_length (cfg t) \<and> directory_current t < directory_length t div 2")
  case True
  then have "1024 < directory_length t" using shapeD(2) [OF table_repD(3) [OF rep]] by simp
  moreover from this have "mmap_total E" using sh by (simp add: can_shrink_def)
  moreover have "shrink_directory E t m = metadata_contract_directory E t m"
    using True by (simp add: shrink_directory_def)
  ultimately show ?thesis
    using contract_directory_correct [OF rep, of] True by (auto simp: can_shrink_def)
next
  case False
  then have "shrink_directory E t m = Some (t, m)" by (auto simp: shrink_directory_def)
  then show ?thesis
    using rep sh by (intro exI [of _ "directory t"] exI [of _ "directory_length t"] exI [of _ m]) (simp add: stays_def)
qed

text \<open>The source and target indices as \<open>metadata_contract_table\<close> computes them.\<close>

definition contract_indices :: "metadata \<Rightarrow> (nat \<times> nat) option" where
  "contract_indices lhtbl =
    (if tp lhtbl = 0 then Some (maxp lhtbl div 2 - 1, maxp lhtbl - 1)
     else do { s1 \<leftarrow> add_size (of_nat (maxp lhtbl)) (of_nat (tp lhtbl - 1)); Some (tp lhtbl - 1, unat s1) })"

lemma contract_indices_eq:
  assumes "shape t"
  shows "contract_indices t = Some (contract_target t, bincount t - 1)"
proof (cases "tp t = 0")
  case False
  then have s: "maxp t + (tp t - 1) = bincount t - 1" using shapeD(7) [OF assms] by simp
  have lt: "bincount t - 1 < 2 ^ 64" using shapeD(8) [OF assms] by simp
  have "add_size (of_nat (maxp t)) (of_nat (tp t - 1)) = Some (of_nat (bincount t - 1))"
    using add_size_of_nat [of "maxp t" "tp t - 1"] lt unfolding s by blast
  then show ?thesis
    using False unat_of_nat_64 [OF lt] unfolding contract_indices_def contract_target_def by simp
qed (use shapeD(7) [OF assms] in \<open>simp add: contract_target_def contract_indices_def\<close>)

text \<open>The rest of \<open>metadata_contract_table\<close> once the two indices are known.\<close>

definition join_indices ::
  "'b env \<Rightarrow> metadata \<Rightarrow> 'b mem \<Rightarrow> nat \<Rightarrow> nat \<Rightarrow> (metadata \<times> 'b mem) option" where
  "join_indices E lhtbl m tgtindex srcindex = do {
     assert_c (srcindex < bincount lhtbl);
     assert_c (tgtindex < bincount lhtbl);
     srcbin \<leftarrow> bindex2bin lhtbl m srcindex;
     tgtbin \<leftarrow> bindex2bin lhtbl m tgtindex;
     m \<leftarrow> move_buckets srcbin tgtbin m;
     let seglen = segment_length (cfg lhtbl);
     let segindex = srcindex div seglen;
     r \<leftarrow> mod_power_of_two srcindex seglen;
     (lhtbl, m) \<leftarrow>
       (if r = 0 then do {
          slot \<leftarrow> dir_get m (directory lhtbl) segindex;
          s \<leftarrow> slot;
          m \<leftarrow> memcxt_release E SEGMENT (VSeg s) sizeof_segment m;
          m \<leftarrow> dir_set m (directory lhtbl) segindex None;
          Some (lhtbl\<lparr>directory_current := directory_current lhtbl - 1\<rparr>, m) }
        else Some (lhtbl, m));
     Some (retreat_p lhtbl, m) }"

lemma contract_table_correct:
  assumes rep: "table_rep E t m B" and L: "0 < tL t" and sh: "can_shrink E t"
  shows "\<exists>t' m' B'. metadata_contract_table E t m = Some (t', m') \<and> stays E t m B t' m' B'
    \<and> bincount t' = bincount t - 1 \<and> can_shrink E t'"
proof -
  note R = table_repD [OF rep]
  obtain d l m0 where g: "shrink_directory E t m = Some (t\<lparr>directory := d, directory_length := l\<rparr>, m0)"
    and st: "stays E t m B (t\<lparr>directory := d, directory_length := l\<rparr>) m0 B"
    and cs: "can_shrink E (t\<lparr>directory := d, directory_length := l\<rparr>)"
    using shrink_directory_correct [OF rep sh] by blast
  let ?t0 = "t\<lparr>directory := d, directory_length := l\<rparr>"
  let ?s = "bincount t - 1" and ?g = "contract_target t"
  have rep0: "table_rep E ?t0 m0 B" using st by (simp add: stays_def)
  note R0 = table_repD [OF rep0]
  have g1: "?g < ?s" "0 < bincount t" using contract_target_less [OF R(3) L] by simp_all
  then have g2: "?g < bincount t" by linarith
  have idx0: "contract_indices ?t0 = Some (?g, ?s)"
    using contract_indices_eq [OF R0(3)] by simp
  have bins: "bindex2bin ?t0 m0 ?s = Some (cell_of ?t0 m0 ?s)" "bindex2bin ?t0 m0 ?g = Some (cell_of ?t0 m0 ?g)"
    using bindex2bin_eq [OF R0(3,4)] g1 by simp_all
  obtain nx bn where mv: "move_buckets (cell_of ?t0 m0 ?s) (cell_of ?t0 m0 ?g) m0 = Some (relink nx bn m0)"
    "\<And>i. i < 256 * directory_current ?t0 \<Longrightarrow> chain nx (bn (cell_of ?t0 m0 i)) (join_bins ?t0 B i)"
    "\<And>c. fst c \<notin> live_segments E m0 \<Longrightarrow> bn c = get_bin m0 c"
    using move_buckets_join [OF rep0] L by auto
  obtain m1 where rc: "reclaim_segment E ?t0 ?s (relink nx bn m0) =
      Some (?t0\<lparr>directory_current := (bincount t + 254) div 256\<rparr>, m1)"
    "stays E ?t0 m0 B (shrunk ?t0) m1 (join_bins ?t0 B)"
    using join_and_reclaim [OF rep0 _ mv(2,3)] L by auto
  have "metadata_contract_table E t m = (shrink_directory E t m \<bind> (\<lambda>(lhtbl, m).
     contract_indices lhtbl \<bind> (\<lambda>(tgt, src). join_indices E lhtbl m tgt src)))"
    by (simp add: metadata_contract_table_def shrink_directory_def join_indices_def contract_indices_def)
  also have "\<dots> = join_indices E ?t0 m0 ?g ?s"
    unfolding g by (simp add: idx0)
  also have "\<dots> = (reclaim_segment E ?t0 ?s (relink nx bn m0) \<bind> (\<lambda>(lhtbl, m). Some (retreat_p lhtbl, m)))"
    using bins mv(1) g1 g2 shapeD(1) [OF R(3)]
    by (simp add: join_indices_def reclaim_segment_def Let_def)
  also have "\<dots> = Some (shrunk ?t0, m1)" unfolding rc(1) by (simp add: shrunk_def)
  finally have "metadata_contract_table E t m = Some (shrunk ?t0, m1)" .
  moreover have "bincount (shrunk ?t0) = bincount t - 1" "directory_length (shrunk ?t0) = l"
    using retreat_p_sel(1,4) [OF R0(3)] L by (simp_all add: shrunk_eq)
  moreover from this have "can_shrink E (shrunk ?t0)" using cs by (simp add: can_shrink_def)
  ultimately show ?thesis using stays_trans [OF st rc(2)] by blast
qed

lemma contract_check_correct:
  assumes rep: "table_rep E t m B" and sh: "can_shrink E t"
  shows "\<exists>t' m' B'. metadata_contract_check E t m = Some (t', m') \<and> stays E t m B t' m' B'
    \<and> bincount t' \<le> bincount t \<and> can_shrink E t'"
proof (cases "tL t > 0 \<and> metadata_load t < min_load (cfg t)")
  case True
  then have "metadata_contract_check E t m = metadata_contract_table E t m"
    by (simp add: metadata_contract_check_def)
  with contract_table_correct [OF rep _ sh] True show ?thesis
    by (metis diff_le_self)
next
  case False
  then have "metadata_contract_check E t m = Some (t, m)" by (auto simp: metadata_contract_check_def)
  then show ?thesis using rep sh by (auto simp: stays_def)
qed

end
