(* ===== verification/Metadata_Spec.thy ===== *)
theory Metadata_Spec
  imports Metadata_Shrink
begin

text \<open>
  What the operations of the metadata table promise: \<open>represents E t m c\<close> turns every operation into
  an update of the map \<open>c\<close> from keys to lists of buckets. The interface the allocator uses is the
  locale \<open>bucket_table\<close>, interpreted on the model; its run lemma says that any sequence of insertions,
  lookups and deletions behaves as on the map.
\<close>

section \<open>Changing one bin\<close>

lemma tcount_upd_sel [simp]:
  "key_bin E (t\<lparr>tcount := n\<rparr>) = key_bin E t" "key_list E (t\<lparr>tcount := n\<rparr>) = key_list E t"
  "cell_of (t\<lparr>tcount := n\<rparr>) = cell_of t" "seg_at (t\<lparr>tcount := n\<rparr>) = seg_at t"
  "shape (t\<lparr>tcount := n\<rparr>) = shape t" "dir_ok E (t\<lparr>tcount := n\<rparr>) m = dir_ok E t m"
  "can_shrink E (t\<lparr>tcount := n\<rparr>) = can_shrink E t"
  by (auto simp: key_bin_def hidx_def key_list_def fun_eq_iff seg_at_def cell_of_def shape_def dir_ok_def can_shrink_def)

lemma key_bin_less: "shape t \<Longrightarrow> key_bin E t k < bincount t"
  by (simp add: key_bin_def hidx_less)

lemma table_rep_one_bin:
  assumes rep: "table_rep E t m B" and b: "b < bincount t"
    and chain: "chain nx (bn (cell_of t m b)) xs"
    and frame: "\<And>r. r \<in> entries B \<Longrightarrow> r \<notin> set (B b) \<Longrightarrow> nx r = get_next m r"
      "\<And>c. c \<noteq> cell_of t m b \<Longrightarrow> bn c = get_bin m c"
    and members: "\<And>r. r \<in> set xs \<Longrightarrow> r \<in> live_buckets E m' \<and> key_bin E t (chunk (bheap m r)) = b"
    and others: "\<And>i r. i \<noteq> b \<Longrightarrow> r \<in> set (B i) \<Longrightarrow> r \<in> live_buckets E m'"
    and mem: "same_store (relink nx bn m) m'" "memcxt_ok E m'" "live_segments E m' = live_segments E m"
      "segment_pools m' = segment_pools m" "bucket_pools m' = bucket_pools m"
    and n: "n = of_nat (card (entries (B(b := xs))))"
  shows "table_rep E (t\<lparr>tcount := n\<rparr>) m' (B(b := xs))"
    and "key_list E t m' (B(b := xs)) k =
      (if key_bin E t k = b then filter (\<lambda>r. chunk (bheap m r) = k) xs else key_list E t m B k)"
proof -
  note R = table_repD [OF rep] and S = same_store_links [OF mem(1)]
  have b': "b < 256 * directory_current t" using current_bound(1) [OF R(3)] b by simp
  have cells: "cell_of t m' = cell_of t m" using cell_of_same_store [OF mem(1)] by simp
  have segs: "seg_at t m' = seg_at t m" using seg_at_same_store [OF mem(1)] by simp
  have chk: "chunk (bheap m' r) = chunk (bheap m r)" for r using S(4) by simp
  have "chain nx (bn (cell_of t m i)) ((B(b := xs)) i)" if i: "i < 256 * directory_current t" for i
  proof (cases "i = b")
    case False
    then have "chain (get_next m) (bn (cell_of t m i)) (B i)"
      using bins_okD(1) [OF R(5) i] frame(2) cell_of_inj [OF R(4) i b'] by simp
    then have "chain nx (bn (cell_of t m i)) (B i)"
    proof (rule path_mono)
      fix r assume r: "r \<in> set (B i)"
      then have "r \<in> entries B" "r \<notin> set (B b)"
        using bin_distinct(2) [OF R(5,3) False] by (auto simp: entries_def)
      then show "get_next m r = nx r" using frame(1) by simp
    qed
    then show ?thesis using False by simp
  qed (use chain in simp)
  then have "bins_ok E t m' (B(b := xs))"
    using bins_okD(2,4) [OF R(5)] members others b unfolding bins_ok_def cells S(1,2) get_relink chk
    by auto
  then have "bins_ok E (t\<lparr>tcount := n\<rparr>) m' (B(b := xs))" by (simp add: bins_ok_def)
  moreover have "dir_ok E t m'"
    using R(4) S(5,6) mem(3-5) by (simp add: dir_ok_def segs)
  moreover have "free_segments_clear E m'"
  proof -
    have "free_segments_clear E (relink nx bn m)"
      by (rule free_segments_clear_relink [OF R(2)]) (use frame(2) cell_of_live [OF R(4) b'] in metis)
    then show ?thesis using S(7) mem(3,4) by (simp add: free_segments_clear_def)
  qed
  ultimately show "table_rep E (t\<lparr>tcount := n\<rparr>) m' (B(b := xs))"
    using mem(2) R(3) n by (simp add: table_rep_def)
  show "key_list E t m' (B(b := xs)) k =
      (if key_bin E t k = b then filter (\<lambda>r. chunk (bheap m r) = k) xs else key_list E t m B k)"
    by (simp add: key_list_def chk)
qed

lemma entries_upd_eq:
  assumes "\<And>j. j \<noteq> b \<Longrightarrow> set (B b) \<inter> set (B j) = {}"
  shows "entries (B(b := xs)) = (entries B - set (B b)) \<union> set xs"
proof -
  have "entries (B(b := xs)) = (\<Union>i\<in>- {b}. set (B i)) \<union> set xs"
    by (auto simp: entries_def split: if_splits)
  moreover have "entries B - set (B b) = (\<Union>i\<in>- {b}. set (B i))"
    using assms by (auto simp: entries_def)
  ultimately show ?thesis by simp
qed

lemma entries_bin: "set (B b) \<subseteq> entries B"
  by (auto simp: entries_def)

lemma table_entries_upd:
  assumes "bins_ok E t m B" and "shape t"
  shows "entries (B(b := xs)) = (entries B - set (B b)) \<union> set xs"
  by (rule entries_upd_eq) (use bin_distinct(2) [OF assms] in auto)

lemma representsE:
  assumes "represents E t m c"
  obtains B where "table_rep E t m B" and "c = key_list E t m B"
  using assms by (auto simp: represents_def)

lemma representsI: "table_rep E t m B \<Longrightarrow> (\<And>k. key_list E t m B k = c k) \<Longrightarrow> represents E t m c"
  by (auto simp: represents_def fun_eq_iff)

lemma represents_stays:
  "stays E t m B t' m' B' \<Longrightarrow> represents E t' m' (key_list E t m B)"
  by (auto simp: stays_def represents_def)

lemma represents_ok:
  assumes "represents E t m c"
  shows "memcxt_ok E m" and "shape t" and "free_segments_clear E m"
    and "r \<in> set (c k) \<Longrightarrow> r \<in> live_buckets E m \<and> chunk (bheap m r) = k"
    and "distinct (c k)"
proof -
  obtain B where B: "table_rep E t m B" "c = key_list E t m B" using assms by (rule representsE)
  note R = table_repD [OF B(1)]
  show "memcxt_ok E m" "shape t" "free_segments_clear E m" using R by simp_all
  show "r \<in> set (c k) \<Longrightarrow> r \<in> live_buckets E m \<and> chunk (bheap m r) = k"
    using bins_okD(3) [OF R(5)] by (auto simp: B(2) key_list_def)
  show "distinct (c k)" using bin_distinct(1) [OF R(5,3)] by (simp add: B(2) key_list_def)
qed

section \<open>Insertion\<close>

text \<open>Linking a bucket at the front of its bin, before the expansion check.\<close>

lemma add_raw:
  assumes rep: "represents E t m c" and r: "r \<in> live_buckets E m" and new: "\<And>k. r \<notin> set (c k)"
  defines "k \<equiv> chunk (bheap m r)" and "t1 \<equiv> t\<lparr>tcount := tcount t + 1\<rparr>"
  shows "\<exists>m1 B1. metadata_add E t r m = metadata_expand_check E t1 m1 \<and> table_rep E t1 m1 B1 \<and>
    key_list E t1 m1 B1 = c(k := r # c k) \<and> live_buckets E m1 = live_buckets E m \<and> kept E m m1 \<and>
    m1 = (let binp = cell_of t m (key_bin E t k) in set_bin (set_next m r (get_bin m binp)) binp (Some r))"
proof -
  obtain B where B: "table_rep E t m B" "c = key_list E t m B" using rep by (rule representsE)
  note R = table_repD [OF B(1)]
  let ?b = "key_bin E t k" and ?cell = "cell_of t m (key_bin E t k)"
  let ?nx = "(get_next m)(r := get_bin m ?cell)" and ?bn = "(get_bin m)(?cell := Some r)"
  have b: "?b < bincount t" using key_bin_less [OF R(3)] .
  have b': "?b < 256 * directory_current t" using current_bound(1) [OF R(3)] b by simp
  have notin: "r \<notin> entries B" using new entries_key_list [OF R(5)] B(2) by auto
  have chain: "chain ?nx (?bn ?cell) (r # B ?b)"
    using bins_okD(1) [OF R(5) b'] notin by (auto simp: entries_def)
  have card: "tcount t + 1 = of_nat (card (entries (B(?b := r # B ?b))))"
  proof -
    have "entries (B(?b := r # B ?b)) = insert r (entries B)"
      by (auto simp: entries_def split: if_splits)
    then show ?thesis using notin finite_entries [OF R(5)] R(6) by simp
  qed
  have one: "table_rep E (t\<lparr>tcount := tcount t + 1\<rparr>) (relink ?nx ?bn m) (B(?b := r # B ?b))"
    "key_list E t (relink ?nx ?bn m) (B(?b := r # B ?b)) k' =
      (if key_bin E t k' = ?b then filter (\<lambda>r. chunk (bheap m r) = k') (r # B ?b) else key_list E t m B k')" for k'
    by (rule table_rep_one_bin [where nx = ?nx and bn = ?bn, OF B(1) b chain _ _ _ _ _ _ _ _ _ card];
        use R(1) r bins_okD(3,4) [OF R(5)] notin k_def in \<open>auto simp: same_store_def\<close>)+
  have "key_list E t1 (relink ?nx ?bn m) (B(?b := r # B ?b)) = c(k := r # c k)"
    using one(2) by (auto simp: fun_eq_iff B(2) key_list_def k_def t1_def)
  moreover have "metadata_add E t r m = metadata_expand_check E t1 (relink ?nx ?bn m)"
    using fetch_bucket_eq [OF R(3,4)]
    by (simp add: metadata_add_def k_def [symmetric] set_next_eq_relink Let_def t1_def)
  ultimately show ?thesis using one(1) unfolding t1_def
    by (intro exI [of _ "relink ?nx ?bn m"] exI [of _ "B(?b := r # B ?b)"])
      (simp add: set_next_eq_relink Let_def)
qed

lemma add_correct:
  assumes rep: "represents E t m c" and r: "r \<in> live_buckets E m" and new: "\<And>k. r \<notin> set (c k)"
    and room: "bincount t \<le> 2 ^ 31 - 256"
  defines "k \<equiv> chunk (bheap m r)"
  shows "\<exists>ok t' m'. metadata_add E t r m = Some (ok, t', m') \<and> represents E t' m' (c(k := r # c k))
    \<and> live_buckets E m' = live_buckets E m \<and> kept E m m' \<and> bincount t' \<le> bincount t + 1
    \<and> (\<not> ok \<longrightarrow> errno m' = Some ENOMEM \<and> \<not> mmap_total E)"
proof -
  obtain m1 B1 where one: "metadata_add E t r m = metadata_expand_check E (t\<lparr>tcount := tcount t + 1\<rparr>) m1"
    "table_rep E (t\<lparr>tcount := tcount t + 1\<rparr>) m1 B1"
    "key_list E (t\<lparr>tcount := tcount t + 1\<rparr>) m1 B1 = c(k := r # c k)"
    "live_buckets E m1 = live_buckets E m" "kept E m m1"
    using add_raw [OF rep r new] unfolding k_def by auto
  obtain ok t' m' B' where
    st: "metadata_add E t r m = Some (ok, t', m')" "stays E (t\<lparr>tcount := tcount t + 1\<rparr>) m1 B1 t' m' B'"
      "bincount t' \<le> bincount t + 1" "\<not> ok \<longrightarrow> errno m' = Some ENOMEM \<and> \<not> mmap_total E"
    using expand_check_correct [OF one(2)] room one(1) by auto
  have "represents E t' m' (c(k := r # c k))" using represents_stays [OF st(2)] one(3) by simp
  moreover have "live_buckets E m' = live_buckets E m" "kept E m m'"
    using st(2) kept_trans [OF one(5), of m'] one(4) by (auto simp: stays_def)
  ultimately show ?thesis using st by blast
qed

section \<open>Lookup\<close>

lemma chain_split:
  assumes "chain nx p (as @ r # bs)"
  shows "path nx p as (Some r)" and "chain nx (nx r) bs" and "distinct (as @ r # bs)"
  using assms chain_distinct [OF assms] by (auto simp: path_append)

lemma filter_first:
  assumes "\<And>a. a \<in> set as \<Longrightarrow> f a \<noteq> k" and "f r = k"
  shows "filter (\<lambda>a. f a = k) (as @ r # bs) = r # filter (\<lambda>a. f a = k) bs"
    and "filter (\<lambda>a. f a = k) (to_front as r bs) = r # filter (\<lambda>a. f a = k) bs"
    and "j \<noteq> k \<Longrightarrow> filter (\<lambda>a. f a = j) (to_front as r bs) = filter (\<lambda>a. f a = j) (as @ r # bs)"
proof -
  have "filter (\<lambda>a. f a = k) as = []" using assms(1) by (simp add: filter_empty_conv)
  then show "filter (\<lambda>a. f a = k) (as @ r # bs) = r # filter (\<lambda>a. f a = k) bs"
    "filter (\<lambda>a. f a = k) (to_front as r bs) = r # filter (\<lambda>a. f a = k) bs"
    "j \<noteq> k \<Longrightarrow> filter (\<lambda>a. f a = j) (to_front as r bs) = filter (\<lambda>a. f a = j) (as @ r # bs)"
    using assms(2) by (auto simp: to_front_def)
qed

lemma set_to_front [simp]: "set (to_front as r bs) = set (as @ r # bs)"
  by (auto simp: to_front_def)

text \<open>The memory after a successful lookup.\<close>

lemma lookup_links:
  assumes chain: "chain (get_next m) (get_bin m cell) (as @ r # bs)"
    and first: "\<And>a. a \<in> set as \<Longrightarrow> chunk (bheap m a) \<noteq> k" "chunk (bheap m r) = k"
    and fetch: "metadata_fetch_bucket E t m k = Some cell"
  shows "\<exists>nx bn. metadata_lookup E t k m = Some (Some r, relink nx bn m)
    \<and> chain nx (bn cell) (to_front as r bs) \<and> (\<forall>s. s \<notin> set (as @ r # bs) \<longrightarrow> nx s = get_next m s)
    \<and> (\<forall>c. c \<noteq> cell \<longrightarrow> bn c = get_bin m c)"
proof -
  note C = chain_split [OF chain]
  have loop: "lookup_loop m k (get_bin m cell) (get_bin m cell) =
      Some (Some r, if as = [] then get_bin m cell else Some (last as))"
    using lookup_loop_some [OF C(1) first, where bn = "get_bin m"] by simp
  show ?thesis
  proof (cases "length as \<le> 1")
    case True
    have "(if as = [] then get_bin m cell else Some (last as)) = get_bin m cell"
      using True C(1) by (cases as) auto
    then have "metadata_lookup E t k m = Some (Some r, m)"
      using loop by (simp add: metadata_lookup_def fetch)
    then show ?thesis using chain True
      by (intro exI [of _ "get_next m"] exI [of _ "get_bin m"]) (simp add: to_front_def)
  next
    case False
    then obtain h h2 as' where as: "as = h # h2 # as'" by (cases as rule: remdups_adj.cases) auto
    then have h: "get_bin m cell = Some h" using C(1) by simp
    have ne: "last as \<noteq> h" using C(3) as by (auto split: if_splits)
    let ?nx = "(get_next m)(last as := get_next m r, r := Some h)" and ?bn = "(get_bin m)(cell := Some r)"
    have rl: "r \<noteq> last as" using C(3) as by auto
    have "metadata_lookup E t k m = Some (Some r, relink ?nx ?bn m)"
      using loop ne as rl by (simp add: metadata_lookup_def fetch h set_next_eq_relink Let_def)
    moreover have "chain ?nx (Some r) (r # as @ bs)"
      by (rule move_to_front_links) (use C as h in auto)
    ultimately show ?thesis using False as C(3)
      by (intro exI [of _ ?nx] exI [of _ ?bn]) (auto simp: to_front_def)
  qed
qed

lemma lookup_correct:
  assumes "represents E t m c"
  shows "\<exists>m'. metadata_lookup E t k m = Some (case c k of [] \<Rightarrow> None | r # _ \<Rightarrow> Some r, m')
    \<and> represents E t m' c \<and> live_buckets E m' = live_buckets E m \<and> kept E m m'"
proof -
  obtain B where B: "table_rep E t m B" "c = key_list E t m B" using assms by (rule representsE)
  note R = table_repD [OF B(1)]
  let ?b = "key_bin E t k" and ?cell = "cell_of t m (key_bin E t k)"
  note fetch = fetch_bucket_eq [OF R(3,4), of k]
  have b: "?b < bincount t" using key_bin_less [OF R(3)] .
  have chain: "chain (get_next m) (get_bin m ?cell) (B ?b)"
    using bins_okD(1) [OF R(5)] current_bound(1) [OF R(3)] b by simp
  show ?thesis
  proof (rule find_first [of "B ?b" "\<lambda>r. chunk (bheap m r)" k])
    assume none: "\<And>r. r \<in> set (B ?b) \<Longrightarrow> chunk (bheap m r) \<noteq> k"
    then have "c k = []" by (simp add: B(2) key_list_def filter_empty_conv)
    moreover have "metadata_lookup E t k m = Some (None, m)"
      using lookup_loop_none [OF chain none, where bn = "get_bin m" and prev = "get_bin m ?cell"]
      by (auto simp: metadata_lookup_def fetch)
    ultimately show ?thesis using assms by auto
  next
    fix as r bs
    assume f: "B ?b = as @ r # bs" "chunk (bheap m r) = k" "\<And>a. a \<in> set as \<Longrightarrow> chunk (bheap m a) \<noteq> k"
    obtain nx bn where l: "metadata_lookup E t k m = Some (Some r, relink nx bn m)"
      "chain nx (bn ?cell) (to_front as r bs)" "\<And>s. s \<notin> set (B ?b) \<Longrightarrow> nx s = get_next m s"
      "\<And>d. d \<noteq> ?cell \<Longrightarrow> bn d = get_bin m d"
      using lookup_links [OF chain [unfolded f(1)] f(3,2) fetch] f(1) by auto
    let ?B = "B(?b := to_front as r bs)"
    have ent: "entries ?B = entries B"
      using table_entries_upd [OF R(5,3), of ?b] entries_bin [of B ?b] f(1) by auto
    have card: "tcount t = of_nat (card (entries ?B))" using R(6) ent by simp
    have mem: "\<And>s. s \<in> set (to_front as r bs) \<Longrightarrow>
        s \<in> live_buckets E (relink nx bn m) \<and> key_bin E t (chunk (bheap m s)) = ?b"
      using bins_okD(3,4) [OF R(5), of _ ?b] f(1) by simp
    have ss: "same_store (relink nx bn m) (relink nx bn m)" by (simp add: same_store_def)
    have one: "table_rep E (t\<lparr>tcount := tcount t\<rparr>) (relink nx bn m) ?B"
      "key_list E t (relink nx bn m) ?B j =
        (if key_bin E t j = ?b then filter (\<lambda>r. chunk (bheap m r) = j) (to_front as r bs) else key_list E t m B j)" for j
      by (rule table_rep_one_bin [where nx = nx and bn = bn, OF B(1) b l(2) _ _ mem _ ss _ _ _ _ card];
          use R(1) bins_okD(3) [OF R(5)] l(3,4) in \<open>auto\<close>)+
    have "key_list E t (relink nx bn m) ?B j = c j" for j
      using one(2) [of j] filter_first [where as = as and f = "\<lambda>r. chunk (bheap m r)" and k = k and r = r and bs = bs, OF f(3,2)] f(1)
      by (cases "j = k") (simp_all add: B(2) key_list_def)
    then have "represents E t (relink nx bn m) c" using one(1) by (intro representsI) auto
    moreover have "c k = r # filter (\<lambda>r. chunk (bheap m r) = k) bs"
      using filter_first(1) [where as = as and f = "\<lambda>r. chunk (bheap m r)" and k = k and r = r and bs = bs, OF f(3,2)] f(1) by (simp add: B(2) key_list_def)
    ultimately show ?thesis using l(1) by auto
  qed
qed

section \<open>Deletion\<close>

lemma contract_represents:
  assumes rep: "table_rep E t m B" and sh: "can_shrink E t"
  shows "\<exists>t' m'. metadata_contract_check E t m = Some (t', m') \<and> represents E t' m' (key_list E t m B)
    \<and> live_buckets E m' = live_buckets E m \<and> kept E m m' \<and> bincount t' \<le> bincount t \<and> can_shrink E t'"
  using contract_check_correct [OF assms] represents_stays by (fastforce simp: stays_def)

lemma delete_raw:
  fixes k :: u64
  assumes "represents E t m c"
  defines "binp \<equiv> cell_of t m (key_bin E t k)"
  shows "delete_loop E binp k None (get_bin m binp) m = Some (False, m) \<and> c k = [] \<or>
    (\<exists>m1 B1. delete_loop E binp k None (get_bin m binp) m = Some (True, m1) \<and> c k \<noteq> [] \<and>
       table_rep E (t\<lparr>tcount := tcount t - 1\<rparr>) m1 B1 \<and> key_list E t m1 B1 = c(k := tl (c k)) \<and>
       live_buckets E m1 = live_buckets E m - set (take 1 (c k)) \<and>
       (\<forall>s. (bheap m1 s)\<lparr>next_bucket := None\<rparr> = (bheap m s)\<lparr>next_bucket := None\<rparr>))"
proof -
  obtain B where B: "table_rep E t m B" "c = key_list E t m B" using assms(1) by (rule representsE)
  note R = table_repD [OF B(1)]
  let ?b = "key_bin E t k" and ?cell = "cell_of t m (key_bin E t k)"
  have b: "?b < bincount t" using key_bin_less [OF R(3)] .
  have chain: "chain (get_next m) (get_bin m ?cell) (B ?b)"
    using bins_okD(1) [OF R(5)] current_bound(1) [OF R(3)] b by simp
  show ?thesis
  proof (rule find_first [of "B ?b" "\<lambda>r. chunk (bheap m r)" k])
    assume none: "\<And>r. r \<in> set (B ?b) \<Longrightarrow> chunk (bheap m r) \<noteq> k"
    then have "c k = []" by (simp add: B(2) key_list_def filter_empty_conv)
    moreover have "delete_loop E ?cell k None (get_bin m ?cell) m = Some (False, m)"
      using delete_loop_none [OF chain none, where bn = "get_bin m" and E = E and c = ?cell and prev = None]
      by simp
    ultimately show ?thesis by (simp add: binp_def)
  next
    fix as r bs
    assume f: "B ?b = as @ r # bs" "chunk (bheap m r) = k" "\<And>a. a \<in> set as \<Longrightarrow> chunk (bheap m a) \<noteq> k"
    note C = chain_split [OF chain [unfolded f(1)]]
    obtain nx bn where u: "unlink_bucket m ?cell (last_opt as) r = relink nx bn m"
      "path nx (bn ?cell) as (get_next m r)" "chain nx (get_next m r) bs"
      "\<And>s. s \<notin> set as \<Longrightarrow> nx s = get_next m s" "\<And>d. d \<noteq> ?cell \<Longrightarrow> bn d = get_bin m d"
      using unlink_bucket_correct [of "get_next m" "get_bin m" ?cell as r bs m, OF C] by auto
    have rl: "r \<in> live_buckets E m" using bins_okD(3) [OF R(5), of r ?b] f(1) by simp
    obtain m1 where fr: "free_bucket E r (relink nx bn m) = Some m1" "same_store (relink nx bn m) m1"
      "released E {r} m m1"
      by (rule free_bucket_relink [OF R(1) rl])
    have loop: "delete_loop E ?cell k None (get_bin m ?cell) m = Some (True, m1)"
      using delete_loop_some [OF C(1) f(3,2), where bn = "get_bin m" and ys = "[]"] u(1) fr(1) by simp
    let ?B = "B(?b := as @ bs)"
    have ent: "entries ?B = entries B - {r}"
      using table_entries_upd [OF R(5,3), of ?b] entries_bin [of B ?b] f(1) C(3) by auto
    have "r \<in> entries B" using f(1) by (auto simp: entries_def intro: exI [of _ ?b])
    then have "0 < card (entries B)" "card (entries ?B) = card (entries B) - 1"
      using finite_entries [OF R(5)] ent by (auto simp: card_gt_0_iff)
    then have card: "tcount t - 1 = of_nat (card (entries ?B))" using R(6) by simp
    have ch: "chain nx (bn ?cell) (as @ bs)" using u(2,3) by (auto simp: path_append)
    have other: "s \<noteq> r" if "s \<in> set (B i)" "i \<noteq> ?b" for s i
      using that bin_distinct(2) [OF R(5,3) that(2)] f(1) by auto
    have lv: "live_buckets E m1 = live_buckets E m - {r}" using fr(3) by (simp add: released_def)
    have mem: "\<And>s. s \<in> set (as @ bs) \<Longrightarrow> s \<in> live_buckets E m1 \<and> key_bin E t (chunk (bheap m s)) = ?b"
      using bins_okD(3,4) [OF R(5), of _ ?b] f(1) C(3) lv by auto
    have one: "table_rep E (t\<lparr>tcount := tcount t - 1\<rparr>) m1 ?B"
      "key_list E t m1 ?B j =
        (if key_bin E t j = ?b then filter (\<lambda>r. chunk (bheap m r) = j) (as @ bs) else key_list E t m B j)" for j
      by (rule table_rep_one_bin [where nx = nx and bn = bn, OF B(1) b ch _ _ mem _ fr(2) _ _ _ _ card];
          use fr(3) bins_okD(3) [OF R(5)] f(1) u(4,5) other lv in \<open>auto simp: released_def\<close>)+
    have kl: "key_list E t m1 ?B = c(k := tl (c k))"
    proof
      fix j show "key_list E t m1 ?B j = (c(k := tl (c k))) j"
        using one(2) [of j] filter_first(1) [where as = as and f = "\<lambda>r. chunk (bheap m r)" and k = k and r = r and bs = bs, OF f(3,2)] f
        by (cases "j = k") (auto simp: B(2) key_list_def)
    qed
    have ck: "c k = r # filter (\<lambda>r. chunk (bheap m r) = k) bs"
      using filter_first(1) [where as = as and f = "\<lambda>r. chunk (bheap m r)" and k = k and r = r and bs = bs, OF f(3,2)] f(1) by (simp add: B(2) key_list_def)
    have "(bheap m1 s)\<lparr>next_bucket := None\<rparr> = (bheap m s)\<lparr>next_bucket := None\<rparr>" for s
      using same_store_links(4) [OF fr(2)] by (simp add: relink_def)
    then show ?thesis
      using loop one(1) kl lv ck by (intro disjI2 exI [of _ m1] exI [of _ ?B]) (simp add: binp_def)
  qed
qed

lemma delete_correct:
  assumes "represents E t m c" and sh: "can_shrink E t"
  shows "\<exists>t' m'. metadata_delete E t k m = Some (c k \<noteq> [], t', m') \<and> represents E t' m' (c(k := tl (c k)))
    \<and> live_buckets E m' = live_buckets E m - set (take 1 (c k)) \<and> bincount t' \<le> bincount t \<and> can_shrink E t'
    \<and> (\<forall>r \<in> live_buckets E m'. (bheap m' r)\<lparr>next_bucket := None\<rparr> = (bheap m r)\<lparr>next_bucket := None\<rparr>)"
proof -
  obtain B where B: "table_rep E t m B" "c = key_list E t m B" using assms(1) by (rule representsE)
  note R = table_repD [OF B(1)]
  let ?cell = "cell_of t m (key_bin E t k)"
  note fetch = fetch_bucket_eq [OF R(3,4), of k]
  from delete_raw [OF assms(1), of k] show ?thesis
  proof (elim disjE exE conjE)
    assume "delete_loop E ?cell k None (get_bin m ?cell) m = Some (False, m)" "c k = []"
    moreover from this have "c(k := []) = c" by (simp add: fun_upd_idem)
    ultimately show ?thesis using assms by (simp add: metadata_delete_def fetch)
  next
    fix m1 B1
    assume d: "delete_loop E ?cell k None (get_bin m ?cell) m = Some (True, m1)" "c k \<noteq> []"
      "table_rep E (t\<lparr>tcount := tcount t - 1\<rparr>) m1 B1" "key_list E t m1 B1 = c(k := tl (c k))"
      "live_buckets E m1 = live_buckets E m - set (take 1 (c k))"
      "\<forall>s. (bheap m1 s)\<lparr>next_bucket := None\<rparr> = (bheap m s)\<lparr>next_bucket := None\<rparr>"
    obtain t' m' where cc: "metadata_contract_check E (t\<lparr>tcount := tcount t - 1\<rparr>) m1 = Some (t', m')"
      "represents E t' m' (c(k := tl (c k)))" "live_buckets E m' = live_buckets E m1" "kept E m1 m'"
      "bincount t' \<le> bincount t" "can_shrink E t'"
      using contract_represents [OF d(3)] sh d(4) by auto
    have "metadata_delete E t k m = Some (True, t', m')"
      by (simp add: metadata_delete_def fetch d(1) cc(1))
    then show ?thesis using cc d(2,5,6) by (auto simp: kept_def)
  qed
qed

lemma delete_all_raw:
  fixes k :: u64
  assumes "represents E t m c"
  defines "binp \<equiv> cell_of t m (key_bin E t k)" and "n \<equiv> length (c k)"
  shows "\<exists>m1 B1. delete_all_loop E binp k None (get_bin m binp) 0 m = Some (n, m1) \<and>
    table_rep E (t\<lparr>tcount := tcount t - of_nat n\<rparr>) m1 B1 \<and> key_list E t m1 B1 = c(k := []) \<and>
    live_buckets E m1 = live_buckets E m - set (c k) \<and>
    (\<forall>s. (bheap m1 s)\<lparr>next_bucket := None\<rparr> = (bheap m s)\<lparr>next_bucket := None\<rparr>)"
proof -
  obtain B where B: "table_rep E t m B" "c = key_list E t m B" using assms(1) by (rule representsE)
  note R = table_repD [OF B(1)]
  let ?b = "key_bin E t k" and ?cell = "cell_of t m (key_bin E t k)"
  have b: "?b < bincount t" using key_bin_less [OF R(3)] .
  have chain: "chain (get_next m) (get_bin m ?cell) (B ?b)"
    using bins_okD(1) [OF R(5)] current_bound(1) [OF R(3)] b by simp
  let ?xs = "filter (\<lambda>r. chunk (bheap m r) \<noteq> k) (B ?b)"
  have ck: "c k = filter (\<lambda>r. chunk (bheap m r) = k) (B ?b)" by (simp add: B(2) key_list_def)
  have "\<exists>nx' bn' m'. delete_all_loop E ?cell k (last_opt []) (get_bin m ?cell) 0 m
      = Some (0 + length (filter (\<lambda>r. chunk (bheap m r) = k) (B ?b)), m')
    \<and> same_store (relink nx' bn' m) m' \<and> released E {r \<in> set (B ?b). chunk (bheap m r) = k} m m'
    \<and> chain nx' (bn' ?cell) ([] @ ?xs)
    \<and> (\<forall>s. s \<notin> set ([] @ B ?b) \<longrightarrow> nx' s = get_next m s) \<and> (\<forall>d. d \<noteq> ?cell \<longrightarrow> bn' d = get_bin m d)"
    by (rule delete_all_loop_correct [OF R(1) chain])
      (use bin_distinct(1) [OF R(5,3)] bins_okD(3) [OF R(5)] in auto)
  then obtain nx bn m1 where dl: "delete_all_loop E ?cell k None (get_bin m ?cell) 0 m = Some (length (c k), m1)"
    "same_store (relink nx bn m) m1" "released E (set (c k)) m m1" "chain nx (bn ?cell) ?xs"
    "\<And>s. s \<notin> set (B ?b) \<Longrightarrow> nx s = get_next m s" "\<And>d. d \<noteq> ?cell \<Longrightarrow> bn d = get_bin m d"
    unfolding ck by (auto simp: conj_commute)
  have lv: "live_buckets E m1 = live_buckets E m - set (c k)" using dl(3) by (simp add: released_def)
  let ?B = "B(?b := ?xs)"
  have ent: "entries ?B = entries B - set (c k)"
    using table_entries_upd [OF R(5,3), of ?b] entries_bin [of B ?b] by (auto simp: ck)
  have sub: "set (c k) \<subseteq> entries B" using entries_bin [of B ?b] by (auto simp: ck)
  have "card (set (c k)) = length (c k)"
    using represents_ok(5) [OF assms(1)] by (rule distinct_card)
  then have "card (entries ?B) = card (entries B) - length (c k)" "length (c k) \<le> card (entries B)"
    using finite_entries [OF R(5)] sub ent by (auto simp: card_Diff_subset dest: card_mono)
  then have card: "tcount t - of_nat (length (c k)) = of_nat (card (entries ?B))" using R(6) by simp
  have mem: "\<And>s. s \<in> set ?xs \<Longrightarrow> s \<in> live_buckets E m1 \<and> key_bin E t (chunk (bheap m s)) = ?b"
    using bins_okD(3,4) [OF R(5), of _ ?b] lv by (auto simp: ck)
  have other: "s \<notin> set (c k)" if "s \<in> set (B i)" "i \<noteq> ?b" for s i
    using that bin_distinct(2) [OF R(5,3) that(2)] by (auto simp: ck)
  have one: "table_rep E (t\<lparr>tcount := tcount t - of_nat (length (c k))\<rparr>) m1 ?B"
    "key_list E t m1 ?B j =
      (if key_bin E t j = ?b then filter (\<lambda>r. chunk (bheap m r) = j) ?xs else key_list E t m B j)" for j
    by (rule table_rep_one_bin [where nx = nx and bn = bn, OF B(1) b dl(4) _ _ mem _ dl(2) _ _ _ _ card];
        use dl(3,5,6) bins_okD(3) [OF R(5)] other lv in \<open>auto simp: released_def\<close>)+
  have kl: "key_list E t m1 ?B = c(k := [])"
  proof
    fix j show "key_list E t m1 ?B j = (c(k := [])) j"
      using one(2) [of j] by (cases "j = k") (auto simp: B(2) key_list_def filter_empty_conv intro: filter_cong)
  qed
  have "(bheap m1 s)\<lparr>next_bucket := None\<rparr> = (bheap m s)\<lparr>next_bucket := None\<rparr>" for s
    using same_store_links(4) [OF dl(2)] by (simp add: relink_def)
  then show ?thesis
    using dl(1) one(1) kl lv by (intro exI [of _ m1] exI [of _ ?B]) (simp add: binp_def n_def)
qed

lemma delete_all_correct:
  assumes "represents E t m c" and sh: "can_shrink E t"
  shows "\<exists>t' m'. metadata_delete_all E t k m = Some (length (c k), t', m') \<and> represents E t' m' (c(k := []))
    \<and> live_buckets E m' = live_buckets E m - set (c k) \<and> bincount t' \<le> bincount t \<and> can_shrink E t'
    \<and> (\<forall>r \<in> live_buckets E m'. (bheap m' r)\<lparr>next_bucket := None\<rparr> = (bheap m r)\<lparr>next_bucket := None\<rparr>)"
proof -
  obtain B where B: "table_rep E t m B" "c = key_list E t m B" using assms(1) by (rule representsE)
  note R = table_repD [OF B(1)]
  let ?cell = "cell_of t m (key_bin E t k)"
  note fetch = fetch_bucket_eq [OF R(3,4), of k]
  obtain m1 B1 where d: "delete_all_loop E ?cell k None (get_bin m ?cell) 0 m = Some (length (c k), m1)"
    "table_rep E (t\<lparr>tcount := tcount t - of_nat (length (c k))\<rparr>) m1 B1" "key_list E t m1 B1 = c(k := [])"
    "live_buckets E m1 = live_buckets E m - set (c k)"
    "\<forall>s. (bheap m1 s)\<lparr>next_bucket := None\<rparr> = (bheap m s)\<lparr>next_bucket := None\<rparr>"
    using delete_all_raw [OF assms(1), of k] by blast
  show ?thesis
  proof (cases "c k = []")
    case False
    obtain t' m' where cc:
      "metadata_contract_check E (t\<lparr>tcount := tcount t - of_nat (length (c k))\<rparr>) m1 = Some (t', m')"
      "represents E t' m' (c(k := []))" "live_buckets E m' = live_buckets E m1" "kept E m1 m'"
      "bincount t' \<le> bincount t" "can_shrink E t'"
      using contract_represents [OF d(2)] sh d(3) by auto
    have "metadata_delete_all E t k m = Some (length (c k), t', m')"
      using False by (simp add: metadata_delete_all_def fetch d(1) cc(1))
    then show ?thesis using cc d(4,5) by (auto simp: kept_def)
  next
    case True
    have "represents E t m1 (c(k := []))" using d(2,3) True by (intro representsI [of _ _ _ B1]) auto
    moreover have "metadata_delete_all E t k m = Some (length (c k), t, m1)"
      using True d(1) by (simp add: metadata_delete_all_def fetch)
    ultimately show ?thesis using True d(4,5) sh by auto
  qed
qed

section \<open>Creation\<close>

lemma power_256_1024 [simp]: "is_power_of_two 256" "is_power_of_two 1024"
  using is_power_of_two_exp [of 8] is_power_of_two_exp [of 10] by simp_all

lemma init_table_correct:
  assumes ok: "memcxt_ok E m" and fsc: "free_segments_clear E m"
    and c: "segment_length c = 256" "initial_directory_length c = 1024" "bincount_max c = UINT32_MAX"
      "directory_length_max c = UINT32_MAX div 256"
  shows "(\<exists>t' m'. init_table E c 1 t m = Some (False, t', m') \<and> errno m' = Some ENOMEM \<and> memcxt_ok E m' \<and> \<not> mmap_total E) \<or>
    (\<exists>t' m'. init_table E c 1 t m = Some (True, t', m') \<and> represents E t' m' (\<lambda>_. []) \<and>
       directory_length t' = 1024 \<and> bincount t' = 256 \<and> live_buckets E m' = live_buckets E m \<and> kept E m m')"
proof -
  have sz: "mul_size 1024 8 = Some 8192" "unat (8192 :: u64) = 8192"
    using mul_size_8 [of 1024] by simp_all
  have binsz: "mul_size 256 1 = Some 256" using mul_size_of_nat [of 256 1] by simp
  show ?thesis
  proof (rule allocate_directory_cases [OF ok, of None 8192])
    assume "memcxt_allocate E DIRECTORY None 8192 m = Some (None, m)" "\<not> mmap_total E"
    then have "\<exists>t' m'. init_table E c 1 t m = Some (False, t', m') \<and> errno m' = Some ENOMEM \<and> memcxt_ok E m' \<and> \<not> mmap_total E"
      using sz ok c by (simp add: init_table_def Let_def)
    then show ?thesis ..
  next
    fix d assume d: "memcxt_allocate E DIRECTORY None 8192 m = Some (Some (VDir d), map_region E d 8192 m)"
      "d \<notin> regions m"
    let ?m1 = "map_region E d 8192 m"
    define t1 where "t1 = t\<lparr>cfg := c, directory_length := 1024, directory_current := 1,
      directory := Some d, tN := 256, tL := 0, tp := 0, tcount := 0, maxp := 256, bincount := 256\<rparr>"
    note M = map_region_ok [OF ok d(2), of 8192]
    have d1: "d \<in> regions ?m1" "dsize (dheap ?m1 d) = 1024" "dslot (dheap ?m1 d) = (\<lambda>_. None)"
      by (simp_all add: map_region_def)
    have start: "init_table E c 1 t m = (create_segments E (Some d) 0 1 ?m1 \<bind> (\<lambda>(ok, m). Some (ok, t1, m)))"
      using sz binsz d(1) c by (simp add: init_table_def Let_def t1_def)
    show ?thesis
    proof (rule allocate_segment_cases [OF M(1), of sizeof_segment])
      assume a: "memcxt_allocate E SEGMENT None sizeof_segment ?m1 = Some (None, ?m1)" "\<not> mmap_total E"
      have "\<exists>m2. dir_set ?m1 (Some d) 0 None = Some m2 \<and> memcxt_ok E m2"
        using d1 M(1) by (simp add: dir_set_def)
      then show ?thesis unfolding start using a by auto
    next
      fix s m2
      assume a: "memcxt_allocate E SEGMENT None sizeof_segment ?m1 = Some (Some (VSeg s), m2)"
        and m2: "memcxt_ok E m2" "s \<notin> live_segments E ?m1" "live_segments E m2 = insert s (live_segments E ?m1)"
          "live_buckets E m2 = live_buckets E ?m1" "bucket_pools m2 = bucket_pools ?m1" "grows ?m1 m2"
          "segment_pools m2 \<subseteq> segment_pools ?m1 \<union> - regions ?m1"
        and fc: "free_segments_clear E ?m1 \<Longrightarrow> free_segments_clear E m2 \<and> segment_clear (sheap m2 s)"
      have fc2: "free_segments_clear E m2" "segment_clear (sheap m2 s)" using fc M(6) [OF fsc] by auto
      have d2: "d \<in> regions m2" "dheap m2 d = dheap ?m1 d" using m2(6) d1 by (auto simp: grows_def)
      define m3 where "m3 = m2\<lparr>dheap := (dheap m2)(d := (dheap m2 d)\<lparr>dslot := (dslot (dheap m2 d))(0 := Some s)\<rparr>)\<rparr>"
      have set3: "dir_set m2 (Some d) 0 (Some s) = Some m3"
        using d1 d2 by (simp add: dir_set_def m3_def)
      have run: "init_table E c 1 t m = Some (True, t1, m3)" unfolding start using a set3 by simp
      have sel3: "live_segments E m3 = live_segments E m2" "live_buckets E m3 = live_buckets E m"
        "bucket_pools m3 = bucket_pools m" "segment_pools m3 = segment_pools m2" "memcxt_ok E m3"
        "free_segments_clear E m3" "regions m3 = regions m2" "get_bin m3 = get_bin m2"
        "bheap m3 = bheap m2" "dsize (dheap m3 d) = 1024"
        using m2 M fc2 d1 d2 by (simp_all add: m3_def)
      have seg: "seg_at t1 m3 = (\<lambda>_. None)(0 := Some s)"
        using d1 d2 by (simp add: seg_at_def t1_def m3_def)
      have "d \<notin> bucket_pools m" using bucket_pools_mapped [OF ok] d(2) by blast
      moreover have "d \<notin> segment_pools m2"
        using m2(7) M(5) d1(1) segment_pools_mapped [OF ok] d(2) by auto
      ultimately have "dir_ok E t1 m3"
        using d2(1) m2(3) by (simp add: dir_ok_def seg sel3) (simp add: t1_def sel3 lessThan_Suc)
      moreover have "shape t1"
      proof -
        have "\<exists>k. 1024 = 1024 * (2 :: nat) ^ k" by (rule exI [of _ 0]) simp
        then show ?thesis using c by (simp add: shape_def t1_def)
      qed
      moreover have "bins_ok E t1 m3 (\<lambda>_. [])"
      proof -
        have "directory_current t1 = 1" by (simp add: t1_def)
        then show ?thesis
          using fc2(2) by (simp add: bins_ok_def cell_of_def seg sel3 get_bin_def segment_clear_def)
      qed
      ultimately have "table_rep E t1 m3 (\<lambda>_. [])"
        using sel3(5,6) by (simp add: table_rep_def entries_def t1_def)
      then have "represents E t1 m3 (\<lambda>_. [])" by (rule representsI) (simp add: key_list_def)
      moreover have "kept E m m3"
        using grows_trans [OF M(7) m2(6)] live_bucket_mapped [OF ok] grows_links(3)
        by (metis kept_def sel3(9))
      ultimately show ?thesis using run sel3(2) by (auto simp: t1_def)
    qed
  qed
qed

lemma metadata_cfg_init_eq:
  "metadata_cfg_init = Some \<lparr>segment_length = 256, initial_directory_length = 1024,
     directory_length_max = UINT32_MAX div 256, bincount_max = UINT32_MAX, min_load = 2, max_load = 3,
     multithreaded = False\<rparr>"
  by (simp add: metadata_cfg_init_def SEGMENT_LENGTH_def DIRECTORY_LENGTH_def)

lemma init_metadata_correct:
  assumes "memcxt_ok E m" and "free_segments_clear E m"
  shows "(\<exists>t' m'. init_metadata E (Some t) True m = Some (False, Some t', m') \<and> errno m' = Some ENOMEM \<and> memcxt_ok E m' \<and> \<not> mmap_total E) \<or>
    (\<exists>t' m'. init_metadata E (Some t) True m = Some (True, Some t', m') \<and> represents E t' m' (\<lambda>_. []) \<and>
       directory_length t' = 1024 \<and> bincount t' = 256 \<and> live_buckets E m' = live_buckets E m \<and> kept E m m')"
proof -
  define c where "c = \<lparr>segment_length = 256, initial_directory_length = 1024,
     directory_length_max = UINT32_MAX div 256, bincount_max = UINT32_MAX, min_load = 2, max_load = 3,
     multithreaded = False\<rparr>"
  have "init_metadata E (Some t) True m = (init_table E c 1 t m \<bind> (\<lambda>(ok, t, m). Some (ok, Some t, m)))"
    by (simp add: init_metadata_def metadata_cfg_init_eq c_def)
  moreover have "segment_length c = 256" "initial_directory_length c = 1024" "bincount_max c = UINT32_MAX"
    "directory_length_max c = UINT32_MAX div 256" by (simp_all add: c_def)
  ultimately show ?thesis using init_table_correct [OF assms, of c t] by auto
qed

section \<open>Destruction\<close>

lemma release_bins_correct:
  assumes "memcxt_ok E m" and "\<And>j. idx \<le> j \<Longrightarrow> j < idx + n \<Longrightarrow> chain (get_next m) (get_bin m (s, j)) (L j)"
    and "\<And>j. idx \<le> j \<Longrightarrow> j < idx + n \<Longrightarrow> set (L j) \<subseteq> live_buckets E m"
    and "\<And>i j. i \<noteq> j \<Longrightarrow> set (L i) \<inter> set (L j) = {}"
  shows "\<exists>m'. release_bins E s idx n m = Some m' \<and> same_store m m' \<and>
    released E (\<Union>j\<in>{idx..<idx + n}. set (L j)) m m'"
  using assms(1-3)
proof (induction n arbitrary: idx m)
  case 0
  then show ?case by (simp add: same_store_def released_def)
next
  case (Suc n)
  obtain m1 where m1: "release_chain E (get_bin m (s, idx)) m = Some m1" "same_store m m1"
    "released E (set (L idx)) m m1"
    using release_chain_correct [OF Suc.prems(1), of "get_bin m (s, idx)" "L idx"] Suc.prems(2,3) [of idx]
    by auto
  note S = same_store_links [OF m1(2)]
  have "\<exists>m'. release_bins E s (Suc idx) n m1 = Some m' \<and> same_store m1 m' \<and>
    released E (\<Union>j\<in>{Suc idx..<Suc idx + n}. set (L j)) m1 m'"
  proof (rule Suc.IH)
    show "memcxt_ok E m1" using m1(3) by (simp add: released_def)
    show "chain (get_next m1) (get_bin m1 (s, j)) (L j)" if "Suc idx \<le> j" "j < Suc idx + n" for j
      using Suc.prems(2) [of j] that S by simp
    show "set (L j) \<subseteq> live_buckets E m1" if "Suc idx \<le> j" "j < Suc idx + n" for j
      using Suc.prems(3) [of j] that m1(3) assms(4) [of j idx] by (auto simp: released_def)
  qed
  then obtain m' where m': "release_bins E s (Suc idx) n m1 = Some m'" "same_store m1 m'"
    "released E (\<Union>j\<in>{Suc idx..<Suc idx + n}. set (L j)) m1 m'" by blast
  have "{idx..<idx + Suc n} = insert idx {Suc idx..<Suc idx + n}" by auto
  then have "released E (\<Union>j\<in>{idx..<idx + Suc n}. set (L j)) m m'"
    using m1(3) m'(3) by (auto simp: released_def)
  then show ?case using m1(1,2) m'(1,2) same_store_trans by auto
qed

lemma release_segments_correct:
  assumes "memcxt_ok E m" and "segment_length (cfg t) = 256"
    and "\<And>i. idx \<le> i \<Longrightarrow> i < idx + n \<Longrightarrow> dir_get m (directory t) i = Some (Some (S i)) \<and> S i \<in> live_segments E m"
    and "inj_on S {idx..<idx + n}"
    and "\<And>i j. idx \<le> i \<Longrightarrow> i < idx + n \<Longrightarrow> j < 256 \<Longrightarrow>
        chain (get_next m) (get_bin m (S i, j)) (B (256 * i + j)) \<and> set (B (256 * i + j)) \<subseteq> live_buckets E m"
    and dis: "\<And>i j. i \<noteq> j \<Longrightarrow> set (B i) \<inter> set (B j) = {}"
  shows "\<exists>m'. release_segments E t idx n m = Some m' \<and> same_store m m' \<and> memcxt_ok E m' \<and>
    live_buckets E m' = live_buckets E m - (\<Union>i\<in>{256 * idx..<256 * (idx + n)}. set (B i)) \<and>
    live_segments E m' = live_segments E m - S ` {idx..<idx + n} \<and>
    bucket_pools m' = bucket_pools m \<and> segment_pools m' = segment_pools m"
  using assms(1,3-5)
proof (induction n arbitrary: idx m)
  case 0
  then show ?case by (simp add: same_store_def)
next
  case (Suc n)
  have get: "dir_get m (directory t) idx = Some (Some (S idx))" "S idx \<in> live_segments E m"
    using Suc.prems(2) [of idx] by simp_all
  let ?L = "\<lambda>j. B (256 * idx + j)"
  have "\<exists>m1. release_bins E (S idx) 0 256 m = Some m1 \<and> same_store m m1 \<and>
    released E (\<Union>j\<in>{0..<0 + 256}. set (?L j)) m m1"
    by (rule release_bins_correct [OF Suc.prems(1)]) (use Suc.prems(4) [of idx] dis in auto)
  then obtain m1 where m1: "release_bins E (S idx) 0 256 m = Some m1" "same_store m m1"
    "released E (\<Union>j\<in>{0..<0 + 256}. set (?L j)) m m1" by blast
  note S1 = same_store_links [OF m1(2)]
  obtain m2 where m2: "free_segment E (S idx) m1 = Some m2" "memcxt_ok E m2" "same_store m1 m2"
    "live_segments E m2 = live_segments E m1 - {S idx}" "live_buckets E m2 = live_buckets E m1"
    "bucket_pools m2 = bucket_pools m1" "segment_pools m2 = segment_pools m1"
    by (rule free_segment_correct [of E m1 "S idx"]) (use m1(3) get(2) in \<open>auto simp: released_def\<close>)
  note S2 = same_store_links [OF m2(3)]
  have bins0: "(\<Union>j\<in>{0..<0 + 256}. set (?L j)) = (\<Union>i\<in>{256 * idx..<256 * idx + 256}. set (B i))"
  proof -
    have img: "{256 * idx..<256 * idx + 256} = (+) (256 * idx) ` {0..<256}"
      by (simp add: image_add_atLeastLessThan add.commute)
    show ?thesis unfolding img image_image by simp
  qed
  have lb2: "live_buckets E m2 = live_buckets E m - (\<Union>i\<in>{256 * idx..<256 * idx + 256}. set (B i))"
    using m1(3) m2(5) bins0 by (simp add: released_def)
  have ls2: "live_segments E m2 = live_segments E m - {S idx}" using m1(3) m2(4) by (simp add: released_def)
  have "\<exists>m'. release_segments E t (Suc idx) n m2 = Some m' \<and> same_store m2 m' \<and> memcxt_ok E m' \<and>
    live_buckets E m' = live_buckets E m2 - (\<Union>i\<in>{256 * Suc idx..<256 * (Suc idx + n)}. set (B i)) \<and>
    live_segments E m' = live_segments E m2 - S ` {Suc idx..<Suc idx + n} \<and>
    bucket_pools m' = bucket_pools m2 \<and> segment_pools m' = segment_pools m2"
  proof (rule Suc.IH [OF m2(2)])
    fix i assume i: "Suc idx \<le> i" "i < Suc idx + n"
    have "S i \<noteq> S idx" using Suc.prems(3) i by (auto dest: inj_onD)
    then show "dir_get m2 (directory t) i = Some (Some (S i)) \<and> S i \<in> live_segments E m2"
      using Suc.prems(2) [of i] i S1(3) S2(3) ls2 by simp
    fix j :: nat assume j: "j < 256"
    have "set (B (256 * i + j)) \<inter> set (B i') = {}" if "i' < 256 * idx + 256" for i'
    proof (rule dis)
      show "256 * i + j \<noteq> i'" using i(1) that by linarith
    qed
    then show "chain (get_next m2) (get_bin m2 (S i, j)) (B (256 * i + j)) \<and> set (B (256 * i + j)) \<subseteq> live_buckets E m2"
      using Suc.prems(4) [of i j] i j S1(1,2) S2(1,2) lb2 by fastforce
  next
    show "inj_on S {Suc idx..<Suc idx + n}" by (rule inj_on_subset [OF Suc.prems(3)]) auto
  qed
  then obtain m' where m': "release_segments E t (Suc idx) n m2 = Some m'" "same_store m2 m'" "memcxt_ok E m'"
    "live_buckets E m' = live_buckets E m2 - (\<Union>i\<in>{256 * Suc idx..<256 * (Suc idx + n)}. set (B i))"
    "live_segments E m' = live_segments E m2 - S ` {Suc idx..<Suc idx + n}"
    "bucket_pools m' = bucket_pools m2" "segment_pools m' = segment_pools m2" by blast
  have run: "release_segments E t idx (Suc n) m = Some m'"
    using get(1) m1(1) m2(1) m'(1) assms(2) by simp
  have "{256 * idx..<256 * (idx + Suc n)} = {256 * idx..<256 * idx + 256} \<union> {256 * Suc idx..<256 * (Suc idx + n)}"
    by auto
  moreover have "{idx..<idx + Suc n} = insert idx {Suc idx..<Suc idx + n}" by auto
  ultimately have "live_buckets E m' = live_buckets E m - (\<Union>i\<in>{256 * idx..<256 * (idx + Suc n)}. set (B i))"
    "live_segments E m' = live_segments E m - S ` {idx..<idx + Suc n}"
    using m'(4,5) lb2 ls2 by auto
  moreover have "same_store m m'"
    using same_store_trans [OF same_store_trans [OF m1(2) m2(3)] m'(2)] .
  moreover have "bucket_pools m' = bucket_pools m" "segment_pools m' = segment_pools m"
    using m1(3) m2(6,7) m'(6,7) by (simp_all add: released_def)
  ultimately show ?case using run m'(3) by blast
qed

lemma delete_metadata_run:
  assumes rep: "table_rep E t m B"
  defines "S \<equiv> (\<lambda>i. the (seg_at t m i)) ` {0..<directory_current t}"
  shows "\<exists>m1. delete_metadata E t m = Some (sri_munmap (the (directory t)) (directory_length t * 8) m1) \<and>
    same_store m m1 \<and> memcxt_ok E m1 \<and> live_buckets E m1 = live_buckets E m - entries B \<and>
    live_segments E m1 = live_segments E m - S \<and> bucket_pools m1 = bucket_pools m \<and>
    segment_pools m1 = segment_pools m \<and> S \<subseteq> live_segments E m \<and> card S = directory_current t"
proof -
  note R = table_repD [OF rep]
  obtain d where d: "directory t = Some d" "d \<in> regions m" "dsize (dheap m d) = directory_length t"
    "seg_at t m = dslot (dheap m d)"
    using R(4) by (rule dir_okD)
  let ?n = "directory_current t" and ?S = "\<lambda>i. the (seg_at t m i)"
  have S: "seg_at t m i = Some (?S i) \<and> ?S i \<in> live_segments E m" if "i < ?n" for i
    using dir_ok_seg(1) [OF R(4) that] by auto
  have inj: "inj_on ?S {0..<0 + ?n}"
    using dir_ok_seg(3) [OF R(4)] S by (auto simp: inj_on_def) (metis lessThan_iff)
  have "\<exists>m'. release_segments E t 0 ?n m = Some m' \<and> same_store m m' \<and> memcxt_ok E m' \<and>
    live_buckets E m' = live_buckets E m - (\<Union>i\<in>{256 * 0..<256 * (0 + ?n)}. set (B i)) \<and>
    live_segments E m' = live_segments E m - ?S ` {0..<0 + ?n} \<and>
    bucket_pools m' = bucket_pools m \<and> segment_pools m' = segment_pools m"
  proof (rule release_segments_correct [OF R(1) shapeD(1) [OF R(3)] _ inj])
    show "dir_get m (directory t) i = Some (Some (?S i)) \<and> ?S i \<in> live_segments E m" if "i < 0 + ?n" for i
      using S [of i] that d shapeD(11) [OF R(3)] by (simp add: dir_get_def)
    show "chain (get_next m) (get_bin m (?S i, j)) (B (256 * i + j)) \<and> set (B (256 * i + j)) \<subseteq> live_buckets E m"
      if "i < 0 + ?n" "j < 256" for i j
    proof -
      have "256 * i + j < 256 * ?n" using that by linarith
      moreover have "cell_of t m (256 * i + j) = (?S i, j)" using that by (simp add: cell_of_def)
      ultimately show ?thesis
        using bins_okD(1) [OF R(5), of "256 * i + j"] bins_okD(3) [OF R(5), of _ "256 * i + j"] by auto
    qed
    show "set (B i) \<inter> set (B j) = {}" if "i \<noteq> j" for i j using bin_distinct(2) [OF R(5,3) that] .
  qed
  then obtain m1 where m1: "release_segments E t 0 ?n m = Some m1" "same_store m m1" "memcxt_ok E m1"
    "live_buckets E m1 = live_buckets E m - (\<Union>i\<in>{0..<256 * ?n}. set (B i))"
    "live_segments E m1 = live_segments E m - ?S ` {0..<?n}"
    "bucket_pools m1 = bucket_pools m" "segment_pools m1 = segment_pools m" by auto
  have "entries B \<subseteq> (\<Union>i\<in>{0..<256 * ?n}. set (B i))"
  proof
    fix r assume "r \<in> entries B"
    then obtain i where i: "r \<in> set (B i)" by (auto simp: entries_def)
    then have "i < bincount t" using bins_okD(2) [OF R(5), of i] by (cases "i < bincount t") auto
    then have "i < 256 * ?n" using current_bound(1) [OF R(3)] by linarith
    then show "r \<in> (\<Union>i\<in>{0..<256 * ?n}. set (B i))" using i by auto
  qed
  moreover have "(\<Union>i\<in>{0..<256 * ?n}. set (B i)) \<subseteq> entries B" by (auto simp: entries_def)
  ultimately have ent: "(\<Union>i\<in>{0..<256 * ?n}. set (B i)) = entries B" by blast
  have "directory_length t \<le> 2 ^ 24" using shapeD(10) [OF R(3)] by simp
  note sz = mul_size_8 [OF this]
  have "delete_metadata E t m = Some (sri_munmap d (directory_length t * 8) m1)"
    using m1(1) sz d(1) by (simp add: delete_metadata_def)
  moreover have "?S ` {0..<?n} \<subseteq> live_segments E m" using S by auto
  moreover have "card (?S ` {0..<?n}) = ?n" using inj by (simp add: card_image)
  ultimately show ?thesis using m1 ent d(1) by (auto simp: S_def)
qed

lemma delete_metadata_correct:
  assumes "represents E t m c"
  shows "\<exists>m'. delete_metadata E t m = Some m' \<and> memcxt_ok E m' \<and>
    live_buckets E m' = live_buckets E m - (\<Union>k. set (c k)) \<and> the (directory t) \<notin> regions m' \<and>
    card (live_segments E m - live_segments E m') = directory_current t"
proof -
  obtain B where B: "table_rep E t m B" "c = key_list E t m B" using assms by (rule representsE)
  note R = table_repD [OF B(1)]
  obtain d where d: "directory t = Some d" "d \<notin> bucket_pools m" "d \<notin> segment_pools m"
    using R(4) by (rule dir_okD)
  obtain m1 S where m1: "delete_metadata E t m = Some (sri_munmap d (directory_length t * 8) m1)"
    "memcxt_ok E m1" "live_buckets E m1 = live_buckets E m - entries B"
    "live_segments E m1 = live_segments E m - S" "bucket_pools m1 = bucket_pools m"
    "segment_pools m1 = segment_pools m" "S \<subseteq> live_segments E m" "card S = directory_current t"
    using delete_metadata_run [OF B(1)] d(1) by auto
  have "memcxt_ok E (sri_munmap d (directory_length t * 8) m1)"
    by (rule munmap_ok [OF m1(2)]) (use d m1 in auto)
  moreover have "live_segments E m - live_segments E m1 = S" using m1(4,7) by auto
  ultimately show ?thesis
    using m1(1,3,8) d(1) entries_key_list [OF R(5)] B(2) by simp
qed

lemma delete_metadata_segments:
  assumes "table_rep E t m B"
  shows "\<exists>m' S. delete_metadata E t m = Some m' \<and> sheap m' = sheap m \<and> live_segments E m' = live_segments E m - S \<and>
    segment_pools m' = segment_pools m \<and> (\<forall>i < 256 * directory_current t. fst (cell_of t m i) \<in> S)"
proof -
  have "i div 256 < n" if "i < 256 * n" for i n :: nat using that by auto
  then have "fst (cell_of t m i) \<in> (\<lambda>i. the (seg_at t m i)) ` {0..<directory_current t}"
    if "i < 256 * directory_current t" for i
    using that by (auto simp: cell_of_def)
  moreover define S where "S = (\<lambda>i. the (seg_at t m i)) ` {0..<directory_current t}"
  moreover obtain m1 where m1: "delete_metadata E t m = Some (sri_munmap (the (directory t)) (directory_length t * 8) m1)"
    "same_store m m1" "live_segments E m1 = live_segments E m - S" "segment_pools m1 = segment_pools m"
    using delete_metadata_run [OF assms] unfolding S_def by auto
  moreover have "sheap (sri_munmap (the (directory t)) (directory_length t * 8) m1) = sheap m"
    using same_store_links(7) [OF m1(2)] by (simp add: sri_munmap_def)
  ultimately show ?thesis
    by (intro exI [of _ "sri_munmap (the (directory t)) (directory_length t * 8) m1"] exI [of _ S]) simp
qed

lemma bucket_length_correct:
  assumes "table_rep E t m B" and "b < bincount t"
  shows "bucket_length m (get_bin m (cell_of t m b)) = Some (length (B b))"
proof -
  note R = table_repD [OF assms(1)]
  have "b < 256 * directory_current t" using current_bound(1) [OF R(3)] assms(2) by simp
  then show ?thesis
    using bins_okD(1) [OF R(5)] length_loop_correct by (fastforce simp: bucket_length_def)
qed

end
