(* ===== verification/Metadata_Props.thy ===== *)
theory Metadata_Props
  imports Metadata_Spec
begin

text \<open>
  The interface of the metadata table as a locale (insert, look up and delete by key), its
  interpretation on the model of \<open>metadata.c\<close> and \<open>metadata.h\<close>, a concrete table for the witnesses,
  and the properties of the table.
\<close>

section \<open>The interface\<close>

datatype 'k request = Insert 'k | Lookup 'k | Delete 'k

fun spec_step :: "'k request \<Rightarrow> ('k \<Rightarrow> nat) \<Rightarrow> bool \<times> ('k \<Rightarrow> nat)" where
  "spec_step (Insert k) n = (True, n(k := n k + 1))"
| "spec_step (Lookup k) n = (0 < n k, n)"
| "spec_step (Delete k) n = (0 < n k, n(k := n k - 1))"

fun spec_run :: "'k request list \<Rightarrow> ('k \<Rightarrow> nat) \<Rightarrow> bool list" where
  "spec_run [] n = []"
| "spec_run (q # qs) n = (case spec_step q n of (b, n') \<Rightarrow> b # spec_run qs n')"

text \<open>The same requests on an implementation; a lookup answers whether it returned a bucket.\<close>

fun table_run ::
  "('k \<Rightarrow> 's \<Rightarrow> (bool \<times> 's) option) \<Rightarrow> ('k \<Rightarrow> 's \<Rightarrow> ('r option \<times> 's) option) \<Rightarrow>
   ('k \<Rightarrow> 's \<Rightarrow> (bool \<times> 's) option) \<Rightarrow> 'k request list \<Rightarrow> 's \<Rightarrow> (bool list \<times> 's) option" where
  "table_run ins look del [] s = Some ([], s)"
| "table_run ins look del (Insert k # qs) s = do {
     (b, s) \<leftarrow> ins k s; (bs, s) \<leftarrow> table_run ins look del qs s; Some (b # bs, s) }"
| "table_run ins look del (Lookup k # qs) s = do {
     (r, s) \<leftarrow> look k s; (bs, s) \<leftarrow> table_run ins look del qs s; Some ((r \<noteq> None) # bs, s) }"
| "table_run ins look del (Delete k # qs) s = do {
     (b, s) \<leftarrow> del k s; (bs, s) \<leftarrow> table_run ins look del qs s; Some (b # bs, s) }"

locale chunk_table =
  fixes rep :: "'s \<Rightarrow> ('k \<Rightarrow> 'r list) \<Rightarrow> bool"
    and room :: "'s \<Rightarrow> nat"
    and ins :: "'k \<Rightarrow> 's \<Rightarrow> (bool \<times> 's) option"
    and look :: "'k \<Rightarrow> 's \<Rightarrow> ('r option \<times> 's) option"
    and del :: "'k \<Rightarrow> 's \<Rightarrow> (bool \<times> 's) option"
  assumes ins_law: "rep s c \<Longrightarrow> 0 < room s \<Longrightarrow>
      \<exists>r s'. ins k s = Some (True, s') \<and> rep s' (c(k := r # c k)) \<and> room s \<le> Suc (room s')"
    and look_law: "rep s c \<Longrightarrow>
      \<exists>s'. look k s = Some (case c k of [] \<Rightarrow> None | r # _ \<Rightarrow> Some r, s') \<and> rep s' c \<and> room s \<le> room s'"
    and del_law: "rep s c \<Longrightarrow>
      \<exists>s'. del k s = Some (c k \<noteq> [], s') \<and> rep s' (c(k := tl (c k))) \<and> room s \<le> room s'"
begin

lemma run_correct:
  "rep s c \<Longrightarrow> length qs \<le> room s \<Longrightarrow>
    \<exists>s' c'. table_run ins look del qs s = Some (spec_run qs (\<lambda>k. length (c k)), s') \<and> rep s' c'"
proof (induction qs arbitrary: s c)
  case Nil
  then show ?case by auto
next
  case (Cons q qs)
  show ?case
  proof (cases q)
    case (Insert k)
    obtain r s1 where s1: "ins k s = Some (True, s1)" "rep s1 (c(k := r # c k))" "room s \<le> Suc (room s1)"
      using ins_law [OF Cons.prems(1), of k] Cons.prems(2) by auto
    have "(\<lambda>j. length ((c(k := r # c k)) j)) = (\<lambda>k. length (c k))(k := length (c k) + 1)" by auto
    with Cons.IH [OF s1(2)] s1 Cons.prems(2) show ?thesis by (auto simp: Insert)
  next
    case (Lookup k)
    obtain s1 where s1: "look k s = Some (case c k of [] \<Rightarrow> None | r # _ \<Rightarrow> Some r, s1)" "rep s1 c" "room s \<le> room s1"
      using look_law [OF Cons.prems(1), of k] by auto
    with Cons.IH [OF s1(2)] Cons.prems(2) show ?thesis by (auto simp: Lookup split: list.splits)
  next
    case (Delete k)
    obtain s1 where s1: "del k s = Some (c k \<noteq> [], s1)" "rep s1 (c(k := tl (c k)))" "room s \<le> room s1"
      using del_law [OF Cons.prems(1), of k] by auto
    have "(\<lambda>j. length ((c(k := tl (c k))) j)) = (\<lambda>k. length (c k))(k := length (c k) - 1)" by auto
    with Cons.IH [OF s1(2)] s1 Cons.prems(2) show ?thesis by (auto simp: Delete)
  qed
qed

end

section \<open>Allocating the bucket of an entry\<close>

text \<open>Writing a bucket outside the table.\<close>

lemma represents_bucket_upd:
  assumes rep: "represents E t m c" and r: "\<And>k. r \<notin> set (c k)"
    and b: "bucket_pool_ptr b = bucket_pool_ptr (bheap m r)"
  shows "represents E t (m\<lparr>bheap := (bheap m)(r := b)\<rparr>) c"
proof -
  obtain B where B: "table_rep E t m B" "c = key_list E t m B" using rep by (rule representsE)
  note R = table_repD [OF B(1)]
  let ?m = "m\<lparr>bheap := (bheap m)(r := b)\<rparr>"
  have notin: "r \<notin> set (B i)" for i using r entries_key_list [OF R(5)] B(2) by (auto simp: entries_def)
  have sp: "same_pools m ?m" using b by (simp add: same_pools_def)
  have "memcxt_ok E ?m" by (rule same_pools_ok [OF sp R(1)]) (use memcxt_ok_env(5) [OF R(1)] in simp_all)
  moreover have "free_segments_clear E ?m"
    using R(2) same_pools_simps [OF sp] by (simp add: free_segments_clear_def)
  moreover have seg: "seg_at t ?m = seg_at t m" "cell_of t ?m = cell_of t m"
    by (simp_all add: seg_at_def cell_of_def fun_eq_iff)
  moreover have "dir_ok E t ?m" using R(4) same_pools_simps [OF sp] by (simp add: dir_ok_def seg)
  moreover have "bins_ok E t ?m B"
  proof -
    have nx: "get_next ?m s = get_next m s" if "s \<in> set (B i)" for s i
      using that notin by (auto simp: get_next_def)
    have "chain (get_next ?m) (get_bin m (cell_of t m i)) (B i)" if "i < 256 * directory_current t" for i
      using bins_okD(1) [OF R(5) that] by (rule path_mono) (use nx in auto)
    moreover have "get_bin ?m = get_bin m" by (simp add: get_bin_def fun_eq_iff)
    ultimately show ?thesis
      using bins_okD(2-4) [OF R(5)] same_pools_simps [OF sp] notin unfolding bins_ok_def seg by auto
  qed
  ultimately have "table_rep E t ?m B" using R(3,6) by (simp add: table_rep_def)
  moreover have "key_list E t ?m B k = c k" for k
    using notin by (auto simp: B(2) key_list_def intro!: filter_cong)
  ultimately show ?thesis by (rule representsI)
qed

lemma alloc_bucket_represents:
  assumes rep: "represents E t m c"
  obtains (none) "alloc_bucket E m = Some (None, m)" and "\<not> mmap_total E"
  | (some) r m' where "alloc_bucket E m = Some (Some r, m')" and "represents E t m' c"
      and "r \<notin> live_buckets E m" and "live_buckets E m' = insert r (live_buckets E m)"
      and "\<And>k. r \<notin> set (c k)" and "kept E m m'"
proof -
  obtain B where B: "table_rep E t m B" "c = key_list E t m B" using rep by (rule representsE)
  note R = table_repD [OF B(1)]
  show ?thesis
  proof (rule alloc_bucket_cases [OF R(1)])
    fix r m' assume a: "alloc_bucket E m = Some (Some r, m')" "memcxt_ok E m'" "r \<notin> live_buckets E m"
      "live_buckets E m' = insert r (live_buckets E m)" "live_segments E m' = live_segments E m"
      "segment_pools m' = segment_pools m" "grows m m'" "bucket_pools m' \<subseteq> bucket_pools m \<union> - regions m"
    have "sheap m' s = sheap m s" if "spool_of s \<in> segment_pools m" for s
      using a(7) that segment_pools_mapped [OF R(1)] by (auto simp: grows_def)
    then have "free_segments_clear E m'" using R(2) a(5,6) by (simp add: free_segments_clear_def)
    then have T: "table_rep E t m' B" "key_list E t m' B = key_list E t m B" "kept E m m'"
      using table_rep_grows [OF B(1) a(7,2)] a by auto
    have "r \<notin> set (c k)" for k using represents_ok(4) [OF rep] a(3) by blast
    moreover have "represents E t m' c" using T(1,2) B(2) by (intro representsI [of _ _ _ B]) simp_all
    ultimately show ?thesis using some a(1,3,4) T(3) by blast
  qed (use none in auto)
qed

lemma insert_chunk_correct:
  fixes E :: ci_env and m :: ci_mem
  assumes rep: "represents E t m c" and room: "bincount t \<le> 2 ^ 31 - 256"
  shows "(metadata_insert_chunk E t k m = Some (False, t, m) \<and> \<not> mmap_total E) \<or>
    (\<exists>ok r t' m'. metadata_insert_chunk E t k m = Some (ok, t', m') \<and> r \<notin> live_buckets E m \<and>
       live_buckets E m' = insert r (live_buckets E m) \<and> represents E t' m' (c(k := r # c k)) \<and>
       bincount t' \<le> bincount t + 1 \<and> (\<not> ok \<longrightarrow> \<not> mmap_total E))"
proof (rule alloc_bucket_represents [OF rep])
  assume "alloc_bucket E m = Some (None, m)" "\<not> mmap_total E"
  then show ?thesis by (simp add: metadata_insert_chunk_def allocate_chunkinfoptr_def)
next
  fix r m1
  assume a: "alloc_bucket E m = Some (Some r, m1)" "represents E t m1 c" "r \<notin> live_buckets E m"
    "live_buckets E m1 = insert r (live_buckets E m)" "\<And>k. r \<notin> set (c k)" "kept E m m1"
  define b where "b = ((bheap m1 r)\<lparr>prev_size := 0, csize := 0, fd := None, bk := None,
      fd_nextsize := None, bk_nextsize := None, chunk := 0, md_next := None, md_prev := None,
      next_bucket := None\<rparr>)\<lparr>chunk := k\<rparr>"
  let ?m = "m1\<lparr>bheap := (bheap m1)(r := b)\<rparr>"
  have run: "metadata_insert_chunk E t k m = metadata_add E t r ?m"
    using a(1) by (simp add: metadata_insert_chunk_def allocate_chunkinfoptr_def Let_def b_def)
  have rep1: "represents E t ?m c"
    by (rule represents_bucket_upd [OF a(2,5)]) (simp add: b_def)
  have lb: "live_buckets E ?m = insert r (live_buckets E m)"
    using a(4) by (simp add: live_buckets_def)
  have "chunk (bheap ?m r) = k" by (simp add: b_def)
  then show ?thesis
    using add_correct [OF rep1 _ a(5) room] lb a(3) unfolding run by fastforce
qed

section \<open>Interpretation on the model\<close>

definition md_rep :: "ci_env \<Rightarrow> metadata \<times> ci_mem \<Rightarrow> (u64 \<Rightarrow> bptr list) \<Rightarrow> bool" where
  "md_rep E s c \<longleftrightarrow> represents E (fst s) (snd s) c \<and> mmap_total E"

definition md_room :: "metadata \<times> ci_mem \<Rightarrow> nat" where
  "md_room s = 2 ^ 31 - 255 - bincount (fst s)"

definition md_insert :: "ci_env \<Rightarrow> u64 \<Rightarrow> metadata \<times> ci_mem \<Rightarrow> (bool \<times> metadata \<times> ci_mem) option" where
  "md_insert E k s = metadata_insert_chunk E (fst s) k (snd s)"

definition md_lookup :: "ci_env \<Rightarrow> u64 \<Rightarrow> metadata \<times> ci_mem \<Rightarrow> (bptr option \<times> metadata \<times> ci_mem) option" where
  "md_lookup E k s = do { (v, m) \<leftarrow> metadata_lookup E (fst s) k (snd s); Some (v, fst s, m) }"

definition md_delete :: "ci_env \<Rightarrow> u64 \<Rightarrow> metadata \<times> ci_mem \<Rightarrow> (bool \<times> metadata \<times> ci_mem) option" where
  "md_delete E k s = metadata_delete E (fst s) k (snd s)"

interpretation md: chunk_table "md_rep E" md_room "md_insert E" "md_lookup E" "md_delete E"
proof unfold_locales
  fix s c k
  assume s: "md_rep E s c"
  then have rep: "represents E (fst s) (snd s) c" and tot: "mmap_total E" by (simp_all add: md_rep_def)
  then have sh: "can_shrink E (fst s)" by (simp add: can_shrink_def)
  show "\<exists>s'. md_lookup E k s = Some (case c k of [] \<Rightarrow> None | r # _ \<Rightarrow> Some r, s') \<and> md_rep E s' c \<and> md_room s \<le> md_room s'"
    using lookup_correct [OF rep, of k] tot by (auto simp: md_lookup_def md_rep_def md_room_def)
  show "\<exists>s'. md_delete E k s = Some (c k \<noteq> [], s') \<and> md_rep E s' (c(k := tl (c k))) \<and> md_room s \<le> md_room s'"
    using delete_correct [OF rep sh, of k] tot by (fastforce simp: md_delete_def md_rep_def md_room_def)
  assume "0 < md_room s"
  then have "bincount (fst s) \<le> 2 ^ 31 - 256" by (simp add: md_room_def)
  from insert_chunk_correct [OF rep this, of k] tot
  obtain r t' m' where "md_insert E k s = Some (True, t', m')" "represents E t' m' (c(k := r # c k))"
    "bincount t' \<le> bincount (fst s) + 1"
    by (auto simp: md_insert_def)
  then show "\<exists>r s'. md_insert E k s = Some (True, s') \<and> md_rep E s' (c(k := r # c k)) \<and> md_room s \<le> Suc (md_room s')"
    using tot by (intro exI [of _ r] exI [of _ "(t', m')"]) (auto simp: md_rep_def md_room_def)
qed

lemma stays_tcount:
  assumes "table_rep E t m B" and "stays E t m B t' m' B'"
  shows "tcount t' = tcount t" and "cfg t' = cfg t"
proof -
  have rep': "table_rep E t' m' B'" and kl: "key_list E t' m' B' = key_list E t m B"
    using assms(2) by (simp_all add: stays_def)
  show "tcount t' = tcount t"
    using table_repD(6) [OF assms(1)] table_repD(6) [OF rep']
      entries_key_list [OF table_repD(5) [OF assms(1)]] entries_key_list [OF table_repD(5) [OF rep']] kl by simp
  show "cfg t' = cfg t" using assms(2) by (simp add: stays_def)
qed

section \<open>A concrete table\<close>

definition ci_example :: ci_env where
  "ci_example = metadata_env False first_fit"

lemma first_fit_total: "finite R \<Longrightarrow> first_fit R h n \<noteq> None"
  by (simp add: first_fit_def)

lemma ci_example_total: "mmap_total ci_example"
  by (simp add: mmap_total_def ci_example_def metadata_env_def first_fit_total)

lemma example_memory:
  obtains m where "memcxt_ok ci_example m" and "free_segments_clear ci_example m" and "live_buckets ci_example m = {}"
proof -
  have e: "env_ok ci_example" "fst (init_memcxt ci_example (boot_mem ci_example))"
    by (rule init_memcxt_first_fit; simp add: ci_example_def metadata_env_def)+
  show ?thesis
    by (rule init_memcxt_cases [OF e(1), of "boot_mem ci_example"]) (use e(2) that in auto)
qed

lemma example_table:
  obtains t m where "represents ci_example t m (\<lambda>_. [])" and "bincount t = 256" and "directory_length t = 1024"
    and "live_buckets ci_example m = {}"
proof -
  obtain m where m: "memcxt_ok ci_example m" "free_segments_clear ci_example m" "live_buckets ci_example m = {}"
    by (rule example_memory)
  show ?thesis
    using init_metadata_correct [OF m(1,2), of undefined] ci_example_total m(3) that by auto
qed

text \<open>A table with one entry, and an allocated bucket that is not in it.\<close>

lemma example_entry:
  obtains t m r where "represents ci_example t m ((\<lambda>_. [])(k := [r]))" and "bincount t \<le> 257"
    and "can_shrink ci_example t"
proof -
  obtain t m where tm: "represents ci_example t m (\<lambda>_. [])" "bincount t = 256" by (rule example_table)
  obtain r t' m' where "represents ci_example t' m' ((\<lambda>_. [])(k := [r]))" "bincount t' \<le> 257"
    using insert_chunk_correct [OF tm(1), of k] tm(2) ci_example_total by auto
  then show ?thesis using that ci_example_total by (auto simp: can_shrink_def)
qed

lemma example_bucket:
  obtains t m r where "represents ci_example t m (\<lambda>_. [])" and "bincount t = 256"
    and "r \<in> live_buckets ci_example m" and "chunk (bheap m r) = k" and "can_shrink ci_example t"
proof -
  obtain t m where tm: "represents ci_example t m (\<lambda>_. [])" "bincount t = 256" by (rule example_table)
  show ?thesis
  proof (rule alloc_bucket_represents [OF tm(1)])
    assume "\<not> mmap_total ci_example" then show ?thesis using ci_example_total by simp
  next
    fix r m' assume a: "represents ci_example t m' (\<lambda>_. [])"
      "live_buckets ci_example m' = insert r (live_buckets ci_example m)"
    let ?m = "m'\<lparr>bheap := (bheap m')(r := (bheap m' r)\<lparr>chunk := k\<rparr>)\<rparr>"
    have "represents ci_example t ?m (\<lambda>_. [])" by (rule represents_bucket_upd [OF a(1)]) simp_all
    moreover have "r \<in> live_buckets ci_example ?m" using a(2) by (simp add: live_buckets_def)
    ultimately show ?thesis using that [of t ?m r] tm(2) ci_example_total by (simp add: can_shrink_def)
  qed
qed

text \<open>Tables just before an expansion, and after many of them.\<close>

lemma example_alloc:
  assumes "represents ci_example t m c"
  obtains r m' where "represents ci_example t m' c" and "r \<in> live_buckets ci_example m'" and "\<forall>k. r \<notin> set (c k)"
  by (rule alloc_bucket_represents [OF assms]) (use ci_example_total that in auto)

lemma example_filled:
  "\<exists>t m c. represents ci_example t m c \<and> tcount t = of_nat n \<and> bincount t = 256 \<and> cfg t = the metadata_cfg_init"
proof (induction n)
  case 0
  obtain m where m: "memcxt_ok ci_example m" "free_segments_clear ci_example m" by (rule example_memory)
  obtain t' m' where t': "init_metadata ci_example (Some undefined) True m = Some (True, Some t', m')"
    "represents ci_example t' m' (\<lambda>_. [])" "bincount t' = 256"
    using init_metadata_correct [OF m, of undefined] ci_example_total by auto
  obtain B where B: "table_rep ci_example t' m' B" "(\<lambda>_. []) = key_list ci_example t' m' B"
    using t'(2) by (rule representsE)
  have "entries B = {}" using entries_key_list [OF table_repD(5) [OF B(1)]] B(2) [symmetric] by simp
  then have "tcount t' = 0" using table_repD(6) [OF B(1)] by simp
  moreover have "cfg t' = the metadata_cfg_init"
    using t'(1) by (auto simp: init_metadata_def init_table_def metadata_cfg_init_eq Let_def
        split: bind_splits option.splits if_splits)
  ultimately show ?case using t'(2,3) by auto
next
  case (Suc n)
  then obtain t m c where a: "represents ci_example t m c" "tcount t = of_nat n" "bincount t = 256"
    "cfg t = the metadata_cfg_init" by blast
  obtain r m1 where r: "represents ci_example t m1 c" "r \<in> live_buckets ci_example m1" "\<forall>k. r \<notin> set (c k)"
    by (rule example_alloc [OF a(1)])
  obtain m2 B2 where "table_rep ci_example (t\<lparr>tcount := tcount t + 1\<rparr>) m2 B2"
    using add_raw [OF r(1,2)] r(3) by blast
  then have "represents ci_example (t\<lparr>tcount := tcount t + 1\<rparr>) m2 (key_list ci_example (t\<lparr>tcount := tcount t + 1\<rparr>) m2 B2)"
    by (rule representsI) simp
  then show ?case using a(2-4) by (intro exI [of _ "t\<lparr>tcount := tcount t + 1\<rparr>"] exI) simp
qed

lemma example_expanded:
  assumes "represents ci_example t m c" and "bincount t + n \<le> 2 ^ 31 - 256"
  shows "\<exists>t' m'. represents ci_example t' m' c \<and> bincount t' = bincount t + n \<and> cfg t' = cfg t \<and> tcount t' = tcount t"
  using assms(2)
proof (induction n)
  case 0
  then show ?case using assms(1) by auto
next
  case (Suc n)
  then obtain t1 m1 where a: "represents ci_example t1 m1 c" "bincount t1 = bincount t + n" "cfg t1 = cfg t"
    "tcount t1 = tcount t" by auto
  obtain B where B: "table_rep ci_example t1 m1 B" "c = key_list ci_example t1 m1 B" using a(1) by (rule representsE)
  have room: "bincount t1 \<le> 2 ^ 31 - 256" using a(2) Suc.prems by simp
  obtain t2 m2 B2 where st: "stays ci_example t1 m1 B t2 m2 B2" "bincount t2 = bincount t1 + 1"
    using expand_table_correct [OF B(1) room] ci_example_total by (auto split: if_splits)
  have "tcount t2 = tcount t1" "cfg t2 = cfg t1" using stays_tcount [OF B(1) st(1)] by simp_all
  moreover have "represents ci_example t2 m2 c" using represents_stays [OF st(1)] B(2) by simp
  ultimately show ?case using a st(2) by auto
qed

section \<open>Properties\<close>

text \<open>
  C3: \<open>metadata_add\<close> never faults on a well-formed table with fewer than about \<open>2^31\<close> bins: the new
  bucket becomes the first one of its key and every other key keeps its list, also when the table or
  its directory is resized on the way. The flag is about the resizing only: when it is \<open>false\<close>
  (\<open>errno = ENOMEM\<close>, and \<open>mmap\<close> did fail) the bucket has been inserted nevertheless.
\<close>

theorem metadata_add_inserts:
  assumes "represents E t m c" and "r \<in> live_buckets E m" and "\<And>k. r \<notin> set (c k)"
    and "bincount t \<le> 2 ^ 31 - 256" and "chunk (bheap m r) = k"
  shows "\<exists>ok t' m'. metadata_add E t r m = Some (ok, t', m') \<and> represents E t' m' (c(k := r # c k)) \<and>
    live_buckets E m' = live_buckets E m \<and> kept E m m' \<and>
    (\<not> ok \<longrightarrow> errno m' = Some ENOMEM \<and> \<not> mmap_total E)"
  using add_correct [OF assms(1-4)] assms(5) by auto

theorem metadata_add_inserts_witness:
  "\<exists>t m r ok t' m'. metadata_add ci_example t r m = Some (ok, t', m') \<and>
     represents ci_example t' m' ((\<lambda>_. [])(64 := [r]))"
proof -
  obtain t m r where a: "represents ci_example t m (\<lambda>_. [])" "bincount t = 256"
    "r \<in> live_buckets ci_example m" "chunk (bheap m r) = 64"
    by (rule example_bucket)
  have "bincount t \<le> 2 ^ 31 - 256" using a(2) by simp
  then have "\<exists>ok t' m'. metadata_add ci_example t r m = Some (ok, t', m') \<and>
      represents ci_example t' m' ((\<lambda>_. [])(64 := [r]))"
    using metadata_add_inserts [OF a(1,3) _ _ a(4)] by fastforce
  then show ?thesis by blast
qed

text \<open>
  C5: \<open>metadata_lookup\<close> returns the most recently inserted bucket of the key that is still in the
  table, \<open>NULL\<close> exactly when there is none, and its move-to-front step changes no key's list.
\<close>

theorem metadata_lookup_finds:
  assumes "represents E t m c"
  shows "\<exists>m'. metadata_lookup E t k m = Some (case c k of [] \<Rightarrow> None | r # _ \<Rightarrow> Some r, m') \<and>
    represents E t m' c \<and> live_buckets E m' = live_buckets E m \<and> kept E m m'"
  by (rule lookup_correct [OF assms])

theorem metadata_lookup_finds_witness:
  "\<exists>t m r m'. metadata_lookup ci_example t 64 m = Some (Some r, m') \<and>
     represents ci_example t m' ((\<lambda>_. [])(64 := [r]))"
proof -
  obtain t m r where a: "represents ci_example t m ((\<lambda>_. [])(64 := [r]))" by (rule example_entry)
  show ?thesis using metadata_lookup_finds [OF a, of 64] by auto
qed

text \<open>
  C4: \<open>metadata_delete\<close> takes the first bucket of the key out of the table and releases exactly that
  bucket; it returns whether there was one; contraction changes nothing else. The table must have its
  initial directory, or \<open>mmap\<close> must not fail, because \<open>metadata_contract_directory\<close> does not test
  its allocation.
\<close>

theorem metadata_delete_removes:
  assumes "represents E t m c" and "can_shrink E t"
  shows "\<exists>t' m'. metadata_delete E t k m = Some (c k \<noteq> [], t', m') \<and> represents E t' m' (c(k := tl (c k))) \<and>
    live_buckets E m' = live_buckets E m - set (take 1 (c k))"
  using delete_correct [OF assms] by blast

theorem metadata_delete_removes_witness:
  "\<exists>t m t' m'. metadata_delete ci_example t 64 m = Some (True, t', m') \<and> represents ci_example t' m' (\<lambda>_. [])"
proof -
  obtain t m r where a: "represents ci_example t m ((\<lambda>_. [])(64 := [r]))" "can_shrink ci_example t"
    by (rule example_entry)
  have "(\<lambda>_. [])(64 := [r], 64 := tl (((\<lambda>_. [])(64 := [r])) 64)) = (\<lambda>_ :: u64. [])" by auto
  then show ?thesis using metadata_delete_removes [OF a, of 64] by auto
qed

text \<open>C20: \<open>metadata_delete_all\<close> releases all buckets of the key and returns their number.\<close>

theorem metadata_delete_all_removes:
  assumes "represents E t m c" and "can_shrink E t"
  shows "\<exists>t' m'. metadata_delete_all E t k m = Some (length (c k), t', m') \<and> represents E t' m' (c(k := [])) \<and>
    live_buckets E m' = live_buckets E m - set (c k)"
  using delete_all_correct [OF assms] by blast

theorem metadata_delete_all_removes_witness:
  "\<exists>t m t' m'. metadata_delete_all ci_example t 64 m = Some (1, t', m') \<and> represents ci_example t' m' (\<lambda>_. [])"
proof -
  obtain t m r where a: "represents ci_example t m ((\<lambda>_. [])(64 := [r]))" "can_shrink ci_example t"
    by (rule example_entry)
  have "(\<lambda>_. [])(64 := [r], 64 := []) = (\<lambda>_ :: u64. [])" by auto
  then show ?thesis using metadata_delete_all_removes [OF a, of 64] by auto
qed



text \<open>
  C22: \<open>init_metadata\<close> on a working memory context either reports \<open>ENOMEM\<close>, which happens only when
  \<open>mmap\<close> fails, or leaves an empty table.
\<close>

theorem init_metadata_empty:
  assumes "memcxt_ok E m" and "free_segments_clear E m"
  shows "\<exists>ok t' m'. init_metadata E (Some t) True m = Some (ok, Some t', m') \<and>
    (if ok then represents E t' m' (\<lambda>_. []) else errno m' = Some ENOMEM \<and> \<not> mmap_total E)"
  using init_metadata_correct [OF assms, of t] by (elim disjE exE conjE) auto

theorem init_metadata_empty_witness:
  "\<exists>m t' m'. init_metadata ci_example (Some undefined) True m = Some (True, Some t', m') \<and>
     represents ci_example t' m' (\<lambda>_. [])"
proof -
  obtain m where m: "memcxt_ok ci_example m" "free_segments_clear ci_example m"
    by (rule example_memory)
  show ?thesis using init_metadata_empty [OF m, of undefined] ci_example_total by (auto split: if_splits)
qed

text \<open>
  C21: \<open>delete_metadata\<close> gives everything back: all buckets of the table, all its segments, and the
  directory; other allocations of the same memory context are untouched.
\<close>

theorem delete_metadata_releases:
  assumes "represents E t m c"
  shows "\<exists>m'. delete_metadata E t m = Some m' \<and> memcxt_ok E m' \<and>
    live_buckets E m' = live_buckets E m - (\<Union>k. set (c k)) \<and> the (directory t) \<notin> regions m' \<and>
    card (live_segments E m - live_segments E m') = directory_current t"
  by (rule delete_metadata_correct [OF assms])

theorem delete_metadata_releases_witness:
  "\<exists>t m m'. delete_metadata ci_example t m = Some m' \<and> memcxt_ok ci_example m' \<and> live_buckets ci_example m' = {}"
proof -
  obtain t m where a: "represents ci_example t m (\<lambda>_. [])" "live_buckets ci_example m = {}"
    by (rule example_table)
  show ?thesis using delete_metadata_releases [OF a(1)] a(2) by auto
qed

section \<open>Resizing\<close>

text \<open>
  splitting a bin keeps the order of the buckets in the old bin and in the new one, and neither
  loses nor invents a bucket.
\<close>

theorem split_preserves_order:
  assumes "shape t" and "old \<noteq> new" and "chain (get_next m) (get_bin m old) rs" and "get_bin m new = None"
  shows "\<exists>m'. split_loop E t nb old new (get_bin m old) None None m = Some m' \<and>
    chain (get_next m') (get_bin m' old) (filter (\<lambda>r. key_bin E t (chunk (bheap m r)) \<noteq> nb) rs) \<and>
    chain (get_next m') (get_bin m' new) (filter (\<lambda>r. key_bin E t (chunk (bheap m r)) = nb) rs)"
proof -
  let ?ix = "\<lambda>r. key_bin E t (chunk (bheap m r))"
  have "\<exists>nx bn. split_loop E t nb old new (get_bin m old) (last_opt []) (last_opt []) (relink (get_next m) (get_bin m) m)
        = Some (relink nx bn m)
    \<and> chain nx (bn old) ([] @ filter (\<lambda>r. ?ix r \<noteq> nb) rs) \<and> chain nx (bn new) ([] @ filter (\<lambda>r. ?ix r = nb) rs)
    \<and> (\<forall>r. r \<notin> set ([] @ [] @ rs) \<longrightarrow> nx r = get_next m r) \<and> (\<forall>c. c \<noteq> old \<and> c \<noteq> new \<longrightarrow> bn c = get_bin m c)"
    by (rule split_loop_correct [OF assms(2)])
      (use metadata_bindex_eq [OF assms(1)] assms(3,4) chain_distinct in auto)
  then obtain nx bn where "split_loop E t nb old new (get_bin m old) None None m = Some (relink nx bn m)"
    "chain nx (bn old) (filter (\<lambda>r. ?ix r \<noteq> nb) rs)" "chain nx (bn new) (filter (\<lambda>r. ?ix r = nb) rs)"
    by auto
  then show ?thesis by (intro exI [of _ "relink nx bn m"]) simp
qed

theorem split_preserves_order_witness:
  "\<exists>t m m'. split_loop ci_example t 256 (Sptr 0 0, 0) (Sptr 0 0, 1) (get_bin m (Sptr 0 0, 0)) None None m = Some m'"
proof -
  obtain t m where a: "represents ci_example t m (\<lambda>_. [])" by (rule example_table)
  let ?m = "boot_mem ci_example"
  have m: "chain (get_next ?m) (get_bin ?m (Sptr 0 0, 0)) []" "get_bin ?m (Sptr 0 0, 1) = None"
    by (simp_all add: boot_mem_def get_bin_def zero_segment_def)
  have ne: "(Sptr 0 0, 0 :: nat) \<noteq> (Sptr 0 0, 1)" by simp
  have "\<exists>m'. split_loop ci_example t 256 (Sptr 0 0, 0) (Sptr 0 0, 1) (get_bin ?m (Sptr 0 0, 0)) None None ?m = Some m'"
    using split_preserves_order [OF represents_ok(2) [OF a] ne m, of ci_example 256] by blast
  then show ?thesis by blast
qed

text \<open>
  C23: no oscillation after an expansion: when the load was above \<open>max_load\<close>, the contraction check on
  the expanded table does nothing.
\<close>

theorem expansion_not_undone:
  assumes "represents E t m c" and "bincount t \<le> 2 ^ 31 - 256"
    and "max_load (cfg t) = 3" and "min_load (cfg t) = 2" and "metadata_load t > max_load (cfg t)"
    and "metadata_expand_table E t m = Some (True, t', m')"
  shows "metadata_contract_check E t' m' = Some (t', m')"
proof -
  obtain B where B: "table_rep E t m B" using assms(1) by (rule representsE)
  obtain B' where st: "stays E t m B t' m' B'" "bincount t' = bincount t + 1"
    using expand_table_correct [OF B assms(2)] assms(6) by auto
  have "0 < bincount t" using shapeD(6,7) [OF represents_ok(2) [OF assms(1)]] by linarith
  then have "4 * bincount t \<le> unat (tcount t)"
    using assms(3,5) less_eq_div_iff_mult_less_eq [of "bincount t" 4 "unat (tcount t)"]
    by (simp add: metadata_load_def)
  moreover have "2 * (b + 1) \<le> n" if "4 * b \<le> n" "0 < b" for b n :: nat using that by presburger
  ultimately have "2 * (bincount t + 1) \<le> unat (tcount t)" using \<open>0 < bincount t\<close> by blast
  then have "2 \<le> unat (tcount t) div (bincount t + 1)"
    by (simp add: less_eq_div_iff_mult_less_eq)
  then show ?thesis
    using stays_tcount [OF B st(1)] st(2) assms(4) by (simp add: metadata_contract_check_def metadata_load_def)
qed

theorem expansion_not_undone_witness:
  "\<exists>t m t' m'. metadata_load t = 4 \<and> metadata_expand_table ci_example t m = Some (True, t', m') \<and>
     metadata_contract_check ci_example t' m' = Some (t', m')"
proof -
  obtain t m c where a: "represents ci_example t m c" "tcount t = of_nat 1024" "bincount t = 256"
    "cfg t = the metadata_cfg_init"
    using example_filled [of 1024] by blast
  obtain B where B: "table_rep ci_example t m B" using a(1) by (rule representsE)
  have room: "bincount t \<le> 2 ^ 31 - 256" using a(3) by simp
  obtain t' m' where e: "metadata_expand_table ci_example t m = Some (True, t', m')"
    using expand_table_correct [OF B room] ci_example_total by auto
  have l: "metadata_load t = 4" "max_load (cfg t) = 3" "min_load (cfg t) = 2"
    using a(2-4) by (simp_all add: metadata_load_def metadata_cfg_init_eq)
  have "metadata_contract_check ci_example t' m' = Some (t', m')"
    by (rule expansion_not_undone [OF a(1) room l(2,3) _ e]) (simp add: l)
  then show ?thesis using l(1) e by blast
qed

text \<open>C24: no oscillation after a contraction either: the expansion check on the contracted table does nothing.\<close>

theorem contraction_not_undone:
  assumes "represents E t m c" and "can_shrink E t" and "0 < tL t"
    and "max_load (cfg t) = 3" and "min_load (cfg t) = 2" and "metadata_load t < min_load (cfg t)"
  shows "\<exists>t' m'. metadata_contract_check E t m = Some (t', m') \<and> represents E t' m' c \<and>
    bincount t' = bincount t - 1 \<and> metadata_expand_check E t' m' = Some (True, t', m')"
proof -
  obtain B where B: "table_rep E t m B" "c = key_list E t m B" using assms(1) by (rule representsE)
  obtain t' m' B' where st: "metadata_contract_table E t m = Some (t', m')" "stays E t m B t' m' B'"
    "bincount t' = bincount t - 1"
    using contract_table_correct [OF B(1) assms(3,2)] by blast
  have cc: "metadata_contract_check E t m = Some (t', m')"
    using st(1) assms(3,6) by (simp add: metadata_contract_check_def)
  note sh = represents_ok(2) [OF assms(1)]
  have b: "0 < bincount t" using contract_target_less(2) [OF sh assms(3)] .
  have "contract_target t < bincount t - 1" using contract_target_less(1) [OF sh assms(3)] .
  then have b2: "0 < bincount t - 1" by linarith
  have "unat (tcount t) < 2 * bincount t"
    using assms(5,6) b by (simp add: metadata_load_def div_less_iff_less_mult)
  then have "unat (tcount t) < 4 * (bincount t - 1)" using b2 by linarith
  then have "unat (tcount t) div (bincount t - 1) < 4" using b2 by (simp add: div_less_iff_less_mult)
  then have "metadata_expand_check E t' m' = Some (True, t', m')"
    using stays_tcount [OF B(1) st(2)] st(3) assms(4) by (simp add: metadata_expand_check_def metadata_load_def)
  moreover have "represents E t' m' c" using represents_stays [OF st(2)] B(2) by simp
  ultimately show ?thesis using cc st(3) by blast
qed

theorem contraction_not_undone_witness:
  "\<exists>t m t' m'. bincount t = 512 \<and> metadata_contract_check ci_example t m = Some (t', m') \<and> bincount t' = 511 \<and>
     metadata_expand_check ci_example t' m' = Some (True, t', m')"
proof -
  obtain t0 m0 c where a: "represents ci_example t0 m0 c" "tcount t0 = of_nat 0" "bincount t0 = 256"
    "cfg t0 = the metadata_cfg_init"
    using example_filled [of 0] by blast
  have "bincount t0 + 256 \<le> 2 ^ 31 - 256" using a(3) by simp
  then obtain t m where t: "represents ci_example t m c" "bincount t = 512" "cfg t = cfg t0" "tcount t = 0"
    using example_expanded [OF a(1), of 256] a(2,3) by auto
  have "0 < tL t"
    using shapeD(5-7) [OF represents_ok(2) [OF t(1)]] t(2) by (cases "tL t") auto
  moreover have "can_shrink ci_example t" using ci_example_total by (simp add: can_shrink_def)
  moreover have "metadata_load t = 0" "max_load (cfg t) = 3" "min_load (cfg t) = 2"
    using t a(4) by (simp_all add: metadata_load_def metadata_cfg_init_eq)
  ultimately show ?thesis using contraction_not_undone [OF t(1)] t(2) by fastforce
qed

text \<open>
  C25: the directory cannot grow past \<open>2^23\<close> segments: an expansion that needs a larger one aborts in
  the assertion \<open>new_dirlen < directory_length_max\<close>, although the header promises that the table keeps
  working with longer chains.
\<close>

theorem expansion_aborts_at_limit:
  assumes "shape t" and "directory_length t = 2 ^ 23" and "directory_current t = 2 ^ 23"
  shows "metadata_expand_table E t m = None"
proof -
  have "metadata_expand_directory E t m = None"
    using assms shapeD(4) [OF assms(1)] by (simp add: metadata_expand_directory_def UINT32_MAX_def Let_def)
  moreover have "maxp t + tp t < 2 ^ 64" using shapeD(7,8) [OF assms(1)] by simp
  then have "add_size (of_nat (maxp t)) (of_nat (tp t)) = Some (of_nat (maxp t + tp t))"
    by (rule add_size_of_nat)
  ultimately show ?thesis using assms(2,3) by (simp add: metadata_expand_table_def Let_def)
qed

theorem expansion_aborts_at_limit_witness:
  "\<exists>t. shape t \<and> (\<forall>m. metadata_expand_table ci_example t m = None)"
proof -
  define t where "t = \<lparr>cfg = \<lparr>segment_length = 256, initial_directory_length = 1024,
     directory_length_max = UINT32_MAX div 256, bincount_max = UINT32_MAX, min_load = 2, max_load = 3,
     multithreaded = False\<rparr>, directory = None, directory_length = 2 ^ 23, directory_current = 2 ^ 23, tN = 256,
     tL = 23, tp = 0, tcount = 0, maxp = 2 ^ 31, bincount = 2 ^ 31\<rparr>"
  have "\<exists>k. (8388608 :: nat) = 1024 * 2 ^ k" by (rule exI [of _ 13]) simp
  then have "shape t" by (simp add: shape_def t_def)
  moreover have "metadata_expand_table ci_example t m = None" for m
    by (rule expansion_aborts_at_limit [OF \<open>shape t\<close>]) (simp_all add: t_def)
  ultimately show ?thesis by blast
qed

section \<open>The cache and the reuse of a memory context\<close>

text \<open>
  C26: with \<open>SRI_METADATA_CACHE\<close> the table hands out released memory: after a miss, an insertion and a
  deletion of the same key, the next lookup answers with the bucket that has just been given back,
  since \<open>cache_delete\<close> clears only one of the two entries the key occupies.
\<close>

theorem cached_lookup_after_delete:
  assumes "represents E t m (\<lambda>_. [])" and "r \<in> live_buckets E m" and "chunk (bheap m r) = k" and "k \<noteq> 0"
    and "bincount t \<le> 2 ^ 31 - 256" and "mmap_total E"
  shows "\<exists>c1 m1 t2 c2 m2 t3 c3 m3 c4.
    cached_lookup E t init_cache k m = Some (None, c1, m1) \<and>
    cached_add E t c1 r m1 = Some (True, t2, c2, m2) \<and>
    cached_delete E t2 c2 k m2 = Some (True, t3, c3, m3) \<and>
    cached_lookup E t3 c3 k m3 = Some (Some r, c4, m3) \<and> r \<notin> live_buckets E m3"
proof -
  obtain m1 where m1: "metadata_lookup E t k m = Some (None, m1)" "represents E t m1 (\<lambda>_. [])"
    "live_buckets E m1 = live_buckets E m" "kept E m m1"
    using lookup_correct [OF assms(1), of k] by auto
  have chk: "chunk (bheap m1 r) = k" using keptD [OF m1(4) assms(2)] assms(3) by simp
  have "r \<in> live_buckets E m1" using m1(3) assms(2) by simp
  then obtain t2 m2 where m2: "metadata_add E t r m1 = Some (True, t2, m2)" "represents E t2 m2 ((\<lambda>_. [])(k := [r]))"
    using add_correct [OF m1(2) _ _ assms(5), of r] assms(6) unfolding chk by auto
  have sh: "can_shrink E t2" using assms(6) by (simp add: can_shrink_def)
  obtain t3 m3 where m3: "metadata_delete E t2 k m2 = Some (True, t3, m3)"
    "live_buckets E m3 = live_buckets E m2 - {r}"
    using delete_correct [OF m2(2) sh, of k] by auto
  show ?thesis
    using m1(1) m2(1) m3 chk assms(4)
    by (simp add: cached_lookup_def cached_add_def cached_delete_def cache_lookup_def cache_insert_def
        cache_delete_def init_cache_def)
qed

theorem cached_lookup_after_delete_witness:
  "\<exists>r t3 c3 m3 c4. cached_lookup ci_example t3 c3 64 m3 = Some (Some r, c4, m3) \<and> r \<notin> live_buckets ci_example m3"
proof -
  obtain t m r where a: "represents ci_example t m (\<lambda>_. [])" "bincount t = 256"
    "r \<in> live_buckets ci_example m" "chunk (bheap m r) = 64"
    by (rule example_bucket)
  have room: "bincount t \<le> 2 ^ 31 - 256" using a(2) by simp
  have "(64 :: u64) \<noteq> 0" by simp
  from cached_lookup_after_delete [OF a(1,3,4) this room ci_example_total] show ?thesis by blast
qed

text \<open>
  C27: \<open>delete_metadata\<close> gives the segments of a non-empty table back without clearing their bins, and
  \<open>alloc_segment\<close> does not clear them either: the precondition of \<open>init_metadata\<close> on the same memory
  context (free segments are empty) is lost.
\<close>

theorem delete_metadata_leaves_bins:
  assumes "represents E t m c" and "c k \<noteq> []"
  shows "\<exists>m'. delete_metadata E t m = Some m' \<and> \<not> free_segments_clear E m'"
proof -
  obtain B where B: "table_rep E t m B" "c = key_list E t m B" using assms(1) by (rule representsE)
  note R = table_repD [OF B(1)]
  let ?b = "key_bin E t k"
  have b: "?b < 256 * directory_current t"
    using key_bin_less [OF R(3), of E k] current_bound(1) [OF R(3)] by linarith
  have ne: "B ?b \<noteq> []" using assms(2) B(2) by (auto simp: key_list_def)
  obtain s j where sj: "cell_of t m ?b = (s, j)" "j < 256" by (simp add: cell_of_def)
  have s: "s \<in> live_segments E m" using cell_of_live [OF R(4) b] sj by simp
  have "get_bin m (s, j) \<noteq> None" using bins_okD(1) [OF R(5) b] ne sj by (cases "B ?b") auto
  then have dirty: "\<not> segment_clear (sheap m s)" using sj(2) by (auto simp: segment_clear_def get_bin_def)
  obtain d m' S where m': "delete_metadata E t m = Some m'" "sheap m' = sheap m"
    "live_segments E m' = live_segments E m - S" "segment_pools m' = segment_pools m" "s \<in> S"
    using delete_metadata_segments [OF B(1)] sj b by auto
  moreover have "spool_of s \<in> segment_pools m" "sidx s < SP_LENGTH E" using live_segmentD [OF s] by simp_all
  ultimately show ?thesis using dirty by (auto simp: free_segments_clear_def)
qed

theorem delete_metadata_leaves_bins_witness:
  "\<exists>t m m'. delete_metadata ci_example t m = Some m' \<and> \<not> free_segments_clear ci_example m'"
proof -
  obtain t m r where a: "represents ci_example t m ((\<lambda>_. [])(64 := [r]))" by (rule example_entry)
  have "((\<lambda>_. [])(64 := [r])) 64 \<noteq> []" by simp
  from delete_metadata_leaves_bins [OF a this] show ?thesis by blast
qed

end
