(* ===== verification/Lphash.thy ===== *)
theory Lphash
  imports Metadata
begin

text \<open>
  \<open>src/lphash/lphash.c\<close> and \<open>lphash.h\<close>: the self-contained linear hash table of the replay tool. It
  maps keys to values, has its own copies of the helpers of \<open>utils.c\<close> and \<open>memcxt.c\<close>, and its memory
  context is a field of its configuration, so that the pools are those of the memory the table lives
  in. \<open>lphash_t\<close> has the fields of \<open>metadata_t\<close> and \<open>lphash_cfg_t\<close> those of \<open>metadata_cfg_t\<close> less
  \<open>multithreaded\<close>; the field \<open>key\<close> of a bucket is the field \<open>chunk\<close> of the record \<open>bucket\<close>.
  Loops whose text is that of \<open>metadata.c\<close> and that call nothing (copying a directory, walking to the
  last bucket, counting a chain, scanning the masks of the bucket pools) are shared with it.
\<close>

section \<open>Data\<close>

type_synonym lphash = metadata

type_synonym lphash_cfg = metadata_cfg

record lpbucket = bucket +
  lpvalue :: u64

type_synonym lp_mem = "unit lpbucket_ext mem"
type_synonym lp_env = "unit lpbucket_ext env"

datatype lpmemtype = LPDIRECTORY | LPSEGMENT | LPBUCKET

definition LPSEGMENT_LENGTH :: nat where
  "LPSEGMENT_LENGTH = 256"

definition LPDIRECTORY_LENGTH :: nat where
  "LPDIRECTORY_LENGTH = 1024"

section \<open>Arithmetic and hashing\<close>

definition lpis_power_of_two :: "u32 \<Rightarrow> bool" where
  "lpis_power_of_two n = ((n AND (n - 1)) = 0)"

definition lpmod_power_of_two :: "nat \<Rightarrow> nat \<Rightarrow> nat option" where
  "lpmod_power_of_two x y = do {
     assert_c (lpis_power_of_two (of_nat y));
     Some (if y = 0 then x else x AND (y - 1)) }"

definition lpadd_size :: "u64 \<Rightarrow> u64 \<Rightarrow> u64 option" where
  "lpadd_size s1 s2 =
    (let result = s1 + s2 in
     if result < s1 \<or> result < s2 then None else Some result)"

text \<open>As in \<open>mul_size\<close>, the returned flag is the product converted to \<open>bool\<close>.\<close>

definition lpmul_size :: "u64 \<Rightarrow> u64 \<Rightarrow> u64 option" where
  "lpmul_size s1 s2 =
    (if s1 = 0 \<or> s2 = 0 then Some 0
     else let result = s1 * s2 in
       if result div s2 \<noteq> s1 then None
       else if result \<noteq> 0 then Some result else None)"

definition lphash_load :: "lphash \<Rightarrow> nat" where
  "lphash_load lhtbl = unat (tcount lhtbl) div bincount lhtbl"

definition lpjenkins_hash_uint64 :: "u64 \<Rightarrow> u32" where
  "lpjenkins_hash_uint64 x =
    (let a = ucast x; b = ucast (drop_bit 32 x); c = 0xdeadbeef
     in snd (snd (final_mix a b c)))"

definition lpjenkins_hash_ptr :: "u64 \<Rightarrow> u32" where
  "lpjenkins_hash_ptr p = lpjenkins_hash_uint64 p"

text \<open>The constants of the file, with \<open>mmap\<close> as the parameter.\<close>

definition lphash_env :: "(addr set \<Rightarrow> addr option \<Rightarrow> nat \<Rightarrow> addr option) \<Rightarrow> lp_env" where
  "lphash_env mm =
     \<lparr>os_mmap = mm, zero_bucket = \<lparr>chunk = 0, next_bucket = None, bucket_pool_ptr = 0, lpvalue = 0\<rparr>,
      BP_SCALE = 32, SP_SCALE = 8, sizeof_bucket = 32, hash_ptr = lpjenkins_hash_ptr\<rparr>"

section \<open>The pool allocator\<close>

definition lpmemcxt_mmap :: "'b env \<Rightarrow> addr option \<Rightarrow> nat \<Rightarrow> 'b mem \<Rightarrow> addr option \<times> 'b mem" where
  "lpmemcxt_mmap E oldaddr sz m =
    (let memory = os_mmap E (regions m) oldaddr sz;
         memory = (if oldaddr \<noteq> None \<and> memory = None
                   then os_mmap E (regions m) None sz else memory)
     in case memory of
          None \<Rightarrow> (None, m)
        | Some a \<Rightarrow> (Some a, map_region E a sz m))"

definition lpmemcxt_munmap :: "addr \<Rightarrow> nat \<Rightarrow> 'b mem \<Rightarrow> 'b mem" where
  "lpmemcxt_munmap memory sz m = m\<lparr>regions := regions m - {memory}\<rparr>"

definition init_lpbucket_pool :: "'b env \<Rightarrow> addr \<Rightarrow> 'b mem \<Rightarrow> 'b mem" where
  "init_lpbucket_pool E bp m =
     m\<lparr>bpools := (bpools m)(bp :=
          \<lparr>bitmasks = (\<lambda>scale. if scale < BP_SCALE E then 0 else bitmasks (bpools m bp) scale),
           free_count = BP_LENGTH E, next_pool = None\<rparr>),
       bheap := (\<lambda>r. if bpool_of r = bp \<and> bidx r < BP_LENGTH E
                     then (bheap m r)\<lparr>bucket_pool_ptr := bp\<rparr> else bheap m r)\<rparr>"

definition init_lpsegment_pool :: "'b env \<Rightarrow> addr \<Rightarrow> 'b mem \<Rightarrow> 'b mem" where
  "init_lpsegment_pool E sp m =
     m\<lparr>spools := (spools m)(sp :=
          \<lparr>bitmasks = (\<lambda>scale. if scale < SP_SCALE E then 0 else bitmasks (spools m sp) scale),
           free_count = SP_LENGTH E, next_pool = None\<rparr>),
       sheap := (\<lambda>s. if spool_of s = sp \<and> sidx s < SP_LENGTH E
                     then (sheap m s)\<lparr>segment_pool_ptr := sp\<rparr> else sheap m s)\<rparr>"

definition new_lpdirectory :: "'b env \<Rightarrow> addr option \<Rightarrow> nat \<Rightarrow> 'b mem \<Rightarrow> addr option \<times> 'b mem" where
  "new_lpdirectory E oldptr sz m = lpmemcxt_mmap E oldptr sz m"

definition new_lpsegments :: "'b env \<Rightarrow> 'b mem \<Rightarrow> addr option \<times> 'b mem" where
  "new_lpsegments E m =
    (case lpmemcxt_mmap E None (segment_pool_size E) m of
       (None, m) \<Rightarrow> (None, m)
     | (Some sptr, m) \<Rightarrow> (Some sptr, init_lpsegment_pool E sptr m))"

definition new_lpbuckets :: "'b env \<Rightarrow> 'b mem \<Rightarrow> addr option \<times> 'b mem" where
  "new_lpbuckets E m =
    (case lpmemcxt_mmap E None (bucket_pool_size E) m of
       (None, m) \<Rightarrow> (None, m)
     | (Some bptr, m) \<Rightarrow> (Some bptr, init_lpbucket_pool E bptr m))"

definition lpinit_pool_memcxt :: "'b env \<Rightarrow> 'b mem \<Rightarrow> bool \<times> 'b mem" where
  "lpinit_pool_memcxt E m =
    (let (segs, m) = new_lpsegments E m;
         m = m\<lparr>mc_segments := segs\<rparr>;
         (bucks, m) = new_lpbuckets E m;
         m = m\<lparr>mc_buckets := bucks\<rparr>
     in (segs \<noteq> None \<and> bucks \<noteq> None, m))"

definition lpctz64 :: "u64 \<Rightarrow> nat option" where
  "lpctz64 x = do { assert_c (x \<noteq> 0); ctz64_loop x 1 0 }"

definition get_free_lpbit :: "u64 \<Rightarrow> nat option" where
  "get_free_lpbit msk = do {
     assert_c (msk \<noteq> - 1);
     lpctz64 (NOT msk) }"

definition get_lpbit :: "u64 \<Rightarrow> nat \<Rightarrow> bool option" where
  "get_lpbit msk index = do {
     assert_c (index < 64);
     Some (msk AND push_bit index 1 \<noteq> 0) }"

definition set_lpbit :: "u64 \<Rightarrow> nat \<Rightarrow> u64 option" where
  "set_lpbit msk index = do {
     assert_c (index < 64);
     Some (msk OR push_bit index 1) }"

definition clear_lpbit :: "u64 \<Rightarrow> nat \<Rightarrow> u64 option" where
  "clear_lpbit msk index = do {
     assert_c (index < 64);
     Some (msk AND NOT (push_bit index 1)) }"

definition take_lpslot :: "pool \<Rightarrow> nat \<Rightarrow> (nat \<times> pool) option" where
  "take_lpslot pl scale = do {
     index \<leftarrow> get_free_lpbit (bitmasks pl scale);
     assert_c (index < 64);
     msk \<leftarrow> set_lpbit (bitmasks pl scale) index;
     Some (scale * 64 + index,
           pl\<lparr>bitmasks := (bitmasks pl)(scale := msk), free_count := free_count pl - 1\<rparr>) }"

definition give_lpslot :: "pool \<Rightarrow> nat \<Rightarrow> nat \<Rightarrow> pool option" where
  "give_lpslot pl index len = do {
     let pmask_index = index div 64;
     let pmask_bit = index mod 64;
     used \<leftarrow> get_lpbit (bitmasks pl pmask_index) pmask_bit;
     assert_c used;
     msk \<leftarrow> clear_lpbit (bitmasks pl pmask_index) pmask_bit;
     let pl = pl\<lparr>bitmasks := (bitmasks pl)(pmask_index := msk), free_count := free_count pl + 1\<rparr>;
     assert_c (free_count pl > 0 \<and> free_count pl \<le> len);
     Some pl }"

definition alloc_lpbucket :: "'b env \<Rightarrow> 'b mem \<Rightarrow> (bptr option \<times> 'b mem) option" where
  "alloc_lpbucket E m = do {
     hit \<leftarrow> find_free (bpools m) (BP_SCALE E) (mc_buckets m);
     case hit of
       Some (p, scale) \<Rightarrow> do {
         (i, pl) \<leftarrow> take_lpslot (bpools m p) scale;
         Some (Some (Bptr p i), m\<lparr>bpools := (bpools m)(p := pl)\<rparr>) }
     | None \<Rightarrow>
         (case new_lpbuckets E m of
            (None, m) \<Rightarrow> Some (None, m)
          | (Some p, m) \<Rightarrow>
              Some (Some (Bptr p 0),
                    m\<lparr>bpools := (bpools m)(p := push_pool (bpools m p) (mc_buckets m)),
                      mc_buckets := Some p\<rparr>)) }"

definition free_lpbucket :: "'b env \<Rightarrow> bptr \<Rightarrow> 'b mem \<Rightarrow> 'b mem option" where
  "free_lpbucket E buckp m = do {
     let bpool = bucket_pool_ptr (bheap m buckp);
     assert_c (bpool_of buckp = bpool \<and> bidx buckp < BP_LENGTH E);
     pl \<leftarrow> give_lpslot (bpools m bpool) (bidx buckp) (BP_LENGTH E);
     Some (m\<lparr>bpools := (bpools m)(bpool := pl)\<rparr>) }"

text \<open>
  The \<open>while\<close> loop of \<open>alloc_lpsegment\<close>. It moves on to the next pool only when \<open>free_count\<close> is zero:
  a pool that counts free segments and has no clear bit would be scanned for ever.
\<close>

partial_function (option) lp_find_free ::
  "(addr \<Rightarrow> pool) \<Rightarrow> nat \<Rightarrow> addr option \<Rightarrow> (addr \<times> nat) option option" where
  "lp_find_free pools n spool_current =
    (case spool_current of
       None \<Rightarrow> Some None
     | Some p \<Rightarrow>
         (if free_count (pools p) > 0
          then (case scan_masks (bitmasks (pools p)) 0 n of
                  Some scale \<Rightarrow> Some (Some (p, scale))
                | None \<Rightarrow> lp_find_free pools n spool_current)
          else lp_find_free pools n (next_pool (pools p))))"

definition alloc_lpsegment :: "'b env \<Rightarrow> 'b mem \<Rightarrow> (sptr option \<times> 'b mem) option" where
  "alloc_lpsegment E m = do {
     assert_c (mc_segments m \<noteq> None);
     hit \<leftarrow> lp_find_free (spools m) (SP_SCALE E) (mc_segments m);
     case hit of
       Some (p, scale) \<Rightarrow> do {
         (i, pl) \<leftarrow> take_lpslot (spools m p) scale;
         Some (Some (Sptr p i), m\<lparr>spools := (spools m)(p := pl)\<rparr>) }
     | None \<Rightarrow>
         (case new_lpsegments E m of
            (None, m) \<Rightarrow> Some (None, m)
          | (Some p, m) \<Rightarrow>
              Some (Some (Sptr p 0),
                    m\<lparr>spools := (spools m)(p := push_pool (spools m p) (mc_segments m)),
                      mc_segments := Some p\<rparr>)) }"

definition free_lpsegment :: "'b env \<Rightarrow> sptr \<Rightarrow> 'b mem \<Rightarrow> 'b mem option" where
  "free_lpsegment E segp m = do {
     let spool = segment_pool_ptr (sheap m segp);
     assert_c (spool_of segp = spool \<and> sidx segp < SP_LENGTH E);
     pl \<leftarrow> give_lpslot (spools m spool) (sidx segp) (SP_LENGTH E);
     Some (m\<lparr>spools := (spools m)(spool := pl)\<rparr>) }"

fun lpmemcxt_allocate ::
  "'b env \<Rightarrow> lpmemtype \<Rightarrow> vptr option \<Rightarrow> nat \<Rightarrow> 'b mem \<Rightarrow> (vptr option \<times> 'b mem) option" where
  "lpmemcxt_allocate E LPDIRECTORY oldptr sz m =
     (case new_lpdirectory E (oldptr \<bind> as_dir) sz m of
        (d, m) \<Rightarrow> Some (map_option VDir d, m))"
| "lpmemcxt_allocate E LPSEGMENT oldptr sz m = do {
     (s, m) \<leftarrow> alloc_lpsegment E m;
     Some (map_option VSeg s, m) }"
| "lpmemcxt_allocate E LPBUCKET oldptr sz m = do {
     (b, m) \<leftarrow> alloc_lpbucket E m;
     Some (map_option VBkt b, m) }"

fun lpmemcxt_release :: "'b env \<Rightarrow> lpmemtype \<Rightarrow> vptr \<Rightarrow> nat \<Rightarrow> 'b mem \<Rightarrow> 'b mem option" where
  "lpmemcxt_release E LPDIRECTORY (VDir d) sz m = Some (lpmemcxt_munmap d sz m)"
| "lpmemcxt_release E LPSEGMENT (VSeg s) sz m = free_lpsegment E s m"
| "lpmemcxt_release E LPBUCKET (VBkt b) sz m = free_lpbucket E b m"
| "lpmemcxt_release E _ _ sz m = None"

section \<open>Configuration, initialisation and deletion\<close>

text \<open>\<open>lphash_cfg_init\<close> ignores the result of \<open>lpinit_pool_memcxt\<close>.\<close>

definition lphash_cfg_init :: "'b env \<Rightarrow> 'b mem \<Rightarrow> (lphash_cfg \<times> 'b mem) option" where
  "lphash_cfg_init E m = do {
     let m = snd (lpinit_pool_memcxt E m);
     let c = \<lparr>segment_length = LPSEGMENT_LENGTH, initial_directory_length = LPDIRECTORY_LENGTH,
              directory_length_max = UINT32_MAX div LPSEGMENT_LENGTH, bincount_max = UINT32_MAX,
              min_load = 2, max_load = 5, multithreaded = False\<rparr>;
     assert_c (lpis_power_of_two (of_nat (segment_length c)));
     assert_c (lpis_power_of_two (of_nat (initial_directory_length c)));
     let c = (if \<not> lpis_power_of_two (of_nat (segment_length c))
              then c\<lparr>segment_length := unat (lpnext_power_of_two (of_nat (segment_length c)))\<rparr> else c);
     let c = (if \<not> lpis_power_of_two (of_nat (initial_directory_length c))
              then c\<lparr>initial_directory_length := unat (lpnext_power_of_two (of_nat (initial_directory_length c)))\<rparr>
              else c);
     Some (c, m) }"

fun lp_create_segments ::
  "'b env \<Rightarrow> addr option \<Rightarrow> nat \<Rightarrow> nat \<Rightarrow> 'b mem \<Rightarrow> (bool \<times> 'b mem) option" where
  "lp_create_segments E dir index 0 m = Some (True, m)"
| "lp_create_segments E dir index (Suc n) m = do {
     (seg, m) \<leftarrow> lpmemcxt_allocate E LPSEGMENT None sizeof_segment m;
     m \<leftarrow> dir_set m dir index (map_option seg_ptr seg);
     if seg = None then Some (False, m\<lparr>errno := Some ENOMEM\<rparr>)
     else lp_create_segments E dir (Suc index) n m }"

text \<open>
  \<open>init_lphash\<close> on the table \<open>lhtbl\<close> (\<open>None\<close> for \<open>NULL\<close>). The second component of the result is the
  table as far as it has been filled in.
\<close>

definition init_lphash ::
  "'b env \<Rightarrow> lphash option \<Rightarrow> 'b mem \<Rightarrow> (bool \<times> lphash option \<times> 'b mem) option" where
  "init_lphash E lhtbl m =
    (case lhtbl of
       None \<Rightarrow> Some (False, None, m\<lparr>errno := Some EINVAL\<rparr>)
     | Some t \<Rightarrow> do {
         (c, m) \<leftarrow> lphash_cfg_init E m;
         let t = t\<lparr>cfg := c, directory_length := initial_directory_length c, directory_current := 1\<rparr>;
         case lpmul_size (of_nat (directory_length t)) 8 of
           None \<Rightarrow> Some (False, Some t, m\<lparr>errno := Some EINVAL\<rparr>)
         | Some dirsz \<Rightarrow> do {
             (dir, m) \<leftarrow> lpmemcxt_allocate E LPDIRECTORY None (unat dirsz) m;
             let t = t\<lparr>directory := map_option dir_ptr dir\<rparr>;
             if directory t = None then Some (False, Some t, m\<lparr>errno := Some ENOMEM\<rparr>)
             else case lpmul_size (of_nat (segment_length c)) (of_nat (directory_current t)) of
               None \<Rightarrow> Some (False, Some t, m\<lparr>errno := Some EINVAL\<rparr>)
             | Some binsz \<Rightarrow> do {
                 let t = t\<lparr>tN := unat binsz, tL := 0, tp := 0, tcount := 0,
                           maxp := unat binsz, bincount := unat binsz\<rparr>;
                 assert_c (lpis_power_of_two (of_nat (maxp t)));
                 (ok, m) \<leftarrow> lp_create_segments E (directory t) 0 (directory_current t) m;
                 Some (ok, Some t, m) } } })"

partial_function (option) lp_release_chain ::
  "'b env \<Rightarrow> bptr option \<Rightarrow> 'b mem \<Rightarrow> 'b mem option" where
  "lp_release_chain E current_bucket m =
    (case current_bucket of
       None \<Rightarrow> Some m
     | Some b \<Rightarrow> do {
         let next_b = get_next m b;
         m \<leftarrow> lpmemcxt_release E LPBUCKET (VBkt b) (sizeof_bucket E) m;
         lp_release_chain E next_b m })"

fun lp_release_bins :: "'b env \<Rightarrow> sptr \<Rightarrow> nat \<Rightarrow> nat \<Rightarrow> 'b mem \<Rightarrow> 'b mem option" where
  "lp_release_bins E current_segment index 0 m = Some m"
| "lp_release_bins E current_segment index (Suc n) m = do {
     m \<leftarrow> lp_release_chain E (get_bin m (current_segment, index)) m;
     lp_release_bins E current_segment (Suc index) n m }"

fun lp_release_segments ::
  "'b env \<Rightarrow> lphash \<Rightarrow> nat \<Rightarrow> nat \<Rightarrow> 'b mem \<Rightarrow> 'b mem option" where
  "lp_release_segments E lhtbl segindex 0 m = Some m"
| "lp_release_segments E lhtbl segindex (Suc n) m = do {
     slot \<leftarrow> dir_get m (directory lhtbl) segindex;
     current_segment \<leftarrow> slot;
     m \<leftarrow> lp_release_bins E current_segment 0 (segment_length (cfg lhtbl)) m;
     m \<leftarrow> lpmemcxt_release E LPSEGMENT (VSeg current_segment) sizeof_segment m;
     lp_release_segments E lhtbl (Suc segindex) n m }"

definition delete_lphash :: "'b env \<Rightarrow> lphash \<Rightarrow> 'b mem \<Rightarrow> 'b mem option" where
  "delete_lphash E lhtbl m = do {
     m \<leftarrow> lp_release_segments E lhtbl 0 (directory_current lhtbl) m;
     dirsz \<leftarrow> lpmul_size (of_nat (directory_length lhtbl)) 8;
     d \<leftarrow> directory lhtbl;
     lpmemcxt_release E LPDIRECTORY (VDir d) (unat dirsz) m }"

section \<open>Addressing\<close>

definition lphash_bindex :: "lphash \<Rightarrow> u64 \<Rightarrow> nat option" where
  "lphash_bindex lhtbl p = do {
     let jhash = unat (lpjenkins_hash_ptr p);
     l \<leftarrow> lpmod_power_of_two jhash (maxp lhtbl);
     if l < tp lhtbl then do {
       let next_maxp = 2 * maxp lhtbl;
       if next_maxp < bincount_max (cfg lhtbl) then lpmod_power_of_two jhash next_maxp else Some l }
     else Some l }"

definition lpbindex2bin :: "lphash \<Rightarrow> 'b mem \<Rightarrow> nat \<Rightarrow> cell option" where
  "lpbindex2bin lhtbl m bindex = do {
     assert_c (bindex < bincount lhtbl);
     let seglen = segment_length (cfg lhtbl);
     let segindex = bindex div seglen;
     assert_c (segindex < directory_current lhtbl);
     slot \<leftarrow> dir_get m (directory lhtbl) segindex;
     segptr \<leftarrow> slot;
     index \<leftarrow> lpmod_power_of_two bindex seglen;
     Some (segptr, index) }"

definition lphash_fetch_bucket :: "lphash \<Rightarrow> 'b mem \<Rightarrow> u64 \<Rightarrow> cell option" where
  "lphash_fetch_bucket lhtbl m p = do {
     bindex \<leftarrow> lphash_bindex lhtbl p;
     lpbindex2bin lhtbl m bindex }"

section \<open>Expansion\<close>

definition lphash_expand_directory ::
  "'b env \<Rightarrow> lphash \<Rightarrow> 'b mem \<Rightarrow> (bool \<times> lphash \<times> 'b mem) option" where
  "lphash_expand_directory E lhtbl m = do {
     let old_dirlen = directory_length lhtbl;
     assert_c (old_dirlen = directory_current lhtbl);
     let new_dirlen = 2 * old_dirlen;
     assert_c (new_dirlen < directory_length_max (cfg lhtbl));
     let olddir = directory lhtbl;
     case lpmul_size (of_nat new_dirlen) 8 of
       None \<Rightarrow> Some (False, lhtbl, m\<lparr>errno := Some EINVAL\<rparr>)
     | Some new_dirsz \<Rightarrow> do {
         (newdir, m) \<leftarrow> lpmemcxt_allocate E LPDIRECTORY (map_option VDir olddir) (unat new_dirsz) m;
         let newdir = map_option dir_ptr newdir;
         if newdir = None then Some (False, lhtbl, m\<lparr>errno := Some ENOMEM\<rparr>)
         else do {
           (lhtbl, m) \<leftarrow>
             (if newdir \<noteq> olddir then do {
                m \<leftarrow> copy_dir olddir newdir old_dirlen m;
                Some (lhtbl\<lparr>directory := newdir\<rparr>, m) }
              else Some (lhtbl, m));
           let lhtbl = lhtbl\<lparr>directory_length := new_dirlen\<rparr>;
           case lpmul_size (of_nat old_dirlen) 8 of
             None \<Rightarrow> Some (False, lhtbl, m\<lparr>errno := Some EINVAL\<rparr>)
           | Some old_dirsz \<Rightarrow> do {
               d \<leftarrow> olddir;
               m \<leftarrow> lpmemcxt_release E LPDIRECTORY (VDir d) (unat old_dirsz) m;
               Some (True, lhtbl, m) } } } }"

partial_function (option) lp_split_loop ::
  "lphash \<Rightarrow> nat \<Rightarrow> cell \<Rightarrow> cell \<Rightarrow> bptr option \<Rightarrow> bptr option \<Rightarrow> bptr option \<Rightarrow> 'b mem
     \<Rightarrow> 'b mem option" where
  "lp_split_loop lhtbl new_bindex oldbucketp newbin current previous lastofnew m =
    (case current of
       None \<Rightarrow> Some m
     | Some cur \<Rightarrow> do {
         b \<leftarrow> lphash_bindex lhtbl (chunk (bheap m cur));
         if b = new_bindex then do {
           let m = (case lastofnew of None \<Rightarrow> set_bin m newbin current
                                    | Some l \<Rightarrow> set_next m l current);
           let m = (case previous of None \<Rightarrow> set_bin m oldbucketp (get_next m cur)
                                   | Some q \<Rightarrow> set_next m q (get_next m cur));
           let following = get_next m cur;
           let m = set_next m cur None;
           lp_split_loop lhtbl new_bindex oldbucketp newbin following previous current m }
         else
           lp_split_loop lhtbl new_bindex oldbucketp newbin (get_next m cur) current lastofnew m })"

definition lp_ensure_segment ::
  "'b env \<Rightarrow> lphash \<Rightarrow> nat \<Rightarrow> nat \<Rightarrow> 'b mem \<Rightarrow> (bool \<times> lphash \<times> 'b mem) option" where
  "lp_ensure_segment E lhtbl new_segindex newsegindex m = do {
     missing \<leftarrow>
       (if newsegindex = 0 then do { s \<leftarrow> dir_get m (directory lhtbl) new_segindex; Some (s = None) }
        else Some False);
     if missing then do {
       (newseg, m) \<leftarrow> lpmemcxt_allocate E LPSEGMENT None sizeof_segment m;
       if newseg = None then Some (False, lhtbl, m\<lparr>errno := Some ENOMEM\<rparr>)
       else do {
         m \<leftarrow> dir_set m (directory lhtbl) new_segindex (map_option seg_ptr newseg);
         Some (True, lhtbl\<lparr>directory_current := directory_current lhtbl + 1\<rparr>, m) } }
     else Some (True, lhtbl, m) }"

definition lphash_expand_table ::
  "'b env \<Rightarrow> lphash \<Rightarrow> 'b mem \<Rightarrow> (bool \<times> lphash \<times> 'b mem) option" where
  "lphash_expand_table E lhtbl m =
    (case lpadd_size (of_nat (maxp lhtbl)) (of_nat (tp lhtbl)) of
       None \<Rightarrow> Some (False, lhtbl, m\<lparr>errno := Some EINVAL\<rparr>)
     | Some s1 \<Rightarrow> do {
         let new_bindex = unat s1;
         assert_c (new_bindex < bincount_max (cfg lhtbl));
         (success, lhtbl, m) \<leftarrow>
           (if directory_length lhtbl = directory_current lhtbl
            then lphash_expand_directory E lhtbl m else Some (True, lhtbl, m));
         if \<not> success then Some (False, lhtbl, m)
         else if new_bindex < bincount_max (cfg lhtbl) then do {
           oldbucketp \<leftarrow> lpbindex2bin lhtbl m (tp lhtbl);
           let seglen = segment_length (cfg lhtbl);
           let new_segindex = new_bindex div seglen;
           newsegindex \<leftarrow> lpmod_power_of_two new_bindex seglen;
           (success, lhtbl, m) \<leftarrow> lp_ensure_segment E lhtbl new_segindex newsegindex m;
           if \<not> success then Some (False, lhtbl, m)
           else do {
             slot \<leftarrow> dir_get m (directory lhtbl) new_segindex;
             newseg \<leftarrow> slot;
             let lhtbl = advance_p lhtbl;
             let current = get_bin m oldbucketp;
             assert_c (get_bin m (newseg, newsegindex) = None);
             m \<leftarrow> lp_split_loop lhtbl new_bindex oldbucketp (newseg, newsegindex) current None None m;
             Some (True, lhtbl, m) } }
         else Some (True, lhtbl, m) })"

definition lphash_expand_check ::
  "'b env \<Rightarrow> lphash \<Rightarrow> 'b mem \<Rightarrow> (bool \<times> lphash \<times> 'b mem) option" where
  "lphash_expand_check E lhtbl m =
    (if bincount lhtbl < bincount_max (cfg lhtbl) \<and> lphash_load lhtbl > max_load (cfg lhtbl)
     then lphash_expand_table E lhtbl m else Some (True, lhtbl, m))"

section \<open>Contraction\<close>

text \<open>
  Unlike \<open>metadata_contract_directory\<close> it copies the directory without comparing the two addresses.
\<close>

definition lphash_contract_directory ::
  "'b env \<Rightarrow> lphash \<Rightarrow> 'b mem \<Rightarrow> (lphash \<times> 'b mem) option" where
  "lphash_contract_directory E lhtbl m = do {
     let oldlen = directory_length lhtbl;
     let curlen = directory_current lhtbl;
     let newlen = oldlen div 2;
     newsz \<leftarrow> lpmul_size (of_nat newlen) 8;
     oldsz \<leftarrow> lpmul_size (of_nat oldlen) 8;
     assert_c (curlen < newlen);
     let olddir = directory lhtbl;
     (newdir, m) \<leftarrow> lpmemcxt_allocate E LPDIRECTORY (map_option VDir olddir) (unat newsz) m;
     let newdir = map_option dir_ptr newdir;
     m \<leftarrow> copy_dir olddir newdir newlen m;
     let lhtbl = lhtbl\<lparr>directory := newdir, directory_length := newlen\<rparr>;
     d \<leftarrow> olddir;
     m \<leftarrow> lpmemcxt_release E LPDIRECTORY (VDir d) (unat oldsz) m;
     Some (lhtbl, m) }"

definition lp_move_buckets :: "cell \<Rightarrow> cell \<Rightarrow> 'b mem \<Rightarrow> 'b mem option" where
  "lp_move_buckets srcbin tgtbin m =
    (case get_bin m srcbin of
       None \<Rightarrow> Some m
     | Some src \<Rightarrow>
         (case get_bin m tgtbin of
            None \<Rightarrow> Some (set_bin (set_bin m tgtbin (Some src)) srcbin None)
          | Some tgt \<Rightarrow> do {
              tmp \<leftarrow> last_bucket m tgt;
              Some (set_bin (set_next m tmp (Some src)) srcbin None) }))"

definition lphash_contract_table ::
  "'b env \<Rightarrow> lphash \<Rightarrow> 'b mem \<Rightarrow> (lphash \<times> 'b mem) option" where
  "lphash_contract_table E lhtbl m = do {
     (lhtbl, m) \<leftarrow>
       (if directory_length lhtbl > initial_directory_length (cfg lhtbl) \<and>
           directory_current lhtbl < directory_length lhtbl div 2
        then lphash_contract_directory E lhtbl m else Some (lhtbl, m));
     (tgtindex, srcindex) \<leftarrow>
       (if tp lhtbl = 0 then Some (maxp lhtbl div 2 - 1, maxp lhtbl - 1)
        else do {
          s1 \<leftarrow> lpadd_size (of_nat (maxp lhtbl)) (of_nat (tp lhtbl - 1));
          Some (tp lhtbl - 1, unat s1) });
     assert_c (srcindex < bincount lhtbl);
     assert_c (tgtindex < bincount lhtbl);
     srcbin \<leftarrow> lpbindex2bin lhtbl m srcindex;
     tgtbin \<leftarrow> lpbindex2bin lhtbl m tgtindex;
     m \<leftarrow> lp_move_buckets srcbin tgtbin m;
     let seglen = segment_length (cfg lhtbl);
     let segindex = srcindex div seglen;
     r \<leftarrow> lpmod_power_of_two srcindex seglen;
     (lhtbl, m) \<leftarrow>
       (if r = 0 then do {
          slot \<leftarrow> dir_get m (directory lhtbl) segindex;
          s \<leftarrow> slot;
          m \<leftarrow> lpmemcxt_release E LPSEGMENT (VSeg s) sizeof_segment m;
          m \<leftarrow> dir_set m (directory lhtbl) segindex None;
          Some (lhtbl\<lparr>directory_current := directory_current lhtbl - 1\<rparr>, m) }
        else Some (lhtbl, m));
     Some (retreat_p lhtbl, m) }"

definition lphash_contract_check ::
  "'b env \<Rightarrow> lphash \<Rightarrow> 'b mem \<Rightarrow> (lphash \<times> 'b mem) option" where
  "lphash_contract_check E lhtbl m =
    (if tL lhtbl > 0 \<and> lphash_load lhtbl < min_load (cfg lhtbl)
     then lphash_contract_table E lhtbl m else Some (lhtbl, m))"

section \<open>Insertion, lookup and deletion\<close>

text \<open>The bin is fetched before the bucket is allocated.\<close>

definition lphash_insert ::
  "lp_env \<Rightarrow> lphash \<Rightarrow> u64 \<Rightarrow> u64 \<Rightarrow> lp_mem \<Rightarrow> (bool \<times> lphash \<times> lp_mem) option" where
  "lphash_insert E lhtbl key val m = do {
     binp \<leftarrow> lphash_fetch_bucket lhtbl m key;
     (b, m) \<leftarrow> lpmemcxt_allocate E LPBUCKET None (sizeof_bucket E) m;
     case map_option bkt_ptr b of
       None \<Rightarrow> Some (False, lhtbl, m\<lparr>errno := Some ENOMEM\<rparr>)
     | Some newbucket \<Rightarrow> do {
         let m = m\<lparr>bheap := (bheap m)(newbucket := (bheap m newbucket)\<lparr>chunk := key, lpvalue := val\<rparr>)\<rparr>;
         let m = set_next m newbucket (get_bin m binp);
         let m = set_bin m binp (Some newbucket);
         let lhtbl = lhtbl\<lparr>tcount := tcount lhtbl + 1\<rparr>;
         lphash_expand_check E lhtbl m } }"

text \<open>\<open>NULL\<close>, the value returned for an absent key, is \<open>0\<close>.\<close>

partial_function (option) lp_lookup_loop :: "lp_mem \<Rightarrow> u64 \<Rightarrow> bptr option \<Rightarrow> u64 option" where
  "lp_lookup_loop m key bucketp =
    (case bucketp of
       None \<Rightarrow> Some 0
     | Some b \<Rightarrow>
         (if key = chunk (bheap m b) then Some (lpvalue (bheap m b))
          else lp_lookup_loop m key (get_next m b)))"

definition lphash_lookup :: "lphash \<Rightarrow> u64 \<Rightarrow> lp_mem \<Rightarrow> u64 option" where
  "lphash_lookup lhtbl key m = do {
     binp \<leftarrow> lphash_fetch_bucket lhtbl m key;
     lp_lookup_loop m key (get_bin m binp) }"

partial_function (option) lp_delete_loop ::
  "'b env \<Rightarrow> cell \<Rightarrow> u64 \<Rightarrow> bptr option \<Rightarrow> bptr option \<Rightarrow> 'b mem \<Rightarrow> (bool \<times> 'b mem) option" where
  "lp_delete_loop E binp key previous_bucketp current_bucketp m =
    (case current_bucketp of
       None \<Rightarrow> Some (False, m)
     | Some b \<Rightarrow>
         (if key = chunk (bheap m b) then do {
            m \<leftarrow> lpmemcxt_release E LPBUCKET (VBkt b) (sizeof_bucket E)
                  (unlink_bucket m binp previous_bucketp b);
            Some (True, m) }
          else lp_delete_loop E binp key current_bucketp (get_next m b) m))"

definition lphash_delete ::
  "'b env \<Rightarrow> lphash \<Rightarrow> u64 \<Rightarrow> 'b mem \<Rightarrow> (bool \<times> lphash \<times> 'b mem) option" where
  "lphash_delete E lhtbl key m = do {
     binp \<leftarrow> lphash_fetch_bucket lhtbl m key;
     (found, m) \<leftarrow> lp_delete_loop E binp key None (get_bin m binp) m;
     if found then do {
       let lhtbl = lhtbl\<lparr>tcount := tcount lhtbl - 1\<rparr>;
       (lhtbl, m) \<leftarrow> lphash_contract_check E lhtbl m;
       Some (True, lhtbl, m) }
     else Some (False, lhtbl, m) }"

partial_function (option) lp_delete_all_loop ::
  "'b env \<Rightarrow> cell \<Rightarrow> u64 \<Rightarrow> bptr option \<Rightarrow> bptr option \<Rightarrow> nat \<Rightarrow> 'b mem \<Rightarrow> (nat \<times> 'b mem) option" where
  "lp_delete_all_loop E binp key previous_bucketp current_bucketp count m =
    (case current_bucketp of
       None \<Rightarrow> Some (count, m)
     | Some b \<Rightarrow>
         (if key = chunk (bheap m b) then do {
            let following = get_next m b;
            m \<leftarrow> lpmemcxt_release E LPBUCKET (VBkt b) (sizeof_bucket E)
                  (unlink_bucket m binp previous_bucketp b);
            lp_delete_all_loop E binp key previous_bucketp following (count + 1) m }
          else lp_delete_all_loop E binp key current_bucketp (get_next m b) count m))"

definition lphash_delete_all ::
  "'b env \<Rightarrow> lphash \<Rightarrow> u64 \<Rightarrow> 'b mem \<Rightarrow> (nat \<times> lphash \<times> 'b mem) option" where
  "lphash_delete_all E lhtbl key m = do {
     binp \<leftarrow> lphash_fetch_bucket lhtbl m key;
     (count, m) \<leftarrow> lp_delete_all_loop E binp key None (get_bin m binp) 0 m;
     let lhtbl = lhtbl\<lparr>tcount := tcount lhtbl - of_nat count\<rparr>;
     (lhtbl, m) \<leftarrow> (if count > 0 then lphash_contract_check E lhtbl m else Some (lhtbl, m));
     Some (count, lhtbl, m) }"

definition lpbucket_length :: "'b mem \<Rightarrow> bptr option \<Rightarrow> nat option" where
  "lpbucket_length m bucket = length_loop m bucket 0"

end
