(* ===== verification/Lphash_Same.thy ===== *)
theory Lphash_Same
  imports Lphash Metadata_Props
begin

text \<open>
  \<open>lphash.c\<close> and \<open>metadata.c\<close> run the same algorithm: on a well-formed memory every operation of the
  first is equal to its counterpart in the second. The places where the two texts differ are the
  search for a free segment (\<open>lp_find_free\<close> moves on only when \<open>free_count\<close> is zero), the assertion
  that there is a segment pool, and the directory contraction, which copies unconditionally.
\<close>

named_theorems lp_same \<open>lphash functions as metadata functions\<close>

section \<open>Helpers and pools\<close>

lemma lp_arith [lp_same]:
  "lpis_power_of_two = is_power_of_two" "lpmod_power_of_two = mod_power_of_two" "lpadd_size = add_size"
  "lpmul_size = mul_size" "lphash_load = metadata_load" "lpjenkins_hash_ptr = jenkins_hash_ptr"
  by (auto simp: fun_eq_iff lpis_power_of_two_def is_power_of_two_def lpmod_power_of_two_def
      mod_power_of_two_def lpadd_size_def add_size_def lpmul_size_def mul_size_def mul_size_c_def
      lphash_load_def metadata_load_def lpjenkins_hash_ptr_def jenkins_hash_ptr_def
      lpjenkins_hash_uint64_def jenkins_hash_uint64_def Let_def)

lemma lp_mmap [lp_same]: "lpmemcxt_mmap = sri_mmap" "lpmemcxt_munmap = sri_munmap" "new_lpdirectory = sri_mmap"
  by (simp_all add: fun_eq_iff lpmemcxt_mmap_def sri_mmap_def lpmemcxt_munmap_def sri_munmap_def new_lpdirectory_def)

lemma lp_init_pools [lp_same]: "init_lpbucket_pool = init_bucket_pool" "init_lpsegment_pool = init_segment_pool"
  by (simp_all add: fun_eq_iff init_lpbucket_pool_def init_bucket_pool_def init_lpsegment_pool_def
      init_segment_pool_def)

lemma lp_new_pools [lp_same]: "new_lpsegments = new_segments" "new_lpbuckets = new_buckets"
  unfolding fun_eq_iff new_lpsegments_def new_segments_def new_lpbuckets_def new_buckets_def lp_same
  by simp_all

lemma lp_init_memcxt [lp_same]: "lpinit_pool_memcxt = init_memcxt"
  unfolding fun_eq_iff lpinit_pool_memcxt_def init_memcxt_def lp_same by simp

lemma lp_slots [lp_same]: "take_lpslot = take_slot" "give_lpslot = give_slot"
  by (simp_all add: fun_eq_iff take_lpslot_def take_slot_def give_lpslot_def give_slot_def
      get_free_lpbit_def get_free_bit_def lpctz64_def ctz64_def get_lpbit_def get_bit_def set_lpbit_def
      set_bit_c_def clear_lpbit_def clear_bit_c_def BITS_IN_MASK_def)

lemma lp_buckets [lp_same]:
  "alloc_lpbucket = alloc_bucket" "free_lpbucket = free_bucket" "free_lpsegment = free_segment"
  unfolding fun_eq_iff alloc_lpbucket_def alloc_bucket_def free_lpbucket_def free_bucket_def
    free_lpsegment_def free_segment_def lp_same
  by simp_all

lemma scan_masks_total: "ms j < - 1 \<Longrightarrow> s \<le> j \<Longrightarrow> j < s + n \<Longrightarrow> scan_masks ms s n \<noteq> None"
  by (induction ms s n rule: scan_masks.induct) (auto simp: le_Suc_eq less_Suc_eq_le split: if_splits,
      metis Suc_leI add_Suc le_neq_implies_less)

text \<open>A pool that counts a free slot has a clear bit.\<close>

lemma pool_ok_scan:
  assumes "pool_ok pl n" and "free_count pl > 0"
  shows "scan_masks (bitmasks pl) 0 n \<noteq> None"
proof -
  have "free_set pl n \<noteq> {}" using assms by (auto simp: pool_ok_def card_gt_0_iff)
  then obtain i where i: "i < n * 64" "\<not> bit (bitmasks pl (i div 64)) (i mod 64)"
    by (auto simp: free_set_def slot_used_def)
  have "bitmasks pl (i div 64) \<noteq> - 1"
  proof
    assume "bitmasks pl (i div 64) = - 1"
    with i(2) show False by simp
  qed
  then have "bitmasks pl (i div 64) < - 1" by (simp add: word_order.not_eq_extremum)
  moreover have "i div 64 < n" using i(1) by (simp add: less_mult_imp_div_less)
  ultimately show ?thesis using scan_masks_total [of "bitmasks pl" "i div 64" 0 n] by simp
qed

lemma lp_find_free_eq:
  assumes "family_ok R pools first n"
  shows "lp_find_free pools n first = find_free pools n first"
proof -
  have "chain (pool_links pools) first ps \<Longrightarrow> (\<And>p. p \<in> set ps \<Longrightarrow> pool_ok (pools p) n) \<Longrightarrow>
      lp_find_free pools n first = find_free pools n first" for ps
  proof (induction ps arbitrary: first)
    case Nil
    then show ?case by (simp add: find_free.simps lp_find_free.simps)
  next
    case (Cons p ps)
    then have "first = Some p" and "lp_find_free pools n (next_pool (pools p)) = find_free pools n (next_pool (pools p))"
      by auto
    then show ?case
      using pool_ok_scan [of "pools p" n] Cons.prems(2) [of p]
      by (subst find_free.simps, subst lp_find_free.simps) (auto split: option.splits)
  qed
  then show ?thesis using assms by (metis family_okE)
qed

lemma lp_segments: "memcxt_ok E m \<Longrightarrow> alloc_lpsegment E m = alloc_segment E m"
  using memcxt_ok_env(6) [of E m] lp_find_free_eq [OF memcxt_ok_families(2), of E m]
  unfolding alloc_lpsegment_def alloc_segment_def lp_same by simp

lemma lp_allocate_directory [lp_same]: "lpmemcxt_allocate E LPDIRECTORY = memcxt_allocate E DIRECTORY"
  by (simp add: fun_eq_iff lp_same)

lemma lp_allocate:
  "memcxt_ok E m \<Longrightarrow> lpmemcxt_allocate E LPSEGMENT None sz m = memcxt_allocate E SEGMENT None sz m"
  "lpmemcxt_allocate E LPBUCKET None sz m = memcxt_allocate E BUCKET None sz m"
  by (simp_all add: lp_same lp_segments)

fun memtype_of :: "lpmemtype \<Rightarrow> memtype" where
  "memtype_of LPDIRECTORY = DIRECTORY"
| "memtype_of LPSEGMENT = SEGMENT"
| "memtype_of LPBUCKET = BUCKET"

lemma lp_release [lp_same, simp]: "lpmemcxt_release E ty p sz m = memcxt_release E (memtype_of ty) p sz m"
  by (cases ty; cases p) (simp_all add: lp_same)

section \<open>Loops\<close>

lemma option_eqI: "(\<And>y. f = Some y \<Longrightarrow> g = Some y) \<Longrightarrow> (\<And>y. g = Some y \<Longrightarrow> f = Some y) \<Longrightarrow> f = g"
  by (cases f; cases g) auto

lemma lp_release_chain_eq [lp_same]: "lp_release_chain = release_chain"
proof (intro ext, rule option_eqI)
  show "release_chain E c m = Some y" if "lp_release_chain E c m = Some y" for E c m y
    by (rule lp_release_chain.raw_induct [OF _ that])
      (subst release_chain.simps, auto split: option.splits bind_splits)
  show "lp_release_chain E c m = Some y" if "release_chain E c m = Some y" for E c m y
    by (rule release_chain.raw_induct [OF _ that])
      (subst lp_release_chain.simps, auto split: option.splits bind_splits)
qed

lemma lp_delete_loop_eq [lp_same]: "lp_delete_loop = delete_loop"
proof (intro ext, rule option_eqI)
  show "delete_loop E c k p q m = Some y" if "lp_delete_loop E c k p q m = Some y" for E c k p q m y
    by (rule lp_delete_loop.raw_induct [OF _ that])
      (subst delete_loop.simps, auto split: option.splits if_splits)
  show "lp_delete_loop E c k p q m = Some y" if "delete_loop E c k p q m = Some y" for E c k p q m y
    by (rule delete_loop.raw_induct [OF _ that])
      (subst lp_delete_loop.simps, auto split: option.splits if_splits)
qed

lemma lp_delete_all_loop_eq [lp_same]: "lp_delete_all_loop = delete_all_loop"
proof (intro ext, rule option_eqI)
  show "delete_all_loop E c k p q n m = Some y" if "lp_delete_all_loop E c k p q n m = Some y" for E c k p q n m y
    by (rule lp_delete_all_loop.raw_induct [OF _ that])
      (subst delete_all_loop.simps, auto split: option.splits if_splits bind_splits)
  show "lp_delete_all_loop E c k p q n m = Some y" if "delete_all_loop E c k p q n m = Some y" for E c k p q n m y
    by (rule delete_all_loop.raw_induct [OF _ that])
      (subst lp_delete_all_loop.simps, auto split: option.splits if_splits bind_splits)
qed

lemma lp_release_bins_eq [lp_same]: "lp_release_bins = release_bins"
proof (intro ext)
  show "lp_release_bins E s i n m = release_bins E s i n m" for E s i n m
    by (induction E s i n m rule: release_bins.induct) (auto simp: lp_same intro: Option.bind_cong)
qed

lemma lp_release_segments_eq [lp_same]: "lp_release_segments = release_segments"
proof (intro ext)
  show "lp_release_segments E t i n m = release_segments E t i n m" for E t i n m
    by (induction E t i n m rule: release_segments.induct)
      (auto simp: lp_same intro!: Option.bind_cong)
qed

lemma delete_lphash_eq [lp_same]: "delete_lphash = delete_metadata"
  unfolding fun_eq_iff delete_lphash_def delete_metadata_def lp_same by simp

section \<open>Addressing\<close>

abbreviation lp_hash :: "'b env \<Rightarrow> bool" where
  "lp_hash E \<equiv> hash_ptr E = jenkins_hash_ptr"

lemma lphash_bindex_eq: "lp_hash E \<Longrightarrow> lphash_bindex = metadata_bindex E"
  unfolding fun_eq_iff lphash_bindex_def metadata_bindex_def lp_same by simp

lemma lpbindex2bin_eq [lp_same]: "lpbindex2bin = bindex2bin"
  unfolding fun_eq_iff lpbindex2bin_def bindex2bin_def lp_same by simp

lemma lphash_fetch_bucket_eq: "lp_hash E \<Longrightarrow> lphash_fetch_bucket = metadata_fetch_bucket E"
  by (intro ext) (simp add: lphash_fetch_bucket_def metadata_fetch_bucket_def lp_same lphash_bindex_eq)

lemma lp_split_loop_eq:
  assumes "lp_hash E"
  shows "lp_split_loop = split_loop E"
proof (intro ext, rule option_eqI)
  show "split_loop E t n o' nb c p l m = Some y" if "lp_split_loop t n o' nb c p l m = Some y" for t n o' nb c p l m y
    by (rule lp_split_loop.raw_induct [OF _ that])
      (subst split_loop.simps,
        auto simp: lphash_bindex_eq [OF assms] Let_def split: option.splits if_splits bind_splits)
  show "lp_split_loop t n o' nb c p l m = Some y" if "split_loop E t n o' nb c p l m = Some y" for t n o' nb c p l m y
  proof -
    have "lp_hash E \<longrightarrow> lp_split_loop t n o' nb c p l m = Some y"
      by (rule split_loop.raw_induct [OF _ that])
        (intro impI, subst lp_split_loop.simps,
          auto simp: lphash_bindex_eq Let_def split: option.splits if_splits bind_splits)
    then show ?thesis using assms by simp
  qed
qed

section \<open>Resizing\<close>

lemma lphash_expand_directory_eq [lp_same]: "lphash_expand_directory = metadata_expand_directory"
  unfolding fun_eq_iff lphash_expand_directory_def metadata_expand_directory_def lp_same memtype_of.simps
  by simp

lemma lp_ensure_segment_eq:
  "memcxt_ok E m \<Longrightarrow> lp_ensure_segment E t i j m = ensure_segment E t i j m"
  by (simp add: lp_ensure_segment_def ensure_segment_def lp_segments cong: if_cong)

lemma lphash_expand_table_eq:
  assumes rep: "table_rep E t m B" and room: "bincount t \<le> 2 ^ 31 - 256" and h: "lp_hash E"
  shows "lphash_expand_table E t m = metadata_expand_table E t m"
proof (cases "add_size (of_nat (maxp t)) (of_nat (tp t))")
  case None
  then show ?thesis by (simp add: lphash_expand_table_def metadata_expand_table_def lp_same)
next
  case (Some s1)
  show ?thesis
    unfolding lphash_expand_table_def metadata_expand_table_def lp_same lp_split_loop_eq [OF h]
      grow_directory_def [symmetric] Some
    by (rule grow_directory_cases [OF rep room])
      (auto simp: lp_ensure_segment_eq stays_def dest!: table_repD(1) cong: if_cong)
qed

lemma lphash_expand_check_eq:
  assumes "table_rep E t m B" and "bincount t \<le> 2 ^ 31 - 256" and "lp_hash E"
  shows "lphash_expand_check E t m = metadata_expand_check E t m"
  using lphash_expand_table_eq [OF assms] by (simp add: lphash_expand_check_def metadata_expand_check_def lp_same)

lemma lphash_contract_directory_eq:
  assumes rep: "table_rep E t m B"
  shows "lphash_contract_directory E t m = metadata_contract_directory E t m"
proof -
  note R = table_repD [OF rep]
  obtain d where d: "directory t = Some d" "d \<in> regions m" using R(4) by (rule dir_okD)
  let ?sz = "unat (of_nat (directory_length t div 2 * 8) :: u64)"
  have le: "directory_length t \<le> 2 ^ 24" "directory_length t div 2 \<le> 2 ^ 24"
    using shapeD(10) [OF R(3)] by simp_all
  show ?thesis
    by (rule sri_mmap_cases [OF memcxt_ok_env(2) [OF R(1)], of "Some d" ?sz m])
      (use d in \<open>auto simp: lphash_contract_directory_def metadata_contract_directory_def lp_same
        mul_size_8 [OF le(1)] mul_size_8 [OF le(2)] Let_def\<close>)
qed

lemma lp_move_buckets_eq [lp_same]: "lp_move_buckets = move_buckets"
  unfolding fun_eq_iff lp_move_buckets_def move_buckets_def by simp

lemma lphash_contract_table_eq:
  assumes "table_rep E t m B"
  shows "lphash_contract_table E t m = metadata_contract_table E t m"
  unfolding lphash_contract_table_def metadata_contract_table_def lp_same
    lphash_contract_directory_eq [OF assms] memtype_of.simps by simp

lemma lphash_contract_check_eq:
  "table_rep E t m B \<Longrightarrow> lphash_contract_check E t m = metadata_contract_check E t m"
  by (simp add: lphash_contract_check_def metadata_contract_check_def lphash_contract_table_eq lp_same)

section \<open>Deletion\<close>

text \<open>The check after a deletion meets a well-formed table, so the operations agree to the end.\<close>

lemma lphash_delete_eq:
  assumes rep: "represents E t m c" and h: "lp_hash E"
  shows "lphash_delete E t k m = metadata_delete E t k m"
proof -
  obtain B where B: "table_rep E t m B" using rep by (rule representsE)
  note fetch = fetch_bucket_eq [OF table_repD(3,4) [OF B], of k]
  from delete_raw [OF rep, of k] show ?thesis
    by (elim disjE exE conjE)
      (auto simp: lphash_delete_def metadata_delete_def fetch lphash_fetch_bucket_eq [OF h] lp_same
        lphash_contract_check_eq)
qed

lemma lphash_delete_all_eq:
  assumes rep: "represents E t m c" and h: "lp_hash E"
  shows "lphash_delete_all E t k m = metadata_delete_all E t k m"
proof -
  obtain B where B: "table_rep E t m B" using rep by (rule representsE)
  note fetch = fetch_bucket_eq [OF table_repD(3,4) [OF B], of k]
  from delete_all_raw [OF rep, of k] show ?thesis
    by (elim exE conjE)
      (auto simp: lphash_delete_all_def metadata_delete_all_def fetch lphash_fetch_bucket_eq [OF h] lp_same
        lphash_contract_check_eq Let_def)
qed

end
