(* ===== verification/Lphash_Props.thy ===== *)
theory Lphash_Props
  imports Lphash_Same
begin

text \<open>
  What \<open>lphash.c\<close> promises its client: a map from keys to stacks of values. The abstraction
  \<open>lp_represents\<close> reads the values out of the buckets of each key; every operation is proved against
  it, through resizing, and the locale \<open>value_table\<close> lifts this to runs of requests.
\<close>

section \<open>The abstraction\<close>

definition lp_represents :: "lp_env \<Rightarrow> lphash \<Rightarrow> lp_mem \<Rightarrow> (u64 \<Rightarrow> u64 list) \<Rightarrow> bool" where
  "lp_represents E t m f \<longleftrightarrow>
     lp_hash E \<and> (\<exists>c. represents E t m c \<and> (\<forall>k. f k = map (\<lambda>r. lpvalue (bheap m r)) (c k)))"

lemma lp_representsE:
  assumes "lp_represents E t m f"
  obtains c where "lp_hash E" and "represents E t m c" and "f = (\<lambda>k. map (\<lambda>r. lpvalue (bheap m r)) (c k))"
  using assms by (auto simp: lp_represents_def)

lemma unlinked_value:
  fixes b b' :: lpbucket
  shows "b'\<lparr>next_bucket := None\<rparr> = b\<lparr>next_bucket := None\<rparr> \<Longrightarrow> lpvalue b' = lpvalue b"
  by (metis lpbucket.select_convs(1) lpbucket.surjective lpbucket.update_convs(1) bucket.update_convs(2))

section \<open>Lookup\<close>

lemma lp_lookup_loop_correct:
  "chain (get_next m) p rs \<Longrightarrow> lp_lookup_loop m k p =
     Some (case filter (\<lambda>r. chunk (bheap m r) = k) rs of [] \<Rightarrow> 0 | r # _ \<Rightarrow> lpvalue (bheap m r))"
proof (induction rs arbitrary: p)
  case Nil
  then show ?case by (simp add: lp_lookup_loop.simps)
next
  case (Cons r rs)
  then show ?case by (subst lp_lookup_loop.simps) auto
qed

lemma lphash_lookup_run:
  assumes "lp_represents E t m f"
  shows "lphash_lookup t k m = Some (case f k of [] \<Rightarrow> 0 | v # _ \<Rightarrow> v)"
proof -
  obtain c where c: "lp_hash E" "represents E t m c" "f = (\<lambda>k. map (\<lambda>r. lpvalue (bheap m r)) (c k))"
    using assms by (rule lp_representsE)
  obtain B where B: "table_rep E t m B" "c = key_list E t m B" using c(2) by (rule representsE)
  note R = table_repD [OF B(1)]
  have b: "key_bin E t k < 256 * directory_current t"
    using key_bin_less [OF R(3), of E k] current_bound(1) [OF R(3)] by linarith
  show ?thesis
    using lp_lookup_loop_correct [OF bins_okD(1) [OF R(5) b], of k]
    by (simp add: lphash_lookup_def lphash_fetch_bucket_eq [OF c(1)] fetch_bucket_eq [OF R(3,4)] c(3)
        B(2) key_list_def split: list.splits)
qed

section \<open>Insertion\<close>

lemma fresh_bucket:
  assumes rep: "represents E t m c" and a: "alloc_bucket E m = Some (Some r, m1)"
  shows "represents E t m1 c" and "\<And>k. r \<notin> set (c k)" and "kept E m m1" and "r \<in> live_buckets E m1"
    and "cell_of t m1 = cell_of t m"
proof -
  obtain B where B: "table_rep E t m B" "c = key_list E t m B" using rep by (rule representsE)
  note R = table_repD [OF B(1)]
  have "represents E t m1 c \<and> (\<forall>k. r \<notin> set (c k)) \<and> kept E m m1 \<and> r \<in> live_buckets E m1 \<and> cell_of t m1 = cell_of t m"
  proof (rule alloc_bucket_cases [OF R(1)])
    fix r' m' assume s: "alloc_bucket E m = Some (Some r', m')" "memcxt_ok E m'" "r' \<notin> live_buckets E m"
      "live_buckets E m' = insert r' (live_buckets E m)" "live_segments E m' = live_segments E m"
      "segment_pools m' = segment_pools m" "grows m m'" "bucket_pools m' \<subseteq> bucket_pools m \<union> - regions m"
    have "sheap m' x = sheap m x" if "spool_of x \<in> segment_pools m" for x
      using s(7) that segment_pools_mapped [OF R(1)] by (auto simp: grows_def)
    then have "free_segments_clear E m'" using R(2) s(5,6) by (simp add: free_segments_clear_def)
    then have T: "table_rep E t m' B" "key_list E t m' B = key_list E t m B" "kept E m m'" "cell_of t m' = cell_of t m"
      using table_rep_grows [OF B(1) s(7,2)] s by auto
    moreover have "r' \<notin> set (c k)" for k using represents_ok(4) [OF rep] s(3) by blast
    moreover have "represents E t m' c" using T(1,2) B(2) by (intro representsI [of _ _ _ B]) simp_all
    moreover have "r' = r" "m' = m1" using a s(1) by simp_all
    ultimately show ?thesis using s(4) by simp
  qed (use a in auto)
  then show "represents E t m1 c" and "\<And>k. r \<notin> set (c k)" and "kept E m m1" and "r \<in> live_buckets E m1"
    and "cell_of t m1 = cell_of t m" by auto
qed

lemma lphash_insert_run:
  assumes rep: "lp_represents E t m f" and room: "bincount t \<le> 2 ^ 31 - 256"
  shows "lphash_insert E t k v m = Some (False, t, m\<lparr>errno := Some ENOMEM\<rparr>) \<and> \<not> mmap_total E \<or>
    (\<exists>ok t' m'. lphash_insert E t k v m = Some (ok, t', m') \<and> lp_represents E t' m' (f(k := v # f k)) \<and>
       bincount t' \<le> bincount t + 1 \<and> (\<not> ok \<longrightarrow> errno m' = Some ENOMEM \<and> \<not> mmap_total E))"
proof -
  obtain c where c: "lp_hash E" "represents E t m c" "f = (\<lambda>k. map (\<lambda>r. lpvalue (bheap m r)) (c k))"
    using rep by (rule lp_representsE)
  obtain B where B: "table_rep E t m B" "c = key_list E t m B" using c(2) by (rule representsE)
  note R = table_repD [OF B(1)]
  let ?cell = "cell_of t m (key_bin E t k)" and ?t1 = "t\<lparr>tcount := tcount t + 1\<rparr>"
  have fetch: "lphash_fetch_bucket t m k = Some ?cell"
    using fetch_bucket_eq [OF R(3,4)] by (simp add: lphash_fetch_bucket_eq [OF c(1)])
  show ?thesis
  proof (rule alloc_bucket_represents [OF c(2)])
    assume "alloc_bucket E m = Some (None, m)" "\<not> mmap_total E"
    then show ?thesis by (simp add: lphash_insert_def fetch lp_buckets)
  next
    fix r m1 assume a: "alloc_bucket E m = Some (Some r, m1)"
    note F = fresh_bucket [OF c(2) a]
    define b where "b = (bheap m1 r)\<lparr>chunk := k, lpvalue := v\<rparr>"
    define m2 where "m2 = m1\<lparr>bheap := (bheap m1)(r := b)\<rparr>"
    have rep2: "represents E t m2 c"
      unfolding m2_def by (rule represents_bucket_upd [OF F(1,2)]) (simp add: b_def)
    have r2: "r \<in> live_buckets E m2" "chunk (bheap m2 r) = k" "lpvalue (bheap m2 r) = v"
      using F(4) by (simp_all add: m2_def b_def live_buckets_def)
    have cell2: "cell_of t m2 = cell_of t m"
      using F(5) by (simp add: m2_def cell_of_def seg_at_def fun_eq_iff)
    obtain m3 B3 where m3: "table_rep E ?t1 m3 B3" "key_list E ?t1 m3 B3 = c(k := r # c k)"
      "live_buckets E m3 = live_buckets E m2" "kept E m2 m3"
      "m3 = set_bin (set_next m2 r (get_bin m2 ?cell)) ?cell (Some r)"
      using add_raw [OF rep2 r2(1) F(2)] by (auto simp: r2(2) cell2 Let_def)
    have "lphash_insert E t k v m = metadata_expand_check E ?t1 m3"
      using a lphash_expand_check_eq [OF m3(1) _ c(1)] room m3(5)
      by (simp add: lphash_insert_def fetch lp_buckets b_def m2_def Let_def)
    moreover obtain ok t' m' B' where st: "metadata_expand_check E ?t1 m3 = Some (ok, t', m')"
      "stays E ?t1 m3 B3 t' m' B'" "bincount t' \<le> bincount t + 1"
      "\<not> ok \<longrightarrow> errno m' = Some ENOMEM \<and> \<not> mmap_total E"
      using expand_check_correct [OF m3(1)] room by auto
    moreover have "lp_represents E t' m' (f(k := v # f k))"
    proof -
      have "represents E t' m' (c(k := r # c k))" using represents_stays [OF st(2)] m3(2) by simp
      moreover have kept': "lpvalue (bheap m' s) = lpvalue (bheap m2 s)" if "s \<in> live_buckets E m2" for s
        using that m3(3,4) st(2) by (intro unlinked_value) (auto simp: kept_def stays_def)
      moreover have "lpvalue (bheap m2 s) = lpvalue (bheap m s)" if "s \<in> set (c j)" for s j
        using F(2) [of j] F(3) that represents_ok(4) [OF c(2) that]
        by (intro unlinked_value) (auto simp: kept_def m2_def)
      moreover have "s \<in> live_buckets E m2" if "s \<in> set (c j)" for s j
        using represents_ok(4) [OF rep2 that] by simp
      ultimately show ?thesis
        unfolding lp_represents_def using c(1,3) r2(1,3)
        by (intro conjI exI [of _ "c(k := r # c k)"]) auto
    qed
    ultimately show ?thesis by (intro disjI2 exI [of _ ok] exI [of _ t'] exI [of _ m']) simp
  qed
qed

section \<open>Deletion\<close>

lemma lp_represents_upd:
  assumes "lp_hash E" and "represents E t' m' c'" and "\<And>r. r \<in> live_buckets E m' \<Longrightarrow> lpvalue (bheap m' r) = lpvalue (bheap m r)"
    and "\<And>k. f' k = map (\<lambda>r. lpvalue (bheap m r)) (c' k)"
  shows "lp_represents E t' m' f'"
  unfolding lp_represents_def
proof (intro conjI exI)
  show "\<forall>k. f' k = map (\<lambda>r. lpvalue (bheap m' r)) (c' k)"
    using assms(3,4) represents_ok(4) [OF assms(2)] by (simp add: map_eq_conv)
qed (use assms in auto)

lemma lphash_delete_run:
  assumes rep: "lp_represents E t m f" and sh: "can_shrink E t"
  shows "\<exists>t' m'. lphash_delete E t k m = Some (f k \<noteq> [], t', m') \<and> lp_represents E t' m' (f(k := tl (f k)))
    \<and> bincount t' \<le> bincount t \<and> can_shrink E t'"
proof -
  obtain c where c: "lp_hash E" "represents E t m c" "f = (\<lambda>k. map (\<lambda>r. lpvalue (bheap m r)) (c k))"
    using rep by (rule lp_representsE)
  obtain t' m' where d: "metadata_delete E t k m = Some (c k \<noteq> [], t', m')" "represents E t' m' (c(k := tl (c k)))"
    "bincount t' \<le> bincount t" "can_shrink E t'"
    "\<forall>r \<in> live_buckets E m'. (bheap m' r)\<lparr>next_bucket := None\<rparr> = (bheap m r)\<lparr>next_bucket := None\<rparr>"
    using delete_correct [OF c(2) sh, of k] by blast
  have "lp_represents E t' m' (f(k := tl (f k)))"
    by (rule lp_represents_upd [OF c(1) d(2), where m = m]) (use d(5) c(3) in \<open>auto simp: map_tl intro: unlinked_value\<close>)
  then show ?thesis using d c(3) lphash_delete_eq [OF c(2,1)] by auto
qed

lemma lphash_delete_all_run:
  assumes rep: "lp_represents E t m f" and sh: "can_shrink E t"
  shows "\<exists>t' m'. lphash_delete_all E t k m = Some (length (f k), t', m') \<and> lp_represents E t' m' (f(k := []))
    \<and> bincount t' \<le> bincount t \<and> can_shrink E t'"
proof -
  obtain c where c: "lp_hash E" "represents E t m c" "f = (\<lambda>k. map (\<lambda>r. lpvalue (bheap m r)) (c k))"
    using rep by (rule lp_representsE)
  obtain t' m' where d: "metadata_delete_all E t k m = Some (length (c k), t', m')" "represents E t' m' (c(k := []))"
    "bincount t' \<le> bincount t" "can_shrink E t'"
    "\<forall>r \<in> live_buckets E m'. (bheap m' r)\<lparr>next_bucket := None\<rparr> = (bheap m r)\<lparr>next_bucket := None\<rparr>"
    using delete_all_correct [OF c(2) sh, of k] by blast
  have "lp_represents E t' m' (f(k := []))"
    by (rule lp_represents_upd [OF c(1) d(2), where m = m]) (use d(5) c(3) in \<open>auto intro: unlinked_value\<close>)
  then show ?thesis using d c(3) lphash_delete_all_eq [OF c(2,1)] by auto
qed

section \<open>Initialisation\<close>

definition lphash_cfg0 :: lphash_cfg where
  "lphash_cfg0 = \<lparr>segment_length = 256, initial_directory_length = 1024,
     directory_length_max = UINT32_MAX div 256, bincount_max = UINT32_MAX,
     min_load = 2, max_load = 5, multithreaded = False\<rparr>"

lemma lphash_cfg_init_eq: "lphash_cfg_init E m = Some (lphash_cfg0, snd (init_memcxt E m))"
  by (simp add: lphash_cfg_init_def lphash_cfg0_def lp_same LPSEGMENT_LENGTH_def LPDIRECTORY_LENGTH_def)

text \<open>After the pools have been set up, \<open>init_lphash\<close> runs as \<open>init_table\<close> does.\<close>

lemma init_lphash_eq:
  assumes "memcxt_ok E (snd (init_memcxt E m))"
  shows "init_lphash E (Some t) m =
    (init_table E lphash_cfg0 1 t (snd (init_memcxt E m)) \<bind> (\<lambda>(ok, t, m). Some (ok, Some t, m)))"
proof -
  let ?m = "snd (init_memcxt E m)"
  show ?thesis
  proof (rule allocate_directory_cases [OF assms, of None "8192"])
    assume "memcxt_allocate E DIRECTORY None (8192) ?m = Some (None, ?m)"
    then show ?thesis
      by (simp add: init_lphash_def init_table_def lphash_cfg_init_eq lp_same lphash_cfg0_def mul_size_def
          mul_size_c_def)
  next
    fix a assume a: "memcxt_allocate E DIRECTORY None (8192) ?m =
        Some (Some (VDir a), map_region E a (8192) ?m)" "a \<notin> regions ?m"
    have ok: "memcxt_ok E (map_region E a (8192) ?m)" using map_region_ok(1) [OF assms a(2)] .
    show ?thesis
      using a
      by (simp add: init_lphash_def init_table_def lphash_cfg_init_eq lp_same lphash_cfg0_def mul_size_def
          mul_size_c_def lp_segments [OF ok] case_prod_unfold cong: if_cong)
  qed
qed

lemma init_lphash_run:
  assumes E: "env_ok E" "lp_hash E" "mmap_total E" and fin: "finite (regions m)"
  shows "\<exists>t' m'. init_lphash E (Some t) m = Some (True, Some t', m') \<and> lp_represents E t' m' (\<lambda>_. []) \<and>
    bincount t' = 256 \<and> can_shrink E t'"
proof -
  obtain m1 where m1: "init_memcxt E m = (True, m1)" "memcxt_ok E m1" "free_segments_clear E m1"
    by (rule init_memcxt_cases [OF E(1) fin]) (use init_memcxt_total [OF E(1) fin E(3)] in auto)
  have "\<exists>t' m'. init_table E lphash_cfg0 1 t m1 = Some (True, t', m') \<and> represents E t' m' (\<lambda>_. []) \<and>
       directory_length t' = 1024 \<and> bincount t' = 256"
    using init_table_correct [OF m1(2,3), of lphash_cfg0 t] E(3) by (auto simp: lphash_cfg0_def)
  then obtain t' m' where "init_table E lphash_cfg0 1 t m1 = Some (True, t', m')" "represents E t' m' (\<lambda>_. [])"
    "directory_length t' = 1024" "bincount t' = 256" by blast
  then show ?thesis
    using init_lphash_eq [of E m t] m1 E(2) by (auto simp: lp_represents_def can_shrink_def)
qed

section \<open>The interface\<close>

datatype ('k, 'v) lp_request = LpInsert 'k 'v | LpLookup 'k | LpDelete 'k | LpDeleteAll 'k

datatype 'v lp_answer = Flag bool | Found 'v | Number nat

fun lp_spec_step :: "'v \<Rightarrow> ('k, 'v) lp_request \<Rightarrow> ('k \<Rightarrow> 'v list) \<Rightarrow> 'v lp_answer \<times> ('k \<Rightarrow> 'v list)" where
  "lp_spec_step z (LpInsert k v) f = (Flag True, f(k := v # f k))"
| "lp_spec_step z (LpLookup k) f = (Found (case f k of [] \<Rightarrow> z | v # _ \<Rightarrow> v), f)"
| "lp_spec_step z (LpDelete k) f = (Flag (f k \<noteq> []), f(k := tl (f k)))"
| "lp_spec_step z (LpDeleteAll k) f = (Number (length (f k)), f(k := []))"

fun lp_spec_run :: "'v \<Rightarrow> ('k, 'v) lp_request list \<Rightarrow> ('k \<Rightarrow> 'v list) \<Rightarrow> 'v lp_answer list" where
  "lp_spec_run z [] f = []"
| "lp_spec_run z (q # qs) f = (case lp_spec_step z q f of (a, f') \<Rightarrow> a # lp_spec_run z qs f')"

text \<open>A provider answers one request at a time and promises room for a number of insertions.\<close>

fun serve_all :: "('q \<Rightarrow> 's \<Rightarrow> ('a \<times> 's) option) \<Rightarrow> 'q list \<Rightarrow> 's \<Rightarrow> ('a list \<times> 's) option" where
  "serve_all step [] s = Some ([], s)"
| "serve_all step (q # qs) s = do { (a, s) \<leftarrow> step q s; (as, s) \<leftarrow> serve_all step qs s; Some (a # as, s) }"

locale value_table =
  fixes rep :: "'s \<Rightarrow> ('k \<Rightarrow> 'v list) \<Rightarrow> bool"
    and room :: "'s \<Rightarrow> nat"
    and step :: "('k, 'v) lp_request \<Rightarrow> 's \<Rightarrow> ('v lp_answer \<times> 's) option"
    and none :: 'v
  assumes step_law: "rep s f \<Longrightarrow> 0 < room s \<Longrightarrow>
    \<exists>s'. step q s = Some (fst (lp_spec_step none q f), s') \<and> rep s' (snd (lp_spec_step none q f)) \<and>
      room s \<le> Suc (room s')"
begin

lemma serves: "rep s f \<Longrightarrow> length qs \<le> room s \<Longrightarrow>
    \<exists>s' f'. serve_all step qs s = Some (lp_spec_run none qs f, s') \<and> rep s' f'"
proof (induction qs arbitrary: s f)
  case (Cons q qs)
  have pos: "0 < room s" using Cons.prems(2) by simp
  obtain s1 where s1: "step q s = Some (fst (lp_spec_step none q f), s1)"
    "rep s1 (snd (lp_spec_step none q f))" "room s \<le> Suc (room s1)"
    using step_law [OF Cons.prems(1) pos, of q] by blast
  have "length qs \<le> room s1" using s1(3) Cons.prems(2) by simp
  with Cons.IH [OF s1(2)] s1(1) show ?case by (auto split: prod.splits)
qed auto

end

fun lphash_serve :: "lp_env \<Rightarrow> (u64, u64) lp_request \<Rightarrow> lphash \<times> lp_mem \<Rightarrow> (u64 lp_answer \<times> lphash \<times> lp_mem) option" where
  "lphash_serve E (LpInsert k v) s = do { (b, s) \<leftarrow> lphash_insert E (fst s) k v (snd s); Some (Flag b, s) }"
| "lphash_serve E (LpLookup k) s = do { v \<leftarrow> lphash_lookup (fst s) k (snd s); Some (Found v, s) }"
| "lphash_serve E (LpDelete k) s = do { (b, s) \<leftarrow> lphash_delete E (fst s) k (snd s); Some (Flag b, s) }"
| "lphash_serve E (LpDeleteAll k) s = do { (n, s) \<leftarrow> lphash_delete_all E (fst s) k (snd s); Some (Number n, s) }"

definition lp_state :: "lp_env \<Rightarrow> lphash \<times> lp_mem \<Rightarrow> (u64 \<Rightarrow> u64 list) \<Rightarrow> bool" where
  "lp_state E s f \<longleftrightarrow> lp_represents E (fst s) (snd s) f \<and> mmap_total E"

definition lp_room :: "lphash \<times> lp_mem \<Rightarrow> nat" where
  "lp_room s = 2 ^ 31 - 255 - bincount (fst s)"

interpretation lp: value_table "lp_state E" lp_room "lphash_serve E" 0
proof unfold_locales
  fix s f q
  assume "lp_state E s f" and pos: "0 < lp_room s"
  then have rep: "lp_represents E (fst s) (snd s) f" and tot: "mmap_total E" by (simp_all add: lp_state_def)
  have sh: "can_shrink E (fst s)" using tot by (simp add: can_shrink_def)
  have room: "bincount (fst s) \<le> 2 ^ 31 - 256" using pos by (simp add: lp_room_def)
  show "\<exists>s'. lphash_serve E q s = Some (fst (lp_spec_step 0 q f), s') \<and>
      lp_state E s' (snd (lp_spec_step 0 q f)) \<and> lp_room s \<le> Suc (lp_room s')"
  proof (cases q)
    case (LpInsert k v)
    obtain t' m' where "lphash_insert E (fst s) k v (snd s) = Some (True, t', m')"
      "lp_represents E t' m' (f(k := v # f k))" "bincount t' \<le> bincount (fst s) + 1"
      using lphash_insert_run [OF rep room, of k v] tot by auto
    then show ?thesis using tot by (auto simp: LpInsert lp_state_def lp_room_def)
  next
    case (LpLookup k)
    then show ?thesis using lphash_lookup_run [OF rep, of k] rep tot by (auto simp: lp_state_def)
  next
    case (LpDelete k)
    then show ?thesis using lphash_delete_run [OF rep sh, of k] tot by (fastforce simp: lp_state_def lp_room_def)
  next
    case (LpDeleteAll k)
    then show ?thesis using lphash_delete_all_run [OF rep sh, of k] tot by (fastforce simp: lp_state_def lp_room_def)
  qed
qed

section \<open>Properties\<close>

lemma lphash_env_hash [simp]: "hash_ptr (lphash_env mm) = jenkins_hash_ptr"
  by (simp add: lphash_env_def lp_same)

lemma lphash_env_ok: "mmap_fresh (lphash_env mm) \<Longrightarrow> env_ok (lphash_env mm)"
  by (simp add: env_ok_def lphash_env_def)

lemma lphash_example: "mmap_fresh (lphash_env first_fit)" "mmap_total (lphash_env first_fit)"
  using first_fit_fresh first_fit_total
  by (auto simp: mmap_fresh_def mmap_total_def lphash_env_def)

text \<open>
  C7: \<open>lphash\<close> is a map from keys to stacks of values: a table set up by \<open>init_lphash\<close> answers any
  sequence of up to \<open>2^31 - 511\<close> insertions, lookups, deletions and bulk deletions as the abstract map
  does, through all the splits and contractions on the way, as long as \<open>mmap\<close> does not fail.
\<close>

theorem lphash_serves_requests:
  assumes "mmap_fresh (lphash_env mm)" and "mmap_total (lphash_env mm)" and "finite (regions m)"
    and "length qs \<le> 2 ^ 31 - 511"
  shows "\<exists>t m' s. init_lphash (lphash_env mm) (Some t0) m = Some (True, Some t, m') \<and>
    serve_all (lphash_serve (lphash_env mm)) qs (t, m') = Some (lp_spec_run 0 qs (\<lambda>_. []), s)"
proof -
  obtain t m' where i: "init_lphash (lphash_env mm) (Some t0) m = Some (True, Some t, m')"
    "lp_represents (lphash_env mm) t m' (\<lambda>_. [])" "bincount t = 256"
    using init_lphash_run [OF lphash_env_ok [OF assms(1)] _ assms(2,3), of t0] by auto
  have "lp_state (lphash_env mm) (t, m') (\<lambda>_. [])" using i(2) assms(2) by (simp add: lp_state_def)
  then show ?thesis using lp.serves [of "lphash_env mm" "(t, m')" "\<lambda>_. []" qs] i(1,3) assms(4)
    by (auto simp: lp_room_def)
qed

theorem lphash_serves_requests_witness:
  "\<exists>t m s. init_lphash (lphash_env first_fit) (Some undefined) (boot_mem (lphash_env first_fit)) = Some (True, Some t, m) \<and>
    serve_all (lphash_serve (lphash_env first_fit)) [LpInsert 8 1, LpInsert 8 2, LpDelete 8, LpLookup 8, LpLookup 16] (t, m) =
      Some ([Flag True, Flag True, Flag True, Found 1, Found 0], s)"
  using lphash_serves_requests [OF lphash_example, of "boot_mem (lphash_env first_fit)"
      "[LpInsert 8 1, LpInsert 8 2, LpDelete 8, LpLookup 8, LpLookup 16]" undefined]
  by simp

text \<open>
  \<open>lphash_insert\<close> pushes the value on the stack of its key. It returns \<open>false\<close> with
  \<open>errno = ENOMEM\<close> either with the table untouched (no bucket) or, despite the header, with the
  entry inserted (the bucket was there but the expansion failed); both only when \<open>mmap\<close> fails.
\<close>

theorem lphash_insert_pushes:
  assumes "lp_represents E t m f" and "bincount t \<le> 2 ^ 31 - 256"
  shows "\<exists>ok t' m'. lphash_insert E t k v m = Some (ok, t', m') \<and>
    (lp_represents E t' m' (f(k := v # f k)) \<or> \<not> ok \<and> t' = t \<and> m' = m\<lparr>errno := Some ENOMEM\<rparr>) \<and>
    (\<not> ok \<longrightarrow> errno m' = Some ENOMEM \<and> \<not> mmap_total E)"
  using lphash_insert_run [OF assms, of k v] by auto

lemma example_lphash:
  obtains t m where "lp_represents (lphash_env first_fit) t m (\<lambda>_. [])" and "bincount t = 256"
    and "can_shrink (lphash_env first_fit) t"
proof -
  have "finite (regions (boot_mem (lphash_env first_fit)))" by simp
  from init_lphash_run [OF lphash_env_ok [OF lphash_example(1)] _ lphash_example(2) this, of undefined]
  show ?thesis using that by auto
qed

theorem lphash_insert_pushes_witness:
  "\<exists>t m t' m'. lphash_insert (lphash_env first_fit) t 8 5 m = Some (True, t', m') \<and>
     lp_represents (lphash_env first_fit) t' m' ((\<lambda>_. [])(8 := [5]))"
proof (rule example_lphash)
  fix t m assume a: "lp_represents (lphash_env first_fit) t m (\<lambda>_. [])" "bincount t = 256"
  have "bincount t \<le> 2 ^ 31 - 256" using a(2) by simp
  from lphash_insert_pushes [OF a(1) this, of 8 5] lphash_example(2)
  obtain t' m' where "lphash_insert (lphash_env first_fit) t 8 5 m = Some (True, t', m')"
    "lp_represents (lphash_env first_fit) t' m' ((\<lambda>_. [])(8 := [5]))" by auto
  then show ?thesis by blast
qed

text \<open>
  \<open>lphash_lookup\<close> returns the last value inserted for the key that has not been deleted, or
  \<open>NULL\<close>, \<open>lphash_delete\<close> pops the stack of the key and says whether it was not empty, and
  \<open>lphash_delete_all\<close> empties it and returns its height, also when the table contracts.
\<close>

theorem lphash_lookup_and_delete:
  assumes "lp_represents E t m f" and "can_shrink E t"
  shows "lphash_lookup t k m = Some (case f k of [] \<Rightarrow> 0 | v # _ \<Rightarrow> v) \<and>
    (\<exists>t' m'. lphash_delete E t k m = Some (f k \<noteq> [], t', m') \<and> lp_represents E t' m' (f(k := tl (f k)))) \<and>
    (\<exists>t' m'. lphash_delete_all E t k m = Some (length (f k), t', m') \<and> lp_represents E t' m' (f(k := [])))"
  using lphash_lookup_run [OF assms(1), of k] lphash_delete_run [OF assms, of k]
    lphash_delete_all_run [OF assms, of k] by auto

theorem lphash_lookup_and_delete_witness:
  "\<exists>t m t' m'. lphash_lookup t 8 m = Some 5 \<and> lphash_delete (lphash_env first_fit) t 8 m = Some (True, t', m')"
proof (rule example_lphash)
  fix t m assume a: "lp_represents (lphash_env first_fit) t m (\<lambda>_. [])" "bincount t = 256"
  have "bincount t \<le> 2 ^ 31 - 256" using a(2) by simp
  from lphash_insert_run [OF a(1) this, of 8 5] lphash_example(2)
  obtain t1 m1 where "lp_represents (lphash_env first_fit) t1 m1 ((\<lambda>_. [])(8 := [5]))" by auto
  moreover have "can_shrink (lphash_env first_fit) t1" using lphash_example(2) by (simp add: can_shrink_def)
  ultimately show ?thesis using lphash_lookup_and_delete [of "lphash_env first_fit" t1 m1 _ 8] by fastforce
qed





end
