(* ===== verification/Lfht.thy ===== *)
theory Lfht
  imports Utils
begin

text \<open>
  \<open>src/sri-glibc/malloc/lfht.c\<close> and \<open>lfht.h\<close>, run by one thread: the open-addressing hash table with
  linear probing that \<open>lookup.c\<close> keeps its heaps and mapped regions in. A full table is not rehashed at
  once: \<open>_grow_table\<close> puts a table of twice the size in front, and every later operation pays a
  migration tax, moving at least three entries of the old table (marking their keys as assimilated)
  together with the entry of its own key.

  The headers live in the memory \<open>hdrs\<close>; a header and its table are one mapping. The parameter \<open>mm\<close>
  of the definitions is \<open>mmap\<close>: from the headers mapped and the size it gives an address or \<open>None\<close>.
  Compare-and-swap is modelled with its test, so that the loops repeat a step whose swap fails; with
  one thread the test always succeeds. \<open>RESIZE_RATIO\<close> is \<open>0.6\<close>: for every \<open>uint32_t\<close> the truncated
  product is \<open>3 * max div 5\<close>.
\<close>

section \<open>Data\<close>

type_synonym hdr_ptr = nat

type_synonym lf_mmap = "hdr_ptr set \<Rightarrow> nat \<Rightarrow> hdr_ptr option"

datatype lfht_state = INITIAL | EXPANDING | EXPANDED

record lfht_entry =
  ekey :: u64
  eval :: u64

record lfht_hdr =
  assimilated :: bool
  hsz :: nat
  hmax :: nat
  threshold :: nat
  hcount :: nat
  hnext :: "hdr_ptr option"
  htable :: "nat \<Rightarrow> lfht_entry"

record lfht =
  ht_state :: lfht_state
  table_hdr :: "hdr_ptr option"
  hdrs :: "hdr_ptr \<Rightarrow> lfht_hdr option"

definition TOMBSTONE :: u64 where
  "TOMBSTONE = 0"

definition KEY_ALIGNMENT :: u64 where
  "KEY_ALIGNMENT = 0x10"

definition ASSIMILATED :: u64 where
  "ASSIMILATED = 0x1"

definition MAX_TABLE_SIZE :: nat where
  "MAX_TABLE_SIZE = 2 ^ 31"

definition MIGRATIONS_PER_ACCESS :: nat where
  "MIGRATIONS_PER_ACCESS = 3"

definition is_assimilated :: "u64 \<Rightarrow> bool" where
  "is_assimilated key \<longleftrightarrow> key AND (KEY_ALIGNMENT - 1) \<noteq> 0"

definition set_assimilated :: "u64 \<Rightarrow> u64" where
  "set_assimilated key = key OR ASSIMILATED"

section \<open>Headers\<close>

definition resize_threshold :: "nat \<Rightarrow> nat" where
  "resize_threshold mx = 3 * mx div 5"

definition alloc_lfht_hdr :: "lf_mmap \<Rightarrow> nat \<Rightarrow> lfht \<Rightarrow> hdr_ptr option \<times> lfht" where
  "alloc_lfht_hdr mm mx w =
    (let sz = mx * 16 + 48 in
     case mm (dom (hdrs w)) sz of
       None \<Rightarrow> (None, w)
     | Some addr \<Rightarrow>
         (Some addr, w\<lparr>hdrs := (hdrs w)(addr \<mapsto>
            \<lparr>assimilated = False, hsz = sz, hmax = mx, threshold = resize_threshold mx, hcount = 0,
             hnext = None, htable = (\<lambda>_. \<lparr>ekey = 0, eval = 0\<rparr>)\<rparr>)\<rparr>))"

definition free_lfht_hdr :: "hdr_ptr option \<Rightarrow> lfht \<Rightarrow> bool \<times> lfht" where
  "free_lfht_hdr hdr w =
    (case hdr of None \<Rightarrow> (True, w) | Some a \<Rightarrow> (True, w\<lparr>hdrs := (hdrs w)(a := None)\<rparr>))"

definition init_lfht :: "lf_mmap \<Rightarrow> lfht option \<Rightarrow> nat \<Rightarrow> bool \<times> lfht option" where
  "init_lfht mm ht mx =
    (case ht of
       None \<Rightarrow> (False, None)
     | Some w \<Rightarrow>
         (if mx \<noteq> 0
          then (case alloc_lfht_hdr mm mx w of
                  (None, w) \<Rightarrow> (False, Some w)
                | (Some hdr, w) \<Rightarrow> (True, Some (w\<lparr>ht_state := INITIAL, table_hdr := Some hdr\<rparr>)))
          else (False, Some w)))"

partial_function (option) free_hdrs :: "hdr_ptr option \<Rightarrow> lfht \<Rightarrow> lfht option" where
  "free_hdrs hdr w =
    (case hdr of
       None \<Rightarrow> Some w
     | Some a \<Rightarrow> do {
         h \<leftarrow> hdrs w a;
         let (success, w) = free_lfht_hdr (Some a) w;
         assert_c success;
         free_hdrs (hnext h) (w\<lparr>table_hdr := None\<rparr>) })"

definition delete_lfht :: "lfht option \<Rightarrow> (bool \<times> lfht option) option" where
  "delete_lfht ht =
    (case ht of
       None \<Rightarrow> Some (False, None)
     | Some w \<Rightarrow> do { w \<leftarrow> free_hdrs (table_hdr w) w; Some (True, Some w) })"

section \<open>Accesses to a table\<close>

definition read_entry :: "lfht \<Rightarrow> hdr_ptr \<Rightarrow> nat \<Rightarrow> lfht_entry option" where
  "read_entry w a i = do { h \<leftarrow> hdrs w a; assert_c (i < hmax h); Some (htable h i) }"

definition write_entry :: "lfht \<Rightarrow> hdr_ptr \<Rightarrow> nat \<Rightarrow> lfht_entry \<Rightarrow> lfht option" where
  "write_entry w a i e = do {
     h \<leftarrow> hdrs w a;
     assert_c (i < hmax h);
     Some (w\<lparr>hdrs := (hdrs w)(a \<mapsto> h\<lparr>htable := (htable h)(i := e)\<rparr>)\<rparr>) }"

text \<open>\<open>cas_64\<close> on the key and on the value of an entry.\<close>

definition cas_key :: "lfht \<Rightarrow> hdr_ptr \<Rightarrow> nat \<Rightarrow> u64 \<Rightarrow> u64 \<Rightarrow> (bool \<times> lfht) option" where
  "cas_key w a i old_value new_value = do {
     e \<leftarrow> read_entry w a i;
     if ekey e = old_value then do { w \<leftarrow> write_entry w a i (e\<lparr>ekey := new_value\<rparr>); Some (True, w) }
     else Some (False, w) }"

definition cas_val :: "lfht \<Rightarrow> hdr_ptr \<Rightarrow> nat \<Rightarrow> u64 \<Rightarrow> u64 \<Rightarrow> (bool \<times> lfht) option" where
  "cas_val w a i old_value new_value = do {
     e \<leftarrow> read_entry w a i;
     if eval e = old_value then do { w \<leftarrow> write_entry w a i (e\<lparr>eval := new_value\<rparr>); Some (True, w) }
     else Some (False, w) }"

section \<open>Growing\<close>

definition grow_table :: "lf_mmap \<Rightarrow> lfht \<Rightarrow> hdr_ptr \<Rightarrow> (bool \<times> lfht) option" where
  "grow_table mm ht hdr = do {
     ohdr \<leftarrow> table_hdr ht;
     if hdr \<noteq> ohdr then Some (False, ht)
     else do {
       oh \<leftarrow> hdrs ht ohdr;
       if hmax oh < MAX_TABLE_SIZE then do {
         let nmax = 2 * hmax oh;
         case alloc_lfht_hdr mm nmax ht of
           (None, ht) \<Rightarrow> Some (False, ht)
         | (Some nhdr, ht) \<Rightarrow> do {
             nh \<leftarrow> hdrs ht nhdr;
             let ht = ht\<lparr>hdrs := (hdrs ht)(nhdr \<mapsto> nh\<lparr>hnext := Some ohdr\<rparr>)\<rparr>;
             if table_hdr ht = Some ohdr then do {
               let ht = ht\<lparr>table_hdr := Some nhdr\<rparr>;
               assert_c (ht_state ht = INITIAL \<or> ht_state ht = EXPANDED);
               let ht = ht\<lparr>ht_state := EXPANDING\<rparr>;
               _ \<leftarrow> (case hnext oh of
                       None \<Rightarrow> Some ()
                     | Some p \<Rightarrow> do { ph \<leftarrow> hdrs ht p; assert_c (assimilated ph) });
               th \<leftarrow> hdrs ht nhdr;
               assert_c (hnext th = Some hdr);
               Some (True, ht) }
             else Some (False, snd (free_lfht_hdr (Some nhdr) ht)) } }
       else Some (False, ht) } }"

section \<open>Adding\<close>

text \<open>The probing loop of \<open>_lfht_add\<close>: the new value of \<open>retval\<close> and the table.\<close>

partial_function (option) add_loop ::
  "lf_mmap \<Rightarrow> lfht \<Rightarrow> hdr_ptr \<Rightarrow> u64 \<Rightarrow> u64 \<Rightarrow> nat \<Rightarrow> nat \<Rightarrow> nat \<Rightarrow> bool \<Rightarrow> (bool \<times> lfht) option" where
  "add_loop mm ht hdr key val msk j i retval = do {
     entry \<leftarrow> read_entry ht hdr i;
     if ekey entry = 0 then do {
       (swapped, ht) \<leftarrow> cas_key ht hdr i (ekey entry) key;
       if swapped then do {
         e \<leftarrow> read_entry ht hdr i;
         ht \<leftarrow> write_entry ht hdr i (e\<lparr>eval := val\<rparr>);
         h \<leftarrow> hdrs ht hdr;
         let count = hcount h;
         let ht = ht\<lparr>hdrs := (hdrs ht)(hdr \<mapsto> h\<lparr>hcount := count + 1\<rparr>)\<rparr>;
         ht \<leftarrow> (if count + 1 > threshold h then do { (_, ht) \<leftarrow> grow_table mm ht hdr; Some ht }
                else Some ht);
         Some (True, ht) }
       else add_loop mm ht hdr key val msk j i retval }
     else if ekey entry = key then do {
       (swapped, ht) \<leftarrow> cas_val ht hdr i (eval entry) val;
       if swapped then Some (True, ht) else add_loop mm ht hdr key val msk j i retval }
     else do {
       let i = (i + 1) AND msk;
       if i = j then Some (retval, ht) else add_loop mm ht hdr key val msk j i retval } }"

text \<open>From the label \<open>retry\<close> to the end of \<open>_lfht_add\<close>.\<close>

partial_function (option) add_retry ::
  "lf_mmap \<Rightarrow> lfht \<Rightarrow> u64 \<Rightarrow> u64 \<Rightarrow> nat \<Rightarrow> bool \<Rightarrow> bool \<Rightarrow> (bool \<times> lfht) option" where
  "add_retry mm ht key val hash external retval = do {
     hdr \<leftarrow> table_hdr ht;
     h \<leftarrow> hdrs ht hdr;
     let msk = hmax h - 1;
     let j = hash AND msk;
     (retval, ht) \<leftarrow> add_loop mm ht hdr key val msk j j retval;
     h \<leftarrow> hdrs ht hdr;
     if external \<and> assimilated h then add_retry mm ht key val hash external retval
     else Some (retval, ht) }"

text \<open>
  \<open>_lfht_add\<close> with the migration as a parameter: \<open>assimilate\<close> calls it with \<open>external\<close> false, when no
  migration is done.
\<close>

definition lfht_add_with ::
  "(lfht \<Rightarrow> u64 \<Rightarrow> nat \<Rightarrow> lfht option) \<Rightarrow> lf_mmap \<Rightarrow> lfht \<Rightarrow> u64 \<Rightarrow> u64 \<Rightarrow> bool \<Rightarrow> (bool \<times> lfht) option" where
  "lfht_add_with migrate mm ht key val external = do {
     assert_c (key \<noteq> 0);
     assert_c (\<not> is_assimilated key);
     assert_c (val \<noteq> TOMBSTONE);
     if table_hdr ht = None \<or> key = 0 \<or> val = TOMBSTONE then Some (False, ht)
     else do {
       let hash = unat (jenkins_hash_ptr key);
       ht \<leftarrow> (if external then migrate ht key hash else Some ht);
       add_retry mm ht key val hash external False } }"

definition lfht_add_internal :: "lf_mmap \<Rightarrow> lfht \<Rightarrow> u64 \<Rightarrow> u64 \<Rightarrow> (bool \<times> lfht) option" where
  "lfht_add_internal mm ht key val = lfht_add_with (\<lambda>ht _ _. Some ht) mm ht key val False"

section \<open>Migration\<close>

partial_function (option) assimilate_loop ::
  "lf_mmap \<Rightarrow> lfht \<Rightarrow> hdr_ptr \<Rightarrow> u64 \<Rightarrow> u64 \<Rightarrow> nat \<Rightarrow> nat \<Rightarrow> nat \<Rightarrow> nat \<Rightarrow> bool \<Rightarrow> nat \<Rightarrow> (nat \<times> lfht) option" where
  "assimilate_loop mm ht from_hdr key dkey count msk j i success retval = do {
     entry \<leftarrow> read_entry ht from_hdr i;
     let (success, moveit) =
       (if ekey entry = 0 \<or> ekey entry = dkey then (True, False)
        else if ekey entry = key then (True, True) else (success, False));
     if moveit \<or> retval < count then do {
       (retval, ht) \<leftarrow>
         (if ekey entry \<noteq> 0 \<and> \<not> is_assimilated (ekey entry) then do {
            (swapped, ht) \<leftarrow> cas_key ht from_hdr i (ekey entry) (set_assimilated (ekey entry));
            if swapped \<and> eval entry \<noteq> TOMBSTONE then do {
              (_, ht) \<leftarrow> lfht_add_internal mm ht (ekey entry) (eval entry);
              Some (retval + 1, ht) }
            else Some (retval, ht) }
          else Some (retval, ht));
       let i = (i + 1) AND msk;
       if i = j then Some (retval, ht)
       else assimilate_loop mm ht from_hdr key dkey count msk j i success retval }
     else if success \<and> retval \<ge> count then Some (retval, ht)
     else do {
       let i = (i + 1) AND msk;
       if i = j then Some (retval, ht)
       else assimilate_loop mm ht from_hdr key dkey count msk j i success retval } }"

definition assimilate ::
  "lf_mmap \<Rightarrow> lfht \<Rightarrow> hdr_ptr \<Rightarrow> u64 \<Rightarrow> nat \<Rightarrow> nat \<Rightarrow> (nat \<times> lfht) option" where
  "assimilate mm ht from_hdr key hash count = do {
     let dkey = set_assimilated key;
     h \<leftarrow> hdrs ht from_hdr;
     let msk = hmax h - 1;
     if assimilated h then Some (0, ht)
     else do {
       let j = hash AND msk;
       assimilate_loop mm ht from_hdr key dkey count msk j j False 0 } }"

definition migrate_table :: "lf_mmap \<Rightarrow> lfht \<Rightarrow> u64 \<Rightarrow> nat \<Rightarrow> lfht option" where
  "migrate_table mm ht key hash =
    (if ht_state ht = EXPANDING then do {
       hdr \<leftarrow> table_hdr ht;
       h \<leftarrow> hdrs ht hdr;
       ohdr \<leftarrow> hnext h;
       (moved, ht) \<leftarrow> assimilate mm ht ohdr key hash MIGRATIONS_PER_ACCESS;
       if moved < MIGRATIONS_PER_ACCESS then do {
         oh \<leftarrow> hdrs ht ohdr;
         let ht = ht\<lparr>hdrs := (hdrs ht)(ohdr \<mapsto> oh\<lparr>assimilated := True\<rparr>)\<rparr>;
         Some (if table_hdr ht = Some hdr then ht\<lparr>ht_state := EXPANDED\<rparr> else ht) }
       else Some ht }
     else Some ht)"

section \<open>The interface\<close>

definition lfht_add :: "lf_mmap \<Rightarrow> lfht \<Rightarrow> u64 \<Rightarrow> u64 \<Rightarrow> (bool \<times> lfht) option" where
  "lfht_add mm ht key val = lfht_add_with (migrate_table mm) mm ht key val True"

partial_function (option) remove_loop ::
  "lfht \<Rightarrow> hdr_ptr \<Rightarrow> u64 \<Rightarrow> nat \<Rightarrow> nat \<Rightarrow> nat \<Rightarrow> bool \<Rightarrow> (bool \<times> lfht) option" where
  "remove_loop ht hdr key msk j i retval = do {
     entry \<leftarrow> read_entry ht hdr i;
     if ekey entry = key then do {
       (swapped, ht) \<leftarrow> cas_val ht hdr i (eval entry) TOMBSTONE;
       if swapped then Some (True, ht) else remove_loop ht hdr key msk j i retval }
     else if ekey entry = 0 then Some (retval, ht)
     else do {
       let i = (i + 1) AND msk;
       if i = j then Some (retval, ht) else remove_loop ht hdr key msk j i retval } }"

partial_function (option) remove_retry ::
  "lfht \<Rightarrow> u64 \<Rightarrow> nat \<Rightarrow> bool \<Rightarrow> (bool \<times> lfht) option" where
  "remove_retry ht key hash retval = do {
     hdr \<leftarrow> table_hdr ht;
     h \<leftarrow> hdrs ht hdr;
     let msk = hmax h - 1;
     let j = hash AND msk;
     (retval, ht) \<leftarrow> remove_loop ht hdr key msk j j retval;
     h \<leftarrow> hdrs ht hdr;
     if assimilated h then remove_retry ht key hash retval else Some (retval, ht) }"

definition lfht_remove :: "lf_mmap \<Rightarrow> lfht \<Rightarrow> u64 \<Rightarrow> (bool \<times> lfht) option" where
  "lfht_remove mm ht key =
    (if table_hdr ht = None \<or> key = 0 then Some (False, ht)
     else do {
       let hash = unat (jenkins_hash_ptr key);
       ht \<leftarrow> migrate_table mm ht key hash;
       remove_retry ht key hash False })"

text \<open>\<open>*valp\<close> is written when the key is found: the result of the loop is the value then.\<close>

partial_function (option) find_loop ::
  "lfht \<Rightarrow> hdr_ptr \<Rightarrow> u64 \<Rightarrow> nat \<Rightarrow> nat \<Rightarrow> nat \<Rightarrow> u64 option \<Rightarrow> u64 option option" where
  "find_loop ht hdr key msk j i valp = do {
     entry \<leftarrow> read_entry ht hdr i;
     if ekey entry = 0 then Some valp
     else if ekey entry = key then Some (Some (eval entry))
     else do {
       let i = (i + 1) AND msk;
       if i = j then Some valp else find_loop ht hdr key msk j i valp } }"

partial_function (option) find_retry :: "lfht \<Rightarrow> u64 \<Rightarrow> nat \<Rightarrow> u64 option \<Rightarrow> u64 option option" where
  "find_retry ht key hash valp = do {
     hdr \<leftarrow> table_hdr ht;
     h \<leftarrow> hdrs ht hdr;
     let msk = hmax h - 1;
     let j = hash AND msk;
     valp \<leftarrow> find_loop ht hdr key msk j j valp;
     if assimilated h then find_retry ht key hash valp else Some valp }"

text \<open>The result is \<open>Some v\<close> for \<open>true\<close> with \<open>*valp = v\<close>, and \<open>None\<close> for \<open>false\<close>.\<close>

definition lfht_find :: "lf_mmap \<Rightarrow> lfht \<Rightarrow> u64 \<Rightarrow> (u64 option \<times> lfht) option" where
  "lfht_find mm ht key =
    (if table_hdr ht = None \<or> key = 0 then Some (None, ht)
     else do {
       let hash = unat (jenkins_hash_ptr key);
       ht \<leftarrow> migrate_table mm ht key hash;
       valp \<leftarrow> find_retry ht key hash None;
       Some (valp, ht) })"

end
