(* ===== verification/Lfht_Inv.thy ===== *)
theory Lfht_Inv
  imports Lfht
begin

text \<open>
  Well-formed tables of \<open>lfht.c\<close>: linear probing from the home slot of a key meets no hole before the
  key (\<open>tab_ok\<close>), what the table says about a key (\<open>tval\<close>), and the effect of the three kinds of
  writes: filling a free slot, replacing a value, marking a key as assimilated.
\<close>

section \<open>Keys\<close>

definition clean :: "u64 \<Rightarrow> bool" where
  "clean k \<longleftrightarrow> k \<noteq> 0 \<and> \<not> is_assimilated k"

text \<open>The key an entry had before it was marked.\<close>

definition origin :: "u64 \<Rightarrow> u64" where
  "origin k = k AND NOT ASSIMILATED"

lemma is_assimilated_iff: "is_assimilated k \<longleftrightarrow> (\<exists>i < 4. bit k i)"
proof -
  have "k AND (KEY_ALIGNMENT - 1) = k AND mask 4" by (simp add: KEY_ALIGNMENT_def mask_eq_exp_minus_1)
  also have "\<dots> = take_bit 4 k" by (simp add: take_bit_eq_mask)
  finally have "is_assimilated k \<longleftrightarrow> take_bit 4 k \<noteq> 0" by (simp add: is_assimilated_def)
  also have "\<dots> \<longleftrightarrow> (\<exists>i < 4. bit k i)" by (fastforce simp: bit_eq_iff bit_take_bit_iff)
  finally show ?thesis .
qed

lemma bit_ASSIMILATED: "bit ASSIMILATED i \<longleftrightarrow> i = 0"
  by (simp add: ASSIMILATED_def bit_1_iff)

lemma clean_bit_0: "\<not> is_assimilated k \<Longrightarrow> \<not> bit k 0"
  by (simp add: is_assimilated_iff)

lemma origin_clean: "\<not> is_assimilated k \<Longrightarrow> origin k = k"
  by (rule bit_word_eqI)
    (use clean_bit_0 [of k] in \<open>auto simp: origin_def bit_and_iff bit_not_iff bit_ASSIMILATED intro!: gr0I\<close>)

lemma origin_set_assimilated: "\<not> is_assimilated k \<Longrightarrow> origin (set_assimilated k) = k"
  by (rule bit_word_eqI)
    (use clean_bit_0 [of k] in \<open>auto simp: origin_def set_assimilated_def bit_and_iff bit_or_iff bit_not_iff
      bit_ASSIMILATED intro!: gr0I\<close>)

lemma set_assimilated [simp]: "is_assimilated (set_assimilated k)" "set_assimilated k \<noteq> 0"
proof -
  have b: "bit (set_assimilated k) 0" by (simp add: set_assimilated_def bit_or_iff bit_ASSIMILATED)
  then show "is_assimilated (set_assimilated k)" unfolding is_assimilated_iff by (intro exI [of _ 0]) simp
  show "set_assimilated k \<noteq> 0" using b by auto
qed

lemma clean_ne_assimilated: "\<not> is_assimilated k \<Longrightarrow> k \<noteq> set_assimilated k'"
  by auto

section \<open>Tables\<close>

abbreviation hkey :: "lfht_hdr \<Rightarrow> nat \<Rightarrow> u64" where
  "hkey h i \<equiv> ekey (htable h i)"

definition used :: "lfht_hdr \<Rightarrow> nat set" where
  "used h = {i. i < hmax h \<and> hkey h i \<noteq> 0}"

definition pending :: "lfht_hdr \<Rightarrow> nat set" where
  "pending h = {i. i < hmax h \<and> clean (hkey h i)}"

definition tab_keys :: "lfht_hdr \<Rightarrow> u64 set" where
  "tab_keys h = hkey h ` used h"

definition home :: "lfht_hdr \<Rightarrow> u64 \<Rightarrow> nat" where
  "home h k = unat (jenkins_hash_ptr k) mod hmax h"

definition probe :: "lfht_hdr \<Rightarrow> nat \<Rightarrow> nat \<Rightarrow> nat" where
  "probe h j d = (j + d) mod hmax h"

definition reached :: "lfht_hdr \<Rightarrow> nat \<Rightarrow> bool" where
  "reached h i \<longleftrightarrow> (\<exists>d < hmax h. i = probe h (home h (origin (hkey h i))) d \<and>
     (\<forall>e < d. hkey h (probe h (home h (origin (hkey h i))) e) \<noteq> 0))"

definition tab_ok :: "lfht_hdr \<Rightarrow> bool" where
  "tab_ok h \<longleftrightarrow>
     (\<exists>n. 2 \<le> n \<and> n \<le> 31 \<and> hmax h = 2 ^ n) \<and> threshold h = resize_threshold (hmax h) \<and>
     hcount h = card (used h) \<and> (\<forall>i \<in> used h. clean (origin (hkey h i)) \<and> reached h i) \<and>
     inj_on (\<lambda>i. origin (hkey h i)) (used h)"

definition tval :: "lfht_hdr \<Rightarrow> u64 \<Rightarrow> u64" where
  "tval h k = (case find (\<lambda>i. hkey h i = k) [0..<hmax h] of None \<Rightarrow> 0 | Some i \<Rightarrow> eval (htable h i))"

lemma finite_used [simp]: "finite (used h)" "finite (pending h)"
  by (simp_all add: used_def pending_def)

lemma pending_used: "pending h \<subseteq> used h"
  by (auto simp: pending_def used_def clean_def)

lemma tab_okD:
  assumes "tab_ok h"
  shows "hcount h = card (used h)" and "threshold h = resize_threshold (hmax h)"
    and "i \<in> used h \<Longrightarrow> clean (origin (hkey h i))" and "i \<in> used h \<Longrightarrow> reached h i"
    and "inj_on (\<lambda>i. origin (hkey h i)) (used h)" and "4 \<le> hmax h" and "hmax h \<le> 2 ^ 31"
proof -
  obtain n where n: "2 \<le> n" "n \<le> 31" "hmax h = 2 ^ n" using assms by (auto simp: tab_ok_def)
  show "4 \<le> hmax h" "hmax h \<le> 2 ^ 31"
    using power_increasing [OF n(1), of "2 :: nat"] power_increasing [OF n(2), of "2 :: nat"] n(3) by simp_all
qed (use assms in \<open>auto simp: tab_ok_def\<close>)

lemma threshold_less: "tab_ok h \<Longrightarrow> threshold h < hmax h"
  using tab_okD(2,6) [of h] by (auto simp: resize_threshold_def)

lemma probe_step:
  assumes "tab_ok h"
  shows "(probe h j d + 1) AND (hmax h - 1) = probe h j (Suc d)" and "x AND (hmax h - 1) = x mod hmax h"
proof -
  obtain n where n: "hmax h = 2 ^ n" using assms by (auto simp: tab_ok_def)
  show a: "x AND (hmax h - 1) = x mod hmax h" for x unfolding n by (rule and_exp_minus_1_nat)
  show "(probe h j d + 1) AND (hmax h - 1) = probe h j (Suc d)"
    unfolding a by (simp add: probe_def mod_Suc_eq)
qed

lemma probe_less [simp]: "tab_ok h \<Longrightarrow> probe h j d < hmax h"
  using tab_okD(6) [of h] by (simp add: probe_def)

lemma home_less [simp]: "tab_ok h \<Longrightarrow> home h k < hmax h"
  using tab_okD(6) [of h] by (simp add: home_def)

lemma probe_0: "j < hmax h \<Longrightarrow> probe h j 0 = j"
  by (simp add: probe_def)

lemma probe_wrap: "j < hmax h \<Longrightarrow> probe h j (hmax h) = j"
  by (simp add: probe_def)

lemma probe_inj:
  assumes "d < hmax h" and "e < hmax h" and "probe h j d = probe h j e"
  shows "d = e"
proof -
  have le: "x = y" if "x \<le> y" "y < hmax h" "(j + x) mod hmax h = (j + y) mod hmax h" for x y
  proof -
    have "hmax h dvd (j + y) - (j + x)" using that mod_eq_dvd_iff_nat [of "j + x" "j + y" "hmax h"] by simp
    then show ?thesis using that(1,2) by (auto dest: dvd_imp_le)
  qed
  show ?thesis
    using le [of d e] le [of e d] assms by (cases "d \<le> e") (simp_all add: probe_def)
qed

lemma probe_ne_start: "0 < d \<Longrightarrow> d < hmax h \<Longrightarrow> j < hmax h \<Longrightarrow> probe h j d \<noteq> j"
  using probe_inj [of d h 0 j] probe_0 [of j h] by auto

lemma probe_surj:
  assumes "i < hmax h" and "j < hmax h"
  obtains d where "d < hmax h" and "i = probe h j d"
proof -
  have "i = probe h j ((i + (hmax h - j)) mod hmax h)"
  proof -
    have "(j + (i + (hmax h - j)) mod hmax h) mod hmax h = (i + hmax h) mod hmax h"
      using assms(2) by (simp add: mod_add_right_eq)
    then show ?thesis using assms(1) by (simp add: probe_def)
  qed
  moreover have "(i + (hmax h - j)) mod hmax h < hmax h" using assms(1) by simp
  ultimately show ?thesis using that by blast
qed

section \<open>What a table holds\<close>

lemma hkey_unique:
  assumes "tab_ok h" and "i < hmax h" and "i' < hmax h" and "hkey h i = k" and "hkey h i' = k" and "k \<noteq> 0"
  shows "i = i'"
  using tab_okD(5) [OF assms(1)] assms(2-6) by (auto simp: inj_on_def used_def)

lemma tval_hit:
  assumes "tab_ok h" and "i < hmax h" and "hkey h i = k" and "k \<noteq> 0"
  shows "tval h k = eval (htable h i)"
proof -
  have "find (\<lambda>i. hkey h i = k) [0..<hmax h] \<noteq> None"
    using assms(2,3) by (auto simp: find_None_iff)
  then obtain i' where i': "find (\<lambda>i. hkey h i = k) [0..<hmax h] = Some i'" by blast
  then have "i' < hmax h" "hkey h i' = k" by (auto simp: find_Some_iff)
  then have "i' = i" using hkey_unique [OF assms(1) _ assms(2)] assms(3,4) by blast
  then show ?thesis using i' by (simp add: tval_def)
qed

lemma tab_keys_iff: "k \<in> tab_keys h \<longleftrightarrow> k \<noteq> 0 \<and> (\<exists>i < hmax h. hkey h i = k)"
  by (auto simp: tab_keys_def used_def)

lemma tval_miss: "k \<notin> tab_keys h \<Longrightarrow> k \<noteq> 0 \<Longrightarrow> tval h k = 0"
  by (auto simp: tval_def tab_keys_iff find_Some_iff split: option.splits)

text \<open>Every search ends, at the key or at a hole, as long as the table is not full.\<close>

lemma first_stop:
  assumes "tab_ok h" and "hcount h < hmax h" and "j < hmax h"
  obtains d where "d < hmax h" and "hkey h (probe h j d) = 0 \<or> hkey h (probe h j d) = k"
    and "\<And>e. e < d \<Longrightarrow> hkey h (probe h j e) \<noteq> 0 \<and> hkey h (probe h j e) \<noteq> k"
proof -
  have "card (used h) < card {..<hmax h}" unfolding tab_okD(1) [OF assms(1), symmetric] using assms(2) by simp
  then have "\<not> {..<hmax h} \<subseteq> used h" using card_mono [OF finite_used(1)] by (metis leD)
  then obtain i where i: "i < hmax h" "hkey h i = 0" unfolding used_def by blast
  obtain d0 where "d0 < hmax h" "i = probe h j d0" by (rule probe_surj [OF i(1) assms(3)])
  then have ex: "\<exists>d. d < hmax h \<and> (hkey h (probe h j d) = 0 \<or> hkey h (probe h j d) = k)"
    using i(2) by blast
  define d where "d = (LEAST d. d < hmax h \<and> (hkey h (probe h j d) = 0 \<or> hkey h (probe h j d) = k))"
  have d: "d < hmax h \<and> (hkey h (probe h j d) = 0 \<or> hkey h (probe h j d) = k)"
    unfolding d_def by (rule LeastI_ex [OF ex])
  moreover have "hkey h (probe h j e) \<noteq> 0 \<and> hkey h (probe h j e) \<noteq> k" if "e < d" for e
  proof -
    have "\<not> (e < hmax h \<and> (hkey h (probe h j e) = 0 \<or> hkey h (probe h j e) = k))"
      by (rule not_less_Least [OF that [unfolded d_def]])
    moreover have "e < hmax h" using that d by linarith
    ultimately show ?thesis by blast
  qed
  ultimately show ?thesis using that by blast
qed

text \<open>A hole on the way from its home slot means that the key is not in the table.\<close>

lemma hole_absent:
  assumes ok: "tab_ok h" and k: "clean k" and d: "d < hmax h" "hkey h (probe h (home h k) d) = 0"
    and before: "\<And>e. e < d \<Longrightarrow> hkey h (probe h (home h k) e) \<noteq> k"
  shows "k \<notin> tab_keys h"
proof
  assume "k \<in> tab_keys h"
  then obtain i where i: "i < hmax h" "hkey h i = k" by (auto simp: tab_keys_iff)
  have o: "origin k = k" using k by (simp add: clean_def origin_clean)
  have "i \<in> used h" using i k by (auto simp: used_def clean_def)
  then have "reached h i" by (rule tab_okD(4) [OF ok])
  then obtain d' where d': "d' < hmax h" "i = probe h (home h k) d'" "\<forall>e < d'. hkey h (probe h (home h k) e) \<noteq> 0"
    unfolding reached_def i(2) o by blast
  have "\<not> d' < d" using before [of d'] i(2) unfolding d'(2) by blast
  moreover have "\<not> d < d'" using d'(3) d(2) by auto
  moreover have "d' \<noteq> d" using d(2) i(2) d'(2) k by (auto simp: clean_def)
  ultimately show False by simp
qed

section \<open>Writes\<close>

definition put_entry :: "lfht_hdr \<Rightarrow> nat \<Rightarrow> u64 \<Rightarrow> u64 \<Rightarrow> lfht_hdr" where
  "put_entry h i k v = h\<lparr>htable := (htable h)(i := \<lparr>ekey = k, eval = v\<rparr>), hcount := hcount h + 1\<rparr>"

definition put_val :: "lfht_hdr \<Rightarrow> nat \<Rightarrow> u64 \<Rightarrow> lfht_hdr" where
  "put_val h i v = h\<lparr>htable := (htable h)(i := (htable h i)\<lparr>eval := v\<rparr>)\<rparr>"

definition mark_entry :: "lfht_hdr \<Rightarrow> nat \<Rightarrow> lfht_hdr" where
  "mark_entry h i = h\<lparr>htable := (htable h)(i := (htable h i)\<lparr>ekey := set_assimilated (hkey h i)\<rparr>)\<rparr>"

lemmas write_defs = put_entry_def put_val_def mark_entry_def

lemma write_sel [simp]:
  "hmax (put_entry h i k v) = hmax h" "hmax (put_val h i v) = hmax h" "hmax (mark_entry h i) = hmax h"
  "threshold (put_entry h i k v) = threshold h" "threshold (put_val h i v) = threshold h"
  "threshold (mark_entry h i) = threshold h"
  "assimilated (put_entry h i k v) = assimilated h" "assimilated (put_val h i v) = assimilated h"
  "assimilated (mark_entry h i) = assimilated h"
  "hnext (put_entry h i k v) = hnext h" "hnext (put_val h i v) = hnext h" "hnext (mark_entry h i) = hnext h"
  "hcount (put_entry h i k v) = hcount h + 1" "hcount (put_val h i v) = hcount h"
  "hcount (mark_entry h i) = hcount h"
  "home (put_entry h i k v) = home h" "home (put_val h i v) = home h" "home (mark_entry h i) = home h"
  "probe (put_entry h i k v) = probe h" "probe (put_val h i v) = probe h" "probe (mark_entry h i) = probe h"
  by (simp_all add: write_defs home_def probe_def fun_eq_iff)

lemma hkey_write:
  "hkey (put_entry h i k v) x = (if x = i then k else hkey h x)"
  "hkey (put_val h i v) x = hkey h x"
  "hkey (mark_entry h i) x = (if x = i then set_assimilated (hkey h i) else hkey h x)"
  by (simp_all add: write_defs)

text \<open>Tables with the same origins of keys, or one more, are as well formed.\<close>

lemma tab_ok_same_origins:
  assumes ok: "tab_ok h" and eq: "hmax h' = hmax h" "threshold h' = threshold h" "hcount h' = hcount h"
    and keys: "\<And>i. i < hmax h \<Longrightarrow> origin (hkey h' i) = origin (hkey h i) \<and> (hkey h' i = 0 \<longleftrightarrow> hkey h i = 0)"
  shows "tab_ok h'" and "used h' = used h"
proof -
  show u: "used h' = used h" using keys eq(1) by (auto simp: used_def)
  have hm: "home h' = home h" "probe h' = probe h" using eq(1) by (simp_all add: home_def probe_def fun_eq_iff)
  have "reached h' i" if "i \<in> used h" for i
  proof -
    have "i < hmax h" using that by (simp add: used_def)
    then show ?thesis
      using tab_okD(4) [OF ok that] keys probe_less [OF ok] eq(1)
      by (auto simp: reached_def hm)
  qed
  moreover have "inj_on (\<lambda>i. origin (hkey h' i)) (used h)"
    using tab_okD(5) [OF ok] keys by (auto simp: inj_on_def used_def)
  moreover have "clean (origin (hkey h' i))" if "i \<in> used h" for i
    using tab_okD(3) [OF ok that] keys that by (auto simp: used_def)
  ultimately show "tab_ok h'" using ok u eq unfolding tab_ok_def by auto
qed

lemma put_val_correct:
  assumes ok: "tab_ok h" and i: "i < hmax h" "hkey h i = k" "k \<noteq> 0"
  shows "tab_ok (put_val h i v)" and "tab_keys (put_val h i v) = tab_keys h"
    and "k' \<noteq> 0 \<Longrightarrow> tval (put_val h i v) k' = (if k' = k then v else tval h k')"
proof -
  show ok': "tab_ok (put_val h i v)"
    by (rule tab_ok_same_origins [OF ok]) (simp_all add: hkey_write)
  show ks: "tab_keys (put_val h i v) = tab_keys h" by (simp add: tab_keys_iff set_eq_iff hkey_write)
  show "tval (put_val h i v) k' = (if k' = k then v else tval h k')" if "k' \<noteq> 0"
  proof (cases "k' \<in> tab_keys h")
    case True
    then obtain x where x: "x < hmax h" "hkey h x = k'" by (auto simp: tab_keys_iff)
    have "k' = k \<longleftrightarrow> x = i" using hkey_unique [OF ok x(1) i(1) x(2)] i(2) that x(2) by auto
    then show ?thesis
      using tval_hit [OF ok x that] tval_hit [OF ok', of x k'] x that by (auto simp: put_val_def)
  next
    case False
    then have "k' \<noteq> k" using i by (auto simp: tab_keys_iff)
    then show ?thesis using tval_miss [OF False that] tval_miss [of k' "put_val h i v"] ks False that by simp
  qed
qed

lemma put_entry_correct:
  fixes v :: u64
  assumes ok: "tab_ok h" and k: "clean k" "k \<notin> tab_keys h" "\<And>i. i \<in> used h \<Longrightarrow> origin (hkey h i) \<noteq> k"
    and d: "d < hmax h" "hkey h (probe h (home h k) d) = 0" "\<And>e. e < d \<Longrightarrow> hkey h (probe h (home h k) e) \<noteq> 0"
  defines "h' \<equiv> put_entry h (probe h (home h k) d) k v"
  shows "tab_ok h'" and "tab_keys h' = insert k (tab_keys h)"
    and "k' \<noteq> 0 \<Longrightarrow> tval h' k' = (if k' = k then v else tval h k')"
proof -
  let ?i = "probe h (home h k) d"
  have i: "?i < hmax h" using ok by simp
  have k0: "k \<noteq> 0" "origin k = k" using k(1) by (simp_all add: clean_def origin_clean)
  have hk: "hkey h' x = (if x = ?i then k else hkey h x)" for x by (simp add: h'_def hkey_write)
  have sel: "hmax h' = hmax h" "home h' = home h" "probe h' = probe h" by (simp_all add: h'_def)
  have u: "used h' = insert ?i (used h)" using i k0 by (auto simp: used_def hk sel)
  have ni: "?i \<notin> used h" using d(2) by (simp add: used_def)
  have count: "hcount h' = card (used h')" using u ni tab_okD(1) [OF ok] by (simp add: h'_def)
  have "reached h' x" if "x \<in> used h'" for x
  proof (cases "x = ?i")
    case True
    then have "origin (hkey h' x) = k" using k0 by (simp add: hk)
    then show ?thesis unfolding reached_def sel using True d(1,3) k0 by (auto simp: hk intro!: exI [of _ d])
  next
    case False
    then have "reached h x" using that u tab_okD(4) [OF ok] by simp
    then show ?thesis using False k0 unfolding reached_def sel by (auto simp: hk)
  qed
  moreover have "clean (origin (hkey h' x))" if "x \<in> used h'" for x
    using that u tab_okD(3) [OF ok] k0 k(1) by (auto simp: hk)
  moreover have "inj_on (\<lambda>x. origin (hkey h' x)) (used h')"
    unfolding u using tab_okD(5) [OF ok] ni k(3) k0 by (auto simp: inj_on_def hk)
  ultimately show ok': "tab_ok h'" using ok count unfolding tab_ok_def sel by (auto simp: h'_def)
  show ks: "tab_keys h' = insert k (tab_keys h)" unfolding tab_keys_def u using ni by (auto simp: hk)
  show "tval h' k' = (if k' = k then v else tval h k')" if "k' \<noteq> 0"
  proof (cases "k' \<in> tab_keys h'")
    case True
    then obtain x where x: "x < hmax h" "hkey h' x = k'" by (auto simp: tab_keys_iff sel)
    show ?thesis
    proof (cases "x = ?i")
      case True
      then show ?thesis using tval_hit [OF ok', of x k'] x that hk by (auto simp: sel h'_def put_entry_def)
    next
      case False
      then have "hkey h x = k'" using x(2) hk by simp
      moreover from this have "k' \<noteq> k" using k(2) x(1) that by (auto simp: tab_keys_iff)
      ultimately show ?thesis using tval_hit [OF ok', of x k'] tval_hit [OF ok x(1)] x that False
        by (auto simp: sel h'_def put_entry_def)
    qed
  next
    case False
    then show ?thesis using tval_miss that ks by auto
  qed
qed

lemma mark_entry_correct:
  assumes ok: "tab_ok h" and i: "i < hmax h" "hkey h i = k" "clean k"
  shows "tab_ok (mark_entry h i)" and "tab_keys (mark_entry h i) \<subseteq> insert (set_assimilated k) (tab_keys h - {k})"
    and "clean k' \<Longrightarrow> tval (mark_entry h i) k' = (if k' = k then 0 else tval h k')"
    and "pending (mark_entry h i) = pending h - {i}" and "i \<in> pending h"
proof -
  have na: "\<not> is_assimilated k" "k \<noteq> 0" using i(3) by (simp_all add: clean_def)
  show ok': "tab_ok (mark_entry h i)"
    by (rule tab_ok_same_origins [OF ok])
      (use i na in \<open>auto simp: hkey_write origin_set_assimilated origin_clean\<close>)
  show ks: "tab_keys (mark_entry h i) \<subseteq> insert (set_assimilated k) (tab_keys h - {k})"
    using hkey_unique [OF ok _ i(1) _ i(2) na(2)] i(2) by (auto simp: tab_keys_iff hkey_write split: if_splits)
  show "pending (mark_entry h i) = pending h - {i}" "i \<in> pending h"
    using i by (auto simp: pending_def hkey_write clean_def split: if_splits)
  show "tval (mark_entry h i) k' = (if k' = k then 0 else tval h k')" if k': "clean k'"
  proof (cases "k' \<in> tab_keys (mark_entry h i)")
    case True
    then have "k' \<noteq> k" using ks clean_ne_assimilated [OF na(1)] by auto
    obtain x where x: "x < hmax h" "hkey (mark_entry h i) x = k'" using True by (auto simp: tab_keys_iff)
    then have "x \<noteq> i" using k' by (auto simp: hkey_write clean_def)
    then show ?thesis
      using tval_hit [OF ok', of x k'] tval_hit [OF ok x(1)] x k' \<open>k' \<noteq> k\<close>
      by (auto simp: mark_entry_def clean_def)
  next
    case False
    have "k' \<noteq> 0" using k' by (simp add: clean_def)
    moreover have "k' = k \<or> k' \<notin> tab_keys h"
      using False i by (auto simp: tab_keys_iff hkey_write split: if_splits)
    ultimately show ?thesis using tval_miss [OF False] tval_miss [of k' h] by auto
  qed
qed

end
