(* ===== verification/Lfht_Ops.thy ===== *)
theory Lfht_Ops
  imports Lfht_Inv
begin

text \<open>
  What the probing loops of \<open>lfht.c\<close> compute on a well-formed table: \<open>find_loop\<close>, \<open>remove_loop\<close> and
  \<open>add_loop\<close> stop at the first slot that is free or holds the key, and return what the table says about
  the key (\<open>tval\<close>) or change it there.
\<close>

section \<open>Walking\<close>

abbreviation set_hdr :: "lfht \<Rightarrow> hdr_ptr \<Rightarrow> lfht_hdr \<Rightarrow> lfht" where
  "set_hdr w a h \<equiv> w\<lparr>hdrs := (hdrs w)(a \<mapsto> h)\<rparr>"

lemma walk:
  assumes "\<And>e. e < d \<Longrightarrow> F (p e) = F (p (Suc e))"
  shows "F (p (0 :: nat)) = F (p d)"
  using assms by (induction d) simp_all

lemma read_entry_hit [simp]: "hdrs w a = Some h \<Longrightarrow> i < hmax h \<Longrightarrow> read_entry w a i = Some (htable h i)"
  by (simp add: read_entry_def)

lemma write_entry_hit [simp]:
  "hdrs w a = Some h \<Longrightarrow> i < hmax h \<Longrightarrow>
     write_entry w a i e = Some (set_hdr w a (h\<lparr>htable := (htable h)(i := e)\<rparr>))"
  by (simp add: write_entry_def)

lemma cas_key_hit:
  "hdrs w a = Some h \<Longrightarrow> i < hmax h \<Longrightarrow>
     cas_key w a i (hkey h i) k = Some (True, set_hdr w a (h\<lparr>htable := (htable h)(i := (htable h i)\<lparr>ekey := k\<rparr>)\<rparr>))"
  by (simp add: cas_key_def)

lemma cas_val_hit:
  "hdrs w a = Some h \<Longrightarrow> i < hmax h \<Longrightarrow>
     cas_val w a i (eval (htable h i)) v = Some (True, set_hdr w a (put_val h i v))"
  by (simp add: cas_val_def put_val_def)

text \<open>A stop: the slot at distance \<open>d\<close> from \<open>j\<close> is the first one that is free or holds the key.\<close>

definition stop_at :: "lfht_hdr \<Rightarrow> nat \<Rightarrow> u64 \<Rightarrow> nat \<Rightarrow> bool" where
  "stop_at h j k d \<longleftrightarrow> d < hmax h \<and> (hkey h (probe h j d) = 0 \<or> hkey h (probe h j d) = k) \<and>
     (\<forall>e < d. hkey h (probe h j e) \<noteq> 0 \<and> hkey h (probe h j e) \<noteq> k)"

lemma stop_exists:
  assumes "tab_ok h" and "hcount h < hmax h" and "j < hmax h"
  obtains d where "stop_at h j k d"
  using first_stop [OF assms, of k thesis] unfolding stop_at_def by blast

lemma stop_next:
  assumes "tab_ok h" and "j < hmax h" and "stop_at h j k d" and "e < d"
  shows "probe h j (Suc e) \<noteq> j"
  using assms by (intro probe_ne_start) (auto simp: stop_at_def)

lemma stop_hole:
  assumes "tab_ok h" and "clean k" and "stop_at h (home h k) k d" and "hkey h (probe h (home h k) d) = 0"
  shows "k \<notin> tab_keys h"
  using assms(3) by (intro hole_absent [OF assms(1,2) _ assms(4)]) (auto simp: stop_at_def)

lemma stop_key:
  assumes "tab_ok h" and "stop_at h j k d" and "hkey h (probe h j d) \<noteq> 0"
  shows "hkey h (probe h j d) = k" and "k \<in> tab_keys h"
proof -
  show "hkey h (probe h j d) = k" using assms by (auto simp: stop_at_def)
  then show "k \<in> tab_keys h" using assms probe_less [OF assms(1)] unfolding tab_keys_iff by blast
qed

section \<open>Searching\<close>

lemma find_loop_run:
  assumes w: "hdrs w a = Some h" and ok: "tab_ok h" and k: "clean k" and room: "hcount h < hmax h"
  shows "find_loop w a k (hmax h - 1) (home h k) (home h k) valp =
    Some (if k \<in> tab_keys h then Some (tval h k) else valp)"
proof -
  let ?j = "home h k" and ?F = "\<lambda>i. find_loop w a k (hmax h - 1) (home h k) i valp"
  have j: "?j < hmax h" using ok by simp
  obtain d where d: "stop_at h ?j k d" by (rule stop_exists [OF ok room j])
  have "?F (probe h ?j e) = ?F (probe h ?j (Suc e))" if "e < d" for e
    using d that stop_next [OF ok j d that] probe_step(1) [OF ok, of ?j e] w ok
    by (subst find_loop.simps) (simp add: stop_at_def Let_def)
  then have "?F ?j = ?F (probe h ?j d)" using walk [of d ?F "probe h ?j"] by (simp add: probe_0 [OF j])
  also have "\<dots> = Some (if k \<in> tab_keys h then Some (tval h k) else valp)"
  proof (cases "hkey h (probe h ?j d) = 0")
    case True
    then show ?thesis using stop_hole [OF ok k d True] w ok by (subst find_loop.simps) simp
  next
    case False
    note hit = stop_key [OF ok d False]
    then have "tval h k = eval (htable h (probe h ?j d))"
      using ok k by (intro tval_hit) (simp_all add: clean_def)
    then show ?thesis using hit False w ok by (subst find_loop.simps) simp
  qed
  finally show ?thesis .
qed

section \<open>Removing\<close>

lemma remove_loop_run:
  assumes w: "hdrs w a = Some h" and ok: "tab_ok h" and k: "clean k" and room: "hcount h < hmax h"
  shows "\<exists>h'. remove_loop w a k (hmax h - 1) (home h k) (home h k) r =
      Some (if k \<in> tab_keys h then True else r, set_hdr w a h') \<and>
    tab_ok h' \<and> tab_keys h' = tab_keys h \<and> (\<forall>k'. k' \<noteq> 0 \<longrightarrow> tval h' k' = (if k' = k then 0 else tval h k')) \<and>
    used h' = used h \<and> pending h' = pending h \<and> hnext h' = hnext h \<and> assimilated h' = assimilated h \<and>
    hcount h' = hcount h \<and> threshold h' = threshold h \<and> hmax h' = hmax h"
proof -
  let ?j = "home h k" and ?F = "\<lambda>i. remove_loop w a k (hmax h - 1) (home h k) i r"
  have j: "?j < hmax h" using ok by simp
  have k0: "k \<noteq> 0" using k by (simp add: clean_def)
  obtain d where d: "stop_at h ?j k d" by (rule stop_exists [OF ok room j])
  have "?F (probe h ?j e) = ?F (probe h ?j (Suc e))" if "e < d" for e
    using d that stop_next [OF ok j d that] probe_step(1) [OF ok, of ?j e] w ok
    by (subst remove_loop.simps) (simp add: stop_at_def Let_def)
  then have *: "?F ?j = ?F (probe h ?j d)" using walk [of d ?F "probe h ?j"] by (simp add: probe_0 [OF j])
  show ?thesis
  proof (cases "hkey h (probe h ?j d) = 0")
    case True
    have abs: "k \<notin> tab_keys h" by (rule stop_hole [OF ok k d True])
    have "?F (probe h ?j d) = Some (r, w)" using True k0 w ok by (subst remove_loop.simps) auto
    then show ?thesis
      using * abs ok w tval_miss [OF abs k0] by (intro exI [of _ h]) (simp add: fun_upd_idem)
  next
    case False
    note hit = stop_key [OF ok d False]
    let ?h = "put_val h (probe h ?j d) TOMBSTONE"
    have i: "probe h ?j d < hmax h" using ok by simp
    have "?F (probe h ?j d) = Some (True, set_hdr w a ?h)"
      using hit w i k0 by (subst remove_loop.simps) (simp add: cas_val_hit [OF w i])
    moreover have "used ?h = used h" "pending ?h = pending h"
      by (simp_all add: used_def pending_def hkey_write)
    ultimately show ?thesis
      using * hit put_val_correct(1,2) [OF ok i hit(1) k0, of TOMBSTONE]
        put_val_correct(3) [OF ok i hit(1) k0, of _ TOMBSTONE]
      by (intro exI [of _ ?h]) (simp add: TOMBSTONE_def)
  qed
qed

section \<open>Adding\<close>

text \<open>The table after \<open>k\<close> was given the value \<open>v\<close>, and how much it grew.\<close>

definition added :: "lfht_hdr \<Rightarrow> u64 \<Rightarrow> u64 \<Rightarrow> lfht_hdr \<Rightarrow> bool" where
  "added h k v h' \<longleftrightarrow> tab_ok h' \<and> pending h' = used h' \<and> tab_keys h' = insert k (tab_keys h) \<and>
     (\<forall>k'. k' \<noteq> 0 \<longrightarrow> tval h' k' = (if k' = k then v else tval h k')) \<and>
     hcount h \<le> hcount h' \<and> hcount h' \<le> hcount h + (if k \<in> tab_keys h then 0 else 1) \<and>
     threshold h' = threshold h \<and> hmax h' = hmax h \<and> hnext h' = hnext h \<and> assimilated h' = assimilated h"

lemma entry_eq: "e\<lparr>ekey := k, eval := v\<rparr> = (\<lparr>ekey = k, eval = v\<rparr> :: lfht_entry)"
  by (cases e) simp

lemma add_loop_run:
  assumes w: "hdrs w a = Some h" and ok: "tab_ok h" and cl: "pending h = used h" and k: "clean k"
    and room: "hcount h \<le> threshold h"
  shows "\<exists>h'. added h k v h' \<and>
    add_loop mm w a k v (hmax h - 1) (home h k) (home h k) r =
      (if hcount h' > threshold h then do { (_, w') \<leftarrow> grow_table mm (set_hdr w a h') a; Some (True, w') }
       else Some (True, set_hdr w a h'))"
proof -
  let ?j = "home h k" and ?F = "\<lambda>i. add_loop mm w a k v (hmax h - 1) (home h k) i r"
  have j: "?j < hmax h" using ok by simp
  have k0: "k \<noteq> 0" using k by (simp add: clean_def)
  have room': "hcount h < hmax h" using room threshold_less [OF ok] by simp
  obtain d where d: "stop_at h ?j k d" by (rule stop_exists [OF ok room' j])
  have i: "probe h ?j d < hmax h" using ok by simp
  have "?F (probe h ?j e) = ?F (probe h ?j (Suc e))" if "e < d" for e
    using d that stop_next [OF ok j d that] probe_step(1) [OF ok, of ?j e] w ok
    by (subst add_loop.simps) (simp add: stop_at_def Let_def)
  then have *: "?F ?j = ?F (probe h ?j d)" using walk [of d ?F "probe h ?j"] by (simp add: probe_0 [OF j])
  show ?thesis
  proof (cases "hkey h (probe h ?j d) = 0")
    case True
    let ?h = "put_entry h (probe h ?j d) k v"
    have abs: "k \<notin> tab_keys h" by (rule stop_hole [OF ok k d True])
    have org: "origin (hkey h i) \<noteq> k" if "i \<in> used h" for i
    proof
      assume "origin (hkey h i) = k"
      moreover have "clean (hkey h i)" using that cl by (auto simp: pending_def)
      ultimately have "hkey h i = k" by (simp add: clean_def origin_clean)
      then show False using abs that by (auto simp: tab_keys_def)
    qed
    have d': "d < hmax h" "\<And>e. e < d \<Longrightarrow> hkey h (probe h ?j e) \<noteq> 0" using d by (auto simp: stop_at_def)
    have "used ?h = insert (probe h ?j d) (used h)" "pending ?h = insert (probe h ?j d) (pending h)"
      using i k k0 by (auto simp: used_def pending_def hkey_write)
    then have "added h k v ?h"
      using put_entry_correct(1,2) [OF ok k abs org d'(1) True d'(2), of v]
        put_entry_correct(3) [OF ok k abs org d'(1) True d'(2), of _ v] abs cl
      by (auto simp: added_def)
    moreover have "?F (probe h ?j d) =
      (if hcount ?h > threshold h then do { (_, w') \<leftarrow> grow_table mm (set_hdr w a ?h) a; Some (True, w') }
       else Some (True, set_hdr w a ?h))"
      using True w i cas_key_hit [OF w i, of k]
      by (subst add_loop.simps) (simp add: put_entry_def Let_def case_prod_unfold entry_eq)
    ultimately show ?thesis using * by (intro exI [of _ ?h]) simp
  next
    case False
    note hit = stop_key [OF ok d False]
    let ?h = "put_val h (probe h ?j d) v"
    have "?F (probe h ?j d) = Some (True, set_hdr w a ?h)"
      using hit w i k0 by (subst add_loop.simps) (simp add: cas_val_hit [OF w i])
    moreover have "used ?h = used h" "pending ?h = pending h"
      by (simp_all add: used_def pending_def hkey_write)
    moreover from this have "added h k v ?h"
      using put_val_correct(1,2) [OF ok i hit(1) k0, of v] put_val_correct(3) [OF ok i hit(1) k0, of _ v]
        hit(2) cl by (auto simp: added_def)
    ultimately show ?thesis using * room by (intro exI [of _ ?h]) simp
  qed
qed

end
