(* ===== verification/Lfht_Migrate.thy ===== *)
theory Lfht_Migrate
  imports Lfht_Ops
begin

text \<open>
  The migration of \<open>lfht.c\<close>. A table that is expanding (\<open>lf_moving\<close>) holds every key in exactly one of
  its two tables; \<open>assimilate\<close> keeps what the two say together, leaves the key of the operation out of
  the old table, and moves enough entries to pay for the operation: \<open>4\<close> for every entry still to be moved
  and \<open>3\<close> for every entry of the new table never exceed \<open>3\<close> times its threshold, so that the new table
  cannot have to grow before the old one is empty.
\<close>

section \<open>The two states of a table\<close>

definition lf_settled :: "nat \<Rightarrow> lfht \<Rightarrow> hdr_ptr \<Rightarrow> lfht_hdr \<Rightarrow> (u64 \<Rightarrow> u64) \<Rightarrow> bool" where
  "lf_settled n w a h M \<longleftrightarrow>
     finite (dom (hdrs w)) \<and> table_hdr w = Some a \<and> hdrs w a = Some h \<and> tab_ok h \<and> \<not> assimilated h \<and>
     pending h = used h \<and>
     (ht_state w = INITIAL \<and> hnext h = None \<or>
      ht_state w = EXPANDED \<and> (\<exists>p ph. hnext h = Some p \<and> p \<noteq> a \<and> hdrs w p = Some ph \<and> assimilated ph)) \<and>
     hcount h \<le> threshold h \<and> hcount h \<le> n \<and> (\<forall>k. clean k \<longrightarrow> M k = tval h k)"

definition budget :: "lfht_hdr \<Rightarrow> lfht_hdr \<Rightarrow> nat" where
  "budget h ho = 4 * card (pending ho) + 3 * hcount h"

definition lf_moving :: "nat \<Rightarrow> lfht \<Rightarrow> hdr_ptr \<Rightarrow> lfht_hdr \<Rightarrow> hdr_ptr \<Rightarrow> lfht_hdr \<Rightarrow> (u64 \<Rightarrow> u64) \<Rightarrow> bool" where
  "lf_moving n w a h p ho M \<longleftrightarrow>
     finite (dom (hdrs w)) \<and> ht_state w = EXPANDING \<and> table_hdr w = Some a \<and> hdrs w a = Some h \<and> hdrs w p = Some ho \<and> a \<noteq> p \<and>
     hnext h = Some p \<and> tab_ok h \<and> tab_ok ho \<and> \<not> assimilated h \<and> \<not> assimilated ho \<and> pending h = used h \<and>
     tab_keys h \<inter> tab_keys ho = {} \<and>
     (\<forall>k. clean k \<longrightarrow> M k = (if k \<in> tab_keys h then tval h k else tval ho k)) \<and>
     budget h ho \<le> 3 * threshold h \<and> hcount h + card (pending ho) \<le> n"

lemma clean_keys: "pending h = used h \<Longrightarrow> k \<in> tab_keys h \<Longrightarrow> clean k"
  by (auto simp: tab_keys_def pending_def)

lemma tab_keys_zero [simp]: "0 \<notin> tab_keys h"
  by (simp add: tab_keys_iff)

section \<open>Moving one entry\<close>

lemma lfht_add_internal_run:
  assumes m: "table_hdr w = Some a" "hdrs w a = Some h" "tab_ok h" "pending h = used h" "\<not> assimilated h"
    and k: "clean k" "v \<noteq> 0" and room: "hcount h < threshold h"
  shows "\<exists>h'. added h k v h' \<and> lfht_add_internal mm w k v = Some (True, set_hdr w a h')"
proof -
  obtain h' where h': "added h k v h'"
    "add_loop mm w a k v (hmax h - 1) (home h k) (home h k) False =
      (if hcount h' > threshold h then do { (_, w') \<leftarrow> grow_table mm (set_hdr w a h') a; Some (True, w') }
       else Some (True, set_hdr w a h'))"
    using add_loop_run [OF m(2,3,4) k(1), where mm = mm and v = v and r = False] room by auto
  have "\<not> hcount h' > threshold h" using h'(1) room by (auto simp: added_def split: if_splits)
  then have loop: "add_loop mm w a k v (hmax h - 1) (home h k) (home h k) False = Some (True, set_hdr w a h')"
    using h'(2) by simp
  moreover have "unat (jenkins_hash_ptr k) AND (hmax h - 1) = home h k"
    using probe_step(2) [OF m(3)] by (simp add: home_def)
  ultimately have "add_retry mm w k v (unat (jenkins_hash_ptr k)) False False = Some (True, set_hdr w a h')"
    using m(1,2) by (subst add_retry.simps) simp
  then show ?thesis
    using h'(1) m(1) k by (auto simp: lfht_add_internal_def lfht_add_with_def clean_def TOMBSTONE_def)
qed

lemma card_pending_mark:
  assumes "tab_ok ho" and "x \<in> pending ho"
  shows "Suc (card (pending (mark_entry ho x))) = card (pending ho)"
proof -
  have "x < hmax ho" "clean (hkey ho x)" using assms(2) by (auto simp: pending_def)
  then have "pending (mark_entry ho x) = pending ho - {x}"
    using mark_entry_correct(4) [OF assms(1) _ refl] by blast
  then show ?thesis using card_Suc_Diff1 [OF finite_used(2) assms(2)] by simp
qed

lemma mark_keys:
  assumes "tab_ok ho" and "x \<in> pending ho"
  shows "tab_ok (mark_entry ho x)" and "hkey ho x \<notin> tab_keys (mark_entry ho x)"
    and "clean k \<Longrightarrow> k \<in> tab_keys (mark_entry ho x) \<Longrightarrow> k \<in> tab_keys ho \<and> k \<noteq> hkey ho x"
    and "clean k \<Longrightarrow> tval (mark_entry ho x) k = (if k = hkey ho x then 0 else tval ho k)"
proof -
  have x: "x < hmax ho" "clean (hkey ho x)" using assms(2) by (auto simp: pending_def)
  note c = mark_entry_correct [OF assms(1) x(1) refl x(2)]
  show "tab_ok (mark_entry ho x)" by (rule c(1))
  have ne: "k \<noteq> set_assimilated (hkey ho x)" if "clean k" for k
    using clean_ne_assimilated that by (auto simp: clean_def)
  show "k \<in> tab_keys ho \<and> k \<noteq> hkey ho x" if "clean k" "k \<in> tab_keys (mark_entry ho x)" for k
    using c(2) ne [OF that(1)] that(2) by auto
  from this [OF x(2)] show "hkey ho x \<notin> tab_keys (mark_entry ho x)" by auto
  show "tval (mark_entry ho x) k = (if k = hkey ho x then 0 else tval ho k)" if "clean k" for k
    by (rule c(3) [OF that])
qed

lemma move_entry:
  assumes mv: "lf_moving n w a h p ho M" and x: "x \<in> pending ho" and v: "eval (htable ho x) \<noteq> 0"
  shows "\<exists>w' h'. lfht_add_internal mm (set_hdr w p (mark_entry ho x)) (hkey ho x) (eval (htable ho x)) = Some (True, w') \<and>
     lf_moving n w' a h' p (mark_entry ho x) M \<and> hcount h' \<le> hcount h + 1 \<and> threshold h' = threshold h"
proof -
  let ?q = "hkey ho x" and ?v = "eval (htable ho x)" and ?ho = "mark_entry ho x"
  let ?w = "set_hdr w p ?ho"
  have m: "table_hdr w = Some a" "hdrs w a = Some h" "hdrs w p = Some ho" "a \<noteq> p" "tab_ok h" "tab_ok ho"
    "pending h = used h" "\<not> assimilated h" "\<not> assimilated ho" "hnext h = Some p" "ht_state w = EXPANDING"
    "tab_keys h \<inter> tab_keys ho = {}" "budget h ho \<le> 3 * threshold h" "hcount h + card (pending ho) \<le> n"
    "finite (dom (hdrs w))"
    using mv by (simp_all add: lf_moving_def)
  have M: "M k = (if k \<in> tab_keys h then tval h k else tval ho k)" if "clean k" for k
    using mv that by (simp add: lf_moving_def)
  have q: "x < hmax ho" "clean ?q" "?q \<in> tab_keys ho" "?q \<noteq> 0"
    using x by (auto simp: pending_def clean_def tab_keys_iff)
  note cd = card_pending_mark [OF m(6) x] and mk = mark_keys [OF m(6) x]
  have room: "hcount h < threshold h" using m(13) cd by (simp add: budget_def)
  have wa: "table_hdr ?w = Some a" "hdrs ?w a = Some h" using m(1,2,4) by simp_all
  obtain h' where h': "added h ?q ?v h'" "lfht_add_internal mm ?w ?q ?v = Some (True, set_hdr ?w a h')"
    using lfht_add_internal_run [OF wa m(5,7,8) q(2) v room] by blast
  have a: "tab_ok h'" "pending h' = used h'" "tab_keys h' = insert ?q (tab_keys h)" "hcount h' \<le> hcount h + 1"
    "threshold h' = threshold h" "hnext h' = hnext h" "assimilated h' = assimilated h"
    using h'(1) by (auto simp: added_def split: if_splits)
  have tv: "tval h' k = (if k = ?q then ?v else tval h k)" if "k \<noteq> 0" for k
    using h'(1) that by (simp add: added_def)
  have "tab_keys h' \<inter> tab_keys ?ho = {}"
    using m(12) mk(2,3) clean_keys [OF a(2)] unfolding a(3) by blast
  moreover have "M k = (if k \<in> tab_keys h' then tval h' k else tval ?ho k)" if "clean k" for k
  proof (cases "k = ?q")
    case True
    then have "k \<notin> tab_keys h" using m(12) q(3) by auto
    then show ?thesis using True M [OF that] tv [of k] a(3) q tval_hit [OF m(6) q(1) refl q(4)] by simp
  next
    case False
    then show ?thesis using M [OF that] tv [of k] a(3) mk(4) [OF that] that by (simp add: clean_def)
  qed
  ultimately have "lf_moving n (set_hdr ?w a h') a h' p ?ho M"
    using m a cd mk(1) by (simp add: lf_moving_def budget_def)
  then show ?thesis using h'(2) a(4,5) by blast
qed

text \<open>A removed entry is only marked.\<close>

lemma drop_entry:
  assumes mv: "lf_moving n w a h p ho M" and x: "x \<in> pending ho" and v: "eval (htable ho x) = 0"
  shows "lf_moving n (set_hdr w p (mark_entry ho x)) a h p (mark_entry ho x) M"
proof -
  let ?q = "hkey ho x" and ?ho = "mark_entry ho x"
  have m: "table_hdr w = Some a" "hdrs w a = Some h" "hdrs w p = Some ho" "a \<noteq> p" "tab_ok h" "tab_ok ho"
    "pending h = used h" "\<not> assimilated h" "\<not> assimilated ho" "hnext h = Some p" "ht_state w = EXPANDING"
    "tab_keys h \<inter> tab_keys ho = {}" "budget h ho \<le> 3 * threshold h" "hcount h + card (pending ho) \<le> n"
    "finite (dom (hdrs w))"
    using mv by (simp_all add: lf_moving_def)
  have M: "M k = (if k \<in> tab_keys h then tval h k else tval ho k)" if "clean k" for k
    using mv that by (simp add: lf_moving_def)
  note cd = card_pending_mark [OF m(6) x] and mk = mark_keys [OF m(6) x]
  have q: "x < hmax ho" "?q \<noteq> 0" using x by (auto simp: pending_def clean_def)
  have "tab_keys h \<inter> tab_keys ?ho = {}"
    using m(12) mk(3) clean_keys [OF m(7)] by blast
  moreover have "M k = (if k \<in> tab_keys h then tval h k else tval ?ho k)" if "clean k" for k
    using M [OF that] mk(4) [OF that] v tval_hit [OF m(6) q(1) refl q(2)] by simp
  ultimately show ?thesis using m cd mk(1) by (simp add: lf_moving_def budget_def)
qed

section \<open>The migration tax\<close>

text \<open>What a run of the loop achieves with the budget \<open>b\<close>, out of which every counted move is paid.\<close>

definition assimilated_run ::
  "nat \<Rightarrow> hdr_ptr \<Rightarrow> nat \<Rightarrow> hdr_ptr \<Rightarrow> (u64 \<Rightarrow> u64) \<Rightarrow> u64 \<Rightarrow> nat \<Rightarrow> nat \<Rightarrow> (nat \<times> lfht) option \<Rightarrow> bool" where
  "assimilated_run n a t p M key count b r \<longleftrightarrow>
     (\<exists>moved w' h' ho'. r = Some (moved, w') \<and> lf_moving n w' a h' p ho' M \<and> threshold h' = t \<and>
        key \<notin> tab_keys ho' \<and> budget h' ho' + moved \<le> b \<and> (moved < count \<longrightarrow> pending ho' = {}))"

text \<open>The state of the loop after \<open>d\<close> slots, seen from the home slot of the key.\<close>

definition assim_inv :: "lfht_hdr \<Rightarrow> u64 \<Rightarrow> nat \<Rightarrow> nat \<Rightarrow> bool \<Rightarrow> nat \<Rightarrow> bool" where
  "assim_inv ho key count d success retval \<longleftrightarrow>
     (\<forall>e < d. hkey ho (probe ho (home ho key) e) \<noteq> key) \<and> (success \<longrightarrow> key \<notin> tab_keys ho) \<and>
     (retval < count \<longrightarrow> (\<forall>e < d. probe ho (home ho key) e \<notin> pending ho))"

lemma assim_inv_all:
  assumes "assim_inv ho key count (hmax ho) success retval" and "tab_ok ho" and "key \<noteq> 0"
  shows "key \<notin> tab_keys ho" and "retval < count \<Longrightarrow> pending ho = {}"
proof -
  have cov: "\<exists>d < hmax ho. i = probe ho (home ho key) d" if "i < hmax ho" for i
    using probe_surj [OF that home_less [OF assms(2)]] by blast
  show "key \<notin> tab_keys ho"
    using assms(1) cov by (fastforce simp: assim_inv_def tab_keys_iff)
  show "pending ho = {}" if "retval < count"
    using assms(1) cov that by (fastforce simp: assim_inv_def pending_def)
qed

text \<open>A slot holding the marked key, like a hole, shows that the key is no longer in the table.\<close>

lemma marked_absent:
  assumes "tab_ok h" and "clean k" and "i < hmax h" and "hkey h i = set_assimilated k"
  shows "k \<notin> tab_keys h"
proof
  assume "k \<in> tab_keys h"
  then obtain i' where i': "i' < hmax h" "hkey h i' = k" by (auto simp: tab_keys_iff)
  have "origin (hkey h i) = origin (hkey h i')"
    using assms(2,4) i'(2) by (simp add: clean_def origin_clean origin_set_assimilated)
  moreover have "i \<in> used h" "i' \<in> used h" using assms i' by (auto simp: used_def clean_def)
  ultimately have "i = i'" using tab_okD(5) [OF assms(1)] by (auto simp: inj_on_def)
  then show False using assms(2,4) i'(2) clean_ne_assimilated [of k k] by (simp add: clean_def)
qed

lemma assim_inv_step:
  assumes inv: "assim_inv ho key count d success retval" and ok: "tab_ok ho" and k: "clean key" and d: "d < hmax ho"
    and i: "i = probe ho (home ho key) d"
    and skip: "hkey ho i \<noteq> key" and keep: "retval < count \<Longrightarrow> i \<notin> pending ho"
  shows "assim_inv ho key count (Suc d) (hkey ho i = 0 \<or> hkey ho i = set_assimilated key \<or> success) retval"
proof -
  have "key \<notin> tab_keys ho" if "hkey ho i = 0"
    using inv that unfolding i assim_inv_def by (intro hole_absent [OF ok k d]) auto
  moreover have "key \<notin> tab_keys ho" if "hkey ho i = set_assimilated key"
    using marked_absent [OF ok k _ that] ok i by simp
  ultimately show ?thesis using inv skip keep unfolding i assim_inv_def less_Suc_eq by blast
qed

text \<open>Marking the entry under the loop keeps the invariant, whatever is counted for it.\<close>

lemma assim_inv_mark:
  assumes inv: "assim_inv ho key count d success retval" and ok: "tab_ok ho" and k: "clean key" and d: "d < hmax ho"
    and i: "i = probe ho (home ho key) d" and x: "i \<in> pending ho" and le: "retval \<le> retval'"
  shows "assim_inv (mark_entry ho i) key count (Suc d) (hkey ho i = key \<or> success) retval'"
proof -
  have x': "i < hmax ho" "clean (hkey ho i)" using x by (auto simp: pending_def)
  have key: "set_assimilated q \<noteq> key" for q using k by (auto simp: clean_def)
  have p: "pending (mark_entry ho i) = pending ho - {i}"
    by (rule mark_entry_correct(4) [OF ok x'(1) refl x'(2)])
  have "hkey (mark_entry ho i) (probe ho (home ho key) e) \<noteq> key" if "e < Suc d" for e
    using inv that key i unfolding assim_inv_def hkey_write less_Suc_eq by auto
  moreover have "key \<notin> tab_keys (mark_entry ho i)" if "hkey ho i = key \<or> success"
    using that mark_keys(2,3) [OF ok x] k inv unfolding assim_inv_def by blast
  moreover have "probe ho (home ho key) e \<notin> pending (mark_entry ho i)" if "e < Suc d" "retval' < count" for e
    using inv that le i unfolding p assim_inv_def less_Suc_eq by auto
  ultimately show ?thesis unfolding assim_inv_def by simp
qed

lemma assimilated_run_done:
  assumes "lf_moving n w a h p ho M" and "key \<notin> tab_keys ho" and "retval < count \<Longrightarrow> pending ho = {}"
    and "budget h ho + retval \<le> b" and "threshold h = t"
  shows "assimilated_run n a t p M key count b (Some (retval, w))"
  using assms unfolding assimilated_run_def by fastforce

lemma assimilate_loop_run:
  assumes "lf_moving n w a h p ho M" and k: "clean key" and "assim_inv ho key count d success retval"
    and "d < hmax ho" and "i = probe ho (home ho key) d" and "budget h ho + retval \<le> b"
    and "j = home ho key" and "msk = hmax ho - 1"
  shows "assimilated_run n a (threshold h) p M key count b
    (assimilate_loop mm w p key (set_assimilated key) count msk j i success retval)"
  using assms
proof (induction "hmax ho - d" arbitrary: w h ho d success retval i rule: less_induct)
  case less
  let ?loop = "assimilate_loop mm" and ?dk = "set_assimilated key"
  have m: "hdrs w p = Some ho" "tab_ok ho" using less.prems(1) by (simp_all add: lf_moving_def)
  have k0: "key \<noteq> 0" "\<not> is_assimilated key" "key \<noteq> ?dk"
    using k clean_ne_assimilated by (simp_all add: clean_def)
  have i: "i < hmax ho" using less.prems(5) m(2) by simp
  have nxt: "(i + 1) AND msk = probe ho (home ho key) (Suc d)"
    using probe_step(1) [OF m(2)] less.prems(5,8) by simp
  have cont: "assimilated_run n a (threshold h) p M key count b
      (if (i + 1) AND msk = j then Some (retval', w')
       else ?loop w' p key ?dk count msk j ((i + 1) AND msk) success' retval')"
    if st: "lf_moving n w' a h' p ho' M" "assim_inv ho' key count (Suc d) success' retval'"
      "budget h' ho' + retval' \<le> b" "threshold h' = threshold h"
      and same: "hmax ho' = hmax ho" "home ho' = home ho" "probe ho' = probe ho" for w' h' ho' success' retval'
  proof (cases "Suc d = hmax ho")
    case True
    have ok': "tab_ok ho'" using st(1) by (simp add: lf_moving_def)
    have "(i + 1) AND msk = j" using nxt True less.prems(7) m(2) by (simp add: probe_wrap)
    moreover have "assim_inv ho' key count (hmax ho') success' retval'" using st(2) True same by simp
    note assim_inv_all [OF this ok' k0(1)]
    ultimately show ?thesis using assimilated_run_done [OF st(1) _ _ st(3,4), of key count] by simp
  next
    case False
    then have "Suc d < hmax ho" using less.prems(4) by simp
    moreover from this have "(i + 1) AND msk \<noteq> j"
      using nxt less.prems(7) probe_ne_start [of "Suc d" ho j] m(2) by simp
    ultimately show ?thesis
      using less.hyps [of ho' "Suc d" w' h' success' retval' "(i + 1) AND msk"] st same nxt k less.prems(7,8)
      by simp
  qed
  have unfolded: "?loop w p key ?dk count msk j i success retval =
    (let success' = hkey ho i = 0 \<or> hkey ho i = ?dk \<or> hkey ho i = key \<or> success in
     if hkey ho i = key \<or> retval < count then do {
       (retval, w) \<leftarrow>
         (if i \<in> pending ho then
            (if eval (htable ho i) \<noteq> 0 then do {
               (_, w) \<leftarrow> lfht_add_internal mm (set_hdr w p (mark_entry ho i)) (hkey ho i) (eval (htable ho i));
               Some (retval + 1, w) }
             else Some (retval, set_hdr w p (mark_entry ho i)))
          else Some (retval, w));
       if (i + 1) AND msk = j then Some (retval, w)
       else ?loop w p key ?dk count msk j ((i + 1) AND msk) success' retval }
     else if success' \<and> retval \<ge> count then Some (retval, w)
     else if (i + 1) AND msk = j then Some (retval, w)
     else ?loop w p key ?dk count msk j ((i + 1) AND msk) success' retval)"
    using m i k0 cas_key_hit [OF m(1) i]
    by (subst assimilate_loop.simps)
      (cases "hkey ho i = 0"; cases "is_assimilated (hkey ho i)"; cases "hkey ho i = key"; cases "eval (htable ho i) = 0";
       simp add: Let_def pending_def clean_def TOMBSTONE_def mark_entry_def case_prod_unfold cong: if_cong)
  have stay: "assim_inv ho key count (Suc d) (hkey ho i = 0 \<or> hkey ho i = ?dk \<or> success) retval"
    if "hkey ho i \<noteq> key" "retval < count \<Longrightarrow> i \<notin> pending ho"
    by (rule assim_inv_step [OF less.prems(3) m(2) k less.prems(4,5) that])
  show ?case
  proof (cases "i \<in> pending ho \<and> (hkey ho i = key \<or> retval < count)")
    case True
    have pend: "i \<in> pending ho" and cond: "hkey ho i = key \<or> retval < count" using True by simp_all
    then have ne: "hkey ho i \<noteq> 0" "hkey ho i \<noteq> ?dk"
      using clean_ne_assimilated [of "hkey ho i" key] by (auto simp: pending_def clean_def)
    note mark = assim_inv_mark [OF less.prems(3) m(2) k less.prems(4,5) pend]
    note cd = card_pending_mark [OF m(2) pend]
    show ?thesis
    proof (cases "eval (htable ho i) = 0")
      case True
      note st = drop_entry [OF less.prems(1) pend True]
      show ?thesis unfolding unfolded
        using cont [OF st mark [OF order_refl]] True pend cond ne cd less.prems(6) by (simp add: budget_def)
    next
      case False
      obtain w' h' where mv: "lfht_add_internal mm (set_hdr w p (mark_entry ho i)) (hkey ho i) (eval (htable ho i)) = Some (True, w')"
        "lf_moving n w' a h' p (mark_entry ho i) M" "hcount h' \<le> hcount h + 1" "threshold h' = threshold h"
        using move_entry [OF less.prems(1) pend False] by blast
      show ?thesis unfolding unfolded
        using cont [OF mv(2) mark [of "retval + 1"]] mv(1,3,4) False pend cond ne cd less.prems(6)
        by (simp add: budget_def cong: if_cong)
    qed
  next
    case False
    have ne: "hkey ho i \<noteq> key" using False i k by (auto simp: pending_def)
    have "retval < count \<Longrightarrow> i \<notin> pending ho" using False by simp
    note inv = stay [OF ne this]
    show ?thesis
    proof (cases "retval < count")
      case True
      then show ?thesis unfolding unfolded
        using cont [OF less.prems(1) inv less.prems(6)] False ne by (simp cong: if_cong)
    next
      case more: False
      show ?thesis
      proof (cases "hkey ho i = 0 \<or> hkey ho i = ?dk \<or> success")
        case True
        then have "key \<notin> tab_keys ho" using inv by (simp add: assim_inv_def)
        then show ?thesis unfolding unfolded
          using True more ne assimilated_run_done [OF less.prems(1) _ _ less.prems(6) refl] by auto
      next
        case False
        then show ?thesis unfolding unfolded
          using cont [OF less.prems(1) inv less.prems(6)] more ne by (simp cong: if_cong)
      qed
    qed
  qed
qed

end
