(* ===== verification/Lfht_Props.thy ===== *)
theory Lfht_Props
  imports Lfht_Migrate
begin

text \<open>
  The operations of \<open>lfht.c\<close> on the represented map: \<open>lf_rep n w M\<close> says that the table \<open>w\<close> represents
  \<open>M\<close>, where \<open>0\<close> stands for no value, after at most \<open>n\<close> additions. The locale \<open>update_map\<close> is the
  interface \<open>lookup.c\<close> relies on.
\<close>

section \<open>Representation\<close>

definition lf_rep :: "nat \<Rightarrow> lfht \<Rightarrow> (u64 \<Rightarrow> u64) \<Rightarrow> bool" where
  "lf_rep n w M \<longleftrightarrow> (\<forall>k. \<not> clean k \<longrightarrow> M k = 0) \<and>
     (\<exists>a h. lf_settled n w a h M \<or> (\<exists>p ho. lf_moving n w a h p ho M))"

text \<open>The state after the migration of an operation on \<open>k\<close>: the old table is done or does not hold \<open>k\<close>.\<close>

definition lf_paid :: "nat \<Rightarrow> u64 \<Rightarrow> lfht \<Rightarrow> hdr_ptr \<Rightarrow> lfht_hdr \<Rightarrow> (u64 \<Rightarrow> u64) \<Rightarrow> bool" where
  "lf_paid n k w a h M \<longleftrightarrow> lf_settled n w a h M \<or>
     (\<exists>p ho. lf_moving n w a h p ho M \<and> k \<notin> tab_keys ho \<and> budget h ho + 3 \<le> 3 * threshold h)"

definition mmap_ok :: "lf_mmap \<Rightarrow> bool" where
  "mmap_ok mm \<longleftrightarrow> (\<forall>R sz. finite R \<longrightarrow> (\<exists>a. mm R sz = Some a \<and> a \<notin> R))"

lemma lf_front:
  assumes "lf_paid n k w a h M" and "clean k"
  shows "table_hdr w = Some a" and "hdrs w a = Some h" and "tab_ok h" and "\<not> assimilated h"
    and "pending h = used h" and "hcount h \<le> threshold h" and "M k = tval h k"
proof -
  have k: "k \<noteq> 0" using assms(2) by (simp add: clean_def)
  show "M k = tval h k"
    using assms tval_miss [OF _ k] by (auto simp: lf_paid_def lf_settled_def lf_moving_def)
qed (use assms in \<open>auto simp: lf_paid_def lf_settled_def lf_moving_def budget_def\<close>)

section \<open>Migration\<close>

lemma lf_finished:
  assumes mv: "lf_moving n w a h p ho M" and e: "pending ho = {}"
  shows "lf_settled n ((set_hdr w p (ho\<lparr>assimilated := True\<rparr>))\<lparr>ht_state := EXPANDED\<rparr>) a h M"
proof -
  have "k \<notin> tab_keys ho" if "clean k" for k
    using e that by (auto simp: tab_keys_def pending_def used_def)
  then have "M k = tval h k" if "clean k" for k
    using mv that tval_miss [of k ho] tval_miss [of k h] by (auto simp: lf_moving_def clean_def)
  then show ?thesis using mv by (auto simp: lf_moving_def lf_settled_def budget_def)
qed

text \<open>Every operation on an expanding table pays at least \<open>3\<close> of the budget, or finishes the migration.\<close>

lemma migrate_table_pays:
  assumes mv: "lf_moving n w a h p ho M" and k: "clean k"
  shows "\<exists>w' h'. migrate_table mm w k (unat (jenkins_hash_ptr k)) = Some w' \<and>
    (lf_settled n w' a h' M \<or>
     (\<exists>ho'. lf_moving n w' a h' p ho' M \<and> k \<notin> tab_keys ho' \<and> threshold h' = threshold h \<and>
        budget h' ho' + 3 \<le> budget h ho))"
proof -
  have m: "ht_state w = EXPANDING" "table_hdr w = Some a" "hdrs w a = Some h" "hnext h = Some p" "hdrs w p = Some ho"
    "tab_ok ho" "\<not> assimilated ho"
    using mv by (simp_all add: lf_moving_def)
  have pos: "0 < hmax ho" using tab_okD(6) [OF m(6)] by simp
  have j: "unat (jenkins_hash_ptr k) AND (hmax ho - 1) = home ho k"
    using probe_step(2) [OF m(6)] by (simp add: home_def)
  have "assimilated_run n a (threshold h) p M k 3 (budget h ho)
    (assimilate_loop mm w p k (set_assimilated k) 3 (hmax ho - 1) (home ho k) (home ho k) False 0)"
    by (rule assimilate_loop_run [OF mv k _ pos _ _ refl refl, of 3 False 0])
      (use m(6) in \<open>simp_all add: assim_inv_def probe_0\<close>)
  then obtain moved w' h' ho' where r: "lf_moving n w' a h' p ho' M" "threshold h' = threshold h"
    "k \<notin> tab_keys ho'" "budget h' ho' + moved \<le> budget h ho" "moved < 3 \<longrightarrow> pending ho' = {}"
    "assimilate_loop mm w p k (set_assimilated k) 3 (hmax ho - 1) (home ho k) (home ho k) False 0 = Some (moved, w')"
    unfolding assimilated_run_def by blast
  have a: "assimilate mm w p k (unat (jenkins_hash_ptr k)) MIGRATIONS_PER_ACCESS = Some (moved, w')"
    using m(5,7) j r(6) by (simp add: assimilate_def Let_def MIGRATIONS_PER_ACCESS_def)
  have m': "hdrs w' p = Some ho'" "table_hdr w' = Some a" using r(1) by (simp_all add: lf_moving_def)
  show ?thesis
  proof (cases "moved < 3")
    case True
    then have "lf_settled n ((set_hdr w' p (ho'\<lparr>assimilated := True\<rparr>))\<lparr>ht_state := EXPANDED\<rparr>) a h' M"
      using lf_finished [OF r(1)] r(5) by simp
    moreover have "migrate_table mm w k (unat (jenkins_hash_ptr k)) =
        Some ((set_hdr w' p (ho'\<lparr>assimilated := True\<rparr>))\<lparr>ht_state := EXPANDED\<rparr>)"
      using m a m' True by (simp add: migrate_table_def MIGRATIONS_PER_ACCESS_def Let_def)
    ultimately show ?thesis by blast
  next
    case False
    then have "budget h' ho' + 3 \<le> budget h ho" using r(4) by simp
    moreover have "migrate_table mm w k (unat (jenkins_hash_ptr k)) = Some w'"
      using m a False by (simp add: migrate_table_def MIGRATIONS_PER_ACCESS_def)
    ultimately show ?thesis using r(1-3) by blast
  qed
qed

lemma migrate_table_run:
  assumes "lf_settled n w a h M \<or> (\<exists>p ho. lf_moving n w a h p ho M)" and k: "clean k"
  shows "\<exists>w' h'. migrate_table mm w k (unat (jenkins_hash_ptr k)) = Some w' \<and> lf_paid n k w' a h' M"
  using assms(1)
proof (elim disjE exE)
  assume s: "lf_settled n w a h M"
  then have "ht_state w \<noteq> EXPANDING" by (auto simp: lf_settled_def)
  then show ?thesis using s by (auto simp: migrate_table_def lf_paid_def)
next
  fix p ho assume mv: "lf_moving n w a h p ho M"
  then have "budget h ho \<le> 3 * threshold h" by (simp add: lf_moving_def)
  then show ?thesis using migrate_table_pays [OF mv k, of mm] unfolding lf_paid_def by fastforce
qed

section \<open>Changing the front table\<close>

definition changed :: "lfht_hdr \<Rightarrow> u64 \<Rightarrow> u64 \<Rightarrow> lfht_hdr \<Rightarrow> bool" where
  "changed h k v h' \<longleftrightarrow> tab_ok h' \<and> pending h' = used h' \<and>
     tab_keys h \<subseteq> tab_keys h' \<and> tab_keys h' \<subseteq> insert k (tab_keys h) \<and>
     (\<forall>k'. k' \<noteq> 0 \<longrightarrow> tval h' k' = (if k' = k then v else tval h k')) \<and>
     hcount h \<le> hcount h' \<and> threshold h' = threshold h \<and> hmax h' = hmax h \<and> hnext h' = hnext h \<and>
     assimilated h' = assimilated h"

lemma lf_settled_change:
  assumes "lf_settled n w a h M" and "changed h k v h'" and "hcount h' \<le> threshold h'" and "hcount h' \<le> n'"
  shows "lf_settled n' (set_hdr w a h') a h' (M(k := v))"
  using assms by (auto simp: lf_settled_def changed_def clean_def)

lemma lf_moving_change:
  assumes mv: "lf_moving n w a h p ho M" and k: "k \<notin> tab_keys ho" "clean k" and c: "changed h k v h'"
    and b: "budget h' ho \<le> 3 * threshold h'" "hcount h' + card (pending ho) \<le> n'"
  shows "lf_moving n' (set_hdr w a h') a h' p ho (M(k := v))"
proof -
  have M: "M k' = (if k' \<in> tab_keys h then tval h k' else tval ho k')" if "clean k'" for k'
    using mv that by (simp add: lf_moving_def)
  have tv: "tval h' k' = (if k' = k then v else tval h k')" if "clean k'" for k'
    using c that by (simp add: changed_def clean_def)
  have ks: "tab_keys h \<subseteq> tab_keys h'" "tab_keys h' \<subseteq> insert k (tab_keys h)" using c by (simp_all add: changed_def)
  have "(M(k := v)) k' = (if k' \<in> tab_keys h' then tval h' k' else tval ho k')" if k': "clean k'" for k'
  proof (cases "k' = k")
    case True
    have k0: "k \<noteq> 0" using k(2) by (simp add: clean_def)
    have "tval h' k = v" using tv [OF k(2)] by simp
    then show ?thesis using True tval_miss [OF _ k0, of h'] tval_miss [OF k(1) k0] by auto
  next
    case False
    then show ?thesis using M [OF k'] tv [OF k'] ks by auto
  qed
  moreover have "tab_keys h' \<inter> tab_keys ho = {}" using mv k(1) ks by (auto simp: lf_moving_def)
  ultimately show ?thesis using mv c b by (simp add: lf_moving_def changed_def)
qed

section \<open>Growing\<close>

lemma threshold_double:
  fixes N :: nat
  assumes "4 \<le> N"
  shows "4 * (3 * N div 5) + 4 \<le> 3 * (3 * (2 * N) div 5)"
proof -
  define q where "q = 3 * N div 5"
  have N: "3 * N = 5 * q + 3 * N mod 5" unfolding q_def by simp
  have "3 * (2 * N) = 2 * (3 * N mod 5) + 5 * (2 * q)" using N by linarith
  then have "2 * q \<le> 3 * (2 * N) div 5" by (metis div_mult_self2 le_add1 zero_neq_numeral)
  moreover have "2 \<le> q" using assms unfolding q_def by simp
  ultimately show ?thesis unfolding q_def by linarith
qed

text \<open>A table of \<open>2 ^ 31\<close> slots is never full after \<open>2 ^ 30\<close> additions.\<close>

lemma small_max:
  assumes "tab_ok h" and "threshold h < n" and "n \<le> 2 ^ 30"
  shows "hmax h < MAX_TABLE_SIZE" and "\<exists>e. 2 \<le> e \<and> e \<le> 31 \<and> 2 * hmax h = 2 ^ e"
proof -
  obtain e where e: "2 \<le> e" "e \<le> 31" "hmax h = 2 ^ e" using assms(1) by (auto simp: tab_ok_def)
  have "e \<noteq> 31"
  proof
    assume "e = 31"
    then have "threshold h = 1288490188" unfolding tab_okD(2) [OF assms(1)] e(3) by (simp add: resize_threshold_def)
    then show False using assms(2,3) by simp
  qed
  then have le: "e \<le> 30" using e(2) by simp
  have "(2 :: nat) ^ e \<le> 2 ^ 30" by (rule power_increasing [OF le]) simp
  then show "hmax h < MAX_TABLE_SIZE" by (simp add: e(3) MAX_TABLE_SIZE_def)
  show "\<exists>e. 2 \<le> e \<and> e \<le> 31 \<and> 2 * hmax h = 2 ^ e"
    using e le by (intro exI [of _ "Suc e"]) simp
qed

definition empty_hdr :: "nat \<Rightarrow> hdr_ptr option \<Rightarrow> lfht_hdr" where
  "empty_hdr mx nx = \<lparr>assimilated = False, hsz = mx * 16 + 48, hmax = mx, threshold = resize_threshold mx,
     hcount = 0, hnext = nx, htable = (\<lambda>_. \<lparr>ekey = 0, eval = 0\<rparr>)\<rparr>"

lemma empty_hdr_ok:
  assumes "2 \<le> e" and "e \<le> 31" and "mx = 2 ^ e"
  shows "tab_ok (empty_hdr mx nx)" and "used (empty_hdr mx nx) = {}" and "pending (empty_hdr mx nx) = {}"
    and "tab_keys (empty_hdr mx nx) = {}" and "hcount (empty_hdr mx nx) = 0"
    and "threshold (empty_hdr mx nx) = resize_threshold mx" and "\<not> assimilated (empty_hdr mx nx)"
    and "hnext (empty_hdr mx nx) = nx"
proof -
  show u: "used (empty_hdr mx nx) = {}" by (simp add: used_def empty_hdr_def)
  show "tab_ok (empty_hdr mx nx)" using assms u by (auto simp: tab_ok_def empty_hdr_def)
  show "pending (empty_hdr mx nx) = {}" by (simp add: pending_def empty_hdr_def clean_def)
  show "tab_keys (empty_hdr mx nx) = {}" by (simp add: tab_keys_def u)
qed (simp_all add: empty_hdr_def)

lemma grow_table_run:
  assumes s: "lf_settled n w a h M" and c: "changed h k v h'" and k: "clean k"
    and over: "hcount h' = Suc (threshold h')" "hcount h' \<le> n'" "n' \<le> 2 ^ 30" and mm: "mmap_ok mm"
  shows "\<exists>w' b hn. grow_table mm (set_hdr w a h') a = Some (True, w') \<and> lf_moving n' w' b hn a h' (M(k := v))"
proof -
  have m: "finite (dom (hdrs w))" "table_hdr w = Some a" "hdrs w a = Some h" "tab_ok h" "\<not> assimilated h"
    "ht_state w = INITIAL \<and> hnext h = None \<or>
      ht_state w = EXPANDED \<and> (\<exists>p ph. hnext h = Some p \<and> p \<noteq> a \<and> hdrs w p = Some ph \<and> assimilated ph)"
    using s by (simp_all add: lf_settled_def)
  have M: "M k' = tval h k'" if "clean k'" for k' using s that by (simp add: lf_settled_def)
  have c': "tab_ok h'" "pending h' = used h'" "hnext h' = hnext h" "assimilated h' = assimilated h"
    using c by (simp_all add: changed_def)
  have tv: "tval h' k' = (if k' = k then v else tval h k')" if "k' \<noteq> 0" for k'
    using c that by (simp add: changed_def)
  let ?w = "set_hdr w a h'"
  have lt: "threshold h' < n'" using over(1,2) by simp
  obtain e where e: "2 \<le> e" "e \<le> 31" "2 * hmax h' = 2 ^ e" using small_max(2) [OF c'(1) lt over(3)] by blast
  have "finite (dom (hdrs ?w))" using m(1) by simp
  then obtain b where b: "mm (dom (hdrs ?w)) (2 * hmax h' * 16 + 48) = Some b" "b \<notin> dom (hdrs ?w)"
    using mm unfolding mmap_ok_def by blast
  let ?hn = "empty_hdr (2 * hmax h') (Some a)"
  let ?w' = "(set_hdr ?w b ?hn)\<lparr>table_hdr := Some b, ht_state := EXPANDING\<rparr>"
  have ba: "b \<noteq> a" "hdrs w b = None" using b(2) by (auto simp: domIff split: if_splits)
  have "alloc_lfht_hdr mm (2 * hmax h') ?w = (Some b, set_hdr ?w b (?hn\<lparr>hnext := None\<rparr>))"
    using b(1) by (simp add: alloc_lfht_hdr_def empty_hdr_def Let_def)
  then have "grow_table mm ?w a = Some (True, ?w')"
    using m(2,6) c'(3) small_max(1) [OF c'(1) lt over(3)] ba
    by (auto simp: grow_table_def empty_hdr_def Let_def split: option.splits)
  moreover have "lf_moving n' ?w' b ?hn a h' (M(k := v))"
  proof -
    note E = empty_hdr_ok [OF e, of "Some a"]
    have "budget ?hn h' \<le> 3 * threshold ?hn"
      using threshold_double [OF tab_okD(6) [OF c'(1)]] over(1) tab_okD(1,2) [OF c'(1)] c'(2)
      by (simp add: budget_def E resize_threshold_def)
    then show ?thesis
      using m c' ba over E M tv tab_okD(1) [OF c'(1)] by (auto simp: lf_moving_def clean_def)
  qed
  ultimately show ?thesis by blast
qed

section \<open>The operations\<close>

lemma lf_repD:
  assumes "lf_rep n w M" and "clean k"
  obtains w' a h where "migrate_table mm w k (unat (jenkins_hash_ptr k)) = Some w'" and "lf_paid n k w' a h M"
    and "table_hdr w \<noteq> None"
proof -
  obtain a h where r: "lf_settled n w a h M \<or> (\<exists>p ho. lf_moving n w a h p ho M)"
    using assms(1) by (auto simp: lf_rep_def)
  then have "table_hdr w \<noteq> None" by (auto simp: lf_settled_def lf_moving_def)
  then show ?thesis using migrate_table_run [OF r assms(2), of mm] that by blast
qed

lemma lf_rep_paid: "lf_paid n k w a h M \<Longrightarrow> \<forall>k. \<not> clean k \<longrightarrow> M k = 0 \<Longrightarrow> lf_rep n w M"
  by (auto simp: lf_rep_def lf_paid_def)

lemma front_home: "tab_ok h \<Longrightarrow> unat (jenkins_hash_ptr k) AND (hmax h - 1) = home h k"
  using probe_step(2) [of h "unat (jenkins_hash_ptr k)"] by (simp add: home_def)

lemma lfht_find_run:
  assumes rep: "lf_rep n w M" and k: "clean k"
  shows "\<exists>r w'. lfht_find mm w k = Some (r, w') \<and> lf_rep n w' M \<and> (case r of None \<Rightarrow> M k = 0 | Some v \<Rightarrow> M k = v)"
proof -
  obtain w' a h where mig: "migrate_table mm w k (unat (jenkins_hash_ptr k)) = Some w'" "lf_paid n k w' a h M"
    "table_hdr w \<noteq> None" by (rule lf_repD [OF rep k])
  note f = lf_front [OF mig(2) k]
  have k0: "k \<noteq> 0" using k by (simp add: clean_def)
  have room: "hcount h < hmax h" using f(6) threshold_less [OF f(3)] by simp
  have "find_retry w' k (unat (jenkins_hash_ptr k)) None = Some (if k \<in> tab_keys h then Some (tval h k) else None)"
    using find_loop_run [OF f(2,3) k room] f(1,2,4) front_home [OF f(3)] by (subst find_retry.simps) (simp add: Let_def)
  then have "lfht_find mm w k = Some (if k \<in> tab_keys h then Some (tval h k) else None, w')"
    using mig(1,3) k0 by (auto simp: lfht_find_def Let_def)
  moreover have "lf_rep n w' M" by (rule lf_rep_paid [OF mig(2)]) (use rep in \<open>simp add: lf_rep_def\<close>)
  moreover have "M k = 0" if "k \<notin> tab_keys h" using f(7) tval_miss [OF that k0] by simp
  ultimately show ?thesis using f(7) by simp
qed

lemma lfht_remove_run:
  assumes rep: "lf_rep n w M" and k: "clean k"
  shows "\<exists>r w'. lfht_remove mm w k = Some (r, w') \<and> lf_rep n w' (M(k := 0)) \<and> (M k \<noteq> 0 \<longrightarrow> r)"
proof -
  obtain w' a h where mig: "migrate_table mm w k (unat (jenkins_hash_ptr k)) = Some w'" "lf_paid n k w' a h M"
    "table_hdr w \<noteq> None" by (rule lf_repD [OF rep k])
  note f = lf_front [OF mig(2) k]
  have k0: "k \<noteq> 0" using k by (simp add: clean_def)
  have room: "hcount h < hmax h" using f(6) threshold_less [OF f(3)] by simp
  obtain h' where h': "remove_loop w' a k (hmax h - 1) (home h k) (home h k) False =
      Some (if k \<in> tab_keys h then True else False, set_hdr w' a h')"
    "tab_ok h'" "tab_keys h' = tab_keys h" "\<forall>k'. k' \<noteq> 0 \<longrightarrow> tval h' k' = (if k' = k then 0 else tval h k')"
    "used h' = used h" "pending h' = pending h" "hnext h' = hnext h" "assimilated h' = assimilated h"
    "hcount h' = hcount h" "threshold h' = threshold h" "hmax h' = hmax h"
    using remove_loop_run [OF f(2,3) k room, of False] by blast
  have "remove_retry w' k (unat (jenkins_hash_ptr k)) False = Some (k \<in> tab_keys h, set_hdr w' a h')"
    using h'(1,8) f(1,2,4) front_home [OF f(3)] by (subst remove_retry.simps) (simp add: Let_def)
  then have "lfht_remove mm w k = Some (k \<in> tab_keys h, set_hdr w' a h')"
    using mig(1,3) k0 by (auto simp: lfht_remove_def Let_def)
  moreover have "lf_rep n (set_hdr w' a h') (M(k := 0))"
  proof (rule lf_rep_paid)
    have c: "changed h k 0 h'" using h' f(5) by (auto simp: changed_def)
    show "lf_paid n k (set_hdr w' a h') a h' (M(k := 0))"
      using mig(2) unfolding lf_paid_def [of n k w' a h M]
    proof (elim disjE exE conjE)
      assume s: "lf_settled n w' a h M"
      then have "hcount h \<le> n" by (simp add: lf_settled_def)
      then show ?thesis using lf_settled_change [OF s c, of n] h'(9,10) f(6) by (simp add: lf_paid_def)
    next
      fix p ho
      assume m: "lf_moving n w' a h p ho M" "k \<notin> tab_keys ho" "budget h ho + 3 \<le> 3 * threshold h"
      then have "hcount h + card (pending ho) \<le> n" by (simp add: lf_moving_def)
      moreover have "budget h' ho = budget h ho" using h'(9) by (simp add: budget_def)
      ultimately have "lf_moving n (set_hdr w' a h') a h' p ho (M(k := 0))"
        using lf_moving_change [OF m(1,2) k c, of n] m(3) h'(9,10) by simp
      then show ?thesis using m(2,3) h'(9,10) by (auto simp: lf_paid_def budget_def)
    qed
    show "\<forall>k'. \<not> clean k' \<longrightarrow> (M(k := 0)) k' = 0" using rep by (simp add: lf_rep_def)
  qed
  moreover have "k \<in> tab_keys h" if "M k \<noteq> 0" using f(7) tval_miss [OF _ k0, of h] that by auto
  ultimately show ?thesis by blast
qed

lemma lfht_add_run:
  assumes rep: "lf_rep n w M" and k: "clean k" and v: "v \<noteq> 0" and n: "n < 2 ^ 30" and mm: "mmap_ok mm"
  shows "\<exists>w'. lfht_add mm w k v = Some (True, w') \<and> lf_rep (Suc n) w' (M(k := v))"
proof -
  obtain w' a h where mig: "migrate_table mm w k (unat (jenkins_hash_ptr k)) = Some w'" "lf_paid n k w' a h M"
    "table_hdr w \<noteq> None" by (rule lf_repD [OF rep k])
  note f = lf_front [OF mig(2) k]
  obtain h' where h': "added h k v h'"
    "add_loop mm w' a k v (hmax h - 1) (home h k) (home h k) False =
      (if hcount h' > threshold h then do { (_, w'') \<leftarrow> grow_table mm (set_hdr w' a h') a; Some (True, w'') }
       else Some (True, set_hdr w' a h'))"
    using add_loop_run [OF f(2,3,5) k f(6), where mm = mm and v = v and r = False] by blast
  have c: "changed h k v h'" and up: "hcount h' \<le> Suc (hcount h)" "threshold h' = threshold h"
    using h'(1) by (auto simp: changed_def added_def split: if_splits)
  have final: "lfht_add mm w k v = Some (True, w'')"
    if loop: "add_loop mm w' a k v (hmax h - 1) (home h k) (home h k) False = Some (True, w'')"
      and fin: "\<exists>h''. hdrs w'' a = Some h'' \<and> \<not> assimilated h''" for w''
    using mig(1,3) k v loop fin f(1,2) front_home [OF f(3)]
    by (auto simp: lfht_add_def lfht_add_with_def clean_def TOMBSTONE_def Let_def add_retry.simps [of mm w'])
  have dom0: "\<forall>k'. \<not> clean k' \<longrightarrow> (M(k := v)) k' = 0" using rep k by (simp add: lf_rep_def)
  have as: "\<not> assimilated h'" using f(4) c by (simp add: changed_def)
  show ?thesis
    using mig(2) unfolding lf_paid_def
  proof (elim disjE exE conjE)
    assume s: "lf_settled n w' a h M"
    then have n': "hcount h' \<le> Suc n" using up(1) by (simp add: lf_settled_def)
    show ?thesis
    proof (cases "hcount h' > threshold h")
      case True
      then have over: "hcount h' = Suc (threshold h')" using up f(6) by simp
      obtain w'' b hn where g: "grow_table mm (set_hdr w' a h') a = Some (True, w'')"
        "lf_moving (Suc n) w'' b hn a h' (M(k := v))"
        using grow_table_run [OF s c k over n' _ mm] n by auto
      have "\<exists>h''. hdrs w'' a = Some h'' \<and> \<not> assimilated h''" using g(2) as by (simp add: lf_moving_def)
      then show ?thesis using final [of w''] g True h'(2) dom0 by (auto simp: lf_rep_def)
    next
      case False
      then have "lf_settled (Suc n) (set_hdr w' a h') a h' (M(k := v))"
        using lf_settled_change [OF s c _ n'] up(2) by simp
      then show ?thesis using final [of "set_hdr w' a h'"] False h'(2) dom0 as by (auto simp: lf_rep_def)
    qed
  next
    fix p ho
    assume m: "lf_moving n w' a h p ho M" "k \<notin> tab_keys ho" "budget h ho + 3 \<le> 3 * threshold h"
    then have n': "hcount h + card (pending ho) \<le> n" by (simp add: lf_moving_def)
    have b: "budget h' ho \<le> 3 * threshold h'" using m(3) up by (simp add: budget_def)
    then have "\<not> hcount h' > threshold h" using up(2) by (simp add: budget_def)
    moreover have "lf_moving (Suc n) (set_hdr w' a h') a h' p ho (M(k := v))"
      using lf_moving_change [OF m(1,2) k c b] up(1) n' by simp
    ultimately show ?thesis using final [of "set_hdr w' a h'"] h'(2) dom0 as by (auto simp: lf_rep_def)
  qed
qed

lemma init_lfht_run:
  assumes "2 \<le> e" and "e \<le> 31" and "mmap_ok mm" and "finite (dom (hdrs w))"
  shows "\<exists>w'. init_lfht mm (Some w) (2 ^ e) = (True, Some w') \<and> lf_rep 0 w' (\<lambda>_. 0)"
proof -
  obtain a where a: "mm (dom (hdrs w)) (2 ^ e * 16 + 48) = Some a" using assms(3,4) unfolding mmap_ok_def by blast
  let ?h = "empty_hdr (2 ^ e) None"
  let ?w = "(set_hdr w a ?h)\<lparr>ht_state := INITIAL, table_hdr := Some a\<rparr>"
  note E = empty_hdr_ok [OF assms(1,2) refl, of None]
  have "init_lfht mm (Some w) (2 ^ e) = (True, Some ?w)"
    using a by (simp add: init_lfht_def alloc_lfht_hdr_def empty_hdr_def Let_def)
  moreover have "tval ?h k = 0" for k
    by (auto simp: tval_def empty_hdr_def find_Some_iff split: option.splits)
  then have "lf_settled 0 ?w a ?h (\<lambda>_. 0)" using E assms(4) by (simp add: lf_settled_def)
  ultimately show ?thesis by (auto simp: lf_rep_def)
qed

section \<open>The interface\<close>

text \<open>
  A map with updates, as a client sees it: \<open>n\<close> bounds the additions made, a removed key may be found
  with the value \<open>0\<close>, and \<open>remove\<close> may report a key that was removed before.
\<close>

locale update_map =
  fixes rep :: "nat \<Rightarrow> 's \<Rightarrow> ('k \<Rightarrow> 'v::zero) \<Rightarrow> bool" and key_ok :: "'k \<Rightarrow> bool" and room :: nat
    and add :: "'s \<Rightarrow> 'k \<Rightarrow> 'v \<Rightarrow> (bool \<times> 's) option" and remove :: "'s \<Rightarrow> 'k \<Rightarrow> (bool \<times> 's) option"
    and find :: "'s \<Rightarrow> 'k \<Rightarrow> ('v option \<times> 's) option"
  assumes add_rep: "rep n s M \<Longrightarrow> n < room \<Longrightarrow> key_ok k \<Longrightarrow> v \<noteq> 0 \<Longrightarrow>
      \<exists>s'. add s k v = Some (True, s') \<and> rep (Suc n) s' (M(k := v))"
    and remove_rep: "rep n s M \<Longrightarrow> key_ok k \<Longrightarrow>
      \<exists>r s'. remove s k = Some (r, s') \<and> rep n s' (M(k := 0)) \<and> (M k \<noteq> 0 \<longrightarrow> r)"
    and find_rep: "rep n s M \<Longrightarrow> key_ok k \<Longrightarrow>
      \<exists>r s'. find s k = Some (r, s') \<and> rep n s' M \<and> (case r of None \<Rightarrow> M k = 0 | Some v \<Rightarrow> M k = v)"
begin

text \<open>The value of a key, with \<open>0\<close> for none, is all that an answer tells.\<close>

lemma find_value:
  assumes "rep n s M" and "key_ok k"
  obtains r s' where "find s k = Some (r, s')" and "rep n s' M" and "(case r of None \<Rightarrow> 0 | Some v \<Rightarrow> v) = M k"
proof -
  obtain r s' where "find s k = Some (r, s')" "rep n s' M" "case r of None \<Rightarrow> M k = 0 | Some v \<Rightarrow> M k = v"
    using find_rep [OF assms] by blast
  then show ?thesis using that by (cases r) auto
qed

lemma find_after_add:
  assumes "rep n s M" and "n < room" and "key_ok k" and "v \<noteq> 0"
  shows "\<exists>s' s''. add s k v = Some (True, s') \<and> find s' k = Some (Some v, s'')"
proof -
  obtain s' where s': "add s k v = Some (True, s')" "rep (Suc n) s' (M(k := v))"
    using add_rep [OF assms] by blast
  obtain r s'' where "find s' k = Some (r, s'')" "case r of None \<Rightarrow> (M(k := v)) k = 0 | Some u \<Rightarrow> (M(k := v)) k = u"
    using find_rep [OF s'(2) assms(3)] by blast
  then show ?thesis using s'(1) assms(4) by (cases r) auto
qed

end

definition lf_serves :: "lf_mmap \<Rightarrow> nat \<Rightarrow> lfht \<Rightarrow> (u64 \<Rightarrow> u64) \<Rightarrow> bool" where
  "lf_serves mm n w M \<longleftrightarrow> mmap_ok mm \<and> lf_rep n w M"

interpretation lf: update_map "lf_serves mm" clean "2 ^ 30" "lfht_add mm" "lfht_remove mm" "lfht_find mm"
proof unfold_locales
  show "\<exists>s'. lfht_add mm s k v = Some (True, s') \<and> lf_serves mm (Suc n) s' (M(k := v))"
    if "lf_serves mm n s M" "n < 2 ^ 30" "clean k" "v \<noteq> 0" for n s M k v
    using lfht_add_run that unfolding lf_serves_def by blast
  show "\<exists>r s'. lfht_remove mm s k = Some (r, s') \<and> lf_serves mm n s' (M(k := 0)) \<and> (M k \<noteq> 0 \<longrightarrow> r)"
    if "lf_serves mm n s M" "clean k" for n s M k
    using lfht_remove_run [of n s M k mm] that unfolding lf_serves_def by blast
  show "\<exists>r s'. lfht_find mm s k = Some (r, s') \<and> lf_serves mm n s' M \<and> (case r of None \<Rightarrow> M k = 0 | Some v \<Rightarrow> M k = v)"
    if "lf_serves mm n s M" "clean k" for n s M k
    using lfht_find_run [of n s M k mm] that unfolding lf_serves_def by blast
qed

section \<open>Request sequences\<close>

datatype lf_request = LfAdd u64 u64 | LfRemove u64 | LfFind u64

fun lf_key :: "lf_request \<Rightarrow> u64" where
  "lf_key (LfAdd k _) = k"
| "lf_key (LfRemove k) = k"
| "lf_key (LfFind k) = k"

fun lf_request_ok :: "lf_request \<Rightarrow> bool" where
  "lf_request_ok (LfAdd k v) \<longleftrightarrow> clean k \<and> v \<noteq> 0"
| "lf_request_ok q \<longleftrightarrow> clean (lf_key q)"

text \<open>The answer of a request is the value found, \<open>0\<close> for none and for additions and removals.\<close>

fun lfht_serve :: "lf_mmap \<Rightarrow> lf_request list \<Rightarrow> lfht \<Rightarrow> (u64 list \<times> lfht) option" where
  "lfht_serve mm [] w = Some ([], w)"
| "lfht_serve mm (LfAdd k v # qs) w = do {
     (ok, w) \<leftarrow> lfht_add mm w k v; assert_c ok; (as, w) \<leftarrow> lfht_serve mm qs w; Some (0 # as, w) }"
| "lfht_serve mm (LfRemove k # qs) w = do {
     (_, w) \<leftarrow> lfht_remove mm w k; (as, w) \<leftarrow> lfht_serve mm qs w; Some (0 # as, w) }"
| "lfht_serve mm (LfFind k # qs) w = do {
     (r, w) \<leftarrow> lfht_find mm w k; (as, w) \<leftarrow> lfht_serve mm qs w; Some ((case r of None \<Rightarrow> 0 | Some v \<Rightarrow> v) # as, w) }"

fun lf_spec :: "lf_request list \<Rightarrow> (u64 \<Rightarrow> u64) \<Rightarrow> u64 list" where
  "lf_spec [] M = []"
| "lf_spec (LfAdd k v # qs) M = 0 # lf_spec qs (M(k := v))"
| "lf_spec (LfRemove k # qs) M = 0 # lf_spec qs (M(k := 0))"
| "lf_spec (LfFind k # qs) M = M k # lf_spec qs M"

lemma lfht_serve_run:
  assumes "lf_serves mm n w M" and "n + length qs \<le> 2 ^ 30" and "\<forall>q \<in> set qs. lf_request_ok q"
  shows "\<exists>w'. lfht_serve mm qs w = Some (lf_spec qs M, w')"
  using assms
proof (induction qs arbitrary: n w M)
  case Nil
  then show ?case by simp
next
  case (Cons q qs)
  show ?case
  proof (cases q)
    case (LfAdd k v)
    obtain w' where w': "lfht_add mm w k v = Some (True, w')" "lf_serves mm (Suc n) w' (M(k := v))"
      using lf.add_rep [OF Cons.prems(1), of k v] Cons.prems(2,3) LfAdd by auto
    then show ?thesis using Cons.IH [OF w'(2)] Cons.prems(2,3) LfAdd by fastforce
  next
    case (LfRemove k)
    obtain r w' where w': "lfht_remove mm w k = Some (r, w')" "lf_serves mm n w' (M(k := 0))"
      using lf.remove_rep [OF Cons.prems(1), of k] Cons.prems(3) LfRemove by auto
    then show ?thesis using Cons.IH [OF w'(2)] Cons.prems(2,3) LfRemove by fastforce
  next
    case (LfFind k)
    obtain r w' where w': "lfht_find mm w k = Some (r, w')" "lf_serves mm n w' M"
      "(case r of None \<Rightarrow> 0 | Some v \<Rightarrow> v) = M k"
      using lf.find_value [OF Cons.prems(1), of k] Cons.prems(3) LfFind by auto
    then show ?thesis using Cons.IH [OF w'(2)] Cons.prems(2,3) LfFind by fastforce
  qed
qed

section \<open>Properties\<close>

definition next_fit :: lf_mmap where
  "next_fit R sz = Some (if R = {} then 1 else Suc (Max R))"

lemma next_fit_ok: "mmap_ok next_fit"
proof -
  have "Suc (Max R) \<notin> R" if "finite R" for R :: "nat set"
    using Max_ge [OF that, of "Suc (Max R)"] by auto
  then show ?thesis by (auto simp: mmap_ok_def next_fit_def)
qed

lemma init_lfht_serves:
  assumes "2 \<le> e" and "e \<le> 31" and "mmap_ok mm" and "finite (dom (hdrs w))"
  obtains w' where "init_lfht mm (Some w) (2 ^ e) = (True, Some w')" and "lf_serves mm 0 w' (\<lambda>_. 0)"
  using init_lfht_run [OF assms] assms(3) by (auto simp: lf_serves_def)


lemma clean_numerals: "clean 16" "clean 32" "clean 48" "clean 64"
  by (simp_all add: clean_def is_assimilated_def KEY_ALIGNMENT_def)

definition no_table :: lfht where
  "no_table = \<lparr>ht_state = INITIAL, table_hdr = None, hdrs = Map.empty\<rparr>"


text \<open>
  Every operation keeps the two tables of an expanding \<open>lfht\<close> disjoint and their union unchanged:
  a lookup returns the value of the key wherever it was, and leaves a table that represents the same
  map.
\<close>

theorem lfht_find_finds:
  assumes "lf_serves mm n w M" and "clean k"
  shows "\<exists>r w'. lfht_find mm w k = Some (r, w') \<and> (case r of None \<Rightarrow> 0 | Some v \<Rightarrow> v) = M k \<and> lf_serves mm n w' M"
  using lf.find_value [OF assms] by metis

lemma example_lfht:
  obtains w where "lf_serves next_fit 1 w ((\<lambda>_. 0)(16 := 7))"
proof -
  obtain w where w: "lf_serves next_fit 0 w (\<lambda>_. 0)"
    using init_lfht_serves [of 2 next_fit no_table] next_fit_ok by (auto simp: no_table_def)
  show ?thesis using lf.add_rep [OF w, of 16 7] clean_numerals that by auto
qed

theorem lfht_find_finds_witness:
  "\<exists>w r w'. lfht_find next_fit w 16 = Some (r, w') \<and> (case r of None \<Rightarrow> 0 | Some v \<Rightarrow> v) = 7"
proof (rule example_lfht)
  fix w assume "lf_serves next_fit 1 w ((\<lambda>_. 0)(16 := 7))"
  from lfht_find_finds [OF this clean_numerals(1)] show ?thesis by auto
qed

text \<open>
  C31: \<open>lfht_add\<close> always succeeds on an aligned key and a value other than \<open>TOMBSTONE\<close>, and changes the
  represented map at that key only, also when it starts or finishes a migration.
\<close>

theorem lfht_add_inserts:
  assumes "lf_serves mm n w M" and "n < 2 ^ 30" and "clean k" and "v \<noteq> 0"
  shows "\<exists>w'. lfht_add mm w k v = Some (True, w') \<and> lf_serves mm (Suc n) w' (M(k := v))"
  by (rule lf.add_rep [OF assms])

theorem lfht_add_inserts_witness:
  "\<exists>w w'. lfht_add next_fit w 32 9 = Some (True, w') \<and> lf_serves next_fit (Suc 1) w' ((\<lambda>_. 0)(16 := 7, 32 := 9))"
proof (rule example_lfht)
  fix w assume "lf_serves next_fit 1 w ((\<lambda>_. 0)(16 := 7))"
  from lfht_add_inserts [OF this _ clean_numerals(2), of 9] show ?thesis by auto
qed

fun lfht_finds :: "lf_mmap \<Rightarrow> u64 list \<Rightarrow> lfht \<Rightarrow> lfht option" where
  "lfht_finds mm [] w = Some w"
| "lfht_finds mm (k # ks) w = do { (_, w) \<leftarrow> lfht_find mm w k; lfht_finds mm ks w }"

lemma lfht_find_migrates:
  assumes "lf_rep n w M" and "clean k"
  obtains r w' where "lfht_find mm w k = Some (r, w')" and "migrate_table mm w k (unat (jenkins_hash_ptr k)) = Some w'"
    and "lf_rep n w' M"
proof -
  obtain r w' where f: "lfht_find mm w k = Some (r, w')" "lf_rep n w' M" using lfht_find_run [OF assms] by blast
  obtain w1 where m: "migrate_table mm w k (unat (jenkins_hash_ptr k)) = Some w1" "table_hdr w \<noteq> None"
    using lf_repD [OF assms, of mm] by metis
  have "w1 = w'"
    using f(1) m assms(2)
    by (cases "find_retry w1 k (unat (jenkins_hash_ptr k)) None") (auto simp: lfht_find_def clean_def Let_def)
  then show ?thesis using f m(1) that by blast
qed

lemma lfht_finds_settle:
  assumes "lf_rep n w M" and "\<forall>k \<in> set ks. clean k"
    and "ht_state w \<noteq> EXPANDING \<or> (\<exists>a h p ho. lf_moving n w a h p ho M \<and> budget h ho < 3 * length ks)"
  shows "\<exists>w'. lfht_finds mm ks w = Some w' \<and> ht_state w' \<noteq> EXPANDING"
  using assms
proof (induction ks arbitrary: w)
  case Nil
  then show ?case by simp
next
  case (Cons k ks)
  have k: "clean k" using Cons.prems(2) by simp
  obtain r w' where f: "lfht_find mm w k = Some (r, w')" "migrate_table mm w k (unat (jenkins_hash_ptr k)) = Some w'"
    "lf_rep n w' M" by (rule lfht_find_migrates [OF Cons.prems(1) k])
  have "ht_state w' \<noteq> EXPANDING \<or> (\<exists>a h p ho. lf_moving n w' a h p ho M \<and> budget h ho < 3 * length ks)"
  proof (cases "ht_state w = EXPANDING")
    case True
    then obtain a h p ho where mv: "lf_moving n w a h p ho M" "budget h ho < 3 * length (k # ks)"
      using Cons.prems(3) by blast
    obtain h' where "lf_settled n w' a h' M \<or>
        (\<exists>ho'. lf_moving n w' a h' p ho' M \<and> k \<notin> tab_keys ho' \<and> threshold h' = threshold h \<and>
          budget h' ho' + 3 \<le> budget h ho)"
      using migrate_table_pays [OF mv(1) k, of mm] f(2) by auto
    then show ?thesis
    proof (elim disjE exE conjE)
      assume "lf_settled n w' a h' M"
      then show ?thesis by (auto simp: lf_settled_def)
    next
      fix ho' assume "lf_moving n w' a h' p ho' M" "budget h' ho' + 3 \<le> budget h ho"
      moreover from this(2) have "budget h' ho' < 3 * length ks" using mv(2) by simp
      ultimately show ?thesis by blast
    qed
  qed (use f(2) in \<open>simp add: migrate_table_def\<close>)
  then show ?case using Cons.IH [OF f(3)] Cons.prems(2) f(1) by simp
qed





end
