(* ===== verification/Lookup.thy ===== *)
theory Lookup
  imports Lfht_Props
begin

text \<open>
  \<open>src/sri-glibc/malloc/lookup.c\<close>: to which arena does a pointer belong? The break regions of the main
  arena are an array that is searched, the heaps of the other arenas and the mapped chunks are kept in
  two \<open>lfht\<close> tables, used here through the interface \<open>update_map\<close>.

  The globals of the file are the record \<open>lookup\<close>. The array is the list of its
  \<open>sbrk_region_current_max\<close> entries; counters are 32-bit words, compared without sign as the code does in
  the loop. The parameter \<open>mm\<close> is \<open>mmap\<close>: from the mappings in use and a size it gives an address or
  \<open>None\<close>. \<open>None\<close> as the result of an operation stands for \<open>abort\<close>, a failed assertion or a bad access.
\<close>

section \<open>State\<close>

record sbrk_region =
  mmapped :: bool
  lo :: u64
  hi :: u64
  mx :: u64

definition no_region :: sbrk_region where
  "no_region = \<lparr>mmapped = False, lo = 0, hi = 0, mx = 0\<rparr>"

record lookup =
  sbrk_region_count :: u32
  sbrk_region_current_max :: u32
  sbrk_base :: hdr_ptr
  sbrk_regions :: "sbrk_region list"
  heap_tbl :: lfht
  mmap_tbl :: lfht
  heap_max :: u64

definition SBRK_INITIAL_MAX_SEGMENTS :: u32 where
  "SBRK_INITIAL_MAX_SEGMENTS = 1024"

definition MAX_SBRK_TABLE_SIZE :: u32 where
  "MAX_SBRK_TABLE_SIZE = 0x80000000"

definition TABLE_SIZE :: nat where
  "TABLE_SIZE = 1024"

definition sizeof_sbrk_region :: nat where
  "sizeof_sbrk_region = 32"

text \<open>The mappings of the file, and \<open>mmap\<close> as each of its tables sees it.\<close>

definition lookup_maps :: "lookup \<Rightarrow> hdr_ptr set" where
  "lookup_maps L = insert (sbrk_base L) (dom (hdrs (heap_tbl L)) \<union> dom (hdrs (mmap_tbl L)))"

definition lookup_mmap :: "lf_mmap \<Rightarrow> lookup \<Rightarrow> lf_mmap" where
  "lookup_mmap mm L R sz = mm (R \<union> lookup_maps L) sz"

section \<open>Operations\<close>

definition lookup_init :: "lf_mmap \<Rightarrow> u64 \<Rightarrow> lookup \<Rightarrow> lookup option" where
  "lookup_init mm hmx L = do {
     let L = L\<lparr>heap_max := hmx\<rparr>;
     let n = unat (sbrk_region_current_max L);
     base \<leftarrow> mm (dom (hdrs (heap_tbl L)) \<union> dom (hdrs (mmap_tbl L))) (n * sizeof_sbrk_region);
     let L = L\<lparr>sbrk_base := base, sbrk_regions := replicate n no_region\<rparr>;
     let (ok, t) = init_lfht (lookup_mmap mm L) (Some (heap_tbl L)) TABLE_SIZE;
     assert_c ok;
     t \<leftarrow> t;
     let L = L\<lparr>heap_tbl := t\<rparr>;
     let (ok, t) = init_lfht (lookup_mmap mm L) (Some (mmap_tbl L)) TABLE_SIZE;
     assert_c ok;
     t \<leftarrow> t;
     Some (L\<lparr>mmap_tbl := t\<rparr>) }"

definition lookup_delete :: "lookup \<Rightarrow> lookup option" where
  "lookup_delete L = do {
     (_, h) \<leftarrow> delete_lfht (Some (heap_tbl L));
     h \<leftarrow> h;
     (_, t) \<leftarrow> delete_lfht (Some (mmap_tbl L));
     t \<leftarrow> t;
     Some (L\<lparr>heap_tbl := h, mmap_tbl := t\<rparr>) }"

definition region_at :: "lookup \<Rightarrow> nat \<Rightarrow> sbrk_region option" where
  "region_at L i = (if i < length (sbrk_regions L) then Some (sbrk_regions L ! i) else None)"

text \<open>The search of \<open>lookup_arena_index\<close> from index \<open>i\<close> on, with \<open>n\<close> entries to go.\<close>

fun region_loop :: "lookup \<Rightarrow> u64 \<Rightarrow> nat \<Rightarrow> nat \<Rightarrow> bool option" where
  "region_loop L ptr i 0 = Some False"
| "region_loop L ptr i (Suc n) = do {
     r \<leftarrow> region_at L i;
     if lo r \<le> ptr \<and> ptr < hi r then Some True else region_loop L ptr (i + 1) n }"

text \<open>
  The argument \<open>indexp\<close> says whether \<open>arena_indexp\<close> is a pointer; the answer \<open>Some i\<close> is \<open>true\<close> with
  \<open>*arena_indexp = i\<close>.
\<close>

definition lookup_arena_index :: "lf_mmap \<Rightarrow> u64 \<Rightarrow> bool \<Rightarrow> lookup \<Rightarrow> (u64 option \<times> lookup) option" where
  "lookup_arena_index mm ptr indexp L =
    (if \<not> indexp then Some (None, L)
     else do {
       found \<leftarrow> region_loop L ptr 0 (unat (sbrk_region_count L) + 1);
       if found then Some (Some 1, L)
       else do {
         (val, t) \<leftarrow> lfht_find (lookup_mmap mm L) (mmap_tbl L) ptr;
         let L = L\<lparr>mmap_tbl := t\<rparr>;
         if val \<noteq> None \<and> val \<noteq> Some TOMBSTONE then Some (Some 0, L)
         else do {
           let heap = ptr AND NOT (heap_max L - 1);
           (val, t) \<leftarrow> lfht_find (lookup_mmap mm L) (heap_tbl L) heap;
           let L = L\<lparr>heap_tbl := t\<rparr>;
           if val \<noteq> None \<and> val \<noteq> Some TOMBSTONE then Some (val, L)
           else Some (None, L) } } })"

definition lookup_add_sbrk_region :: "lf_mmap \<Rightarrow> u64 \<Rightarrow> u64 \<Rightarrow> lookup \<Rightarrow> (bool \<times> lookup) option" where
  "lookup_add_sbrk_region mm l h L = do {
     let nregion_count = sbrk_region_count L + 1;
     grown \<leftarrow>
       (if nregion_count = sbrk_region_current_max L then
          (if sbrk_region_current_max L \<ge> MAX_SBRK_TABLE_SIZE then Some None
           else do {
             let nregion_max = 2 * sbrk_region_current_max L;
             nregions \<leftarrow> mm (lookup_maps L) (unat nregion_max * sizeof_sbrk_region);
             Some (Some (L\<lparr>sbrk_base := nregions,
               sbrk_regions := sbrk_regions L @
                 replicate (unat nregion_max - unat (sbrk_region_current_max L)) no_region,
               sbrk_region_current_max := nregion_max\<rparr>)) })
        else Some (Some L));
     case grown of
       None \<Rightarrow> Some (False, L)
     | Some L \<Rightarrow> do {
         _ \<leftarrow> region_at L (unat nregion_count);
         Some (True, L\<lparr>sbrk_regions := (sbrk_regions L)[unat nregion_count :=
             \<lparr>mmapped = True, lo = l, hi = h, mx = h\<rparr>],
           sbrk_region_count := nregion_count\<rparr>) } }"

definition lookup_set_sbrk_lo :: "u64 \<Rightarrow> lookup \<Rightarrow> (bool \<times> lookup) option" where
  "lookup_set_sbrk_lo ptr L = do {
     r \<leftarrow> region_at L 0;
     Some (True, L\<lparr>sbrk_regions := (sbrk_regions L)[0 := r\<lparr>lo := ptr\<rparr>]\<rparr>) }"

definition lookup_incr_sbrk_hi :: "u64 \<Rightarrow> lookup \<Rightarrow> (bool \<times> lookup) option" where
  "lookup_incr_sbrk_hi sz L = do {
     r \<leftarrow> region_at L 0;
     let r = (if hi r = 0 then r\<lparr>hi := lo r\<rparr> else r);
     let r = r\<lparr>hi := hi r + sz\<rparr>;
     let r = (if mx r < hi r then r\<lparr>mx := hi r\<rparr> else r);
     Some (True, L\<lparr>sbrk_regions := (sbrk_regions L)[0 := r]\<rparr>) }"

definition lookup_decr_sbrk_hi :: "u64 \<Rightarrow> lookup \<Rightarrow> (bool \<times> lookup) option" where
  "lookup_decr_sbrk_hi sz L = do {
     r \<leftarrow> region_at L 0;
     Some (True, L\<lparr>sbrk_regions := (sbrk_regions L)[0 := r\<lparr>hi := hi r - sz\<rparr>]\<rparr>) }"

definition lookup_add_heap :: "lf_mmap \<Rightarrow> u64 \<Rightarrow> u64 \<Rightarrow> lookup \<Rightarrow> (bool \<times> lookup) option" where
  "lookup_add_heap mm ptr index L = do {
     (retval, t) \<leftarrow> lfht_add (lookup_mmap mm L) (heap_tbl L) ptr index;
     assert_c retval;
     Some (retval, L\<lparr>heap_tbl := t\<rparr>) }"

definition lookup_delete_heap :: "lf_mmap \<Rightarrow> u64 \<Rightarrow> lookup \<Rightarrow> (bool \<times> lookup) option" where
  "lookup_delete_heap mm ptr L = do {
     (retval, t) \<leftarrow> lfht_remove (lookup_mmap mm L) (heap_tbl L) ptr;
     assert_c retval;
     Some (retval, L\<lparr>heap_tbl := t\<rparr>) }"

definition lookup_add_mmap :: "lf_mmap \<Rightarrow> u64 \<Rightarrow> u64 \<Rightarrow> lookup \<Rightarrow> (bool \<times> lookup) option" where
  "lookup_add_mmap mm ptr sz L = do {
     (retval, t) \<leftarrow> lfht_add (lookup_mmap mm L) (mmap_tbl L) ptr sz;
     assert_c retval;
     Some (retval, L\<lparr>mmap_tbl := t\<rparr>) }"

definition lookup_delete_mmap :: "lf_mmap \<Rightarrow> u64 \<Rightarrow> lookup \<Rightarrow> (bool \<times> lookup) option" where
  "lookup_delete_mmap mm ptr L = do {
     (retval, t) \<leftarrow> lfht_remove (lookup_mmap mm L) (mmap_tbl L) ptr;
     assert_c retval;
     Some (retval, L\<lparr>mmap_tbl := t\<rparr>) }"

end
