(* ===== verification/Lookup_Props.thy ===== *)
theory Lookup_Props
  imports Lookup
begin

text \<open>
  What \<open>lookup.c\<close> answers: an invariant of its globals (\<open>lookup_ok\<close>), every operation as a change of an
  abstract state of three components (\<open>arena_map\<close>), and sequences of requests.
\<close>

section \<open>Abstract state\<close>

record arena_map =
  regions_of :: "(u64 \<times> u64) list"
  heaps :: "u64 \<Rightarrow> u64"
  mmaps :: "u64 \<Rightarrow> u64"

definition heap_of :: "u64 \<Rightarrow> u64 \<Rightarrow> u64" where
  "heap_of hmx ptr = ptr AND NOT (hmx - 1)"

definition arena_of :: "u64 \<Rightarrow> arena_map \<Rightarrow> u64 \<Rightarrow> u64 option" where
  "arena_of hmx A ptr =
    (if list_ex (\<lambda>(l, h). l \<le> ptr \<and> ptr < h) (regions_of A) then Some 1
     else if mmaps A ptr \<noteq> 0 then Some 0
     else if heaps A (heap_of hmx ptr) \<noteq> 0 then Some (heaps A (heap_of hmx ptr))
     else None)"

definition region_count_ok :: "nat \<Rightarrow> lookup \<Rightarrow> bool" where
  "region_count_ok n L \<longleftrightarrow>
     length (sbrk_regions L) = unat (sbrk_region_current_max L) \<and>
     unat (sbrk_region_count L) < unat (sbrk_region_current_max L) \<and>
     (\<exists>e. 10 \<le> e \<and> e \<le> 31 \<and> unat (sbrk_region_current_max L) = 2 ^ e) \<and> unat (sbrk_region_count L) \<le> n"

definition listed :: "lookup \<Rightarrow> (u64 \<times> u64) list" where
  "listed L = map (\<lambda>r. (lo r, hi r)) (take (Suc (unat (sbrk_region_count L))) (sbrk_regions L))"

definition lookup_ok :: "lf_mmap \<Rightarrow> nat \<Rightarrow> lookup \<Rightarrow> arena_map \<Rightarrow> bool" where
  "lookup_ok mm n L A \<longleftrightarrow>
     mmap_ok mm \<and> lf_rep n (heap_tbl L) (heaps A) \<and> lf_rep n (mmap_tbl L) (mmaps A) \<and>
     (\<exists>e. 4 \<le> e \<and> e < 64 \<and> heap_max L = 2 ^ e) \<and> region_count_ok n L \<and> regions_of A = listed L"

lemma lf_rep_finite: "lf_rep n w M \<Longrightarrow> finite (dom (hdrs w))"
  by (auto simp: lf_rep_def lf_settled_def lf_moving_def)

lemma lf_settled_mono: "lf_settled n w a h M \<Longrightarrow> n \<le> n' \<Longrightarrow> lf_settled n' w a h M"
  by (simp add: lf_settled_def)

lemma lf_moving_mono: "lf_moving n w a h p ho M \<Longrightarrow> n \<le> n' \<Longrightarrow> lf_moving n' w a h p ho M"
  by (simp add: lf_moving_def)

lemma lf_rep_mono: "lf_rep n w M \<Longrightarrow> n \<le> n' \<Longrightarrow> lf_rep n' w M"
  using lf_settled_mono lf_moving_mono unfolding lf_rep_def by blast

lemma lookup_mmap_fresh:
  assumes "mmap_ok mm" and "finite (lookup_maps L)"
  shows "mmap_ok (lookup_mmap mm L)"
  unfolding mmap_ok_def
proof (intro allI impI)
  fix R :: "nat set" and sz assume "finite R"
  then have "finite (R \<union> lookup_maps L)" using assms(2) by simp
  then obtain a where "mm (R \<union> lookup_maps L) sz = Some a" "a \<notin> R \<union> lookup_maps L"
    using assms(1) unfolding mmap_ok_def by blast
  then show "\<exists>a. lookup_mmap mm L R sz = Some a \<and> a \<notin> R" by (auto simp: lookup_mmap_def)
qed

lemma lookup_mmap_ok:
  assumes "mmap_ok mm" and "lf_rep n (heap_tbl L) H" and "lf_rep n' (mmap_tbl L) Z"
  shows "mmap_ok (lookup_mmap mm L)"
  by (rule lookup_mmap_fresh) (use assms in \<open>simp_all add: lookup_maps_def lf_rep_finite\<close>)

lemma lookup_tables:
  assumes "lookup_ok mm n L A"
  shows "lf_serves (lookup_mmap mm L) n (heap_tbl L) (heaps A)"
    and "lf_serves (lookup_mmap mm L) n (mmap_tbl L) (mmaps A)"
  using assms lookup_mmap_ok [of mm n L "heaps A" n "mmaps A"] by (simp_all add: lookup_ok_def lf_serves_def)

text \<open>Requests for the null pointer are answered by the tables without a search.\<close>

lemma find_null: "lfht_find mm w 0 = Some (None, w)"
  by (simp add: lfht_find_def)

lemma find_any:
  assumes "lf_serves mm n w M" and "k = 0 \<or> clean k"
  obtains r w' where "lfht_find mm w k = Some (r, w')" and "lf_serves mm n w' M"
    and "r \<noteq> None \<and> r \<noteq> Some TOMBSTONE \<longleftrightarrow> M k \<noteq> 0" and "M k \<noteq> 0 \<Longrightarrow> r = Some (M k)"
proof (cases "k = 0")
  case True
  then have "M k = 0" using assms(1) by (simp add: lf_serves_def lf_rep_def clean_def)
  then show ?thesis using that [of None w] True assms(1) by (simp add: find_null)
next
  case False
  then have k: "clean k" using assms(2) by simp
  obtain r w' where f: "lfht_find mm w k = Some (r, w')" "lf_serves mm n w' M"
    "case r of None \<Rightarrow> M k = 0 | Some v \<Rightarrow> M k = v" using lf.find_rep [OF assms(1) k] by blast
  show ?thesis by (rule that [OF f(1,2)]) (use f(3) in \<open>auto simp: TOMBSTONE_def split: option.splits\<close>)
qed

section \<open>Heaps are aligned\<close>

lemma bit_mask_word: "e < 64 \<Longrightarrow> bit (2 ^ e - 1 :: u64) i \<longleftrightarrow> i < e"
  by (auto simp flip: mask_eq_exp_minus_1 simp: bit_mask_iff)

lemma heap_of_bit: "e < 64 \<Longrightarrow> bit (heap_of (2 ^ e) p) i \<longleftrightarrow> bit p i \<and> e \<le> i"
  by (auto simp: heap_of_def bit_and_iff bit_not_iff bit_mask_word dest: bit_imp_le_length)

lemma heap_of_clean:
  assumes "4 \<le> e" and "e < 64"
  shows "heap_of (2 ^ e) p = 0 \<or> clean (heap_of (2 ^ e) p)"
  using assms by (auto simp: clean_def is_assimilated_iff heap_of_bit)

text \<open>Every address of a heap leads to its start.\<close>

lemma heap_of_inside:
  assumes "e < 64" and "heap_of (2 ^ e) h = h" and "off < 2 ^ e"
  shows "heap_of (2 ^ e) (h + off) = h"
proof -
  have hb: "\<not> bit h i" if "i < e" for i using heap_of_bit [OF assms(1), of h i] assms(2) that by simp
  have ob: "\<not> bit off i" if "e \<le> i" for i
  proof -
    have "unat ((2 :: u64) ^ e) = 2 ^ e"
      using unat_of_nat [of "2 ^ e", where ?'a = 64] power_strict_increasing [OF assms(1), of "2 :: nat"]
      by (simp add: take_bit_nat_eq_self)
    then have "unat off < 2 ^ e" using assms(3) by (simp add: word_less_nat_alt)
    then have "take_bit e (unat off) = unat off" by (simp add: take_bit_nat_eq_self)
    then have "\<not> bit (unat off) i" using that bit_take_bit_iff [of e "unat off" i] by simp
    then show ?thesis using bit_imp_le_length [of off i] by (auto simp: bit_unsigned_iff)
  qed
  have "h + off = h OR off"
    by (rule disjunctive_add) (use hb ob linorder_not_le in blast)
  then show ?thesis
    by (intro bit_word_eqI) (use hb ob linorder_not_le in \<open>auto simp: heap_of_bit [OF assms(1)] bit_or_iff\<close>)
qed

section \<open>The region array\<close>

lemma region_loop_run:
  "i + n \<le> length (sbrk_regions L) \<Longrightarrow>
     region_loop L ptr i n = Some (list_ex (\<lambda>r. lo r \<le> ptr \<and> ptr < hi r) (take n (drop i (sbrk_regions L))))"
proof (induction n arbitrary: i)
  case (Suc n)
  then show ?case by (auto simp: region_at_def Cons_nth_drop_Suc [symmetric])
qed simp

lemma region_loop_listed:
  assumes "region_count_ok n L"
  shows "region_loop L ptr 0 (unat (sbrk_region_count L) + 1) =
    Some (list_ex (\<lambda>(l, h). l \<le> ptr \<and> ptr < h) (listed L))"
  using assms region_loop_run [of 0 "unat (sbrk_region_count L) + 1" L ptr]
  by (simp add: region_count_ok_def listed_def list_ex_iff case_prod_unfold del: region_loop.simps)

lemma first_region:
  assumes "region_count_ok n L"
  obtains r rs where "sbrk_regions L = r # rs" and "region_at L 0 = Some r"
    and "listed L = (lo r, hi r) # map (\<lambda>r. (lo r, hi r)) (take (unat (sbrk_region_count L)) rs)"
  using assms by (cases "sbrk_regions L") (auto simp: region_count_ok_def region_at_def listed_def)

definition change_first :: "(u64 \<times> u64 \<Rightarrow> u64 \<times> u64) \<Rightarrow> arena_map \<Rightarrow> arena_map" where
  "change_first f A = A\<lparr>regions_of := (case regions_of A of [] \<Rightarrow> [] | r # rs \<Rightarrow> f r # rs)\<rparr>"

lemma change_first_ok:
  assumes ok: "lookup_ok mm n L A" and r: "region_at L 0 = Some r" and f: "(lo r', hi r') = f (lo r, hi r)"
  shows "lookup_ok mm n (L\<lparr>sbrk_regions := (sbrk_regions L)[0 := r']\<rparr>) (change_first f A)"
proof -
  have c: "region_count_ok n L" "regions_of A = listed L" using ok by (simp_all add: lookup_ok_def)
  obtain q rs where q: "sbrk_regions L = q # rs" "region_at L 0 = Some q"
    "listed L = (lo q, hi q) # map (\<lambda>r. (lo r, hi r)) (take (unat (sbrk_region_count L)) rs)"
    using first_region [OF c(1)] by blast
  then have "q = r" using r by simp
  then show ?thesis
    using ok q f c(2) by (simp add: lookup_ok_def change_first_def region_count_ok_def listed_def)
qed

lemma first_region_at: "lookup_ok mm n L A \<Longrightarrow> \<exists>r. region_at L 0 = Some r"
  using first_region [of n L] by (metis lookup_ok_def)

lemma lookup_set_sbrk_lo_run:
  assumes "lookup_ok mm n L A"
  shows "\<exists>L'. lookup_set_sbrk_lo p L = Some (True, L') \<and> lookup_ok mm n L' (change_first (\<lambda>(l, h). (p, h)) A)"
proof -
  obtain r where r: "region_at L 0 = Some r" using first_region_at [OF assms] by blast
  then show ?thesis using change_first_ok [OF assms r] by (simp add: lookup_set_sbrk_lo_def)
qed

lemma lookup_incr_sbrk_hi_run:
  assumes "lookup_ok mm n L A"
  shows "\<exists>L'. lookup_incr_sbrk_hi sz L = Some (True, L') \<and>
    lookup_ok mm n L' (change_first (\<lambda>(l, h). (l, (if h = 0 then l else h) + sz)) A)"
proof -
  obtain r where r: "region_at L 0 = Some r" using first_region_at [OF assms] by blast
  then show ?thesis using change_first_ok [OF assms r] by (simp add: lookup_incr_sbrk_hi_def Let_def)
qed

lemma lookup_decr_sbrk_hi_run:
  assumes "lookup_ok mm n L A"
  shows "\<exists>L'. lookup_decr_sbrk_hi sz L = Some (True, L') \<and> lookup_ok mm n L' (change_first (\<lambda>(l, h). (l, h - sz)) A)"
proof -
  obtain r where r: "region_at L 0 = Some r" using first_region_at [OF assms] by blast
  then show ?thesis using change_first_ok [OF assms r] by (simp add: lookup_decr_sbrk_hi_def)
qed

lemma lookup_add_sbrk_region_run:
  assumes ok: "lookup_ok mm n L A" and n: "n < 2 ^ 30"
  shows "\<exists>L'. lookup_add_sbrk_region mm l h L = Some (True, L') \<and>
    lookup_ok mm (Suc n) L' (A\<lparr>regions_of := regions_of A @ [(l, h)]\<rparr>)"
proof -
  let ?c = "sbrk_region_count L" and ?m = "sbrk_region_current_max L" and ?r = "\<lparr>mmapped = True, lo = l, hi = h, mx = h\<rparr>"
  have c: "length (sbrk_regions L) = unat ?m" "unat ?c < unat ?m" "unat ?c \<le> n" "regions_of A = listed L"
    using ok by (simp_all add: lookup_ok_def region_count_ok_def)
  obtain e where e: "10 \<le> e" "e \<le> 31" "unat ?m = 2 ^ e"
    using ok by (auto simp: lookup_ok_def region_count_ok_def)
  have c1: "unat (?c + 1) = Suc (unat ?c)" using c(3) n by (simp add: unat_word_ariths)
  have post: "lookup_ok mm (Suc n) L' (A\<lparr>regions_of := regions_of A @ [(l, h)]\<rparr>)"
    if L': "sbrk_regions L' = (sbrk_regions L @ zs)[unat (?c + 1) := ?r]" "sbrk_region_count L' = ?c + 1"
      "heap_tbl L' = heap_tbl L" "mmap_tbl L' = mmap_tbl L" "heap_max L' = heap_max L"
      "length (sbrk_regions L @ zs) = unat (sbrk_region_current_max L')" "unat (?c + 1) < length (sbrk_regions L @ zs)"
      "\<exists>e. 10 \<le> e \<and> e \<le> 31 \<and> unat (sbrk_region_current_max L') = 2 ^ e" for L' zs
  proof -
    have "take (Suc (Suc (unat ?c))) ((sbrk_regions L @ zs)[Suc (unat ?c) := ?r]) =
        take (Suc (unat ?c)) (sbrk_regions L) @ [?r]"
      using L'(7) c(1,2) unfolding c1 by (subst take_Suc_conv_app_nth) (auto simp: nth_append)
    then have "listed L' = listed L @ [(l, h)]" by (simp add: listed_def L'(1,2) c1)
    then show ?thesis
      using ok L' c c1 lf_rep_mono [of n] by (simp add: lookup_ok_def region_count_ok_def)
  qed
  show ?thesis
  proof (cases "?c + 1 = ?m")
    case False
    then have "unat (?c + 1) < unat ?m" using c(2) c1 by (metis Suc_lessI word_unat_eq_iff)
    then show ?thesis
      using False c(1) e post [of "L\<lparr>sbrk_regions := (sbrk_regions L)[unat (?c + 1) := ?r], sbrk_region_count := ?c + 1\<rparr>" "[]"]
      by (auto simp: lookup_add_sbrk_region_def region_at_def Let_def)
  next
    case True
    have "e \<noteq> 31"
    proof
      assume "e = 31"
      then show False using True c(3) c1 e(3) n by simp
    qed
    then have e30: "e \<le> 30" using e(2) by simp
    have le: "(2 :: nat) ^ e \<le> 2 ^ 30" by (rule power_increasing [OF e30]) simp
    have lt: "\<not> MAX_SBRK_TABLE_SIZE \<le> ?m"
      using le e(3) by (simp add: MAX_SBRK_TABLE_SIZE_def word_le_nat_alt)
    have m2: "unat (2 * ?m) = 2 * unat ?m" using le e(3) by (simp add: unat_word_ariths)
    have "finite (lookup_maps L)" using ok lf_rep_finite by (auto simp: lookup_ok_def lookup_maps_def)
    then obtain b where b: "mm (lookup_maps L) (unat (2 * ?m) * sizeof_sbrk_region) = Some b"
      using ok unfolding lookup_ok_def mmap_ok_def by blast
    let ?zs = "replicate (unat (2 * ?m) - unat ?m) no_region"
    let ?L = "L\<lparr>sbrk_base := b, sbrk_regions := (sbrk_regions L @ ?zs)[unat (?c + 1) := ?r],
      sbrk_region_current_max := 2 * ?m, sbrk_region_count := ?c + 1\<rparr>"
    have "lookup_add_sbrk_region mm l h L = Some (True, ?L)"
      using True lt b c(1) m2 e(3) c1 by (simp add: lookup_add_sbrk_region_def region_at_def Let_def)
    moreover have "lookup_ok mm (Suc n) ?L (A\<lparr>regions_of := regions_of A @ [(l, h)]\<rparr>)"
      by (rule post [of ?L ?zs]) (use c(1) m2 e e30 True in \<open>auto intro!: exI [of _ "Suc e"]\<close>)
    ultimately show ?thesis by blast
  qed
qed

section \<open>The tables\<close>

lemma lf_serves_rep: "lf_serves mm n w M \<Longrightarrow> lf_rep n w M"
  by (simp add: lf_serves_def)

lemma listed_cong:
  "sbrk_regions L' = sbrk_regions L \<Longrightarrow> sbrk_region_count L' = sbrk_region_count L \<Longrightarrow> listed L' = listed L"
  by (simp add: listed_def)

lemma lookup_ok_tables:
  assumes ok: "lookup_ok mm n L A" and h: "lf_rep n' h H" and z: "lf_rep n' t Z" and n: "n \<le> n'"
  shows "lookup_ok mm n' (L\<lparr>heap_tbl := h, mmap_tbl := t\<rparr>) (A\<lparr>heaps := H, mmaps := Z\<rparr>)"
  using ok h z n listed_cong [of "L\<lparr>heap_tbl := h, mmap_tbl := t\<rparr>" L] by (auto simp: lookup_ok_def region_count_ok_def)

lemma lookup_rep_tables:
  assumes "lookup_ok mm n L A"
  shows "lf_rep (n + i) (heap_tbl L) (heaps A)" and "lf_rep (n + i) (mmap_tbl L) (mmaps A)"
  using assms lf_rep_mono [of n _ _ "n + i"] by (simp_all add: lookup_ok_def)

lemma lookup_add_heap_run:
  assumes ok: "lookup_ok mm n L A" and n: "n < 2 ^ 30" and k: "clean p" "index \<noteq> 0"
  shows "\<exists>L'. lookup_add_heap mm p index L = Some (True, L') \<and> lookup_ok mm (Suc n) L' (A\<lparr>heaps := (heaps A)(p := index)\<rparr>)"
proof -
  obtain t where t: "lfht_add (lookup_mmap mm L) (heap_tbl L) p index = Some (True, t)"
    "lf_serves (lookup_mmap mm L) (Suc n) t ((heaps A)(p := index))"
    using lf.add_rep [OF lookup_tables(1) [OF ok] n k] by blast
  then show ?thesis
    using lookup_ok_tables [OF ok lf_serves_rep [OF t(2)], of "mmap_tbl L" "mmaps A"] lookup_rep_tables(2) [OF ok, of 1]
    by (simp add: lookup_add_heap_def)
qed

lemma lookup_delete_heap_run:
  assumes ok: "lookup_ok mm n L A" and k: "clean p" "heaps A p \<noteq> 0"
  shows "\<exists>L'. lookup_delete_heap mm p L = Some (True, L') \<and> lookup_ok mm n L' (A\<lparr>heaps := (heaps A)(p := 0)\<rparr>)"
proof -
  obtain t where t: "lfht_remove (lookup_mmap mm L) (heap_tbl L) p = Some (True, t)"
    "lf_serves (lookup_mmap mm L) n t ((heaps A)(p := 0))"
    using lf.remove_rep [OF lookup_tables(1) [OF ok] k(1)] k(2) by auto
  then show ?thesis
    using lookup_ok_tables [OF ok lf_serves_rep [OF t(2)], of "mmap_tbl L" "mmaps A"] lookup_rep_tables(2) [OF ok, of 0]
    by (simp add: lookup_delete_heap_def)
qed

lemma lookup_add_mmap_run:
  assumes ok: "lookup_ok mm n L A" and n: "n < 2 ^ 30" and k: "clean p" "sz \<noteq> 0"
  shows "\<exists>L'. lookup_add_mmap mm p sz L = Some (True, L') \<and> lookup_ok mm (Suc n) L' (A\<lparr>mmaps := (mmaps A)(p := sz)\<rparr>)"
proof -
  obtain t where t: "lfht_add (lookup_mmap mm L) (mmap_tbl L) p sz = Some (True, t)"
    "lf_serves (lookup_mmap mm L) (Suc n) t ((mmaps A)(p := sz))"
    using lf.add_rep [OF lookup_tables(2) [OF ok] n k] by blast
  then show ?thesis
    using lookup_ok_tables [OF ok _ lf_serves_rep [OF t(2)], of "heap_tbl L" "heaps A"] lookup_rep_tables(1) [OF ok, of 1]
    by (simp add: lookup_add_mmap_def)
qed

lemma lookup_delete_mmap_run:
  assumes ok: "lookup_ok mm n L A" and k: "clean p" "mmaps A p \<noteq> 0"
  shows "\<exists>L'. lookup_delete_mmap mm p L = Some (True, L') \<and> lookup_ok mm n L' (A\<lparr>mmaps := (mmaps A)(p := 0)\<rparr>)"
proof -
  obtain t where t: "lfht_remove (lookup_mmap mm L) (mmap_tbl L) p = Some (True, t)"
    "lf_serves (lookup_mmap mm L) n t ((mmaps A)(p := 0))"
    using lf.remove_rep [OF lookup_tables(2) [OF ok] k(1)] k(2) by auto
  then show ?thesis
    using lookup_ok_tables [OF ok _ lf_serves_rep [OF t(2)], of "heap_tbl L" "heaps A"] lookup_rep_tables(1) [OF ok, of 0]
    by (simp add: lookup_delete_mmap_def)
qed

lemma lookup_ok_unchanged:
  assumes "lookup_ok mm n L A" and "lf_serves E n h (heaps A)" and "lf_serves E' n t (mmaps A)"
  shows "lookup_ok mm n (L\<lparr>heap_tbl := h, mmap_tbl := t\<rparr>) A"
  using lookup_ok_tables [OF assms(1) lf_serves_rep [OF assms(2)] lf_serves_rep [OF assms(3)] order_refl] by simp

lemma lookup_arena_index_run:
  assumes ok: "lookup_ok mm n L A" and p: "clean p"
  shows "\<exists>L'. lookup_arena_index mm p True L = Some (arena_of (heap_max L) A p, L') \<and> lookup_ok mm n L' A \<and>
    heap_max L' = heap_max L"
proof -
  obtain e where e: "4 \<le> e" "e < 64" "heap_max L = 2 ^ e" using ok by (auto simp: lookup_ok_def)
  have c: "region_count_ok n L" "regions_of A = listed L" using ok by (simp_all add: lookup_ok_def)
  note loop = region_loop_listed [OF c(1), of p, folded c(2)]
  show ?thesis
  proof (cases "list_ex (\<lambda>(l, h). l \<le> p \<and> p < h) (regions_of A)")
    case True
    then show ?thesis using ok loop by (simp add: lookup_arena_index_def arena_of_def)
  next
    case no_region: False
    obtain r t where t: "lfht_find (lookup_mmap mm L) (mmap_tbl L) p = Some (r, t)"
      "lf_serves (lookup_mmap mm L) n t (mmaps A)" "r \<noteq> None \<and> r \<noteq> Some TOMBSTONE \<longleftrightarrow> mmaps A p \<noteq> 0"
      using find_any [OF lookup_tables(2) [OF ok]] p by metis
    let ?L = "L\<lparr>mmap_tbl := t\<rparr>"
    have ok': "lookup_ok mm n ?L A" using lookup_ok_unchanged [OF ok lookup_tables(1) [OF ok] t(2)] by simp
    show ?thesis
    proof (cases "mmaps A p = 0")
      case False
      then show ?thesis using ok' loop no_region t by (simp add: lookup_arena_index_def arena_of_def)
    next
      case no_mmap: True
      let ?h = "heap_of (heap_max L) p"
      have "?h = 0 \<or> clean ?h" unfolding e(3) by (rule heap_of_clean [OF e(1,2)])
      then obtain r' h where h: "lfht_find (lookup_mmap mm ?L) (heap_tbl ?L) ?h = Some (r', h)"
        "lf_serves (lookup_mmap mm ?L) n h (heaps A)" "r' \<noteq> None \<and> r' \<noteq> Some TOMBSTONE \<longleftrightarrow> heaps A ?h \<noteq> 0"
        "heaps A ?h \<noteq> 0 \<Longrightarrow> r' = Some (heaps A ?h)"
        using find_any [OF lookup_tables(1) [OF ok']] by metis
      have "lookup_ok mm n (L\<lparr>heap_tbl := h, mmap_tbl := t\<rparr>) A" by (rule lookup_ok_unchanged [OF ok h(2) t(2)])
      moreover have "lookup_arena_index mm p True L =
          Some (arena_of (heap_max L) A p, L\<lparr>heap_tbl := h, mmap_tbl := t\<rparr>)"
        using loop no_region no_mmap t h
        by (auto simp: lookup_arena_index_def arena_of_def heap_of_def [symmetric] Let_def)
      ultimately show ?thesis by simp
    qed
  qed
qed

definition no_lookup :: lookup where
  "no_lookup = \<lparr>sbrk_region_count = 0, sbrk_region_current_max = SBRK_INITIAL_MAX_SEGMENTS, sbrk_base = 0,
     sbrk_regions = [], heap_tbl = no_table, mmap_tbl = no_table, heap_max = 0\<rparr>"

lemma lookup_init_run:
  assumes "4 \<le> e" and "e < 64" and mm: "mmap_ok mm"
  shows "\<exists>L. lookup_init mm (2 ^ e) no_lookup = Some L \<and> heap_max L = 2 ^ e \<and>
    lookup_ok mm 0 L \<lparr>regions_of = [(0, 0)], heaps = (\<lambda>_. 0), mmaps = (\<lambda>_. 0)\<rparr>"
proof -
  obtain base where b: "mm {} (1024 * sizeof_sbrk_region) = Some base" using mm unfolding mmap_ok_def by blast
  let ?L = "no_lookup\<lparr>heap_max := 2 ^ e, sbrk_base := base, sbrk_regions := replicate 1024 no_region\<rparr>"
  note ok = lookup_mmap_fresh [OF mm]
  have none: "dom (hdrs no_table) = {}" by (simp add: no_table_def)
  then have fin: "finite (dom (hdrs no_table))" by simp
  have "finite (lookup_maps ?L)" by (simp add: lookup_maps_def no_lookup_def no_table_def)
  from init_lfht_run [of 10, OF _ _ ok [OF this] fin]
  obtain h where h: "init_lfht (lookup_mmap mm ?L) (Some no_table) 1024 = (True, Some h)" "lf_rep 0 h (\<lambda>_. 0)"
    by auto
  let ?L' = "?L\<lparr>heap_tbl := h\<rparr>"
  have "finite (lookup_maps ?L')" using lf_rep_finite [OF h(2)] by (simp add: lookup_maps_def no_lookup_def no_table_def)
  from init_lfht_run [of 10, OF _ _ ok [OF this] fin]
  obtain t where t: "init_lfht (lookup_mmap mm ?L') (Some no_table) 1024 = (True, Some t)" "lf_rep 0 t (\<lambda>_. 0)"
    by auto
  have "lookup_init mm (2 ^ e) no_lookup = Some (?L'\<lparr>mmap_tbl := t\<rparr>)"
    using b h(1) t(1) none
    by (simp add: lookup_init_def no_lookup_def TABLE_SIZE_def SBRK_INITIAL_MAX_SEGMENTS_def)
  moreover have "region_count_ok 0 (?L'\<lparr>mmap_tbl := t\<rparr>)"
    by (auto simp: region_count_ok_def no_lookup_def SBRK_INITIAL_MAX_SEGMENTS_def intro!: exI [of _ 10])
  moreover have "listed (?L'\<lparr>mmap_tbl := t\<rparr>) = [(0, 0)]"
    by (simp add: listed_def no_lookup_def no_region_def)
  ultimately show ?thesis using assms h(2) t(2)
    by (auto simp: lookup_ok_def no_lookup_def)
qed

section \<open>Requests\<close>

datatype lookup_request =
    SetLo u64 | IncrHi u64 | DecrHi u64 | AddRegion u64 u64
  | AddHeap u64 u64 | DeleteHeap u64 | AddMmap u64 u64 | DeleteMmap u64
  | WhichArena u64

text \<open>What the callers guarantee: aligned addresses, indices and sizes other than \<open>0\<close>, no double deletion.\<close>

fun lookup_request_ok :: "lookup_request \<Rightarrow> arena_map \<Rightarrow> bool" where
  "lookup_request_ok (AddHeap p i) A \<longleftrightarrow> clean p \<and> i \<noteq> 0"
| "lookup_request_ok (DeleteHeap p) A \<longleftrightarrow> clean p \<and> heaps A p \<noteq> 0"
| "lookup_request_ok (AddMmap p sz) A \<longleftrightarrow> clean p \<and> sz \<noteq> 0"
| "lookup_request_ok (DeleteMmap p) A \<longleftrightarrow> clean p \<and> mmaps A p \<noteq> 0"
| "lookup_request_ok (WhichArena p) A \<longleftrightarrow> clean p"
| "lookup_request_ok _ A \<longleftrightarrow> True"

fun arena_step :: "lookup_request \<Rightarrow> arena_map \<Rightarrow> arena_map" where
  "arena_step (SetLo p) A = change_first (\<lambda>(l, h). (p, h)) A"
| "arena_step (IncrHi sz) A = change_first (\<lambda>(l, h). (l, (if h = 0 then l else h) + sz)) A"
| "arena_step (DecrHi sz) A = change_first (\<lambda>(l, h). (l, h - sz)) A"
| "arena_step (AddRegion l h) A = A\<lparr>regions_of := regions_of A @ [(l, h)]\<rparr>"
| "arena_step (AddHeap p i) A = A\<lparr>heaps := (heaps A)(p := i)\<rparr>"
| "arena_step (DeleteHeap p) A = A\<lparr>heaps := (heaps A)(p := 0)\<rparr>"
| "arena_step (AddMmap p sz) A = A\<lparr>mmaps := (mmaps A)(p := sz)\<rparr>"
| "arena_step (DeleteMmap p) A = A\<lparr>mmaps := (mmaps A)(p := 0)\<rparr>"
| "arena_step (WhichArena p) A = A"

fun arena_spec :: "u64 \<Rightarrow> lookup_request list \<Rightarrow> arena_map \<Rightarrow> u64 option list option" where
  "arena_spec hmx [] A = Some []"
| "arena_spec hmx (q # qs) A =
    (if lookup_request_ok q A
     then map_option (\<lambda>as. (case q of WhichArena p \<Rightarrow> arena_of hmx A p | _ \<Rightarrow> None) # as)
       (arena_spec hmx qs (arena_step q A))
     else None)"

definition flag_only :: "(bool \<times> lookup) option \<Rightarrow> (u64 option \<times> lookup) option" where
  "flag_only r = do { (ok, L) \<leftarrow> r; assert_c ok; Some (None, L) }"

fun lookup_do :: "lf_mmap \<Rightarrow> lookup_request \<Rightarrow> lookup \<Rightarrow> (u64 option \<times> lookup) option" where
  "lookup_do mm (SetLo p) L = flag_only (lookup_set_sbrk_lo p L)"
| "lookup_do mm (IncrHi sz) L = flag_only (lookup_incr_sbrk_hi sz L)"
| "lookup_do mm (DecrHi sz) L = flag_only (lookup_decr_sbrk_hi sz L)"
| "lookup_do mm (AddRegion l h) L = flag_only (lookup_add_sbrk_region mm l h L)"
| "lookup_do mm (AddHeap p i) L = flag_only (lookup_add_heap mm p i L)"
| "lookup_do mm (DeleteHeap p) L = flag_only (lookup_delete_heap mm p L)"
| "lookup_do mm (AddMmap p sz) L = flag_only (lookup_add_mmap mm p sz L)"
| "lookup_do mm (DeleteMmap p) L = flag_only (lookup_delete_mmap mm p L)"
| "lookup_do mm (WhichArena p) L = lookup_arena_index mm p True L"

fun lookup_serve :: "lf_mmap \<Rightarrow> lookup_request list \<Rightarrow> lookup \<Rightarrow> (u64 option list \<times> lookup) option" where
  "lookup_serve mm [] L = Some ([], L)"
| "lookup_serve mm (q # qs) L = do {
     (a, L) \<leftarrow> lookup_do mm q L; (as, L) \<leftarrow> lookup_serve mm qs L; Some (a # as, L) }"

lemma lookup_ok_mono: "lookup_ok mm n L A \<Longrightarrow> lookup_ok mm (Suc n) L A"
  using lf_rep_mono [of n _ _ "Suc n"] by (auto simp: lookup_ok_def region_count_ok_def)

lemmas lookup_runs = lookup_set_sbrk_lo_run lookup_incr_sbrk_hi_run lookup_decr_sbrk_hi_run
  lookup_delete_heap_run lookup_delete_mmap_run

lemma heap_max_unchanged:
  assumes "lookup_do mm q L = Some (a, L')"
  shows "heap_max L' = heap_max L"
  using assms
  by (cases q)
    (auto simp: flag_only_def lookup_set_sbrk_lo_def lookup_incr_sbrk_hi_def lookup_decr_sbrk_hi_def Let_def
      lookup_add_sbrk_region_def lookup_add_heap_def lookup_delete_heap_def lookup_add_mmap_def lookup_delete_mmap_def
      lookup_arena_index_def bind_eq_Some_conv split: if_splits option.splits prod.splits)

lemma lookup_do_run:
  assumes ok: "lookup_ok mm n L A" and n: "n < 2 ^ 30" and q: "lookup_request_ok q A"
  shows "\<exists>L'. lookup_do mm q L = Some (case q of WhichArena p \<Rightarrow> arena_of (heap_max L) A p | _ \<Rightarrow> None, L') \<and>
    lookup_ok mm (Suc n) L' (arena_step q A) \<and> heap_max L' = heap_max L"
proof -
  have "\<exists>L'. lookup_do mm q L = Some (case q of WhichArena p \<Rightarrow> arena_of (heap_max L) A p | _ \<Rightarrow> None, L') \<and>
    lookup_ok mm (Suc n) L' (arena_step q A)"
  proof (cases q)
    case (SetLo p)
    then show ?thesis using lookup_set_sbrk_lo_run [OF ok, of p] lookup_ok_mono by (force simp: flag_only_def)
  next
    case (IncrHi sz)
    then show ?thesis using lookup_incr_sbrk_hi_run [OF ok, of sz] lookup_ok_mono by (force simp: flag_only_def)
  next
    case (DecrHi sz)
    then show ?thesis using lookup_decr_sbrk_hi_run [OF ok, of sz] lookup_ok_mono by (force simp: flag_only_def)
  next
    case (AddRegion l h)
    then show ?thesis using lookup_add_sbrk_region_run [OF ok n, of l h] by (force simp: flag_only_def)
  next
    case (AddHeap p i)
    then show ?thesis using lookup_add_heap_run [OF ok n, of p i] q by (force simp: flag_only_def)
  next
    case (DeleteHeap p)
    then show ?thesis using lookup_delete_heap_run [OF ok, of p] q lookup_ok_mono by (force simp: flag_only_def)
  next
    case (AddMmap p sz)
    then show ?thesis using lookup_add_mmap_run [OF ok n, of p sz] q by (force simp: flag_only_def)
  next
    case (DeleteMmap p)
    then show ?thesis using lookup_delete_mmap_run [OF ok, of p] q lookup_ok_mono by (force simp: flag_only_def)
  next
    case (WhichArena p)
    then show ?thesis using lookup_arena_index_run [OF ok, of p] q lookup_ok_mono by force
  qed
  then show ?thesis using heap_max_unchanged by blast
qed

lemma lookup_serve_run:
  assumes "lookup_ok mm n L A" and "n + length qs \<le> 2 ^ 30" and "arena_spec (heap_max L) qs A = Some as"
  shows "\<exists>L'. lookup_serve mm qs L = Some (as, L')"
  using assms
proof (induction qs arbitrary: n L A as)
  case (Cons q qs)
  have q: "lookup_request_ok q A" using Cons.prems(3) by (simp split: if_splits)
  obtain L' where L': "lookup_do mm q L = Some (case q of WhichArena p \<Rightarrow> arena_of (heap_max L) A p | _ \<Rightarrow> None, L')"
    "lookup_ok mm (Suc n) L' (arena_step q A)" "heap_max L' = heap_max L"
    using lookup_do_run [OF Cons.prems(1) _ q] Cons.prems(2) by auto
  obtain as' where as': "arena_spec (heap_max L') qs (arena_step q A) = Some as'"
    "as = (case q of WhichArena p \<Rightarrow> arena_of (heap_max L) A p | _ \<Rightarrow> None) # as'"
    using Cons.prems(3) q L'(3) by (auto simp: map_option_eq_Some)
  show ?case using Cons.IH [OF L'(2) _ as'(1)] Cons.prems(2) L'(1) as'(2) by auto
qed simp

definition arena_map0 :: arena_map where
  "arena_map0 = \<lparr>regions_of = [(0, 0)], heaps = (\<lambda>_. 0), mmaps = (\<lambda>_. 0)\<rparr>"

text \<open>
  C10: \<open>lookup.c\<close> always knows the arena of a pointer: after \<open>lookup_init\<close> any sequence of up to \<open>2^30\<close>
  requests, in which the callers delete only what they added, is answered from the regions, heaps and
  mapped chunks then registered, and no assertion or \<open>abort\<close> is met.
\<close>

theorem lookup_serves_requests:
  assumes "4 \<le> e" and "e < 64" and "mmap_ok mm" and "length qs \<le> 2 ^ 30"
    and "arena_spec (2 ^ e) qs arena_map0 = Some as"
  shows "\<exists>L L'. lookup_init mm (2 ^ e) no_lookup = Some L \<and> lookup_serve mm qs L = Some (as, L')"
  using lookup_init_run [OF assms(1-3), folded arena_map0_def] lookup_serve_run [of mm 0 _ arena_map0 qs as] assms(4,5)
  by (metis add_0)

theorem lookup_serves_requests_witness:
  "\<exists>L L'. lookup_init next_fit (2 ^ 26) no_lookup = Some L \<and>
    lookup_serve next_fit [SetLo 16, IncrHi 32, AddHeap 0x4000000 5, WhichArena 32, WhichArena 0x4000010,
        DeleteHeap 0x4000000, WhichArena 0x4000010] L =
      Some ([None, None, None, Some 1, Some 5, None, None], L')"
  by (rule lookup_serves_requests)
    (simp_all add: next_fit_ok arena_map0_def change_first_def arena_of_def heap_of_def clean_def is_assimilated_def
      KEY_ALIGNMENT_def)

text \<open>
  C33: \<open>lookup_arena_index\<close> finds the heap of any address in it: once \<open>lookup_add_heap\<close> has registered the
  heap at the aligned address \<open>h\<close> for the arena \<open>i\<close>, every aligned pointer into its \<open>heap_max\<close> bytes
  that lies in no break region and is no mapped chunk belongs to \<open>i\<close>, and to no arena again after
  \<open>lookup_delete_heap\<close>.
\<close>

theorem lookup_heap_roundtrip:
  assumes ok: "lookup_ok mm n L A" and n: "n < 2 ^ 30" and h: "clean h" "heap_of (heap_max L) h = h" "i \<noteq> 0"
    and p: "off < heap_max L" "clean (h + off)" "\<forall>(l, u) \<in> set (regions_of A). \<not> (l \<le> h + off \<and> h + off < u)"
      "mmaps A (h + off) = 0"
  shows "\<exists>L1 L2 L3 L4. lookup_add_heap mm h i L = Some (True, L1) \<and>
    lookup_arena_index mm (h + off) True L1 = Some (Some i, L2) \<and>
    lookup_delete_heap mm h L2 = Some (True, L3) \<and>
    lookup_arena_index mm (h + off) True L3 = Some (None, L4)"
proof -
  obtain e where e: "e < 64" "heap_max L = 2 ^ e" using ok by (auto simp: lookup_ok_def)
  have ho: "heap_of (heap_max L) (h + off) = h" using heap_of_inside [OF e(1)] h(2) p(1) e(2) by simp
  have nr: "\<not> list_ex (\<lambda>(l, u). l \<le> h + off \<and> h + off < u) (regions_of A)" using p(3) by (auto simp: list_ex_iff)
  let ?A = "A\<lparr>heaps := (heaps A)(h := i)\<rparr>" and ?B = "A\<lparr>heaps := (heaps A)(h := 0)\<rparr>"
  obtain L1 where L1: "lookup_add_heap mm h i L = Some (True, L1)" "lookup_ok mm (Suc n) L1 ?A"
    using lookup_add_heap_run [OF ok n h(1,3)] by blast
  have m1: "heap_max L1 = heap_max L" using heap_max_unchanged [of mm "AddHeap h i"] L1(1) by (simp add: flag_only_def)
  obtain L2 where L2: "lookup_arena_index mm (h + off) True L1 = Some (arena_of (heap_max L1) ?A (h + off), L2)"
    "lookup_ok mm (Suc n) L2 ?A" "heap_max L2 = heap_max L1"
    using lookup_arena_index_run [OF L1(2) p(2)] by blast
  obtain L3 where L3: "lookup_delete_heap mm h L2 = Some (True, L3)" "lookup_ok mm (Suc n) L3 ?B"
    using lookup_delete_heap_run [OF L2(2) h(1)] h(3) by auto
  have m3: "heap_max L3 = heap_max L2" using heap_max_unchanged [of mm "DeleteHeap h"] L3(1) by (simp add: flag_only_def)
  obtain L4 where L4: "lookup_arena_index mm (h + off) True L3 = Some (arena_of (heap_max L3) ?B (h + off), L4)"
    using lookup_arena_index_run [OF L3(2) p(2)] by blast
  have "arena_of (heap_max L1) ?A (h + off) = Some i" "arena_of (heap_max L3) ?B (h + off) = None"
    using nr p(4) ho h(3) m1 m3 L2(3) by (simp_all add: arena_of_def)
  then show ?thesis using L1(1) L2(1) L3(1) L4 by simp
qed

theorem lookup_heap_roundtrip_witness:
  "\<exists>L L1 L2 L3 L4. lookup_add_heap next_fit 0x4000000 5 L = Some (True, L1) \<and>
    lookup_arena_index next_fit 0x4000040 True L1 = Some (Some 5, L2) \<and>
    lookup_delete_heap next_fit 0x4000000 L2 = Some (True, L3) \<and>
    lookup_arena_index next_fit 0x4000040 True L3 = Some (None, L4)"
proof -
  obtain L where L: "heap_max L = 2 ^ 26" "lookup_ok next_fit 0 L arena_map0"
    using lookup_init_run [of 26 next_fit, folded arena_map0_def] next_fit_ok by auto
  have al: "heap_of (heap_max L) 0x4000000 = 0x4000000" unfolding L(1) by (simp add: heap_of_def)
  have c: "clean 0x4000000" "clean 0x4000040" by (simp_all add: clean_def is_assimilated_def KEY_ALIGNMENT_def)
  have s: "0x4000000 + 0x40 = (0x4000040 :: u64)" by simp
  show ?thesis
    by (rule exI, rule lookup_heap_roundtrip [OF L(2) _ c(1) al, where i = 5 and off = "0x40", unfolded s])
      (simp_all add: L(1) c(2) arena_map0_def)
qed

end
