(* ===== verification/Malloc_Size.thy ===== *)
theory Malloc_Size
  imports Metadata_Props
begin

text \<open>
  The arithmetic of \<open>malloc.c\<close>, for the default build on a 64-bit machine: requests and chunk sizes,
  the flag bits of a size, the index of the bin of a size, and the bit map of the bins.
  \<open>SRI_DEBUG_HEADERS\<close> is \<open>0\<close>, so \<open>struct malloc_chunk\<close> is empty, \<open>HEADER_SIZE\<close> is \<open>0\<close> and a chunk is
  its memory.
\<close>

section \<open>Sizes\<close>

definition SIZE_SZ :: u64 where
  "SIZE_SZ = 8"

definition MALLOC_ALIGNMENT :: u64 where
  "MALLOC_ALIGNMENT = 16"

definition MALLOC_ALIGN_MASK :: u64 where
  "MALLOC_ALIGN_MASK = MALLOC_ALIGNMENT - 1"

definition HEADER_SIZE :: u64 where
  "HEADER_SIZE = 0"

definition MIN_CHUNK_SIZE :: u64 where
  "MIN_CHUNK_SIZE = 4 * SIZE_SZ"

definition MINSIZE :: u64 where
  "MINSIZE = (MIN_CHUNK_SIZE + MALLOC_ALIGN_MASK) AND NOT MALLOC_ALIGN_MASK"

definition chunk2mem :: "u64 \<Rightarrow> u64" where
  "chunk2mem p = p + HEADER_SIZE"

definition mem2chunk :: "u64 \<Rightarrow> u64" where
  "mem2chunk m = m - HEADER_SIZE"

definition aligned_OK :: "u64 \<Rightarrow> bool" where
  "aligned_OK m \<longleftrightarrow> m AND MALLOC_ALIGN_MASK = 0"

definition misaligned_chunk :: "u64 \<Rightarrow> bool" where
  "misaligned_chunk p \<longleftrightarrow>
     (if MALLOC_ALIGNMENT = 2 * SIZE_SZ then p else chunk2mem p) AND MALLOC_ALIGN_MASK \<noteq> 0"

definition REQUEST_OUT_OF_RANGE :: "u64 \<Rightarrow> bool" where
  "REQUEST_OUT_OF_RANGE req \<longleftrightarrow> req \<ge> - 2 * MINSIZE"

definition request2size :: "u64 \<Rightarrow> u64" where
  "request2size req =
    (if req + HEADER_SIZE + MALLOC_ALIGN_MASK < MINSIZE then MINSIZE
     else (req + HEADER_SIZE + MALLOC_ALIGN_MASK) AND NOT MALLOC_ALIGN_MASK)"

definition checked_request2size :: "u64 \<Rightarrow> errno_code + u64" where
  "checked_request2size req = (if REQUEST_OUT_OF_RANGE req then Inl ENOMEM else Inr (request2size req))"

definition PREV_INUSE :: u64 where
  "PREV_INUSE = 1"

definition IS_MMAPPED :: u64 where
  "IS_MMAPPED = 2"

definition SIZE_BITS :: u64 where
  "SIZE_BITS = PREV_INUSE OR IS_MMAPPED"

definition size2chunksize :: "u64 \<Rightarrow> u64" where
  "size2chunksize sz = sz AND NOT SIZE_BITS"

section \<open>Bins\<close>

definition NBINS :: nat where
  "NBINS = 128"

definition NSMALLBINS :: u64 where
  "NSMALLBINS = 64"

definition SMALLBIN_WIDTH :: u64 where
  "SMALLBIN_WIDTH = MALLOC_ALIGNMENT"

definition SMALLBIN_CORRECTION :: u64 where
  "SMALLBIN_CORRECTION = (if MALLOC_ALIGNMENT > 2 * SIZE_SZ then 1 else 0)"

definition MIN_LARGE_SIZE :: u64 where
  "MIN_LARGE_SIZE = (NSMALLBINS - SMALLBIN_CORRECTION) * SMALLBIN_WIDTH"

definition in_smallbin_range :: "u64 \<Rightarrow> bool" where
  "in_smallbin_range sz \<longleftrightarrow> sz + 16 < MIN_LARGE_SIZE"

definition smallbin_index :: "u64 \<Rightarrow> u32" where
  "smallbin_index sz =
    (let sz = sz + 16 in
     if SMALLBIN_WIDTH = 16 then drop_bit 4 (ucast sz) else drop_bit 3 (ucast sz) + ucast SMALLBIN_CORRECTION)"

definition largebin_index_32 :: "u64 \<Rightarrow> u32" where
  "largebin_index_32 sz = ucast
    (if drop_bit 6 sz \<le> 38 then 56 + drop_bit 6 sz
     else if drop_bit 9 sz \<le> 20 then 91 + drop_bit 9 sz
     else if drop_bit 12 sz \<le> 10 then 110 + drop_bit 12 sz
     else if drop_bit 15 sz \<le> 4 then 119 + drop_bit 15 sz
     else if drop_bit 18 sz \<le> 2 then 124 + drop_bit 18 sz
     else 126)"

definition largebin_index_32_big :: "u64 \<Rightarrow> u32" where
  "largebin_index_32_big sz = ucast
    (if drop_bit 6 sz \<le> 45 then 49 + drop_bit 6 sz
     else if drop_bit 9 sz \<le> 20 then 91 + drop_bit 9 sz
     else if drop_bit 12 sz \<le> 10 then 110 + drop_bit 12 sz
     else if drop_bit 15 sz \<le> 4 then 119 + drop_bit 15 sz
     else if drop_bit 18 sz \<le> 2 then 124 + drop_bit 18 sz
     else 126)"

definition largebin_index_64 :: "u64 \<Rightarrow> u32" where
  "largebin_index_64 sz =
    (let sz = sz + 16 in ucast
    (if drop_bit 6 sz \<le> 48 then 48 + drop_bit 6 sz
     else if drop_bit 9 sz \<le> 20 then 91 + drop_bit 9 sz
     else if drop_bit 12 sz \<le> 10 then 110 + drop_bit 12 sz
     else if drop_bit 15 sz \<le> 4 then 119 + drop_bit 15 sz
     else if drop_bit 18 sz \<le> 2 then 124 + drop_bit 18 sz
     else 126))"

definition largebin_index :: "u64 \<Rightarrow> u32" where
  "largebin_index sz =
    (if SIZE_SZ = 8 then largebin_index_64 sz
     else if MALLOC_ALIGNMENT = 16 then largebin_index_32_big sz
     else largebin_index_32 sz)"

definition bin_index :: "u64 \<Rightarrow> u32" where
  "bin_index sz = (if in_smallbin_range sz then smallbin_index sz else largebin_index sz)"

section \<open>Fast bins\<close>

definition fastbin_index :: "u64 \<Rightarrow> u32" where
  "fastbin_index sz = drop_bit (if SIZE_SZ = 8 then 4 else 3) (ucast (sz + 16)) - 2"

definition MAX_FAST_SIZE :: u64 where
  "MAX_FAST_SIZE = 80 * SIZE_SZ div 4"

definition NFASTBINS :: nat where
  "NFASTBINS = unat (fastbin_index (request2size MAX_FAST_SIZE)) + 1"

definition DEFAULT_MXFAST :: u64 where
  "DEFAULT_MXFAST = 64 * SIZE_SZ div 4"

definition FASTBIN_CONSOLIDATION_THRESHOLD :: u64 where
  "FASTBIN_CONSOLIDATION_THRESHOLD = 65536"

text \<open>\<open>set_max_fast\<close> gives the new value of \<open>global_max_fast\<close>.\<close>

definition set_max_fast :: "u64 \<Rightarrow> u64" where
  "set_max_fast sz = (if sz = 0 then SMALLBIN_WIDTH else (sz + SIZE_SZ) AND NOT MALLOC_ALIGN_MASK)"

section \<open>Bin map\<close>

definition BINMAPSHIFT :: nat where
  "BINMAPSHIFT = 5"

definition BITSPERMAP :: nat where
  "BITSPERMAP = 2 ^ BINMAPSHIFT"

definition BINMAPSIZE :: nat where
  "BINMAPSIZE = NBINS div BITSPERMAP"

definition idx2block :: "u32 \<Rightarrow> u32" where
  "idx2block i = drop_bit BINMAPSHIFT i"

definition idx2bit :: "u32 \<Rightarrow> u32" where
  "idx2bit i = push_bit (unat (i AND (push_bit BINMAPSHIFT 1 - 1))) 1"

type_synonym binmap = "u32 list"

definition mark_bin :: "binmap \<Rightarrow> u32 \<Rightarrow> binmap option" where
  "mark_bin bm i = do {
     assert_c (unat (idx2block i) < length bm);
     Some (bm[unat (idx2block i) := bm ! unat (idx2block i) OR idx2bit i]) }"

definition unmark_bin :: "binmap \<Rightarrow> u32 \<Rightarrow> binmap option" where
  "unmark_bin bm i = do {
     assert_c (unat (idx2block i) < length bm);
     Some (bm[unat (idx2block i) := bm ! unat (idx2block i) AND NOT (idx2bit i)]) }"

definition get_binmap :: "binmap \<Rightarrow> u32 \<Rightarrow> u32 option" where
  "get_binmap bm i = do {
     assert_c (unat (idx2block i) < length bm);
     Some (bm ! unat (idx2block i) AND idx2bit i) }"

lemmas malloc_consts = SIZE_SZ_def MALLOC_ALIGNMENT_def MALLOC_ALIGN_MASK_def HEADER_SIZE_def MIN_CHUNK_SIZE_def
  MINSIZE_def PREV_INUSE_def IS_MMAPPED_def SIZE_BITS_def NBINS_def NSMALLBINS_def SMALLBIN_WIDTH_def
  SMALLBIN_CORRECTION_def MIN_LARGE_SIZE_def MAX_FAST_SIZE_def DEFAULT_MXFAST_def
  FASTBIN_CONSOLIDATION_THRESHOLD_def BINMAPSHIFT_def BITSPERMAP_def BINMAPSIZE_def

section \<open>Values of the constants\<close>

lemma MINSIZE_eq: "MINSIZE = 32"
  by (simp add: malloc_consts)

lemma MIN_LARGE_SIZE_eq: "MIN_LARGE_SIZE = 1024"
  by (simp add: malloc_consts)

lemma NFASTBINS_eq: "NFASTBINS = 10"
  by (simp add: NFASTBINS_def fastbin_index_def request2size_def malloc_consts drop_bit_eq_div)

lemma set_max_fast_default: "set_max_fast DEFAULT_MXFAST = 128"
  by (simp add: set_max_fast_def malloc_consts)

end
