(* ===== verification/Malloc_Size_Props.thy ===== *)
theory Malloc_Size_Props
  imports Malloc_Size
begin

text \<open>
  Properties of the arithmetic of \<open>malloc.c\<close>: requests are padded without wrap-around, the bin index is
  a monotone map of sizes onto the bins, small bins hold one size each, and the bit map is a set of
  bins.
\<close>

section \<open>Padding\<close>

lemma and_not_mask: "x AND NOT (mask n) = push_bit n (drop_bit n (x :: 'a::len word))"
  by (rule bit_word_eqI) (auto simp: bit_and_iff bit_not_iff bit_mask_iff bit_push_bit_iff bit_drop_bit_eq)

lemma unat_and_not_mask: "unat (x AND NOT (mask n)) = unat (x :: 'a::len word) div 2 ^ n * 2 ^ n"
proof -
  have le: "unat x div 2 ^ n * 2 ^ n \<le> unat x" by simp
  then have "unat x div 2 ^ n * 2 ^ n < 2 ^ LENGTH('a)" by (rule le_less_trans) (rule unsigned_less)
  then have "take_bit LENGTH('a) (unat x div 2 ^ n * 2 ^ n) = unat x div 2 ^ n * 2 ^ n"
    by (simp add: take_bit_nat_eq_self)
  then show ?thesis
    unfolding and_not_mask unsigned_push_bit_eq unat_drop_bit_eq
    by (simp add: push_bit_eq_mult drop_bit_eq_div)
qed

lemma align_down: "unat (x AND NOT (15 :: u64)) = unat x div 16 * 16"
  using unat_and_not_mask [of x 4] by (simp add: mask_eq_exp_minus_1)

lemma in_range: "\<not> REQUEST_OUT_OF_RANGE req \<longleftrightarrow> unat req < 2 ^ 64 - 64"
  by (simp add: REQUEST_OUT_OF_RANGE_def MINSIZE_eq word_le_nat_alt not_le)

lemma request2size_nat:
  assumes "unat req < 2 ^ 64 - 64"
  shows "unat (request2size req) = max 32 ((unat req + 15) div 16 * 16)"
proof -
  have a: "unat (req + 15) = unat req + 15" using assms by (simp add: unat_word_ariths)
  show ?thesis
  proof (cases "unat req + 15 < 32")
    case True
    then have "(unat req + 15) div 16 * 16 \<le> 32" by linarith
    then show ?thesis using True a by (simp add: request2size_def malloc_consts word_less_nat_alt)
  next
    case False
    then have "2 \<le> (unat req + 15) div 16" by (simp add: less_eq_div_iff_mult_less_eq)
    then have "32 \<le> (unat req + 15) div 16 * 16" by simp
    then show ?thesis using False a align_down [of "req + 15"]
      by (simp add: request2size_def malloc_consts word_less_nat_alt)
  qed
qed

text \<open>
  C34: \<open>checked_request2size\<close> never wraps around: a request it accepts gets a chunk of at least \<open>MINSIZE\<close>
  bytes that is aligned, holds the request, and wastes less than \<open>MALLOC_ALIGNMENT\<close> bytes unless it
  is the smallest chunk; it refuses, with \<open>ENOMEM\<close>, exactly the requests above \<open>-2 * MINSIZE\<close>.
\<close>

theorem checked_request2size_fits:
  shows "(case checked_request2size req of
    Inl e \<Rightarrow> e = ENOMEM \<and> 2 ^ 64 - 64 \<le> unat req
  | Inr nb \<Rightarrow> unat req < 2 ^ 64 - 64 \<and> unat req \<le> unat nb \<and> 32 \<le> unat nb \<and> 16 dvd unat nb \<and>
      (unat nb < unat req + 16 \<or> nb = MINSIZE))"
proof (cases "REQUEST_OUT_OF_RANGE req")
  case True
  then show ?thesis using in_range [of req] by (simp add: checked_request2size_def not_less)
next
  case False
  then have lt: "unat req < 2 ^ 64 - 64" using in_range by simp
  note nb = request2size_nat [OF lt]
  have "unat req \<le> (unat req + 15) div 16 * 16" "(unat req + 15) div 16 * 16 < unat req + 16" by linarith+
  moreover have "16 dvd max 32 ((unat req + 15) div 16 * 16)" by (simp add: max_def)
  moreover have "request2size req = MINSIZE" if "unat (request2size req) = 32"
    using that by (simp add: MINSIZE_eq word_unat_eq_iff)
  ultimately show ?thesis using False lt nb by (auto simp: checked_request2size_def max_def)
qed

section \<open>The bin of a size\<close>

text \<open>The index functions on numbers, for sizes that do not wrap around.\<close>

definition large_index :: "nat \<Rightarrow> nat" where
  "large_index s =
    (if s div 64 \<le> 48 then 48 + s div 64
     else if s div 512 \<le> 20 then 91 + s div 512
     else if s div 4096 \<le> 10 then 110 + s div 4096
     else if s div 32768 \<le> 4 then 119 + s div 32768
     else if s div 262144 \<le> 2 then 124 + s div 262144
     else 126)"

lemma div_le_cases: "s div d \<le> (c :: nat) \<longleftrightarrow> s < Suc c * d" if "0 < d"
  using that by (metis div_less_iff_less_mult less_Suc_eq_le)

lemma large_index_bound: "s div 64 \<ge> 16 \<Longrightarrow> 64 \<le> large_index s \<and> large_index s \<le> 126"
  unfolding large_index_def by (auto simp: div_le_cases not_le)

definition index_steps :: "nat \<Rightarrow> nat \<Rightarrow> nat \<Rightarrow> nat \<Rightarrow> nat \<Rightarrow> nat" where
  "index_steps a b c d e =
    (if a \<le> 48 then 48 + a else if b \<le> 20 then 91 + b else if c \<le> 10 then 110 + c
     else if d \<le> 4 then 119 + d else if e \<le> 2 then 124 + e else 126)"

lemma index_steps_mono:
  assumes "a \<le> a'" "b \<le> b'" "c \<le> c'" "d \<le> d'" "e \<le> e'"
    and "a' \<le> 48 \<or> 6 \<le> b'" "b' \<le> 20 \<or> 2 \<le> c'" "c' \<le> 10 \<or> 1 \<le> d'"
  shows "index_steps a b c d e \<le> index_steps a' b' c' d' e'"
  using assms unfolding index_steps_def by auto

lemma large_index_mono:
  assumes "s \<le> t"
  shows "large_index s \<le> large_index t"
proof -
  have "t div 64 \<le> 48 \<or> 6 \<le> t div 512" "t div 512 \<le> 20 \<or> 2 \<le> t div 4096" "t div 4096 \<le> 10 \<or> 1 \<le> t div 32768"
    by linarith+
  then show ?thesis
    unfolding large_index_def index_steps_def [symmetric]
    by (intro index_steps_mono) (simp_all add: assms div_le_mono)
qed

lemma unat_plus_16: "unat sz \<le> 2 ^ 64 - 64 \<Longrightarrow> unat (sz + 16 :: u64) = unat sz + 16"
  by (simp add: unat_word_ariths)

lemma in_smallbin_range_nat: "unat sz \<le> 2 ^ 64 - 64 \<Longrightarrow> in_smallbin_range sz \<longleftrightarrow> unat sz + 16 < 1024"
  using unat_plus_16 [of sz] by (simp add: in_smallbin_range_def MIN_LARGE_SIZE_eq word_less_nat_alt)

lemma unat_drop_bit: "unat (drop_bit n (x :: 'a::len word)) = unat x div 2 ^ n"
  unfolding unat_drop_bit_eq by (simp add: drop_bit_eq_div)

lemma smallbin_index_nat:
  assumes "unat sz + 16 < 2 ^ 32"
  shows "unat (smallbin_index sz) = (unat sz + 16) div 16"
proof -
  have "unat (sz + 16) = unat sz + 16" using assms by (simp add: unat_word_ariths)
  then have "unat (ucast (sz + 16) :: u32) = unat sz + 16"
    using assms by (simp add: unsigned_ucast_eq take_bit_nat_eq_self)
  then show ?thesis
    by (simp add: smallbin_index_def malloc_consts unat_drop_bit Let_def)
qed

lemma largebin_index_nat:
  assumes "unat sz \<le> 2 ^ 64 - 64"
  shows "unat (largebin_index sz) = large_index (unat sz + 16)"
proof -
  let ?s = "sz + 16"
  have s: "unat ?s = unat sz + 16" by (rule unat_plus_16 [OF assms])
  have le: "drop_bit n ?s \<le> of_nat c \<longleftrightarrow> (unat sz + 16) div 2 ^ n \<le> c" if "c < 2 ^ 64" for n c
    using that s by (simp add: word_le_nat_alt unat_drop_bit unat_of_nat take_bit_nat_eq_self)
  have add: "unat (ucast (of_nat b + drop_bit n ?s) :: u32) = b + (unat sz + 16) div 2 ^ n"
    if "(unat sz + 16) div 2 ^ n \<le> 48" "b \<le> 124" for b n
  proof -
    have "unat (of_nat b + drop_bit n ?s) = b + (unat sz + 16) div 2 ^ n"
      using that s by (simp add: unat_word_ariths unat_drop_bit unat_of_nat take_bit_nat_eq_self)
    then show ?thesis using that by (simp add: unsigned_ucast_eq take_bit_nat_eq_self)
  qed
  show ?thesis
    unfolding largebin_index_def largebin_index_64_def large_index_def Let_def
    using le [of 48 6] le [of 20 9] le [of 10 12] le [of 4 15] le [of 2 18]
      add [of 6 48] add [of 9 91] add [of 12 110] add [of 15 119] add [of 18 124]
    by (simp add: SIZE_SZ_def)
qed

lemma bin_index_nat:
  assumes "unat sz \<le> 2 ^ 64 - 64"
  shows "unat (bin_index sz) =
    (if unat sz + 16 < 1024 then (unat sz + 16) div 16 else large_index (unat sz + 16))"
  using assms in_smallbin_range_nat [OF assms] smallbin_index_nat [of sz] largebin_index_nat [OF assms]
  by (simp add: bin_index_def)

text \<open>
  The bins are ordered by size: \<open>bin_index\<close> never decreases as the size grows, so that every chunk
  in a bin above the bin of a request is large enough for it, which the search of \<open>_int_malloc\<close> through
  the larger bins relies on (and asserts).
\<close>

theorem bin_index_mono:
  assumes "sz \<le> sz'" and "unat sz' \<le> 2 ^ 64 - 64"
  shows "bin_index sz \<le> bin_index sz'"
proof -
  have le: "unat sz \<le> unat sz'" using assms(1) by (simp add: word_le_nat_alt)
  then have b: "unat sz \<le> 2 ^ 64 - 64" using assms(2) by linarith
  have "(unat sz + 16) div 16 \<le> large_index (unat sz' + 16)"
    if "unat sz + 16 < 1024" "1024 \<le> unat sz' + 16"
  proof -
    have "16 \<le> (unat sz' + 16) div 64" using that(2) by (simp add: less_eq_div_iff_mult_less_eq)
    then have "64 \<le> large_index (unat sz' + 16)" by (rule large_index_bound [THEN conjunct1])
    moreover have "(unat sz + 16) div 16 \<le> 63" using that(1) by linarith
    ultimately show ?thesis by linarith
  qed
  then show ?thesis
    using bin_index_nat [OF b] bin_index_nat [OF assms(2)] le large_index_mono [of "unat sz + 16" "unat sz' + 16"]
    by (simp add: word_le_nat_alt div_le_mono)
qed

theorem bin_index_mono_witness: "bin_index 1008 \<le> bin_index 4096"
  by (rule bin_index_mono) simp_all

text \<open>
  Every chunk size has a bin: the sizes from \<open>MINSIZE\<close> on get the bins \<open>3\<close> to \<open>126\<close>, all of them
  bins of the array other than the unsorted bin \<open>1\<close>.
\<close>

theorem bin_index_range:
  assumes "MINSIZE \<le> sz" and "unat sz \<le> 2 ^ 64 - 64"
  shows "3 \<le> unat (bin_index sz) \<and> unat (bin_index sz) < NBINS - 1"
proof -
  have 32: "32 \<le> unat sz" using assms(1) by (simp add: MINSIZE_eq word_le_nat_alt)
  show ?thesis
  proof (cases "unat sz + 16 < 1024")
    case True
    then have "(unat sz + 16) div 16 \<le> 63" "3 \<le> (unat sz + 16) div 16"
      using 32 by (linarith, simp add: less_eq_div_iff_mult_less_eq)
    then show ?thesis using True by (simp add: bin_index_nat [OF assms(2)] NBINS_def)
  next
    case False
    then have "16 \<le> (unat sz + 16) div 64" by (simp add: less_eq_div_iff_mult_less_eq)
    from large_index_bound [OF this] show ?thesis using False by (simp add: bin_index_nat [OF assms(2)] NBINS_def)
  qed
qed

theorem bin_index_range_witness: "3 \<le> unat (bin_index 100000) \<and> unat (bin_index 100000) < NBINS - 1"
  by (rule bin_index_range) (simp_all add: MINSIZE_eq)

text \<open>
  A small bin holds chunks of one size only, so that its chunks need not be searched: two aligned
  small sizes have the same bin exactly if they are equal.
\<close>

theorem smallbin_one_size:
  assumes "in_smallbin_range sz" and "in_smallbin_range sz'" and "aligned_OK sz" and "aligned_OK sz'"
    and "unat sz \<le> 2 ^ 64 - 64" and "unat sz' \<le> 2 ^ 64 - 64"
  shows "smallbin_index sz = smallbin_index sz' \<longleftrightarrow> sz = sz'"
proof
  have al: "unat s mod 16 = 0" if "aligned_OK s" for s
  proof -
    have "s AND mask 4 = 0" using that by (simp add: aligned_OK_def malloc_consts mask_eq_exp_minus_1)
    then have "unat (take_bit 4 s) = 0" by (simp add: take_bit_eq_mask)
    then show ?thesis unfolding unsigned_take_bit_eq by (simp add: take_bit_eq_mod)
  qed
  have i: "unat (smallbin_index s) = unat s div 16 + 1" if "in_smallbin_range s" "unat s \<le> 2 ^ 64 - 64" for s
    using smallbin_index_nat [of s] in_smallbin_range_nat [OF that(2)] that(1) by simp
  assume "smallbin_index sz = smallbin_index sz'"
  then have "unat sz div 16 = unat sz' div 16"
    using i [OF assms(1,5)] i [OF assms(2,6)] by simp
  then have "unat sz = unat sz'" using al [OF assms(3)] al [OF assms(4)] by (metis mult_div_mod_eq)
  then show "sz = sz'" by (simp add: word_unat_eq_iff)
qed simp

theorem smallbin_one_size_witness: "smallbin_index 48 \<noteq> smallbin_index 64"
  using smallbin_one_size [of 48 64] by (simp add: in_smallbin_range_def MIN_LARGE_SIZE_eq aligned_OK_def malloc_consts)

lemma fastbin_index_nat:
  assumes b: "32 \<le> unat sz" "unat sz \<le> 160"
  shows "unat (fastbin_index sz) = (unat sz + 16) div 16 - 2"
proof -
  have a: "unat (sz + 16) = unat sz + 16" using b by (simp add: unat_word_ariths)
  have "unat (ucast (sz + 16) :: u32) = unat sz + 16"
    using a b by (simp add: unsigned_ucast_eq take_bit_nat_eq_self)
  then have d: "unat (drop_bit 4 (ucast (sz + 16)) :: u32) = (unat sz + 16) div 16"
    unfolding unat_drop_bit by simp
  have "2 \<le> (unat sz + 16) div 16" using b by (simp add: less_eq_div_iff_mult_less_eq)
  then have "unat (drop_bit 4 (ucast (sz + 16)) - 2 :: u32) = (unat sz + 16) div 16 - 2"
    using d by (subst unat_sub) (simp_all add: word_le_nat_alt)
  then show ?thesis by (simp add: fastbin_index_def SIZE_SZ_def)
qed

text \<open>
  Fast bins stay in their array: every aligned chunk size up to the largest value that \<open>mallopt\<close> can
  give \<open>global_max_fast\<close> has an index below \<open>NFASTBINS\<close>; index \<open>0\<close> is that of no chunk.
\<close>

theorem fastbin_index_range:
  assumes "MINSIZE \<le> sz" and "sz \<le> set_max_fast MAX_FAST_SIZE"
  shows "1 \<le> unat (fastbin_index sz) \<and> unat (fastbin_index sz) < NFASTBINS"
proof -
  have b: "32 \<le> unat sz" "unat sz \<le> 160"
    using assms by (simp_all add: MINSIZE_eq word_le_nat_alt set_max_fast_def malloc_consts)
  have "(unat sz + 16) div 16 \<le> 11" "3 \<le> (unat sz + 16) div 16"
    using b by (simp_all add: less_eq_div_iff_mult_less_eq div_le_cases)
  then have "3 - 2 \<le> unat (fastbin_index sz)" "unat (fastbin_index sz) \<le> 11 - 2"
    unfolding fastbin_index_nat [OF b] by (simp_all add: diff_le_mono)
  then show ?thesis by (simp add: NFASTBINS_eq)
qed

theorem fastbin_index_range_witness: "1 \<le> unat (fastbin_index 160) \<and> unat (fastbin_index 160) < NFASTBINS"
  by (rule fastbin_index_range) (simp_all add: set_max_fast_def malloc_consts)

section \<open>The bit map\<close>

lemma idx2bit_exp: "idx2bit i = push_bit (unat i mod 32) 1"
proof -
  have "i AND (push_bit 5 1 - 1) = take_bit 5 i"
    by (simp add: take_bit_eq_mask mask_eq_exp_minus_1 push_bit_eq_mult)
  moreover have "unat (take_bit 5 i) = unat i mod 32"
    unfolding unsigned_take_bit_eq by (simp add: take_bit_eq_mod)
  ultimately show ?thesis unfolding idx2bit_def BINMAPSHIFT_def by metis
qed

lemma idx2block_nat: "unat (idx2block i) = unat i div 32"
  unfolding idx2block_def unat_drop_bit by (simp add: BINMAPSHIFT_def)

definition marked :: "binmap \<Rightarrow> u32 set" where
  "marked bm = {i. unat i div 32 < length bm \<and> bit (bm ! (unat i div 32)) (unat i mod 32)}"

lemma bit_idx2bit: "bit (idx2bit i) n \<longleftrightarrow> n = unat i mod 32"
  unfolding idx2bit_exp by (auto simp: bit_exp_iff)

lemma and_idx2bit: "w AND idx2bit i \<noteq> 0 \<longleftrightarrow> bit w (unat i mod 32)"
proof -
  have "w AND idx2bit i \<noteq> 0" if "bit w (unat i mod 32)"
  proof -
    have "bit (w AND idx2bit i) (unat i mod 32)" using that by (simp add: bit_and_iff bit_idx2bit)
    then show ?thesis by auto
  qed
  moreover have "bit w (unat i mod 32)" if ne: "w AND idx2bit i \<noteq> 0"
  proof -
    obtain n where "bit (w AND idx2bit i) n" using ne by (metis bit_word_eqI bit_0_eq bot_apply bot_bool_def)
    then show ?thesis by (auto simp: bit_and_iff bit_idx2bit)
  qed
  ultimately show ?thesis by blast
qed

text \<open>
  The bit map is a set of bins: \<open>mark_bin\<close> adds a bin, \<open>unmark_bin\<close> removes it, \<open>get_binmap\<close> tests
  it, and none of them touches another bin or leaves the array.
\<close>

theorem binmap_is_set:
  assumes "length bm = BINMAPSIZE" and "unat i < NBINS"
  shows "(\<exists>b1 b2 r. mark_bin bm i = Some b1 \<and> unmark_bin bm i = Some b2 \<and> get_binmap bm i = Some r \<and>
    length b1 = BINMAPSIZE \<and> length b2 = BINMAPSIZE \<and>
    marked b1 = insert i (marked bm) \<and> marked b2 = marked bm - {i} \<and> (r \<noteq> 0 \<longleftrightarrow> i \<in> marked bm))"
proof -
  have lt: "unat i div 32 < length bm"
    using assms by (simp add: malloc_consts div_less_iff_less_mult)
  have same: "unat i = unat j" if "unat i div 32 = unat j div 32" "unat i mod 32 = unat j mod 32" for j :: u32
    using that by (metis div_mult_mod_eq)
  have e: "j = i" if "unat i div 32 = unat j div 32" "unat i mod 32 = unat j mod 32" for j
    using same [OF that] by (simp add: word_unat_eq_iff)
  let ?b1 = "bm[unat i div 32 := bm ! (unat i div 32) OR idx2bit i]"
  let ?b2 = "bm[unat i div 32 := bm ! (unat i div 32) AND NOT (idx2bit i)]"
  have 1: "marked ?b1 = insert i (marked bm)"
    using lt by (auto simp: marked_def nth_list_update bit_or_iff bit_idx2bit dest: e)
  have 2: "marked ?b2 = marked bm - {i}"
    using lt by (auto simp: marked_def nth_list_update bit_and_iff bit_not_iff bit_idx2bit dest: e)
  show ?thesis
    using lt assms(1) 1 2 and_idx2bit [of "bm ! (unat i div 32)" i]
    by (simp add: mark_bin_def unmark_bin_def get_binmap_def idx2block_nat) (auto simp: marked_def)
qed

theorem binmap_is_set_witness:
  "\<exists>b1 b2 r. mark_bin [0, 0, 0, 0] 40 = Some b1 \<and> unmark_bin [0, 0, 0, 0] 40 = Some b2 \<and>
    get_binmap [0, 0, 0, 0] 40 = Some r \<and> length b1 = BINMAPSIZE \<and> length b2 = BINMAPSIZE \<and>
    marked b1 = insert 40 (marked [0, 0, 0, 0]) \<and> marked b2 = marked [0, 0, 0, 0] - {40} \<and>
    (r \<noteq> 0 \<longleftrightarrow> 40 \<in> marked [0, 0, 0, 0])"
  by (rule binmap_is_set) (simp_all add: malloc_consts)

end
