(* ===== verification/Malloc_State.thy ===== *)
theory Malloc_State
  imports Malloc_Size_Props
begin

text \<open>
  The state of an arena (\<open>struct malloc_state\<close>), the accesses to the metadata of its chunks, and the
  operations of \<open>malloc.c\<close> on single chunks and on the metadata table.

  A \<open>chunkinfoptr\<close> points to a bucket of the metadata pools or to a header of the array \<open>bins\<close> of the
  arena: the headers are the addresses \<open>Bptr (bins_base av) i\<close>, and \<open>ci av p\<close> is what \<open>p\<close> points to. The
  memory of the metadata and the table are those of \<open>Metadata\<close>: the field \<open>memory\<close> is the \<open>memcxt\<close> with
  its pools. The record is extensible: the rest of the process (\<open>lookup.c\<close>, \<open>mp_\<close>, the break) is added
  by the theories that need it. One thread runs; the mutex and the lists of arenas are not modelled.

  The checks of the default build are those of the code: \<open>assert\<close> is on, \<open>MALLOC_DEBUG\<close> is off, so
  \<open>check_top\<close> and \<open>check_metadata_chunk\<close> are assertions and the other \<open>check_\<close> macros are empty. The
  contents of the chunks are not modelled (\<open>alloc_perturb\<close> and \<open>free_perturb\<close> write only there).
\<close>

section \<open>State\<close>

record mstate =
  flags :: u32
  fastbinsY :: "bptr option list"
  md_top :: "bptr option"
  initial_top :: u64
  last_remainder :: "bptr option"
  bins_base :: addr
  bin_heads :: "nat \<Rightarrow> chunkinfo"
  bin_map :: binmap
  system_mem :: u64
  max_system_mem :: u64
  arena_index :: u64
  is_main :: bool
  metadata_pool_ready :: bool
  memory :: ci_mem
  htbl :: metadata
  metadata_cache :: "bptr option list"
  metadata_cache_count :: nat

record malloc_par =
  global_max_fast :: u64
  check_action :: u32
  dl_pagesize :: u64
  trim_threshold :: u64
  top_pad :: u64
  mmap_threshold :: u64
  n_mmaps :: u32
  n_mmaps_max :: u32
  max_n_mmaps :: u32
  no_dyn_threshold :: bool
  mmapped_mem :: u64
  max_mmapped_mem :: u64
  mp_sbrk_base :: u64

definition METADATA_CACHE_SIZE :: nat where
  "METADATA_CACHE_SIZE = 8"

definition ci :: "'z mstate_scheme \<Rightarrow> bptr \<Rightarrow> chunkinfo" where
  "ci av p = (if bpool_of p = bins_base av then bin_heads av (bidx p) else bheap (memory av) p)"

definition ci_upd :: "(chunkinfo \<Rightarrow> chunkinfo) \<Rightarrow> bptr \<Rightarrow> 'z mstate_scheme \<Rightarrow> 'z mstate_scheme" where
  "ci_upd f p av =
    (if bpool_of p = bins_base av
     then av\<lparr>bin_heads := (bin_heads av)(bidx p := f (bin_heads av (bidx p)))\<rparr>
     else av\<lparr>memory := (memory av)\<lparr>bheap := (bheap (memory av))(p := f (bheap (memory av) p))\<rparr>\<rparr>)"

abbreviation "w_size v \<equiv> ci_upd (csize_update (\<lambda>_. v))"
abbreviation "w_prev_size v \<equiv> ci_upd (prev_size_update (\<lambda>_. v))"
abbreviation "w_fd v \<equiv> ci_upd (fd_update (\<lambda>_. v))"
abbreviation "w_bk v \<equiv> ci_upd (bk_update (\<lambda>_. v))"
abbreviation "w_fd_nextsize v \<equiv> ci_upd (fd_nextsize_update (\<lambda>_. v))"
abbreviation "w_bk_nextsize v \<equiv> ci_upd (bk_nextsize_update (\<lambda>_. v))"
abbreviation "w_md_next v \<equiv> ci_upd (md_next_update (\<lambda>_. v))"
abbreviation "w_md_prev v \<equiv> ci_upd (md_prev_update (\<lambda>_. v))"

definition bin_at :: "'z mstate_scheme \<Rightarrow> u32 \<Rightarrow> bptr" where
  "bin_at av i = Bptr (bins_base av) (unat i)"

definition next_bin :: "bptr \<Rightarrow> bptr" where
  "next_bin b = Bptr (bpool_of b) (bidx b + 1)"

abbreviation unsorted_chunks :: "'z mstate_scheme \<Rightarrow> bptr" where
  "unsorted_chunks av \<equiv> bin_at av 1"

section \<open>Flags\<close>

definition FASTCHUNKS_BIT :: u32 where
  "FASTCHUNKS_BIT = 1"

definition NONCONTIGUOUS_BIT :: u32 where
  "NONCONTIGUOUS_BIT = 2"

definition ARENA_CORRUPTION_BIT :: u32 where
  "ARENA_CORRUPTION_BIT = 4"

definition have_fastchunks :: "'z mstate_scheme \<Rightarrow> bool" where
  "have_fastchunks av \<longleftrightarrow> flags av AND FASTCHUNKS_BIT = 0"

definition clear_fastchunks :: "'z mstate_scheme \<Rightarrow> 'z mstate_scheme" where
  "clear_fastchunks av = av\<lparr>flags := flags av OR FASTCHUNKS_BIT\<rparr>"

definition set_fastchunks :: "'z mstate_scheme \<Rightarrow> 'z mstate_scheme" where
  "set_fastchunks av = av\<lparr>flags := flags av AND NOT FASTCHUNKS_BIT\<rparr>"

definition contiguous :: "'z mstate_scheme \<Rightarrow> bool" where
  "contiguous av \<longleftrightarrow> flags av AND NONCONTIGUOUS_BIT = 0"

definition noncontiguous :: "'z mstate_scheme \<Rightarrow> bool" where
  "noncontiguous av \<longleftrightarrow> flags av AND NONCONTIGUOUS_BIT \<noteq> 0"

definition set_noncontiguous :: "'z mstate_scheme \<Rightarrow> 'z mstate_scheme" where
  "set_noncontiguous av = av\<lparr>flags := flags av OR NONCONTIGUOUS_BIT\<rparr>"

definition set_contiguous :: "'z mstate_scheme \<Rightarrow> 'z mstate_scheme" where
  "set_contiguous av = av\<lparr>flags := flags av AND NOT NONCONTIGUOUS_BIT\<rparr>"

definition arena_is_corrupt :: "'z mstate_scheme \<Rightarrow> bool" where
  "arena_is_corrupt av \<longleftrightarrow> flags av AND ARENA_CORRUPTION_BIT \<noteq> 0"

definition set_arena_corrupt :: "'z mstate_scheme \<Rightarrow> 'z mstate_scheme" where
  "set_arena_corrupt av = av\<lparr>flags := flags av OR ARENA_CORRUPTION_BIT\<rparr>"

text \<open>\<open>malloc_printerr\<close> returns unless bit \<open>2\<close> of the action asks for an abort.\<close>

definition malloc_printerr :: "u32 \<Rightarrow> 'z mstate_scheme \<Rightarrow> 'z mstate_scheme option" where
  "malloc_printerr action av =
    (let av = set_arena_corrupt av in if action AND 2 \<noteq> 0 then None else Some av)"

section \<open>Chunks\<close>

definition chunkinfo2chunk :: "'z mstate_scheme \<Rightarrow> bptr \<Rightarrow> u64" where
  "chunkinfo2chunk av md = mem2chunk (chunk (ci av md))"

definition chunkinfo2mem :: "'z mstate_scheme \<Rightarrow> bptr option \<Rightarrow> u64" where
  "chunkinfo2mem av md = (case md of None \<Rightarrow> 0 | Some p \<Rightarrow> chunk (ci av p))"

definition chunksize :: "'z mstate_scheme \<Rightarrow> bptr option \<Rightarrow> u64" where
  "chunksize av md = (case md of None \<Rightarrow> 0 | Some p \<Rightarrow> csize (ci av p) AND NOT SIZE_BITS)"

definition chunk_at_offset :: "u64 \<Rightarrow> u64 \<Rightarrow> u64" where
  "chunk_at_offset p s = p + s"

definition prev_inuse :: "'z mstate_scheme \<Rightarrow> bptr \<Rightarrow> u64 \<Rightarrow> bool option" where
  "prev_inuse av md p = do {
     assert_c (chunkinfo2chunk av md = p);
     Some (csize (ci av md) AND PREV_INUSE = PREV_INUSE) }"

definition chunk_is_mmapped :: "'z mstate_scheme \<Rightarrow> bptr \<Rightarrow> bool" where
  "chunk_is_mmapped av md \<longleftrightarrow> csize (ci av md) AND IS_MMAPPED = IS_MMAPPED"

definition next_chunk :: "'z mstate_scheme \<Rightarrow> bptr \<Rightarrow> u64 \<Rightarrow> u64 option" where
  "next_chunk av md p = do {
     assert_c (chunkinfo2chunk av md = p);
     Some (p + (csize (ci av md) AND NOT SIZE_BITS)) }"

definition prev_chunk :: "'z mstate_scheme \<Rightarrow> bptr \<Rightarrow> u64 \<Rightarrow> u64 option" where
  "prev_chunk av md p = do {
     assert_c (chunkinfo2chunk av md = p);
     Some (p - prev_size (ci av md)) }"

definition set_head :: "bptr \<Rightarrow> u64 \<Rightarrow> 'z mstate_scheme \<Rightarrow> 'z mstate_scheme" where
  "set_head md s av = w_size s md av"

definition set_head_size :: "bptr \<Rightarrow> u64 \<Rightarrow> 'z mstate_scheme \<Rightarrow> 'z mstate_scheme" where
  "set_head_size md s av = set_head md ((csize (ci av md) AND SIZE_BITS) OR s) av"

definition clear_inuse_bit :: "bptr \<Rightarrow> 'z mstate_scheme \<Rightarrow> 'z mstate_scheme" where
  "clear_inuse_bit md av = w_size (csize (ci av md) AND NOT PREV_INUSE) md av"

definition check_metadata_chunk :: "'z mstate_scheme \<Rightarrow> u64 \<Rightarrow> bptr option \<Rightarrow> unit option" where
  "check_metadata_chunk av c md = do { md \<leftarrow> md; assert_c (chunkinfo2chunk av md = c) }"

definition top_is_aligned :: "malloc_par \<Rightarrow> 'z mstate_scheme \<Rightarrow> bptr \<Rightarrow> bool" where
  "top_is_aligned P av md \<longleftrightarrow>
    (let topchunk = chunkinfo2chunk av md in
     topchunk \<noteq> initial_top av \<longrightarrow>
       chunk_at_offset topchunk (chunksize av (Some md)) AND (dl_pagesize P - 1) = 0)"

definition check_top :: "malloc_par \<Rightarrow> 'z mstate_scheme \<Rightarrow> unit option" where
  "check_top P av =
    (case md_top av of
       None \<Rightarrow> Some ()
     | Some md \<Rightarrow> do {
         assert_c (top_is_aligned P av md);
         check_metadata_chunk av (chunkinfo2chunk av md) (Some md) })"

section \<open>The metadata of an arena\<close>

text \<open>The loop of \<open>replenish_metadata_cache\<close> with \<open>n\<close> entries to go.\<close>

fun replenish_loop :: "ci_env \<Rightarrow> nat \<Rightarrow> nat \<Rightarrow> 'z mstate_scheme \<Rightarrow> (bool \<times> 'z mstate_scheme) option" where
  "replenish_loop E i 0 av = Some (True, av)"
| "replenish_loop E i (Suc n) av = do {
     assert_c (i < length (metadata_cache av));
     assert_c (metadata_cache av ! i = None);
     (md, m) \<leftarrow> allocate_chunkinfoptr E (memory av);
     let av = av\<lparr>memory := m\<rparr>;
     case md of
       None \<Rightarrow> Some (False, av)
     | Some p \<Rightarrow> replenish_loop E (i + 1) n (av\<lparr>metadata_cache := (metadata_cache av)[i := Some p]\<rparr>) }"

definition replenish_metadata_cache :: "ci_env \<Rightarrow> 'z mstate_scheme \<Rightarrow> (bool \<times> 'z mstate_scheme) option" where
  "replenish_metadata_cache E av =
    (let count = metadata_cache_count av in
     if \<not> metadata_pool_ready av then Some (True, av)
     else do {
       assert_c (METADATA_CACHE_SIZE \<ge> count);
       if count < METADATA_CACHE_SIZE then do {
         (ok, av) \<leftarrow> replenish_loop E count (METADATA_CACHE_SIZE - count) av;
         Some (if ok then (True, av\<lparr>metadata_cache_count := METADATA_CACHE_SIZE\<rparr>) else (False, av)) }
       else Some (True, av) })"

definition new_chunkinfoptr :: "ci_env \<Rightarrow> 'z mstate_scheme \<Rightarrow> (bptr option \<times> 'z mstate_scheme) option" where
  "new_chunkinfoptr E av = do {
     assert_c (metadata_cache_count av > 0);
     (r, m) \<leftarrow> allocate_chunkinfoptr E (memory av);
     let av = av\<lparr>memory := m\<rparr>;
     if r \<noteq> None then Some (r, av)
     else do {
       let n = metadata_cache_count av - 1;
       let av = av\<lparr>metadata_cache_count := n\<rparr>;
       assert_c (n < length (metadata_cache av));
       let r = metadata_cache av ! n;
       Some (r, av\<lparr>metadata_cache := (metadata_cache av)[n := None]\<rparr>) } }"

definition lookup_chunk :: "ci_env \<Rightarrow> u64 \<Rightarrow> 'z mstate_scheme \<Rightarrow> (bptr option \<times> 'z mstate_scheme) option" where
  "lookup_chunk E p av = do {
     assert_c (p \<noteq> 0);
     (r, m) \<leftarrow> metadata_lookup E (htbl av) (chunk2mem p) (memory av);
     Some (r, av\<lparr>memory := m\<rparr>) }"

definition unregister_chunk :: "ci_env \<Rightarrow> u64 \<Rightarrow> 'z mstate_scheme \<Rightarrow> (bool \<times> 'z mstate_scheme) option" where
  "unregister_chunk E p av = do {
     assert_c (p \<noteq> 0);
     (ok, t, m) \<leftarrow> metadata_delete E (htbl av) (chunk2mem p) (memory av);
     Some (ok, av\<lparr>htbl := t, memory := m\<rparr>) }"

definition register_chunk :: "ci_env \<Rightarrow> u64 \<Rightarrow> 'z mstate_scheme \<Rightarrow> (bptr \<times> 'z mstate_scheme) option" where
  "register_chunk E p av = do {
     (md, av) \<leftarrow> new_chunkinfoptr E av;
     md \<leftarrow> md;
     let av = ci_upd (chunk_update (\<lambda>_. chunk2mem p)) md av;
     (success, t, m) \<leftarrow> metadata_add E (htbl av) md (memory av);
     let av = av\<lparr>htbl := t, memory := m\<rparr>;
     assert_c success;
     Some (md, av) }"

definition md_next_sanity_check :: "ci_env \<Rightarrow> bptr \<Rightarrow> u64 \<Rightarrow> 'z mstate_scheme \<Rightarrow> (bool \<times> 'z mstate_scheme) option" where
  "md_next_sanity_check E md p av = do {
     next \<leftarrow> next_chunk av md p;
     (md_nx, av) \<leftarrow> lookup_chunk E next av;
     Some (md_nx = md_next (ci av md), av) }"

definition md_prev_sanity_check :: "ci_env \<Rightarrow> bptr \<Rightarrow> u64 \<Rightarrow> 'z mstate_scheme \<Rightarrow> (bool \<times> 'z mstate_scheme) option" where
  "md_prev_sanity_check E md p av = do {
     prev \<leftarrow> prev_chunk av md p;
     (md_pv, av) \<leftarrow> lookup_chunk E prev av;
     Some (md_pv = md_prev (ci av md), av) }"

text \<open>The assertions on them: the lookup moves the entry it finds to the front of its bin.\<close>

definition assert_md_next :: "ci_env \<Rightarrow> bptr \<Rightarrow> u64 \<Rightarrow> 'z mstate_scheme \<Rightarrow> 'z mstate_scheme option" where
  "assert_md_next E md p av = do { (ok, av) \<leftarrow> md_next_sanity_check E md p av; assert_c ok; Some av }"

definition assert_md_prev :: "ci_env \<Rightarrow> bptr \<Rightarrow> u64 \<Rightarrow> 'z mstate_scheme \<Rightarrow> 'z mstate_scheme option" where
  "assert_md_prev E md p av = do { (ok, av) \<leftarrow> md_prev_sanity_check E md p av; assert_c ok; Some av }"

definition inuse_bit :: "ci_env \<Rightarrow> bptr \<Rightarrow> 'z mstate_scheme \<Rightarrow> (bool \<times> 'z mstate_scheme) option" where
  "inuse_bit E md av = do {
     av \<leftarrow> assert_md_next E md (chunkinfo2chunk av md) av;
     nx \<leftarrow> md_next (ci av md);
     r \<leftarrow> prev_inuse av nx (chunkinfo2chunk av nx);
     Some (r, av) }"

definition set_inuse_bit :: "ci_env \<Rightarrow> bptr \<Rightarrow> 'z mstate_scheme \<Rightarrow> 'z mstate_scheme option" where
  "set_inuse_bit E md av = do {
     av \<leftarrow> assert_md_next E md (chunkinfo2chunk av md) av;
     nx \<leftarrow> md_next (ci av md);
     Some (w_size (csize (ci av nx) OR PREV_INUSE) nx av) }"

definition set_foot :: "ci_env \<Rightarrow> bptr \<Rightarrow> 'z mstate_scheme \<Rightarrow> 'z mstate_scheme option" where
  "set_foot E md av = do {
     av \<leftarrow> assert_md_next E md (chunkinfo2chunk av md) av;
     nx \<leftarrow> md_next (ci av md);
     Some (w_prev_size (chunksize av (Some md)) nx av) }"

end
