(* ===== verification/Malloc_Core.thy ===== *)
theory Malloc_Core
  imports Malloc_State Lookup
begin

text \<open>
  The process around an arena, the double linked bins, the initialization of an arena,
  \<open>malloc_consolidate\<close>, the return of memory to the system and \<open>_int_free\<close> of \<open>malloc.c\<close>.

  \<open>proc\<close> extends the state of the arena with the globals of the process: \<open>mp_\<close> with the other tunables
  (\<open>par\<close>), the tables of \<open>lookup.c\<close> (\<open>lkup\<close>) and the list of the system calls made so far (\<open>calls\<close>).
  A parameter \<open>S :: sysenv\<close> stands for what is outside: \<open>kernel S cs\<close> is the answer to the last of the
  calls \<open>cs\<close> (\<open>None\<close>: failure), \<open>cienv S\<close> and \<open>lk_mmap S\<close> are the \<open>mmap\<close> of the metadata and of
  \<open>lookup.c\<close>. The operations follow one arena, whose flag \<open>is_main\<close> tells whether it is \<open>main_arena\<close>.
  Where an arena that is not the main one calls into \<open>arena.c\<close> or into the main arena, that step is a
  function of \<open>S\<close> (\<open>unmap_in_main\<close>, \<open>trim_heap\<close>, \<open>mmap_in_main\<close>, whose result \<open>Some r\<close> is \<open>return r\<close>, and
  \<open>extend_heap\<close>, which grows the heap or starts a new one), and \<open>other_arena\<close> is a call that goes to another
  arena, because the chunk belongs to it or as a second attempt. Locks and hooks (\<open>NULL\<close> by default) are left out.
\<close>

section \<open>The process\<close>

datatype syscall = Sbrk u64 | Mmap u64 | Munmap u64 u64

datatype other_call = Malloc_retry u64 | Memalign_retry u64 u64 | Free_other u64 | Realloc_other u64 u64 | Usable_other u64

record proc = mstate +
  par :: malloc_par
  lkup :: lookup
  calls :: "syscall list"

record 's sysenv =
  cienv :: ci_env
  kernel :: "syscall list \<Rightarrow> u64 option"
  lk_mmap :: lf_mmap
  unmap_in_main :: "u64 \<Rightarrow> bptr \<Rightarrow> 's \<Rightarrow> 's option"
  trim_heap :: "u64 \<Rightarrow> 's \<Rightarrow> 's option"
  mmap_in_main :: "u64 \<Rightarrow> 's \<Rightarrow> (bptr option option \<times> 's) option"
  extend_heap :: "u64 \<Rightarrow> 's \<Rightarrow> (bool \<times> 's) option"
  memalign_in_main :: "bptr \<Rightarrow> u64 \<Rightarrow> u64 \<Rightarrow> 's \<Rightarrow> (bptr option \<times> 's) option"
  other_arena :: "other_call \<Rightarrow> 's \<Rightarrow> (u64 \<times> 's) option"

text \<open>\<open>MORECORE\<close>, with the result \<open>MORECORE_FAILURE = 0\<close>, and \<open>ALIGN_DOWN\<close>, \<open>ALIGN_UP\<close> of the C library.\<close>

definition MORECORE :: "('z proc_scheme) sysenv \<Rightarrow> u64 \<Rightarrow> 'z proc_scheme \<Rightarrow> u64 \<times> 'z proc_scheme" where
  "MORECORE S incr av =
    (let cs = calls av @ [Sbrk incr]
     in (case kernel S cs of None \<Rightarrow> 0 | Some a \<Rightarrow> a, av\<lparr>calls := cs\<rparr>))"

definition ALIGN_DOWN :: "u64 \<Rightarrow> u64 \<Rightarrow> u64" where
  "ALIGN_DOWN base sz = base AND - sz"

definition ALIGN_UP :: "u64 \<Rightarrow> u64 \<Rightarrow> u64" where
  "ALIGN_UP base sz = ALIGN_DOWN (base + sz - 1) sz"

definition printerr :: "'z proc_scheme \<Rightarrow> 'z proc_scheme option" where
  "printerr av = malloc_printerr (check_action (par av)) av"

section \<open>Bins\<close>

text \<open>The skip list of a large bin.\<close>

definition unlink_nextsize :: "bptr \<Rightarrow> bptr \<Rightarrow> 'z proc_scheme \<Rightarrow> 'z proc_scheme option" where
  "unlink_nextsize p fdp av =
    (if fd_nextsize (ci av fdp) = None then
       (if fd_nextsize (ci av p) = Some p
        then Some (w_fd_nextsize (Some fdp) fdp (w_bk_nextsize (Some fdp) fdp av))
        else do {
          let av = w_fd_nextsize (fd_nextsize (ci av p)) fdp av;
          let av = w_bk_nextsize (bk_nextsize (ci av p)) fdp av;
          fdn \<leftarrow> fd_nextsize (ci av p);
          let av = w_bk_nextsize (Some fdp) fdn av;
          bkn \<leftarrow> bk_nextsize (ci av p);
          Some (w_fd_nextsize (Some fdp) bkn av) })
     else do {
       fdn \<leftarrow> fd_nextsize (ci av p);
       let av = w_bk_nextsize (bk_nextsize (ci av p)) fdn av;
       bkn \<leftarrow> bk_nextsize (ci av p);
       Some (w_fd_nextsize (fd_nextsize (ci av p)) bkn av) })"

text \<open>The results are \<open>*bkp\<close> and \<open>*fdp\<close>.\<close>

definition bin_unlink :: "bptr \<Rightarrow> 'z proc_scheme \<Rightarrow> (bptr \<times> bptr \<times> 'z proc_scheme) option" where
  "bin_unlink p av = do {
     fdp \<leftarrow> fd (ci av p);
     bkp \<leftarrow> bk (ci av p);
     if bk (ci av fdp) \<noteq> Some p \<or> fd (ci av bkp) \<noteq> Some p then do {
       av \<leftarrow> printerr av;
       Some (bkp, fdp, av) }
     else do {
       let av = w_bk (Some bkp) fdp av;
       let av = w_fd (Some fdp) bkp av;
       if \<not> in_smallbin_range (csize (ci av p)) \<and> fd_nextsize (ci av p) \<noteq> None then do {
         fdn \<leftarrow> fd_nextsize (ci av p);
         bad \<leftarrow> (if bk_nextsize (ci av fdn) \<noteq> Some p then Some True
                 else do {
                   bkn \<leftarrow> bk_nextsize (ci av p);
                   Some (fd_nextsize (ci av bkn) \<noteq> Some p) });
         av \<leftarrow> (if bad then printerr av else Some av);
         av \<leftarrow> unlink_nextsize p fdp av;
         Some (bkp, fdp, av) }
       else Some (bkp, fdp, av) } }"

section \<open>Splitting a chunk\<close>

definition split_chunk ::
  "ci_env \<Rightarrow> bptr \<Rightarrow> u64 \<Rightarrow> u64 \<Rightarrow> u64 \<Rightarrow> 'z proc_scheme \<Rightarrow> (bptr \<times> 'z proc_scheme) option" where
  "split_chunk E md_victim victim victim_size desiderata av = do {
     assert_c (chunksize av (Some md_victim) = victim_size);
     assert_c (victim_size \<ge> desiderata + MINSIZE);
     let remainder_size = victim_size - desiderata;
     let remainder = chunk_at_offset victim desiderata;
     (md_remainder, av) \<leftarrow> register_chunk E remainder av;
     let av = w_md_next (md_next (ci av md_victim)) md_remainder av;
     let av = w_md_prev (Some md_victim) md_remainder av;
     let av = w_md_next (Some md_remainder) md_victim av;
     let av = set_head md_remainder (remainder_size OR PREV_INUSE) av;
     let av = set_head md_victim (desiderata OR PREV_INUSE) av;
     check_metadata_chunk av remainder (Some md_remainder);
     check_metadata_chunk av victim (Some md_victim);
     Some (md_remainder, av) }"

text \<open>
  The same for a chunk of a bin, which is written out three times in \<open>_int_malloc\<close>: the chunk after the
  remainder is told its new neighbour.
\<close>

definition split_remainder ::
  "ci_env \<Rightarrow> bptr \<Rightarrow> u64 \<Rightarrow> u64 \<Rightarrow> u64 \<Rightarrow> 'z proc_scheme \<Rightarrow> (bptr \<times> 'z proc_scheme) option" where
  "split_remainder E md_victim victim remainder_size nb av = do {
     let remainder = chunk_at_offset victim nb;
     let av = set_head md_victim (nb OR PREV_INUSE) av;
     (md_remainder, av) \<leftarrow> register_chunk E remainder av;
     let md_temp = md_next (ci av md_victim);
     let av = w_md_next md_temp md_remainder av;
     let av = w_md_prev (Some md_victim) md_remainder av;
     let av = w_md_next (Some md_remainder) md_victim av;
     let av = (case md_temp of None \<Rightarrow> av | Some t \<Rightarrow> w_md_prev (Some md_remainder) t av);
     let av = set_head md_remainder (remainder_size OR PREV_INUSE) av;
     av \<leftarrow> set_foot E md_remainder av;
     check_metadata_chunk av remainder (Some md_remainder);
     check_metadata_chunk av victim (Some md_victim);
     Some (md_remainder, av) }"

section \<open>The check of all bins\<close>

definition inuse :: "ci_env \<Rightarrow> bptr \<Rightarrow> 'z proc_scheme \<Rightarrow> (bool \<times> 'z proc_scheme) option" where
  "inuse E md av = inuse_bit E md av"

text \<open>The chunks in use after a free one; \<open>assert (_md_q = ...)\<close> assigns and tests for \<open>NULL\<close>.\<close>

partial_function (option) follow_inuse ::
  "ci_env \<Rightarrow> u64 \<Rightarrow> u64 \<Rightarrow> bptr \<Rightarrow> 'z proc_scheme \<Rightarrow> 'z proc_scheme option" where
  "follow_inuse E topchunk q md_q av =
    (if q = topchunk then Some av
     else do {
       (u, av) \<leftarrow> inuse E md_q av;
       if u \<and> chunksize av (Some md_q) \<ge> MINSIZE then do {
         let md_oq = md_q;
         q \<leftarrow> next_chunk av md_q q;
         (md_q, av) \<leftarrow> lookup_chunk E q av;
         assert_c (md_q \<noteq> None);
         md_q \<leftarrow> md_next (ci av md_oq);
         follow_inuse E topchunk q md_q av }
       else Some av })"

definition check_skip_list :: "bptr \<Rightarrow> bptr \<Rightarrow> 'z proc_scheme \<Rightarrow> unit option" where
  "check_skip_list b p av =
    (case fd_nextsize (ci av p) of
       None \<Rightarrow> assert_c (bk_nextsize (ci av p) = None)
     | Some f \<Rightarrow>
         (if f = p then assert_c (bk_nextsize (ci av p) = Some p)
          else do {
            let size_of = (\<lambda>q. chunksize av q);
            assert_c (if Some f = fd (ci av b) then size_of (Some p) < size_of (Some f)
                      else size_of (Some p) > size_of (Some f));
            assert_c (if Some p = fd (ci av b) then size_of (Some p) > size_of (bk_nextsize (ci av p))
                      else size_of (Some p) < size_of (bk_nextsize (ci av p))) }))"

definition check_binned :: "ci_env \<Rightarrow> u64 \<Rightarrow> u32 \<Rightarrow> bptr \<Rightarrow> bptr \<Rightarrow> 'z proc_scheme \<Rightarrow> 'z proc_scheme option" where
  "check_binned E topchunk i b md av = do {
     let p = chunkinfo2chunk av md;
     let sz = chunksize av (Some md);
     (if i \<ge> 2 then do {
        assert_c (bin_index sz = i);
        assert_c (bk (ci av md) = Some b \<or> chunksize av (bk (ci av md)) \<ge> sz);
        if \<not> in_smallbin_range sz then check_skip_list b md av else Some () }
      else assert_c (in_smallbin_range sz \<or>
                     fd_nextsize (ci av md) = None \<and> bk_nextsize (ci av md) = None));
     q \<leftarrow> next_chunk av md p;
     (md_q, av) \<leftarrow> lookup_chunk E q av;
     assert_c (md_q \<noteq> None);
     md_q \<leftarrow> md_next (ci av md);
     follow_inuse E topchunk q md_q av }"

partial_function (option) check_ring ::
  "ci_env \<Rightarrow> u64 \<Rightarrow> u32 \<Rightarrow> bptr \<Rightarrow> bptr option \<Rightarrow> 'z proc_scheme \<Rightarrow> 'z proc_scheme option" where
  "check_ring E topchunk i b md av =
    (if md = Some b then Some av
     else do {
       p \<leftarrow> md;
       av \<leftarrow> check_binned E topchunk i b p av;
       check_ring E topchunk i b (bk (ci av p)) av })"

fun check_bins_loop :: "ci_env \<Rightarrow> u64 \<Rightarrow> nat \<Rightarrow> nat \<Rightarrow> 'z proc_scheme \<Rightarrow> 'z proc_scheme option" where
  "check_bins_loop E topchunk i 0 av = Some av"
| "check_bins_loop E topchunk i (Suc n) av = do {
     let b = bin_at av (of_nat i);
     (if i \<ge> 2 then do {
        binbit \<leftarrow> get_binmap (bin_map av) (of_nat i);
        assert_c (binbit \<noteq> 0 \<or> bk (ci av b) = Some b) }
      else Some ());
     av \<leftarrow> check_ring E topchunk (of_nat i) b (bk (ci av b)) av;
     check_bins_loop E topchunk (i + 1) n av }"

definition do_check_bins :: "ci_env \<Rightarrow> 'z proc_scheme \<Rightarrow> 'z proc_scheme option" where
  "do_check_bins E av =
    (case md_top av of
       None \<Rightarrow> Some av
     | Some t \<Rightarrow> check_bins_loop E (chunkinfo2chunk av t) 1 (NBINS - 1) av)"

section \<open>Initialization\<close>

definition HEAP_MAX_SIZE :: u64 where
  "HEAP_MAX_SIZE = 2 * (4 * 1024 * 1024 * 8)"

definition MAIN_ARENA_INDEX :: u64 where
  "MAIN_ARENA_INDEX = 1"

definition initial_md_top :: "ci_env \<Rightarrow> 'z proc_scheme \<Rightarrow> (bptr \<times> 'z proc_scheme) option" where
  "initial_md_top E av = do {
     (md, av) \<leftarrow> register_chunk E (initial_top av) av;
     let av = w_prev_size 0 md av;
     let av = set_head md 0 av;
     Some (md, av) }"

fun init_bins :: "nat \<Rightarrow> nat \<Rightarrow> 'z proc_scheme \<Rightarrow> 'z proc_scheme" where
  "init_bins i 0 av = av"
| "init_bins i (Suc n) av =
    (let bin = bin_at av (of_nat i) in init_bins (i + 1) n (w_fd (Some bin) bin (w_bk (Some bin) bin av)))"

definition malloc_init_state ::
  "('z proc_scheme) sysenv \<Rightarrow> bool \<Rightarrow> 'z proc_scheme \<Rightarrow> 'z proc_scheme option" where
  "malloc_init_state S is_main_arena av = do {
     av \<leftarrow> (if is_main_arena then do {
              L \<leftarrow> lookup_init (lk_mmap S) HEAP_MAX_SIZE (lkup av);
              Some (av\<lparr>lkup := L\<rparr>) }
            else Some av);
     let av = init_bins 1 (NBINS - 1) av;
     let av = (if is_main av then av else set_noncontiguous av);
     let av = (if is_main av
               then av\<lparr>par := (par av)\<lparr>global_max_fast := set_max_fast DEFAULT_MXFAST\<rparr>\<rparr> else av);
     let av = av\<lparr>flags := flags av OR FASTCHUNKS_BIT\<rparr>;
     let av = av\<lparr>arena_index := (if is_main_arena then MAIN_ARENA_INDEX else 0)\<rparr>;
     let (_, m) = init_memcxt (cienv S) (memory av);
     (ok, t, m) \<leftarrow> init_metadata (cienv S) (Some (htbl av)) True m;
     assert_c ok;
     t \<leftarrow> t;
     let av = av\<lparr>memory := m, htbl := t, metadata_pool_ready := True\<rparr>;
     (ok, av) \<leftarrow> replenish_metadata_cache (cienv S) av;
     assert_c ok;
     (md, av) \<leftarrow> initial_md_top (cienv S) av;
     Some (av\<lparr>md_top := Some md\<rparr>) }"

section \<open>Coalescing\<close>

text \<open>
  The free chunk before \<open>md\<close> is taken off its bin and absorbs \<open>md\<close>, whose successor is \<open>md_nextchunk\<close>;
  \<open>malloc_consolidate\<close> also checks the successor (\<open>chk\<close>). The results are the merged chunk and its
  size.
\<close>

definition merge_backward ::
  "ci_env \<Rightarrow> bool \<Rightarrow> bptr \<Rightarrow> u64 \<Rightarrow> u64 \<Rightarrow> bptr \<Rightarrow> u64 \<Rightarrow> 'z proc_scheme \<Rightarrow> (bptr \<times> u64 \<times> u64 \<times> 'z proc_scheme) option" where
  "merge_backward E chk md p sz md_nextchunk nextchunk av = do {
     let sz = sz + prev_size (ci av md);
     let temp = p;
     let md_temp = md;
     av \<leftarrow> assert_md_prev E md p av;
     md \<leftarrow> md_prev (ci av md);
     let p = chunkinfo2chunk av md;
     (_, _, av) \<leftarrow> bin_unlink md av;
     let av = w_md_next (md_next (ci av md_temp)) md av;
     nx \<leftarrow> md_next (ci av md_temp);
     let av = w_md_prev (Some md) nx av;
     assert_c (md_next (ci av md_temp) = Some md_nextchunk);
     check_metadata_chunk av p (Some md);
     (if chk then check_metadata_chunk av nextchunk (Some md_nextchunk) else Some ());
     (_, av) \<leftarrow> unregister_chunk E temp av;
     Some (md, p, sz, av) }"

text \<open>
  The free chunk \<open>md_nextchunk\<close> after \<open>md\<close> is taken off its bin and absorbed. \<open>malloc_consolidate\<close> writes
  through the pointer to the chunk after it without a test (\<open>strict\<close>).
\<close>

definition merge_forward ::
  "ci_env \<Rightarrow> bool \<Rightarrow> bptr \<Rightarrow> u64 \<Rightarrow> u64 \<Rightarrow> bptr \<Rightarrow> u64 \<Rightarrow> u64 \<Rightarrow> 'z proc_scheme \<Rightarrow> (u64 \<times> 'z proc_scheme) option" where
  "merge_forward E strict md p sz md_nextchunk nextchunk nextsize av = do {
     let sz = sz + nextsize;
     (_, _, av) \<leftarrow> bin_unlink md_nextchunk av;
     let md_temp = md_next (ci av md_nextchunk);
     let av = w_md_next md_temp md av;
     assert_c (\<not> strict \<or> md_temp \<noteq> None);
     let av = (case md_temp of None \<Rightarrow> av | Some t \<Rightarrow> w_md_prev (Some md) t av);
     check_metadata_chunk av p (Some md);
     (_, av) \<leftarrow> unregister_chunk E nextchunk av;
     Some (sz, av) }"

text \<open>The chunk borders top: it becomes top.\<close>

definition merge_top ::
  "ci_env \<Rightarrow> bptr \<Rightarrow> u64 \<Rightarrow> u64 \<Rightarrow> u64 \<Rightarrow> 'z proc_scheme \<Rightarrow> (u64 \<times> 'z proc_scheme) option" where
  "merge_top E md sz nextsize topchunk av = do {
     let sz = sz + nextsize;
     let av = set_head md (sz OR PREV_INUSE) av;
     let av = av\<lparr>md_top := Some md\<rparr>;
     let av = w_md_next None md av;
     (_, av) \<leftarrow> unregister_chunk E topchunk av;
     Some (sz, av) }"

definition clear_nextsize :: "u64 \<Rightarrow> bptr \<Rightarrow> 'z proc_scheme \<Rightarrow> 'z proc_scheme" where
  "clear_nextsize sz md av =
    (if \<not> in_smallbin_range sz then w_bk_nextsize None md (w_fd_nextsize None md av) else av)"

section \<open>\<open>malloc_consolidate\<close>\<close>

text \<open>One chunk of a fast bin; the result is the next one.\<close>

definition consolidate_chunk ::
  "('z proc_scheme) sysenv \<Rightarrow> bptr \<Rightarrow> 'z proc_scheme \<Rightarrow> (bptr option \<times> 'z proc_scheme) option" where
  "consolidate_chunk S md av = do {
     let E = cienv S;
     let p = chunkinfo2chunk av md;
     let md_nextp = fd (ci av md);
     let sz = chunksize av (Some md);
     av \<leftarrow> assert_md_next E md p av;
     md_nextchunk \<leftarrow> md_next (ci av md);
     let nextchunk = chunkinfo2chunk av md_nextchunk;
     let nextsize = chunksize av (Some md_nextchunk);
     pinuse \<leftarrow> prev_inuse av md p;
     (md, p, sz, av) \<leftarrow>
       (if \<not> pinuse then merge_backward E True md p sz md_nextchunk nextchunk av else Some (md, p, sz, av));
     t \<leftarrow> md_top av;
     let topchunk = chunkinfo2chunk av t;
     if nextchunk \<noteq> topchunk then do {
       (nextinuse, av) \<leftarrow> inuse_bit E md_nextchunk av;
       (sz, av) \<leftarrow>
         (if \<not> nextinuse then merge_forward E True md p sz md_nextchunk nextchunk nextsize av
          else Some (sz, clear_inuse_bit md_nextchunk av));
       let unsorted_bin = unsorted_chunks av;
       first_unsorted \<leftarrow> fd (ci av unsorted_bin);
       let av = w_fd (Some md) unsorted_bin av;
       let av = w_bk (Some md) first_unsorted av;
       let av = clear_nextsize sz md av;
       let av = set_head md (sz OR PREV_INUSE) av;
       let av = w_bk (Some unsorted_bin) md av;
       let av = w_fd (Some first_unsorted) md av;
       av \<leftarrow> set_foot E md av;
       Some (md_nextp, av) }
     else do {
       (sz, av) \<leftarrow> merge_top E md sz nextsize topchunk av;
       check_top (par av) av;
       Some (md_nextp, av) } }"

partial_function (option) consolidate_bin ::
  "('z proc_scheme) sysenv \<Rightarrow> bptr option \<Rightarrow> 'z proc_scheme \<Rightarrow> 'z proc_scheme option" where
  "consolidate_bin S md av =
    (case md of
       None \<Rightarrow> Some av
     | Some p \<Rightarrow> do {
         (md, av) \<leftarrow> consolidate_chunk S p av;
         consolidate_bin S md av })"

fun consolidate_bins ::
  "('z proc_scheme) sysenv \<Rightarrow> nat \<Rightarrow> nat \<Rightarrow> 'z proc_scheme \<Rightarrow> 'z proc_scheme option" where
  "consolidate_bins S i 0 av = Some av"
| "consolidate_bins S i (Suc n) av = do {
     assert_c (i < length (fastbinsY av));
     let md = fastbinsY av ! i;
     av \<leftarrow> consolidate_bin S md (av\<lparr>fastbinsY := (fastbinsY av)[i := None]\<rparr>);
     consolidate_bins S (i + 1) n av }"

definition malloc_consolidate ::
  "('z proc_scheme) sysenv \<Rightarrow> 'z proc_scheme \<Rightarrow> 'z proc_scheme option" where
  "malloc_consolidate S av =
    (if global_max_fast (par av) \<noteq> 0 then consolidate_bins S 0 NFASTBINS (clear_fastchunks av)
     else do {
       av \<leftarrow> malloc_init_state S True av;
       do_check_bins (cienv S) av })"

section \<open>Giving memory back\<close>

definition munmap_chunk ::
  "('z proc_scheme) sysenv \<Rightarrow> bptr \<Rightarrow> 'z proc_scheme \<Rightarrow> 'z proc_scheme option" where
  "munmap_chunk S md av = do {
     let sz = chunksize av (Some md);
     let p = chunkinfo2chunk av md;
     assert_c (chunk_is_mmapped av md);
     let block = p - prev_size (ci av md);
     let total_size = prev_size (ci av md) + sz;
     if (block OR total_size) AND (dl_pagesize (par av) - 1) \<noteq> 0 then do {
       assert_c (check_action (par av) AND 2 = 0);
       Some av }
     else do {
       let av = av\<lparr>par := (par av)\<lparr>n_mmaps := n_mmaps (par av) - 1,
                                      mmapped_mem := mmapped_mem (par av) + (- total_size)\<rparr>\<rparr>;
       (_, L) \<leftarrow> lookup_delete_mmap (lk_mmap S) p (lkup av);
       Some (av\<lparr>lkup := L, calls := calls av @ [Munmap block total_size]\<rparr>) } }"

text \<open>The comparison \<open>top_area <= pad\<close> is one of unsigned numbers.\<close>

definition systrim ::
  "('z proc_scheme) sysenv \<Rightarrow> u64 \<Rightarrow> 'z proc_scheme \<Rightarrow> (bool \<times> 'z proc_scheme) option" where
  "systrim S pad av = do {
     let pagesize = dl_pagesize (par av);
     let top_size = chunksize av (md_top av);
     let top_area = top_size - MINSIZE - 1;
     if top_area \<le> pad then Some (False, av)
     else do {
       let extra = ALIGN_DOWN (top_area - pad) pagesize;
       if extra = 0 then Some (False, av)
       else do {
         let (current_brk, av) = MORECORE S 0 av;
         t \<leftarrow> md_top av;
         let topchunk = chunkinfo2chunk av t;
         if current_brk = topchunk + top_size then do {
           let (_, av) = MORECORE S (- extra) av;
           let (new_brk, av) = MORECORE S 0 av;
           let released = current_brk - new_brk;
           if new_brk \<noteq> 0 \<and> released \<noteq> 0 then do {
             let av = av\<lparr>system_mem := system_mem av - released\<rparr>;
             let av = set_head t ((top_size - released) OR PREV_INUSE) av;
             check_top (par av) av;
             av \<leftarrow> (if is_main av then do {
                      (_, L) \<leftarrow> lookup_decr_sbrk_hi released (lkup av);
                      Some (av\<lparr>lkup := L\<rparr>) }
                    else Some av);
             Some (True, av) }
           else Some (False, av) }
         else Some (False, av) } } }"

section \<open>\<open>_int_free\<close>\<close>

text \<open>The fast bin: pushed unless its first chunk is the chunk itself or one of another size.\<close>

definition free_fast :: "bptr \<Rightarrow> u64 \<Rightarrow> bptr \<Rightarrow> u64 \<Rightarrow> 'z proc_scheme \<Rightarrow> 'z proc_scheme option" where
  "free_fast md sz md_nextchunk nextsize av =
    (if csize (ci av md_nextchunk) \<le> 2 * SIZE_SZ \<or> nextsize \<ge> system_mem av then printerr av
     else do {
       let av = set_fastchunks av;
       let idx = fastbin_index sz;
       assert_c (unat idx < length (fastbinsY av));
       let md_old = fastbinsY av ! unat idx;
       if md_old = Some md then printerr av
       else do {
         let old_idx = (case md_old of None \<Rightarrow> - 1 | Some q \<Rightarrow> fastbin_index (chunksize av (Some q)));
         let av = w_fd md_old md av;
         let av = av\<lparr>fastbinsY := (fastbinsY av)[unat idx := Some md]\<rparr>;
         if md_old \<noteq> None \<and> old_idx \<noteq> idx then printerr av else Some av } })"

text \<open>The chunk in the list of unsorted chunks; \<open>False\<close> when that list is corrupt.\<close>

definition place_unsorted :: "ci_env \<Rightarrow> bptr \<Rightarrow> u64 \<Rightarrow> 'z proc_scheme \<Rightarrow> (bool \<times> 'z proc_scheme) option" where
  "place_unsorted E md sz av = do {
     let bck = unsorted_chunks av;
     fwd \<leftarrow> fd (ci av bck);
     if bk (ci av fwd) \<noteq> Some bck then do {
       av \<leftarrow> printerr av;
       Some (False, av) }
     else do {
       let av = w_fd (Some fwd) md av;
       let av = w_bk (Some bck) md av;
       let av = clear_nextsize sz md av;
       let av = w_fd (Some md) bck av;
       let av = w_bk (Some md) fwd av;
       let av = set_head md (sz OR PREV_INUSE) av;
       av \<leftarrow> set_foot E md av;
       Some (True, av) } }"

text \<open>After the merge of a large chunk: consolidation of the fast bins and the return of memory.\<close>

definition after_large_free ::
  "('z proc_scheme) sysenv \<Rightarrow> u64 \<Rightarrow> bool \<Rightarrow> 'z proc_scheme \<Rightarrow> 'z proc_scheme option" where
  "after_large_free S topchunk freshheap av = do {
     av \<leftarrow> (if have_fastchunks av then malloc_consolidate S av else Some av);
     if is_main av then
       (if chunksize av (md_top av) \<ge> trim_threshold (par av) then do {
          (_, av) \<leftarrow> systrim S (top_pad (par av)) av;
          Some av }
        else Some av)
     else if \<not> freshheap then do {
       check_top (par av) av;
       av \<leftarrow> trim_heap S topchunk av;
       check_top (par av) av;
       Some av }
     else Some av }"

definition free_normal ::
  "('z proc_scheme) sysenv \<Rightarrow> bptr \<Rightarrow> u64 \<Rightarrow> u64 \<Rightarrow> bptr \<Rightarrow> u64 \<Rightarrow> u64 \<Rightarrow> u64 \<Rightarrow> bool \<Rightarrow> 'z proc_scheme \<Rightarrow> 'z proc_scheme option" where
  "free_normal S md p sz md_nextchunk nextchunk nextsize topchunk freshheap av = do {
     let E = cienv S;
     if p = topchunk then printerr av
     else if contiguous av \<and> nextchunk \<ge> topchunk + chunksize av (md_top av) then printerr av
     else do {
       marked \<leftarrow> prev_inuse av md_nextchunk nextchunk;
       if \<not> marked then printerr av
       else if csize (ci av md_nextchunk) \<le> 2 * SIZE_SZ \<or> nextsize \<ge> system_mem av then printerr av
       else do {
         pinuse \<leftarrow> prev_inuse av md p;
         (md, p, sz, av) \<leftarrow>
           (if \<not> pinuse then merge_backward E False md p sz md_nextchunk nextchunk av
            else Some (md, p, sz, av));
         (ok, sz, av) \<leftarrow>
           (if nextchunk \<noteq> topchunk then do {
              (nextinuse, av) \<leftarrow> inuse_bit E md_nextchunk av;
              (sz, av) \<leftarrow>
                (if \<not> nextinuse then merge_forward E False md p sz md_nextchunk nextchunk nextsize av
                 else Some (sz, clear_inuse_bit md_nextchunk av));
              (ok, av) \<leftarrow> place_unsorted E md sz av;
              (if ok then check_top (par av) av else Some ());
              Some (ok, sz, av) }
            else do {
              (sz, av) \<leftarrow> merge_top E md sz nextsize topchunk av;
              Some (True, sz, av) });
         if ok \<and> sz \<ge> FASTBIN_CONSOLIDATION_THRESHOLD then after_large_free S topchunk freshheap av
         else Some av } } }"

definition free_mmapped ::
  "('z proc_scheme) sysenv \<Rightarrow> bptr \<Rightarrow> u64 \<Rightarrow> 'z proc_scheme \<Rightarrow> 'z proc_scheme option" where
  "free_mmapped S md p av =
    (if \<not> is_main av then unmap_in_main S p md av
     else do {
       av \<leftarrow> munmap_chunk S md av;
       (_, av) \<leftarrow> unregister_chunk (cienv S) p av;
       Some av })"

text \<open>The argument \<open>have_lock\<close> only decides about the locking.\<close>

definition int_free ::
  "('z proc_scheme) sysenv \<Rightarrow> bptr option \<Rightarrow> u64 \<Rightarrow> bool \<Rightarrow> 'z proc_scheme \<Rightarrow> 'z proc_scheme option" where
  "int_free S md p freshheap av = do {
     let E = cienv S;
     t \<leftarrow> md_top av;
     let topchunk = chunkinfo2chunk av t;
     assert_c (case md of None \<Rightarrow> True | Some q \<Rightarrow> chunkinfo2chunk av q = p);
     (md, av) \<leftarrow> (if md = None then lookup_chunk E p av else Some (md, av));
     md \<leftarrow> md;
     check_top (par av) av;
     let sz = chunksize av (Some md);
     if p > - sz \<or> misaligned_chunk p then printerr av
     else if sz < MINSIZE \<or> \<not> aligned_OK sz then printerr av
     else do {
       av \<leftarrow> assert_md_next E md p av;
       md_nextchunk \<leftarrow> md_next (ci av md);
       let nextchunk = chunkinfo2chunk av md_nextchunk;
       let nextsize = chunksize av (Some md_nextchunk);
       if sz \<le> global_max_fast (par av) then free_fast md sz md_nextchunk nextsize av
       else if \<not> chunk_is_mmapped av md
         then free_normal S md p sz md_nextchunk nextchunk nextsize topchunk freshheap av
       else free_mmapped S md p av } }"

end
