(* ===== verification/Malloc_Alloc.thy ===== *)
theory Malloc_Alloc
  imports Malloc_Core
begin

text \<open>
  \<open>sysmalloc\<close> and \<open>_int_malloc\<close> of \<open>malloc.c\<close> for an arena that exists (without arena both only map a
  chunk of their own). The result of an allocation is the metadata of the chunk, or \<open>None\<close> for \<open>NULL\<close>.
\<close>

section \<open>\<open>sysmalloc\<close>\<close>

definition set_enomem :: "'z proc_scheme \<Rightarrow> 'z proc_scheme" where
  "set_enomem av = av\<lparr>memory := (memory av)\<lparr>errno := Some ENOMEM\<rparr>\<rparr>"

text \<open>\<open>MAP_FAILED\<close> is \<open>None\<close>.\<close>

definition sys_MMAP :: "('z proc_scheme) sysenv \<Rightarrow> u64 \<Rightarrow> 'z proc_scheme \<Rightarrow> u64 option \<times> 'z proc_scheme" where
  "sys_MMAP S sz av = (let cs = calls av @ [Mmap sz] in (kernel S cs, av\<lparr>calls := cs\<rparr>))"

definition count_mmap :: "u64 \<Rightarrow> malloc_par \<Rightarrow> malloc_par" where
  "count_mmap sz P =
    (let new = n_mmaps P + 1; total = mmapped_mem P + sz in
     P\<lparr>n_mmaps := new,
       max_n_mmaps := (if sint new > sint (max_n_mmaps P) then new else max_n_mmaps P),
       mmapped_mem := total,
       max_mmapped_mem := (if total > max_mmapped_mem P then total else max_mmapped_mem P)\<rparr>)"

definition map_chunk ::
  "('z proc_scheme) sysenv \<Rightarrow> u64 \<Rightarrow> 'z proc_scheme \<Rightarrow> (bptr option option \<times> 'z proc_scheme) option" where
  "map_chunk S nb av = do {
     let sz = (if MALLOC_ALIGNMENT = 2 * SIZE_SZ then ALIGN_UP (nb + SIZE_SZ) (dl_pagesize (par av))
               else ALIGN_UP (nb + SIZE_SZ + MALLOC_ALIGN_MASK) (dl_pagesize (par av)));
     if sz > nb then
       (case sys_MMAP S sz av of
          (None, av) \<Rightarrow> Some (None, av)
        | (Some mm, av) \<Rightarrow> do {
            assert_c (MALLOC_ALIGNMENT \<noteq> 2 * SIZE_SZ \<or> chunk2mem mm AND MALLOC_ALIGN_MASK = 0);
            let front_misalign = (if MALLOC_ALIGNMENT = 2 * SIZE_SZ then 0 else chunk2mem mm AND MALLOC_ALIGN_MASK);
            let correction = (if front_misalign > 0 then MALLOC_ALIGNMENT - front_misalign else 0);
            let p = mm + correction;
            (md, av) \<leftarrow> register_chunk (cienv S) p av;
            check_metadata_chunk av p (Some md);
            let av = (if front_misalign > 0
                      then set_head md ((sz - correction) OR IS_MMAPPED) (w_prev_size correction md av)
                      else set_head md (sz OR IS_MMAPPED) av);
            (_, L) \<leftarrow> lookup_add_mmap (lk_mmap S) p sz (lkup av);
            Some (Some (Some md), av\<lparr>lkup := L, par := count_mmap sz (par av)\<rparr>) })
     else Some (None, av) }"

definition try_mmap ::
  "('z proc_scheme) sysenv \<Rightarrow> u64 \<Rightarrow> 'z proc_scheme \<Rightarrow> (bptr option option \<times> 'z proc_scheme) option" where
  "try_mmap S nb av = (if is_main av then map_chunk S nb av else mmap_in_main S nb av)"

text \<open>
  More memory at the break or, when that fails, from \<open>mmap\<close>: the results are \<open>brk\<close>, \<open>snd_brk\<close>,
  \<open>mbrk\<close> (\<open>0\<close> is \<open>NULL\<close>) and the size, which is signed in the code.
\<close>

definition MMAP_AS_MORECORE_SIZE :: u64 where
  "MMAP_AS_MORECORE_SIZE = 1024 * 1024"

definition more_core ::
  "('z proc_scheme) sysenv \<Rightarrow> u64 \<Rightarrow> u64 \<Rightarrow> 'z proc_scheme \<Rightarrow> u64 \<times> u64 \<times> u64 \<times> u64 \<times> 'z proc_scheme" where
  "more_core S nb old_size av =
    (let pagesize = dl_pagesize (par av);
         sz = nb + top_pad (par av) + MINSIZE;
         sz = (if contiguous av then sz - old_size else sz);
         sz = ALIGN_UP sz pagesize;
         (brk, av) = (if sint sz > 0 then MORECORE S sz av else (0, av)) in
     if brk \<noteq> 0 then (brk, 0, 0, sz, av)
     else
       let sz = (if contiguous av then ALIGN_UP (sz + old_size) pagesize else sz);
           sz = (if sz < MMAP_AS_MORECORE_SIZE then MMAP_AS_MORECORE_SIZE else sz) in
       if sz > nb then
         (case sys_MMAP S sz av of
            (None, av) \<Rightarrow> (0, 0, - 1, sz, av)
          | (Some mbrk, av) \<Rightarrow> (mbrk, mbrk + sz, mbrk, sz, set_noncontiguous av))
       else (0, 0, 0, sz, av))"

text \<open>The fence posts at the old top, which is followed by memory that is not ours.\<close>

definition put_fenceposts ::
  "('z proc_scheme) sysenv \<Rightarrow> bptr \<Rightarrow> u64 \<Rightarrow> u64 \<Rightarrow> 'z proc_scheme \<Rightarrow> 'z proc_scheme option" where
  "put_fenceposts S md_old_top old_top old_size av = do {
     let E = cienv S;
     let old_size = (old_size - 4 * SIZE_SZ) AND NOT MALLOC_ALIGN_MASK;
     let av = set_head md_old_top (old_size OR PREV_INUSE) av;
     let md_fpost_prev = (if old_size = 0 then md_prev (ci av md_old_top) else Some md_old_top);
     let fencepost_0 = chunk_at_offset old_top old_size;
     av \<leftarrow> (if old_size = 0 then do { (_, av) \<leftarrow> unregister_chunk E old_top av; Some av } else Some av);
     (md_0, av) \<leftarrow> register_chunk E fencepost_0 av;
     let av = w_md_next None md_0 av;
     let av = w_md_prev md_fpost_prev md_0 av;
     fprev \<leftarrow> md_fpost_prev;
     let av = w_md_next (Some md_0) fprev av;
     let av = set_head md_0 ((2 * SIZE_SZ) OR PREV_INUSE) av;
     let fencepost_1 = chunk_at_offset old_top (old_size + 2 * SIZE_SZ);
     (md_1, av) \<leftarrow> register_chunk E fencepost_1 av;
     let av = w_md_next (md_top av) md_1 av;
     let av = w_md_prev (Some md_0) md_1 av;
     let av = w_md_next (Some md_1) md_0 av;
     t \<leftarrow> md_top av;
     let av = w_md_prev (Some md_1) t av;
     let av = set_head md_1 ((2 * SIZE_SZ) OR PREV_INUSE) av;
     check_metadata_chunk av fencepost_0 (Some md_0);
     check_metadata_chunk av fencepost_1 (Some md_1);
     check_top (par av) av;
     if old_size \<ge> MINSIZE then int_free S (Some md_old_top) old_top False av else Some av }"

text \<open>
  The new top in memory that does not extend the old one: where it starts, how much to ask for to end on
  a page, and what the break is then. The results are \<open>aligned_brk\<close>, \<open>correction\<close> and \<open>snd_brk\<close>.
\<close>

definition align_core ::
  "('z proc_scheme) sysenv \<Rightarrow> u64 \<Rightarrow> u64 \<Rightarrow> u64 \<Rightarrow> u64 \<Rightarrow> u64 \<Rightarrow> 'z proc_scheme \<Rightarrow> (u64 \<times> u64 \<times> u64 \<times> 'z proc_scheme) option" where
  "align_core S brk snd_brk sz old_size old_end av =
    (if contiguous av then do {
       let av = (if old_size \<noteq> 0 then av\<lparr>system_mem := system_mem av + (brk - old_end)\<rparr> else av);
       let front_misalign = chunk2mem brk AND MALLOC_ALIGN_MASK;
       let correction = (if front_misalign > 0 then MALLOC_ALIGNMENT - front_misalign else 0);
       let aligned_brk = brk + correction;
       let correction = correction + old_size;
       let end_misalign = brk + sz + correction;
       let correction = correction + (ALIGN_UP end_misalign (dl_pagesize (par av)) - end_misalign);
       assert_c (sint correction \<ge> 0);
       let (snd_brk, av) = MORECORE S correction av;
       if snd_brk = 0 then do {
         let (snd_brk, av) = MORECORE S 0 av;
         Some (aligned_brk, 0, snd_brk, av) }
       else Some (aligned_brk, correction, snd_brk, av) }
     else do {
       let front_misalign = chunk2mem brk AND MALLOC_ALIGN_MASK;
       assert_c (MALLOC_ALIGNMENT \<noteq> 2 * SIZE_SZ \<or> front_misalign = 0);
       let aligned_brk = (if MALLOC_ALIGNMENT \<noteq> 2 * SIZE_SZ \<and> front_misalign > 0
                          then brk + (MALLOC_ALIGNMENT - front_misalign) else brk);
       let (snd_brk, av) = (if snd_brk = 0 then MORECORE S 0 av else (snd_brk, av));
       Some (aligned_brk, 0, snd_brk, av) })"

definition new_top ::
  "('z proc_scheme) sysenv \<Rightarrow> bptr \<Rightarrow> u64 \<Rightarrow> u64 \<Rightarrow> u64 \<Rightarrow> u64 \<Rightarrow> u64 \<Rightarrow> 'z proc_scheme \<Rightarrow> 'z proc_scheme option" where
  "new_top S md_old_top old_top old_size aligned_brk correction snd_brk av = do {
     (t, av) \<leftarrow> register_chunk (cienv S) aligned_brk av;
     let av = av\<lparr>md_top := Some t\<rparr>;
     let av = w_md_next None t av;
     let av = w_md_prev None t av;
     let av = set_head t ((snd_brk - aligned_brk + correction) OR PREV_INUSE) av;
     check_top (par av) av;
     let av = av\<lparr>system_mem := system_mem av + correction\<rparr>;
     av \<leftarrow> (if sint correction > 0 then do {
              (_, L) \<leftarrow> lookup_incr_sbrk_hi correction (lkup av);
              Some (av\<lparr>lkup := L\<rparr>) }
            else Some av);
     if old_size \<noteq> 0 then put_fenceposts S md_old_top old_top old_size av else Some av }"

definition extend_main ::
  "('z proc_scheme) sysenv \<Rightarrow> u64 \<Rightarrow> bptr \<Rightarrow> u64 \<Rightarrow> u64 \<Rightarrow> u64 \<Rightarrow> 'z proc_scheme \<Rightarrow> 'z proc_scheme option" where
  "extend_main S nb md_old_top old_top old_size old_end av = do {
     let (brk, snd_brk, mbrk, sz, av) = more_core S nb old_size av;
     if brk = 0 then Some av
     else do {
       av \<leftarrow> (if mbrk \<noteq> 0 then do {
                (_, L) \<leftarrow> lookup_add_sbrk_region (lk_mmap S) brk snd_brk (lkup av);
                Some (av\<lparr>lkup := L\<rparr>) }
              else do {
                (_, L) \<leftarrow> (if mp_sbrk_base (par av) = 0 then lookup_set_sbrk_lo brk (lkup av)
                           else Some (True, lkup av));
                (_, L) \<leftarrow> lookup_incr_sbrk_hi sz L;
                Some (av\<lparr>lkup := L\<rparr>) });
       let av = (if mp_sbrk_base (par av) = 0 then av\<lparr>par := (par av)\<lparr>mp_sbrk_base := brk\<rparr>\<rparr> else av);
       let av = av\<lparr>system_mem := system_mem av + sz\<rparr>;
       if brk = old_end \<and> snd_brk = 0 then
         Some (set_head md_old_top ((sz + old_size) OR PREV_INUSE) av)
       else if contiguous av \<and> old_size \<noteq> 0 \<and> brk < old_end then malloc_printerr 3 av
       else do {
         (aligned_brk, correction, snd_brk, av) \<leftarrow> align_core S brk snd_brk sz old_size old_end av;
         if snd_brk \<noteq> 0 then new_top S md_old_top old_top old_size aligned_brk correction snd_brk av
         else Some av } } }"

definition finish_sysmalloc ::
  "ci_env \<Rightarrow> u64 \<Rightarrow> 'z proc_scheme \<Rightarrow> (bptr option \<times> 'z proc_scheme) option" where
  "finish_sysmalloc E nb av = do {
     let av = (if system_mem av > max_system_mem av then av\<lparr>max_system_mem := system_mem av\<rparr> else av);
     md \<leftarrow> md_top av;
     let p = chunkinfo2chunk av md;
     let sz = chunksize av (Some md);
     if sz \<ge> nb + MINSIZE then do {
       (t, av) \<leftarrow> split_chunk E md p sz nb av;
       let av = av\<lparr>md_top := Some t\<rparr>;
       check_top (par av) av;
       Some (Some md, av) }
     else Some (None, set_enomem av) }"

text \<open>From the recording of the old top on; \<open>goto try_mmap\<close> comes back here once.\<close>

partial_function (option) sysmalloc_top ::
  "('z proc_scheme) sysenv \<Rightarrow> bool \<Rightarrow> u64 \<Rightarrow> 'z proc_scheme \<Rightarrow> (bptr option \<times> 'z proc_scheme) option" where
  "sysmalloc_top S tried_mmap nb av = do {
     md_old_top \<leftarrow> md_top av;
     let old_top = chunkinfo2chunk av md_old_top;
     let old_size = chunksize av (Some md_old_top);
     let old_end = chunk_at_offset old_top old_size;
     pinuse \<leftarrow> prev_inuse av md_old_top old_top;
     assert_c (old_top = initial_top av \<and> old_size = 0 \<or>
               old_size \<ge> MINSIZE \<and> pinuse \<and> old_end AND (dl_pagesize (par av) - 1) = 0);
     assert_c (old_size < nb + MINSIZE);
     if is_main av then do {
       av \<leftarrow> extend_main S nb md_old_top old_top old_size old_end av;
       finish_sysmalloc (cienv S) nb av }
     else do {
       (ok, av) \<leftarrow> extend_heap S nb av;
       if ok \<or> tried_mmap then finish_sysmalloc (cienv S) nb av
       else do {
         (r, av) \<leftarrow> try_mmap S nb av;
         case r of
           Some r \<Rightarrow> Some (r, av)
         | None \<Rightarrow> sysmalloc_top S True nb av } } }"

definition sysmalloc ::
  "('z proc_scheme) sysenv \<Rightarrow> u64 \<Rightarrow> 'z proc_scheme \<Rightarrow> (bptr option \<times> 'z proc_scheme) option" where
  "sysmalloc S nb av = do {
     let direct = nb \<ge> mmap_threshold (par av) \<and> sint (n_mmaps (par av)) < sint (n_mmaps_max (par av));
     (r, av) \<leftarrow> (if direct then try_mmap S nb av else Some (None, av));
     case r of
       Some r \<Rightarrow> Some (r, av)
     | None \<Rightarrow> sysmalloc_top S direct nb av }"

section \<open>\<open>_int_malloc\<close>\<close>

text \<open>
  The parts return \<open>Some r\<close> when the code returns \<open>r\<close> there, and \<open>None\<close> when it goes on.
  First the fast bin.
\<close>

definition malloc_fast :: "u64 \<Rightarrow> 'z proc_scheme \<Rightarrow> (bptr option option \<times> 'z proc_scheme) option" where
  "malloc_fast nb av =
    (if nb \<le> global_max_fast (par av) then do {
       let idx = fastbin_index nb;
       assert_c (unat idx < length (fastbinsY av));
       case fastbinsY av ! unat idx of
         None \<Rightarrow> Some (None, av)
       | Some victim \<Rightarrow> do {
           let av = av\<lparr>fastbinsY := (fastbinsY av)[unat idx := fd (ci av victim)]\<rparr>;
           if fastbin_index (chunksize av (Some victim)) \<noteq> idx then do {
             av \<leftarrow> printerr av;
             Some (Some None, av) }
           else Some (Some (Some victim), av) } }
     else Some (None, av))"

text \<open>The small bin of the size, or the consolidation before a large request.\<close>

definition malloc_small ::
  "('z proc_scheme) sysenv \<Rightarrow> u64 \<Rightarrow> 'z proc_scheme \<Rightarrow> (bptr option option \<times> 'z proc_scheme) option" where
  "malloc_small S nb av =
    (if in_smallbin_range nb then do {
       let bin = bin_at av (smallbin_index nb);
       case bk (ci av bin) of
         None \<Rightarrow> do {
           av \<leftarrow> malloc_consolidate S av;
           Some (None, av) }
       | Some victim \<Rightarrow>
           (if victim = bin then Some (None, av)
            else do {
              bck \<leftarrow> bk (ci av victim);
              if fd (ci av bck) \<noteq> Some victim then do {
                av \<leftarrow> printerr av;
                Some (Some None, av) }
              else do {
                av \<leftarrow> set_inuse_bit (cienv S) victim av;
                let av = w_bk (Some bck) bin av;
                let av = w_fd (Some bin) bck av;
                Some (Some (Some victim), av) } }) }
     else do {
       av \<leftarrow> (if have_fastchunks av then malloc_consolidate S av else Some av);
       Some (None, av) })"

text \<open>A chunk of the unsorted list goes to its bin; a large bin is kept sorted.\<close>

partial_function (option) skip_larger :: "u64 \<Rightarrow> bptr \<Rightarrow> 'z proc_scheme \<Rightarrow> bptr option" where
  "skip_larger sz fwd av =
    (if sz < csize (ci av fwd) then do { fwd \<leftarrow> fd_nextsize (ci av fwd); skip_larger sz fwd av }
     else Some fwd)"

text \<open>The results are \<open>bck\<close> and \<open>fwd\<close>, the neighbours of the chunk in the bin.\<close>

definition place_large :: "bptr \<Rightarrow> u64 \<Rightarrow> bptr \<Rightarrow> 'z proc_scheme \<Rightarrow> (bptr \<times> bptr \<times> 'z proc_scheme) option" where
  "place_large victim sz bin av = do {
     let bck = bin;
     fwd \<leftarrow> fd (ci av bck);
     if fwd \<noteq> bck then do {
       let sz = sz OR PREV_INUSE;
       smallest \<leftarrow> bk (ci av bck);
       if sz < csize (ci av smallest) then do {
         let fwd = bck;
         let bck = smallest;
         largest \<leftarrow> fd (ci av fwd);
         let av = w_fd_nextsize (Some largest) victim av;
         let av = w_bk_nextsize (bk_nextsize (ci av largest)) victim av;
         bkn \<leftarrow> bk_nextsize (ci av victim);
         let av = w_fd_nextsize (Some victim) bkn av;
         let av = w_bk_nextsize (Some victim) largest av;
         Some (bck, fwd, av) }
       else do {
         fwd \<leftarrow> skip_larger sz fwd av;
         if sz = csize (ci av fwd) then do {
           fwd \<leftarrow> fd (ci av fwd);
           bck \<leftarrow> bk (ci av fwd);
           Some (bck, fwd, av) }
         else do {
           let av = w_fd_nextsize (Some fwd) victim av;
           let av = w_bk_nextsize (bk_nextsize (ci av fwd)) victim av;
           let av = w_bk_nextsize (Some victim) fwd av;
           bkn \<leftarrow> bk_nextsize (ci av victim);
           let av = w_fd_nextsize (Some victim) bkn av;
           bck \<leftarrow> bk (ci av fwd);
           Some (bck, fwd, av) } } }
     else Some (bck, fwd, w_fd_nextsize (Some victim) victim (w_bk_nextsize (Some victim) victim av)) }"

definition place_in_bin :: "bptr \<Rightarrow> u64 \<Rightarrow> 'z proc_scheme \<Rightarrow> 'z proc_scheme option" where
  "place_in_bin victim sz av = do {
     let victim_index = (if in_smallbin_range sz then smallbin_index sz else largebin_index sz);
     let bin = bin_at av victim_index;
     (bck, fwd, av) \<leftarrow>
       (if in_smallbin_range sz then do { fwd \<leftarrow> fd (ci av bin); Some (bin, fwd, av) }
        else place_large victim sz bin av);
     bm \<leftarrow> mark_bin (bin_map av) victim_index;
     let av = av\<lparr>bin_map := bm\<rparr>;
     let av = w_bk (Some bck) victim av;
     let av = w_fd (Some fwd) victim av;
     let av = w_bk (Some victim) fwd av;
     Some (w_fd (Some victim) bck av) }"

text \<open>The last remainder, which is the only unsorted chunk, is split.\<close>

definition split_last_remainder ::
  "ci_env \<Rightarrow> u64 \<Rightarrow> bptr \<Rightarrow> u64 \<Rightarrow> 'z proc_scheme \<Rightarrow> (bptr \<times> 'z proc_scheme) option" where
  "split_last_remainder E nb victim sz av = do {
     let remainder_size = sz - nb;
     (rem, av) \<leftarrow> split_remainder E victim (chunkinfo2chunk av victim) remainder_size nb av;
     let unsorted = unsorted_chunks av;
     let av = w_bk (Some rem) unsorted (w_fd (Some rem) unsorted av);
     let av = av\<lparr>last_remainder := Some rem\<rparr>;
     let av = w_bk (Some unsorted) rem (w_fd (Some unsorted) rem av);
     Some (victim, clear_nextsize remainder_size rem av) }"

definition MAX_ITERS :: nat where
  "MAX_ITERS = 10000"

text \<open>The unsorted list, from its end, with \<open>n\<close> iterations left.\<close>

fun unsorted_loop ::
  "ci_env \<Rightarrow> nat \<Rightarrow> u64 \<Rightarrow> 'z proc_scheme \<Rightarrow> (bptr option option \<times> 'z proc_scheme) option" where
  "unsorted_loop E 0 nb av = Some (None, av)"
| "unsorted_loop E (Suc n) nb av = do {
     let unsorted = unsorted_chunks av;
     victim \<leftarrow> bk (ci av unsorted);
     if victim = unsorted then Some (None, av)
     else do {
       bck \<leftarrow> bk (ci av victim);
       av \<leftarrow> (if csize (ci av victim) \<le> 2 * SIZE_SZ \<or> csize (ci av victim) > system_mem av
              then printerr av else Some av);
       let sz = chunksize av (Some victim);
       if in_smallbin_range nb \<and> bck = unsorted \<and> last_remainder av = Some victim \<and> sz > nb + MINSIZE
       then do {
         (victim, av) \<leftarrow> split_last_remainder E nb victim sz av;
         Some (Some (Some victim), av) }
       else do {
         let av = w_bk (Some bck) unsorted av;
         let av = w_fd (Some unsorted) bck av;
         if sz = nb then do {
           av \<leftarrow> set_inuse_bit E victim av;
           Some (Some (Some victim), av) }
         else do {
           av \<leftarrow> place_in_bin victim sz av;
           unsorted_loop E n nb av } } } }"

text \<open>
  A chunk of a bin is used, whole or split; this is written out twice in the code. Only the search
  through the larger bins advertises the remainder, but a large request never does.
\<close>

definition use_binned ::
  "ci_env \<Rightarrow> u64 \<Rightarrow> bptr \<Rightarrow> u64 \<Rightarrow> 'z proc_scheme \<Rightarrow> (bptr option option \<times> 'z proc_scheme) option" where
  "use_binned E nb victim sz av = do {
     let remainder_size = sz - nb;
     (_, _, av) \<leftarrow> bin_unlink victim av;
     if remainder_size < MINSIZE then do {
       av \<leftarrow> set_inuse_bit E victim av;
       Some (Some (Some victim), av) }
     else do {
       let bck = unsorted_chunks av;
       fwd \<leftarrow> fd (ci av bck);
       if bk (ci av fwd) \<noteq> Some bck then do {
         av \<leftarrow> printerr av;
         Some (Some None, av) }
       else do {
         (rem, av) \<leftarrow> split_remainder E victim (chunkinfo2chunk av victim) remainder_size nb av;
         let av = w_bk (Some bck) rem av;
         let av = w_fd (Some fwd) rem av;
         let av = w_fd (Some rem) bck av;
         let av = w_bk (Some rem) fwd av;
         let av = (if in_smallbin_range nb then av\<lparr>last_remainder := Some rem\<rparr> else av);
         Some (Some (Some victim), clear_nextsize remainder_size rem av) } } }"

text \<open>The bin of a large request: the smallest chunk that fits, over the skip list from its small end.\<close>

partial_function (option) skip_smaller :: "u64 \<Rightarrow> bptr option \<Rightarrow> 'z proc_scheme \<Rightarrow> (bptr \<times> u64) option" where
  "skip_smaller nb victim av = do {
     v \<leftarrow> victim;
     let sz = chunksize av (Some v);
     if sz < nb then skip_smaller nb (bk_nextsize (ci av v)) av else Some (v, sz) }"

definition malloc_large ::
  "ci_env \<Rightarrow> u64 \<Rightarrow> u32 \<Rightarrow> 'z proc_scheme \<Rightarrow> (bptr option option \<times> 'z proc_scheme) option" where
  "malloc_large E nb idx av =
    (if \<not> in_smallbin_range nb then do {
       let bin = bin_at av idx;
       victim \<leftarrow> fd (ci av bin);
       if victim \<noteq> bin \<and> csize (ci av victim) \<ge> nb then do {
         (victim, sz) \<leftarrow> skip_smaller nb (bk_nextsize (ci av victim)) av;
         victim \<leftarrow>
           (if Some victim \<noteq> bk (ci av bin) then do {
              f \<leftarrow> fd (ci av victim);
              Some (if csize (ci av victim) = csize (ci av f) then f else victim) }
            else Some victim);
         use_binned E nb victim sz av }
       else Some (None, av) }
     else Some (None, av))"

text \<open>The next block of the bin map with a bit set.\<close>

partial_function (option) next_block :: "binmap \<Rightarrow> u32 \<Rightarrow> (u32 \<times> u32) option option" where
  "next_block bm block =
    (let block = block + 1 in
     if unat block \<ge> BINMAPSIZE then Some None
     else do {
       assert_c (unat block < length bm);
       let wd = bm ! unat block;
       if wd = 0 then next_block bm block else Some (Some (block, wd)) })"

partial_function (option) next_set_bit :: "bptr \<Rightarrow> u32 \<Rightarrow> u32 \<Rightarrow> (bptr \<times> u32) option" where
  "next_set_bit bin bt wd =
    (if bt AND wd = 0 then do {
       let bin = next_bin bin;
       let bt = push_bit 1 bt;
       assert_c (bt \<noteq> 0);
       next_set_bit bin bt wd }
     else Some (bin, bt))"

text \<open>The search through the larger bins; \<open>None\<close> is \<open>goto use_top\<close>.\<close>

partial_function (option) scan_bins ::
  "ci_env \<Rightarrow> u64 \<Rightarrow> bptr \<Rightarrow> u32 \<Rightarrow> u32 \<Rightarrow> u32 \<Rightarrow> 'z proc_scheme \<Rightarrow> (bptr option option \<times> 'z proc_scheme) option" where
  "scan_bins E nb bin block wd bt av = do {
     next \<leftarrow> (if bt > wd \<or> bt = 0 then do {
                nx \<leftarrow> next_block (bin_map av) block;
                Some (case nx of None \<Rightarrow> None
                      | Some (block, wd) \<Rightarrow> Some (bin_at av (push_bit BINMAPSHIFT block), block, wd, 1)) }
              else Some (Some (bin, block, wd, bt)));
     case next of
       None \<Rightarrow> Some (None, av)
     | Some (bin, block, wd, bt) \<Rightarrow> do {
         (bin, bt) \<leftarrow> next_set_bit bin bt wd;
         victim \<leftarrow> bk (ci av bin);
         if victim = bin then do {
           let wd = wd AND NOT bt;
           assert_c (unat block < length (bin_map av));
           let av = av\<lparr>bin_map := (bin_map av)[unat block := wd]\<rparr>;
           scan_bins E nb (next_bin bin) block wd (push_bit 1 bt) av }
         else do {
           let sz = chunksize av (Some victim);
           assert_c (sz \<ge> nb);
           use_binned E nb victim sz av } } }"

definition malloc_larger_bins ::
  "ci_env \<Rightarrow> u64 \<Rightarrow> u32 \<Rightarrow> 'z proc_scheme \<Rightarrow> (bptr option option \<times> 'z proc_scheme) option" where
  "malloc_larger_bins E nb idx av = do {
     let idx = idx + 1;
     let block = idx2block idx;
     assert_c (unat block < length (bin_map av));
     scan_bins E nb (bin_at av idx) block (bin_map av ! unat block) (idx2bit idx) av }"

definition use_top ::
  "ci_env \<Rightarrow> u64 \<Rightarrow> 'z proc_scheme \<Rightarrow> (bptr option option \<times> 'z proc_scheme) option" where
  "use_top E nb av = do {
     victim \<leftarrow> md_top av;
     let sz = chunksize av (Some victim);
     if sz \<ge> nb + MINSIZE then do {
       (t, av) \<leftarrow> split_chunk E victim (chunkinfo2chunk av victim) sz nb av;
       let av = av\<lparr>md_top := Some t\<rparr>;
       check_top (par av) av;
       Some (Some (Some victim), av) }
     else Some (None, av) }"

text \<open>The outer loop \<open>for (;;)\<close>: when top is too small the fast bins are consolidated once more.\<close>

abbreviation "or_return r k \<equiv> (case r of (Some x, s) \<Rightarrow> Some (x, s) | (None, s) \<Rightarrow> k s)"

partial_function (option) malloc_loop ::
  "('z proc_scheme) sysenv \<Rightarrow> u64 \<Rightarrow> u32 \<Rightarrow> 'z proc_scheme \<Rightarrow> (bptr option \<times> 'z proc_scheme) option" where
  "malloc_loop S nb idx av = do {
     r \<leftarrow> unsorted_loop (cienv S) MAX_ITERS nb av;
     or_return r (\<lambda>av. do {
     r \<leftarrow> malloc_large (cienv S) nb idx av;
     or_return r (\<lambda>av. do {
     r \<leftarrow> malloc_larger_bins (cienv S) nb idx av;
     or_return r (\<lambda>av. do {
     r \<leftarrow> use_top (cienv S) nb av;
     or_return r (\<lambda>av.
       if have_fastchunks av then do {
         av \<leftarrow> malloc_consolidate S av;
         malloc_loop S nb (if in_smallbin_range nb then smallbin_index nb else largebin_index nb) av }
       else sysmalloc S nb av) }) }) }) }"

definition int_malloc ::
  "('z proc_scheme) sysenv \<Rightarrow> u64 \<Rightarrow> 'z proc_scheme \<Rightarrow> (bptr option \<times> 'z proc_scheme) option" where
  "int_malloc S bytes av =
    (case checked_request2size bytes of
       Inl e \<Rightarrow> Some (None, av\<lparr>memory := (memory av)\<lparr>errno := Some e\<rparr>\<rparr>)
     | Inr nb \<Rightarrow> do {
         (ok, av) \<leftarrow> replenish_metadata_cache (cienv S) av;
         if \<not> ok then Some (None, av)
         else do {
           r \<leftarrow> malloc_fast nb av;
           or_return r (\<lambda>av. do {
           r \<leftarrow> malloc_small S nb av;
           or_return r (\<lambda>av.
             malloc_loop S nb (if in_smallbin_range nb then smallbin_index nb else largebin_index nb) av) }) } })"

end
