(* ===== verification/Metadata_Regions.thy ===== *)
theory Metadata_Regions
  imports Metadata_Props
begin

text \<open>
  The regions that the hash table and its pools come to use are those in use before and results of
  \<open>mmap\<close>: an address that the kernel never hands out, such as that of a static object of the program,
  is never that of a pool.
\<close>

definition mmap_results :: "'b env \<Rightarrow> addr set" where
  "mmap_results E = {a. \<exists>R h n. os_mmap E R h n = Some a}"

definition mapped_by :: "'b env \<Rightarrow> 'b mem \<Rightarrow> 'b mem \<Rightarrow> bool" where
  "mapped_by E m m' \<longleftrightarrow> regions m' \<subseteq> regions m \<union> mmap_results E"

definition avoids :: "'b env \<Rightarrow> addr \<Rightarrow> bool" where
  "avoids E a \<longleftrightarrow> a \<notin> mmap_results E"

lemma mmap_resultsI: "os_mmap E R h n = Some a \<Longrightarrow> a \<in> mmap_results E"
  by (auto simp: mmap_results_def)

lemma mapped_by_avoids: "mapped_by E m m' \<Longrightarrow> avoids E a \<Longrightarrow> a \<notin> regions m \<Longrightarrow> a \<notin> regions m'"
  by (auto simp: mapped_by_def avoids_def)

lemma mapped_by_refl [simp]: "mapped_by E m m"
  by (simp add: mapped_by_def)

lemma mapped_by_trans [trans]: "mapped_by E m m' \<Longrightarrow> mapped_by E m' m'' \<Longrightarrow> mapped_by E m m''"
  by (auto simp: mapped_by_def)

lemma mapped_by_upd [simp]:
  "mapped_by E m (m'\<lparr>bheap := x1\<rparr>) = mapped_by E m m'" "mapped_by E m (m'\<lparr>sheap := x2\<rparr>) = mapped_by E m m'"
  "mapped_by E m (m'\<lparr>dheap := x3\<rparr>) = mapped_by E m m'" "mapped_by E m (m'\<lparr>bpools := x4\<rparr>) = mapped_by E m m'"
  "mapped_by E m (m'\<lparr>spools := x5\<rparr>) = mapped_by E m m'" "mapped_by E m (m'\<lparr>mc_segments := x6\<rparr>) = mapped_by E m m'"
  "mapped_by E m (m'\<lparr>mc_buckets := x6\<rparr>) = mapped_by E m m'" "mapped_by E m (m'\<lparr>errno := x7\<rparr>) = mapped_by E m m'"
  "mapped_by E m (set_next m' r v) = mapped_by E m m'" "mapped_by E m (set_bin m' c v) = mapped_by E m m'"
  by (simp_all add: mapped_by_def set_next_def set_bin_def)

lemma mapped_by_from [simp]:
  "mapped_by E (m\<lparr>errno := x\<rparr>) m' = mapped_by E m m'"
  "mapped_by E (set_next m r v) m' = mapped_by E m m'" "mapped_by E (set_bin m c v) m' = mapped_by E m m'"
  by (simp_all add: mapped_by_def set_next_def set_bin_def)

lemma bind_eq_SomeE:
  assumes "f \<bind> g = Some x"
  obtains y where "f = Some y" and "g y = Some x"
  using assms by (auto simp: bind_eq_Some_conv)

lemma bind_pair_SomeE:
  assumes "f \<bind> (\<lambda>(a, b). g a b) = Some x"
  obtains a b where "f = Some (a, b)" and "g a b = Some x"
  using assms by (auto simp: bind_eq_Some_conv)

lemma bind_triple_SomeE:
  assumes "f \<bind> (\<lambda>(a, b, c). g a b c) = Some x"
  obtains a b c where "f = Some (a, b, c)" and "g a b c = Some x"
  using assms by (auto simp: bind_eq_Some_conv)

lemmas bindE = bind_triple_SomeE bind_pair_SomeE bind_eq_SomeE

section \<open>Pools\<close>

lemma mapped_by_mmap: "sri_mmap E h n m = (r, m') \<Longrightarrow> mapped_by E m m'"
  by (auto simp: sri_mmap_def map_region_def mapped_by_def Let_def split: option.splits if_splits intro: mmap_resultsI)

lemma mapped_by_new_segments: "new_segments E m = (r, m') \<Longrightarrow> mapped_by E m m'"
  by (auto simp: new_segments_def init_segment_pool_def split: prod.splits option.splits dest!: mapped_by_mmap)

lemma mapped_by_new_buckets: "new_buckets E m = (r, m') \<Longrightarrow> mapped_by E m m'"
  by (auto simp: new_buckets_def init_bucket_pool_def split: prod.splits option.splits dest!: mapped_by_mmap)

lemma mapped_by_alloc_bucket: "alloc_bucket E m = Some (r, m') \<Longrightarrow> mapped_by E m m'"
  by (auto simp: alloc_bucket_def bind_eq_Some_conv split: prod.splits option.splits dest!: mapped_by_new_buckets)

lemma mapped_by_alloc_segment: "alloc_segment E m = Some (r, m') \<Longrightarrow> mapped_by E m m'"
  by (auto simp: alloc_segment_def bind_eq_Some_conv split: prod.splits option.splits dest!: mapped_by_new_segments)

lemma mapped_by_allocate: "memcxt_allocate E ty p n m = Some (r, m') \<Longrightarrow> mapped_by E m m'"
  by (cases ty) (auto simp: bind_eq_Some_conv split: prod.splits
      dest: mapped_by_mmap mapped_by_alloc_bucket mapped_by_alloc_segment)

lemma mapped_by_release: "memcxt_release E ty p n m = Some m' \<Longrightarrow> mapped_by E m m'"
  by (cases ty; cases p)
    (auto simp: free_bucket_def free_segment_def bind_eq_Some_conv sri_munmap_def Let_def, auto simp: mapped_by_def)

section \<open>The table\<close>

lemma mapped_by_dir_set: "dir_set m d i v = Some m' \<Longrightarrow> mapped_by E m m'"
  by (auto simp: dir_set_def bind_eq_Some_conv)

lemma mapped_by_copy_dir: "copy_dir olddir newdir n m = Some m' \<Longrightarrow> mapped_by E m m'"
  by (induction n arbitrary: m') (auto simp: bind_eq_Some_conv intro: mapped_by_trans dest: mapped_by_dir_set)

lemma mapped_by_split_loop: "split_loop E t nb ob nw cur prv lst m = Some m' \<Longrightarrow> mapped_by E' m m'"
  apply (erule split_loop.raw_induct [where P = "\<lambda>E t nb ob nw cur prv lst m m'. mapped_by E' m m'", rotated])
  subgoal premises IH for f E t nb ob nw cur prv lst m m'
    using IH(2) by (auto simp: bind_eq_Some_conv Let_def split: option.splits if_splits dest!: IH(1))
  done

lemma mapped_by_delete_loop: "delete_loop E b k prv cur m = Some r \<Longrightarrow> mapped_by E m (snd r)"
  apply (erule delete_loop.raw_induct [where P = "\<lambda>E b k prv cur m r. mapped_by E m (snd r)", rotated])
  subgoal premises IH for f E b k prv cur m r
    using IH(2) by (auto simp: bind_eq_Some_conv unlink_bucket_def simp del: memcxt_release.simps
        split: option.splits if_splits dest!: IH(1) mapped_by_release)
  done

lemma mapped_by_ensure_segment: "ensure_segment E t i j m = Some (ok, t', m') \<Longrightarrow> mapped_by E m m'"
  by (auto simp del: memcxt_allocate.simps memcxt_release.simps simp: ensure_segment_def bind_eq_Some_conv split: if_splits
      dest!: mapped_by_allocate mapped_by_dir_set [where E = E]; blast intro: mapped_by_trans)

lemma mapped_by_expand_directory: "metadata_expand_directory E t m = Some (ok, t', m') \<Longrightarrow> mapped_by E m m'"
  by (auto simp del: memcxt_allocate.simps memcxt_release.simps simp: metadata_expand_directory_def bind_eq_Some_conv Let_def split: if_splits option.splits prod.splits
      dest!: mapped_by_allocate mapped_by_copy_dir [where E = E] mapped_by_release; blast intro: mapped_by_trans)

lemma mapped_by_expand_table: "metadata_expand_table E t m = Some (ok, t', m') \<Longrightarrow> mapped_by E m m'"
  by (auto simp del: memcxt_allocate.simps memcxt_release.simps simp: metadata_expand_table_def bind_eq_Some_conv Let_def split: if_splits option.splits
      dest!: mapped_by_expand_directory mapped_by_ensure_segment mapped_by_split_loop [where E' = E]; blast intro: mapped_by_trans)

lemma mapped_by_add: "metadata_add E t r m = Some (ok, t', m') \<Longrightarrow> mapped_by E m m'"
  by (auto simp del: memcxt_allocate.simps memcxt_release.simps simp: metadata_add_def metadata_expand_check_def bind_eq_Some_conv Let_def split: if_splits
      dest!: mapped_by_expand_table)

lemma mapped_by_contract_directory: "metadata_contract_directory E t m = Some (t', m') \<Longrightarrow> mapped_by E m m'"
  by (auto simp del: memcxt_allocate.simps memcxt_release.simps simp: metadata_contract_directory_def bind_eq_Some_conv Let_def split: if_splits prod.splits
      dest!: mapped_by_allocate mapped_by_copy_dir [where E = E] mapped_by_release; blast intro: mapped_by_trans)

lemma mapped_by_move_buckets: "move_buckets a b m = Some m' \<Longrightarrow> mapped_by E m m'"
  by (auto simp del: memcxt_allocate.simps memcxt_release.simps simp: move_buckets_def bind_eq_Some_conv split: option.splits)

lemma mapped_by_reclaim:
  assumes "(if d then do {
      slot \<leftarrow> dir_get m dir i;
      s \<leftarrow> slot;
      m \<leftarrow> memcxt_release E SEGMENT (VSeg s) sizeof_segment m;
      m \<leftarrow> dir_set m dir i None;
      Some (t\<lparr>directory_current := directory_current t - 1\<rparr>, m) } else Some (t, m)) = Some (t', m')"
  shows "mapped_by E m m'"
  using assms by (auto simp del: memcxt_release.simps simp: bind_eq_Some_conv split: if_splits
      dest!: mapped_by_release mapped_by_dir_set [where E = E]; blast intro: mapped_by_trans)

lemma mapped_by_contract_table:
  assumes "metadata_contract_table E t m = Some (t', m')"
  shows "mapped_by E m m'"
proof -
  obtain t1 m1 b c m2 d dir i t2 where
    1: "(if directory_length t > initial_directory_length (cfg t) \<and> directory_current t < directory_length t div 2
         then metadata_contract_directory E t m else Some (t, m)) = Some (t1, m1)" and
    2: "move_buckets b c m1 = Some m2" and
    3: "(if d then do {
        slot \<leftarrow> dir_get m2 dir i;
        s \<leftarrow> slot;
        m \<leftarrow> memcxt_release E SEGMENT (VSeg s) sizeof_segment m2;
        m \<leftarrow> dir_set m dir i None;
        Some (t1\<lparr>directory_current := directory_current t1 - 1\<rparr>, m) } else Some (t1, m2)) = Some (t2, m')"
    using assms unfolding metadata_contract_table_def Let_def
    by (elim bindE) (auto simp only: option.inject prod.inject)
  have "mapped_by E m m1" using 1 by (auto split: if_splits dest: mapped_by_contract_directory)
  moreover have "mapped_by E m1 m2" using 2 by (rule mapped_by_move_buckets)
  moreover have "mapped_by E m2 m'" using 3 by (rule mapped_by_reclaim)
  ultimately show ?thesis by (blast intro: mapped_by_trans)
qed

lemma mapped_by_delete:
  assumes "metadata_delete E t k m = Some (r, t', m')"
  shows "mapped_by E m m'"
proof -
  obtain b found m1 where
    1: "delete_loop E b k None (get_bin m b) m = Some (found, m1)" and
    2: "(if found then do {
        (lhtbl, m) \<leftarrow> metadata_contract_check E (t\<lparr>tcount := tcount t - 1\<rparr>) m1;
        Some (True, lhtbl, m) } else Some (False, t, m1)) = Some (r, t', m')"
    using assms unfolding metadata_delete_def Let_def
    by (elim bindE) (rule that; assumption)
  have "mapped_by E m m1" using mapped_by_delete_loop [OF 1] by simp
  moreover have "mapped_by E m1 m'"
    using 2 unfolding metadata_contract_check_def
    by (auto simp: bind_eq_Some_conv simp del: split_paired_Ex split: if_splits elim!: mapped_by_contract_table)
  ultimately show ?thesis by (rule mapped_by_trans)
qed

lemma mapped_by_lookup: "metadata_lookup E t k m = Some (r, m') \<Longrightarrow> mapped_by E m m'"
  unfolding metadata_lookup_def Let_def
  by (elim bindE) (simp split: if_splits option.splits, elim bindE, clarsimp)

end
