(* ===== verification/Malloc_View.thy ===== *)
theory Malloc_View
  imports Malloc_Alloc Metadata_Regions
begin

text \<open>
  What the operations on an arena see of its metadata: \<open>info av p\<close> is the \<open>chunkinfo\<close> that \<open>p\<close> points to
  without the fields that belong to the hash table and the pools, and \<open>meta_ok E n av T\<close> says that the table
  of the arena holds exactly the chunks of \<open>T\<close>, a map from addresses, with room for \<open>n\<close> more and a kernel
  that serves the metadata. The three accesses \<open>lookup_chunk\<close>, \<open>register_chunk\<close> and \<open>unregister_chunk\<close>
  are proved against \<open>T\<close>; every other write of \<open>malloc.c\<close> is an update of the function \<open>info\<close>.
\<close>

section \<open>The view\<close>

definition info :: "'z mstate_scheme \<Rightarrow> bptr \<Rightarrow> chunkinfo" where
  "info av p = (ci av p)\<lparr>next_bucket := None, bucket_pool_ptr := 0\<rparr>"

definition known :: "ci_env \<Rightarrow> 'z mstate_scheme \<Rightarrow> bptr set" where
  "known E av = {p. bpool_of p = bins_base av} \<union> live_buckets E (memory av)"

definition entry_lists :: "(u64 \<Rightarrow> bptr option) \<Rightarrow> u64 \<Rightarrow> bptr list" where
  "entry_lists T k = (case T k of None \<Rightarrow> [] | Some c \<Rightarrow> [c])"

definition meta_ok :: "ci_env \<Rightarrow> nat \<Rightarrow> 'z mstate_scheme \<Rightarrow> (u64 \<Rightarrow> bptr option) \<Rightarrow> bool" where
  "meta_ok E n av T \<longleftrightarrow>
     represents E (htbl av) (memory av) (entry_lists T) \<and> mmap_total E \<and> avoids E (bins_base av) \<and>
     bins_base av \<notin> regions (memory av) \<and>
     metadata_cache_count av = METADATA_CACHE_SIZE \<and> bincount (htbl av) + n \<le> 2 ^ 31 - 256"

text \<open>Everything but the memory of the metadata and the table is the same.\<close>

definition same_arena :: "'z mstate_scheme \<Rightarrow> 'z mstate_scheme \<Rightarrow> bool" where
  "same_arena av av' \<longleftrightarrow> av' = av\<lparr>memory := memory av', htbl := htbl av'\<rparr>"

lemma same_arena_refl [simp]: "same_arena av av"
  by (simp add: same_arena_def)

lemma same_arena_sel:
  assumes "same_arena av av'"
  shows "flags av' = flags av" "fastbinsY av' = fastbinsY av" "md_top av' = md_top av" "initial_top av' = initial_top av"
    "last_remainder av' = last_remainder av" "bins_base av' = bins_base av" "bin_heads av' = bin_heads av"
    "bin_map av' = bin_map av" "system_mem av' = system_mem av" "max_system_mem av' = max_system_mem av"
    "arena_index av' = arena_index av" "is_main av' = is_main av" "metadata_pool_ready av' = metadata_pool_ready av"
    "metadata_cache av' = metadata_cache av" "metadata_cache_count av' = metadata_cache_count av"
    "mstate.more av' = mstate.more av"
  using assms unfolding same_arena_def by (metis mstate.select_convs mstate.surjective mstate.update_convs(14,15))+

lemma live_not_bin:
  assumes "meta_ok E n av T" and "r \<in> live_buckets E (memory av)"
  shows "bpool_of r \<noteq> bins_base av"
proof -
  have "memcxt_ok E (memory av)" using assms(1) represents_ok(1) by (auto simp: meta_ok_def)
  then have "bpool_of r \<in> regions (memory av)" using assms(2) by (rule live_bucket_mapped)
  then show ?thesis using assms(1) by (auto simp: meta_ok_def)
qed

section \<open>Writes\<close>

lemma info_ci_upd:
  assumes "\<And>c. next_bucket (f c) = next_bucket c" and "\<And>c. bucket_pool_ptr (f c) = bucket_pool_ptr c"
    and "\<And>c. (f c)\<lparr>next_bucket := None, bucket_pool_ptr := 0\<rparr> = f (c\<lparr>next_bucket := None, bucket_pool_ptr := 0\<rparr>)"
  shows "info (ci_upd f p av) = (info av)(p := f (info av p))"
proof
  fix q
  show "info (ci_upd f p av) q = ((info av)(p := f (info av p))) q"
    by (cases p; cases q) (auto simp: info_def ci_def ci_upd_def assms(3))
qed

lemma info_writes [simp]:
  "info (w_size v p av) = (info av)(p := (info av p)\<lparr>csize := v\<rparr>)"
  "info (w_prev_size v p av) = (info av)(p := (info av p)\<lparr>prev_size := v\<rparr>)"
  "info (w_fd r p av) = (info av)(p := (info av p)\<lparr>fd := r\<rparr>)"
  "info (w_bk r p av) = (info av)(p := (info av p)\<lparr>bk := r\<rparr>)"
  "info (w_fd_nextsize r p av) = (info av)(p := (info av p)\<lparr>fd_nextsize := r\<rparr>)"
  "info (w_bk_nextsize r p av) = (info av)(p := (info av p)\<lparr>bk_nextsize := r\<rparr>)"
  "info (w_md_next r p av) = (info av)(p := (info av p)\<lparr>md_next := r\<rparr>)"
  "info (w_md_prev r p av) = (info av)(p := (info av p)\<lparr>md_prev := r\<rparr>)"
  by (simp_all add: info_ci_upd)

lemma info_sel:
  "chunk (ci av p) = chunk (info av p)" "prev_size (ci av p) = prev_size (info av p)"
  "csize (ci av p) = csize (info av p)" "fd (ci av p) = fd (info av p)" "bk (ci av p) = bk (info av p)"
  "fd_nextsize (ci av p) = fd_nextsize (info av p)" "bk_nextsize (ci av p) = bk_nextsize (info av p)"
  "md_next (ci av p) = md_next (info av p)" "md_prev (ci av p) = md_prev (info av p)"
  by (simp_all add: info_def)

lemma ci_upd_sel [simp]:
  "flags (ci_upd f p av) = flags av" "fastbinsY (ci_upd f p av) = fastbinsY av" "md_top (ci_upd f p av) = md_top av"
  "initial_top (ci_upd f p av) = initial_top av" "last_remainder (ci_upd f p av) = last_remainder av"
  "bins_base (ci_upd f p av) = bins_base av" "bin_map (ci_upd f p av) = bin_map av"
  "system_mem (ci_upd f p av) = system_mem av" "max_system_mem (ci_upd f p av) = max_system_mem av"
  "is_main (ci_upd f p av) = is_main av" "metadata_cache_count (ci_upd f p av) = metadata_cache_count av"
  "metadata_pool_ready (ci_upd f p av) = metadata_pool_ready av" "htbl (ci_upd f p av) = htbl av"
  "mstate.more (ci_upd f p av) = mstate.more av"
  by (simp_all add: ci_upd_def)

text \<open>Fields that the table does not use.\<close>

definition table_blind :: "(chunkinfo \<Rightarrow> chunkinfo) \<Rightarrow> bool" where
  "table_blind f \<longleftrightarrow> (\<forall>c. next_bucket (f c) = next_bucket c \<and> bucket_pool_ptr (f c) = bucket_pool_ptr c \<and>
     chunk (f c) = chunk c)"

lemma table_blind_writes [simp]:
  "table_blind (csize_update g)" "table_blind (prev_size_update g)" "table_blind (fd_update h)"
  "table_blind (bk_update h)" "table_blind (fd_nextsize_update h)" "table_blind (bk_nextsize_update h)"
  "table_blind (md_next_update h)" "table_blind (md_prev_update h)"
  by (simp_all add: table_blind_def)

lemma represents_blind:
  assumes rep: "represents E t m c" and f: "table_blind f"
  shows "represents E t (m\<lparr>bheap := (bheap m)(r := f (bheap m r))\<rparr>) c"
proof -
  obtain B where B: "table_rep E t m B" "c = key_list E t m B" using rep by (rule representsE)
  note R = table_repD [OF B(1)]
  let ?m = "m\<lparr>bheap := (bheap m)(r := f (bheap m r))\<rparr>"
  have b: "next_bucket (bheap ?m s) = next_bucket (bheap m s)" "chunk (bheap ?m s) = chunk (bheap m s)"
    "bucket_pool_ptr (bheap ?m s) = bucket_pool_ptr (bheap m s)" for s
    using f by (auto simp: table_blind_def)
  have sp: "same_pools m ?m" using b(3) by (simp add: same_pools_def)
  have "memcxt_ok E ?m" by (rule same_pools_ok [OF sp R(1)]) (use memcxt_ok_env(5) [OF R(1)] in simp_all)
  moreover have "free_segments_clear E ?m"
    using R(2) same_pools_simps [OF sp] by (simp add: free_segments_clear_def)
  moreover have seg: "seg_at t ?m = seg_at t m" "cell_of t ?m = cell_of t m"
    by (simp_all add: seg_at_def cell_of_def fun_eq_iff)
  moreover have "dir_ok E t ?m" using R(4) same_pools_simps [OF sp] by (simp add: dir_ok_def seg)
  moreover have "bins_ok E t ?m B"
  proof -
    have "get_next ?m = get_next m" using b(1) by (simp add: get_next_def fun_eq_iff)
    moreover have "get_bin ?m = get_bin m" by (simp add: get_bin_def fun_eq_iff)
    ultimately show ?thesis
      using R(5) same_pools_simps [OF sp] b(2) unfolding bins_ok_def seg by simp
  qed
  ultimately have "table_rep E t ?m B" using R(3,6) by (simp add: table_rep_def)
  moreover have "key_list E t ?m B k = c k" for k using b(2) by (simp add: B(2) key_list_def)
  ultimately show ?thesis by (rule representsI)
qed

lemma live_buckets_ci_upd [simp]: "live_buckets E (memory (ci_upd f p av)) = live_buckets E (memory av)"
  by (simp add: ci_upd_def live_buckets_def)

lemma regions_ci_upd [simp]: "regions (memory (ci_upd f p av)) = regions (memory av)"
  by (simp add: ci_upd_def)

lemma known_ci_upd [simp]: "known E (ci_upd f p av) = known E av"
  by (simp add: known_def)

lemma meta_ok_ci_upd:
  assumes f: "table_blind f" and ok: "meta_ok E n av T"
  shows "meta_ok E n (ci_upd f p av) T"
proof -
  have "represents E (htbl av) (memory (ci_upd f p av)) (entry_lists T)"
  proof (cases "bpool_of p = bins_base av")
    case True
    then show ?thesis using ok by (simp add: ci_upd_def meta_ok_def)
  next
    case False
    then show ?thesis
      using represents_blind [OF _ f, of E "htbl av" "memory av" "entry_lists T" p] ok by (simp add: ci_upd_def meta_ok_def)
  qed
  then show ?thesis using ok by (simp add: meta_ok_def)
qed

section \<open>The table\<close>

text \<open>The arena as a function \<open>h\<close> on the pointers \<open>K\<close>, with the table \<open>T\<close>.\<close>

definition sees ::
  "ci_env \<Rightarrow> nat \<Rightarrow> 'z mstate_scheme \<Rightarrow> (u64 \<Rightarrow> bptr option) \<Rightarrow> bptr set \<Rightarrow> (bptr \<Rightarrow> chunkinfo) \<Rightarrow> bool" where
  "sees E n av T K h \<longleftrightarrow> meta_ok E n av T \<and> known E av = K \<and> (\<forall>q \<in> K. info av q = h q)"

lemma sees_sel:
  assumes "sees E n av T K h" and "p \<in> K"
  shows "chunk (ci av p) = chunk (h p)" "prev_size (ci av p) = prev_size (h p)" "csize (ci av p) = csize (h p)"
    "fd (ci av p) = fd (h p)" "bk (ci av p) = bk (h p)" "fd_nextsize (ci av p) = fd_nextsize (h p)"
    "bk_nextsize (ci av p) = bk_nextsize (h p)" "md_next (ci av p) = md_next (h p)" "md_prev (ci av p) = md_prev (h p)"
  using assms by (simp_all add: sees_def info_sel)

lemma sees_upd:
  assumes "sees E n av T K h" and "table_blind f" and "info (ci_upd f p av) = (info av)(p := f (info av p))"
  shows "sees E n (ci_upd f p av) T K (h(p := f (h p)))"
  using assms meta_ok_ci_upd [OF assms(2), of E n av T p] unfolding sees_def by auto

lemma sees_writes:
  assumes "sees E n av T K h"
  shows "sees E n (w_size v p av) T K (h(p := (h p)\<lparr>csize := v\<rparr>))"
    "sees E n (w_prev_size v p av) T K (h(p := (h p)\<lparr>prev_size := v\<rparr>))"
    "sees E n (w_fd r p av) T K (h(p := (h p)\<lparr>fd := r\<rparr>))"
    "sees E n (w_bk r p av) T K (h(p := (h p)\<lparr>bk := r\<rparr>))"
    "sees E n (w_fd_nextsize r p av) T K (h(p := (h p)\<lparr>fd_nextsize := r\<rparr>))"
    "sees E n (w_bk_nextsize r p av) T K (h(p := (h p)\<lparr>bk_nextsize := r\<rparr>))"
    "sees E n (w_md_next r p av) T K (h(p := (h p)\<lparr>md_next := r\<rparr>))"
    "sees E n (w_md_prev r p av) T K (h(p := (h p)\<lparr>md_prev := r\<rparr>))"
  using assms by (auto intro!: sees_upd)

lemma sees_more: "sees E n av T K h \<Longrightarrow> m \<le> n \<Longrightarrow> sees E m av T K h"
  unfolding sees_def meta_ok_def by auto

lemma sees_cong: "sees E n av T K h \<Longrightarrow> (\<And>q. q \<in> K \<Longrightarrow> h q = h' q) \<Longrightarrow> sees E n av T K h'"
  by (simp add: sees_def)

text \<open>Changes of the other fields of the arena.\<close>

lemma sees_same:
  assumes "sees E n av T K h" and "memory av' = memory av" "htbl av' = htbl av" "bins_base av' = bins_base av"
    "bin_heads av' = bin_heads av" "metadata_cache_count av' = metadata_cache_count av"
  shows "sees E n av' T K h"
proof -
  have "info av' = info av" using assms(2,4,5) by (simp add: info_def ci_def fun_eq_iff)
  then show ?thesis using assms unfolding sees_def meta_ok_def known_def by simp
qed

lemma kept_info:
  assumes "kept E (memory av) m'" and "r \<in> known E av" and "bins_base av' = bins_base av" "bin_heads av' = bin_heads av"
    and "memory av' = m'"
  shows "info av' r = info av r"
proof (cases "bpool_of r = bins_base av")
  case False
  then have "r \<in> live_buckets E (memory av)" using assms(2) by (simp add: known_def)
  then have "(bheap m' r)\<lparr>next_bucket := None\<rparr> = (bheap (memory av) r)\<lparr>next_bucket := None\<rparr>"
    using assms(1) by (simp add: kept_def)
  then have "((bheap m' r)\<lparr>next_bucket := None\<rparr>)\<lparr>bucket_pool_ptr := 0\<rparr> =
      ((bheap (memory av) r)\<lparr>next_bucket := None\<rparr>)\<lparr>bucket_pool_ptr := 0\<rparr>" by simp
  then show ?thesis using False assms(3,5) by (simp add: info_def ci_def)
qed (use assms in \<open>simp add: info_def ci_def\<close>)

lemma lookup_chunk_run:
  assumes ok: "sees E n av T K h" and p: "p \<noteq> 0"
  shows "\<exists>av'. lookup_chunk E p av = Some (T p, av') \<and> sees E n av' T K h \<and> same_arena av av'"
proof -
  have M: "meta_ok E n av T" using ok by (simp add: sees_def)
  obtain m' where m': "metadata_lookup E (htbl av) p (memory av) =
      Some (case entry_lists T p of [] \<Rightarrow> None | r # _ \<Rightarrow> Some r, m')"
    "represents E (htbl av) m' (entry_lists T)" "live_buckets E m' = live_buckets E (memory av)" "kept E (memory av) m'"
    using lookup_correct [of E "htbl av" "memory av" "entry_lists T" p] M by (auto simp: meta_ok_def)
  let ?av = "av\<lparr>memory := m'\<rparr>"
  have reg: "bins_base av \<notin> regions m'"
    using mapped_by_avoids [OF mapped_by_lookup [OF m'(1)]] M by (simp add: meta_ok_def)
  have "(case entry_lists T p of [] \<Rightarrow> None | r # _ \<Rightarrow> Some r) = T p"
    by (simp add: entry_lists_def split: option.split)
  then have "lookup_chunk E p av = Some (T p, ?av)"
    using p m'(1) by (simp add: lookup_chunk_def chunk2mem_def HEADER_SIZE_def)
  moreover have "meta_ok E n ?av T" using M m'(2,3) reg by (simp add: meta_ok_def)
  moreover have "known E ?av = known E av" using m'(3) by (simp add: known_def)
  moreover have "info ?av q = info av q" if "q \<in> known E av" for q
    by (rule kept_info [OF m'(4) that]) simp_all
  ultimately show ?thesis using ok by (auto simp: sees_def same_arena_def)
qed

lemma lookup_chunkD:
  assumes "lookup_chunk E p av = Some (r, av')" and "sees E n av T K h"
  shows "r = T p" and "sees E n av' T K h" and "same_arena av av'"
proof -
  have "p \<noteq> 0" using assms(1) by (auto simp: lookup_chunk_def bind_assert_eq_Some_iff)
  from lookup_chunk_run [OF assms(2) this] show "r = T p" and "sees E n av' T K h" and "same_arena av av'"
    using assms(1) by auto
qed

lemma unregister_chunkD:
  assumes run: "unregister_chunk E p av = Some (r, av')" and ok: "sees E n av T K h" and t: "T p = Some c"
  shows "r" and "sees E n av' (T(p := None)) (K - {c}) h" and "same_arena av av'"
proof -
  have M: "meta_ok E n av T" using ok by (simp add: sees_def)
  have sh: "can_shrink E (htbl av)" using M by (simp add: meta_ok_def can_shrink_def)
  obtain t' m' where d: "metadata_delete E (htbl av) p (memory av) = Some (entry_lists T p \<noteq> [], t', m')"
    "represents E t' m' ((entry_lists T)(p := tl (entry_lists T p)))"
    "live_buckets E m' = live_buckets E (memory av) - set (take 1 (entry_lists T p))" "bincount t' \<le> bincount (htbl av)"
    "\<forall>r \<in> live_buckets E m'. (bheap m' r)\<lparr>next_bucket := None\<rparr> = (bheap (memory av) r)\<lparr>next_bucket := None\<rparr>"
    using delete_correct [OF _ sh, of "memory av" "entry_lists T" p] M by (auto simp: meta_ok_def)
  have e: "entry_lists T p = [c]" "(entry_lists T)(p := []) = entry_lists (T(p := None))"
    using t by (auto simp: entry_lists_def)
  have cl: "c \<in> live_buckets E (memory av)"
    using represents_ok(4) [of E "htbl av" "memory av" "entry_lists T" c p] M e(1) by (simp add: meta_ok_def)
  then have cb: "bpool_of c \<noteq> bins_base av" by (rule live_not_bin [OF M])
  have reg: "bins_base av \<notin> regions m'"
    using mapped_by_avoids [OF mapped_by_delete [OF d(1)]] M by (simp add: meta_ok_def)
  let ?av = "av\<lparr>htbl := t', memory := m'\<rparr>"
  have lv: "live_buckets E m' = live_buckets E (memory av) - {c}" using d(3) e(1) by simp
  have "p \<noteq> 0" using run by (auto simp: unregister_chunk_def bind_assert_eq_Some_iff)
  then have ev: "r" "av' = ?av"
    using run d(1) e(1) by (auto simp: unregister_chunk_def chunk2mem_def HEADER_SIZE_def)
  have "meta_ok E n ?av (T(p := None))"
    using M d(2,4) e reg by (simp add: meta_ok_def)
  moreover have "known E ?av = known E av - {c}"
    using lv cb by (auto simp: known_def)
  moreover have "info ?av q = info av q" if "q \<in> known E av - {c}" for q
  proof (cases "bpool_of q = bins_base av")
    case False
    then have "q \<in> live_buckets E m'" using that lv by (simp add: known_def)
    then have "((bheap m' q)\<lparr>next_bucket := None\<rparr>)\<lparr>bucket_pool_ptr := 0\<rparr> =
        ((bheap (memory av) q)\<lparr>next_bucket := None\<rparr>)\<lparr>bucket_pool_ptr := 0\<rparr>" using d(5) by simp
    then show ?thesis using False by (simp add: info_def ci_def)
  qed (simp add: info_def ci_def)
  ultimately show "r" and "sees E n av' (T(p := None)) (K - {c}) h" and "same_arena av av'"
    using ok ev by (auto simp: sees_def same_arena_def)
qed

definition fresh_info :: "u64 \<Rightarrow> chunkinfo" where
  "fresh_info k = zero_chunkinfo\<lparr>chunk := k\<rparr>"

lemma register_chunk_run:
  assumes ok: "sees E (Suc n) av T K h" and t: "T p = None"
  shows "\<exists>c av'. register_chunk E p av = Some (c, av') \<and> c \<notin> K \<and>
    sees E n av' (T(p \<mapsto> c)) (insert c K) (h(c := fresh_info p)) \<and> same_arena av av'"
proof -
  have M: "meta_ok E (Suc n) av T" using ok by (simp add: sees_def)
  have rep: "represents E (htbl av) (memory av) (entry_lists T)" and tot: "mmap_total E" using M by (simp_all add: meta_ok_def)
  obtain r m1 where a: "alloc_bucket E (memory av) = Some (Some r, m1)" "represents E (htbl av) m1 (entry_lists T)"
    "r \<notin> live_buckets E (memory av)" "live_buckets E m1 = insert r (live_buckets E (memory av))"
    "\<And>k. r \<notin> set (entry_lists T k)" "kept E (memory av) m1"
    by (rule alloc_bucket_represents [OF rep]) (use tot in auto)
  define b where "b = ((bheap m1 r)\<lparr>prev_size := 0, csize := 0, fd := None, bk := None,
      fd_nextsize := None, bk_nextsize := None, chunk := 0, md_next := None, md_prev := None,
      next_bucket := None\<rparr>)"
  have reg1: "bins_base av \<notin> regions m1"
    using mapped_by_avoids [OF mapped_by_alloc_bucket [OF a(1)]] M by (simp add: meta_ok_def)
  have "bpool_of r \<in> regions m1"
    using live_bucket_mapped [OF represents_ok(1) [OF a(2)], of r] a(4) by simp
  then have rb: "bpool_of r \<noteq> bins_base av" using reg1 by auto
  let ?m = "m1\<lparr>bheap := (bheap m1)(r := b\<lparr>chunk := p\<rparr>)\<rparr>"
  have rep1: "represents E (htbl av) ?m (entry_lists T)"
    by (rule represents_bucket_upd [OF a(2,5)]) (simp add: b_def)
  have lb: "live_buckets E ?m = insert r (live_buckets E (memory av))" using a(4) by (simp add: live_buckets_def)
  obtain t' m' where d: "metadata_add E (htbl av) r ?m = Some (True, t', m')"
    "represents E t' m' ((entry_lists T)(p := r # entry_lists T p))" "live_buckets E m' = live_buckets E ?m"
    "kept E ?m m'" "bincount t' \<le> bincount (htbl av) + 1"
    using add_correct [OF rep1 _ a(5)] lb M tot by (auto simp: meta_ok_def)
  have new: "new_chunkinfoptr E av = Some (Some r, av\<lparr>memory := m1\<lparr>bheap := (bheap m1)(r := b)\<rparr>\<rparr>)"
    using M a(1) by (simp add: new_chunkinfoptr_def allocate_chunkinfoptr_def meta_ok_def METADATA_CACHE_SIZE_def b_def Let_def)
  define c where "c = r"
  define av' where "av' = av\<lparr>memory := m', htbl := t'\<rparr>"
  note ev = c_def av'_def
  have run: "register_chunk E p av = Some (c, av')"
    using d(1) rb unfolding register_chunk_def new ev
    by (auto simp: ci_upd_def chunk2mem_def HEADER_SIZE_def assert_c_def Let_def)
  have e: "(entry_lists T)(p := r # entry_lists T p) = entry_lists (T(p \<mapsto> r))"
    using t by (auto simp: entry_lists_def)
  have reg: "bins_base av \<notin> regions m'"
    using mapped_by_avoids [OF mapped_by_add [OF d(1)]] reg1 M by (simp add: meta_ok_def)
  have "meta_ok E n av' (T(p \<mapsto> c))" using M d(2,5) e reg ev by (simp add: meta_ok_def)
  moreover have "known E av' = insert c (known E av)" using d(3) lb ev by (auto simp: known_def)
  moreover have nk: "c \<notin> known E av" using a(3) rb ev by (simp add: known_def)
  moreover have "info av' q = info av q" if "q \<in> known E av" for q
  proof (cases "bpool_of q = bins_base av")
    case False
    then have q: "q \<in> live_buckets E (memory av)" "q \<noteq> r" using that nk ev by (auto simp: known_def)
    then have "(bheap m' q)\<lparr>next_bucket := None\<rparr> = (bheap (memory av) q)\<lparr>next_bucket := None\<rparr>"
      using d(4) a(6) lb by (simp add: kept_def)
    then have "((bheap m' q)\<lparr>next_bucket := None\<rparr>)\<lparr>bucket_pool_ptr := 0\<rparr> =
        ((bheap (memory av) q)\<lparr>next_bucket := None\<rparr>)\<lparr>bucket_pool_ptr := 0\<rparr>" by simp
    then show ?thesis using False ev by (simp add: info_def ci_def)
  qed (simp add: info_def ci_def ev)
  moreover have "info av' c = fresh_info p"
  proof -
    have "(bheap m' r)\<lparr>next_bucket := None\<rparr> = (b\<lparr>chunk := p\<rparr>)\<lparr>next_bucket := None\<rparr>"
      using d(4) lb by (simp add: kept_def)
    then have "((bheap m' r)\<lparr>next_bucket := None\<rparr>)\<lparr>bucket_pool_ptr := 0\<rparr> = fresh_info p"
      by (simp add: b_def fresh_info_def zero_chunkinfo_def)
    then show ?thesis using rb ev by (simp add: info_def ci_def)
  qed
  ultimately show ?thesis using ok run by (auto simp: sees_def same_arena_def ev)
qed

lemma register_chunkD:
  assumes "register_chunk E p av = Some (c, av')" and "sees E (Suc n) av T K h" and "T p = None"
  shows "c \<notin> K" and "sees E n av' (T(p \<mapsto> c)) (insert c K) (h(c := fresh_info p))" and "same_arena av av'"
  using register_chunk_run [OF assms(2,3)] assms(1) by auto

end
