(* ===== verification/Malloc_Chain.thy ===== *)
theory Malloc_Chain
  imports Malloc_View
begin

text \<open>
  The chunks of an arena as a structure: the part of the invariant that concerns addresses, sizes, the
  bit \<open>PREV_INUSE\<close>, \<open>prev_size\<close>, the links \<open>md_next\<close> and \<open>md_prev\<close>, and the table. It is stated on the
  fields as functions of the pointer, and kept by the four changes that the code is made of: a free chunk
  is taken (\<open>take\<close>), a used one released, a used one split in two, and a used one joined with the next.
\<close>

section \<open>Sizes with flags\<close>

definition size_of :: "u64 \<Rightarrow> nat" where
  "size_of s = unat (s AND NOT SIZE_BITS)"

definition pinuse :: "u64 \<Rightarrow> bool" where
  "pinuse s \<longleftrightarrow> s AND PREV_INUSE = PREV_INUSE"

definition mmapped_bit :: "u64 \<Rightarrow> bool" where
  "mmapped_bit s \<longleftrightarrow> s AND IS_MMAPPED = IS_MMAPPED"

lemma SIZE_BITS_mask: "SIZE_BITS = mask 2"
  by (simp add: SIZE_BITS_def PREV_INUSE_def IS_MMAPPED_def mask_eq_exp_minus_1)

lemma pinuse_bit: "pinuse s \<longleftrightarrow> bit s 0"
  by (simp add: pinuse_def PREV_INUSE_def and_one_eq mod2_eq_if bit_0)

lemma mmapped_bit_bit: "mmapped_bit s \<longleftrightarrow> bit s 1"
proof -
  have two: "IS_MMAPPED = push_bit 1 1" by (simp add: IS_MMAPPED_def)
  have b: "bit IS_MMAPPED n \<longleftrightarrow> n = 1" for n unfolding two by (auto simp: bit_simps)
  have "s AND IS_MMAPPED = IS_MMAPPED \<Longrightarrow> bit s 1" using b [of 1] by (metis bit_and_iff)
  moreover have "s AND IS_MMAPPED = IS_MMAPPED" if "bit s 1"
    using that by (intro bit_eqI) (auto simp: bit_and_iff b)
  ultimately show ?thesis by (auto simp: mmapped_bit_def)
qed

lemma size_of_eq: "size_of s = unat s div 4 * 4"
  using unat_and_not_mask [of s 2] by (simp add: size_of_def SIZE_BITS_mask)

lemma size_of_or_1 [simp]: "size_of (s OR PREV_INUSE) = size_of s"
proof -
  have "(s OR PREV_INUSE) AND NOT SIZE_BITS = s AND NOT SIZE_BITS"
    unfolding SIZE_BITS_mask PREV_INUSE_def
    by (rule bit_eqI) (auto simp: bit_and_iff bit_or_iff bit_not_iff bit_mask_iff bit_1_iff)
  then show ?thesis by (simp add: size_of_def)
qed

lemma size_of_and_not_1 [simp]: "size_of (s AND NOT PREV_INUSE) = size_of s"
proof -
  have "(s AND NOT PREV_INUSE) AND NOT SIZE_BITS = s AND NOT SIZE_BITS"
    unfolding SIZE_BITS_mask PREV_INUSE_def
    by (rule bit_eqI) (auto simp: bit_and_iff bit_not_iff bit_mask_iff bit_1_iff)
  then show ?thesis by (simp add: size_of_def)
qed

lemma pinuse_simps [simp]: "pinuse (s OR PREV_INUSE)" "\<not> pinuse (s AND NOT PREV_INUSE)"
  by (simp_all add: pinuse_bit bit_or_iff bit_and_iff bit_not_iff bit_1_iff PREV_INUSE_def)

lemma mmapped_bit_simps [simp]:
  "mmapped_bit (s OR PREV_INUSE) = mmapped_bit s" "mmapped_bit (s AND NOT PREV_INUSE) = mmapped_bit s"
  by (simp_all add: mmapped_bit_bit bit_or_iff bit_and_iff bit_not_iff bit_1_iff PREV_INUSE_def)

lemma aligned_size:
  assumes "16 dvd unat s"
  shows "size_of s = unat s" and "\<not> mmapped_bit s" and "\<not> pinuse s"
proof -
  have d: "4 dvd unat s" using assms by (rule dvd_trans [rotated]) simp
  then show "size_of s = unat s" by (simp add: size_of_eq)
  then have m: "s AND NOT (mask 2) = s" using unat_and_not_mask [of s 2] by (simp add: word_unat_eq_iff size_of_eq)
  have "\<not> bit s n" if "n < 2" for n
  proof -
    have "bit s n = bit (s AND NOT (mask 2)) n" by (simp add: m)
    then show ?thesis using that by (simp add: bit_and_iff bit_not_iff bit_mask_iff)
  qed
  then show "\<not> mmapped_bit s" and "\<not> pinuse s" by (simp_all add: mmapped_bit_bit pinuse_bit)
qed

lemma set_pinuse_again:
  "pinuse s \<Longrightarrow> s OR PREV_INUSE = s" "\<not> pinuse s \<Longrightarrow> (s OR PREV_INUSE) AND NOT PREV_INUSE = s"
  unfolding pinuse_bit
  by (rule bit_eqI; auto simp: bit_or_iff bit_and_iff bit_not_iff bit_1_iff PREV_INUSE_def intro: gr0I)+

section \<open>The structure\<close>

text \<open>
  \<open>A\<close>, \<open>S\<close>, \<open>P\<close>, \<open>N\<close>, \<open>V\<close> are the fields \<open>chunk\<close>, \<open>size\<close>, \<open>prev_size\<close>, \<open>md_next\<close>, \<open>md_prev\<close>. \<open>H\<close> are the
  chunks of the heap (the table \<open>T\<close> may hold others, which are mapped), \<open>F\<close> the free ones among them other
  than \<open>t\<close>, the top, and \<open>G\<close> the fence posts.
\<close>

definition start :: "(bptr \<Rightarrow> u64) \<Rightarrow> bptr \<Rightarrow> nat" where
  "start A c = unat (A c)"

definition apart :: "(bptr \<Rightarrow> u64) \<Rightarrow> (bptr \<Rightarrow> u64) \<Rightarrow> bptr \<Rightarrow> bptr \<Rightarrow> bool" where
  "apart A S c d \<longleftrightarrow> start A c + max 1 (size_of (S c)) \<le> start A d \<or> start A d + max 1 (size_of (S d)) \<le> start A c"

definition region :: "(bptr \<Rightarrow> u64) \<Rightarrow> (bptr \<Rightarrow> u64) \<Rightarrow> bptr \<Rightarrow> nat set" where
  "region A S c = insert (start A c) {start A c ..< start A c + size_of (S c)}"

text \<open>
  The addresses of the chunks lie in the memory \<open>Z\<close> that the program has got from the system. (The initial
  top has the size \<open>0\<close> and stays in the table.)
\<close>

definition mapped_fits :: "u64 \<Rightarrow> bool" where
  "mapped_fits s \<longleftrightarrow> (mmapped_bit s \<longrightarrow> 32 \<le> size_of s)"

lemma mapped_fitsI [simp, intro]: "\<not> mmapped_bit s \<Longrightarrow> mapped_fits s" "32 \<le> size_of s \<Longrightarrow> mapped_fits s"
  by (simp_all add: mapped_fits_def)

definition table_fits where
  "table_fits Z A S T \<longleftrightarrow> (\<forall>k c. T k = Some c \<longrightarrow> A c = k) \<and>
     (\<forall>c \<in> ran T. \<forall>d \<in> ran T. c \<noteq> d \<longrightarrow> apart A S c d) \<and> (\<forall>c \<in> ran T. region A S c \<subseteq> Z) \<and> (\<forall>c \<in> ran T. mapped_fits (S c))"

definition sizes_fit where
  "sizes_fit A S H G \<longleftrightarrow> (\<forall>c \<in> H. 64 \<le> start A c \<and> 16 dvd start A c \<and> 16 dvd size_of (S c) \<and> 16 \<le> size_of (S c) \<and>
     start A c + size_of (S c) < 2 ^ 64 \<and> \<not> mmapped_bit (S c) \<and> (c \<notin> G \<longrightarrow> 32 \<le> size_of (S c)))"

definition links_fit where
  "links_fit A S N V H G \<longleftrightarrow>
     (\<forall>c \<in> H. \<forall>n. N c = Some n \<longrightarrow> n \<in> H \<and> V n = Some c \<and> (c \<notin> G \<longrightarrow> start A n = start A c + size_of (S c))) \<and>
     (\<forall>n \<in> H. \<forall>c. V n = Some c \<longrightarrow> c \<in> H \<and> N c = Some n)"

definition frees_fit where
  "frees_fit S P N H F t \<longleftrightarrow>
     (\<forall>c \<in> F. \<exists>n. N c = Some n \<and> n \<notin> F \<and> n \<noteq> t \<and> \<not> pinuse (S n) \<and> unat (P n) = size_of (S c)) \<and>
     (\<forall>n \<in> H. \<not> pinuse (S n) \<longrightarrow> (\<exists>c \<in> F. N c = Some n))"

definition ended where
  "ended N H G t \<longleftrightarrow> (\<forall>c \<in> H - G. N c = None \<longrightarrow> c = t)"

definition heap_ok where
  "heap_ok Z A S P N V T H F G t \<longleftrightarrow> t \<in> H \<and> t \<notin> F \<and> t \<notin> G \<and> F \<subseteq> H \<and> F \<inter> G = {} \<and> G \<subseteq> H \<and> H \<subseteq> ran T \<and> N t = None \<and>
     table_fits Z A S T \<and> sizes_fit A S H G \<and> links_fit A S N V H G \<and> frees_fit S P N H F t \<and> (\<forall>c \<in> ran T - H. N c = None \<and> P c = 0) \<and>
     ended N H G t"

lemma heap_okD:
  assumes "heap_ok Z A S P N V T H F G t"
  shows "t \<in> H" "t \<notin> F" "t \<notin> G" "F \<subseteq> H" "F \<inter> G = {}" "H \<subseteq> ran T" "N t = None"
    and "table_fits Z A S T" "sizes_fit A S H G" "links_fit A S N V H G" "frees_fit S P N H F t" "G \<subseteq> H"
    and "c \<in> ran T \<Longrightarrow> c \<notin> H \<Longrightarrow> N c = None" "c \<in> ran T \<Longrightarrow> c \<notin> H \<Longrightarrow> P c = 0"
    and "ended N H G t"
  using assms by (simp_all add: heap_ok_def)

lemma links_fitD:
  assumes "links_fit A S N V H G"
  shows "c \<in> H \<Longrightarrow> N c = Some n \<Longrightarrow> n \<in> H" "c \<in> H \<Longrightarrow> N c = Some n \<Longrightarrow> V n = Some c"
    and "c \<in> H \<Longrightarrow> N c = Some n \<Longrightarrow> c \<notin> G \<Longrightarrow> start A n = start A c + size_of (S c)"
    and "n \<in> H \<Longrightarrow> V n = Some c \<Longrightarrow> c \<in> H \<and> N c = Some n"
  using assms unfolding links_fit_def by blast+

lemma frees_fitD:
  assumes "frees_fit S P N H F t"
  shows "n \<in> H \<Longrightarrow> \<not> pinuse (S n) \<Longrightarrow> \<exists>c \<in> F. N c = Some n"
    and "c \<in> F \<Longrightarrow> N c = Some n \<Longrightarrow> n \<notin> F \<and> n \<noteq> t \<and> \<not> pinuse (S n) \<and> unat (P n) = size_of (S c)"
    and "c \<in> F \<Longrightarrow> \<exists>n. N c = Some n"
  using assms unfolding frees_fit_def by fastforce+

text \<open>Only the sizes count, not the flags.\<close>

lemma same_sizes:
  assumes "\<And>x. size_of (S' x) = size_of (S x)" and "\<And>x. mmapped_bit (S' x) = mmapped_bit (S x)"
  shows "table_fits Z A S' T = table_fits Z A S T" "sizes_fit A S' H G = sizes_fit A S H G"
    "links_fit A S' N V H G = links_fit A S N V H G"
  using assms by (simp_all add: table_fits_def sizes_fit_def links_fit_def apart_def region_def mapped_fits_def)

lemma take_ok:
  assumes ok: "heap_ok Z A S P N V T H F G t" and c: "c \<in> F" and n: "N c = Some n"
  shows "heap_ok Z A (S(n := S n OR PREV_INUSE)) P N V T H (F - {c}) G t"
proof -
  note D = heap_okD [OF ok] and L = links_fitD [OF heap_okD(10) [OF ok]] and R = frees_fitD [OF heap_okD(11) [OF ok]]
  let ?S = "S(n := S n OR PREV_INUSE)"
  have same: "size_of (?S x) = size_of (S x)" "mmapped_bit (?S x) = mmapped_bit (S x)" for x by simp_all
  have uniq: "c' = c" if "c' \<in> H" "N c' = Some n" for c'
    using L(2) [OF that] L(2) [of c n] c n D(4) by auto
  have "frees_fit ?S P N H (F - {c}) t"
    unfolding frees_fit_def
  proof (intro conjI ballI impI)
    fix c' assume c': "c' \<in> F - {c}"
    then obtain n' where n': "N c' = Some n'" using R(3) by blast
    then have "n' \<noteq> n" using uniq c' D(4) by blast
    then show "\<exists>m. N c' = Some m \<and> m \<notin> F - {c} \<and> m \<noteq> t \<and> \<not> pinuse (?S m) \<and> unat (P m) = size_of (?S c')"
      using R(2) [OF _ n'] c' n' by simp
  next
    fix x assume x: "x \<in> H" "\<not> pinuse (?S x)"
    then have "x \<noteq> n" "\<not> pinuse (S x)" by (auto split: if_splits)
    then show "\<exists>c' \<in> F - {c}. N c' = Some x" using R(1) [OF x(1)] n by auto
  qed
  then show ?thesis using D unfolding heap_ok_def same_sizes [OF same] by blast
qed

lemma release_ok:
  assumes ok: "heap_ok Z A S P N V T H F G t" and c: "c \<in> H" "c \<notin> G" "pinuse (S c)"
    and n: "N c = Some n" "n \<notin> F" "n \<noteq> t" and v: "unat v = size_of (S c)"
  shows "heap_ok Z A (S(n := S n AND NOT PREV_INUSE)) (P(n := v)) N V T H (insert c F) G t"
proof -
  note D = heap_okD [OF ok] and L = links_fitD [OF heap_okD(10) [OF ok]] and R = frees_fitD [OF heap_okD(11) [OF ok]]
  let ?S = "S(n := S n AND NOT PREV_INUSE)" and ?P = "P(n := v)"
  have same: "size_of (?S x) = size_of (S x)" "mmapped_bit (?S x) = mmapped_bit (S x)" for x by simp_all
  have uniq: "c' = c" if "c' \<in> H" "N c' = Some n" for c'
    using L(2) [OF that] L(2) [of c n] c n by auto
  have nc: "n \<noteq> c" using L(3) [OF c(1) n(1) c(2)] D(9) c(1) unfolding sizes_fit_def by fastforce
  have "frees_fit ?S ?P N H (insert c F) t"
    unfolding frees_fit_def
  proof (intro conjI ballI impI)
    fix c' assume c': "c' \<in> insert c F"
    show "\<exists>m. N c' = Some m \<and> m \<notin> insert c F \<and> m \<noteq> t \<and> \<not> pinuse (?S m) \<and> unat (?P m) = size_of (?S c')"
    proof (cases "c' = c")
      case True
      then show ?thesis using n nc v by simp
    next
      case False
      then have "c' \<in> F" using c' by simp
      then obtain n' where n': "N c' = Some n'" using R(3) by blast
      then have "n' \<noteq> n" using uniq False \<open>c' \<in> F\<close> D(4) by blast
      moreover have "n' \<noteq> c" using R(2) [OF \<open>c' \<in> F\<close> n'] c(3) by blast
      ultimately show ?thesis using R(2) [OF \<open>c' \<in> F\<close> n'] n' by simp
    qed
  next
    fix x assume x: "x \<in> H" "\<not> pinuse (?S x)"
    then show "\<exists>c' \<in> insert c F. N c' = Some x" using R(1) [OF x(1)] n by (cases "x = n") auto
  qed
  moreover have "c \<noteq> t" using n(1) D(7) by auto
  moreover have "\<forall>x \<in> ran T - H. N x = None \<and> ?P x = 0" using D(13,14) L(1) [OF c(1) n(1)] by auto
  ultimately show ?thesis using D(1-12) D(15) c(1,2) unfolding heap_ok_def same_sizes [OF same] by blast
qed

text \<open>Joining a chunk with the next one, which may be the top.\<close>

definition relink_prev :: "bptr option \<Rightarrow> bptr \<Rightarrow> (bptr \<Rightarrow> bptr option) \<Rightarrow> bptr \<Rightarrow> bptr option" where
  "relink_prev m c V = (case m of None \<Rightarrow> V | Some x \<Rightarrow> V(x := Some c))"

lemma relink_prev_apply: "relink_prev m c V x = (if m = Some x then Some c else V x)"
  by (auto simp: relink_prev_def split: option.split)

lemma ranE: "x \<in> ran T \<Longrightarrow> (\<And>k. T k = Some x \<Longrightarrow> P) \<Longrightarrow> P"
  by (auto simp: ran_def)

lemma ran_delete:
  assumes "T k = Some n" and "\<And>k'. T k' = Some n \<Longrightarrow> k' = k"
  shows "ran (T(k := None)) = ran T - {n}"
proof (intro set_eqI iffI)
  fix x assume "x \<in> ran (T(k := None))"
  then obtain k' where "k' \<noteq> k" "T k' = Some x" by (auto simp: ran_def split: if_splits)
  then show "x \<in> ran T - {n}" using assms(2) [of k'] by (auto intro: ranI)
next
  fix x assume "x \<in> ran T - {n}"
  then obtain k' where "T k' = Some x" "x \<noteq> n" by (auto elim: ranE)
  then have "(T(k := None)) k' = Some x" using assms(1) by auto
  then show "x \<in> ran (T(k := None))" by (rule ranI)
qed

lemma join_ok:
  assumes ok: "heap_ok Z A S P N V T H F G t" and c: "c \<in> H" "c \<notin> F" "c \<notin> G" "pinuse (S c)"
    and n: "N c = Some n" "n \<notin> F" "n \<notin> G" and v: "size_of v = size_of (S c) + size_of (S n)" "pinuse v" "\<not> mmapped_bit v"
  shows "heap_ok Z A (S(c := v)) P (N(c := N n)) (relink_prev (N n) c V) (T(A n := None)) (H - {n}) F G (if n = t then c else t)"
proof -
  note D = heap_okD [OF ok] and L = links_fitD [OF heap_okD(10) [OF ok]] and R = frees_fitD [OF heap_okD(11) [OF ok]]
  let ?S = "S(c := v)" and ?N = "N(c := N n)" and ?V = "relink_prev (N n) c V" and ?T = "T(A n := None)"
    and ?H = "H - {n}" and ?t = "if n = t then c else t"
  have nH: "n \<in> H" and Vn: "V n = Some c" and adj: "start A n = start A c + size_of (S c)"
    using L(1-3) [OF c(1) n(1)] c(3) by auto
  have sz: "16 dvd start A x" "16 dvd size_of (S x)" "16 \<le> size_of (S x)" "start A x + size_of (S x) < 2 ^ 64"
      "\<not> mmapped_bit (S x)" "x \<notin> G \<Longrightarrow> 32 \<le> size_of (S x)" "64 \<le> start A x" if "x \<in> H" for x
    using D(9) that by (auto simp: sizes_fit_def)
  have nc: "n \<noteq> c" using adj sz(3) [OF c(1)] by auto
  have keys: "A x = k" if "T k = Some x" for k x using D(8) that by (auto simp: table_fits_def)
  have ap: "apart A S x y" if "x \<in> ran T" "y \<in> ran T" "x \<noteq> y" for x y
    using D(8) that by (auto simp: table_fits_def)
  have rg: "region A S x \<subseteq> Z" if "x \<in> ran T" for x using D(8) that by (auto simp: table_fits_def)
  have Tn: "T (A n) = Some n" using D(6) nH keys by (metis ranE subsetD)
  have ran: "ran ?T = ran T - {n}" 
  proof (rule ran_delete)
    show "T (A n) = Some n" by (rule Tn)
    show "k' = A n" if "T k' = Some n" for k' using keys [OF that] by simp
  qed
  have cm: "apart A ?S c d" if "d \<in> ran ?T" "d \<noteq> c" for d
  proof -
    have d: "d \<in> ran T" "d \<noteq> n" using that(1) ran by auto
    have "apart A S c d" "apart A S n d" using ap d that(2) D(6) c(1) nH by auto
    then show ?thesis using adj v(1) that(2) sz(3) [OF c(1)] sz(3) [OF nH] by (auto simp: apart_def)
  qed
  have "table_fits Z A ?S ?T"
    unfolding table_fits_def
  proof (intro conjI allI ballI impI)
    show "A x = k" if "?T k = Some x" for k x using that keys by (auto split: if_splits)
    fix x y assume xy: "x \<in> ran ?T" "y \<in> ran ?T" "x \<noteq> y"
    consider "x = c" | "y = c" | "x \<noteq> c" "y \<noteq> c" by blast
    then show "apart A ?S x y"
    proof cases
      case 2
      then show ?thesis using cm [OF xy(1)] xy(3) by (auto simp: apart_def)
    next
      case 3
      then show ?thesis using ap [of x y] xy ran by (simp add: apart_def)
    qed (use cm [OF xy(2)] xy(3) in auto)
  next
    fix x assume "x \<in> ran ?T"
    then have x: "x \<in> ran T" using ran by simp
    have "region A ?S c = region A S c \<union> region A S n" using v(1) adj sz(3) [OF nH] by (auto simp: region_def)
    then show "region A ?S x \<subseteq> Z" using rg [OF x] rg [of c] rg [of n] D(6) c(1) nH by (cases "x = c") (auto simp: region_def)
    show "mapped_fits (?S x)" using D(8) x v(3) by (auto simp: table_fits_def)
  qed
  moreover have "sizes_fit A ?S ?H G"
    unfolding sizes_fit_def using sz sz(2-4) [OF c(1)] sz(2-4) [OF nH] v adj by auto
  moreover have "links_fit A ?S ?N ?V ?H G"
    unfolding links_fit_def
  proof (intro conjI ballI allI impI)
    fix x m assume x: "x \<in> ?H" and m: "?N x = Some m"
    have "m \<in> H \<and> ?V m = Some x \<and> m \<noteq> n \<and> (x \<notin> G \<longrightarrow> start A m = start A x + size_of (?S x))"
    proof (cases "x = c")
      case True
      then have Nn: "N n = Some m" using m by simp
      have "m \<noteq> n" using L(3) [OF nH Nn n(3)] sz(3) [OF nH] by auto
      then show ?thesis using L(1,3) [OF nH Nn] n(3) adj v(1) True Nn by (simp add: relink_prev_apply)
    next
      case False
      then have Nx: "N x = Some m" using m by simp
      have "m \<noteq> n" using L(2) [of x m] Nx x Vn False by auto
      moreover have "N n \<noteq> Some m" using L(2) [OF _ Nx] L(2) [OF nH] x by auto
      ultimately show ?thesis using L(1-3) [OF _ Nx] x False by (auto simp: relink_prev_apply)
    qed
    then show "m \<in> ?H" "?V m = Some x" "x \<notin> G \<Longrightarrow> start A m = start A x + size_of (?S x)" by auto
  next
    fix m x assume m: "m \<in> ?H" and x: "?V m = Some x"
    have "x \<in> ?H \<and> ?N x = Some m"
    proof (cases "N n = Some m")
      case True
      then show ?thesis using x c(1) nc by (simp add: relink_prev_apply)
    next
      case False
      then have "V m = Some x" using x by (simp add: relink_prev_apply)
      then have "x \<in> H" "N x = Some m" using L(4) m by auto
      then show ?thesis using False n(1) m by auto
    qed
    then show "x \<in> ?H" "?N x = Some m" by auto
  qed
  moreover have "frees_fit ?S P ?N ?H F ?t"
    unfolding frees_fit_def
  proof (intro conjI ballI impI)
    fix c' assume c': "c' \<in> F"
    then obtain n' where n': "N c' = Some n'" using R(3) by blast
    note r = R(2) [OF c' n']
    have "n' \<noteq> c" using r c(4) by blast
    moreover have "c' \<noteq> c" using c' c(2) by blast
    ultimately show "\<exists>m. ?N c' = Some m \<and> m \<notin> F \<and> m \<noteq> ?t \<and> \<not> pinuse (?S m) \<and> unat (P m) = size_of (?S c')"
      using r n' by simp
  next
    fix x assume x: "x \<in> ?H" "\<not> pinuse (?S x)"
    then have "x \<noteq> c" using v(2) by auto
    then obtain c' where "c' \<in> F" "N c' = Some x" using R(1) [of x] x by auto
    then show "\<exists>c' \<in> F. ?N c' = Some x" using c(2) by (intro bexI [of _ c']) auto
  qed
  moreover have "F \<subseteq> ?H" "?H \<subseteq> ran ?T" "G \<subseteq> ?H" using D(4,6,12) n(2,3) ran by auto
  moreover have "\<forall>x \<in> ran ?T - ?H. ?N x = None \<and> P x = 0" using D(13,14) ran c(1) nH by auto
  moreover have "?N ?t = None" using D(7) nc n(1) by auto
  moreover have "?t \<in> ?H" "?t \<notin> F" "?t \<notin> G" using D(1-3) c nc by auto
  moreover have "ended ?N ?H G ?t" using D(15) nH n(3) c unfolding ended_def by auto
  ultimately show ?thesis using D(5) unfolding heap_ok_def by simp
qed

text \<open>Splitting a chunk: the address of the second part is not in the table.\<close>

lemma inside_unregistered:
  assumes ok: "heap_ok Z A S P N V T H F G t" and c: "c \<in> H" and a: "start A c < unat a" "unat a < start A c + size_of (S c)"
  shows "T a = None"
proof (rule ccontr)
  assume "T a \<noteq> None"
  then obtain d where d: "T a = Some d" by auto
  note D = heap_okD [OF ok]
  have "A d = a" using D(8) d by (auto simp: table_fits_def)
  then have sd: "start A d = unat a" by (simp add: start_def)
  then have "d \<noteq> c" using a(1) by auto
  moreover have "c \<in> ran T" "d \<in> ran T" using D(6) c d by (auto intro: ranI)
  ultimately have "apart A S c d" using D(8) by (auto simp: table_fits_def)
  then show False using sd a by (auto simp: apart_def)
qed

lemma split_ok:
  assumes ok: "heap_ok Z A S P N V T H F G t" and c: "c \<in> H" "c \<notin> F" "c \<notin> G" "pinuse (S c)" and r: "r \<notin> ran T"
    and v: "size_of v1 + size_of v2 = size_of (S c)" "16 dvd size_of v1" "32 \<le> size_of v1" "32 \<le> size_of v2"
      "pinuse v1" "pinuse v2" "\<not> mmapped_bit v1" "\<not> mmapped_bit v2"
    and a: "unat a = start A c + size_of v1"
  shows "heap_ok Z (A(r := a)) (S(c := v1, r := v2)) P (N(c := Some r, r := N c)) (relink_prev (N c) r (V(r := Some c)))
    (T(a \<mapsto> r)) (insert r H) F G (if c = t then r else t)"
proof -
  note D = heap_okD [OF ok] and L = links_fitD [OF heap_okD(10) [OF ok]] and R = frees_fitD [OF heap_okD(11) [OF ok]]
  let ?A = "A(r := a)" and ?S = "S(c := v1, r := v2)" and ?N = "N(c := Some r, r := N c)"
    and ?V = "relink_prev (N c) r (V(r := Some c))" and ?T = "T(a \<mapsto> r)" and ?H = "insert r H"
    and ?t = "if c = t then r else t"
  have sz: "16 dvd start A x" "16 dvd size_of (S x)" "16 \<le> size_of (S x)" "start A x + size_of (S x) < 2 ^ 64"
      "\<not> mmapped_bit (S x)" "x \<notin> G \<Longrightarrow> 32 \<le> size_of (S x)" "64 \<le> start A x" if "x \<in> H" for x
    using D(9) that by (auto simp: sizes_fit_def)
  have rH: "r \<notin> H" "r \<noteq> c" using r D(6) c(1) by auto
  have HT: "x \<in> ran T" if "x \<in> H" for x using D(6) that by blast
  have keys: "A x = k" if "T k = Some x" for k x using D(8) that by (auto simp: table_fits_def)
  have ap: "apart A S x y" if "x \<in> ran T" "y \<in> ran T" "x \<noteq> y" for x y
    using D(8) that by (auto simp: table_fits_def)
  have rg: "region A S x \<subseteq> Z" if "x \<in> ran T" for x using D(8) that by (auto simp: table_fits_def)
  have Ta: "T a = None" by (rule inside_unregistered [OF ok c(1)]) (use a v in auto)
  have sr: "start ?A r = start A c + size_of v1" by (simp add: start_def a)
  have sx: "start ?A x = start A x" if "x \<noteq> r" for x using that by (simp add: start_def)
  have ran: "ran ?T = insert r (ran T)" using Ta by simp
  have out: "apart ?A ?S c x \<and> apart ?A ?S r x" if "x \<in> ran T" "x \<noteq> c" for x
  proof -
    have "x \<noteq> r" using that r by auto
    then show ?thesis
      using ap [OF HT [OF c(1)] that(1)] that sr sx [of x] sx [of c] rH v by (auto simp: apart_def)
  qed
  have two: "apart ?A ?S c r" using sr sx [of c] rH v by (simp add: apart_def)
  have sym: "apart B Q x y \<Longrightarrow> apart B Q y x" for B Q x y by (auto simp: apart_def)
  have "table_fits Z ?A ?S ?T"
    unfolding table_fits_def
  proof (intro conjI allI ballI impI)
    show "?A x = k" if "?T k = Some x" for k x
      using that keys r by (auto split: if_splits intro: ranI)
    fix x y assume xy: "x \<in> ran ?T" "y \<in> ran ?T" "x \<noteq> y"
    have "apart ?A ?S x y" if "x \<notin> {c, r}" "y \<notin> {c, r}"
      using ap [of x y] xy that ran by (auto simp: apart_def start_def)
    then show "apart ?A ?S x y" using out two sym xy ran by (metis insert_iff singletonD)
  next
    fix x assume x: "x \<in> ran ?T"
    have "region ?A ?S c \<subseteq> region A S c" "region ?A ?S r \<subseteq> region A S c" using v sr sx [of c] rH by (auto simp: region_def)
    moreover have "region ?A ?S x = region A S x" if "x \<noteq> c" "x \<noteq> r" using that by (simp add: region_def start_def)
    ultimately show "region ?A ?S x \<subseteq> Z" using rg [OF HT [OF c(1)]] rg [of x] x ran by (cases "x = c"; cases "x = r") auto
    show "mapped_fits (?S x)" using D(8) x ran v(7,8) by (auto simp: table_fits_def)
  qed
  moreover have "sizes_fit ?A ?S ?H G"
  proof -
    have d2: "16 dvd size_of v2" using v(1,2) sz(2) [OF c(1)] by (metis dvd_add_right_iff)
    show ?thesis
      unfolding sizes_fit_def using sz v d2 sr sx rH sz(1,4,7) [OF c(1)] by (auto simp: start_def)
  qed
  moreover have "links_fit ?A ?S ?N ?V ?H G"
    unfolding links_fit_def
  proof (intro conjI ballI allI impI)
    fix x m assume x: "x \<in> ?H" and m: "?N x = Some m"
    have "m \<in> ?H \<and> ?V m = Some x \<and> (x \<notin> G \<longrightarrow> start ?A m = start ?A x + size_of (?S x))"
    proof (cases "x = r")
      case True
      then have Nc: "N c = Some m" using m by simp
      then have "m \<in> H" "start A m = start A c + size_of (S c)" "m \<noteq> r" using L(1,3) [OF c(1)] c(3) rH by auto
      then show ?thesis using True Nc sr sx rH v(1) by (auto simp: relink_prev_apply)
    next
      case False
      show ?thesis
      proof (cases "x = c")
        case True
        then have "m = r" using m rH by simp
        moreover have "N c \<noteq> Some r" using L(1) [OF c(1)] rH by blast
        ultimately show ?thesis using True rH sr sx by (simp add: relink_prev_apply)
      next
        case xc: False
        then have Nx: "N x = Some m" and xH: "x \<in> H" using False m x by auto
        then have "N c \<noteq> Some m" using L(2) c(1) xc by (metis option.inject)
        moreover have "m \<noteq> r" using L(1) [OF xH Nx] rH by auto
        ultimately show ?thesis using L(1-3) [OF xH Nx] sx False xc by (simp add: relink_prev_apply)
      qed
    qed
    then show "m \<in> ?H" "?V m = Some x" "x \<notin> G \<Longrightarrow> start ?A m = start ?A x + size_of (?S x)" by auto
  next
    fix m x assume m: "m \<in> ?H" and x: "?V m = Some x"
    have "x \<in> ?H \<and> ?N x = Some m"
    proof (cases "N c = Some m")
      case True
      then show ?thesis using x rH by (simp add: relink_prev_apply)
    next
      case False
      show ?thesis
      proof (cases "m = r")
        case True
        then show ?thesis using x False rH c(1) by (simp add: relink_prev_apply)
      next
        case mr: False
        then have "V m = Some x" using x False by (simp add: relink_prev_apply)
        then have "x \<in> H" "N x = Some m" using L(4) m mr by auto
        then show ?thesis using False rH by auto
      qed
    qed
    then show "x \<in> ?H" "?N x = Some m" by auto
  qed
  moreover have "frees_fit ?S P ?N ?H F ?t"
    unfolding frees_fit_def
  proof (intro conjI ballI impI)
    fix c' assume c': "c' \<in> F"
    then obtain n' where n': "N c' = Some n'" using R(3) by blast
    note q = R(2) [OF c' n']
    have cr: "c' \<noteq> c" "c' \<noteq> r" using c' c(2) D(4) rH by auto
    have "n' \<noteq> r" using L(1) [of c' n'] n' c' D(4) rH by auto
    then show "\<exists>m. ?N c' = Some m \<and> m \<notin> F \<and> m \<noteq> ?t \<and> \<not> pinuse (?S m) \<and> unat (P m) = size_of (?S c')"
      using q n' cr c(4) by (cases "n' = c") auto
  next
    fix x assume x: "x \<in> ?H" "\<not> pinuse (?S x)"
    then have "x \<noteq> c" "x \<noteq> r" using v(5,6) rH by (auto split: if_splits)
    then obtain c' where "c' \<in> F" "N c' = Some x" using R(1) [of x] x by auto
    then show "\<exists>c' \<in> F. ?N c' = Some x" using c(2) D(4) rH by (intro bexI [of _ c']) auto
  qed
  moreover have "F \<subseteq> ?H" "?H \<subseteq> ran ?T" "G \<subseteq> ?H" using D(4,6,12) ran by auto
  moreover have "\<forall>x \<in> ran ?T - ?H. ?N x = None \<and> P x = 0" using D(13,14) ran c(1) by auto
  moreover have "?N ?t = None" using D(7) rH D(1) by auto
  moreover have "?t \<in> ?H" "?t \<notin> F" "?t \<notin> G" using D(1-5,12) c rH r by auto
  moreover have "ended ?N ?H G ?t" using D(15) c(1,3) rH unfolding ended_def by auto
  ultimately show ?thesis using D(5) unfolding heap_ok_def by simp
qed

end
