(* ===== verification/Malloc_Ring.thy ===== *)
theory Malloc_Ring
  imports Malloc_Chain
begin

text \<open>
  The lists of free chunks. A bin is a ring through its header: on the free chunks \<open>F\<close> and the headers the
  links \<open>fd\<close> and \<open>bk\<close> are inverse to each other and stay within one bin, which \<open>own\<close> gives. A fast bin is a
  list by \<open>fd\<close>: every chunk of \<open>X\<close> is pointed to at most once, by a head or by another chunk.
\<close>

section \<open>Bins\<close>

definition headers :: "addr \<Rightarrow> bptr set" where
  "headers base = {Bptr base i | i. 1 \<le> i \<and> i < NBINS}"

definition ring_ok where
  "ring_ok Fd Bk own F base \<longleftrightarrow> F \<inter> headers base = {} \<and> (\<forall>i. 1 \<le> i \<and> i < NBINS \<longrightarrow> own (Bptr base i) = i) \<and>
     (\<forall>x \<in> F \<union> headers base. \<exists>y \<in> F \<union> headers base. Fd x = Some y \<and> Bk y = Some x \<and> own y = own x) \<and>
     (\<forall>x \<in> F \<union> headers base. \<exists>y \<in> F \<union> headers base. Bk x = Some y \<and> Fd y = Some x)"

lemma ring_okD:
  assumes "ring_ok Fd Bk own F base" and "x \<in> F \<union> headers base"
  shows "Fd x = Some y \<Longrightarrow> y \<in> F \<union> headers base \<and> Bk y = Some x \<and> own y = own x"
    and "Bk x = Some y \<Longrightarrow> y \<in> F \<union> headers base \<and> Fd y = Some x \<and> own y = own x"
    and "\<exists>y. Fd x = Some y" and "\<exists>y. Bk x = Some y"
proof -
  note R = assms(1) [unfolded ring_ok_def]
  show f: "Fd x = Some y \<Longrightarrow> y \<in> F \<union> headers base \<and> Bk y = Some x \<and> own y = own x" for y
    using R assms(2) by (metis option.inject)
  show "Bk x = Some y \<Longrightarrow> y \<in> F \<union> headers base \<and> Fd y = Some x \<and> own y = own x"
    using R assms(2) by (metis option.inject)
  show "\<exists>y. Fd x = Some y" "\<exists>y. Bk x = Some y" using R assms(2) by blast+
qed

lemma ring_okI:
  assumes "F \<inter> headers base = {}" and "\<And>i. 1 \<le> i \<Longrightarrow> i < NBINS \<Longrightarrow> own (Bptr base i) = i"
    and "\<And>x. x \<in> F \<union> headers base \<Longrightarrow> \<exists>y. y \<in> F \<union> headers base \<and> Fd x = Some y \<and> Bk y = Some x \<and> own y = own x"
    and "\<And>x. x \<in> F \<union> headers base \<Longrightarrow> \<exists>y. y \<in> F \<union> headers base \<and> Bk x = Some y \<and> Fd y = Some x"
  shows "ring_ok Fd Bk own F base"
  using assms unfolding ring_ok_def by blast

lemma unlink_ring:
  assumes ok: "ring_ok Fd Bk own F base" and p: "p \<in> F" and f: "Fd p = Some f" and b: "Bk p = Some b"
  shows "ring_ok (Fd(b := Some f)) (Bk(f := Some b)) own (F - {p}) base"
proof (rule ring_okI)
  note D = ring_okD [OF ok]
  have pL: "p \<in> F \<union> headers base" and ph: "p \<notin> headers base" using p ok by (auto simp: ring_ok_def)
  have fL: "f \<in> F \<union> headers base" "own f = own p" "Bk f = Some p" using D(1) [OF pL f] by auto
  have bL: "b \<in> F \<union> headers base" "own b = own p" "Fd b = Some p" using D(2) [OF pL b] by auto
  show "(F - {p}) \<inter> headers base = {}" "\<And>i. 1 \<le> i \<Longrightarrow> i < NBINS \<Longrightarrow> own (Bptr base i) = i"
    using ok by (auto simp: ring_ok_def)
  fix x assume x: "x \<in> F - {p} \<union> headers base"
  then have xL: "x \<in> F \<union> headers base" and xp: "x \<noteq> p" using ph by auto
  show "\<exists>y. y \<in> F - {p} \<union> headers base \<and> (Fd(b := Some f)) x = Some y \<and> (Bk(f := Some b)) y = Some x \<and> own y = own x"
  proof (cases "x = b")
    case True
    then have "f \<noteq> p" using fL(3) b xp by auto
    then show ?thesis using True fL bL by auto
  next
    case False
    obtain y where y: "Fd x = Some y" using D(3) [OF xL] by blast
    note q = D(1) [OF xL y]
    have "y \<noteq> p" using q b False by auto
    moreover have "y \<noteq> f" using q fL xp by auto
    ultimately show ?thesis using q y False by auto
  qed
  show "\<exists>y. y \<in> F - {p} \<union> headers base \<and> (Bk(f := Some b)) x = Some y \<and> (Fd(b := Some f)) y = Some x"
  proof (cases "x = f")
    case True
    then have "b \<noteq> p" using bL(3) f xp by auto
    then show ?thesis using True bL by auto
  next
    case False
    obtain y where y: "Bk x = Some y" using D(4) [OF xL] by blast
    note q = D(2) [OF xL y]
    have "y \<noteq> p" using q f False by auto
    moreover have "y \<noteq> b" using q bL xp by auto
    ultimately show ?thesis using q y False by auto
  qed
qed

lemma insert_ring:
  assumes ok: "ring_ok Fd Bk own F base" and b: "b \<in> F \<union> headers base" and f: "Fd b = Some f"
    and p: "p \<notin> F \<union> headers base"
  shows "ring_ok (Fd(p := Some f, b := Some p)) (Bk(p := Some b, f := Some p)) (own(p := own b)) (insert p F) base"
proof (rule ring_okI)
  note D = ring_okD [OF ok]
  have fL: "f \<in> F \<union> headers base" "own f = own b" "Bk f = Some b" using D(1) [OF b f] by auto
  have n: "b \<noteq> p" "f \<noteq> p" using b fL p by auto
  show "insert p F \<inter> headers base = {}" "\<And>i. 1 \<le> i \<Longrightarrow> i < NBINS \<Longrightarrow> (own(p := own b)) (Bptr base i) = i"
    using ok p by (auto simp: ring_ok_def headers_def)
  fix x assume "x \<in> insert p F \<union> headers base"
  then consider "x = p" | "x \<in> F \<union> headers base" "x \<noteq> p" using p by auto
  note c = this
  from c show "\<exists>y. y \<in> insert p F \<union> headers base \<and> (Fd(p := Some f, b := Some p)) x = Some y \<and>
      (Bk(p := Some b, f := Some p)) y = Some x \<and> (own(p := own b)) y = (own(p := own b)) x"
  proof cases
    case 1
    then show ?thesis using fL n by auto
  next
    case 2
    show ?thesis
    proof (cases "x = b")
      case True
      then show ?thesis using n by auto
    next
      case False
      obtain y where y: "Fd x = Some y" using D(3) [OF 2(1)] by blast
      note q = D(1) [OF 2(1) y]
      have "y \<noteq> f" using q fL False by auto
      moreover have "y \<noteq> p" using q p by blast
      ultimately show ?thesis using q y 2(2) False by auto
    qed
  qed
  from c show "\<exists>y. y \<in> insert p F \<union> headers base \<and> (Bk(p := Some b, f := Some p)) x = Some y \<and>
      (Fd(p := Some f, b := Some p)) y = Some x"
  proof cases
    case 1
    then show ?thesis using b n by auto
  next
    case 2
    show ?thesis
    proof (cases "x = f")
      case True
      then show ?thesis using n by auto
    next
      case False
      obtain y where y: "Bk x = Some y" using D(4) [OF 2(1)] by blast
      note q = D(2) [OF 2(1) y]
      have "y \<noteq> b" using q f False by auto
      moreover have "y \<noteq> p" using q p by blast
      ultimately show ?thesis using q y 2(2) False by auto
    qed
  qed
qed

text \<open>The neighbour of the header of a bin is a free chunk of that bin, or the bin is empty.\<close>

lemma header_neighbour:
  assumes ok: "ring_ok Fd Bk own F base" and i: "1 \<le> i" "i < NBINS"
  shows "Fd (Bptr base i) = Some y \<Longrightarrow> y \<noteq> Bptr base i \<Longrightarrow> y \<in> F \<and> own y = i"
    and "Bk (Bptr base i) = Some y \<Longrightarrow> y \<noteq> Bptr base i \<Longrightarrow> y \<in> F \<and> own y = i"
proof -
  have H: "Bptr base i \<in> F \<union> headers base" "own (Bptr base i) = i" using i ok by (auto simp: headers_def ring_ok_def)
  have *: "y \<in> F" if "y \<in> F \<union> headers base" "own y = i" "y \<noteq> Bptr base i" for y
    using that ok by (auto simp: headers_def ring_ok_def)
  show "Fd (Bptr base i) = Some y \<Longrightarrow> y \<noteq> Bptr base i \<Longrightarrow> y \<in> F \<and> own y = i"
    using ring_okD(1) [OF ok H(1)] H(2) * by auto
  show "Bk (Bptr base i) = Some y \<Longrightarrow> y \<noteq> Bptr base i \<Longrightarrow> y \<in> F \<and> own y = i"
    using ring_okD(2) [OF ok H(1)] H(2) * by auto
qed

lemma ring_cong:
  assumes eq: "\<And>x. x \<in> F \<union> headers base \<Longrightarrow> Fd' x = Fd x \<and> Bk' x = Bk x \<and> own' x = own x"
  shows "ring_ok Fd' Bk' own' F base = ring_ok Fd Bk own F base"
proof -
  let ?L = "F \<union> headers base"
  have 1: "(\<exists>y \<in> ?L. Fd' x = Some y \<and> Bk' y = Some x \<and> own' y = own' x) =
      (\<exists>y \<in> ?L. Fd x = Some y \<and> Bk y = Some x \<and> own y = own x)" if "x \<in> ?L" for x
    using eq that by (intro bex_cong) auto
  have 2: "(\<exists>y \<in> ?L. Bk' x = Some y \<and> Fd' y = Some x) = (\<exists>y \<in> ?L. Bk x = Some y \<and> Fd y = Some x)" if "x \<in> ?L" for x
    using eq that by (intro bex_cong) auto
  have 3: "own' (Bptr base i) = own (Bptr base i)" if "1 \<le> i" "i < NBINS" for i
    using eq that by (auto simp: headers_def)
  have "(\<forall>x \<in> ?L. \<exists>y \<in> ?L. Fd' x = Some y \<and> Bk' y = Some x \<and> own' y = own' x) =
      (\<forall>x \<in> ?L. \<exists>y \<in> ?L. Fd x = Some y \<and> Bk y = Some x \<and> own y = own x)"
    by (rule ball_cong [OF refl 1])
  moreover have "(\<forall>x \<in> ?L. \<exists>y \<in> ?L. Bk' x = Some y \<and> Fd' y = Some x) =
      (\<forall>x \<in> ?L. \<exists>y \<in> ?L. Bk x = Some y \<and> Fd y = Some x)"
    by (rule ball_cong [OF refl 2])
  moreover have "(\<forall>i. 1 \<le> i \<and> i < NBINS \<longrightarrow> own' (Bptr base i) = i) = (\<forall>i. 1 \<le> i \<and> i < NBINS \<longrightarrow> own (Bptr base i) = i)"
    using 3 by metis
  ultimately show ?thesis unfolding ring_ok_def by simp
qed

section \<open>Fast bins\<close>

definition fast_ok where
  "fast_ok Fd X heads \<longleftrightarrow>
     (\<forall>i x. i < length heads \<longrightarrow> heads ! i = Some x \<longrightarrow> x \<in> X) \<and>
     (\<forall>i x y. i < length heads \<longrightarrow> heads ! i = Some x \<longrightarrow> y \<in> X \<longrightarrow> Fd y \<noteq> Some x) \<and>
     (\<forall>i j x. i < length heads \<longrightarrow> j < length heads \<longrightarrow> heads ! i = Some x \<longrightarrow> heads ! j = Some x \<longrightarrow> i = j) \<and>
     (\<forall>x y. x \<in> X \<longrightarrow> Fd x = Some y \<longrightarrow> y \<in> X) \<and>
     (\<forall>x y z. x \<in> X \<longrightarrow> y \<in> X \<longrightarrow> Fd x = Some z \<longrightarrow> Fd y = Some z \<longrightarrow> x = y)"

lemma fast_cong: "(\<And>x. x \<in> X \<Longrightarrow> Fd' x = Fd x) \<Longrightarrow> fast_ok Fd' X heads = fast_ok Fd X heads"
  unfolding fast_ok_def by simp

lemma fast_okD:
  assumes "fast_ok Fd X heads"
  shows "i < length heads \<Longrightarrow> heads ! i = Some x \<Longrightarrow> x \<in> X"
    and "i < length heads \<Longrightarrow> heads ! i = Some x \<Longrightarrow> y \<in> X \<Longrightarrow> Fd y \<noteq> Some x"
    and "i < length heads \<Longrightarrow> j < length heads \<Longrightarrow> heads ! i = Some x \<Longrightarrow> heads ! j = Some x \<Longrightarrow> i = j"
    and "x \<in> X \<Longrightarrow> Fd x = Some y \<Longrightarrow> y \<in> X"
    and "x \<in> X \<Longrightarrow> y \<in> X \<Longrightarrow> Fd x = Some z \<Longrightarrow> Fd y = Some z \<Longrightarrow> x = y"
  subgoal using assms [unfolded fast_ok_def, THEN conjunct1] by blast
  subgoal using assms [unfolded fast_ok_def, THEN conjunct2, THEN conjunct1] by blast
  subgoal using assms [unfolded fast_ok_def, THEN conjunct2, THEN conjunct2, THEN conjunct1] by blast
  subgoal using assms [unfolded fast_ok_def, THEN conjunct2, THEN conjunct2, THEN conjunct2, THEN conjunct1] by blast
  subgoal using assms [unfolded fast_ok_def, THEN conjunct2, THEN conjunct2, THEN conjunct2, THEN conjunct2] by blast
  done

lemma fast_okI:
  assumes "\<And>i x. i < length heads \<Longrightarrow> heads ! i = Some x \<Longrightarrow> x \<in> X"
    and "\<And>i x y. i < length heads \<Longrightarrow> heads ! i = Some x \<Longrightarrow> y \<in> X \<Longrightarrow> Fd y \<noteq> Some x"
    and "\<And>i j x. i < length heads \<Longrightarrow> j < length heads \<Longrightarrow> heads ! i = Some x \<Longrightarrow> heads ! j = Some x \<Longrightarrow> i = j"
    and "\<And>x y. x \<in> X \<Longrightarrow> Fd x = Some y \<Longrightarrow> y \<in> X"
    and "\<And>x y z. x \<in> X \<Longrightarrow> y \<in> X \<Longrightarrow> Fd x = Some z \<Longrightarrow> Fd y = Some z \<Longrightarrow> x = y"
  shows "fast_ok Fd X heads"
  unfolding fast_ok_def by (intro conjI allI impI) (fact assms)+

lemma push_fast:
  assumes ok: "fast_ok Fd X heads" and c: "c \<notin> X" and i: "i < length heads"
  shows "fast_ok (Fd(c := heads ! i)) (insert c X) (heads[i := Some c])"
proof (rule fast_okI)
  note D = fast_okD [OF ok]
  fix j x assume "j < length (heads[i := Some c])" and "heads[i := Some c] ! j = Some x"
  then have j: "j < length heads" "j = i \<and> x = c \<or> j \<noteq> i \<and> heads ! j = Some x"
    using i by (simp, cases "j = i", auto)
  show "x \<in> insert c X" using j D(1) by auto
  fix y assume y: "y \<in> insert c X"
  show "(Fd(c := heads ! i)) y \<noteq> Some x"
  proof (cases "y = c")
    case True
    then show ?thesis using j D(1) [OF i] D(3) [OF i j(1)] c by auto
  next
    case False
    then show ?thesis using j y D(2,4) c by auto
  qed
next
  note D = fast_okD [OF ok]
  fix j k x assume "j < length (heads[i := Some c])" "k < length (heads[i := Some c])"
    "heads[i := Some c] ! j = Some x" "heads[i := Some c] ! k = Some x"
  then show "j = k" using D(1,3) c i by (auto simp: nth_list_update split: if_splits)
next
  note D = fast_okD [OF ok]
  fix x y z assume x: "x \<in> insert c X"
  show "y \<in> insert c X" if "(Fd(c := heads ! i)) x = Some y" using that x D(1) [OF i] D(4) by (auto split: if_splits)
  assume "y \<in> insert c X" "(Fd(c := heads ! i)) x = Some z" "(Fd(c := heads ! i)) y = Some z"
  then show "x = y" using x D(2) [OF i] D(5) by (auto split: if_splits)
qed

lemma pop_fast:
  assumes ok: "fast_ok Fd X heads" and i: "i < length heads" and c: "heads ! i = Some c"
  shows "fast_ok Fd (X - {c}) (heads[i := Fd c])" and "c \<in> X"
proof -
  note D = fast_okD [OF ok]
  show cX: "c \<in> X" using D(1) [OF i c] .
  have ptr: "Fd y \<noteq> Some c" if "y \<in> X" for y using D(2) [OF i c that] .
  show "fast_ok Fd (X - {c}) (heads[i := Fd c])"
  proof (rule fast_okI)
    fix j x assume "j < length (heads[i := Fd c])" and "heads[i := Fd c] ! j = Some x"
    then have j: "j < length heads" "j = i \<and> Fd c = Some x \<or> j \<noteq> i \<and> heads ! j = Some x"
      using i by (simp, cases "j = i", auto)
    have "x \<in> X" using j D(1,4) cX by auto
    moreover have "x \<noteq> c" using j ptr [OF cX] D(3) [OF i j(1) c] by auto
    ultimately show "x \<in> X - {c}" by simp
    fix y assume y: "y \<in> X - {c}"
    show "Fd y \<noteq> Some x" using j y D(2) [OF j(1)] D(5) [of y c] cX by auto
  next
    fix j k x assume a: "j < length (heads[i := Fd c])" "k < length (heads[i := Fd c])"
      "heads[i := Fd c] ! j = Some x" "heads[i := Fd c] ! k = Some x"
    then show "j = k" using D(3) [of j k x] D(2) [of j x c] D(2) [of k x c] cX i
      by (cases "j = i"; cases "k = i") (auto simp: nth_list_update)
  next
    fix x y z assume x: "x \<in> X - {c}"
    show "y \<in> X - {c}" if "Fd x = Some y" using that x D(4) ptr by auto
    assume "y \<in> X - {c}" "Fd x = Some z" "Fd y = Some z"
    then show "x = y" using x D(5) by auto
  qed
qed

end
