(* ===== verification/Malloc_Arena.thy ===== *)
theory Malloc_Arena
  imports Malloc_Ring
begin

text \<open>
  The invariant of an arena. The fields of the chunkinfos are functions of the pointer, in a record
  \<open>fields\<close>; \<open>view E n av T f\<close> says that the arena shows these fields at the entries of its table \<open>T\<close> and at
  the headers of its bins, and \<open>arena_ok\<close> adds the structure of the heap, the bins with their skip lists
  and the fast bins.
\<close>

section \<open>Fields\<close>

record fields =
  fA :: "bptr \<Rightarrow> u64"
  fS :: "bptr \<Rightarrow> u64"
  fP :: "bptr \<Rightarrow> u64"
  fN :: "bptr \<Rightarrow> bptr option"
  fV :: "bptr \<Rightarrow> bptr option"
  fF :: "bptr \<Rightarrow> bptr option"
  fB :: "bptr \<Rightarrow> bptr option"
  fFN :: "bptr \<Rightarrow> bptr option"
  fBN :: "bptr \<Rightarrow> bptr option"

text \<open>Updates in the order of the fields.\<close>

lemma fields_commute [simp]:
  "f\<lparr>fP := vP, fS := vS\<rparr> = f\<lparr>fS := vS, fP := vP\<rparr>"
  "f\<lparr>fN := vN, fS := vS\<rparr> = f\<lparr>fS := vS, fN := vN\<rparr>"
  "f\<lparr>fV := vV, fS := vS\<rparr> = f\<lparr>fS := vS, fV := vV\<rparr>"
  "f\<lparr>fF := vF, fS := vS\<rparr> = f\<lparr>fS := vS, fF := vF\<rparr>"
  "f\<lparr>fB := vB, fS := vS\<rparr> = f\<lparr>fS := vS, fB := vB\<rparr>"
  "f\<lparr>fFN := vFN, fS := vS\<rparr> = f\<lparr>fS := vS, fFN := vFN\<rparr>"
  "f\<lparr>fBN := vBN, fS := vS\<rparr> = f\<lparr>fS := vS, fBN := vBN\<rparr>"
  "f\<lparr>fN := vN, fP := vP\<rparr> = f\<lparr>fP := vP, fN := vN\<rparr>"
  "f\<lparr>fV := vV, fP := vP\<rparr> = f\<lparr>fP := vP, fV := vV\<rparr>"
  "f\<lparr>fF := vF, fP := vP\<rparr> = f\<lparr>fP := vP, fF := vF\<rparr>"
  "f\<lparr>fB := vB, fP := vP\<rparr> = f\<lparr>fP := vP, fB := vB\<rparr>"
  "f\<lparr>fFN := vFN, fP := vP\<rparr> = f\<lparr>fP := vP, fFN := vFN\<rparr>"
  "f\<lparr>fBN := vBN, fP := vP\<rparr> = f\<lparr>fP := vP, fBN := vBN\<rparr>"
  "f\<lparr>fV := vV, fN := vN\<rparr> = f\<lparr>fN := vN, fV := vV\<rparr>"
  "f\<lparr>fF := vF, fN := vN\<rparr> = f\<lparr>fN := vN, fF := vF\<rparr>"
  "f\<lparr>fB := vB, fN := vN\<rparr> = f\<lparr>fN := vN, fB := vB\<rparr>"
  "f\<lparr>fFN := vFN, fN := vN\<rparr> = f\<lparr>fN := vN, fFN := vFN\<rparr>"
  "f\<lparr>fBN := vBN, fN := vN\<rparr> = f\<lparr>fN := vN, fBN := vBN\<rparr>"
  "f\<lparr>fF := vF, fV := vV\<rparr> = f\<lparr>fV := vV, fF := vF\<rparr>"
  "f\<lparr>fB := vB, fV := vV\<rparr> = f\<lparr>fV := vV, fB := vB\<rparr>"
  "f\<lparr>fFN := vFN, fV := vV\<rparr> = f\<lparr>fV := vV, fFN := vFN\<rparr>"
  "f\<lparr>fBN := vBN, fV := vV\<rparr> = f\<lparr>fV := vV, fBN := vBN\<rparr>"
  "f\<lparr>fB := vB, fF := vF\<rparr> = f\<lparr>fF := vF, fB := vB\<rparr>"
  "f\<lparr>fFN := vFN, fF := vF\<rparr> = f\<lparr>fF := vF, fFN := vFN\<rparr>"
  "f\<lparr>fBN := vBN, fF := vF\<rparr> = f\<lparr>fF := vF, fBN := vBN\<rparr>"
  "f\<lparr>fFN := vFN, fB := vB\<rparr> = f\<lparr>fB := vB, fFN := vFN\<rparr>"
  "f\<lparr>fBN := vBN, fB := vB\<rparr> = f\<lparr>fB := vB, fBN := vBN\<rparr>"
  "f\<lparr>fBN := vBN, fFN := vFN\<rparr> = f\<lparr>fFN := vFN, fBN := vBN\<rparr>"
  by (cases f; simp)+

definition fields_of :: "(bptr \<Rightarrow> chunkinfo) \<Rightarrow> fields" where
  "fields_of h = \<lparr>fA = (\<lambda>p. chunk (h p)), fS = (\<lambda>p. csize (h p)), fP = (\<lambda>p. prev_size (h p)),
     fN = (\<lambda>p. md_next (h p)), fV = (\<lambda>p. md_prev (h p)), fF = (\<lambda>p. fd (h p)), fB = (\<lambda>p. bk (h p)),
     fFN = (\<lambda>p. fd_nextsize (h p)), fBN = (\<lambda>p. bk_nextsize (h p))\<rparr>"

definition view :: "ci_env \<Rightarrow> nat \<Rightarrow> 'z mstate_scheme \<Rightarrow> (u64 \<Rightarrow> bptr option) \<Rightarrow> fields \<Rightarrow> bool" where
  "view E n av T f \<longleftrightarrow> (\<exists>K h. sees E n av T K h \<and> f = fields_of h)"

lemma viewI: "sees E n av T K h \<Longrightarrow> f = fields_of h \<Longrightarrow> view E n av T f"
  by (auto simp: view_def)

lemma viewE: "view E n av T f \<Longrightarrow> (\<And>K h. sees E n av T K h \<Longrightarrow> f = fields_of h \<Longrightarrow> thesis) \<Longrightarrow> thesis"
  by (auto simp: view_def)

lemma sees_table:
  assumes "sees E n av T K h" and "T k = Some c"
  shows "c \<in> K" and "bpool_of c \<noteq> bins_base av"
proof -
  have M: "meta_ok E n av T" and K: "known E av = K" using assms(1) by (simp_all add: sees_def)
  have "c \<in> live_buckets E (memory av)"
    using represents_ok(4) [of E "htbl av" "memory av" "entry_lists T" c k] M assms(2)
    by (simp add: meta_ok_def entry_lists_def)
  then show "c \<in> K" and "bpool_of c \<noteq> bins_base av" using K live_not_bin [OF M] by (auto simp: known_def)
qed

lemma view_table: "view E n av T f \<Longrightarrow> T k = Some c \<Longrightarrow> bpool_of c \<noteq> bins_base av"
  by (auto simp: view_def dest: sees_table(2))

lemma view_ran: "view E n av T f \<Longrightarrow> c \<in> ran T \<Longrightarrow> bpool_of c \<noteq> bins_base av"
  by (auto elim: ranE dest: view_table)

lemma sees_known:
  assumes "sees E n av T K h"
  shows "c \<in> ran T \<Longrightarrow> c \<in> K" and "bpool_of c = bins_base av \<Longrightarrow> c \<in> K"
  using sees_table(1) [OF assms] assms by (auto elim: ranE simp: sees_def known_def)

definition shown :: "'z mstate_scheme \<Rightarrow> (u64 \<Rightarrow> bptr option) \<Rightarrow> bptr \<Rightarrow> bool" where
  "shown av T p \<longleftrightarrow> p \<in> ran T \<or> bpool_of p = bins_base av"

lemma view_sel:
  assumes "view E n av T f" and "shown av T p"
  shows "chunk (ci av p) = fA f p" "prev_size (ci av p) = fP f p" "csize (ci av p) = fS f p" "fd (ci av p) = fF f p"
    "bk (ci av p) = fB f p" "fd_nextsize (ci av p) = fFN f p" "bk_nextsize (ci av p) = fBN f p"
    "md_next (ci av p) = fN f p" "md_prev (ci av p) = fV f p"
proof -
  obtain K h where *: "sees E n av T K h" "f = fields_of h" using assms(1) by (rule viewE)
  have "p \<in> K" using sees_known [OF *(1)] assms(2) by (auto simp: shown_def)
  note s = sees_sel [OF *(1) this]
  show "chunk (ci av p) = fA f p" "prev_size (ci av p) = fP f p" "csize (ci av p) = fS f p" "fd (ci av p) = fF f p"
    "bk (ci av p) = fB f p" "fd_nextsize (ci av p) = fFN f p" "bk_nextsize (ci av p) = fBN f p"
    "md_next (ci av p) = fN f p" "md_prev (ci av p) = fV f p"
    using s *(2) by (simp_all add: fields_of_def)
qed

lemma view_writes:
  assumes "view E n av T f"
  shows "view E n (w_size v p av) T (f\<lparr>fS := (fS f)(p := v)\<rparr>)"
    "view E n (w_prev_size v p av) T (f\<lparr>fP := (fP f)(p := v)\<rparr>)"
    "view E n (w_fd r p av) T (f\<lparr>fF := (fF f)(p := r)\<rparr>)"
    "view E n (w_bk r p av) T (f\<lparr>fB := (fB f)(p := r)\<rparr>)"
    "view E n (w_fd_nextsize r p av) T (f\<lparr>fFN := (fFN f)(p := r)\<rparr>)"
    "view E n (w_bk_nextsize r p av) T (f\<lparr>fBN := (fBN f)(p := r)\<rparr>)"
    "view E n (w_md_next r p av) T (f\<lparr>fN := (fN f)(p := r)\<rparr>)"
    "view E n (w_md_prev r p av) T (f\<lparr>fV := (fV f)(p := r)\<rparr>)"
    "view E n (set_head p v av) T (f\<lparr>fS := (fS f)(p := v)\<rparr>)"
proof -
  obtain K h where *: "sees E n av T K h" "f = fields_of h" using assms by (rule viewE)
  note w = sees_writes [OF *(1)]
  show "view E n (w_size v p av) T (f\<lparr>fS := (fS f)(p := v)\<rparr>)" by (rule viewI [OF w(1)]) (auto simp: *(2) fields_of_def)
  then show "view E n (set_head p v av) T (f\<lparr>fS := (fS f)(p := v)\<rparr>)" by (simp add: set_head_def)
  show "view E n (w_prev_size v p av) T (f\<lparr>fP := (fP f)(p := v)\<rparr>)" by (rule viewI [OF w(2)]) (auto simp: *(2) fields_of_def)
  show "view E n (w_fd r p av) T (f\<lparr>fF := (fF f)(p := r)\<rparr>)" by (rule viewI [OF w(3)]) (auto simp: *(2) fields_of_def)
  show "view E n (w_bk r p av) T (f\<lparr>fB := (fB f)(p := r)\<rparr>)" by (rule viewI [OF w(4)]) (auto simp: *(2) fields_of_def)
  show "view E n (w_fd_nextsize r p av) T (f\<lparr>fFN := (fFN f)(p := r)\<rparr>)" by (rule viewI [OF w(5)]) (auto simp: *(2) fields_of_def)
  show "view E n (w_bk_nextsize r p av) T (f\<lparr>fBN := (fBN f)(p := r)\<rparr>)" by (rule viewI [OF w(6)]) (auto simp: *(2) fields_of_def)
  show "view E n (w_md_next r p av) T (f\<lparr>fN := (fN f)(p := r)\<rparr>)" by (rule viewI [OF w(7)]) (auto simp: *(2) fields_of_def)
  show "view E n (w_md_prev r p av) T (f\<lparr>fV := (fV f)(p := r)\<rparr>)" by (rule viewI [OF w(8)]) (auto simp: *(2) fields_of_def)
qed

lemma view_more: "view E n av T f \<Longrightarrow> m \<le> n \<Longrightarrow> view E m av T f"
  by (auto simp: view_def dest: sees_more)

lemma view_same:
  assumes "view E n av T f" and "memory av' = memory av" "htbl av' = htbl av" "bins_base av' = bins_base av"
    "bin_heads av' = bin_heads av" "metadata_cache_count av' = metadata_cache_count av"
  shows "view E n av' T f"
  using assms(1) by (rule viewE) (rule viewI [OF sees_same [OF _ assms(2-)]])

section \<open>What else changes\<close>

text \<open>Only the memory of the metadata, the table and the headers.\<close>

definition frame :: "'z mstate_scheme \<Rightarrow> 'z mstate_scheme \<Rightarrow> bool" where
  "frame av av' \<longleftrightarrow> av' = av\<lparr>bin_heads := bin_heads av', memory := memory av', htbl := htbl av'\<rparr>"

lemma frame_sel:
  fixes av av' :: "'z mstate_scheme"
  assumes "frame av av'"
  shows "flags av' = flags av" "fastbinsY av' = fastbinsY av" "md_top av' = md_top av" "initial_top av' = initial_top av"
    "last_remainder av' = last_remainder av" "bins_base av' = bins_base av"
    "bin_map av' = bin_map av" "system_mem av' = system_mem av" "max_system_mem av' = max_system_mem av"
    "arena_index av' = arena_index av" "is_main av' = is_main av" "metadata_pool_ready av' = metadata_pool_ready av"
    "metadata_cache av' = metadata_cache av" "metadata_cache_count av' = metadata_cache_count av"
    "mstate.more av' = mstate.more av"
proof -
  have *: "av' = av\<lparr>bin_heads := bin_heads av', memory := memory av', htbl := htbl av'\<rparr>" using assms by (simp add: frame_def)
  show "flags av' = flags av" "fastbinsY av' = fastbinsY av" "md_top av' = md_top av" "initial_top av' = initial_top av"
    "last_remainder av' = last_remainder av" "bins_base av' = bins_base av"
    "bin_map av' = bin_map av" "system_mem av' = system_mem av" "max_system_mem av' = max_system_mem av"
    "arena_index av' = arena_index av" "is_main av' = is_main av" "metadata_pool_ready av' = metadata_pool_ready av"
    "metadata_cache av' = metadata_cache av" "metadata_cache_count av' = metadata_cache_count av"
    "mstate.more av' = mstate.more av"
    by (subst *; simp)+
qed

lemma frame_proc:
  fixes av av' :: "'z proc_scheme"
  assumes "frame av av'"
  shows "par av' = par av" "lkup av' = lkup av" "calls av' = calls av"
proof -
  have *: "av' = av\<lparr>bin_heads := bin_heads av', memory := memory av', htbl := htbl av'\<rparr>" using assms by (simp add: frame_def)
  show "par av' = par av" "lkup av' = lkup av" "calls av' = calls av" by (subst *; simp)+
qed

lemma frame_refl [simp]: "frame av av"
  by (simp add: frame_def)

lemma frame_trans:
  assumes "frame a b" and "frame b c"
  shows "frame a c"
proof -
  have b: "b = a\<lparr>bin_heads := bin_heads b, memory := memory b, htbl := htbl b\<rparr>" and
    c: "c = b\<lparr>bin_heads := bin_heads c, memory := memory c, htbl := htbl c\<rparr>" using assms by (simp_all add: frame_def)
  have "c = (a\<lparr>bin_heads := bin_heads b, memory := memory b, htbl := htbl b\<rparr>)
      \<lparr>bin_heads := bin_heads c, memory := memory c, htbl := htbl c\<rparr>"
    using c unfolding b [symmetric] .
  then show ?thesis by (simp add: frame_def)
qed

lemma frame_ci_upd [simp]: "frame av (ci_upd g p av)"
  by (simp add: frame_def ci_upd_def)

lemma frame_step [simp]: "frame av av1 \<Longrightarrow> frame av (ci_upd g p av1)"
  by (rule frame_trans [OF _ frame_ci_upd])

lemma frame_same_arena: "same_arena av av' \<Longrightarrow> frame av av'"
  using same_arena_sel(7) [of av av'] unfolding same_arena_def frame_def
  by (metis (no_types, lifting) mstate.surjective mstate.update_convs(7,14,15))

section \<open>Accesses\<close>

lemma chunkinfo2chunk_chunk: "chunkinfo2chunk av md = chunk (ci av md)"
  by (simp add: chunkinfo2chunk_def mem2chunk_def HEADER_SIZE_def)

definition head_size :: "u64 \<Rightarrow> u64" where
  "head_size s = s AND NOT SIZE_BITS"

lemma unat_head_size [simp]: "unat (head_size s) = size_of s"
  by (simp add: head_size_def size_of_def)

lemma view_chunk:
  assumes "view E n av T f" and "shown av T p"
  shows "chunkinfo2chunk av p = fA f p" and "chunksize av (Some p) = head_size (fS f p)"
    and "prev_inuse av p q = Some b \<Longrightarrow> b = pinuse (fS f p) \<and> q = fA f p"
    and "chunk_is_mmapped av p = mmapped_bit (fS f p)"
  using view_sel [OF assms] by (auto simp: chunkinfo2chunk_chunk chunksize_def head_size_def prev_inuse_def pinuse_def
    bind_assert_eq_Some_iff chunk_is_mmapped_def mmapped_bit_def)

lemma lookup_view:
  assumes "lookup_chunk E p av = Some (r, av')" and "view E n av T f"
  shows "r = T p" and "view E n av' T f" and "frame av av'"
proof -
  obtain K h where *: "sees E n av T K h" "f = fields_of h" using assms(2) by (rule viewE)
  note r = lookup_chunkD [OF assms(1) *(1)]
  show "r = T p" by (rule r(1))
  show "view E n av' T f" by (rule viewI [OF r(2) *(2)])
  show "frame av av'" by (rule frame_same_arena [OF r(3)])
qed

lemma unregister_view:
  assumes "unregister_chunk E p av = Some (r, av')" and "view E n av T f" and "T p = Some c"
  shows "view E n av' (T(p := None)) f" and "frame av av'"
proof -
  obtain K h where *: "sees E n av T K h" "f = fields_of h" using assms(2) by (rule viewE)
  note r = unregister_chunkD [OF assms(1) *(1) assms(3)]
  show "view E n av' (T(p := None)) f" by (rule viewI [OF r(2) *(2)])
  show "frame av av'" by (rule frame_same_arena [OF r(3)])
qed

definition fresh_fields :: "u64 \<Rightarrow> bptr \<Rightarrow> fields \<Rightarrow> fields" where
  "fresh_fields a c f = \<lparr>fA = (fA f)(c := a), fS = (fS f)(c := 0), fP = (fP f)(c := 0), fN = (fN f)(c := None),
     fV = (fV f)(c := None), fF = (fF f)(c := None), fB = (fB f)(c := None), fFN = (fFN f)(c := None),
     fBN = (fBN f)(c := None)\<rparr>"

lemma fresh_fields_sel [simp]:
  "fA (fresh_fields a c f) = (fA f)(c := a)" "fS (fresh_fields a c f) = (fS f)(c := 0)"
  "fP (fresh_fields a c f) = (fP f)(c := 0)" "fN (fresh_fields a c f) = (fN f)(c := None)"
  "fV (fresh_fields a c f) = (fV f)(c := None)" "fF (fresh_fields a c f) = (fF f)(c := None)"
  "fB (fresh_fields a c f) = (fB f)(c := None)" "fFN (fresh_fields a c f) = (fFN f)(c := None)"
  "fBN (fresh_fields a c f) = (fBN f)(c := None)"
  by (simp_all add: fresh_fields_def)

lemma register_view:
  assumes run: "register_chunk E p av = Some (c, av')" and v: "view E (Suc n) av T f" and t: "T p = None"
  shows "c \<notin> ran T" and "bpool_of c \<noteq> bins_base av" and "view E n av' (T(p \<mapsto> c)) (fresh_fields p c f)" and "frame av av'"
proof -
  obtain K h where *: "sees E (Suc n) av T K h" "f = fields_of h" using v by (rule viewE)
  note r = register_chunkD [OF run *(1) t]
  show "c \<notin> ran T" using r(1) sees_known(1) [OF *(1)] by blast
  show "bpool_of c \<noteq> bins_base av" using r(1) sees_known(2) [OF *(1)] by blast
  show "view E n av' (T(p \<mapsto> c)) (fresh_fields p c f)"
    by (rule viewI [OF r(2)]) (auto simp: *(2) fields_of_def fresh_fields_def fresh_info_def zero_chunkinfo_def fun_eq_iff)
  show "frame av av'" by (rule frame_same_arena [OF r(3)])
qed

lemma assert_md_nextD:
  assumes "assert_md_next E p q av = Some av'" and "view E n av T f" and "shown av T p"
  shows "q = fA f p" and "T (fA f p + head_size (fS f p)) = fN f p" and "view E n av' T f" and "frame av av'"
proof -
  from assms(1) obtain r where l: "lookup_chunk E (q + (csize (ci av p) AND NOT SIZE_BITS)) av = Some (r, av')"
      "r = md_next (ci av' p)" "chunkinfo2chunk av p = q"
    unfolding assert_md_next_def md_next_sanity_check_def next_chunk_def
    by (auto simp: bind_eq_Some_conv bind_assert_eq_Some_iff)
  note k = lookup_view [OF l(1) assms(2)]
  have s: "shown av' T p" using assms(3) frame_sel(6) [OF k(3)] by (simp add: shown_def)
  show "q = fA f p" using l(3) view_chunk(1) [OF assms(2,3)] by simp
  then show "T (fA f p + head_size (fS f p)) = fN f p"
    using k(1) l(2) view_sel(8) [OF k(2) s] view_sel(3) [OF assms(2,3)] by (simp add: head_size_def)
  show "view E n av' T f" "frame av av'" using k by simp_all
qed

lemma assert_md_prevD:
  assumes "assert_md_prev E p q av = Some av'" and "view E n av T f" and "shown av T p"
  shows "q = fA f p" and "T (fA f p - fP f p) = fV f p" and "view E n av' T f" and "frame av av'"
proof -
  from assms(1) obtain r where l: "lookup_chunk E (q - prev_size (ci av p)) av = Some (r, av')"
      "r = md_prev (ci av' p)" "chunkinfo2chunk av p = q"
    unfolding assert_md_prev_def md_prev_sanity_check_def prev_chunk_def
    by (auto simp: bind_eq_Some_conv bind_assert_eq_Some_iff)
  note k = lookup_view [OF l(1) assms(2)]
  have s: "shown av' T p" using assms(3) frame_sel(6) [OF k(3)] by (simp add: shown_def)
  show "q = fA f p" using l(3) view_chunk(1) [OF assms(2,3)] by simp
  then show "T (fA f p - fP f p) = fV f p"
    using k(1) l(2) view_sel(9) [OF k(2) s] view_sel(2) [OF assms(2,3)] by simp
  show "view E n av' T f" "frame av av'" using k by simp_all
qed

text \<open>The chunk after one that the table knows is known to the table.\<close>

lemma next_step:
  assumes "assert_md_next E p q av = Some av'" and "md_next (ci av' p) = Some nx" and "view E n av T f" and "shown av T p"
  shows "fN f p = Some nx" and "nx \<in> ran T" and "shown av' T nx" and "view E n av' T f" and "frame av av'"
proof -
  note k = assert_md_nextD [OF assms(1,3,4)]
  have s: "shown av' T p" using assms(4) frame_sel(6) [OF k(4)] by (simp add: shown_def)
  show n: "fN f p = Some nx" using view_sel(8) [OF k(3) s] assms(2) by simp
  show "nx \<in> ran T" using k(2) n by (metis ranI)
  then show "shown av' T nx" by (simp add: shown_def)
  show "view E n av' T f" "frame av av'" by (fact k)+
qed

lemma inuse_bitD:
  assumes "inuse_bit E p av = Some (b, av')" and "view E n av T f" and "shown av T p"
  shows "\<exists>nx. fN f p = Some nx \<and> nx \<in> ran T \<and> b = pinuse (fS f nx)" and "view E n av' T f" and "frame av av'"
proof -
  from assms(1) obtain q nx where l: "assert_md_next E p q av = Some av'" "md_next (ci av' p) = Some nx"
      "prev_inuse av' nx (chunkinfo2chunk av' nx) = Some b"
    unfolding inuse_bit_def by (elim bindE) auto
  note k = next_step [OF l(1,2) assms(2,3)]
  show "\<exists>nx. fN f p = Some nx \<and> nx \<in> ran T \<and> b = pinuse (fS f nx)"
    using k(1,2) view_chunk(3) [OF k(4,3) l(3)] by blast
  show "view E n av' T f" "frame av av'" by (fact k)+
qed

lemma set_inuse_bitD:
  assumes "set_inuse_bit E p av = Some av'" and "view E n av T f" and "shown av T p"
  shows "\<exists>nx. fN f p = Some nx \<and> nx \<in> ran T \<and> view E n av' T (f\<lparr>fS := (fS f)(nx := fS f nx OR PREV_INUSE)\<rparr>)" and "frame av av'"
proof -
  from assms(1) obtain q nx av1 where l: "assert_md_next E p q av = Some av1" "md_next (ci av1 p) = Some nx"
      "av' = w_size (csize (ci av1 nx) OR PREV_INUSE) nx av1"
    unfolding set_inuse_bit_def by (elim bindE) auto
  note k = next_step [OF l(1,2) assms(2,3)]
  show "\<exists>nx. fN f p = Some nx \<and> nx \<in> ran T \<and> view E n av' T (f\<lparr>fS := (fS f)(nx := fS f nx OR PREV_INUSE)\<rparr>)"
    using k(1,2) view_writes(1) [OF k(4)] view_sel(3) [OF k(4,3)] l(3) by auto
  show "frame av av'" unfolding l(3) by (rule frame_trans [OF k(5)]) simp
qed

lemma set_footD:
  assumes "set_foot E p av = Some av'" and "view E n av T f" and "shown av T p"
  shows "\<exists>nx. fN f p = Some nx \<and> nx \<in> ran T \<and> view E n av' T (f\<lparr>fP := (fP f)(nx := head_size (fS f p))\<rparr>)" and "frame av av'"
proof -
  from assms(1) obtain q nx av1 where l: "assert_md_next E p q av = Some av1" "md_next (ci av1 p) = Some nx"
      "av' = w_prev_size (chunksize av1 (Some p)) nx av1"
    unfolding set_foot_def by (elim bindE) auto
  note k = next_step [OF l(1,2) assms(2,3)]
  have s: "shown av1 T p" using assms(3) frame_sel(6) [OF k(5)] by (simp add: shown_def)
  show "\<exists>nx. fN f p = Some nx \<and> nx \<in> ran T \<and> view E n av' T (f\<lparr>fP := (fP f)(nx := head_size (fS f p))\<rparr>)"
    using k(1,2) view_writes(2) [OF k(4)] view_chunk(2) [OF k(4) s] l(3) by auto
  show "frame av av'" unfolding l(3) by (rule frame_trans [OF k(5)]) simp
qed

end
