(* ===== verification/Malloc_Skip.thy ===== *)
theory Malloc_Skip
  imports Malloc_Ring
begin

text \<open>
  The skip lists of the large bins: \<open>fd_nextsize\<close> and \<open>bk_nextsize\<close> are inverse to each other within a bin.
  The header of a bin may be a member of its list, since \<open>bin_unlink\<close> can put it there. Chunks of the same
  size as their predecessor, and chunks of the unsorted list, are not members.
\<close>

definition in_large where
  "in_large own F base x \<longleftrightarrow> x \<in> F \<union> headers base \<and> 64 \<le> (own x :: nat)"

definition skip_ok where
  "skip_ok FN BN own F base \<longleftrightarrow>
     (\<forall>x y. in_large own F base x \<longrightarrow> FN x = Some y \<longrightarrow> in_large own F base y \<and> own y = own x \<and> BN y = Some x) \<and>
     (\<forall>x y. in_large own F base x \<longrightarrow> BN x = Some y \<longrightarrow> in_large own F base y \<and> own y = own x \<and> FN y = Some x) \<and>
     (\<forall>x. in_large own F base x \<longrightarrow> (FN x = None) = (BN x = None))"

lemma skip_okD:
  assumes "skip_ok FN BN own F base" and "in_large own F base x"
  shows "FN x = Some y \<Longrightarrow> in_large own F base y" "FN x = Some y \<Longrightarrow> own y = own x" "FN x = Some y \<Longrightarrow> BN y = Some x"
    and "BN x = Some y \<Longrightarrow> in_large own F base y" "BN x = Some y \<Longrightarrow> own y = own x" "BN x = Some y \<Longrightarrow> FN y = Some x"
    and "(FN x = None) = (BN x = None)"
  using assms unfolding skip_ok_def by blast+

lemma skip_okI:
  assumes "\<And>x y. in_large own F base x \<Longrightarrow> FN x = Some y \<Longrightarrow> in_large own F base y \<and> own y = own x \<and> BN y = Some x"
    and "\<And>x y. in_large own F base x \<Longrightarrow> BN x = Some y \<Longrightarrow> in_large own F base y \<and> own y = own x \<and> FN y = Some x"
    and "\<And>x. in_large own F base x \<Longrightarrow> (FN x = None) = (BN x = None)"
  shows "skip_ok FN BN own F base"
  unfolding skip_ok_def using assms by blast

lemma skip_cong:
  assumes "\<And>x. x \<in> F \<union> headers base \<Longrightarrow> FN' x = FN x \<and> BN' x = BN x \<and> own' x = own x"
    and ok: "skip_ok FN BN own F base"
  shows "skip_ok FN' BN' own' F base"
proof -
  have L: "in_large own' F base x = in_large own F base x" for x using assms(1) by (auto simp: in_large_def)
  have e: "FN' x = FN x" "BN' x = BN x" "own' x = own x" if "in_large own F base x" for x
    using assms(1) that by (auto simp: in_large_def)
  show ?thesis
  proof (rule skip_okI; unfold L)
    fix x y assume x: "in_large own F base x"
    show "in_large own F base y \<and> own' y = own' x \<and> BN' y = Some x" if "FN' x = Some y"
      using skip_okD(1-3) [OF ok x, of y] e [OF x] e [of y] that by auto
    show "in_large own F base y \<and> own' y = own' x \<and> FN' y = Some x" if "BN' x = Some y"
      using skip_okD(4-6) [OF ok x, of y] e [OF x] e [of y] that by auto
    show "(FN' x = None) = (BN' x = None)" using skip_okD(7) [OF ok x] e [OF x] by simp
  qed
qed

text \<open>A chunk that is not a member leaves its bin.\<close>

lemma skip_remove:
  assumes ok: "skip_ok FN BN own F base" and p: "in_large own F base p \<Longrightarrow> FN p = None \<and> BN p = None"
  shows "skip_ok FN BN own (F - {p}) base"
proof (rule skip_okI)
  note D = skip_okD [OF ok]
  fix x y assume x': "in_large own (F - {p}) base x"
  then have x: "in_large own F base x" by (auto simp: in_large_def)
  show "in_large own (F - {p}) base y \<and> own y = own x \<and> BN y = Some x" if y: "FN x = Some y"
  proof -
    have "y \<noteq> p" using D(1,3) [OF x y] p by auto
    then show ?thesis using D(1-3) [OF x y] by (auto simp: in_large_def)
  qed
  show "in_large own (F - {p}) base y \<and> own y = own x \<and> FN y = Some x" if y: "BN x = Some y"
  proof -
    have "y \<noteq> p" using D(4,6) [OF x y] p by auto
    then show ?thesis using D(4-6) [OF x y] by (auto simp: in_large_def)
  qed
  show "(FN x = None) = (BN x = None)" using D(7) [OF x] .
qed

text \<open>A member leaves the list.\<close>

lemma skip_unlink:
  assumes ok: "skip_ok FN BN own F base" and p: "in_large own F base p" "p \<in> F" "p \<notin> headers base"
    and n: "FN p = Some n" and b: "BN p = Some b"
  shows "skip_ok (FN(b := Some n)) (BN(n := Some b)) own (F - {p}) base"
proof (rule skip_okI)
  note D = skip_okD [OF ok] and P = skip_okD [OF ok p(1)]
  have nn: "in_large own F base n" "own n = own p" "BN n = Some p" and bb: "in_large own F base b" "own b = own p" "FN b = Some p"
    using P n b by auto
  fix x y assume x': "in_large own (F - {p}) base x"
  then have x: "in_large own F base x" "x \<noteq> p" using p(3) by (auto simp: in_large_def)
  show "in_large own (F - {p}) base y \<and> own y = own x \<and> (BN(n := Some b)) y = Some x" if y: "(FN(b := Some n)) x = Some y"
  proof (cases "x = b")
    case True
    then have "n \<noteq> p" using b nn(3) n x(2) P(3) [OF n] by auto
    then show ?thesis using True y nn bb by (auto simp: in_large_def)
  next
    case False
    then have y: "FN x = Some y" using y by simp
    have "y \<noteq> p" using D(3) [OF x(1) y] b False by auto
    moreover have "y \<noteq> n" using D(3) [OF x(1) y] nn(3) x(2) by auto
    ultimately show ?thesis using D(1-3) [OF x(1) y] by (auto simp: in_large_def)
  qed
  show "in_large own (F - {p}) base y \<and> own y = own x \<and> (FN(b := Some n)) y = Some x" if y: "(BN(n := Some b)) x = Some y"
  proof (cases "x = n")
    case True
    then have "b \<noteq> p" using n bb(3) b x(2) by auto
    then show ?thesis using True y nn bb by (auto simp: in_large_def)
  next
    case False
    then have y: "BN x = Some y" using y by simp
    have "y \<noteq> p" using D(6) [OF x(1) y] n False by auto
    moreover have "y \<noteq> b" using D(6) [OF x(1) y] bb(3) x(2) by auto
    ultimately show ?thesis using D(4-6) [OF x(1) y] by (auto simp: in_large_def)
  qed
  show "((FN(b := Some n)) x = None) = ((BN(n := Some b)) x = None)" using D(7) [OF x(1)] nn bb by auto
qed

text \<open>A member joins before \<open>w\<close>.\<close>

lemma skip_insert:
  assumes ok: "skip_ok FN BN own F base" and v: "v \<notin> F \<union> headers base" and w: "in_large own F base w" and b: "BN w = Some b"
  shows "skip_ok (FN(v := Some w, b := Some v)) (BN(v := Some b, w := Some v)) (own(v := own w)) (insert v F) base"
proof (rule skip_okI)
  note D = skip_okD [OF ok] and W = skip_okD [OF ok w]
  have bb: "in_large own F base b" "own b = own w" "FN b = Some w" using W b by auto
  have nv: "x \<noteq> v" if "in_large own F base x" for x using that v by (auto simp: in_large_def)
  have L: "in_large (own(v := own w)) (insert v F) base x \<longleftrightarrow> x = v \<or> in_large own F base x" for x
    using v w by (auto simp: in_large_def)
  fix x y assume "in_large (own(v := own w)) (insert v F) base x"
  then consider "x = v" | "in_large own F base x" "x \<noteq> v" unfolding L using nv by auto
  note c = this
  from c show "in_large (own(v := own w)) (insert v F) base y \<and> (own(v := own w)) y = (own(v := own w)) x \<and>
      (BN(v := Some b, w := Some v)) y = Some x" if y: "(FN(v := Some w, b := Some v)) x = Some y"
  proof cases
    case 1
    then show ?thesis using y w nv [OF w] nv [OF bb(1)] unfolding L by auto
  next
    case 2
    show ?thesis
    proof (cases "x = b")
      case True
      then show ?thesis using y bb nv [OF bb(1)] nv [OF w] unfolding L by auto
    next
      case False
      then have y: "FN x = Some y" using y 2(2) by simp
      have "y \<noteq> w" using D(3) [OF 2(1) y] b False by auto
      then show ?thesis using D(1-3) [OF 2(1) y] 2(2) nv unfolding L by auto
    qed
  qed
  from c show "in_large (own(v := own w)) (insert v F) base y \<and> (own(v := own w)) y = (own(v := own w)) x \<and>
      (FN(v := Some w, b := Some v)) y = Some x" if y: "(BN(v := Some b, w := Some v)) x = Some y"
  proof cases
    case 1
    then show ?thesis using y bb nv [OF w] nv [OF bb(1)] unfolding L by auto
  next
    case 2
    show ?thesis
    proof (cases "x = w")
      case True
      then show ?thesis using y bb nv [OF bb(1)] nv [OF w] unfolding L by auto
    next
      case False
      then have y: "BN x = Some y" using y 2(2) by simp
      have "y \<noteq> b" using D(6) [OF 2(1) y] bb(3) False by auto
      then show ?thesis using D(4-6) [OF 2(1) y] 2(2) nv unfolding L by auto
    qed
  qed
  from c show "((FN(v := Some w, b := Some v)) x = None) = ((BN(v := Some b, w := Some v)) x = None)"
  proof cases
    case 2
    then show ?thesis using D(7) [OF 2(1)] bb b by auto
  qed auto
qed

text \<open>A chunk joins a bin without being a member, or as the only one.\<close>

lemma skip_add:
  assumes ok: "skip_ok FN BN own F base" and v: "v \<notin> F \<union> headers base"
    and i: "64 \<le> i \<Longrightarrow> FN v = None \<and> BN v = None \<or> FN v = Some v \<and> BN v = Some v"
  shows "skip_ok FN BN (own(v := i)) (insert v F) base"
proof (rule skip_okI)
  note D = skip_okD [OF ok]
  have nv: "x \<noteq> v" if "in_large own F base x" for x using that v by (auto simp: in_large_def)
  have L: "in_large (own(v := i)) (insert v F) base x \<longleftrightarrow> x = v \<and> 64 \<le> i \<or> in_large own F base x" for x
    using v by (auto simp: in_large_def)
  fix x y assume "in_large (own(v := i)) (insert v F) base x"
  then consider "x = v" "64 \<le> i" | "in_large own F base x" "x \<noteq> v" unfolding L using nv by auto
  note c = this
  from c show "in_large (own(v := i)) (insert v F) base y \<and> (own(v := i)) y = (own(v := i)) x \<and> BN y = Some x" if y: "FN x = Some y"
  proof cases
    case 1
    then show ?thesis using y i unfolding L by auto
  next
    case 2
    then show ?thesis using D(1-3) [OF 2(1) y] nv unfolding L by auto
  qed
  from c show "in_large (own(v := i)) (insert v F) base y \<and> (own(v := i)) y = (own(v := i)) x \<and> FN y = Some x" if y: "BN x = Some y"
  proof cases
    case 1
    then show ?thesis using y i unfolding L by auto
  next
    case 2
    then show ?thesis using D(4-6) [OF 2(1) y] nv unfolding L by auto
  qed
  from c show "(FN x = None) = (BN x = None)"
  proof cases
    case 2
    then show ?thesis using D(7) by blast
  qed (use i in auto)
qed

text \<open>\<open>bin_unlink\<close> lets the chunk after \<open>p\<close> in the bin take its place when that chunk is no member.\<close>

lemma skip_replace:
  assumes ok: "skip_ok FN BN own F base" and p: "in_large own F base p" "p \<in> F" "p \<notin> headers base"
    and n: "FN p = Some n" "n \<noteq> p" and b: "BN p = Some b"
    and f: "in_large own F base f" "own f = own p" "FN f = None" "f \<noteq> p"
  shows "skip_ok (FN(f := Some n, b := Some f)) (BN(f := Some b, n := Some f)) own (F - {p}) base"
proof (rule skip_okI)
  note D = skip_okD [OF ok] and P = skip_okD [OF ok p(1)]
  have nn: "in_large own F base n" "own n = own p" "BN n = Some p" and bb: "in_large own F base b" "own b = own p" "FN b = Some p"
    using P n b by auto
  have bp: "b \<noteq> p" using bb(3) n by auto
  have f0: "BN f = None" using D(7) [OF f(1)] f(3) by simp
  have nb: "n \<noteq> f" "b \<noteq> f" using bb(3) f(3) f0 nn(3) by auto
  have L: "in_large own (F - {p}) base x \<longleftrightarrow> in_large own F base x \<and> x \<noteq> p" for x
    using p(3) by (auto simp: in_large_def)
  fix x y assume "in_large own (F - {p}) base x"
  then have x: "in_large own F base x" "x \<noteq> p" unfolding L by auto
  show "in_large own (F - {p}) base y \<and> own y = own x \<and> (BN(f := Some b, n := Some f)) y = Some x"
    if y: "(FN(f := Some n, b := Some f)) x = Some y"
  proof -
    consider "x = b" | "x = f" "x \<noteq> b" | "x \<noteq> f" "x \<noteq> b" by blast
    then show ?thesis
    proof cases
      case 1
      then show ?thesis using y f bb nb unfolding L by auto
    next
      case 2
      then show ?thesis using y nn f n unfolding L by auto
    next
      case 3
      then have y: "FN x = Some y" using y by simp
      note q = D(1-3) [OF x(1) y]
      have "y \<noteq> p" using q b 3 by auto
      moreover have "y \<noteq> n" using q nn(3) x by auto
      moreover have "y \<noteq> f" using q(3) f0 by auto
      ultimately show ?thesis using q unfolding L by auto
    qed
  qed
  show "in_large own (F - {p}) base y \<and> own y = own x \<and> (FN(f := Some n, b := Some f)) y = Some x"
    if y: "(BN(f := Some b, n := Some f)) x = Some y"
  proof -
    consider "x = n" | "x = f" "x \<noteq> n" | "x \<noteq> f" "x \<noteq> n" by blast
    then show ?thesis
    proof cases
      case 1
      then show ?thesis using y f nn nb unfolding L by auto
    next
      case 2
      then show ?thesis using y bb f bp unfolding L by auto
    next
      case 3
      then have y: "BN x = Some y" using y by simp
      note q = D(4-6) [OF x(1) y]
      have "y \<noteq> p" using q n 3 by auto
      moreover have "y \<noteq> b" using q bb(3) x by auto
      moreover have "y \<noteq> f" using q(3) f(3) by auto
      ultimately show ?thesis using q unfolding L by auto
    qed
  qed
  show "((FN(f := Some n, b := Some f)) x = None) = ((BN(f := Some b, n := Some f)) x = None)"
    using D(7) [OF x(1)] nn bb by auto
qed

text \<open>The only member leaves, and the chunk after it becomes the only one.\<close>

lemma skip_drop:
  assumes ok: "skip_ok FN BN own F base" and p: "FN p = Some p" "BN p = Some p"
  shows "skip_ok FN BN own (F - {p}) base"
proof (rule skip_okI)
  note D = skip_okD [OF ok]
  fix x y assume x': "in_large own (F - {p}) base x"
  then have x: "in_large own F base x" by (auto simp: in_large_def)
  show "in_large own (F - {p}) base y \<and> own y = own x \<and> BN y = Some x" if y: "FN x = Some y"
  proof (cases "x = p")
    case True
    then show ?thesis using D(1-3) [OF x y] x' y p by simp
  next
    case False
    then have "y \<noteq> p" using D(3) [OF x y] p by auto
    then show ?thesis using D(1-3) [OF x y] by (auto simp: in_large_def)
  qed
  show "in_large own (F - {p}) base y \<and> own y = own x \<and> FN y = Some x" if y: "BN x = Some y"
  proof (cases "x = p")
    case True
    then show ?thesis using D(4-6) [OF x y] x' y p by simp
  next
    case False
    then have "y \<noteq> p" using D(6) [OF x y] p by auto
    then show ?thesis using D(4-6) [OF x y] by (auto simp: in_large_def)
  qed
  show "(FN x = None) = (BN x = None)" using D(7) [OF x] .
qed

lemma skip_self:
  assumes ok: "skip_ok FN BN own F base" and p: "FN p = None" "in_large own F base p"
  shows "skip_ok (FN(p := Some p)) (BN(p := Some p)) own F base"
proof (rule skip_okI)
  note D = skip_okD [OF ok]
  have b: "BN p = None" using D(7) [OF p(2)] p(1) by simp
  fix x y assume x: "in_large own F base x"
  show "in_large own F base y \<and> own y = own x \<and> (BN(p := Some p)) y = Some x" if y: "(FN(p := Some p)) x = Some y"
  proof (cases "x = p")
    case False
    then have y: "FN x = Some y" using y by simp
    then have "y \<noteq> p" using D(3) [OF x y] b by auto
    then show ?thesis using D(1-3) [OF x y] by simp
  qed (use y p in auto)
  show "in_large own F base y \<and> own y = own x \<and> (FN(p := Some p)) y = Some x" if y: "(BN(p := Some p)) x = Some y"
  proof (cases "x = p")
    case False
    then have y: "BN x = Some y" using y by simp
    then have "y \<noteq> p" using D(6) [OF x y] p by auto
    then show ?thesis using D(4-6) [OF x y] by simp
  qed (use y p in auto)
  show "((FN(p := Some p)) x = None) = ((BN(p := Some p)) x = None)" using D(7) [OF x] by simp
qed

end
