(* ===== verification/Malloc_Bins.thy ===== *)
theory Malloc_Bins
  imports Malloc_Arena Malloc_Skip
begin

text \<open>
  The bins of an arena: the rings, the skip lists, the sizes of the chunks of a bin, and \<open>bin_unlink\<close>.
\<close>

lemma head_size_bits:
  assumes "16 dvd size_of s" and "size_of s \<le> 2 ^ 64 - 64"
  shows "in_smallbin_range s = in_smallbin_range (head_size s)"
    and "in_smallbin_range (head_size s) \<longleftrightarrow> size_of s + 16 < 1024"
    and "in_smallbin_range (head_size s) \<longleftrightarrow> unat (bin_index (head_size s)) < 64"
proof -
  obtain k where k: "size_of s = 16 * k" using assms(1) by auto
  have "unat s div 4 * 4 = 16 * k" using k size_of_eq [of s] by simp
  moreover have "unat s = unat s div 4 * 4 + unat s mod 4" "unat s mod 4 < 4" by simp_all
  ultimately have le: "16 * k \<le> unat s" "unat s < 16 * k + 4" by linarith+
  have "unat s + 16 < 2 ^ 64" using le k assms(2) by simp
  then have "unat (s + 16) = unat s + 16" by (simp add: unat_word_ariths)
  then have 1: "in_smallbin_range s \<longleftrightarrow> unat s + 16 < 1024"
    by (simp add: in_smallbin_range_def MIN_LARGE_SIZE_eq word_less_nat_alt)
  have 2: "in_smallbin_range (head_size s) \<longleftrightarrow> size_of s + 16 < 1024"
    using in_smallbin_range_nat [of "head_size s"] assms(2) by simp
  have "unat s + 16 < 1024 \<longleftrightarrow> size_of s + 16 < 1024" unfolding k using le by presburger
  then show "in_smallbin_range s = in_smallbin_range (head_size s)" using 1 2 by simp
  show "in_smallbin_range (head_size s) \<longleftrightarrow> size_of s + 16 < 1024" by (rule 2)
  have "64 \<le> unat (bin_index (head_size s))" if "\<not> size_of s + 16 < 1024"
    using bin_index_nat [of "head_size s"] assms(2) that large_index_bound [of "size_of s + 16"] by simp
  moreover have "unat (bin_index (head_size s)) < 64" if "size_of s + 16 < 1024"
    using bin_index_nat [of "head_size s"] assms(2) that by simp
  ultimately show "in_smallbin_range (head_size s) \<longleftrightarrow> unat (bin_index (head_size s)) < 64" using 2 by fastforce
qed

definition rings_ok :: "fields \<Rightarrow> (bptr \<Rightarrow> nat) \<Rightarrow> bptr set \<Rightarrow> addr \<Rightarrow> bool" where
  "rings_ok f own F base \<longleftrightarrow> ring_ok (fF f) (fB f) own F base \<and> skip_ok (fFN f) (fBN f) own F base \<and>
     (\<forall>x \<in> headers base. fS f x = 0) \<and>
     (\<forall>c \<in> F. 1 \<le> own c \<and> (2 \<le> own c \<longrightarrow> own c = unat (bin_index (head_size (fS f c)))) \<and>
        (own c = 1 \<longrightarrow> \<not> in_smallbin_range (head_size (fS f c)) \<longrightarrow> fFN f c = None \<and> fBN f c = None))"

lemma rings_okD:
  assumes "rings_ok f own F base"
  shows "ring_ok (fF f) (fB f) own F base" "skip_ok (fFN f) (fBN f) own F base" "x \<in> headers base \<Longrightarrow> fS f x = 0"
    and "c \<in> F \<Longrightarrow> 1 \<le> own c" "c \<in> F \<Longrightarrow> 2 \<le> own c \<Longrightarrow> own c = unat (bin_index (head_size (fS f c)))"
    and "c \<in> F \<Longrightarrow> own c = 1 \<Longrightarrow> \<not> in_smallbin_range (head_size (fS f c)) \<Longrightarrow> fFN f c = None \<and> fBN f c = None"
  using assms unfolding rings_ok_def by blast+

lemma bins_cong:
  assumes ok: "rings_ok f own F base"
    and eq: "\<And>x. x \<in> F \<union> headers base \<Longrightarrow> fF g x = fF f x \<and> fB g x = fB f x \<and> fFN g x = fFN f x \<and> fBN g x = fBN f x \<and>
      fS g x = fS f x \<and> own' x = own x"
  shows "rings_ok g own' F base"
proof -
  note D = rings_okD [OF ok]
  have "ring_ok (fF g) (fB g) own' F base" using D(1) ring_cong [of F base "fF g" "fF f" "fB g" "fB f" own' own] eq by blast
  moreover have "skip_ok (fFN g) (fBN g) own' F base" by (rule skip_cong [OF _ D(2)]) (use eq in blast)
  moreover have "\<forall>x \<in> headers base. fS g x = 0" using D(3) eq by simp
  moreover have "1 \<le> own' c \<and> (2 \<le> own' c \<longrightarrow> own' c = unat (bin_index (head_size (fS g c)))) \<and>
        (own' c = 1 \<longrightarrow> \<not> in_smallbin_range (head_size (fS g c)) \<longrightarrow> fFN g c = None \<and> fBN g c = None)" if "c \<in> F" for c
    using D(4-6) [OF that] eq [of c] that by simp
  ultimately show ?thesis unfolding rings_ok_def by blast
qed

lemma shown_header: "x \<in> headers (bins_base av) \<Longrightarrow> shown av T x"
  by (auto simp: headers_def shown_def)

lemma printerr_abort: "check_action (par av) AND 2 \<noteq> 0 \<Longrightarrow> printerr av = None"
  by (simp add: printerr_def malloc_printerr_def Let_def)

text \<open>What \<open>bin_unlink\<close> writes: the links of the bin, and those of the skip list.\<close>

definition unlinked :: "bptr \<Rightarrow> fields \<Rightarrow> fields \<Rightarrow> bool" where
  "unlinked p f g \<longleftrightarrow> (\<exists>n b. fF f p = Some n \<and> fB f p = Some b \<and> fF g = (fF f)(b := Some n) \<and> fB g = (fB f)(n := Some b)) \<and>
     fA g = fA f \<and> fS g = fS f \<and> fP g = fP f \<and> fN g = fN f \<and> fV g = fV f"

lemma unlink_nextsizeD:
  assumes run: "unlink_nextsize p x av = Some av'" and v: "view E n av T f" and p: "shown av T p" and x: "shown av T x"
    and ok: "skip_ok (fFN f) (fBN f) own F base" and q: "in_large own F base p" "p \<in> F" "p \<notin> headers base" "fFN f p \<noteq> None"
    and y: "in_large own F base x" "own x = own p"
  shows "\<exists>a b. view E n av' T (f\<lparr>fFN := a, fBN := b\<rparr>) \<and> skip_ok a b own (F - {p}) base \<and> frame av av' \<and>
    (\<forall>c. \<not> in_large own F base c \<longrightarrow> a c = fFN f c \<and> b c = fBN f c)"
proof -
  have P: "fd_nextsize (ci av p) = fFN f p" "bk_nextsize (ci av p) = fBN f p" "fd_nextsize (ci av x) = fFN f x"
    using view_sel(6,7) [OF v p] view_sel(6) [OF v x] by simp_all
  have "fBN f p \<noteq> None" using skip_okD(7) [OF ok q(1)] q(4) by simp
  then obtain nx b where nx: "fFN f p = Some nx" and b: "fBN f p = Some b" using q(4) by auto
  have self: "b = p" if "nx = p" using skip_okD(3) [OF ok q(1) nx] b that by simp
  consider (last) "fFN f x = None" "nx = p" | (repl) "fFN f x = None" "nx \<noteq> p" | (unl) "fFN f x \<noteq> None" by blast
  then show "\<exists>a b. view E n av' T (f\<lparr>fFN := a, fBN := b\<rparr>) \<and> skip_ok a b own (F - {p}) base \<and> frame av av' \<and>
    (\<forall>c. \<not> in_large own F base c \<longrightarrow> a c = fFN f c \<and> b c = fBN f c)"
  proof cases
    case last
    have xp: "x \<noteq> p" using last q(4) by auto
    have e: "av' = w_fd_nextsize (Some x) x (w_bk_nextsize (Some x) x av)"
      using run last P nx by (simp add: unlink_nextsize_def)
    then have "view E n av' T (f\<lparr>fFN := (fFN f)(x := Some x), fBN := (fBN f)(x := Some x)\<rparr>)"
      using view_writes(5) [OF view_writes(6) [OF v, of "Some x" x], of "Some x" x] by simp
    moreover have "skip_ok (fFN f) (fBN f) own (F - {p}) base" by (rule skip_drop [OF ok]) (use nx b last self in auto)
    then have "skip_ok ((fFN f)(x := Some x)) ((fBN f)(x := Some x)) own (F - {p}) base"
      by (rule skip_self) (use last y xp in \<open>auto simp: in_large_def\<close>)
    moreover have "frame av av'" by (simp add: e)
    moreover have "\<forall>c. \<not> in_large own F base c \<longrightarrow> ((fFN f)(x := Some x)) c = fFN f c \<and> ((fBN f)(x := Some x)) c = fBN f c"
      using y by auto
    ultimately show ?thesis by blast
  next
    case repl
    have xp: "x \<noteq> p" using repl q(4) by auto
    define a1 where "a1 = w_fd_nextsize (Some nx) x av"
    define a2 where "a2 = w_bk_nextsize (Some b) x a1"
    define a3 where "a3 = w_bk_nextsize (Some x) nx a2"
    have v1: "view E n a1 T (f\<lparr>fFN := (fFN f)(x := Some nx)\<rparr>)" unfolding a1_def by (rule view_writes [OF v])
    have v2: "view E n a2 T (f\<lparr>fFN := (fFN f)(x := Some nx), fBN := (fBN f)(x := Some b)\<rparr>)"
      unfolding a2_def using view_writes(6) [OF v1, of "Some b" x] by simp
    have v3: "view E n a3 T (f\<lparr>fFN := (fFN f)(x := Some nx), fBN := (fBN f)(x := Some b, nx := Some x)\<rparr>)"
      unfolding a3_def using view_writes(6) [OF v2, of "Some x" nx] by simp
    have s: "shown a1 T p" "shown a2 T p" "shown a3 T p" using p by (simp_all add: a1_def a2_def a3_def shown_def)
    have "bk_nextsize (ci a1 p) = Some b" "fd_nextsize (ci a2 p) = Some nx" "bk_nextsize (ci a3 p) = Some b"
      using view_sel(7) [OF v1 s(1)] view_sel(6) [OF v2 s(2)] view_sel(7) [OF v3 s(3)] nx b xp repl by simp_all
    then have e: "av' = w_fd_nextsize (Some x) b a3"
      using run repl P nx by (simp add: unlink_nextsize_def Let_def a1_def a2_def a3_def)
    then have "view E n av' T (f\<lparr>fFN := (fFN f)(x := Some nx, b := Some x), fBN := (fBN f)(x := Some b, nx := Some x)\<rparr>)"
      using view_writes(5) [OF v3, of "Some x" b] by simp
    moreover have "skip_ok ((fFN f)(x := Some nx, b := Some x)) ((fBN f)(x := Some b, nx := Some x)) own (F - {p}) base"
      by (rule skip_replace [OF ok q(1-3) nx repl(2) b y repl(1) xp])
    moreover have "frame av av'" by (simp add: e a1_def a2_def a3_def)
    moreover have "\<forall>c. \<not> in_large own F base c \<longrightarrow> ((fFN f)(x := Some nx, b := Some x)) c = fFN f c \<and>
        ((fBN f)(x := Some b, nx := Some x)) c = fBN f c"
      using y skip_okD(1) [OF ok q(1) nx] skip_okD(4) [OF ok q(1) b] by auto
    ultimately show ?thesis by blast
  next
    case unl
    define a1 where "a1 = w_bk_nextsize (Some b) nx av"
    have v1: "view E n a1 T (f\<lparr>fBN := (fBN f)(nx := Some b)\<rparr>)" unfolding a1_def by (rule view_writes [OF v])
    have s: "shown a1 T p" using p by (simp add: a1_def shown_def)
    have "bk_nextsize (ci a1 p) = Some b" "fd_nextsize (ci a1 p) = Some nx"
      using view_sel(6,7) [OF v1 s] nx b by simp_all
    then have e: "av' = w_fd_nextsize (Some nx) b a1"
      using run unl P nx b by (simp add: unlink_nextsize_def Let_def a1_def)
    then have "view E n av' T (f\<lparr>fFN := (fFN f)(b := Some nx), fBN := (fBN f)(nx := Some b)\<rparr>)"
      using view_writes(5) [OF v1, of "Some nx" b] by simp
    moreover have "skip_ok ((fFN f)(b := Some nx)) ((fBN f)(nx := Some b)) own (F - {p}) base"
      by (rule skip_unlink [OF ok q(1-3) nx b])
    moreover have "frame av av'" by (simp add: e a1_def)
    moreover have "\<forall>c. \<not> in_large own F base c \<longrightarrow> ((fFN f)(b := Some nx)) c = fFN f c \<and> ((fBN f)(nx := Some b)) c = fBN f c"
      using skip_okD(1) [OF ok q(1) nx] skip_okD(4) [OF ok q(1) b] by auto
    ultimately show ?thesis by blast
  qed
qed

text \<open>
  \<open>bin_unlink\<close> takes a free chunk off its bin and keeps the bins; it is given up when it finds a bin
  corrupt, which cannot happen to the ring.
\<close>

lemma bin_unlinkD:
  assumes run: "bin_unlink p av = Some (x, y, av')" and v: "view E n av T f" and ok: "rings_ok f own F (bins_base av)"
    and p: "p \<in> F" and F: "F \<subseteq> ran T" and sz: "16 dvd size_of (fS f p)" "size_of (fS f p) \<le> 2 ^ 64 - 64"
    and ab: "check_action (par av) AND 2 \<noteq> 0"
  shows "\<exists>g. view E n av' T g \<and> rings_ok g own (F - {p}) (bins_base av) \<and> unlinked p f g \<and> frame av av'"
proof -
  let ?base = "bins_base av"
  let ?L = "F \<union> headers ?base"
  note D = rings_okD [OF ok]
  have pL: "p \<in> ?L" and ph: "p \<notin> headers ?base" using p D(1) by (auto simp: ring_ok_def)
  obtain nx b where nx: "fF f p = Some nx" and b: "fB f p = Some b" using ring_okD(3,4) [OF D(1) pL] by blast
  note rn = ring_okD(1) [OF D(1) pL nx] and rb = ring_okD(2) [OF D(1) pL b]
  have sh: "shown av T z" if "z \<in> ?L" for z using that F shown_header by (auto simp: shown_def)
  note s = view_sel [OF v sh [OF pL]]
  define a1 where "a1 = w_fd (Some nx) b (w_bk (Some b) nx av)"
  define f1 where "f1 = f\<lparr>fF := (fF f)(b := Some nx), fB := (fB f)(nx := Some b)\<rparr>"
  have v1: "view E n a1 T f1" unfolding a1_def f1_def using view_writes(3) [OF view_writes(4) [OF v]] by simp
  have sh1: "shown a1 T z" if "z \<in> ?L" for z using sh [OF that] by (simp add: a1_def shown_def)
  note s1 = view_sel [OF v1 sh1 [OF pL]]
  have ring: "ring_ok (fF f1) (fB f1) own (F - {p}) ?base" using unlink_ring [OF D(1) p nx b] by (simp add: f1_def)
  have bins: "rings_ok (f1\<lparr>fFN := u, fBN := w\<rparr>) own (F - {p}) ?base \<and> unlinked p f (f1\<lparr>fFN := u, fBN := w\<rparr>)"
    if "skip_ok u w own (F - {p}) ?base"
      "\<And>c. c \<in> F \<Longrightarrow> own c = 1 \<Longrightarrow> \<not> in_smallbin_range (head_size (fS f c)) \<Longrightarrow> u c = None \<and> w c = None" for u w
    using ring that D(3-5) nx b by (auto simp: rings_ok_def f1_def unlinked_def)
  have rc: "bk (ci av nx) = Some p" "fd (ci av b) = Some p"
    using view_sel(5) [OF v sh, of nx] view_sel(4) [OF v sh, of b] rn rb by auto
  have small: "in_smallbin_range (csize (ci a1 p)) = in_smallbin_range (head_size (fS f p))"
    using head_size_bits(1) [OF sz] s1(3) by (simp add: f1_def)
  have fr: "frame av a1" by (simp add: a1_def)
  show ?thesis
  proof (cases "in_smallbin_range (head_size (fS f p)) \<or> fFN f p = None")
    case True
    then have "av' = a1" using run s rc nx b small s1(6) by (auto simp: bin_unlink_def Let_def a1_def f1_def)
    have "fFN f p = None \<and> fBN f p = None" if l: "in_large own F ?base p"
    proof -
      have "64 \<le> own p" using l by (simp add: in_large_def)
      then have "\<not> in_smallbin_range (head_size (fS f p))" using D(5) [OF p] head_size_bits(3) [OF sz] by simp
      then show ?thesis using True skip_okD(7) [OF D(2) l] by simp
    qed
    then have "skip_ok (fFN f) (fBN f) own (F - {p}) ?base" by (rule skip_remove [OF D(2)])
    then have "rings_ok (f1\<lparr>fFN := fFN f, fBN := fBN f\<rparr>) own (F - {p}) ?base \<and> unlinked p f (f1\<lparr>fFN := fFN f, fBN := fBN f\<rparr>)"
      by (rule bins) (use D(6) in auto)
    moreover have "f1\<lparr>fFN := fFN f, fBN := fBN f\<rparr> = f1" by (simp add: f1_def)
    ultimately show ?thesis using v1 fr \<open>av' = a1\<close> by auto
  next
    case False
    then have large: "\<not> in_smallbin_range (head_size (fS f p))" and fn: "fFN f p \<noteq> None" by auto
    have o: "64 \<le> own p"
    proof -
      have "own p \<noteq> 1" using D(6) [OF p] large fn by auto
      then have "2 \<le> own p" using D(4) [OF p] by simp
      then show ?thesis using D(5) [OF p] head_size_bits(3) [OF sz] large by simp
    qed
    then have l: "in_large own F ?base p" "in_large own F ?base nx" using pL rn by (auto simp: in_large_def)
    obtain q where q: "fFN f p = Some q" using fn by auto
    have pe: "printerr a1 = None" using printerr_abort [of a1] ab frame_proc(1) [OF fr] by simp
    have "unlink_nextsize p nx a1 = Some av'"
      using run s rc nx b small s1(6) large q pe
      by (auto simp: bin_unlink_def a1_def [symmetric] f1_def bind_eq_Some_conv split: if_splits)
    from unlink_nextsizeD [OF this v1 sh1 [OF pL] sh1 _ l(1) p ph _ l(2)] rn fn D(2)
    obtain u w where uw: "view E n av' T (f1\<lparr>fFN := u, fBN := w\<rparr>)" "skip_ok u w own (F - {p}) ?base" "frame a1 av'"
      "\<And>c. \<not> in_large own F ?base c \<Longrightarrow> u c = fFN f c \<and> w c = fBN f c"
      by (auto simp: f1_def)
    have "rings_ok (f1\<lparr>fFN := u, fBN := w\<rparr>) own (F - {p}) ?base \<and> unlinked p f (f1\<lparr>fFN := u, fBN := w\<rparr>)"
      by (rule bins [OF uw(2)]) (use uw(4) D(6) in \<open>auto simp: in_large_def\<close>)
    then show ?thesis using uw(1) frame_trans [OF fr uw(3)] by blast
  qed
qed

end
