(* ===== verification/Malloc_Merge.thy ===== *)
theory Malloc_Merge
  imports Malloc_Bins
begin

text \<open>
  The invariant of an arena and the merges of \<open>_int_free\<close>: a chunk that is being freed absorbs its free
  neighbours, while its size is in a local variable of the code and its head is still the old one.
\<close>

section \<open>Merging in the heap\<close>

lemma heap_cong:
  assumes ok: "heap_ok Z A S P N V T H F G t"
    and eq: "\<And>x. x \<in> ran T \<Longrightarrow> A' x = A x \<and> S' x = S x \<and> P' x = P x \<and> N' x = N x \<and> V' x = V x"
  shows "heap_ok Z A' S' P' N' V' T H F G t"
proof -
  note D = heap_okD [OF ok]
  have H: "x \<in> ran T" if "x \<in> H" for x using D(6) that by blast
  have st: "start A' x = start A x" if "x \<in> ran T" for x using eq [OF that] by (simp add: start_def)
  have "table_fits Z A' S' T"
  proof -
    have "apart A' S' c d = apart A S c d" if "c \<in> ran T" "d \<in> ran T" for c d
      using st that eq by (simp add: apart_def)
    moreover have "A' c = A c" if "T k = Some c" for k c using eq [OF ranI, OF that] by simp
    moreover have "region A' S' c = region A S c" if "c \<in> ran T" for c using st [OF that] eq [OF that] by (simp add: region_def)
    moreover have "S' c = S c" if "c \<in> ran T" for c using eq [OF that] by simp
    ultimately show ?thesis using D(8) unfolding table_fits_def by metis
  qed
  moreover have "sizes_fit A' S' H G"
    using D(9) eq [OF H] st [OF H] unfolding sizes_fit_def by simp
  moreover have "links_fit A' S' N' V' H G"
    unfolding links_fit_def
  proof (intro conjI ballI allI impI)
    note L = links_fitD [OF D(10)]
    fix c m assume c: "c \<in> H"
    show "m \<in> H" "V' m = Some c" "c \<notin> G \<Longrightarrow> start A' m = start A' c + size_of (S' c)" if "N' c = Some m"
    proof -
      have n: "N c = Some m" using eq [OF H [OF c]] that by simp
      note l = L(1-3) [OF c n]
      show "m \<in> H" "V' m = Some c" "c \<notin> G \<Longrightarrow> start A' m = start A' c + size_of (S' c)"
        using l eq [OF H [OF c]] eq [OF H [OF l(1)]] st [OF H [OF c]] st [OF H [OF l(1)]] by simp_all
    qed
    show "m \<in> H" "N' m = Some c" if "V' c = Some m"
    proof -
      have "V c = Some m" using eq [OF H [OF c]] that by simp
      then have l: "m \<in> H" "N m = Some c" using L(4) [OF c] by auto
      then show "m \<in> H" "N' m = Some c" using eq [OF H [OF l(1)]] by simp_all
    qed
  qed
  moreover have "frees_fit S' P' N' H F t"
  proof -
    note R = frees_fitD [OF D(11)]
    have nH: "m \<in> H" if "c \<in> F" "N c = Some m" for c m using links_fitD(1) [OF D(10) _ that(2)] that(1) D(4) by blast
    have FH: "c \<in> ran T" if "c \<in> F" for c using that D(4) H by blast
    show ?thesis
      unfolding frees_fit_def
    proof (intro conjI ballI impI)
      fix c assume c: "c \<in> F"
      then obtain m where m: "N c = Some m" using R(3) by blast
      show "\<exists>n. N' c = Some n \<and> n \<notin> F \<and> n \<noteq> t \<and> \<not> pinuse (S' n) \<and> unat (P' n) = size_of (S' c)"
        using R(2) [OF c m] m eq [OF FH [OF c]] eq [OF H [OF nH [OF c m]]] by simp
    next
      fix m assume m: "m \<in> H" "\<not> pinuse (S' m)"
      then obtain c where c: "c \<in> F" "N c = Some m" using R(1) [of m] eq [OF H [OF m(1)]] by auto
      then show "\<exists>c \<in> F. N' c = Some m" using eq [OF FH [OF c(1)]] by (intro bexI [of _ c]) auto
    qed
  qed
  moreover have "N' t = None" using D(7) eq [OF H [OF D(1)]] by simp
  moreover have "\<forall>x \<in> ran T - H. N' x = None \<and> P' x = 0" using D(13,14) eq by auto
  moreover have "ended N' H G t" using D(15) eq [OF H] unfolding ended_def by auto
  ultimately show ?thesis using D(1-12) unfolding heap_ok_def by simp
qed

lemma free_pinuse:
  assumes ok: "heap_ok Z A S P N V T H F G t" and c: "c \<in> F"
  shows "pinuse (S c)"
proof (rule ccontr)
  note D = heap_okD [OF ok] and R = frees_fitD [OF heap_okD(11) [OF ok]]
  assume "\<not> pinuse (S c)"
  then obtain b where "b \<in> F" "N b = Some c" using R(1) c D(4) by blast
  then show False using R(2) c by blast
qed

text \<open>The chunk before a chunk whose predecessor is free.\<close>

lemma free_before:
  assumes ok: "heap_ok Z A S P N V T H F G t" and c: "c \<in> H" "\<not> pinuse (S c)"
  obtains m where "m \<in> F" "N m = Some c" "V c = Some m" "unat (P c) = size_of (S m)" "start A c = start A m + size_of (S m)"
    "m \<noteq> c" "pinuse (S m)" "c \<notin> F" "c \<noteq> t" "m \<in> H"
proof -
  note D = heap_okD [OF ok] and L = links_fitD [OF heap_okD(10) [OF ok]] and R = frees_fitD [OF heap_okD(11) [OF ok]]
  obtain m where m: "m \<in> F" "N m = Some c" using R(1) c by blast
  have mH: "m \<in> H" "m \<notin> G" using m(1) D(4,5) by auto
  note r = R(2) [OF m]
  show thesis
    using that [of m] m mH r L(2,3) [OF mH(1) m(2)] free_pinuse [OF ok m(1)] by auto
qed

lemma join_size:
  assumes ok: "heap_ok Z A S P N V T H F G t" and c: "c \<in> H" "c \<notin> G" and n: "N c = Some n"
  shows "size_of (S c) + size_of (S n) < 2 ^ 64 - 64" and "16 dvd size_of (S c) + size_of (S n)"
proof -
  note D = heap_okD [OF ok]
  have nH: "n \<in> H" "start A n = start A c + size_of (S c)" using links_fitD(1,3) [OF D(10) c(1) n] c(2) by auto
  have "64 \<le> start A c" "16 dvd size_of (S c)" "16 dvd size_of (S n)" "start A n + size_of (S n) < 2 ^ 64"
    using D(9) c(1) nH(1) unfolding sizes_fit_def by blast+
  then show "size_of (S c) + size_of (S n) < 2 ^ 64 - 64" and "16 dvd size_of (S c) + size_of (S n)"
    using nH(2) by auto
qed

lemma sum_head:
  fixes a b :: u64
  assumes "unat a + unat b < 2 ^ 64" and "16 dvd unat a + unat b"
  shows "unat (a + b) = unat a + unat b" "size_of ((a + b) OR PREV_INUSE) = unat a + unat b" "\<not> mmapped_bit ((a + b) OR PREV_INUSE)"
proof -
  show *: "unat (a + b) = unat a + unat b" using assms(1) by (simp add: unat_word_ariths)
  show "size_of ((a + b) OR PREV_INUSE) = unat a + unat b" "\<not> mmapped_bit ((a + b) OR PREV_INUSE)"
    using aligned_size(1,2) [of "a + b"] assms(2) unfolding * by simp_all
qed

lemma merge_back_ok:
  assumes ok: "heap_ok Z A S P N V T H F G t" and m: "m \<in> F" "N m = Some c" and c: "c \<notin> G"
    and v: "size_of v = size_of (S m) + size_of (S c)" "pinuse v" "\<not> mmapped_bit v"
  shows "heap_ok Z A (S(m := v)) P (N(m := N c)) (relink_prev (N c) m V) (T(A c := None)) (H - {c}) (F - {m}) G t"
proof -
  note D = heap_okD [OF ok] and R = frees_fitD(2) [OF heap_okD(11) [OF ok] m]
  have mH: "m \<in> H" "m \<notin> G" using m(1) D(4,5) by auto
  have cm: "c \<noteq> m" using R m(1) by blast
  have nk: "A x = k" if "T k = Some x" for k x using D(8) that by (auto simp: table_fits_def)
  have "heap_ok Z A ((S(c := S c OR PREV_INUSE))(m := v)) P (N(m := N c)) (relink_prev (N c) m V) (T(A c := None)) (H - {c})
      (F - {m}) G (if c = t then m else t)"
  proof (rule join_ok [OF take_ok [OF ok m] mH(1) _ mH(2) _ m(2)])
    show "pinuse ((S(c := S c OR PREV_INUSE)) m)" using free_pinuse [OF ok m(1)] cm by simp
  qed (use R c v cm in auto)
  then have "heap_ok Z A ((S(c := S c OR PREV_INUSE))(m := v)) P (N(m := N c)) (relink_prev (N c) m V) (T(A c := None)) (H - {c}) (F - {m}) G t"
    using R by simp
  then show ?thesis
  proof (rule heap_cong)
    fix x assume "x \<in> ran (T(A c := None))"
    then obtain k where "T k = Some x" "k \<noteq> A c" by (auto simp: ran_def split: if_splits)
    then have "x \<noteq> c" using nk by auto
    then show "A x = A x \<and> (S(m := v)) x = (S(c := S c OR PREV_INUSE, m := v)) x \<and> P x = P x \<and> (N(m := N c)) x = (N(m := N c)) x \<and>
        relink_prev (N c) m V x = relink_prev (N c) m V x" by simp
  qed
qed

lemma merge_forward_ok:
  assumes ok: "heap_ok Z A S P N V T H F G t" and m: "m \<in> H" "m \<notin> F" "m \<notin> G" "pinuse (S m)" and n: "N m = Some n" "n \<in> F"
    and q: "N n = Some q" and v: "size_of v = size_of (S m) + size_of (S n)" "pinuse v" "\<not> mmapped_bit v"
  shows "heap_ok Z A (S(q := S q OR PREV_INUSE, m := v)) P (N(m := Some q)) (V(q := Some m)) (T(A n := None)) (H - {n}) (F - {n}) G t"
proof -
  note D = heap_okD [OF ok] and R = frees_fitD(2) [OF heap_okD(11) [OF ok] n(2) q]
  have nG: "n \<notin> G" using n D(5) by auto
  have nt: "n \<noteq> t" using n D(2) by auto
  have "heap_ok Z A ((S(q := S q OR PREV_INUSE))(m := v)) P (N(m := N n)) (relink_prev (N n) m V) (T(A n := None)) (H - {n})
      (F - {n}) G (if n = t then m else t)"
    by (rule join_ok [OF take_ok [OF ok n(2) q] m(1) _ m(3) _ n(1)]) (use m v nG R in auto)
  then show ?thesis using q nt by (simp add: relink_prev_def)
qed

section \<open>The invariant\<close>

text \<open>
  \<open>S\<close> are the heads as they will be when the chunk that is being freed has got its head; otherwise they are
  those of \<open>f\<close>. \<open>X\<close> are the chunks of the fast bins, and of the lists \<open>L\<close> that \<open>malloc_consolidate\<close> has taken
  from them.
\<close>

definition pend where
  "pend Z L E n av T f S H F G X own t \<longleftrightarrow>
     view E n av T f \<and> heap_ok Z (fA f) S (fP f) (fN f) (fV f) T H F G t \<and> rings_ok f own F (bins_base av) \<and>
     fast_ok (fF f) X (L @ fastbinsY av) \<and> length (fastbinsY av) = NFASTBINS \<and> X \<subseteq> H - F - G - {t} \<and> md_top av = Some t \<and>
     (\<forall>c \<in> X. size_of (fS f c) \<le> 160) \<and> (\<forall>c \<in> F. S c = fS f c)"

lemma pendD:
  assumes "pend Z L E n av T f S H F G X own t"
  shows "view E n av T f" "heap_ok Z (fA f) S (fP f) (fN f) (fV f) T H F G t" "rings_ok f own F (bins_base av)"
    "fast_ok (fF f) X (L @ fastbinsY av)" "length (fastbinsY av) = NFASTBINS" "X \<subseteq> H - F - G - {t}" "md_top av = Some t"
    "c \<in> X \<Longrightarrow> size_of (fS f c) \<le> 160" "c \<in> F \<Longrightarrow> S c = fS f c"
  using assms by (simp_all add: pend_def)

lemma pendI:
  assumes "view E n av T f" "heap_ok Z (fA f) S (fP f) (fN f) (fV f) T H F G t" "rings_ok f own F (bins_base av)"
    "fast_ok (fF f) X (L @ fastbinsY av)" "length (fastbinsY av) = NFASTBINS" "X \<subseteq> H - F - G - {t}" "md_top av = Some t"
    "\<And>c. c \<in> X \<Longrightarrow> size_of (fS f c) \<le> 160" "\<And>c. c \<in> F \<Longrightarrow> S c = fS f c"
  shows "pend Z L E n av T f S H F G X own t"
  using assms by (simp add: pend_def)

lemma pend_frame:
  assumes "pend Z L E n av T f S H F G X own t" and "view E n av' T f" and "frame av av'"
  shows "pend Z L E n av' T f S H F G X own t"
  using assms(1,2) frame_sel(2,3,6) [OF assms(3)] by (simp add: pend_def)

lemma bins_other [simp]:
  "rings_ok (f\<lparr>fN := a\<rparr>) own F base = rings_ok f own F base" "rings_ok (f\<lparr>fV := a\<rparr>) own F base = rings_ok f own F base"
  "rings_ok (f\<lparr>fP := b\<rparr>) own F base = rings_ok f own F base"
  by (simp_all add: rings_ok_def)

lemma shown_frame: "frame av av' \<Longrightarrow> shown av' T p = shown av T p"
  using frame_sel(6) [of av av'] by (simp add: shown_def)

text \<open>Chunks of the heap are shown, and are no headers.\<close>

lemma pend_shown:
  assumes "pend Z L E n av T f S H F G X own t" and "c \<in> H"
  shows "c \<in> ran T" and "shown av T c" and "c \<notin> headers (bins_base av)" and "T (fA f c) = Some c"
proof -
  note D = heap_okD [OF pendD(2) [OF assms(1)]]
  show r: "c \<in> ran T" using D(6) assms(2) by blast
  then show "shown av T c" by (simp add: shown_def)
  show "c \<notin> headers (bins_base av)" using view_ran [OF pendD(1) [OF assms(1)] r] by (auto simp: headers_def)
  from r obtain k where "T k = Some c" by (rule ranE)
  then show "T (fA f c) = Some c" using D(8) by (auto simp: table_fits_def)
qed

lemma pend_ran:
  assumes "pend Z L E n av T f S H F G X own t" and "c \<in> H"
  shows "ran (T(fA f c := None)) - (H - {c}) = ran T - H"
proof -
  note D = heap_okD [OF pendD(2) [OF assms(1)]]
  have "k = fA f c" if "T k = Some c" for k using D(8) that by (auto simp: table_fits_def)
  then have "ran (T(fA f c := None)) = ran T - {c}" by (intro ran_delete pend_shown(4) [OF assms]) auto
  then show ?thesis using assms(2) by auto
qed

lemma free_sizes:
  assumes "pend Z L E n av T f S H F G X own t" and "p \<in> F"
  shows "16 dvd size_of (fS f p)" "size_of (fS f p) \<le> 2 ^ 64 - 64" "p \<in> H" "p \<notin> G" "p \<notin> X" "S p = fS f p"
proof -
  note P = pendD [OF assms(1)] and D = heap_okD [OF pendD(2) [OF assms(1)]]
  show H: "p \<in> H" and "p \<notin> G" "p \<notin> X" using D(4,5) P(6) assms(2) by auto
  have "64 \<le> start (fA f) p" "16 dvd size_of (S p)" "start (fA f) p + size_of (S p) < 2 ^ 64"
    using D(9) H unfolding sizes_fit_def by blast+
  moreover show "S p = fS f p" using P(9) assms(2) by blast
  ultimately show "16 dvd size_of (fS f p)" "size_of (fS f p) \<le> 2 ^ 64 - 64" by simp_all
qed

lemma pend_unlink:
  assumes run: "bin_unlink p av = Some (x, y, av')" and I: "pend Z L E n av T f S H F G X own t" and p: "p \<in> F"
    and ab: "check_action (par av) AND 2 \<noteq> 0"
  obtains g where "view E n av' T g" "rings_ok g own (F - {p}) (bins_base av')" "fast_ok (fF g) X (L @ fastbinsY av')"
    "fA g = fA f" "fS g = fS f" "fP g = fP f" "fN g = fN f" "fV g = fV f" "frame av av'"
proof -
  note P = pendD [OF I] and D = heap_okD [OF pendD(2) [OF I]] and q = free_sizes [OF I p]
  have "F \<subseteq> ran T" using D(4,6) by blast
  from bin_unlinkD [OF run P(1,3) p this q(1,2) ab] obtain g where
    g: "view E n av' T g" "rings_ok g own (F - {p}) (bins_base av)" "unlinked p f g" "frame av av'" by blast
  note fr = frame_sel [OF g(4)]
  from g(3) obtain nx b where u: "fF f p = Some nx" "fB f p = Some b" "fF g = (fF f)(b := Some nx)"
    and s: "fA g = fA f" "fS g = fS f" "fP g = fP f" "fN g = fN f" "fV g = fV f" by (auto simp: unlinked_def)
  have "b \<in> F \<union> headers (bins_base av)" using ring_okD(2) [OF rings_okD(1) [OF P(3)] _ u(2)] p by blast
  then have "b \<notin> X" using P(6) pend_shown(3) [OF I] by auto
  then have "fF g z = fF f z" if "z \<in> X" for z using that u(3) by auto
  then have "fast_ok (fF g) X (L @ fastbinsY av')" using P(4) fr(2) fast_cong [of X "fF g" "fF f" "L @ fastbinsY av"] by simp
  then show thesis using that g s fr(6) by metis
qed

text \<open>A chunk in use: it is no chunk of the bins, no fence post and not the top.\<close>

definition used :: "bptr set \<Rightarrow> bptr set \<Rightarrow> bptr set \<Rightarrow> bptr set \<Rightarrow> bptr \<Rightarrow> bptr set" where
  "used H F G X t = H - F - G - X - {t}"

lemma merge_backwardD:
  assumes run: "merge_backward E chk c p sz nxc nextchunk av = Some (m, p', sz', av')"
    and I: "pend Z L E n av T f (fS f) H F G X own t" and c: "c \<in> used H F G X t" "\<not> pinuse (fS f c)"
    and sz: "sz = head_size (fS f c)" and ab: "check_action (par av) AND 2 \<noteq> 0"
  obtains g where "pend Z L E n av' (T(fA f c := None)) g ((fS g)(m := sz' OR PREV_INUSE)) (H - {c}) (F - {m}) G X own t"
    "m \<in> F" "p' = fA g m" "fN g m = Some nxc" "fN f c = Some nxc" "fA g = fA f" "fS g = fS f" "unat sz' < 2 ^ 64 - 64" "16 dvd unat sz'" "frame av av'"
proof -
  note P = pendD [OF I] and D = heap_okD [OF pendD(2) [OF I]]
  have cH: "c \<in> H" "c \<notin> G" "c \<notin> X" using c(1) by (auto simp: used_def)
  obtain m0 where m: "m0 \<in> F" "fN f m0 = Some c" "fV f c = Some m0" "unat (fP f c) = size_of (fS f m0)"
      "start (fA f) c = start (fA f) m0 + size_of (fS f m0)" "m0 \<noteq> c" "pinuse (fS f m0)" "c \<notin> F" "c \<noteq> t" "m0 \<in> H"
    by (rule free_before [OF P(2) cH(1) c(2)])
  have mG: "m0 \<notin> G" using m(1) D(5) by auto
  note js = join_size [OF P(2) m(10) mG m(2)]
  note sc = pend_shown [OF I cH(1)] and sm = pend_shown [OF I m(10)]
  from run obtain av1 x y av2 nx z where r: "assert_md_prev E c p av = Some av1" "md_prev (ci av1 c) = Some m"
      "bin_unlink m av1 = Some (x, y, av2)"
      "md_next (ci (w_md_next (md_next (ci av2 c)) m av2) c) = Some nx"
      "md_next (ci (w_md_prev (Some m) nx (w_md_next (md_next (ci av2 c)) m av2)) c) = Some nxc"
      "unregister_chunk E p (w_md_prev (Some m) nx (w_md_next (md_next (ci av2 c)) m av2)) = Some (z, av')"
      "p' = chunkinfo2chunk av1 m" "sz' = sz + prev_size (ci av c)"
    unfolding merge_backward_def Let_def
    by (elim bindE) (auto simp: assert_c_def split: if_splits)
  note a = assert_md_prevD [OF r(1) P(1) sc(2)]
  have "m = m0" using view_sel(9) [OF a(3), of c] sc(2) shown_frame [OF a(4)] r(2) m(3) by simp
  note m = m [folded this] and mG = mG [folded this] and js = js [folded this]
  have I1: "pend Z L E n av1 T f (fS f) H F G X own t" by (rule pend_frame [OF I a(3,4)])
  have ab1: "check_action (par av1) AND 2 \<noteq> 0" using ab frame_proc(1) [OF a(4)] by simp
  obtain g where g: "view E n av2 T g" "rings_ok g own (F - {m}) (bins_base av2)" "fast_ok (fF g) X (L @ fastbinsY av2)"
    "fA g = fA f" "fS g = fS f" "fP g = fP f" "fN g = fN f" "fV g = fV f" "frame av1 av2"
    by (rule pend_unlink [OF r(3) I1 m(1) ab1])
  define b1 where "b1 = w_md_next (fN f c) m av2"
  have fr: "frame av b1" unfolding b1_def by (rule frame_trans [OF a(4) frame_step [OF g(9)]])
  have s2: "shown av2 T c" using sc(2) shown_frame [OF a(4)] shown_frame [OF g(9)] by simp
  have e1: "md_next (ci av2 c) = fN f c" using view_sel(8) [OF g(1) s2] g(7) by simp
  have v1: "view E n b1 T (g\<lparr>fN := (fN g)(m := fN f c)\<rparr>)" unfolding b1_def by (rule view_writes(7) [OF g(1)])
  have nx: "fN f c = Some nx" using r(4) view_sel(8) [OF v1, of c] sc(2) shown_frame [OF fr] g(7) m(6) by (simp add: e1 b1_def)
  define b2 where "b2 = w_md_prev (Some m) nx b1"
  have v2: "view E n b2 T (g\<lparr>fN := (fN g)(m := fN f c), fV := (fV g)(nx := Some m)\<rparr>)"
    unfolding b2_def using view_writes(8) [OF v1, of "Some m" nx] by simp
  have fr2: "frame av b2" using fr by (simp add: b2_def)
  have nxc: "nxc = nx" using r(5) view_sel(8) [OF v2, of c] sc(2) shown_frame [OF fr2] g(7) m(6) nx by (simp add: e1 b1_def b2_def)
  have un: "unregister_chunk E p b2 = Some (z, av')" using r(6) by (simp add: e1 b1_def b2_def)
  note u = unregister_view [OF un v2, of c]
  have Tp: "T p = Some c" using sc(4) a(1) by simp
  note u = u [OF Tp]
  define h where "h = g\<lparr>fN := (fN f)(m := Some nxc), fV := (fV f)(nxc := Some m)\<rparr>"
  have vh: "view E n av' (T(fA f c := None)) h" using u(1) nx nxc g(7,8) a(1) by (simp add: h_def)
  have frh: "frame av av'" by (rule frame_trans [OF fr2 u(2)])
  have sz': "unat sz' = size_of (fS f m) + size_of (fS f c)" "size_of (sz' OR PREV_INUSE) = size_of (fS f m) + size_of (fS f c)"
      "\<not> mmapped_bit (sz' OR PREV_INUSE)"
    using sum_head [of sz "fP f c"] js sz m(4) r(8) view_sel(2) [OF P(1) sc(2)] by (auto simp: add.commute)
  have "heap_ok Z (fA f) ((fS f)(m := sz' OR PREV_INUSE)) (fP f) ((fN f)(m := fN f c)) (relink_prev (fN f c) m (fV f))
      (T(fA f c := None)) (H - {c}) (F - {m}) G t"
    by (rule merge_back_ok [OF P(2) m(1,2) cH(2)]) (use sz' in simp_all)
  then have "heap_ok Z (fA h) ((fS h)(m := sz' OR PREV_INUSE)) (fP h) (fN h) (fV h) (T(fA f c := None)) (H - {c}) (F - {m}) G t"
    using nx nxc g by (simp add: h_def relink_prev_def)
  moreover have "rings_ok h own (F - {m}) (bins_base av')"
    using g(2) frame_sel(6) [OF frh] frame_sel(6) [OF a(4)] frame_sel(6) [OF g(9)] by (simp add: h_def)
  moreover have "fast_ok (fF h) X (L @ fastbinsY av')"
    using g(3) frame_sel(2) [OF frh] frame_sel(2) [OF a(4)] frame_sel(2) [OF g(9)] by (simp add: h_def)
  moreover have "m \<notin> X" using m(1) P(6) by auto
  ultimately have "pend Z L E n av' (T(fA f c := None)) h ((fS h)(m := sz' OR PREV_INUSE)) (H - {c}) (F - {m}) G X own t"
    using vh P(5-8) cH g(5) frame_sel(2,3) [OF frh] by (auto simp: pend_def h_def)
  moreover have "p' = fA h m"
    using r(7) view_chunk(1) [OF a(3), of m] pend_shown(2) [OF I1 m(10)] g(4) by (simp add: h_def)
  moreover have "fN h m = Some nxc" "fN f c = Some nxc" "fA h = fA f" "fS h = fS f" using nx nxc g by (simp_all add: h_def)
  ultimately show thesis using that m(1) js sz'(1) frh by simp
qed

text \<open>
  The next chunk of \<open>m\<close> is \<open>nn\<close>, it is in use and already marked as the successor of a free chunk, and \<open>m\<close> with
  its new size \<open>sz\<close> has to be put into the list of unsorted chunks.
\<close>

definition ready where
  "ready Z L E n av T f H F G X own t m sz nn \<longleftrightarrow>
     pend Z L E n av T f ((fS f)(nn := fS f nn OR PREV_INUSE, m := sz OR PREV_INUSE)) H F G X own t \<and> m \<in> used H F G X t \<and>
     fN f m = Some nn \<and> nn \<notin> F \<and> nn \<noteq> t \<and> nn \<noteq> m \<and> \<not> pinuse (fS f nn) \<and> unat sz < 2 ^ 64 - 64 \<and> 16 dvd unat sz"

text \<open>The successor of the successor tells whether the successor is free.\<close>

lemma next_free_iff:
  assumes I: "pend Z L E n av T f ((fS f)(m := v)) H F G X own t" and m: "m \<in> used H F G X t" "pinuse (fS f m)" "pinuse v"
    and q: "fN f m = Some q" "fN f q = Some r"
  shows "pinuse (fS f r) \<longleftrightarrow> q \<notin> F"
proof -
  note P = pendD [OF I] and D = heap_okD [OF pendD(2) [OF I]] and L = links_fitD [OF heap_okD(10) [OF pendD(2) [OF I]]]
    and R = frees_fitD [OF heap_okD(11) [OF pendD(2) [OF I]]]
  have mH: "m \<in> H" using m(1) by (simp add: used_def)
  have qH: "q \<in> H" "r \<in> H" using L(1) [OF mH q(1)] L(1) [OF _ q(2)] by auto
  show ?thesis
  proof
    assume "pinuse (fS f r)"
    then have "pinuse (((fS f)(m := v)) r)" using m(3) by simp
    then show "q \<notin> F" using R(2) q(2) by blast
  next
    assume "q \<notin> F"
    show "pinuse (fS f r)"
    proof (rule ccontr)
      assume np: "\<not> pinuse (fS f r)"
      then have "r \<noteq> m" using m(2) by auto
      then obtain c where c: "c \<in> F" "fN f c = Some r" using R(1) [OF qH(2)] np by auto
      have "fV f r = Some c" "fV f r = Some q" using L(2) [of c r] c D(4) L(2) [OF qH(1) q(2)] by auto
      then show False using \<open>q \<notin> F\<close> c(1) by simp
    qed
  qed
qed

lemma next_not_self:
  assumes "pend Z L E n av T f S H F G X own t" and "m \<in> used H F G X t" and "fN f m = Some q"
  shows "q \<noteq> m" and "q \<in> H"
proof -
  note D = heap_okD [OF pendD(2) [OF assms(1)]]
  have m: "m \<in> H" "m \<notin> G" using assms(2) by (auto simp: used_def)
  have "start (fA f) q = start (fA f) m + size_of (S m)" "16 \<le> size_of (S m)"
    using links_fitD(3) [OF D(10) m(1) assms(3) m(2)] D(9) m(1) by (auto simp: sizes_fit_def)
  then show "q \<noteq> m" by auto
  show "q \<in> H" by (rule links_fitD(1) [OF D(10) m(1) assms(3)])
qed

text \<open>The chunk after one in use knows that its predecessor is in use.\<close>

lemma next_marked:
  assumes I: "pend Z L E n av T f ((fS f)(m := v)) H F G X own t" and m: "m \<in> used H F G X t" and q: "fN f m = Some q"
  shows "pinuse (fS f q)"
proof (rule ccontr)
  note D = heap_okD [OF pendD(2) [OF I]] and L = links_fitD [OF heap_okD(10) [OF pendD(2) [OF I]]]
    and R = frees_fitD [OF heap_okD(11) [OF pendD(2) [OF I]]]
  note nq = next_not_self [OF I m q]
  assume "\<not> pinuse (fS f q)"
  then obtain c where c: "c \<in> F" "fN f c = Some q" using R(1) [OF nq(2)] nq(1) by auto
  have "fV f q = Some c" "fV f q = Some m" using L(2) [of c q] c D(4) L(2) [OF _ q] m by (auto simp: used_def)
  then show False using c(1) m by (simp add: used_def)
qed

lemma clear_ready:
  assumes I: "pend Z L E n av T f ((fS f)(m := sz OR PREV_INUSE)) H F G X own t" and m: "m \<in> used H F G X t"
    and q: "fN f m = Some q" "q \<notin> F" "q \<noteq> t" and sz: "unat sz < 2 ^ 64 - 64" "16 dvd unat sz"
  shows "ready Z L E n (clear_inuse_bit q av) T (f\<lparr>fS := (fS f)(q := fS f q AND NOT PREV_INUSE)\<rparr>) H F G X own t m sz q"
    and "frame av (clear_inuse_bit q av)"
proof -
  note P = pendD [OF I] and nq = next_not_self [OF I m q(1)] and pq = next_marked [OF I m q(1)]
  let ?f = "f\<lparr>fS := (fS f)(q := fS f q AND NOT PREV_INUSE)\<rparr>"
  show fr: "frame av (clear_inuse_bit q av)" by (simp add: clear_inuse_bit_def)
  have v: "view E n (clear_inuse_bit q av) T ?f"
    using view_writes(1) [OF P(1), of "fS f q AND NOT PREV_INUSE" q] view_sel(3) [OF P(1) pend_shown(2) [OF I nq(2)]]
    by (simp add: clear_inuse_bit_def)
  have S: "(fS ?f)(q := fS ?f q OR PREV_INUSE, m := sz OR PREV_INUSE) = (fS f)(m := sz OR PREV_INUSE)"
  proof -
    have "(fS f q AND NOT PREV_INUSE) OR PREV_INUSE = fS f q"
      using pq by (intro bit_eqI) (auto simp: pinuse_bit bit_or_iff bit_and_iff bit_not_iff bit_1_iff PREV_INUSE_def)
    then show ?thesis by simp
  qed
  have "rings_ok ?f own F (bins_base av)"
  proof (rule bins_cong [OF P(3)])
    fix x assume "x \<in> F \<union> headers (bins_base av)"
    then have "x \<noteq> q" using q(2) pend_shown(3) [OF I nq(2)] by auto
    then show "fF ?f x = fF f x \<and> fB ?f x = fB f x \<and> fFN ?f x = fFN f x \<and> fBN ?f x = fBN f x \<and> fS ?f x = fS f x \<and> own x = own x"
      by simp
  qed
  moreover have "size_of (fS ?f x) \<le> 160" if "x \<in> X" for x using P(8) [OF that] by auto
  moreover have "((fS f)(m := sz OR PREV_INUSE)) c = fS ?f c" if "c \<in> F" for c
    using that q(2) m by (auto simp: used_def)
  ultimately have "pend Z L E n (clear_inuse_bit q av) T ?f ((fS f)(m := sz OR PREV_INUSE)) H F G X own t"
    using v P(2,4-7) frame_sel(2,3,6) [OF fr] by (simp add: pend_def)
  then show "ready Z L E n (clear_inuse_bit q av) T ?f H F G X own t m sz q"
    using S m q nq(1) sz by (simp add: ready_def)
qed

lemma merge_forwardD:
  assumes run: "merge_forward E strict m p sz q nextchunk nextsize av = Some (sz', av')"
    and I: "pend Z L E n av T f ((fS f)(m := sz OR PREV_INUSE)) H F G X own t" and m: "m \<in> used H F G X t"
    and q: "fN f m = Some q" "q \<in> F" and a: "nextchunk = fA f q" "nextsize = head_size (fS f q)"
    and sz: "unat sz < 2 ^ 64 - 64" "16 dvd unat sz" and ab: "check_action (par av) AND 2 \<noteq> 0"
  obtains g nn where "ready Z L E n av' (T(fA f q := None)) g (H - {q}) (F - {q}) G X own t m sz' nn"
    "fA g = fA f" "fS g = fS f" "frame av av'"
proof -
  let ?S = "(fS f)(m := sz OR PREV_INUSE)"
  note P = pendD [OF I] and D = heap_okD [OF pendD(2) [OF I]] and nq = next_not_self [OF I m q(1)]
    and R = frees_fitD [OF heap_okD(11) [OF pendD(2) [OF I]]]
  have mH: "m \<in> H" "m \<notin> F" "m \<notin> G" "m \<notin> X" using m by (auto simp: used_def)
  have szm: "size_of (sz OR PREV_INUSE) = unat sz" using aligned_size(1) [OF sz(2)] by simp
  obtain nn where nn: "fN f q = Some nn" using R(3) [OF q(2)] by blast
  note r = R(2) [OF q(2) nn]
  have nnm: "nn \<noteq> m" using r by auto
  have nnH: "nn \<in> H" using links_fitD(1) [OF D(10) nq(2) nn] .
  from run obtain x y av1 z where e: "bin_unlink q av = Some (x, y, av1)"
      "unregister_chunk E nextchunk (case md_next (ci av1 q) of None \<Rightarrow> w_md_next (md_next (ci av1 q)) m av1
         | Some t \<Rightarrow> w_md_prev (Some m) t (w_md_next (md_next (ci av1 q)) m av1)) = Some (z, av')" "sz' = sz + nextsize"
    unfolding merge_forward_def Let_def by (elim bindE) auto
  obtain g where g: "view E n av1 T g" "rings_ok g own (F - {q}) (bins_base av1)" "fast_ok (fF g) X (L @ fastbinsY av1)"
    "fA g = fA f" "fS g = fS f" "fP g = fP f" "fN g = fN f" "fV g = fV f" "frame av av1"
    by (rule pend_unlink [OF e(1) I q(2) ab])
  have "md_next (ci av1 q) = Some nn"
    using view_sel(8) [OF g(1), of q] pend_shown(2) [OF I nq(2)] shown_frame [OF g(9)] g(7) nn by simp
  then have un: "unregister_chunk E (fA f q) (w_md_prev (Some m) nn (w_md_next (Some nn) m av1)) = Some (z, av')"
    using e(2) a(1) by simp
  have v: "view E n (w_md_prev (Some m) nn (w_md_next (Some nn) m av1)) T (g\<lparr>fN := (fN g)(m := Some nn), fV := (fV g)(nn := Some m)\<rparr>)"
    using view_writes(8) [OF view_writes(7) [OF g(1), of "Some nn" m], of "Some m" nn] by simp
  define h where "h = g\<lparr>fN := (fN f)(m := Some nn), fV := (fV f)(nn := Some m)\<rparr>"
  note u = unregister_view [OF un v pend_shown(4) [OF I nq(2)]]
  have vh: "view E n av' (T(fA f q := None)) h" using u(1) g by (simp add: h_def)
  have fr: "frame av av'" by (rule frame_trans [OF frame_step [OF frame_step [OF g(9)]] u(2)])
  have jb: "unat sz + size_of (fS f q) < 2 ^ 64 - 64" "16 dvd unat sz + size_of (fS f q)"
    using join_size [OF P(2) mH(1,3) q(1)] szm nq(1) by simp_all
  note s = sum_head [of sz "head_size (fS f q)"]
  have sz': "unat sz' = unat sz + size_of (fS f q)" "size_of (sz' OR PREV_INUSE) = unat sz + size_of (fS f q)"
      "\<not> mmapped_bit (sz' OR PREV_INUSE)"
    using s jb e(3) a(2) by auto
  have "heap_ok Z (fA f) (?S(nn := ?S nn OR PREV_INUSE, m := sz' OR PREV_INUSE)) (fP f) ((fN f)(m := Some nn)) ((fV f)(nn := Some m))
      (T(fA f q := None)) (H - {q}) (F - {q}) G t"
    by (rule merge_forward_ok [OF P(2) mH(1-3) _ q nn]) (use sz' szm nq in simp_all)
  then have "heap_ok Z (fA h) ((fS h)(nn := fS h nn OR PREV_INUSE, m := sz' OR PREV_INUSE)) (fP h) (fN h) (fV h)
      (T(fA f q := None)) (H - {q}) (F - {q}) G t"
    using nnm g by (simp add: h_def fun_upd_twist)
  moreover have "rings_ok h own (F - {q}) (bins_base av')"
    using g(2) frame_sel(6) [OF fr] frame_sel(6) [OF g(9)] by (simp add: h_def)
  moreover have "fast_ok (fF h) X (L @ fastbinsY av')"
    using g(3) frame_sel(2) [OF fr] frame_sel(2) [OF g(9)] by (simp add: h_def)
  moreover have "q \<notin> X" "q \<notin> G" using q(2) P(6) D(5) by auto
  ultimately have "pend Z L E n av' (T(fA f q := None)) h ((fS h)(nn := fS h nn OR PREV_INUSE, m := sz' OR PREV_INUSE))
      (H - {q}) (F - {q}) G X own t"
    using vh P(5-8) g(5) frame_sel(2,3) [OF fr] r mH by (auto simp: pend_def h_def)
  then have "ready Z L E n av' (T(fA f q := None)) h (H - {q}) (F - {q}) G X own t m sz' nn"
    using m nq r nnm sz' jb g by (auto simp: ready_def used_def h_def)
  then show thesis using that g fr by (simp add: h_def)
qed

end
