(* ===== verification/Malloc_Free.thy ===== *)
theory Malloc_Free
  imports Malloc_Merge
begin

text \<open>
  \<open>_int_free\<close>, \<open>malloc_consolidate\<close> and \<open>systrim\<close> keep the invariant of the arena: a chunk that is freed goes
  to a fast bin, to the list of unsorted chunks or to top, and the chunks in use stay as they are.
\<close>

section \<open>A freed chunk in the unsorted list\<close>

definition placed :: "bptr \<Rightarrow> u64 \<Rightarrow> bptr \<Rightarrow> bptr \<Rightarrow> bptr \<Rightarrow> fields \<Rightarrow> fields" where
  "placed m sz nn b w f = f\<lparr>fS := (fS f)(m := sz OR PREV_INUSE), fP := (fP f)(nn := sz),
     fF := (fF f)(m := Some w, b := Some m), fB := (fB f)(m := Some b, w := Some m),
     fFN := (if in_smallbin_range sz then fFN f else (fFN f)(m := None)),
     fBN := (if in_smallbin_range sz then fBN f else (fBN f)(m := None))\<rparr>"

lemma unsorted_header [simp]: "unsorted_chunks av = Bptr (bins_base av) 1" "Bptr base 1 \<in> headers base" "Bptr base (Suc 0) \<in> headers base"
  by (auto simp: bin_at_def headers_def NBINS_def)

lemma head_size_or:
  assumes "16 dvd unat s"
  shows "head_size (s OR PREV_INUSE) = s"
  using aligned_size(1) [OF assms] by (simp add: word_unat_eq_iff)

lemma placed_ok:
  assumes R: "ready Z L E n av T f H F G X own t m sz nn" and w: "fF f (Bptr (bins_base av) 1) = Some w"
    and v: "view E n av' T (placed m sz nn (Bptr (bins_base av) 1) w f)"
    and fr: "fastbinsY av' = fastbinsY av" "md_top av' = md_top av" "bins_base av' = bins_base av"
  defines "g \<equiv> placed m sz nn (Bptr (bins_base av) 1) w f"
  shows "pend Z L E n av' T g (fS g) H (insert m F) G X (own(m := 1)) t"
proof -
  let ?b = "Bptr (bins_base av) 1" and ?S = "(fS f)(nn := fS f nn OR PREV_INUSE, m := sz OR PREV_INUSE)"
  have I: "pend Z L E n av T f ?S H F G X own t" and mu: "m \<in> used H F G X t" and nn: "fN f m = Some nn" "nn \<notin> F" "nn \<noteq> t" "nn \<noteq> m"
      "\<not> pinuse (fS f nn)" and sz: "unat sz < 2 ^ 64 - 64" "16 dvd unat sz"
    using R by (simp_all add: ready_def)
  note P = pendD [OF I] and B = rings_okD [OF pendD(3) [OF I]]
  have m: "m \<in> H" "m \<notin> F" "m \<notin> G" "m \<notin> X" using mu by (auto simp: used_def)
  have mh: "m \<notin> headers (bins_base av)" by (rule pend_shown(3) [OF I m(1)])
  have hs: "head_size (sz OR PREV_INUSE) = sz" by (rule head_size_or [OF sz(2)])
  have "heap_ok Z (fA f) (?S(nn := ?S nn AND NOT PREV_INUSE)) ((fP f)(nn := sz)) (fN f) (fV f) T H (insert m F) G t"
    by (rule release_ok [OF P(2) m(1,3) _ nn(1-3)]) (use aligned_size(1) [OF sz(2)] nn in simp_all)
  moreover have "?S(nn := ?S nn AND NOT PREV_INUSE) = fS g"
    using nn set_pinuse_again(2) [OF nn(5)] by (auto simp: g_def placed_def fun_eq_iff)
  ultimately have "heap_ok Z (fA g) (fS g) (fP g) (fN g) (fV g) T H (insert m F) G t" by (simp add: g_def placed_def)
  moreover have "rings_ok g (own(m := 1)) (insert m F) (bins_base av)"
    unfolding rings_ok_def
  proof (intro conjI ballI)
    have "own ?b = 1" using B(1) by (auto simp: ring_ok_def NBINS_def)
    then show "ring_ok (fF g) (fB g) (own(m := 1)) (insert m F) (bins_base av)"
      using insert_ring [OF B(1) _ w, of m] m mh by (simp add: g_def placed_def)
    have "skip_ok (fFN g) (fBN g) own F (bins_base av)"
      by (rule skip_cong [OF _ B(2)]) (use m mh in \<open>auto simp: g_def placed_def\<close>)
    then show "skip_ok (fFN g) (fBN g) (own(m := 1)) (insert m F) (bins_base av)" by (rule skip_add) (use m mh in auto)
    show "fS g x = 0" if "x \<in> headers (bins_base av)" for x using B(3) [OF that] that mh by (auto simp: g_def placed_def)
    fix c assume c: "c \<in> insert m F"
    have "fS g m = sz OR PREV_INUSE" by (simp add: g_def placed_def)
    then show "1 \<le> (own(m := 1)) c" "2 \<le> (own(m := 1)) c \<longrightarrow> (own(m := 1)) c = unat (bin_index (head_size (fS g c)))"
      "(own(m := 1)) c = 1 \<longrightarrow> \<not> in_smallbin_range (head_size (fS g c)) \<longrightarrow> fFN g c = None \<and> fBN g c = None"
      using B(4-6) [of c] c m hs by (auto simp: g_def placed_def)
  qed
  moreover have "?b \<notin> X" using P(6) pend_shown(3) [OF I, of ?b] unsorted_header(2) by blast
  then have "fF g x = fF f x" if "x \<in> X" for x using that m by (auto simp: g_def placed_def)
  then have "fast_ok (fF g) X (L @ fastbinsY av')" using P(4) fast_cong [of X "fF g" "fF f"] fr(1) by simp
  moreover have "fS g c = fS f c" if "c \<in> X" for c using that m by (auto simp: g_def placed_def)
  ultimately show ?thesis using v P(5-8) m fr unfolding g_def [symmetric] by (auto simp: pend_def)
qed

lemma clear_nextsize_view:
  assumes "view E n av T f"
  shows "view E n (clear_nextsize sz m av) T (f\<lparr>fFN := (if in_smallbin_range sz then fFN f else (fFN f)(m := None)),
      fBN := (if in_smallbin_range sz then fBN f else (fBN f)(m := None))\<rparr>)" and "frame av (clear_nextsize sz m av)"
  using assms view_writes(6) [OF view_writes(5) [OF assms, of None m], of None m] by (auto simp: clear_nextsize_def)

lemma place_unsortedD:
  assumes run: "place_unsorted E m sz av = Some (ok, av')" and R: "ready Z L E n av T f H F G X own t m sz nn"
    and ab: "check_action (par av) AND 2 \<noteq> 0"
  obtains w where "ok" "frame av av'" "pend Z L E n av' T (placed m sz nn (Bptr (bins_base av) 1) w f)
    (fS (placed m sz nn (Bptr (bins_base av) 1) w f)) H (insert m F) G X (own(m := 1)) t"
proof -
  let ?b = "Bptr (bins_base av) 1"
  have I: "pend Z L E n av T f ((fS f)(nn := fS f nn OR PREV_INUSE, m := sz OR PREV_INUSE)) H F G X own t" and mu: "m \<in> used H F G X t"
    and nn: "fN f m = Some nn" and sz: "16 dvd unat sz" using R by (simp_all add: ready_def)
  note P = pendD [OF I] and B = rings_okD [OF pendD(3) [OF I]]
  have m: "m \<in> H" using mu by (auto simp: used_def)
  have mb: "m \<noteq> ?b" using pend_shown(3) [OF I m] by auto
  have sb: "shown av T ?b" by (simp add: shown_def)
  obtain w where w: "fF f ?b = Some w" using ring_okD(3) [OF B(1), of ?b] by auto
  define a1 where "a1 = clear_nextsize sz m (w_bk (Some ?b) m (w_fd (Some w) m av))"
  define a2 where "a2 = set_head m (sz OR PREV_INUSE) (w_bk (Some m) w (w_fd (Some m) ?b a1))"
  from run w obtain av2 where r: "set_foot E m a2 = Some av2" "ok" "av' = av2"
    using view_sel(4) [OF P(1) sb] printerr_abort [OF ab]
    by (auto simp: place_unsorted_def Let_def a1_def a2_def bind_eq_Some_conv split: if_splits)
  define f1 where "f1 = f\<lparr>fF := (fF f)(m := Some w), fB := (fB f)(m := Some ?b),
     fFN := (if in_smallbin_range sz then fFN f else (fFN f)(m := None)),
     fBN := (if in_smallbin_range sz then fBN f else (fBN f)(m := None))\<rparr>"
  have v1: "view E n a1 T f1"
    using clear_nextsize_view(1) [OF view_writes(4) [OF view_writes(3) [OF P(1), of "Some w" m], of "Some ?b" m], of sz m]
    by (simp add: a1_def f1_def cong: if_cong)
  define f2 where "f2 = f1\<lparr>fS := (fS f)(m := sz OR PREV_INUSE), fF := (fF f)(m := Some w, ?b := Some m), fB := (fB f)(m := Some ?b, w := Some m)\<rparr>"
  have v2: "view E n a2 T f2"
    using view_writes(9) [OF view_writes(4) [OF view_writes(3) [OF v1, of "Some m" ?b], of "Some m" w], of m "sz OR PREV_INUSE"]
    by (simp add: a2_def f1_def f2_def cong: if_cong)
  have fr2: "frame av a2"
    using frame_trans [OF _ clear_nextsize_view(2) [of E n _ T], of av] view_writes(4) [OF view_writes(3) [OF P(1), of "Some w" m], of "Some ?b" m]
    by (simp add: a2_def a1_def set_head_def)
  note sf = set_footD [OF r(1) v2]
  have s2: "shown a2 T m" using pend_shown(2) [OF I m] shown_frame [OF fr2] by simp
  have fr: "frame av av'" unfolding r(3) by (rule frame_trans [OF fr2 sf(2) [OF s2]])
  have "view E n av' T (placed m sz nn ?b w f)"
    using sf(1) [OF s2] nn r(3) head_size_or [OF sz] by (simp add: f2_def f1_def placed_def cong: if_cong)
  from placed_ok [OF R w this frame_sel(2,3,6) [OF fr]] show thesis using that r(2) fr by blast
qed

text \<open>The same in \<open>malloc_consolidate\<close>, which links the chunk in another order.\<close>

lemma consolidate_placeD:
  fixes av :: "'z proc_scheme" and sz :: u64 and m w :: bptr
  defines "b \<equiv> Bptr (bins_base av) 1"
  defines "a3 \<equiv> w_fd (Some w) m (w_bk (Some b) m (set_head m (sz OR PREV_INUSE) (clear_nextsize sz m (w_bk (Some m) w (w_fd (Some m) b av)))))"
  assumes run: "set_foot E m a3 = Some av'" and R: "ready Z L E n av T f H F G X own t m sz nn" and w: "fF f b = Some w"
  shows "frame av av'" and "pend Z L E n av' T (placed m sz nn b w f) (fS (placed m sz nn b w f)) H (insert m F) G X (own(m := 1)) t"
proof -
  have I: "pend Z L E n av T f ((fS f)(nn := fS f nn OR PREV_INUSE, m := sz OR PREV_INUSE)) H F G X own t" and mu: "m \<in> used H F G X t"
    and nn: "fN f m = Some nn" and sz: "16 dvd unat sz" using R by (simp_all add: ready_def)
  note P = pendD [OF I] and B = rings_okD [OF pendD(3) [OF I]]
  have m: "m \<in> H" "m \<notin> F" using mu by (auto simp: used_def)
  have mb: "m \<noteq> b" using pend_shown(3) [OF I m(1)] by (auto simp: b_def)
  have mw: "m \<noteq> w" using ring_okD(1) [OF B(1) _ w] m pend_shown(3) [OF I m(1)] by (auto simp: b_def)
  have v1: "view E n (w_bk (Some m) w (w_fd (Some m) b av)) T (f\<lparr>fF := (fF f)(b := Some m), fB := (fB f)(w := Some m)\<rparr>)"
    using view_writes(4) [OF view_writes(3) [OF P(1), of "Some m" b], of "Some m" w] by simp
  note c = clear_nextsize_view [OF v1, of sz m]
  define f3 where "f3 = f\<lparr>fS := (fS f)(m := sz OR PREV_INUSE), fF := (fF f)(m := Some w, b := Some m), fB := (fB f)(m := Some b, w := Some m),
     fFN := (if in_smallbin_range sz then fFN f else (fFN f)(m := None)),
     fBN := (if in_smallbin_range sz then fBN f else (fBN f)(m := None))\<rparr>"
  have v3: "view E n a3 T f3"
    using view_writes(3) [OF view_writes(4) [OF view_writes(9) [OF c(1), of m "sz OR PREV_INUSE"], of "Some b" m], of "Some w" m] mb mw
    by (simp add: a3_def f3_def fun_upd_twist cong: if_cong)
  have fr3: "frame av a3"
    using frame_trans [OF _ c(2), of av] by (simp add: a3_def set_head_def)
  note sf = set_footD [OF run v3]
  have s3: "shown a3 T m" using pend_shown(2) [OF I m(1)] shown_frame [OF fr3] by simp
  show fr: "frame av av'" by (rule frame_trans [OF fr3 sf(2) [OF s3]])
  have "view E n av' T (placed m sz nn b w f)"
    using sf(1) [OF s3] nn head_size_or [OF sz] by (simp add: f3_def placed_def cong: if_cong)
  then show "pend Z L E n av' T (placed m sz nn b w f) (fS (placed m sz nn b w f)) H (insert m F) G X (own(m := 1)) t"
    using placed_ok [OF R w [unfolded b_def] _ frame_sel(2,3,6) [OF fr]] by (simp add: b_def)
qed

section \<open>The chunk that is being freed\<close>

text \<open>What all these operations leave alone.\<close>

definition keeps :: "'z proc_scheme \<Rightarrow> 'z proc_scheme \<Rightarrow> bool" where
  "keeps av av' \<longleftrightarrow> par av' = par av \<and> is_main av' = is_main av \<and> bins_base av' = bins_base av \<and>
     initial_top av' = initial_top av \<and> calls av' = calls av"

lemma keeps_refl [simp]: "keeps av av"
  by (simp add: keeps_def)

lemma keeps_trans: "keeps a b \<Longrightarrow> keeps b c \<Longrightarrow> keeps a c"
  by (simp add: keeps_def)

lemma frame_keeps: "frame av av' \<Longrightarrow> keeps av av'"
  using frame_sel(6) [of av av'] frame_sel(11) [of av av'] frame_sel(4) [of av av'] frame_proc(1,3) [of av av']
  by (simp add: keeps_def)

text \<open>The chunk \<open>m\<close> with the size \<open>sz\<close> so far; its predecessor is in use.\<close>

definition loose where
  "loose Z L E n av T f H F G X own t m sz \<longleftrightarrow> pend Z L E n av T f ((fS f)(m := sz OR PREV_INUSE)) H F G X own t \<and>
     m \<in> used H F G X t \<and> pinuse (fS f m) \<and> unat sz < 2 ^ 64 - 64 \<and> 16 dvd unat sz"

lemma head_size_or_eq: "pinuse s \<Longrightarrow> \<not> mmapped_bit s \<Longrightarrow> head_size s OR PREV_INUSE = s"
  unfolding pinuse_bit mmapped_bit_bit head_size_def SIZE_BITS_mask PREV_INUSE_def
  by (rule bit_eqI) (auto simp: bit_or_iff bit_and_iff bit_not_iff bit_mask_iff bit_1_iff less_2_cases_iff)

lemma used_sizes:
  assumes "pend Z L E n av T f S H F G X own t" and "c \<in> H"
  shows "size_of (S c) < 2 ^ 64 - 64" "16 dvd size_of (S c)" "\<not> mmapped_bit (S c)" "c \<notin> G \<Longrightarrow> 32 \<le> size_of (S c)"
    "64 \<le> start (fA f) c" "16 dvd start (fA f) c" "start (fA f) c + size_of (S c) < 2 ^ 64"
proof -
  note D = heap_okD(9) [OF pendD(2) [OF assms(1)]]
  show s: "64 \<le> start (fA f) c" "16 dvd start (fA f) c" "start (fA f) c + size_of (S c) < 2 ^ 64"
    using D assms(2) unfolding sizes_fit_def by blast+
  then show "size_of (S c) < 2 ^ 64 - 64" by simp
  show "16 dvd size_of (S c)" "\<not> mmapped_bit (S c)" "c \<notin> G \<Longrightarrow> 32 \<le> size_of (S c)"
    using D assms(2) unfolding sizes_fit_def by blast+
qed

lemma start_loose:
  assumes I: "pend Z L E n av T f (fS f) H F G X own t" and c: "c \<in> used H F G X t" "pinuse (fS f c)"
  shows "loose Z L E n av T f H F G X own t c (head_size (fS f c))"
proof -
  have "c \<in> H" using c(1) by (simp add: used_def)
  note s = used_sizes [OF I this]
  have "(fS f)(c := head_size (fS f c) OR PREV_INUSE) = fS f" using head_size_or_eq [OF c(2) s(3)] by simp
  then show ?thesis using I c s by (simp add: loose_def)
qed

lemma back_looseD:
  assumes run: "(if \<not> pinuse (fS f c) then merge_backward E chk c p sz nxc nextchunk av else Some (c, p, sz, av)) = Some (m, p', sz', av')"
    and I: "pend Z L E n av T f (fS f) H F G X own t" and c: "c \<in> used H F G X t"
    and sz: "sz = head_size (fS f c)" "p = fA f c" "fN f c = Some nxc" and ab: "check_action (par av) AND 2 \<noteq> 0"
  obtains T' g H' F' where "loose Z L E n av' T' g H' F' G X own t m sz'" "used H' F' G X t - {m} = used H F G X t - {c}"
    "p' = fA g m" "fN g m = Some nxc" "fA g = fA f" "fS g = fS f" "frame av av'" "ran T' - H' = ran T - H"
proof (cases "pinuse (fS f c)")
  case True
  then have "m = c" "p' = p" "sz' = sz" "av' = av" using run by simp_all
  then show thesis using that start_loose [OF I c True] sz by simp
next
  case False
  then have r: "merge_backward E chk c p sz nxc nextchunk av = Some (m, p', sz', av')" using run by simp
  obtain g where g: "pend Z L E n av' (T(fA f c := None)) g ((fS g)(m := sz' OR PREV_INUSE)) (H - {c}) (F - {m}) G X own t"
    "m \<in> F" "p' = fA g m" "fN g m = Some nxc" "fN f c = Some nxc" "fA g = fA f" "fS g = fS f" "unat sz' < 2 ^ 64 - 64" "16 dvd unat sz'" "frame av av'"
    by (rule merge_backwardD [OF r I c False sz(1) ab])
  note q = free_sizes [OF I g(2)]
  have t: "m \<noteq> t" using heap_okD(2) [OF pendD(2) [OF I]] g(2) by auto
  have mc: "m \<noteq> c" using c g(2) by (auto simp: used_def)
  have "loose Z L E n av' (T(fA f c := None)) g (H - {c}) (F - {m}) G X own t m sz'"
    using g q t mc free_pinuse [OF pendD(2) [OF I] g(2)] by (simp add: loose_def used_def)
  moreover have "used (H - {c}) (F - {m}) G X t - {m} = used H F G X t - {c}"
    using g(2) by (auto simp: used_def)
  moreover have "c \<in> H" using c by (simp add: used_def)
  ultimately show thesis using that g pend_ran [OF I] by blast
qed

text \<open>The next chunk is absorbed when it is free, and told that its predecessor is free otherwise.\<close>

lemma forward_readyD:
  assumes run: "do {
      (u, av) \<leftarrow> inuse_bit E q av;
      (sz, av) \<leftarrow> (if \<not> u then merge_forward E strict m p sz q nextchunk nextsize av else Some (sz, clear_inuse_bit q av));
      k sz av } = Some r"
    and I: "loose Z L E n av T f H F G X own t m sz" and q: "fN f m = Some q" "q \<noteq> t"
    and a: "nextchunk = fA f q" "nextsize = head_size (fS f q)" and ab: "check_action (par av) AND 2 \<noteq> 0"
  obtains sz' av' T' g H' F' nn where "k sz' av' = Some r" "ready Z L E n av' T' g H' F' G X own t m sz' nn"
    "used H' F' G X t = used H F G X t" "fA g = fA f" "\<forall>x. size_of (fS g x) = size_of (fS f x)" "frame av av'"
    "ran T' - H' = ran T - H"
proof -
  have P: "pend Z L E n av T f ((fS f)(m := sz OR PREV_INUSE)) H F G X own t" and m: "m \<in> used H F G X t" "pinuse (fS f m)"
    and sz: "unat sz < 2 ^ 64 - 64" "16 dvd unat sz" using I by (simp_all add: loose_def)
  note nq = next_not_self [OF P m(1) q(1)]
  from run obtain u av1 sz' av' where r: "inuse_bit E q av = Some (u, av1)"
      "(if \<not> u then merge_forward E strict m p sz q nextchunk nextsize av1 else Some (sz, clear_inuse_bit q av1)) = Some (sz', av')"
      "k sz' av' = Some r" by (elim bindE) auto
  note i = inuse_bitD [OF r(1) pendD(1) [OF P] pend_shown(2) [OF P nq(2)]]
  have P1: "pend Z L E n av1 T f ((fS f)(m := sz OR PREV_INUSE)) H F G X own t" by (rule pend_frame [OF P i(2,3)])
  from i(1) obtain x where x: "fN f q = Some x" "u = pinuse (fS f x)" by blast
  have u: "u \<longleftrightarrow> q \<notin> F" using next_free_iff [OF P m _ q(1) x(1)] x(2) by simp
  show thesis
  proof (cases u)
    case True
    then have e: "sz' = sz" "av' = clear_inuse_bit q av1" using r(2) by simp_all
    note c = clear_ready [OF P1 m(1) q(1) _ q(2) sz]
    show ?thesis
      by (rule that [OF r(3) c(1) [folded e(1), folded e(2)]]) (use True u frame_trans [OF i(3) c(2)] e in auto)
  next
    case False
    then have r2: "merge_forward E strict m p sz q nextchunk nextsize av1 = Some (sz', av')" and qF: "q \<in> F" using r(2) u by simp_all
    have ab1: "check_action (par av1) AND 2 \<noteq> 0" using ab frame_proc(1) [OF i(3)] by simp
    obtain g nn where g: "ready Z L E n av' (T(fA f q := None)) g (H - {q}) (F - {q}) G X own t m sz' nn" "fA g = fA f" "fS g = fS f" "frame av1 av'"
      by (rule merge_forwardD [OF r2 P1 m(1) q(1) qF a sz ab1])
    have "used (H - {q}) (F - {q}) G X t = used H F G X t" using qF by (auto simp: used_def)
    then show ?thesis using that [OF r(3) g(1)] g frame_trans [OF i(3) g(4)] pend_ran [OF P nq(2)] by simp
  qed
qed

lemma merge_topD:
  assumes run: "merge_top E m sz nextsize topchunk av = Some (sz', av')"
    and I: "loose Z L E n av T f H F G X own t m sz" and q: "fN f m = Some t"
    and a: "topchunk = fA f t" "nextsize = head_size (fS f t)"
  obtains T' g where "pend Z L E n av' T' g (fS g) (H - {t}) F G X own m" "fA g = fA f" "\<forall>x. x \<noteq> m \<longrightarrow> fS g x = fS f x" "keeps av av'"
    "used (H - {t}) F G X m = used H F G X t - {m}" "ran T' - (H - {t}) = ran T - H"
proof -
  let ?S = "(fS f)(m := sz OR PREV_INUSE)"
  have P: "pend Z L E n av T f ?S H F G X own t" and mu: "m \<in> used H F G X t" "pinuse (fS f m)"
    and sz: "unat sz < 2 ^ 64 - 64" "16 dvd unat sz" using I by (simp_all add: loose_def)
  note Q = pendD [OF P] and D = heap_okD [OF pendD(2) [OF P]] and nq = next_not_self [OF P mu(1) q]
  have m: "m \<in> H" "m \<notin> F" "m \<notin> G" "m \<notin> X" "m \<noteq> t" using mu by (auto simp: used_def)
  define av1 where "av1 = (set_head m ((sz + nextsize) OR PREV_INUSE) av)\<lparr>md_top := Some m\<rparr>"
  have e: "unregister_chunk E topchunk (w_md_next None m av1) = Some (z, av') \<Longrightarrow> thesis" for z
  proof -
    assume un: "unregister_chunk E topchunk (w_md_next None m av1) = Some (z, av')"
    define g where "g = f\<lparr>fS := (fS f)(m := (sz + nextsize) OR PREV_INUSE), fN := (fN f)(m := None)\<rparr>"
    have "view E n av1 T (f\<lparr>fS := (fS f)(m := (sz + nextsize) OR PREV_INUSE)\<rparr>)"
      unfolding av1_def by (rule view_same [OF view_writes(9) [OF Q(1)]]) (simp_all add: set_head_def)
    then have v: "view E n (w_md_next None m av1) T g" using view_writes(7) [of E n av1 T _ None m] by (force simp: g_def)
    have Tt: "T topchunk = Some t" using pend_shown(4) [OF P D(1)] a(1) by simp
    note u = unregister_view [OF un v Tt]
    have szm: "size_of (sz OR PREV_INUSE) = unat sz" using aligned_size(1) [OF sz(2)] by simp
    have jb: "unat sz + size_of (fS f t) < 2 ^ 64 - 64" "16 dvd unat sz + size_of (fS f t)"
      using join_size [OF Q(2) m(1,3) q] szm m(5) by simp_all
    have s: "size_of ((sz + nextsize) OR PREV_INUSE) = unat sz + size_of (fS f t)" "\<not> mmapped_bit ((sz + nextsize) OR PREV_INUSE)"
      using sum_head [of sz nextsize] jb a(2) by auto
    have "heap_ok Z (fA f) (?S(m := (sz + nextsize) OR PREV_INUSE)) (fP f) ((fN f)(m := fN f t)) (relink_prev (fN f t) m (fV f))
        (T(fA f t := None)) (H - {t}) F G (if t = t then m else t)"
      by (rule join_ok [OF Q(2) m(1-3) _ q D(2,3)]) (use s szm m in simp_all)
    then have "heap_ok Z (fA g) (fS g) (fP g) (fN g) (fV g) (T(fA f t := None)) (H - {t}) F G m"
      using D(7) by (simp add: g_def relink_prev_def)
    moreover have fr: "bins_base av' = bins_base av" "fastbinsY av' = fastbinsY av" "md_top av' = Some m" "keeps av av'"
      using frame_sel(2,3,6) [OF u(2)] frame_keeps [OF u(2)] by (simp_all add: av1_def set_head_def keeps_def)
        (simp_all add: ci_upd_def)
    moreover have "rings_ok g own F (bins_base av)"
    proof (rule bins_cong [OF Q(3)])
      fix x assume "x \<in> F \<union> headers (bins_base av)"
      then have "x \<noteq> m" using m pend_shown(3) [OF P m(1)] by auto
      then show "fF g x = fF f x \<and> fB g x = fB f x \<and> fFN g x = fFN f x \<and> fBN g x = fBN f x \<and> fS g x = fS f x \<and> own x = own x"
        by (simp add: g_def)
    qed
    moreover have "fF g = fF f" "fA g = fA f" "\<And>x. x \<noteq> m \<Longrightarrow> fS g x = fS f x" by (simp_all add: g_def)
    moreover have "size_of (fS g c) \<le> 160" if "c \<in> X" for c using Q(8) [OF that] that m by (auto simp: g_def)
    ultimately have "pend Z L E n av' (T(fA f t := None)) g (fS g) (H - {t}) F G X own m"
      using Q(4-6) u(1) a(1) m by (auto simp: pend_def)
    moreover have "used (H - {t}) F G X m = used H F G X t - {m}" by (auto simp: used_def)
    ultimately show thesis using that \<open>fA g = fA f\<close> \<open>\<And>x. x \<noteq> m \<Longrightarrow> fS g x = fS f x\<close> fr(4) pend_ran [OF P D(1)] by blast
  qed
  from run show thesis unfolding merge_top_def Let_def av1_def [symmetric] by (elim bindE) (auto elim: e)
qed

end
