(* ===== verification/Malloc_Consolidate.thy ===== *)
theory Malloc_Consolidate
  imports Malloc_Free
begin

text \<open>
  \<open>malloc_consolidate\<close> keeps the chunks in use. \<open>state Z L E n av U M B\<close> hides the fields and sets of the invariant:
  \<open>U\<close> are the chunks in use, and \<open>B\<close> gives their addresses and sizes.
\<close>

definition blocks_of :: "fields \<Rightarrow> bptr \<Rightarrow> u64 \<times> nat" where
  "blocks_of f c = (fA f c, size_of (fS f c))"

definition state where
  "state Z L E n av U M B \<longleftrightarrow> (\<exists>T f H F G X own t. pend Z L E n av T f (fS f) H F G X own t \<and> used H F G X t = U \<and>
     ran T - H = M \<and> (\<forall>d \<in> U \<union> M. B d = blocks_of f d))"

lemma stateI:
  assumes "pend Z L E n av T f (fS f) H F G X own t" and "used H F G X t = U" and "ran T - H = M"
    and "\<And>d. d \<in> U \<union> M \<Longrightarrow> B d = blocks_of f d"
  shows "state Z L E n av U M B"
  using assms unfolding state_def by blast

lemma stateE:
  assumes "state Z L E n av U M B"
  obtains T f H F G X own t where "pend Z L E n av T f (fS f) H F G X own t" "used H F G X t = U" "ran T - H = M" "\<forall>d \<in> U \<union> M. B d = blocks_of f d"
  using assms unfolding state_def by blast

lemma pop_pend:
  assumes I: "pend Z (Some c # L) E n av T f S H F G X own t"
  shows "pend Z (fF f c # L) E n av T f S H F G (X - {c}) own t" and "c \<in> used H F G (X - {c}) t"
    and "used H F G (X - {c}) t - {c} = used H F G X t"
proof -
  note P = pendD [OF I]
  have p: "fast_ok (fF f) (X - {c}) ((Some c # L @ fastbinsY av)[0 := fF f c])" "c \<in> X"
    by (rule pop_fast [of "fF f" X "Some c # L @ fastbinsY av" 0 c]; use P(4) in simp)+
  then show "pend Z (fF f c # L) E n av T f S H F G (X - {c}) own t" using P by (auto simp: pend_def)
  show "c \<in> used H F G (X - {c}) t" "used H F G (X - {c}) t - {c} = used H F G X t"
    using P(6) p(2) by (auto simp: used_def)
qed

lemma bind_quad_SomeE:
  assumes "Option.bind m (\<lambda>(a, b, c, d). f a b c d) = Some z"
  obtains a b c d where "m = Some (a, b, c, d)" and "f a b c d = Some z"
  using assms by (auto simp: bind_eq_Some_conv)

lemma used_insert: "used H (insert m F) G X t = used H F G X t - {m}"
  by (auto simp: used_def)

text \<open>The chunk after the freed one is top iff their addresses agree.\<close>

lemma same_chunk:
  assumes "pend Z L E n av T f S H F G X own t" and "a \<in> H" and "b \<in> H"
  shows "fA f a = fA f b \<longleftrightarrow> a = b"
  using pend_shown(4) [OF assms(1)] assms(2,3) by (metis option.inject)

lemma consolidate_chunkD:
  fixes av :: "'z proc_scheme"
  assumes run: "consolidate_chunk S c av = Some (md', av')" and I: "state Z [Some c] (cienv S) n av U M B"
    and ab: "check_action (par av) AND 2 \<noteq> 0"
  shows "state Z [md'] (cienv S) n av' U M B" and "keeps av av'"
proof -
  let ?E = "cienv S"
  from I obtain T f H F G X0 own t where I: "pend Z [Some c] ?E n av T f (fS f) H F G X0 own t" "used H F G X0 t = U" "ran T - H = M"
    "\<forall>d \<in> U \<union> M. B d = blocks_of f d" by (rule stateE)
  define X where "X = X0 - {c}"
  note p = pop_pend [OF I(1), folded X_def] and P = pendD [OF pop_pend(1) [OF I(1), folded X_def]]
  have cH: "c \<in> H" using p(2) by (simp add: used_def)
  note sc = pend_shown [OF p(1) cH]
  have e: "fd (ci av c) = fF f c" "chunkinfo2chunk av c = fA f c" "chunksize av (Some c) = head_size (fS f c)"
    using view_sel(4) [OF P(1) sc(2)] view_chunk(1,2) [OF P(1) sc(2)] by simp_all
  define k1 where "k1 = (\<lambda>nextchunk nextsize nxc md p sz (av :: 'z proc_scheme) t.
     let topchunk = chunkinfo2chunk av t in
     if nextchunk \<noteq> topchunk then do {
       (nextinuse, av) \<leftarrow> inuse_bit ?E nxc av;
       (sz, av) \<leftarrow>
         (if \<not> nextinuse then merge_forward ?E True md p sz nxc nextchunk nextsize av
          else Some (sz, clear_inuse_bit nxc av));
       let unsorted_bin = unsorted_chunks av;
       first_unsorted \<leftarrow> fd (ci av unsorted_bin);
       let av = w_fd (Some md) unsorted_bin av;
       let av = w_bk (Some md) first_unsorted av;
       let av = clear_nextsize sz md av;
       let av = set_head md (sz OR PREV_INUSE) av;
       let av = w_bk (Some unsorted_bin) md av;
       let av = w_fd (Some first_unsorted) md av;
       av \<leftarrow> set_foot ?E md av;
       Some (fF f c, av) }
     else do {
       (sz, av) \<leftarrow> merge_top ?E md sz nextsize topchunk av;
       check_top (par av) av;
       Some (fF f c, av) })"
  from run obtain av1 nxc b m q sz av2 t' where r: "assert_md_next ?E c (fA f c) av = Some av1" "md_next (ci av1 c) = Some nxc"
    "prev_inuse av1 c (fA f c) = Some b"
    "(if \<not> b then merge_backward ?E True c (fA f c) (head_size (fS f c)) nxc (chunkinfo2chunk av1 nxc) av1
      else Some (c, fA f c, head_size (fS f c), av1)) = Some (m, q, sz, av2)"
    "md_top av2 = Some t'" "k1 (chunkinfo2chunk av1 nxc) (chunksize av1 (Some nxc)) nxc m q sz av2 t' = Some (md', av')"
    unfolding consolidate_chunk_def Let_def e k1_def by (elim bind_quad_SomeE bindE) (rule that, assumption+, simp only: k1_def Let_def)
  note a = next_step [OF r(1,2) P(1) sc(2)]
  have I1: "pend Z [fF f c] ?E n av1 T f (fS f) H F G X own t" by (rule pend_frame [OF p(1) a(4,5)])
  have ab1: "check_action (par av1) AND 2 \<noteq> 0" using ab frame_proc(1) [OF a(5)] by simp
  note an = view_chunk(1,2) [OF a(4,3)]
  have b: "b = pinuse (fS f c)" using view_chunk(3) [OF a(4) _ r(3)] sc(2) shown_frame [OF a(5)] by simp
  obtain T1 g H1 F1 where g: "loose Z [fF f c] ?E n av2 T1 g H1 F1 G X own t m sz" "used H1 F1 G X t - {m} = used H F G X t - {c}"
    "q = fA g m" "fN g m = Some nxc" "fA g = fA f" "fS g = fS f" "frame av1 av2"
    "ran T1 - H1 = ran T - H"
    by (rule back_looseD [OF r(4) [unfolded b] I1 p(2) refl refl a(1) ab1])
  have L: "pend Z [fF f c] ?E n av2 T1 g ((fS g)(m := sz OR PREV_INUSE)) H1 F1 G X own t" and m: "m \<in> used H1 F1 G X t"
    using g(1) by (simp_all add: loose_def)
  note Q = pendD [OF L] and nq = next_not_self [OF L m g(4)]
  have tH: "t \<in> H1" using heap_okD(1) [OF Q(2)] .
  have top: "t' = t" "chunkinfo2chunk av2 t = fA g t" "(chunkinfo2chunk av1 nxc \<noteq> fA g t) = (nxc \<noteq> t)"
    using Q(7) r(5) view_chunk(1) [OF Q(1) pend_shown(2) [OF L tH]] an(1) same_chunk [OF L nq(2) tH] g(5) by simp_all
  have nc: "chunkinfo2chunk av1 nxc = fA g nxc" "chunksize av1 (Some nxc) = head_size (fS g nxc)" using an g(5,6) by simp_all
  have ab2: "check_action (par av2) AND 2 \<noteq> 0" using ab1 frame_proc(1) [OF g(7)] by simp
  have fr: "frame av av2" by (rule frame_trans [OF a(5) g(7)])
  have U: "U = used H1 F1 G X t - {m}" using I(2) p(3) g(2) by simp
  have M: "ran T1 - H1 = M" using I(3) g(8) by simp
  have mM: "m \<notin> U \<union> M" using m U M by (auto simp: used_def)
  have B: "B d = blocks_of g d" if "d \<in> U \<union> M" for d using I(4) that g(5,6) by (simp add: blocks_of_def)
  have "state Z [md'] ?E n av' U M B \<and> keeps av av'"
  proof (cases "nxc = t")
    case True
    then obtain sz' where mt: "merge_top ?E m sz (head_size (fS g t)) (fA g t) av2 = Some (sz', av')" "md' = fF f c"
      using r(6) top nc unfolding k1_def Let_def by (auto simp: bind_eq_Some_conv)
    obtain T2 h where h: "pend Z [fF f c] ?E n av' T2 h (fS h) (H1 - {t}) F1 G X own m" "fA h = fA g" "\<forall>x. x \<noteq> m \<longrightarrow> fS h x = fS g x"
      "keeps av2 av'" "used (H1 - {t}) F1 G X m = used H1 F1 G X t - {m}" "ran T2 - (H1 - {t}) = ran T1 - H1"
      by (rule merge_topD [OF mt(1) g(1) g(4) [unfolded True] refl refl])
    have "state Z [md'] ?E n av' U M B" unfolding mt(2)
    proof (rule stateI [OF h(1)])
      show "used (H1 - {t}) F1 G X m = U" "ran T2 - (H1 - {t}) = M" using h(5,6) U M by simp_all
      show "B d = blocks_of h d" if "d \<in> U \<union> M" for d using B [OF that] h(2,3) that mM by (auto simp: blocks_of_def)
    qed
    then show ?thesis using keeps_trans [OF frame_keeps [OF fr] h(4)] by simp
  next
    case False
    define k where "k = (\<lambda>sz (av :: 'z proc_scheme). do {
       first_unsorted \<leftarrow> fd (ci av (unsorted_chunks av));
       av \<leftarrow> set_foot ?E m (w_fd (Some first_unsorted) m (w_bk (Some (unsorted_chunks av)) m (set_head m (sz OR PREV_INUSE)
         (clear_nextsize sz m (w_bk (Some m) first_unsorted (w_fd (Some m) (unsorted_chunks av) av))))));
       Some (fF f c, av) })"
    have f: "do { (u, av) \<leftarrow> inuse_bit ?E nxc av2;
      (sz, av) \<leftarrow> (if \<not> u then merge_forward ?E True m q sz nxc (fA g nxc) (head_size (fS g nxc)) av else Some (sz, clear_inuse_bit nxc av));
      k sz av } = Some (md', av')"
      using r(6) top nc False unfolding k1_def k_def Let_def by (simp cong: if_cong)
    obtain sz' av3 T3 h H3 F3 nn where h: "k sz' av3 = Some (md', av')" "ready Z [fF f c] ?E n av3 T3 h H3 F3 G X own t m sz' nn"
      "used H3 F3 G X t = used H1 F1 G X t" "fA h = fA g" "\<forall>x. size_of (fS h x) = size_of (fS g x)" "frame av2 av3"
      "ran T3 - H3 = ran T1 - H1"
      by (rule forward_readyD [OF f g(1,4) False refl refl ab2])
    define b where "b = Bptr (bins_base av3) 1"
    have R: "pend Z [fF f c] ?E n av3 T3 h ((fS h)(nn := fS h nn OR PREV_INUSE, m := sz' OR PREV_INUSE)) H3 F3 G X own t"
      using h(2) by (simp add: ready_def)
    note Q3 = pendD [OF R]
    obtain w where w: "fF h b = Some w" using ring_okD(3) [OF rings_okD(1) [OF Q3(3)], of b] by (auto simp: b_def)
    have fw: "fd (ci av3 b) = Some w" using view_sel(4) [OF Q3(1), of b] w by (simp add: shown_def b_def)
    have ub: "unsorted_chunks av3 = b" by (simp add: b_def)
    from h(1) [unfolded k_def ub] obtain w' av4 where s: "fd (ci av3 b) = Some w'" "set_foot ?E m (w_fd (Some w') m (w_bk (Some b) m
         (set_head m (sz' OR PREV_INUSE) (clear_nextsize sz' m (w_bk (Some m) w' (w_fd (Some m) b av3)))))) = Some av4"
         "Some (fF f c, av4) = Some (md', av')"
      by (elim bindE) (rule that, assumption+)
    then have s: "set_foot ?E m (w_fd (Some w) m (w_bk (Some b) m (set_head m (sz' OR PREV_INUSE)
         (clear_nextsize sz' m (w_bk (Some m) w (w_fd (Some m) b av3)))))) = Some av4" "av4 = av'" "md' = fF f c"
      using fw by simp_all
    note pl = consolidate_placeD [OF s(1) [unfolded b_def] h(2) w [unfolded b_def], folded b_def]
    have mF: "m \<in> used H3 F3 G X t" using h(2) by (simp add: ready_def)
    have "state Z [md'] ?E n av' U M B" unfolding s(3) s(2) [symmetric]
    proof (rule stateI [OF pl(2)])
      show "used H3 (insert m F3) G X t = U" unfolding used_insert h(3) U by simp
      show "ran T3 - H3 = M" using h(7) M by simp
      show "B d = blocks_of (placed m sz' nn b w h) d" if "d \<in> U \<union> M" for d
        using B [OF that] that mM h(4,5) by (auto simp: blocks_of_def placed_def)
    qed
    moreover have "keeps av av'"
      using frame_keeps [OF frame_trans [OF frame_trans [OF fr h(6)] pl(1)]] s(2) by simp
    ultimately show ?thesis by simp
  qed
  then show "state Z [md'] (cienv S) n av' U M B" and "keeps av av'" by simp_all
qed

section \<open>The fast bins\<close>

lemma fast_none [simp]: "fast_ok Fd X (None # hs) = fast_ok Fd X hs"
proof
  assume a: "fast_ok Fd X (None # hs)"
  note D = fast_okD [OF a]
  show "fast_ok Fd X hs"
  proof (rule fast_okI)
    show "x \<in> X" if "i < length hs" "hs ! i = Some x" for i x using D(1) [of "Suc i" x] that by simp
    show "Fd y \<noteq> Some x" if "i < length hs" "hs ! i = Some x" "y \<in> X" for i x y using D(2) [of "Suc i" x y] that by simp
    show "i = j" if "i < length hs" "j < length hs" "hs ! i = Some x" "hs ! j = Some x" for i j x
      using D(3) [of "Suc i" "Suc j" x] that by simp
  qed (use D(4,5) in blast)+
next
  assume a: "fast_ok Fd X hs"
  note D = fast_okD [OF a]
  show "fast_ok Fd X (None # hs)"
  proof (rule fast_okI)
    show "x \<in> X" if "i < length (None # hs)" "(None # hs) ! i = Some x" for i x using D(1) that by (cases i) auto
    show "Fd y \<noteq> Some x" if "i < length (None # hs)" "(None # hs) ! i = Some x" "y \<in> X" for i x y using D(2) that by (cases i) auto
    show "i = j" if "i < length (None # hs)" "j < length (None # hs)" "(None # hs) ! i = Some x" "(None # hs) ! j = Some x" for i j x
      using D(3) that by (cases i; cases j) auto
  qed (use D(4,5) in blast)+
qed

lemma fast_detach:
  assumes a: "fast_ok Fd X hs" and i: "i < length hs"
  shows "fast_ok Fd X (hs ! i # hs[i := None])"
proof (rule fast_okI)
  note D = fast_okD [OF a]
  define src where "src j = (case j of 0 \<Rightarrow> i | Suc k \<Rightarrow> k)" for j
  have s: "src j < length hs \<and> hs ! src j = Some x \<and> (\<forall>k. j = Suc k \<longrightarrow> k \<noteq> i)"
    if "j < length (hs ! i # hs[i := None])" "(hs ! i # hs[i := None]) ! j = Some x" for j x
    using that i by (cases j) (auto simp: src_def nth_list_update split: if_splits)
  show "x \<in> X" if "j < length (hs ! i # hs[i := None])" "(hs ! i # hs[i := None]) ! j = Some x" for j x
    using D(1) s [OF that] by blast
  show "Fd y \<noteq> Some x" if "j < length (hs ! i # hs[i := None])" "(hs ! i # hs[i := None]) ! j = Some x" "y \<in> X" for j x y
    using D(2) s [OF that(1,2)] that(3) by blast
  show "j = k" if "j < length (hs ! i # hs[i := None])" "k < length (hs ! i # hs[i := None])"
    "(hs ! i # hs[i := None]) ! j = Some x" "(hs ! i # hs[i := None]) ! k = Some x" for j k x
  proof -
    have "src j = src k" using D(3) s [OF that(1,3)] s [OF that(2,4)] by blast
    then show ?thesis using s [OF that(1,3)] s [OF that(2,4)] by (cases j; cases k) (auto simp: src_def)
  qed
qed (use fast_okD(4,5) [OF a] in blast)+

lemma pend_same:
  assumes "pend Z L E n av T f S H F G X own t" and "memory av' = memory av" "htbl av' = htbl av" "bins_base av' = bins_base av"
    "bin_heads av' = bin_heads av" "metadata_cache_count av' = metadata_cache_count av" "fastbinsY av' = fastbinsY av" "md_top av' = md_top av"
  shows "pend Z L E n av' T f S H F G X own t"
  using assms view_same [OF pendD(1) [OF assms(1)], of av'] by (simp add: pend_def)

lemma state_same:
  assumes "state Z L E n av U M B" and "memory av' = memory av" "htbl av' = htbl av" "bins_base av' = bins_base av"
    "bin_heads av' = bin_heads av" "metadata_cache_count av' = metadata_cache_count av" "fastbinsY av' = fastbinsY av" "md_top av' = md_top av"
  shows "state Z L E n av' U M B"
proof -
  from assms(1) obtain T f H F G X own t where I: "pend Z L E n av T f (fS f) H F G X own t" "used H F G X t = U" "ran T - H = M"
    "\<forall>d \<in> U \<union> M. B d = blocks_of f d" by (rule stateE)
  show ?thesis by (rule stateI [OF pend_same [OF I(1) assms(2-)] I(2,3)]) (use I(4) in blast)
qed

lemma state_none: "state Z [None] E n av U M B = state Z [] E n av U M B"
  by (simp add: state_def pend_def)

lemma state_detach:
  assumes "state Z [] E n av U M B" and i: "i < length (fastbinsY av)"
  shows "state Z [fastbinsY av ! i] E n (av\<lparr>fastbinsY := (fastbinsY av)[i := None]\<rparr>) U M B"
proof -
  from assms(1) obtain T f H F G X own t where I: "pend Z [] E n av T f (fS f) H F G X own t" "used H F G X t = U" "ran T - H = M"
    "\<forall>d \<in> U \<union> M. B d = blocks_of f d" by (rule stateE)
  note P = pendD [OF I(1)]
  have "view E n (av\<lparr>fastbinsY := (fastbinsY av)[i := None]\<rparr>) T f" by (rule view_same [OF P(1)]) simp_all
  then have "pend Z [fastbinsY av ! i] E n (av\<lparr>fastbinsY := (fastbinsY av)[i := None]\<rparr>) T f (fS f) H F G X own t"
    using P(2-8) fast_detach [OF _ i, of "fF f" X] by (simp add: pend_def)
  then show ?thesis by (rule stateI [OF _ I(2,3)]) (use I(4) in blast)
qed

lemma consolidate_binD:
  "consolidate_bin S md av = Some av' \<Longrightarrow> state Z [md] (cienv S) n av U M B \<longrightarrow> check_action (par av) AND 2 \<noteq> 0 \<longrightarrow>
    state Z [] (cienv S) n av' U M B \<and> keeps av av'"
proof (erule consolidate_bin.raw_induct [where P = "\<lambda>S md av av'. state Z [md] (cienv S) n av U M B \<longrightarrow>
    check_action (par av) AND 2 \<noteq> 0 \<longrightarrow> state Z [] (cienv S) n av' U M B \<and> keeps av av'", rotated], intro impI)
  fix rec :: "'z proc_scheme sysenv \<Rightarrow> bptr option \<Rightarrow> 'z proc_scheme \<Rightarrow> 'z proc_scheme option"
    and S :: "'z proc_scheme sysenv" and md av av'
  assume IH: "\<And>S md av av'. rec S md av = Some av' \<Longrightarrow> state Z [md] (cienv S) n av U M B \<longrightarrow>
      check_action (par av) AND 2 \<noteq> 0 \<longrightarrow> state Z [] (cienv S) n av' U M B \<and> keeps av av'"
    and run: "(case md of None \<Rightarrow> Some av | Some p \<Rightarrow> consolidate_chunk S p av \<bind> (\<lambda>(md, av). rec S md av)) = Some av'"
    and st: "state Z [md] (cienv S) n av U M B" and ab: "check_action (par av) AND 2 \<noteq> 0"
  show "state Z [] (cienv S) n av' U M B \<and> keeps av av'"
  proof (cases md)
    case None
    then show ?thesis using run st by (simp add: state_none)
  next
    case (Some c)
    then obtain md1 av1 where r: "consolidate_chunk S c av = Some (md1, av1)" "rec S md1 av1 = Some av'"
      using run by (auto simp: bind_eq_Some_conv)
    note c = consolidate_chunkD [OF r(1) st [unfolded Some] ab]
    have "check_action (par av1) AND 2 \<noteq> 0" using ab c(2) by (simp add: keeps_def)
    then show ?thesis using IH [OF r(2)] c keeps_trans by blast
  qed
qed

lemma consolidate_binsD:
  "consolidate_bins S i k av = Some av' \<Longrightarrow> state Z [] (cienv S) n av U M B \<Longrightarrow> check_action (par av) AND 2 \<noteq> 0 \<Longrightarrow>
    state Z [] (cienv S) n av' U M B \<and> keeps av av'"
proof (induction S i k av rule: consolidate_bins.induct)
  case (2 S i k av)
  let ?av1 = "av\<lparr>fastbinsY := (fastbinsY av)[i := None]\<rparr>"
  from 2(2) obtain av2 where r: "i < length (fastbinsY av)" "consolidate_bin S (fastbinsY av ! i) ?av1 = Some av2"
    "consolidate_bins S (i + 1) k av2 = Some av'"
    by (auto simp: bind_eq_Some_conv assert_c_def Let_def split: if_splits)
  have "state Z [] (cienv S) n av2 U M B \<and> keeps ?av1 av2"
    using consolidate_binD [OF r(2)] state_detach [OF 2(3) r(1)] 2(4) by simp
  then have s: "state Z [] (cienv S) n av2 U M B" "keeps av av2" by (auto simp: keeps_def)
  have "check_action (par av2) AND 2 \<noteq> 0" using 2(4) s(2) by (simp add: keeps_def)
  then show ?case using 2(1) [OF _ _ _ r(3) s(1)] r keeps_trans [OF s(2)] by auto
qed simp

lemma malloc_consolidateD:
  assumes run: "malloc_consolidate S av = Some av'" and st: "state Z [] (cienv S) n av U M B"
    and p: "check_action (par av) AND 2 \<noteq> 0" "global_max_fast (par av) \<noteq> 0"
  shows "state Z [] (cienv S) n av' U M B" and "keeps av av'"
proof -
  have r: "consolidate_bins S 0 NFASTBINS (clear_fastchunks av) = Some av'"
    using run p by (simp add: malloc_consolidate_def)
  have p': "check_action (par (clear_fastchunks av)) AND 2 \<noteq> 0" using p by (simp add: clear_fastchunks_def)
  have "state Z [] (cienv S) n (clear_fastchunks av) U M B"
    by (rule state_same [OF st]) (simp_all add: clear_fastchunks_def)
  from consolidate_binsD [OF r this p'] show "state Z [] (cienv S) n av' U M B" and "keeps av av'" by (auto simp: keeps_def clear_fastchunks_def)
qed

end
