(* ===== verification/Malloc_Release.thy ===== *)
theory Malloc_Release
  imports Malloc_Consolidate
begin

text \<open>
  \<open>_int_free\<close> of the main arena: the chunk leaves the chunks in use, and every other chunk in use firm where
  it is with its size. The break is that of a kernel whose \<open>sbrk\<close> moves it by what it is asked for.
\<close>

section \<open>Assumptions\<close>

text \<open>The parameters of \<open>malloc\<close>: errors abort, the limit of the fast bins is in range, and so on.\<close>

definition par_ok :: "malloc_par \<Rightarrow> bool" where
  "par_ok P \<longleftrightarrow> check_action P AND 2 \<noteq> 0 \<and> global_max_fast P \<noteq> 0 \<and> global_max_fast P \<le> 160 \<and>
     MINSIZE < trim_threshold P \<and> MINSIZE \<le> mmap_threshold P \<and> (\<exists>k. 12 \<le> k \<and> k < 64 \<and> dl_pagesize P = 2 ^ k)"

lemma par_page:
  assumes "par_ok P"
  obtains k where "12 \<le> k" "4 \<le> k" "k < 64" "dl_pagesize P = 2 ^ k"
  using assms that by (fastforce simp: par_ok_def)

text \<open>
  The kernel, as it is documented: \<open>brk cs\<close> is the break after the calls \<open>cs\<close> and \<open>got cs\<close> the addresses that
  the process has got from them. New memory is memory that the process does not have, a call fails or has its
  effect, and nobody else moves the break, which is aligned as long as it is moved by multiples of \<open>16\<close>.
\<close>

definition grants :: "(syscall list \<Rightarrow> nat set) \<Rightarrow> syscall list \<Rightarrow> syscall \<Rightarrow> u64 \<Rightarrow> u64 \<Rightarrow> bool" where
  "grants got cs c a s \<longleftrightarrow> got (cs @ [c]) = got cs \<union> {unat a ..< unat a + unat s} \<and>
     got cs \<inter> {unat a ..< unat a + unat s} = {} \<and> 64 \<le> unat a \<and> unat a + unat s < 2 ^ 64"

definition sbrks_ok :: "syscall list \<Rightarrow> bool" where
  "sbrks_ok cs \<longleftrightarrow> (\<forall>i. Sbrk i \<in> set cs \<longrightarrow> 16 dvd unat i)"

lemma sbrks_ok_simps [simp]:
  "sbrks_ok []" "sbrks_ok (cs @ ds) = (sbrks_ok cs \<and> sbrks_ok ds)" "sbrks_ok (Mmap s # cs) = sbrks_ok cs" "sbrks_ok (Munmap a s # cs) = sbrks_ok cs"
  "sbrks_ok (Sbrk i # cs) = (16 dvd unat i \<and> sbrks_ok cs)"
  by (auto simp: sbrks_ok_def)

definition kernel_ok :: "(syscall list \<Rightarrow> u64 option) \<Rightarrow> (syscall list \<Rightarrow> u64) \<Rightarrow> (syscall list \<Rightarrow> nat set) \<Rightarrow> bool" where
  "kernel_ok K brk got \<longleftrightarrow>
     (\<forall>cs. sbrks_ok cs \<longrightarrow> 16 dvd unat (brk cs)) \<and>
     (\<forall>cs i. K (cs @ [Sbrk i]) = None \<and> brk (cs @ [Sbrk i]) = brk cs \<and> got (cs @ [Sbrk i]) = got cs \<and> i \<noteq> 0 \<or>
        K (cs @ [Sbrk i]) = Some (brk cs) \<and> brk (cs @ [Sbrk i]) = brk cs + i \<and>
        (if 0 \<le> sint i then grants got cs (Sbrk i) (brk cs) i
         else got (cs @ [Sbrk i]) = got cs - {unat (brk cs + i) ..< unat (brk cs)})) \<and>
     (\<forall>cs s. brk (cs @ [Mmap s]) = brk cs \<and> (K (cs @ [Mmap s]) = None \<and> got (cs @ [Mmap s]) = got cs \<or>
        (\<exists>a. K (cs @ [Mmap s]) = Some a \<and> grants got cs (Mmap s) a s))) \<and>
     (\<forall>cs a s. brk (cs @ [Munmap a s]) = brk cs \<and> got (cs @ [Munmap a s]) = got cs - {unat a ..< unat a + unat s})"

lemma kernel_sbrk:
  assumes "kernel_ok K brk got"
  shows "K (cs @ [Sbrk 0]) = Some (brk cs)" "brk (cs @ [Sbrk 0]) = brk cs" "got (cs @ [Sbrk 0]) = got cs"
    and "brk (cs @ [Sbrk i]) = brk cs \<or> brk (cs @ [Sbrk i]) = brk cs + i"
    and "K (cs @ [Sbrk i]) = None \<Longrightarrow> got (cs @ [Sbrk i]) = got cs"
    and "K (cs @ [Sbrk i]) = Some a \<Longrightarrow> a = brk cs \<and> brk (cs @ [Sbrk i]) = brk cs + i \<and> (0 \<le> sint i \<longrightarrow> grants got cs (Sbrk i) a i)"
    and "brk (cs @ [Sbrk i]) \<noteq> brk cs \<Longrightarrow>
      (if 0 \<le> sint i then grants got cs (Sbrk i) (brk cs) i else got (cs @ [Sbrk i]) = got cs - {unat (brk cs + i) ..< unat (brk cs)})"
proof -
  have d: "K (cs @ [Sbrk i]) = None \<and> brk (cs @ [Sbrk i]) = brk cs \<and> got (cs @ [Sbrk i]) = got cs \<and> i \<noteq> 0 \<or>
      K (cs @ [Sbrk i]) = Some (brk cs) \<and> brk (cs @ [Sbrk i]) = brk cs + i \<and>
      (if 0 \<le> sint i then grants got cs (Sbrk i) (brk cs) i
       else got (cs @ [Sbrk i]) = got cs - {unat (brk cs + i) ..< unat (brk cs)})" for i
    using assms unfolding kernel_ok_def by blast
  show "K (cs @ [Sbrk 0]) = Some (brk cs)" "brk (cs @ [Sbrk 0]) = brk cs" "got (cs @ [Sbrk 0]) = got cs"
    using d [of 0] by (simp_all add: grants_def)
  show "brk (cs @ [Sbrk i]) = brk cs \<or> brk (cs @ [Sbrk i]) = brk cs + i"
    and "K (cs @ [Sbrk i]) = None \<Longrightarrow> got (cs @ [Sbrk i]) = got cs"
    and "K (cs @ [Sbrk i]) = Some a \<Longrightarrow> a = brk cs \<and> brk (cs @ [Sbrk i]) = brk cs + i \<and> (0 \<le> sint i \<longrightarrow> grants got cs (Sbrk i) a i)"
    and "brk (cs @ [Sbrk i]) \<noteq> brk cs \<Longrightarrow>
      (if 0 \<le> sint i then grants got cs (Sbrk i) (brk cs) i else got (cs @ [Sbrk i]) = got cs - {unat (brk cs + i) ..< unat (brk cs)})"
    using d [of i] by auto
qed

text \<open>What an operation leaves alone that may call the kernel.\<close>

definition firm :: "'z proc_scheme \<Rightarrow> 'z proc_scheme \<Rightarrow> bool" where
  "firm av av' \<longleftrightarrow> par av' = par av \<and> is_main av' = is_main av \<and> bins_base av' = bins_base av \<and> initial_top av' = initial_top av \<and>
     (sbrks_ok (calls av) \<longrightarrow> sbrks_ok (calls av'))"

lemma keeps_firm: "keeps av av' \<Longrightarrow> firm av av'"
  by (simp add: keeps_def firm_def)

lemma firm_trans: "firm a b \<Longrightarrow> firm b c \<Longrightarrow> firm a c"
  by (simp add: firm_def)

section \<open>Giving memory back\<close>

lemma ALIGN_DOWN_page:
  assumes "4 \<le> k" and "k < 64"
  shows "unat (ALIGN_DOWN x (2 ^ k)) = unat x div 2 ^ k * 2 ^ k" and "16 dvd unat (ALIGN_DOWN x (2 ^ k))"
proof -
  have "- (2 ^ k) = NOT (mask k :: u64)" by (simp add: mask_eq_exp_minus_1 minus_eq_not_minus_1)
  then show e: "unat (ALIGN_DOWN x (2 ^ k)) = unat x div 2 ^ k * 2 ^ k"
    using unat_and_not_mask [of x k] by (simp add: ALIGN_DOWN_def)
  have "(2 :: nat) ^ 4 dvd 2 ^ k" using assms(1) by (rule le_imp_power_dvd)
  then show "16 dvd unat (ALIGN_DOWN x (2 ^ k))" unfolding e by simp
qed

lemma unat_neg:
  fixes x :: u64
  assumes "x \<noteq> 0"
  shows "unat (- x) = 2 ^ 64 - unat x"
proof -
  have "(unat (- x) + unat x) mod 2 ^ 64 = 0" using unat_word_ariths(1) [of "- x" x] by simp
  moreover have "unat (- x) < 2 ^ 64" "unat x < 2 ^ 64" "0 < unat x" using unsigned_less [of "- x"] unsigned_less [of x] assms by (simp_all add: unat_gt_0)
  ultimately have "unat (- x) + unat x = 2 ^ 64" by (auto simp: mod_eq_0_iff_dvd elim!: dvdE)
  then show ?thesis by simp
qed

lemma top_pinuse:
  assumes "heap_ok Z A S P N V T H F G t"
  shows "pinuse (S t)"
proof (rule ccontr)
  note D = heap_okD [OF assms] and R = frees_fitD [OF heap_okD(11) [OF assms]]
  assume "\<not> pinuse (S t)"
  then obtain c where "c \<in> F" "N c = Some t" using R(1) D(1) by blast
  then show False using R(2) by blast
qed

text \<open>A chunk without successor gets another size; it may become a fence post.\<close>

lemma resize_last_ok:
  assumes ok: "heap_ok Z A S P N V T H F G t" and c: "c \<in> H" "c \<notin> F" "N c = None" and pc: "pinuse (S c)"
    and v: "16 \<le> size_of v" "16 dvd size_of v" "pinuse v" "\<not> mmapped_bit v" "start A c + size_of v < 2 ^ 64"
    and G: "G \<subseteq> G'" "G' \<subseteq> insert c G" "t \<notin> G'" "c \<notin> G' \<Longrightarrow> 32 \<le> size_of v"
    and ap: "\<And>x. x \<in> ran T \<Longrightarrow> x \<noteq> c \<Longrightarrow> apart A (S(c := v)) c x"
    and rg: "region A (S(c := v)) c \<subseteq> Z'" "\<And>x. x \<in> ran T \<Longrightarrow> x \<noteq> c \<Longrightarrow> region A S x \<subseteq> Z'"
  shows "heap_ok Z' A (S(c := v)) P N V T H F G' t"
proof -
  note D = heap_okD [OF ok]
  have "apart A (S(c := v)) x y" if "x \<in> ran T" "y \<in> ran T" "x \<noteq> y" for x y
  proof -
    have "apart A S x y" using D(8) that by (auto simp: table_fits_def)
    then show ?thesis using ap [OF that(1)] ap [OF that(2)] that(3) by (cases "x = c"; cases "y = c") (auto simp: apart_def)
  qed
  moreover have "region A (S(c := v)) x \<subseteq> Z'" if "x \<in> ran T" for x
    using rg(1) rg(2) [OF that] by (cases "x = c") (auto simp: region_def)
  moreover have "mapped_fits ((S(c := v)) x)" if "x \<in> ran T" for x using D(8) v(4) that by (simp add: table_fits_def)
  ultimately have "table_fits Z' A (S(c := v)) T" using D(8) unfolding table_fits_def by blast
  moreover have "sizes_fit A (S(c := v)) H G'" using D(9) c(1) v G by (auto simp: sizes_fit_def)
  moreover have "links_fit A (S(c := v)) N V H G'"
    unfolding links_fit_def
  proof (intro conjI ballI allI impI)
    note L = links_fitD [OF D(10)]
    fix x m assume x: "x \<in> H"
    show "m \<in> H" "V m = Some x" "x \<notin> G' \<Longrightarrow> start A m = start A x + size_of ((S(c := v)) x)" if "N x = Some m"
      using L(1-3) [OF x that] that c(3) G(1) by auto
    show "m \<in> H" "N m = Some x" if "V x = Some m" using L(4) [OF x that] by auto
  qed
  moreover have "frees_fit (S(c := v)) P N H F t"
    unfolding frees_fit_def
  proof (intro conjI ballI impI)
    note R = frees_fitD [OF D(11)]
    fix x assume x: "x \<in> F"
    then obtain m where m: "N x = Some m" using R(3) by blast
    have xc: "x \<noteq> c" using x c(2) by auto
    show "\<exists>n. N x = Some n \<and> n \<notin> F \<and> n \<noteq> t \<and> \<not> pinuse ((S(c := v)) n) \<and> unat (P n) = size_of ((S(c := v)) x)"
      using R(2) [OF x m] m xc pc by (intro exI [of _ m]) auto
  next
    fix x assume "x \<in> H" "\<not> pinuse ((S(c := v)) x)"
    then show "\<exists>c \<in> F. N c = Some x" using frees_fitD(1) [OF D(11), of x] v(3) by (auto split: if_splits)
  qed
  moreover have "F \<inter> G' = {}" "G' \<subseteq> H" using D(5,12) G(2) c(1,2) by auto
  moreover have "ended N H G' t" using D(15) G(1) unfolding ended_def by blast
  ultimately show ?thesis using D(1-7) D(12-15) G(1,3) unfolding heap_ok_def by blast
qed

lemma resize_top_ok:
  assumes ok: "heap_ok Z A S P N V T H F G t" and v: "32 \<le> size_of v" "16 dvd size_of v" "pinuse v" "\<not> mmapped_bit v"
    "start A t + size_of v < 2 ^ 64"
    and ap: "\<And>c. c \<in> ran T \<Longrightarrow> c \<noteq> t \<Longrightarrow> apart A (S(t := v)) t c"
    and rg: "region A (S(t := v)) t \<subseteq> Z'" "\<And>c. c \<in> ran T \<Longrightarrow> c \<noteq> t \<Longrightarrow> region A S c \<subseteq> Z'"
  shows "heap_ok Z' A (S(t := v)) P N V T H F G t"
proof -
  note D = heap_okD [OF ok]
  show ?thesis
    by (rule resize_last_ok [OF ok D(1,2,7) top_pinuse [OF ok]]) (use v D(3) ap rg in auto)
qed

lemma resize_top_pend:
  assumes I: "pend Z [] E n av T f (fS f) H F G X own t" and v: "32 \<le> size_of v" "16 dvd size_of v" "pinuse v" "\<not> mmapped_bit v"
    "start (fA f) t + size_of v < 2 ^ 64"
    and ap: "\<And>c. c \<in> ran T \<Longrightarrow> c \<noteq> t \<Longrightarrow> apart (fA f) ((fS f)(t := v)) t c"
    and rg: "region (fA f) ((fS f)(t := v)) t \<subseteq> Z'" "\<And>c. c \<in> ran T \<Longrightarrow> c \<noteq> t \<Longrightarrow> region (fA f) (fS f) c \<subseteq> Z'"
  shows "pend Z' [] E n (set_head t v av) T (f\<lparr>fS := (fS f)(t := v)\<rparr>) ((fS f)(t := v)) H F G X own t"
proof -
  note P = pendD [OF I] and D = heap_okD [OF pendD(2) [OF I]]
  have t: "t \<notin> F \<union> headers (bins_base av)" "t \<notin> X" using D(1,2) pend_shown(3) [OF I D(1)] P(6) by auto
  have "rings_ok (f\<lparr>fS := (fS f)(t := v)\<rparr>) own F (bins_base av)"
    by (rule bins_cong [OF P(3)]) (use t in auto)
  moreover have "heap_ok Z' (fA f) ((fS f)(t := v)) (fP f) (fN f) (fV f) T H F G t" by (rule resize_top_ok [OF P(2) v ap rg])
  moreover have "frame av (set_head t v av)" by (simp add: set_head_def)
  ultimately show ?thesis
    using view_writes(9) [OF P(1), of t v] P(4-8) t frame_sel(2,3,6) [of av "set_head t v av"] by (auto simp: pend_def)
qed

text \<open>A smaller top gives up its end.\<close>

lemma pend_apart:
  assumes "pend Z L E n av T f S H F G X own t" and "c \<in> ran T" and "d \<in> ran T"
  shows "c \<noteq> d \<Longrightarrow> apart (fA f) S c d" and "region (fA f) S c \<subseteq> Z"
  using heap_okD(8) [OF pendD(2) [OF assms(1)]] assms(2,3) by (auto simp: table_fits_def)

lemma shrink_top_pend:
  assumes I: "pend Z [] E n av T f (fS f) H F G X own t" and v: "size_of v \<le> size_of (fS f t)" "32 \<le> size_of v" "16 dvd size_of v"
    "pinuse v" "\<not> mmapped_bit v"
  shows "pend (Z - {start (fA f) t + size_of v ..< start (fA f) t + size_of (fS f t)}) [] E n (set_head t v av) T
    (f\<lparr>fS := (fS f)(t := v)\<rparr>) ((fS f)(t := v)) H F G X own t"
proof (rule resize_top_pend [OF I v(2-5)])
  have tH: "t \<in> H" using heap_okD(1) [OF pendD(2) [OF I]] .
  note tr = pend_shown(1) [OF I tH] and ts = used_sizes(7) [OF I tH]
  show "start (fA f) t + size_of v < 2 ^ 64" using ts v(1) by simp
  show "region (fA f) ((fS f)(t := v)) t \<subseteq> Z - {start (fA f) t + size_of v ..< start (fA f) t + size_of (fS f t)}"
    using pend_apart(2) [OF I tr tr] v(1,2) by (auto simp: region_def)
  fix c assume c: "c \<in> ran T" "c \<noteq> t"
  note a = pend_apart(1) [OF I tr c(1) c(2) [symmetric]] and r = pend_apart(2) [OF I c(1) tr]
  show "apart (fA f) ((fS f)(t := v)) t c" using a c(2) v(1,2) by (auto simp: apart_def)
  have "region (fA f) (fS f) c \<inter> region (fA f) (fS f) t = {}" using a by (auto simp: apart_def region_def)
  moreover have "{start (fA f) t + size_of v ..< start (fA f) t + size_of (fS f t)} \<subseteq> region (fA f) (fS f) t" by (auto simp: region_def)
  ultimately show "region (fA f) (fS f) c \<subseteq> Z - {start (fA f) t + size_of v ..< start (fA f) t + size_of (fS f t)}"
    using r by blast
qed

lemma systrimD:
  assumes run: "systrim S pad av = Some (r, av')" and st: "state (got (calls av)) [] (cienv S) n av U M B" and p: "par_ok (par av)"
    and k: "kernel_ok (kernel S) brk got" and th: "trim_threshold (par av) \<le> chunksize av (md_top av)"
  shows "state (got (calls av')) [] (cienv S) n av' U M B \<and> firm av av'"
proof -
  from st obtain T f H F G X own t where I: "pend (got (calls av)) [] (cienv S) n av T f (fS f) H F G X own t" "used H F G X t = U" "ran T - H = M"
    "\<forall>d \<in> U \<union> M. B d = blocks_of f d" by (rule stateE)
  note P = pendD [OF I(1)] and D = heap_okD [OF pendD(2) [OF I(1)]]
  define ts where "ts = chunksize av (md_top av)"
  have ts: "ts = head_size (fS f t)" using P(7) view_chunk(2) [OF P(1) pend_shown(2) [OF I(1) D(1)]] by (simp add: ts_def)
  have b: "32 < unat ts" "16 dvd unat ts" using p th used_sizes(2) [OF I(1) D(1)] ts
    by (auto simp: par_ok_def MINSIZE_eq word_less_nat_alt word_le_nat_alt ts_def [symmetric])
  obtain j where j: "4 \<le> j" "j < 64" "dl_pagesize (par av) = 2 ^ j" by (rule par_page [OF p])
  define area where "area = ts - MINSIZE - 1"
  have area: "unat area = unat ts - 33"
  proof -
    have "unat (ts - MINSIZE) = unat ts - 32" using b(1) by (subst unat_sub) (simp_all add: MINSIZE_eq word_le_nat_alt)
    then show ?thesis unfolding area_def using b(1) by (subst unat_sub) (simp_all add: word_le_nat_alt)
  qed
  define extra where "extra = ALIGN_DOWN (area - pad) (2 ^ j)"
  note al = ALIGN_DOWN_page [OF j(1,2), of "area - pad", folded extra_def]
  have le: "unat extra + 33 \<le> unat ts" if "\<not> area \<le> pad"
  proof -
    have "unat (area - pad) = unat area - unat pad" using that by (subst unat_sub) auto
    moreover have "unat extra \<le> unat (area - pad)" unfolding al(1) by simp
    ultimately show ?thesis using area b(1) by simp
  qed
  define cs where "cs = calls av @ [Sbrk 0]"
  note ks = kernel_sbrk [OF k]
  have k0: "kernel S (xs @ [Sbrk 0]) = Some (brk xs)" "brk (xs @ [Sbrk 0]) = brk xs" for xs using ks(1,2) by blast+
  have k1: "brk (cs @ [Sbrk i]) = brk cs \<or> brk (cs @ [Sbrk i]) = brk cs + i" for i using ks(4) by blast
  have st': "state (got zs) [] (cienv S) n (av\<lparr>calls := zs\<rparr>) U M B \<and> firm av (av\<lparr>calls := zs\<rparr>)"
    if "got zs = got (calls av)" "sbrks_ok (calls av) \<longrightarrow> sbrks_ok zs" for zs
    using state_same [OF st, of "av\<lparr>calls := zs\<rparr>"] that by (simp add: firm_def)
  define ys where "ys = (cs @ [Sbrk (- extra)]) @ [Sbrk 0]"
  have de: "16 dvd unat (- extra)"
    using al(2) unat_neg [of extra] by (cases "extra = 0") (simp_all add: dvd_diff_nat)
  have sb: "sbrks_ok (calls av) \<longrightarrow> sbrks_ok cs" "sbrks_ok (calls av) \<longrightarrow> sbrks_ok ys"
    using de by (simp_all add: cs_def ys_def)
  have tH: "t \<in> H" by (rule D(1))
  have gc: "got cs = got (calls av)" unfolding cs_def by (rule ks(3))
  have fin: "unat (brk cs) = start (fA f) t + unat ts" if "brk cs = chunkinfo2chunk av t + ts"
    using that used_sizes(7) [OF I(1) tH] view_chunk(1) [OF P(1) pend_shown(2) [OF I(1) tH]] ts
    by (simp add: start_def unat_word_ariths)
  have new: "unat (brk cs - extra) = start (fA f) t + (unat ts - unat extra) \<and>
      got ((cs @ [Sbrk (- extra)]) @ [Sbrk 0]) = got (calls av) - {start (fA f) t + (unat ts - unat extra) ..< start (fA f) t + unat ts}"
    if "\<not> area \<le> pad" "extra \<noteq> 0" "brk cs = chunkinfo2chunk av t + ts" "brk (cs @ [Sbrk (- extra)]) \<noteq> brk cs"
  proof -
    have n: "unat (brk cs - extra) = start (fA f) t + (unat ts - unat extra)"
      using fin [OF that(3)] le [OF that(1)] by (simp add: unat_sub word_le_nat_alt)
    have "unat (- extra) = 2 ^ 64 - unat extra" by (rule unat_neg [OF that(2)])
    then have "\<not> grants got cs (Sbrk (- extra)) (brk cs) (- extra)"
      using fin [OF that(3)] le [OF that(1)] unsigned_less [of extra] by (auto simp: grants_def)
    then have "got (cs @ [Sbrk (- extra)]) = got cs - {unat (brk cs + - extra) ..< unat (brk cs)}"
      using ks(7) [OF that(4)] by (auto split: if_splits)
    then show ?thesis using n fin [OF that(3)] gc by (simp only: ks(3) add_uminus_conv_diff)
  qed
  have last: "state (got (calls av')) [] (cienv S) n av' U M B \<and> firm av av'" if rel: "brk cs - brk (cs @ [Sbrk (- extra)]) = extra" "\<not> area \<le> pad"
      "extra \<noteq> 0" "brk cs = chunkinfo2chunk av t + ts"
    and w: "av' = (set_head t ((ts - extra) OR PREV_INUSE) (av\<lparr>calls := ys, system_mem := sm\<rparr>))\<lparr>lkup := L\<rparr>" for sm L
  proof -
    have u: "unat (ts - extra) = unat ts - unat extra" using le [OF rel(2)] by (subst unat_sub) (auto simp: word_le_nat_alt)
    then have d: "16 dvd unat (ts - extra)" using b(2) al(2) by (simp add: dvd_diff_nat)
    note a = aligned_size [OF d]
    have "brk (cs @ [Sbrk (- extra)]) \<noteq> brk cs" using rel(1,3) by auto
    note nw = new [OF rel(2-4) this]
    have oy: "got (calls av') = got (calls av) - {start (fA f) t + size_of ((ts - extra) OR PREV_INUSE) ..< start (fA f) t + size_of (fS f t)}"
      using nw a(1) u ts by (simp add: w ys_def set_head_def) (simp add: ci_upd_def)
    have "pend (got (calls av)) [] (cienv S) n (av\<lparr>calls := ys, system_mem := sm\<rparr>) T f (fS f) H F G X own t"
      by (rule pend_same [OF I(1)]) simp_all
    then have q: "pend (got (calls av')) [] (cienv S) n (set_head t ((ts - extra) OR PREV_INUSE) (av\<lparr>calls := ys, system_mem := sm\<rparr>)) T
        (f\<lparr>fS := (fS f)(t := (ts - extra) OR PREV_INUSE)\<rparr>) ((fS f)(t := (ts - extra) OR PREV_INUSE)) H F G X own t"
      unfolding oy by (rule shrink_top_pend) (use a u le [OF rel(2)] d ts in simp_all)
    have "pend (got (calls av')) [] (cienv S) n av' T (f\<lparr>fS := (fS f)(t := (ts - extra) OR PREV_INUSE)\<rparr>) ((fS f)(t := (ts - extra) OR PREV_INUSE))
        H F G X own t"
      unfolding w by (rule pend_same [OF q [unfolded w]]) simp_all
    then have q: "pend (got (calls av')) [] (cienv S) n av' T (f\<lparr>fS := (fS f)(t := (ts - extra) OR PREV_INUSE)\<rparr>)
        (fS (f\<lparr>fS := (fS f)(t := (ts - extra) OR PREV_INUSE)\<rparr>)) H F G X own t" by simp
    have "state (got (calls av')) [] (cienv S) n av' U M B"
    proof (rule stateI [OF q I(2,3)])
      show "B d = blocks_of (f\<lparr>fS := (fS f)(t := (ts - extra) OR PREV_INUSE)\<rparr>) d" if "d \<in> U \<union> M" for d
        using I(2-4) D(1) that by (auto simp: blocks_of_def used_def)
    qed
    moreover have "firm av av'" unfolding w using sb(2) by (simp add: firm_def set_head_def) (simp add: ci_upd_def)
    ultimately show ?thesis by simp
  qed
  have m: "MORECORE S 0 av = (brk (calls av), av\<lparr>calls := cs\<rparr>)"
    using k0(1) [of "calls av"] by (simp add: MORECORE_def Let_def cs_def)
  have m1: "snd (MORECORE S (- extra) (av\<lparr>calls := cs\<rparr>)) = av\<lparr>calls := cs @ [Sbrk (- extra)]\<rparr>"
    by (simp add: MORECORE_def Let_def)
  have m2: "MORECORE S 0 (av\<lparr>calls := cs @ [Sbrk (- extra)]\<rparr>) = (brk (cs @ [Sbrk (- extra)]), av\<lparr>calls := ys\<rparr>)"
    using k0(1) [of "cs @ [Sbrk (- extra)]"] by (simp add: MORECORE_def Let_def ys_def)
  have c0: "brk cs = brk (calls av)" using k0(2) by (simp add: cs_def)
  define rel where "rel = brk cs - brk (cs @ [Sbrk (- extra)])"
  have rel: "rel = 0 \<or> rel = extra" using k1 [of "- extra"] by (auto simp: rel_def)
  note new_size = new
  define new where "new = brk (cs @ [Sbrk (- extra)])"
  define w where "w = set_head t ((ts - rel) OR PREV_INUSE) (av\<lparr>calls := ys, system_mem := system_mem av - rel\<rparr>)"
  have ch: "chunkinfo2chunk (av\<lparr>calls := cs\<rparr>) t = chunkinfo2chunk av t" by (simp add: chunkinfo2chunk_chunk ci_def)
  have fx: "md_top (av\<lparr>calls := cs\<rparr>) = Some t" "system_mem (av\<lparr>calls := ys\<rparr>) = system_mem av" using P(7) by simp_all
  have rel': "brk cs - new = rel" by (simp add: rel_def new_def)
  obtain x where x: "MORECORE S (- extra) (av\<lparr>calls := cs\<rparr>) = (x, av\<lparr>calls := cs @ [Sbrk (- extra)]\<rparr>)"
    using m1 by (cases "MORECORE S (- extra) (av\<lparr>calls := cs\<rparr>)") auto
  have res: "(if area \<le> pad then Some (False, av) else if extra = 0 then Some (False, av)
      else if brk cs = chunkinfo2chunk av t + ts then
        (if new \<noteq> 0 \<and> rel \<noteq> 0 then
           check_top (par w) w \<bind> (\<lambda>_. (if is_main w then lookup_decr_sbrk_hi rel (lkup w) \<bind> (\<lambda>(_, L). Some (w\<lparr>lkup := L\<rparr>))
             else Some w) \<bind> (\<lambda>av. Some (True, av)))
         else Some (False, av\<lparr>calls := ys\<rparr>))
      else Some (False, av\<lparr>calls := cs\<rparr>)) = Some (r, av')"
    using run unfolding systrim_def Let_def ts_def [symmetric] area_def [symmetric] j(3) extra_def [symmetric] m c0 [symmetric]
      prod.case x m2 fx Option.bind.simps(2) ch new_def [symmetric] rel' w_def [symmetric] .
  show ?thesis
  proof (cases "area \<le> pad \<or> extra = 0 \<or> brk cs \<noteq> chunkinfo2chunk av t + ts \<or> new = 0 \<or> rel = 0")
    case True
    then have c: "av' = av \<or> av' = av\<lparr>calls := cs\<rparr> \<or> av' = av\<lparr>calls := ys\<rparr> \<and> \<not> (area \<le> pad \<or> extra = 0 \<or> brk cs \<noteq> chunkinfo2chunk av t + ts)"
      using res by (auto simp only: if_True if_False option.inject prod.inject split: if_splits)
    have gy: "got ys = got (calls av)" if o: "\<not> (area \<le> pad \<or> extra = 0 \<or> brk cs \<noteq> chunkinfo2chunk av t + ts)"
    proof -
      have "rel = 0"
      proof (rule ccontr)
        assume "rel \<noteq> 0"
        then have "new = brk cs - extra" "brk (cs @ [Sbrk (- extra)]) \<noteq> brk cs"
          using k1 [of "- extra"] by (auto simp: new_def rel_def)
        then have "unat new = start (fA f) t + (unat ts - unat extra)" using new_size o by blast
        then have "new \<noteq> 0" using le o by auto
        then show False using True o \<open>rel \<noteq> 0\<close> by blast
      qed
      then have "brk (cs @ [Sbrk (- extra)]) = brk cs" by (simp add: rel_def)
      then have "kernel S (cs @ [Sbrk (- extra)]) = None" using ks(6) [of cs "- extra"] o by fastforce
      then show ?thesis using ks(5) gc by (simp only: ys_def ks(3))
    qed
    from c consider "av' = av" | "av' = av\<lparr>calls := cs\<rparr>" | "av' = av\<lparr>calls := ys\<rparr>" "got ys = got (calls av)"
      using gy by blast
    then show ?thesis
    proof cases
      case 1
      then show ?thesis using st by (simp add: firm_def)
    next
      case 2
      then show ?thesis using st' [OF gc sb(1)] gc by simp
    next
      case 3
      then show ?thesis using st' [OF 3(2) sb(2)] by simp
    qed
  next
    case False
    then have "check_top (par w) w \<bind> (\<lambda>_. (if is_main w then lookup_decr_sbrk_hi rel (lkup w) \<bind> (\<lambda>(_, L). Some (w\<lparr>lkup := L\<rparr>))
             else Some w) \<bind> (\<lambda>av. Some (True, av))) = Some (r, av')"
      using res by (simp only: if_True if_False de_Morgan_disj not_not simp_thms)
    then obtain av2 where a2: "(if is_main w then lookup_decr_sbrk_hi rel (lkup w) \<bind> (\<lambda>(_, L). Some (w\<lparr>lkup := L\<rparr>))
             else Some w) = Some av2" "Some (True, av2) = Some (r, av')" by (elim bindE) (rule that, assumption+)
    have "\<exists>L. av' = w\<lparr>lkup := L\<rparr>"
    proof (cases "is_main w")
      case True
      then show ?thesis using a2 by (simp only: if_True option.inject prod.inject) (elim conjE bindE, auto)
    next
      case False
      then have "av' = w\<lparr>lkup := lkup w\<rparr>" using a2 by simp
      then show ?thesis ..
    qed
    then obtain L where L: "av' = w\<lparr>lkup := L\<rparr>" ..
    have re: "rel = extra" using rel False by blast
    show ?thesis by (rule last [OF re [unfolded rel_def] _ _ _ L [unfolded w_def re]]) (use False in blast)+
  qed
qed

section \<open>Into a fast bin\<close>

lemma free_fastD:
  assumes run: "free_fast c sz nxc nextsize av = Some av'" and I: "pend Z [] E n av T f (fS f) H F G X own t"
    and c: "c \<in> used H F G X t" and sz: "sz = head_size (fS f c)" "sz \<le> global_max_fast (par av)" and p: "par_ok (par av)"
  obtains g where "pend Z [] E n av' T g (fS g) H F G (insert c X) own t" "fA g = fA f" "fS g = fS f" "keeps av av'"
proof -
  note P = pendD [OF I]
  have cH: "c \<in> H" "c \<notin> F" "c \<notin> G" "c \<notin> X" "c \<noteq> t" using c by (auto simp: used_def)
  define i where "i = unat (fastbin_index sz)"
  have ab: "check_action (par av) AND 2 \<noteq> 0" using p by (simp add: par_ok_def)
  define av1 where "av1 = (w_fd (fastbinsY av ! i) c (set_fastchunks av))\<lparr>fastbinsY := (fastbinsY av)[i := Some c]\<rparr>"
  have s: "fastbinsY (set_fastchunks av) = fastbinsY av" "par (set_fastchunks av) = par av" "par av1 = par av"
    by (simp_all add: set_fastchunks_def av1_def ci_upd_def)
  have pe: "printerr av = None" "printerr (set_fastchunks av) = None" "printerr av1 = None"
    using printerr_abort [of av] printerr_abort [of "set_fastchunks av"] printerr_abort [of av1] ab s by simp_all
  have r: "av' = (w_fd (fastbinsY av ! i) c (set_fastchunks av))\<lparr>fastbinsY := (fastbinsY av)[i := Some c]\<rparr>" "i < length (fastbinsY av)"
    using run unfolding free_fast_def Let_def i_def [symmetric] ci_upd_sel s av1_def [symmetric] pe
    by (auto simp: bind_eq_Some_conv assert_c_def split: if_splits)
  define g where "g = f\<lparr>fF := (fF f)(c := fastbinsY av ! i)\<rparr>"
  have "view E n (set_fastchunks av) T f" by (rule view_same [OF P(1)]) (simp_all add: set_fastchunks_def)
  from view_writes(3) [OF this, of "fastbinsY av ! i" c]
  have "view E n (w_fd (fastbinsY av ! i) c (set_fastchunks av)) T g" by (simp add: g_def)
  then have v: "view E n av' T g" unfolding r(1) by (rule view_same) simp_all
  have fr: "fastbinsY av' = (fastbinsY av)[i := Some c]" "md_top av' = md_top av" "bins_base av' = bins_base av" "keeps av av'"
    unfolding r(1) by (simp_all add: set_fastchunks_def keeps_def) (simp_all add: ci_upd_def)
  have "fast_ok (fF g) (insert c X) ([] @ fastbinsY av')"
    using push_fast [of "fF f" X "fastbinsY av" c i] P(4) cH(4) r(2) fr(1) by (simp add: g_def)
  moreover have "rings_ok g own F (bins_base av')"
    unfolding fr(3) by (rule bins_cong [OF P(3)]) (use cH pend_shown(3) [OF I cH(1)] in \<open>auto simp: g_def\<close>)
  moreover have "size_of (fS f c) \<le> 160"
    using sz p by (simp add: par_ok_def word_le_nat_alt)
  ultimately have "pend Z [] E n av' T g (fS g) H F G (insert c X) own t"
    using v P(2,5-8) cH fr by (auto simp: pend_def g_def)
  then show thesis using that fr(4) by (simp add: g_def)
qed

section \<open>Into the unsorted list or top\<close>

lemma after_large_freeD:
  assumes run: "after_large_free S topchunk freshheap av = Some av'" and st: "state (got (calls av)) [] (cienv S) n av U M B" and p: "par_ok (par av)"
    and k: "kernel_ok (kernel S) brk got" and m: "is_main av"
  shows "state (got (calls av')) [] (cienv S) n av' U M B \<and> firm av av'"
proof -
  from run obtain av1 where r: "(if have_fastchunks av then malloc_consolidate S av else Some av) = Some av1"
    "(if is_main av1 then (if chunksize av1 (md_top av1) \<ge> trim_threshold (par av1) then do {
          (_, av) \<leftarrow> systrim S (top_pad (par av1)) av1;
          Some av }
        else Some av1)
     else if \<not> freshheap then do {
       check_top (par av1) av1;
       av \<leftarrow> trim_heap S topchunk av1;
       check_top (par av) av;
       Some av }
     else Some av1) = Some av'"
    unfolding after_large_free_def by (elim bindE) (rule that, assumption+)
  have s1: "state (got (calls av)) [] (cienv S) n av1 U M B \<and> keeps av av1"
    using r(1) malloc_consolidateD [OF _ st] st p by (auto simp: par_ok_def split: if_splits)
  then have q: "par_ok (par av1)" "is_main av1" using p m by (auto simp: keeps_def)
  from s1 have s1: "state (got (calls av1)) [] (cienv S) n av1 U M B" "firm av av1" by (auto simp: keeps_def firm_def)
  show ?thesis
  proof (cases "chunksize av1 (md_top av1) \<ge> trim_threshold (par av1)")
    case True
    then obtain x where "systrim S (top_pad (par av1)) av1 = Some (x, av')" using r(2) q by (auto simp: bind_eq_Some_conv)
    from systrimD [OF this s1(1) q(1) k True] firm_trans [OF s1(2)] show ?thesis by blast
  next
    case False
    then show ?thesis using r(2) q s1 by simp
  qed
qed

lemma free_normalD:
  fixes av :: "'z proc_scheme"
  assumes run: "free_normal S c (fA f c) (head_size (fS f c)) nxc (fA f nxc) (head_size (fS f nxc)) (fA f t) fh av = Some av'"
    and I: "pend (got (calls av)) [] (cienv S) n av T f (fS f) H F G X own t" and c: "c \<in> used H F G X t" and nxc: "fN f c = Some nxc"
    and B: "\<forall>d \<in> used H F G X t \<union> (ran T - H). B d = blocks_of f d"
    and p: "par_ok (par av)" and k: "kernel_ok (kernel S) brk got" and mn: "is_main av"
  shows "state (got (calls av')) [] (cienv S) n av' (used H F G X t - {c}) (ran T - H) B \<and> firm av av'"
proof -
  let ?E = "cienv S"
  have ab: "check_action (par av) AND 2 \<noteq> 0" using p by (simp add: par_ok_def)
  note P = pendD [OF I] and pe = printerr_abort [OF ab]
  have cH: "c \<in> H" using c by (simp add: used_def)
  have cp: "prev_inuse av c (fA f c) = Some (pinuse (fS f c))"
    using view_sel(3) [OF P(1) pend_shown(2) [OF I cH]] view_chunk(1) [OF P(1) pend_shown(2) [OF I cH]]
    by (simp add: prev_inuse_def pinuse_def)
  define k2 where "k2 = (\<lambda>md p (sz :: u64) (av :: 'z proc_scheme). do {
         (ok, sz, av) \<leftarrow>
           (if fA f nxc \<noteq> fA f t then do {
              (nextinuse, av) \<leftarrow> inuse_bit ?E nxc av;
              (sz, av) \<leftarrow>
                (if \<not> nextinuse then merge_forward ?E False md p sz nxc (fA f nxc) (head_size (fS f nxc)) av
                 else Some (sz, clear_inuse_bit nxc av));
              (ok, av) \<leftarrow> place_unsorted ?E md sz av;
              (if ok then check_top (par av) av else Some ());
              Some (ok, sz, av) }
            else do {
              (sz, av) \<leftarrow> merge_top ?E md sz (head_size (fS f nxc)) (fA f t) av;
              Some (True, sz, av) });
         if ok \<and> sz \<ge> FASTBIN_CONSOLIDATION_THRESHOLD then after_large_free S (fA f t) fh av
         else Some av })"
  define X1 where "X1 = do { (md, p, sz, av) \<leftarrow> (if \<not> pinuse (fS f c)
      then merge_backward ?E False c (fA f c) (head_size (fS f c)) nxc (fA f nxc) av
      else Some (c, fA f c, head_size (fS f c), av)); k2 md p sz av }"
  have eq: "free_normal S c (fA f c) (head_size (fS f c)) nxc (fA f nxc) (head_size (fS f nxc)) (fA f t) fh av =
      (if fA f c = fA f t then None
       else if contiguous av \<and> fA f nxc \<ge> fA f t + chunksize av (md_top av) then None
       else prev_inuse av nxc (fA f nxc) \<bind> (\<lambda>marked. if \<not> marked then None
         else if csize (ci av nxc) \<le> 2 * SIZE_SZ \<or> head_size (fS f nxc) \<ge> system_mem av then None else X1))"
    unfolding free_normal_def Let_def pe cp X1_def k2_def Option.bind.simps(2) by (rule refl)
  have "X1 = Some av'" using run unfolding eq by (cases "prev_inuse av nxc (fA f nxc)") (auto split: if_splits)
  then obtain m q sz av1 where r: "(if \<not> pinuse (fS f c) then merge_backward ?E False c (fA f c) (head_size (fS f c)) nxc (fA f nxc) av
            else Some (c, fA f c, head_size (fS f c), av)) = Some (m, q, sz, av1)" "k2 m q sz av1 = Some av'"
    unfolding X1_def by (elim bind_quad_SomeE) (rule that)
  obtain T1 g H1 F1 where g: "loose (got (calls av)) [] ?E n av1 T1 g H1 F1 G X own t m sz" "used H1 F1 G X t - {m} = used H F G X t - {c}"
    "q = fA g m" "fN g m = Some nxc" "fA g = fA f" "fS g = fS f" "frame av av1"
    "ran T1 - H1 = ran T - H"
    by (rule back_looseD [OF r(1) I c refl refl nxc ab])
  have L: "pend (got (calls av)) [] ?E n av1 T1 g ((fS g)(m := sz OR PREV_INUSE)) H1 F1 G X own t" and m: "m \<in> used H1 F1 G X t"
    using g(1) by (simp_all add: loose_def)
  note Q = pendD [OF L] and nq = next_not_self [OF L m g(4)]
  have tH: "t \<in> H1" using heap_okD(1) [OF Q(2)] .
  have top: "(fA f nxc \<noteq> fA f t) = (nxc \<noteq> t)" using same_chunk [OF L nq(2) tH] g(5) by simp
  have ab1: "check_action (par av1) AND 2 \<noteq> 0" using ab frame_proc(1) [OF g(7)] by simp
  define U where "U = used H1 F1 G X t - {m}"
  have U: "used H F G X t - {c} = U" using g(2) by (simp add: U_def)
  define M where "M = ran T - H"
  have M: "ran T1 - H1 = M" using g(8) by (simp add: M_def)
  have mM: "m \<notin> U \<union> M" using m M by (auto simp: used_def U_def)
  have B: "B d = blocks_of g d" if "d \<in> U \<union> M" for d
    using B that g(5,6) unfolding U [symmetric] M_def by (auto simp: blocks_of_def)
  from r(2) obtain ok sz2 av2 where s: "(if fA f nxc \<noteq> fA f t then do {
              (nextinuse, av) \<leftarrow> inuse_bit ?E nxc av1;
              (sz, av) \<leftarrow>
                (if \<not> nextinuse then merge_forward ?E False m q sz nxc (fA f nxc) (head_size (fS f nxc)) av
                 else Some (sz, clear_inuse_bit nxc av));
              (ok, av) \<leftarrow> place_unsorted ?E m sz av;
              (if ok then check_top (par av) av else Some ());
              Some (ok, sz, av) }
            else do {
              (sz, av) \<leftarrow> merge_top ?E m sz (head_size (fS f nxc)) (fA f t) av1;
              Some (True, sz, av) }) = Some (ok, sz2, av2)"
      "(if ok \<and> sz2 \<ge> FASTBIN_CONSOLIDATION_THRESHOLD then after_large_free S (fA f t) fh av2 else Some av2) = Some av'"
    unfolding k2_def by (elim bind_triple_SomeE) (rule that)
  have "state (got (calls av)) [] ?E n av2 U M B \<and> keeps av1 av2"
  proof (cases "nxc = t")
    case True
    then obtain sz' where mt: "merge_top ?E m sz (head_size (fS g t)) (fA g t) av1 = Some (sz', av2)"
      using s(1) top g(5,6) by (auto simp: bind_eq_Some_conv)
    obtain T2 h where h: "pend (got (calls av)) [] ?E n av2 T2 h (fS h) (H1 - {t}) F1 G X own m" "fA h = fA g" "\<forall>x. x \<noteq> m \<longrightarrow> fS h x = fS g x"
      "keeps av1 av2" "used (H1 - {t}) F1 G X m = used H1 F1 G X t - {m}" "ran T2 - (H1 - {t}) = ran T1 - H1"
      by (rule merge_topD [OF mt g(1) g(4) [unfolded True] refl refl])
    have "state (got (calls av)) [] ?E n av2 U M B"
    proof (rule stateI [OF h(1)])
      show "used (H1 - {t}) F1 G X m = U" "ran T2 - (H1 - {t}) = M" using h(5,6) M by (simp_all add: U_def)
      show "B d = blocks_of h d" if "d \<in> U \<union> M" for d using B [OF that] h(2,3) that mM by (auto simp: blocks_of_def)
    qed
    then show ?thesis using h(4) by simp
  next
    case False
    define k where "k = (\<lambda>sz (av :: 'z proc_scheme). do {
       (ok, av) \<leftarrow> place_unsorted ?E m sz av;
       (if ok then check_top (par av) av else Some ());
       Some (ok, sz, av) })"
    have f: "do { (u, av) \<leftarrow> inuse_bit ?E nxc av1;
      (sz, av) \<leftarrow> (if \<not> u then merge_forward ?E False m q sz nxc (fA f nxc) (head_size (fS f nxc)) av else Some (sz, clear_inuse_bit nxc av));
      k sz av } = Some (ok, sz2, av2)"
      using s(1) top False unfolding k_def by (simp cong: if_cong)
    obtain sz' av3 T3 h H3 F3 nn where h: "k sz' av3 = Some (ok, sz2, av2)" "ready (got (calls av)) [] ?E n av3 T3 h H3 F3 G X own t m sz' nn"
      "used H3 F3 G X t = used H1 F1 G X t" "fA h = fA g" "\<forall>x. size_of (fS h x) = size_of (fS g x)" "frame av1 av3"
      "ran T3 - H3 = ran T1 - H1"
      by (rule forward_readyD [OF f g(1,4) False _ _ ab1]) (simp_all add: g(5,6))
    from h(1) obtain ok' where pu: "place_unsorted ?E m sz' av3 = Some (ok', av2)"
      unfolding k_def by (elim bindE) simp
    have ab3: "check_action (par av3) AND 2 \<noteq> 0" using ab1 frame_proc(1) [OF h(6)] by simp
    obtain w where w: "frame av3 av2" "pend (got (calls av)) [] ?E n av2 T3 (placed m sz' nn (Bptr (bins_base av3) 1) w h)
        (fS (placed m sz' nn (Bptr (bins_base av3) 1) w h)) H3 (insert m F3) G X (own(m := 1)) t"
      by (rule place_unsortedD [OF pu h(2) ab3])
    have "state (got (calls av)) [] ?E n av2 U M B"
    proof (rule stateI [OF w(2)])
      show "used H3 (insert m F3) G X t = U" unfolding used_insert h(3) U_def by simp
      show "B d = blocks_of (placed m sz' nn (Bptr (bins_base av3) 1) w h) d" if "d \<in> U \<union> M" for d
        using B [OF that] that mM h(4,5) by (auto simp: blocks_of_def placed_def)
      show "ran T3 - H3 = M" using h(7) M by simp
    qed
    then show ?thesis using frame_keeps [OF frame_trans [OF h(6) w(1)]] by simp
  qed
  then have st: "state (got (calls av)) [] ?E n av2 U M B" "keeps av av2" using keeps_trans [OF frame_keeps [OF g(7)]] by auto
  then have q: "par_ok (par av2)" "is_main av2" "calls av2 = calls av" using p mn by (auto simp: keeps_def)
  have "state (got (calls av')) [] ?E n av' U M B \<and> firm av2 av'"
    using s(2) st(1) after_large_freeD [OF _ st(1) [folded q(3)] q(1) k q(2)] q(3) by (auto simp: firm_def split: if_splits)
  then show ?thesis unfolding U M_def [symmetric] using firm_trans [OF keeps_firm [OF st(2)]] by blast
qed

lemma int_freeD:
  assumes run: "int_free S md p fh av = Some av'" and st: "state (got (calls av)) [] (cienv S) n av U M B" and c: "c \<in> U" "fst (B c) = p"
    and md: "md = None \<or> md = Some c" and pk: "par_ok (par av)" and k: "kernel_ok (kernel S) brk got" and mn: "is_main av"
  shows "state (got (calls av')) [] (cienv S) n av' (U - {c}) M B \<and> firm av av'"
proof -
  let ?E = "cienv S"
  from st obtain T f H F G X own t where I: "pend (got (calls av)) [] ?E n av T f (fS f) H F G X own t" "used H F G X t = U" "ran T - H = M"
    "\<forall>d \<in> U \<union> M. B d = blocks_of f d" by (rule stateE)
  note P = pendD [OF I(1)]
  have cu: "c \<in> used H F G X t" using c(1) I(2) by simp
  then have cH: "c \<in> H" by (simp add: used_def)
  have pA: "p = fA f c" using I(4) c by (simp add: blocks_of_def)
  have tH: "t \<in> H" using heap_okD(1) [OF P(2)] .
  have ab: "check_action (par av) AND 2 \<noteq> 0" using pk by (simp add: par_ok_def)
  from run obtain md1 av1 c1 where r: "(if md = None then lookup_chunk ?E p av else Some (md, av)) = Some (md1, av1)" "md1 = Some c1"
    "(if p > - chunksize av1 (Some c1) \<or> misaligned_chunk p then printerr av1
     else if chunksize av1 (Some c1) < MINSIZE \<or> \<not> aligned_OK (chunksize av1 (Some c1)) then printerr av1
     else do {
       av2 \<leftarrow> assert_md_next ?E c1 p av1;
       md_nextchunk \<leftarrow> md_next (ci av2 c1);
       if chunksize av1 (Some c1) \<le> global_max_fast (par av2)
       then free_fast c1 (chunksize av1 (Some c1)) md_nextchunk (chunksize av2 (Some md_nextchunk)) av2
       else if \<not> chunk_is_mmapped av2 c1
         then free_normal S c1 p (chunksize av1 (Some c1)) md_nextchunk (chunkinfo2chunk av2 md_nextchunk) (chunksize av2 (Some md_nextchunk))
           (chunkinfo2chunk av t) fh av2
       else free_mmapped S c1 p av2 }) = Some av'"
    unfolding int_free_def Let_def P(7) Option.bind.simps(2) by (elim bindE) (rule that, assumption+)
  have l: "md1 = Some c \<and> view ?E n av1 T f \<and> frame av av1"
  proof (cases "md = None")
    case True
    then have "lookup_chunk ?E p av = Some (md1, av1)" using r(1) by simp
    from lookup_view [OF this P(1)] show ?thesis using pend_shown(4) [OF I(1) cH] pA by simp
  next
    case False
    then show ?thesis using r(1) md P(1) by auto
  qed
  then have c1: "c1 = c" and v1: "view ?E n av1 T f" and f1: "frame av av1" using r(2) by simp_all
  have I1: "pend (got (calls av)) [] ?E n av1 T f (fS f) H F G X own t" by (rule pend_frame [OF I(1) v1 f1])
  note s1 = pend_shown [OF I1 cH]
  have pe: "printerr av1 = None" using printerr_abort [of av1] ab frame_proc(1) [OF f1] by simp
  have cs: "chunksize av1 (Some c) = head_size (fS f c)" using view_chunk(2) [OF v1 s1(2)] .
  have ct: "chunkinfo2chunk av t = fA f t" using view_chunk(1) [OF P(1) pend_shown(2) [OF I(1) tH]] .
  from r(3) [unfolded c1 pe cs ct] obtain av2 nxc where r3: "assert_md_next ?E c p av1 = Some av2" "md_next (ci av2 c) = Some nxc"
     "(if head_size (fS f c) \<le> global_max_fast (par av2)
       then free_fast c (head_size (fS f c)) nxc (chunksize av2 (Some nxc)) av2
       else if \<not> chunk_is_mmapped av2 c
         then free_normal S c p (head_size (fS f c)) nxc (chunkinfo2chunk av2 nxc) (chunksize av2 (Some nxc)) (fA f t) fh av2
       else free_mmapped S c p av2) = Some av'"
    by (simp split: if_splits, elim bindE) (rule that, assumption+)
  note a = next_step [OF r3(1,2) v1 s1(2)]
  have f2: "frame av av2" by (rule frame_trans [OF f1 a(5)])
  have I2: "pend (got (calls av)) [] ?E n av2 T f (fS f) H F G X own t" by (rule pend_frame [OF I1 a(4,5)])
  have par2: "par av2 = par av" using frame_proc(1) [OF f2] .
  note nc = view_chunk(1,2) [OF a(4,3)]
  have "\<not> chunk_is_mmapped av2 c"
    using view_chunk(4) [OF a(4) pend_shown(2) [OF I2 cH]] used_sizes(3) [OF I2 cH] by simp
  then consider (fast) "head_size (fS f c) \<le> global_max_fast (par av2)"
      "free_fast c (head_size (fS f c)) nxc (chunksize av2 (Some nxc)) av2 = Some av'"
    | (normal) "free_normal S c (fA f c) (head_size (fS f c)) nxc (fA f nxc) (head_size (fS f nxc)) (fA f t) fh av2 = Some av'"
    using r3(3) nc pA by (auto split: if_splits)
  then have "state (got (calls av')) [] ?E n av' (U - {c}) M B \<and> firm av2 av'"
  proof cases
    case fast
    obtain g where g: "pend (got (calls av)) [] ?E n av' T g (fS g) H F G (insert c X) own t" "fA g = fA f" "fS g = fS f" "keeps av2 av'"
      by (rule free_fastD [OF fast(2) I2 cu refl fast(1)]) (use pk par2 in simp)
    have "state (got (calls av)) [] ?E n av' (U - {c}) M B"
      by (rule stateI [OF g(1) _ I(3)]) (use I(2-4) g(2,3) in \<open>auto simp: used_def blocks_of_def\<close>)
    then show ?thesis using g(4) frame_proc(3) [OF f2] by (simp add: keeps_def firm_def)
  next
    case normal
    have "is_main av2" using mn frame_sel(11) [OF f2] by simp
    then show ?thesis using free_normalD [OF normal I2 [folded frame_proc(3) [OF f2]] cu a(1) _ _ k] I(2-4) pk par2 by simp
  qed
  then show ?thesis using firm_trans [OF keeps_firm [OF frame_keeps [OF f2]]] by blast
qed

end
