(* ===== verification/Malloc_Serve.thy ===== *)
theory Malloc_Serve
  imports Malloc_Release
begin

text \<open>
  The parts of \<open>_int_malloc\<close> that serve a request from the free chunks of the arena: each of them either goes
  on with the same chunks in use, or returns a chunk that was not in use and is large enough.
\<close>

section \<open>What a part of \<open>_int_malloc\<close> achieves\<close>

definition req_ok :: "u64 \<Rightarrow> bool" where
  "req_ok nb \<longleftrightarrow> 32 \<le> unat nb \<and> unat nb \<le> 2 ^ 64 - 64 \<and> 16 dvd unat nb"

definition served where
  "served Z E n nb U M B r av \<longleftrightarrow>
     (case r of None \<Rightarrow> state Z [] E n av U M B
      | Some c \<Rightarrow> \<exists>b. c \<notin> U \<union> M \<and> unat nb \<le> snd b \<and> state Z [] E n av (insert c U) M (B(c := b)))"

definition goes where
  "goes Z E n nb U M B r av \<longleftrightarrow> (case r of None \<Rightarrow> state Z [] E (Suc n) av U M B | Some x \<Rightarrow> served Z E n nb U M B x av)"

lemma pend_more: "pend Z L E n av T f S H F G X own t \<Longrightarrow> m \<le> n \<Longrightarrow> pend Z L E m av T f S H F G X own t"
  unfolding pend_def using view_more by blast

lemma state_more: "state Z L E n av U M B \<Longrightarrow> m \<le> n \<Longrightarrow> state Z L E m av U M B"
  by (elim stateE) (rule stateI [OF pend_more], auto)

lemma served_more: "served Z E n nb U M B r av \<Longrightarrow> m \<le> n \<Longrightarrow> served Z E m nb U M B r av"
  by (auto simp: served_def split: option.splits intro: state_more)

lemma servedI:
  assumes I: "pend Z [] E n av T f (fS f) H F G X own t" and U: "used H F G X t = insert c U" "c \<notin> U" "ran T - H = M"
    and B: "\<And>d. d \<in> U \<union> M \<Longrightarrow> B d = blocks_of f d" and sz: "unat nb \<le> size_of (fS f c)"
  shows "served Z E n nb U M B (Some c) av"
proof -
  have "c \<in> H" using U(1) by (auto simp: used_def)
  then have cM: "c \<notin> M" using U(3) by auto
  have "state Z [] E n av (insert c U) M (B(c := blocks_of f c))"
    by (rule stateI [OF I U(1,3)]) (use B in auto)
  then show ?thesis using U(2) cM sz by (auto simp: served_def blocks_of_def)
qed

section \<open>Fast bins\<close>

lemma malloc_fastD:
  assumes run: "malloc_fast nb av = Some (r, av')" and st: "state Z [] E (Suc n) av U M B" and p: "par_ok (par av)" and nb: "req_ok nb"
  shows "goes Z E n nb U M B r av' \<and> keeps av av'"
proof -
  from st obtain T f H F G X own t where I: "pend Z [] E (Suc n) av T f (fS f) H F G X own t" "used H F G X t = U" "ran T - H = M"
    "\<forall>d \<in> U \<union> M. B d = blocks_of f d" by (rule stateE)
  note P = pendD [OF I(1)]
  define i where "i = unat (fastbin_index nb)"
  show ?thesis
  proof (cases "nb \<le> global_max_fast (par av) \<and> fastbinsY av ! i \<noteq> None")
    case False
    then have "r = None" "av' = av" using run
      by (auto simp: malloc_fast_def Let_def i_def [symmetric] assert_c_def split: if_splits)
    then show ?thesis using st by (simp add: goes_def)
  next
    case True
    then obtain c where c: "nb \<le> global_max_fast (par av)" "fastbinsY av ! i = Some c" by auto
    define av1 where "av1 = av\<lparr>fastbinsY := (fastbinsY av)[i := fd (ci av c)]\<rparr>"
    have i: "i < length (fastbinsY av)" using run c by (auto simp: malloc_fast_def Let_def i_def [symmetric] assert_c_def split: if_splits)
    note pf = pop_fast [OF P(4) [simplified] i c(2)]
    have cH: "c \<in> H" "c \<notin> F" "c \<notin> G" "c \<noteq> t" using pf(2) P(6) by auto
    have fc: "fd (ci av c) = fF f c" using view_sel(4) [OF P(1) pend_shown(2) [OF I(1) cH(1)]] .
    have v: "view E n av1 T f" by (rule view_same [OF view_more [OF P(1)]]) (simp_all add: av1_def)
    have I1: "pend Z [] E n av1 T f (fS f) H F G (X - {c}) own t"
      using v P pf(1) fc by (auto simp: pend_def av1_def)
    have cs: "chunksize av1 (Some c) = head_size (fS f c)"
      using view_chunk(2) [OF v] pend_shown(2) [OF I1 cH(1)] by simp
    have pe: "printerr av1 = None" using printerr_abort [of av1] p by (simp add: av1_def par_ok_def)
    have r: "r = Some (Some c)" "av' = av1" "fastbin_index (chunksize av1 (Some c)) = fastbin_index nb"
      using run c i pe by (auto simp: malloc_fast_def Let_def i_def [symmetric] av1_def [symmetric] split: if_splits)
    have "size_of (fS f c) = unat nb"
    proof -
      have s: "32 \<le> size_of (fS f c)" "16 dvd size_of (fS f c)" "size_of (fS f c) \<le> 160"
        using used_sizes(2,4) [OF I1 cH(1)] P(8) [OF pf(2)] cH by auto
      have n: "32 \<le> unat nb" "16 dvd unat nb" "unat nb \<le> 160" using nb c(1) p by (auto simp: req_ok_def par_ok_def word_le_nat_alt)
      have "(size_of (fS f c) + 16) div 16 - 2 = (unat nb + 16) div 16 - 2"
        using r(3) cs fastbin_index_nat [of "head_size (fS f c)"] fastbin_index_nat [of nb] s n by simp
      then show ?thesis using s n by (auto elim!: dvdE)
    qed
    then have "served Z E n nb U M B (Some c) av1"
      by (intro servedI [OF I1 _ _ I(3)]) (use I(2,4) pf(2) cH in \<open>auto simp: used_def\<close>)
    then show ?thesis using r by (simp add: goes_def keeps_def av1_def)
  qed
qed

section \<open>A free chunk is used\<close>

lemma rings_head:
  assumes "rings_ok f own F base" and "x \<notin> F \<union> headers base"
  shows "rings_ok (f\<lparr>fS := (fS f)(x := v)\<rparr>) own F base"
  by (rule bins_cong [OF assms(1)]) (use assms(2) in auto)

text \<open>The last chunk of the unsorted list or of a small bin leaves it.\<close>

lemma last_unlinked:
  fixes av :: "'z mstate_scheme"
  assumes I: "pend Z L E n av T f S H F G X own t" and i: "1 \<le> i" "i < 64"
    and p: "fB f (Bptr (bins_base av) i) = Some p" "p \<noteq> Bptr (bins_base av) i"
  defines "b \<equiv> Bptr (bins_base av) i"
  obtains q where "p \<in> F" "own p = i" "fB f p = Some q" "fF f q = Some p" "q \<in> F \<union> headers (bins_base av)" "b \<noteq> p"
    "rings_ok (f\<lparr>fF := (fF f)(q := Some b), fB := (fB f)(b := Some q)\<rparr>) own (F - {p}) (bins_base av)"
    "fast_ok ((fF f)(q := Some b)) X (L @ fastbinsY av)"
proof -
  let ?base = "bins_base av"
  note P = pendD [OF I] and B = rings_okD [OF pendD(3) [OF I]]
  have iN: "1 \<le> i" "i < NBINS" using i by (simp_all add: NBINS_def)
  have bh: "b \<in> headers ?base" using iN by (auto simp: b_def headers_def)
  have pF: "p \<in> F" and ow: "own p = i" using header_neighbour(2) [OF B(1) iN p(1)] p(2) by (auto simp: b_def)
  have fp: "fF f p = Some b" using ring_okD(2) [OF B(1) _ p(1) [folded b_def]] bh by blast
  obtain q where q: "fB f p = Some q" using ring_okD(4) [OF B(1), of p] pF by blast
  note rq = ring_okD(2) [OF B(1) _ q]
  have q2: "q \<in> F \<union> headers ?base" "fF f q = Some p" using rq pF by auto
  have "skip_ok (fFN f) (fBN f) own (F - {p}) ?base"
    by (rule skip_remove [OF B(2)]) (use ow i in \<open>simp add: in_large_def\<close>)
  then have r: "rings_ok (f\<lparr>fF := (fF f)(q := Some b), fB := (fB f)(b := Some q)\<rparr>) own (F - {p}) ?base"
    using unlink_ring [OF B(1) pF fp q] B(3-6) by (simp add: rings_ok_def)
  have "x \<noteq> q" if "x \<in> X" for x using q2(1) P(6) pend_shown(3) [OF I] that by blast
  then have "fast_ok ((fF f)(q := Some b)) X (L @ fastbinsY av)"
    using P(4) fast_cong [of X "(fF f)(q := Some b)" "fF f"] by simp
  then show thesis using that pF ow q q2 r p(2) by (auto simp: b_def)
qed

text \<open>The chunk after a free one.\<close>

lemma next_of_free:
  assumes I: "pend Z L E n av T f S H F G X own t" and p: "p \<in> F" "fN f p = Some nx"
  shows "nx \<in> H" "nx \<notin> F" "nx \<noteq> t" "nx \<noteq> p" "\<not> pinuse (S nx)" "nx \<notin> F \<union> headers (bins_base av)"
proof -
  note D = heap_okD [OF pendD(2) [OF I]]
  note r = frees_fitD(2) [OF D(11) p]
  have pH: "p \<in> H" using p(1) D(4) by blast
  show h: "nx \<in> H" using links_fitD(1) [OF D(10) pH p(2)] .
  show "nx \<notin> F" "nx \<noteq> t" "nx \<noteq> p" "\<not> pinuse (S nx)" "nx \<notin> F \<union> headers (bins_base av)"
    using r p(1) pend_shown(3) [OF I h] by auto
qed

lemma take_served:
  assumes I: "pend Z [] E m av T f (fS f) H F G X own t" and p: "p \<in> F" "fN f p = Some nx"
    and v: "view E n av' T g" and g: "fA g = fA f" "fS g = (fS f)(nx := fS f nx OR PREV_INUSE)" "fP g = fP f" "fN g = fN f" "fV g = fV f"
    and r: "rings_ok g own (F - {p}) (bins_base av)" "fast_ok (fF g) X (fastbinsY av)"
    and fr: "fastbinsY av' = fastbinsY av" "md_top av' = md_top av" "bins_base av' = bins_base av"
    and B: "used H F G X t = U" "ran T - H = M" "\<forall>d \<in> U \<union> M. B d = blocks_of f d" and nb: "unat nb \<le> size_of (fS f p)"
  shows "served Z E n nb U M B (Some p) av'"
proof -
  note P = pendD [OF I] and D = heap_okD [OF pendD(2) [OF I]] and q = free_sizes [OF I p(1)]
  have "heap_ok Z (fA g) (fS g) (fP g) (fN g) (fV g) T H (F - {p}) G t"
    unfolding g by (rule take_ok [OF P(2) p])
  moreover have sz: "size_of (fS g d) = size_of (fS f d)" for d by (simp add: g(2))
  ultimately have "pend Z [] E n av' T g (fS g) H (F - {p}) G X own t"
    using v r fr P(5-8) by (auto simp: pend_def)
  then show ?thesis
    by (rule servedI [OF _ _ _ B(2)]) (use B q p D(2) nb sz g(1) in \<open>auto simp: used_def blocks_of_def\<close>)
qed

section \<open>Small bins\<close>

lemma smallbin_of_request:
  assumes "req_ok nb" and "in_smallbin_range nb"
  shows "unat (smallbin_index nb) = unat (bin_index nb)" "3 \<le> unat (smallbin_index nb)" "unat (smallbin_index nb) < 64"
    and "16 dvd size_of s \<Longrightarrow> size_of s \<le> 2 ^ 64 - 64 \<Longrightarrow> unat (bin_index (head_size s)) = unat (bin_index nb) \<Longrightarrow> size_of s = unat nb"
proof -
  have nb: "unat nb + 16 < 1024" "32 \<le> unat nb" "16 dvd unat nb" "unat nb \<le> 2 ^ 64 - 64"
    using assms in_smallbin_range_nat [of nb] by (auto simp: req_ok_def)
  have i: "unat (bin_index nb) = (unat nb + 16) div 16" using bin_index_nat [OF nb(4)] nb(1) by simp
  show "unat (smallbin_index nb) = unat (bin_index nb)" using assms(2) by (simp add: bin_index_def)
  then show "3 \<le> unat (smallbin_index nb)" "unat (smallbin_index nb) < 64"
    using i nb by (simp_all add: less_eq_div_iff_mult_less_eq div_less_iff_less_mult)
  assume s: "16 dvd size_of s" "size_of s \<le> 2 ^ 64 - 64" "unat (bin_index (head_size s)) = unat (bin_index nb)"
  have "(unat nb + 16) div 16 < 64" using nb(1) by (simp add: div_less_iff_less_mult)
  then have "size_of s + 16 < 1024" using s(3) i head_size_bits(2,3) [OF s(1,2)] by simp
  then have "(size_of s + 16) div 16 = (unat nb + 16) div 16"
    using bin_index_nat [of "head_size s"] s i by simp
  then show "size_of s = unat nb" using s(1) nb(3) by (auto elim!: dvdE)
qed

lemma malloc_smallD:
  assumes run: "malloc_small S nb av = Some (r, av')" and st: "state Z [] (cienv S) (Suc n) av U M B" and p: "par_ok (par av)" and nb: "req_ok nb"
  shows "goes Z (cienv S) n nb U M B r av' \<and> keeps av av'"
proof (cases "in_smallbin_range nb")
  case False
  then obtain "(if have_fastchunks av then malloc_consolidate S av else Some av) = Some av'" "r = None"
    using run by (auto simp: malloc_small_def bind_eq_Some_conv)
  then show ?thesis using st malloc_consolidateD [OF _ st] p by (auto simp: goes_def par_ok_def split: if_splits)
next
  case True
  from st obtain T f H F G X own t where I: "pend Z [] (cienv S) (Suc n) av T f (fS f) H F G X own t" "used H F G X t = U" "ran T - H = M"
    "\<forall>d \<in> U \<union> M. B d = blocks_of f d" by (rule stateE)
  note P = pendD [OF I(1)] and R = rings_okD [OF pendD(3) [OF I(1)]] and sb = smallbin_of_request [OF nb True]
  define i where "i = unat (smallbin_index nb)"
  have i: "1 \<le> i" "i < 64" using sb(2,3) by (simp_all add: i_def)
  define b where "b = Bptr (bins_base av) i"
  have bin: "bin_at av (smallbin_index nb) = b" by (simp add: bin_at_def b_def i_def)
  have shb: "shown av T b" by (simp add: shown_def b_def)
  have bh: "b \<in> headers (bins_base av)" using i by (auto simp: b_def headers_def NBINS_def)
  obtain v where v: "fB f b = Some v" using ring_okD(4) [OF R(1), of b] bh by blast
  have bv: "bk (ci av b) = Some v" using view_sel(5) [OF P(1) shb] v by simp
  show ?thesis
  proof (cases "v = b")
    case vb: True
    then show ?thesis using run True bin bv st by (auto simp: malloc_small_def Let_def goes_def)
  next
    case False
    obtain q where q: "v \<in> F" "own v = i" "fB f v = Some q" "fF f q = Some v" "q \<in> F \<union> headers (bins_base av)" "b \<noteq> v"
      "rings_ok (f\<lparr>fF := (fF f)(q := Some b), fB := (fB f)(b := Some q)\<rparr>) own (F - {v}) (bins_base av)"
      "fast_ok ((fF f)(q := Some b)) X ([] @ fastbinsY av)"
      by (rule last_unlinked [OF I(1) i v [unfolded b_def] False [unfolded b_def], folded b_def])
    note fs = free_sizes [OF I(1) q(1)]
    have sv: "shown av T v" using pend_shown(2) [OF I(1) fs(3)] .
    have "bk (ci av v) = Some q" using view_sel(5) [OF P(1) sv] q(3) by simp
    then obtain av1 where s: "set_inuse_bit (cienv S) v av = Some av1" "r = Some (Some v)" "av' = w_fd (Some b) q (w_bk (Some q) b av1)"
      using run True bin bv False printerr_abort [of av] p
      by (auto simp: malloc_small_def Let_def par_ok_def bind_eq_Some_conv split: if_splits)
    note su = set_inuse_bitD [OF s(1) P(1) sv]
    from su(1) obtain nx where nx: "fN f v = Some nx" "view (cienv S) (Suc n) av1 T (f\<lparr>fS := (fS f)(nx := fS f nx OR PREV_INUSE)\<rparr>)" by blast
    define g where "g = f\<lparr>fS := (fS f)(nx := fS f nx OR PREV_INUSE), fF := (fF f)(q := Some b), fB := (fB f)(b := Some q)\<rparr>"
    have vg: "view (cienv S) n av' T g"
      using view_more [OF view_writes(3) [OF view_writes(4) [OF nx(2), of "Some q" b], of "Some b" q], of n] by (simp add: g_def s(3))
    have fr: "frame av av'" unfolding s(3) using su(2) by simp
    have rg: "rings_ok g own (F - {v}) (bins_base av)"
      using rings_head [OF q(7), of nx "fS f nx OR PREV_INUSE"] next_of_free(6) [OF I(1) q(1) nx(1)] by (simp add: g_def)
    have "size_of (fS f v) = unat nb"
      using sb(4) [OF fs(1,2)] R(5) [OF q(1)] q(2) i_def sb(1,2) by simp
    then have "served Z (cienv S) n nb U M B (Some v) av'"
      by (intro take_served [OF I(1) q(1) nx(1) vg _ _ _ _ _ rg _ frame_sel(2,3,6) [OF fr] I(2-4)])
        (use q(8) in \<open>simp_all add: g_def\<close>)
    then show ?thesis using s(2) frame_keeps [OF fr] by (simp add: goes_def)
  qed
qed

end
