(* ===== verification/Malloc_Split.thy ===== *)
theory Malloc_Split
  imports Malloc_Serve
begin

text \<open>
  A free chunk that is larger than the request is split: its beginning is used, and the remainder becomes a
  free chunk of the list of unsorted chunks (\<open>split_free_chunk_remainder\<close> of the code is \<open>split_remainder\<close>).
\<close>

section \<open>The fields after a split\<close>

definition cut :: "bptr \<Rightarrow> u64 \<Rightarrow> u64 \<Rightarrow> u64 \<Rightarrow> bptr \<Rightarrow> bptr \<Rightarrow> fields \<Rightarrow> fields" where
  "cut v nb rsz a r nx f = (fresh_fields a r f)\<lparr>fS := (fS f)(v := nb OR PREV_INUSE, r := rsz OR PREV_INUSE),
     fP := (fP f)(r := 0, nx := rsz), fN := (fN f)(v := Some r, r := Some nx), fV := (fV f)(r := Some v, nx := Some r)\<rparr>"

lemma cut_sel [simp]:
  "fA (cut v nb rsz a r nx f) = (fA f)(r := a)" "fS (cut v nb rsz a r nx f) = (fS f)(v := nb OR PREV_INUSE, r := rsz OR PREV_INUSE)"
  "fP (cut v nb rsz a r nx f) = (fP f)(r := 0, nx := rsz)" "fN (cut v nb rsz a r nx f) = (fN f)(v := Some r, r := Some nx)"
  "fV (cut v nb rsz a r nx f) = (fV f)(r := Some v, nx := Some r)" "fF (cut v nb rsz a r nx f) = (fF f)(r := None)"
  "fB (cut v nb rsz a r nx f) = (fB f)(r := None)" "fFN (cut v nb rsz a r nx f) = (fFN f)(r := None)"
  "fBN (cut v nb rsz a r nx f) = (fBN f)(r := None)"
  by (simp_all add: cut_def)

text \<open>The sizes of the two parts of a chunk.\<close>

definition parts where
  "parts s nb rsz \<longleftrightarrow> unat (nb :: u64) + unat (rsz :: u64) = size_of s \<and> 16 dvd unat nb \<and> 16 dvd unat rsz \<and> 32 \<le> unat nb \<and> 32 \<le> unat rsz"

lemma parts_heads:
  assumes "parts s nb rsz"
  shows "size_of (nb OR PREV_INUSE) = unat nb" "size_of (rsz OR PREV_INUSE) = unat rsz" "\<not> mmapped_bit (nb OR PREV_INUSE)"
    "\<not> mmapped_bit (rsz OR PREV_INUSE)" "head_size (rsz OR PREV_INUSE) = rsz"
  using assms aligned_size(1,2) [of nb] aligned_size(1,2) [of rsz] head_size_or [of rsz] by (simp_all add: parts_def)

lemma parts_of:
  assumes "req_ok nb" and "size_of s < 2 ^ 64 - 64" and "16 dvd size_of s" and "unat nb + 32 \<le> size_of s"
  shows "parts s nb (head_size s - nb)"
proof -
  have "unat (head_size s - nb) = size_of s - unat nb" using assms(4) by (simp add: unat_sub word_le_nat_alt)
  then show ?thesis using assms by (auto simp: parts_def req_ok_def)
qed

lemma cut_address:
  assumes ok: "heap_ok Z A S P N V T H F G t" and v: "v \<in> H" and p: "parts (S v) nb rsz"
  shows "unat (A v + nb) = start A v + unat nb" and "T (A v + nb) = None"
proof -
  have "start A v + size_of (S v) < 2 ^ 64" using heap_okD(9) [OF ok] v by (auto simp: sizes_fit_def)
  then show a: "unat (A v + nb) = start A v + unat nb" using p by (simp add: unat_word_ariths start_def parts_def)
  show "T (A v + nb) = None" by (rule inside_unregistered [OF ok v]) (use a p in \<open>simp_all add: parts_def\<close>)
qed

lemma cut_ok:
  assumes ok: "heap_ok Z (fA f) (fS f) (fP f) (fN f) (fV f) T H F G t" and v: "v \<in> F" "fN f v = Some nx" and r: "r \<notin> ran T"
    and p: "parts (fS f v) nb rsz"
  defines "a \<equiv> fA f v + nb" and "g \<equiv> cut v nb rsz (fA f v + nb) r nx f"
  shows "heap_ok Z (fA g) (fS g) (fP g) (fN g) (fV g) (T(a \<mapsto> r)) (insert r H) (insert r (F - {v})) G t"
proof -
  let ?f = "fresh_fields a r f"
  let ?S1 = "(fS ?f)(nx := fS ?f nx OR PREV_INUSE)"
  let ?S2 = "?S1(v := nb OR PREV_INUSE, r := rsz OR PREV_INUSE)"
  have "heap_ok Z (fA ?f) (fS ?f) (fP ?f) (fN ?f) (fV ?f) T H F G t"
    by (rule heap_cong [OF ok]) (use r in auto)
  note D0 = heap_okD [OF ok] and D = heap_okD [OF this] and f = this
  have vH: "v \<in> H" "v \<notin> G" "v \<noteq> t" using v(1) D(2,4,5) by auto
  have nxH: "nx \<in> H" using links_fitD(1) [OF D0(10) vH(1) v(2)] .
  have rH: "r \<notin> H" "r \<noteq> v" "r \<noteq> nx" using r D(6) vH nxH by auto
  note nx = frees_fitD(2) [OF D0(11) v]
  have nxv: "nx \<noteq> v" using nx v(1) by blast
  note ph = parts_heads [OF p] and a = cut_address(1) [OF ok vH(1) p]
  have fv: "fN ?f v = Some nx" "fS ?f v = fS f v" using v(2) rH by simp_all
  have pv: "pinuse (?S1 v)" using free_pinuse [OF ok v(1)] rH nxv by simp
  have "heap_ok Z (fA ?f) ?S1 (fP ?f) (fN ?f) (fV ?f) T H (F - {v}) G t"
    by (rule take_ok [OF f v(1) fv(1)])
  then have "heap_ok Z ((fA ?f)(r := a)) ?S2 (fP ?f) ((fN ?f)(v := Some r, r := fN ?f v)) (relink_prev (fN ?f v) r ((fV ?f)(r := Some v)))
      (T(a \<mapsto> r)) (insert r H) (F - {v}) G (if v = t then r else t)"
  proof (rule split_ok)
    show "v \<in> H" "v \<notin> G" "r \<notin> ran T" "pinuse (?S1 v)" by (fact vH(1) vH(2) r pv)+
    show "size_of (nb OR PREV_INUSE) + size_of (rsz OR PREV_INUSE) = size_of (?S1 v)"
      using p ph(1,2) rH nxv by (simp add: parts_def)
    show "unat a = start (fA ?f) v + size_of (nb OR PREV_INUSE)" using a ph(1) rH by (simp add: start_def a_def)
    show "16 dvd size_of (nb OR PREV_INUSE)" "32 \<le> size_of (nb OR PREV_INUSE)" "32 \<le> size_of (rsz OR PREV_INUSE)"
      unfolding ph(1,2) using p by (simp_all add: parts_def)
    show "\<not> mmapped_bit (nb OR PREV_INUSE)" "\<not> mmapped_bit (rsz OR PREV_INUSE)" by (fact ph(3,4))+
  qed simp_all
  then have s: "heap_ok Z ((fA ?f)(r := a)) ?S2 (fP ?f) ((fN ?f)(v := Some r, r := Some nx)) ((fV ?f)(r := Some v, nx := Some r))
      (T(a \<mapsto> r)) (insert r H) (F - {v}) G t"
    unfolding fv(1) relink_prev_def using vH(3) by simp
  have "heap_ok Z ((fA ?f)(r := a)) (?S2(nx := ?S2 nx AND NOT PREV_INUSE)) ((fP ?f)(nx := rsz)) ((fN ?f)(v := Some r, r := Some nx))
      ((fV ?f)(r := Some v, nx := Some r)) (T(a \<mapsto> r)) (insert r H) (insert r (F - {v})) G t"
  proof (rule release_ok [OF s])
    show "r \<notin> G" using rH(1) D0(12) by blast
    show "nx \<notin> F - {v}" "nx \<noteq> t" using nx by simp_all
    show "unat rsz = size_of (?S2 r)" using ph(2) by simp
  qed simp_all
  moreover have "?S2(nx := ?S2 nx AND NOT PREV_INUSE) = fS g"
    using nx nxv rH set_pinuse_again(2) [of "fS f nx"] by (auto simp: g_def fun_eq_iff)
  ultimately show ?thesis using rH by (simp add: g_def a_def)
qed

lemma split_remainderD:
  assumes run: "split_remainder E v p rsz nb av = Some (r, av')" and w: "view E (Suc n) av T f"
    and ok: "heap_ok Z (fA f) (fS f) (fP f) (fN f) (fV f) T H F G t" and v: "v \<in> F" "fN f v = Some nx" and p: "p = fA f v" "parts (fS f v) nb rsz"
  shows "r \<notin> ran T" "bpool_of r \<noteq> bins_base av" "T (fA f v + nb) = None" "frame av av'"
    "view E n av' (T(fA f v + nb \<mapsto> r)) (cut v nb rsz (fA f v + nb) r nx f)"
proof -
  note D = heap_okD [OF ok]
  let ?a = "fA f v + nb"
  let ?T = "T(?a \<mapsto> r)"
  have vH: "v \<in> H" "v \<in> ran T" using v(1) D(4,6) by auto
  show Ta: "T ?a = None" by (rule cut_address(2) [OF ok vH(1) p(2)])
  from run obtain av2 where k: "register_chunk E ?a (set_head v (nb OR PREV_INUSE) av) = Some (r, av2)"
    "set_foot E r (set_head r (rsz OR PREV_INUSE) (case md_next (ci av2 v) of
        None \<Rightarrow> w_md_next (Some r) v (w_md_prev (Some v) r (w_md_next (md_next (ci av2 v)) r av2))
      | Some t \<Rightarrow> w_md_prev (Some r) t (w_md_next (Some r) v (w_md_prev (Some v) r (w_md_next (md_next (ci av2 v)) r av2))))) = Some av'"
    unfolding split_remainder_def Let_def chunk_at_offset_def p(1) by (elim bindE) auto
  note g = register_view [OF k(1) view_writes(9) [OF w] Ta]
  show r: "r \<notin> ran T" "bpool_of r \<noteq> bins_base av" using g(1,2) by (simp_all add: set_head_def)
  then have rv: "v \<noteq> r" using vH by auto
  have nxr: "nx \<noteq> r" using links_fitD(1) [OF D(10) vH(1) v(2)] D(6) r(1) by auto
  have s: "shown av2 ?T v" "shown av2 ?T r" using ranI [of ?T "?a" r] vH(2) Ta by (auto simp: shown_def ran_map_upd)
  have e: "md_next (ci av2 v) = Some nx" using view_sel(8) [OF g(3) s(1)] v(2) rv by simp
  define a3 where "a3 = set_head r (rsz OR PREV_INUSE) (w_md_prev (Some r) nx (w_md_next (Some r) v (w_md_prev (Some v) r (w_md_next (Some nx) r av2))))"
  have k3: "set_foot E r a3 = Some av'" using k(2) e by (simp add: a3_def)
  have fr3: "frame av a3"
    using g(4) frame_trans [OF frame_ci_upd g(4) [unfolded set_head_def]] by (simp add: a3_def set_head_def)
  have s3: "shown a3 ?T r" using s(2) by (simp add: a3_def set_head_def shown_def)
  note v3 = view_writes(9) [OF view_writes(8) [OF view_writes(7) [OF view_writes(8) [OF view_writes(7) [OF g(3), of "Some nx" r], of "Some v" r],
      of "Some r" v], of "Some r" nx], of r "rsz OR PREV_INUSE", folded a3_def]
  note sf = set_footD [OF k3 v3 s3]
  show "frame av av'" by (rule frame_trans [OF fr3 sf(2)])
  show "view E n av' (T(?a \<mapsto> r)) (cut v nb rsz ?a r nx f)"
    using sf(1) rv nxr parts_heads(5) [OF p(2)] by (simp add: cut_def fresh_fields_def fun_upd_twist)
qed

section \<open>The remainder in the unsorted list\<close>

lemma rings_insert:
  assumes ok: "rings_ok f own F base" and x: "x \<notin> F \<union> headers base" and w: "fF f (Bptr base 1) = Some w"
    and n: "fFN f x = None" "fBN f x = None"
  shows "rings_ok (f\<lparr>fF := (fF f)(x := Some w, Bptr base 1 := Some x), fB := (fB f)(x := Some (Bptr base 1), w := Some x)\<rparr>)
    (own(x := 1)) (insert x F) base"
proof -
  note B = rings_okD [OF ok]
  have "own (Bptr base 1) = 1" using B(1) by (auto simp: ring_ok_def NBINS_def)
  then have "ring_ok ((fF f)(x := Some w, Bptr base 1 := Some x)) ((fB f)(x := Some (Bptr base 1), w := Some x)) (own(x := 1)) (insert x F) base"
    using insert_ring [OF B(1) _ w x] by simp
  moreover have "skip_ok (fFN f) (fBN f) (own(x := 1)) (insert x F) base" by (rule skip_add [OF B(2) x]) simp
  moreover have "1 \<le> (own(x := 1)) c \<and> (2 \<le> (own(x := 1)) c \<longrightarrow> (own(x := 1)) c = unat (bin_index (head_size (fS f c)))) \<and>
        ((own(x := 1)) c = 1 \<longrightarrow> \<not> in_smallbin_range (head_size (fS f c)) \<longrightarrow> fFN f c = None \<and> fBN f c = None)" if "c \<in> insert x F" for c
    using that B(4-6) [of c] n by (cases "c = x") auto
  ultimately show ?thesis using B(3) by (simp add: rings_ok_def)
qed

lemma rings_cut:
  assumes ok: "rings_ok f own F base" and v: "v \<notin> F \<union> headers base" and r: "r \<notin> F \<union> headers base"
  shows "rings_ok (cut v nb rsz a r nx f) own F base"
  by (rule bins_cong [OF ok]) (use v r in auto)

lemma view_clear:
  assumes "view E n av T f" and "fFN f m = None" and "fBN f m = None"
  shows "view E n (clear_nextsize sz m av) T f"
  using clear_nextsize_view(1) [OF assms(1), of sz m] assms(2,3) by (simp add: fun_upd_idem cong: if_cong)

lemma split_served:
  assumes I: "pend Z [] E m av0 T f (fS f) H F G X own t" and v: "v \<in> F" "fN f v = Some nx" and r: "r \<notin> ran T" "bpool_of r \<noteq> bins_base av0"
    and p: "parts (fS f v) nb rsz"
    and w: "view E n av (T(fA f v + nb \<mapsto> r)) g" "fA g = (fA f)(r := fA f v + nb)" "fS g = (fS f)(v := nb OR PREV_INUSE, r := rsz OR PREV_INUSE)"
      "fP g = (fP f)(r := 0, nx := rsz)" "fN g = (fN f)(v := Some r, r := Some nx)" "fV g = (fV f)(r := Some v, nx := Some r)"
    and rg: "rings_ok g (own(r := 1)) (insert r (F - {v})) (bins_base av0)" and fa: "fast_ok (fF g) X (fastbinsY av)"
    and fr: "fastbinsY av = fastbinsY av0" "md_top av = md_top av0" "bins_base av = bins_base av0"
    and B: "used H F G X t = U" "ran T - H = M" "\<forall>d \<in> U \<union> M. B d = blocks_of f d"
  shows "served Z E n nb U M B (Some v) av"
proof -
  note P = pendD [OF I] and D = heap_okD [OF pendD(2) [OF I]] and q = free_sizes [OF I v(1)] and ph = parts_heads [OF p]
  have rH: "r \<notin> H" using r(1) D(6) by blast
  have Ta: "T (fA f v + nb) = None" by (rule cut_address(2) [OF P(2) q(3) p])
  have hk: "heap_ok Z (fA g) (fS g) (fP g) (fN g) (fV g) (T(fA f v + nb \<mapsto> r)) (insert r H) (insert r (F - {v})) G t"
    using cut_ok [OF P(2) v r(1) p] by (simp add: w(2-6))
  have X: "x \<noteq> v" "x \<noteq> r" "x \<in> H" if "x \<in> X" for x using P(6) that v(1) rH by auto
  have s1: "\<forall>c \<in> X. size_of (fS g c) \<le> 160" using P(8) X by (auto simp: w(3))
  have XF: "X \<subseteq> insert r H - insert r (F - {v}) - G - {t}" using P(6) X(2) by blast
  have vn: "v \<notin> X" "v \<notin> G" "v \<noteq> t" using v(1) P(6) D(2,5) by auto
  have N: "pend Z [] E n av (T(fA f v + nb \<mapsto> r)) g (fS g) (insert r H) (insert r (F - {v})) G X (own(r := 1)) t"
    using w(1) hk rg fa P(5,7) fr XF s1 by (simp add: pend_def)
  show ?thesis
  proof (rule servedI [OF N])
    show "used (insert r H) (insert r (F - {v})) G X t = insert v U"
      using B(1) vn q(3) rH v(1) by (auto simp: used_def)
    show "v \<notin> U" using B(1) v(1) by (auto simp: used_def)
    show "ran (T(fA f v + nb \<mapsto> r)) - insert r H = M" using B(2) r(1) Ta by (auto simp: ran_map_upd)
    show "B d = blocks_of g d" if "d \<in> U \<union> M" for d
    proof -
      have "d \<noteq> v" "d \<noteq> r" using that B(1,2) v(1) q(3) rH r(1) by (auto simp: used_def)
      then show ?thesis using B(3) that by (simp add: blocks_of_def w(2,3))
    qed
    have "v \<noteq> r" using q(3) rH by blast
    then show "unat nb \<le> size_of (fS g v)" using ph(1) by (simp add: w(3))
  qed
qed

section \<open>A chunk of a bin\<close>

lemma binned_not_fast:
  assumes "pend Z L E n av T f S H F G X own t" and "x \<in> F \<union> headers (bins_base av)"
  shows "x \<notin> X"
  using pendD(6) [OF assms(1)] pend_shown(3) [OF assms(1)] assms(2) by blast

lemma use_binnedD:
  assumes run: "use_binned E nb v sz av = Some (x, av')" and I: "pend Z [] E (Suc n) av T f (fS f) H F G X own t" and v: "v \<in> F"
    and sz: "sz = head_size (fS f v)" "nb \<le> sz" and p: "par_ok (par av)" and nb: "req_ok nb"
    and B: "used H F G X t = U" "ran T - H = M" "\<forall>d \<in> U \<union> M. B d = blocks_of f d"
  shows "\<exists>r. x = Some r \<and> served Z E n nb U M B r av' \<and> keeps av av'"
proof -
  note P = pendD [OF I] and D = heap_okD [OF pendD(2) [OF I]] and q = free_sizes [OF I v]
  have ab: "check_action (par av) AND 2 \<noteq> 0" using p by (simp add: par_ok_def)
  obtain nx where nx: "fN f v = Some nx" using frees_fitD(3) [OF D(11) v] by blast
  note nf = next_of_free [OF I v nx]
  define k where "k = (\<lambda>av :: 'a proc_scheme. if sz - nb < MINSIZE then do {
       av \<leftarrow> set_inuse_bit E v av;
       Some (Some (Some v), av) }
     else do {
       let bck = unsorted_chunks av;
       fwd \<leftarrow> fd (ci av bck);
       if bk (ci av fwd) \<noteq> Some bck then do {
         av \<leftarrow> printerr av;
         Some (Some None, av) }
       else do {
         (rem, av) \<leftarrow> split_remainder E v (chunkinfo2chunk av v) (sz - nb) nb av;
         let av = w_bk (Some bck) rem av;
         let av = w_fd (Some fwd) rem av;
         let av = w_fd (Some rem) bck av;
         let av = w_bk (Some rem) fwd av;
         let av = (if in_smallbin_range nb then av\<lparr>last_remainder := Some rem\<rparr> else av);
         Some (Some (Some v), clear_nextsize (sz - nb) rem av) } })"
  from run obtain y z av1 where r: "bin_unlink v av = Some (y, z, av1)" "k av1 = Some (x, av')"
    unfolding use_binned_def Let_def k_def by (elim bindE) (auto simp: Let_def)
  obtain g where g: "view E (Suc n) av1 T g" "rings_ok g own (F - {v}) (bins_base av1)" "fast_ok (fF g) X ([] @ fastbinsY av1)"
    "fA g = fA f" "fS g = fS f" "fP g = fP f" "fN g = fN f" "fV g = fV f" "frame av av1"
    by (rule pend_unlink [OF r(1) I v ab])
  note fr1 = frame_sel(2,3,6) [OF g(9)]
  have ab1: "check_action (par av1) AND 2 \<noteq> 0" using ab frame_proc(1) [OF g(9)] by simp
  have sv: "shown av1 T v" using pend_shown(2) [OF I q(3)] shown_frame [OF g(9)] by simp
  show ?thesis
  proof (cases "sz - nb < MINSIZE")
    case True
    then obtain av2 where s: "set_inuse_bit E v av1 = Some av2" "x = Some (Some v)" "av' = av2"
      using r(2) by (auto simp: k_def bind_eq_Some_conv)
    note su = set_inuse_bitD [OF s(1) g(1) sv]
    have vw: "view E n av' T (g\<lparr>fS := (fS g)(nx := fS g nx OR PREV_INUSE)\<rparr>)"
      using su(1) nx g(7) s(3) view_more [of E "Suc n"] by fastforce
    have fr: "frame av av'" unfolding s(3) by (rule frame_trans [OF g(9) su(2)])
    have "rings_ok (g\<lparr>fS := (fS g)(nx := fS g nx OR PREV_INUSE)\<rparr>) own (F - {v}) (bins_base av)"
      using rings_head [OF g(2)] nf(6) fr1(3) by simp
    then have "served Z E n nb U M B (Some v) av'"
      by (intro take_served [OF I v nx vw _ _ _ _ _ _ _ frame_sel(2,3,6) [OF fr] B])
        (use g(3-8) fr1 sz in \<open>simp_all add: word_le_nat_alt\<close>)
    then show ?thesis using s(2) frame_keeps [OF fr] by blast
  next
    case False
    let ?b = "Bptr (bins_base av) 1"
    have ub: "unsorted_chunks av1 = ?b" using fr1(3) by simp
    note R = rings_okD [OF g(2)]
    obtain w where w: "fF g ?b = Some w" using ring_okD(3) [OF R(1), of ?b] fr1(3) by auto
    note rw = ring_okD(1) [OF R(1) _ w]
    have sb: "shown av1 T ?b" using fr1(3) by (simp add: shown_def)
    have fb: "fd (ci av1 ?b) = Some w" using view_sel(4) [OF g(1) sb] w by simp
    have c1: "chunkinfo2chunk av1 v = fA g v" using view_chunk(1) [OF g(1) sv] .
    have "unat (sz - nb) = size_of (fS f v) - unat nb" using sz by (simp add: unat_sub)
    then have s32: "unat nb + 32 \<le> size_of (fS f v)" using False sz by (auto simp: word_less_nat_alt word_le_nat_alt MINSIZE_eq)
    have pt: "parts (fS f v) nb (sz - nb)"
      unfolding sz(1) using used_sizes(1,2) [OF I q(3)] by (intro parts_of [OF nb _ _ s32])
    from r(2) False fb obtain rem av2 where s: "split_remainder E v (fA g v) (sz - nb) nb av1 = Some (rem, av2)" "x = Some (Some v)"
      and a': "av' = clear_nextsize (sz - nb) rem (let av = w_bk (Some rem) w (w_fd (Some rem) ?b (w_fd (Some w) rem (w_bk (Some ?b) rem av2)))
           in if in_smallbin_range nb then av\<lparr>last_remainder := Some rem\<rparr> else av)"
      using printerr_abort [OF ab1] by (auto simp: k_def Let_def ub c1 fr1(3) bind_eq_Some_conv split: if_split_asm)
    have hg: "heap_ok Z (fA g) (fS g) (fP g) (fN g) (fV g) T H F G t" using P(2) by (simp add: g(4-8))
    note c = split_remainderD [OF s(1) g(1) hg v _ refl, unfolded g(5,7), OF nx pt]
    let ?T = "T(fA g v + nb \<mapsto> rem)" and ?c = "cut v nb (sz - nb) (fA g v + nb) rem nx g"
    have rF: "rem \<notin> (F - {v}) \<union> headers (bins_base av1)" using c(1,2) D(4,6) by (auto simp: headers_def)
    have vF: "v \<notin> (F - {v}) \<union> headers (bins_base av1)" using pend_shown(3) [OF I q(3)] fr1(3) by simp
    have rb: "rem \<noteq> ?b" "rem \<noteq> w" using rF rw fr1(3) by auto
    define h where "h = ?c\<lparr>fF := (fF ?c)(rem := Some w, ?b := Some rem), fB := (fB ?c)(rem := Some ?b, w := Some rem)\<rparr>"
    have rh: "rings_ok h (own(rem := 1)) (insert rem (F - {v})) (bins_base av)"
      unfolding h_def fr1(3) [symmetric]
      by (rule rings_insert [OF rings_cut [OF g(2) vF rF] rF]) (use w rb fr1(3) in simp_all)
    define a3 where "a3 = w_bk (Some rem) w (w_fd (Some rem) ?b (w_fd (Some w) rem (w_bk (Some ?b) rem av2)))"
    have v3: "view E n a3 ?T h"
      using view_writes(4) [OF view_writes(3) [OF view_writes(3) [OF view_writes(4) [OF c(5), of "Some ?b" rem], of "Some w" rem], of "Some rem" ?b], of "Some rem" w]
      by (simp add: a3_def h_def)
    define a4 where "a4 = (if in_smallbin_range nb then a3\<lparr>last_remainder := Some rem\<rparr> else a3)"
    have v4: "view E n a4 ?T h" unfolding a4_def by (auto intro: view_same [OF v3])
    have e: "av' = clear_nextsize (sz - nb) rem a4" unfolding a' a4_def a3_def Let_def ..
    have v': "view E n av' ?T h" unfolding e by (rule view_clear [OF v4]) (simp_all add: h_def)
    have fr3: "frame av a3" using frame_trans [OF g(9) c(4)] by (simp add: a3_def)
    have f4: "fastbinsY a4 = fastbinsY av" "md_top a4 = md_top av" "bins_base a4 = bins_base av" "keeps av a4"
      using frame_sel(2,3,6) [OF fr3] frame_keeps [OF fr3] by (simp_all add: a4_def keeps_def)
    have f5: "frame a4 av'" unfolding e by (rule clear_nextsize_view(2) [OF v4])
    have "w \<in> F \<union> headers (bins_base av)" "?b \<in> F \<union> headers (bins_base av)" using rw fr1(3) by auto
    then have wX: "w \<notin> X" "?b \<notin> X" "rem \<notin> X" using binned_not_fast [OF I] c(1) D(6) P(6) by blast+
    then have "fF h y = fF g y" if "y \<in> X" for y using that by (auto simp: h_def)
    then have fh: "fast_ok (fF h) X (fastbinsY av')"
      using g(3) fast_cong [of X "fF h" "fF g"] fr1(1) f4(1) frame_sel(2) [OF f5] by simp
    have "served Z E n nb U M B (Some v) av'"
      by (rule split_served [OF I v nx c(1) _ pt v' [unfolded g(4)] _ _ _ _ _ rh fh _ _ _ B])
        (use c(2) fr1 f4 frame_sel(2,3,6) [OF f5] g(4-8) in \<open>simp_all add: h_def\<close>)
    then show ?thesis using s(2) keeps_trans [OF f4(4) frame_keeps [OF f5]] by blast
  qed
qed

end
