(* ===== verification/Malloc_Place.thy ===== *)
theory Malloc_Place
  imports Malloc_Split
begin

text \<open>
  A chunk of the list of unsorted chunks goes to its bin: into the ring of the bin and, in a large bin, into
  the skip list unless a chunk of its size is there already.
\<close>

section \<open>The place in a large bin\<close>

lemma in_large_shown:
  assumes "in_large own F (bins_base av) x" and "F \<subseteq> ran T"
  shows "shown av T x" "x \<in> F \<union> headers (bins_base av)"
  using assms shown_header [of x av T] by (auto simp: in_large_def shown_def)

text \<open>The search stays in the bin; it may stop at the header, whose size is \<open>0\<close>.\<close>

lemma skip_largerD:
  fixes av :: "'z proc_scheme"
  assumes run: "skip_larger sz x av = Some y" and v: "view E n av T f" and s: "skip_ok (fFN f) (fBN f) own F (bins_base av)"
    and F: "F \<subseteq> ran T" and x: "in_large own F (bins_base av) x"
  shows "in_large own F (bins_base av) y \<and> own y = own x"
proof -
  have "view E n av T f \<longrightarrow> skip_ok (fFN f) (fBN f) own F (bins_base av) \<longrightarrow> in_large own F (bins_base av) x \<longrightarrow>
      in_large own F (bins_base av) y \<and> own y = own x"
  proof (induction rule: skip_larger.raw_induct [where P = "\<lambda>sz x (av :: 'z proc_scheme) y. view E n av T f \<longrightarrow>
      skip_ok (fFN f) (fBN f) own F (bins_base av) \<longrightarrow> in_large own F (bins_base av) x \<longrightarrow>
      in_large own F (bins_base av) y \<and> own y = own x", OF _ run])
    case (1 rec sz x av y)
    show ?case
    proof (intro impI)
      assume v: "view E n av T f" and s: "skip_ok (fFN f) (fBN f) own F (bins_base av)" and x: "in_large own F (bins_base av) x"
      show "in_large own F (bins_base av) y \<and> own y = own x"
      proof (cases "sz < csize (ci av x)")
        case True
        then obtain z where z: "fd_nextsize (ci av x) = Some z" "rec sz z av = Some y" using 1(2) by (auto simp: bind_eq_Some_conv)
        have "fFN f x = Some z" using z(1) view_sel(6) [OF v in_large_shown(1) [OF x F]] by simp
        note d = skip_okD(1,2) [OF s x this]
        then show ?thesis using 1(1) [OF z(2)] v s by simp
      next
        case False
        then show ?thesis using 1(2) x by simp
      qed
    qed
  qed
  then show ?thesis using v s x by blast
qed

text \<open>What the choice of the place in a large bin \<open>i\<close> gives for the chunk \<open>v\<close>.\<close>

definition placing where
  "placing E n T f own F base v i bck fwd av \<longleftrightarrow>
     bck \<in> F \<union> headers base \<and> own bck = i \<and> fF f bck = Some fwd \<and>
     (\<exists>a b. view E n av T (f\<lparr>fFN := a, fBN := b\<rparr>) \<and> skip_ok a b (own(v := i)) (insert v F) base \<and>
        (\<forall>c. c \<noteq> v \<longrightarrow> \<not> in_large own F base c \<longrightarrow> a c = fFN f c \<and> b c = fBN f c))"

lemma placingI:
  assumes "skip_ok a b (own(v := i)) (insert v F) base" and "view E n av T (f\<lparr>fFN := a, fBN := b\<rparr>)"
    and "bck \<in> F \<union> headers base" "own bck = i" "fF f bck = Some fwd"
    and "\<And>c. c \<noteq> v \<Longrightarrow> \<not> in_large own F base c \<Longrightarrow> a c = fFN f c \<and> b c = fBN f c"
  shows "placing E n T f own F base v i bck fwd av"
  using assms unfolding placing_def by blast

lemma place_largeD:
  fixes av :: "'z proc_scheme"
  assumes run: "place_large v sz b av = Some (bck, fwd, av')" and w: "view E n av T f" and ok: "rings_ok f own F base"
    and base: "base = bins_base av" and F: "F \<subseteq> ran T" and v: "v \<notin> F \<union> headers base" "fFN f v = None" "fBN f v = None" "shown av T v"
    and i: "64 \<le> i" "i < NBINS" "b = Bptr base i"
  shows "placing E n T f own F base v i bck fwd av' \<and> frame av av'"
proof -
  note B = rings_okD [OF ok]
  have bh: "b \<in> headers base" "b \<in> F \<union> headers base" and ob: "own b = i" using i B(1) by (auto simp: headers_def ring_ok_def)
  have sb: "shown av T b" using shown_header [of b av T] bh(1) base by simp
  obtain x where x: "fF f b = Some x" using ring_okD(3) [OF B(1) bh(2)] by blast
  note rx = ring_okD(1) [OF B(1) bh(2) x]
  have fb: "fd (ci av b) = Some x" using view_sel(4) [OF w sb] x by simp
  have large: "in_large own F base y" if "y \<in> F \<union> headers base" "own y = i" for y using that i(1) by (simp add: in_large_def)
  have sh: "shown av T y" if "y \<in> F \<union> headers base" for y using that F shown_header [of y av T] base by (auto simp: shown_def)
  show ?thesis
  proof (cases "x = b")
    case True
    then have e: "bck = b" "fwd = b" "av' = w_fd_nextsize (Some v) v (w_bk_nextsize (Some v) v av)"
      using run fb by (auto simp: place_large_def Let_def)
    have "skip_ok ((fFN f)(v := Some v)) ((fBN f)(v := Some v)) own F base"
      by (rule skip_cong [OF _ B(2)]) (use v(1) in auto)
    then have sk: "skip_ok ((fFN f)(v := Some v)) ((fBN f)(v := Some v)) (own(v := i)) (insert v F) base"
      by (rule skip_add [OF _ v(1)]) simp
    have "view E n av' T (f\<lparr>fFN := (fFN f)(v := Some v), fBN := (fBN f)(v := Some v)\<rparr>)"
      using view_writes(5) [OF view_writes(6) [OF w, of "Some v" v], of "Some v" v] by (simp add: e(3))
    with sk have "placing E n T f own F base v i bck fwd av'"
      by (rule placingI) (use bh ob x True e in auto)
    then show ?thesis by (simp add: e)
  next
    case False
    have xF: "x \<in> F" "own x = i" using header_neighbour(1) [OF B(1) _ i(2) x [unfolded i(3)]] False i by auto
    obtain s where s: "fB f b = Some s" using ring_okD(4) [OF B(1) bh(2)] by blast
    note rs = ring_okD(2) [OF B(1) bh(2) s]
    have bb: "bk (ci av b) = Some s" using view_sel(5) [OF w sb] s by simp
    let ?sz = "sz OR PREV_INUSE"
    have ins: "placing E n T f own F base v i bk' y av1"
      if l: "l \<in> F \<union> headers base" "own l = i" "fBN f l = Some z" and b': "bk' \<in> F \<union> headers base" "own bk' = i" "fF f bk' = Some y"
        and vw: "view E n av1 T (f\<lparr>fFN := (fFN f)(v := Some l, z := Some v), fBN := (fBN f)(v := Some z, l := Some v)\<rparr>)"
      for l z bk' y av1
    proof -
      note L = large [OF l(1,2)] and d = skip_okD(4) [OF B(2) large [OF l(1,2)] l(3)]
      have "skip_ok ((fFN f)(v := Some l, z := Some v)) ((fBN f)(v := Some z, l := Some v)) (own(v := i)) (insert v F) base"
        using skip_insert [OF B(2) v(1) L l(3)] l(2) by simp
      from this vw b' show ?thesis by (rule placingI) (use L d in auto)
    qed
    show ?thesis
    proof (cases "?sz < csize (ci av s)")
      case True
      have lv: "x \<noteq> v" using xF(1) v(1) by auto
      note sx = sh [of x]
      from run False True obtain z where z: "bk_nextsize (ci (w_bk_nextsize (bk_nextsize (ci (w_fd_nextsize (Some x) v av) x)) v (w_fd_nextsize (Some x) v av)) v) = Some z"
        and e: "bck = s" "fwd = b" "av' = w_bk_nextsize (Some v) x (w_fd_nextsize (Some v) z
          (w_bk_nextsize (bk_nextsize (ci (w_fd_nextsize (Some x) v av) x)) v (w_fd_nextsize (Some x) v av)))"
        by (auto simp: place_large_def Let_def fb bb bind_eq_Some_conv)
      have v1: "view E n (w_fd_nextsize (Some x) v av) T (f\<lparr>fFN := (fFN f)(v := Some x)\<rparr>)" by (rule view_writes(5) [OF w])
      have bx: "bk_nextsize (ci (w_fd_nextsize (Some x) v av) x) = fBN f x"
        using view_sel(7) [OF v1, of x] sx xF by (simp add: shown_def)
      have v2: "view E n (w_bk_nextsize (fBN f x) v (w_fd_nextsize (Some x) v av)) T (f\<lparr>fFN := (fFN f)(v := Some x), fBN := (fBN f)(v := fBN f x)\<rparr>)"
        using view_writes(6) [OF v1, of "fBN f x" v] by simp
      have zz: "fBN f x = Some z" using z view_sel(7) [OF v2, of v] v(4) by (simp add: bx shown_def)
      have "view E n av' T (f\<lparr>fFN := (fFN f)(v := Some x, z := Some v), fBN := (fBN f)(v := Some z, x := Some v)\<rparr>)"
        using view_writes(6) [OF view_writes(5) [OF v2, of "Some v" z], of "Some v" x] by (simp add: e(3) bx zz)
      from ins [OF _ xF(2) zz _ _ _ this] show ?thesis using xF(1) rs bh ob by (auto simp: e)
    next
      case nlt: False
      from run False nlt obtain y where y: "skip_larger ?sz x av = Some y"
        "(if ?sz = csize (ci av y) then do {
          fwd \<leftarrow> fd (ci av y);
          bck \<leftarrow> bk (ci av fwd);
          Some (bck, fwd, av) }
        else do {
          let av = w_fd_nextsize (Some y) v av;
          let av = w_bk_nextsize (bk_nextsize (ci av y)) v av;
          let av = w_bk_nextsize (Some v) y av;
          bkn \<leftarrow> bk_nextsize (ci av v);
          let av = w_fd_nextsize (Some v) bkn av;
          bck \<leftarrow> bk (ci av y);
          Some (bck, y, av) }) = Some (bck, fwd, av')"
        by (auto simp: place_large_def Let_def fb bb bind_eq_Some_conv)
      have "in_large own F (bins_base av) y \<and> own y = own x"
        by (rule skip_largerD [OF y(1) w B(2) [unfolded base] F]) (use large xF base in auto)
      then have yF: "y \<in> F \<union> headers base" "own y = i" using xF(2) base by (auto simp: in_large_def)
      have yv: "y \<noteq> v" using yF(1) v(1) by auto
      show ?thesis
      proof (cases "?sz = csize (ci av y)")
        case True
        obtain fw where fw: "fF f y = Some fw" using ring_okD(3) [OF B(1) yF(1)] by blast
        note rf = ring_okD(1) [OF B(1) yF(1) fw]
        have e: "bck = y" "fwd = fw" "av' = av"
          using y(2) True view_sel(4) [OF w sh [OF yF(1)]] fw view_sel(5) [OF w sh, of fw] rf by (auto simp: bind_eq_Some_conv)
        have "skip_ok (fFN f) (fBN f) (own(v := i)) (insert v F) base" by (rule skip_add [OF B(2) v(1)]) (use v in simp)
        then have "placing E n T f own F base v i bck fwd av'"
          by (rule placingI) (use yF fw w in \<open>simp_all add: e\<close>)
        then show ?thesis by (simp add: e)
      next
        case ne: False
        have v1: "view E n (w_fd_nextsize (Some y) v av) T (f\<lparr>fFN := (fFN f)(v := Some y)\<rparr>)" by (rule view_writes(5) [OF w])
        have bx: "bk_nextsize (ci (w_fd_nextsize (Some y) v av) y) = fBN f y"
          using view_sel(7) [OF v1, of y] sh [OF yF(1)] by (simp add: shown_def)
        have v3: "view E n (w_bk_nextsize (Some v) y (w_bk_nextsize (fBN f y) v (w_fd_nextsize (Some y) v av))) T
            (f\<lparr>fFN := (fFN f)(v := Some y), fBN := (fBN f)(v := fBN f y, y := Some v)\<rparr>)"
          using view_writes(6) [OF view_writes(6) [OF v1, of "fBN f y" v], of "Some v" y] by simp
        have bz: "bk_nextsize (ci (w_bk_nextsize (Some v) y (w_bk_nextsize (fBN f y) v (w_fd_nextsize (Some y) v av))) v) = fBN f y"
          using view_sel(7) [OF v3, of v] v(4) yv by (simp add: shown_def)
        from y(2) ne obtain z q where z: "fBN f y = Some z" and e: "fwd = y" "bck = q"
            "av' = w_fd_nextsize (Some v) z (w_bk_nextsize (Some v) y (w_bk_nextsize (fBN f y) v (w_fd_nextsize (Some y) v av)))"
            "bk (ci av' y) = Some q"
          by (auto simp: Let_def bx bz bind_eq_Some_conv)
        have v4: "view E n av' T (f\<lparr>fFN := (fFN f)(v := Some y, z := Some v), fBN := (fBN f)(v := Some z, y := Some v)\<rparr>)"
          using view_writes(5) [OF v3, of "Some v" z] by (simp add: e(3) z)
        have "fB f y = Some q" using e(4) view_sel(5) [OF v4, of y] sh [OF yF(1)] by (simp add: e(3) shown_def)
        note rq = ring_okD(2) [OF B(1) yF(1) this]
        from ins [OF yF z _ _ _ v4] show ?thesis using rq yF(2) by (auto simp: e(1-3))
      qed
    qed
  qed
qed

section \<open>The chunk in its bin\<close>

lemma bin_of_size:
  assumes "16 dvd size_of s" "size_of s \<le> 2 ^ 64 - 64" "32 \<le> size_of s"
  shows "2 \<le> unat (bin_index (head_size s))" "unat (bin_index (head_size s)) < NBINS"
  using bin_index_nat [of "head_size s"] assms large_index_bound [of "size_of s + 16"]
  by (auto simp: NBINS_def less_eq_div_iff_mult_less_eq div_less_iff_less_mult)

lemma place_in_binD:
  fixes av :: "'z proc_scheme"
  assumes run: "place_in_bin v sz av = Some av'" and w: "view E n av T f" and ok: "rings_ok f own F (bins_base av)"
    and F: "F \<subseteq> ran T" and v: "v \<notin> F \<union> headers (bins_base av)" "v \<in> ran T"
    and large: "\<not> in_smallbin_range sz \<Longrightarrow> fFN f v = None \<and> fBN f v = None"
    and s: "sz = head_size (fS f v)" "16 dvd size_of (fS f v)" "size_of (fS f v) \<le> 2 ^ 64 - 64" "32 \<le> size_of (fS f v)"
  obtains g i where "view E n av' T g" "rings_ok g (own(v := i)) (insert v F) (bins_base av)"
    "fA g = fA f" "fS g = fS f" "fP g = fP f" "fN g = fN f" "fV g = fV f" "\<forall>x. x \<notin> insert v F \<union> headers (bins_base av) \<longrightarrow> fF g x = fF f x"
    "fastbinsY av' = fastbinsY av" "md_top av' = md_top av" "keeps av av'"
proof -
  let ?base = "bins_base av"
  define i where "i = unat (bin_index sz)"
  define b where "b = Bptr ?base i"
  note B = rings_okD [OF ok] and hb = head_size_bits [OF s(2,3), folded s(1)]
  have i: "2 \<le> i" "i < NBINS" using bin_of_size [OF s(2-4)] by (simp_all add: i_def s(1))
  have sm: "in_smallbin_range sz \<longleftrightarrow> i < 64" using hb(3) by (simp add: i_def)
  have bh: "b \<in> F \<union> headers ?base" "b \<in> headers ?base" and ob: "own b = i" using i B(1) by (auto simp: b_def headers_def ring_ok_def)
  have sb: "shown av T b" and sv: "shown av T v" using v(2) by (simp_all add: b_def shown_def)
  have bin: "bin_at av (if in_smallbin_range sz then smallbin_index sz else largebin_index sz) = b"
    by (simp add: bin_at_def b_def i_def bin_index_def)
  from run obtain bck fwd av1 bm where r: "(if in_smallbin_range sz then do { fwd \<leftarrow> fd (ci av b); Some (b, fwd, av) }
        else place_large v sz b av) = Some (bck, fwd, av1)"
      "av' = w_fd (Some v) bck (w_bk (Some v) fwd (w_fd (Some fwd) v (w_bk (Some bck) v (av1\<lparr>bin_map := bm\<rparr>))))"
    unfolding place_in_bin_def Let_def bin by (elim bind_triple_SomeE bindE) auto
  have pl: "placing E n T f own F ?base v i bck fwd av1 \<and> frame av av1"
  proof (cases "in_smallbin_range sz")
    case True
    then have e: "bck = b" "fF f b = Some fwd" "av1 = av" using r(1) view_sel(4) [OF w sb] by (auto simp: bind_eq_Some_conv)
    have "skip_ok (fFN f) (fBN f) (own(v := i)) (insert v F) ?base" by (rule skip_add [OF B(2) v(1)]) (use True sm in simp)
    then have "placing E n T f own F ?base v i bck fwd av1" by (rule placingI) (use e bh ob w in simp_all)
    then show ?thesis by (simp add: e)
  next
    case False
    then have "place_large v sz b av = Some (bck, fwd, av1)" using r(1) by simp
    from place_largeD [OF this w ok refl F v(1) _ _ sv _ i(2) b_def] large False sm show ?thesis by simp
  qed
  then obtain a a' where p: "bck \<in> F \<union> headers ?base" "own bck = i" "fF f bck = Some fwd"
    "view E n av1 T (f\<lparr>fFN := a, fBN := a'\<rparr>)" "skip_ok a a' (own(v := i)) (insert v F) ?base"
    "\<And>c. c \<noteq> v \<Longrightarrow> \<not> in_large own F ?base c \<Longrightarrow> a c = fFN f c \<and> a' c = fBN f c" and fr: "frame av av1"
    unfolding placing_def by blast
  define g where "g = f\<lparr>fF := (fF f)(v := Some fwd, bck := Some v), fB := (fB f)(v := Some bck, fwd := Some v), fFN := a, fBN := a'\<rparr>"
  have "view E n (av1\<lparr>bin_map := bm\<rparr>) T (f\<lparr>fFN := a, fBN := a'\<rparr>)" by (rule view_same [OF p(4)]) simp_all
  from view_writes(3) [OF view_writes(4) [OF view_writes(3) [OF view_writes(4) [OF this, of "Some bck" v], of "Some fwd" v], of "Some v" fwd], of "Some v" bck]
  have vw: "view E n av' T g" by (simp add: g_def r(2))
  have "ring_ok (fF g) (fB g) (own(v := i)) (insert v F) ?base"
    using insert_ring [OF B(1) p(1,3) v(1)] p(2) by (simp add: g_def)
  moreover have "1 \<le> (own(v := i)) c \<and> (2 \<le> (own(v := i)) c \<longrightarrow> (own(v := i)) c = unat (bin_index (head_size (fS g c)))) \<and>
        ((own(v := i)) c = 1 \<longrightarrow> \<not> in_smallbin_range (head_size (fS g c)) \<longrightarrow> fFN g c = None \<and> fBN g c = None)" if "c \<in> insert v F" for c
  proof (cases "c = v")
    case True
    then show ?thesis using i by (simp add: i_def s(1) g_def)
  next
    case False
    then show ?thesis using that B(4-6) [of c] p(6) [of c] by (auto simp: g_def in_large_def)
  qed
  ultimately have rg: "rings_ok g (own(v := i)) (insert v F) ?base" using p(5) B(3) by (simp add: rings_ok_def g_def)
  have fs: "fastbinsY av' = fastbinsY av" "md_top av' = md_top av" "keeps av av'"
    using frame_sel(2,3) [OF fr] frame_keeps [OF fr] by (simp_all add: r(2) keeps_def ci_upd_def)
  show thesis by (rule that [OF vw rg _ _ _ _ _ _ fs]) (use p(1) in \<open>auto simp: g_def\<close>)
qed

end
