(* ===== verification/Malloc_Unsorted.thy ===== *)
theory Malloc_Unsorted
  imports Malloc_Place
begin

text \<open>
  The loop of \<open>_int_malloc\<close> over the list of unsorted chunks: it splits the last remainder, takes a chunk of the
  exact size, or moves the chunks to their bins.
\<close>

lemma split_last_remainderD:
  fixes av :: "'z proc_scheme"
  assumes run: "split_last_remainder E nb v sz av = Some (x, av')" and I: "pend Z [] E (Suc n) av T f (fS f) H F G X own t"
    and v: "fB f (Bptr (bins_base av) 1) = Some v" "v \<noteq> Bptr (bins_base av) 1" "fB f v = Some (Bptr (bins_base av) 1)"
    and sz: "sz = head_size (fS f v)" "unat nb + 32 \<le> size_of (fS f v)" and nb: "req_ok nb"
    and B: "used H F G X t = U" "ran T - H = M" "\<forall>d \<in> U \<union> M. B d = blocks_of f d"
  shows "x = v \<and> served Z E n nb U M B (Some x) av' \<and> keeps av av'"
proof -
  note P = pendD [OF I] and D = heap_okD [OF pendD(2) [OF I]]
  let ?b = "Bptr (bins_base av) 1"
  obtain q where q: "v \<in> F" "fB f v = Some q" "fF f q = Some v" "q \<in> F \<union> headers (bins_base av)" "?b \<noteq> v"
    "rings_ok (f\<lparr>fF := (fF f)(q := Some ?b), fB := (fB f)(?b := Some q)\<rparr>) own (F - {v}) (bins_base av)"
    "fast_ok ((fF f)(q := Some ?b)) X ([] @ fastbinsY av)"
    by (rule last_unlinked [OF I _ _ v(1,2)]) simp_all
  have qb: "q = ?b" using q(2) v(3) by simp
  note fs = free_sizes [OF I q(1)]
  obtain nx where nx: "fN f v = Some nx" using frees_fitD(3) [OF D(11) q(1)] by blast
  have pt: "parts (fS f v) nb (sz - nb)"
    unfolding sz(1) using used_sizes(1,2) [OF I fs(3)] by (intro parts_of [OF nb _ _ sz(2)])
  have c1: "chunkinfo2chunk av v = fA f v" using view_chunk(1) [OF P(1) pend_shown(2) [OF I fs(3)]] .
  from run obtain rem av2 where s: "split_remainder E v (fA f v) (sz - nb) nb av = Some (rem, av2)" "x = v"
    and a': "av' = clear_nextsize (sz - nb) rem (w_bk (Some (unsorted_chunks av2)) rem (w_fd (Some (unsorted_chunks av2)) rem
      ((w_bk (Some rem) (unsorted_chunks av2) (w_fd (Some rem) (unsorted_chunks av2) av2))\<lparr>last_remainder := Some rem\<rparr>)))"
    unfolding split_last_remainder_def Let_def c1 by (auto simp: bind_eq_Some_conv)
  note c = split_remainderD [OF s(1) P(1,2) q(1) nx refl pt]
  note f2 = frame_sel(2,3,6) [OF c(4)]
  let ?T = "T(fA f v + nb \<mapsto> rem)" and ?c = "cut v nb (sz - nb) (fA f v + nb) rem nx f"
  have rF: "rem \<notin> (F - {v}) \<union> headers (bins_base av)" using c(1,2) D(4,6) by (auto simp: headers_def)
  have vF: "v \<notin> (F - {v}) \<union> headers (bins_base av)" using pend_shown(3) [OF I fs(3)] by simp
  have rb: "rem \<noteq> ?b" using rF by auto
  define h where "h = ?c\<lparr>fF := (fF f)(rem := Some ?b, ?b := Some rem), fB := (fB f)(rem := Some ?b, ?b := Some rem)\<rparr>"
  define u where "u = f\<lparr>fF := (fF f)(?b := Some ?b), fB := (fB f)(?b := Some ?b)\<rparr>"
  have ru: "rings_ok u own (F - {v}) (bins_base av)" using q(6) qb by (simp add: u_def)
  define cu where "cu = cut v nb (sz - nb) (fA f v + nb) rem nx u"
  have "rings_ok (cu\<lparr>fF := (fF cu)(rem := Some ?b, ?b := Some rem), fB := (fB cu)(rem := Some ?b, ?b := Some rem)\<rparr>)
      (own(rem := 1)) (insert rem (F - {v})) (bins_base av)"
    unfolding cu_def by (rule rings_insert [OF rings_cut [OF ru vF rF] rF]) (use rb in \<open>simp_all add: u_def\<close>)
  then have rh: "rings_ok h (own(rem := 1)) (insert rem (F - {v})) (bins_base av)"
    by (rule bins_cong) (use rb in \<open>auto simp: h_def cu_def u_def\<close>)
  define a3 where "a3 = (w_bk (Some rem) ?b (w_fd (Some rem) ?b av2))\<lparr>last_remainder := Some rem\<rparr>"
  have "view E n (w_bk (Some rem) ?b (w_fd (Some rem) ?b av2)) ?T (?c\<lparr>fF := (fF ?c)(?b := Some rem), fB := (fB ?c)(?b := Some rem)\<rparr>)"
    using view_writes(4) [OF view_writes(3) [OF c(5), of "Some rem" ?b], of "Some rem" ?b] by simp
  then have v3: "view E n a3 ?T (?c\<lparr>fF := (fF ?c)(?b := Some rem), fB := (fB ?c)(?b := Some rem)\<rparr>)"
    unfolding a3_def by (rule view_same) simp_all
  define a4 where "a4 = w_bk (Some ?b) rem (w_fd (Some ?b) rem a3)"
  have v4: "view E n a4 ?T h"
    using view_writes(4) [OF view_writes(3) [OF v3, of "Some ?b" rem], of "Some ?b" rem] rb
    by (simp add: a4_def h_def fun_upd_twist)
  have e: "av' = clear_nextsize (sz - nb) rem a4" unfolding a' a4_def a3_def by (simp add: f2)
  have v': "view E n av' ?T h" unfolding e by (rule view_clear [OF v4]) (simp_all add: h_def)
  have f4: "fastbinsY a4 = fastbinsY av" "md_top a4 = md_top av" "bins_base a4 = bins_base av" "keeps av a4"
    using f2 frame_keeps [OF c(4)] by (simp_all add: a4_def a3_def keeps_def ci_upd_def)
  have f5: "frame a4 av'" unfolding e by (rule clear_nextsize_view(2) [OF v4])
  have "?b \<notin> X" "rem \<notin> X" using binned_not_fast [OF I, of ?b] c(1) D(6) P(6) by auto
  then have "fF h y = fF f y" if "y \<in> X" for y using that by (auto simp: h_def)
  then have fh: "fast_ok (fF h) X (fastbinsY av')"
    using P(4) fast_cong [of X "fF h" "fF f"] f4(1) frame_sel(2) [OF f5] by simp
  have "served Z E n nb U M B (Some v) av'"
    by (rule split_served [OF I q(1) nx c(1) c(2) pt v' _ _ _ _ _ rh fh _ _ _ B])
      (use f2 f4 frame_sel(2,3,6) [OF f5] in \<open>simp_all add: h_def\<close>)
  then show ?thesis using s(2) keeps_trans [OF f4(4) frame_keeps [OF f5]] by blast
qed

text \<open>One chunk of the list that is not split.\<close>

lemma unsorted_stepD:
  fixes av :: "'z proc_scheme"
  assumes run: "(if sz = nb then do {
           av \<leftarrow> set_inuse_bit E v (w_fd (Some (Bptr (bins_base av) 1)) q (w_bk (Some q) (Bptr (bins_base av) 1) av));
           Some (Some (Some v), av) }
         else do {
           av \<leftarrow> place_in_bin v sz (w_fd (Some (Bptr (bins_base av) 1)) q (w_bk (Some q) (Bptr (bins_base av) 1) av));
           k av }) = Some (x, av')"
    and I: "pend Z [] E (Suc n) av T f (fS f) H F G X own t"
    and v: "fB f (Bptr (bins_base av) 1) = Some v" "v \<noteq> Bptr (bins_base av) 1" "fB f v = Some q" and sz: "sz = head_size (fS f v)"
    and B: "used H F G X t = U" "ran T - H = M" "\<forall>d \<in> U \<union> M. B d = blocks_of f d"
  shows "goes Z E n nb U M B x av' \<and> keeps av av' \<or> (\<exists>av1. k av1 = Some (x, av') \<and> state Z [] E (Suc n) av1 U M B \<and> keeps av av1)"
proof -
  note P = pendD [OF I] and D = heap_okD [OF pendD(2) [OF I]]
  let ?b = "Bptr (bins_base av) 1"
  let ?av = "w_fd (Some ?b) q (w_bk (Some q) ?b av)"
  obtain q' where q': "v \<in> F" "own v = 1" "fB f v = Some q'" "fF f q' = Some v" "q' \<in> F \<union> headers (bins_base av)" "?b \<noteq> v"
    "rings_ok (f\<lparr>fF := (fF f)(q' := Some ?b), fB := (fB f)(?b := Some q')\<rparr>) own (F - {v}) (bins_base av)"
    "fast_ok ((fF f)(q' := Some ?b)) X ([] @ fastbinsY av)"
    by (rule last_unlinked [OF I _ _ v(1,2)]) simp_all
  have qq: "q' = q" using q'(3) v(3) by simp
  note q = q' [unfolded qq] and fs = free_sizes [OF I q'(1)]
  have rv: "v \<in> ran T" using pend_shown(1) [OF I fs(3)] .
  define u where "u = f\<lparr>fF := (fF f)(q := Some ?b), fB := (fB f)(?b := Some q)\<rparr>"
  have vu: "view E (Suc n) ?av T u"
    using view_writes(3) [OF view_writes(4) [OF P(1), of "Some q" ?b], of "Some ?b" q] by (simp add: u_def)
  have fr: "frame av ?av" by simp
  show ?thesis
  proof (cases "sz = nb")
    case True
    then obtain s: "set_inuse_bit E v ?av = Some av'" and x: "x = Some (Some v)" using run by (auto simp: bind_eq_Some_conv)
    have szv: "unat nb = size_of (fS f v)" using True sz unat_head_size by metis
    have "shown ?av T v" using rv by (simp add: shown_def)
    note su = set_inuse_bitD [OF s vu this]
    obtain nx where nx: "fN f v = Some nx" "view E (Suc n) av' T (u\<lparr>fS := (fS u)(nx := fS u nx OR PREV_INUSE)\<rparr>)"
      using su(1) by (auto simp: u_def)
    have f2: "frame av av'" by (rule frame_trans [OF fr su(2)])
    have "rings_ok (u\<lparr>fS := (fS u)(nx := fS u nx OR PREV_INUSE)\<rparr>) own (F - {v}) (bins_base av)"
      using rings_head [OF q(7), of nx "fS f nx OR PREV_INUSE"] next_of_free(6) [OF I q(1) nx(1)] by (simp add: u_def)
    then have "served Z E n nb U M B (Some v) av'"
      by (intro take_served [OF I q(1) nx(1) view_more [OF nx(2)] _ _ _ _ _ _ _ frame_sel(2,3,6) [OF f2] B])
        (use q(8) szv in \<open>simp_all add: u_def\<close>)
    then show ?thesis using x frame_keeps [OF f2] by (simp add: goes_def)
  next
    case False
    then obtain av1 where r: "place_in_bin v sz ?av = Some av1" "k av1 = Some (x, av')" using run by (auto simp: bind_eq_Some_conv)
    have F: "F - {v} \<subseteq> ran T" using D(4,6) by blast
    have vF: "v \<notin> (F - {v}) \<union> headers (bins_base av)" using pend_shown(3) [OF I fs(3)] by simp
    have s32: "32 \<le> size_of (fS f v)" using used_sizes(4) [OF I fs(3,4)] .
    have ru: "rings_ok u own (F - {v}) (bins_base ?av)" using q(7) by (simp add: u_def)
    have lg: "fFN u v = None \<and> fBN u v = None" if "\<not> in_smallbin_range sz"
      using rings_okD(6) [OF P(3) q(1,2)] that sz by (simp add: u_def)
    have su: "sz = head_size (fS u v)" "16 dvd size_of (fS u v)" "size_of (fS u v) \<le> 2 ^ 64 - 64" "32 \<le> size_of (fS u v)"
      using sz fs(1,2) s32 by (simp_all add: u_def)
    have vF': "v \<notin> (F - {v}) \<union> headers (bins_base ?av)" using vF by simp
    obtain g i where g: "view E (Suc n) av1 T g" "rings_ok g (own(v := i)) (insert v (F - {v})) (bins_base ?av)"
      "fA g = fA u" "fS g = fS u" "fP g = fP u" "fN g = fN u" "fV g = fV u" "\<forall>x. x \<notin> insert v (F - {v}) \<union> headers (bins_base ?av) \<longrightarrow> fF g x = fF u x"
      "fastbinsY av1 = fastbinsY ?av" "md_top av1 = md_top ?av" "keeps ?av av1"
      by (rule place_in_binD [OF r(1) vu ru F vF' rv lg su])
    have nX: "x \<notin> insert v (F - {v}) \<union> headers (bins_base av)" if "x \<in> X" for x
      using binned_not_fast [OF I, of x] that q(1) by blast
    have e: "fF g x = ((fF f)(q := Some ?b)) x" if "x \<in> X" for x using g(8) nX [OF that] by (simp add: u_def)
    have k: "keeps av av1" using keeps_trans [OF frame_keeps [OF fr] g(11)] .
    have "pend Z [] E (Suc n) av1 T g (fS g) H F G X (own(v := i)) t"
      using g(1-7,9,10) P q(1,8) fast_cong [of X "fF g" "(fF f)(q := Some ?b)"] e k
      by (simp add: pend_def u_def keeps_def insert_absorb)
    then have "state Z [] E (Suc n) av1 U M B"
      by (rule stateI [OF _ B(1,2)]) (use B(3) g(3,4) in \<open>auto simp: blocks_of_def u_def\<close>)
    then show ?thesis using r(2) k by blast
  qed
qed

section \<open>The loop\<close>

lemma keeps_par: "keeps av av' \<Longrightarrow> par_ok (par av) \<Longrightarrow> par_ok (par av')"
  by (simp add: keeps_def)

lemma goes_trans: "keeps a b \<Longrightarrow> goes Z E n nb U M B r c \<and> keeps b c \<Longrightarrow> goes Z E n nb U M B r c \<and> keeps a c"
  using keeps_trans by blast

lemma unsorted_loopD:
  fixes av :: "'z proc_scheme"
  assumes "unsorted_loop E k nb av = Some (r, av')" and "state Z [] E (Suc n) av U M B" and "par_ok (par av)" and nb: "req_ok nb"
  shows "goes Z E n nb U M B r av' \<and> keeps av av'"
  using assms(1-3)
proof (induction k arbitrary: av)
  case 0
  then show ?case by (simp add: goes_def)
next
  case (Suc k)
  let ?b = "Bptr (bins_base av) 1"
  from Suc.prems(2) obtain T f H F G X own t where I: "pend Z [] E (Suc n) av T f (fS f) H F G X own t"
    and B: "used H F G X t = U" "ran T - H = M" "\<forall>d \<in> U \<union> M. B d = blocks_of f d" by (rule stateE)
  note P = pendD [OF I] and R = rings_okD [OF pendD(3) [OF I]]
  have ab: "printerr av = None" using printerr_abort [of av] Suc.prems(3) by (simp add: par_ok_def)
  have sb: "shown av T ?b" by (simp add: shown_def)
  obtain v where v: "fB f ?b = Some v" using ring_okD(4) [OF R(1), of ?b] by auto
  have bv: "bk (ci av ?b) = Some v" using view_sel(5) [OF P(1) sb] v by simp
  show ?case
  proof (cases "v = ?b")
    case True
    then show ?thesis using Suc.prems bv by (simp add: Let_def goes_def)
  next
    case False
    have vF: "v \<in> F" using header_neighbour(2) [OF R(1) _ _ v False] by (simp add: NBINS_def)
    note fs = free_sizes [OF I vF]
    have sv: "shown av T v" using pend_shown(2) [OF I fs(3)] .
    obtain q where q: "fB f v = Some q" using ring_okD(4) [OF R(1), of v] vF by auto
    have qv: "bk (ci av v) = Some q" using view_sel(5) [OF P(1) sv] q by simp
    have cs: "chunksize av (Some v) = head_size (fS f v)" using view_chunk(2) [OF P(1) sv] .
    let ?sz = "head_size (fS f v)"
    define body where "body = (if in_smallbin_range nb \<and> q = ?b \<and> last_remainder av = Some v \<and> ?sz > nb + MINSIZE
       then do {
         (victim, av) \<leftarrow> split_last_remainder E nb v ?sz av;
         Some (Some (Some victim), av) }
       else
         if ?sz = nb then do {
           av \<leftarrow> set_inuse_bit E v (w_fd (Some ?b) q (w_bk (Some q) ?b av));
           Some (Some (Some v), av) }
         else do {
           av \<leftarrow> place_in_bin v ?sz (w_fd (Some ?b) q (w_bk (Some q) ?b av));
           unsorted_loop E k nb av })"
    have nc: "\<not> (csize (ci av v) \<le> 2 * SIZE_SZ \<or> csize (ci av v) > system_mem av)"
      using Suc.prems(1) False by (auto simp add: Let_def bv qv ab simp del: One_nat_def)
    have run: "body = Some (r, av')"
      using Suc.prems(1) by (simp only: body_def unsorted_loop.simps unsorted_header(1) Let_def bv qv cs Option.bind.simps
          if_not_P [OF False] if_not_P [OF nc])
    show ?thesis
    proof (cases "in_smallbin_range nb \<and> q = ?b \<and> last_remainder av = Some v \<and> ?sz > nb + MINSIZE")
      case True
      then obtain x where s: "split_last_remainder E nb v ?sz av = Some (x, av')" "r = Some (Some x)"
        using run by (auto simp: body_def bind_eq_Some_conv)
      have "unat (nb + MINSIZE) = unat nb + 32" using nb by (simp add: req_ok_def MINSIZE_eq unat_word_ariths)
      then have sz: "unat nb + 32 \<le> size_of (fS f v)" using True by (auto simp: word_less_nat_alt)
      have q': "fB f v = Some ?b" using q True by simp
      from split_last_remainderD [OF s(1) I v False q' refl sz nb B] show ?thesis using s(2) by (auto simp: goes_def)
    next
      case nsp: False
      from unsorted_stepD [OF run [unfolded body_def if_not_P [OF nsp]] I v False q refl B]
      show ?thesis using Suc.IH goes_trans keeps_par [OF _ Suc.prems(3)] by blast
    qed
  qed
qed

end
