(* ===== verification/Malloc_Search.thy ===== *)
theory Malloc_Search
  imports Malloc_Unsorted
begin

text \<open>
  The search of \<open>_int_malloc\<close> through the bins: the large bin of the request over its skip list, and the larger
  bins over the bin map.
\<close>

section \<open>The bin of a large request\<close>

lemma skip_smallerD:
  fixes av :: "'z proc_scheme"
  assumes run: "skip_smaller nb x av = Some (v, sz)" and vw: "view E n av T f" and s: "skip_ok (fFN f) (fBN f) own F (bins_base av)"
    and F: "F \<subseteq> ran T" and x: "\<forall>y. x = Some y \<longrightarrow> in_large own F (bins_base av) y \<and> own y = i"
  shows "in_large own F (bins_base av) v \<and> own v = i \<and> sz = head_size (fS f v) \<and> nb \<le> sz"
proof -
  have "view E n av T f \<longrightarrow> skip_ok (fFN f) (fBN f) own F (bins_base av) \<longrightarrow>
      (\<forall>y. x = Some y \<longrightarrow> in_large own F (bins_base av) y \<and> own y = i) \<longrightarrow>
      in_large own F (bins_base av) (fst (v, sz)) \<and> own (fst (v, sz)) = i \<and> snd (v, sz) = head_size (fS f (fst (v, sz))) \<and> nb \<le> snd (v, sz)"
  proof (induction rule: skip_smaller.raw_induct [where P = "\<lambda>nb x (av :: 'z proc_scheme) r. view E n av T f \<longrightarrow>
      skip_ok (fFN f) (fBN f) own F (bins_base av) \<longrightarrow> (\<forall>y. x = Some y \<longrightarrow> in_large own F (bins_base av) y \<and> own y = i) \<longrightarrow>
      in_large own F (bins_base av) (fst r) \<and> own (fst r) = i \<and> snd r = head_size (fS f (fst r)) \<and> nb \<le> snd r", OF _ run])
    case (1 rec nb x av r)
    show ?case
    proof (intro impI)
      assume v: "view E n av T f" and s: "skip_ok (fFN f) (fBN f) own F (bins_base av)"
        and x: "\<forall>y. x = Some y \<longrightarrow> in_large own F (bins_base av) y \<and> own y = i"
      from 1(2) obtain w where w: "x = Some w" by (auto simp: bind_eq_Some_conv)
      have L: "in_large own F (bins_base av) w" "own w = i" using x w by auto
      note sh = in_large_shown(1) [OF L(1) F]
      show "in_large own F (bins_base av) (fst r) \<and> own (fst r) = i \<and> snd r = head_size (fS f (fst r)) \<and> nb \<le> snd r"
      proof (cases "chunksize av (Some w) < nb")
        case True
        then have r: "rec nb (bk_nextsize (ci av w)) av = Some r" using 1(2) w by (simp add: Let_def)
        have "\<forall>y. bk_nextsize (ci av w) = Some y \<longrightarrow> in_large own F (bins_base av) y \<and> own y = i"
          using skip_okD(4,5) [OF s L(1)] view_sel(7) [OF v sh] L(2) by auto
        then show ?thesis using 1(1) [OF r] v s by blast
      next
        case False
        then have "r = (w, chunksize av (Some w))" using 1(2) w by (simp add: Let_def)
        then show ?thesis using False L view_chunk(2) [OF v sh] by simp
      qed
    qed
  qed
  then show ?thesis using vw s x by (metis fst_conv snd_conv)
qed

lemma malloc_largeD:
  fixes av :: "'z proc_scheme"
  assumes run: "malloc_large E nb idx av = Some (x, av')" and st: "state Z [] E (Suc n) av U M B" and p: "par_ok (par av)"
    and nb: "req_ok nb" and idx: "idx = bin_index nb"
  shows "goes Z E n nb U M B x av' \<and> keeps av av'"
proof (cases "in_smallbin_range nb")
  case True
  then show ?thesis using run st by (simp add: malloc_large_def goes_def)
next
  case small: False
  from st obtain T f H F G X own t where I: "pend Z [] E (Suc n) av T f (fS f) H F G X own t"
    and B: "used H F G X t = U" "ran T - H = M" "\<forall>d \<in> U \<union> M. B d = blocks_of f d" by (rule stateE)
  note P = pendD [OF I] and R = rings_okD [OF pendD(3) [OF I]] and D = heap_okD [OF pendD(2) [OF I]]
  have F: "F \<subseteq> ran T" using D(4,6) by blast
  define i where "i = unat idx"
  define b where "b = Bptr (bins_base av) i"
  have r: "unat nb \<le> 2 ^ 64 - 64" using nb by (simp add: req_ok_def)
  have i: "64 \<le> i" "i < NBINS"
    using bin_index_nat [OF r] in_smallbin_range_nat [OF r] small large_index_bound [of "unat nb + 16"]
    by (auto simp: i_def idx NBINS_def less_eq_div_iff_mult_less_eq)
  have bin: "bin_at av idx = b" by (simp add: bin_at_def b_def i_def)
  have bh: "b \<in> F \<union> headers (bins_base av)" using i by (auto simp: b_def headers_def)
  have sh: "shown av T y" if "y \<in> F \<union> headers (bins_base av)" for y
    using that F shown_header [of y av T] by (auto simp: shown_def)
  obtain u where u: "fF f b = Some u" using ring_okD(3) [OF R(1) bh] by blast
  have fu: "fd (ci av b) = Some u" using view_sel(4) [OF P(1) sh [OF bh]] u by simp
  show ?thesis
  proof (cases "u \<noteq> b \<and> csize (ci av u) \<ge> nb")
    case False
    then show ?thesis using run st small by (auto simp: malloc_large_def Let_def bin fu goes_def)
  next
    case True
    have uF: "u \<in> F" "own u = i" using header_neighbour(1) [OF R(1) _ i(2) u [unfolded b_def]] True i(1) by (auto simp: b_def)
    have lu: "in_large own F (bins_base av) u" using uF i(1) by (simp add: in_large_def)
    from run small True fu obtain v sz v' where s: "skip_smaller nb (bk_nextsize (ci av u)) av = Some (v, sz)"
      "(if Some v \<noteq> bk (ci av b) then do {
              f \<leftarrow> fd (ci av v);
              Some (if csize (ci av v) = csize (ci av f) then f else v) }
            else Some v) = Some v'"
      "use_binned E nb v' sz av = Some (x, av')"
      by (auto simp: malloc_large_def Let_def bin bind_eq_Some_conv)
    have "\<forall>y. bk_nextsize (ci av u) = Some y \<longrightarrow> in_large own F (bins_base av) y \<and> own y = i"
      using skip_okD(4,5) [OF R(2) lu] view_sel(7) [OF P(1) sh, of u] uF by auto
    from skip_smallerD [OF s(1) P(1) R(2) F this]
    have v: "in_large own F (bins_base av) v" "own v = i" "sz = head_size (fS f v)" "nb \<le> sz" by blast+
    have n0: "nb \<noteq> 0" using nb by (auto simp: req_ok_def)
    have z: "w \<in> F" if "w \<in> F \<union> headers (bins_base av)" "head_size (fS f w) = sz" for w
    proof -
      have "head_size (fS f w) = 0" if "w \<in> headers (bins_base av)" using R(3) [OF that] by (simp add: head_size_def)
      then show ?thesis using that v(4) n0 by auto
    qed
    have vF: "v \<in> F" using z [of v] v(1,3) by (simp add: in_large_def)
    have "v' \<in> F \<and> sz = head_size (fS f v')"
    proof (cases "Some v \<noteq> bk (ci av b)")
      case False
      then show ?thesis using s(2) vF v(3) by simp
    next
      case True
      obtain w where w: "fF f v = Some w" using ring_okD(3) [OF R(1), of v] vF by blast
      have wF: "w \<in> F \<union> headers (bins_base av)" using ring_okD(1) [OF R(1) _ w] vF by blast
      have e: "v' = (if fS f v = fS f w then w else v)"
        using s(2) True view_sel(3,4) [OF P(1) sh, of v] view_sel(3) [OF P(1) sh [OF wF]] vF w by simp
      show ?thesis using z [OF wF] v(3) vF e by (auto split: if_splits)
    qed
    then have v': "v' \<in> F" "sz = head_size (fS f v')" by simp_all
    from use_binnedD [OF s(3) I v'(1) v'(2) v(4) p nb B] show ?thesis by (auto simp: goes_def)
  qed
qed

section \<open>The larger bins\<close>

text \<open>A bit of a block of the bin map and the header of the bin it stands for.\<close>

definition spot :: "addr \<Rightarrow> u32 \<Rightarrow> bptr \<Rightarrow> u32 \<Rightarrow> bool" where
  "spot base block bin bt \<longleftrightarrow> unat block < 4 \<and>
     (bt \<noteq> 0 \<longrightarrow> (\<exists>p < 32. bt = push_bit p 1 \<and> bin = Bptr base (32 * unat block + p) \<and> 1 \<le> 32 * unat block + p))"

lemma spot_next: "spot base block bin bt \<Longrightarrow> bt \<noteq> 0 \<Longrightarrow> spot base block (next_bin bin) (push_bit 1 bt)"
proof -
  assume s: "spot base block bin bt" and nz: "bt \<noteq> 0"
  then obtain p where p: "p < 32" "bt = push_bit p 1" "bin = Bptr base (32 * unat block + p)" by (auto simp: spot_def)
  have e: "push_bit 1 bt = push_bit (Suc p) 1" by (simp add: p(2) push_bit_push_bit)
  have "push_bit (Suc p) (1 :: u32) = 0" if "p = 31" using that by simp
  then show ?thesis using s p unfolding spot_def e by (cases "p = 31") (auto simp: next_bin_def intro!: exI [of _ "Suc p"])
qed

lemma spot_header:
  assumes "spot base block bin bt" and "bt \<noteq> 0"
  obtains j where "bin = Bptr base j" "1 \<le> j" "j < NBINS"
  using assms that by (auto simp: spot_def NBINS_def)

lemma spot_start: "unat i < 128 \<Longrightarrow> 1 \<le> unat i \<Longrightarrow> spot (bins_base av) (idx2block i) (bin_at av i) (idx2bit i)"
  unfolding spot_def idx2block_nat idx2bit_exp bin_at_def
  by (auto intro!: exI [of _ "unat i mod 32"])

lemma next_blockD:
  assumes run: "next_block bm block = Some (Some (b, w))" and b: "unat block < 4"
  shows "unat b < 4 \<and> 1 \<le> unat b"
proof -
  have "unat block < 4 \<longrightarrow> (\<forall>b' w'. Some (b, w) = Some (b', w') \<longrightarrow> unat b' < 4 \<and> 1 \<le> unat b')"
  proof (induction rule: next_block.raw_induct [where P = "\<lambda>bm block r. unat block < 4 \<longrightarrow>
      (\<forall>b' w'. r = Some (b', w') \<longrightarrow> unat b' < 4 \<and> 1 \<le> unat b')", OF _ run])
    case (1 rec bm block r)
    have e: "unat (block + 1) = unat block + 1" if "unat block < 4" using that by (simp add: unat_word_ariths)
    show ?case
      using 1(2) e 1(1) [of bm "block + 1" r]
      by (auto simp: Let_def BINMAPSIZE_def NBINS_def BITSPERMAP_def BINMAPSHIFT_def bind_assert_eq_Some_iff split: if_splits)
  qed
  then show ?thesis using b by simp
qed

lemma next_set_bitD:
  assumes run: "next_set_bit bin bt wd = Some (bin', bt')" and s: "spot base block bin bt" "bt \<noteq> 0"
  shows "spot base block bin' bt' \<and> bt' \<noteq> 0"
proof -
  have "spot base block bin bt \<and> bt \<noteq> 0 \<longrightarrow> spot base block (fst (bin', bt')) (snd (bin', bt')) \<and> snd (bin', bt') \<noteq> 0"
  proof (induction rule: next_set_bit.raw_induct [where P = "\<lambda>bin bt wd r. spot base block bin bt \<and> bt \<noteq> 0 \<longrightarrow>
      spot base block (fst r) (snd r) \<and> snd r \<noteq> 0", OF _ run])
    case (1 rec bin bt wd r)
    show ?case
    proof (intro impI, elim conjE)
      assume sp: "spot base block bin bt" "bt \<noteq> 0"
      show "spot base block (fst r) (snd r) \<and> snd r \<noteq> 0"
      proof (cases "bt AND wd = 0")
        case True
        then have "rec (next_bin bin) (push_bit 1 bt) wd = Some r" "push_bit 1 bt \<noteq> 0"
          using 1(2) by (auto simp: Let_def bind_assert_eq_Some_iff)
        then show ?thesis using 1(1) spot_next [OF sp] by blast
      next
        case False
        then show ?thesis using 1(2) sp by auto
      qed
    qed
  qed
  then show ?thesis using s by simp
qed

text \<open>One round of the search at the header \<open>b\<close>.\<close>

lemma scan_stepD:
  fixes av :: "'z proc_scheme"
  assumes run: "do {
         victim \<leftarrow> bk (ci av b);
         if victim = b then k
         else do {
           let sz = chunksize av (Some victim);
           assert_c (sz \<ge> nb);
           use_binned E nb victim sz av } } = Some (x, av')"
    and st: "state Z [] E (Suc n) av U M B" and p: "par_ok (par av)" and nb: "req_ok nb" and b: "b = Bptr (bins_base av) j" "1 \<le> j" "j < NBINS"
  shows "goes Z E n nb U M B x av' \<and> keeps av av' \<or> k = Some (x, av')"
proof -
  from st obtain T f H F G X own t where I: "pend Z [] E (Suc n) av T f (fS f) H F G X own t"
    and B: "used H F G X t = U" "ran T - H = M" "\<forall>d \<in> U \<union> M. B d = blocks_of f d" by (rule stateE)
  note P = pendD [OF I] and R = rings_okD [OF pendD(3) [OF I]]
  from run obtain v where v: "bk (ci av b) = Some v" by (auto simp: bind_eq_Some_conv)
  have "fB f b = Some v" using v view_sel(5) [OF P(1), of b] b(1) by (simp add: shown_def)
  then have vF: "v \<in> F" if "v \<noteq> b" using header_neighbour(2) [OF R(1) b(2,3)] that b(1) by blast
  show ?thesis
  proof (cases "v = b")
    case True
    then show ?thesis using run v by simp
  next
    case False
    note fs = free_sizes [OF I vF [OF False]]
    have cs: "chunksize av (Some v) = head_size (fS f v)" using view_chunk(2) [OF P(1) pend_shown(2) [OF I fs(3)]] .
    then have "nb \<le> head_size (fS f v)" "use_binned E nb v (head_size (fS f v)) av = Some (x, av')"
      using run v False by (simp_all add: Let_def bind_assert_eq_Some_iff)
    from use_binnedD [OF this(2) I vF [OF False] refl this(1) p nb B] show ?thesis by (auto simp: goes_def)
  qed
qed

lemma scan_binsD:
  fixes av :: "'z proc_scheme"
  assumes run: "scan_bins E nb bin block wd bt av = Some (x, av')" and st: "state Z [] E (Suc n) av U M B" and p: "par_ok (par av)"
    and nb: "req_ok nb" and s: "spot (bins_base av) block bin bt"
  shows "goes Z E n nb U M B x av' \<and> keeps av av'"
proof -
  have "state Z [] E (Suc n) av U M B \<and> par_ok (par av) \<and> req_ok nb \<and> spot (bins_base av) block bin bt \<longrightarrow>
      goes Z E n nb U M B (fst (x, av')) (snd (x, av')) \<and> keeps av (snd (x, av'))"
  proof (induction rule: scan_bins.raw_induct [where P = "\<lambda>E nb bin block wd bt (av :: 'z proc_scheme) r.
      state Z [] E (Suc n) av U M B \<and> par_ok (par av) \<and> req_ok nb \<and> spot (bins_base av) block bin bt \<longrightarrow>
      goes Z E n nb U M B (fst r) (snd r) \<and> keeps av (snd r)", OF _ run])
    case (1 rec E nb bin block wd bt av r)
    show ?case
    proof (intro impI)
      assume a: "state Z [] E (Suc n) av U M B \<and> par_ok (par av) \<and> req_ok nb \<and> spot (bins_base av) block bin bt"
      define k where "k = (\<lambda>next. case next of
       None \<Rightarrow> Some (None, av)
     | Some (bin, block, wd, bt) \<Rightarrow> do {
         (bin, bt) \<leftarrow> next_set_bit bin bt wd;
         victim \<leftarrow> bk (ci av bin);
         if victim = bin then do {
           let wd = wd AND NOT bt;
           assert_c (unat block < length (bin_map av));
           let av = av\<lparr>bin_map := (bin_map av)[unat block := wd]\<rparr>;
           rec E nb (next_bin bin) block wd (push_bit 1 bt) av }
         else do {
           let sz = chunksize av (Some victim);
           assert_c (sz \<ge> nb);
           use_binned E nb victim sz av } })"
      from 1(2) obtain y where y: "(if bt > wd \<or> bt = 0 then do {
                nx \<leftarrow> next_block (bin_map av) block;
                Some (case nx of None \<Rightarrow> None
                      | Some (block, wd) \<Rightarrow> Some (bin_at av (push_bit BINMAPSHIFT block), block, wd, 1)) }
              else Some (Some (bin, block, wd, bt))) = Some y" and ky: "k y = Some r"
        unfolding k_def [symmetric] by (elim bindE)
      show "goes Z E n nb U M B (fst r) (snd r) \<and> keeps av (snd r)"
      proof (cases y)
        case None
        then show ?thesis using ky a by (auto simp: k_def goes_def)
      next
        case (Some q)
        then obtain bin1 block1 wd1 bt1 where q: "y = Some (bin1, block1, wd1, bt1)" by (cases q) auto
        have sp: "spot (bins_base av) block1 bin1 bt1 \<and> bt1 \<noteq> 0"
        proof (cases "bt > wd \<or> bt = 0")
          case True
          then have nb1: "next_block (bin_map av) block = Some (Some (block1, wd1))"
            and e: "bin1 = bin_at av (push_bit BINMAPSHIFT block1)" "bt1 = 1"
            using y q by (auto simp: bind_eq_Some_conv split: option.splits)
          have b: "unat block1 < 4" "1 \<le> unat block1" using next_blockD [OF nb1] a by (auto simp: spot_def)
          then have "unat (push_bit BINMAPSHIFT block1) = 32 * unat block1"
            by (simp add: BINMAPSHIFT_def push_bit_eq_mult unat_word_ariths)
          then show ?thesis using b e by (auto simp: spot_def bin_at_def intro!: exI [of _ 0])
        next
          case False
          then show ?thesis using y q a by simp
        qed
        from ky [unfolded q] obtain bin2 bt2 where n: "next_set_bit bin1 bt1 wd1 = Some (bin2, bt2)"
          and rest: "do {
         victim \<leftarrow> bk (ci av bin2);
         if victim = bin2 then do {
           let wd = wd1 AND NOT bt2;
           assert_c (unat block1 < length (bin_map av));
           let av = av\<lparr>bin_map := (bin_map av)[unat block1 := wd]\<rparr>;
           rec E nb (next_bin bin2) block1 wd (push_bit 1 bt2) av }
         else do {
           let sz = chunksize av (Some victim);
           assert_c (sz \<ge> nb);
           use_binned E nb victim sz av } } = Some r"
          unfolding k_def option.case prod.case by (elim bind_pair_SomeE) (rule that)
        note s2 = next_set_bitD [OF n conjunct1 [OF sp] conjunct2 [OF sp]]
        obtain j where j: "bin2 = Bptr (bins_base av) j" "1 \<le> j" "j < NBINS" using s2 by (elim conjE) (rule spot_header)
        have rest': "do {
         victim \<leftarrow> bk (ci av bin2);
         if victim = bin2 then do {
           assert_c (unat block1 < length (bin_map av));
           rec E nb (next_bin bin2) block1 (wd1 AND NOT bt2) (push_bit 1 bt2) (av\<lparr>bin_map := (bin_map av)[unat block1 := wd1 AND NOT bt2]\<rparr>) }
         else do {
           let sz = chunksize av (Some victim);
           assert_c (sz \<ge> nb);
           use_binned E nb victim sz av } } = Some (fst r, snd r)"
          using rest by (simp only: Let_def prod.collapse)
        from a have st: "state Z [] E (Suc n) av U M B" and pa: "par_ok (par av)" and nb: "req_ok nb" by simp_all
        from scan_stepD [OF rest' st pa nb j] consider (stop) "goes Z E n nb U M B (fst r) (snd r) \<and> keeps av (snd r)"
          | (again) "rec E nb (next_bin bin2) block1 (wd1 AND NOT bt2) (push_bit 1 bt2) (av\<lparr>bin_map := (bin_map av)[unat block1 := wd1 AND NOT bt2]\<rparr>) = Some r"
          by (auto simp: bind_assert_eq_Some_iff)
        then show ?thesis
        proof cases
          case stop
          then show ?thesis .
        next
          case again
          have "state Z [] E (Suc n) (av\<lparr>bin_map := (bin_map av)[unat block1 := wd1 AND NOT bt2]\<rparr>) U M B"
            by (rule state_same [OF st]) simp_all
          then have "goes Z E n nb U M B (fst r) (snd r) \<and> keeps (av\<lparr>bin_map := (bin_map av)[unat block1 := wd1 AND NOT bt2]\<rparr>) (snd r)"
            using 1(1) [OF again] pa nb spot_next [OF conjunct1 [OF s2] conjunct2 [OF s2]] by simp
          then show ?thesis by (simp add: keeps_def)
        qed
      qed
    qed
  qed
  then show ?thesis using st p nb s by simp
qed

end
