(* ===== verification/Malloc_Top.thy ===== *)
theory Malloc_Top
  imports Malloc_Search
begin

text \<open>
  The last places where \<open>_int_malloc\<close> finds memory in the arena: the larger bins and top.
\<close>

lemma malloc_larger_binsD:
  fixes av :: "'z proc_scheme"
  assumes run: "malloc_larger_bins E nb idx av = Some (x, av')" and st: "state Z [] E (Suc n) av U M B" and p: "par_ok (par av)"
    and nb: "req_ok nb" and idx: "idx = bin_index nb"
  shows "goes Z E n nb U M B x av' \<and> keeps av av'"
proof -
  have r: "unat nb \<le> 2 ^ 64 - 64" "32 \<le> unat nb" using nb by (auto simp: req_ok_def)
  have i: "unat idx \<le> 126"
    using bin_index_nat [OF r(1)] large_index_bound [of "unat nb + 16"]
    by (auto simp: idx less_eq_div_iff_mult_less_eq)
  then have "unat (idx + 1) = unat idx + 1" by (simp add: unat_word_ariths)
  then have "spot (bins_base av) (idx2block (idx + 1)) (bin_at av (idx + 1)) (idx2bit (idx + 1))"
    by (intro spot_start) (use i in simp_all)
  moreover have "scan_bins E nb (bin_at av (idx + 1)) (idx2block (idx + 1)) (bin_map av ! unat (idx2block (idx + 1))) (idx2bit (idx + 1)) av = Some (x, av')"
    using run by (auto simp: malloc_larger_bins_def Let_def bind_assert_eq_Some_iff)
  ultimately show ?thesis using scan_binsD [OF _ st p nb] by blast
qed

section \<open>Top\<close>

definition cut_top :: "bptr \<Rightarrow> u64 \<Rightarrow> u64 \<Rightarrow> u64 \<Rightarrow> bptr \<Rightarrow> fields \<Rightarrow> fields" where
  "cut_top t nb rsz a r f = (fresh_fields a r f)\<lparr>fS := (fS f)(t := nb OR PREV_INUSE, r := rsz OR PREV_INUSE),
     fN := (fN f)(t := Some r, r := None), fV := (fV f)(r := Some t)\<rparr>"

lemma cut_top_sel [simp]:
  "fA (cut_top t nb rsz a r f) = (fA f)(r := a)" "fS (cut_top t nb rsz a r f) = (fS f)(t := nb OR PREV_INUSE, r := rsz OR PREV_INUSE)"
  "fP (cut_top t nb rsz a r f) = (fP f)(r := 0)" "fN (cut_top t nb rsz a r f) = (fN f)(t := Some r, r := None)"
  "fV (cut_top t nb rsz a r f) = (fV f)(r := Some t)" "fF (cut_top t nb rsz a r f) = (fF f)(r := None)"
  "fB (cut_top t nb rsz a r f) = (fB f)(r := None)" "fFN (cut_top t nb rsz a r f) = (fFN f)(r := None)"
  "fBN (cut_top t nb rsz a r f) = (fBN f)(r := None)"
  by (simp_all add: cut_top_def)

lemma cut_top_ok:
  assumes ok: "heap_ok Z (fA f) (fS f) (fP f) (fN f) (fV f) T H F G t" and r: "r \<notin> ran T" and p: "parts (fS f t) nb rsz"
  defines "a \<equiv> fA f t + nb" and "g \<equiv> cut_top t nb rsz (fA f t + nb) r f"
  shows "heap_ok Z (fA g) (fS g) (fP g) (fN g) (fV g) (T(a \<mapsto> r)) (insert r H) F G r"
proof -
  let ?f = "fresh_fields a r f"
  have "heap_ok Z (fA ?f) (fS ?f) (fP ?f) (fN ?f) (fV ?f) T H F G t"
    by (rule heap_cong [OF ok]) (use r in auto)
  note D = heap_okD [OF this] and f = this
  have rt: "r \<noteq> t" using r D(1,6) by auto
  note ph = parts_heads [OF p] and a = cut_address(1) [OF ok D(1) p]
  have "heap_ok Z ((fA ?f)(r := a)) ((fS ?f)(t := nb OR PREV_INUSE, r := rsz OR PREV_INUSE)) (fP ?f) ((fN ?f)(t := Some r, r := fN ?f t))
      (relink_prev (fN ?f t) r ((fV ?f)(r := Some t))) (T(a \<mapsto> r)) (insert r H) F G (if t = t then r else t)"
    using f
  proof (rule split_ok)
    show "t \<in> H" "t \<notin> F" "t \<notin> G" "r \<notin> ran T" "pinuse (fS ?f t)" by (fact D(1-3) r top_pinuse [OF f])+
    show "size_of (nb OR PREV_INUSE) + size_of (rsz OR PREV_INUSE) = size_of (fS ?f t)"
      using p ph(1,2) rt by (simp add: parts_def)
    show "unat a = start (fA ?f) t + size_of (nb OR PREV_INUSE)" using a ph(1) rt by (simp add: start_def a_def)
    show "16 dvd size_of (nb OR PREV_INUSE)" "32 \<le> size_of (nb OR PREV_INUSE)" "32 \<le> size_of (rsz OR PREV_INUSE)"
      unfolding ph(1,2) using p by (simp_all add: parts_def)
    show "\<not> mmapped_bit (nb OR PREV_INUSE)" "\<not> mmapped_bit (rsz OR PREV_INUSE)" by (fact ph(3,4))+
  qed simp_all
  then show ?thesis using D(7) rt by (simp add: g_def a_def relink_prev_def fun_upd_twist)
qed

text \<open>The request is cut from top.\<close>

lemma split_topD:
  fixes av :: "'z proc_scheme"
  assumes run: "split_chunk E t p sz nb av = Some (r, av')" and I: "pend Z [] E (Suc n) av T f (fS f) H F G X own t"
    and nb: "req_ok nb" and pa: "p = fA f t"
    and B: "used H F G X t = U" "ran T - H = M" "\<forall>d \<in> U \<union> M. B d = blocks_of f d"
  shows "served Z E n nb U M B (Some t) (av'\<lparr>md_top := Some r\<rparr>) \<and> frame av av'"
proof -
  note P = pendD [OF I] and D = heap_okD [OF pendD(2) [OF I]]
  have sh: "shown av T t" "t \<in> ran T" using pend_shown(1,2) [OF I D(1)] by simp_all
  let ?rsz = "head_size (fS f t) - nb"
  let ?a = "fA f t + nb"
  let ?T = "T(?a \<mapsto> r)" and ?g = "cut_top t nb ?rsz ?a r f"
  from run obtain av1 where s: "sz = head_size (fS f t)" "nb + MINSIZE \<le> sz" "register_chunk E ?a av = Some (r, av1)"
    and e: "av' = set_head t (nb OR PREV_INUSE) (set_head r (?rsz OR PREV_INUSE) (w_md_next (Some r) t (w_md_prev (Some t) r
      (w_md_next (md_next (ci av1 t)) r av1))))"
    unfolding split_chunk_def Let_def view_chunk(2) [OF P(1) sh(1)] chunk_at_offset_def pa
    by (auto simp: bind_eq_Some_conv bind_assert_eq_Some_iff)
  have "unat (nb + MINSIZE) = unat nb + 32" using nb by (simp add: req_ok_def MINSIZE_eq unat_word_ariths)
  then have "unat nb + 32 \<le> size_of (fS f t)" using s(1,2) by (simp add: word_le_nat_alt)
  then have pt: "parts (fS f t) nb ?rsz" using used_sizes(1,2) [OF I D(1)] by (intro parts_of [OF nb])
  have Ta: "T ?a = None" by (rule cut_address(2) [OF P(2) D(1) pt])
  note g = register_view [OF s(3) P(1) Ta]
  have rt: "r \<noteq> t" using g(1) sh(2) by auto
  have "shown av1 ?T t" using sh(2) Ta by (auto simp: shown_def ran_map_upd)
  then have "md_next (ci av1 t) = None" using view_sel(8) [OF g(3), of t] rt D(7) by simp
  then have "view E n av' ?T ?g"
    using view_writes(9) [OF view_writes(9) [OF view_writes(7) [OF view_writes(8) [OF view_writes(7) [OF g(3), of None r], of "Some t" r],
      of "Some r" t], of r "?rsz OR PREV_INUSE"], of t "nb OR PREV_INUSE"] rt
    by (simp add: e cut_top_def fresh_fields_def fun_upd_twist)
  then have v: "view E n (av'\<lparr>md_top := Some r\<rparr>) ?T ?g" by (rule view_same) simp_all
  show fr: "served Z E n nb U M B (Some t) (av'\<lparr>md_top := Some r\<rparr>) \<and> frame av av'"
  proof
    show fr: "frame av av'" using g(4) by (simp add: e set_head_def)
    note f2 = frame_sel(2,3,6) [OF fr]
    have rH: "r \<notin> H" "r \<notin> F" "r \<notin> G" using g(1) D(4,6,12) by auto
    have XX: "x \<noteq> r" "x \<noteq> t" if "x \<in> X" for x using P(6) rH that by auto
    have rF: "x \<noteq> r" "x \<noteq> t" if "x \<in> F \<union> headers (bins_base av)" for x
      using that rH g(2) D(2) pend_shown(3) [OF I D(1)] by (auto simp: headers_def)
    have "rings_ok ?g own F (bins_base av)" by (rule bins_cong [OF P(3)]) (use rF in auto)
    moreover have "fast_ok (fF ?g) X (fastbinsY av)" using P(4) fast_cong [of X "fF ?g" "fF f"] XX by simp
    moreover have "X \<subseteq> insert r H - F - G - {r}" using P(6) XX by blast
    moreover have "\<forall>c \<in> X. size_of (fS ?g c) \<le> 160" using P(8) XX by auto
    ultimately have "pend Z [] E n (av'\<lparr>md_top := Some r\<rparr>) ?T ?g (fS ?g) (insert r H) F G X own r"
      using v cut_top_ok [OF P(2) g(1) pt] P(5) f2 by (simp add: pend_def)
    then show "served Z E n nb U M B (Some t) (av'\<lparr>md_top := Some r\<rparr>)"
    proof (rule servedI)
      show "used (insert r H) F G X r = insert t U" using B(1) rH D(1-3) XX P(6) by (auto simp: used_def)
      show "t \<notin> U" using B(1) by (auto simp: used_def)
      show "ran ?T - insert r H = M" using B(2) g(1) Ta by (auto simp: ran_map_upd)
      show "B d = blocks_of ?g d" if "d \<in> U \<union> M" for d
      proof -
        have "d \<noteq> t" "d \<noteq> r" using that B(1,2) D(1) rH g(1) by (auto simp: used_def)
        then show ?thesis using B(3) that by (simp add: blocks_of_def)
      qed
      show "unat nb \<le> size_of (fS ?g t)" using parts_heads(1) [OF pt] rt by simp
    qed
  qed
qed

lemma use_topD:
  fixes av :: "'z proc_scheme"
  assumes run: "use_top E nb av = Some (x, av')" and st: "state Z [] E (Suc n) av U M B" and nb: "req_ok nb"
  shows "goes Z E n nb U M B x av' \<and> keeps av av'"
proof -
  from st obtain T f H F G X own t where I: "pend Z [] E (Suc n) av T f (fS f) H F G X own t"
    and B: "used H F G X t = U" "ran T - H = M" "\<forall>d \<in> U \<union> M. B d = blocks_of f d" by (rule stateE)
  note P = pendD [OF I] and D = heap_okD [OF pendD(2) [OF I]]
  show ?thesis
  proof (cases "chunksize av (Some t) \<ge> nb + MINSIZE")
    case False
    then show ?thesis using run st by (simp add: use_top_def P(7) goes_def)
  next
    case True
    then obtain r av1 where s: "split_chunk E t (chunkinfo2chunk av t) (chunksize av (Some t)) nb av = Some (r, av1)"
      "x = Some (Some t)" "av' = av1\<lparr>md_top := Some r\<rparr>"
      using run by (auto simp: use_top_def P(7) Let_def bind_eq_Some_conv)
    note q = split_topD [OF s(1) I nb view_chunk(1) [OF P(1) pend_shown(2) [OF I D(1)]] B]
    then show ?thesis using s(2,3) frame_keeps [of av av1] by (simp add: goes_def keeps_def)
  qed
qed

end
