(* ===== verification/Malloc_System.thy ===== *)
theory Malloc_System
  imports Malloc_Top
begin

text \<open>
  Memory from the system: a chunk of its own from \<open>mmap\<close>, and more memory for top. What the kernel gives is not
  in the hands of the program yet, so that it lies apart from all chunks.
\<close>

lemma ci_upd_proc [simp]:
  fixes av :: "'z proc_scheme"
  shows "par (ci_upd g p av) = par av" "lkup (ci_upd g p av) = lkup av" "calls (ci_upd g p av) = calls av"
  by (simp_all add: ci_upd_def)

lemma set_head_sel [simp]:
  fixes av :: "'z proc_scheme"
  shows "par (set_head p v av) = par av" "lkup (set_head p v av) = lkup av" "calls (set_head p v av) = calls av"
    "fastbinsY (set_head p v av) = fastbinsY av" "md_top (set_head p v av) = md_top av" "bins_base (set_head p v av) = bins_base av"
    "is_main (set_head p v av) = is_main av" "initial_top (set_head p v av) = initial_top av" "flags (set_head p v av) = flags av"
    "system_mem (set_head p v av) = system_mem av"
  by (simp_all add: set_head_def)

section \<open>A chunk in new memory\<close>

lemma kernel_mmap:
  assumes "kernel_ok K brk got"
  shows "K (cs @ [Mmap s]) = None \<Longrightarrow> got (cs @ [Mmap s]) = got cs" "K (cs @ [Mmap s]) = Some a \<Longrightarrow> grants got cs (Mmap s) a s"
    "brk (cs @ [Mmap s]) = brk cs"
proof -
  have d: "brk (cs @ [Mmap s]) = brk cs \<and> (K (cs @ [Mmap s]) = None \<and> got (cs @ [Mmap s]) = got cs \<or>
        (\<exists>a. K (cs @ [Mmap s]) = Some a \<and> grants got cs (Mmap s) a s))"
    using assms unfolding kernel_ok_def by blast
  then show "K (cs @ [Mmap s]) = None \<Longrightarrow> got (cs @ [Mmap s]) = got cs" "K (cs @ [Mmap s]) = Some a \<Longrightarrow> grants got cs (Mmap s) a s"
    "brk (cs @ [Mmap s]) = brk cs" by auto
qed

text \<open>Chunks are apart from an interval that is not in \<open>Z\<close>.\<close>

lemma apart_new:
  assumes "region A S c \<subseteq> Z" and "Z \<inter> {a ..< a + s} = {}" and "start A' d = a" "size_of (S' d) \<le> s" "1 \<le> s"
    and "start A' c = start A c" "size_of (S' c) = size_of (S c)"
  shows "apart A' S' c d" "apart A' S' d c"
proof -
  have "{start A c ..< start A c + max 1 (size_of (S c))} \<subseteq> region A S c" by (auto simp: region_def)
  then have "{start A c ..< start A c + max 1 (size_of (S c))} \<inter> {a ..< a + s} = {}" using assms(1,2) by blast
  then have "start A c + max 1 (size_of (S c)) \<le> a \<or> a + s \<le> start A c"
    using assms(5) by (auto simp: ivl_disj_un disjoint_iff not_le)
  then show "apart A' S' c d" "apart A' S' d c" using assms(3-7) by (auto simp: apart_def)
qed

lemma fresh_address:
  assumes "heap_ok Z A S P N V T H F G t" and "Z \<inter> {unat a ..< unat a + s} = {}" and "1 \<le> s"
  shows "T a = None"
proof (rule ccontr)
  assume "T a \<noteq> None"
  then obtain d where d: "T a = Some d" by auto
  have D: "A d = a" "region A S d \<subseteq> Z" using heap_okD(8) [OF assms(1)] ranI [of T a d] d by (auto simp: table_fits_def)
  then have "unat a \<in> Z" by (auto simp: region_def start_def)
  then show False using assms(2,3) by auto
qed

lemma add_mapped_ok:
  assumes ok: "heap_ok Z A S P N V T H F G t" and r: "r \<notin> ran T"
    and z: "Z \<inter> {unat a ..< unat a + s} = {}" "1 \<le> s" "Z \<union> {unat a ..< unat a + s} \<subseteq> Z'"
    and n: "A' r = a" "size_of (S' r) \<le> s" "N' r = None" "P' r = 0" "32 \<le> size_of (S' r)"
    and eq: "\<And>x. x \<in> ran T \<Longrightarrow> A' x = A x \<and> S' x = S x \<and> P' x = P x \<and> N' x = N x \<and> V' x = V x"
  shows "heap_ok Z' A' S' P' N' V' (T(a \<mapsto> r)) H F G t"
proof -
  note D0 = heap_okD(8) [OF ok]
  have rg: "region A S c \<subseteq> Z" if "c \<in> ran T" for c using D0 that by (auto simp: table_fits_def)
  have Ta: "T a = None" by (rule fresh_address [OF ok z(1,2)])
  have ok': "heap_ok Z A' S' P' N' V' T H F G t" by (rule heap_cong [OF ok]) (rule eq)
  note D = heap_okD [OF ok']
  have st: "start A' c = start A c" "size_of (S' c) = size_of (S c)" if "c \<in> ran T" for c using eq [OF that] by (simp_all add: start_def)
  have sr: "start A' r = unat a" using n(1) by (simp add: start_def)
  have rT: "ran (T(a \<mapsto> r)) = insert r (ran T)" using Ta by simp
  have ap: "apart A' S' c r" "apart A' S' r c" if "c \<in> ran T" for c
    using apart_new [OF rg [OF that] z(1), of A' r S'] sr n(2) z(2) st [OF that] by auto
  have "table_fits Z' A' S' (T(a \<mapsto> r))"
    unfolding table_fits_def
  proof (intro conjI allI ballI impI)
    show "A' c = k" if "(T(a \<mapsto> r)) k = Some c" for k c
      using that n(1) D(8) by (auto simp: table_fits_def split: if_splits)
    fix c assume c: "c \<in> ran (T(a \<mapsto> r))"
    show "mapped_fits (S' c)" using D(8) c rT n(5) by (auto simp: table_fits_def)
    show "region A' S' c \<subseteq> Z'"
    proof (cases "c = r")
      case True
      then show ?thesis using z(2,3) n(2) sr by (auto simp: region_def)
    next
      case False
      then show ?thesis using D(8) c rT z(3) unfolding table_fits_def by blast
    qed
    fix d assume d: "d \<in> ran (T(a \<mapsto> r))" "c \<noteq> d"
    show "apart A' S' c d"
    proof (cases "c = r \<or> d = r")
      case True
      then show ?thesis using ap c d rT by auto
    next
      case False
      then show ?thesis using D(8) c d rT unfolding table_fits_def by blast
    qed
  qed
  then show "heap_ok Z' A' S' P' N' V' (T(a \<mapsto> r)) H F G t"
    using D(1-12) D(13-15) n(3,4) unfolding rT heap_ok_def by auto
qed

lemma add_top_ok:
  assumes ok: "heap_ok Z A S P N V T H F G t" and r: "r \<notin> ran T"
    and z: "Z \<inter> {unat a ..< unat a + s} = {}" "1 \<le> s" "Z \<union> {unat a ..< unat a + s} \<subseteq> Z'"
    and n: "A' r = a" "size_of (S' r) \<le> s" "64 \<le> unat a" "16 dvd unat a" "32 \<le> size_of (S' r)" "16 dvd size_of (S' r)" "pinuse (S' r)" "\<not> mmapped_bit (S' r)"
      "unat a + s < 2 ^ 64" "N' r = None" "V' r = None" "P' r = 0"
    and eq: "\<And>x. x \<in> ran T \<Longrightarrow> A' x = A x \<and> S' x = S x \<and> P' x = P x \<and> N' x = N x \<and> V' x = V x"
  shows "heap_ok Z' A' S' P' N' V' (T(a \<mapsto> r)) (insert r H) F (insert t G) r"
proof -
  have m: "heap_ok Z' A' S' P' N' V' (T(a \<mapsto> r)) H F G t"
  proof (rule add_mapped_ok [OF ok r z])
    show "A' r = a" "size_of (S' r) \<le> s" "N' r = None" "P' r = 0" "32 \<le> size_of (S' r)" by (fact n(1,2,10,12,5))+
  qed (rule eq)
  note D = heap_okD [OF m]
  have rH: "r \<notin> H" using r heap_okD(6) [OF ok] by blast
  have sr: "start A' r = unat a" using n(1) by (simp add: start_def)
  have rt: "r \<noteq> t" using rH D(1) by auto
  have "sizes_fit A' S' (insert r H) (insert t G)"
    unfolding sizes_fit_def
  proof (rule ballI)
    fix c assume "c \<in> insert r H"
    then show "64 \<le> start A' c \<and> 16 dvd start A' c \<and> 16 dvd size_of (S' c) \<and> 16 \<le> size_of (S' c) \<and>
        start A' c + size_of (S' c) < 2 ^ 64 \<and> \<not> mmapped_bit (S' c) \<and> (c \<notin> insert t G \<longrightarrow> 32 \<le> size_of (S' c))"
      using n(2-9) sr D(9) [unfolded sizes_fit_def, rule_format, of c] by (cases "c = r") simp_all
  qed
  moreover have "links_fit A' S' N' V' (insert r H) (insert t G)"
    unfolding links_fit_def
  proof (intro conjI ballI allI impI)
    note L = links_fitD [OF D(10)]
    fix c q assume c: "c \<in> insert r H"
    show "q \<in> insert r H" "V' q = Some c" "c \<notin> insert t G \<Longrightarrow> start A' q = start A' c + size_of (S' c)" if "N' c = Some q"
    proof -
      have "c \<in> H" using c that n(10) by auto
      then show "q \<in> insert r H" "V' q = Some c" "c \<notin> insert t G \<Longrightarrow> start A' q = start A' c + size_of (S' c)" using L(1-3) that by blast+
    qed
    show "q \<in> insert r H" "N' q = Some c" if "V' c = Some q"
    proof -
      have "c \<in> H" using c that n(11) by auto
      then show "q \<in> insert r H" "N' q = Some c" using L(4) that by blast+
    qed
  qed
  moreover have "frees_fit S' P' N' (insert r H) F r"
    unfolding frees_fit_def
  proof (intro conjI ballI impI)
    note R = frees_fitD [OF D(11)]
    fix c assume c: "c \<in> F"
    then obtain q where q: "N' c = Some q" using R(3) by blast
    have "q \<in> H" using links_fitD(1) [OF D(10) _ q] c D(4) by blast
    then show "\<exists>n. N' c = Some n \<and> n \<notin> F \<and> n \<noteq> r \<and> \<not> pinuse (S' n) \<and> unat (P' n) = size_of (S' c)"
      using R(2) [OF c q] q rH by auto
  next
    fix q assume "q \<in> insert r H" "\<not> pinuse (S' q)"
    then show "\<exists>c \<in> F. N' c = Some q" using frees_fitD(1) [OF D(11), of q] n(7) by auto
  qed
  moreover have "r \<in> ran (T(a \<mapsto> r))" by (auto simp: ran_def)
  moreover have "\<forall>x \<in> ran (T(a \<mapsto> r)) - insert r H. N' x = None \<and> P' x = 0" using D(13,14) by auto
  moreover have "ended N' (insert r H) (insert t G) r" using D(15) unfolding ended_def by blast
  moreover have "F \<inter> insert t G = {}" "insert t G \<subseteq> insert r H" "r \<notin> insert t G" "r \<notin> F" "F \<subseteq> insert r H"
    using D(1,2,4,5,12) rH rt by auto
  moreover have "insert r H \<subseteq> ran (T(a \<mapsto> r))" using calculation D(6) by simp
  ultimately show ?thesis using D(8) n(10) unfolding heap_ok_def by simp
qed

section \<open>A mapped chunk\<close>

lemma bit_IS_MMAPPED: "bit IS_MMAPPED n \<longleftrightarrow> n = 1"
proof -
  have two: "IS_MMAPPED = push_bit 1 1" by (simp add: IS_MMAPPED_def)
  show ?thesis unfolding two by (auto simp: bit_simps)
qed

lemma size_of_or_2 [simp]: "size_of (s OR IS_MMAPPED) = size_of s"
proof -
  have "(s OR IS_MMAPPED) AND NOT SIZE_BITS = s AND NOT SIZE_BITS"
    unfolding SIZE_BITS_mask
    by (rule bit_eqI) (auto simp: bit_and_iff bit_or_iff bit_not_iff bit_mask_iff bit_IS_MMAPPED)
  then show ?thesis by (simp add: size_of_def)
qed

lemma ALIGN_UP_page:
  assumes "4 \<le> k" and "k < 64"
  shows "16 dvd unat (ALIGN_UP x (2 ^ k))"
  unfolding ALIGN_UP_def by (rule ALIGN_DOWN_page(2) [OF assms])

text \<open>What \<open>sysmalloc\<close> leaves alone, and what it achieves: a mapped chunk is in \<open>M\<close>.\<close>

definition steady :: "'z proc_scheme \<Rightarrow> 'z proc_scheme \<Rightarrow> bool" where
  "steady av av' \<longleftrightarrow> is_main av' = is_main av \<and> bins_base av' = bins_base av \<and> initial_top av' = initial_top av \<and>
     (par_ok (par av) \<longrightarrow> par_ok (par av')) \<and> (sbrks_ok (calls av) \<longrightarrow> sbrks_ok (calls av'))"

lemma steady_trans: "steady a b \<Longrightarrow> steady b c \<Longrightarrow> steady a c"
  by (simp add: steady_def)

lemma firm_steady: "firm a b \<Longrightarrow> steady a b"
  by (simp add: firm_def steady_def)

definition supplied where
  "supplied got E n nb U M B r av \<longleftrightarrow>
     (case r of None \<Rightarrow> state (got (calls av)) [] E n av U M B
      | Some c \<Rightarrow> \<exists>b. c \<notin> U \<union> M \<and> unat nb \<le> snd b \<and>
          (state (got (calls av)) [] E n av (insert c U) M (B(c := b)) \<or> state (got (calls av)) [] E n av U (insert c M) (B(c := b))))"

lemma supplied_mapped:
  assumes "c \<notin> U \<union> M" and "unat nb \<le> snd b" and "state (got (calls av)) [] E n av U (insert c M) (B(c := b))"
  shows "supplied got E n nb U M B (Some c) av"
  using assms by (auto simp: supplied_def simp del: split_paired_Ex)

lemma served_supplied: "served (got (calls av)) E n nb U M B r av \<Longrightarrow> supplied got E n nb U M B r av"
  by (auto simp: served_def supplied_def simp del: split_paired_Ex split: option.splits)

lemma par_ok_count [simp]: "par_ok (count_mmap sz P) = par_ok P"
  by (simp add: par_ok_def count_mmap_def Let_def)

text \<open>The invariant after a change outside the bins.\<close>

lemma pend_rebuild:
  assumes I: "pend Z L E n av T f S H F G X own t" and v: "view E m av' T' g"
    and hk: "heap_ok Z' (fA g) (fS g) (fP g) (fN g) (fV g) T' H' F G' t'"
    and eq: "\<And>x. x \<in> F \<union> headers (bins_base av) \<union> X \<Longrightarrow>
      fF g x = fF f x \<and> fB g x = fB f x \<and> fFN g x = fFN f x \<and> fBN g x = fBN f x \<and> fS g x = fS f x"
    and fr: "fastbinsY av' = fastbinsY av" "md_top av' = Some t'" "bins_base av' = bins_base av" and X: "X \<subseteq> H' - F - G' - {t'}"
  shows "pend Z' L E m av' T' g (fS g) H' F G' X own t'"
proof -
  note P = pendD [OF I]
  have "rings_ok g own F (bins_base av)" by (rule bins_cong [OF P(3)]) (use eq in auto)
  moreover have "fast_ok (fF g) X (L @ fastbinsY av')" using P(4) fast_cong [of X "fF g" "fF f"] eq fr(1) by simp
  moreover have "\<forall>c \<in> X. size_of (fS g c) \<le> 160" using P(8) eq by auto
  ultimately show ?thesis using v hk P(5) fr X by (simp add: pend_def)
qed

lemma map_chunkD:
  fixes av :: "'z proc_scheme"
  assumes run: "map_chunk S nb av = Some (x, av')" and st: "state (got (calls av)) [] (cienv S) (Suc n) av U M B"
    and p: "par_ok (par av)" and nb: "req_ok nb" and k: "kernel_ok (kernel S) brk got"
  shows "(case x of None \<Rightarrow> state (got (calls av')) [] (cienv S) (Suc n) av' U M B | Some r \<Rightarrow> supplied got (cienv S) n nb U M B r av') \<and> steady av av'"
proof -
  let ?E = "cienv S"
  define sz where "sz = ALIGN_UP (nb + SIZE_SZ) (dl_pagesize (par av))"
  define cs where "cs = calls av @ [Mmap sz]"
  have al: "MALLOC_ALIGNMENT = 2 * SIZE_SZ" by (simp add: malloc_consts)
  have st': "state (got cs) [] ?E (Suc n) (av\<lparr>calls := cs\<rparr>) U M B" if "got cs = got (calls av)"
    using state_same [OF st, of "av\<lparr>calls := cs\<rparr>"] that by simp
  show ?thesis
  proof (cases "sz > nb")
    case False
    then show ?thesis using run st by (simp add: map_chunk_def Let_def al sz_def steady_def)
  next
    case big: True
    show ?thesis
    proof (cases "kernel S cs")
      case None
      then have "x = None" "av' = av\<lparr>calls := cs\<rparr>"
        using run big by (simp_all add: map_chunk_def Let_def al sz_def [symmetric] sys_MMAP_def cs_def)
      then show ?thesis using st' kernel_mmap(1) [OF k] None by (simp add: cs_def steady_def)
    next
      case (Some mm)
      have g: "grants got (calls av) (Mmap sz) mm sz" using kernel_mmap(2) [OF k] Some by (simp add: cs_def)
      from run big Some obtain md av1 L where r0: "register_chunk ?E mm (av\<lparr>calls := cs\<rparr>) = Some (md, av1)"
          "Some (Some (Some md), (set_head md (sz OR IS_MMAPPED) av1)\<lparr>lkup := L,
             par := count_mmap sz (par av1)\<rparr>) = Some (x, av')"
        by (simp add: map_chunk_def Let_def al sz_def [symmetric] sys_MMAP_def cs_def [symmetric] bind_assert_eq_Some_iff
            del: option.inject prod.inject, elim conjE bindE) (rule that, assumption+)
      then have r: "x = Some (Some md)" "register_chunk ?E mm (av\<lparr>calls := cs\<rparr>) = Some (md, av1)" "x = Some (Some md)"
        "av' = (set_head md (sz OR IS_MMAPPED) av1)\<lparr>lkup := L, par := count_mmap sz (par av1)\<rparr>" by simp_all
      from st obtain T f H F G X own t where I: "pend (got (calls av)) [] ?E (Suc n) av T f (fS f) H F G X own t"
        and B: "used H F G X t = U" "ran T - H = M" "\<forall>d \<in> U \<union> M. B d = blocks_of f d" by (rule stateE)
      note P = pendD [OF I] and D = heap_okD [OF pendD(2) [OF I]]
      obtain j where j: "4 \<le> j" "j < 64" "dl_pagesize (par av) = 2 ^ j" by (rule par_page [OF p])
      have szd: "16 dvd unat sz" unfolding sz_def j(3) by (rule ALIGN_UP_page [OF j(1,2)])
      note szz = aligned_size(1) [OF szd]
      have sz1: "1 \<le> unat sz" "unat nb \<le> unat sz" using big by (simp_all add: word_less_nat_alt)
      have gz: "got (calls av) \<inter> {unat mm ..< unat mm + unat sz} = {}" "got (calls av) \<union> {unat mm ..< unat mm + unat sz} \<subseteq> got cs"
        using g by (auto simp: grants_def cs_def)
      have Tm: "T mm = None" by (rule fresh_address [OF P(2) gz(1) sz1(1)])
      have v0: "view ?E (Suc n) (av\<lparr>calls := cs\<rparr>) T f" by (rule view_same [OF P(1)]) simp_all
      note q = register_view [OF r(2) v0 Tm]
      define h where "h = (fresh_fields mm md f)\<lparr>fS := (fS f)(md := sz OR IS_MMAPPED)\<rparr>"
      have "view ?E n (set_head md (sz OR IS_MMAPPED) av1) (T(mm \<mapsto> md)) h"
        using view_writes(9) [OF q(3), of md "sz OR IS_MMAPPED"] by (simp add: h_def fresh_fields_def)
      then have vh: "view ?E n av' (T(mm \<mapsto> md)) h" unfolding r(4) by (rule view_same) simp_all
      have hk: "heap_ok (got cs) (fA h) (fS h) (fP h) (fN h) (fV h) (T(mm \<mapsto> md)) H F G t"
      proof (rule add_mapped_ok [OF P(2) q(1) gz(1) sz1(1) gz(2)])
        show "fA h md = mm" "size_of (fS h md) \<le> unat sz" "fN h md = None" "fP h md = 0" by (simp_all add: h_def szz)
        show "32 \<le> size_of (fS h md)" using sz1(2) nb by (simp add: h_def szz req_ok_def)
        fix c assume "c \<in> ran T"
        then have "c \<noteq> md" using q(1) by auto
        then show "fA h c = fA f c \<and> fS h c = fS f c \<and> fP h c = fP f c \<and> fN h c = fN f c \<and> fV h c = fV f c" by (simp add: h_def)
      qed
      have mdH: "md \<notin> H" "md \<notin> F" "md \<notin> X" using q(1) D(4,6) P(6) by auto
      have mdh: "c \<noteq> md" if "c \<in> F \<union> headers (bins_base av) \<union> X" for c using that mdH q(2) by (auto simp: headers_def)
      note fr = frame_sel(2,3,4,6,11) [OF q(4)] frame_proc(1,3) [OF q(4)]
      have fr': "fastbinsY av' = fastbinsY av" "md_top av' = Some t" "bins_base av' = bins_base av" "calls av' = cs" "steady av av'"
        using fr P(7) by (simp_all add: r(4) set_head_def steady_def) (simp add: cs_def)
      have N: "pend (got cs) [] ?E n av' (T(mm \<mapsto> md)) h (fS h) H F G X own t"
        by (rule pend_rebuild [OF I vh hk _ fr'(1-3) P(6)]) (use mdh in \<open>simp add: h_def\<close>)
      have mU: "md \<notin> U \<union> M" using B(1,2) mdH q(1) by (auto simp: used_def)
      have "state (got cs) [] ?E n av' U (insert md M) (B(md := blocks_of h md))"
      proof (rule stateI [OF N B(1)])
        show "ran (T(mm \<mapsto> md)) - H = insert md M" using B(2) Tm mdH by auto
        show "(B(md := blocks_of h md)) d = blocks_of h d" if "d \<in> U \<union> insert md M" for d
          using that B(3) mU by (cases "d = md") (auto simp: blocks_of_def h_def)
      qed
      moreover have "unat nb \<le> snd (blocks_of h md)" using sz1(2) by (simp add: blocks_of_def h_def szz)
      ultimately have "supplied got ?E n nb U M B (Some md) av'" using mU fr'(4) by (intro supplied_mapped) simp_all
      then show ?thesis using r(3) fr'(5) by simp
    qed
  qed
qed

end
