(* ===== verification/Malloc_Errno.thy ===== *)
theory Malloc_Errno
  imports Malloc_System
begin

text \<open>
  Setting \<open>errno\<close> does not concern the metadata.
\<close>

definition put_errno :: "errno_code \<Rightarrow> 'z mstate_scheme \<Rightarrow> 'z mstate_scheme" where
  "put_errno e av = av\<lparr>memory := (memory av)\<lparr>errno := Some e\<rparr>\<rparr>"

lemma represents_errno:
  assumes rep: "represents E t m c"
  shows "represents E t (m\<lparr>errno := e\<rparr>) c"
proof -
  obtain B where B: "table_rep E t m B" "c = key_list E t m B" using rep by (rule representsE)
  note R = table_repD [OF B(1)]
  let ?m = "m\<lparr>errno := e\<rparr>"
  have sp: "same_pools m ?m" by (simp add: same_pools_def)
  have "memcxt_ok E ?m" by (rule same_pools_ok [OF sp R(1)]) (use memcxt_ok_env(5) [OF R(1)] in simp_all)
  moreover have "free_segments_clear E ?m"
    using R(2) same_pools_simps [OF sp] by (simp add: free_segments_clear_def)
  moreover have seg: "seg_at t ?m = seg_at t m" "cell_of t ?m = cell_of t m"
    by (simp_all add: seg_at_def cell_of_def fun_eq_iff)
  moreover have "dir_ok E t ?m" using R(4) same_pools_simps [OF sp] by (simp add: dir_ok_def seg)
  moreover have "bins_ok E t ?m B"
  proof -
    have "get_next ?m = get_next m" "get_bin ?m = get_bin m" by (simp_all add: get_next_def get_bin_def fun_eq_iff)
    then show ?thesis using R(5) same_pools_simps [OF sp] unfolding bins_ok_def seg by simp
  qed
  ultimately have "table_rep E t ?m B" using R(3,6) by (simp add: table_rep_def)
  moreover have "key_list E t ?m B k = c k" for k by (simp add: B(2) key_list_def)
  ultimately show ?thesis by (rule representsI)
qed

lemma view_errno:
  assumes "view E n av T f"
  shows "view E n (put_errno e av) T f"
proof -
  obtain K h where s: "sees E n av T K h" "f = fields_of h" using assms by (rule viewE)
  have lb: "live_buckets E ((memory av)\<lparr>errno := Some e\<rparr>) = live_buckets E (memory av)" by (simp add: live_buckets_def)
  have "meta_ok E n (put_errno e av) T"
    using s(1) represents_errno [of E "htbl av" "memory av" "entry_lists T" "Some e"]
    by (simp add: sees_def meta_ok_def put_errno_def)
  moreover have "known E (put_errno e av) = known E av" "info (put_errno e av) q = info av q" for q
    using lb by (simp_all add: known_def put_errno_def info_def ci_def)
  ultimately have "sees E n (put_errno e av) T K h" using s(1) by (simp add: sees_def)
  then show ?thesis using s(2) by (rule viewI)
qed

lemma state_errno:
  assumes "state Z L E n av U M B"
  shows "state Z L E n (put_errno e av) U M B"
proof -
  from assms obtain T f H F G X own t where I: "pend Z L E n av T f (fS f) H F G X own t" "used H F G X t = U" "ran T - H = M"
    "\<forall>d \<in> U \<union> M. B d = blocks_of f d" by (rule stateE)
  have "pend Z L E n (put_errno e av) T f (fS f) H F G X own t"
    using pendD(2-) [OF I(1)] view_errno [OF pendD(1) [OF I(1)], of e] by (simp add: pend_def put_errno_def)
  then show ?thesis by (rule stateI [OF _ I(2,3)]) (use I(4) in blast)
qed

lemma put_errno_sel [simp]:
  fixes av :: "'z proc_scheme"
  shows "calls (put_errno e av) = calls av" "par (put_errno e av) = par av" "is_main (put_errno e av) = is_main av"
    "bins_base (put_errno e av) = bins_base av" "initial_top (put_errno e av) = initial_top av"
  by (simp_all add: put_errno_def)

end
