(* ===== verification/Malloc_Fence.thy ===== *)
theory Malloc_Fence
  imports Malloc_Errno
begin

text \<open>
  Fence posts: when top moves to other memory, the old top is cut by two chunks that are never used, so that the
  memory after it is not taken for a chunk.
\<close>

section \<open>Chunks at the end of the memory\<close>

text \<open>
  A chunk that has lost its successor counts as a fence post until it has got a new one. The last chunk leaves, and its
  predecessor is the last one.
\<close>

lemma drop_last_ok:
  assumes ok: "heap_ok Z A S P N V T H F G t" and c: "c \<in> H" "c \<notin> F" "c \<noteq> t" "N c = None" "pinuse (S c)" and q: "V c = Some q"
  shows "heap_ok Z A S P (N(q := None)) V (T(A c := None)) (H - {c}) F (insert q (G - {c})) t" "q \<in> H" "q \<notin> F" "q \<noteq> c" "q \<noteq> t"
    "q \<notin> G \<Longrightarrow> start A c = start A q + size_of (S q)"
proof -
  note D = heap_okD [OF ok] and L = links_fitD [OF heap_okD(10) [OF ok]]
  have q': "q \<in> H" "N q = Some c" using L(4) [OF c(1) q] by auto
  then show "q \<in> H" and qc: "q \<noteq> c" using c(4) by auto
  show "q \<notin> G \<Longrightarrow> start A c = start A q + size_of (S q)" using L(3) [OF q'] by simp
  show qt: "q \<noteq> t" using q'(2) D(7) by auto
  show qF: "q \<notin> F"
  proof
    assume "q \<in> F"
    then have "\<not> pinuse (S c)" using frees_fitD(2) [OF D(11) _ q'(2)] by simp
    then show False using c(5) by simp
  qed
  have key: "A x = k" if "T k = Some x" for k x using D(8) that by (auto simp: table_fits_def)
  have "c \<in> ran T" using D(6) c(1) by blast
  then obtain k where k: "T k = Some c" by (rule ranE)
  then have "T (A c) = Some c" using key by simp
  then have ran: "ran (T(A c := None)) = ran T - {c}" by (rule ran_delete) (use key in auto)
  have "table_fits Z A S (T(A c := None))"
    unfolding table_fits_def ran using D(8) by (auto simp: table_fits_def split: if_splits)
  moreover have "sizes_fit A S (H - {c}) (insert q (G - {c}))" using D(9) by (auto simp: sizes_fit_def)
  moreover have "links_fit A S (N(q := None)) V (H - {c}) (insert q (G - {c}))"
    unfolding links_fit_def
  proof (intro conjI ballI allI impI)
    fix x m assume x: "x \<in> H - {c}"
    show "m \<in> H - {c}" "V m = Some x" "x \<notin> insert q (G - {c}) \<Longrightarrow> start A m = start A x + size_of (S x)" if "(N(q := None)) x = Some m"
    proof -
      have n: "N x = Some m" "x \<noteq> q" using that by (auto split: if_splits)
      have "m \<noteq> c" using L(2) [OF _ n(1)] x q n(2) by auto
      then show "m \<in> H - {c}" "V m = Some x" "x \<notin> insert q (G - {c}) \<Longrightarrow> start A m = start A x + size_of (S x)"
        using L(1-3) [OF _ n(1)] x by auto
    qed
    show "m \<in> H - {c}" "(N(q := None)) m = Some x" if "V x = Some m"
    proof -
      have m: "m \<in> H" "N m = Some x" using L(4) [OF _ that] x by auto
      then have "m \<noteq> c" "m \<noteq> q" using c(4) q'(2) x by auto
      then show "m \<in> H - {c}" "(N(q := None)) m = Some x" using m by auto
    qed
  qed
  moreover have "frees_fit S P (N(q := None)) (H - {c}) F t"
    unfolding frees_fit_def
  proof (intro conjI ballI impI)
    note R = frees_fitD [OF D(11)]
    fix x assume x: "x \<in> F"
    then obtain m where m: "N x = Some m" using R(3) by blast
    then show "\<exists>n. (N(q := None)) x = Some n \<and> n \<notin> F \<and> n \<noteq> t \<and> \<not> pinuse (S n) \<and> unat (P n) = size_of (S x)"
      using R(2) [OF x m] x qF by auto
  next
    fix x assume "x \<in> H - {c}" "\<not> pinuse (S x)"
    then show "\<exists>y \<in> F. (N(q := None)) y = Some x" using frees_fitD(1) [OF D(11), of x] qF by auto
  qed
  moreover have "\<forall>x \<in> ran (T(A c := None)) - (H - {c}). (N(q := None)) x = None \<and> P x = 0" using D(13,14) ran by auto
  moreover have "F \<subseteq> H - {c}" "H - {c} \<subseteq> ran (T(A c := None))" "insert q (G - {c}) \<subseteq> H - {c}" using D(4,6,12) c q'(1) qc ran by auto
  moreover have "ended (N(q := None)) (H - {c}) (insert q (G - {c})) t" using D(15) unfolding ended_def by auto
  moreover have "(N(q := None)) t = None" "t \<notin> insert q (G - {c})" "t \<in> H - {c}" using D(1,3,7) qt c(3) by simp_all
  moreover have "F \<inter> insert q (G - {c}) = {}" using D(5) qF by blast
  ultimately show "heap_ok Z A S P (N(q := None)) V (T(A c := None)) (H - {c}) F (insert q (G - {c})) t"
    using D(2) unfolding heap_ok_def by simp
qed

text \<open>A fence post is put after the last chunk.\<close>

lemma append_ok:
  assumes ok: "heap_ok Z A S P N V T H F (insert e G) t" and e: "e \<in> H" "e \<notin> F" "e \<noteq> t" "N e = None"
    and r: "r \<notin> ran T" and a: "T a = None" "64 \<le> unat a" "16 dvd unat a" "unat a + size_of (S' r) < 2 ^ 64"
      "e \<notin> G \<Longrightarrow> unat a = start A e + size_of (S e) \<and> 32 \<le> size_of (S e)"
    and n: "A' r = a" "N' r = None" "V' r = Some e" "N' e = Some r" "16 \<le> size_of (S' r)" "16 dvd size_of (S' r)" "pinuse (S' r)" "\<not> mmapped_bit (S' r)"
    and eq: "\<And>x. x \<in> ran T \<Longrightarrow> A' x = A x \<and> S' x = S x \<and> P' x = P x \<and> (x \<noteq> e \<longrightarrow> N' x = N x) \<and> V' x = V x"
    and ap: "\<And>x. x \<in> ran T \<Longrightarrow> apart A' S' x r" and rg: "region A' S' r \<subseteq> Z"
  shows "heap_ok Z A' S' P' N' V' (T(a \<mapsto> r)) (insert r H) F (insert r G) t"
proof -
  note D0 = heap_okD [OF ok]
  have rH: "r \<notin> H" "r \<notin> F" "r \<notin> G" "r \<noteq> e" "r \<noteq> t" using r D0(1,4,6,12) e(1) by auto
  have eT: "A' e = A e" "S' e = S e" using eq [of e] e(1) D0(6) by auto
  have "heap_ok Z A' S' P' (N'(e := None)) V' T H F (insert e G) t"
    by (rule heap_cong [OF ok]) (use eq e in auto)
  note D = heap_okD [OF this] and L = links_fitD [OF heap_okD(10) [OF this]]
  have ran: "ran (T(a \<mapsto> r)) = insert r (ran T)" using a(1) by simp
  have sr: "start A' r = unat a" using n(1) by (simp add: start_def)
  have tf: "c \<in> ran T \<Longrightarrow> d \<in> ran T \<Longrightarrow> c \<noteq> d \<Longrightarrow> apart A' S' c d" "c \<in> ran T \<Longrightarrow> region A' S' c \<subseteq> Z" for c d
    using D(8) by (simp_all add: table_fits_def)
  have "table_fits Z A' S' (T(a \<mapsto> r))"
    unfolding table_fits_def
  proof (intro conjI allI ballI impI)
    show "A' c = k" if "(T(a \<mapsto> r)) k = Some c" for k c
      using that n(1) D(8) by (auto simp: table_fits_def split: if_splits)
    fix c assume c: "c \<in> ran (T(a \<mapsto> r))"
    show "mapped_fits (S' c)" using D(8) c ran n(8) by (auto simp: table_fits_def)
    show "region A' S' c \<subseteq> Z" using c rg tf(2) [of c] ran by (cases "c = r") simp_all
    fix d assume d: "d \<in> ran (T(a \<mapsto> r))" "c \<noteq> d"
    have sym: "apart A' S' x y \<Longrightarrow> apart A' S' y x" for x y by (auto simp: apart_def)
    show "apart A' S' c d"
      using ap [of c] ap [of d] sym tf(1) [of c d] c d ran by (cases "c = r"; cases "d = r") simp_all
  qed
  moreover have "sizes_fit A' S' (insert r H) (insert r G)"
    unfolding sizes_fit_def
  proof (rule ballI)
    fix c assume "c \<in> insert r H"
    then show "64 \<le> start A' c \<and> 16 dvd start A' c \<and> 16 dvd size_of (S' c) \<and> 16 \<le> size_of (S' c) \<and>
        start A' c + size_of (S' c) < 2 ^ 64 \<and> \<not> mmapped_bit (S' c) \<and> (c \<notin> insert r G \<longrightarrow> 32 \<le> size_of (S' c))"
      using n(5-8) a(2-5) sr eT D(9) [unfolded sizes_fit_def, rule_format, of c] by (cases "c = r"; cases "c = e") auto
  qed
  moreover have "links_fit A' S' N' V' (insert r H) (insert r G)"
    unfolding links_fit_def
  proof (intro conjI ballI allI impI)
    fix c m assume c: "c \<in> insert r H"
    have "m \<in> insert r H \<and> V' m = Some c \<and> (c \<notin> insert r G \<longrightarrow> start A' m = start A' c + size_of (S' c))" if m: "N' c = Some m"
    proof (cases "c = e")
      case True
      then show ?thesis using m n(3,4) a(5) sr eT by (auto simp: start_def)
    next
      case False
      then have "c \<in> H" "(N'(e := None)) c = Some m" using c m n(2) by auto
      then show ?thesis using L(1-3) False by blast
    qed
    then show "m \<in> insert r H" "V' m = Some c" "c \<notin> insert r G \<Longrightarrow> start A' m = start A' c + size_of (S' c)" if "N' c = Some m"
      using that by blast+
    show "m \<in> insert r H" "N' m = Some c" if "V' c = Some m"
    proof -
      have "m \<in> insert r H \<and> N' m = Some c"
      proof (cases "c = r")
        case True
        then show ?thesis using that n(3,4) e(1) by auto
      next
        case False
        then have "c \<in> H" using c by simp
        then have "m \<in> H" "(N'(e := None)) m = Some c" using L(4) that by blast+
        then show ?thesis by (auto split: if_splits)
      qed
      then show "m \<in> insert r H" "N' m = Some c" by auto
    qed
  qed
  moreover have "frees_fit S' P' N' (insert r H) F t"
    unfolding frees_fit_def
  proof (intro conjI ballI impI)
    note R = frees_fitD [OF D(11)]
    fix x assume x: "x \<in> F"
    then obtain m where m: "(N'(e := None)) x = Some m" using R(3) by blast
    then show "\<exists>n. N' x = Some n \<and> n \<notin> F \<and> n \<noteq> t \<and> \<not> pinuse (S' n) \<and> unat (P' n) = size_of (S' x)"
      using R(2) [OF x m] x e(2) by (auto split: if_splits)
  next
    fix x assume x: "x \<in> insert r H" "\<not> pinuse (S' x)"
    then obtain y where "y \<in> F" "(N'(e := None)) y = Some x" using frees_fitD(1) [OF D(11), of x] n(7) by auto
    then show "\<exists>y \<in> F. N' y = Some x" by (auto split: if_splits)
  qed
  moreover have "\<forall>x \<in> ran (T(a \<mapsto> r)) - insert r H. N' x = None \<and> P' x = 0" 
  proof
    fix x assume "x \<in> ran (T(a \<mapsto> r)) - insert r H"
    then have x: "x \<in> ran T" "x \<notin> H" "x \<noteq> e" using ran e(1) by auto
    show "N' x = None \<and> P' x = 0" using D(13,14) [OF x(1,2)] x(3) by simp
  qed
  moreover have "F \<inter> insert r G = {}" "insert r H \<subseteq> ran (T(a \<mapsto> r))" "N' t = None" "t \<notin> insert r G" "insert r G \<subseteq> insert r H" "F \<subseteq> insert r H"
    using D(3-7,12) rH ran e(3) by auto
  moreover have "ended N' (insert r H) (insert r G) t" using D(15) n(4) unfolding ended_def by (metis Diff_iff fun_upd_other insert_iff option.distinct(1))
  ultimately show ?thesis using D(1,2) unfolding heap_ok_def by simp
qed

text \<open>The last fence post points to the new top.\<close>

lemma link_top_ok:
  assumes ok: "heap_ok Z A S P N V T H F G t" and e: "e \<in> H" "e \<in> G" "N e = None" and t: "V t = None"
  shows "heap_ok Z A S P (N(e := Some t)) (V(t := Some e)) T H F G t"
proof -
  note D = heap_okD [OF ok] and L = links_fitD [OF heap_okD(10) [OF ok]] and R = frees_fitD [OF heap_okD(11) [OF ok]]
  have et: "e \<noteq> t" "e \<notin> F" using e(2) D(3,5) by auto
  have "links_fit A S (N(e := Some t)) (V(t := Some e)) H G"
    unfolding links_fit_def
  proof (intro conjI ballI allI impI)
    fix c m assume c: "c \<in> H"
    have "m \<in> H \<and> (V(t := Some e)) m = Some c \<and> (c \<notin> G \<longrightarrow> start A m = start A c + size_of (S c))" if m: "(N(e := Some t)) c = Some m"
    proof (cases "c = e")
      case True
      then show ?thesis using m e(2) D(1) by auto
    next
      case False
      then have n: "N c = Some m" using m by simp
      have "m \<noteq> t" using L(2) [OF c n] t by auto
      then show ?thesis using L(1-3) [OF c n] by simp
    qed
    then show "m \<in> H" "(V(t := Some e)) m = Some c" "c \<notin> G \<Longrightarrow> start A m = start A c + size_of (S c)" if "(N(e := Some t)) c = Some m"
      using that by blast+
    show "m \<in> H" "(N(e := Some t)) m = Some c" if "(V(t := Some e)) c = Some m"
      using that L(4) [OF c] e(1,3) by (auto split: if_splits)
  qed
  moreover have "frees_fit S P (N(e := Some t)) H F t"
    unfolding frees_fit_def
  proof (intro conjI ballI impI)
    fix x assume x: "x \<in> F"
    then obtain m where "N x = Some m" using R(3) by blast
    then show "\<exists>n. (N(e := Some t)) x = Some n \<and> n \<notin> F \<and> n \<noteq> t \<and> \<not> pinuse (S n) \<and> unat (P n) = size_of (S x)"
      using R(2) [OF x] x et(2) by (intro exI [of _ m]) auto
  next
    fix x assume "x \<in> H" "\<not> pinuse (S x)"
    then obtain y where y: "y \<in> F" "N y = Some x" using R(1) by blast
    then have "y \<noteq> e" using et(2) by auto
    then show "\<exists>y \<in> F. (N(e := Some t)) y = Some x" using y by (intro bexI [of _ y]) auto
  qed
  moreover have "\<forall>x \<in> ran T - H. (N(e := Some t)) x = None \<and> P x = 0" using D(13,14) e(1) by auto
  moreover have "ended (N(e := Some t)) H G t" using D(15) e(2) unfolding ended_def by auto
  ultimately show ?thesis using D(1-12) et(1) unfolding heap_ok_def by simp
qed

section \<open>Two fence posts\<close>

definition fence_head :: u64 where
  "fence_head = (2 * SIZE_SZ) OR PREV_INUSE"

lemma fence_head_bits: "size_of fence_head = 16" "pinuse fence_head" "\<not> mmapped_bit fence_head"
proof -
  have s: "2 * SIZE_SZ = (16 :: u64)" by (simp add: SIZE_SZ_def)
  show "size_of fence_head = 16" "pinuse fence_head" "\<not> mmapped_bit fence_head"
    using aligned_size(1,2) [of 16] by (simp_all add: fence_head_def s)
qed

lemma fences_ok:
  assumes ok: "heap_ok Z A S P (N(e := None)) V T H F (insert e G) t" and e: "e \<in> H" "e \<notin> F" "e \<noteq> t" and t: "V t = None"
    and m: "m0 \<notin> ran T" "m1 \<notin> ran T" "m0 \<noteq> m1"
    and a: "T a0 = None" "T a1 = None" "unat a1 = unat a0 + 16" "64 \<le> unat a0" "16 dvd unat a0" "unat a0 + 32 < 2 ^ 64"
      "e \<notin> G \<Longrightarrow> unat a0 = start A e + size_of (S e) \<and> 32 \<le> size_of (S e)"
    and z: "{unat a0 ..< unat a0 + 32} \<subseteq> Z" and ap: "\<And>x. x \<in> ran T \<Longrightarrow> start A x + max 1 (size_of (S x)) \<le> unat a0 \<or> unat a0 + 32 \<le> start A x"
  shows "heap_ok Z (A(m0 := a0, m1 := a1)) (S(m0 := fence_head, m1 := fence_head)) (P(m0 := 0, m1 := 0))
    (N(e := Some m0, m0 := Some m1, m1 := Some t)) (V(m0 := Some e, m1 := Some m0, t := Some m1)) (T(a0 \<mapsto> m0, a1 \<mapsto> m1))
    (insert m1 (insert m0 H)) F (insert m1 (insert m0 G)) t"
proof -
  note D = heap_okD [OF ok] and fb = fence_head_bits
  have HT: "x \<in> ran T" if "x \<in> H" for x using D(6) that by blast
  have ne: "m0 \<noteq> e" "m1 \<noteq> e" "m0 \<noteq> t" "m1 \<noteq> t" using m HT e(1) D(1) by auto
  have a01: "a0 \<noteq> a1" using a(3) by auto
  have 1: "heap_ok Z (A(m0 := a0)) (S(m0 := fence_head)) (P(m0 := 0)) (N(e := Some m0, m0 := None)) (V(m0 := Some e)) (T(a0 \<mapsto> m0))
      (insert m0 H) F (insert m0 G) t"
  proof (rule append_ok [OF ok e])
    fix x assume x: "x \<in> ran T"
    then have "x \<noteq> m0" using m(1) by auto
    then show "(A(m0 := a0)) x = A x \<and> (S(m0 := fence_head)) x = S x \<and> (P(m0 := 0)) x = P x \<and>
        (x \<noteq> e \<longrightarrow> (N(e := Some m0, m0 := None)) x = (N(e := None)) x) \<and> (V(m0 := Some e)) x = V x" by simp
    show "apart (A(m0 := a0)) (S(m0 := fence_head)) x m0" using ap [OF x] \<open>x \<noteq> m0\<close> fb(1) by (auto simp: apart_def start_def)
  qed (use m a z ne fb in \<open>auto simp: region_def start_def\<close>)
  have "heap_ok Z (A(m0 := a0, m1 := a1)) (S(m0 := fence_head, m1 := fence_head)) (P(m0 := 0, m1 := 0))
      (N(e := Some m0, m0 := Some m1, m1 := None)) (V(m0 := Some e, m1 := Some m0)) (T(a0 \<mapsto> m0, a1 \<mapsto> m1))
      (insert m1 (insert m0 H)) F (insert m1 (insert m0 G)) t"
  proof (rule append_ok [where e = m0])
    show "heap_ok Z (A(m0 := a0)) (S(m0 := fence_head)) (P(m0 := 0)) (N(e := Some m0, m0 := None)) (V(m0 := Some e)) (T(a0 \<mapsto> m0))
      (insert m0 H) F (insert m0 (insert m0 G)) t" using 1 by simp
    have rT: "ran (T(a0 \<mapsto> m0)) = insert m0 (ran T)" using a(1) by simp
    show "m1 \<notin> ran (T(a0 \<mapsto> m0))" using m rT by auto
    show "m0 \<notin> F" using D(4) HT m(1) by blast
    fix x assume x: "x \<in> ran (T(a0 \<mapsto> m0))"
    then have x1: "x \<noteq> m1" using m rT by auto
    then show "(A(m0 := a0, m1 := a1)) x = (A(m0 := a0)) x \<and> (S(m0 := fence_head, m1 := fence_head)) x = (S(m0 := fence_head)) x \<and>
        (P(m0 := 0, m1 := 0)) x = (P(m0 := 0)) x \<and>
        (x \<noteq> m0 \<longrightarrow> (N(e := Some m0, m0 := Some m1, m1 := None)) x = (N(e := Some m0, m0 := None)) x) \<and>
        (V(m0 := Some e, m1 := Some m0)) x = (V(m0 := Some e)) x" by simp
    show "apart (A(m0 := a0, m1 := a1)) (S(m0 := fence_head, m1 := fence_head)) x m1"
    proof (cases "x = m0")
      case True
      then show ?thesis using a(3) fb(1) m(3) by (simp add: apart_def start_def)
    next
      case False
      then show ?thesis using ap [of x] x rT x1 a(3) fb(1) by (auto simp: apart_def start_def)
    qed
  qed (use m a z ne fb a01 in \<open>auto simp: region_def start_def\<close>)
  from link_top_ok [OF this, of m1] show ?thesis using t ne m(3) by (simp add: fun_upd_twist)
qed

definition fenced :: "bptr \<Rightarrow> bptr \<Rightarrow> bptr \<Rightarrow> bptr \<Rightarrow> u64 \<Rightarrow> u64 \<Rightarrow> fields \<Rightarrow> fields" where
  "fenced e t m0 m1 a0 a1 f = (fresh_fields a1 m1 (fresh_fields a0 m0 f))\<lparr>fS := (fS f)(m0 := fence_head, m1 := fence_head),
     fN := (fN f)(e := Some m0, m0 := Some m1, m1 := Some t), fV := (fV f)(m0 := Some e, m1 := Some m0, t := Some m1)\<rparr>"

lemma fenced_sel [simp]:
  "fA (fenced e t m0 m1 a0 a1 f) = (fA f)(m0 := a0, m1 := a1)" "fS (fenced e t m0 m1 a0 a1 f) = (fS f)(m0 := fence_head, m1 := fence_head)"
  "fP (fenced e t m0 m1 a0 a1 f) = (fP f)(m0 := 0, m1 := 0)" "fN (fenced e t m0 m1 a0 a1 f) = (fN f)(e := Some m0, m0 := Some m1, m1 := Some t)"
  "fV (fenced e t m0 m1 a0 a1 f) = (fV f)(m0 := Some e, m1 := Some m0, t := Some m1)"
  "fF (fenced e t m0 m1 a0 a1 f) = (fF f)(m0 := None, m1 := None)" "fB (fenced e t m0 m1 a0 a1 f) = (fB f)(m0 := None, m1 := None)"
  "fFN (fenced e t m0 m1 a0 a1 f) = (fFN f)(m0 := None, m1 := None)" "fBN (fenced e t m0 m1 a0 a1 f) = (fBN f)(m0 := None, m1 := None)"
  by (simp_all add: fenced_def)

lemma fence_writesD:
  fixes av :: "'z proc_scheme"
  assumes r0: "register_chunk E a0 av = Some (m0, av1)"
    and r1: "register_chunk E a1 (set_head m0 fence_head (w_md_next (Some m0) e (w_md_prev (Some e) m0 (w_md_next None m0 av1)))) = Some (m1, av2)"
    and a': "av' = set_head m1 fence_head (w_md_prev (Some m1) t (w_md_next (Some m1) m0 (w_md_prev (Some m0) m1 (w_md_next (Some t) m1 av2))))"
    and v: "view E (Suc (Suc n)) av T f" and T: "T a0 = None" "T a1 = None" "a0 \<noteq> a1" and e: "e \<in> ran T" "t \<in> ran T"
  shows "m0 \<notin> ran T" "m1 \<notin> ran T" "m0 \<noteq> m1" "bpool_of m0 \<noteq> bins_base av" "bpool_of m1 \<noteq> bins_base av" "frame av av'"
    "view E n av' (T(a0 \<mapsto> m0, a1 \<mapsto> m1)) (fenced e t m0 m1 a0 a1 f)"
proof -
  let ?av1 = "set_head m0 fence_head (w_md_next (Some m0) e (w_md_prev (Some e) m0 (w_md_next None m0 av1)))"
  note p = register_view [OF r0 v T(1)]
  show m0: "m0 \<notin> ran T" "bpool_of m0 \<noteq> bins_base av" by (fact p(1,2))+
  define T0 where "T0 = T(a0 \<mapsto> m0)"
  note v1 = view_writes(9) [OF view_writes(7) [OF view_writes(8) [OF view_writes(7) [OF p(3), of None m0], of "Some e" m0], of "Some m0" e],
    of m0 fence_head, folded T0_def]
  have "T0 a1 = None" using T by (simp add: T0_def)
  note q = register_view [OF r1 v1 this]
  have f1: "frame av ?av1" using p(4) by (simp add: set_head_def)
  have "ran T0 = insert m0 (ran T)" using T(1) by (simp add: T0_def)
  then show m1: "m1 \<notin> ran T" "m0 \<noteq> m1" using q(1) by auto
  show "bpool_of m1 \<noteq> bins_base av" using q(2) frame_sel(6) [OF f1] by simp
  show "frame av av'" unfolding a' using frame_trans [OF f1 q(4)] by (simp add: set_head_def)
  have ne: "m0 \<noteq> e" "m1 \<noteq> e" "m0 \<noteq> t" "m1 \<noteq> t" using m0 m1 e by auto
  show "view E n av' (T(a0 \<mapsto> m0, a1 \<mapsto> m1)) (fenced e t m0 m1 a0 a1 f)"
    using view_writes(9) [OF view_writes(8) [OF view_writes(7) [OF view_writes(8) [OF view_writes(7) [OF q(3), of "Some t" m1], of "Some m0" m1],
      of "Some m1" m0], of "Some m1" t], of m1 fence_head] ne m1(2)
    unfolding T0_def [symmetric]
    by (simp add: a' fenced_def fresh_fields_def fun_upd_twist)
qed

text \<open>The invariant with the two fence posts.\<close>

lemma fence_pendD:
  fixes av :: "'z proc_scheme"
  assumes v: "view E (Suc (Suc n)) av T f" and ok: "heap_ok Z (fA f) (fS f) (fP f) ((fN f)(e := None)) (fV f) T H F (insert e G) t"
    and ro: "rings_ok f own F (bins_base av)" and fo: "fast_ok (fF f) X (fastbinsY av)" "length (fastbinsY av) = NFASTBINS"
    and X: "X \<subseteq> H - F - G - {t}" "\<And>c. c \<in> X \<Longrightarrow> size_of (fS f c) \<le> 160" and mt: "md_top av = Some t"
    and e: "e \<in> H" "e \<notin> F" "e \<noteq> t" and t: "fV f t = None"
    and r0: "register_chunk E a0 av = Some (m0, av1)"
    and r1: "register_chunk E a1 (set_head m0 fence_head (w_md_next (Some m0) e (w_md_prev (Some e) m0 (w_md_next None m0 av1)))) = Some (m1, av2)"
    and a': "av' = set_head m1 fence_head (w_md_prev (Some m1) t (w_md_next (Some m1) m0 (w_md_prev (Some m0) m1 (w_md_next (Some t) m1 av2))))"
    and a: "T a0 = None" "T a1 = None" "unat a1 = unat a0 + 16" "64 \<le> unat a0" "16 dvd unat a0" "unat a0 + 32 < 2 ^ 64"
      "e \<notin> G \<Longrightarrow> unat a0 = start (fA f) e + size_of (fS f e) \<and> 32 \<le> size_of (fS f e)"
    and z: "{unat a0 ..< unat a0 + 32} \<subseteq> Z"
    and ap: "\<And>x. x \<in> ran T \<Longrightarrow> start (fA f) x + max 1 (size_of (fS f x)) \<le> unat a0 \<or> unat a0 + 32 \<le> start (fA f) x"
  shows "\<exists>m0 m1. m0 \<notin> ran T \<and> m1 \<notin> ran T \<and> pend Z [] E n av' (T(a0 \<mapsto> m0, a1 \<mapsto> m1)) (fenced e t m0 m1 a0 a1 f) (fS (fenced e t m0 m1 a0 a1 f))
      (insert m1 (insert m0 H)) F (insert m1 (insert m0 G)) X own t \<and> frame av av'"
proof -
  note D = heap_okD [OF ok]
  have HT: "x \<in> ran T" if "x \<in> H" for x using D(6) that by blast
  have a01: "a0 \<noteq> a1" using a(3) by auto
  note w = fence_writesD [OF r0 r1 a' v a(1,2) a01 HT [OF e(1)] HT [OF D(1)]]
  let ?g = "fenced e t m0 m1 a0 a1 f"
  have hk: "heap_ok Z (fA ?g) (fS ?g) (fP ?g) (fN ?g) (fV ?g) (T(a0 \<mapsto> m0, a1 \<mapsto> m1)) (insert m1 (insert m0 H)) F (insert m1 (insert m0 G)) t"
    unfolding fenced_sel by (rule fences_ok [OF ok e t w(1-3) a z], assumption) (rule ap)
  have ne: "x \<noteq> m0" "x \<noteq> m1" if "x \<in> F \<union> headers (bins_base av) \<union> X" for x
    using that w(1,2,4,5) HT D(4) X(1) by (auto simp: headers_def)
  have "rings_ok ?g own F (bins_base av)" by (rule bins_cong [OF ro]) (use ne in auto)
  moreover have "fast_ok (fF ?g) X ([] @ fastbinsY av')" using fo(1) fast_cong [of X "fF ?g" "fF f"] ne frame_sel(2) [OF w(6)] by simp
  moreover have "\<forall>c \<in> X. size_of (fS ?g c) \<le> 160" using X(2) ne by simp
  moreover have "X \<subseteq> insert m1 (insert m0 H) - F - insert m1 (insert m0 G) - {t}" using X(1) ne by blast
  ultimately have "pend Z [] E n av' (T(a0 \<mapsto> m0, a1 \<mapsto> m1)) ?g (fS ?g) (insert m1 (insert m0 H)) F (insert m1 (insert m0 G)) X own t"
    using w(7) hk fo(2) mt frame_sel(2,3,6) [OF w(6)] by (simp add: pend_def)
  then show ?thesis using w(1,2,6) by blast
qed

end
