(* ===== verification/Malloc_Grow.thy ===== *)
theory Malloc_Grow
  imports Malloc_Fence
begin

text \<open>
  \<open>sysmalloc\<close> of the main arena: more memory for top, in place or elsewhere. The old top gets fence posts and
  is freed.
\<close>

section \<open>The old top\<close>

lemma align_mask: "unat (x AND NOT MALLOC_ALIGN_MASK) = unat x div 16 * 16" for x :: u64
proof -
  have "MALLOC_ALIGN_MASK = (mask 4 :: u64)" by (simp add: malloc_consts mask_eq_exp_minus_1)
  then show ?thesis using unat_and_not_mask [of x 4] by simp
qed

lemma fence_size:
  fixes x :: u64
  assumes "16 dvd unat x" and "32 \<le> unat x"
  shows "unat ((x - 4 * SIZE_SZ) AND NOT MALLOC_ALIGN_MASK) = unat x - 32"
proof -
  have s: "4 * SIZE_SZ = (32 :: u64)" by (simp add: SIZE_SZ_def)
  have u: "unat (x - 4 * SIZE_SZ) = unat x - 32" unfolding s using assms(2) by (simp add: unat_sub word_le_nat_alt)
  have "16 dvd unat x - 32" using assms by (simp add: dvd_diff_nat)
  then show ?thesis unfolding align_mask u by simp
qed

lemma put_fencepostsE:
  fixes av :: "'z proc_scheme"
  assumes run: "put_fenceposts S c p sz av = Some av'" and k: "k = (sz - 4 * SIZE_SZ) AND NOT MALLOC_ALIGN_MASK"
  obtains av1 e m0 av2 t m1 av3 av4 where
    "(if k = 0 then do { (_, av) \<leftarrow> unregister_chunk (cienv S) p (set_head c (k OR PREV_INUSE) av); Some av }
      else Some (set_head c (k OR PREV_INUSE) av)) = Some av1"
    "(if k = 0 then md_prev (ci (set_head c (k OR PREV_INUSE) av) c) else Some c) = Some e"
    "register_chunk (cienv S) (p + k) av1 = Some (m0, av2)"
    "register_chunk (cienv S) (p + (k + 2 * SIZE_SZ)) (set_head m0 fence_head (w_md_next (Some m0) e (w_md_prev (Some e) m0 (w_md_next None m0 av2)))) = Some (m1, av3)"
    "md_top av3 = Some t"
    "av4 = set_head m1 fence_head (w_md_prev (Some m1) t (w_md_next (Some m1) m0 (w_md_prev (Some m0) m1 (w_md_next (Some t) m1 av3))))"
    "(if k \<ge> MINSIZE then int_free S (Some c) p False av4 else Some av4) = Some av'"
proof -
  from run show thesis
    unfolding put_fenceposts_def Let_def k [symmetric] chunk_at_offset_def fence_head_def [symmetric]
    apply (elim bindE)
    apply simp
    subgoal premises h for y m0 av2 e m1 av3 t
      by (rule that [OF h(1,3,2,4,5) refl h(9) [unfolded h(5)]])
    done
qed

text \<open>The chunk without successor, which counts as a fence post, gets another size.\<close>

lemma resize_last_pend:
  fixes av :: "'z proc_scheme"
  assumes I: "pend Z L E n av T f (fS f) H F G X own t" and c: "c \<in> G" "fN f c = None" "pinuse (fS f c)"
    and v: "16 \<le> size_of v" "16 dvd size_of v" "pinuse v" "\<not> mmapped_bit v" "size_of v \<le> size_of (fS f c)"
  shows "pend Z L E n (set_head c v av) T (f\<lparr>fS := (fS f)(c := v)\<rparr>) ((fS f)(c := v)) H F G X own t"
proof -
  note P = pendD [OF I] and D = heap_okD [OF pendD(2) [OF I]]
  have cH: "c \<in> H" "c \<notin> F" "c \<notin> X" "c \<noteq> t" using c(1) P(6) D(3,5,12) by auto
  note r = pend_shown [OF I cH(1)] and cs = used_sizes(7) [OF I cH(1)]
  let ?g = "f\<lparr>fS := (fS f)(c := v)\<rparr>"
  have "heap_ok Z (fA f) ((fS f)(c := v)) (fP f) (fN f) (fV f) T H F G t"
  proof (rule resize_last_ok [OF P(2) cH(1,2) c(2,3) v(1-4)])
    show "start (fA f) c + size_of v < 2 ^ 64" using cs v(5) by simp
    show "G \<subseteq> G" "G \<subseteq> insert c G" "t \<notin> G" using D(3) by auto
    show "c \<notin> G \<Longrightarrow> 32 \<le> size_of v" using c(1) by simp
    show "region (fA f) ((fS f)(c := v)) c \<subseteq> Z" using pend_apart(2) [OF I r(1,1)] v(5) by (auto simp: region_def)
    fix x assume x: "x \<in> ran T" "x \<noteq> c"
    show "region (fA f) (fS f) x \<subseteq> Z" by (rule pend_apart(2) [OF I x(1) x(1)])
    show "apart (fA f) ((fS f)(c := v)) c x"
      using pend_apart(1) [OF I r(1) x(1) x(2) [symmetric]] x(2) v(1,5) by (auto simp: apart_def)
  qed
  then have hk: "heap_ok Z (fA ?g) (fS ?g) (fP ?g) (fN ?g) (fV ?g) T H F G t" by simp
  have "pend Z L E n (set_head c v av) T ?g (fS ?g) H F G X own t"
  proof (rule pend_rebuild [OF I view_writes(9) [OF P(1)] hk])
    show "X \<subseteq> H - F - G - {t}" by (fact P(6))
    fix x assume "x \<in> F \<union> headers (bins_base av) \<union> X"
    then have "x \<noteq> c" using cH r(3) by auto
    then show "fF ?g x = fF f x \<and> fB ?g x = fB f x \<and> fFN ?g x = fFN f x \<and> fBN ?g x = fBN f x \<and> fS ?g x = fS f x" by simp
  qed (simp_all add: P(7))
  then show ?thesis by simp
qed

lemma state_blocks:
  assumes "state Z L E n av U M B" and "\<And>d. d \<in> U \<union> M \<Longrightarrow> B' d = B d"
  shows "state Z L E n av U M B'"
proof -
  from assms(1) obtain T f H F G X own t where I: "pend Z L E n av T f (fS f) H F G X own t" "used H F G X t = U" "ran T - H = M"
    "\<forall>d \<in> U \<union> M. B d = blocks_of f d" by (rule stateE)
  show ?thesis by (rule stateI [OF I(1-3)]) (use I(4) assms(2) in simp)
qed

lemma register_chunk_top: "register_chunk E p av = Some (m, av') \<Longrightarrow> md_top av' = md_top av"
  unfolding register_chunk_def new_chunkinfoptr_def Let_def
  by (elim bindE bind_pair_SomeE bind_triple_SomeE) (auto split: if_splits elim!: bindE)

lemma unregister_chunk_top: "unregister_chunk E p av = Some (m, av') \<Longrightarrow> md_top av' = md_top av"
  unfolding unregister_chunk_def by (elim bindE bind_triple_SomeE) auto

text \<open>No chunk starts inside another.\<close>

lemma inside_none:
  assumes I: "pend Z L E n av T f S H F G X own t" and c: "c \<in> ran T" and x: "start (fA f) c < unat x" "unat x < start (fA f) c + size_of (S c)"
  shows "T x = None"
proof (rule ccontr)
  assume "T x \<noteq> None"
  then obtain d where d: "T x = Some d" by auto
  then have "fA f d = x" "d \<in> ran T" using heap_okD(8) [OF pendD(2) [OF I]] by (auto simp: table_fits_def intro: ranI)
  moreover have "d \<noteq> c" using \<open>fA f d = x\<close> x(1) by (auto simp: start_def)
  ultimately show False using pend_apart(1) [OF I c, of d] x by (auto simp: apart_def start_def)
qed

lemma ran_two: "T x = None \<Longrightarrow> T y = None \<Longrightarrow> x \<noteq> y \<Longrightarrow> ran (T(x \<mapsto> m, y \<mapsto> n)) = insert n (insert m (ran T))"
  by (simp add: ran_map_upd)

lemma put_fencepostsD:
  fixes av :: "'z proc_scheme"
  assumes run: "put_fenceposts S c (fA f c) (head_size (fS f c)) av = Some av'"
    and I: "pend (got (calls av)) [] (cienv S) (Suc (Suc n)) av T f (fS f) H F (insert c G) X own t"
    and c: "c \<in> H" "c \<notin> F" "c \<notin> G" "c \<notin> X" "c \<noteq> t" "32 \<le> size_of (fS f c)" "fN f c = None" "pinuse (fS f c)" and tp: "fV f t = None"
    and B: "used H F (insert c G) X t = U" "ran T - H = M" "\<forall>d \<in> U \<union> M. B d = blocks_of f d"
    and p: "par_ok (par av)" and k: "kernel_ok (kernel S) brk got" and mn: "is_main av"
  shows "state (got (calls av')) [] (cienv S) n av' U M B \<and> firm av av'"
proof -
  let ?E = "cienv S" and ?Z = "got (calls av)"
  note P = pendD [OF I] and D = heap_okD [OF pendD(2) [OF I]]
  note cH = c(1-5)
  note cr = pend_shown [OF I cH(1)] and cs = used_sizes [OF I cH(1)]
  have HT: "x \<in> ran T" if "x \<in> H" for x using D(6) that by blast
  define a where "a = fA f c"
  define k' where "k' = (head_size (fS f c) - 4 * SIZE_SZ) AND NOT MALLOC_ALIGN_MASK"
  have k': "unat k' + 32 = size_of (fS f c)" "16 dvd unat k'"
    using fence_size [of "head_size (fS f c)"] cs(2) c(6) by (simp_all add: k'_def dvd_diff_nat)
  note kz = aligned_size [OF k'(2)]
  have kh: "size_of (k' OR PREV_INUSE) = unat k'" "\<not> mmapped_bit (k' OR PREV_INUSE)" using kz by simp_all
  have a0: "unat (a + k') = unat a + unat k'" "unat (a + (k' + 2 * SIZE_SZ)) = unat a + unat k' + 16"
    using cs(7) k'(1) by (simp_all add: start_def a_def SIZE_SZ_def unat_word_ariths)
  have aa: "64 \<le> unat a" "16 dvd unat a" "unat a + unat k' + 32 < 2 ^ 64" using cs(5-7) k'(1) by (simp_all add: start_def a_def)
  have z: "{unat (a + k') ..< unat (a + k') + 32} \<subseteq> ?Z"
    using pend_apart(2) [OF I cr(1,1)] a0(1) k'(1) by (auto simp: region_def start_def a_def)
  from run obtain av1 e m0 av2 t' m1 av3 av4 where
    r1: "(if k' = 0 then do { (_, av) \<leftarrow> unregister_chunk ?E a (set_head c (k' OR PREV_INUSE) av); Some av }
      else Some (set_head c (k' OR PREV_INUSE) av)) = Some av1"
    and r2: "(if k' = 0 then md_prev (ci (set_head c (k' OR PREV_INUSE) av) c) else Some c) = Some e"
    and r3: "register_chunk ?E (a + k') av1 = Some (m0, av2)"
    and r4: "register_chunk ?E (a + (k' + 2 * SIZE_SZ)) (set_head m0 fence_head (w_md_next (Some m0) e (w_md_prev (Some e) m0 (w_md_next None m0 av2)))) = Some (m1, av3)"
    and r5: "md_top av3 = Some t'"
    and r6: "av4 = set_head m1 fence_head (w_md_prev (Some m1) t' (w_md_next (Some m1) m0 (w_md_prev (Some m0) m1 (w_md_next (Some t') m1 av3))))"
    and r7: "(if k' \<ge> MINSIZE then int_free S (Some c) a False av4 else Some av4) = Some av'"
    unfolding a_def by (rule put_fencepostsE [OF _ k'_def])
  have tt: "t' = t"
    using r5 register_chunk_top [OF r4] register_chunk_top [OF r3] r1 P(7)
    by (auto simp: bind_eq_Some_conv dest: unregister_chunk_top split: if_splits)
  have Ta1: "T (a + (k' + 2 * SIZE_SZ)) = None"
    by (rule inside_none [OF I cr(1)]) (use a0(2) k'(1) in \<open>simp_all add: start_def a_def\<close>)
  let ?av1 = "set_head c (k' OR PREV_INUSE) av"
  show ?thesis
  proof (cases "k' = 0")
    case True
    then obtain x where u: "unregister_chunk ?E a ?av1 = Some (x, av1)" using r1 by (auto simp: bind_eq_Some_conv)
    let ?f = "f\<lparr>fS := (fS f)(c := k' OR PREV_INUSE)\<rparr>" and ?T = "T(a := None)"
    note v0 = view_writes(9) [OF P(1), of c "k' OR PREV_INUSE"]
    have s0: "shown ?av1 T c" using cr(1) by (simp add: shown_def)
    note v1 = unregister_view [OF u v0 cr(4) [folded a_def]]
    have e: "fV f c = Some e" using r2 True view_sel(9) [OF v0 s0] by simp
    note d = drop_last_ok [OF P(2) cH(1,2) cH(5) c(7,8) e]
    have key: "fA f x = k" if "T k = Some x" for k x using D(8) that by (auto simp: table_fits_def)
    have rT: "ran ?T = ran T - {c}" unfolding a_def
    proof (rule ran_delete)
      show "T (fA f c) = Some c" by (fact cr(4))
      show "k = fA f c" if "T k = Some c" for k using key [OF that] by simp
    qed
    have Gc: "insert c G - {c} = G" using cH(3) by simp
    have hk: "heap_ok ?Z (fA ?f) (fS ?f) (fP ?f) ((fN ?f)(e := None)) (fV ?f) ?T (H - {c}) F (insert e G) t"
      by (rule heap_cong [OF d(1) [folded a_def, unfolded Gc]]) (use rT in auto)
    have av1: "frame ?av1 av1" by (fact v1(2))
    note fr = frame_sel(2,3,6) [OF av1, unfolded set_head_sel]
    have cF: "x \<noteq> c" if "x \<in> F \<union> headers (bins_base av) \<union> X" for x using that cH cr(3) by auto
    have "\<exists>m0 m1. m0 \<notin> ran ?T \<and> m1 \<notin> ran ?T \<and>
        pend ?Z [] ?E n av4 (?T(a + k' \<mapsto> m0, a + (k' + 2 * SIZE_SZ) \<mapsto> m1)) (fenced e t m0 m1 (a + k') (a + (k' + 2 * SIZE_SZ)) ?f)
          (fS (fenced e t m0 m1 (a + k') (a + (k' + 2 * SIZE_SZ)) ?f)) (insert m1 (insert m0 (H - {c}))) F (insert m1 (insert m0 G)) X own t \<and> frame av1 av4"
    proof (rule fence_pendD [OF v1(1) hk _ _ _ _ _ _ _ _ _ _ r3 r4 r6 [unfolded tt]])
      show "rings_ok ?f own F (bins_base av1)" unfolding fr by (rule bins_cong [OF P(3)]) (use cF in auto)
      show "fast_ok (fF ?f) X (fastbinsY av1)" "length (fastbinsY av1) = NFASTBINS" "md_top av1 = Some t" using P(4,5,7) fr by simp_all
      show "X \<subseteq> H - {c} - F - G - {t}" using P(6) cH(4) by blast
      show "size_of (fS ?f x) \<le> 160" if "x \<in> X" for x using P(8) [OF that] cF that by auto
      show "e \<in> H - {c}" "e \<notin> F" "e \<noteq> t" using d(2-5) by auto
      show "fV ?f t = None" using tp by simp
      show "unat (a + (k' + 2 * SIZE_SZ)) = unat (a + k') + 16" "64 \<le> unat (a + k')" "16 dvd unat (a + k')" "unat (a + k') + 32 < 2 ^ 64"
        using a0 aa k'(2) by simp_all
      show "{unat (a + k') ..< unat (a + k') + 32} \<subseteq> ?Z" by (fact z)
      show "unat (a + k') = start (fA ?f) e + size_of (fS ?f e) \<and> 32 \<le> size_of (fS ?f e)" if "e \<notin> G"
        using d(6) d(4) True that used_sizes(4) [OF I d(2)] by (simp add: start_def a_def)
      fix x assume x: "x \<in> ran ?T"
      then have x: "x \<in> ran T" "x \<noteq> c" using rT by auto
      show "start (fA ?f) x + max 1 (size_of (fS ?f x)) \<le> unat (a + k') \<or> unat (a + k') + 32 \<le> start (fA ?f) x"
        using pend_apart(1) [OF I x(1) cr(1) x(2)] x(2) True k'(1) by (auto simp: apart_def start_def a_def)
    next
      show "?T (a + k') = None" using True by simp
      show "?T (a + (k' + 2 * SIZE_SZ)) = None" using Ta1 by simp
    qed
    then obtain m0 m1 where m: "m0 \<notin> ran ?T" "m1 \<notin> ran ?T" "frame av1 av4"
      and Q: "pend ?Z [] ?E n av4 (?T(a + k' \<mapsto> m0, a + (k' + 2 * SIZE_SZ) \<mapsto> m1)) (fenced e t m0 m1 (a + k') (a + (k' + 2 * SIZE_SZ)) ?f)
          (fS (fenced e t m0 m1 (a + k') (a + (k' + 2 * SIZE_SZ)) ?f)) (insert m1 (insert m0 (H - {c}))) F (insert m1 (insert m0 G)) X own t"
      by blast
    have "av' = av4" using r7 True by (simp add: MINSIZE_eq)
    note fr4 = frame_trans [OF v1(2) m(3)]
    have "state ?Z [] ?E n av4 U M B"
    proof (rule stateI [OF Q])
      have nH: "m0 \<notin> H - {c}" "m1 \<notin> H - {c}" using m(1,2) rT HT by blast+
      show "used (insert m1 (insert m0 (H - {c}))) F (insert m1 (insert m0 G)) X t = U"
        using B(1) nH by (auto simp: used_def)
      show "ran (?T(a + k' \<mapsto> m0, a + (k' + 2 * SIZE_SZ) \<mapsto> m1)) - insert m1 (insert m0 (H - {c})) = M"
      proof -
        have ne: "a + k' \<noteq> a + (k' + 2 * SIZE_SZ)" using a0 by auto
        have "ran (?T(a + k' \<mapsto> m0, a + (k' + 2 * SIZE_SZ) \<mapsto> m1)) = insert m1 (insert m0 (ran T - {c}))"
          unfolding rT [symmetric] by (rule ran_two) (use True Ta1 ne in auto)
        then show ?thesis using B(2) m(1,2) cH(1) unfolding rT by blast
      qed
      fix d assume d: "d \<in> U \<union> M"
      then have "d \<in> ran T" "d \<noteq> c" using B(1,2) HT cH(1) by (auto simp: used_def)
      then have "d \<noteq> m0" "d \<noteq> m1" "d \<noteq> c" using m(1,2) rT by auto
      then show "B d = blocks_of (fenced e t m0 m1 (a + k') (a + (k' + 2 * SIZE_SZ)) ?f) d" using B(3) d by (simp add: blocks_of_def)
    qed
    then show ?thesis using frame_keeps [OF fr4] \<open>av' = av4\<close> by (simp add: keeps_def firm_def)
  next
    case False
    then have "unat k' \<noteq> 0" by (simp add: unat_eq_0)
    then have k16: "16 \<le> unat k'" using k'(2) by (auto elim!: dvdE)
    define G' where "G' = (if 32 \<le> unat k' then G else insert c G)"
    let ?h = "k' OR PREV_INUSE"
    let ?f = "f\<lparr>fS := (fS f)(c := ?h)\<rparr>"
    have av1: "av1 = ?av1" and e: "e = c" using r1 r2 False by simp_all
    have J: "pend ?Z [] ?E (Suc (Suc n)) av1 T ?f (fS ?f) H F (insert c G') X own t"
    proof -
      have "pend ?Z [] ?E (Suc (Suc n)) ?av1 T ?f ((fS f)(c := ?h)) H F (insert c G) X own t"
        by (rule resize_last_pend [OF I _ c(7,8)]) (use kh k16 k' in auto)
      moreover have "insert c G' = insert c G" by (auto simp: G'_def)
      ultimately show ?thesis using av1 by simp
    qed
    note Q = pendD [OF J]
    have N: "(fN ?f)(e := None) = fN ?f" using c(7) e by auto
    let ?g = "\<lambda>m0 m1. fenced c t m0 m1 (a + k') (a + (k' + 2 * SIZE_SZ)) ?f"
    let ?T = "\<lambda>m0 m1. T(a + k' \<mapsto> m0, a + (k' + 2 * SIZE_SZ) \<mapsto> m1)"
    have Ta0: "T (a + k') = None"
      by (rule inside_none [OF I cr(1)]) (use a0(1) k'(1) k16 in \<open>simp_all add: start_def a_def\<close>)
    have "\<exists>m0 m1. m0 \<notin> ran T \<and> m1 \<notin> ran T \<and>
        pend ?Z [] ?E n av4 (?T m0 m1) (?g m0 m1) (fS (?g m0 m1)) (insert m1 (insert m0 H)) F (insert m1 (insert m0 G')) X own t \<and> frame av1 av4"
    proof (rule fence_pendD [OF Q(1) _ Q(3) _ Q(5) _ Q(8,7) _ _ _ _ r3 [unfolded e] r4 [unfolded e] r6 [unfolded tt e]])
      show "X \<subseteq> H - F - G' - {t}" using Q(6) by blast
      show "heap_ok ?Z (fA ?f) (fS ?f) (fP ?f) ((fN ?f)(c := None)) (fV ?f) T H F (insert c G') t" using Q(2) N e by simp
      show "fast_ok (fF ?f) X (fastbinsY av1)" using Q(4) by simp
      show "c \<in> H" "c \<notin> F" "c \<noteq> t" by (fact cH)+
      show "fV ?f t = None" using tp by simp
      show "T (a + k') = None" "T (a + (k' + 2 * SIZE_SZ)) = None" by (fact Ta0 Ta1)+
      show "unat (a + (k' + 2 * SIZE_SZ)) = unat (a + k') + 16" "64 \<le> unat (a + k')" "16 dvd unat (a + k')" "unat (a + k') + 32 < 2 ^ 64"
        using a0 aa k'(2) by simp_all
      show "{unat (a + k') ..< unat (a + k') + 32} \<subseteq> ?Z" by (fact z)
      show "unat (a + k') = start (fA ?f) c + size_of (fS ?f c) \<and> 32 \<le> size_of (fS ?f c)" if "c \<notin> G'"
        using a0(1) kh(1) that by (simp add: start_def a_def G'_def split: if_splits)
      fix x assume x: "x \<in> ran T"
      show "start (fA ?f) x + max 1 (size_of (fS ?f x)) \<le> unat (a + k') \<or> unat (a + k') + 32 \<le> start (fA ?f) x"
      proof (cases "x = c")
        case True
        then show ?thesis using a0(1) kh(1) k16 by (simp add: start_def a_def)
      next
        case False
        then show ?thesis using pend_apart(1) [OF I x cr(1) False] k'(1) a0(1) by (auto simp: apart_def start_def a_def)
      qed
    qed
    then obtain m0 m1 where m: "m0 \<notin> ran T" "m1 \<notin> ran T" "frame av1 av4"
      and R: "pend ?Z [] ?E n av4 (?T m0 m1) (?g m0 m1) (fS (?g m0 m1)) (insert m1 (insert m0 H)) F (insert m1 (insert m0 G')) X own t" by blast
    have fr4: "frame av av4" using frame_trans [OF _ m(3), of av] av1 by (simp add: set_head_def)
    note fp = frame_proc [OF fr4] frame_sel(11) [OF fr4]
    have nH: "m0 \<notin> H" "m1 \<notin> H" using m(1,2) HT by blast+
    have U: "used (insert m1 (insert m0 H)) F (insert m1 (insert m0 G')) X t = (if 32 \<le> unat k' then insert c U else U)"
      unfolding B(1) [symmetric] using cH nH by (auto simp: used_def G'_def)
    have M: "ran (?T m0 m1) - insert m1 (insert m0 H) = M"
    proof -
      have ne: "a + k' \<noteq> a + (k' + 2 * SIZE_SZ)" using a0 by auto
      have "ran (?T m0 m1) = insert m1 (insert m0 (ran T))" by (rule ran_two [OF Ta0 Ta1 ne])
      then show ?thesis using B(2) m(1,2) by blast
    qed
    define B' where "B' = B(c := blocks_of (?g m0 m1) c)"
    have cUM: "c \<notin> U \<union> M" using B(1,2) cH(1) by (auto simp: used_def)
    have BB: "B' d = blocks_of (?g m0 m1) d" if "d \<in> insert c U \<union> M" for d
    proof (cases "d = c")
      case True
      then show ?thesis by (simp add: B'_def)
    next
      case False
      then have d: "d \<in> U \<union> M" using that by auto
      then have "d \<in> ran T" using B(1,2) HT by (auto simp: used_def)
      then have "d \<noteq> m0" "d \<noteq> m1" using m(1,2) by auto
      then show ?thesis using B(3) d False by (simp add: blocks_of_def B'_def)
    qed
    have st: "state (got (calls av4)) [] ?E n av4 (if 32 \<le> unat k' then insert c U else U) M B'"
      by (rule stateI [OF R [folded fp(3)] U M]) (use BB in \<open>auto split: if_splits\<close>)
    have "state (got (calls av')) [] ?E n av' U M B' \<and> firm av4 av'"
    proof (cases "32 \<le> unat k'")
      case True
      then have fr: "int_free S (Some c) a False av4 = Some av'" using r7 by (simp add: MINSIZE_eq word_le_nat_alt)
      have "fst (B' c) = a" using m cr(1) by (auto simp: B'_def blocks_of_def a_def)
      then have "state (got (calls av')) [] ?E n av' (insert c U - {c}) M B' \<and> firm av4 av'"
        by (intro int_freeD [OF fr _ _ _ _ _ k]) (use st True p mn fp in simp_all)
      moreover have "insert c U - {c} = U" using cUM by auto
      ultimately show ?thesis by simp
    next
      case False
      then show ?thesis using st r7 by (simp add: MINSIZE_eq word_le_nat_alt firm_def)
    qed
    moreover have "B d = B' d" if "d \<in> U \<union> M" for d using cUM that by (auto simp: B'_def)
    ultimately show ?thesis using state_blocks [of _ _ _ _ _ U M B' B] firm_trans [OF keeps_firm [OF frame_keeps [OF fr4]]] by blast
  qed
qed

end
