(* ===== verification/Malloc_More.thy ===== *)
theory Malloc_More
  imports Malloc_Grow
begin

text \<open>
  New memory for the main arena, from the break or from \<open>mmap\<close>: it is aligned, lies apart from what the
  program has got before, and what is asked for to end on a page follows it.
\<close>

section \<open>Multiples of 16\<close>

lemma word_16_plus: "16 dvd unat x \<Longrightarrow> 16 dvd unat y \<Longrightarrow> 16 dvd unat (x + y)" for x y :: u64
  by (simp add: unat_word_ariths dvd_mod_iff)

lemma word_16_neg: "16 dvd unat x \<Longrightarrow> 16 dvd unat (- x)" for x :: u64
  using unat_neg [of x] by (cases "x = 0") (simp_all add: dvd_diff_nat)

lemma word_16_minus: "16 dvd unat x \<Longrightarrow> 16 dvd unat y \<Longrightarrow> 16 dvd unat (x - y)" for x y :: u64
  using word_16_plus [of x "- y"] word_16_neg [of y] by simp

section \<open>The memory asked for\<close>

definition area :: "(syscall list \<Rightarrow> nat set) \<Rightarrow> syscall list \<Rightarrow> syscall list \<Rightarrow> nat \<Rightarrow> nat \<Rightarrow> bool" where
  "area got cs ds a s \<longleftrightarrow> got ds = got cs \<union> {a ..< a + s} \<and> got cs \<inter> {a ..< a + s} = {} \<and> 64 \<le> a \<and> a + s < 2 ^ 64"

lemma area_grants: "grants got cs c a s \<Longrightarrow> area got cs (cs @ [c]) (unat a) (unat s)"
  by (simp add: area_def grants_def)

lemma area_extend:
  assumes "area got cs ds a s" and "area got ds es (a + s) r"
  shows "area got cs es a (s + r)"
proof -
  have "{a ..< a + (s + r)} = {a ..< a + s} \<union> {a + s ..< a + s + r}" by auto
  then show ?thesis using assms unfolding area_def by (auto simp: add.assoc)
qed

lemma area_same: "area got cs ds a s \<Longrightarrow> got es = got ds \<Longrightarrow> area got cs es a s"
  by (simp add: area_def)

lemma MORECORE_run: "MORECORE S i av = (x, av') \<longleftrightarrow>
    x = (case kernel S (calls av @ [Sbrk i]) of None \<Rightarrow> 0 | Some a \<Rightarrow> a) \<and> av' = av\<lparr>calls := calls av @ [Sbrk i]\<rparr>"
  by (auto simp: MORECORE_def Let_def)

lemma MORECORE_D:
  assumes run: "MORECORE S i av = (x, av')" and k: "kernel_ok (kernel S) brk got" and i: "0 \<le> sint i"
  shows "av' = av\<lparr>calls := calls av @ [Sbrk i]\<rparr>"
    "x = 0 \<Longrightarrow> got (calls av @ [Sbrk i]) = got (calls av) \<and> brk (calls av @ [Sbrk i]) = brk (calls av)"
    "x \<noteq> 0 \<Longrightarrow> x = brk (calls av) \<and> brk (calls av @ [Sbrk i]) = x + i \<and> area got (calls av) (calls av @ [Sbrk i]) (unat x) (unat i)"
proof -
  note r = run [unfolded MORECORE_run] and ks = kernel_sbrk [OF k]
  show "av' = av\<lparr>calls := calls av @ [Sbrk i]\<rparr>" using r by simp
  have n: "got (calls av @ [Sbrk i]) = got (calls av) \<and> brk (calls av @ [Sbrk i]) = brk (calls av)" if "kernel S (calls av @ [Sbrk i]) = None"
  proof -
    have "kernel S (calls av @ [Sbrk i]) = None \<and> brk (calls av @ [Sbrk i]) = brk (calls av) \<or>
        kernel S (calls av @ [Sbrk i]) = Some (brk (calls av))" using k unfolding kernel_ok_def by blast
    then show ?thesis using ks(5) that by auto
  qed
  have s: "a = brk (calls av) \<and> brk (calls av @ [Sbrk i]) = a + i \<and> area got (calls av) (calls av @ [Sbrk i]) (unat a) (unat i)"
    if "kernel S (calls av @ [Sbrk i]) = Some a" for a
    using ks(6) [OF that] i area_grants by auto
  then have "kernel S (calls av @ [Sbrk i]) = Some a \<Longrightarrow> a \<noteq> 0" for a by (fastforce simp: area_def)
  then show "x = 0 \<Longrightarrow> got (calls av @ [Sbrk i]) = got (calls av) \<and> brk (calls av @ [Sbrk i]) = brk (calls av)"
    using r n by (auto split: option.splits)
  show "x \<noteq> 0 \<Longrightarrow> x = brk (calls av) \<and> brk (calls av @ [Sbrk i]) = x + i \<and> area got (calls av) (calls av @ [Sbrk i]) (unat x) (unat i)"
    using r s by (auto split: option.splits)
qed

lemma not_contiguous [simp]: "\<not> contiguous (set_noncontiguous av)"
proof -
  have "(x OR y) AND y = y" for x y :: u32 by (rule bit_eqI) (auto simp: bit_simps)
  then show ?thesis by (simp add: contiguous_def set_noncontiguous_def NONCONTIGUOUS_BIT_def)
qed

text \<open>What \<open>more_core\<close> brings: nothing, an area at the break, or a mapped area.\<close>

definition brought where
  "brought got brk cs b s m z ds av \<longleftrightarrow> (sbrks_ok cs \<longrightarrow> sbrks_ok ds) \<and> 16 dvd unat z \<and>
     (b = 0 \<and> got ds = got cs \<or>
      b \<noteq> 0 \<and> area got cs ds (unat b) (unat z) \<and> 4096 \<le> unat z \<and>
      (m = 0 \<and> s = 0 \<and> b = brk cs \<and> brk ds = b + z \<or> m = b \<and> s = b + z \<and> s \<noteq> 0 \<and> \<not> contiguous av))"

lemma ALIGN_UP_dvd:
  assumes "4 \<le> k" and "k < 64"
  shows "2 ^ k dvd unat (ALIGN_UP x (2 ^ k))"
  unfolding ALIGN_UP_def by (simp add: ALIGN_DOWN_page(1) [OF assms])

lemma more_coreD:
  fixes av :: "'z proc_scheme"
  assumes run: "more_core S nb old av = (b, s, m, z, av')" and k: "kernel_ok (kernel S) brk got" and p: "par_ok (par av)"
  shows "\<exists>cs fl. av' = av\<lparr>calls := cs, flags := fl\<rparr> \<and> brought got brk (calls av) b s m z cs av'"
proof -
  obtain j where j: "12 \<le> j" "4 \<le> j" "j < 64" "dl_pagesize (par av) = 2 ^ j" by (rule par_page [OF p])
  have pg: "(2 :: nat) ^ 12 \<le> 2 ^ j" using j(1) by (rule power_increasing) simp
  define z0 where "z0 = ALIGN_UP (if contiguous av then nb + top_pad (par av) + MINSIZE - old else nb + top_pad (par av) + MINSIZE) (2 ^ j)"
  note d0 = ALIGN_UP_page [OF j(2,3)] ALIGN_UP_dvd [OF j(2,3)]
  obtain b1 av1 where c1: "(if sint z0 > 0 then MORECORE S z0 av else (0, av)) = (b1, av1)" by fastforce
  define z1 where "z1 = (if contiguous av1 then ALIGN_UP (z0 + old) (2 ^ j) else z0)"
  define z2 where "z2 = (if z1 < MMAP_AS_MORECORE_SIZE then MMAP_AS_MORECORE_SIZE else z1)"
  have fl: "av1 = av\<lparr>calls := calls av1, flags := flags av1\<rparr>"
    using c1 by (auto simp: MORECORE_run split: if_splits)
  have sb: "sbrks_ok (calls av) \<longrightarrow> sbrks_ok (calls av1)"
    using c1 d0(1) by (auto simp: MORECORE_run z0_def split: if_splits)
  have z0d: "16 dvd unat z0" unfolding z0_def by (rule d0(1))
  have res: "(if b1 \<noteq> 0 then (b1, 0, 0, z0, av1)
     else if z2 > nb then
         (case sys_MMAP S z2 av1 of
            (None, av) \<Rightarrow> (0, 0, - 1, z2, av)
          | (Some mbrk, av) \<Rightarrow> (mbrk, mbrk + z2, mbrk, z2, set_noncontiguous av))
       else (0, 0, 0, z2, av1)) = (b, s, m, z, av')"
    using run unfolding more_core_def Let_def j(4) z0_def [symmetric] c1 prod.case z1_def [symmetric] z2_def [symmetric] .
  show ?thesis
  proof (cases "b1 = 0")
    case False
    then have z0p: "sint z0 > 0" "MORECORE S z0 av = (b1, av1)" using c1 by (auto split: if_splits)
    have r: "b = b1" "s = 0" "m = 0" "z = z0" "av' = av1" using res False by simp_all
    note M = MORECORE_D [OF z0p(2) k less_imp_le [OF z0p(1)]]
    have "2 ^ j dvd unat z0" "unat z0 \<noteq> 0" using d0(2) z0p(1) by (auto simp: z0_def unat_eq_0)
    then have "2 ^ j \<le> unat z0" by (simp add: dvd_imp_le)
    then have "4096 \<le> unat z0" using pg by simp
    then have "brought got brk (calls av) b s m z (calls av1) av'"
      using M(1) sb z0d False conjunct1 [OF M(3) [OF False]] conjunct1 [OF conjunct2 [OF M(3) [OF False]]]
        conjunct2 [OF conjunct2 [OF M(3) [OF False]]] by (simp add: brought_def r)
    then show ?thesis using fl r(5) by metis
  next
    case True
    have g1: "got (calls av1) = got (calls av)"
      using c1 True MORECORE_D(1,2) [OF _ k, of z0 av b1 av1] by (auto split: if_splits)
    have z2d: "16 dvd unat z2" using z0d d0(1) by (simp add: z2_def z1_def MMAP_AS_MORECORE_SIZE_def)
    have z2b: "4096 \<le> unat z2" by (simp add: z2_def MMAP_AS_MORECORE_SIZE_def word_less_nat_alt)
    note km = kernel_mmap [OF k, of "calls av1" z2]
    show ?thesis
    proof (cases "z2 > nb")
      case False
      then have r: "b = 0" "z = z2" "av' = av1" using res True by simp_all
      have "brought got brk (calls av) b s m z (calls av1) av'" using sb g1 z2d by (simp add: brought_def r)
      then show ?thesis using fl r(3) by metis
    next
      case big: True
      show ?thesis
      proof (cases "kernel S (calls av1 @ [Mmap z2])")
        case None
        then have r: "b = 0" "z = z2" "av' = av1\<lparr>calls := calls av1 @ [Mmap z2]\<rparr>"
          using res True big by (auto simp: sys_MMAP_def Let_def)
        have "brought got brk (calls av) b s m z (calls av1 @ [Mmap z2]) av'" using sb km(1) [OF None] g1 z2d by (simp add: brought_def r)
        moreover have "av' = av\<lparr>calls := calls av1 @ [Mmap z2], flags := flags av1\<rparr>" by (subst r(3), subst fl) simp
        ultimately show ?thesis by blast
      next
        case (Some a)
        then have r: "b = a" "s = a + z2" "m = a" "z = z2" "av' = set_noncontiguous (av1\<lparr>calls := calls av1 @ [Mmap z2]\<rparr>)"
          using res True big by (auto simp: sys_MMAP_def Let_def)
        have ar: "area got (calls av) (calls av1 @ [Mmap z2]) (unat a) (unat z2)"
          using area_grants [OF km(2) [OF Some]] g1 by (simp add: area_def)
        then have "unat (a + z2) = unat a + unat z2" "a \<noteq> 0" by (auto simp: area_def unat_word_ariths)
        then have "a + z2 \<noteq> 0" using z2b by (auto simp flip: unat_eq_0)
        then have "brought got brk (calls av) b s m z (calls av1 @ [Mmap z2]) av'"
          using sb ar z2d z2b \<open>a \<noteq> 0\<close> not_contiguous by (simp add: brought_def r)
        moreover have "av' = av\<lparr>calls := calls av1 @ [Mmap z2], flags := flags av'\<rparr>"
          by (subst r(5), subst fl) (simp add: r(5) set_noncontiguous_def)
        ultimately show ?thesis by blast
      qed
    qed
  qed
qed

lemma align_mask_zero: "x AND MALLOC_ALIGN_MASK = 0 \<longleftrightarrow> 16 dvd unat x" for x :: u64
proof -
  have m: "MALLOC_ALIGN_MASK = (mask 4 :: u64)" by (simp add: malloc_consts mask_eq_exp_minus_1)
  have "unat (x AND mask 4) = unat x mod 16"
  proof -
    have "unat (x AND mask 4) = unat (take_bit 4 x)" by (simp only: take_bit_eq_mask)
    also have "\<dots> = take_bit 4 (unat x)" by (rule unsigned_take_bit_eq)
    also have "\<dots> = unat x mod 16" by (simp add: take_bit_eq_mod)
    finally show ?thesis .
  qed
  then show ?thesis unfolding m by (auto simp flip: unat_eq_0 simp: dvd_eq_mod_eq_0)
qed

text \<open>The new top reaches from the start of the memory to its end, with what \<open>align_core\<close> has added.\<close>

lemma align_coreD:
  fixes av :: "'z proc_scheme"
  assumes run: "align_core S b s z old old_end av = Some (ab, cor, s', av')" and k: "kernel_ok (kernel S) brk got" and p: "par_ok (par av)"
    and br: "brought got brk c0 b s m z (calls av) av" "b \<noteq> 0" and sb: "sbrks_ok c0" and old: "16 dvd unat old"
  shows "ab = b \<and> s' \<noteq> 0 \<and> 16 dvd unat b \<and> (\<exists>cs sm. av' = av\<lparr>calls := cs, system_mem := sm\<rparr> \<and> sbrks_ok cs \<and> area got c0 cs (unat b) (unat (s' - ab + cor)) \<and>
    4096 \<le> unat (s' - ab + cor) \<and> 16 dvd unat (s' - ab + cor))"
proof -
  obtain j where j: "4 \<le> j" "j < 64" "dl_pagesize (par av) = 2 ^ j" by (rule par_page [OF p])
  have al: "MALLOC_ALIGNMENT = 2 * SIZE_SZ" by (simp add: malloc_consts)
  have B: "area got c0 (calls av) (unat b) (unat z)" "4096 \<le> unat z" "16 dvd unat z" "sbrks_ok (calls av)"
    using br sb by (simp_all add: brought_def)
  have c: "s = 0 \<and> b = brk c0 \<and> brk (calls av) = b + z \<or> s = b + z \<and> s \<noteq> 0 \<and> \<not> contiguous av"
    using br by (auto simp: brought_def)
  have bz: "unat (b + z) = unat b + unat z" using B(1) by (simp add: area_def unat_word_ariths)
  then have bz0: "b + z \<noteq> 0" using B(2) by (auto simp flip: unat_eq_0)
  have zero: "MORECORE S 0 v = (brk (calls v), v\<lparr>calls := calls v @ [Sbrk 0]\<rparr>)" for v :: "'z proc_scheme"
    using kernel_sbrk(1) [OF k, of "calls v"] by (simp add: MORECORE_def Let_def)
  note g0 = kernel_sbrk(2,3) [OF k]
  show ?thesis
  proof (cases "contiguous av")
    case True
    then have c: "s = 0" "b = brk c0" "brk (calls av) = b + z" using c by auto
    have "16 dvd unat (brk c0)" using k sb by (simp add: kernel_ok_def)
    then have b16: "16 dvd unat b" using c(2) by simp
    then have fm: "chunk2mem b AND MALLOC_ALIGN_MASK = 0" by (simp add: chunk2mem_def HEADER_SIZE_def align_mask_zero)
    define sm where "sm = (if old \<noteq> 0 then system_mem av + (b - old_end) else system_mem av)"
    define av0 where "av0 = av\<lparr>system_mem := sm\<rparr>"
    have av0: "(if old \<noteq> 0 then av\<lparr>system_mem := system_mem av + (b - old_end)\<rparr> else av) = av0" by (simp add: av0_def sm_def)
    define e where "e = b + z + (0 + old)"
    define r where "r = 0 + old + (ALIGN_UP e (2 ^ j) - e)"
    have e16: "16 dvd unat e" unfolding e_def using b16 B(3) old by (simp add: word_16_plus)
    have r16: "16 dvd unat r" unfolding r_def using old ALIGN_UP_page [OF j(1,2), of e] e16 by (simp add: word_16_plus word_16_minus)
    obtain x av2 where mc: "MORECORE S r av0 = (x, av2)" by fastforce
    have ct: "contiguous av \<longleftrightarrow> True" and lt: "(0 :: u64) < 0 \<longleftrightarrow> False" using True by simp_all
    have pav0: "par av0 = par av" by (simp add: av0_def)
    have res: "assert_c (sint r \<ge> 0) \<bind> (\<lambda>_. if x = 0 then Some (b + 0, 0, brk (calls av2), av2\<lparr>calls := calls av2 @ [Sbrk 0]\<rparr>)
        else Some (b + 0, r, x, av2)) = Some (ab, cor, s', av')"
      using run unfolding align_core_def Let_def ct if_True av0 fm lt if_False pav0 j(3) e_def [symmetric] r_def [symmetric] mc
        prod.case zero .
    then have rp: "0 \<le> sint r" by (simp add: bind_assert_eq_Some_iff)
    have ca: "calls av0 = calls av" by (simp add: av0_def)
    note M = MORECORE_D [OF mc k rp, unfolded ca]
    show ?thesis
    proof (cases "x = 0")
      case True
      let ?cs = "(calls av @ [Sbrk r]) @ [Sbrk 0]"
      have r: "ab = b" "cor = 0" "s' = b + z" "av' = av\<lparr>calls := ?cs, system_mem := sm\<rparr>"
        using res True rp M(1) M(2) [OF True] c(3) by (auto simp: bind_assert_eq_Some_iff av0_def)
      have "area got c0 ?cs (unat b) (unat z)"
        by (rule area_same [OF B(1)]) (use M(2) [OF True] g0(2) [of "calls av @ [Sbrk r]"] in simp)
      then show ?thesis using r B r16 b16 bz0 by (intro conjI exI [of _ ?cs] exI [of _ sm]) simp_all
    next
      case False
      let ?cs = "calls av @ [Sbrk r]"
      have r: "ab = b" "cor = r" "s' = b + z" "av' = av\<lparr>calls := ?cs, system_mem := sm\<rparr>"
        using res False rp M(1) M(3) [OF False] c(3) by (auto simp: bind_assert_eq_Some_iff av0_def)
      have "area got (calls av) ?cs (unat b + unat z) (unat r)" using M(3) [OF False] c(3) bz by auto
      note ar = area_extend [OF B(1) this]
      then have u: "unat (z + r) = unat z + unat r" by (simp add: area_def unat_word_ariths)
      have "area got c0 ?cs (unat b) (unat (s' - ab + cor))" "4096 \<le> unat (s' - ab + cor)" "16 dvd unat (s' - ab + cor)"
        using ar u B(2,3) r16 r by (simp_all add: word_16_plus)
      then show ?thesis using r B(4) r16 b16 bz0 by (intro conjI exI [of _ ?cs] exI [of _ sm]) simp_all
    qed
  next
    case False
    then have fm: "chunk2mem b AND MALLOC_ALIGN_MASK = 0" and
      res: "Some (b, 0, if s = 0 then MORECORE S 0 av else (s, av)) = Some (ab, cor, s', av')"
      using run al by (auto simp: align_core_def Let_def bind_assert_eq_Some_iff split: prod.splits)
    have s: "s' = b + z" "ab = b" "cor = 0" using res c by (auto simp: zero split: if_splits)
    define cs where "cs = (if s = 0 then calls av @ [Sbrk 0] else calls av)"
    have "av' = av\<lparr>calls := cs, system_mem := system_mem av\<rparr>" using res by (auto simp: zero cs_def split: if_splits)
    moreover have "area got c0 cs (unat b) (unat z)" by (rule area_same [OF B(1)]) (simp add: cs_def g0)
    moreover have "sbrks_ok cs" using B(4) by (simp add: cs_def)
    moreover have "16 dvd unat b" using fm by (simp add: chunk2mem_def HEADER_SIZE_def align_mask_zero)
    ultimately show ?thesis using s B bz0 by (intro conjI exI [of _ cs] exI [of _ "system_mem av"]) simp_all
  qed
qed

end
