(* ===== verification/Malloc_Extend.thy ===== *)
theory Malloc_Extend
  imports Malloc_More
begin

text \<open>
  \<open>sysmalloc\<close> of the main arena: top grows in place, or new memory becomes top and the old one is cut off by
  fence posts and freed. Chunks in use stay as they are.
\<close>

lemma new_topE:
  fixes av :: "'z proc_scheme"
  assumes run: "new_top S t p old a cor s av = Some av'" and old: "old \<noteq> 0"
  obtains r av1 av2 L where "register_chunk (cienv S) a av = Some (r, av1)"
    "av2 = set_head r ((s - a + cor) OR PREV_INUSE) (w_md_prev None r (w_md_next None r (av1\<lparr>md_top := Some r\<rparr>)))"
    "put_fenceposts S t p old (av2\<lparr>system_mem := system_mem av2 + cor, lkup := L\<rparr>) = Some av'"
proof -
  define k where "k = (\<lambda>(av :: 'z proc_scheme). do {
     check_top (par av) av;
     let av = av\<lparr>system_mem := system_mem av + cor\<rparr>;
     av \<leftarrow> (if sint cor > 0 then do {
              (_, L) \<leftarrow> lookup_incr_sbrk_hi cor (lkup av);
              Some (av\<lparr>lkup := L\<rparr>) }
            else Some av);
     if old \<noteq> 0 then put_fenceposts S t p old av else Some av })"
  from run obtain r av1 where r: "register_chunk (cienv S) a av = Some (r, av1)"
    "k (set_head r ((s - a + cor) OR PREV_INUSE) (w_md_prev None r (w_md_next None r (av1\<lparr>md_top := Some r\<rparr>)))) = Some av'"
    unfolding new_top_def Let_def k_def by (erule bind_pair_SomeE)
  define av2 where "av2 = set_head r ((s - a + cor) OR PREV_INUSE) (w_md_prev None r (w_md_next None r (av1\<lparr>md_top := Some r\<rparr>)))"
  from r(2) [folded av2_def] obtain y where
    y: "(if sint cor > 0 then do { (_, L) \<leftarrow> lookup_incr_sbrk_hi cor (lkup (av2\<lparr>system_mem := system_mem av2 + cor\<rparr>));
          Some (av2\<lparr>system_mem := system_mem av2 + cor, lkup := L\<rparr>) } else Some (av2\<lparr>system_mem := system_mem av2 + cor\<rparr>)) = Some y"
      "put_fenceposts S t p old y = Some av'"
    unfolding k_def Let_def using old by (elim bindE) simp
  from y(1) obtain L where "y = av2\<lparr>system_mem := system_mem av2 + cor, lkup := L\<rparr>"
    by (cases "sint cor > 0") (auto simp: bind_eq_Some_conv intro: that [of "lkup av2"])
  then show thesis using that [OF r(1) av2_def, of L] y(2) by simp
qed

lemma new_topD:
  fixes av :: "'z proc_scheme"
  assumes run: "new_top S t (fA f t) (head_size (fS f t)) a cor s av = Some av'"
    and I: "pend Z [] (cienv S) (Suc (Suc (Suc n))) av T f (fS f) H F G X own t"
    and B: "used H F G X t = U" "ran T - H = M" "\<forall>d \<in> U \<union> M. B d = blocks_of f d"
    and p: "par_ok (par av)" and k: "kernel_ok (kernel S) brk got" and mn: "is_main av"
    and z: "got (calls av) = Z \<union> {unat a ..< unat a + unat z}" "Z \<inter> {unat a ..< unat a + unat z} = {}" "64 \<le> unat a" "unat a + unat z < 2 ^ 64"
      "32 \<le> unat z" "16 dvd unat z" "16 dvd unat a" "z = s - a + cor"
  shows "state (got (calls av')) [] (cienv S) n av' U M B \<and> firm av av'"
proof -
  let ?E = "cienv S"
  note P = pendD [OF I] and D = heap_okD [OF pendD(2) [OF I]]
  have sz: "head_size (fS f t) \<noteq> 0" using used_sizes(4) [OF I D(1,3)] by (auto simp flip: unat_eq_0)
  obtain r av1 av2 L where r: "register_chunk ?E a av = Some (r, av1)"
    and e: "av2 = (set_head r (z OR PREV_INUSE) (w_md_prev None r (w_md_next None r (av1\<lparr>md_top := Some r\<rparr>))))"
    and q: "put_fenceposts S t (fA f t) (head_size (fS f t)) (av2\<lparr>system_mem := system_mem av2 + cor, lkup := L\<rparr>) = Some av'"
    unfolding z(8) by (rule new_topE [OF run sz])
  have Ta: "T a = None" by (rule fresh_address [OF P(2) z(2)]) (use z(5) in simp)
  note g = register_view [OF r P(1) Ta]
  note zz = aligned_size [OF z(6)]
  let ?v = "z OR PREV_INUSE"
  have v: "size_of ?v = unat z" "pinuse ?v" "\<not> mmapped_bit ?v" using zz by simp_all
  define h where "h = (fresh_fields a r f)\<lparr>fS := (fS f)(r := ?v)\<rparr>"
  have hs: "fA h = (fA f)(r := a)" "fS h = (fS f)(r := ?v)" "fP h = (fP f)(r := 0)" "fN h = (fN f)(r := None)" "fV h = (fV f)(r := None)"
    "fF h = (fF f)(r := None)" "fB h = (fB f)(r := None)" "fFN h = (fFN f)(r := None)" "fBN h = (fBN f)(r := None)"
    by (simp_all add: h_def)
  let ?T = "T(a \<mapsto> r)" and ?av = "av2\<lparr>system_mem := system_mem av2 + cor, lkup := L\<rparr>"
  have rt: "r \<noteq> t" "r \<notin> H" "r \<notin> F" "r \<notin> X" using g(1) D(1,4,6) P(6) by auto
  have "view ?E (Suc (Suc n)) (av1\<lparr>md_top := Some r\<rparr>) ?T (fresh_fields a r f)" by (rule view_same [OF g(3)]) simp_all
  note w = view_writes(9) [OF view_writes(8) [OF view_writes(7) [OF this, of None r], of None r], of r ?v]
  have "view ?E (Suc (Suc n)) av2 ?T h" using w unfolding e h_def by (simp add: fresh_fields_def)
  then have vw: "view ?E (Suc (Suc n)) ?av ?T h" by (rule view_same) simp_all
  have "heap_ok (got (calls av)) (fA h) (fS h) (fP h) (fN h) (fV h) ?T (insert r H) F (insert t G) r"
  proof (rule add_top_ok [OF P(2) g(1) z(2)])
    show "fA h x = fA f x \<and> fS h x = fS f x \<and> fP h x = fP f x \<and> fN h x = fN f x \<and> fV h x = fV f x" if "x \<in> ran T" for x
      using that g(1) by (auto simp: hs)
  qed (use z v in \<open>simp_all add: hs\<close>)
  note hk = this
  have f1: "frame av av1" by (fact g(4))
  have eq: "par ?av = par av" "calls ?av = calls av" "is_main ?av = is_main av" "bins_base ?av = bins_base av" "fastbinsY ?av = fastbinsY av"
      "md_top ?av = Some r" "initial_top ?av = initial_top av"
    using frame_sel [OF f1] frame_proc [OF f1] by (simp_all add: e)
  have "pend (got (calls ?av)) [] ?E (Suc (Suc n)) ?av ?T h (fS h) (insert r H) F (insert t G) X own r"
    unfolding eq(2)
  proof (rule pend_rebuild [OF I vw hk _ eq(5,6,4)])
    show "X \<subseteq> insert r H - F - insert t G - {r}" using P(6) rt by blast
    fix x assume "x \<in> F \<union> headers (bins_base av) \<union> X"
    then have "x \<noteq> r" using rt g(2) by (auto simp: headers_def)
    then show "fF h x = fF f x \<and> fB h x = fB f x \<and> fFN h x = fFN f x \<and> fBN h x = fBN f x \<and> fS h x = fS f x" by (simp add: hs)
  qed
  note J = this
  have th: "fA h t = fA f t" "fS h t = fS f t" "fN h t = None" using rt(1) D(7) by (auto simp: hs)
  have "state (got (calls av')) [] ?E n av' U M B \<and> firm ?av av'"
  proof (rule put_fencepostsD [OF _ J _ _ _ _ _ _ _ _ _ _ _ _ _ k])
    show "put_fenceposts S t (fA h t) (head_size (fS h t)) ?av = Some av'" unfolding th by (fact q)
    show "t \<in> insert r H" "t \<notin> F" "t \<notin> G" "t \<notin> X" "t \<noteq> r" using D(1-3) P(6) rt(1) by auto
    show "32 \<le> size_of (fS h t)" using th(2) used_sizes(4) [OF I D(1,3)] by simp
    show "fN h t = None" "pinuse (fS h t)" using th top_pinuse [OF P(2)] by simp_all
    show "fV h r = None" by (simp add: hs)
    show "used (insert r H) F (insert t G) X r = U" using B(1) rt by (auto simp: used_def)
    show "ran ?T - insert r H = M" using B(2) g(1) Ta by (auto simp: ran_map_upd)
    show "\<forall>d \<in> U \<union> M. B d = blocks_of h d"
    proof
      fix d assume d: "d \<in> U \<union> M"
      then have "d \<noteq> r" using B(1,2) rt(2) g(1) by (auto simp: used_def)
      then show "B d = blocks_of h d" using B(3) d by (simp add: blocks_of_def hs)
    qed
    show "par_ok (par ?av)" "is_main ?av" using p mn eq by simp_all
  qed
  then show ?thesis using eq by (simp add: firm_def)
qed

text \<open>Top grows at its end.\<close>

lemma grow_topD:
  fixes av :: "'z proc_scheme"
  assumes I: "pend Z [] E n av T f (fS f) H F G X own t"
    and B: "used H F G X t = U" "ran T - H = M" "\<forall>d \<in> U \<union> M. B d = blocks_of f d"
    and z: "Z' = Z \<union> {unat b ..< unat b + unat z}" "Z \<inter> {unat b ..< unat b + unat z} = {}" "unat b + unat z < 2 ^ 64" "16 dvd unat z"
    and b: "b = fA f t + head_size (fS f t)"
  shows "state Z' [] E n (set_head t ((z + head_size (fS f t)) OR PREV_INUSE) av) U M B"
proof -
  note P = pendD [OF I] and D = heap_okD [OF pendD(2) [OF I]]
  note us = used_sizes [OF I D(1)] and tr = pend_shown(1) [OF I D(1)]
  have ub: "unat b = start (fA f) t + size_of (fS f t)" using us(7) by (simp add: b start_def unat_word_ariths)
  have un: "unat (z + head_size (fS f t)) = unat z + size_of (fS f t)" using z(3) ub by (simp add: unat_word_ariths)
  then have d: "16 dvd unat (z + head_size (fS f t))" using z(4) us(2) by simp
  let ?v = "(z + head_size (fS f t)) OR PREV_INUSE"
  have v: "size_of ?v = unat z + size_of (fS f t)" "pinuse ?v" "\<not> mmapped_bit ?v" using aligned_size [OF d] un by simp_all
  let ?g = "f\<lparr>fS := (fS f)(t := ?v)\<rparr>"
  have "pend Z' [] E n (set_head t ?v av) T ?g ((fS f)(t := ?v)) H F G X own t"
  proof (rule resize_top_pend [OF I])
    show "32 \<le> size_of ?v" "16 dvd size_of ?v" "pinuse ?v" "\<not> mmapped_bit ?v" using v z(4) us(2,4) D(3) by simp_all
    show "start (fA f) t + size_of ?v < 2 ^ 64" using v(1) ub z(3) by simp
    show "region (fA f) ((fS f)(t := ?v)) t \<subseteq> Z'" using pend_apart(2) [OF I tr tr] v(1) ub z(1) by (auto simp: region_def)
    fix c assume c: "c \<in> ran T" "c \<noteq> t"
    have rc: "region (fA f) (fS f) c \<subseteq> Z" by (rule pend_apart(2) [OF I c(1) tr])
    then show "region (fA f) (fS f) c \<subseteq> Z'" using z(1) by auto
    have "{start (fA f) c ..< start (fA f) c + max 1 (size_of (fS f c))} \<subseteq> region (fA f) (fS f) c" by (auto simp: region_def)
    then have "{start (fA f) c ..< start (fA f) c + max 1 (size_of (fS f c))} \<inter> {unat b ..< unat b + unat z} = {}" using rc z(2) by blast
    then have "unat z = 0 \<or> start (fA f) c + max 1 (size_of (fS f c)) \<le> unat b \<or> unat b + unat z \<le> start (fA f) c"
      by (auto simp: disjoint_iff not_le)
    moreover note pend_apart(1) [OF I tr c(1) c(2) [symmetric]]
    ultimately show "apart (fA f) ((fS f)(t := ?v)) t c" using c(2) v(1) ub by (auto simp: apart_def)
  qed
  then have J: "pend Z' [] E n (set_head t ?v av) T ?g (fS ?g) H F G X own t" by simp
  show ?thesis
  proof (rule stateI [OF J B(1,2)])
    show "B d = blocks_of ?g d" if "d \<in> U \<union> M" for d using B that D(1) by (auto simp: blocks_of_def used_def)
  qed
qed

text \<open>The record of the regions and of the first break is kept aside.\<close>

lemma extend_mainE:
  fixes av :: "'z proc_scheme"
  assumes run: "extend_main S nb t p old old_end av = Some av'" and m: "more_core S nb old av = (b, s, m, z, av1)" and b: "b \<noteq> 0"
  obtains L P sm where "par_ok P = par_ok (par av1)"
    "(if b = old_end \<and> s = 0 then Some (set_head t ((z + old) OR PREV_INUSE) (av1\<lparr>lkup := L, par := P, system_mem := sm\<rparr>))
      else if contiguous av1 \<and> old \<noteq> 0 \<and> b < old_end then None
      else do {
        (aligned_brk, correction, s, av) \<leftarrow> align_core S b s z old old_end (av1\<lparr>lkup := L, par := P, system_mem := sm\<rparr>);
        if s \<noteq> 0 then new_top S t p old aligned_brk correction s av else Some av }) = Some av'"
proof -
  define k where "k = (\<lambda>av :: 'z proc_scheme. do {
       let av = (if mp_sbrk_base (par av) = 0 then av\<lparr>par := (par av)\<lparr>mp_sbrk_base := b\<rparr>\<rparr> else av);
       let av = av\<lparr>system_mem := system_mem av + z\<rparr>;
       if b = old_end \<and> s = 0 then
         Some (set_head t ((z + old) OR PREV_INUSE) av)
       else if contiguous av \<and> old \<noteq> 0 \<and> b < old_end then malloc_printerr 3 av
       else do {
         (aligned_brk, correction, snd_brk, av) \<leftarrow> align_core S b s z old old_end av;
         if snd_brk \<noteq> 0 then new_top S t p old aligned_brk correction snd_brk av
         else Some av } })"
  have pe: "malloc_printerr 3 v = None" for v :: "'z proc_scheme" by (simp add: malloc_printerr_def)
  have ct: "contiguous (v\<lparr>lkup := L, par := P, system_mem := sm\<rparr>) = contiguous v" for v :: "'z proc_scheme" and L P sm
    by (simp add: contiguous_def)
  from run obtain y where y: "(if m \<noteq> 0 then do {
                (_, L) \<leftarrow> lookup_add_sbrk_region (lk_mmap S) b s (lkup av1);
                Some (av1\<lparr>lkup := L\<rparr>) }
              else do {
                (_, L) \<leftarrow> (if mp_sbrk_base (par av1) = 0 then lookup_set_sbrk_lo b (lkup av1)
                           else Some (True, lkup av1));
                (_, L) \<leftarrow> lookup_incr_sbrk_hi z L;
                Some (av1\<lparr>lkup := L\<rparr>) }) = Some y" "k y = Some av'"
    using b unfolding extend_main_def m prod.case k_def [symmetric] by (simp add: k_def) (erule bindE, blast)
  from y(1) obtain L where L: "y = av1\<lparr>lkup := L\<rparr>" by (cases "m = 0") (auto simp: bind_eq_Some_conv)
  define P where "P = (if mp_sbrk_base (par av1) = 0 then (par av1)\<lparr>mp_sbrk_base := b\<rparr> else par av1)"
  define w where "w = av1\<lparr>lkup := L, par := P, system_mem := system_mem av1 + z\<rparr>"
  have w: "(if mp_sbrk_base (par y) = 0 then y\<lparr>par := (par y)\<lparr>mp_sbrk_base := b\<rparr>\<rparr> else y)\<lparr>system_mem :=
      system_mem (if mp_sbrk_base (par y) = 0 then y\<lparr>par := (par y)\<lparr>mp_sbrk_base := b\<rparr>\<rparr> else y) + z\<rparr> = w"
    by (simp add: L w_def P_def)
  have "par_ok P = par_ok (par av1)" by (simp add: P_def par_ok_def)
  moreover have cw: "contiguous w = contiguous av1" unfolding w_def by (rule ct)
  ultimately show thesis
    using that [where P = P and L = L and sm = "system_mem av1 + z"] y(2) unfolding k_def Let_def w pe cw w_def [symmetric] by simp
qed

lemma extend_mainD:
  fixes av :: "'z proc_scheme"
  assumes run: "extend_main S nb t (fA f t) (head_size (fS f t)) (fA f t + head_size (fS f t)) av = Some av'"
    and I: "pend (got (calls av)) [] (cienv S) (Suc (Suc (Suc n))) av T f (fS f) H F G X own t"
    and B: "used H F G X t = U" "ran T - H = M" "\<forall>d \<in> U \<union> M. B d = blocks_of f d"
    and p: "par_ok (par av)" and k: "kernel_ok (kernel S) brk got" and mn: "is_main av" and sb: "sbrks_ok (calls av)"
  shows "state (got (calls av')) [] (cienv S) n av' U M B \<and> steady av av'"
proof -
  let ?E = "cienv S" and ?old = "head_size (fS f t)"
  note P = pendD [OF I] and D = heap_okD [OF pendD(2) [OF I]]
  obtain b s m z av1 where mc: "more_core S nb ?old av = (b, s, m, z, av1)" by (metis prod_cases5)
  from more_coreD [OF mc k p] obtain cs fl where a1: "av1 = av\<lparr>calls := cs, flags := fl\<rparr>" and br: "brought got brk (calls av) b s m z cs av1" by blast
  have old: "16 dvd unat ?old" using used_sizes(2) [OF I D(1)] by simp
  show ?thesis
  proof (cases "b = 0")
    case True
    then have "av' = av1" using run mc by (simp add: extend_main_def)
    moreover have "got cs = got (calls av)" "sbrks_ok cs" using br True sb by (auto simp: brought_def)
    moreover have "state (got (calls av)) [] ?E n av1 U M B"
      by (rule state_same [OF state_more [OF stateI [OF I B(1,2)]]]) (use B(3) a1 in auto)
    ultimately show ?thesis using a1 by (simp add: steady_def)
  next
    case b: False
    have ar: "area got (calls av) cs (unat b) (unat z)" "16 dvd unat z" "sbrks_ok cs" using br b sb by (simp_all add: brought_def)
    obtain L Q sm where Q: "par_ok Q = par_ok (par av1)" and r:
      "(if b = fA f t + ?old \<and> s = 0 then Some (set_head t ((z + ?old) OR PREV_INUSE) (av1\<lparr>lkup := L, par := Q, system_mem := sm\<rparr>))
      else if contiguous av1 \<and> ?old \<noteq> 0 \<and> b < fA f t + ?old then None
      else do {
        (aligned_brk, correction, s, av) \<leftarrow> align_core S b s z ?old (fA f t + ?old) (av1\<lparr>lkup := L, par := Q, system_mem := sm\<rparr>);
        if s \<noteq> 0 then new_top S t (fA f t) ?old aligned_brk correction s av else Some av }) = Some av'"
      by (rule extend_mainE [OF run mc b])
    define av2 where "av2 = av1\<lparr>lkup := L, par := Q, system_mem := sm\<rparr>"
    have pQ: "par_ok (par av2)" using Q p a1 by (simp add: av2_def)
    have I2: "pend (got (calls av)) [] ?E (Suc (Suc (Suc n))) av2 T f (fS f) H F G X own t"
      by (rule pend_same [OF I]) (simp_all add: av2_def a1)
    have e2: "is_main av2 = is_main av" "bins_base av2 = bins_base av" "initial_top av2 = initial_top av" "calls av2 = cs" by (simp_all add: av2_def a1)
    show ?thesis
    proof (cases "b = fA f t + ?old \<and> s = 0")
      case True
      then have e: "av' = set_head t ((z + ?old) OR PREV_INUSE) av2" using r by (simp add: av2_def)
      have "state (got cs) [] ?E (Suc (Suc (Suc n))) av' U M B"
        unfolding e by (rule grow_topD [OF I2 B]) (use ar True in \<open>simp_all add: area_def\<close>)
      then have "state (got (calls av')) [] ?E n av' U M B" using e e2 by (simp add: state_more)
      then show ?thesis using e e2 pQ ar by (simp add: steady_def)
    next
      case False
      then obtain ab cor s' av3 where c: "align_core S b s z ?old (fA f t + ?old) av2 = Some (ab, cor, s', av3)"
        "(if s' \<noteq> 0 then new_top S t (fA f t) ?old ab cor s' av3 else Some av3) = Some av'"
        using r unfolding av2_def [symmetric] by (auto simp: bind_eq_Some_conv split: if_splits)
      have "brought got brk (calls av) b s m z (calls av2) av2"
        using br by (simp add: brought_def e2) (simp add: av2_def contiguous_def)
      from align_coreD [OF c(1) k pQ this b sb old] obtain ds sm' where d: "ab = b" "s' \<noteq> 0" "16 dvd unat b"
        "av3 = av2\<lparr>calls := ds, system_mem := sm'\<rparr>" "sbrks_ok ds" "area got (calls av) ds (unat b) (unat (s' - ab + cor))"
        "4096 \<le> unat (s' - ab + cor)" "16 dvd unat (s' - ab + cor)" by blast
      have I3: "pend (got (calls av)) [] ?E (Suc (Suc (Suc n))) av3 T f (fS f) H F G X own t"
        by (rule pend_same [OF I2]) (simp_all add: d(4))
      have nt: "new_top S t (fA f t) ?old b cor s' av3 = Some av'" using c(2) d(1,2) by simp
      have "state (got (calls av')) [] ?E n av' U M B \<and> firm av3 av'"
        by (rule new_topD [OF nt I3 B _ k _ _ _ _ _ _ _ _ refl])
          (use pQ mn e2 d in \<open>simp_all add: area_def\<close>)
      moreover have "steady av av3" using d(4,5) e2 pQ by (simp add: steady_def)
      ultimately show ?thesis using steady_trans [OF _ firm_steady] by blast
    qed
  qed
qed

end
