(* ===== verification/Malloc_Int.thy ===== *)
theory Malloc_Int
  imports Malloc_Extend
begin

text \<open>
  \<open>sysmalloc\<close> and \<open>_int_malloc\<close> of the main arena: a request is answered by a chunk that was not in use and is
  large enough, or by \<open>NULL\<close>, and every chunk in use firm where it is with its size.
\<close>

lemma supplied_more: "supplied got E n nb U M B r av \<Longrightarrow> m \<le> n \<Longrightarrow> supplied got E m nb U M B r av"
  unfolding supplied_def by (auto split: option.splits intro: state_more simp del: split_paired_Ex)

lemma keeps_steady: "keeps av av' \<Longrightarrow> steady av av'"
  by (rule firm_steady [OF keeps_firm])

section \<open>\<open>sysmalloc\<close>\<close>

lemma finish_sysmallocD:
  fixes av :: "'z proc_scheme"
  assumes run: "finish_sysmalloc E nb av = Some (r, av')" and st: "state (got (calls av)) [] E (Suc n) av U M B" and nb: "req_ok nb"
  shows "supplied got E n nb U M B r av' \<and> steady av av'"
proof -
  define av1 where "av1 = (if system_mem av > max_system_mem av then av\<lparr>max_system_mem := system_mem av\<rparr> else av)"
  have e: "calls av1 = calls av" "par av1 = par av" "is_main av1 = is_main av" "bins_base av1 = bins_base av" "initial_top av1 = initial_top av"
    by (simp_all add: av1_def)
  have st1: "state (got (calls av)) [] E (Suc n) av1 U M B" by (rule state_same [OF st]) (simp_all add: av1_def)
  from st1 obtain T f H F G X own t where I: "pend (got (calls av)) [] E (Suc n) av1 T f (fS f) H F G X own t"
    and B: "used H F G X t = U" "ran T - H = M" "\<forall>d \<in> U \<union> M. B d = blocks_of f d" by (rule stateE)
  note P = pendD [OF I] and D = heap_okD [OF pendD(2) [OF I]]
  have res: "(if chunksize av1 (Some t) \<ge> nb + MINSIZE then do {
       (s, av) \<leftarrow> split_chunk E t (chunkinfo2chunk av1 t) (chunksize av1 (Some t)) nb av1;
       let av = av\<lparr>md_top := Some s\<rparr>;
       check_top (par av) av;
       Some (Some t, av) }
     else Some (None, set_enomem av1)) = Some (r, av')"
    using run unfolding finish_sysmalloc_def Let_def av1_def [symmetric] P(7) Option.bind.simps(2) .
  show ?thesis
  proof (cases "chunksize av1 (Some t) \<ge> nb + MINSIZE")
    case False
    then have r: "r = None" "av' = put_errno ENOMEM av1" using res by (simp_all add: put_errno_def set_enomem_def)
    have "state (got (calls av)) [] E n (put_errno ENOMEM av1) U M B" by (rule state_more [OF state_errno [OF st1]]) simp
    then show ?thesis using r e by (simp add: supplied_def steady_def)
  next
    case True
    then obtain s av2 where s: "split_chunk E t (chunkinfo2chunk av1 t) (chunksize av1 (Some t)) nb av1 = Some (s, av2)"
      "r = Some t" "av' = av2\<lparr>md_top := Some s\<rparr>"
      using res by (auto simp: Let_def bind_eq_Some_conv)
    note q = split_topD [OF s(1) I nb view_chunk(1) [OF P(1) pend_shown(2) [OF I D(1)]] B]
    then have "calls av' = calls av" "steady av av'"
      using frame_proc [of av1 av2] frame_sel [of av1 av2] e s(3) by (simp_all add: steady_def)
    then show ?thesis using q s served_supplied [of got av' E n nb U M B r] by simp
  qed
qed

lemma sysmalloc_topD:
  fixes av :: "'z proc_scheme"
  assumes run: "sysmalloc_top S tried nb av = Some (r, av')" and st: "state (got (calls av)) [] (cienv S) (Suc (Suc (Suc (Suc n)))) av U M B"
    and p: "par_ok (par av)" and nb: "req_ok nb" and k: "kernel_ok (kernel S) brk got" and mn: "is_main av" and sb: "sbrks_ok (calls av)"
  shows "supplied got (cienv S) n nb U M B r av' \<and> steady av av'"
proof -
  from st obtain T f H F G X own t where I: "pend (got (calls av)) [] (cienv S) (Suc (Suc (Suc (Suc n)))) av T f (fS f) H F G X own t"
    and B: "used H F G X t = U" "ran T - H = M" "\<forall>d \<in> U \<union> M. B d = blocks_of f d" by (rule stateE)
  note P = pendD [OF I] and D = heap_okD [OF pendD(2) [OF I]]
  note c = view_chunk(1,2) [OF P(1) pend_shown(2) [OF I D(1)]]
  from run mn obtain av1 where "extend_main S nb t (fA f t) (head_size (fS f t)) (fA f t + head_size (fS f t)) av = Some av1"
    and f: "finish_sysmalloc (cienv S) nb av1 = Some (r, av')"
    unfolding sysmalloc_top.simps [of S tried] Let_def P(7) Option.bind.simps(2) c chunk_at_offset_def
    by (elim bindE) (simp, elim bindE, blast)
  from extend_mainD [OF this(1) I B p k mn sb] have s: "state (got (calls av1)) [] (cienv S) (Suc n) av1 U M B" "steady av av1" by simp_all
  show ?thesis using finish_sysmallocD [where got = got, OF f s(1) nb] steady_trans [OF s(2)] by blast
qed

lemma sysmallocD:
  fixes av :: "'z proc_scheme"
  assumes run: "sysmalloc S nb av = Some (r, av')" and st: "state (got (calls av)) [] (cienv S) (Suc (Suc (Suc (Suc n)))) av U M B"
    and p: "par_ok (par av)" and nb: "req_ok nb" and k: "kernel_ok (kernel S) brk got" and mn: "is_main av" and sb: "sbrks_ok (calls av)"
  shows "supplied got (cienv S) n nb U M B r av' \<and> steady av av'"
proof -
  define direct where "direct = (nb \<ge> mmap_threshold (par av) \<and> sint (n_mmaps (par av)) < sint (n_mmaps_max (par av)))"
  from run obtain x av1 where r: "(if direct then try_mmap S nb av else Some (None, av)) = Some (x, av1)"
    "(case x of Some r \<Rightarrow> Some (r, av1) | None \<Rightarrow> sysmalloc_top S direct nb av1) = Some (r, av')"
    unfolding sysmalloc_def Let_def direct_def [symmetric] by (erule bind_pair_SomeE)
  have "(case x of None \<Rightarrow> state (got (calls av1)) [] (cienv S) (Suc (Suc (Suc (Suc n)))) av1 U M B
      | Some r \<Rightarrow> supplied got (cienv S) (Suc (Suc (Suc n))) nb U M B r av1) \<and> steady av av1"
    using r(1) map_chunkD [OF _ st p nb k] st mn by (auto simp: try_mmap_def steady_def split: if_splits)
  then have m: "case x of None \<Rightarrow> state (got (calls av1)) [] (cienv S) (Suc (Suc (Suc (Suc n)))) av1 U M B
      | Some r \<Rightarrow> supplied got (cienv S) (Suc (Suc (Suc n))) nb U M B r av1" "steady av av1" by auto
  have q: "par_ok (par av1)" "is_main av1" "sbrks_ok (calls av1)" using m(2) p mn sb by (simp_all add: steady_def)
  show ?thesis
  proof (cases x)
    case None
    then have "sysmalloc_top S direct nb av1 = Some (r, av')" using r(2) by simp
    from sysmalloc_topD [where got = got, OF this _ q(1) nb k q(2,3)] m None steady_trans [OF m(2)] show ?thesis by auto
  next
    case (Some y)
    then show ?thesis using r(2) m supplied_more [of got "cienv S" "Suc (Suc (Suc n))" nb U M B y av1 n] by simp
  qed
qed

section \<open>\<open>_int_malloc\<close>\<close>

text \<open>A part that finds a chunk ends the search; one that does not leaves the same chunks in use.\<close>

lemma or_returnD:
  fixes av :: "'z proc_scheme"
  assumes go: "goes (got (calls av)) E (Suc (Suc (Suc n))) nb U M B x av1 \<and> keeps av av1"
    and rest: "(case (x, av1) of (Some y, s) \<Rightarrow> Some (y, s) | (None, s) \<Rightarrow> k s) = Some (r, av')"
    and k: "state (got (calls av1)) [] E (Suc (Suc (Suc (Suc n)))) av1 U M B \<Longrightarrow> keeps av av1 \<Longrightarrow> k av1 = Some (r, av') \<Longrightarrow>
      supplied got E n nb U M B r av' \<and> steady av1 av'"
  shows "supplied got E n nb U M B r av' \<and> steady av av'"
proof -
  have c: "calls av1 = calls av" using go by (simp add: keeps_def)
  show ?thesis
  proof (cases x)
    case None
    then show ?thesis using go rest k c steady_trans [OF keeps_steady, of av av1 av'] by (auto simp: goes_def)
  next
    case (Some y)
    then have "served (got (calls av)) E (Suc (Suc (Suc n))) nb U M B y av1" "r = y" "av' = av1" using go rest by (simp_all add: goes_def)
    then have "served (got (calls av')) E n nb U M B r av'" by (simp add: c) (rule served_more, assumption, simp)
    then have "supplied got E n nb U M B r av'" by (rule served_supplied)
    then show ?thesis using go keeps_steady \<open>av' = av1\<close> by blast
  qed
qed

lemma keeps_sel:
  assumes "keeps av av'"
  shows "par av' = par av" "is_main av' = is_main av" "calls av' = calls av"
  using assms by (simp_all add: keeps_def)

lemma malloc_loopD:
  fixes av :: "'z proc_scheme"
  assumes "malloc_loop S nb idx av = Some (r, av')" and "state (got (calls av)) [] (cienv S) (Suc (Suc (Suc (Suc n)))) av U M B"
    and "par_ok (par av)" and "is_main av" and "sbrks_ok (calls av)" and "idx = bin_index nb" and nb: "req_ok nb" and k: "kernel_ok (kernel S) brk got"
  shows "supplied got (cienv S) n nb U M B r av' \<and> steady av av'"
proof -
  let ?N = "Suc (Suc (Suc (Suc n)))"
  have "state (got (calls av)) [] (cienv S) ?N av U M B \<and> par_ok (par av) \<and> is_main av \<and> sbrks_ok (calls av) \<and>
      idx = bin_index nb \<and> req_ok nb \<and> kernel_ok (kernel S) brk got \<longrightarrow>
      supplied got (cienv S) n nb U M B (fst (r, av')) (snd (r, av')) \<and> steady av (snd (r, av'))"
  proof (induction rule: malloc_loop.raw_induct [where P = "\<lambda>S nb idx (av :: 'z proc_scheme) r.
        state (got (calls av)) [] (cienv S) ?N av U M B \<and> par_ok (par av) \<and> is_main av \<and> sbrks_ok (calls av) \<and>
        idx = bin_index nb \<and> req_ok nb \<and> kernel_ok (kernel S) brk got \<longrightarrow>
        supplied got (cienv S) n nb U M B (fst r) (snd r) \<and> steady av (snd r)", OF _ assms(1)])
    case (1 rec S nb idx av r)
    let ?E = "cienv S"
    show ?case
    proof (intro impI, elim conjE)
      assume st: "state (got (calls av)) [] ?E ?N av U M B" and p: "par_ok (par av)" and mn: "is_main av" and sb: "sbrks_ok (calls av)"
        and idx: "idx = bin_index nb" and nb: "req_ok nb" and k: "kernel_ok (kernel S) brk got"
      obtain r0 av' where r: "r = (r0, av')" by fastforce
      define k4 where "k4 = (\<lambda>av :: 'z proc_scheme. if have_fastchunks av then do {
         av \<leftarrow> malloc_consolidate S av;
         rec S nb (if in_smallbin_range nb then smallbin_index nb else largebin_index nb) av }
       else sysmalloc S nb av)"
      define k3 where "k3 = (\<lambda>av :: 'z proc_scheme. do { x \<leftarrow> use_top ?E nb av; or_return x k4 })"
      define k2 where "k2 = (\<lambda>av :: 'z proc_scheme. do { x \<leftarrow> malloc_larger_bins ?E nb idx av; or_return x k3 })"
      define k1 where "k1 = (\<lambda>av :: 'z proc_scheme. do { x \<leftarrow> malloc_large ?E nb idx av; or_return x k2 })"
      have run: "do { x \<leftarrow> unsorted_loop ?E MAX_ITERS nb av; or_return x k1 } = Some (r0, av')"
        using 1(2) unfolding r k1_def k2_def k3_def k4_def .
      have 4: "supplied got ?E n nb U M B r0 av' \<and> steady w av'"
        if h: "k4 w = Some (r0, av')" "state (got (calls w)) [] ?E ?N w U M B" "keeps av w" for w
      proof -
        note q = keeps_sel [OF that(3)]
        show ?thesis
        proof (cases "have_fastchunks w")
          case True
          then obtain w1 where w1: "malloc_consolidate S w = Some w1" "rec S nb idx w1 = Some (r0, av')"
            using h(1) unfolding k4_def bin_index_def [symmetric] idx [symmetric] by (auto simp: bind_eq_Some_conv)
          have c: "check_action (par w) AND 2 \<noteq> 0" "global_max_fast (par w) \<noteq> 0" using p q by (simp_all add: par_ok_def)
          note m = malloc_consolidateD [OF w1(1) that(2) c]
          note q1 = keeps_sel [OF m(2)]
          have "supplied got ?E n nb U M B r0 av' \<and> steady w1 av'"
            using 1(1) [OF w1(2)] m(1) q q1 p mn sb idx nb k by simp
          then show ?thesis using steady_trans [OF keeps_steady [OF m(2)]] by blast
        next
          case False
          then have "sysmalloc S nb w = Some (r0, av')" using that(1) by (simp add: k4_def)
          from sysmallocD [where got = got, OF this that(2) _ nb k] show ?thesis using q p mn sb by simp
        qed
      qed
      have 3: "supplied got ?E n nb U M B r0 av' \<and> steady w av'"
        if w: "k3 w = Some (r0, av')" "state (got (calls w)) [] ?E ?N w U M B" "keeps av w" for w
      proof -
        from w(1) obtain x w1 where x: "use_top ?E nb w = Some (x, w1)" "or_return (x, w1) k4 = Some (r0, av')"
          unfolding k3_def by (auto simp: bind_eq_Some_conv)
        show ?thesis
          by (rule or_returnD [where got = got, OF use_topD [OF x(1) w(2) nb] x(2)]) (rule 4, auto intro: keeps_trans [OF w(3)])
      qed
      have 2: "supplied got ?E n nb U M B r0 av' \<and> steady w av'"
        if w: "k2 w = Some (r0, av')" "state (got (calls w)) [] ?E ?N w U M B" "keeps av w" for w
      proof -
        have pw: "par_ok (par w)" using keeps_sel [OF w(3)] p by simp
        from w(1) obtain x w1 where x: "malloc_larger_bins ?E nb idx w = Some (x, w1)" "or_return (x, w1) k3 = Some (r0, av')"
          unfolding k2_def by (auto simp: bind_eq_Some_conv)
        show ?thesis
          by (rule or_returnD [where got = got, OF malloc_larger_binsD [OF x(1) w(2) pw nb idx] x(2)]) (rule 3, auto intro: keeps_trans [OF w(3)])
      qed
      have 1: "supplied got ?E n nb U M B r0 av' \<and> steady w av'"
        if w: "k1 w = Some (r0, av')" "state (got (calls w)) [] ?E ?N w U M B" "keeps av w" for w
      proof -
        have pw: "par_ok (par w)" using keeps_sel [OF w(3)] p by simp
        from w(1) obtain x w1 where x: "malloc_large ?E nb idx w = Some (x, w1)" "or_return (x, w1) k2 = Some (r0, av')"
          unfolding k1_def by (auto simp: bind_eq_Some_conv)
        show ?thesis
          by (rule or_returnD [where got = got, OF malloc_largeD [OF x(1) w(2) pw nb idx] x(2)]) (rule 2, auto intro: keeps_trans [OF w(3)])
      qed
      from run obtain x w1 where x: "unsorted_loop ?E MAX_ITERS nb av = Some (x, w1)" "or_return (x, w1) k1 = Some (r0, av')"
        by (auto simp: bind_eq_Some_conv)
      have "supplied got ?E n nb U M B r0 av' \<and> steady av av'"
        by (rule or_returnD [where got = got, OF unsorted_loopD [OF x(1) st p nb] x(2)]) (rule 1, auto)
      then show "supplied got ?E n nb U M B (fst r) (snd r) \<and> steady av (snd r)" by (simp add: r)
    qed
  qed
  then show ?thesis using assms by simp
qed

lemma checked_request:
  assumes "checked_request2size bytes = Inr nb"
  shows "req_ok nb" "unat bytes \<le> unat nb"
proof -
  have lt: "unat bytes < 2 ^ 64 - 64" and nb: "nb = request2size bytes"
    using assms in_range [of bytes] by (auto simp: checked_request2size_def split: if_splits)
  note r = request2size_nat [OF lt]
  have "unat bytes \<le> (unat bytes + 15) div 16 * 16" "(unat bytes + 15) div 16 * 16 < unat bytes + 16" by linarith+
  moreover have "16 dvd max 32 ((unat bytes + 15) div 16 * 16)" by (simp add: max_def)
  ultimately show "req_ok nb" "unat bytes \<le> unat nb" using r lt by (auto simp: req_ok_def nb)
qed

lemma state_replenish:
  assumes "state Z L E n av U M B" and "replenish_metadata_cache E av = Some (ok, av')"
  shows "ok \<and> av' = av"
proof -
  from assms(1) obtain T f where "view E n av T f" by (auto simp: state_def pend_def)
  then have "metadata_cache_count av = METADATA_CACHE_SIZE" by (auto simp: view_def sees_def meta_ok_def)
  then show ?thesis using assms(2) by (auto simp: replenish_metadata_cache_def Let_def bind_assert_eq_Some_iff split: if_splits)
qed

lemma supplied_less:
  assumes "supplied got E n nb U M B r av" and "unat bytes \<le> unat nb"
  shows "supplied got E n bytes U M B r av"
proof (cases r)
  case None
  then show ?thesis using assms(1) by (simp add: supplied_def)
next
  case (Some c)
  then obtain b where "c \<notin> U \<union> M" "unat nb \<le> snd b"
    "state (got (calls av)) [] E n av (insert c U) M (B(c := b)) \<or> state (got (calls av)) [] E n av U (insert c M) (B(c := b))"
    using assms(1) by (auto simp: supplied_def simp del: split_paired_Ex)
  then show ?thesis using Some assms(2) unfolding supplied_def by (simp del: split_paired_Ex) (intro exI [of _ b], simp)
qed

text \<open>The chunk is as large as the rounded request.\<close>

lemma int_malloc_checkedD:
  fixes av :: "'z proc_scheme"
  assumes run: "int_malloc S bytes av = Some (r, av')" and st: "state (got (calls av)) [] (cienv S) (Suc (Suc (Suc (Suc n)))) av U M B"
    and p: "par_ok (par av)" and mn: "is_main av" and sb: "sbrks_ok (calls av)" and k: "kernel_ok (kernel S) brk got"
    and Inr: "checked_request2size bytes = Inr nb"
  shows "supplied got (cienv S) n nb U M B r av' \<and> steady av av'"
proof -
  note nb = checked_request [OF Inr]
  let ?E = "cienv S" and ?N = "Suc (Suc (Suc (Suc n)))"
  define k2 where "k2 = malloc_loop S nb (bin_index nb)"
  define k1 where "k1 = (\<lambda>av :: 'z proc_scheme. do { x \<leftarrow> malloc_small S nb av; or_return x k2 })"
  from run obtain ok av0 where c: "replenish_metadata_cache ?E av = Some (ok, av0)"
    "(if \<not> ok then Some (None, av0) else do { x \<leftarrow> malloc_fast nb av0; or_return x k1 }) = Some (r, av')"
    unfolding int_malloc_def Inr sum.case k1_def k2_def bin_index_def by (erule bind_pair_SomeE)
  then have run: "do { x \<leftarrow> malloc_fast nb av; or_return x k1 } = Some (r, av')" using state_replenish [OF st c(1)] by simp
  have 2: "supplied got ?E n nb U M B r av' \<and> steady w av'"
    if h: "k2 w = Some (r, av')" "state (got (calls w)) [] ?E ?N w U M B" "keeps av w" for w
    using malloc_loopD [where got = got, OF _ h(2) _ _ _ refl nb(1) k] h(1) keeps_sel [OF h(3)] p mn sb by (simp add: k2_def)
  have 1: "supplied got ?E n nb U M B r av' \<and> steady w av'"
    if h: "k1 w = Some (r, av')" "state (got (calls w)) [] ?E ?N w U M B" "keeps av w" for w
  proof -
    have pw: "par_ok (par w)" using keeps_sel [OF h(3)] p by simp
    from h(1) obtain x w1 where x: "malloc_small S nb w = Some (x, w1)" "or_return (x, w1) k2 = Some (r, av')"
      unfolding k1_def by (auto simp: bind_eq_Some_conv)
    show ?thesis
      by (rule or_returnD [where got = got, OF malloc_smallD [OF x(1) h(2) pw nb(1)] x(2)]) (rule 2, auto intro: keeps_trans [OF h(3)])
  qed
  from run obtain x w1 where x: "malloc_fast nb av = Some (x, w1)" "or_return (x, w1) k1 = Some (r, av')"
    by (auto simp: bind_eq_Some_conv)
  show "supplied got ?E n nb U M B r av' \<and> steady av av'"
    by (rule or_returnD [where got = got, OF malloc_fastD [OF x(1) st p nb(1)] x(2)]) (rule 1, auto)
qed

lemma int_mallocD:
  fixes av :: "'z proc_scheme"
  assumes run: "int_malloc S bytes av = Some (r, av')" and st: "state (got (calls av)) [] (cienv S) (Suc (Suc (Suc (Suc n)))) av U M B"
    and p: "par_ok (par av)" and mn: "is_main av" and sb: "sbrks_ok (calls av)" and k: "kernel_ok (kernel S) brk got"
  shows "supplied got (cienv S) n bytes U M B r av' \<and> steady av av'"
proof (cases "checked_request2size bytes")
  case (Inl e)
  then have r: "r = None" "av' = put_errno e av" using run by (simp_all add: int_malloc_def put_errno_def)
  have "state (got (calls av)) [] (cienv S) n (put_errno e av) U M B" by (rule state_more [OF state_errno [OF st]]) simp
  then show ?thesis using r by (simp add: supplied_def steady_def)
next
  case (Inr nb)
  show ?thesis using int_malloc_checkedD [where got = got, OF run st p mn sb k Inr] supplied_less checked_request(2) [OF Inr] by blast
qed

end
