(* ===== verification/Malloc_Api.thy ===== *)
theory Malloc_Api
  imports Malloc_Alloc
begin

text \<open>
  The public functions \<open>malloc\<close>, \<open>free\<close> and \<open>calloc\<close> of \<open>malloc.c\<close>, in a thread whose arena is the one of the model; the
  theories \<open>Malloc_Realloc\<close> and \<open>Malloc_Tune\<close> have the others. The build is the default one: no \<open>mremap\<close>,
  \<open>REALLOC_ZERO_BYTES_FREES\<close>, hooks \<open>NULL\<close>. Addresses are what the program gets; \<open>0\<close> is \<open>NULL\<close>. The contents of
  the memory are not modelled: \<open>memcpy\<close> and \<open>memset\<close> are results that say what is copied or cleared.
\<close>

section \<open>Arenas of chunks\<close>

definition MMAPPED_ARENA_INDEX :: u64 where
  "MMAPPED_ARENA_INDEX = 0"

definition NON_MAIN_ARENA_INDEX :: u64 where
  "NON_MAIN_ARENA_INDEX = 2"

definition DEFAULT_MMAP_THRESHOLD_MAX :: u64 where
  "DEFAULT_MMAP_THRESHOLD_MAX = 4 * 1024 * 1024 * 8"

text \<open>The index of the arena of a chunk; that there is one is asserted.\<close>

definition chunk_arena :: "('z proc_scheme) sysenv \<Rightarrow> u64 \<Rightarrow> 'z proc_scheme \<Rightarrow> (u64 \<times> 'z proc_scheme) option" where
  "chunk_arena S p av = do {
     (i, L) \<leftarrow> lookup_arena_index (lk_mmap S) p True (lkup av);
     i \<leftarrow> i;
     Some (i, av\<lparr>lkup := L\<rparr>) }"

text \<open>\<open>arena_from_index\<close> compared with the arena of the model.\<close>

definition same_arena_index :: "u64 \<Rightarrow> 'z mstate_scheme \<Rightarrow> bool" where
  "same_arena_index i av \<longleftrightarrow> (if i < NON_MAIN_ARENA_INDEX then is_main av else \<not> is_main av \<and> arena_index av = i)"

text \<open>The assertion on the result of an allocation, \<open>ar_ptr == arena_for_chunk (p)\<close> unless the chunk is mapped.\<close>

definition assert_arena :: "('z proc_scheme) sysenv \<Rightarrow> bptr \<Rightarrow> 'z proc_scheme \<Rightarrow> 'z proc_scheme option" where
  "assert_arena S md av =
    (let mem = chunkinfo2mem av (Some md) in
     if mem = 0 \<or> chunk_is_mmapped av md then Some av
     else do {
       (i, av) \<leftarrow> chunk_arena S (mem2chunk mem) av;
       assert_c (same_arena_index i av);
       Some av })"

section \<open>\<open>malloc\<close> and \<open>calloc\<close>\<close>

definition libc_malloc :: "('z proc_scheme) sysenv \<Rightarrow> u64 \<Rightarrow> 'z proc_scheme \<Rightarrow> (u64 \<times> 'z proc_scheme) option" where
  "libc_malloc S bytes av = do {
     (md, av) \<leftarrow> int_malloc S bytes av;
     case md of
       None \<Rightarrow> other_arena S (Malloc_retry bytes) av
     | Some md \<Rightarrow> do {
         let mem = chunkinfo2mem av (Some md);
         av \<leftarrow> assert_arena S md av;
         check_top (par av) av;
         Some (mem, av) } }"

definition HALF_INTERNAL_SIZE_T :: u64 where
  "HALF_INTERNAL_SIZE_T = push_bit (8 * 8 div 2) 1"

definition calloc_overflow :: "u64 \<Rightarrow> u64 \<Rightarrow> bool" where
  "calloc_overflow n elem_size \<longleftrightarrow>
     (let bytes = n * elem_size in
      (n OR elem_size) \<ge> HALF_INTERNAL_SIZE_T \<and> elem_size \<noteq> 0 \<and> bytes div elem_size \<noteq> n)"

text \<open>
  The second result is the number of bytes that are cleared; the pages of a mapped chunk are clear. The
  metadata of the top and of the new chunk go through \<open>chunkinfo2chunk\<close>, which asserts that they are not
  \<open>NULL\<close>: what follows for the case that there is no memory is not reached.
\<close>

definition libc_calloc :: "('z proc_scheme) sysenv \<Rightarrow> u64 \<Rightarrow> u64 \<Rightarrow> 'z proc_scheme \<Rightarrow> (u64 \<times> u64 \<times> 'z proc_scheme) option" where
  "libc_calloc S n elem_size av = do {
     let sz = n * elem_size;
     if calloc_overflow n elem_size then Some (0, 0, set_enomem av)
     else do {
       (ok, av) \<leftarrow> replenish_metadata_cache (cienv S) av;
       if \<not> ok then Some (0, 0, av)
       else do {
         _ \<leftarrow> md_top av;
         (md, av) \<leftarrow> int_malloc S sz av;
         md \<leftarrow> md;
         let mem = chunkinfo2mem av (Some md);
         av \<leftarrow> assert_arena S md av;
         if mem = 0 then Some (0, 0, av)
         else if chunk_is_mmapped av md then Some (mem, 0, av)
         else do {
           check_top (par av) av;
           Some (mem, sz, av) } } } }"

section \<open>\<open>free\<close>\<close>

text \<open>The release of a mapped chunk; the thresholds follow its size.\<close>

definition adjust_thresholds :: "bptr \<Rightarrow> 'z proc_scheme \<Rightarrow> 'z proc_scheme" where
  "adjust_thresholds md av =
    (if \<not> no_dyn_threshold (par av) \<and> csize (ci av md) > mmap_threshold (par av) \<and>
        csize (ci av md) \<le> DEFAULT_MMAP_THRESHOLD_MAX
     then av\<lparr>par := (par av)\<lparr>mmap_threshold := chunksize av (Some md), trim_threshold := 2 * chunksize av (Some md)\<rparr>\<rparr>
     else av)"

definition free_mapped :: "('z proc_scheme) sysenv \<Rightarrow> u64 \<Rightarrow> 'z proc_scheme \<Rightarrow> 'z proc_scheme option" where
  "free_mapped S p av = do {
     assert_c (is_main av);
     (md, av) \<leftarrow> lookup_chunk (cienv S) p av;
     md \<leftarrow> md;
     let av = adjust_thresholds md av;
     av \<leftarrow> munmap_chunk S md av;
     (_, av) \<leftarrow> unregister_chunk (cienv S) p av;
     Some av }"

definition libc_free :: "('z proc_scheme) sysenv \<Rightarrow> u64 \<Rightarrow> 'z proc_scheme \<Rightarrow> 'z proc_scheme option" where
  "libc_free S mem av =
    (if mem = 0 then Some av
     else do {
       let p = mem2chunk mem;
       (i, av) \<leftarrow> chunk_arena S p av;
       (j, av) \<leftarrow> chunk_arena S p av;
       assert_c ((i < NON_MAIN_ARENA_INDEX \<and> j < NON_MAIN_ARENA_INDEX) \<or> i = j);
       if \<not> same_arena_index i av then do { (_, av) \<leftarrow> other_arena S (Free_other mem) av; Some av }
       else if i = MMAPPED_ARENA_INDEX then free_mapped S p av
       else do {
         av \<leftarrow> int_free S None p False av;
         check_top (par av) av;
         Some av } })"

end
