(* ===== verification/Malloc_Realloc.thy ===== *)
theory Malloc_Realloc
  imports Malloc_Api
begin

text \<open>\<open>_int_realloc\<close>, \<open>realloc\<close>, \<open>_int_memalign\<close> and \<open>memalign\<close> with its relatives.\<close>

section \<open>\<open>_int_realloc\<close>\<close>

text \<open>A copy: destination, source and number of bytes.\<close>

type_synonym copy = "(u64 \<times> u64 \<times> u64) option"

text \<open>The chunk leaves the list of the chunks.\<close>

definition skip_next :: "bptr \<Rightarrow> bptr option \<Rightarrow> 'z proc_scheme \<Rightarrow> 'z proc_scheme" where
  "skip_next md temp av =
    (let av = w_md_next temp md av in
     case temp of None \<Rightarrow> av | Some q \<Rightarrow> w_md_prev (Some md) q av)"

definition realloc_into_top ::
  "ci_env \<Rightarrow> bptr \<Rightarrow> u64 \<Rightarrow> u64 \<Rightarrow> u64 \<Rightarrow> u64 \<Rightarrow> 'z proc_scheme \<Rightarrow> 'z proc_scheme option" where
  "realloc_into_top E md oldp topchunk newsize nb av = do {
     (_, av) \<leftarrow> unregister_chunk E topchunk av;
     let av = set_head_size md nb av;
     let topchunk = chunk_at_offset oldp nb;
     (t, av) \<leftarrow> register_chunk E topchunk av;
     let av = av\<lparr>md_top := Some t\<rparr>;
     let av = w_md_next (Some t) md av;
     let av = w_md_prev (Some md) t av;
     let av = w_md_next None t av;
     let av = set_head t ((newsize - nb) OR PREV_INUSE) av;
     check_top (par av) av;
     Some av }"

definition realloc_into_next ::
  "ci_env \<Rightarrow> bptr \<Rightarrow> u64 \<Rightarrow> bptr \<Rightarrow> u64 \<Rightarrow> 'z proc_scheme \<Rightarrow> 'z proc_scheme option" where
  "realloc_into_next E md oldp md_nextchunk nextchunk av = do {
     let av = skip_next md (md_next (ci av md_nextchunk)) av;
     check_metadata_chunk av oldp (Some md);
     (_, _, av) \<leftarrow> bin_unlink md_nextchunk av;
     (_, av) \<leftarrow> unregister_chunk E nextchunk av;
     Some av }"

text \<open>The end: what is too much is split off and freed.\<close>

definition realloc_trim ::
  "('z proc_scheme) sysenv \<Rightarrow> bptr \<Rightarrow> u64 \<Rightarrow> u64 \<Rightarrow> u64 \<Rightarrow> 'z proc_scheme \<Rightarrow> 'z proc_scheme option" where
  "realloc_trim S md newp newsize nb av = do {
     let E = cienv S;
     assert_c (newsize \<ge> nb);
     let remainder_size = newsize - nb;
     if remainder_size < MINSIZE then do {
       let av = set_head_size md newsize av;
       set_inuse_bit E md av }
     else do {
       let av = set_head_size md nb av;
       let remainder = chunk_at_offset newp nb;
       (r, av) \<leftarrow> register_chunk E remainder av;
       let temp = md_next (ci av md);
       let av = w_md_next temp r av;
       let av = w_md_prev (Some md) r av;
       let av = w_md_next (Some r) md av;
       let av = (case temp of None \<Rightarrow> av | Some q \<Rightarrow> w_md_prev (Some r) q av);
       check_metadata_chunk av remainder (Some r);
       check_metadata_chunk av newp (Some md);
       let av = set_head r (remainder_size OR PREV_INUSE) av;
       av \<leftarrow> set_inuse_bit E r av;
       int_free S (Some r) remainder False av } }"

text \<open>A new chunk; when it happens to follow the old one they are joined instead of copied.\<close>

definition realloc_move ::
  "('z proc_scheme) sysenv \<Rightarrow> bptr \<Rightarrow> u64 \<Rightarrow> u64 \<Rightarrow> u64 \<Rightarrow> u64 \<Rightarrow> 'z proc_scheme \<Rightarrow> (bptr option \<times> copy \<times> 'z proc_scheme) option" where
  "realloc_move S md oldp nextchunk oldsize nb av = do {
     let E = cienv S;
     (new, av) \<leftarrow> int_malloc S (nb - MALLOC_ALIGN_MASK) av;
     case new of
       None \<Rightarrow> Some (None, None, av)
     | Some md_new \<Rightarrow> do {
         let newp = chunkinfo2chunk av md_new;
         let newmem = chunkinfo2mem av (Some md_new);
         let newsize = chunksize av (Some md_new);
         if newp = nextchunk then do {
           let av = skip_next md (md_next (ci av md_new)) av;
           check_metadata_chunk av oldp (Some md);
           (_, av) \<leftarrow> unregister_chunk E newp av;
           av \<leftarrow> realloc_trim S md oldp (newsize + oldsize) nb av;
           Some (Some md, None, av) }
         else do {
           assert_c (oldsize > HEADER_SIZE);
           let copied = (newmem, chunk2mem oldp, oldsize - HEADER_SIZE);
           av \<leftarrow> int_free S (Some md) oldp False av;
           Some (Some md_new, Some copied, av) } } }"

definition int_realloc ::
  "('z proc_scheme) sysenv \<Rightarrow> bptr \<Rightarrow> u64 \<Rightarrow> u64 \<Rightarrow> 'z proc_scheme \<Rightarrow> (bptr option \<times> copy \<times> 'z proc_scheme) option" where
  "int_realloc S md oldsize nb av = do {
     let E = cienv S;
     let oldp = chunkinfo2chunk av md;
     if csize (ci av md) < 2 * SIZE_SZ \<or> oldsize \<ge> system_mem av then do {
       av \<leftarrow> printerr av;
       Some (None, None, av) }
     else do {
       assert_c (\<not> chunk_is_mmapped av md);
       av \<leftarrow> assert_md_next E md oldp av;
       nx \<leftarrow> md_next (ci av md);
       let nextchunk = chunkinfo2chunk av nx;
       t \<leftarrow> md_top av;
       let topchunk = chunkinfo2chunk av t;
       let nextsize = chunksize av (Some nx);
       if csize (ci av nx) \<le> 2 * SIZE_SZ \<or> nextsize \<ge> system_mem av then do {
         av \<leftarrow> printerr av;
         Some (None, None, av) }
       else if oldsize \<ge> nb then do {
         av \<leftarrow> realloc_trim S md oldp oldsize nb av;
         Some (Some md, None, av) }
       else if nextchunk = topchunk \<and> oldsize + nextsize \<ge> nb + MINSIZE then do {
         av \<leftarrow> realloc_into_top E md oldp topchunk (oldsize + nextsize) nb av;
         Some (Some md, None, av) }
       else do {
         (nextfree, av) \<leftarrow>
           (if nextchunk \<noteq> topchunk then do { (u, av) \<leftarrow> inuse_bit E nx av; Some (\<not> u, av) } else Some (False, av));
         if nextfree \<and> oldsize + nextsize \<ge> nb then do {
           av \<leftarrow> realloc_into_next E md oldp nx nextchunk av;
           av \<leftarrow> realloc_trim S md oldp (oldsize + nextsize) nb av;
           Some (Some md, None, av) }
         else realloc_move S md oldp nextchunk oldsize nb av } } }"

section \<open>\<open>realloc\<close>\<close>

text \<open>A mapped chunk that is too small is replaced.\<close>

definition realloc_mapped ::
  "('z proc_scheme) sysenv \<Rightarrow> bptr \<Rightarrow> u64 \<Rightarrow> u64 \<Rightarrow> u64 \<Rightarrow> 'z proc_scheme \<Rightarrow> (u64 \<times> copy \<times> 'z proc_scheme) option" where
  "realloc_mapped S md oldmem bytes nb av = do {
     let oldsize = chunksize av (Some md);
     if oldsize - SIZE_SZ \<ge> nb then Some (oldmem, None, av)
     else do {
       (newmem, av) \<leftarrow> libc_malloc S bytes av;
       if newmem = 0 then Some (0, None, av)
       else do {
         let copied = (newmem, oldmem, oldsize - 2 * SIZE_SZ);
         av \<leftarrow> munmap_chunk S md av;
         (_, av) \<leftarrow> unregister_chunk (cienv S) (mem2chunk oldmem) av;
         Some (newmem, Some copied, av) } } }"

text \<open>
  The new metadata go through \<open>chunkinfo2chunk\<close>, which asserts that they are not \<open>NULL\<close>: the second attempt,
  which copies \<open>oldsize - SIZE_SZ\<close> bytes, is made only for a chunk at the address \<open>0\<close>.
\<close>

definition realloc_chunk ::
  "('z proc_scheme) sysenv \<Rightarrow> bptr \<Rightarrow> u64 \<Rightarrow> u64 \<Rightarrow> u64 \<Rightarrow> 'z proc_scheme \<Rightarrow> (u64 \<times> copy \<times> 'z proc_scheme) option" where
  "realloc_chunk S md oldmem bytes nb av = do {
     let oldp = mem2chunk oldmem;
     let oldsize = chunksize av (Some md);
     (new, copied, av) \<leftarrow> int_realloc S md oldsize nb av;
     md_new \<leftarrow> new;
     let mem = chunkinfo2mem av new;
     av \<leftarrow> assert_arena S md_new av;
     (mem, copied, av) \<leftarrow>
       (if mem = 0 then do {
          (mem, av) \<leftarrow> libc_malloc S bytes av;
          if mem \<noteq> 0 then do {
            av \<leftarrow> int_free S (Some md) oldp False av;
            Some (mem, Some (mem, oldmem, oldsize - SIZE_SZ), av) }
          else Some (mem, None, av) }
        else Some (mem, copied, av));
     check_top (par av) av;
     Some (mem, copied, av) }"

definition libc_realloc ::
  "('z proc_scheme) sysenv \<Rightarrow> u64 \<Rightarrow> u64 \<Rightarrow> 'z proc_scheme \<Rightarrow> (u64 \<times> copy \<times> 'z proc_scheme) option" where
  "libc_realloc S oldmem bytes av =
    (if bytes = 0 \<and> oldmem \<noteq> 0 then do { av \<leftarrow> libc_free S oldmem av; Some (0, None, av) }
     else if oldmem = 0 then do { (mem, av) \<leftarrow> libc_malloc S bytes av; Some (mem, None, av) }
     else do {
       let oldp = mem2chunk oldmem;
       (i, av) \<leftarrow> chunk_arena S oldp av;
       if \<not> same_arena_index i av then do { (mem, av) \<leftarrow> other_arena S (Realloc_other oldmem bytes) av; Some (mem, None, av) }
       else do {
         (md, av) \<leftarrow> lookup_chunk (cienv S) oldp av;
         md \<leftarrow> md;
         (ok, av) \<leftarrow> replenish_metadata_cache (cienv S) av;
         if \<not> ok then Some (0, None, av)
         else do {
           let oldsize = chunksize av (Some md);
           if oldp > - oldsize \<or> misaligned_chunk oldp then do {
             av \<leftarrow> printerr av;
             Some (0, None, av) }
           else case checked_request2size bytes of
             Inl e \<Rightarrow> Some (0, None, av\<lparr>memory := (memory av)\<lparr>errno := Some e\<rparr>\<rparr>)
           | Inr nb \<Rightarrow>
               if chunk_is_mmapped av md then realloc_mapped S md oldmem bytes nb av
               else realloc_chunk S md oldmem bytes nb av } } })"

section \<open>\<open>_int_memalign\<close>\<close>

text \<open>The first aligned address that leaves no leader or one of at least \<open>MINSIZE\<close>.\<close>

definition aligned_spot :: "u64 \<Rightarrow> u64 \<Rightarrow> u64" where
  "aligned_spot m alignment =
    (let p = mem2chunk m;
         brk = mem2chunk ((m + alignment - 1) AND - alignment) in
     if brk - p < MINSIZE then brk + alignment else brk)"

text \<open>In a mapped chunk only the start of the chunk moves.\<close>

definition memalign_mapped ::
  "('z proc_scheme) sysenv \<Rightarrow> bptr \<Rightarrow> u64 \<Rightarrow> u64 \<Rightarrow> 'z proc_scheme \<Rightarrow> (bptr option \<times> 'z proc_scheme) option" where
  "memalign_mapped S md p newp av =
    (if \<not> is_main av then memalign_in_main S md p newp av
     else do {
       let E = cienv S;
       let leadsize = newp - p;
       let newsize = chunksize av (Some md) - leadsize;
       (md_new, av) \<leftarrow> register_chunk E newp av;
       let av = w_prev_size (prev_size (ci av md) + leadsize) md_new av;
       let av = w_md_prev None md_new av;
       let av = w_md_next None md_new av;
       let av = set_head md_new (newsize OR IS_MMAPPED) av;
       check_metadata_chunk av newp (Some md_new);
       (_, L) \<leftarrow> lookup_add_mmap (lk_mmap S) newp (chunksize av (Some md)) (lkup av);
       (_, L) \<leftarrow> lookup_delete_mmap (lk_mmap S) p L;
       let av = av\<lparr>lkup := L\<rparr>;
       (_, av) \<leftarrow> unregister_chunk E p av;
       Some (Some md_new, av) })"

text \<open>Otherwise the leader is given back.\<close>

definition memalign_lead ::
  "('z proc_scheme) sysenv \<Rightarrow> bptr \<Rightarrow> u64 \<Rightarrow> u64 \<Rightarrow> u64 \<Rightarrow> u64 \<Rightarrow> 'z proc_scheme \<Rightarrow> (bptr \<times> 'z proc_scheme) option" where
  "memalign_lead S md p newp alignment nb av = do {
     let E = cienv S;
     let leadsize = newp - p;
     let newsize = chunksize av (Some md) - leadsize;
     (md_new, av) \<leftarrow> register_chunk E newp av;
     let temp = md_next (ci av md);
     let av = w_md_next temp md_new av;
     q \<leftarrow> temp;
     let av = w_md_prev (Some md_new) q av;
     let av = w_md_prev (Some md) md_new av;
     let av = w_md_next (Some md_new) md av;
     let av = set_head md_new (newsize OR PREV_INUSE) av;
     av \<leftarrow> set_inuse_bit E md_new av;
     let av = set_head_size md leadsize av;
     check_metadata_chunk av newp (Some md_new);
     av \<leftarrow> int_free S (Some md) p False av;
     assert_c (newsize \<ge> nb \<and> chunk2mem newp mod alignment = 0);
     Some (md_new, av) }"

text \<open>Spare room at the end is given back as well.\<close>

definition memalign_trim ::
  "('z proc_scheme) sysenv \<Rightarrow> bptr \<Rightarrow> u64 \<Rightarrow> u64 \<Rightarrow> 'z proc_scheme \<Rightarrow> 'z proc_scheme option" where
  "memalign_trim S md p nb av =
    (if chunk_is_mmapped av md then Some av
     else do {
       let E = cienv S;
       let sz = chunksize av (Some md);
       if sz > nb + MINSIZE then do {
         let remainder_size = sz - nb;
         let remainder = chunk_at_offset p nb;
         (r, av) \<leftarrow> register_chunk E remainder av;
         let temp = md_next (ci av md);
         let av = w_md_next temp r av;
         let av = w_md_prev (Some md) r av;
         q \<leftarrow> temp;
         let av = w_md_prev (Some r) q av;
         let av = w_md_next (Some r) md av;
         let av = set_head r (remainder_size OR PREV_INUSE) av;
         let av = set_head_size md nb av;
         check_metadata_chunk av remainder (Some r);
         check_metadata_chunk av p (Some md);
         int_free S (Some r) remainder False av }
       else Some av })"

definition int_memalign ::
  "('z proc_scheme) sysenv \<Rightarrow> u64 \<Rightarrow> u64 \<Rightarrow> 'z proc_scheme \<Rightarrow> (bptr option \<times> 'z proc_scheme) option" where
  "int_memalign S alignment bytes av =
    (case checked_request2size bytes of
       Inl e \<Rightarrow> Some (None, av\<lparr>memory := (memory av)\<lparr>errno := Some e\<rparr>\<rparr>)
     | Inr nb \<Rightarrow> do {
         (md, av) \<leftarrow> int_malloc S (nb + alignment + MINSIZE) av;
         let m = chunkinfo2mem av md;
         if m = 0 then Some (None, av)
         else do {
           md \<leftarrow> md;
           let p = mem2chunk m;
           if m mod alignment = 0 then do {
             av \<leftarrow> memalign_trim S md p nb av;
             Some (Some md, av) }
           else do {
             let newp = aligned_spot m alignment;
             if chunk_is_mmapped av md then memalign_mapped S md p newp av
             else do {
               (md, av) \<leftarrow> memalign_lead S md p newp alignment nb av;
               av \<leftarrow> memalign_trim S md newp nb av;
               Some (Some md, av) } } } })"

section \<open>\<open>memalign\<close> and its relatives\<close>

definition powerof2 :: "u64 \<Rightarrow> bool" where
  "powerof2 x \<longleftrightarrow> (x - 1) AND x = 0"

partial_function (option) double_until :: "u64 \<Rightarrow> u64 \<Rightarrow> u64 option" where
  "double_until a alignment = (if a < alignment then double_until (push_bit 1 a) alignment else Some a)"

text \<open>The alignment as \<open>_int_memalign\<close> gets it.\<close>

definition memalign_alignment :: "u64 \<Rightarrow> u64 option" where
  "memalign_alignment alignment =
    (if \<not> powerof2 alignment then double_until (MALLOC_ALIGNMENT * 2) alignment else Some alignment)"

definition refuse :: "errno_code \<Rightarrow> 'z proc_scheme \<Rightarrow> 'z proc_scheme" where
  "refuse e av = av\<lparr>memory := (memory av)\<lparr>errno := Some e\<rparr>\<rparr>"

definition mid_memalign ::
  "('z proc_scheme) sysenv \<Rightarrow> u64 \<Rightarrow> u64 \<Rightarrow> 'z proc_scheme \<Rightarrow> (u64 \<times> 'z proc_scheme) option" where
  "mid_memalign S alignment bytes av =
    (if alignment \<le> MALLOC_ALIGNMENT then libc_malloc S bytes av
     else
       let alignment = (if alignment < MINSIZE then MINSIZE else alignment) in
       if alignment > (- 1) div 2 + 1 then Some (0, refuse EINVAL av)
       else if bytes > (- 1) - alignment - MINSIZE then Some (0, refuse ENOMEM av)
       else do {
         alignment \<leftarrow> memalign_alignment alignment;
         (ok, av) \<leftarrow> replenish_metadata_cache (cienv S) av;
         if \<not> ok then Some (0, av)
         else do {
           (md, av) \<leftarrow> int_memalign S alignment bytes av;
           case md of
             None \<Rightarrow> other_arena S (Memalign_retry alignment bytes) av
           | Some md \<Rightarrow> do {
               let mem = chunkinfo2mem av (Some md);
               av \<leftarrow> assert_arena S md av;
               Some (mem, av) } } })"

definition libc_valloc :: "('z proc_scheme) sysenv \<Rightarrow> u64 \<Rightarrow> 'z proc_scheme \<Rightarrow> (u64 \<times> 'z proc_scheme) option" where
  "libc_valloc S bytes av = mid_memalign S (dl_pagesize (par av)) bytes av"

definition libc_pvalloc :: "('z proc_scheme) sysenv \<Rightarrow> u64 \<Rightarrow> 'z proc_scheme \<Rightarrow> (u64 \<times> 'z proc_scheme) option" where
  "libc_pvalloc S bytes av =
    (let pagesize = dl_pagesize (par av);
         rounded_bytes = ALIGN_UP bytes pagesize in
     if bytes > (- 1) - 2 * pagesize - MINSIZE then Some (0, refuse ENOMEM av)
     else mid_memalign S pagesize rounded_bytes av)"

text \<open>The first result is \<open>None\<close> for \<open>0\<close>.\<close>

definition posix_memalign ::
  "('z proc_scheme) sysenv \<Rightarrow> u64 \<Rightarrow> u64 \<Rightarrow> 'z proc_scheme \<Rightarrow> (errno_code option \<times> u64 \<times> 'z proc_scheme) option" where
  "posix_memalign S alignment sz av =
    (if alignment mod 8 \<noteq> 0 \<or> \<not> powerof2 (alignment div 8) \<or> alignment = 0 then Some (Some EINVAL, 0, av)
     else do {
       (mem, av) \<leftarrow> mid_memalign S alignment sz av;
       if mem \<noteq> 0 then Some (None, mem, av) else Some (Some ENOMEM, 0, av) })"

end
