(* ===== verification/Malloc_Heap.thy ===== *)
theory Malloc_Heap
  imports Malloc_Int Malloc_Realloc
begin

text \<open>
  The heap as the program sees it: what \<open>malloc\<close> and \<open>free\<close> do to the blocks that the program has. A block
  is in the heap of the main arena (\<open>U\<close>) or mapped on its own (\<open>M\<close>).
\<close>

section \<open>Mapped chunks\<close>

lemma drop_mapped_ok:
  assumes ok: "heap_ok Z A S P N V T H F G t" and c: "c \<notin> H" "T k = Some c"
  shows "heap_ok (Z - region A S c) A S P N V (T(k := None)) H F G t" "ran (T(k := None)) = ran T - {c}"
proof -
  note D = heap_okD [OF ok]
  have key: "A x = k'" if "T k' = Some x" for k' x using D(8) that by (auto simp: table_fits_def)
  show ran: "ran (T(k := None)) = ran T - {c}"
  proof (rule ran_delete)
    show "T k = Some c" by (fact c(2))
    show "k' = k" if "T k' = Some c" for k' using key [OF that] key [OF c(2)] by simp
  qed
  have cT: "c \<in> ran T" using c(2) by (rule ranI)
  have "table_fits (Z - region A S c) A S (T(k := None))"
    unfolding table_fits_def ran
  proof (intro conjI allI ballI impI)
    show "A x = k'" if "(T(k := None)) k' = Some x" for k' x using that key by (auto split: if_splits)
    fix x assume x: "x \<in> ran T - {c}"
    have "apart A S x c" "region A S x \<subseteq> Z" using D(8) x cT by (auto simp: table_fits_def)
    then show "region A S x \<subseteq> Z - region A S c" by (auto simp: apart_def region_def)
    show "mapped_fits (S x)" using D(8) x by (auto simp: table_fits_def)
    fix y assume "y \<in> ran T - {c}" "x \<noteq> y"
    then show "apart A S x y" using D(8) x by (auto simp: table_fits_def)
  qed
  moreover have "H \<subseteq> ran (T(k := None))" using D(6) ran c(1) by blast
  moreover have "\<forall>x \<in> ran (T(k := None)) - H. N x = None \<and> P x = 0" using D(13,14) ran by auto
  ultimately show "heap_ok (Z - region A S c) A S P N V (T(k := None)) H F G t"
    using D(1-12) D(15) unfolding heap_ok_def by blast
qed

lemma block_in_table:
  assumes I: "pend Z L E n av T f S H F G X own t" and c: "c \<in> used H F G X t \<union> (ran T - H)"
  shows "T (fA f c) = Some c" "shown av T c"
proof -
  have r: "c \<in> ran T" using c heap_okD(6) [OF pendD(2) [OF I]] by (auto simp: used_def)
  then obtain k where k: "T k = Some c" by (rule ranE)
  then show "T (fA f c) = Some c" using heap_okD(8) [OF pendD(2) [OF I]] by (auto simp: table_fits_def)
  show "shown av T c" using r by (simp add: shown_def)
qed

lemma adjust_par_ok:
  assumes "par_ok (par av)"
  shows "par_ok (par (adjust_thresholds md av))"
proof (cases "\<not> no_dyn_threshold (par av) \<and> csize (ci av md) > mmap_threshold (par av) \<and> csize (ci av md) \<le> DEFAULT_MMAP_THRESHOLD_MAX")
  case True
  define s where "s = csize (ci av md)"
  have s: "32 < unat s" "unat s \<le> 33554432"
    using True assms by (auto simp: par_ok_def s_def MINSIZE_eq DEFAULT_MMAP_THRESHOLD_MAX_def word_less_nat_alt word_le_nat_alt)
  have c: "chunksize av (Some md) = head_size s" by (simp add: chunksize_def head_size_def s_def)
  have "8 \<le> unat s div 4" "unat s div 4 * 4 \<le> unat s" using s(1) by (simp_all add: less_eq_div_iff_mult_less_eq)
  then have h: "32 \<le> unat (head_size s)" "unat (head_size s) \<le> 33554432" using s(2) by (simp_all add: size_of_eq)
  then have "unat (2 * head_size s) = 2 * unat (head_size s)" by (simp add: unat_word_ariths)
  then show ?thesis using True assms h
    by (simp add: adjust_thresholds_def par_ok_def c MINSIZE_eq word_less_nat_alt word_le_nat_alt)
next
  case False
  then show ?thesis using assms by (auto simp: adjust_thresholds_def)
qed

text \<open>The mapping of a chunk goes back, and the chunk leaves the table.\<close>

lemma unmap_view:
  fixes av :: "'z proc_scheme"
  assumes run: "munmap_chunk S c av = Some av2" "unregister_chunk (cienv S) p av2 = Some (x, av')" and v: "view (cienv S) n av T f"
    and ct: "T p = Some c" and pA: "fA f c = p" and pv: "fP f c = 0" and pk: "par_ok (par av)" and k: "kernel_ok (kernel S) brk got"
  shows "mmapped_bit (fS f c)" and "view (cienv S) n av' (T(p := None)) f"
    and "got (calls av') = got (calls av) - {unat p ..< unat p + size_of (fS f c)}"
    and "fastbinsY av' = fastbinsY av" "md_top av' = md_top av" "bins_base av' = bins_base av" "bin_map av' = bin_map av"
      "have_fastchunks av' = have_fastchunks av" "steady av av'"
proof -
  have sh: "shown av T c" using ct by (auto simp: shown_def intro: ranI)
  note vc = view_chunk [OF v sh] and vs = view_sel [OF v sh]
  show "mmapped_bit (fS f c)" using run(1) vc(4) by (auto simp: munmap_chunk_def Let_def bind_assert_eq_Some_iff)
  have "prev_size (ci av c) = 0" using vs(2) pv by simp
  moreover have "check_action (par av) AND 2 \<noteq> 0" using pk by (simp add: par_ok_def)
  ultimately obtain L Q where a2: "av2 = av\<lparr>par := Q, lkup := L, calls := calls av @ [Munmap p (head_size (fS f c))]\<rparr>"
    and Q: "par_ok Q = par_ok (par av)"
    using run(1) vc pA
    by (auto simp: munmap_chunk_def Let_def bind_assert_eq_Some_iff bind_eq_Some_conv assert_c_def par_ok_def split: if_splits)
  have v2: "view (cienv S) n av2 T f" by (rule view_same [OF v]) (simp_all add: a2)
  note u = unregister_view [OF run(2) v2 ct]
  note fu = frame_sel [OF u(2)] frame_proc [OF u(2)]
  show "view (cienv S) n av' (T(p := None)) f" by (fact u(1))
  show "got (calls av') = got (calls av) - {unat p ..< unat p + size_of (fS f c)}" using k fu by (simp add: a2 kernel_ok_def)
  show "fastbinsY av' = fastbinsY av" "md_top av' = md_top av" "bins_base av' = bins_base av" "bin_map av' = bin_map av"
      "have_fastchunks av' = have_fastchunks av" "steady av av'"
    using fu pk Q by (simp_all add: steady_def a2 have_fastchunks_def)
qed

lemma free_mapped_view:
  fixes av :: "'z proc_scheme"
  assumes run: "free_mapped S p av = Some av'" and v: "view (cienv S) n av T f" and ct: "T p = Some c" and pA: "fA f c = p" and pv: "fP f c = 0"
    and pk: "par_ok (par av)" and k: "kernel_ok (kernel S) brk got"
  shows "mmapped_bit (fS f c)" and "view (cienv S) n av' (T(p := None)) f"
    and "got (calls av') = got (calls av) - {unat p ..< unat p + size_of (fS f c)}"
    and "fastbinsY av' = fastbinsY av" "md_top av' = md_top av" "bins_base av' = bins_base av" "bin_map av' = bin_map av"
      "have_fastchunks av' = have_fastchunks av" "steady av av'"
proof -
  let ?E = "cienv S"
  from run obtain md av1 av2 x where r: "lookup_chunk ?E p av = Some (Some md, av1)" "munmap_chunk S md (adjust_thresholds md av1) = Some av2"
    "unregister_chunk ?E p av2 = Some (x, av')"
    by (auto simp: free_mapped_def bind_eq_Some_conv bind_assert_eq_Some_iff Let_def)
  note l = lookup_view [OF r(1) v]
  have md: "md = c" using l(1) ct by simp
  define av3 where "av3 = adjust_thresholds c av1"
  have a3: "par_ok (par av3)" unfolding av3_def by (rule adjust_par_ok) (use pk frame_proc(1) [OF l(3)] in simp)
  have e3: "memory av3 = memory av1" "htbl av3 = htbl av1" "bins_base av3 = bins_base av1" "bin_heads av3 = bin_heads av1"
    "metadata_cache_count av3 = metadata_cache_count av1" "fastbinsY av3 = fastbinsY av1" "md_top av3 = md_top av1" "calls av3 = calls av1"
    "is_main av3 = is_main av1" "initial_top av3 = initial_top av1" "bin_map av3 = bin_map av1" "flags av3 = flags av1"
    by (simp_all add: av3_def adjust_thresholds_def)
  have v3: "view ?E n av3 T f" by (rule view_same [OF l(2)]) (simp_all add: e3)
  note fr = frame_sel [OF l(3)] frame_proc [OF l(3)]
  note w = unmap_view [OF r(2) [unfolded md av3_def [symmetric]] r(3) v3 ct pA pv a3 k]
  have "steady av av3" using fr a3 by (simp add: steady_def e3)
  from steady_trans [OF this w(9)] show "steady av av'" .
  show "mmapped_bit (fS f c)" "view ?E n av' (T(p := None)) f"
    "got (calls av') = got (calls av) - {unat p ..< unat p + size_of (fS f c)}"
    "fastbinsY av' = fastbinsY av" "md_top av' = md_top av" "bins_base av' = bins_base av" "bin_map av' = bin_map av"
      "have_fastchunks av' = have_fastchunks av"
    using w fr e3 by (simp_all add: have_fastchunks_def)
qed

text \<open>The blocks are the others then.\<close>

lemma state_unmapped:
  assumes I: "pend Z [] E n av T f (fS f) H F G X own t" and B: "used H F G X t = U" "ran T - H = M" "\<forall>d \<in> U \<union> M. B d = blocks_of f d"
    and c: "c \<in> U \<union> M" "T p = Some c" "fA f c = p" "mmapped_bit (fS f c)" and v: "view E n av' (T(p := None)) f"
    and z: "Z' = Z - {unat p ..< unat p + size_of (fS f c)}"
    and fr: "fastbinsY av' = fastbinsY av" "md_top av' = md_top av" "bins_base av' = bins_base av"
  shows "c \<in> M" and "state Z' [] E n av' U (M - {c}) B"
proof -
  note P = pendD [OF I]
  have cH: "c \<notin> H" using used_sizes(3) [OF I] c(4) by blast
  then show cM: "c \<in> M" using B c(1) by (auto simp: used_def)
  have "region (fA f) (fS f) c = insert (unat p) {unat p ..< unat p + size_of (fS f c)}" by (simp add: region_def start_def c(3))
  then have Z: "Z - region (fA f) (fS f) c \<subseteq> Z'" using z by auto
  note dm = drop_mapped_ok [OF P(2) cH c(2)]
  have hk: "heap_ok Z' (fA f) (fS f) (fP f) (fN f) (fV f) (T(p := None)) H F G t"
    using dm(1) Z unfolding heap_ok_def table_fits_def by blast
  have "pend Z' [] E n av' (T(p := None)) f (fS f) H F G X own t"
    by (rule pend_rebuild [OF I v hk]) (use fr P(6,7) in simp_all)
  then show "state Z' [] E n av' U (M - {c}) B"
  proof (rule stateI)
    show "used H F G X t = U" by (fact B(1))
    show "ran (T(p := None)) - H = M - {c}" using dm(2) B(2) cH by auto
    show "B d = blocks_of f d" if "d \<in> U \<union> (M - {c})" for d using B(3) that by blast
  qed
qed

lemma free_mappedD:
  fixes av :: "'z proc_scheme"
  assumes run: "free_mapped S p av = Some av'" and st: "state (got (calls av)) [] (cienv S) n av U M B" and c: "c \<in> U \<union> M" "fst (B c) = p"
    and pk: "par_ok (par av)" and k: "kernel_ok (kernel S) brk got"
  shows "c \<in> M \<and> state (got (calls av')) [] (cienv S) n av' U (M - {c}) B \<and> steady av av'"
proof -
  let ?E = "cienv S"
  from st obtain T f H F G X own t where I: "pend (got (calls av)) [] ?E n av T f (fS f) H F G X own t"
    and B: "used H F G X t = U" "ran T - H = M" "\<forall>d \<in> U \<union> M. B d = blocks_of f d" by (rule stateE)
  note P = pendD [OF I] and D = heap_okD [OF pendD(2) [OF I]]
  have pA: "fA f c = p" using c B(3) by (simp add: blocks_of_def)
  note ct = block_in_table [OF I, of c, unfolded B(1,2) pA, OF c(1)]
  have "fP f c = 0"
  proof (cases "c \<in> H")
    case True
    from run obtain md av1 where "lookup_chunk ?E p av = Some (Some md, av1)" "munmap_chunk S md (adjust_thresholds md av1) \<noteq> None"
      by (auto simp: free_mapped_def bind_eq_Some_conv bind_assert_eq_Some_iff Let_def)
    moreover note l = lookup_view [OF this(1) P(1)]
    moreover have "md = c" using l(1) ct(1) by simp
    moreover have "view ?E n (adjust_thresholds c av1) T f" by (rule view_same [OF l(2)]) (simp_all add: adjust_thresholds_def)
    moreover have "shown (adjust_thresholds c av1) T c" using ct(1) by (auto simp: shown_def intro: ranI)
    ultimately have "mmapped_bit (fS f c)"
      using view_chunk(4) [of ?E n "adjust_thresholds c av1" T f c] by (auto simp: munmap_chunk_def Let_def assert_c_def split: if_splits)
    then show ?thesis using used_sizes(3) [OF I True] by simp
  next
    case False
    then show ?thesis using D(14) [of c] ct(1) by (auto intro: ranI)
  qed
  note w = free_mapped_view [OF run P(1) ct(1) pA this pk k]
  show ?thesis using state_unmapped [OF I B c(1) ct(1) pA w(1,2,3-6)] w(9) by blast
qed

section \<open>\<open>malloc\<close>, \<open>calloc\<close> and \<open>free\<close>\<close>

text \<open>
  A process with one arena: a second attempt finds no other arena, and an index of another arena runs into the
  assertions of \<open>arena_from_index\<close>.
\<close>

definition alone :: "('z proc_scheme) sysenv \<Rightarrow> bool" where
  "alone S \<longleftrightarrow> (\<forall>c av. other_arena S c av = (case c of Malloc_retry b \<Rightarrow> Some (0, av) | Memalign_retry a b \<Rightarrow> Some (0, av) | _ \<Rightarrow> None))"

lemma chunk_arenaD:
  fixes av :: "'z proc_scheme"
  assumes "chunk_arena S p av = Some (i, av')"
  shows "\<exists>L. av' = av\<lparr>lkup := L\<rparr>"
  using assms by (auto simp: chunk_arena_def bind_eq_Some_conv)

lemma assert_arenaD:
  fixes av :: "'z proc_scheme"
  assumes "assert_arena S md av = Some av'"
  shows "\<exists>L. av' = av\<lparr>lkup := L\<rparr>"
proof (cases "chunkinfo2mem av (Some md) = 0 \<or> chunk_is_mmapped av md")
  case True
  then show ?thesis using assms by (intro exI [of _ "lkup av"]) (auto simp: assert_arena_def Let_def)
next
  case False
  then show ?thesis using assms chunk_arenaD [of S _ av]
    by (auto simp: assert_arena_def Let_def bind_eq_Some_conv bind_assert_eq_Some_iff split: if_splits)
qed

lemma state_lkup:
  fixes av :: "'z proc_scheme"
  shows "state Z L E n (av\<lparr>lkup := K\<rparr>) U M B = state Z L E n av U M B"
proof
  show "state Z L E n av U M B \<Longrightarrow> state Z L E n (av\<lparr>lkup := K\<rparr>) U M B" by (rule state_same) simp_all
  show "state Z L E n (av\<lparr>lkup := K\<rparr>) U M B \<Longrightarrow> state Z L E n av U M B" by (drule state_same [where av' = av]) simp_all
qed

text \<open>The address of a mapped chunk does not get through \<open>_int_free\<close>: its metadata has no next chunk.\<close>

lemma int_free_no_next:
  fixes av :: "'z proc_scheme"
  assumes v: "view (cienv S) n av T f" and t: "md_top av = Some t" and ct: "T p = Some c" and N: "fN f c = None"
    and ab: "check_action (par av) AND 2 \<noteq> 0"
  shows "int_free S None p fh av = None"
proof (rule ccontr)
  let ?E = "cienv S"
  assume "int_free S None p fh av \<noteq> None"
  then obtain av' where run: "int_free S None p fh av = Some av'" by blast
  from run obtain md1 av1 where r: "lookup_chunk ?E p av = Some (Some md1, av1)"
    "(if p > - chunksize av1 (Some md1) \<or> misaligned_chunk p then printerr av1
     else if chunksize av1 (Some md1) < MINSIZE \<or> \<not> aligned_OK (chunksize av1 (Some md1)) then printerr av1
     else do {
       av2 \<leftarrow> assert_md_next ?E md1 p av1;
       md_nextchunk \<leftarrow> md_next (ci av2 md1);
       if chunksize av1 (Some md1) \<le> global_max_fast (par av2)
       then free_fast md1 (chunksize av1 (Some md1)) md_nextchunk (chunksize av2 (Some md_nextchunk)) av2
       else if \<not> chunk_is_mmapped av2 md1
         then free_normal S md1 p (chunksize av1 (Some md1)) md_nextchunk (chunkinfo2chunk av2 md_nextchunk) (chunksize av2 (Some md_nextchunk))
           (chunkinfo2chunk av t) fh av2
       else free_mmapped S md1 p av2 }) = Some av'"
    unfolding int_free_def Let_def t Option.bind.simps(2) if_P [OF refl] by (elim bindE) simp
  note l = lookup_view [OF r(1) v]
  have md: "md1 = c" using l(1) ct by simp
  have s1: "shown av1 T c" using ct by (auto simp: shown_def intro: ranI)
  have pe: "printerr av1 = None" using printerr_abort [of av1] ab frame_proc(1) [OF l(3)] by simp
  from r(2) [unfolded md pe] obtain av2 nxc where "assert_md_next ?E c p av1 = Some av2" "md_next (ci av2 c) = Some nxc"
    by (auto split: if_splits elim!: bindE)
  from next_step(1) [OF this l(2) s1] N show False by simp
qed

lemma int_free_mapped:
  fixes av :: "'z proc_scheme"
  assumes st: "state Z [] (cienv S) n av U M B" and c: "c \<in> M" "fst (B c) = p" and ab: "check_action (par av) AND 2 \<noteq> 0"
  shows "int_free S None p fh av = None"
proof -
  from st obtain T f H F G X own t where I: "pend Z [] (cienv S) n av T f (fS f) H F G X own t"
    and B: "used H F G X t = U" "ran T - H = M" "\<forall>d \<in> U \<union> M. B d = blocks_of f d" by (rule stateE)
  note P = pendD [OF I]
  have "fA f c = p" using c B(3) by (simp add: blocks_of_def)
  then have "T p = Some c" using block_in_table(1) [OF I, of c] c(1) B by auto
  moreover have "fN f c = None" using heap_okD(13) [OF P(2)] c(1) B(2) by blast
  ultimately show ?thesis by (rule int_free_no_next [OF P(1,7) _ _ ab])
qed

lemma libc_freeE:
  fixes av :: "'z proc_scheme"
  assumes run: "libc_free S mem av = Some av'" and mem: "mem \<noteq> 0" and al: "alone S"
  obtains K where "free_mapped S mem (av\<lparr>lkup := K\<rparr>) = Some av' \<or> int_free S None mem False (av\<lparr>lkup := K\<rparr>) = Some av'"
proof -
  have mp: "mem2chunk mem = mem" by (simp add: mem2chunk_def HEADER_SIZE_def)
  from run obtain i av1 j av2 where r: "chunk_arena S mem av = Some (i, av1)" "chunk_arena S mem av1 = Some (j, av2)"
    "(if \<not> same_arena_index i av2 then do { (_, av) \<leftarrow> other_arena S (Free_other mem) av2; Some av }
      else if i = MMAPPED_ARENA_INDEX then free_mapped S mem av2
      else do { av \<leftarrow> int_free S None mem False av2; check_top (par av) av; Some av }) = Some av'"
    using mem by (auto simp: libc_free_def mp bind_eq_Some_conv bind_assert_eq_Some_iff)
  obtain K where a2: "av2 = av\<lparr>lkup := K\<rparr>" using chunk_arenaD [OF r(1)] chunk_arenaD [OF r(2)] by auto
  have "free_mapped S mem av2 = Some av' \<or> int_free S None mem False av2 = Some av'"
    using r(3) al by (auto simp: alone_def bind_eq_Some_conv split: if_splits)
  then show thesis using that a2 by blast
qed

text \<open>Either way out of \<open>free\<close> takes the chunk from the blocks of the program.\<close>

lemma free_stateD:
  fixes av :: "'z proc_scheme"
  assumes run: "free_mapped S p av = Some av' \<or> int_free S None p False av = Some av'"
    and st: "state (got (calls av)) [] (cienv S) n av U M B" and c: "c \<in> U \<union> M" "fst (B c) = p"
    and p: "par_ok (par av)" and mn: "is_main av" and k: "kernel_ok (kernel S) brk got"
  shows "state (got (calls av')) [] (cienv S) n av' (U - {c}) (M - {c}) B \<and> steady av av'"
  using run
proof
  assume "free_mapped S p av = Some av'"
  from free_mappedD [where got = got, OF this st c p k]
  have f: "c \<in> M" "state (got (calls av')) [] (cienv S) n av' U (M - {c}) B" "steady av av'" by simp_all
  have "c \<notin> U" using st f(1) by (auto simp: state_def used_def)
  then show ?thesis using f by simp
next
  assume r: "int_free S None p False av = Some av'"
  have m: "c \<notin> M"
  proof
    assume "c \<in> M"
    from int_free_mapped [OF st this c(2), of False] r p show False by (simp add: par_ok_def)
  qed
  with c have "c \<in> U" by simp
  from int_freeD [where got = got, OF r st this c(2) disjI1 [OF refl] p k mn] m show ?thesis using firm_steady by auto
qed

end
