(* ===== verification/Malloc_Bare.thy ===== *)
theory Malloc_Bare
  imports Malloc_Heap
begin

text \<open>
  The arena before it has a heap: top is the chunk \<open>initial_top\<close> of size \<open>0\<close>, every bin is empty, and all
  chunks are mapped on their own. \<open>malloc\<close> goes straight to \<open>sysmalloc\<close>.
\<close>

section \<open>The state\<close>

definition bare where
  "bare Z E n av M B \<longleftrightarrow> (\<exists>T f own t. view E n av T f \<and> table_fits Z (fA f) (fS f) T \<and> (\<forall>c \<in> ran T. fN f c = None \<and> fP f c = 0) \<and>
     rings_ok f own {} (bins_base av) \<and> fastbinsY av = replicate NFASTBINS None \<and> bin_map av = replicate BINMAPSIZE 0 \<and>
     \<not> have_fastchunks av \<and> md_top av = Some t \<and> t \<in> ran T \<and> fS f t = 0 \<and> ran T = M \<and> (\<forall>c \<in> M. B c = blocks_of f c))"

lemma bareI:
  assumes "view E n av T f" "table_fits Z (fA f) (fS f) T" "\<And>c. c \<in> ran T \<Longrightarrow> fN f c = None \<and> fP f c = 0"
    "rings_ok f own {} (bins_base av)" "fastbinsY av = replicate NFASTBINS None" "bin_map av = replicate BINMAPSIZE 0"
    "\<not> have_fastchunks av" "md_top av = Some t" "t \<in> ran T" "fS f t = 0" "ran T = M" "\<And>c. c \<in> M \<Longrightarrow> B c = blocks_of f c"
  shows "bare Z E n av M B"
  using assms unfolding bare_def by blast

lemma bareE:
  assumes "bare Z E n av M B"
  obtains T f own t where "view E n av T f" "table_fits Z (fA f) (fS f) T" "\<forall>c \<in> ran T. fN f c = None \<and> fP f c = 0"
    "rings_ok f own {} (bins_base av)" "fastbinsY av = replicate NFASTBINS None" "bin_map av = replicate BINMAPSIZE 0"
    "\<not> have_fastchunks av" "md_top av = Some t" "t \<in> ran T" "fS f t = 0" "ran T = M" "\<forall>c \<in> M. B c = blocks_of f c"
  using assms unfolding bare_def by blast

lemma bare_same:
  assumes "bare Z E n av M B" and "memory av' = memory av" "htbl av' = htbl av" "bins_base av' = bins_base av" "bin_heads av' = bin_heads av"
    "metadata_cache_count av' = metadata_cache_count av" "fastbinsY av' = fastbinsY av" "md_top av' = md_top av" "bin_map av' = bin_map av"
    "have_fastchunks av' = have_fastchunks av"
  shows "bare Z E n av' M B"
proof -
  from assms(1) obtain T f own t where b: "view E n av T f" "table_fits Z (fA f) (fS f) T" "\<forall>c \<in> ran T. fN f c = None \<and> fP f c = 0"
    "rings_ok f own {} (bins_base av)" "fastbinsY av = replicate NFASTBINS None" "bin_map av = replicate BINMAPSIZE 0"
    "\<not> have_fastchunks av" "md_top av = Some t" "t \<in> ran T" "fS f t = 0" "ran T = M" "\<forall>c \<in> M. B c = blocks_of f c" by (rule bareE)
  have "view E n av' T f" by (rule view_same [OF b(1)]) (use assms in simp_all)
  then show ?thesis by (rule bareI) (use b assms in simp_all)
qed

lemma bare_more: "bare Z E n av M B \<Longrightarrow> m \<le> n \<Longrightarrow> bare Z E m av M B"
  by (elim bareE) (rule bareI [OF view_more], auto)

lemma bare_mono: "bare Z E n av M B \<Longrightarrow> Z \<subseteq> Z' \<Longrightarrow> bare Z' E n av M B"
  unfolding bare_def table_fits_def by (elim exE conjE) (intro exI conjI; (assumption | blast)?)

lemma have_fastchunks_calls [simp]: "have_fastchunks (av\<lparr>calls := cs\<rparr>) = have_fastchunks av"
  by (simp add: have_fastchunks_def)

section \<open>Every bin is empty\<close>

lemma bare_bin:
  assumes "bare Z E n av M B" and "1 \<le> i" "i < NBINS"
  shows "fd (ci av (Bptr (bins_base av) i)) = Some (Bptr (bins_base av) i)" "bk (ci av (Bptr (bins_base av) i)) = Some (Bptr (bins_base av) i)"
proof -
  let ?h = "Bptr (bins_base av) i"
  from assms(1) obtain T f own t where b: "view E n av T f" "rings_ok f own {} (bins_base av)" by (rule bareE)
  have R: "ring_ok (fF f) (fB f) own {} (bins_base av)" using rings_okD(1) [OF b(2)] .
  have h: "?h \<in> {} \<union> headers (bins_base av)" using assms(2,3) by (auto simp: headers_def)
  have own: "own (Bptr (bins_base av) j) = j" if "1 \<le> j" "j < NBINS" for j using R that unfolding ring_ok_def by blast
  have *: "y = ?h" if "y \<in> {} \<union> headers (bins_base av)" "own y = own ?h" for y
    using that own assms(2,3) by (auto simp: headers_def)
  have s: "shown av T ?h" by (simp add: shown_def)
  show "fd (ci av ?h) = Some ?h" using view_sel(4) [OF b(1) s] ring_okD(1,3) [OF R h] * by metis
  show "bk (ci av ?h) = Some ?h" using view_sel(5) [OF b(1) s] ring_okD(2,4) [OF R h] * by metis
qed

lemma next_block_clear:
  assumes "unat b < BINMAPSIZE"
  shows "next_block (replicate BINMAPSIZE 0) b = Some None"
  using assms
proof (induction "BINMAPSIZE - unat b" arbitrary: b rule: less_induct)
  case less
  have "unat (b + 1) = unat b + 1" using less.prems by (simp add: malloc_consts unat_word_ariths)
  then show ?case
    by (subst next_block.simps) (use less in \<open>simp add: Let_def\<close>)
qed

lemma bare_chunksize:
  assumes "bare Z E n av M B"
  obtains t where "md_top av = Some t" "chunksize av (Some t) = 0" "csize (ci av t) = 0" "t \<in> M" "snd (B t) = 0" "chunkinfo2chunk av t = fst (B t)"
proof -
  from assms obtain T f own t where b: "view E n av T f" "md_top av = Some t" "t \<in> ran T" "fS f t = 0" "ran T = M" "\<forall>c \<in> M. B c = blocks_of f c"
    by (rule bareE)
  have s: "shown av T t" using b(3) by (simp add: shown_def)
  have "size_of 0 = 0" by (simp add: size_of_eq)
  then show thesis using that b view_chunk(1,2) [OF b(1) s] view_sel(3) [OF b(1) s]
    by (auto simp: head_size_def blocks_of_def)
qed


section \<open>\<open>_int_malloc\<close> is \<open>sysmalloc\<close>\<close>

lemma bare_scan:
  assumes b: "bare Z E n av M B"
  shows "malloc_larger_bins E nb idx av = (if unat (idx2block (idx + 1)) < BINMAPSIZE then Some (None, av) else None)"
proof -
  from b have bm: "bin_map av = replicate BINMAPSIZE 0" by (rule bareE)
  have c: "bt > wd \<or> bt = 0" if "wd = 0" for bt wd :: u32 using that by (auto simp: word_gt_0)
  show ?thesis
    by (simp add: malloc_larger_bins_def bm bind_assert_eq_Some_iff assert_c_def) (subst scan_bins.simps, simp add: c next_block_clear bm)
qed

lemma bare_malloc_loop:
  fixes av :: "'z proc_scheme"
  assumes b: "bare Z (cienv S) n av M B" and rq: "req_ok nb"
  shows "malloc_loop S nb (bin_index nb) av = sysmalloc S nb av"
proof -
  let ?E = "cienv S"
  from b have nf: "\<not> have_fastchunks av" by (rule bareE)
  obtain t where t: "md_top av = Some t" "chunksize av (Some t) = 0" by (rule bare_chunksize [OF b])
  have big: "\<not> nb + MINSIZE \<le> 0"
    using rq by (auto simp: req_ok_def MINSIZE_eq word_le_nat_alt unat_word_ariths)
  have ix: "1 \<le> unat (bin_index nb)" "unat (bin_index nb) < NBINS - 1"
    using rq bin_index_nat [of nb] large_index_bound [of "unat nb + 16"]
    by (auto simp: req_ok_def NBINS_def less_eq_div_iff_mult_less_eq div_less_iff_less_mult)
  have ix': "unat (bin_index nb) < NBINS" using ix by simp
  note bin = bare_bin [OF b ix(1) ix']
  have r3: "unsorted_loop ?E MAX_ITERS nb av = Some (None, av)"
    using bare_bin(2) [OF b, of 1] by (simp add: MAX_ITERS_def bin_at_def malloc_consts numeral_eq_Suc)
  have r4: "malloc_large ?E nb (bin_index nb) av = Some (None, av)" using bin by (simp add: malloc_large_def bin_at_def Let_def)
  have r5: "malloc_larger_bins ?E nb (bin_index nb) av = Some (None, av)"
    using ix by (simp add: bare_scan [OF b] idx2block_nat malloc_consts unat_word_ariths)
  have r6: "use_top ?E nb av = Some (None, av)" using big by (simp add: use_top_def t)
  show ?thesis by (subst malloc_loop.simps) (simp add: r3 r4 r5 r6 nf)
qed

lemma bare_int_malloc:
  fixes av :: "'z proc_scheme"
  assumes b: "bare Z (cienv S) n av M B" and p: "par_ok (par av)" and nb: "checked_request2size bytes = Inr nb"
  shows "int_malloc S bytes av = sysmalloc S nb av"
proof -
  let ?E = "cienv S"
  note rq = checked_request(1) [OF nb]
  from b obtain T f own t where v: "view ?E n av T f" and fb: "fastbinsY av = replicate NFASTBINS None" and nf: "\<not> have_fastchunks av" by (rule bareE)
  have mc: "metadata_cache_count av = METADATA_CACHE_SIZE" using v by (auto simp: view_def sees_def meta_ok_def)
  have r0: "replenish_metadata_cache ?E av = Some (True, av)" by (simp add: replenish_metadata_cache_def mc assert_c_def)
  have r1: "malloc_fast nb av = Some (None, av)"
  proof (cases "nb \<le> global_max_fast (par av)")
    case True
    then have "unat nb \<le> 160" using p by (auto simp: par_ok_def word_le_nat_alt)
    then have "unat (fastbin_index nb) < NFASTBINS"
      using rq fastbin_index_nat [of nb] by (simp add: req_ok_def NFASTBINS_eq less_diff_conv2 div_less_iff_less_mult)
    then show ?thesis using True by (simp add: malloc_fast_def fb assert_c_def Let_def)
  qed (simp add: malloc_fast_def)
  have ix: "1 \<le> unat (bin_index nb)" "unat (bin_index nb) < NBINS"
    using rq bin_index_nat [of nb] large_index_bound [of "unat nb + 16"]
    by (auto simp: req_ok_def NBINS_def less_eq_div_iff_mult_less_eq div_less_iff_less_mult)
  note bin = bare_bin [OF b ix]
  have r2: "malloc_small S nb av = Some (None, av)"
  proof (cases "in_smallbin_range nb")
    case True
    then have "smallbin_index nb = bin_index nb" by (simp add: bin_index_def)
    then show ?thesis using True bin by (simp add: malloc_small_def bin_at_def Let_def)
  qed (simp add: malloc_small_def nf)
  show ?thesis using bare_malloc_loop [OF b rq] unfolding bin_index_def by (simp add: int_malloc_def nb r0 r1 r2)
qed

section \<open>\<open>sysmalloc\<close>\<close>

lemma fresh_in_table:
  assumes "table_fits Z A S T" and "Z \<inter> {unat a ..< unat a + s} = {}" and "1 \<le> s"
  shows "T a = None"
proof (rule ccontr)
  assume "T a \<noteq> None"
  then obtain d where "T a = Some d" by auto
  then have "A d = a" "region A S d \<subseteq> Z" using assms(1) by (auto simp: table_fits_def ran_def)
  then have "unat a \<in> Z" by (auto simp: region_def start_def)
  then show False using assms(2,3) by auto
qed

lemma table_fits_add:
  assumes ok: "table_fits Z A S T" and r: "r \<notin> ran T"
    and z: "Z \<inter> {unat a ..< unat a + s} = {}" "1 \<le> s" "Z \<union> {unat a ..< unat a + s} \<subseteq> Z'"
    and n: "A' r = a" "size_of (S' r) \<le> s" "32 \<le> size_of (S' r)"
    and eq: "\<And>x. x \<in> ran T \<Longrightarrow> A' x = A x \<and> S' x = S x"
  shows "table_fits Z' A' S' (T(a \<mapsto> r))" "ran (T(a \<mapsto> r)) = insert r (ran T)"
proof -
  have Ta: "T a = None" by (rule fresh_in_table [OF ok z(1,2)])
  then show rT: "ran (T(a \<mapsto> r)) = insert r (ran T)" by simp
  have st: "start A' c = start A c" "size_of (S' c) = size_of (S c)" "region A' S' c = region A S c" "region A S c \<subseteq> Z" if "c \<in> ran T" for c
    using eq [OF that] ok that by (simp_all add: start_def region_def table_fits_def)
  have sr: "start A' r = unat a" using n(1) by (simp add: start_def)
  have ap: "apart A' S' c r" "apart A' S' r c" if "c \<in> ran T" for c
    using apart_new [OF st(4) [OF that] z(1), of A' r S'] sr n(2) z(2) st [OF that] by auto
  have ap2: "apart A' S' c d" if "c \<in> ran T" "d \<in> ran T" "c \<noteq> d" for c d
    using ok that st(1,2) unfolding table_fits_def apart_def by simp
  show "table_fits Z' A' S' (T(a \<mapsto> r))"
    unfolding table_fits_def rT
  proof (intro conjI allI ballI impI)
    show "A' c = k" if "(T(a \<mapsto> r)) k = Some c" for k c
      using that n(1) ok eq by (auto simp: table_fits_def ran_def split: if_splits)
    show "mapped_fits (S' c)" if "c \<in> insert r (ran T)" for c using that n(3) ok eq by (auto simp: table_fits_def)
    show "region A' S' c \<subseteq> Z'" if "c \<in> insert r (ran T)" for c
    proof (cases "c = r")
      case True
      then show ?thesis using z(2,3) n(2) sr by (auto simp: region_def)
    next
      case False
      then have "region A' S' c \<subseteq> Z" using that st(3,4) by simp
      then show ?thesis using z(3) by blast
    qed
    show "apart A' S' c d" if "c \<in> insert r (ran T)" "d \<in> insert r (ran T)" "c \<noteq> d" for c d
      using that ap ap2 r by auto
  qed
qed

text \<open>A chunk that is mapped on its own.\<close>

lemma bare_map_chunk:
  fixes av :: "'z proc_scheme"
  assumes run: "map_chunk S nb av = Some (x, av')" and st: "bare (got (calls av)) (cienv S) (Suc n) av M B"
    and p: "par_ok (par av)" and nb: "req_ok nb" and k: "kernel_ok (kernel S) brk got"
  shows "(case x of None \<Rightarrow> bare (got (calls av')) (cienv S) (Suc n) av' M B
    | Some r \<Rightarrow> \<exists>c b. r = Some c \<and> c \<notin> M \<and> unat nb \<le> snd b \<and> bare (got (calls av')) (cienv S) n av' (insert c M) (B(c := b))) \<and> steady av av'"
proof -
  let ?E = "cienv S"
  define sz where "sz = ALIGN_UP (nb + SIZE_SZ) (dl_pagesize (par av))"
  define cs where "cs = calls av @ [Mmap sz]"
  have al: "MALLOC_ALIGNMENT = 2 * SIZE_SZ" by (simp add: malloc_consts)
  show ?thesis
  proof (cases "sz > nb")
    case False
    then show ?thesis using run st by (simp add: map_chunk_def Let_def al sz_def steady_def)
  next
    case big: True
    show ?thesis
    proof (cases "kernel S cs")
      case None
      then have "x = None" "av' = av\<lparr>calls := cs\<rparr>"
        using run big by (simp_all add: map_chunk_def Let_def al sz_def [symmetric] sys_MMAP_def cs_def)
      moreover have "got cs = got (calls av)" using kernel_mmap(1) [OF k] None by (simp add: cs_def)
      ultimately show ?thesis using bare_same [OF st, of "av\<lparr>calls := cs\<rparr>"] by (simp add: steady_def) (simp add: cs_def)
    next
      case (Some mm)
      have g: "grants got (calls av) (Mmap sz) mm sz" using kernel_mmap(2) [OF k] Some by (simp add: cs_def)
      from run big Some obtain md av1 L where r0: "register_chunk ?E mm (av\<lparr>calls := cs\<rparr>) = Some (md, av1)"
          "Some (Some (Some md), (set_head md (sz OR IS_MMAPPED) av1)\<lparr>lkup := L,
             par := count_mmap sz (par av1)\<rparr>) = Some (x, av')"
        by (simp add: map_chunk_def Let_def al sz_def [symmetric] sys_MMAP_def cs_def [symmetric] bind_assert_eq_Some_iff
            del: option.inject prod.inject, elim conjE bindE) (rule that, assumption+)
      then have r: "x = Some (Some md)" "av' = (set_head md (sz OR IS_MMAPPED) av1)\<lparr>lkup := L, par := count_mmap sz (par av1)\<rparr>" by simp_all
      from st obtain T f own t where b: "view ?E (Suc n) av T f" "table_fits (got (calls av)) (fA f) (fS f) T" "\<forall>c \<in> ran T. fN f c = None \<and> fP f c = 0"
        "rings_ok f own {} (bins_base av)" "fastbinsY av = replicate NFASTBINS None" "bin_map av = replicate BINMAPSIZE 0"
        "\<not> have_fastchunks av" "md_top av = Some t" "t \<in> ran T" "fS f t = 0" "ran T = M" "\<forall>c \<in> M. B c = blocks_of f c" by (rule bareE)
      obtain j where j: "4 \<le> j" "j < 64" "dl_pagesize (par av) = 2 ^ j" by (rule par_page [OF p])
      have szz: "size_of (sz OR IS_MMAPPED) = unat sz" unfolding sz_def j(3) using aligned_size(1) [OF ALIGN_UP_page [OF j(1,2)]] by simp
      have sz1: "1 \<le> unat sz" "unat nb \<le> unat sz" using big by (simp_all add: word_less_nat_alt)
      have gz: "got (calls av) \<inter> {unat mm ..< unat mm + unat sz} = {}" "got (calls av) \<union> {unat mm ..< unat mm + unat sz} \<subseteq> got cs"
        using g by (auto simp: grants_def cs_def)
      have v0: "view ?E (Suc n) (av\<lparr>calls := cs\<rparr>) T f" by (rule view_same [OF b(1)]) simp_all
      note q = register_view [OF r0(1) v0 fresh_in_table [OF b(2) gz(1) sz1(1)]]
      define h where "h = (fresh_fields mm md f)\<lparr>fS := (fS f)(md := sz OR IS_MMAPPED)\<rparr>"
      have "view ?E n (set_head md (sz OR IS_MMAPPED) av1) (T(mm \<mapsto> md)) h"
        using view_writes(9) [OF q(3), of md "sz OR IS_MMAPPED"] by (simp add: h_def fresh_fields_def)
      then have vh: "view ?E n av' (T(mm \<mapsto> md)) h" unfolding r(2) by (rule view_same) simp_all
      have ne: "c \<noteq> md" if "c \<in> ran T" for c using q(1) that by auto
      note tf = table_fits_add [OF b(2) q(1) gz(1) sz1(1) gz(2), of "fA h" "fS h"]
      have tf': "table_fits (got cs) (fA h) (fS h) (T(mm \<mapsto> md))" "ran (T(mm \<mapsto> md)) = insert md (ran T)"
        using tf ne szz sz1(2) nb by (simp_all add: h_def req_ok_def)
      note fr = frame_sel [OF q(4)] frame_proc [OF q(4)]
      have e: "calls av' = cs" "bins_base av' = bins_base av" "fastbinsY av' = fastbinsY av" "md_top av' = md_top av" "bin_map av' = bin_map av"
          "flags av' = flags av" "steady av av'"
        using fr by (simp_all add: r(2) set_head_def steady_def) (simp add: cs_def)
      have "bare (got cs) ?E n av' (insert md M) (B(md := blocks_of h md))"
      proof (rule bareI [OF vh tf'(1)])
        show "rings_ok h own {} (bins_base av')" unfolding e
          by (rule bins_cong [OF b(4)]) (use q(2) in \<open>auto simp: h_def headers_def\<close>)
        show "fN h c = None \<and> fP h c = 0" if "c \<in> ran (T(mm \<mapsto> md))" for c using that b(3) tf'(2) by (auto simp: h_def)
        show "md_top av' = Some t" "t \<in> ran (T(mm \<mapsto> md))" "fS h t = 0" using e b ne [OF b(9)] tf'(2) by (simp_all add: h_def)
        show "ran (T(mm \<mapsto> md)) = insert md M" using tf'(2) b(11) by simp
        show "(B(md := blocks_of h md)) c = blocks_of h c" if "c \<in> insert md M" for c
          using that b(11,12) by (cases "c = md") (auto simp: h_def blocks_of_def)
      qed (use b e in \<open>simp_all add: have_fastchunks_def\<close>)
      moreover have "unat nb \<le> snd (blocks_of h md)" using sz1(2) szz by (simp add: h_def blocks_of_def)
      moreover have "md \<notin> M" using q(1) b(11) by simp
      ultimately show ?thesis using r(1) e(1,7)
        by (simp del: split_paired_Ex) (intro exI [of _ "blocks_of h md"], simp)
    qed
  qed
qed


text \<open>The first memory of the heap: top is a chunk of its own, and the initial top stays in the table.\<close>

lemma bare_new_top:
  fixes av :: "'z proc_scheme"
  assumes run: "new_top S t p 0 a cor s av = Some av'" and st: "bare Z (cienv S) (Suc n) av M B"
    and z: "Z' = Z \<union> {unat a ..< unat a + unat z}" "Z \<inter> {unat a ..< unat a + unat z} = {}" "64 \<le> unat a" "unat a + unat z < 2 ^ 64"
      "32 \<le> unat z" "16 dvd unat z" "16 dvd unat a" "z = s - a + cor"
  shows "state Z' [] (cienv S) n av' {} M B \<and> firm av av' \<and> calls av' = calls av"
proof -
  let ?E = "cienv S" and ?v = "z OR PREV_INUSE"
  define rest where "rest = (\<lambda>(av :: 'z proc_scheme). do {
     check_top (par av) av;
     let av = av\<lparr>system_mem := system_mem av + cor\<rparr>;
     av \<leftarrow> (if sint cor > 0 then do {
              (_, L) \<leftarrow> lookup_incr_sbrk_hi cor (lkup av);
              Some (av\<lparr>lkup := L\<rparr>) }
            else Some av);
     if (0 :: u64) \<noteq> 0 then put_fenceposts S t p 0 av else Some av })"
  from run obtain r av1 where r: "register_chunk ?E a av = Some (r, av1)"
    "rest (set_head r ?v (w_md_prev None r (w_md_next None r (av1\<lparr>md_top := Some r\<rparr>)))) = Some av'"
    unfolding new_top_def Let_def rest_def z(8) by (erule bind_pair_SomeE)
  define av2 where "av2 = set_head r ?v (w_md_prev None r (w_md_next None r (av1\<lparr>md_top := Some r\<rparr>)))"
  obtain L where e: "av' = av2\<lparr>system_mem := system_mem av2 + cor, lkup := L\<rparr>"
  proof (cases "sint cor > 0")
    case True
    then show ?thesis using r(2) [folded av2_def] that by (auto simp: rest_def Let_def bind_eq_Some_conv)
  next
    case False
    then show ?thesis using r(2) [folded av2_def] that [of "lkup av2"] by (auto simp: rest_def Let_def bind_eq_Some_conv)
  qed
  from st obtain T f own t0 where b: "view ?E (Suc n) av T f" "table_fits Z (fA f) (fS f) T" "\<forall>c \<in> ran T. fN f c = None \<and> fP f c = 0"
    "rings_ok f own {} (bins_base av)" "fastbinsY av = replicate NFASTBINS None" "bin_map av = replicate BINMAPSIZE 0"
    "\<not> have_fastchunks av" "md_top av = Some t0" "t0 \<in> ran T" "fS f t0 = 0" "ran T = M" "\<forall>c \<in> M. B c = blocks_of f c" by (rule bareE)
  have z1: "1 \<le> unat z" using z(5) by simp
  note g = register_view [OF r(1) b(1) fresh_in_table [OF b(2) z(2) z1]]
  note fr = frame_sel [OF g(4)] frame_proc [OF g(4)]
  have v: "size_of ?v = unat z" "pinuse ?v" "\<not> mmapped_bit ?v" using aligned_size [OF z(6)] by simp_all
  define h where "h = (fresh_fields a r f)\<lparr>fS := (fS f)(r := ?v)\<rparr>"
  have hs: "fA h = (fA f)(r := a)" "fS h = (fS f)(r := ?v)" "fP h = (fP f)(r := 0)" "fN h = (fN f)(r := None)" "fV h = (fV f)(r := None)"
    "fF h = (fF f)(r := None)" "fB h = (fB f)(r := None)" "fFN h = (fFN f)(r := None)" "fBN h = (fBN f)(r := None)"
    by (simp_all add: h_def)
  have "view ?E n (av1\<lparr>md_top := Some r\<rparr>) (T(a \<mapsto> r)) (fresh_fields a r f)" by (rule view_same [OF g(3)]) simp_all
  note w = view_writes(9) [OF view_writes(8) [OF view_writes(7) [OF this, of None r], of None r], of r ?v]
  have "view ?E n av2 (T(a \<mapsto> r)) h" using w unfolding av2_def h_def by (simp add: fresh_fields_def)
  then have vw: "view ?E n av' (T(a \<mapsto> r)) h" unfolding e by (rule view_same) simp_all
  have ne: "c \<noteq> r" if "c \<in> ran T" for c using g(1) that by auto
  have zz: "Z \<union> {unat a ..< unat a + unat z} \<subseteq> Z'" using z(1) by simp
  note tf = table_fits_add [OF b(2) g(1) z(2) z1 zz, of "fA h" "fS h"]
  have tf': "table_fits Z' (fA h) (fS h) (T(a \<mapsto> r))" "ran (T(a \<mapsto> r)) = insert r (ran T)"
    using tf ne v z(5) by (simp_all add: hs)
  have hk: "heap_ok Z' (fA h) (fS h) (fP h) (fN h) (fV h) (T(a \<mapsto> r)) {r} {} {} r"
    unfolding heap_ok_def
  proof (intro conjI tf'(1))
    show "sizes_fit (fA h) (fS h) {r} {}" using z v by (simp add: sizes_fit_def hs start_def)
    show "links_fit (fA h) (fS h) (fN h) (fV h) {r} {}" by (simp add: links_fit_def hs)
    show "frees_fit (fS h) (fP h) (fN h) {r} {} r" using v by (simp add: frees_fit_def hs)
    show "\<forall>c \<in> ran (T(a \<mapsto> r)) - {r}. fN h c = None \<and> fP h c = 0" using b(3) tf'(2) by (simp add: hs)
  qed (use tf'(2) in \<open>simp_all add: hs ended_def\<close>)
  have e2: "par av' = par av" "calls av' = calls av" "is_main av' = is_main av" "bins_base av' = bins_base av" "fastbinsY av' = fastbinsY av"
      "md_top av' = Some r" "initial_top av' = initial_top av"
    using fr by (simp_all add: e av2_def)
  have nb: "x \<noteq> r" if "x \<in> headers (bins_base av)" for x using that g(2) by (auto simp: headers_def)
  have "pend Z' [] ?E n av' (T(a \<mapsto> r)) h (fS h) {r} {} {} {} own r"
  proof (rule pendI [OF vw hk])
    show "rings_ok h own {} (bins_base av')" unfolding e2 by (rule bins_cong [OF b(4)]) (use nb in \<open>simp add: hs\<close>)
    show "fast_ok (fF h) {} ([] @ fastbinsY av')" using b(5) e2 by (simp add: fast_ok_def)
  qed (use b(5) e2 in simp_all)
  then have "state Z' [] ?E n av' {} M B"
  proof (rule stateI)
    show "used {r} {} {} {} r = {}" by (simp add: used_def)
    show "ran (T(a \<mapsto> r)) - {r} = M" using tf'(2) b(11) g(1) by auto
    show "B d = blocks_of h d" if "d \<in> {} \<union> M" for d using that b(11,12) ne by (simp add: blocks_of_def hs)
  qed
  then show ?thesis using e2 by (simp add: firm_def)
qed


lemma have_fastchunks_noncontiguous [simp]: "have_fastchunks (set_noncontiguous av) = have_fastchunks av"
proof -
  have "(x OR 2) AND 1 = x AND 1" for x :: u32
    by (simp add: bit.conj_disj_distrib2)
  then show ?thesis by (simp add: have_fastchunks_def set_noncontiguous_def FASTCHUNKS_BIT_def NONCONTIGUOUS_BIT_def)
qed

lemma more_core_fast:
  fixes av :: "'z proc_scheme"
  assumes "more_core S nb old av = (b, s, m, z, av')"
  shows "have_fastchunks av' = have_fastchunks av"
  using assms by (auto simp: more_core_def Let_def sys_MMAP_def MORECORE_def split: if_splits option.splits)

lemma bare_extend_main:
  fixes av :: "'z proc_scheme"
  assumes run: "extend_main S nb t p 0 p av = Some av'" and st: "bare (got (calls av)) (cienv S) (Suc n) av M B"
    and t: "t \<in> M" "p = fst (B t)"
    and p: "par_ok (par av)" and k: "kernel_ok (kernel S) brk got" and sb: "sbrks_ok (calls av)"
  shows "(state (got (calls av')) [] (cienv S) n av' {} M B \<or> bare (got (calls av')) (cienv S) (Suc n) av' M B) \<and> steady av av'"
proof -
  let ?E = "cienv S"
  obtain b s m z av1 where mc: "more_core S nb 0 av = (b, s, m, z, av1)" by (metis prod_cases5)
  from more_coreD [OF mc k p] obtain cs fl where a1: "av1 = av\<lparr>calls := cs, flags := fl\<rparr>" and br: "brought got brk (calls av) b s m z cs av1" by blast
  show ?thesis
  proof (cases "b = 0")
    case True
    then have "av' = av1" using run mc by (simp add: extend_main_def)
    moreover have "got cs = got (calls av)" "sbrks_ok cs" using br True sb by (auto simp: brought_def)
    moreover have "bare (got (calls av)) ?E (Suc n) av1 M B"
      by (rule bare_same [OF st]) (use a1 more_core_fast [OF mc] in simp_all)
    ultimately show ?thesis using a1 by (simp add: steady_def)
  next
    case b: False
    have ar: "area got (calls av) cs (unat b) (unat z)" "4096 \<le> unat z" "sbrks_ok cs" using br b sb by (simp_all add: brought_def)
    from st obtain T f own t0 where B: "table_fits (got (calls av)) (fA f) (fS f) T" "ran T = M" "\<forall>c \<in> M. B c = blocks_of f c" by (rule bareE)
    have "unat p \<in> got (calls av)"
      using B t by (auto simp: table_fits_def region_def start_def blocks_of_def)
    then have bp: "b \<noteq> p" using ar(1,2) by (auto simp: area_def)
    obtain L Q sm where Q: "par_ok Q = par_ok (par av1)" and r:
      "(if b = p \<and> s = 0 then Some (set_head t ((z + 0) OR PREV_INUSE) (av1\<lparr>lkup := L, par := Q, system_mem := sm\<rparr>))
      else if contiguous av1 \<and> (0 :: u64) \<noteq> 0 \<and> b < p then None
      else do {
        (aligned_brk, correction, s, av) \<leftarrow> align_core S b s z 0 p (av1\<lparr>lkup := L, par := Q, system_mem := sm\<rparr>);
        if s \<noteq> 0 then new_top S t p 0 aligned_brk correction s av else Some av }) = Some av'"
      by (rule extend_mainE [OF run mc b])
    define av2 where "av2 = av1\<lparr>lkup := L, par := Q, system_mem := sm\<rparr>"
    have pQ: "par_ok (par av2)" using Q p a1 by (simp add: av2_def)
    have e2: "is_main av2 = is_main av" "bins_base av2 = bins_base av" "initial_top av2 = initial_top av" "calls av2 = cs" by (simp_all add: av2_def a1)
    from r bp obtain ab cor s' av3 where c: "align_core S b s z 0 p av2 = Some (ab, cor, s', av3)"
      "(if s' \<noteq> 0 then new_top S t p 0 ab cor s' av3 else Some av3) = Some av'"
      unfolding av2_def [symmetric] by (auto simp: bind_eq_Some_conv)
    have "brought got brk (calls av) b s m z (calls av2) av2"
      using br by (simp add: brought_def e2) (simp add: av2_def contiguous_def)
    from align_coreD [OF c(1) k pQ this b sb] obtain ds sm' where d: "ab = b" "s' \<noteq> 0" "16 dvd unat b"
      "av3 = av2\<lparr>calls := ds, system_mem := sm'\<rparr>" "sbrks_ok ds" "area got (calls av) ds (unat b) (unat (s' - ab + cor))"
      "4096 \<le> unat (s' - ab + cor)" "16 dvd unat (s' - ab + cor)" by auto
    have sel: "memory av3 = memory av" "htbl av3 = htbl av" "bins_base av3 = bins_base av" "bin_heads av3 = bin_heads av"
      "metadata_cache_count av3 = metadata_cache_count av" "fastbinsY av3 = fastbinsY av" "md_top av3 = md_top av" "bin_map av3 = bin_map av"
      by (simp_all add: d(4) av2_def a1)
    have "have_fastchunks av3 = have_fastchunks av1" by (simp add: d(4) av2_def have_fastchunks_def)
    then have b3: "bare (got (calls av)) ?E (Suc n) av3 M B"
      by (intro bare_same [OF st sel]) (simp add: more_core_fast [OF mc])
    have nt: "new_top S t p 0 b cor s' av3 = Some av'" using c(2) d(1,2) by simp
    have ds: "calls av3 = ds" by (simp add: d(4))
    have "state (got ds) [] ?E n av' {} M B \<and> firm av3 av' \<and> calls av' = calls av3"
      by (rule bare_new_top [OF nt b3 _ _ _ _ _ _ _ refl]) (use d in \<open>simp_all add: area_def\<close>)
    moreover have "steady av av3" using d(4,5) e2 pQ by (simp add: steady_def)
    ultimately show ?thesis using steady_trans [OF _ firm_steady] ds by auto
  qed
qed


section \<open>An arena with or without a heap\<close>

definition heap_state where
  "heap_state Z E n av U M B \<longleftrightarrow> state Z [] E n av U M B \<or> U = {} \<and> bare Z E n av M B"

definition awarded where
  "awarded got E n bytes U M B r av \<longleftrightarrow>
     (case r of None \<Rightarrow> heap_state (got (calls av)) E n av U M B
      | Some c \<Rightarrow> \<exists>b. c \<notin> U \<union> M \<and> unat bytes \<le> snd b \<and>
          (heap_state (got (calls av)) E n av (insert c U) M (B(c := b)) \<or> heap_state (got (calls av)) E n av U (insert c M) (B(c := b))))"

lemma supplied_awarded: "supplied got E n nb U M B r av \<Longrightarrow> awarded got E n nb U M B r av"
  unfolding supplied_def awarded_def heap_state_def by (auto split: option.splits simp del: split_paired_Ex)

lemma heap_state_more: "heap_state Z E n av U M B \<Longrightarrow> m \<le> n \<Longrightarrow> heap_state Z E m av U M B"
  unfolding heap_state_def by (auto intro: state_more bare_more)

lemma awarded_more: "awarded got E n nb U M B r av \<Longrightarrow> m \<le> n \<Longrightarrow> awarded got E m nb U M B r av"
  unfolding awarded_def by (auto split: option.splits intro: heap_state_more simp del: split_paired_Ex)

lemma awarded_less:
  assumes "awarded got E n nb U M B r av" and "unat bytes \<le> unat nb"
  shows "awarded got E n bytes U M B r av"
proof (cases r)
  case None
  then show ?thesis using assms(1) by (simp add: awarded_def)
next
  case (Some c)
  then obtain b where "c \<notin> U \<union> M" "unat nb \<le> snd b"
    "heap_state (got (calls av)) E n av (insert c U) M (B(c := b)) \<or> heap_state (got (calls av)) E n av U (insert c M) (B(c := b))"
    using assms(1) by (auto simp: awarded_def simp del: split_paired_Ex)
  then show ?thesis using Some assms(2) unfolding awarded_def by (simp del: split_paired_Ex) (intro exI [of _ b], simp)
qed

lemma bare_errno:
  assumes "bare Z E n av M B"
  shows "bare Z E n (put_errno e av) M B"
proof -
  from assms obtain T f own t where b: "view E n av T f" "table_fits Z (fA f) (fS f) T" "\<forall>c \<in> ran T. fN f c = None \<and> fP f c = 0"
    "rings_ok f own {} (bins_base av)" "fastbinsY av = replicate NFASTBINS None" "bin_map av = replicate BINMAPSIZE 0"
    "\<not> have_fastchunks av" "md_top av = Some t" "t \<in> ran T" "fS f t = 0" "ran T = M" "\<forall>c \<in> M. B c = blocks_of f c" by (rule bareE)
  show ?thesis by (rule bareI [OF view_errno [OF b(1)] b(2)]) (use b in \<open>simp_all add: have_fastchunks_def put_errno_def\<close>)
qed

lemma heap_state_errno: "heap_state Z E n av U M B \<Longrightarrow> heap_state Z E n (put_errno e av) U M B"
  unfolding heap_state_def using state_errno bare_errno by blast

lemma bare_sysmalloc_top:
  fixes av :: "'z proc_scheme"
  assumes run: "sysmalloc_top S tried nb av = Some (r, av')" and st: "bare (got (calls av)) (cienv S) (Suc (Suc n)) av M B"
    and p: "par_ok (par av)" and nb: "req_ok nb" and k: "kernel_ok (kernel S) brk got" and mn: "is_main av" and sb: "sbrks_ok (calls av)"
  shows "awarded got (cienv S) n nb {} M B r av' \<and> steady av av'"
proof -
  obtain t where t: "md_top av = Some t" "chunksize av (Some t) = 0" "t \<in> M" "chunkinfo2chunk av t = fst (B t)" by (rule bare_chunksize [OF st])
  from run mn obtain av1 where x: "extend_main S nb t (fst (B t)) 0 (fst (B t)) av = Some av1"
    and f: "finish_sysmalloc (cienv S) nb av1 = Some (r, av')"
    unfolding sysmalloc_top.simps [of S tried] Let_def t(1,2,4) Option.bind.simps(2) chunk_at_offset_def add_0_right
    by (elim bindE) (simp, elim bindE, blast)
  note e = bare_extend_main [OF x st t(3) refl p k sb]
  from e consider (heap) "state (got (calls av1)) [] (cienv S) (Suc n) av1 {} M B" | (bare) "bare (got (calls av1)) (cienv S) (Suc (Suc n)) av1 M B" by auto
  then show ?thesis
  proof cases
    case heap
    show ?thesis using finish_sysmallocD [where got = got, OF f heap nb] steady_trans [OF e [THEN conjunct2]] supplied_awarded by blast
  next
    case bare
    define av2 where "av2 = (if system_mem av1 > max_system_mem av1 then av1\<lparr>max_system_mem := system_mem av1\<rparr> else av1)"
    have b2: "bare (got (calls av1)) (cienv S) n av2 M B"
      by (rule bare_more [OF bare_same [OF bare]]) (simp_all add: av2_def have_fastchunks_def)
    obtain t2 where t2: "md_top av2 = Some t2" "chunksize av2 (Some t2) = 0" by (rule bare_chunksize [OF b2])
    have "\<not> nb + MINSIZE \<le> 0"
      using nb by (auto simp: req_ok_def MINSIZE_eq word_le_nat_alt unat_word_ariths)
    then have r: "r = None" "av' = put_errno ENOMEM av2"
      using f unfolding finish_sysmalloc_def Let_def av2_def [symmetric] t2 by (simp_all add: t2 put_errno_def set_enomem_def)
    have "calls av' = calls av1" "steady av1 av'" unfolding r(2) by (simp_all add: av2_def steady_def)
    then show ?thesis using r bare_errno [OF b2] steady_trans [OF e [THEN conjunct2]] by (auto simp: awarded_def heap_state_def)
  qed
qed

lemma bare_sysmalloc:
  fixes av :: "'z proc_scheme"
  assumes run: "sysmalloc S nb av = Some (r, av')" and st: "bare (got (calls av)) (cienv S) (Suc (Suc n)) av M B"
    and p: "par_ok (par av)" and nb: "req_ok nb" and k: "kernel_ok (kernel S) brk got" and mn: "is_main av" and sb: "sbrks_ok (calls av)"
  shows "awarded got (cienv S) n nb {} M B r av' \<and> steady av av'"
proof -
  define direct where "direct = (nb \<ge> mmap_threshold (par av) \<and> sint (n_mmaps (par av)) < sint (n_mmaps_max (par av)))"
  from run obtain x av1 where r: "(if direct then try_mmap S nb av else Some (None, av)) = Some (x, av1)"
    "(case x of Some r \<Rightarrow> Some (r, av1) | None \<Rightarrow> sysmalloc_top S direct nb av1) = Some (r, av')"
    unfolding sysmalloc_def Let_def direct_def [symmetric] by (erule bind_pair_SomeE)
  have m: "(case x of None \<Rightarrow> bare (got (calls av1)) (cienv S) (Suc (Suc n)) av1 M B
      | Some r \<Rightarrow> \<exists>c b. r = Some c \<and> c \<notin> M \<and> unat nb \<le> snd b \<and> bare (got (calls av1)) (cienv S) (Suc n) av1 (insert c M) (B(c := b))) \<and> steady av av1"
  proof (cases direct)
    case True
    then have "map_chunk S nb av = Some (x, av1)" using r(1) mn by (simp add: try_mmap_def)
    from bare_map_chunk [OF this st p nb k] show ?thesis .
  next
    case False
    then show ?thesis using r(1) st by (auto simp: steady_def)
  qed
  then have q: "par_ok (par av1)" "is_main av1" "sbrks_ok (calls av1)" using p mn sb by (simp_all add: steady_def)
  show ?thesis
  proof (cases x)
    case None
    then have "sysmalloc_top S direct nb av1 = Some (r, av')" using r(2) by simp
    from bare_sysmalloc_top [where got = got, OF this _ q(1) nb k q(2,3)] m None show ?thesis
      using steady_trans [OF m [THEN conjunct2]] by auto
  next
    case (Some y)
    then obtain c b where c: "r = Some c" "av' = av1" "c \<notin> M" "unat nb \<le> snd b" "bare (got (calls av1)) (cienv S) (Suc n) av1 (insert c M) (B(c := b))"
      using r(2) m by (auto simp del: split_paired_Ex)
    have "bare (got (calls av1)) (cienv S) n av1 (insert c M) (B(c := b))" by (rule bare_more [OF c(5)]) simp
    then show ?thesis using m c by (auto simp: awarded_def heap_state_def simp del: split_paired_Ex)
  qed
qed


section \<open>\<open>malloc\<close> and \<open>calloc\<close>\<close>

lemma heap_int_malloc_checked:
  fixes av :: "'z proc_scheme"
  assumes run: "int_malloc S bytes av = Some (r, av')" and st: "heap_state (got (calls av)) (cienv S) (Suc (Suc (Suc (Suc n)))) av U M B"
    and p: "par_ok (par av)" and mn: "is_main av" and sb: "sbrks_ok (calls av)" and k: "kernel_ok (kernel S) brk got"
    and Inr: "checked_request2size bytes = Inr nb"
  shows "awarded got (cienv S) n nb U M B r av' \<and> steady av av'"
proof (cases "state (got (calls av)) [] (cienv S) (Suc (Suc (Suc (Suc n)))) av U M B")
  case True
  from int_malloc_checkedD [where got = got, OF run this p mn sb k Inr] show ?thesis using supplied_awarded by blast
next
  case False
  then have b: "U = {}" "bare (got (calls av)) (cienv S) (Suc (Suc (Suc (Suc n)))) av M B" using st by (simp_all add: heap_state_def)
  note nb = checked_request [OF Inr]
  have b2: "bare (got (calls av)) (cienv S) (Suc (Suc n)) av M B" by (rule bare_more [OF b(2)]) simp
  have "sysmalloc S nb av = Some (r, av')" using run bare_int_malloc [OF b(2) p Inr] by simp
  from bare_sysmalloc [where got = got, OF this b2 p nb(1) k mn sb] show ?thesis using b(1) by blast
qed

lemma heap_int_malloc:
  fixes av :: "'z proc_scheme"
  assumes run: "int_malloc S bytes av = Some (r, av')" and st: "heap_state (got (calls av)) (cienv S) (Suc (Suc (Suc (Suc n)))) av U M B"
    and p: "par_ok (par av)" and mn: "is_main av" and sb: "sbrks_ok (calls av)" and k: "kernel_ok (kernel S) brk got"
  shows "awarded got (cienv S) n bytes U M B r av' \<and> steady av av'"
proof (cases "checked_request2size bytes")
  case (Inl e)
  then have r: "r = None" "av' = put_errno e av" using run by (simp_all add: int_malloc_def put_errno_def)
  have "heap_state (got (calls av)) (cienv S) n (put_errno e av) U M B"
    by (rule heap_state_more [OF heap_state_errno [OF st]]) simp
  then show ?thesis using r by (simp add: awarded_def steady_def)
next
  case (Inr nb)
  show ?thesis using heap_int_malloc_checked [where got = got, OF run st p mn sb k Inr] awarded_less checked_request(2) [OF Inr] by blast
qed

lemma heap_state_lkup:
  fixes av :: "'z proc_scheme"
  shows "heap_state Z E n (av\<lparr>lkup := K\<rparr>) U M B = heap_state Z E n av U M B"
proof -
  have "bare Z E n av M B \<Longrightarrow> bare Z E n (av\<lparr>lkup := K\<rparr>) M B" "bare Z E n (av\<lparr>lkup := K\<rparr>) M B \<Longrightarrow> bare Z E n av M B"
    by (auto elim!: bare_same simp: have_fastchunks_def)
  then show ?thesis unfolding heap_state_def state_lkup by blast
qed

text \<open>Addresses and places of the blocks.\<close>

lemma heap_state_table:
  assumes "heap_state Z E n av U M B"
  obtains T f where "view E n av T f" "table_fits Z (fA f) (fS f) T" "U \<union> M \<subseteq> ran T" "\<forall>c \<in> U \<union> M. B c = blocks_of f c"
proof -
  consider (heap) "state Z [] E n av U M B" | (bare) "U = {}" "bare Z E n av M B" using assms by (auto simp: heap_state_def)
  then show thesis
  proof cases
    case heap
    then obtain T f H F G X own t where I: "pend Z [] E n av T f (fS f) H F G X own t"
      and B: "used H F G X t = U" "ran T - H = M" "\<forall>d \<in> U \<union> M. B d = blocks_of f d" by (rule stateE)
    have "U \<union> M \<subseteq> ran T" using B heap_okD(6) [OF pendD(2) [OF I]] by (auto simp: used_def)
    then show thesis by (rule that [OF pendD(1) [OF I] heap_okD(8) [OF pendD(2) [OF I]] _ B(3)])
  next
    case bare
    from bare(2) obtain T f own t where "view E n av T f" "table_fits Z (fA f) (fS f) T" "ran T = M" "\<forall>c \<in> M. B c = blocks_of f c" by (rule bareE)
    then show thesis using that bare(1) by auto
  qed
qed

lemma heap_state_address:
  assumes "heap_state Z E n av U M B" and "c \<in> U \<union> M"
  shows "chunkinfo2mem av (Some c) = fst (B c)"
proof -
  from assms(1) obtain T f where T: "view E n av T f" "U \<union> M \<subseteq> ran T" "\<forall>c \<in> U \<union> M. B c = blocks_of f c" by (rule heap_state_table)
  have "shown av T c" using T(2) assms(2) by (auto simp: shown_def)
  then show ?thesis using view_sel(1) [OF T(1)] T(3) assms(2) by (simp add: chunkinfo2mem_def blocks_of_def)
qed

lemma heap_state_apart:
  assumes "heap_state Z E n av U M B" and "c \<in> U \<union> M" "d \<in> U \<union> M" "c \<noteq> d"
  shows "unat (fst (B c)) + max 1 (snd (B c)) \<le> unat (fst (B d)) \<or> unat (fst (B d)) + max 1 (snd (B d)) \<le> unat (fst (B c))"
proof -
  from assms(1) obtain T f where "table_fits Z (fA f) (fS f) T" "U \<union> M \<subseteq> ran T" "\<forall>c \<in> U \<union> M. B c = blocks_of f c" by (rule heap_state_table)
  then have "apart (fA f) (fS f) c d" "B c = blocks_of f c" "B d = blocks_of f d" using assms(2-4) unfolding table_fits_def by blast+
  then show ?thesis by (simp add: apart_def start_def blocks_of_def)
qed

lemma heap_state_inside:
  assumes "heap_state Z E n av U M B" and "c \<in> U \<union> M"
  shows "{unat (fst (B c)) ..< unat (fst (B c)) + snd (B c)} \<subseteq> Z"
proof -
  from assms(1) obtain T f where "table_fits Z (fA f) (fS f) T" "U \<union> M \<subseteq> ran T" "\<forall>c \<in> U \<union> M. B c = blocks_of f c" by (rule heap_state_table)
  then have "region (fA f) (fS f) c \<subseteq> Z" "B c = blocks_of f c" using assms(2) unfolding table_fits_def by blast+
  then show ?thesis by (auto simp: region_def start_def blocks_of_def)
qed

text \<open>What an allocation achieves: \<open>NULL\<close>, or a new block.\<close>

definition granted where
  "granted got E n bytes U M B mem av \<longleftrightarrow>
     mem = 0 \<and> heap_state (got (calls av)) E n av U M B \<or>
     (\<exists>c b. c \<notin> U \<union> M \<and> fst b = mem \<and> unat bytes \<le> snd b \<and>
        (heap_state (got (calls av)) E n av (insert c U) M (B(c := b)) \<or> heap_state (got (calls av)) E n av U (insert c M) (B(c := b))))"

lemma awarded_granted:
  fixes av :: "'z proc_scheme"
  assumes "awarded got E n bytes U M B (Some c) av"
  shows "granted got E n bytes U M B (chunkinfo2mem av (Some c)) (av\<lparr>lkup := L\<rparr>)"
proof -
  from assms obtain b where b: "c \<notin> U \<union> M" "unat bytes \<le> snd b"
    "heap_state (got (calls av)) E n av (insert c U) M (B(c := b)) \<or> heap_state (got (calls av)) E n av U (insert c M) (B(c := b))"
    by (auto simp: awarded_def simp del: split_paired_Ex)
  have "fst b = chunkinfo2mem av (Some c)"
    using b(3) heap_state_address [of _ E n av "insert c U" M "B(c := b)" c] heap_state_address [of _ E n av U "insert c M" "B(c := b)" c] by auto
  then show ?thesis using b unfolding granted_def heap_state_lkup by (simp del: split_paired_Ex) blast
qed

lemma libc_malloc_from_int:
  fixes av :: "'z proc_scheme"
  assumes run: "libc_malloc S bytes av = Some (mem, av')" and al: "alone S"
    and int: "\<And>r av1. int_malloc S bytes av = Some (r, av1) \<Longrightarrow> awarded got (cienv S) n nb U M B r av1 \<and> steady av av1"
  shows "granted got (cienv S) n nb U M B mem av' \<and> steady av av'"
proof -
  from run obtain md av1 where r: "int_malloc S bytes av = Some (md, av1)"
    "(case md of None \<Rightarrow> other_arena S (Malloc_retry bytes) av1
      | Some md \<Rightarrow> do { let mem = chunkinfo2mem av1 (Some md); av \<leftarrow> assert_arena S md av1; check_top (par av) av; Some (mem, av) }) = Some (mem, av')"
    unfolding libc_malloc_def by (erule bind_pair_SomeE)
  note i = int [OF r(1)]
  show ?thesis
  proof (cases md)
    case None
    then have "mem = 0" "av' = av1" using r(2) al by (simp_all add: alone_def)
    then show ?thesis using i None by (simp add: awarded_def granted_def)
  next
    case (Some c)
    then obtain L where "mem = chunkinfo2mem av1 (Some c)" "av' = av1\<lparr>lkup := L\<rparr>"
      using r(2) assert_arenaD [of S c av1] by (auto simp: Let_def bind_eq_Some_conv)
    then show ?thesis using i Some awarded_granted [of got "cienv S" n nb U M B c av1 L] by (simp add: steady_def)
  qed
qed

lemma libc_mallocD:
  fixes av :: "'z proc_scheme"
  assumes run: "libc_malloc S bytes av = Some (mem, av')" and st: "heap_state (got (calls av)) (cienv S) (Suc (Suc (Suc (Suc n)))) av U M B"
    and p: "par_ok (par av)" and mn: "is_main av" and sb: "sbrks_ok (calls av)" and k: "kernel_ok (kernel S) brk got" and al: "alone S"
  shows "granted got (cienv S) n bytes U M B mem av' \<and> steady av av'"
  by (rule libc_malloc_from_int [OF run al]) (rule heap_int_malloc [where got = got, OF _ st p mn sb k])

lemma libc_malloc_checkedD:
  fixes av :: "'z proc_scheme"
  assumes run: "libc_malloc S bytes av = Some (mem, av')" and st: "heap_state (got (calls av)) (cienv S) (Suc (Suc (Suc (Suc n)))) av U M B"
    and p: "par_ok (par av)" and mn: "is_main av" and sb: "sbrks_ok (calls av)" and k: "kernel_ok (kernel S) brk got" and al: "alone S"
    and nb: "checked_request2size bytes = Inr nb"
  shows "granted got (cienv S) n nb U M B mem av' \<and> steady av av'"
  by (rule libc_malloc_from_int [OF run al]) (rule heap_int_malloc_checked [where got = got, OF _ st p mn sb k nb])

lemma heap_state_replenish:
  assumes "heap_state Z E n av U M B" and "replenish_metadata_cache E av = Some (ok, av')"
  shows "ok \<and> av' = av"
proof -
  from assms(1) obtain T f where "view E n av T f" by (rule heap_state_table)
  then have "metadata_cache_count av = METADATA_CACHE_SIZE" by (auto simp: view_def sees_def meta_ok_def)
  then show ?thesis using assms(2) by (auto simp: replenish_metadata_cache_def Let_def bind_assert_eq_Some_iff split: if_splits)
qed

lemma libc_callocD:
  fixes av :: "'z proc_scheme"
  assumes run: "libc_calloc S m s av = Some (mem, cl, av')" and st: "heap_state (got (calls av)) (cienv S) (Suc (Suc (Suc (Suc n)))) av U M B"
    and p: "par_ok (par av)" and mn: "is_main av" and sb: "sbrks_ok (calls av)" and k: "kernel_ok (kernel S) brk got" and al: "alone S"
  shows "granted got (cienv S) n (m * s) U M B mem av' \<and> steady av av' \<and> (mem \<noteq> 0 \<longrightarrow> \<not> calloc_overflow m s)"
proof (cases "calloc_overflow m s")
  case True
  then have "mem = 0" "av' = set_enomem av" using run by (simp_all add: libc_calloc_def)
  moreover have "heap_state (got (calls av)) (cienv S) n (set_enomem av) U M B"
    using heap_state_more [OF heap_state_errno [OF st, of ENOMEM]] by (simp add: put_errno_def set_enomem_def)
  ultimately show ?thesis by (simp add: granted_def steady_def set_enomem_def)
next
  case False
  from run [unfolded libc_calloc_def Let_def if_not_P [OF False]]
  obtain ok av0 where r0: "replenish_metadata_cache (cienv S) av = Some (ok, av0)"
    "(if \<not> ok then Some (0, 0, av0)
      else do {
         _ \<leftarrow> md_top av0;
         (md, av) \<leftarrow> int_malloc S (m * s) av0;
         md \<leftarrow> md;
         av' \<leftarrow> assert_arena S md av;
         if chunkinfo2mem av (Some md) = 0 then Some (0, 0, av')
         else if chunk_is_mmapped av' md then Some (chunkinfo2mem av (Some md), 0, av')
         else do { check_top (par av') av'; Some (chunkinfo2mem av (Some md), m * s, av') } }) = Some (mem, cl, av')"
    by (erule bind_pair_SomeE)
  note e = heap_state_replenish [OF st r0(1)]
  from r0(2) e obtain c av1 av2 where r: "int_malloc S (m * s) av = Some (Some c, av1)" "assert_arena S c av1 = Some av2"
    "mem = chunkinfo2mem av1 (Some c)" "av' = av2"
    by (auto simp: bind_eq_Some_conv split: if_splits)
  obtain L where L: "av' = av1\<lparr>lkup := L\<rparr>" using assert_arenaD [OF r(2)] r(4) by blast
  note i = heap_int_malloc [where got = got, OF r(1) st p mn sb k]
  show ?thesis using i False L r(3) awarded_granted [of got "cienv S" n "m * s" U M B c av1 L] by (simp add: steady_def)
qed

section \<open>\<open>free\<close>\<close>

lemma bare_unmapped:
  fixes av :: "'z proc_scheme"
  assumes b: "table_fits Z (fA f) (fS f) T" "\<forall>c \<in> ran T. fN f c = None \<and> fP f c = 0"
    "rings_ok f own {} (bins_base av)" "fastbinsY av = replicate NFASTBINS None" "bin_map av = replicate BINMAPSIZE 0"
    "\<not> have_fastchunks av" "md_top av = Some t" "t \<in> ran T" "fS f t = 0" "ran T = M" "\<forall>c \<in> M. B c = blocks_of f c"
    and c: "T p = Some c" "fA f c = p" "mmapped_bit (fS f c)" and v: "view E n av' (T(p := None)) f"
    and z: "Z' = Z - {unat p ..< unat p + size_of (fS f c)}"
    and fr: "fastbinsY av' = fastbinsY av" "md_top av' = md_top av" "bins_base av' = bins_base av" "bin_map av' = bin_map av"
      "have_fastchunks av' = have_fastchunks av"
  shows "bare Z' E n av' (M - {c}) B"
proof -
  have key: "fA f x = k'" if "T k' = Some x" for k' x using b(1) that by (auto simp: table_fits_def)
  have ran: "ran (T(p := None)) = ran T - {c}"
    by (rule ran_delete) (use c(1) key in \<open>auto dest: key\<close>)
  have tc: "t \<noteq> c" using c(3) b(9) by (auto simp: mmapped_bit_def IS_MMAPPED_def)
  show ?thesis
  proof (rule bareI [OF v])
    show "table_fits Z' (fA f) (fS f) (T(p := None))"
      unfolding table_fits_def ran
    proof (intro conjI allI ballI impI)
      show "fA f x = k'" if "(T(p := None)) k' = Some x" for k' x using that key by (auto split: if_splits)
      fix x assume x: "x \<in> ran T - {c}"
      show "mapped_fits (fS f x)" using b(1) x by (auto simp: table_fits_def)
      have "c \<in> ran T" using c(1) by (rule ranI)
      then have "apart (fA f) (fS f) x c" "region (fA f) (fS f) x \<subseteq> Z" using b(1) x by (auto simp: table_fits_def)
      then show "region (fA f) (fS f) x \<subseteq> Z'" unfolding z using c(2) by (auto simp: apart_def region_def start_def)
      fix y assume "y \<in> ran T - {c}" "x \<noteq> y"
      then show "apart (fA f) (fS f) x y" using b(1) x by (auto simp: table_fits_def)
    qed
  qed (use b fr ran tc in auto)
qed

lemma bare_freeD:
  fixes av :: "'z proc_scheme"
  assumes run: "free_mapped S p av = Some av' \<or> int_free S None p False av = Some av'"
    and st: "bare (got (calls av)) (cienv S) n av M B" and c: "c \<in> M" "fst (B c) = p"
    and p: "par_ok (par av)" and k: "kernel_ok (kernel S) brk got"
  shows "bare (got (calls av')) (cienv S) n av' (M - {c}) B \<and> steady av av'"
proof -
  let ?E = "cienv S"
  from st obtain T f own t where b: "view ?E n av T f" "table_fits (got (calls av)) (fA f) (fS f) T" "\<forall>c \<in> ran T. fN f c = None \<and> fP f c = 0"
    "rings_ok f own {} (bins_base av)" "fastbinsY av = replicate NFASTBINS None" "bin_map av = replicate BINMAPSIZE 0"
    "\<not> have_fastchunks av" "md_top av = Some t" "t \<in> ran T" "fS f t = 0" "ran T = M" "\<forall>c \<in> M. B c = blocks_of f c" by (rule bareE)
  have pA: "fA f c = p" using c b(12) by (simp add: blocks_of_def)
  have key: "fA f x = k'" if "T k' = Some x" for k' x using b(2) that by (auto simp: table_fits_def)
  have ct: "T p = Some c" using c(1) b(11) key pA by (auto elim!: ranE)
  have n: "fN f c = None" "fP f c = 0" using b(3,11) c(1) by auto
  have "int_free S None p False av = None" by (rule int_free_no_next [OF b(1,8) ct n(1)]) (use p in \<open>simp add: par_ok_def\<close>)
  then have r: "free_mapped S p av = Some av'" using run by simp
  note w = free_mapped_view [OF r b(1) ct pA n(2) p k]
  show ?thesis using bare_unmapped [OF b(2-12) ct pA w(1,2,3-8)] w(9) by blast
qed

lemma heap_unmapD:
  fixes av :: "'z proc_scheme"
  assumes run: "munmap_chunk S c av = Some av2" "unregister_chunk (cienv S) p av2 = Some (x, av')"
    and st: "heap_state (got (calls av)) (cienv S) n av U M B" and c: "c \<in> U \<union> M" "fst (B c) = p"
    and p: "par_ok (par av)" and k: "kernel_ok (kernel S) brk got"
  shows "c \<in> M \<and> heap_state (got (calls av')) (cienv S) n av' U (M - {c}) B \<and> steady av av'"
proof -
  let ?E = "cienv S"
  have mm: "chunk_is_mmapped av c" using run(1) by (simp add: munmap_chunk_def Let_def bind_assert_eq_Some_iff)
  from st consider (heap) "state (got (calls av)) [] ?E n av U M B" | (bare) "U = {}" "bare (got (calls av)) ?E n av M B"
    by (auto simp: heap_state_def)
  then show ?thesis
  proof cases
    case heap
    then obtain T f H F G X own t where I: "pend (got (calls av)) [] ?E n av T f (fS f) H F G X own t"
      and B: "used H F G X t = U" "ran T - H = M" "\<forall>d \<in> U \<union> M. B d = blocks_of f d" by (rule stateE)
    note P = pendD [OF I] and D = heap_okD [OF pendD(2) [OF I]]
    have pA: "fA f c = p" using c B(3) by (simp add: blocks_of_def)
    note ct = block_in_table [OF I, of c, unfolded B(1,2) pA, OF c(1)]
    have "c \<notin> H" using mm view_chunk(4) [OF P(1) ct(2)] used_sizes(3) [OF I] by blast
    then have "fP f c = 0" using D(14) [of c] ct(1) by (auto intro: ranI)
    note w = unmap_view [OF run P(1) ct(1) pA this p k]
    show ?thesis using state_unmapped [OF I B c(1) ct(1) pA w(1,2,3-6)] w(9) by (auto simp: heap_state_def)
  next
    case bare
    then obtain T f own t where b: "view ?E n av T f" "table_fits (got (calls av)) (fA f) (fS f) T" "\<forall>c \<in> ran T. fN f c = None \<and> fP f c = 0"
      "rings_ok f own {} (bins_base av)" "fastbinsY av = replicate NFASTBINS None" "bin_map av = replicate BINMAPSIZE 0"
      "\<not> have_fastchunks av" "md_top av = Some t" "t \<in> ran T" "fS f t = 0" "ran T = M" "\<forall>c \<in> M. B c = blocks_of f c" by (elim bareE)
    have cM: "c \<in> M" using c(1) bare(1) by simp
    have pA: "fA f c = p" using c cM b(12) by (simp add: blocks_of_def)
    have key: "fA f x = k'" if "T k' = Some x" for k' x using b(2) that by (auto simp: table_fits_def)
    have ct: "T p = Some c" using cM b(11) key pA by (auto elim!: ranE)
    have n: "fP f c = 0" using b(3,11) cM by auto
    note w = unmap_view [OF run b(1) ct pA n p k]
    show ?thesis using bare_unmapped [OF b(2-12) ct pA w(1,2,3-8)] w(9) cM bare(1) by (auto simp: heap_state_def)
  qed
qed

lemma libc_freeD:
  fixes av :: "'z proc_scheme"
  assumes run: "libc_free S mem av = Some av'" and st: "heap_state (got (calls av)) (cienv S) n av U M B"
    and c: "c \<in> U \<union> M" "fst (B c) = mem" "mem \<noteq> 0"
    and p: "par_ok (par av)" and mn: "is_main av" and k: "kernel_ok (kernel S) brk got" and al: "alone S"
  shows "heap_state (got (calls av')) (cienv S) n av' (U - {c}) (M - {c}) B \<and> steady av av'"
proof -
  obtain K where K: "free_mapped S mem (av\<lparr>lkup := K\<rparr>) = Some av' \<or> int_free S None mem False (av\<lparr>lkup := K\<rparr>) = Some av'"
    by (rule libc_freeE [OF run c(3) al])
  let ?av = "av\<lparr>lkup := K\<rparr>"
  have e: "heap_state (got (calls ?av)) (cienv S) n ?av U M B" "par_ok (par ?av)" "is_main ?av" "steady av ?av"
    using st p mn by (simp_all add: heap_state_lkup steady_def)
  from e(1) consider (heap) "state (got (calls ?av)) [] (cienv S) n ?av U M B" | (bare) "U = {}" "bare (got (calls ?av)) (cienv S) n ?av M B"
    by (auto simp: heap_state_def)
  then show ?thesis
  proof cases
    case heap
    from free_stateD [where got = got, OF K heap c(1,2) e(2,3) k] show ?thesis
      using steady_trans [OF e(4)] by (simp add: heap_state_def)
  next
    case bare
    then have "c \<in> M" using c(1) by simp
    from bare_freeD [where got = got, OF K bare(2) this c(2) e(2) k] bare(1) show ?thesis
      using steady_trans [OF e(4)] by (simp add: heap_state_def)
  qed
qed

end
