(* ===== verification/Malloc_Init.thy ===== *)
theory Malloc_Init
  imports Malloc_Bare Lookup_Props
begin

text \<open>
  The start of the process: \<open>malloc_init_state\<close> turns the zeroed main arena into the bare one, and with the
  kernel on its side it does not fail.
\<close>

section \<open>The memory of the metadata\<close>

lemma mapped_by_segments [simp]: "mapped_by E (m\<lparr>mc_segments := x\<rparr>) m' = mapped_by E m m'"
  by (simp add: mapped_by_def)

lemma mapped_by_init_memcxt: "init_memcxt E m = (b, m') \<Longrightarrow> mapped_by E m m'"
  unfolding init_memcxt_def
  by (clarsimp split: prod.splits option.splits) (auto dest!: mapped_by_new_segments mapped_by_new_buckets intro: mapped_by_trans)

lemma mapped_by_create_segments: "create_segments E d i n m = Some (ok, m') \<Longrightarrow> mapped_by E m m'"
proof (induction n arbitrary: i m)
  case (Suc n)
  from Suc.prems obtain r m1 m2 where r: "memcxt_allocate E SEGMENT None sizeof_segment m = Some (r, m1)"
    "dir_set m1 d i (map_option seg_ptr r) = Some m2"
    "(if r = None then Some (False, m2\<lparr>errno := Some ENOMEM\<rparr>) else create_segments E d (Suc i) n m2) = Some (ok, m')"
    unfolding create_segments.simps by (elim bindE)
  have 2: "mapped_by E m m2" using mapped_by_trans [OF mapped_by_allocate [OF r(1)] mapped_by_dir_set [OF r(2)]] .
  show ?case
  proof (cases "r = None")
    case True
    then show ?thesis using r(3) 2 by auto
  next
    case False
    then show ?thesis using r(3) 2 Suc.IH mapped_by_trans by fastforce
  qed
qed simp

lemma mapped_by_init_table:
  assumes "init_table E c n t m = Some (ok, t', m')"
  shows "mapped_by E m m'"
proof -
  consider (big) "mapped_by E m m'" | (dir) d d' m1 where "memcxt_allocate E DIRECTORY None d m = Some (d', m1)"
      "mapped_by E m1 m'"
    using assms unfolding init_table_def Let_def
    by (auto simp del: memcxt_allocate.simps simp: bind_eq_Some_conv split: option.splits if_splits dest!: mapped_by_create_segments)
  then show ?thesis by cases (use mapped_by_trans [OF mapped_by_allocate] in blast)+
qed

lemma mapped_by_init_metadata: "init_metadata E t b m = Some (ok, t', m') \<Longrightarrow> mapped_by E m m'"
  by (auto simp: init_metadata_def bind_eq_Some_conv split: option.splits if_splits dest: mapped_by_init_table)

lemma allocate_represents:
  assumes "represents E t m c" and "mmap_total E"
  shows "\<exists>r m'. allocate_chunkinfoptr E m = Some (Some r, m') \<and> represents E t m' c \<and> mapped_by E m m'"
proof (rule alloc_bucket_represents [OF assms(1)])
  fix r m' assume a: "alloc_bucket E m = Some (Some r, m')" "represents E t m' c" "\<And>k. r \<notin> set (c k)"
  then show ?thesis
    using represents_bucket_upd [OF a(2,3)] mapped_by_alloc_bucket [OF a(1)] by (simp add: allocate_chunkinfoptr_def Let_def)
qed (use assms(2) in simp)

lemma replenish_loop_run:
  assumes "represents E t (memory av) c" and "mmap_total E" and "i + n \<le> length (metadata_cache av)"
    and "\<And>j. i \<le> j \<Longrightarrow> j < i + n \<Longrightarrow> metadata_cache av ! j = None"
  shows "\<exists>m cache. replenish_loop E i n av = Some (True, av\<lparr>memory := m, metadata_cache := cache\<rparr>) \<and>
    represents E t m c \<and> mapped_by E (memory av) m"
  using assms
proof (induction n arbitrary: i av)
  case 0
  then show ?case by (intro exI [of _ "memory av"] exI [of _ "metadata_cache av"]) simp
next
  case (Suc n)
  obtain r m' where a: "allocate_chunkinfoptr E (memory av) = Some (Some r, m')" "represents E t m' c" "mapped_by E (memory av) m'"
    using allocate_represents [OF Suc.prems(1,2)] by blast
  let ?av = "av\<lparr>memory := m', metadata_cache := (metadata_cache av)[i := Some r]\<rparr>"
  obtain m cache where m: "replenish_loop E (i + 1) n ?av = Some (True, ?av\<lparr>memory := m, metadata_cache := cache\<rparr>)"
    "represents E t m c" "mapped_by E m' m"
    using Suc.IH [of ?av "i + 1"] a(2) Suc.prems by auto
  have "replenish_loop E i (Suc n) av = Some (True, av\<lparr>memory := m, metadata_cache := cache\<rparr>)"
    using a(1) m(1) Suc.prems(3,4) by (simp add: assert_c_def)
  then show ?case using m(2) mapped_by_trans [OF a(3) m(3)] by blast
qed

section \<open>The bins\<close>

lemma init_bins_frame: "init_bins i n av = av\<lparr>bin_heads := bin_heads (init_bins i n av)\<rparr>"
proof (induction n arbitrary: i av)
  case (Suc n)
  show ?case unfolding init_bins.simps Let_def by (subst Suc.IH) (simp add: ci_upd_def bin_at_def)
qed simp

lemma init_bins_heads:
  assumes "i + n \<le> NBINS"
  shows "bin_heads (init_bins i n av) j =
    (if i \<le> j \<and> j < i + n then (bin_heads av j)\<lparr>fd := Some (Bptr (bins_base av) j), bk := Some (Bptr (bins_base av) j)\<rparr> else bin_heads av j)"
  using assms
proof (induction n arbitrary: i av)
  case (Suc n)
  have u: "unat (word_of_nat i :: u32) = i" using Suc.prems by (simp add: unat_of_nat NBINS_def)
  show ?case unfolding init_bins.simps Let_def using Suc.prems
    by (subst Suc.IH) (auto simp: ci_upd_def bin_at_def u)
next
  case 0
  then show ?case by auto
qed

lemma init_bins_rings:
  fixes av :: "'z proc_scheme"
  assumes "bin_heads av = (\<lambda>_. zero_chunkinfo)" and h: "bin_heads av' = bin_heads (init_bins 1 (NBINS - 1) av)" "bins_base av' = bins_base av"
    and f: "\<And>x. x \<in> headers (bins_base av) \<Longrightarrow> fF f x = fd (ci av' x) \<and> fB f x = bk (ci av' x) \<and> fFN f x = fd_nextsize (ci av' x) \<and>
      fBN f x = bk_nextsize (ci av' x) \<and> fS f x = csize (ci av' x)"
  shows "rings_ok f bidx {} (bins_base av)"
proof -
  have e: "fF f x = Some x" "fB f x = Some x" "fFN f x = None" "fBN f x = None" "fS f x = 0" if x: "x \<in> headers (bins_base av)" for x
  proof -
    obtain i where i: "x = Bptr (bins_base av) i" "1 \<le> i" "i < NBINS" using x by (auto simp: headers_def)
    then have "ci av' x = zero_chunkinfo\<lparr>fd := Some x, bk := Some x\<rparr>"
      using assms(1) h init_bins_heads [of 1 "NBINS - 1" av i] by (simp add: ci_def)
    then show "fF f x = Some x" "fB f x = Some x" "fFN f x = None" "fBN f x = None" "fS f x = 0"
      using f [OF x] by (simp_all add: zero_chunkinfo_def)
  qed
  have "ring_ok (fF f) (fB f) bidx {} (bins_base av)" using e by (auto simp: ring_ok_def headers_def)
  moreover have "skip_ok (fFN f) (fBN f) bidx {} (bins_base av)" by (rule skip_okI) (auto simp: in_large_def e)
  ultimately show ?thesis using e(5) by (simp add: rings_ok_def)
qed


section \<open>The main arena before and after\<close>

text \<open>The static values of \<open>mp_\<close> and \<open>check_action\<close>, with the page size, and the static \<open>main_arena\<close>.\<close>

definition initial_mp :: "u64 \<Rightarrow> malloc_par" where
  "initial_mp pagesize =
    \<lparr>global_max_fast = 0, check_action = 3, dl_pagesize = pagesize, trim_threshold = 128 * 1024, top_pad = 0,
     mmap_threshold = 128 * 1024, n_mmaps = 0, n_mmaps_max = 65536, max_n_mmaps = 0, no_dyn_threshold = False,
     mmapped_mem = 0, max_mmapped_mem = 0, mp_sbrk_base = 0\<rparr>"

definition zeroed :: "'z proc_scheme \<Rightarrow> bool" where
  "zeroed av \<longleftrightarrow> is_main av \<and> flags av = 0 \<and> fastbinsY av = replicate NFASTBINS None \<and> md_top av = None \<and>
     bin_heads av = (\<lambda>_. zero_chunkinfo) \<and> bin_map av = replicate BINMAPSIZE 0 \<and> \<not> metadata_pool_ready av \<and>
     regions (memory av) = {} \<and> metadata_cache av = replicate METADATA_CACHE_SIZE None \<and> metadata_cache_count av = 0 \<and>
     calls av = [] \<and> (\<exists>k. 12 \<le> k \<and> k < 64 \<and> par av = initial_mp (2 ^ k))"

text \<open>The \<open>mmap\<close> of the metadata never fails, and does not return the address of the main arena.\<close>

definition metadata_kernel :: "ci_env \<Rightarrow> addr \<Rightarrow> bool" where
  "metadata_kernel E base \<longleftrightarrow> env_ok E \<and> mmap_total E \<and> avoids E base"

text \<open>The arena between the initialization and the first memory.\<close>

definition started :: "nat set \<Rightarrow> ('z proc_scheme) sysenv \<Rightarrow> 'z proc_scheme \<Rightarrow> 'z proc_scheme \<Rightarrow> bool" where
  "started Z S av0 av \<longleftrightarrow> (\<exists>t. bare Z (cienv S) (2 ^ 31 - 513) av {t} (\<lambda>_. (initial_top av0, 0))) \<and>
     calls av = [] \<and> is_main av \<and> initial_top av = initial_top av0 \<and>
     par av = (par av0)\<lparr>global_max_fast := 128\<rparr> \<and> par_ok (par av)"

lemma register_view_run:
  assumes "view E (Suc n) av T f" and "T p = None"
  shows "\<exists>c av'. register_chunk E p av = Some (c, av')"
proof -
  from assms(1) obtain K h where "sees E (Suc n) av T K h" by (rule viewE)
  from register_chunk_run [OF this assms(2)] show ?thesis by blast
qed

lemma malloc_init_state_run:
  fixes av :: "'z proc_scheme"
  assumes z: "zeroed av" and k: "metadata_kernel (cienv S) (bins_base av)" and L: "lookup_init (lk_mmap S) HEAP_MAX_SIZE (lkup av) = Some L"
    and top: "unat (initial_top av) \<in> Z"
  shows "\<exists>av'. malloc_init_state S True av = Some av' \<and> started Z S av av' \<and> lkup av' = L"
proof -
  let ?E = "cienv S"
  define av1 where "av1 = init_bins 1 (NBINS - 1) (av\<lparr>lkup := L\<rparr>)"
  define av2 where "av2 = av1\<lparr>par := (par av)\<lparr>global_max_fast := set_max_fast DEFAULT_MXFAST\<rparr>, flags := FASTCHUNKS_BIT, arena_index := MAIN_ARENA_INDEX\<rparr>"
  have e1: "av1 = av\<lparr>lkup := L, bin_heads := bin_heads av1\<rparr>"
    unfolding av1_def by (subst init_bins_frame) simp
  note E = k [unfolded metadata_kernel_def]
  have m: "memory av2 = memory av" "htbl av2 = htbl av" "is_main av1 = is_main av" "par av1 = par av" "flags av1 = flags av"
    by (simp_all add: av2_def) (subst e1, simp)+
  obtain m1 where m1: "init_memcxt ?E (memory av) = (True, m1)"
    using init_memcxt_total [of ?E "memory av"] E z by (cases "init_memcxt ?E (memory av)") (auto simp: zeroed_def)
  obtain ok1: "memcxt_ok ?E m1" "live_buckets ?E m1 = {}" "free_segments_clear ?E m1"
    by (rule init_memcxt_cases [of ?E "memory av"]) (use E z m1 in \<open>auto simp: zeroed_def\<close>)
  obtain t2 m2 where m2: "init_metadata ?E (Some (htbl av)) True m1 = Some (True, Some t2, m2)" "represents ?E t2 m2 (\<lambda>_. [])" "bincount t2 = 256"
    using init_metadata_correct [OF ok1(1,3), of "htbl av"] E by auto
  define av3 where "av3 = av2\<lparr>memory := m2, htbl := t2, metadata_pool_ready := True\<rparr>"
  have c3: "metadata_cache av3 = replicate METADATA_CACHE_SIZE None" "metadata_cache_count av3 = 0"
    using z by (simp_all add: zeroed_def av3_def av2_def) (subst e1, simp)+
  obtain m3 cache where m3: "replenish_loop ?E 0 METADATA_CACHE_SIZE av3 = Some (True, av3\<lparr>memory := m3, metadata_cache := cache\<rparr>)"
    "represents ?E t2 m3 (\<lambda>_. [])" "mapped_by ?E m2 m3"
    using replenish_loop_run [of ?E t2 av3 "\<lambda>_. []" 0 METADATA_CACHE_SIZE] m2(2) E c3 by (auto simp: av3_def)
  define av4 where "av4 = av3\<lparr>memory := m3, metadata_cache := cache, metadata_cache_count := METADATA_CACHE_SIZE\<rparr>"
  have rep: "replenish_metadata_cache ?E av3 = Some (True, av4)"
    using m3(1) c3 by (simp add: replenish_metadata_cache_def av4_def assert_c_def METADATA_CACHE_SIZE_def) (simp add: av3_def)
  have e4: "bins_base av4 = bins_base av" "bin_heads av4 = bin_heads (init_bins 1 (NBINS - 1) (av\<lparr>lkup := L\<rparr>))" "memory av4 = m3" "htbl av4 = t2"
    "metadata_cache_count av4 = METADATA_CACHE_SIZE" "fastbinsY av4 = fastbinsY av" "bin_map av4 = bin_map av" "flags av4 = FASTCHUNKS_BIT"
    "initial_top av4 = initial_top av" "calls av4 = calls av" "is_main av4 = is_main av" "lkup av4 = L"
    "par av4 = (par av)\<lparr>global_max_fast := set_max_fast DEFAULT_MXFAST\<rparr>"
    by (simp_all add: av4_def av3_def av2_def) (subst e1, simp; fail | simp add: av1_def)+
  have "mapped_by ?E (memory av) m3"
    using mapped_by_init_memcxt [OF m1] mapped_by_init_metadata [OF m2(1)] m3(3) by (blast intro: mapped_by_trans)
  then have reg: "bins_base av \<notin> regions m3" using E z by (auto simp: zeroed_def dest: mapped_by_avoids)
  have "entry_lists Map.empty = (\<lambda>_. [])" by (simp add: entry_lists_def fun_eq_iff)
  then have "meta_ok ?E (Suc (2 ^ 31 - 513)) av4 Map.empty"
    using m3(2) m2(3) E reg by (simp add: meta_ok_def e4)
  define f where "f = fields_of (info av4)"
  have v4: "view ?E (Suc (2 ^ 31 - 513)) av4 Map.empty f"
    using \<open>meta_ok ?E (Suc (2 ^ 31 - 513)) av4 Map.empty\<close> by (auto simp: view_def sees_def f_def)
  obtain c av5 where r: "register_chunk ?E (initial_top av4) av4 = Some (c, av5)" using register_view_run [OF v4, of "initial_top av4"] by auto
  note g = register_view [OF r v4 refl]
  define av6 where "av6 = (set_head c 0 (w_prev_size 0 c av5))\<lparr>md_top := Some c\<rparr>"
  have run: "malloc_init_state S True av = Some av6"
  proof -
    have i: "init_bins (Suc 0) (NBINS - Suc 0) (av\<lparr>lkup := L\<rparr>) = av1" "is_main av1" "flags av1 = 0" "is_main av"
      using z m(3,5) by (simp_all add: av1_def zeroed_def)
    have 2: "av1\<lparr>par := (par av)\<lparr>global_max_fast := set_max_fast DEFAULT_MXFAST\<rparr>, flags := FASTCHUNKS_BIT, arena_index := MAIN_ARENA_INDEX\<rparr> = av2"
      by (simp add: av2_def)
    have m1': "init_memcxt ?E (memory av1) = (True, m1)" "htbl av1 = htbl av" using m1 m by (simp_all add: av2_def)
    have "av1\<lparr>par := (par av)\<lparr>global_max_fast := set_max_fast DEFAULT_MXFAST\<rparr>, flags := FASTCHUNKS_BIT, arena_index := MAIN_ARENA_INDEX,
        memory := m2, htbl := t2, metadata_pool_ready := True\<rparr> = av3" by (simp add: av3_def av2_def)
    then show ?thesis
      using m2(1) rep r by (simp add: malloc_init_state_def Let_def L i m1' m(4) initial_md_top_def assert_c_def av6_def)
  qed
  define h where "h = fresh_fields (initial_top av4) c f"
  have fr: "bins_base av6 = bins_base av4" "fastbinsY av6 = fastbinsY av4" "bin_map av6 = bin_map av4" "flags av6 = flags av4" "md_top av6 = Some c"
    "initial_top av6 = initial_top av4" "calls av6 = calls av4" "par av6 = par av4" "is_main av6 = is_main av4" "lkup av6 = lkup av4"
    using frame_sel [OF g(4)] frame_proc [OF g(4)] by (simp_all add: av6_def set_head_def)
  have "view ?E (2 ^ 31 - 513) (set_head c 0 (w_prev_size 0 c av5)) [initial_top av4 \<mapsto> c] h"
    using view_writes(9) [OF view_writes(2) [OF g(3), of 0 c], of c 0] by (simp add: h_def fresh_fields_def)
  then have v6: "view ?E (2 ^ 31 - 513) av6 [initial_top av4 \<mapsto> c] h" unfolding av6_def by (rule view_same) simp_all
  have "bare Z ?E (2 ^ 31 - 513) av6 {c} (\<lambda>_. (initial_top av, 0))"
  proof (rule bareI [OF v6])
    have "bin_heads (av\<lparr>lkup := L\<rparr>) = (\<lambda>_. zero_chunkinfo)" using z by (simp add: zeroed_def)
    then have "rings_ok h bidx {} (bins_base (av\<lparr>lkup := L\<rparr>))"
    proof (rule init_bins_rings)
      show "bin_heads av4 = bin_heads (init_bins 1 (NBINS - 1) (av\<lparr>lkup := L\<rparr>))" by (fact e4(2))
      fix x assume "x \<in> headers (bins_base (av\<lparr>lkup := L\<rparr>))"
      then have "x \<noteq> c" using g(2) e4(1) by (auto simp: headers_def)
      then show "fF h x = fd (ci av4 x) \<and> fB h x = bk (ci av4 x) \<and> fFN h x = fd_nextsize (ci av4 x) \<and>
          fBN h x = bk_nextsize (ci av4 x) \<and> fS h x = csize (ci av4 x)"
        by (simp add: h_def f_def fields_of_def info_def)
    qed (simp add: e4)
    then show "rings_ok h bidx {} (bins_base av6)" by (simp add: fr e4)
    show "table_fits Z (fA h) (fS h) [initial_top av4 \<mapsto> c]"
      using top by (auto simp: table_fits_def h_def e4 region_def start_def size_of_eq mapped_fits_def mmapped_bit_def IS_MMAPPED_def split: if_splits)
  qed (use z fr e4 in \<open>auto simp: h_def zeroed_def blocks_of_def size_of_eq have_fastchunks_def FASTCHUNKS_BIT_def\<close>)
  moreover have "par_ok (par av6)"
    using z by (auto simp: zeroed_def fr e4 par_ok_def initial_mp_def set_max_fast_default MINSIZE_eq)
  ultimately have "started Z S av av6" using z by (auto simp: started_def fr e4 zeroed_def set_max_fast_default)
  then show ?thesis using run fr(10) e4(12) by blast
qed

lemma bare_check_bins:
  fixes av :: "'z proc_scheme"
  assumes b: "bare Z E n av M B"
  shows "do_check_bins E av = Some av"
proof -
  have "check_bins_loop E tc i k av = Some av" if "1 \<le> i" "i + k \<le> NBINS" for tc i k
    using that
  proof (induction k arbitrary: i)
    case (Suc k)
    have u: "unat (word_of_nat i :: u32) = i" using Suc.prems by (simp add: unat_of_nat NBINS_def)
    note h = bare_bin [OF b, of i]
    have bin: "bin_at av (word_of_nat i) = Bptr (bins_base av) i" by (simp add: bin_at_def u)
    have ring: "check_ring E tc (word_of_nat i) (Bptr (bins_base av) i) (Some (Bptr (bins_base av) i)) av = Some av"
      by (subst check_ring.simps) simp
    have map: "\<exists>x. get_binmap (bin_map av) (word_of_nat i) = Some x"
      using b Suc.prems idx2block_nat [of "word_of_nat i"] by (auto elim!: bareE simp: get_binmap_def u malloc_consts NBINS_def assert_c_def)
    then show ?case using Suc h ring by (auto simp: bin Let_def assert_c_def)
  qed simp
  moreover obtain t where "md_top av = Some t" using b by (rule bareE)
  ultimately show ?thesis by (simp add: do_check_bins_def NBINS_def)
qed

section \<open>The first request\<close>

text \<open>
  A request to the zeroed arena that is not refused for its size initializes the arena, through
  \<open>malloc_consolidate\<close>, and goes on as in the arena so initialized.
\<close>

lemma malloc_init_state_lookup:
  "malloc_init_state S True av = Some av' \<Longrightarrow> \<exists>L. lookup_init (lk_mmap S) HEAP_MAX_SIZE (lkup av) = Some L"
  by (auto simp: malloc_init_state_def bind_eq_Some_conv)

lemma zeroed_consolidate:
  assumes "zeroed av"
  shows "malloc_consolidate S av = do { av \<leftarrow> malloc_init_state S True av; do_check_bins (cienv S) av }"
  using assms by (auto simp: malloc_consolidate_def zeroed_def initial_mp_def)

lemma zeroed_int_malloc:
  fixes av :: "'z proc_scheme"
  assumes z: "zeroed av" and nb: "checked_request2size bytes = Inr nb"
  shows "int_malloc S bytes av = (malloc_consolidate S av \<bind> malloc_loop S nb (bin_index nb))"
proof -
  have n0: "\<not> nb \<le> 0" using checked_request(1) [OF nb] by (auto simp: req_ok_def word_le_nat_alt)
  have r0: "replenish_metadata_cache (cienv S) av = Some (True, av)" using z by (simp add: replenish_metadata_cache_def zeroed_def)
  have r1: "malloc_fast nb av = Some (None, av)" using z n0 by (auto simp: malloc_fast_def zeroed_def initial_mp_def)
  have b: "bk (ci av (bin_at av i)) = None" for i using z by (simp add: ci_def bin_at_def zeroed_def zero_chunkinfo_def)
  have "have_fastchunks av" using z by (simp add: have_fastchunks_def zeroed_def)
  then have r2: "malloc_small S nb av = (malloc_consolidate S av \<bind> (\<lambda>av. Some (None, av)))"
    using b by (simp add: malloc_small_def Let_def)
  show ?thesis unfolding bin_index_def by (simp add: int_malloc_def nb r0 r1 r2)
qed

lemma zeroed_malloc:
  fixes av :: "'z proc_scheme"
  assumes z: "zeroed av" and nb: "checked_request2size bytes = Inr nb" and i: "malloc_init_state S True av = Some av1" and s: "started Z S av av1"
  shows "libc_malloc S bytes av = libc_malloc S bytes av1"
proof -
  obtain M B where b: "bare Z (cienv S) (2 ^ 31 - 513) av1 M B" and p: "par_ok (par av1)" using s by (auto simp: started_def)
  have c: "malloc_consolidate S av = Some av1" using i bare_check_bins [OF b] by (simp add: zeroed_consolidate [OF z])
  have "int_malloc S bytes av = malloc_loop S nb (bin_index nb) av1" by (simp add: zeroed_int_malloc [OF z nb] c)
  also have "\<dots> = int_malloc S bytes av1" using bare_malloc_loop [OF b checked_request(1) [OF nb]] bare_int_malloc [OF b p nb] by simp
  finally show ?thesis by (simp add: libc_malloc_def)
qed

section \<open>A large request\<close>

lemma bare_map_chunk_run:
  fixes av :: "'z proc_scheme"
  assumes st: "bare Z (cienv S) (Suc n) av M B" and L: "lookup_ok (lk_mmap S) k (lkup av) A" "k < 2 ^ 30"
    and sz: "sz = ALIGN_UP (nb + SIZE_SZ) (dl_pagesize (par av))" "nb < sz"
    and mm: "kernel S (calls av @ [Mmap sz]) = Some mm" "clean mm" "Z \<inter> {unat mm ..< unat mm + unat sz} = {}"
  shows "\<exists>md av'. map_chunk S nb av = Some (Some (Some md), av') \<and> chunkinfo2mem av' (Some md) = mm \<and> chunk_is_mmapped av' md \<and>
    md_top av' = md_top av \<and> initial_top av' = initial_top av \<and> (\<forall>t. md_top av = Some t \<longrightarrow> chunkinfo2chunk av' t = chunkinfo2chunk av t)"
proof -
  let ?E = "cienv S" and ?av = "av\<lparr>calls := calls av @ [Mmap sz]\<rparr>"
  from st obtain T f own t where b: "view ?E (Suc n) av T f" "table_fits Z (fA f) (fS f) T" "md_top av = Some t" "t \<in> ran T" by (rule bareE)
  have s1: "1 \<le> unat sz" "sz \<noteq> 0" using sz(2) by (auto simp: word_less_nat_alt)
  have v0: "view ?E (Suc n) ?av T f" by (rule view_same [OF b(1)]) simp_all
  have Tm: "T mm = None" by (rule fresh_in_table [OF b(2) mm(3) s1(1)])
  from register_view_run [OF v0 Tm] obtain md av1 where r: "register_chunk ?E mm ?av = Some (md, av1)" by blast
  note g = register_view [OF r v0 Tm]
  have sh: "shown av1 (T(mm \<mapsto> md)) md" by (auto simp: shown_def ran_def)
  have a: "chunk (ci av1 md) = mm" using view_sel(1) [OF g(3) sh] by simp
  have lk: "lkup (set_head md (sz OR IS_MMAPPED) av1) = lkup av" using frame_proc [OF g(4)] by simp
  obtain L' where L': "lookup_add_mmap (lk_mmap S) mm sz (lkup av) = Some (True, L')" using lookup_add_mmap_run [OF L mm(2) s1(2)] by blast
  define av' where "av' = (set_head md (sz OR IS_MMAPPED) av1)\<lparr>lkup := L', par := count_mmap sz (par av1)\<rparr>"
  have al: "MALLOC_ALIGNMENT = 2 * SIZE_SZ" "chunk2mem mm = mm" by (simp_all add: malloc_consts chunk2mem_def HEADER_SIZE_def)
  have am: "mm AND MALLOC_ALIGN_MASK = 0" using mm(2) by (simp add: clean_def is_assimilated_def KEY_ALIGNMENT_def malloc_consts)
  have chk: "check_metadata_chunk av1 mm (Some md) = Some ()"
    using a by (simp add: check_metadata_chunk_def chunkinfo2chunk_def mem2chunk_def HEADER_SIZE_def assert_c_def)
  have run: "map_chunk S nb av = Some (Some (Some md), av')"
    using sz(2) mm(1) am r chk L' lk by (simp add: map_chunk_def Let_def al sz(1) [symmetric] sys_MMAP_def assert_c_def av'_def)
  have c: "ci av' md = (ci av1 md)\<lparr>csize := sz OR IS_MMAPPED\<rparr>"
    by (simp add: av'_def ci_def set_head_def ci_upd_def)
  have ct: "ci av' t = ci av1 t"
    using g(1) b(4) by (cases t; cases md) (auto simp: av'_def ci_def set_head_def ci_upd_def)
  have st1: "shown av1 (T(mm \<mapsto> md)) t" "shown av T t" using b(4) Tm by (auto simp: shown_def)
  have "chunk (ci av' t) = chunk (ci av t)" using view_sel(1) [OF g(3) st1(1)] view_sel(1) [OF b(1) st1(2)] g(1) b(4) ct by auto
  moreover have "md_top av' = md_top av" "initial_top av' = initial_top av" using frame_sel [OF g(4)] by (simp_all add: av'_def set_head_def)
  ultimately have keep: "md_top av' = md_top av" "initial_top av' = initial_top av" "\<forall>t. md_top av = Some t \<longrightarrow> chunkinfo2chunk av' t = chunkinfo2chunk av t"
    using b(3) by (simp_all add: chunkinfo2chunk_def)
  have "(x OR IS_MMAPPED) AND IS_MMAPPED = IS_MMAPPED" for x by (rule bit_eqI) (auto simp: bit_simps)
  then have "chunkinfo2mem av' (Some md) = mm" "chunk_is_mmapped av' md" using a by (simp_all add: c chunkinfo2mem_def chunk_is_mmapped_def)
  then show ?thesis using run keep by blast
qed

end
