(* ===== verification/Malloc_Program.thy ===== *)
theory Malloc_Program
  imports Malloc_Init
begin

text \<open>
  The heap under any sequence of requests of a program: the blocks that it has are apart, as large as they
  were asked for and in memory of the program, whatever the sequence and whatever the kernel grants.
\<close>

section \<open>The overflow test of \<open>calloc\<close>\<close>

lemma div_mult_overflow:
  fixes m s w :: nat
  assumes "m * s \<ge> w" and "0 < s" "s < w"
  shows "m * s mod w div s \<noteq> m"
proof -
  have "m * s mod w \<le> m * s - w" using assms(1) by (simp add: le_mod_geq)
  then have "m * s mod w < m * s" using assms by linarith
  then show ?thesis using assms(2) div_less_iff_less_mult [of s "m * s mod w" m] by simp
qed

lemma calloc_overflow_iff: "calloc_overflow m s \<longleftrightarrow> 2 ^ 64 \<le> unat m * unat s"
proof -
  have b: "unat (m * s) = unat m * unat s mod 2 ^ 64" by (simp add: unat_word_ariths)
  have s: "unat s < 2 ^ 64" using unsigned_less [of s] by simp
  show ?thesis
  proof (cases "2 ^ 64 \<le> unat m * unat s")
    case True
    then have s0: "s \<noteq> 0" by (intro notI) simp
    then have "0 < unat s" by (simp add: unat_gt_0)
    from div_mult_overflow [OF True this s] have d: "m * s div s \<noteq> m" using b by (auto simp: unat_div word_unat_eq_iff)
    have "HALF_INTERNAL_SIZE_T \<le> (m OR s)"
    proof (rule ccontr)
      assume "\<not> ?thesis"
      then have o: "unat (m OR s) < 2 ^ 32" by (simp add: HALF_INTERNAL_SIZE_T_def word_le_nat_alt push_bit_eq_mult)
      have "unat m \<le> unat (m OR s)" "unat s \<le> unat (m OR s)"
        using or_greater_eq [of "uint s" "uint m"] or_greater_eq [of "uint m" "uint s"]
        unfolding word_le_nat_alt [symmetric] by (simp_all add: word_le_def unsigned_or_eq or.commute)
      then have "unat m < 2 ^ 32" "unat s < 2 ^ 32" using o by linarith+
      then have "unat m * unat s < 2 ^ 32 * 2 ^ 32" by (rule mult_strict_mono) simp_all
      with True show False by simp
    qed
    then show ?thesis using True d s0 by (simp add: calloc_overflow_def Let_def)
  next
    case False
    then have "unat (m * s) = unat m * unat s" using b by simp
    then have d: "unat (m * s div s) = unat m * unat s div unat s" by (simp only: unat_div)
    have "m * s div s = m" if "s \<noteq> 0"
      unfolding word_unat_eq_iff d using that unat_gt_0 [of s] by (simp only: nonzero_mult_div_cancel_right neq0_conv simp_thms)
    then show ?thesis using False unfolding calloc_overflow_def Let_def by blast
  qed
qed

section \<open>Programs\<close>

text \<open>
  The requests of a program, and the blocks that it has, with the sizes it asked for. It frees nothing but
  the addresses it has, and \<open>NULL\<close>.
\<close>

datatype heap_request = Malloc u64 | Calloc u64 u64 | Free u64

definition got_block :: "u64 \<Rightarrow> nat \<Rightarrow> (u64 \<times> nat) list \<Rightarrow> (u64 \<times> nat) list" where
  "got_block mem n live = (if mem = 0 then live else (mem, n) # live)"

fun serve_heap ::
  "('z proc_scheme) sysenv \<Rightarrow> heap_request list \<Rightarrow> 'z proc_scheme \<Rightarrow> (u64 \<times> nat) list \<Rightarrow> ((u64 \<times> nat) list \<times> 'z proc_scheme) option" where
  "serve_heap S [] av live = Some (live, av)"
| "serve_heap S (Malloc bytes # rs) av live = do {
     (mem, av) \<leftarrow> libc_malloc S bytes av;
     serve_heap S rs av (got_block mem (unat bytes) live) }"
| "serve_heap S (Calloc n elem_size # rs) av live = do {
     (mem, _, av) \<leftarrow> libc_calloc S n elem_size av;
     serve_heap S rs av (got_block mem (unat n * unat elem_size) live) }"
| "serve_heap S (Free mem # rs) av live =
    (if mem = 0 \<or> mem \<in> fst ` set live then do {
       av \<leftarrow> libc_free S mem av;
       serve_heap S rs av (filter (\<lambda>b. fst b \<noteq> mem) live) }
     else None)"

definition blocks_apart :: "(u64 \<times> nat) list \<Rightarrow> bool" where
  "blocks_apart live \<longleftrightarrow>
     sorted_wrt (\<lambda>(a, n) (b, m). unat a + max 1 n \<le> unat b \<or> unat b + max 1 m \<le> unat a) live"

definition blocks_within :: "nat set \<Rightarrow> (u64 \<times> nat) list \<Rightarrow> bool" where
  "blocks_within Z live \<longleftrightarrow> (\<forall>(a, n) \<in> set live. a \<noteq> 0 \<and> {unat a ..< unat a + n} \<subseteq> Z)"

section \<open>The blocks of the program are blocks of the heap\<close>

definition tracks where
  "tracks U M B live \<longleftrightarrow> distinct (map fst live) \<and>
     (\<forall>b \<in> set live. fst b \<noteq> 0 \<and> (\<exists>c \<in> U \<union> M. fst (B c) = fst b \<and> snd b \<le> snd (B c)))"

lemma tracks_apart:
  assumes st: "heap_state Z E n av U M B" and t: "tracks U M B live"
  shows "blocks_apart live" and "blocks_within Z live"
proof -
  show "blocks_within Z live" unfolding blocks_within_def
  proof clarify
    fix a n assume "(a, n) \<in> set live"
    then obtain c where c: "a \<noteq> 0" "c \<in> U \<union> M" "fst (B c) = a" "n \<le> snd (B c)" using t by (fastforce simp: tracks_def)
    from heap_state_inside [OF st c(2)] show "a \<noteq> 0 \<and> {unat a ..< unat a + n} \<subseteq> Z" using c by auto
  qed
  show "blocks_apart live" unfolding blocks_apart_def sorted_wrt_iff_nth_less
  proof (intro allI impI)
    fix i j assume ij: "i < j" "j < length live"
    obtain a n b m where e: "live ! i = (a, n)" "live ! j = (b, m)" by (cases "live ! i", cases "live ! j")
    have ne: "a \<noteq> b" using t ij e nth_eq_iff_index_eq [of "map fst live" i j] by (simp add: tracks_def)
    have "(a, n) \<in> set live" "(b, m) \<in> set live" using ij e by (metis nth_mem less_trans)+
    then obtain c d where c: "c \<in> U \<union> M" "fst (B c) = a" "n \<le> snd (B c)" and d: "d \<in> U \<union> M" "fst (B d) = b" "m \<le> snd (B d)"
      using t unfolding tracks_def by (metis fst_conv snd_conv)
    have "c \<noteq> d" using ne c d by auto
    from heap_state_apart [OF st c(1) d(1) this]
    show "(case live ! i of (a, n) \<Rightarrow> \<lambda>(b, m). unat a + max 1 n \<le> unat b \<or> unat b + max 1 m \<le> unat a) (live ! j)"
      using c d by (auto simp: e)
  qed
qed


lemma tracks_none:
  assumes "tracks U M B live" shows "tracks U M B (filter q live)"
  using assms by (auto simp: tracks_def distinct_map_filter)

lemma tracks_new:
  assumes "tracks U M B live" and "c \<notin> U \<union> M" and "U' \<union> M' = insert c (U \<union> M)"
  shows "tracks U' M' (B(c := b)) live"
  unfolding tracks_def
proof (intro conjI ballI)
  show "distinct (map fst live)" using assms(1) by (simp add: tracks_def)
  fix e assume "e \<in> set live"
  then obtain d where d: "fst e \<noteq> 0" "d \<in> U \<union> M" "fst (B d) = fst e" "snd e \<le> snd (B d)" using assms(1) by (fastforce simp: tracks_def)
  then have "d \<noteq> c" using assms(2) by blast
  then show "fst e \<noteq> 0" "\<exists>d \<in> U' \<union> M'. fst ((B(c := b)) d) = fst e \<and> snd e \<le> snd ((B(c := b)) d)"
    using d assms(3) by auto
qed

lemma tracks_block:
  assumes st: "heap_state Z E n av U' M' (B(c := b))" and t: "tracks U M B live" and c: "c \<notin> U \<union> M" "U' \<union> M' = insert c (U \<union> M)"
    and b: "fst b = mem" "m \<le> snd b" "mem \<noteq> 0"
  shows "tracks U' M' (B(c := b)) ((mem, m) # live)"
proof -
  have new: "fst e \<noteq> mem" if e: "e \<in> set live" for e
  proof
    assume "fst e = mem"
    then obtain d where d: "d \<in> U \<union> M" "fst (B d) = mem" using t e by (fastforce simp: tracks_def)
    then have "d \<noteq> c" using c(1) by blast
    then show False using heap_state_apart [OF st, of c d] d b(1) c(2) by auto
  qed
  then have "mem \<notin> fst ` set live" by blast
  then show ?thesis using tracks_new [OF t c, of b] b c(2) by (simp add: tracks_def)
qed

lemma tracks_granted:
  assumes g: "granted got E n bytes U M B mem av" and t: "tracks U M B live" and m: "m = unat bytes"
  shows "\<exists>U' M' B'. heap_state (got (calls av)) E n av U' M' B' \<and> tracks U' M' B' (got_block mem m live)"
proof (cases "mem = 0 \<and> heap_state (got (calls av)) E n av U M B")
  case True
  then show ?thesis using t by (auto simp: got_block_def)
next
  case False
  then obtain c b U' M' where c: "c \<notin> U \<union> M" "fst b = mem" "unat bytes \<le> snd b" "U' \<union> M' = insert c (U \<union> M)"
    "heap_state (got (calls av)) E n av U' M' (B(c := b))"
    using g unfolding granted_def by (metis Un_insert_left Un_insert_right)
  have "tracks U' M' (B(c := b)) (got_block mem m live)"
    using tracks_new [OF t c(1,4), of b] tracks_block [OF c(5) t c(1,4,2)] c(3) m by (simp add: got_block_def)
  then show ?thesis using c(5) by blast
qed

lemma tracks_freed:
  assumes st: "heap_state Z E n av U M B" and t: "tracks U M B live" and c: "c \<in> U \<union> M"
  shows "tracks (U - {c}) (M - {c}) B (filter (\<lambda>b. fst b \<noteq> fst (B c)) live)"
  unfolding tracks_def
proof (intro conjI ballI)
  show "distinct (map fst (filter (\<lambda>b. fst b \<noteq> fst (B c)) live))" using t by (simp add: tracks_def distinct_map_filter)
  fix e assume e: "e \<in> set (filter (\<lambda>b. fst b \<noteq> fst (B c)) live)"
  then obtain d where d: "fst e \<noteq> 0" "d \<in> U \<union> M" "fst (B d) = fst e" "snd e \<le> snd (B d)" using t by (fastforce simp: tracks_def)
  then have "d \<noteq> c" using e by auto
  then show "fst e \<noteq> 0" "\<exists>d \<in> U - {c} \<union> (M - {c}). fst (B d) = fst e \<and> snd e \<le> snd (B d)" using d by blast+
qed

section \<open>Any sequence of requests\<close>

lemma steadyD:
  assumes "steady av av'"
  shows "is_main av \<Longrightarrow> is_main av'" "par_ok (par av) \<Longrightarrow> par_ok (par av')" "sbrks_ok (calls av) \<Longrightarrow> sbrks_ok (calls av')"
  using assms by (simp_all add: steady_def)

lemma serve_tracks:
  fixes av :: "'z proc_scheme"
  assumes "serve_heap S rs av live = Some (live', av')" and "heap_state (got (calls av)) (cienv S) (4 * length rs + n) av U M B"
    and "tracks U M B live" and "par_ok (par av)" "is_main av" "sbrks_ok (calls av)" and k: "kernel_ok (kernel S) brk got" and al: "alone S"
  shows "\<exists>U' M' B'. heap_state (got (calls av')) (cienv S) n av' U' M' B' \<and> tracks U' M' B' live'"
  using assms(1-6)
proof (induction rs arbitrary: av live U M B)
  case Nil
  then show ?case by auto
next
  case (Cons r rs)
  let ?n = "4 * length rs + n"
  have room: "4 * length (r # rs) + n = Suc (Suc (Suc (Suc ?n)))" by simp
  have st4: "heap_state (got (calls av)) (cienv S) (Suc (Suc (Suc (Suc ?n)))) av U M B" using Cons.prems(2) by (simp only: room)
  have step: ?case if w: "serve_heap S rs w l = Some (live', av')" "steady av w" "heap_state (got (calls w)) (cienv S) ?n w U1 M1 B1" "tracks U1 M1 B1 l"
    for w l U1 M1 B1
    by (rule Cons.IH [OF w(1,3,4)]) (use steadyD [OF w(2)] Cons.prems(4-6) in simp_all)
  show ?case
  proof (cases r)
    case (Malloc bytes)
    then obtain mem w where w: "libc_malloc S bytes av = Some (mem, w)" "serve_heap S rs w (got_block mem (unat bytes) live) = Some (live', av')"
      using Cons.prems(1) by (auto simp: bind_eq_Some_conv)
    note m = libc_mallocD [where got = got, OF w(1) st4 Cons.prems(4,5,6) k al]
    then show ?thesis using tracks_granted [OF m [THEN conjunct1] Cons.prems(3) refl] step [OF w(2)] by blast
  next
    case (Calloc m s)
    then obtain mem cl w where w: "libc_calloc S m s av = Some (mem, cl, w)"
      "serve_heap S rs w (got_block mem (unat m * unat s) live) = Some (live', av')"
      using Cons.prems(1) by (auto simp: bind_eq_Some_conv)
    note c = libc_callocD [where got = got, OF w(1) st4 Cons.prems(4,5,6) k al]
    have b: "got_block mem (unat m * unat s) live = got_block mem (unat (m * s)) live"
      using c calloc_overflow_iff [of m s] by (cases "mem = 0") (auto simp: got_block_def unat_word_ariths)
    show ?thesis using c tracks_granted [OF c [THEN conjunct1] Cons.prems(3) refl] step [OF w(2)] unfolding b by blast
  next
    case (Free mem)
    show ?thesis
    proof (cases "mem = 0")
      case True
      then have "serve_heap S rs av (filter (\<lambda>b. fst b \<noteq> mem) live) = Some (live', av')" using Free Cons.prems(1) by (simp add: libc_free_def)
      from step [OF this _ heap_state_more [OF st4] tracks_none [OF Cons.prems(3)]] show ?thesis by (simp add: steady_def)
    next
      case False
      then obtain w where w: "mem \<in> fst ` set live" "libc_free S mem av = Some w"
        "serve_heap S rs w (filter (\<lambda>b. fst b \<noteq> mem) live) = Some (live', av')"
        using Free Cons.prems(1) by (auto simp: bind_eq_Some_conv split: if_splits)
      from w(1) obtain c where c: "c \<in> U \<union> M" "fst (B c) = mem" using Cons.prems(3) by (fastforce simp: tracks_def)
      note f = libc_freeD [where got = got, OF w(2) st4 c False Cons.prems(4,5) k al]
      show ?thesis
      proof (rule step [OF w(3)])
        show "steady av w" using f ..
        show "heap_state (got (calls w)) (cienv S) ?n w (U - {c}) (M - {c}) B" by (rule heap_state_more [OF f [THEN conjunct1]]) simp
        show "tracks (U - {c}) (M - {c}) B (filter (\<lambda>b. fst b \<noteq> mem) live)"
          using tracks_freed [OF st4 Cons.prems(3) c(1)] c(2) by simp
      qed
    qed
  qed
qed

section \<open>From the start of the process\<close>

lemma zeroed_errno: "zeroed (put_errno e av) = zeroed av" "zeroed (set_enomem av) = zeroed av"
  by (simp_all add: zeroed_def put_errno_def set_enomem_def)

lemma errno_base [simp]:
  fixes av :: "'z proc_scheme"
  shows "bins_base (put_errno e av) = bins_base av" "bins_base (set_enomem av) = bins_base av"
    "initial_top (put_errno e av) = initial_top av" "initial_top (set_enomem av) = initial_top av"
  by (simp_all add: put_errno_def set_enomem_def)

lemma started_heap:
  fixes av :: "'z proc_scheme"
  assumes "started Z S av0 av" and "m \<le> 2 ^ 31 - 513"
  obtains M B where "heap_state Z (cienv S) m av {} M B"
proof -
  from assms(1) obtain M B where "bare Z (cienv S) (2 ^ 31 - 513) av M B" by (auto simp: started_def)
  from bare_more [OF this assms(2)] show ?thesis by (intro that [of M B]) (simp add: heap_state_def)
qed

text \<open>Until a request is served the arena stays as it is; that request initializes it.\<close>

lemma zeroed_serve:
  fixes av :: "'z proc_scheme"
  assumes "serve_heap S rs av [] = Some (live, av')" and "zeroed av" and "metadata_kernel (cienv S) (bins_base av)"
    and "unat (initial_top av) \<in> got []" and "4 * length rs \<le> 2 ^ 31 - 513"
    and k: "kernel_ok (kernel S) brk got" and al: "alone S"
  shows "live = [] \<or> (\<exists>U M B. heap_state (got (calls av')) (cienv S) 0 av' U M B \<and> tracks U M B live)"
  using assms(1-5)
proof (induction rs arbitrary: av)
  case Nil
  then show ?case by simp
next
  case (Cons r rs)
  have step: ?case if "serve_heap S rs w [] = Some (live, av')" "zeroed w" "bins_base w = bins_base av" "initial_top w = initial_top av" for w
    by (rule Cons.IH [OF that(1,2)]) (use that Cons.prems in simp_all)
  show ?case
  proof (cases r)
    case (Malloc bytes)
    show ?thesis
    proof (cases "checked_request2size bytes")
      case (Inl e)
      then have "libc_malloc S bytes av = Some (0, put_errno e av)"
        using al by (simp add: libc_malloc_def int_malloc_def put_errno_def alone_def)
      then show ?thesis using Cons.prems(1,2) Malloc by (intro step [of "put_errno e av"]) (simp_all add: got_block_def zeroed_errno)
    next
      case (Inr nb)
      from Cons.prems(1) Malloc have "libc_malloc S bytes av \<noteq> None" by (cases "libc_malloc S bytes av") simp_all
      then have "malloc_consolidate S av \<noteq> None"
        by (cases "malloc_consolidate S av") (simp_all add: libc_malloc_def zeroed_int_malloc [OF Cons.prems(2) Inr])
      then have "malloc_init_state S True av \<noteq> None"
        by (cases "malloc_init_state S True av") (simp_all add: zeroed_consolidate [OF Cons.prems(2)])
      then obtain L where "lookup_init (lk_mmap S) HEAP_MAX_SIZE (lkup av) = Some L"
        using malloc_init_state_lookup [of S av] by auto
      from malloc_init_state_run [OF Cons.prems(2,3) this Cons.prems(4)] obtain av1 where
        i: "malloc_init_state S True av = Some av1" "started (got []) S av av1" by blast
      have run: "serve_heap S (r # rs) av1 [] = Some (live, av')"
        using Cons.prems(1) zeroed_malloc [OF Cons.prems(2) Inr i] Malloc by simp
      have a: "calls av1 = []" "is_main av1" "par_ok (par av1)" using i(2) unfolding started_def by blast+
      then have sb: "sbrks_ok (calls av1)" by simp
      obtain M B where h: "heap_state (got []) (cienv S) (4 * length (r # rs)) av1 {} M B" by (rule started_heap [OF i(2) Cons.prems(5)])
      then have h0: "heap_state (got (calls av1)) (cienv S) (4 * length (r # rs) + 0) av1 {} M B" by (simp add: a)
      have "tracks {} M B []" by (simp add: tracks_def)
      from serve_tracks [where got = got, OF run h0 this a(3,2) sb k al] show ?thesis by blast
    qed
  next
    case (Calloc m s)
    have "md_top av = None" using Cons.prems(2) by (simp add: zeroed_def)
    moreover have "replenish_metadata_cache (cienv S) av = Some (True, av)"
      using Cons.prems(2) by (simp add: replenish_metadata_cache_def zeroed_def)
    ultimately have "libc_calloc S m s av = Some (0, 0, set_enomem av)" "calloc_overflow m s"
      using Cons.prems(1) Calloc by (auto simp: libc_calloc_def Let_def split: if_splits)
    then show ?thesis using Cons.prems(1,2) Calloc by (intro step [of "set_enomem av"]) (simp_all add: got_block_def zeroed_errno)
  next
    case (Free mem)
    then show ?thesis using Cons.prems(1,2) by (intro step [of av]) (auto simp: libc_free_def split: if_splits)
  qed
qed

section \<open>A large first request\<close>

text \<open>With the kernel granting the mapping, nothing goes wrong.\<close>

lemma large_malloc_run:
  fixes av :: "'z proc_scheme"
  assumes z: "zeroed av" and mk: "metadata_kernel (cienv S) (bins_base av)" and L: "lkup av = no_lookup" "mmap_ok (lk_mmap S)"
    and nb: "checked_request2size bytes = Inr nb" "128 * 1024 \<le> nb"
    and sz: "sz = ALIGN_UP (nb + SIZE_SZ) (dl_pagesize (par av))" "nb < sz"
    and mm: "kernel S [Mmap sz] = Some mm" "clean mm" "unat (initial_top av) \<notin> {unat mm ..< unat mm + unat sz}"
  shows "\<exists>av'. libc_malloc S bytes av = Some (mm, av')"
proof -
  let ?Z = "{unat (initial_top av)}"
  have h: "HEAP_MAX_SIZE = 2 ^ 26" by (simp add: HEAP_MAX_SIZE_def)
  obtain K A where K: "lookup_init (lk_mmap S) HEAP_MAX_SIZE (lkup av) = Some K" "lookup_ok (lk_mmap S) 0 K A"
    using lookup_init_run [of 26, OF _ _ L(2)] unfolding h L(1) by auto
  obtain av1 where i: "malloc_init_state S True av = Some av1" "started ?Z S av av1" "lkup av1 = K"
    using malloc_init_state_run [OF z mk K(1), of ?Z] by auto
  obtain t where b: "bare ?Z (cienv S) (2 ^ 31 - 513) av1 {t} (\<lambda>_. (initial_top av, 0))"
    and e: "calls av1 = []" "is_main av1" "initial_top av1 = initial_top av" "par av1 = (par av)\<lparr>global_max_fast := 128\<rparr>" "par_ok (par av1)"
    using i(2) unfolding started_def by blast
  have room: "(2 :: nat) ^ 31 - 513 = Suc (2 ^ 31 - 514)" by simp
  note b' = b [unfolded room]
  have Z: "?Z \<inter> {unat mm ..< unat mm + unat sz} = {}" using mm(3) by auto
  obtain k where k: "par av = initial_mp (2 ^ k)" using z by (auto simp: zeroed_def)
  have sz1: "sz = ALIGN_UP (nb + SIZE_SZ) (dl_pagesize (par av1))" using sz(1) by (simp add: e)
  obtain md av2 where m: "map_chunk S nb av1 = Some (Some (Some md), av2)" "chunkinfo2mem av2 (Some md) = mm" "chunk_is_mmapped av2 md"
    "md_top av2 = md_top av1" "initial_top av2 = initial_top av1" "\<forall>t. md_top av1 = Some t \<longrightarrow> chunkinfo2chunk av2 t = chunkinfo2chunk av1 t"
    using bare_map_chunk_run [OF b' _ _ sz1 sz(2) _ mm(2) Z, of 0 A] K(2) i(3) mm(1) e(1) by auto
  have "sysmalloc S nb av1 = Some (Some md, av2)"
    using m(1) nb(2) by (simp add: sysmalloc_def Let_def e k initial_mp_def try_mmap_def)
  then have im: "int_malloc S bytes av1 = Some (Some md, av2)" using bare_int_malloc [OF b e(5) nb(1)] by simp
  have top: "check_top (par av2) av2 = Some ()"
  proof -
    obtain u where u: "md_top av1 = Some u" "chunkinfo2chunk av1 u = initial_top av" by (rule bare_chunksize [OF b]) auto
    then show ?thesis using m(4-6) e(3)
      by (simp add: check_top_def top_is_aligned_def Let_def check_metadata_chunk_def assert_c_def)
  qed
  have "libc_malloc S bytes av1 = Some (mm, av2)"
    using im m top by (simp add: libc_malloc_def assert_arena_def)
  then show ?thesis using zeroed_malloc [OF z nb(1) i(1,2)] by auto
qed

section \<open>A concrete process\<close>

text \<open>A kernel that moves no break and grants one mapping.\<close>

fun no_maps :: "syscall list \<Rightarrow> bool" where
  "no_maps [] = True"
| "no_maps (Mmap s # cs) = False"
| "no_maps (c # cs) = no_maps cs"

definition example_kernel :: "syscall list \<Rightarrow> u64 option" where
  "example_kernel cs = (case rev cs of
     Sbrk i # _ \<Rightarrow> if i = 0 then Some 65536 else None
   | Mmap s # cs \<Rightarrow> if no_maps cs \<and> s \<le> 2 ^ 30 then Some (2 ^ 20) else None
   | _ \<Rightarrow> Some 0)"

fun example_got :: "syscall list \<Rightarrow> nat set" where
  "example_got [] = {64}"
| "example_got (Sbrk i # cs) = example_got cs"
| "example_got (Mmap s # cs) =
    (if no_maps cs \<and> s \<le> 2 ^ 30 then example_got cs \<union> {2 ^ 20 ..< 2 ^ 20 + unat s} else example_got cs)"
| "example_got (Munmap a s # cs) = example_got cs - {unat a ..< unat a + unat s}"

lemma example_got_small: "no_maps cs \<Longrightarrow> example_got cs \<subseteq> {64}"
  by (induction cs rule: no_maps.induct) auto

lemma example_kernel_ok: "kernel_ok example_kernel (\<lambda>_. 65536) (\<lambda>cs. example_got (rev cs))"
proof -
  have "unat s < 2 ^ 31" if "s \<le> 2 ^ 30" for s :: u64 using that by (simp add: word_le_nat_alt)
  then have "grants (\<lambda>cs. example_got (rev cs)) cs (Mmap s) (2 ^ 20) s" if "no_maps (rev cs)" "s \<le> 2 ^ 30" for cs s
    using that example_got_small [OF that(1)] by (fastforce simp: grants_def)
  moreover have "grants (\<lambda>cs. example_got (rev cs)) cs (Sbrk 0) 65536 0" for cs by (simp add: grants_def)
  ultimately show ?thesis by (auto simp: kernel_ok_def example_kernel_def)
qed

definition example_system :: "proc sysenv" where
  "example_system =
     \<lparr>cienv = ci_example, kernel = example_kernel, lk_mmap = next_fit, unmap_in_main = (\<lambda>_ _ _. None), trim_heap = (\<lambda>_ _. None),
      mmap_in_main = (\<lambda>_ _. None), extend_heap = (\<lambda>_ _. None), memalign_in_main = (\<lambda>_ _ _ _. None),
      other_arena = (\<lambda>c av. case c of Malloc_retry b \<Rightarrow> Some (0, av) | Memalign_retry a b \<Rightarrow> Some (0, av) | _ \<Rightarrow> None)\<rparr>"

definition example_arena :: proc where
  "example_arena =
     \<lparr>flags = 0, fastbinsY = replicate NFASTBINS None, md_top = None, initial_top = 64, last_remainder = None, bins_base = 0,
      bin_heads = (\<lambda>_. zero_chunkinfo), bin_map = replicate BINMAPSIZE 0, system_mem = 0, max_system_mem = 0, arena_index = 0,
      is_main = True, metadata_pool_ready = False, memory = boot_mem ci_example, htbl = undefined,
      metadata_cache = replicate METADATA_CACHE_SIZE None, metadata_cache_count = 0, par = initial_mp (2 ^ 12), lkup = no_lookup, calls = []\<rparr>"

lemma example_process:
  "zeroed example_arena" "metadata_kernel (cienv example_system) (bins_base example_arena)" "alone example_system"
proof -
  show "zeroed example_arena" by (auto simp: zeroed_def example_arena_def)
  have "env_ok ci_example" by (rule init_memcxt_first_fit) (simp_all add: ci_example_def metadata_env_def)
  moreover have "avoids ci_example 0"
    by (auto simp: avoids_def mmap_results_def ci_example_def metadata_env_def first_fit_def split: if_splits)
  ultimately show "metadata_kernel (cienv example_system) (bins_base example_arena)"
    using ci_example_total by (simp add: metadata_kernel_def example_system_def example_arena_def)
  show "alone example_system" by (simp add: alone_def example_system_def split: other_call.split)
qed

definition example_requests :: "heap_request list" where
  "example_requests = [Malloc 200000, Calloc (2 ^ 63) 4, Malloc (- 1), Free 0]"

lemma example_run: "\<exists>av. serve_heap example_system example_requests example_arena [] = Some ([(2 ^ 20, 200000)], av)"
proof -
  have nb: "checked_request2size 200000 = Inr 200000" by (simp add: checked_request2size_def request2size_def REQUEST_OUT_OF_RANGE_def malloc_consts)
  have big: "\<exists>e. checked_request2size (- 1) = Inl e" by (simp add: checked_request2size_def request2size_def REQUEST_OUT_OF_RANGE_def malloc_consts)
  have sz: "(200704 :: u64) = ALIGN_UP (200000 + SIZE_SZ) (dl_pagesize (par example_arena))"
    by (simp add: ALIGN_UP_def ALIGN_DOWN_def malloc_consts example_arena_def initial_mp_def)
  obtain av where av: "libc_malloc example_system 200000 example_arena = Some (2 ^ 20, av)"
    using large_malloc_run [OF example_process(1,2) _ _ nb _ sz]
    by (auto simp: example_arena_def example_system_def next_fit_ok example_kernel_def clean_def is_assimilated_def KEY_ALIGNMENT_def)
  obtain e where e: "checked_request2size (- 1) = Inl e" using big by blast
  have "libc_malloc example_system (- 1) w = Some (0, put_errno e w)" for w
    by (simp add: libc_malloc_def int_malloc_def e put_errno_def example_system_def)
  moreover have "libc_calloc example_system (2 ^ 63) 4 w = Some (0, 0, set_enomem w)" for w
    by (simp add: libc_calloc_def calloc_overflow_iff)
  ultimately show ?thesis by (simp add: example_requests_def av got_block_def libc_free_def)
qed

section \<open>Properties\<close>



text \<open>
  C6: The first request of a process that asks for at least the threshold of \<open>mmap\<close> and can be served is
  served: when the kernel grants the mapping, \<open>malloc\<close> initializes the arena and returns its address.
\<close>

theorem large_malloc_served:
  fixes av :: "'z proc_scheme"
  assumes "zeroed av" and "metadata_kernel (cienv S) (bins_base av)" and "lkup av = no_lookup" and "mmap_ok (lk_mmap S)"
    and "checked_request2size bytes = Inr nb" and "128 * 1024 \<le> nb" and "sz = ALIGN_UP (nb + SIZE_SZ) (dl_pagesize (par av))" and "nb < sz"
    and "kernel S [Mmap sz] = Some mm" and "clean mm" and "unat (initial_top av) \<notin> {unat mm ..< unat mm + unat sz}"
  shows "\<exists>av'. libc_malloc S bytes av = Some (mm, av')"
  using large_malloc_run [OF assms] .

theorem large_malloc_served_witness: "\<exists>av. libc_malloc example_system 200000 example_arena = Some (2 ^ 20, av)"
proof -
  have nb: "checked_request2size 200000 = Inr 200000" by (simp add: checked_request2size_def request2size_def REQUEST_OUT_OF_RANGE_def malloc_consts)
  have sz: "(200704 :: u64) = ALIGN_UP (200000 + SIZE_SZ) (dl_pagesize (par example_arena))"
    by (simp add: ALIGN_UP_def ALIGN_DOWN_def malloc_consts example_arena_def initial_mp_def)
  show ?thesis
    by (rule large_malloc_served [OF example_process(1,2) _ _ nb _ sz])
      (simp_all add: example_arena_def example_system_def next_fit_ok example_kernel_def clean_def is_assimilated_def KEY_ALIGNMENT_def)
qed

text \<open>
  C35: \<open>calloc\<close> refuses exactly the products that do not fit into 64 bits, although it divides only when one of
  the factors has 33 bits or more.
\<close>

theorem calloc_overflow_exact: "calloc_overflow m s \<longleftrightarrow> 2 ^ 64 \<le> unat m * unat s"
  by (rule calloc_overflow_iff)

end
