(* ===== verification/Malloc_Tune.thy ===== *)
theory Malloc_Tune
  imports Malloc_Api
begin

text \<open>
  \<open>malloc_usable_size\<close>, \<open>malloc_trim\<close>, \<open>mallinfo\<close> and \<open>mallopt\<close> of \<open>malloc.c\<close>, for the arena of the model.
\<close>

section \<open>\<open>malloc_usable_size\<close>\<close>

definition musable :: "('z proc_scheme) sysenv \<Rightarrow> u64 \<Rightarrow> 'z proc_scheme \<Rightarrow> (u64 \<times> 'z proc_scheme) option" where
  "musable S mem av =
    (if mem = 0 then Some (0, av)
     else do {
       let p = mem2chunk mem;
       (i, av) \<leftarrow> chunk_arena S p av;
       if \<not> same_arena_index i av then other_arena S (Usable_other mem) av
       else do {
         (md, av) \<leftarrow> lookup_chunk (cienv S) p av;
         md \<leftarrow> md;
         if chunk_is_mmapped av md then Some (chunksize av (Some md) - 2 * SIZE_SZ, av)
         else do {
           (u, av) \<leftarrow> inuse_bit (cienv S) md av;
           Some (if u then chunksize av (Some md) - SIZE_SZ else 0, av) } } })"

section \<open>\<open>malloc_trim\<close>\<close>

text \<open>
  The pages of a free chunk that the system may take, as address and length, or none. A \<open>struct malloc_chunk\<close>
  has no members in the default build: its size is \<open>HEADER_SIZE\<close>.
\<close>

definition unused_pages :: "u64 \<Rightarrow> u64 \<Rightarrow> u64 \<Rightarrow> (u64 \<times> u64) list option" where
  "unused_pages ps p sz =
    (let psm1 = ps - 1 in
     if sz > psm1 + HEADER_SIZE then do {
       let paligned_mem = (p + HEADER_SIZE + psm1) AND NOT psm1;
       assert_c (chunk2mem p + 4 * SIZE_SZ \<le> paligned_mem);
       assert_c (p + sz > paligned_mem);
       let sz = sz - (paligned_mem - p);
       Some (if sz > psm1 then [(paligned_mem, sz AND NOT psm1)] else []) }
     else Some [])"

partial_function (option) trim_bin :: "u64 \<Rightarrow> bptr \<Rightarrow> bptr \<Rightarrow> 'z mstate_scheme \<Rightarrow> (u64 \<times> u64) list option" where
  "trim_bin ps bin md av =
    (if md = bin then Some []
     else do {
       r \<leftarrow> unused_pages ps (chunkinfo2chunk av md) (chunksize av (Some md));
       b \<leftarrow> bk (ci av md);
       rs \<leftarrow> trim_bin ps bin b av;
       Some (r @ rs) })"

text \<open>The bins from \<open>i\<close> on, with \<open>n\<close> of them left.\<close>

fun trim_bins :: "u64 \<Rightarrow> nat \<Rightarrow> nat \<Rightarrow> 'z mstate_scheme \<Rightarrow> (u64 \<times> u64) list option" where
  "trim_bins ps i 0 av = Some []"
| "trim_bins ps i (Suc n) av = do {
     r \<leftarrow> (if i = 1 \<or> i \<ge> unat (bin_index ps) then do {
            let bin = Bptr (bins_base av) i;
            l \<leftarrow> bk (ci av bin);
            trim_bin ps bin l av }
          else Some []);
     rs \<leftarrow> trim_bins ps (i + 1) n av;
     Some (r @ rs) }"

text \<open>The second result are the calls of \<open>madvise\<close>.\<close>

definition mtrim ::
  "('z proc_scheme) sysenv \<Rightarrow> u64 \<Rightarrow> 'z proc_scheme \<Rightarrow> (bool \<times> (u64 \<times> u64) list \<times> 'z proc_scheme) option" where
  "mtrim S pad av =
    (if arena_is_corrupt av then Some (False, [], av)
     else do {
       av \<leftarrow> malloc_consolidate S av;
       advised \<leftarrow> trim_bins (dl_pagesize (par av)) 1 (NBINS - 1) av;
       (r, av) \<leftarrow> (if is_main av then systrim S pad av else Some (False, av));
       Some (advised \<noteq> [] \<or> r, advised, av) })"

section \<open>\<open>mallinfo\<close>\<close>

text \<open>The members of \<open>struct mallinfo\<close> that are computed; they are of type \<open>int\<close>.\<close>

record mallinfo =
  mi_arena :: u32
  mi_ordblks :: u32
  mi_smblks :: u32
  mi_hblks :: u32
  mi_hblkhd :: u32
  mi_fsmblks :: u32
  mi_uordblks :: u32
  mi_fordblks :: u32
  mi_keepcost :: u32

text \<open>The number of the chunks of a list and the sum of their sizes, on top of what is given.\<close>

partial_function (option) sum_fast :: "bptr option \<Rightarrow> u32 \<Rightarrow> u64 \<Rightarrow> 'z mstate_scheme \<Rightarrow> (u32 \<times> u64) option" where
  "sum_fast md n s av =
    (case md of None \<Rightarrow> Some (n, s)
     | Some p \<Rightarrow> sum_fast (fd (ci av p)) (n + 1) (s + chunksize av (Some p)) av)"

fun sum_fastbins :: "nat \<Rightarrow> nat \<Rightarrow> u32 \<Rightarrow> u64 \<Rightarrow> 'z mstate_scheme \<Rightarrow> (u32 \<times> u64) option" where
  "sum_fastbins i 0 n s av = Some (n, s)"
| "sum_fastbins i (Suc k) n s av = do {
     assert_c (i < length (fastbinsY av));
     (n, s) \<leftarrow> sum_fast (fastbinsY av ! i) n s av;
     sum_fastbins (i + 1) k n s av }"

partial_function (option) sum_bin :: "bptr \<Rightarrow> bptr \<Rightarrow> u32 \<Rightarrow> u64 \<Rightarrow> 'z mstate_scheme \<Rightarrow> (u32 \<times> u64) option" where
  "sum_bin bin md n s av =
    (if md = bin then Some (n, s)
     else do {
       b \<leftarrow> bk (ci av md);
       sum_bin bin b (n + 1) (s + chunksize av (Some md)) av })"

fun sum_bins :: "nat \<Rightarrow> nat \<Rightarrow> u32 \<Rightarrow> u64 \<Rightarrow> 'z mstate_scheme \<Rightarrow> (u32 \<times> u64) option" where
  "sum_bins i 0 n s av = Some (n, s)"
| "sum_bins i (Suc k) n s av = do {
     let bin = Bptr (bins_base av) i;
     l \<leftarrow> bk (ci av bin);
     (n, s) \<leftarrow> sum_bin bin l n s av;
     sum_bins (i + 1) k n s av }"

definition int_mallinfo ::
  "('z proc_scheme) sysenv \<Rightarrow> mallinfo \<Rightarrow> 'z proc_scheme \<Rightarrow> (mallinfo \<times> 'z proc_scheme) option" where
  "int_mallinfo S m av = do {
     av \<leftarrow> (if md_top av = None then malloc_consolidate S av else Some av);
     let avail = chunksize av (md_top av);
     (nfastblocks, fastavail) \<leftarrow> sum_fastbins 0 NFASTBINS 0 0 av;
     (nblocks, avail) \<leftarrow> sum_bins 1 (NBINS - 1) 1 (avail + fastavail) av;
     let m = m\<lparr>mi_smblks := mi_smblks m + nfastblocks,
               mi_ordblks := mi_ordblks m + nblocks,
               mi_fordblks := mi_fordblks m + ucast avail,
               mi_uordblks := mi_uordblks m + ucast (system_mem av - avail),
               mi_arena := mi_arena m + ucast (system_mem av),
               mi_fsmblks := mi_fsmblks m + ucast fastavail\<rparr>;
     Some (if is_main av
           then m\<lparr>mi_hblks := n_mmaps (par av), mi_hblkhd := ucast (mmapped_mem (par av)),
                  mi_keepcost := ucast (chunksize av (md_top av))\<rparr>
           else m, av) }"

section \<open>\<open>mallopt\<close>\<close>

text \<open>
  The parameters by their numbers. \<open>M_PERTURB\<close>, \<open>M_ARENA_TEST\<close> and \<open>M_ARENA_MAX\<close> set variables that the model
  does not have. The value is an \<open>int\<close>, which is extended with its sign.
\<close>

definition set_mallopt :: "int \<Rightarrow> 32 word \<Rightarrow> malloc_par \<Rightarrow> bool \<times> malloc_par" where
  "set_mallopt param value P =
    (if param = 1 then
       (if sint value \<ge> 0 \<and> (scast value :: u64) \<le> MAX_FAST_SIZE
        then (True, P\<lparr>global_max_fast := set_max_fast (scast value)\<rparr>) else (False, P))
     else if param = -1 then (True, P\<lparr>trim_threshold := scast value, no_dyn_threshold := True\<rparr>)
     else if param = -2 then (True, P\<lparr>top_pad := scast value, no_dyn_threshold := True\<rparr>)
     else if param = -3 then
       (if (scast value :: u64) > HEAP_MAX_SIZE div 2 then (False, P)
        else (True, P\<lparr>mmap_threshold := scast value, no_dyn_threshold := True\<rparr>))
     else if param = -4 then (True, P\<lparr>n_mmaps_max := value, no_dyn_threshold := True\<rparr>)
     else if param = -5 then (True, P\<lparr>check_action := value\<rparr>)
     else (True, P))"

definition libc_mallopt :: "('z proc_scheme) sysenv \<Rightarrow> int \<Rightarrow> 32 word \<Rightarrow> 'z proc_scheme \<Rightarrow> (bool \<times> 'z proc_scheme) option" where
  "libc_mallopt S param value av = do {
     av \<leftarrow> malloc_consolidate S av;
     let (ok, P) = set_mallopt param value (par av);
     Some (ok, av\<lparr>par := P\<rparr>) }"

end
