(* ===== verification/Malloc_Heaps.thy ===== *)
theory Malloc_Heaps
  imports Malloc_Api
begin

text \<open>
  The heaps of the arenas other than the main one (\<open>arena.c\<close>): mapped areas of \<open>HEAP_MAX_SIZE\<close> bytes, aligned
  to their size, of which a first part is accessible. A heap begins with a \<open>heap_info\<close>; \<open>infos H a\<close> is the one at
  the address \<open>a\<close>. The calls of \<open>mmap\<close>, \<open>munmap\<close>, \<open>mprotect\<close> and \<open>madvise\<close> are recorded in \<open>heap_calls\<close>, and
  \<open>K cs\<close> answers the last of the calls \<open>cs\<close> (\<open>None\<close>: failure).
\<close>

section \<open>Heaps\<close>

record heap_info =
  ar_ptr :: u64
  heap_prev :: u64
  heap_size :: u64
  mprotect_size :: u64

datatype heap_call = Map_at u64 u64 | Map_fixed u64 u64 | Unmap u64 u64 | Protect u64 u64 | Dont_need u64 u64

record heaps =
  infos :: "u64 \<Rightarrow> heap_info"
  aligned_heap_area :: u64
  arena_mem :: u64
  heap_calls :: "heap_call list"

type_synonym heap_kernel = "heap_call list \<Rightarrow> u64 option"

definition HEAP_MIN_SIZE :: u64 where
  "HEAP_MIN_SIZE = 32 * 1024"

definition sizeof_heap_info :: u64 where
  "sizeof_heap_info = 4 * SIZE_SZ + ((- 6 * SIZE_SZ) AND MALLOC_ALIGN_MASK)"

definition heap_for_ptr :: "u64 \<Rightarrow> u64" where
  "heap_for_ptr p = p AND NOT (HEAP_MAX_SIZE - 1)"

definition heap_sys :: "heap_kernel \<Rightarrow> heap_call \<Rightarrow> heaps \<Rightarrow> u64 option \<times> heaps" where
  "heap_sys K c H = (let cs = heap_calls H @ [c] in (K cs, H\<lparr>heap_calls := cs\<rparr>))"

section \<open>\<open>new_heap\<close>\<close>

definition round_heap :: "u64 \<Rightarrow> u64 \<Rightarrow> u64 \<Rightarrow> u64 option" where
  "round_heap pagesize sz pad =
    (if sz + pad < HEAP_MIN_SIZE then Some (ALIGN_UP HEAP_MIN_SIZE pagesize)
     else if sz + pad \<le> HEAP_MAX_SIZE then Some (ALIGN_UP (sz + pad) pagesize)
     else if sz > HEAP_MAX_SIZE then None
     else Some (ALIGN_UP HEAP_MAX_SIZE pagesize))"

text \<open>The area behind the last heap, if it was kept in mind; it may turn out to be taken.\<close>

definition map_kept :: "heap_kernel \<Rightarrow> heaps \<Rightarrow> u64 option \<times> heaps" where
  "map_kept K H =
    (if aligned_heap_area H \<noteq> 0 then
       (let (p2, H) = heap_sys K (Map_at (aligned_heap_area H) HEAP_MAX_SIZE) H;
            H = H\<lparr>aligned_heap_area := 0\<rparr>
        in case p2 of
             None \<Rightarrow> (None, H)
           | Some p \<Rightarrow>
               (if p AND (HEAP_MAX_SIZE - 1) \<noteq> 0 then (None, snd (heap_sys K (Unmap p HEAP_MAX_SIZE) H))
                else (Some p, H)))
     else (None, H))"

text \<open>Twice the size, cut down to an aligned part; or one that happens to be aligned.\<close>

definition map_aligned :: "heap_kernel \<Rightarrow> heaps \<Rightarrow> u64 option \<times> heaps" where
  "map_aligned K H =
    (case heap_sys K (Map_at 0 (push_bit 1 HEAP_MAX_SIZE)) H of
       (Some p1, H) \<Rightarrow>
         (let p2 = (p1 + (HEAP_MAX_SIZE - 1)) AND NOT (HEAP_MAX_SIZE - 1);
              ul = p2 - p1;
              H = (if ul \<noteq> 0 then snd (heap_sys K (Unmap p1 ul) H) else H\<lparr>aligned_heap_area := p2 + HEAP_MAX_SIZE\<rparr>);
              H = snd (heap_sys K (Unmap (p2 + HEAP_MAX_SIZE) (HEAP_MAX_SIZE - ul)) H)
          in (Some p2, H))
     | (None, H) \<Rightarrow>
         (case heap_sys K (Map_at 0 HEAP_MAX_SIZE) H of
            (None, H) \<Rightarrow> (None, H)
          | (Some p2, H) \<Rightarrow>
              (if p2 AND (HEAP_MAX_SIZE - 1) \<noteq> 0 then (None, snd (heap_sys K (Unmap p2 HEAP_MAX_SIZE) H))
               else (Some p2, H))))"

text \<open>The result \<open>0\<close> is \<open>NULL\<close>.\<close>

definition new_heap :: "heap_kernel \<Rightarrow> u64 \<Rightarrow> u64 \<Rightarrow> u64 \<Rightarrow> heaps \<Rightarrow> u64 \<times> heaps" where
  "new_heap K pagesize sz pad H =
    (case round_heap pagesize sz pad of
       None \<Rightarrow> (0, H)
     | Some sz \<Rightarrow>
         (let (p2, H) = map_kept K H;
              (p2, H) = (if p2 = None then map_aligned K H else (p2, H))
          in case p2 of
               None \<Rightarrow> (0, H)
             | Some p2 \<Rightarrow>
                 (case heap_sys K (Protect p2 sz) H of
                    (None, H) \<Rightarrow> (0, snd (heap_sys K (Unmap p2 HEAP_MAX_SIZE) H))
                  | (Some _, H) \<Rightarrow>
                      (p2, H\<lparr>infos := (infos H)(p2 := (infos H p2)\<lparr>heap_size := sz, mprotect_size := sz\<rparr>)\<rparr>))))"

section \<open>\<open>grow_heap\<close>, \<open>shrink_heap\<close> and \<open>delete_heap\<close>\<close>

definition grow_heap :: "heap_kernel \<Rightarrow> u64 \<Rightarrow> u64 \<Rightarrow> u64 \<Rightarrow> heaps \<Rightarrow> int \<times> heaps" where
  "grow_heap K pagesize h diff H =
    (let diff = ALIGN_UP diff pagesize;
         new_size = heap_size (infos H h) + diff
     in if new_size > HEAP_MAX_SIZE then (- 1, H)
        else if new_size > mprotect_size (infos H h) then
          (case heap_sys K (Protect (h + mprotect_size (infos H h)) (new_size - mprotect_size (infos H h))) H of
             (None, H) \<Rightarrow> (- 2, H)
           | (Some _, H) \<Rightarrow>
               (0, H\<lparr>infos := (infos H)(h := (infos H h)\<lparr>heap_size := new_size, mprotect_size := new_size\<rparr>)\<rparr>))
        else (0, H\<lparr>infos := (infos H)(h := (infos H h)\<lparr>heap_size := new_size\<rparr>)\<rparr>))"

text \<open>\<open>may_shrink\<close> is the answer of \<open>check_may_shrink_heap\<close>.\<close>

definition shrink_heap :: "heap_kernel \<Rightarrow> bool \<Rightarrow> u64 \<Rightarrow> u64 \<Rightarrow> heaps \<Rightarrow> int \<times> heaps" where
  "shrink_heap K may_shrink h diff H =
    (let new_size = heap_size (infos H h) - diff
     in if sint new_size < sint sizeof_heap_info then (- 1, H)
        else if may_shrink then
          (case heap_sys K (Map_fixed (h + new_size) diff) H of
             (None, H) \<Rightarrow> (- 2, H)
           | (Some _, H) \<Rightarrow>
               (0, H\<lparr>infos := (infos H)(h := (infos H h)\<lparr>heap_size := new_size, mprotect_size := new_size\<rparr>)\<rparr>))
        else (let (_, H) = heap_sys K (Dont_need (h + new_size) diff) H
              in (0, H\<lparr>infos := (infos H)(h := (infos H h)\<lparr>heap_size := new_size\<rparr>)\<rparr>)))"

definition delete_heap :: "heap_kernel \<Rightarrow> u64 \<Rightarrow> heaps \<Rightarrow> heaps" where
  "delete_heap K h H =
    (let H = (if h + HEAP_MAX_SIZE = aligned_heap_area H then H\<lparr>aligned_heap_area := 0\<rparr> else H)
     in snd (heap_sys K (Unmap h HEAP_MAX_SIZE) H))"

section \<open>An arena with heaps\<close>

text \<open>
  The process around an arena that is not the main one: \<open>arena_addr\<close> is the address of its \<open>malloc_state\<close>, \<open>hp\<close> the
  heaps of all arenas. \<open>K\<close> answers the calls for heaps; \<open>do_check_top\<close> and \<open>do_check_metadata_chunk\<close> are assertions.
\<close>

record hproc = proc +
  arena_addr :: u64
  hp :: heaps

definition heap_op :: "(heaps \<Rightarrow> 'a \<times> heaps) \<Rightarrow> 'z hproc_scheme \<Rightarrow> 'a \<times> 'z hproc_scheme" where
  "heap_op f av = (let (r, H) = f (hp av) in (r, av\<lparr>hp := H\<rparr>))"

definition relink :: "bptr \<Rightarrow> bptr option \<Rightarrow> 'z hproc_scheme \<Rightarrow> 'z hproc_scheme" where
  "relink md nx av =
    (let av = w_md_next nx md av
     in case nx of None \<Rightarrow> av | Some t \<Rightarrow> w_md_prev (Some md) t av)"

text \<open>
  The loop of \<open>heap_trim\<close>: while the top chunk is all of a heap, that heap is given back, and top moves to the end of the
  heap before it. \<open>_md_temp->md_prev\<close> is written although \<open>_md_temp\<close>, the old top, may be unregistered by then. The
  result is the heap that stays.
\<close>

partial_function (option) trim_heaps ::
  "('z hproc_scheme) sysenv \<Rightarrow> heap_kernel \<Rightarrow> u64 \<Rightarrow> u64 \<Rightarrow> u64 \<Rightarrow> 'z hproc_scheme \<Rightarrow> (u64 \<times> 'z hproc_scheme) option" where
  "trim_heaps S K heap pad top_chunk av =
    (if top_chunk = chunk_at_offset heap sizeof_heap_info then do {
       let E = cienv S;
       check_top (par av) av;
       md_top_chunk \<leftarrow> md_top av;
       let md_top_chunk_next = md_next (ci av md_top_chunk);
       let prev_heap = heap_prev (infos (hp av) heap);
       let prev_sz = heap_size (infos (hp av) prev_heap) - (MINSIZE - 2 * SIZE_SZ);
       let misalign = chunk_at_offset prev_heap prev_sz AND MALLOC_ALIGN_MASK;
       let p = chunk_at_offset prev_heap (prev_sz - misalign);
       (md_p, av) \<leftarrow> lookup_chunk E p av;
       md_fencepost \<leftarrow> md_p;
       assert_c (csize (ci av md_fencepost) = PREV_INUSE);
       assert_c (Some md_fencepost = md_prev (ci av md_top_chunk));
       av \<leftarrow> assert_md_prev E md_fencepost p av;
       md_p \<leftarrow> md_prev (ci av md_fencepost);
       let p = chunkinfo2chunk av md_p;
       let new_size = chunksize av (Some md_p) + (MINSIZE - 2 * SIZE_SZ) + misalign;
       assert_c (sint new_size > 0 \<and> sint new_size < sint (2 * MINSIZE));
       pinuse \<leftarrow> prev_inuse av md_p p;
       let new_size = (if \<not> pinuse then new_size + prev_size (ci av md_p) else new_size);
       assert_c (sint new_size > 0 \<and> sint new_size < sint HEAP_MAX_SIZE);
       if new_size + (HEAP_MAX_SIZE - heap_size (infos (hp av) prev_heap)) < pad + MINSIZE + dl_pagesize (par av)
       then Some (heap, av)
       else do {
         let md_temp = md_next (ci av md_fencepost);
         (_, av) \<leftarrow> unregister_chunk E (chunkinfo2chunk av md_fencepost) av;
         let av = relink md_p md_temp av;
         let sz = heap_size (infos (hp av) heap);
         let av = av\<lparr>system_mem := system_mem av - sz, hp := (hp av)\<lparr>arena_mem := arena_mem (hp av) - sz\<rparr>\<rparr>;
         (_, av) \<leftarrow> unregister_chunk E top_chunk av;
         let av = av\<lparr>hp := delete_heap K heap (hp av)\<rparr>;
         (_, L) \<leftarrow> lookup_delete_heap (lk_mmap S) heap (lkup av);
         let av = av\<lparr>lkup := L\<rparr>;
         let heap = prev_heap;
         pinuse \<leftarrow> prev_inuse av md_p p;
         (md_p, p, av) \<leftarrow>
           (if \<not> pinuse then do {
              let op = p;
              let md_temp = md_next (ci av md_p);
              av \<leftarrow> assert_md_prev E md_p p av;
              md_p \<leftarrow> md_prev (ci av md_p);
              let p = chunkinfo2chunk av md_p;
              (_, av) \<leftarrow> unregister_chunk E op av;
              (_, _, av) \<leftarrow> bin_unlink md_p av;
              Some (md_p, p, relink md_p md_temp av) }
            else Some (md_p, p, av));
         assert_c ((p + new_size) AND (dl_pagesize (par av) - 1) = 0);
         assert_c (p + new_size = heap + heap_size (infos (hp av) heap));
         let av = av\<lparr>md_top := Some md_p\<rparr>;
         let av = w_md_next md_top_chunk_next md_p av;
         check_metadata_chunk av p (Some md_p);
         let av = set_head md_p (new_size OR PREV_INUSE) av;
         check_top (par av) av;
         trim_heaps S K heap pad p av } }
     else Some (heap, av))"

text \<open>The result is \<open>1\<close> when memory was given back at the end.\<close>

definition heap_trim ::
  "('z hproc_scheme) sysenv \<Rightarrow> heap_kernel \<Rightarrow> bool \<Rightarrow> u64 \<Rightarrow> u64 \<Rightarrow> 'z hproc_scheme \<Rightarrow> (int \<times> 'z hproc_scheme) option" where
  "heap_trim S K may_shrink heap pad av = do {
     md_top_chunk \<leftarrow> md_top av;
     (heap, av) \<leftarrow> trim_heaps S K heap pad (chunkinfo2chunk av md_top_chunk) av;
     let top_size = chunksize av (md_top av);
     if top_size < trim_threshold (par av) then Some (0, av)
     else do {
       let top_area = top_size - MINSIZE - 1;
       if sint top_area < 0 \<or> top_area \<le> pad then Some (0, av)
       else do {
         let extra = ALIGN_DOWN (top_area - pad) (dl_pagesize (par av));
         if extra = 0 then Some (0, av)
         else do {
           let (r, av) = heap_op (shrink_heap K may_shrink heap extra) av;
           if r \<noteq> 0 then Some (0, av)
           else do {
             let av = av\<lparr>system_mem := system_mem av - extra, hp := (hp av)\<lparr>arena_mem := arena_mem (hp av) - extra\<rparr>\<rparr>;
             t \<leftarrow> md_top av;
             let av = set_head t ((top_size - extra) OR PREV_INUSE) av;
             check_top (par av) av;
             Some (1, av) } } } } }"

section \<open>More memory for the arena\<close>

text \<open>
  The part of \<open>sysmalloc\<close> for these arenas: the heap of top grows, or top moves to a new heap, with fence posts behind the
  old top. The result is \<open>False\<close> when neither can be done.
\<close>

definition fence_heap ::
  "('z hproc_scheme) sysenv \<Rightarrow> bptr \<Rightarrow> u64 \<Rightarrow> u64 \<Rightarrow> bptr \<Rightarrow> 'z hproc_scheme \<Rightarrow> 'z hproc_scheme option" where
  "fence_heap S md_old_top old_top old_size t av = do {
     let E = cienv S;
     let old_size = (old_size - MINSIZE) AND NOT MALLOC_ALIGN_MASK;
     let fencepost_0 = chunk_at_offset old_top (old_size + 2 * SIZE_SZ);
     (md_0, av) \<leftarrow> register_chunk E fencepost_0 av;
     let av = w_md_prev (Some md_old_top) md_0 av;
     let av = w_md_next (Some t) md_0 av;
     let av = w_md_next (Some md_0) md_old_top av;
     let av = w_md_prev (Some md_0) t av;
     let av = set_head md_0 PREV_INUSE av;
     check_metadata_chunk av fencepost_0 (Some md_0);
     av \<leftarrow>
       (if old_size \<ge> MINSIZE then do {
          let fencepost_1 = chunk_at_offset old_top old_size;
          (md_1, av) \<leftarrow> register_chunk E fencepost_1 av;
          let av = w_md_prev (Some md_1) md_0 av;
          let av = w_md_next (Some md_0) md_1 av;
          let av = w_md_prev (Some md_old_top) md_1 av;
          check_metadata_chunk av fencepost_0 (Some md_0);
          let av = w_md_next (Some md_1) md_old_top av;
          let av = set_head md_1 ((2 * SIZE_SZ) OR PREV_INUSE) av;
          av \<leftarrow> set_foot E md_1 av;
          check_metadata_chunk av fencepost_1 (Some md_1);
          let av = set_head md_old_top (old_size OR PREV_INUSE) av;
          check_metadata_chunk av old_top (Some md_old_top);
          int_free S (Some md_old_top) old_top True av }
        else do {
          let av = set_head md_old_top ((old_size + 2 * SIZE_SZ) OR PREV_INUSE) av;
          av \<leftarrow> set_foot E md_old_top av;
          check_metadata_chunk av old_top (Some md_old_top);
          Some av });
     check_top (par av) av;
     Some av }"

definition extend_arena ::
  "('z hproc_scheme) sysenv \<Rightarrow> heap_kernel \<Rightarrow> u64 \<Rightarrow> 'z hproc_scheme \<Rightarrow> (bool \<times> 'z hproc_scheme) option" where
  "extend_arena S K nb av = do {
     md_old_top \<leftarrow> md_top av;
     let old_top = chunkinfo2chunk av md_old_top;
     let old_size = chunksize av (Some md_old_top);
     let pagesize = dl_pagesize (par av);
     let old_heap = heap_for_ptr old_top;
     let old_heap_size = heap_size (infos (hp av) old_heap);
     let (r, av) = (if sint (MINSIZE + nb - old_size) > 0
                    then heap_op (grow_heap K pagesize old_heap (MINSIZE + nb - old_size)) av else (- 1, av));
     if r = 0 then do {
       let grown = heap_size (infos (hp av) old_heap) - old_heap_size;
       let av = av\<lparr>system_mem := system_mem av + grown, hp := (hp av)\<lparr>arena_mem := arena_mem (hp av) + grown\<rparr>\<rparr>;
       Some (True, set_head md_old_top ((old_heap + heap_size (infos (hp av) old_heap) - old_top) OR PREV_INUSE) av) }
     else do {
       let (heap, av) = heap_op (new_heap K pagesize (nb + (MINSIZE + sizeof_heap_info)) (top_pad (par av))) av;
       if heap = 0 then Some (False, av)
       else do {
         let H = hp av;
         let av = av\<lparr>hp := H\<lparr>infos := (infos H)(heap := (infos H heap)\<lparr>ar_ptr := arena_addr av, heap_prev := old_heap\<rparr>)\<rparr>\<rparr>;
         let sz = heap_size (infos (hp av) heap);
         let av = av\<lparr>system_mem := system_mem av + sz\<rparr>;
         (_, L) \<leftarrow> lookup_add_heap (lk_mmap S) heap (arena_index av) (lkup av);
         let av = av\<lparr>lkup := L, hp := (hp av)\<lparr>arena_mem := arena_mem (hp av) + sz\<rparr>\<rparr>;
         let topchunk = chunk_at_offset heap sizeof_heap_info;
         (t, av) \<leftarrow> register_chunk (cienv S) topchunk av;
         let av = av\<lparr>md_top := Some t\<rparr>;
         let av = w_md_next None t av;
         let av = set_head t ((sz - sizeof_heap_info) OR PREV_INUSE) av;
         check_top (par av) av;
         av \<leftarrow> fence_heap S md_old_top old_top old_size t av;
         Some (True, av) } } }"

section \<open>A new arena\<close>

text \<open>
  The arena at the begin of a new heap, behind the \<open>heap_info\<close>: its \<open>malloc_state\<close> is all zero. \<open>sizeof_mstate\<close> is the size of
  that structure and \<open>top_offset\<close> the offset of \<open>initial_top\<close> in it. \<open>_int_new_arena\<close> goes on to put the arena into the list of arenas.
\<close>

definition zero_arena :: "u64 \<Rightarrow> u64 \<Rightarrow> 'z hproc_scheme \<Rightarrow> 'z hproc_scheme" where
  "zero_arena a top_offset av =
    av\<lparr>flags := 0, fastbinsY := replicate NFASTBINS None, md_top := None, initial_top := a + top_offset, last_remainder := None, bins_base := unat a,
       bin_heads := (\<lambda>_. zero_chunkinfo), bin_map := replicate BINMAPSIZE 0, system_mem := 0, max_system_mem := 0,
       arena_index := 0, is_main := False, metadata_pool_ready := False,
       metadata_cache := replicate METADATA_CACHE_SIZE None, metadata_cache_count := 0, arena_addr := a\<rparr>"

definition int_new_arena ::
  "('z hproc_scheme) sysenv \<Rightarrow> heap_kernel \<Rightarrow> u64 \<Rightarrow> u64 \<Rightarrow> u64 \<Rightarrow> 'z hproc_scheme \<Rightarrow> (u64 \<times> 'z hproc_scheme) option" where
  "int_new_arena S K sizeof_mstate top_offset sz av = do {
     let P = par av;
     let head = sizeof_heap_info + sizeof_mstate + MALLOC_ALIGNMENT;
     let (h, av) = heap_op (new_heap K (dl_pagesize P) (sz + head) (top_pad P)) av;
     let (h, av) = (if h = 0 then heap_op (new_heap K (dl_pagesize P) head (top_pad P)) av else (h, av));
     if h = 0 then Some (0, av)
     else do {
       let a = h + sizeof_heap_info;
       let H = hp av;
       let av = av\<lparr>hp := H\<lparr>infos := (infos H)(h := (infos H h)\<lparr>ar_ptr := a\<rparr>)\<rparr>\<rparr>;
       av \<leftarrow> malloc_init_state S False (zero_arena a top_offset av);
       let hsz = heap_size (infos (hp av) h);
       let av = av\<lparr>system_mem := hsz, max_system_mem := hsz, hp := (hp av)\<lparr>arena_mem := arena_mem (hp av) + hsz\<rparr>\<rparr>;
       let ptr = a + sizeof_mstate;
       let misalign = chunk2mem ptr AND MALLOC_ALIGN_MASK;
       let ptr = (if misalign > 0 then ptr + (MALLOC_ALIGNMENT - misalign) else ptr);
       (t, av) \<leftarrow> register_chunk (cienv S) ptr av;
       let av = av\<lparr>md_top := Some t\<rparr>;
       let av = set_head t ((h + hsz - ptr) OR PREV_INUSE) av;
       check_top (par av) av;
       Some (h, av) } }"

text \<open>The environment of an arena with heaps: what \<open>_int_free\<close> and \<open>sysmalloc\<close> of \<open>malloc.c\<close> call here.\<close>

definition with_heaps :: "heap_kernel \<Rightarrow> bool \<Rightarrow> ('z hproc_scheme) sysenv \<Rightarrow> ('z hproc_scheme) sysenv" where
  "with_heaps K may_shrink S =
    S\<lparr>trim_heap := (\<lambda>topchunk av. do {
        let heap = heap_for_ptr topchunk;
        assert_c (ar_ptr (infos (hp av) heap) = arena_addr av);
        (_, av) \<leftarrow> heap_trim S K may_shrink heap (top_pad (par av)) av;
        Some av }),
      extend_heap := extend_arena S K\<rparr>"

end
