(* ===== verification/Malloc_Heaps_Props.thy ===== *)
theory Malloc_Heaps_Props
  imports Malloc_Heaps Malloc_Release
begin

text \<open>
  What \<open>new_heap\<close>, \<open>grow_heap\<close> and \<open>shrink_heap\<close> do to the memory of the process: a new heap is one aligned area, and
  nothing else stays mapped, on every path; the accessible part of a heap never leaves the heap.
\<close>

section \<open>The kernel\<close>

text \<open>
  \<open>mapped cs\<close> is what the calls \<open>cs\<close> have mapped: a new mapping lies in free addresses, \<open>munmap\<close> removes what it is given,
  and \<open>mprotect\<close>, \<open>madvise\<close> and a mapping over a mapped area remove nothing.
\<close>

definition heap_kernel_ok :: "heap_kernel \<Rightarrow> (heap_call list \<Rightarrow> nat set) \<Rightarrow> bool" where
  "heap_kernel_ok K mapped \<longleftrightarrow>
     (\<forall>cs h s. (K (cs @ [Map_at h s]) = None \<and> mapped (cs @ [Map_at h s]) = mapped cs) \<or>
        (\<exists>a. K (cs @ [Map_at h s]) = Some a \<and> a \<noteq> 0 \<and> unat a + unat s < 2 ^ 64 \<and> mapped cs \<inter> {unat a ..< unat a + unat s} = {} \<and>
           mapped (cs @ [Map_at h s]) = mapped cs \<union> {unat a ..< unat a + unat s})) \<and>
     (\<forall>cs a s. mapped (cs @ [Unmap a s]) = mapped cs - {unat a ..< unat a + unat s}) \<and>
     (\<forall>cs a s. mapped (cs @ [Protect a s]) = mapped cs) \<and> (\<forall>cs a s. mapped (cs @ [Dont_need a s]) = mapped cs)"

lemma kernel_map:
  assumes "heap_kernel_ok K mapped" and "heap_sys K (Map_at h s) H = (r, H')"
  shows "r = None \<Longrightarrow> mapped (heap_calls H') = mapped (heap_calls H)"
    and "r = Some a \<Longrightarrow> a \<noteq> 0 \<and> unat a + unat s < 2 ^ 64 \<and> mapped (heap_calls H) \<inter> {unat a ..< unat a + unat s} = {} \<and>
           mapped (heap_calls H') = mapped (heap_calls H) \<union> {unat a ..< unat a + unat s}"
    and "infos H' = infos H"
proof -
  have e: "r = K (heap_calls H @ [Map_at h s])" "H' = H\<lparr>heap_calls := heap_calls H @ [Map_at h s]\<rparr>"
    using assms(2) by (simp_all add: heap_sys_def Let_def)
  have c: "(K (heap_calls H @ [Map_at h s]) = None \<and> mapped (heap_calls H @ [Map_at h s]) = mapped (heap_calls H)) \<or>
        (\<exists>a. K (heap_calls H @ [Map_at h s]) = Some a \<and> a \<noteq> 0 \<and> unat a + unat s < 2 ^ 64 \<and> mapped (heap_calls H) \<inter> {unat a ..< unat a + unat s} = {} \<and>
           mapped (heap_calls H @ [Map_at h s]) = mapped (heap_calls H) \<union> {unat a ..< unat a + unat s})"
    using assms(1) unfolding heap_kernel_ok_def by blast
  show "r = None \<Longrightarrow> mapped (heap_calls H') = mapped (heap_calls H)" using c e by auto
  show "r = Some a \<Longrightarrow> a \<noteq> 0 \<and> unat a + unat s < 2 ^ 64 \<and> mapped (heap_calls H) \<inter> {unat a ..< unat a + unat s} = {} \<and>
           mapped (heap_calls H') = mapped (heap_calls H) \<union> {unat a ..< unat a + unat s}" using c e by auto
  show "infos H' = infos H" by (simp add: e)
qed

lemma kernel_other [simp]:
  assumes "heap_kernel_ok K mapped"
  shows "mapped (heap_calls (snd (heap_sys K (Unmap a s) H))) = mapped (heap_calls H) - {unat a ..< unat a + unat s}"
    "mapped (heap_calls (snd (heap_sys K (Protect a s) H))) = mapped (heap_calls H)"
    "mapped (heap_calls (snd (heap_sys K (Dont_need a s) H))) = mapped (heap_calls H)"
  using assms by (simp_all add: heap_kernel_ok_def heap_sys_def Let_def)

lemma heap_sys_sel [simp]:
  "infos (snd (heap_sys K c H)) = infos H" "aligned_heap_area (snd (heap_sys K c H)) = aligned_heap_area H"
  "arena_mem (snd (heap_sys K c H)) = arena_mem H"
  by (simp_all add: heap_sys_def Let_def)

section \<open>Aligned areas\<close>

lemma heap_max: "HEAP_MAX_SIZE = 2 ^ 26" "unat HEAP_MAX_SIZE = 2 ^ 26"
  by (simp_all add: HEAP_MAX_SIZE_def)

definition heap_area :: "u64 \<Rightarrow> nat set" where
  "heap_area h = {unat h ..< unat h + 2 ^ 26}"

lemma low_bits: "p AND (HEAP_MAX_SIZE - 1) = 0 \<longleftrightarrow> 2 ^ 26 dvd unat p"
proof -
  have "HEAP_MAX_SIZE - 1 = mask 26" by (simp add: heap_max mask_eq_exp_minus_1)
  then have "p AND (HEAP_MAX_SIZE - 1) = take_bit 26 p" by (simp only: take_bit_eq_mask)
  then have "unat (p AND (HEAP_MAX_SIZE - 1)) = unat p mod 2 ^ 26" by (simp only: unsigned_take_bit_eq) (simp only: take_bit_eq_mod)
  then show ?thesis by (simp add: word_unat_eq_iff dvd_eq_mod_eq_0)
qed

text \<open>The aligned part of an area of twice the size.\<close>

lemma aligned_part:
  assumes "unat p + 2 ^ 27 < 2 ^ 64"
  defines "q \<equiv> (p + (HEAP_MAX_SIZE - 1)) AND NOT (HEAP_MAX_SIZE - 1)"
  shows "2 ^ 26 dvd unat q" "unat p \<le> unat q" "unat q < unat p + 2 ^ 26" "unat (q - p) = unat q - unat p"
    "unat (q + HEAP_MAX_SIZE) = unat q + 2 ^ 26" "unat (HEAP_MAX_SIZE - (q - p)) = 2 ^ 26 - (unat q - unat p)"
proof -
  define n where "n = unat p"
  have n: "n + 2 ^ 27 < 2 ^ 64" using assms(1) by (simp add: n_def)
  have "- (2 ^ 26) = NOT (HEAP_MAX_SIZE - 1)" unfolding heap_max(1) by (rule minus_eq_not_minus_1)
  then have "q = ALIGN_DOWN (p + (HEAP_MAX_SIZE - 1)) (2 ^ 26)" by (simp only: q_def ALIGN_DOWN_def)
  moreover have u: "unat (HEAP_MAX_SIZE - 1) = 2 ^ 26 - 1" by (simp add: HEAP_MAX_SIZE_def)
  have "unat (p + (HEAP_MAX_SIZE - 1)) = n + (2 ^ 26 - 1)"
    using unat_add_lem [of p "HEAP_MAX_SIZE - 1"] n unfolding u n_def by simp
  ultimately have q: "unat q = (n + (2 ^ 26 - 1)) div 2 ^ 26 * 2 ^ 26" using ALIGN_DOWN_page(1) [of 26] by simp
  then show "2 ^ 26 dvd unat q" by simp
  have "unat q + (n + (2 ^ 26 - 1)) mod 2 ^ 26 = n + (2 ^ 26 - 1)" unfolding q by (rule div_mult_mod_eq)
  moreover have "(n + (2 ^ 26 - 1)) mod 2 ^ 26 < 2 ^ 26" by simp
  ultimately have r: "n \<le> unat q" "unat q < n + 2 ^ 26" by linarith+
  then show "unat p \<le> unat q" "unat q < unat p + 2 ^ 26" by (simp_all add: n_def)
  show d: "unat (q - p) = unat q - unat p" using r by (simp add: unat_sub word_le_nat_alt n_def)
  show "unat (q + HEAP_MAX_SIZE) = unat q + 2 ^ 26" using n r by (simp add: unat_word_ariths heap_max)
  have "unat (q - p) \<le> 2 ^ 26" using d r by (simp add: n_def)
  then show "unat (HEAP_MAX_SIZE - (q - p)) = 2 ^ 26 - (unat q - unat p)"
    using d by (subst unat_sub) (simp_all add: word_le_nat_alt heap_max)
qed

section \<open>A new heap\<close>

text \<open>A result of one of the attempts: an aligned area that is the only new memory, or no new memory.\<close>

definition one_area :: "(heap_call list \<Rightarrow> nat set) \<Rightarrow> nat set \<Rightarrow> (u64 \<Rightarrow> heap_info) \<Rightarrow> u64 option \<times> heaps \<Rightarrow> bool" where
  "one_area mapped Z I r \<longleftrightarrow> infos (snd r) = I \<and>
     (case fst r of
        None \<Rightarrow> mapped (heap_calls (snd r)) = Z
      | Some p \<Rightarrow> p \<noteq> 0 \<and> 2 ^ 26 dvd unat p \<and> unat p + 2 ^ 26 < 2 ^ 64 \<and> Z \<inter> heap_area p = {} \<and>
          mapped (heap_calls (snd r)) = Z \<union> heap_area p)"

abbreviation area_from :: "(heap_call list \<Rightarrow> nat set) \<Rightarrow> heaps \<Rightarrow> u64 option \<times> heaps \<Rightarrow> bool" where
  "area_from mapped H \<equiv> one_area mapped (mapped (heap_calls H)) (infos H)"

lemma map_one_area:
  assumes k: "heap_kernel_ok K mapped"
  shows "area_from mapped H (case heap_sys K (Map_at h HEAP_MAX_SIZE) H of
     (None, H) \<Rightarrow> (None, H)
   | (Some p, H) \<Rightarrow> (if p AND (HEAP_MAX_SIZE - 1) \<noteq> 0 then (None, snd (heap_sys K (Unmap p HEAP_MAX_SIZE) H)) else (Some p, H)))"
proof -
  obtain r H' where r: "heap_sys K (Map_at h HEAP_MAX_SIZE) H = (r, H')" by fastforce
  note m = kernel_map [OF k r]
  show ?thesis
  proof (cases r)
    case None
    then show ?thesis using r m by (simp add: one_area_def)
  next
    case (Some p)
    have c: "infos H' = infos H" "p \<noteq> 0" "unat p + 2 ^ 26 < 2 ^ 64" "mapped (heap_calls H) \<inter> heap_area p = {}" "mapped (heap_calls H') = mapped (heap_calls H) \<union> heap_area p"
      using m(2) [OF Some] m(3) by (simp_all add: heap_area_def heap_max)
    then have "mapped (heap_calls (snd (heap_sys K (Unmap p HEAP_MAX_SIZE) H'))) = mapped (heap_calls H)"
      using k by (auto simp: heap_area_def heap_max)
    then show ?thesis using r Some c low_bits [of p] by (simp add: one_area_def)
  qed
qed

lemma map_kept_area:
  assumes k: "heap_kernel_ok K mapped"
  shows "area_from mapped H (map_kept K H)"
proof (cases "aligned_heap_area H = 0")
  case True
  then show ?thesis by (simp add: map_kept_def one_area_def)
next
  case False
  obtain r H' where r: "heap_sys K (Map_at (aligned_heap_area H) HEAP_MAX_SIZE) H = (r, H')" by fastforce
  have r': "heap_sys K (Map_at (aligned_heap_area H) HEAP_MAX_SIZE) (H\<lparr>aligned_heap_area := 0\<rparr>) = (r, H'\<lparr>aligned_heap_area := 0\<rparr>)"
    using r by (auto simp: heap_sys_def Let_def)
  have "map_kept K H = (case heap_sys K (Map_at (aligned_heap_area H) HEAP_MAX_SIZE) (H\<lparr>aligned_heap_area := 0\<rparr>) of
     (None, H) \<Rightarrow> (None, H)
   | (Some p, H) \<Rightarrow> (if p AND (HEAP_MAX_SIZE - 1) \<noteq> 0 then (None, snd (heap_sys K (Unmap p HEAP_MAX_SIZE) H)) else (Some p, H)))"
    using False r r' by (simp add: map_kept_def Let_def split: option.split)
  then show ?thesis using map_one_area [OF k, of "H\<lparr>aligned_heap_area := 0\<rparr>" "aligned_heap_area H"] by simp
qed

lemma map_aligned_area:
  assumes k: "heap_kernel_ok K mapped"
  shows "area_from mapped H (map_aligned K H)"
proof -
  obtain r H' where r: "heap_sys K (Map_at 0 (push_bit 1 HEAP_MAX_SIZE)) H = (r, H')" by fastforce
  note m = kernel_map [OF k r]
  show ?thesis
  proof (cases r)
    case None
    have "area_from mapped H' (map_aligned K H)" using map_one_area [OF k, of H' 0] r None by (simp add: map_aligned_def)
    then show ?thesis using m(1) [OF None] m(3) by simp
  next
    case (Some p)
    define q where "q = (p + (HEAP_MAX_SIZE - 1)) AND NOT (HEAP_MAX_SIZE - 1)"
    have two: "unat (push_bit 1 HEAP_MAX_SIZE) = 2 ^ 27" by (simp add: heap_max push_bit_eq_mult)
    have c: "p \<noteq> 0" "unat p + 2 ^ 27 < 2 ^ 64" "mapped (heap_calls H) \<inter> {unat p ..< unat p + 2 ^ 27} = {}"
      "mapped (heap_calls H') = mapped (heap_calls H) \<union> {unat p ..< unat p + 2 ^ 27}" "infos H' = infos H"
      using m(2) [OF Some] m(3) unfolding two by simp_all
    note a = aligned_part [OF c(2), folded q_def]
    define H1 where "H1 = (if q - p \<noteq> 0 then snd (heap_sys K (Unmap p (q - p)) H') else H'\<lparr>aligned_heap_area := q + HEAP_MAX_SIZE\<rparr>)"
    have e: "map_aligned K H = (Some q, snd (heap_sys K (Unmap (q + HEAP_MAX_SIZE) (HEAP_MAX_SIZE - (q - p))) H1))"
      using r Some by (simp add: map_aligned_def Let_def q_def H1_def)
    have "mapped (heap_calls H1) = mapped (heap_calls H') - {unat p ..< unat q}"
      using k a(2,4) by (simp add: H1_def)
    then have "mapped (heap_calls (snd (map_aligned K H))) =
        mapped (heap_calls H') - {unat p ..< unat q} - {unat q + 2 ^ 26 ..< unat p + 2 ^ 27}"
      using k a(2,3,5,6) by (simp add: e add.commute)
    also have "\<dots> = mapped (heap_calls H) \<union> heap_area q"
      using c(3,4) a(2,3) by (fastforce simp: heap_area_def)
    finally have "mapped (heap_calls (snd (map_aligned K H))) = mapped (heap_calls H) \<union> heap_area q" .
    moreover have "mapped (heap_calls H) \<inter> heap_area q = {}" using c(3) a(2,3) by (fastforce simp: heap_area_def)
    moreover have "q \<noteq> 0" using c(1) a(2) unat_gt_0 [of p] by (metis le_zero_eq unat_0 unat_eq_0)
    moreover have "unat q + 2 ^ 26 < 2 ^ 64" using c(2) a(3) by simp
    moreover have "infos (snd (map_aligned K H)) = infos H" using c(5) by (simp add: e H1_def)
    ultimately show ?thesis using a(1) by (simp add: one_area_def e)
  qed
qed

lemma page_up:
  assumes k: "4 \<le> k" "k \<le> 26" and x: "unat x \<le> 2 ^ 26"
  shows "unat (ALIGN_UP x (2 ^ k)) \<le> 2 ^ 26" "unat x \<le> unat (ALIGN_UP x (2 ^ k))" "2 ^ k dvd unat (ALIGN_UP x (2 ^ k))"
proof -
  define w where "w = (2 :: nat) ^ k"
  have k64: "k < 64" using k by simp
  have w: "1 \<le> w" "w \<le> 2 ^ 26" using power_increasing [OF k(2), of "2 :: nat"] by (simp_all add: w_def)
  have p: "unat (2 ^ k :: u64) = w" 
  proof -
    have "w < 2 ^ 64" unfolding w_def using k64 by (intro power_strict_increasing) simp_all
    then have "unat (word_of_nat w :: u64) = w" by (simp add: unat_of_nat)
    then show ?thesis by (simp add: w_def)
  qed
  have "unat (x + 2 ^ k - 1) = unat x + w - 1"
  proof -
    have "unat (x + 2 ^ k) = unat x + w" using unat_add_lem [of x "2 ^ k"] x w by (simp add: p)
    moreover have "(1 :: u64) \<le> x + 2 ^ k" using calculation w by (simp add: word_le_nat_alt)
    ultimately show ?thesis by (simp add: unat_sub)
  qed
  then have e: "unat (ALIGN_UP x (2 ^ k)) = (unat x + w - 1) div w * w"
    using ALIGN_DOWN_page(1) [OF k(1) k64] by (simp add: ALIGN_UP_def w_def)
  then show "2 ^ k dvd unat (ALIGN_UP x (2 ^ k))" by (simp add: w_def)
  have m: "(unat x + w - 1) div w * w + (unat x + w - 1) mod w = unat x + w - 1" by (rule div_mult_mod_eq)
  have "(unat x + w - 1) mod w < w" using w by simp
  then show "unat x \<le> unat (ALIGN_UP x (2 ^ k))" using m e w by linarith
  have "w dvd 2 ^ 26" unfolding w_def using k(2) by (rule le_imp_power_dvd)
  then obtain c where c: "2 ^ 26 = c * w" by (auto simp: dvd_def mult.commute)
  have "(unat x + w - 1) div w \<le> (c * w + (w - 1)) div w" using x c w by (intro div_le_mono) simp
  also have "\<dots> = c + (w - 1) div w" using w by (intro div_mult_self3) simp
  also have "\<dots> = c" using w by simp
  finally show "unat (ALIGN_UP x (2 ^ k)) \<le> 2 ^ 26" unfolding e c by simp
qed

lemma new_heap_area:
  assumes k: "heap_kernel_ok K mapped" and r: "new_heap K pagesize sz pad H = (h, H')"
  shows "if h = 0 then mapped (heap_calls H') = mapped (heap_calls H) \<and> infos H' = infos H
    else area_from mapped H (Some h, H'\<lparr>infos := infos H\<rparr>) \<and>
      (\<exists>s. round_heap pagesize sz pad = Some s \<and> infos H' = (infos H)(h := (infos H h)\<lparr>heap_size := s, mprotect_size := s\<rparr>))"
proof (cases "round_heap pagesize sz pad")
  case None
  then show ?thesis using r by (simp add: new_heap_def)
next
  case (Some s)
  obtain p1 H1 where m1: "map_kept K H = (p1, H1)" by fastforce
  obtain p2 H2 where m2: "(if p1 = None then map_aligned K H1 else (p1, H1)) = (p2, H2)" by fastforce
  have a1: "area_from mapped H (p1, H1)" using map_kept_area [OF k, of H] by (simp add: m1)
  have a2: "area_from mapped H (p2, H2)"
  proof (cases p1)
    case None
    then have "map_aligned K H1 = (p2, H2)" "mapped (heap_calls H1) = mapped (heap_calls H)" "infos H1 = infos H"
      using a1 m2 by (simp_all add: one_area_def)
    then show ?thesis using map_aligned_area [OF k, of H1] by simp
  next
    case (Some p)
    then show ?thesis using a1 m2 by auto
  qed
  show ?thesis
  proof (cases p2)
    case None
    then show ?thesis using r m1 m2 Some a2 by (simp add: new_heap_def one_area_def)
  next
    case p: (Some p)
    obtain x H3 where x: "heap_sys K (Protect p s) H2 = (x, H3)" by fastforce
    have H3: "mapped (heap_calls H3) = mapped (heap_calls H2)" "infos H3 = infos H2"
      using kernel_other(2) [OF k, of p s H2] heap_sys_sel(1) [of K "Protect p s" H2] by (simp_all add: x)
    show ?thesis
    proof (cases x)
      case None
      then have "h = 0" "H' = snd (heap_sys K (Unmap p HEAP_MAX_SIZE) H3)" using r m1 m2 p x Some by (simp_all add: new_heap_def)
      then show ?thesis using a2 p H3 k by (auto simp: one_area_def heap_area_def heap_max)
    next
      case (Some y)
      then have "h = p" "H' = H3\<lparr>infos := (infos H3)(p := (infos H3 p)\<lparr>heap_size := s, mprotect_size := s\<rparr>)\<rparr>"
        using r m1 m2 p x \<open>round_heap pagesize sz pad = Some s\<close> by (auto simp: new_heap_def)
      then show ?thesis using a2 p H3 \<open>round_heap pagesize sz pad = Some s\<close> by (simp add: one_area_def)
    qed
  qed
qed


lemma round_heap_bounds:
  assumes "round_heap (2 ^ k) sz pad = Some s" and "4 \<le> k" "k \<le> 26"
  shows "32 * 1024 \<le> unat s" "unat s \<le> 2 ^ 26" "2 ^ k dvd unat s" "unat sz + unat pad < 2 ^ 64 \<Longrightarrow> unat sz \<le> unat s"
proof -
  obtain x where x: "s = ALIGN_UP x (2 ^ k)" "32 * 1024 \<le> unat x" "unat x \<le> 2 ^ 26" "unat sz + unat pad < 2 ^ 64 \<Longrightarrow> unat sz \<le> unat x"
  proof -
    have c: "unat HEAP_MIN_SIZE = 32 * 1024" by (simp add: HEAP_MIN_SIZE_def)
    have add: "unat sz + unat pad < 2 ^ 64 \<Longrightarrow> unat (sz + pad) = unat sz + unat pad" using unat_add_lem [of sz pad] by simp
    consider "sz + pad < HEAP_MIN_SIZE" "s = ALIGN_UP HEAP_MIN_SIZE (2 ^ k)" | "\<not> sz + pad < HEAP_MIN_SIZE" "sz + pad \<le> HEAP_MAX_SIZE" "s = ALIGN_UP (sz + pad) (2 ^ k)"
      | "sz \<le> HEAP_MAX_SIZE" "s = ALIGN_UP HEAP_MAX_SIZE (2 ^ k)"
      using assms(1) by (auto simp: round_heap_def split: if_splits)
    then show thesis
      by cases (rule that, assumption, use add c heap_max(2) in \<open>auto simp: word_less_nat_alt word_le_nat_alt\<close>)+
  qed
  note u = page_up [OF assms(2,3) x(3)]
  show "32 * 1024 \<le> unat s" "unat s \<le> 2 ^ 26" "2 ^ k dvd unat s" "unat sz + unat pad < 2 ^ 64 \<Longrightarrow> unat sz \<le> unat s"
    using u x by auto
qed

section \<open>The size of a heap\<close>

text \<open>A heap that is in order: whole pages, of which the accessible ones come first.\<close>

definition heap_in_order :: "nat \<Rightarrow> heap_info \<Rightarrow> bool" where
  "heap_in_order k i \<longleftrightarrow> unat sizeof_heap_info \<le> unat (heap_size i) \<and> heap_size i \<le> mprotect_size i \<and> unat (mprotect_size i) \<le> 2 ^ 26 \<and>
     2 ^ k dvd unat (heap_size i) \<and> 2 ^ k dvd unat (mprotect_size i)"

lemma header_size: "unat sizeof_heap_info = 32" "sint sizeof_heap_info = 32"
  by (simp_all add: sizeof_heap_info_def malloc_consts)

lemma grow_heap_order:
  assumes r: "grow_heap K (2 ^ k) h diff H = (x, H')" and k: "4 \<le> k" "k \<le> 26" and ok: "heap_in_order k (infos H h)" and d: "unat diff \<le> 2 ^ 26"
  shows "heap_in_order k (infos H' h) \<and> (\<forall>a. a \<noteq> h \<longrightarrow> infos H' a = infos H a) \<and>
    (if x = 0 then unat (heap_size (infos H' h)) = unat (heap_size (infos H h)) + unat (ALIGN_UP diff (2 ^ k)) else infos H' = infos H)"
proof -
  define s where "s = heap_size (infos H h)"
  define n where "n = s + ALIGN_UP diff (2 ^ k)"
  note u = page_up [OF k d]
  have o: "32 \<le> unat s" "unat s \<le> unat (mprotect_size (infos H h))" "unat (mprotect_size (infos H h)) \<le> 2 ^ 26" "2 ^ k dvd unat s"
    "2 ^ k dvd unat (mprotect_size (infos H h))"
    using ok by (auto simp: heap_in_order_def header_size s_def word_le_nat_alt)
  have n: "unat n = unat s + unat (ALIGN_UP diff (2 ^ k))" using unat_add_lem [of s "ALIGN_UP diff (2 ^ k)"] o u by (simp add: n_def)
  have nk: "2 ^ k dvd unat n" using o(4) u(3) by (simp add: n)
  consider "x \<noteq> 0" "infos H' = infos H"
    | "x = 0" "\<not> HEAP_MAX_SIZE < n" "mprotect_size (infos H h) < n"
        "infos H' = (infos H)(h := (infos H h)\<lparr>heap_size := n, mprotect_size := n\<rparr>)"
    | "x = 0" "\<not> HEAP_MAX_SIZE < n" "\<not> mprotect_size (infos H h) < n" "infos H' = (infos H)(h := (infos H h)\<lparr>heap_size := n\<rparr>)"
    using r unfolding grow_heap_def Let_def s_def [symmetric] n_def [symmetric]
    by (auto simp: heap_sys_def Let_def split: if_splits option.splits)
  then show ?thesis
    by cases (use ok n nk o in \<open>auto simp: heap_in_order_def header_size s_def word_less_nat_alt word_le_nat_alt heap_max\<close>)
qed

lemma shrink_heap_order:
  assumes r: "shrink_heap K b h diff H = (x, H')" and ok: "heap_in_order k (infos H h)" and d: "2 ^ k dvd unat diff" "diff \<le> heap_size (infos H h)"
  shows "heap_in_order k (infos H' h) \<and> (\<forall>a. a \<noteq> h \<longrightarrow> infos H' a = infos H a) \<and>
    (if x = 0 then unat (heap_size (infos H' h)) = unat (heap_size (infos H h)) - unat diff else infos H' = infos H)"
proof -
  define s where "s = heap_size (infos H h)"
  define n where "n = s - diff"
  have o: "32 \<le> unat s" "unat s \<le> unat (mprotect_size (infos H h))" "unat (mprotect_size (infos H h)) \<le> 2 ^ 26" "2 ^ k dvd unat s"
    "2 ^ k dvd unat (mprotect_size (infos H h))"
    using ok by (auto simp: heap_in_order_def header_size s_def word_le_nat_alt)
  have n: "unat n = unat s - unat diff" using d(2) by (simp add: n_def s_def unat_sub)
  have nk: "2 ^ k dvd unat n" using o(4) d(1) by (simp add: n dvd_diff_nat)
  have "sint n = uint n" unfolding sint_uint
  proof (rule signed_take_bit_int_eq_self)
    have "unat n \<le> 2 ^ 26" using o(2,3) n by linarith
    also have "(2 :: nat) ^ 26 < 2 ^ 63" by simp
    finally have "unat n < 2 ^ 63" .
    then have "int (unat n) < int (2 ^ 63)" by (simp only: of_nat_less_iff)
    then show "uint n < 2 ^ (LENGTH(64) - Suc 0)" by simp
    show "- (2 ^ (LENGTH(64) - Suc 0)) \<le> uint n" by (rule order_trans [OF _ uint_ge_0]) simp
  qed
  then have si: "sint n = int (unat n)" by simp
  have pos: "32 \<le> unat n" if "\<not> sint n < 32" using that unfolding si by linarith
  consider "x \<noteq> 0" "infos H' = infos H"
    | "x = 0" "\<not> sint n < 32" "infos H' = (infos H)(h := (infos H h)\<lparr>heap_size := n, mprotect_size := n\<rparr>)"
    | "x = 0" "\<not> sint n < 32" "infos H' = (infos H)(h := (infos H h)\<lparr>heap_size := n\<rparr>)"
    using r unfolding shrink_heap_def Let_def s_def [symmetric] n_def [symmetric] header_size
    by (auto simp: heap_sys_def Let_def split: if_splits option.splits)
  then show ?thesis
  proof cases
    case 1
    then show ?thesis using ok by simp
  next
    case 2
    then have "32 \<le> unat n" "unat n \<le> 2 ^ 26" using pos n o by simp_all
    then show ?thesis using 2 nk n by (simp add: heap_in_order_def header_size s_def)
  next
    case 3
    then have "32 \<le> unat n" "unat n \<le> unat (mprotect_size (infos H h))" using pos n o by simp_all
    then show ?thesis using 3 nk n o by (simp add: heap_in_order_def header_size s_def word_le_nat_alt)
  qed
qed

lemma shrink_too_much:
  assumes "unat s \<le> 2 ^ 26" "unat diff \<le> 2 ^ 26" "unat s < unat (diff :: u64)"
  shows "sint (s - diff) < 32"
proof -
  define x where "x = uint s - uint diff"
  have "int (unat diff) \<le> int (2 ^ 26)" "int (unat s) < int (unat diff)" using assms(2,3) by (simp_all only: of_nat_le_iff of_nat_less_iff)
  then have "uint diff \<le> 67108864" "uint s < uint diff" by simp_all
  then have x: "- 67108864 \<le> x" "x < 0" using uint_ge_0 [of s] unfolding x_def by linarith+
  then have "(x + 2 ^ 63) mod 2 ^ 64 = x + 2 ^ 63" by (intro mod_pos_pos_trivial) simp_all
  moreover have "s - diff = word_of_int x" by (simp add: x_def)
  ultimately have "sint (s - diff) = x" using int_word_sint [where 'a = 64, of x] by simp
  then show ?thesis using x(2) by simp
qed

lemma shrink_heap_any:
  assumes r: "shrink_heap K b h diff H = (x, H')" and ok: "heap_in_order k (infos H h)" and d: "2 ^ k dvd unat diff" "unat diff \<le> 2 ^ 26"
  shows "heap_in_order k (infos H' h) \<and> (\<forall>a. a \<noteq> h \<longrightarrow> infos H' a = infos H a) \<and>
    uint (heap_size (infos H' h)) = uint (heap_size (infos H h)) - (if x = 0 then uint diff else 0)"
proof (cases "diff \<le> heap_size (infos H h)")
  case True
  then show ?thesis
    using shrink_heap_order [OF r ok d(1) True] unfolding word_le_nat_alt uint_nat by (cases "x = 0") auto
next
  case False
  have "unat (heap_size (infos H h)) \<le> 2 ^ 26" using ok by (auto simp: heap_in_order_def word_le_nat_alt)
  then have "sint (heap_size (infos H h) - diff) < 32" using shrink_too_much d(2) False by (simp add: word_le_nat_alt)
  then have "x = - 1" "H' = H" using r by (simp_all add: shrink_heap_def header_size Let_def)
  then show ?thesis using ok by simp
qed

text \<open>A sequence of calls of \<open>grow_heap\<close> and \<open>shrink_heap\<close> for one heap, with their results.\<close>

datatype resize = Grow u64 | Shrink bool u64

fun resize_by :: "nat \<Rightarrow> resize \<Rightarrow> int" where
  "resize_by k (Grow d) = uint (ALIGN_UP d (2 ^ k))"
| "resize_by k (Shrink b d) = - uint d"

fun resize_fits :: "nat \<Rightarrow> resize \<Rightarrow> bool" where
  "resize_fits k (Grow d) \<longleftrightarrow> unat d \<le> 2 ^ 26"
| "resize_fits k (Shrink b d) \<longleftrightarrow> unat d \<le> 2 ^ 26 \<and> 2 ^ k dvd unat d"

fun resize_heap :: "heap_kernel \<Rightarrow> nat \<Rightarrow> u64 \<Rightarrow> resize \<Rightarrow> heaps \<Rightarrow> int \<times> heaps" where
  "resize_heap K k h (Grow d) H = grow_heap K (2 ^ k) h d H"
| "resize_heap K k h (Shrink b d) H = shrink_heap K b h d H"

fun resize_all :: "heap_kernel \<Rightarrow> nat \<Rightarrow> u64 \<Rightarrow> resize list \<Rightarrow> heaps \<Rightarrow> int list \<times> heaps" where
  "resize_all K k h [] H = ([], H)"
| "resize_all K k h (r # rs) H = (let (x, H) = resize_heap K k h r H; (xs, H) = resize_all K k h rs H in (x # xs, H))"

lemma resize_heap_order:
  assumes "resize_heap K k h r H = (x, H')" "resize_fits k r" "4 \<le> k" "k \<le> 26" "heap_in_order k (infos H h)"
  shows "heap_in_order k (infos H' h) \<and> (\<forall>a. a \<noteq> h \<longrightarrow> infos H' a = infos H a) \<and>
    uint (heap_size (infos H' h)) = uint (heap_size (infos H h)) + (if x = 0 then resize_by k r else 0)"
proof (cases r)
  case (Grow d)
  have "heap_in_order k (infos H' h) \<and> (\<forall>a. a \<noteq> h \<longrightarrow> infos H' a = infos H a) \<and>
    (if x = 0 then unat (heap_size (infos H' h)) = unat (heap_size (infos H h)) + unat (ALIGN_UP d (2 ^ k)) else infos H' = infos H)"
    by (rule grow_heap_order) (use Grow assms in simp_all)
  then show ?thesis unfolding Grow resize_by.simps uint_nat by (cases "x = 0") auto
next
  case (Shrink b d)
  then show ?thesis using shrink_heap_any [of K b h d H x H' k] assms by auto
qed

section \<open>Properties\<close>

text \<open>
  C11: \<open>new_heap\<close> leaks nothing: on every path, also when a mapping is not aligned or \<open>mprotect\<close> fails, either it fails and the
  mapped memory is as before, or the memory that was not mapped before is one area of \<open>HEAP_MAX_SIZE\<close> bytes at an address
  divisible by that size; then the new heap has whole pages, at least the smallest size, and room for the request.
\<close>

theorem new_heap_exact:
  assumes "heap_kernel_ok K mapped" "4 \<le> k" "k \<le> 26" and r: "new_heap K (2 ^ k) sz pad H = (h, H')"
  shows "if h = 0 then mapped (heap_calls H') = mapped (heap_calls H)
    else 2 ^ 26 dvd unat h \<and> mapped (heap_calls H) \<inter> {unat h ..< unat h + 2 ^ 26} = {} \<and>
      mapped (heap_calls H') = mapped (heap_calls H) \<union> {unat h ..< unat h + 2 ^ 26} \<and>
      heap_in_order k (infos H' h) \<and> (\<forall>a. a \<noteq> h \<longrightarrow> infos H' a = infos H a) \<and>
      32 * 1024 \<le> unat (heap_size (infos H' h)) \<and> (unat sz + unat pad < 2 ^ 64 \<longrightarrow> unat sz \<le> unat (heap_size (infos H' h)))"
proof (cases "h = 0")
  case True
  then show ?thesis using new_heap_area [OF assms(1) r] by simp
next
  case False
  obtain s where s: "round_heap (2 ^ k) sz pad = Some s" "infos H' = (infos H)(h := (infos H h)\<lparr>heap_size := s, mprotect_size := s\<rparr>)"
    and a: "area_from mapped H (Some h, H'\<lparr>infos := infos H\<rparr>)"
    using new_heap_area [OF assms(1) r] False by auto
  note b = round_heap_bounds [OF s(1) assms(2,3)]
  have "heap_in_order k (infos H' h)" using b by (simp add: s(2) heap_in_order_def header_size)
  then show ?thesis using False a s(2) b by (simp add: one_area_def heap_area_def)
qed

definition cut_kernel :: heap_kernel where
  "cut_kernel cs =
    (case rev cs of [] \<Rightarrow> None
     | Map_at h s # ds \<Rightarrow> if ds = [] \<and> s \<le> 2 ^ 27 then Some (2 ^ 26 + 4096) else None
     | _ # _ \<Rightarrow> Some 0)"

fun cut_mapped :: "heap_call list \<Rightarrow> nat set" where
  "cut_mapped [] = {}"
| "cut_mapped (Map_at h s # cs) =
    (if cs = [] \<and> s \<le> 2 ^ 27 then {unat (2 ^ 26 + 4096 :: u64) ..< unat (2 ^ 26 + 4096 :: u64) + unat s} else cut_mapped cs)"
| "cut_mapped (Unmap a s # cs) = cut_mapped cs - {unat a ..< unat a + unat s}"
| "cut_mapped (c # cs) = cut_mapped cs"

lemma cut_kernel_ok: "heap_kernel_ok cut_kernel (\<lambda>cs. cut_mapped (rev cs))"
  unfolding heap_kernel_ok_def
proof (intro conjI allI)
  fix cs h and s :: u64
  have "unat (2 ^ 26 + 4096 :: u64) = 2 ^ 26 + 4096" by simp
  moreover have "unat s \<le> 2 ^ 27" if "s \<le> 2 ^ 27" using that by (simp add: word_le_nat_alt)
  ultimately show "cut_kernel (cs @ [Map_at h s]) = None \<and> cut_mapped (rev (cs @ [Map_at h s])) = cut_mapped (rev cs) \<or>
    (\<exists>a. cut_kernel (cs @ [Map_at h s]) = Some a \<and> a \<noteq> 0 \<and> unat a + unat s < 2 ^ 64 \<and>
       cut_mapped (rev cs) \<inter> {unat a ..< unat a + unat s} = {} \<and>
       cut_mapped (rev (cs @ [Map_at h s])) = cut_mapped (rev cs) \<union> {unat a ..< unat a + unat s})"
    by (cases "cs = [] \<and> s \<le> 2 ^ 27") (auto simp: cut_kernel_def)
qed simp_all

theorem new_heap_exact_witness:
  "\<exists>H'. new_heap cut_kernel (2 ^ 12) 100 0 \<lparr>infos = \<lambda>_. \<lparr>ar_ptr = 0, heap_prev = 0, heap_size = 0, mprotect_size = 0\<rparr>,
       aligned_heap_area = 0, arena_mem = 0, heap_calls = []\<rparr> = (2 ^ 27, H') \<and>
     cut_mapped (rev (heap_calls H')) = {2 ^ 27 ..< 2 ^ 27 + 2 ^ 26} \<and> heap_in_order 12 (infos H' (2 ^ 27))"
proof -
  define H where "H = \<lparr>infos = \<lambda>_. \<lparr>ar_ptr = 0, heap_prev = 0, heap_size = 0, mprotect_size = 0\<rparr>,
       aligned_heap_area = 0, arena_mem = 0, heap_calls = []\<rparr>"
  obtain h H' where r: "new_heap cut_kernel (2 ^ 12) 100 0 H = (h, H')" by fastforce
  have h: "h = 2 ^ 27"
    using r by (auto simp: H_def new_heap_def round_heap_def HEAP_MIN_SIZE_def map_kept_def map_aligned_def heap_sys_def cut_kernel_def
        HEAP_MAX_SIZE_def Let_def split: if_splits)
  then show ?thesis using new_heap_exact [OF cut_kernel_ok _ _ r] r by (auto simp: H_def)
qed

text \<open>
  C12: The accessible part of a heap never leaves the heap, whatever amounts up to its size it is made larger or smaller by, and
  whatever the kernel answers: after any sequence of calls of \<open>grow_heap\<close> and \<open>shrink_heap\<close> its size is a number of
  whole pages, at least the header and at most \<open>HEAP_MAX_SIZE\<close>, and it is the first size plus what the calls with the result
  \<open>0\<close> were for; other heaps are as before.
\<close>

theorem heap_sizes_in_order:
  assumes "resize_all K k h rs H = (xs, H')" "\<forall>r \<in> set rs. resize_fits k r" "4 \<le> k" "k \<le> 26" "heap_in_order k (infos H h)"
  shows "heap_in_order k (infos H' h) \<and> (\<forall>a. a \<noteq> h \<longrightarrow> infos H' a = infos H a) \<and> length xs = length rs \<and>
    uint (heap_size (infos H' h)) =
      uint (heap_size (infos H h)) + (\<Sum>(r, x) \<leftarrow> zip rs xs. if x = 0 then resize_by k r else 0)"
  using assms
proof (induction rs arbitrary: H xs)
  case (Cons r rs)
  obtain x B where B: "resize_heap K k h r H = (x, B)" by fastforce
  obtain ys where ys: "resize_all K k h rs B = (ys, H')" "xs = x # ys" using Cons.prems(1) B by (auto simp: Let_def split: prod.splits)
  note o = resize_heap_order [OF B _ Cons.prems(3,4,5)]
  show ?case using Cons.IH [OF ys(1) _ Cons.prems(3,4)] o Cons.prems(2) by (simp add: ys(2))
qed simp

theorem heap_sizes_in_order_witness:
  "\<exists>H'. resize_all (\<lambda>_. Some 0) 12 (2 ^ 27) [Grow 5000, Shrink True 4096, Shrink False 65536]
       \<lparr>infos = \<lambda>_. \<lparr>ar_ptr = 0, heap_prev = 0, heap_size = 8192, mprotect_size = 8192\<rparr>, aligned_heap_area = 0, arena_mem = 0, heap_calls = []\<rparr> =
      ([0, 0, - 1], H') \<and> uint (heap_size (infos H' (2 ^ 27))) = 12288"
proof -
  define H where "H = \<lparr>infos = \<lambda>_. \<lparr>ar_ptr = 0, heap_prev = 0, heap_size = 8192, mprotect_size = 8192\<rparr>,
       aligned_heap_area = 0, arena_mem = 0, heap_calls = []\<rparr>"
  obtain xs H' where r: "resize_all (\<lambda>_. Some 0) 12 (2 ^ 27) [Grow 5000, Shrink True 4096, Shrink False 65536] H = (xs, H')" by fastforce
  have up: "uint (ALIGN_UP 5000 (2 ^ 12 :: u64)) = 8192" by (simp add: ALIGN_UP_def ALIGN_DOWN_def)
  have xs: "xs = [0, 0, - 1]"
    using r by (auto simp: H_def grow_heap_def shrink_heap_def heap_sys_def header_size ALIGN_UP_def ALIGN_DOWN_def HEAP_MAX_SIZE_def Let_def)
  have "heap_in_order 12 (infos H (2 ^ 27))" by (simp add: heap_in_order_def H_def header_size)
  then have "uint (heap_size (infos H' (2 ^ 27))) = 12288"
    using heap_sizes_in_order [OF r] up by (simp add: xs H_def)
  then show ?thesis using r xs by (simp add: H_def)
qed

end
