(* ===== verification/Arenas.thy ===== *)
theory Arenas
  imports Prelude
begin

text \<open>
  The arenas of \<open>arena.c\<close> and the threads that use them. The arenas are numbered, \<open>main_arena\<close> is \<open>0\<close>; of each the fields
  for the administration are kept: its successor in the cyclic list, its index, how many threads are attached, its
  successor in the free list, whether it is corrupt, and its mutex. The sections under \<open>list_lock\<close> are single steps, taken
  by a thread \<open>t\<close>; waiting for the mutex of an arena is not modelled: \<open>LOCK_ARENA\<close> takes it. \<open>None\<close> is a failed assertion,
  and \<open>NULL\<close> a result \<open>None\<close>.
\<close>

section \<open>State\<close>

type_synonym arena_id = nat
type_synonym thread = nat

record arena =
  arena_next :: arena_id
  next_free :: "arena_id option"
  attached_threads :: nat
  index :: u64
  corrupt :: bool
  locked :: bool

record arenas =
  arena_at :: "arena_id \<Rightarrow> arena"
  thread_arena :: "thread \<Rightarrow> arena_id option"
  free_list :: "arena_id option"
  last_arena :: arena_id
  arena_count :: u64
  narenas :: u64
  narenas_limit :: u64
  next_to_use :: "arena_id option"
  arena_max :: u64
  arena_test :: u64

definition main_arena :: arena_id where
  "main_arena = 0"

definition upd_arena :: "(arena \<Rightarrow> arena) \<Rightarrow> arena_id \<Rightarrow> arenas \<Rightarrow> arenas" where
  "upd_arena f a A = A\<lparr>arena_at := (arena_at A)(a := f (arena_at A a))\<rparr>"

definition set_thread_arena :: "thread \<Rightarrow> arena_id option \<Rightarrow> arenas \<Rightarrow> arenas" where
  "set_thread_arena t a A = A\<lparr>thread_arena := (thread_arena A)(t := a)\<rparr>"

definition lock_arena :: "arena_id \<Rightarrow> arenas \<Rightarrow> arenas" where
  "lock_arena = upd_arena (locked_update (\<lambda>_. True))"

definition unlock_arena :: "arena_id \<Rightarrow> arenas \<Rightarrow> arenas" where
  "unlock_arena = upd_arena (locked_update (\<lambda>_. False))"

section \<open>\<open>arena_from_index\<close>\<close>

fun walk_index :: "arenas \<Rightarrow> u64 \<Rightarrow> nat \<Rightarrow> arena_id \<Rightarrow> arena_id" where
  "walk_index A i 0 a = a"
| "walk_index A i (Suc count) a = (if index (arena_at A a) \<noteq> i then walk_index A i count (arena_next (arena_at A a)) else a)"

definition arena_from_index :: "u64 \<Rightarrow> arenas \<Rightarrow> arena_id option" where
  "arena_from_index i A =
    (if i < 2 then Some main_arena
     else do {
       let count = arena_count A;
       assert_c (i \<le> count + 1);
       let a = walk_index A i (unat count) (arena_next (arena_at A main_arena));
       assert_c (index (arena_at A a) = i);
       Some a })"

section \<open>Getting an arena\<close>

definition detach_arena :: "arena_id option \<Rightarrow> arenas \<Rightarrow> arenas option" where
  "detach_arena replaced A =
    (case replaced of
       None \<Rightarrow> Some A
     | Some a \<Rightarrow> do {
         assert_c (attached_threads (arena_at A a) > 0);
         Some (upd_arena (attached_threads_update (\<lambda>n. n - 1)) a A) })"

text \<open>The end of \<open>_int_new_arena\<close>: the new arena \<open>a\<close> goes to the end of the list, and to the thread.\<close>

definition link_arena :: "thread \<Rightarrow> arena_id \<Rightarrow> arenas \<Rightarrow> arenas option" where
  "link_arena t a A = do {
     let A = upd_arena (attached_threads_update (\<lambda>_. 1)) a A;
     let replaced_arena = thread_arena A t;
     let A = set_thread_arena t (Some a) A;
     A \<leftarrow> detach_arena replaced_arena A;
     let A = upd_arena (arena_next_update (\<lambda>_. main_arena)) a A;
     let A = upd_arena (arena_next_update (\<lambda>_. a)) (last_arena A) A;
     let A = A\<lparr>arena_count := arena_count A + 1\<rparr>;
     let A = A\<lparr>last_arena := a\<rparr>;
     let A = upd_arena (index_update (\<lambda>_. arena_count A)) a A;
     Some (lock_arena a A) }"

definition get_free_list :: "thread \<Rightarrow> arenas \<Rightarrow> (arena_id option \<times> arenas) option" where
  "get_free_list t A = do {
     let replaced_arena = thread_arena A t;
     case free_list A of
       None \<Rightarrow> Some (None, A)
     | Some a \<Rightarrow> do {
         let A = A\<lparr>free_list := next_free (arena_at A a)\<rparr>;
         assert_c (attached_threads (arena_at A a) = 0);
         let A = upd_arena (attached_threads_update (\<lambda>_. 1)) a A;
         A \<leftarrow> detach_arena replaced_arena A;
         let A = lock_arena a A;
         Some (Some a, set_thread_arena t (Some a) A) } }"

text \<open>
  The first loop of \<open>reused_arena\<close> looks for an arena whose mutex is free, from \<open>start\<close> on and around the list; the result
  \<open>Inl\<close> is that arena, \<open>Inr\<close> the end of the loop. The second loop skips corrupt arenas and the one to avoid.
\<close>

partial_function (option) find_unlocked :: "arenas \<Rightarrow> arena_id \<Rightarrow> arena_id \<Rightarrow> (arena_id + arena_id) option" where
  "find_unlocked A start r =
    (if \<not> corrupt (arena_at A r) \<and> \<not> locked (arena_at A r) then Some (Inl r)
     else let r = arena_next (arena_at A r) in
       if r \<noteq> start then find_unlocked A start r else Some (Inr r))"

partial_function (option) skip_arenas :: "arenas \<Rightarrow> arena_id option \<Rightarrow> arena_id \<Rightarrow> arena_id \<Rightarrow> arena_id option" where
  "skip_arenas A avoid start r =
    (if corrupt (arena_at A r) \<or> Some r = avoid then
       (let r = arena_next (arena_at A r) in
        if r = start then Some r else skip_arenas A avoid start r)
     else Some r)"

definition take_arena :: "thread \<Rightarrow> arena_id \<Rightarrow> arenas \<Rightarrow> arenas option" where
  "take_arena t r A = do {
     A \<leftarrow> detach_arena (thread_arena A t) A;
     let A = upd_arena (attached_threads_update (\<lambda>n. n + 1)) r A;
     let A = set_thread_arena t (Some r) A;
     Some (A\<lparr>next_to_use := Some (arena_next (arena_at A r))\<rparr>) }"

definition reused_arena :: "thread \<Rightarrow> arena_id option \<Rightarrow> arenas \<Rightarrow> (arena_id option \<times> arenas) option" where
  "reused_arena t avoid A = do {
     let start = (case next_to_use A of None \<Rightarrow> main_arena | Some a \<Rightarrow> a);
     let A = A\<lparr>next_to_use := Some start\<rparr>;
     r \<leftarrow> find_unlocked A start start;
     case r of
       Inl r \<Rightarrow> do {
         A \<leftarrow> take_arena t r (lock_arena r A);
         Some (Some r, A) }
     | Inr r \<Rightarrow> do {
         let r = (if Some r = avoid then arena_next (arena_at A r) else r);
         let begin_ar = r;
         r \<leftarrow> skip_arenas A avoid begin_ar r;
         if r = begin_ar \<or> Some r = avoid then Some (None, A)
         else do {
           A \<leftarrow> take_arena t r (lock_arena r A);
           Some (Some r, A) } } }"

definition NARENAS_FROM_NCORES :: "u64 \<Rightarrow> u64" where
  "NARENAS_FROM_NCORES n = n * 8"

text \<open>\<open>nprocs\<close> is the answer of \<open>__get_nprocs\<close>.\<close>

definition set_limit :: "int \<Rightarrow> arenas \<Rightarrow> arenas" where
  "set_limit nprocs A =
    (if narenas_limit A = 0 then
       (if arena_max A \<noteq> 0 then A\<lparr>narenas_limit := arena_max A\<rparr>
        else if narenas A > arena_test A then
          A\<lparr>narenas_limit := NARENAS_FROM_NCORES (if nprocs \<ge> 1 then word_of_int nprocs else 2)\<rparr>
        else A)
     else A)"

text \<open>
  \<open>arena_get2\<close> after \<open>get_free_list\<close>: \<open>fresh\<close> is the arena that \<open>_int_new_arena\<close> makes, \<open>None\<close> when it cannot. The exchange
  of \<open>narenas\<close> succeeds, since no other thread comes in between.
\<close>

definition new_or_reused :: "int \<Rightarrow> arena_id option \<Rightarrow> thread \<Rightarrow> arena_id option \<Rightarrow> arenas \<Rightarrow> (arena_id option \<times> arenas) option" where
  "new_or_reused nprocs fresh t avoid A = do {
     let A = set_limit nprocs A;
     let n = narenas A;
     if n \<le> narenas_limit A - 1 then do {
       let A = A\<lparr>narenas := n + 1\<rparr>;
       case fresh of
         None \<Rightarrow> Some (None, A\<lparr>narenas := narenas A - 1\<rparr>)
       | Some a \<Rightarrow> do {
           A \<leftarrow> link_arena t a A;
           Some (Some a, A) } }
     else reused_arena t avoid A }"

definition arena_get2 :: "int \<Rightarrow> arena_id option \<Rightarrow> thread \<Rightarrow> arena_id option \<Rightarrow> arenas \<Rightarrow> (arena_id option \<times> arenas) option" where
  "arena_get2 nprocs fresh t avoid A = do {
     (a, A) \<leftarrow> get_free_list t A;
     if a = None then new_or_reused nprocs fresh t avoid A else Some (a, A) }"

definition arena_get :: "int \<Rightarrow> arena_id option \<Rightarrow> thread \<Rightarrow> arenas \<Rightarrow> (arena_id option \<times> arenas) option" where
  "arena_get nprocs fresh t A =
    (case thread_arena A t of
       Some a \<Rightarrow> if \<not> corrupt (arena_at A a) then Some (Some a, lock_arena a A) else arena_get2 nprocs fresh t None A
     | None \<Rightarrow> arena_get2 nprocs fresh t None A)"

definition arena_get_retry :: "int \<Rightarrow> arena_id option \<Rightarrow> thread \<Rightarrow> arena_id \<Rightarrow> arenas \<Rightarrow> (arena_id option \<times> arenas) option" where
  "arena_get_retry nprocs fresh t a A =
    (let A = unlock_arena a A in
     if a \<noteq> main_arena then
       (if corrupt (arena_at A main_arena) then Some (None, A)
        else Some (Some main_arena, lock_arena main_arena A))
     else arena_get2 nprocs fresh t (Some a) A)"

definition arena_thread_freeres :: "thread \<Rightarrow> arenas \<Rightarrow> arenas option" where
  "arena_thread_freeres t A = do {
     let a = thread_arena A t;
     let A = set_thread_arena t None A;
     case a of
       None \<Rightarrow> Some A
     | Some a \<Rightarrow> do {
         assert_c (attached_threads (arena_at A a) > 0);
         let A = upd_arena (attached_threads_update (\<lambda>n. n - 1)) a A;
         Some (if attached_threads (arena_at A a) = 0
               then (upd_arena (next_free_update (\<lambda>_. free_list A)) a A)\<lparr>free_list := Some a\<rparr>
               else A) } }"

end
