(* ===== verification/Arenas_Props.thy ===== *)
theory Arenas_Props
  imports Arenas
begin

text \<open>
  The administration of the arenas: the counts of the attached threads are right, the arenas on the free list have none,
  and the cyclic list holds the arenas in the order of their indices, whatever the threads do, as long as \<open>arena_get2\<close> is
  not interrupted. When it is, an assertion can fail. Also, an arena is never waited for.
\<close>

section \<open>The invariant\<close>

text \<open>The arenas in use are \<open>0\<close> to \<open>n - 1\<close>, in the order of their creation.\<close>

definition users :: "arenas \<Rightarrow> arena_id \<Rightarrow> thread set" where
  "users A a = {t. thread_arena A t = Some a}"

definition free_arenas :: "arenas \<Rightarrow> arena_id list \<Rightarrow> bool" where
  "free_arenas A fs \<longleftrightarrow> chain (\<lambda>a. next_free (arena_at A a)) (free_list A) fs \<and> distinct fs"

definition arenas_ok :: "nat \<Rightarrow> arenas \<Rightarrow> bool" where
  "arenas_ok n A \<longleftrightarrow> 1 \<le> n \<and> n < 2 ^ 64 - 1 \<and> arena_count A = word_of_nat n \<and> last_arena A = n - 1 \<and>
     (\<forall>a < n. arena_next (arena_at A a) = Suc a mod n \<and> index (arena_at A a) = word_of_nat (Suc a) \<and>
        attached_threads (arena_at A a) = card (users A a)) \<and>
     finite (dom (thread_arena A)) \<and> ran (thread_arena A) \<subseteq> {..<n} \<and> set_option (next_to_use A) \<subseteq> {..<n} \<and>
     (\<exists>fs. free_arenas A fs \<and> (\<forall>a \<in> set fs. a < n \<and> users A a = {}))"

lemma arenas_okI:
  assumes "1 \<le> n" "n < 2 ^ 64 - 1" "arena_count A = word_of_nat n" "last_arena A = n - 1"
    "\<And>a. a < n \<Longrightarrow> arena_next (arena_at A a) = Suc a mod n" "\<And>a. a < n \<Longrightarrow> index (arena_at A a) = word_of_nat (Suc a)"
    "\<And>a. a < n \<Longrightarrow> attached_threads (arena_at A a) = card (users A a)"
    "finite (dom (thread_arena A))" "ran (thread_arena A) \<subseteq> {..<n}" "set_option (next_to_use A) \<subseteq> {..<n}"
    "free_arenas A fs" "\<forall>a \<in> set fs. a < n \<and> users A a = {}"
  shows "arenas_ok n A"
  using assms unfolding arenas_ok_def by blast

lemma arenas_okD:
  assumes "arenas_ok n A"
  shows "1 \<le> n" "n < 2 ^ 64 - 1" "arena_count A = word_of_nat n" "last_arena A = n - 1"
    "\<And>a. a < n \<Longrightarrow> arena_next (arena_at A a) = Suc a mod n" "\<And>a. a < n \<Longrightarrow> index (arena_at A a) = word_of_nat (Suc a)"
    "\<And>a. a < n \<Longrightarrow> attached_threads (arena_at A a) = card (users A a)"
    "finite (dom (thread_arena A))" "ran (thread_arena A) \<subseteq> {..<n}" "set_option (next_to_use A) \<subseteq> {..<n}"
  using assms unfolding arenas_ok_def by blast+

lemma arenas_ok_free:
  assumes "arenas_ok n A"
  obtains fs where "free_arenas A fs" "\<forall>a \<in> set fs. a < n \<and> users A a = {}"
  using assms unfolding arenas_ok_def by blast

lemma thread_arena_less: "arenas_ok n A \<Longrightarrow> thread_arena A t = Some a \<Longrightarrow> a < n"
  using arenas_okD(9) [of n A] ranI [of "thread_arena A" t a] by auto

lemma users_finite: "arenas_ok n A \<Longrightarrow> finite (users A a)"
  using arenas_okD(8) [of n A] by (rule finite_subset [rotated]) (auto simp: users_def)

lemma attached_pos:
  assumes "arenas_ok n A" and "thread_arena A t = Some a"
  shows "0 < attached_threads (arena_at A a)"
proof -
  have "t \<in> users A a" using assms(2) by (simp add: users_def)
  then show ?thesis using arenas_okD(7) [OF assms(1) thread_arena_less [OF assms]] users_finite [OF assms(1), of a] by (auto simp: card_gt_0_iff)
qed

section \<open>A thread goes to another arena\<close>

text \<open>The fields that do not matter.\<close>

lemma upd_arena_sel [simp]:
  "arena_at (upd_arena f a A) = (arena_at A)(a := f (arena_at A a))" "thread_arena (upd_arena f a A) = thread_arena A"
  "free_list (upd_arena f a A) = free_list A" "last_arena (upd_arena f a A) = last_arena A" "arena_count (upd_arena f a A) = arena_count A"
  "next_to_use (upd_arena f a A) = next_to_use A" "narenas (upd_arena f a A) = narenas A" "narenas_limit (upd_arena f a A) = narenas_limit A"
  by (simp_all add: upd_arena_def)

lemma set_thread_arena_sel [simp]:
  "arena_at (set_thread_arena t r A) = arena_at A" "thread_arena (set_thread_arena t r A) = (thread_arena A)(t := r)"
  "free_list (set_thread_arena t r A) = free_list A" "last_arena (set_thread_arena t r A) = last_arena A"
  "arena_count (set_thread_arena t r A) = arena_count A" "next_to_use (set_thread_arena t r A) = next_to_use A"
  by (simp_all add: set_thread_arena_def)

text \<open>\<open>B\<close> differs from \<open>A\<close> in what the invariant does not see, except for the counts and the threads.\<close>

definition like :: "arenas \<Rightarrow> arenas \<Rightarrow> bool" where
  "like A B \<longleftrightarrow> arena_count B = arena_count A \<and> last_arena B = last_arena A \<and>
     (\<forall>a. arena_next (arena_at B a) = arena_next (arena_at A a) \<and> index (arena_at B a) = index (arena_at A a) \<and>
        next_free (arena_at B a) = next_free (arena_at A a))"

lemma like_refl [simp]: "like A A"
  by (simp add: like_def)

lemma like_ok:
  assumes ok: "arenas_ok n A" and l: "like A B" and c: "\<And>a. a < n \<Longrightarrow> attached_threads (arena_at B a) = card (users B a)"
    and t: "finite (dom (thread_arena B))" "ran (thread_arena B) \<subseteq> {..<n}" "set_option (next_to_use B) \<subseteq> {..<n}"
    and f: "free_arenas B fs" "\<forall>a \<in> set fs. a < n \<and> users B a = {}"
  shows "arenas_ok n B"
  using arenas_okD [OF ok] l c t f by (intro arenas_okI [of n B fs]) (simp_all add: like_def)

lemma same_ok:
  assumes ok: "arenas_ok n A" and l: "like A B" and "thread_arena B = thread_arena A" "free_list B = free_list A"
    and "\<And>a. attached_threads (arena_at B a) = attached_threads (arena_at A a)" "set_option (next_to_use B) \<subseteq> {..<n}"
  shows "arenas_ok n B"
proof -
  obtain fs where f: "free_arenas A fs" "\<forall>a \<in> set fs. a < n \<and> users A a = {}" by (rule arenas_ok_free [OF ok])
  have u: "users B = users A" using assms(3) by (simp add: users_def fun_eq_iff)
  show ?thesis
    by (rule like_ok [OF ok l]) (use arenas_okD [OF ok] assms f l u in \<open>simp_all add: free_arenas_def like_def\<close>)
qed

lemma detach_some:
  assumes "\<And>a. x = Some a \<Longrightarrow> 0 < attached_threads (arena_at B a)"
  shows "\<exists>C. detach_arena x B = Some C \<and> like B C \<and> thread_arena C = thread_arena B \<and> free_list C = free_list B \<and>
    next_to_use C = next_to_use B \<and>
    (\<forall>a. attached_threads (arena_at C a) = attached_threads (arena_at B a) - (if x = Some a then 1 else 0))"
  using assms by (cases x) (auto simp: detach_arena_def like_def)

lemma detach_run:
  assumes "arenas_ok n A" and "\<And>a. attached_threads (arena_at B a) = attached_threads (arena_at A a) \<or> r = a"
    "attached_threads (arena_at B r) \<ge> attached_threads (arena_at A r)"
  shows "\<exists>C. detach_arena (thread_arena A t) B = Some C \<and> like B C \<and> thread_arena C = thread_arena B \<and> free_list C = free_list B \<and>
    next_to_use C = next_to_use B \<and>
    (\<forall>a. attached_threads (arena_at C a) = attached_threads (arena_at B a) - (if thread_arena A t = Some a then 1 else 0))"
proof (rule detach_some)
  show "0 < attached_threads (arena_at B a)" if "thread_arena A t = Some a" for a
    using attached_pos [OF assms(1) that] assms(2) [of a] assms(3) by auto
qed

lemma card_switch:
  assumes ok: "arenas_ok n A" and c: "\<And>s. thread_arena C s = ((thread_arena A)(t \<mapsto> r)) s"
  shows "card (users C a) = card (users A a) + (if a = r then 1 else 0) - (if thread_arena A t = Some a then 1 else 0)"
proof -
  have fin: "finite (users A a)" using users_finite [OF ok] .
  have u: "users C a = (if a = r then insert t (users A a) else users A a - {t})"
    using c by (auto simp: users_def)
  have m: "t \<in> users A a \<longleftrightarrow> thread_arena A t = Some a" by (simp add: users_def)
  show ?thesis
  proof (cases "a = r")
    case True
    then show ?thesis using u m fin by (auto simp: card_insert_if insert_absorb)
  next
    case False
    then show ?thesis using u m fin by (auto simp: card_Diff_singleton)
  qed
qed

lemma ran_fun_upd_subset: "ran (m(t \<mapsto> r)) \<subseteq> insert r (ran m)"
  by (auto simp: ran_def split: if_splits)

section \<open>The loops of \<open>reused_arena\<close>\<close>

lemma around:
  assumes "0 < n" and "Suc d < n"
  shows "Suc ((s + (n - 1 - Suc d)) mod n) mod n = (s + (n - 1 - d)) mod n"
proof -
  have "Suc (s + (n - 1 - Suc d)) = s + (n - 1 - d)" using assms(2) by simp
  then show ?thesis by (simp only: mod_Suc_eq)
qed

lemma find_unlocked_run:
  assumes ok: "arenas_ok n A" and s: "s < n"
  shows "\<exists>x. find_unlocked A s s = Some x \<and> (case x of Inl r \<Rightarrow> r < n \<and> \<not> locked (arena_at A r) | Inr r \<Rightarrow> r = s)"
proof -
  note D = arenas_okD [OF ok]
  have n: "0 < n" using D(1) by simp
  let ?Q = "\<lambda>x. case x of Inl r \<Rightarrow> r < n \<and> \<not> locked (arena_at A r) | Inr r \<Rightarrow> r = s"
  have "\<exists>x. find_unlocked A s ((s + (n - 1 - d)) mod n) = Some x \<and> ?Q x" if "d < n" for d
    using that
  proof (induction d)
    case 0
    have "Suc ((s + (n - 1)) mod n) mod n = s" using s n by (simp add: mod_Suc_eq)
    moreover have "(s + (n - 1)) mod n < n" using n by simp
    ultimately show ?case using D(5) by (subst find_unlocked.simps) (simp add: Let_def)
  next
    case (Suc d)
    define r where "r = (s + (n - 1 - Suc d)) mod n"
    define q where "q = (s + (n - 1 - d)) mod n"
    have r: "r < n" using n by (simp add: r_def)
    obtain x where x: "find_unlocked A s q = Some x" "?Q x" using Suc unfolding q_def by auto
    have nx: "arena_next (arena_at A r) = q" using D(5) [OF r] around [OF n Suc.prems, of s] by (simp only: r_def q_def)
    show ?case unfolding r_def [symmetric] using x r by (subst find_unlocked.simps) (simp add: Let_def nx)
  qed
  from this [of "n - 1"] show ?thesis using n s by simp
qed

lemma skip_arenas_run:
  assumes ok: "arenas_ok n A" and s: "s < n"
  shows "\<exists>r < n. skip_arenas A avoid s s = Some r"
proof -
  note D = arenas_okD [OF ok]
  have n: "0 < n" using D(1) by simp
  have "\<exists>r < n. skip_arenas A avoid s ((s + (n - 1 - d)) mod n) = Some r" if "d < n" for d
    using that
  proof (induction d)
    case 0
    have "Suc ((s + (n - 1)) mod n) mod n = s" using s n by (simp add: mod_Suc_eq)
    moreover have "(s + (n - 1)) mod n < n" using n by simp
    ultimately show ?case using D(5) s by (subst skip_arenas.simps) (simp add: Let_def)
  next
    case (Suc d)
    define r where "r = (s + (n - 1 - Suc d)) mod n"
    define q where "q = (s + (n - 1 - d)) mod n"
    have r: "r < n" using n by (simp add: r_def)
    obtain x where x: "x < n" "skip_arenas A avoid s q = Some x" using Suc unfolding q_def by auto
    have nx: "arena_next (arena_at A r) = q" using D(5) [OF r] around [OF n Suc.prems, of s] by (simp only: r_def q_def)
    show ?case unfolding r_def [symmetric] using x r s by (subst skip_arenas.simps) (simp add: Let_def nx)
  qed
  from this [of "n - 1"] show ?thesis using n s by simp
qed

section \<open>The steps keep the invariant\<close>

lemma lock_like [simp]:
  "like A (lock_arena r B) = like A B" "like A (unlock_arena r B) = like A B" "thread_arena (lock_arena r B) = thread_arena B"
  "thread_arena (unlock_arena r B) = thread_arena B" "free_list (lock_arena r B) = free_list B" "free_list (unlock_arena r B) = free_list B"
  "next_to_use (lock_arena r B) = next_to_use B" "next_to_use (unlock_arena r B) = next_to_use B"
  "attached_threads (arena_at (lock_arena r B) a) = attached_threads (arena_at B a)"
  "attached_threads (arena_at (unlock_arena r B) a) = attached_threads (arena_at B a)"
  "narenas (lock_arena r B) = narenas B"
  by (auto simp: like_def lock_arena_def unlock_arena_def)

lemma take_arena_ok:
  assumes ok: "arenas_ok n A" and l: "like A B" "thread_arena B = thread_arena A" "free_list B = None"
    "\<And>a. attached_threads (arena_at B a) = attached_threads (arena_at A a)" and r: "r < n"
  shows "\<exists>C. take_arena t r B = Some C \<and> arenas_ok n C"
proof -
  obtain B1 where b: "detach_arena (thread_arena A t) B = Some B1" "like B B1" "thread_arena B1 = thread_arena B" "free_list B1 = free_list B"
    "\<forall>a. attached_threads (arena_at B1 a) = attached_threads (arena_at B a) - (if thread_arena A t = Some a then 1 else 0)"
    using detach_run [OF ok, of B r t] l(4) by auto
  let ?C = "(set_thread_arena t (Some r) (upd_arena (attached_threads_update (\<lambda>n. n + 1)) r B1))"
  define C where "C = ?C\<lparr>next_to_use := Some (arena_next (arena_at ?C r))\<rparr>"
  have run: "take_arena t r B = Some C" using b(1) l(2) by (simp add: take_arena_def Let_def C_def)
  have th: "thread_arena C = (thread_arena A)(t \<mapsto> r)" using b(3) l(2) by (simp add: C_def)
  have "arenas_ok n C"
  proof (rule like_ok [OF ok, where fs = "[]"])
    show "like A C" using l(1) b(2) by (auto simp: like_def C_def)
    show "attached_threads (arena_at C a) = card (users C a)" if "a < n" for a
    proof -
      have 1: "thread_arena A t = Some a \<Longrightarrow> 0 < card (users A a)" using attached_pos [OF ok, of t a] arenas_okD(7) [OF ok that] by simp
      have "attached_threads (arena_at C a) = card (users A a) - (if thread_arena A t = Some a then 1 else 0) + (if a = r then 1 else 0)"
        using b(5) l(4) [of a] arenas_okD(7) [OF ok that] by (auto simp: C_def)
      then show ?thesis using card_switch [OF ok, of C t r a] 1 unfolding th by auto
    qed
    show "finite (dom (thread_arena C))" using arenas_okD(8) [OF ok] by (simp add: th)
    show "ran (thread_arena C) \<subseteq> {..<n}" using arenas_okD(9) [OF ok] r ran_fun_upd_subset [of "thread_arena A" t r] by (auto simp: th)
    show "set_option (next_to_use C) \<subseteq> {..<n}"
    proof -
      have "arena_next (arena_at C r) = Suc r mod n" using l(1) b(2) arenas_okD(5) [OF ok r] by (simp add: like_def C_def)
      then show ?thesis using arenas_okD(1) [OF ok] by (simp add: C_def)
    qed
    show "free_arenas C []" using b(4) l(3) by (simp add: free_arenas_def C_def)
  qed simp
  then show ?thesis using run by blast
qed

lemma reused_arena_ok:
  assumes ok: "arenas_ok n A" and f: "free_list A = None"
  shows "\<exists>r C. reused_arena t avoid A = Some (r, C) \<and> arenas_ok n C"
proof -
  define start where "start = (case next_to_use A of None \<Rightarrow> main_arena | Some a \<Rightarrow> a)"
  have s: "start < n" using arenas_okD(1,10) [OF ok] by (auto simp: start_def main_arena_def split: option.split)
  define B where "B = A\<lparr>next_to_use := Some start\<rparr>"
  have l: "like A B" "thread_arena B = thread_arena A" "free_list B = None" "\<And>a. attached_threads (arena_at B a) = attached_threads (arena_at A a)"
    using f by (simp_all add: B_def like_def)
  have okB: "arenas_ok n B" by (rule same_ok [OF ok l(1)]) (use l f s in \<open>simp_all add: B_def\<close>)
  obtain x where x: "find_unlocked B start start = Some x" "case x of Inl r \<Rightarrow> r < n \<and> \<not> locked (arena_at B r) | Inr r \<Rightarrow> r = start"
    using find_unlocked_run [OF okB s] by blast
  have take: "\<exists>C. take_arena t r (lock_arena r B) = Some C \<and> arenas_ok n C" if "r < n" for r
    by (rule take_arena_ok [OF ok _ _ _ _ that]) (use l in simp_all)
  show ?thesis
  proof (cases x)
    case (Inl r)
    then obtain C where "take_arena t r (lock_arena r B) = Some C" "arenas_ok n C" using take [of r] x(2) by auto
    then show ?thesis using x(1) Inl by (simp add: reused_arena_def Let_def start_def [symmetric] B_def [symmetric])
  next
    case (Inr r)
    define b where "b = (if Some r = avoid then arena_next (arena_at B r) else r)"
    have "arena_next (arena_at B r) < n" using arenas_okD(1,5) [OF okB] s x(2) Inr by simp
    then have b: "b < n" using s x(2) Inr by (simp add: b_def)
    obtain q where q: "q < n" "skip_arenas B avoid b b = Some q" using skip_arenas_run [OF okB b] by blast
    obtain C where "take_arena t q (lock_arena q B) = Some C" "arenas_ok n C" using take [OF q(1)] by blast
    then have "(if q = b \<or> Some q = avoid then Some (None, B) else take_arena t q (lock_arena q B) \<bind> (\<lambda>A. Some (Some q, A))) =
        Some (if q = b \<or> Some q = avoid then (None, B) else (Some q, C))" by simp
    moreover have "reused_arena t avoid A =
        (if q = b \<or> Some q = avoid then Some (None, B) else take_arena t q (lock_arena q B) \<bind> (\<lambda>A. Some (Some q, A)))"
      unfolding reused_arena_def Let_def start_def [symmetric] B_def [symmetric] x(1) Inr bind.bind_lunit sum.case b_def [symmetric] q(2) ..
    ultimately show ?thesis using okB \<open>arenas_ok n C\<close> by auto
  qed
qed

lemma get_free_list_ok:
  assumes ok: "arenas_ok n A"
  shows "\<exists>r C. get_free_list t A = Some (r, C) \<and> arenas_ok n C \<and> (r = None \<longrightarrow> C = A \<and> free_list A = None)"
proof (cases "free_list A")
  case None
  then show ?thesis using ok by (simp add: get_free_list_def)
next
  case (Some r)
  obtain fs where fs: "free_arenas A fs" "\<forall>a \<in> set fs. a < n \<and> users A a = {}" by (rule arenas_ok_free [OF ok])
  obtain gs where gs: "fs = r # gs" "chain (\<lambda>a. next_free (arena_at A a)) (next_free (arena_at A r)) gs" "distinct gs" "r \<notin> set gs"
    using fs(1) Some by (auto simp: free_arenas_def chain_Some)
  have r: "r < n" "users A r = {}" "attached_threads (arena_at A r) = 0" using fs(2) gs(1) arenas_okD(7) [OF ok, of r] by auto
  then have old: "thread_arena A t \<noteq> Some r" by (auto simp: users_def)
  define B where "B = upd_arena (attached_threads_update (\<lambda>_. 1)) r (A\<lparr>free_list := next_free (arena_at A r)\<rparr>)"
  obtain B1 where b: "detach_arena (thread_arena A t) B = Some B1" "like B B1" "thread_arena B1 = thread_arena B" "free_list B1 = free_list B"
    "next_to_use B1 = next_to_use B"
    "\<forall>a. attached_threads (arena_at B1 a) = attached_threads (arena_at B a) - (if thread_arena A t = Some a then 1 else 0)"
  proof -
    have "attached_threads (arena_at B a) = attached_threads (arena_at A a) \<or> r = a" for a by (simp add: B_def)
    from detach_run [OF ok this, of t] show thesis using r(3) that by (auto simp: B_def)
  qed
  define C where "C = set_thread_arena t (Some r) (lock_arena r B1)"
  have run: "get_free_list t A = Some (Some r, C)"
    using b(1) Some r(3) by (simp add: get_free_list_def Let_def B_def C_def)
  have th: "thread_arena C = (thread_arena A)(t \<mapsto> r)" using b(3) by (simp add: C_def B_def)
  have u: "users C a = (if a = r then {t} else users A a - {t})" for a using r(2) by (auto simp: users_def th)
  have lAB: "like A B" by (simp add: like_def B_def)
  have "arenas_ok n C"
  proof (rule like_ok [OF ok, where fs = gs])
    show lC: "like A C" using lAB b(2) by (auto simp: like_def C_def lock_arena_def)
    show "attached_threads (arena_at C a) = card (users C a)" if "a < n" for a
    proof -
      have "attached_threads (arena_at C a) = (if a = r then 1 else card (users A a)) - (if thread_arena A t = Some a then 1 else 0)"
        using b(6) arenas_okD(7) [OF ok that] by (auto simp: C_def B_def)
      then show ?thesis using card_switch [OF ok, of C t r a] r(2) old unfolding th by auto
    qed
    show "finite (dom (thread_arena C))" using arenas_okD(8) [OF ok] by (simp add: th)
    show "ran (thread_arena C) \<subseteq> {..<n}" using arenas_okD(9) [OF ok] r ran_fun_upd_subset [of "thread_arena A" t r] by (auto simp: th)
    show "set_option (next_to_use C) \<subseteq> {..<n}" using arenas_okD(10) [OF ok] b(5) by (simp add: C_def B_def)
    have "free_list C = next_free (arena_at A r)" using b(4) by (simp add: C_def B_def)
    then show "free_arenas C gs" using gs lC by (simp add: free_arenas_def like_def)
    show "\<forall>a \<in> set gs. a < n \<and> users C a = {}" using fs(2) gs(1,4) by (auto simp: u)
  qed
  then show ?thesis using run by simp
qed

lemma link_arena_ok:
  assumes ok: "arenas_ok n A" and n: "n < 2 ^ 64 - 2"
  shows "\<exists>C. link_arena t n A = Some C \<and> arenas_ok (Suc n) C"
proof -
  note D = arenas_okD [OF ok]
  obtain fs where fs: "free_arenas A fs" "\<forall>a \<in> set fs. a < n \<and> users A a = {}" by (rule arenas_ok_free [OF ok])
  have un: "users A n = {}" using thread_arena_less [OF ok] by (auto simp: users_def)
  then have old: "thread_arena A t \<noteq> Some n" by (auto simp: users_def)
  define B where "B = set_thread_arena t (Some n) (upd_arena (attached_threads_update (\<lambda>_. 1)) n A)"
  have att: "attached_threads (arena_at B a) = (if a = n then 1 else attached_threads (arena_at A a))" for a by (simp add: B_def)
  have thB: "thread_arena B = (thread_arena A)(t \<mapsto> n)" by (simp add: B_def)
  obtain B1 where b: "detach_arena (thread_arena A t) B = Some B1" "like B B1" "thread_arena B1 = thread_arena B" "free_list B1 = free_list B"
    "next_to_use B1 = next_to_use B"
    "\<forall>a. attached_threads (arena_at B1 a) = attached_threads (arena_at B a) - (if thread_arena A t = Some a then 1 else 0)"
  proof -
    have "0 < attached_threads (arena_at B a)" if "thread_arena A t = Some a" for a
      using attached_pos [OF ok that] by (simp add: att)
    from detach_some [OF this] show thesis using that by auto
  qed
  define C where "C = lock_arena n (upd_arena (index_update (\<lambda>_. arena_count A + 1)) n
     ((upd_arena (arena_next_update (\<lambda>_. n)) (n - 1) (upd_arena (arena_next_update (\<lambda>_. main_arena)) n B1))
       \<lparr>arena_count := arena_count A + 1, last_arena := n\<rparr>))"
  have lB: "arena_count B1 = arena_count A" "last_arena B1 = n - 1" using b(2) D(4) by (simp_all add: like_def B_def)
  have run: "link_arena t n A = Some C"
    using b(1) lB by (simp add: link_arena_def Let_def B_def C_def)
  have th: "thread_arena C = (thread_arena A)(t \<mapsto> n)" using b(3) by (simp add: C_def thB)
  have u: "users C a = (if a = n then {t} else users A a - {t})" for a using un by (auto simp: users_def th)
  have nx: "arena_next (arena_at C a) = (if a = n then main_arena else if a = n - 1 then n else arena_next (arena_at A a))" if "a < Suc n" for a
    using b(2) D(1) by (auto simp: C_def lock_arena_def like_def B_def)
  have ix: "index (arena_at C a) = (if a = n then arena_count A + 1 else index (arena_at A a))" for a
    using b(2) by (auto simp: C_def lock_arena_def like_def B_def)
  have ac: "attached_threads (arena_at C a) = attached_threads (arena_at B1 a)" for a by (simp add: C_def)
  have nf: "next_free (arena_at C a) = next_free (arena_at A a)" for a using b(2) by (auto simp: C_def lock_arena_def like_def B_def)
  have "arenas_ok (Suc n) C"
  proof (rule arenas_okI [where fs = fs])
    show "arena_count C = word_of_nat (Suc n)" using D(3) by (simp add: C_def lock_arena_def)
    show "last_arena C = Suc n - 1" by (simp add: C_def lock_arena_def)
    show "arena_next (arena_at C a) = Suc a mod Suc n" if "a < Suc n" for a
      using that D(1,5) by (auto simp: nx main_arena_def mod_if)
    show "index (arena_at C a) = word_of_nat (Suc a)" if "a < Suc n" for a
      using that D(3,6) by (auto simp: ix)
    show "attached_threads (arena_at C a) = card (users C a)" if "a < Suc n" for a
    proof (cases "a = n")
      case True
      then show ?thesis using b(6) att old by (simp add: ac u)
    next
      case False
      then have "a < n" using that by simp
      then show ?thesis using b(6) att False D(7) card_switch [OF ok, of C t n a] by (auto simp: ac th)
    qed
    show "finite (dom (thread_arena C))" using D(8) by (simp add: th)
    show "ran (thread_arena C) \<subseteq> {..<Suc n}" using D(9) ran_fun_upd_subset [of "thread_arena A" t n] by (auto simp: th)
    show "set_option (next_to_use C) \<subseteq> {..<Suc n}" using D(10) b(5) by (auto simp: C_def B_def)
    show "free_arenas C fs" using fs b(4) by (simp add: free_arenas_def nf) (simp add: C_def B_def)
    show "\<forall>a \<in> set fs. a < Suc n \<and> users C a = {}" using fs(2) by (auto simp: u)
  qed (use n in simp_all)
  then show ?thesis using run by blast
qed

lemma exit_ok:
  assumes ok: "arenas_ok n A"
  shows "\<exists>C. arena_thread_freeres t A = Some C \<and> arenas_ok n C"
proof (cases "thread_arena A t")
  case None
  then have "(thread_arena A)(t := None) = thread_arena A" by auto
  then have "set_thread_arena t None A = A" by (simp add: set_thread_arena_def)
  then show ?thesis using None ok by (simp add: arena_thread_freeres_def)
next
  case (Some r)
  obtain fs where fs: "free_arenas A fs" "\<forall>a \<in> set fs. a < n \<and> users A a = {}" by (rule arenas_ok_free [OF ok])
  have r: "r < n" "t \<in> users A r" using thread_arena_less [OF ok Some] Some by (simp_all add: users_def)
  then have new: "r \<notin> set fs" using fs(2) by auto
  have pos: "0 < attached_threads (arena_at A r)" by (rule attached_pos [OF ok Some])
  define B where "B = upd_arena (attached_threads_update (\<lambda>n. n - 1)) r (set_thread_arena t None A)"
  define C where "C = (if attached_threads (arena_at B r) = 0
    then (upd_arena (next_free_update (\<lambda>_. free_list B)) r B)\<lparr>free_list := Some r\<rparr> else B)"
  have run: "arena_thread_freeres t A = Some C"
    using Some pos unfolding C_def B_def by (simp add: arena_thread_freeres_def Let_def)
  have u: "users C a = users A a - {t}" for a by (auto simp: C_def B_def users_def)
  have at: "attached_threads (arena_at C a) = card (users C a)" if "a < n" for a
  proof -
    have "card (users A a - {t}) = card (users A a) - (if a = r then 1 else 0)"
      using r(2) Some by (cases "a = r") (simp_all add: card_Diff_singleton users_def)
    then show ?thesis using arenas_okD(7) [OF ok that] by (auto simp: u) (auto simp: C_def B_def)
  qed
  have "arenas_ok n C"
  proof (rule arenas_okI [where fs = "if attached_threads (arena_at B r) = 0 then r # fs else fs"])
    show "free_arenas C (if attached_threads (arena_at B r) = 0 then r # fs else fs)"
    proof -
      have "chain (\<lambda>a. next_free (arena_at C a)) (free_list A) fs"
      proof (rule iffD1 [OF path_cong])
        show "next_free (arena_at A a) = next_free (arena_at C a)" if "a \<in> set fs" for a
          using that new by (auto simp: C_def B_def)
      qed (use fs(1) in \<open>simp add: free_arenas_def\<close>)
      moreover have "attached_threads (arena_at B r) = 0 \<Longrightarrow> free_list C = Some r \<and> next_free (arena_at C r) = free_list A"
        "attached_threads (arena_at B r) \<noteq> 0 \<Longrightarrow> free_list C = free_list A"
        by (simp_all add: C_def B_def)
      ultimately show ?thesis using fs(1) new by (auto simp: free_arenas_def)
    qed
    have "users C r = {}" if "attached_threads (arena_at B r) = 0"
    proof -
      have "attached_threads (arena_at C r) = 0" using that by (simp add: C_def)
      moreover have "finite (users C r)" using users_finite [OF ok, of r] by (simp add: u)
      ultimately show ?thesis using at [OF r(1)] by simp
    qed
    then show "\<forall>a \<in> set (if attached_threads (arena_at B r) = 0 then r # fs else fs). a < n \<and> users C a = {}"
      using fs(2) r(1) by (auto simp: u)
    show "ran (thread_arena C) \<subseteq> {..<n}" using arenas_okD(9) [OF ok] by (auto simp: C_def B_def ran_def split: if_splits)
  qed (use arenas_okD [OF ok] at in \<open>auto simp: C_def B_def\<close>)
  then show ?thesis using run by blast
qed

lemma lock_ok:
  assumes "arenas_ok n A"
  shows "arenas_ok n (lock_arena a A)" "arenas_ok n (unlock_arena a A)"
  using arenas_okD(10) [OF assms] by (auto intro: same_ok [OF assms])

lemma set_limit_ok: "arenas_ok n A \<Longrightarrow> arenas_ok n (set_limit p A)"
  by (rule same_ok [of n A]) (use arenas_okD(10) in \<open>auto simp: set_limit_def like_def\<close>)

lemma narenas_ok: "arenas_ok n A \<Longrightarrow> arenas_ok n (A\<lparr>narenas := m\<rparr>)"
  by (rule same_ok [of n A]) (use arenas_okD(10) in \<open>auto simp: like_def\<close>)

text \<open>A step makes at most one new arena, which is then the last one.\<close>

definition arenas_step :: "nat \<Rightarrow> arenas \<Rightarrow> bool" where
  "arenas_step n C \<longleftrightarrow> arenas_ok n C \<or> arenas_ok (Suc n) C"

lemma new_or_reused_ok:
  assumes ok: "arenas_ok n A" and n: "n < 2 ^ 64 - 2" and f: "free_list A = None" and fresh: "fresh = None \<or> fresh = Some n"
  shows "\<exists>r C. new_or_reused p fresh t avoid A = Some (r, C) \<and> arenas_step n C"
proof -
  define B where "B = set_limit p A"
  have B: "arenas_ok n B" "free_list B = None" using set_limit_ok [OF ok] f by (auto simp: B_def set_limit_def)
  obtain C where C: "link_arena t n (B\<lparr>narenas := narenas B + 1\<rparr>) = Some C" "arenas_ok (Suc n) C"
    using link_arena_ok [OF narenas_ok [OF B(1)] n] by blast
  obtain r D where D: "reused_arena t avoid B = Some (r, D)" "arenas_ok n D" using reused_arena_ok [OF B] by blast
  show ?thesis
    using fresh C D narenas_ok [OF B(1)] B(1)
    by (auto simp: new_or_reused_def Let_def B_def [symmetric] arenas_step_def)
qed

lemma arena_get2_ok:
  assumes ok: "arenas_ok n A" and n: "n < 2 ^ 64 - 2" and fresh: "fresh = None \<or> fresh = Some n"
  shows "\<exists>r C. arena_get2 p fresh t avoid A = Some (r, C) \<and> arenas_step n C"
proof -
  obtain r C where g: "get_free_list t A = Some (r, C)" "arenas_ok n C" "r = None \<longrightarrow> C = A \<and> free_list A = None"
    using get_free_list_ok [OF ok] by blast
  show ?thesis
    using g new_or_reused_ok [OF ok n _ fresh, of p t avoid] by (cases r) (auto simp: arena_get2_def arenas_step_def)
qed

section \<open>What the threads do\<close>

text \<open>
  \<open>Get t made\<close> is the beginning of a request of the thread \<open>t\<close> (\<open>made\<close>: a new arena can be made when it is needed),
  \<open>Retry t a made\<close> its second attempt after the arena \<open>a\<close> failed, \<open>Unlock a\<close> the end of a request, \<open>Corrupt a\<close> what
  \<open>malloc_printerr\<close> does to the arena, and \<open>Exit t\<close> the end of the thread.
\<close>

datatype arena_event = Get thread bool | Retry thread arena_id bool | Unlock arena_id | Corrupt arena_id | Exit thread

definition next_arena :: "bool \<Rightarrow> arenas \<Rightarrow> arena_id option" where
  "next_arena made A = (if made then Some (unat (arena_count A)) else None)"

fun event_step :: "int \<Rightarrow> arena_event \<Rightarrow> arenas \<Rightarrow> (arena_id option \<times> arenas) option" where
  "event_step p (Get t made) A = arena_get p (next_arena made A) t A"
| "event_step p (Retry t a made) A = arena_get_retry p (next_arena made A) t a A"
| "event_step p (Unlock a) A = Some (None, unlock_arena a A)"
| "event_step p (Corrupt a) A = Some (None, upd_arena (corrupt_update (\<lambda>_. True)) a A)"
| "event_step p (Exit t) A = do { A \<leftarrow> arena_thread_freeres t A; Some (None, A) }"

fun event_steps :: "int \<Rightarrow> arena_event list \<Rightarrow> arenas \<Rightarrow> arenas option" where
  "event_steps p [] A = Some A"
| "event_steps p (e # es) A = do { (r, A) \<leftarrow> event_step p e A; event_steps p es A }"

lemma event_step_ok:
  assumes ok: "arenas_ok n A" and n: "n < 2 ^ 64 - 2"
  shows "\<exists>r C. event_step p e A = Some (r, C) \<and> arenas_step n C"
proof -
  have c: "unat (arena_count A) = n"
    using arenas_okD(3) [OF ok] n by (simp add: unat_of_nat)
  then have fresh: "next_arena made A = None \<or> next_arena made A = Some n" for made by (simp add: next_arena_def)
  note g = arena_get2_ok [OF ok n fresh]
  show ?thesis
  proof (cases e)
    case (Get t made)
    then show ?thesis
      using g [where p = p and t = t and avoid = None] lock_ok [OF ok]
      by (auto simp: arena_get_def arenas_step_def split: option.split)
  next
    case (Retry t a made)
    then show ?thesis
      using arena_get2_ok [OF lock_ok(2) [OF ok] n fresh, where p = p and t = t and avoid = "Some a"] lock_ok [OF lock_ok(2) [OF ok]] lock_ok [OF ok]
      by (auto simp: arena_get_retry_def arenas_step_def Let_def)
  next
    case (Unlock a)
    then show ?thesis using lock_ok [OF ok] by (simp add: arenas_step_def)
  next
    case (Corrupt a)
    have "arenas_ok n (upd_arena (corrupt_update (\<lambda>_. True)) a A)"
      by (rule same_ok [OF ok]) (use arenas_okD(10) [OF ok] in \<open>auto simp: like_def\<close>)
    then show ?thesis using Corrupt by (simp add: arenas_step_def)
  next
    case (Exit t)
    then show ?thesis using exit_ok [OF ok, of t] by (auto simp: arenas_step_def)
  qed
qed

lemma arenas_stepD: "arenas_step n C \<Longrightarrow> \<exists>m. arenas_ok m C \<and> n \<le> m \<and> m \<le> Suc n"
  by (auto simp: arenas_step_def)

lemma event_steps_ok:
  assumes "arenas_ok n A" and "n + length es < 2 ^ 64 - 1"
  shows "\<exists>m C. event_steps p es A = Some C \<and> arenas_ok m C \<and> n \<le> m \<and> m \<le> n + length es"
  using assms
proof (induction es arbitrary: n A)
  case (Cons e es)
  obtain r B where B: "event_step p e A = Some (r, B)" "arenas_step n B"
    using event_step_ok [OF Cons.prems(1), of p e] Cons.prems(2) by auto
  obtain k where k: "arenas_ok k B" "n \<le> k" "k \<le> Suc n" using arenas_stepD [OF B(2)] by blast
  then obtain m C where "event_steps p es B = Some C" "arenas_ok m C" "k \<le> m" "m \<le> k + length es"
    using Cons.IH [OF k(1)] Cons.prems(2) by auto
  then show ?case using B(1) k by (auto intro!: exI [of _ m])
qed auto

text \<open>\<open>ptmalloc_init\<close>: one arena, of the first thread, with the parameters of \<open>mp_\<close>.\<close>

definition first_arenas :: "u64 \<Rightarrow> u64 \<Rightarrow> arenas" where
  "first_arenas amax test =
    \<lparr>arena_at = \<lambda>_. \<lparr>arena_next = main_arena, next_free = None, attached_threads = 1, index = 1, corrupt = False, locked = False\<rparr>,
     thread_arena = [0 \<mapsto> main_arena], free_list = None, last_arena = main_arena, arena_count = 1, narenas = 1, narenas_limit = 0,
     next_to_use = None, arena_max = amax, arena_test = test\<rparr>"

lemma first_arenas_ok: "arenas_ok 1 (first_arenas amax test)"
proof (rule arenas_okI [where fs = "[]"])
  have "users (first_arenas amax test) 0 = {0}" by (auto simp: users_def first_arenas_def main_arena_def split: if_splits)
  then show "attached_threads (arena_at (first_arenas amax test) a) = card (users (first_arenas amax test) a)" if "a < 1" for a
    using that by (simp add: first_arenas_def)
qed (auto simp: first_arenas_def main_arena_def free_arenas_def)

section \<open>Properties\<close>

text \<open>
  C13: Whatever the threads do, starting from the only arena after \<open>ptmalloc_init\<close>: as long as every call of \<open>arena_get2\<close>
  is a single step, no assertion about the attached threads fails, all loops over the arenas end, and afterwards
  the arena \<open>a\<close> has index \<open>a + 1\<close> and precedes the arena \<open>a + 1\<close> in the cyclic list, the count of an
  arena is the number of threads that use it, and the free list holds arenas of no thread, each once.
\<close>

theorem threads_keep_arenas:
  assumes "length es < 2 ^ 64 - 2"
  shows "\<exists>n C fs. event_steps p es (first_arenas amax test) = Some C \<and> 1 \<le> n \<and> n \<le> Suc (length es) \<and>
    unat (arena_count C) = n \<and>
    (\<forall>a < n. arena_next (arena_at C a) = Suc a mod n \<and> unat (index (arena_at C a)) = Suc a \<and>
       attached_threads (arena_at C a) = card {t. thread_arena C t = Some a}) \<and>
    chain (\<lambda>a. next_free (arena_at C a)) (free_list C) fs \<and> distinct fs \<and>
    (\<forall>a \<in> set fs. a < n \<and> (\<forall>t. thread_arena C t \<noteq> Some a))"
proof -
  obtain n C where C: "event_steps p es (first_arenas amax test) = Some C" "arenas_ok n C" "1 \<le> n" "n \<le> Suc (length es)"
    using event_steps_ok [OF first_arenas_ok, of es p amax test] assms by auto
  obtain fs where fs: "free_arenas C fs" "\<forall>a \<in> set fs. a < n \<and> users C a = {}" by (rule arenas_ok_free [OF C(2)])
  note D = arenas_okD [OF C(2)]
  have "unat (arena_count C) = n" using D(2,3) by (simp add: unat_of_nat)
  moreover have "arena_next (arena_at C a) = Suc a mod n \<and> unat (index (arena_at C a)) = Suc a \<and>
       attached_threads (arena_at C a) = card {t. thread_arena C t = Some a}" if "a < n" for a
    using D(2) D(5-7) [OF that] that by (simp add: unat_of_nat users_def del: of_nat_Suc)
  ultimately show ?thesis
    using C fs by (intro exI [of _ n] exI [of _ C] exI [of _ fs]) (auto simp: free_arenas_def users_def)
qed

theorem threads_keep_arenas_witness:
  "\<exists>n C fs. event_steps 1 [Get 1 True, Exit 1] (first_arenas 2 8) = Some C \<and> 1 \<le> n \<and> n \<le> 3 \<and> unat (arena_count C) = n \<and>
    (\<forall>a < n. arena_next (arena_at C a) = Suc a mod n \<and> unat (index (arena_at C a)) = Suc a \<and>
       attached_threads (arena_at C a) = card {t. thread_arena C t = Some a}) \<and>
    chain (\<lambda>a. next_free (arena_at C a)) (free_list C) fs \<and> distinct fs \<and>
    (\<forall>a \<in> set fs. a < n \<and> (\<forall>t. thread_arena C t \<noteq> Some a))"
  using threads_keep_arenas [of "[Get 1 True, Exit 1]" 1 2 8] by (simp add: numeral_3_eq_3)

text \<open>\<open>arena_from_index\<close> runs through the list at most once.\<close>

lemma walk_index_found:
  assumes ok: "arenas_ok n A" and i: "i = word_of_nat (Suc b)" "b < n" and a: "a \<le> b" "b - a \<le> c"
  shows "walk_index A i c a = b"
  using a
proof (induction c arbitrary: a)
  case (Suc c)
  have ix: "unat (index (arena_at A a)) = Suc a" "unat i = Suc b"
    using arenas_okD(2,6) [OF ok] Suc.prems i by (simp_all add: unat_of_nat del: of_nat_Suc)
  show ?case
  proof (cases "a = b")
    case True
    then show ?thesis using ix arenas_okD(6) [OF ok] i by simp
  next
    case False
    then have "index (arena_at A a) \<noteq> i" using ix by auto
    moreover have "arena_next (arena_at A a) = Suc a" using arenas_okD(5) [OF ok, of a] False Suc.prems i(2) by simp
    ultimately show ?thesis using Suc False by simp
  qed
qed simp

lemma walk_index_less: "arenas_ok n A \<Longrightarrow> a < n \<Longrightarrow> walk_index A i c a < n"
proof (induction c arbitrary: a)
  case (Suc c)
  have "arena_next (arena_at A a) < n" using arenas_okD(5) [OF Suc.prems] Suc.prems(2) by simp
  then show ?case using Suc by simp
qed simp

lemma arena_from_index_run:
  assumes ok: "arenas_ok n A"
  shows "arena_from_index i A = (if unat i < 2 then Some main_arena else if unat i \<le> n then Some (unat i - 1) else None)"
proof (cases "unat i < 2")
  case True
  then show ?thesis by (simp add: arena_from_index_def word_less_nat_alt)
next
  case i2: False
  note D = arenas_okD [OF ok]
  have cnt: "unat (arena_count A) = n" "unat (arena_count A + 1) = Suc n"
    using D(1-3) by (simp_all add: unat_of_nat unat_word_ariths)
  have nx: "arena_next (arena_at A main_arena) = Suc 0 mod n" using D(1) D(5) [of 0] by (simp add: main_arena_def)
  have big: "\<not> i < 2" using i2 by (simp add: word_less_nat_alt)
  show ?thesis
  proof (cases "unat i \<le> n")
    case True
    define b where "b = unat i - 1"
    have b: "i = word_of_nat (Suc b)" "b < n" "1 \<le> b" using i2 True by (simp_all add: b_def del: of_nat_Suc)
    have w: "walk_index A i n (Suc 0) = b" by (rule walk_index_found [OF ok b(1,2)]) (use b in simp_all)
    have "Suc 0 mod n = Suc 0" using b by simp
    moreover have "i \<le> arena_count A + 1" using cnt True by (simp add: word_le_nat_alt)
    moreover have "index (arena_at A b) = i" using D(6) [OF b(2)] b(1) by simp
    ultimately show ?thesis using i2 big True w nx cnt
      by (simp add: arena_from_index_def Let_def b_def)
  next
    case False
    define b where "b = walk_index A i n (Suc 0 mod n)"
    have b: "b < n" unfolding b_def by (rule walk_index_less [OF ok]) (use D(1) in simp)
    have "unat (index (arena_at A b)) = Suc b" using D(2) D(6) [OF b] b by (simp add: unat_of_nat del: of_nat_Suc)
    then have "index (arena_at A b) \<noteq> i" using False b by auto
    then show ?thesis using i2 big False nx cnt by (simp add: arena_from_index_def Let_def b_def)
  qed
qed

text \<open>
  C39: After any such steps \<open>arena_from_index\<close> is total on the indices that were given out: the indices \<open>0\<close> and \<open>1\<close> are
  the main arena, the index \<open>i\<close> of another arena leads to that arena, and an index never given out fails
  an assertion.
\<close>

theorem arena_from_index_exact:
  assumes "length es < 2 ^ 64 - 2" and "event_steps p es (first_arenas amax test) = Some C"
  shows "(\<forall>i. arena_from_index i C =
      (if unat i < 2 then Some main_arena else if unat i \<le> unat (arena_count C) then Some (unat i - 1) else None)) \<and>
    (\<forall>a < unat (arena_count C). arena_from_index (index (arena_at C a)) C = Some a)"
proof -
  obtain n where n: "arenas_ok n C" using event_steps_ok [OF first_arenas_ok, of es p amax test] assms by auto
  have c: "unat (arena_count C) = n" using arenas_okD(2,3) [OF n] by (simp add: unat_of_nat)
  have "arena_from_index (index (arena_at C a)) C = Some a" if "a < unat (arena_count C)" for a
    using arenas_okD(2) [OF n] arenas_okD(6) [OF n, of a] that
    by (simp add: c arena_from_index_run [OF n] unat_of_nat main_arena_def del: of_nat_Suc)
  then show ?thesis by (simp add: c arena_from_index_run [OF n])
qed

theorem arena_from_index_exact_witness:
  "\<exists>C. event_steps 1 [Get 1 True] (first_arenas 2 8) = Some C \<and> arena_from_index 2 C = Some 1 \<and> arena_from_index 3 C = None"
proof -
  define C where "C = the (event_steps 1 [Get 1 True] (first_arenas 2 8))"
  have C: "event_steps 1 [Get 1 True] (first_arenas 2 8) = Some C" "unat (arena_count C) = 2"
    unfolding C_def
    by (simp_all add: first_arenas_def main_arena_def arena_get_def arena_get2_def get_free_list_def new_or_reused_def set_limit_def
        link_arena_def detach_arena_def next_arena_def upd_arena_def set_thread_arena_def lock_arena_def)
  then show ?thesis using arena_from_index_exact [OF _ C(1)] by auto
qed

text \<open>When every arena is sound and locked, the second loop of \<open>reused_arena\<close> stops where it begins.\<close>

lemma find_unlocked_none:
  assumes ok: "arenas_ok n A" and all: "\<forall>a < n. locked (arena_at A a)" and s: "s < n"
  shows "find_unlocked A s s = Some (Inr s)"
proof -
  obtain x where "find_unlocked A s s = Some x" "case x of Inl r \<Rightarrow> r < n \<and> \<not> locked (arena_at A r) | Inr r \<Rightarrow> r = s"
    using find_unlocked_run [OF ok s] by blast
  then show ?thesis using all by (cases x) auto
qed

text \<open>
  C38: A thread that is to reuse an arena does not wait for one, although the code is written to do so
  (\<open>Wait for the next in line\<close>): when all arenas are sound and their mutexes taken, \<open>reused_arena\<close> returns \<open>NULL\<close> and attaches
  the thread to nothing, whichever arena is to be avoided.
\<close>

theorem reused_arena_does_not_wait:
  assumes steps: "length es < 2 ^ 64 - 2" "event_steps p es (first_arenas amax test) = Some A"
    and busy: "\<forall>a < unat (arena_count A). locked (arena_at A a) \<and> \<not> corrupt (arena_at A a)"
  shows "\<exists>C. reused_arena t avoid A = Some (None, C) \<and> thread_arena C = thread_arena A \<and> arena_at C = arena_at A"
proof -
  obtain n where ok: "arenas_ok n A" using event_steps_ok [OF first_arenas_ok, of es p amax test] steps by auto
  have cnt: "unat (arena_count A) = n" using arenas_okD(2,3) [OF ok] by (simp add: unat_of_nat)
  define s where "s = (case next_to_use A of None \<Rightarrow> main_arena | Some a \<Rightarrow> a)"
  have s: "s < n" using arenas_okD(1,10) [OF ok] by (auto simp: s_def main_arena_def split: option.split)
  define B where "B = A\<lparr>next_to_use := Some s\<rparr>"
  have at: "arena_at B = arena_at A" by (simp add: B_def)
  have okB: "arenas_ok n B" by (rule same_ok [OF ok]) (use s in \<open>simp_all add: B_def like_def\<close>)
  have f: "find_unlocked B s s = Some (Inr s)" by (rule find_unlocked_none [OF okB _ s]) (use busy cnt at in simp)
  define b where "b = (if Some s = avoid then arena_next (arena_at B s) else s)"
  have nx: "arena_next (arena_at B a) = Suc a mod n" if "a < n" for a using arenas_okD(5) [OF okB that] .
  have b: "b < n" using s by (simp add: b_def nx)
  have "skip_arenas B avoid b b = Some b"
  proof (cases "Some b = avoid")
    case True
    then have "b = Suc s mod n" "avoid = Some s" using s by (auto simp: b_def nx split: if_splits)
    then have "s = Suc s mod n" "b = s" using True by simp_all
    then show ?thesis using s by (subst skip_arenas.simps) (simp add: nx)
  next
    case False
    then show ?thesis using busy b cnt at by (subst skip_arenas.simps) simp
  qed
  then have "reused_arena t avoid A = Some (None, B)"
    unfolding reused_arena_def Let_def s_def [symmetric] B_def [symmetric] f bind.bind_lunit sum.case b_def [symmetric] by simp
  then show ?thesis by (simp add: B_def)
qed

lemmas run_arenas = first_arenas_def main_arena_def arena_get_def arena_get2_def get_free_list_def new_or_reused_def set_limit_def
  link_arena_def detach_arena_def next_arena_def upd_arena_def set_thread_arena_def lock_arena_def unlock_arena_def
  arena_thread_freeres_def reused_arena_def take_arena_def find_unlocked.simps skip_arenas.simps

theorem reused_arena_does_not_wait_witness:
  "\<exists>A C. event_steps 1 [Get 0 True] (first_arenas 1 8) = Some A \<and> reused_arena 1 None A = Some (None, C)"
proof -
  define A where "A = the (event_steps 1 [Get 0 True] (first_arenas 1 8))"
  have A: "event_steps 1 [Get 0 True] (first_arenas 1 8) = Some A" "unat (arena_count A) = 1"
    "locked (arena_at A 0)" "\<not> corrupt (arena_at A 0)"
    unfolding A_def by (simp_all add: run_arenas Let_def)
  then show ?thesis using reused_arena_does_not_wait [OF _ A(1), of 1 None] by auto
qed

text \<open>
  C36: \<open>arena_get2\<close> must not be interrupted. There is a run of three threads, with two arenas allowed, where a thread finds the
  free list empty, the only user of the second arena ends and puts it there, and the first thread then takes that arena by
  \<open>reused_arena\<close>, which leaves it on the free list: the assertion of \<open>get_free_list\<close> on the count of its threads fails for
  the next thread.
\<close>

theorem free_list_race:
  "\<exists>A B C r. event_steps 1 [Get 2 True, Unlock 1, Get 0 True] (first_arenas 2 8) = Some A \<and>
    get_free_list 1 A = Some (None, A) \<and>
    arena_thread_freeres 2 A = Some B \<and>
    new_or_reused 1 None 1 None B = Some (Some 1, C) \<and> free_list C = Some 1 \<and> attached_threads (arena_at C 1) = 1 \<and>
    get_free_list 3 C = None"
proof -
  define A where "A = the (event_steps 1 [Get 2 True, Unlock 1, Get 0 True] (first_arenas 2 8))"
  have A: "event_steps 1 [Get 2 True, Unlock 1, Get 0 True] (first_arenas 2 8) = Some A" "get_free_list 1 A = Some (None, A)"
    unfolding A_def by (simp_all add: run_arenas Let_def)
  define B where "B = the (arena_thread_freeres 2 A)"
  have B: "arena_thread_freeres 2 A = Some B" unfolding B_def A_def by (simp add: run_arenas Let_def)
  define C where "C = snd (the (new_or_reused 1 None 1 None B))"
  have C: "new_or_reused 1 None 1 None B = Some (Some 1, C)" "free_list C = Some 1" "attached_threads (arena_at C 1) = 1"
    "get_free_list 3 C = None"
    unfolding C_def B_def A_def by (simp_all add: run_arenas Let_def word_le_nat_alt)
  show ?thesis using A B C by blast
qed

end
