(* ===== verification/Malloc_Cache.thy ===== *)
theory Malloc_Cache
  imports Malloc_Program
begin

text \<open>
  The cache of metadata records that an arena fills before each request, when the memory for the metadata runs out in the
  middle of it.
\<close>

lemma replenish_loop_frame:
  assumes "replenish_loop E i n av = Some (ok, bv)"
  shows "metadata_cache_count bv = metadata_cache_count av" "metadata_pool_ready bv = metadata_pool_ready av"
    "length (metadata_cache bv) = length (metadata_cache av)" "j < i \<Longrightarrow> metadata_cache bv ! j = metadata_cache av ! j"
  using assms
proof (induction n arbitrary: i av)
  case (Suc n)
  {
    case 1 then show ?case using Suc.IH(1) by (auto simp: Let_def elim!: bindE split: option.splits)
  next
    case 2 then show ?case by (auto dest!: Suc.IH(2) simp: Let_def elim!: bindE split: option.splits)
  next
    case 3 then show ?case using Suc.IH(3) by (auto simp: Let_def elim!: bindE split: option.splits)
  next
    case 4 then show ?case by (auto dest!: Suc.IH(4) [rotated] simp: Let_def elim!: bindE split: option.splits)
  }
qed simp_all



end
