(* ===== verification/Malloc_Hooks.thy ===== *)
theory Malloc_Hooks
  imports Malloc_Realloc
begin

text \<open>
  The checking variants of \<open>malloc\<close>, \<open>free\<close>, \<open>realloc\<close> and \<open>memalign\<close> of \<open>hooks.c\<close>, which \<open>MALLOC_CHECK_\<close> turns on. They mark the end of
  each block by a magic byte behind it, so the bytes of the memory are part of the state here. They work in the
  main arena, and locks are left out. A pointer result \<open>0\<close> is \<open>NULL\<close>.
\<close>

section \<open>The magic byte\<close>

record cproc = proc +
  bytes :: "u64 \<Rightarrow> 8 word"
  using_malloc_checking :: bool

definition poke :: "u64 \<Rightarrow> 8 word \<Rightarrow> 'z cproc_scheme \<Rightarrow> 'z cproc_scheme" where
  "poke a b av = av\<lparr>bytes := (bytes av)(a := b)\<rparr>"

definition magicbyte :: "u64 \<Rightarrow> 8 word" where
  "magicbyte p =
    (let magic = ucast ((drop_bit 3 p XOR drop_bit 11 p) AND 255) in if magic = 1 then magic + 1 else magic)"

text \<open>
  The loop over the blocks of the padding, downwards from the offset \<open>i\<close>: the result is the offset of the magic byte, or \<open>None\<close> when
  the padding is damaged.
\<close>

partial_function (option) find_magic :: "(u64 \<Rightarrow> 8 word) \<Rightarrow> u64 \<Rightarrow> 8 word \<Rightarrow> u64 \<Rightarrow> u64 option option" where
  "find_magic mem p magic i =
    (let c = mem (p + i) in
     if c = magic then Some (Some i)
     else if c = 0 \<or> i < ucast c + 2 * SIZE_SZ then Some None
     else find_magic mem p magic (i - ucast c))"

definition malloc_check_get_size :: "bptr \<Rightarrow> u64 \<Rightarrow> 'z cproc_scheme \<Rightarrow> (u64 \<times> 'z cproc_scheme) option" where
  "malloc_check_get_size md p av = do {
     let magic = magicbyte p;
     assert_c (using_malloc_checking av);
     i \<leftarrow> find_magic (bytes av) p magic (chunksize av (Some md) - 1 + (if chunk_is_mmapped av md then 0 else SIZE_SZ));
     case i of
       None \<Rightarrow> do {
         av \<leftarrow> printerr av;
         Some (0, av) }
     | Some i \<Rightarrow> Some (i - 2 * SIZE_SZ, av) }"

partial_function (option) fill_padding :: "u64 \<Rightarrow> u64 \<Rightarrow> 8 word \<Rightarrow> u64 \<Rightarrow> 'z cproc_scheme \<Rightarrow> 'z cproc_scheme option" where
  "fill_padding m req_sz magic i av =
    (if i > req_sz then
       (let block_sz = min (i - req_sz) 255;
            block_sz = (if block_sz = ucast magic then block_sz - 1 else block_sz)
        in fill_padding m req_sz magic (i - block_sz) (poke (m + i) (ucast block_sz) av))
     else Some av)"

definition mem2mem_check :: "bptr option \<Rightarrow> u64 \<Rightarrow> u64 \<Rightarrow> u64 \<Rightarrow> 'z cproc_scheme \<Rightarrow> (u64 \<times> 'z cproc_scheme) option" where
  "mem2mem_check md p m req_sz av =
    (if m = 0 then Some (0, av)
     else do {
       assert_c (p = mem2chunk m);
       let magic = magicbyte p;
       let max_sz = chunksize av md - 2 * SIZE_SZ;
       md \<leftarrow> md;
       let max_sz = (if \<not> chunk_is_mmapped av md then max_sz + SIZE_SZ else max_sz);
       av \<leftarrow> fill_padding m req_sz magic (max_sz - 1) av;
       Some (m, poke (m + req_sz) magic av) })"

section \<open>Is it a block?\<close>

definition page_offset_ok :: "u64 \<Rightarrow> bool" where
  "page_offset_ok offset \<longleftrightarrow>
     \<not> (offset \<noteq> MALLOC_ALIGNMENT \<and> offset \<noteq> 0 \<and> offset \<noteq> 16 \<and> offset \<noteq> 32 \<and> offset \<noteq> 64 \<and> offset \<noteq> 128 \<and> offset \<noteq> 256 \<and>
        offset \<noteq> 512 \<and> offset \<noteq> 1024 \<and> offset \<noteq> 2048 \<and> offset \<noteq> 4096 \<and> offset < 8192)"

text \<open>The tests on a chunk of the heap: the first result is whether they are passed.\<close>

definition heap_chunk_ok :: "ci_env \<Rightarrow> bptr \<Rightarrow> u64 \<Rightarrow> 'z cproc_scheme \<Rightarrow> (bool \<times> 'z cproc_scheme) option" where
  "heap_chunk_ok E md p av = do {
     let base = mp_sbrk_base (par av);
     let sz = chunksize av (Some md);
     let contig = contiguous av;
     if contig \<and> (p < base \<or> p + sz \<ge> base + system_mem av) then Some (False, av)
     else if sz < MINSIZE \<or> sz AND MALLOC_ALIGN_MASK \<noteq> 0 then Some (False, av)
     else do {
       (used, av) \<leftarrow> inuse E md av;
       if \<not> used then Some (False, av)
       else do {
         pinuse \<leftarrow> prev_inuse av md p;
         if pinuse then Some (True, av)
         else if prev_size (ci av md) AND MALLOC_ALIGN_MASK \<noteq> 0 then Some (False, av)
         else do {
           prev_p \<leftarrow> prev_chunk av md p;
           if contig \<and> prev_p < base then Some (False, av)
           else do {
             av \<leftarrow> assert_md_prev E md p av;
             md_pv \<leftarrow> md_prev (ci av md);
             next_p \<leftarrow> next_chunk av md_pv prev_p;
             Some (next_p = p, av) } } } } }"

definition mapped_chunk_ok :: "bptr \<Rightarrow> u64 \<Rightarrow> u64 \<Rightarrow> 'z cproc_scheme \<Rightarrow> bool" where
  "mapped_chunk_ok md p m av \<longleftrightarrow>
    (let page_mask = dl_pagesize (par av) - 1
     in page_offset_ok (m AND page_mask) \<and> chunk_is_mmapped av md \<and> csize (ci av md) AND PREV_INUSE = 0 \<and>
        (p - prev_size (ci av md)) AND page_mask = 0 \<and> (prev_size (ci av md) + chunksize av (Some md)) AND page_mask = 0)"

text \<open>The result is the address of the magic byte, which is inverted, or \<open>None\<close> for \<open>NULL\<close>.\<close>

definition mem2chunk_check ::
  "ci_env \<Rightarrow> bptr option \<Rightarrow> u64 \<Rightarrow> u64 \<Rightarrow> 'z cproc_scheme \<Rightarrow> (u64 option \<times> 'z cproc_scheme) option" where
  "mem2chunk_check E md p m av =
    (if \<not> aligned_OK m then Some (None, av)
     else do {
       assert_c (p = mem2chunk m);
       let sz = chunksize av md;
       let magic = magicbyte p;
       md \<leftarrow> md;
       let mapped = chunk_is_mmapped av md;
       (ok, av) \<leftarrow> (if \<not> mapped then heap_chunk_ok E md p av else Some (mapped_chunk_ok md p m av, av));
       if \<not> ok then Some (None, av)
       else do {
         i \<leftarrow> find_magic (bytes av) p magic (if \<not> mapped then sz + (SIZE_SZ - 1) else sz - 1);
         case i of
           None \<Rightarrow> Some (None, av)
         | Some i \<Rightarrow> Some (Some (p + i), poke (p + i) (bytes av (p + i) XOR 255) av) } })"

section \<open>The top chunk\<close>

definition top_sound :: "bptr \<Rightarrow> 'z cproc_scheme \<Rightarrow> bool option" where
  "top_sound md_ot av =
    (let ot = chunkinfo2chunk av md_ot; ot_sz = chunksize av (Some md_ot)
     in if ot = initial_top av then Some True
        else if chunk_is_mmapped av md_ot \<or> ot_sz < MINSIZE then Some False
        else do {
          pinuse \<leftarrow> prev_inuse av md_ot ot;
          Some (pinuse \<and> (\<not> contiguous av \<or> ot + ot_sz = mp_sbrk_base (par av) + system_mem av)) })"

definition top_check :: "('z cproc_scheme) sysenv \<Rightarrow> 'z cproc_scheme \<Rightarrow> (int \<times> 'z cproc_scheme) option" where
  "top_check S av = do {
     md_ot \<leftarrow> md_top av;
     ok \<leftarrow> top_sound md_ot av;
     if ok then Some (0, av)
     else do {
       av \<leftarrow> printerr av;
       let (brk, av) = MORECORE S 0 av;
       let front_misalign = chunk2mem brk AND MALLOC_ALIGN_MASK;
       let front_misalign = (if front_misalign > 0 then MALLOC_ALIGNMENT - front_misalign else front_misalign);
       let sbrk_size = front_misalign + top_pad (par av) + MINSIZE;
       let pagesz = dl_pagesize (par av);
       let sbrk_size = sbrk_size + (pagesz - ((brk + sbrk_size) AND (pagesz - 1)));
       let (new_brk, av) = MORECORE S sbrk_size av;
       if new_brk = 0 then Some (- 1, set_enomem av)
       else do {
         let av = av\<lparr>system_mem := (new_brk - mp_sbrk_base (par av)) + sbrk_size\<rparr>;
         (t, av) \<leftarrow> register_chunk (cienv S) (brk + front_misalign) av;
         let av = av\<lparr>md_top := Some t\<rparr>;
         Some (0, set_head t ((sbrk_size - front_misalign) OR PREV_INUSE) av) } } }"

section \<open>The four functions\<close>

text \<open>The metadata of a new block go through \<open>chunkinfo2chunk\<close>, which asserts that they are not \<open>NULL\<close>.\<close>

definition finish_check :: "bptr option \<Rightarrow> u64 \<Rightarrow> 'z cproc_scheme \<Rightarrow> (u64 \<times> 'z cproc_scheme) option" where
  "finish_check md sz av = do {
     let m = chunkinfo2mem av md;
     v \<leftarrow> md;
     mem2mem_check md (chunkinfo2chunk av v) m sz av }"

definition malloc_check :: "('z cproc_scheme) sysenv \<Rightarrow> u64 \<Rightarrow> 'z cproc_scheme \<Rightarrow> (u64 \<times> 'z cproc_scheme) option" where
  "malloc_check S sz av =
    (if sz + 1 = 0 then Some (0, set_enomem av)
     else do {
       (r, av) \<leftarrow> top_check S av;
       (md, av) \<leftarrow> (if r \<ge> 0 then int_malloc S (sz + 1) av else Some (None, av));
       finish_check md sz av })"

definition free_check :: "('z cproc_scheme) sysenv \<Rightarrow> u64 \<Rightarrow> 'z cproc_scheme \<Rightarrow> 'z cproc_scheme option" where
  "free_check S m av =
    (if m = 0 then Some av
     else do {
       let p = mem2chunk m;
       (md, av) \<leftarrow> lookup_chunk (cienv S) p av;
       (q, av) \<leftarrow> mem2chunk_check (cienv S) md p m av;
       if q = None \<or> md = None then printerr av
       else do {
         md \<leftarrow> md;
         if chunk_is_mmapped av md then do {
           av \<leftarrow> munmap_chunk S md av;
           (_, av) \<leftarrow> unregister_chunk (cienv S) p av;
           Some av }
         else int_free S None p False av } })"

definition copy_bytes :: "copy \<Rightarrow> 'z cproc_scheme \<Rightarrow> 'z cproc_scheme" where
  "copy_bytes c av =
    (case c of
       None \<Rightarrow> av
     | Some (dst, src, n) \<Rightarrow> av\<lparr>bytes := (\<lambda>a. if a - dst < n then bytes av (src + (a - dst)) else bytes av a)\<rparr>)"

text \<open>A mapped block: nothing, or a new block, a copy, and the old one unmapped.\<close>

definition realloc_mapped_check ::
  "('z cproc_scheme) sysenv \<Rightarrow> bptr \<Rightarrow> u64 \<Rightarrow> u64 \<Rightarrow> u64 \<Rightarrow> 'z cproc_scheme \<Rightarrow> (u64 \<times> bptr option \<times> 'z cproc_scheme) option" where
  "realloc_mapped_check S md oldmem sz nb av = do {
     let oldsize = chunksize av (Some md);
     if oldsize - SIZE_SZ \<ge> nb then Some (oldmem, None, av)
     else do {
       (r, av) \<leftarrow> top_check S av;
       (new, av) \<leftarrow> (if r \<ge> 0 then int_malloc S (sz + 1) av else Some (None, av));
       let newmem = chunkinfo2mem av new;
       if newmem = 0 then Some (0, new, av)
       else do {
         let av = copy_bytes (Some (newmem, oldmem, oldsize - 2 * SIZE_SZ)) av;
         av \<leftarrow> munmap_chunk S md av;
         (_, av) \<leftarrow> unregister_chunk (cienv S) (mem2chunk oldmem) av;
         Some (newmem, new, av) } } }"

definition realloc_check ::
  "('z cproc_scheme) sysenv \<Rightarrow> u64 \<Rightarrow> u64 \<Rightarrow> 'z cproc_scheme \<Rightarrow> (u64 \<times> 'z cproc_scheme) option" where
  "realloc_check S oldmem sz av =
    (if sz + 1 = 0 then Some (0, set_enomem av)
     else if oldmem = 0 then malloc_check S sz av
     else if sz = 0 then do { av \<leftarrow> free_check S oldmem av; Some (0, av) }
     else do {
       let oldp = mem2chunk oldmem;
       (md, av) \<leftarrow> lookup_chunk (cienv S) oldp av;
       case md of
         None \<Rightarrow> Some (0, av)
       | Some md \<Rightarrow> do {
           (magic_p, av) \<leftarrow> mem2chunk_check (cienv S) (Some md) oldp oldmem av;
           case magic_p of
             None \<Rightarrow> do { av \<leftarrow> printerr av; malloc_check S sz av }
           | Some magic_p \<Rightarrow> do {
               let oldsize = chunksize av (Some md);
               case checked_request2size (sz + 1) of
                 Inl e \<Rightarrow> Some (0, av\<lparr>memory := (memory av)\<lparr>errno := Some e\<rparr>\<rparr>)
               | Inr nb \<Rightarrow> do {
                   (newmem, new, av) \<leftarrow>
                     (if chunk_is_mmapped av md then realloc_mapped_check S md oldmem sz nb av
                      else do {
                        (r, av) \<leftarrow> top_check S av;
                        if r \<ge> 0 then do {
                          (new, c, av) \<leftarrow> int_realloc S md oldsize nb av;
                          Some (chunkinfo2mem av new, new, copy_bytes c av) }
                        else Some (0, None, av) });
                   let av = (if newmem = 0 then poke magic_p (bytes av magic_p XOR 255) av else av);
                   case new of
                     None \<Rightarrow> Some (0, av)
                   | Some v \<Rightarrow> mem2mem_check new (chunkinfo2chunk av v) newmem sz av } } } })"

definition memalign_check ::
  "('z cproc_scheme) sysenv \<Rightarrow> u64 \<Rightarrow> u64 \<Rightarrow> 'z cproc_scheme \<Rightarrow> (u64 \<times> 'z cproc_scheme) option" where
  "memalign_check S alignment sz av =
    (if alignment \<le> MALLOC_ALIGNMENT then malloc_check S sz av
     else let alignment = (if alignment < MINSIZE then MINSIZE else alignment) in
       if alignment > (- 1) div 2 + 1 then Some (0, av\<lparr>memory := (memory av)\<lparr>errno := Some EINVAL\<rparr>\<rparr>)
       else if sz > - 1 - alignment - MINSIZE then Some (0, set_enomem av)
       else do {
         alignment \<leftarrow> (if powerof2 alignment then Some alignment else double_until (MALLOC_ALIGNMENT * 2) alignment);
         (r, av) \<leftarrow> top_check S av;
         (md, av) \<leftarrow> (if r \<ge> 0 then int_memalign S alignment (sz + 1) av else Some (None, av));
         finish_check md sz av })"

end
