(* ===== verification/Malloc_Hooks_Props.thy ===== *)
theory Malloc_Hooks_Props
  imports Malloc_Hooks Malloc_Program
begin

text \<open>
  Where the padding and the magic byte of \<open>hooks.c\<close> lie: \<open>mem2mem_check\<close> writes below the end of the usable part of the block, but the
  two functions that look for them start behind the end of the chunk, since \<open>HEADER_SIZE\<close> is zero in this allocator.
\<close>

section \<open>What the padding changes\<close>

lemma poke_sel [simp]: "bytes (poke a b av) = (bytes av)(a := b)" "using_malloc_checking (poke a b av) = using_malloc_checking av"
  "ci (poke a b av) q = ci av q" "chunksize (poke a b av) v = chunksize av v" "chunk_is_mmapped (poke a b av) q = chunk_is_mmapped av q"
  by (simp_all add: poke_def ci_def chunksize_def chunk_is_mmapped_def split: option.splits)

definition padded :: "u64 \<Rightarrow> u64 \<Rightarrow> 'z cproc_scheme \<Rightarrow> 'z cproc_scheme \<Rightarrow> bool" where
  "padded m i av av' \<longleftrightarrow>
    (\<forall>j > i. bytes av' (m + j) = bytes av (m + j)) \<and> using_malloc_checking av' = using_malloc_checking av \<and>
    (\<forall>v. chunksize av' v = chunksize av v) \<and> (\<forall>q. chunk_is_mmapped av' q = chunk_is_mmapped av q)"

lemma fill_padding_frame:
  "fill_padding m req_sz magic i av = Some av' \<Longrightarrow> padded m i av av'"
proof (induction rule: fill_padding.raw_induct [rotated 1, consumes 1])
  case (1 f m req_sz magic i av av')
  define b where "b = (if min (i - req_sz) 255 = ucast magic then min (i - req_sz) 255 - 1 else min (i - req_sz) 255)"
  show ?case
  proof (cases "i > req_sz")
    case True
    then have step: "f m req_sz magic (i - b) (poke (m + i) (ucast b) av) = Some av'"
      using 1(2) by (simp add: b_def Let_def)
    have "i - b \<le> i"
    proof -
      have "unat (min (i - req_sz) 255) \<le> unat i" "0 < min (i - req_sz) 255"
        using True by (auto simp: min_def word_le_nat_alt word_less_nat_alt unat_sub_if' split: if_splits)
      then have "unat b \<le> unat i" by (auto simp: b_def unat_sub_if' word_less_nat_alt split: if_splits)
      then show ?thesis by (simp add: word_le_nat_alt unat_sub_if')
    qed
    then show ?thesis using 1(1) [OF step] by (auto simp: padded_def)
  next
    case False
    then show ?thesis using 1(2) by (simp add: padded_def)
  qed
qed

lemma mem2mem_check_padded:
  assumes run: "mem2mem_check (Some md) p m req_sz av = Some (m, av')" "m \<noteq> 0" "\<not> chunk_is_mmapped av md"
    and sz: "32 \<le> chunksize av (Some md)" "req_sz \<le> chunksize av (Some md) - 9"
  shows "padded m (chunksize av (Some md) - 9) av av'" "p = m"
proof -
  obtain av1 where fill: "fill_padding m req_sz (magicbyte p) (chunksize av (Some md) - 9) av = Some av1"
    and av': "av' = poke (m + req_sz) (magicbyte p) av1" and p: "p = mem2chunk m"
    using run by (auto simp: mem2mem_check_def Let_def SIZE_SZ_def elim!: bindE split: if_splits)
  show "padded m (chunksize av (Some md) - 9) av av'"
    using fill_padding_frame [OF fill] sz(2) unfolding av' padded_def by auto
  show "p = m" using p by (simp add: mem2chunk_def HEADER_SIZE_def)
qed

section \<open>The lookups keep the bytes\<close>

lemma lookup_chunk_bytes: "lookup_chunk E p av = Some (r, av') \<Longrightarrow> bytes av' = bytes av"
  by (auto simp: lookup_chunk_def elim!: bindE)

lemma inuse_bytes: "inuse E md av = Some (r, av') \<Longrightarrow> bytes av' = bytes av"
  by (auto simp: inuse_def inuse_bit_def assert_md_next_def md_next_sanity_check_def elim!: bindE dest: lookup_chunk_bytes)

lemma assert_md_prev_bytes: "assert_md_prev E md p av = Some av' \<Longrightarrow> bytes av' = bytes av"
  by (auto simp: assert_md_prev_def md_prev_sanity_check_def elim!: bindE dest: lookup_chunk_bytes)

lemma heap_chunk_ok_bytes: "heap_chunk_ok E md p av = Some (r, av') \<Longrightarrow> bytes av' = bytes av"
  unfolding heap_chunk_ok_def Let_def
  by (auto elim!: bindE split: if_splits dest!: inuse_bytes assert_md_prev_bytes)

lemma find_magic_zero: "mem (p + i) = 0 \<Longrightarrow> magic \<noteq> 0 \<Longrightarrow> find_magic mem p magic i = Some None"
  by (subst find_magic.simps) simp

section \<open>A block that is rejected\<close>

text \<open>
  C40: Under \<open>MALLOC_CHECK_\<close> the tests on a block begin behind its chunk: when \<open>mem2mem_check\<close> has marked a heap chunk, and the byte
  at the offset \<open>chunksize + SIZE_SZ - 1\<close>, in the block after it, is zero, then \<open>malloc_check_get_size\<close> reports a
  corruption and returns 0, and \<open>mem2chunk_check\<close> never accepts the block, so that \<open>free\<close> and \<open>realloc\<close> report an invalid pointer,
  although the block is untouched.
\<close>

theorem checked_block_rejected:
  fixes av :: "'z cproc_scheme"
  assumes run: "mem2mem_check (Some md) p m req_sz av = Some (m, av')" "m \<noteq> 0" "\<not> chunk_is_mmapped av md"
    and sz: "32 \<le> chunksize av (Some md)" "chunksize av (Some md) < 2 ^ 63" "req_sz \<le> chunksize av (Some md) - 9"
    and "using_malloc_checking av" and magic: "magicbyte p \<noteq> 0"
    and zero: "bytes av (p + (chunksize av (Some md) + SIZE_SZ - 1)) = 0"
  shows "malloc_check_get_size md p av' = Option.bind (printerr av') (\<lambda>bv. Some (0, bv)) \<and>
    (\<forall>q bv. mem2chunk_check E (Some md) p m av' = Some (q, bv) \<longrightarrow> q = None)"
proof -
  define s where "s = chunksize av (Some md)"
  note pad = mem2mem_check_padded [OF run sz(1,3)]
  have s': "chunksize av' (Some md) = s" "\<not> chunk_is_mmapped av' md" "using_malloc_checking av'"
    using pad(1) run(3) assms(7) by (simp_all add: padded_def s_def)
  have "s - 9 < s + 7" using sz(1,2) unfolding s_def [symmetric]
    by (simp add: word_less_nat_alt word_le_nat_alt unat_sub_if' unat_plus_if' split: if_splits)
  then have "bytes av' (m + (s + 7)) = bytes av (m + (s + 7))" using pad(1) by (simp add: padded_def s_def)
  then have b: "bytes av' (p + (s + 7)) = 0" using zero pad(2) by (simp add: s_def SIZE_SZ_def add.commute)
  note f = find_magic_zero [of "bytes av'" p "s + 7", OF b magic] find_magic_zero [of "bytes av'" p "7 + s", OF b [unfolded add.commute [of s]] magic]
  have "malloc_check_get_size md p av' = Option.bind (printerr av') (\<lambda>bv. Some (0, bv))"
    using f s' by (simp add: malloc_check_get_size_def SIZE_SZ_def Let_def)
  moreover have "q = None" if "mem2chunk_check E (Some md) p m av' = Some (q, bv)" for q bv
    using that f s' heap_chunk_ok_bytes [of E md p av']
    by (auto simp: mem2chunk_check_def Let_def SIZE_SZ_def elim!: bindE split: if_splits)
  ultimately show ?thesis by blast
qed

theorem checked_block_rejected_witness:
  "\<exists>(av :: cproc) av' md. mem2mem_check (Some md) 64 64 20 av = Some (64, av') \<and> bytes av' 84 = 8 \<and> bytes av' 87 = 3 \<and>
     malloc_check_get_size md 64 av' = Option.bind (printerr av') (\<lambda>bv. Some (0, bv))"
proof -
  define md where "md = Bptr 1 0"
  define av where "av = proc.extend (example_arena\<lparr>memory := (memory example_arena)\<lparr>bheap := (\<lambda>_. zero_chunkinfo\<lparr>csize := 33\<rparr>)\<rparr>\<rparr>)
    (cproc.fields (\<lambda>_. 0) True)"
  have ci: "ci av md = zero_chunkinfo\<lparr>csize := 33\<rparr>" "bytes av = (\<lambda>_. 0)" "using_malloc_checking av"
    by (simp_all add: av_def md_def ci_def proc.defs cproc.defs example_arena_def)
  have c: "chunksize av (Some md) = 32" "\<not> chunk_is_mmapped av md"
    by (simp_all add: chunksize_def chunk_is_mmapped_def ci SIZE_BITS_def PREV_INUSE_def IS_MMAPPED_def)
  have magic: "magicbyte 64 = 8" by (simp add: magicbyte_def)
  have fill: "fill_padding 64 20 8 23 av = Some (poke 87 3 av)"
    by (simp add: fill_padding.simps [of 64 20 8 23] fill_padding.simps [of 64 20 8 20] Let_def)
  have run: "mem2mem_check (Some md) 64 64 20 av = Some (64, poke 84 8 (poke 87 3 av))"
    using fill by (simp add: mem2mem_check_def c magic mem2chunk_def HEADER_SIZE_def SIZE_SZ_def Let_def)
  have "malloc_check_get_size md 64 (poke 84 8 (poke 87 3 av)) = Option.bind (printerr (poke 84 8 (poke 87 3 av))) (\<lambda>bv. Some (0, bv))"
    using checked_block_rejected [OF run] by (simp add: c magic ci)
  then show ?thesis using run by fastforce
qed

end
