(* ===== verification/Mhook.thy ===== *)
theory Mhook
  imports Prelude
begin

text \<open>
  \<open>src/mhooks/mhook.c\<close>: a library that is loaded before the C library and writes a line of text for each call of \<open>malloc\<close>,
  \<open>free\<close>, \<open>calloc\<close> and \<open>realloc\<close> to a log. The functions of the C library are the parameter \<open>A\<close>, over the state \<open>heap\<close> of
  the process; addresses are 64 bit words. A failing \<open>write\<close> ends the process; here it does not fail.
\<close>

section \<open>State\<close>

record 's allocator =
  do_malloc :: "u64 \<Rightarrow> 's \<Rightarrow> u64 \<times> 's"
  do_free :: "u64 \<Rightarrow> 's \<Rightarrow> 's"
  do_calloc :: "u64 \<Rightarrow> u64 \<Rightarrow> 's \<Rightarrow> u64 \<times> 's"
  do_realloc :: "u64 \<Rightarrow> u64 \<Rightarrow> 's \<Rightarrow> u64 \<times> 's"

record 's hooked =
  heap :: 's
  malloc_hook_active :: bool
  logfd :: bool
  log :: string

definition MALLOCLEN :: nat where "MALLOCLEN = 58"
definition FREELEN :: nat where "FREELEN = 39"
definition CALLOCLEN :: nat where "CALLOCLEN = 77"
definition REALLOCLEN :: nat where "REALLOCLEN = 77"
definition INITLEN :: nat where "INITLEN = 5"
definition FINILEN :: nat where "FINILEN = 5"

definition MALLOCARGS :: nat where "MALLOCARGS = 3"
definition FREEARGS :: nat where "FREEARGS = 2"
definition CALLOCARGS :: nat where "CALLOCARGS = 4"
definition REALLOCARGS :: nat where "REALLOCARGS = 4"

section \<open>A line of the log\<close>

definition hex :: string where
  "hex = ''0123456789ABCDEF''"

text \<open>\<open>storehex buf n val pos\<close> is the loop of \<open>storehexstring\<close> with \<open>n\<close> places left, of which \<open>buf + n - 1\<close> is the next.\<close>

fun storehex :: "nat \<Rightarrow> nat \<Rightarrow> u64 \<Rightarrow> string \<Rightarrow> string" where
  "storehex buf 0 val s = s"
| "storehex buf (Suc pos) val s =
    (if val > 0 then storehex buf pos (drop_bit 4 val) (s[buf + pos := hex ! unat (val AND 15)]) else s)"

definition storehexstring :: "nat \<Rightarrow> u64 \<Rightarrow> string \<Rightarrow> string" where
  "storehexstring buf val s = storehex buf 16 val s"

definition blank_entry :: string where
  "blank_entry = ''  0x0000000000000000 0x0000000000000000 0x0000000000000000 0x0000000000000000 0x0000000000000000'' @ [CHR 0x0A]"

definition writelogentry :: "char \<Rightarrow> u64 \<Rightarrow> u64 \<Rightarrow> u64 \<Rightarrow> u64 \<Rightarrow> u64 \<Rightarrow> string" where
  "writelogentry func size1 size2 p q caller =
    (let buffer = blank_entry[0 := func];
         (buffer, sz) =
           (if func = CHR ''m'' then
              (storehexstring 42 caller (storehexstring 23 p (storehexstring 4 size1 buffer)), MALLOCLEN)
            else if func = CHR ''f'' then
              (storehexstring 23 caller (storehexstring 4 p buffer), FREELEN)
            else if func = CHR ''c'' then
              (storehexstring 61 caller (storehexstring 42 p (storehexstring 23 size2 (storehexstring 4 size1 buffer))), CALLOCLEN)
            else if func = CHR ''r'' then
              (storehexstring 61 caller (storehexstring 42 q (storehexstring 23 size1 (storehexstring 4 p buffer))), REALLOCLEN)
            else if func = CHR ''e'' then (buffer, FINILEN)
            else if func = CHR ''i'' then (buffer, INITLEN)
            else (buffer, 5));
         buffer = buffer[sz := CHR 0x0A]
     in take (sz + 1) buffer)"

definition write_log :: "string \<Rightarrow> 's hooked \<Rightarrow> 's hooked" where
  "write_log entry h = (if logfd h then h\<lparr>log := log h @ entry\<rparr> else h)"

section \<open>The hooks\<close>

definition my_malloc_hook :: "'s allocator \<Rightarrow> u64 \<Rightarrow> u64 \<Rightarrow> 's hooked \<Rightarrow> u64 \<times> 's hooked" where
  "my_malloc_hook A size1 caller h =
    (let h = h\<lparr>malloc_hook_active := False\<rparr>;
         (r, s) = do_malloc A size1 (heap h);
         h = write_log (writelogentry (CHR ''m'') size1 0 r 0 caller) (h\<lparr>heap := s\<rparr>)
     in (r, h\<lparr>malloc_hook_active := True\<rparr>))"

definition my_free_hook :: "'s allocator \<Rightarrow> u64 \<Rightarrow> u64 \<Rightarrow> 's hooked \<Rightarrow> 's hooked" where
  "my_free_hook A p caller h =
    (let h = h\<lparr>malloc_hook_active := False\<rparr>;
         h = write_log (writelogentry (CHR ''f'') 0 0 p 0 caller) (h\<lparr>heap := do_free A p (heap h)\<rparr>)
     in h\<lparr>malloc_hook_active := True\<rparr>)"

definition my_calloc_hook :: "'s allocator \<Rightarrow> u64 \<Rightarrow> u64 \<Rightarrow> u64 \<Rightarrow> 's hooked \<Rightarrow> u64 \<times> 's hooked" where
  "my_calloc_hook A nemb size1 caller h =
    (let h = h\<lparr>malloc_hook_active := False\<rparr>;
         (r, s) = do_calloc A nemb size1 (heap h);
         h = write_log (writelogentry (CHR ''c'') nemb size1 r 0 caller) (h\<lparr>heap := s\<rparr>)
     in (r, h\<lparr>malloc_hook_active := True\<rparr>))"

definition my_realloc_hook :: "'s allocator \<Rightarrow> u64 \<Rightarrow> u64 \<Rightarrow> u64 \<Rightarrow> 's hooked \<Rightarrow> u64 \<times> 's hooked" where
  "my_realloc_hook A p size1 caller h =
    (let h = h\<lparr>malloc_hook_active := False\<rparr>;
         (r, s) = do_realloc A p size1 (heap h);
         h = write_log (writelogentry (CHR ''r'') size1 0 p r caller) (h\<lparr>heap := s\<rparr>)
     in (r, h\<lparr>malloc_hook_active := True\<rparr>))"

definition hooked_malloc :: "'s allocator \<Rightarrow> u64 \<Rightarrow> u64 \<Rightarrow> 's hooked \<Rightarrow> u64 \<times> 's hooked" where
  "hooked_malloc A size1 caller h =
    (if malloc_hook_active h then my_malloc_hook A size1 caller h
     else (let (r, s) = do_malloc A size1 (heap h) in (r, h\<lparr>heap := s\<rparr>)))"

definition hooked_free :: "'s allocator \<Rightarrow> u64 \<Rightarrow> u64 \<Rightarrow> 's hooked \<Rightarrow> 's hooked" where
  "hooked_free A p caller h =
    (if malloc_hook_active h then my_free_hook A p caller h else h\<lparr>heap := do_free A p (heap h)\<rparr>)"

definition hooked_calloc :: "'s allocator \<Rightarrow> u64 \<Rightarrow> u64 \<Rightarrow> u64 \<Rightarrow> 's hooked \<Rightarrow> u64 \<times> 's hooked" where
  "hooked_calloc A nemb size1 caller h =
    (if malloc_hook_active h then my_calloc_hook A nemb size1 caller h
     else (let (r, s) = do_calloc A nemb size1 (heap h) in (r, h\<lparr>heap := s\<rparr>)))"

definition hooked_realloc :: "'s allocator \<Rightarrow> u64 \<Rightarrow> u64 \<Rightarrow> u64 \<Rightarrow> 's hooked \<Rightarrow> u64 \<times> 's hooked" where
  "hooked_realloc A p size1 caller h =
    (if malloc_hook_active h then my_realloc_hook A p size1 caller h
     else (let (r, s) = do_realloc A p size1 (heap h) in (r, h\<lparr>heap := s\<rparr>)))"

text \<open>\<open>mhook_init\<close> with a log that can be opened (\<open>ourfd\<close> is then the same as \<open>logfd\<close>), and \<open>mhook_fini\<close>.\<close>

definition mhook_init :: "bool \<Rightarrow> 's hooked \<Rightarrow> 's hooked" where
  "mhook_init opened h =
    (if opened then write_log (writelogentry (CHR ''i'') 0 0 0 0 0) (h\<lparr>logfd := True\<rparr>) else h)"

definition mhook_fini :: "'s hooked \<Rightarrow> 's hooked" where
  "mhook_fini h = (if logfd h then write_log (writelogentry (CHR ''e'') 0 0 0 0 0) h else h)"

end
