(* ===== verification/Replay.thy ===== *)
theory Replay
  imports Mhook Lphash
begin

text \<open>
  \<open>src/replay/replaylib.c\<close>: a log of \<open>mhook.c\<close> is read line by line, and each call of it is made again, of the allocator
  \<open>A\<close>. A table of \<open>lphash.c\<close> takes the addresses of the log to the addresses of the run. A buffer of 1024 characters is the
  string up to its terminating zero; \<open>at s i\<close> reads it. Clocks and messages are left out, \<open>false\<close> is the result \<open>False\<close>, and a
  failed assertion \<open>None\<close>.
\<close>

section \<open>Characters\<close>

definition BUFFERSZ :: nat where
  "BUFFERSZ = 1024"

definition at :: "string \<Rightarrow> nat \<Rightarrow> char" where
  "at s i = (if i < length s then s ! i else CHR 0x00)"

definition between :: "char \<Rightarrow> char \<Rightarrow> char \<Rightarrow> bool" where
  "between c lo hi \<longleftrightarrow> (of_char lo :: nat) \<le> of_char c \<and> (of_char c :: nat) \<le> of_char hi"

definition isalnum :: "char \<Rightarrow> bool" where
  "isalnum c \<longleftrightarrow> between c (CHR ''0'') (CHR ''9'') \<or> between c (CHR ''A'') (CHR ''Z'') \<or> between c (CHR ''a'') (CHR ''z'')"

definition isspace :: "char \<Rightarrow> bool" where
  "isspace c \<longleftrightarrow> c = CHR '' '' \<or> between c (CHR 0x09) (CHR 0x0D)"

definition xdigit :: "char \<Rightarrow> nat option" where
  "xdigit c =
    (if between c (CHR ''0'') (CHR ''9'') then Some (of_char c - 48)
     else if between c (CHR ''A'') (CHR ''F'') then Some (of_char c - 55)
     else if between c (CHR ''a'') (CHR ''f'') then Some (of_char c - 87)
     else None)"

text \<open>
  \<open>strtoll\<close> to the base 16: white space, a sign, the prefix \<open>0x\<close> when a digit follows, and digits. The result is cut to
  the range of \<open>long long\<close>; the second one is the rest, which is all of the string when there are no digits.
\<close>

definition xdigits :: "string \<Rightarrow> string" where
  "xdigits s = takeWhile (\<lambda>c. xdigit c \<noteq> None) s"

definition hex_value :: "string \<Rightarrow> nat" where
  "hex_value ds = foldl (\<lambda>n c. 16 * n + the (xdigit c)) 0 ds"

definition skip_0x :: "string \<Rightarrow> string" where
  "skip_0x s = (case s of c # x # d # ds \<Rightarrow>
       if c = CHR ''0'' \<and> (x = CHR ''x'' \<or> x = CHR ''X'') \<and> xdigit d \<noteq> None then d # ds else s
     | _ \<Rightarrow> s)"

definition strtoll16 :: "string \<Rightarrow> int \<times> string" where
  "strtoll16 data =
    (let s = dropWhile isspace data;
         (neg, s) = (if s \<noteq> [] \<and> hd s = CHR ''-'' then (True, tl s) else if s \<noteq> [] \<and> hd s = CHR ''+'' then (False, tl s) else (False, s));
         s = skip_0x s;
         ds = xdigits s;
         n = int (hex_value ds)
     in if ds = [] then (0, data)
        else (if neg then max (- n) (- (2 ^ 63)) else min n (2 ^ 63 - 1), drop (length ds) s))"

section \<open>Lines\<close>

text \<open>\<open>readline\<close> stops at the end of a line, at a character that cannot be in a log, and at the end of the file.\<close>

fun readline_loop :: "nat \<Rightarrow> string \<Rightarrow> string \<Rightarrow> bool \<times> string \<times> string" where
  "readline_loop 0 buffer fp = (False, buffer, fp)"
| "readline_loop (Suc n) buffer [] = (False, buffer, [])"
| "readline_loop (Suc n) buffer (c # fp) =
    (if c = CHR 0x0A then (True, buffer, fp)
     else if \<not> isalnum c \<and> c \<noteq> CHR '' '' then (False, buffer, fp)
     else readline_loop n (buffer @ [c]) fp)"

definition readline :: "string \<Rightarrow> bool \<times> string \<times> string" where
  "readline fp = readline_loop BUFFERSZ [] fp"

fun dirtywork_loop :: "nat \<Rightarrow> string \<Rightarrow> u64 list option option" where
  "dirtywork_loop 0 data = Some (Some [])"
| "dirtywork_loop (Suc n) data =
    (let (address, rest) = strtoll16 data in
     if rest = data then Some None
     else do {
       assert_c (at rest 0 = CHR '' '' \<or> at rest 0 = CHR 0x00);
       addresses \<leftarrow> dirtywork_loop n (drop 1 rest);
       Some (map_option (\<lambda>as. word_of_int address # as) addresses) })"

definition dirtywork :: "nat \<Rightarrow> string \<Rightarrow> u64 list option option" where
  "dirtywork len buffer =
    (if at buffer 1 \<noteq> CHR '' '' \<or> len \<ge> BUFFERSZ \<or> len < 1 then Some None
     else dirtywork_loop len (drop 2 buffer))"

section \<open>Replaying a line\<close>

type_synonym lptable = "lphash \<times> lp_mem"

record replay_stats =
  malloc_count :: nat
  free_count :: nat
  calloc_count :: nat
  realloc_count :: nat

record 's replay =
  htbl :: lptable
  statsp :: replay_stats
  client :: 's

definition r_malloc :: "'s allocator \<Rightarrow> u64 \<Rightarrow> 's replay \<Rightarrow> u64 \<times> 's replay" where
  "r_malloc A sz R =
    (let (rptr, s) = do_malloc A sz (client R)
     in (rptr, R\<lparr>client := s, statsp := (statsp R)\<lparr>malloc_count := malloc_count (statsp R) + 1\<rparr>\<rparr>))"

definition r_realloc :: "'s allocator \<Rightarrow> u64 \<Rightarrow> u64 \<Rightarrow> 's replay \<Rightarrow> u64 \<times> 's replay" where
  "r_realloc A ptr sz R =
    (let (rptr, s) = do_realloc A ptr sz (client R)
     in (rptr, R\<lparr>client := s, statsp := (statsp R)\<lparr>realloc_count := realloc_count (statsp R) + 1\<rparr>\<rparr>))"

definition r_calloc :: "'s allocator \<Rightarrow> u64 \<Rightarrow> u64 \<Rightarrow> 's replay \<Rightarrow> u64 \<times> 's replay" where
  "r_calloc A cnt sz R =
    (let (rptr, s) = do_calloc A cnt sz (client R)
     in (rptr, R\<lparr>client := s, statsp := (statsp R)\<lparr>calloc_count := calloc_count (statsp R) + 1\<rparr>\<rparr>))"

definition r_free :: "'s allocator \<Rightarrow> u64 \<Rightarrow> 's replay \<Rightarrow> 's replay" where
  "r_free A ptr R =
    R\<lparr>client := do_free A ptr (client R), statsp := (statsp R)\<lparr>free_count := free_count (statsp R) + 1\<rparr>\<rparr>"

text \<open>The calls of \<open>lphash.c\<close> on the table of the run.\<close>

definition put :: "lp_env \<Rightarrow> u64 \<Rightarrow> u64 \<Rightarrow> 's replay \<Rightarrow> (bool \<times> 's replay) option" where
  "put E key val R = do {
     (ok, t) \<leftarrow> lphash_insert E (fst (htbl R)) key val (snd (htbl R));
     Some (ok, R\<lparr>htbl := t\<rparr>) }"

definition del :: "lp_env \<Rightarrow> u64 \<Rightarrow> 's replay \<Rightarrow> (bool \<times> 's replay) option" where
  "del E key R = do {
     (found, t) \<leftarrow> lphash_delete E (fst (htbl R)) key (snd (htbl R));
     Some (found, R\<lparr>htbl := t\<rparr>) }"

definition get :: "u64 \<Rightarrow> 's replay \<Rightarrow> u64 option" where
  "get key R = lphash_lookup (fst (htbl R)) key (snd (htbl R))"

text \<open>The assertion on the length of a line.\<close>

definition assert_length :: "nat \<Rightarrow> string \<Rightarrow> unit option" where
  "assert_length n buffer = assert_c (at buffer n = CHR 0x00 \<and> isalnum (at buffer (n - 1)))"

definition replay_malloc :: "lp_env \<Rightarrow> 's allocator \<Rightarrow> string \<Rightarrow> 's replay \<Rightarrow> (bool \<times> 's replay) option" where
  "replay_malloc E A buffer R =
    (if at buffer 1 \<noteq> CHR '' '' then Some (False, R)
     else do {
       assert_length MALLOCLEN buffer;
       addresses \<leftarrow> dirtywork MALLOCARGS buffer;
       case addresses of
         None \<Rightarrow> Some (False, R)
       | Some addresses \<Rightarrow> do {
           let sz = addresses ! 0;
           let key = addresses ! 1;
           let (val, R) = r_malloc A sz R;
           put E key val R } })"

definition replay_calloc :: "lp_env \<Rightarrow> 's allocator \<Rightarrow> string \<Rightarrow> 's replay \<Rightarrow> (bool \<times> 's replay) option" where
  "replay_calloc E A buffer R =
    (if at buffer 1 \<noteq> CHR '' '' then Some (False, R)
     else do {
       assert_length CALLOCLEN buffer;
       addresses \<leftarrow> dirtywork CALLOCARGS buffer;
       case addresses of
         None \<Rightarrow> Some (False, R)
       | Some addresses \<Rightarrow> do {
           let cnt = addresses ! 0;
           let sz = addresses ! 1;
           let key = addresses ! 2;
           let (val, R) = r_calloc A cnt sz R;
           put E key val R } })"

definition replay_realloc :: "lp_env \<Rightarrow> 's allocator \<Rightarrow> string \<Rightarrow> 's replay \<Rightarrow> (bool \<times> 's replay) option" where
  "replay_realloc E A buffer R =
    (if at buffer 1 \<noteq> CHR '' '' then Some (False, R)
     else do {
       assert_length REALLOCLEN buffer;
       addresses \<leftarrow> dirtywork REALLOCARGS buffer;
       case addresses of
         None \<Rightarrow> Some (False, R)
       | Some addresses \<Rightarrow> do {
           let ptr_in = addresses ! 0;
           let sz = addresses ! 1;
           let ptr_out = addresses ! 2;
           val_old \<leftarrow> (if ptr_in = 0 then Some 0 else get ptr_in R);
           if ptr_in \<noteq> 0 \<and> val_old = 0 then Some (False, R)
           else do {
             let (val_new, R) = r_realloc A val_old sz R;
             if sz = 0 then do {
               (_, R) \<leftarrow> del E ptr_in R;
               put E ptr_out val_new R }
             else if ptr_in = ptr_out then
               (if val_old = val_new then Some (True, R)
                else do {
                  (_, R) \<leftarrow> del E ptr_in R;
                  put E ptr_out val_new R })
             else do {
               (_, R) \<leftarrow> del E ptr_in R;
               put E ptr_out val_new R } } } })"

definition replay_free :: "lp_env \<Rightarrow> 's allocator \<Rightarrow> string \<Rightarrow> 's replay \<Rightarrow> (bool \<times> 's replay) option" where
  "replay_free E A buffer R =
    (if at buffer 1 \<noteq> CHR '' '' then Some (False, R)
     else do {
       assert_length FREELEN buffer;
       addresses \<leftarrow> dirtywork FREEARGS buffer;
       case addresses of
         None \<Rightarrow> Some (False, R)
       | Some addresses \<Rightarrow> do {
           let key = addresses ! 0;
           if key = 0 then Some (True, r_free A key R)
           else do {
             val \<leftarrow> get key R;
             if val \<noteq> 0 then do {
               let R = r_free A val R;
               (_, R) \<leftarrow> del E key R;
               Some (True, R) }
             else Some (True, R) } } })"

definition replayline :: "lp_env \<Rightarrow> 's allocator \<Rightarrow> string \<Rightarrow> 's replay \<Rightarrow> (bool \<times> 's replay) option" where
  "replayline E A buffer R =
    (if at buffer 1 \<noteq> CHR '' '' then Some (False, R)
     else let opchar = at buffer 0 in
       if opchar = CHR ''m'' then replay_malloc E A buffer R
       else if opchar = CHR ''f'' then replay_free E A buffer R
       else if opchar = CHR ''c'' then replay_calloc E A buffer R
       else if opchar = CHR ''r'' then replay_realloc E A buffer R
       else if opchar = CHR ''i'' \<or> opchar = CHR ''e'' then Some (True, R)
       else Some (False, R))"

section \<open>Replaying a file\<close>

text \<open>The result is the exit code and the number of lines replayed.\<close>

partial_function (option) replay_loop ::
  "lp_env \<Rightarrow> 's allocator \<Rightarrow> string \<Rightarrow> nat \<Rightarrow> 's replay \<Rightarrow> (int \<times> nat \<times> 's replay) option" where
  "replay_loop E A fp linecount R =
    (case readline fp of
       (got, buffer, fp) \<Rightarrow>
         if \<not> got then Some (0, linecount, R)
         else do {
           (ok, R) \<leftarrow> replayline E A buffer R;
           if \<not> ok then Some (1, linecount, R)
           else replay_loop E A fp (linecount + 1) R })"

text \<open>\<open>contents\<close> is what there is to be read, \<open>None\<close> when the file cannot be opened.\<close>

definition process_file ::
  "lp_env \<Rightarrow> 's allocator \<Rightarrow> string option \<Rightarrow> lphash \<Rightarrow> lp_mem \<Rightarrow> 's \<Rightarrow> (int \<times> nat \<times> replay_stats \<times> 's) option" where
  "process_file E A contents t m s = do {
     let stats = \<lparr>malloc_count = 0, free_count = 0, calloc_count = 0, realloc_count = 0\<rparr>;
     (ok, t, m) \<leftarrow> init_lphash E (Some t) m;
     t \<leftarrow> t;
     if \<not> ok then Some (1, 0, stats, s)
     else do {
       let R = \<lparr>htbl = (t, m), statsp = stats, client = s\<rparr>;
       (code, linecount, R) \<leftarrow>
         (case contents of
            None \<Rightarrow> Some (1, 0, R)
          | Some fp \<Rightarrow> replay_loop E A fp 0 R);
       _ \<leftarrow> delete_lphash E (fst (htbl R)) (snd (htbl R));
       Some (code, linecount, statsp R, client R) } }"

end
