(* ===== verification/Replay_Props.thy ===== *)
theory Replay_Props
  imports Replay Lphash_Props
begin

text \<open>
  The log and its replay: a line that \<open>mhook.c\<close> writes is read back by \<open>dirtywork\<close>, and a replay makes the calls of the
  log, in their order, with the addresses taken to those of the run.
\<close>

section \<open>Hexadecimal fields\<close>

lemma xdigit_hex: "n < 16 \<Longrightarrow> xdigit (hex ! n) = Some n"
proof -
  have "\<forall>n \<in> set [0..<16]. xdigit (hex ! n) = Some n"
    by (simp add: upt_rec hex_def xdigit_def between_def)
  then show "n < 16 \<Longrightarrow> xdigit (hex ! n) = Some n" by simp
qed

definition digits :: "nat \<Rightarrow> nat \<Rightarrow> string" where
  "digits n v = map (\<lambda>i. hex ! (v div 16 ^ (n - 1 - i) mod 16)) [0..<n]"

definition field :: "u64 \<Rightarrow> string" where
  "field v = digits 16 (unat v)"

lemma digits_Suc: "digits (Suc n) v = digits n (v div 16) @ [hex ! (v mod 16)]"
proof -
  have "v div 16 div 16 ^ (n - 1 - i) = v div 16 ^ (n - i)" if "i < n" for i
  proof -
    have "n - i = Suc (n - 1 - i)" using that by simp
    then show ?thesis by (simp add: div_mult2_eq)
  qed
  then show ?thesis by (simp add: digits_def)
qed

lemma digits_0: "digits n 0 = replicate n (CHR ''0'')"
  by (induction n) (simp_all add: digits_Suc replicate_append_same hex_def, simp add: digits_def)

lemma storehex_digits:
  "storehex (length a) n v (a @ replicate n (CHR ''0'') @ b) = a @ digits n (unat v) @ b"
proof (induction n arbitrary: v b)
  case (Suc n)
  have step: "(a @ replicate (Suc n) (CHR ''0'') @ b)[length a + n := d] = a @ replicate n (CHR ''0'') @ (d # b)" for d
  proof -
    have r: "replicate (Suc n) (CHR ''0'') = replicate n (CHR ''0'') @ [CHR ''0'']" by (simp add: replicate_append_same)
    show ?thesis unfolding r by (simp add: list_update_append)
  qed
  have "v AND 15 = take_bit 4 v" by (simp add: take_bit_eq_mask mask_numeral)
  then have v: "unat (drop_bit 4 v) = unat v div 16" "unat (v AND 15) = unat v mod 16"
    by (simp_all add: drop_bit_eq_div take_bit_eq_mod unat_div unat_mod)
  show ?case
  proof (cases "v = 0")
    case True
    then show ?thesis by (simp add: digits_0)
  next
    case False
    then show ?thesis unfolding storehex.simps step by (simp add: Suc.IH v digits_Suc word_gt_0)
  qed
qed (simp add: digits_def)

lemma digits_value: "hex_value (digits n v) = v mod 16 ^ n"
proof (induction n arbitrary: v)
  case (Suc n)
  have "16 * (v div 16 mod 16 ^ n) + v mod 16 = v mod 16 ^ Suc n" by (simp add: mod_mult2_eq)
  then show ?case using Suc [of "v div 16"] by (simp add: digits_Suc hex_value_def xdigit_hex)
qed (simp add: digits_def hex_value_def)

lemma field_value: "hex_value (field v) = unat v"
proof -
  have "unat v < 2 ^ 64" by (rule order_less_le_trans [OF unsigned_less]) simp
  then show ?thesis by (simp add: field_def digits_value)
qed

lemma digits_xdigit: "c \<in> set (digits n v) \<Longrightarrow> xdigit c \<noteq> None"
  by (auto simp: digits_def xdigit_hex)

lemma field_length [simp]: "length (field v) = 16"
  by (simp add: field_def digits_def)

lemma field_zero: "field 0 = replicate 16 (CHR ''0'')"
  by (simp add: field_def digits_0)

lemma store_field:
  "length a = buf \<Longrightarrow> storehexstring buf v (a @ field 0 @ b) = a @ field v @ b"
  using storehex_digits [of a 16 v b] unfolding field_zero storehexstring_def by (simp only: field_def)

text \<open>A number cut to the range of \<open>long long\<close>.\<close>

definition cut :: "u64 \<Rightarrow> u64" where
  "cut v = (if unat v < 2 ^ 63 then v else 2 ^ 63 - 1)"

lemma strtoll16_field:
  assumes "\<And>c. rest \<noteq> [] \<Longrightarrow> xdigit (hd rest) = None"
  shows "\<exists>n. strtoll16 (''0x'' @ field v @ rest) = (n, rest) \<and> word_of_int n = cut v"
proof -
  obtain d ds where f: "field v = d # ds" by (cases "field v") (use field_length [of v] in auto)
  have d: "xdigit d \<noteq> None" using digits_xdigit [of d 16 "unat v"] f by (simp add: field_def)
  have x: "xdigits (field v @ rest) = field v"
  proof -
    have "takeWhile (\<lambda>c. xdigit c \<noteq> None) (field v @ rest) = field v @ takeWhile (\<lambda>c. xdigit c \<noteq> None) rest"
      by (rule takeWhile_append2) (use digits_xdigit in \<open>auto simp: field_def\<close>)
    moreover have "takeWhile (\<lambda>c. xdigit c \<noteq> None) rest = []" using assms by (cases rest) auto
    ultimately show ?thesis by (simp add: xdigits_def)
  qed
  have "skip_0x (''0x'' @ field v @ rest) = field v @ rest" using d by (simp add: skip_0x_def f)
  moreover have "dropWhile isspace (''0x'' @ field v @ rest) = ''0x'' @ field v @ rest" by (simp add: isspace_def between_def)
  ultimately have "strtoll16 (''0x'' @ field v @ rest) = (min (int (unat v)) (2 ^ 63 - 1), rest)"
    using x f field_value [of v] unfolding strtoll16_def Let_def by simp
  moreover have "word_of_int (min (int (unat v)) (2 ^ 63 - 1)) = cut v"
  proof (cases "unat v < 2 ^ 63")
    case True
    then have "int (unat v) < int (2 ^ 63)" by (simp only: of_nat_less_iff)
    then show ?thesis using True by (simp add: cut_def min_def)
  next
    case False
    then have "int (2 ^ 63) \<le> int (unat v)" by (simp only: of_nat_le_iff not_less)
    then show ?thesis using False by (simp add: cut_def min_def)
  qed
  ultimately show ?thesis by blast
qed

section \<open>Lines\<close>

fun fields :: "u64 list \<Rightarrow> string" where
  "fields [] = []"
| "fields [v] = ''0x'' @ field v"
| "fields (v # vs) = ''0x'' @ field v @ '' '' @ fields vs"

lemma dirtywork_fields: "vs \<noteq> [] \<Longrightarrow> dirtywork_loop (length vs) (fields vs) = Some (Some (map cut vs))"
proof (induction vs rule: fields.induct)
  case (2 v)
  obtain n where "strtoll16 (''0x'' @ field v @ []) = (n, [])" "word_of_int n = cut v" using strtoll16_field [of "[]" v] by auto
  then show ?case by (simp add: at_def)
next
  case (3 v w vs)
  have sp: "xdigit (CHR '' '') = None" by (simp add: xdigit_def between_def)
  obtain n where "strtoll16 (''0x'' @ field v @ '' '' @ fields (w # vs)) = (n, '' '' @ fields (w # vs))" "word_of_int n = cut v"
    using strtoll16_field [of "'' '' @ fields (w # vs)" v] sp by auto
  then show ?case using 3 by (simp add: at_def)
qed simp

definition line :: "char \<Rightarrow> u64 list \<Rightarrow> string" where
  "line c vs = c # '' '' @ fields vs"

lemma at_Suc [simp]: "at (c # s) (Suc n) = at s n" "at (c # s) 0 = c"
  by (simp_all add: at_def)

lemma dirtywork_line: "vs \<noteq> [] \<Longrightarrow> length vs < BUFFERSZ \<Longrightarrow> dirtywork (length vs) (line c vs) = Some (Some (map cut vs))"
  using dirtywork_fields [of vs] by (cases vs) (simp_all add: dirtywork_def line_def)

lemma blank_fields: "blank_entry = ''  0x'' @ field 0 @ '' 0x'' @ field 0 @ '' 0x'' @ field 0 @ '' 0x'' @ field 0 @ '' 0x'' @ field 0 @ [CHR 0x0A]"
  by (simp add: blank_entry_def field_zero eval_nat_numeral)

text \<open>What \<open>_writelogentry\<close> writes for each of the calls.\<close>

lemma malloc_entry: "writelogentry (CHR ''m'') size1 size2 p q caller = line (CHR ''m'') [size1, p, caller] @ [CHR 0x0A]"
proof -
  let ?z = "'' 0x'' @ field 0"
  define b2 where "b2 = ?z @ ?z @ [CHR 0x0A]"
  have "blank_entry[0 := CHR ''m''] = ''m 0x'' @ field 0 @ '' 0x'' @ field 0 @ '' 0x'' @ field 0 @ b2"
    by (simp add: blank_fields b2_def)
  then have "storehexstring 42 caller (storehexstring 23 p (storehexstring 4 size1 (blank_entry[0 := CHR ''m'']))) =
      ''m 0x'' @ field size1 @ '' 0x'' @ field p @ '' 0x'' @ field caller @ b2"
    using store_field [of "''m 0x''" 4 size1 "'' 0x'' @ field 0 @ '' 0x'' @ field 0 @ b2"]
      store_field [of "''m 0x'' @ field size1 @ '' 0x''" 23 p "'' 0x'' @ field 0 @ b2"]
      store_field [of "''m 0x'' @ field size1 @ '' 0x'' @ field p @ '' 0x''" 42 caller b2]
    by simp
  moreover have "take 59 ((''m 0x'' @ field size1 @ '' 0x'' @ field p @ '' 0x'' @ field caller @ b2)[58 := CHR 0x0A]) =
      line (CHR ''m'') [size1, p, caller] @ [CHR 0x0A]"
    by (simp add: line_def b2_def list_update_append)
  ultimately show ?thesis by (simp add: writelogentry_def MALLOCLEN_def)
qed

lemma free_entry: "writelogentry (CHR ''f'') size1 size2 p q caller = line (CHR ''f'') [p, caller] @ [CHR 0x0A]"
proof -
  let ?z = "'' 0x'' @ field 0"
  define b2 where "b2 = ?z @ ?z @ ?z @ [CHR 0x0A]"
  have "blank_entry[0 := CHR ''f''] = ''f 0x'' @ field 0 @ '' 0x'' @ field 0 @ b2"
    by (simp add: blank_fields b2_def)
  then have "storehexstring 23 caller (storehexstring 4 p (blank_entry[0 := CHR ''f''])) = ''f 0x'' @ field p @ '' 0x'' @ field caller @ b2"
    using store_field [of "''f 0x''" 4 p "'' 0x'' @ field 0 @ b2"]
      store_field [of "''f 0x'' @ field p @ '' 0x''" 23 caller b2]
    by simp
  moreover have "take 40 ((''f 0x'' @ field p @ '' 0x'' @ field caller @ b2)[39 := CHR 0x0A]) = line (CHR ''f'') [p, caller] @ [CHR 0x0A]"
    by (simp add: line_def b2_def list_update_append)
  ultimately show ?thesis by (simp add: writelogentry_def FREELEN_def)
qed

text \<open>The entries with four fields.\<close>

lemma four_fields:
  assumes b: "blank_entry[0 := c] = [c] @ '' 0x'' @ field 0 @ '' 0x'' @ field 0 @ '' 0x'' @ field 0 @ '' 0x'' @ field 0 @ '' 0x'' @ field 0 @ [CHR 0x0A]"
  shows "take 78 ((storehexstring 61 v4 (storehexstring 42 v3 (storehexstring 23 v2 (storehexstring 4 v1 (blank_entry[0 := c])))))[77 := CHR 0x0A]) =
    line c [v1, v2, v3, v4] @ [CHR 0x0A]"
proof -
  define b2 where "b2 = '' 0x'' @ field 0 @ [CHR 0x0A]"
  have "storehexstring 61 v4 (storehexstring 42 v3 (storehexstring 23 v2 (storehexstring 4 v1 (blank_entry[0 := c])))) =
      [c] @ '' 0x'' @ field v1 @ '' 0x'' @ field v2 @ '' 0x'' @ field v3 @ '' 0x'' @ field v4 @ b2"
    using store_field [of "[c] @ '' 0x''" 4 v1 "'' 0x'' @ field 0 @ '' 0x'' @ field 0 @ '' 0x'' @ field 0 @ b2"]
      store_field [of "[c] @ '' 0x'' @ field v1 @ '' 0x''" 23 v2 "'' 0x'' @ field 0 @ '' 0x'' @ field 0 @ b2"]
      store_field [of "[c] @ '' 0x'' @ field v1 @ '' 0x'' @ field v2 @ '' 0x''" 42 v3 "'' 0x'' @ field 0 @ b2"]
      store_field [of "[c] @ '' 0x'' @ field v1 @ '' 0x'' @ field v2 @ '' 0x'' @ field v3 @ '' 0x''" 61 v4 b2] b
    by (simp add: b2_def)
  moreover have "take 78 (([c] @ '' 0x'' @ field v1 @ '' 0x'' @ field v2 @ '' 0x'' @ field v3 @ '' 0x'' @ field v4 @ b2)[77 := CHR 0x0A]) =
      line c [v1, v2, v3, v4] @ [CHR 0x0A]"
    by (simp add: line_def b2_def list_update_append)
  ultimately show ?thesis by simp
qed

lemma calloc_entry: "writelogentry (CHR ''c'') size1 size2 p q caller = line (CHR ''c'') [size1, size2, p, caller] @ [CHR 0x0A]"
  using four_fields [of "CHR ''c''" caller p size2 size1] by (simp add: writelogentry_def CALLOCLEN_def blank_fields)

lemma realloc_entry: "writelogentry (CHR ''r'') size1 size2 p q caller = line (CHR ''r'') [p, size1, q, caller] @ [CHR 0x0A]"
  using four_fields [of "CHR ''r''" caller q size1 p] by (simp add: writelogentry_def REALLOCLEN_def blank_fields)

section \<open>The calls of a log\<close>

text \<open>A call with its arguments and its result.\<close>

datatype call = Malloc u64 u64 | Free u64 | Calloc u64 u64 u64 | Realloc u64 u64 u64

fun letter :: "call \<Rightarrow> char" where
  "letter (Malloc sz p) = CHR ''m''"
| "letter (Free p) = CHR ''f''"
| "letter (Calloc n sz p) = CHR ''c''"
| "letter (Realloc p sz q) = CHR ''r''"

fun call_args :: "call \<Rightarrow> u64 list" where
  "call_args (Malloc sz p) = [sz, p]"
| "call_args (Free p) = [p]"
| "call_args (Calloc n sz p) = [n, sz, p]"
| "call_args (Realloc p sz q) = [p, sz, q]"

fun log_call :: "call \<Rightarrow> u64 \<Rightarrow> string" where
  "log_call (Malloc sz p) caller = writelogentry (CHR ''m'') sz 0 p 0 caller"
| "log_call (Free p) caller = writelogentry (CHR ''f'') 0 0 p 0 caller"
| "log_call (Calloc n sz p) caller = writelogentry (CHR ''c'') n sz p 0 caller"
| "log_call (Realloc p sz q) caller = writelogentry (CHR ''r'') sz 0 p q caller"

lemma log_call_line: "log_call k caller = line (letter k) (call_args k @ [caller]) @ [CHR 0x0A]"
  by (cases k) (simp_all add: malloc_entry free_entry calloc_entry realloc_entry)

lemma hex_alnum: "c \<in> set hex \<Longrightarrow> isalnum c"
  by (auto simp: hex_def isalnum_def between_def)

lemma field_alnum: "c \<in> set (field v) \<Longrightarrow> isalnum c"
proof -
  assume "c \<in> set (field v)"
  then obtain n where "c = hex ! (n mod 16)" by (auto simp: field_def digits_def)
  then have "n mod 16 < 16" "c = hex ! (n mod 16)" by simp_all
  then have "c \<in> set hex" using nth_mem [of "n mod 16" hex] by (simp add: hex_def del: nth_mem)
  then show ?thesis by (rule hex_alnum)
qed

lemma fields_chars: "c \<in> set (fields vs) \<Longrightarrow> isalnum c \<or> c = CHR '' ''"
  by (induction vs rule: fields.induct) (auto simp: field_alnum isalnum_def between_def dest: field_alnum)

lemma fields_length: "vs \<noteq> [] \<Longrightarrow> length (fields vs) = 19 * length vs - 1"
  by (induction vs rule: fields.induct) auto

lemma last_field: "vs \<noteq> [] \<Longrightarrow> isalnum (last (fields vs))"
proof (induction vs rule: fields.induct)
  case (2 v)
  have ne: "field v \<noteq> []" by (rule notI) (use field_length [of v] in simp)
  then have "last (field v) \<in> set (field v)" by (rule last_in_set)
  then have "isalnum (last (field v))" by (rule field_alnum)
  then show ?case using ne by simp
next
  case (3 v w vs)
  have "fields (w # vs) \<noteq> []" by (cases vs) simp_all
  then show ?case using 3 by simp
qed simp

lemma letter_alnum: "isalnum (letter k)"
  by (cases k) (simp_all add: isalnum_def between_def)

lemma line_ends:
  assumes "vs \<noteq> []"
  shows "at (line c vs) (19 * length vs + 1) = CHR 0x00" "isalnum (at (line c vs) (19 * length vs))"
proof -
  have l: "length (line c vs) = 19 * length vs + 1" using fields_length [OF assms] assms by (cases vs) (simp_all add: line_def)
  then show "at (line c vs) (19 * length vs + 1) = CHR 0x00" by (simp add: at_def)
  have "at (line c vs) (19 * length vs) = line c vs ! (length (line c vs) - 1)" using l by (simp add: at_def)
  also have "\<dots> = last (line c vs)" by (rule last_conv_nth [symmetric]) (simp add: line_def)
  also have "\<dots> = last (fields vs)" using assms fields_length [OF assms] by (cases vs) (auto simp: line_def)
  finally show "isalnum (at (line c vs) (19 * length vs))" using last_field [OF assms] by simp
qed

lemma readline_loop_line:
  "\<forall>c \<in> set s. isalnum c \<or> c = CHR '' '' \<Longrightarrow> length s < n \<Longrightarrow> readline_loop n b (s @ CHR 0x0A # fp) = (True, b @ s, fp)"
proof (induction s arbitrary: n b)
  case Nil
  then show ?case by (cases n) simp_all
next
  case (Cons c s)
  then obtain m where m: "n = Suc m" by (cases n) auto
  have "c \<noteq> CHR 0x0A" using Cons.prems(1) by (auto simp: isalnum_def between_def)
  then show ?case using Cons by (auto simp: m)
qed

lemma readline_call: "readline (log_call k caller @ fp) = (True, line (letter k) (call_args k @ [caller]), fp)"
proof -
  have "length (call_args k @ [caller]) \<le> 4" by (cases k) simp_all
  moreover have "length (line (letter k) (call_args k @ [caller])) = 19 * length (call_args k @ [caller]) + 1"
    by (subst line_def) (simp add: fields_length)
  ultimately have "length (line (letter k) (call_args k @ [caller])) < BUFFERSZ" by (simp add: BUFFERSZ_def)
  moreover have "\<forall>c \<in> set (line (letter k) (call_args k @ [caller])). isalnum c \<or> c = CHR '' ''"
    using letter_alnum [of k] by (auto simp: line_def dest: fields_chars)
  ultimately show ?thesis by (simp add: log_call_line readline_def readline_loop_line)
qed

text \<open>
  C16: The format of the log: the line that \<open>_writelogentry\<close> writes for any call is taken from the file by \<open>readline\<close> as a whole, whatever
  follows it, and \<open>dirtywork\<close> reads back the letter and all the numbers of the call, and its caller; numbers of \<open>2 ^ 63\<close> and
  more come back as \<open>2 ^ 63 - 1\<close>, since they are read by \<open>strtoll\<close>.
\<close>

theorem log_read_back:
  "\<exists>buffer. readline (log_call k caller @ fp) = (True, buffer, fp) \<and> at buffer 0 = letter k \<and>
     dirtywork (Suc (length (call_args k))) buffer =
       Some (Some (map (\<lambda>v. if unat v < 2 ^ 63 then v else 2 ^ 63 - 1) (call_args k @ [caller])))"
proof -
  have "length (call_args k @ [caller]) < BUFFERSZ" by (cases k) (simp_all add: BUFFERSZ_def)
  then have "dirtywork (Suc (length (call_args k))) (line (letter k) (call_args k @ [caller])) = Some (Some (map cut (call_args k @ [caller])))"
    using dirtywork_line [of "call_args k @ [caller]" "letter k"] by simp
  moreover have "cut = (\<lambda>v. if unat v < 2 ^ 63 then v else 2 ^ 63 - 1)" by (simp add: cut_def fun_eq_iff)
  ultimately show ?thesis using readline_call [of k caller fp] by (simp add: line_def)
qed

section \<open>What a replay does\<close>

text \<open>
  The abstract replay: \<open>f p\<close> is the stack of the addresses of the run that stand for the address \<open>p\<close> of the log, of which the last is
  used. The result is the flag of the line.
\<close>

definition current :: "(u64 \<Rightarrow> u64 list) \<Rightarrow> u64 \<Rightarrow> u64" where
  "current f p = (case f p of [] \<Rightarrow> 0 | v # _ \<Rightarrow> v)"

fun spec_call :: "'s allocator \<Rightarrow> call \<Rightarrow> (u64 \<Rightarrow> u64 list) \<times> 's \<Rightarrow> bool \<times> (u64 \<Rightarrow> u64 list) \<times> 's" where
  "spec_call A (Malloc sz p) (f, s) = (let (r, s) = do_malloc A sz s in (True, f(p := r # f p), s))"
| "spec_call A (Calloc n sz p) (f, s) = (let (r, s) = do_calloc A n sz s in (True, f(p := r # f p), s))"
| "spec_call A (Free p) (f, s) =
    (if p = 0 then (True, f, do_free A 0 s)
     else if current f p \<noteq> 0 then (True, f(p := tl (f p)), do_free A (current f p) s)
     else (True, f, s))"
| "spec_call A (Realloc p sz q) (f, s) =
    (if p \<noteq> 0 \<and> current f p = 0 then (False, f, s)
     else let v = (if p = 0 then 0 else current f p);
              (r, s) = do_realloc A v sz s
          in if sz \<noteq> 0 \<and> p = q \<and> v = r then (True, f, s)
             else (let f = f(p := tl (f p)) in (True, f(q := r # f q), s)))"

fun cut_call :: "call \<Rightarrow> call" where
  "cut_call (Malloc sz p) = Malloc (cut sz) (cut p)"
| "cut_call (Free p) = Free (cut p)"
| "cut_call (Calloc n sz p) = Calloc (cut n) (cut sz) (cut p)"
| "cut_call (Realloc p sz q) = Realloc (cut p) (cut sz) (cut q)"

text \<open>The table of the run stands for \<open>f\<close>, with room for \<open>n\<close> more entries.\<close>

definition follows :: "lp_env \<Rightarrow> nat \<Rightarrow> (u64 \<Rightarrow> u64 list) \<Rightarrow> 's replay \<Rightarrow> bool" where
  "follows E n f R \<longleftrightarrow> lp_represents E (fst (htbl R)) (snd (htbl R)) f \<and> mmap_total E \<and> bincount (fst (htbl R)) + n \<le> 2 ^ 31 - 255"

lemma follows_client [simp]: "follows E n f (R\<lparr>client := s, statsp := x\<rparr>) = follows E n f R"
  by (simp add: follows_def)

lemma get_run: "follows E n f R \<Longrightarrow> get k R = Some (current f k)"
  using lphash_lookup_run [of E "fst (htbl R)" "snd (htbl R)" f k] by (simp add: follows_def get_def current_def)

lemma put_run:
  assumes "follows E (Suc n) f R"
  shows "\<exists>R'. put E k v R = Some (True, R') \<and> client R' = client R \<and> follows E n (f(k := v # f k)) R'"
proof -
  have r: "lp_represents E (fst (htbl R)) (snd (htbl R)) f" "mmap_total E" "bincount (fst (htbl R)) \<le> 2 ^ 31 - 256"
    "bincount (fst (htbl R)) + Suc n \<le> 2 ^ 31 - 255"
    using assms by (simp_all add: follows_def)
  obtain t m where "lphash_insert E (fst (htbl R)) k v (snd (htbl R)) = Some (True, t, m)" "lp_represents E t m (f(k := v # f k))"
    "bincount t \<le> bincount (fst (htbl R)) + 1"
    using lphash_insert_run [OF r(1,3), of k v] r(2) by auto
  then show ?thesis using r(2,4) by (simp add: put_def follows_def)
qed

lemma del_run:
  assumes "follows E n f R"
  shows "\<exists>b R'. del E k R = Some (b, R') \<and> client R' = client R \<and> follows E n (f(k := tl (f k))) R'"
proof -
  have r: "lp_represents E (fst (htbl R)) (snd (htbl R)) f" "mmap_total E" "bincount (fst (htbl R)) + n \<le> 2 ^ 31 - 255"
    using assms by (simp_all add: follows_def)
  have "can_shrink E (fst (htbl R))" using r(2) by (simp add: can_shrink_def)
  from lphash_delete_run [OF r(1) this, of k]
  obtain t m where "lphash_delete E (fst (htbl R)) k (snd (htbl R)) = Some (f k \<noteq> [], t, m)" "lp_represents E t m (f(k := tl (f k)))"
    "bincount t \<le> bincount (fst (htbl R))" by blast
  then show ?thesis using r(2,3) by (simp add: del_def follows_def)
qed

lemma replace_run:
  assumes "follows E (Suc n) f R"
  shows "\<exists>R'. (do { (_, R) \<leftarrow> del E p R; put E q v R }) = Some (True, R') \<and> client R' = client R \<and>
    follows E n ((f(p := tl (f p)))(q := v # (f(p := tl (f p))) q)) R'"
proof -
  obtain b R1 where 1: "del E p R = Some (b, R1)" "client R1 = client R" "follows E (Suc n) (f(p := tl (f p))) R1" using del_run [OF assms] by blast
  obtain R2 where "put E q v R1 = Some (True, R2)" "client R2 = client R1" "follows E n ((f(p := tl (f p)))(q := v # (f(p := tl (f p))) q)) R2"
    using put_run [OF 1(3)] by blast
  then show ?thesis using 1 by simp
qed

lemma line_at [simp]: "at (line c vs) 0 = c" "at (line c vs) (Suc 0) = CHR '' ''"
  by (simp_all add: line_def)

lemma line_assert: "vs \<noteq> [] \<Longrightarrow> k = 19 * length vs + 1 \<Longrightarrow> assert_length k (line c vs) = Some ()"
  using line_ends [of vs c] by (simp add: assert_length_def)

lemma line_words: "vs \<noteq> [] \<Longrightarrow> length vs \<le> 4 \<Longrightarrow> length vs = k \<Longrightarrow> dirtywork k (line c vs) = Some (Some (map cut vs))"
  using dirtywork_line [of vs c] by (simp add: BUFFERSZ_def)

lemma replay_malloc_run:
  assumes "follows E (Suc n) f R"
  shows "\<exists>R'. replay_malloc E A (line (CHR ''m'') [sz, p, caller]) R = Some (True, R') \<and>
    spec_call A (Malloc (cut sz) (cut p)) (f, client R) = (True, (f(cut p := fst (do_malloc A (cut sz) (client R)) # f (cut p))), client R') \<and>
    follows E n (f(cut p := fst (do_malloc A (cut sz) (client R)) # f (cut p))) R'"
proof -
  obtain r R1 where r: "r_malloc A (cut sz) R = (r, R1)" by fastforce
  then have 1: "r = fst (do_malloc A (cut sz) (client R))" "client R1 = snd (do_malloc A (cut sz) (client R))" "follows E (Suc n) f R1"
    using assms by (auto simp: r_malloc_def split: prod.splits)
  obtain R2 where "put E (cut p) r R1 = Some (True, R2)" "client R2 = client R1" "follows E n (f(cut p := r # f (cut p))) R2"
    using put_run [OF 1(3)] by blast
  then show ?thesis using r 1
    by (simp add: replay_malloc_def line_assert line_words MALLOCLEN_def MALLOCARGS_def split_beta)
qed

lemma replay_calloc_run:
  assumes "follows E (Suc n) f R"
  shows "\<exists>R'. replay_calloc E A (line (CHR ''c'') [cnt, sz, p, caller]) R = Some (True, R') \<and>
    spec_call A (Calloc (cut cnt) (cut sz) (cut p)) (f, client R) =
      (True, (f(cut p := fst (do_calloc A (cut cnt) (cut sz) (client R)) # f (cut p))), client R') \<and>
    follows E n (f(cut p := fst (do_calloc A (cut cnt) (cut sz) (client R)) # f (cut p))) R'"
proof -
  obtain r R1 where r: "r_calloc A (cut cnt) (cut sz) R = (r, R1)" by fastforce
  then have 1: "r = fst (do_calloc A (cut cnt) (cut sz) (client R))" "client R1 = snd (do_calloc A (cut cnt) (cut sz) (client R))" "follows E (Suc n) f R1"
    using assms by (auto simp: r_calloc_def split: prod.splits)
  obtain R2 where "put E (cut p) r R1 = Some (True, R2)" "client R2 = client R1" "follows E n (f(cut p := r # f (cut p))) R2"
    using put_run [OF 1(3)] by blast
  then show ?thesis using r 1
    by (simp add: replay_calloc_def line_assert line_words CALLOCLEN_def CALLOCARGS_def split_beta)
qed

lemma follows_less: "follows E (Suc n) f R \<Longrightarrow> follows E n f R"
  by (simp add: follows_def)

lemma r_free_sel [simp]: "client (r_free A p R) = do_free A p (client R)" "follows E n f (r_free A p R) = follows E n f R" "htbl (r_free A p R) = htbl R"
  by (simp_all add: r_free_def follows_def)

lemma replay_free_run:
  assumes "follows E (Suc n) f R"
  shows "\<exists>R' f'. replay_free E A (line (CHR ''f'') [p, caller]) R = Some (True, R') \<and>
    spec_call A (Free (cut p)) (f, client R) = (True, f', client R') \<and> follows E n f' R'"
proof -
  note run = replay_free_def line_assert line_words FREELEN_def FREEARGS_def
  consider "cut p = 0" | "cut p \<noteq> 0" "current f (cut p) = 0" | "cut p \<noteq> 0" "current f (cut p) \<noteq> 0" by blast
  then show ?thesis
  proof cases
    case 1
    then show ?thesis using follows_less [OF assms] by (simp add: run)
  next
    case 2
    then show ?thesis using follows_less [OF assms] get_run [OF assms] by (simp add: run)
  next
    case 3
    obtain b R1 where "del E (cut p) (r_free A (current f (cut p)) R) = Some (b, R1)" "client R1 = do_free A (current f (cut p)) (client R)"
      "follows E (Suc n) (f(cut p := tl (f (cut p)))) R1"
      using del_run [of E "Suc n" f "r_free A (current f (cut p)) R" "cut p"] assms by auto
    moreover have "follows E n (f(cut p := tl (f (cut p)))) R1" using follows_less calculation(3) .
    ultimately show ?thesis using 3 get_run [OF assms] by (simp add: run)
  qed
qed

lemma replay_realloc_run:
  assumes "follows E (Suc n) f R"
  shows "\<exists>ok R' f'. replay_realloc E A (line (CHR ''r'') [p, sz, q, caller]) R = Some (ok, R') \<and>
    spec_call A (Realloc (cut p) (cut sz) (cut q)) (f, client R) = (ok, f', client R') \<and> follows E n f' R'"
proof -
  note run = replay_realloc_def line_assert line_words REALLOCLEN_def REALLOCARGS_def get_run [OF assms]
  define P where "P = cut p"
  define Q where "Q = cut q"
  define v where "v = (if P = 0 then 0 else current f P)"
  have old: "(if P = 0 then Some 0 else Some (current f P)) = Some v" by (simp add: v_def)
  show ?thesis
  proof (cases "P \<noteq> 0 \<and> v = 0")
    case True
    then show ?thesis using follows_less [OF assms] old by (simp add: run P_def [symmetric]) (auto simp: v_def)
  next
    case known: False
    obtain r R1 where r: "r_realloc A v (cut sz) R = (r, R1)" by fastforce
    then have 1: "do_realloc A v (cut sz) (client R) = (r, client R1)" "follows E (Suc n) f R1"
      using assms by (auto simp: r_realloc_def split: prod.splits)
    obtain R2 where R2: "(do { (_, R) \<leftarrow> del E P R1; put E Q r R }) = Some (True, R2)" "client R2 = client R1"
      "follows E n ((f(P := tl (f P)))(Q := r # (f(P := tl (f P))) Q)) R2"
      using replace_run [OF 1(2), of P Q r] by blast
    define same where "same = (cut sz \<noteq> 0 \<and> P = Q \<and> v = r)"
    have "replay_realloc E A (line (CHR ''r'') [p, sz, q, caller]) R = Some (True, if same then R1 else R2)"
    proof (cases "P = 0")
      case True
      then show ?thesis using r R2(1) by (auto simp: run P_def [symmetric] Q_def [symmetric] v_def same_def Let_def)
    next
      case False
      then show ?thesis using known r R2(1) by (auto simp: run P_def [symmetric] Q_def [symmetric] v_def same_def Let_def)
    qed
    moreover have "spec_call A (Realloc P (cut sz) Q) (f, client R) =
        (True, if same then f else (f(P := tl (f P)))(Q := r # (f(P := tl (f P))) Q), client R1)"
      using known 1(1) by (auto simp: v_def same_def Let_def split: if_splits)
    ultimately show ?thesis using R2(2,3) follows_less [OF 1(2)]
      by (intro exI [of _ True] exI [of _ "if same then R1 else R2"]) (auto simp: P_def Q_def)
  qed
qed

lemma replayline_run:
  assumes "follows E (Suc n) f R"
  shows "\<exists>ok R' f'. replayline E A (line (letter k) (call_args k @ [caller])) R = Some (ok, R') \<and>
    spec_call A (cut_call k) (f, client R) = (ok, f', client R') \<and> follows E n f' R'"
proof (cases k)
  case (Malloc sz p)
  then show ?thesis using replay_malloc_run [OF assms, of A sz p caller] by (auto simp: replayline_def Let_def)
next
  case (Free p)
  then show ?thesis using replay_free_run [OF assms, of A p caller] by (auto simp: replayline_def Let_def)
next
  case (Calloc cnt sz p)
  then show ?thesis using replay_calloc_run [OF assms, of A cnt sz p caller] by (auto simp: replayline_def Let_def)
next
  case (Realloc p sz q)
  then show ?thesis using replay_realloc_run [OF assms, of A p sz q caller] by (auto simp: replayline_def Let_def)
qed

section \<open>A whole log\<close>

text \<open>The exit code, the number of lines, and the final state of the allocator.\<close>

fun spec_calls :: "'s allocator \<Rightarrow> call list \<Rightarrow> nat \<Rightarrow> (u64 \<Rightarrow> u64 list) \<times> 's \<Rightarrow> int \<times> nat \<times> 's" where
  "spec_calls A [] n fs = (0, n, snd fs)"
| "spec_calls A (k # ks) n fs =
    (let (ok, fs) = spec_call A k fs in if ok then spec_calls A ks (n + 1) fs else (1, n, snd fs))"

lemma replay_loop_run:
  assumes "follows E (length ks + n) f R"
  shows "\<exists>code l R' f'. replay_loop E A (concat (map (\<lambda>(k, caller). log_call k caller) ks)) c R = Some (code, l, R') \<and>
    spec_calls A (map (\<lambda>(k, caller). cut_call k) ks) c (f, client R) = (code, l, client R') \<and> follows E n f' R'"
  using assms
proof (induction ks arbitrary: c f R)
  case Nil
  then show ?case by (subst replay_loop.simps) (auto simp: readline_def BUFFERSZ_def eval_nat_numeral)
next
  case (Cons kc ks)
  obtain k caller where kc: "kc = (k, caller)" by (cases kc)
  define fp where "fp = concat (map (\<lambda>(k, caller). log_call k caller) ks)"
  obtain ok R1 f1 where 1: "replayline E A (line (letter k) (call_args k @ [caller])) R = Some (ok, R1)"
    "spec_call A (cut_call k) (f, client R) = (ok, f1, client R1)" "follows E (length ks + n) f1 R1"
    using replayline_run [of E "length ks + n" f R A k caller] Cons.prems by auto
  have step: "replay_loop E A (log_call k caller @ fp) c R =
      (if \<not> ok then Some (1, c, R1) else replay_loop E A fp (c + 1) R1)"
    by (subst replay_loop.simps) (simp add: readline_call 1(1))
  show ?case
  proof (cases ok)
    case True
    then show ?thesis using Cons.IH [OF 1(3), of "c + 1"] step 1(2) by (auto simp: kc fp_def Let_def)
  next
    case False
    then show ?thesis using step 1 by (auto simp: kc fp_def Let_def follows_def)
  qed
qed

lemma process_log:
  assumes "mmap_fresh (lphash_env mm)" "mmap_total (lphash_env mm)" "finite (regions m)" "length ks \<le> 2 ^ 31 - 511"
  shows "\<exists>code l st s'. process_file (lphash_env mm) A (Some (concat (map (\<lambda>(k, caller). log_call k caller) ks))) t m s = Some (code, l, st, s') \<and>
    spec_calls A (map (\<lambda>(k, caller). cut_call k) ks) 0 (\<lambda>_. [], s) = (code, l, s')"
proof -
  let ?E = "lphash_env mm" and ?fp = "concat (map (\<lambda>(k, caller). log_call k caller) ks)"
  obtain t1 m1 where i: "init_lphash ?E (Some t) m = Some (True, Some t1, m1)" "lp_represents ?E t1 m1 (\<lambda>_. [])" "bincount t1 = 256"
    using init_lphash_run [OF lphash_env_ok [OF assms(1)] _ assms(2,3), of t] by auto
  define R :: "'a replay" where "R = \<lparr>htbl = (t1, m1), statsp = \<lparr>malloc_count = 0, free_count = 0, calloc_count = 0, realloc_count = 0\<rparr>, client = s\<rparr>"
  have "follows ?E (length ks + 0) (\<lambda>_. []) R" using i(2,3) assms(2,4) by (simp add: follows_def R_def)
  then obtain code l R' f' where r: "replay_loop ?E A ?fp 0 R = Some (code, l, R')"
    "spec_calls A (map (\<lambda>(k, caller). cut_call k) ks) 0 (\<lambda>_. [], client R) = (code, l, client R')" "follows ?E 0 f' R'"
    using replay_loop_run [of ?E ks 0 "\<lambda>_. []" R A 0] by blast
  obtain c where c: "represents ?E (fst (htbl R')) (snd (htbl R')) c" using r(3) by (auto simp: follows_def lp_represents_def)
  obtain m2 where "delete_lphash ?E (fst (htbl R')) (snd (htbl R')) = Some m2"
    using delete_metadata_correct [OF c] by (auto simp: delete_lphash_eq)
  then show ?thesis using i(1) r(1,2) by (simp add: process_file_def R_def)
qed

text \<open>
  C15: A replay makes the calls of the log: for the log that the hooks write for any calls \<open>ks\<close>, up to \<open>2 ^ 31 - 511\<close> of them, and any
  allocator, \<open>process_file\<close> returns, and the exit code, the number of lines and the final state of the allocator are those
  of the abstract replay of the calls, through all the resizing of its table, when \<open>mmap\<close> does not fail.
\<close>

theorem replay_follows_log:
  assumes "mmap_fresh (lphash_env mm)" "mmap_total (lphash_env mm)" "finite (regions m)" "length ks \<le> 2 ^ 31 - 511"
  shows "\<exists>code l st s'. process_file (lphash_env mm) A (Some (concat (map (\<lambda>(k, caller). log_call k caller) ks))) t m s = Some (code, l, st, s') \<and>
    spec_calls A (map (\<lambda>(k, caller). cut_call k) ks) 0 (\<lambda>_. [], s) = (code, l, s')"
  using assms by (rule process_log)

definition bump :: "u64 allocator" where
  "bump = \<lparr>do_malloc = (\<lambda>sz s. (s, s + 16)), do_free = (\<lambda>p s. s), do_calloc = (\<lambda>n sz s. (s, s + 16)), do_realloc = (\<lambda>p sz s. (s, s + 16))\<rparr>"

theorem replay_follows_log_witness:
  "\<exists>t st. process_file (lphash_env first_fit) bump
       (Some (log_call (Malloc 8 64) 1 @ log_call (Realloc 64 100 96) 2 @ log_call (Realloc 64 1 32) 3 @ log_call (Free 96) 4))
       t (boot_mem (lphash_env first_fit)) 4096 = Some (1, 2, st, 4128)"
proof -
  define ks where "ks = [(Malloc 8 64, 1), (Realloc 64 100 96, 2), (Realloc 64 1 32, 3), (Free 96, 4 :: u64)]"
  have fin: "finite (regions (boot_mem (lphash_env first_fit)))" by simp
  have "length ks \<le> 2 ^ 31 - 511" by (simp add: ks_def)
  note r = replay_follows_log [OF lphash_example fin this, of bump undefined 4096]
  have "spec_calls bump (map (\<lambda>(k, caller). cut_call k) ks) 0 (\<lambda>_. [], 4096) = (1, 2, 4128)"
    by (simp add: ks_def bump_def cut_def current_def)
  moreover have "concat (map (\<lambda>(k, caller). log_call k caller) ks) =
      log_call (Malloc 8 64) 1 @ log_call (Realloc 64 100 96) 2 @ log_call (Realloc 64 1 32) 3 @ log_call (Free 96) 4"
    by (simp only: ks_def list.map concat.simps prod.case append_Nil2)
  ultimately show ?thesis using r by auto
qed

section \<open>A run is reproduced\<close>

text \<open>What a program asks, with the address of the caller, and the calls of the log.\<close>

datatype client_call = Ask_malloc u64 | Ask_free u64 | Ask_calloc u64 u64 | Ask_realloc u64 u64

fun client_step :: "'s allocator \<Rightarrow> client_call \<Rightarrow> u64 \<Rightarrow> 's hooked \<Rightarrow> call \<times> 's hooked" where
  "client_step A (Ask_malloc sz) caller h = (let (p, h) = hooked_malloc A sz caller h in (Malloc sz p, h))"
| "client_step A (Ask_free p) caller h = (Free p, hooked_free A p caller h)"
| "client_step A (Ask_calloc n sz) caller h = (let (p, h) = hooked_calloc A n sz caller h in (Calloc n sz p, h))"
| "client_step A (Ask_realloc p sz) caller h = (let (q, h) = hooked_realloc A p sz caller h in (Realloc p sz q, h))"

fun client_run :: "'s allocator \<Rightarrow> (client_call \<times> u64) list \<Rightarrow> 's hooked \<Rightarrow> (call \<times> u64) list \<times> 's hooked" where
  "client_run A [] h = ([], h)"
| "client_run A ((c, caller) # cs) h =
    (let (k, h) = client_step A c caller h; (ks, h) = client_run A cs h in ((k, caller) # ks, h))"

text \<open>The calls of a sound run: blocks are released once, new ones are not in use, and all numbers are below \<open>2 ^ 63\<close>.\<close>

fun blocks_after :: "call \<Rightarrow> u64 set \<Rightarrow> u64 set" where
  "blocks_after (Malloc sz p) L = insert p L - {0}"
| "blocks_after (Calloc n sz p) L = insert p L - {0}"
| "blocks_after (Free p) L = L - {p}"
| "blocks_after (Realloc p sz q) L = insert q (L - {p}) - {0}"

fun call_fits :: "call \<Rightarrow> u64 set \<Rightarrow> bool" where
  "call_fits (Malloc sz p) L \<longleftrightarrow> p \<notin> L"
| "call_fits (Calloc n sz p) L \<longleftrightarrow> p \<notin> L"
| "call_fits (Free p) L \<longleftrightarrow> p = 0 \<or> p \<in> L"
| "call_fits (Realloc p sz q) L \<longleftrightarrow> (p = 0 \<or> p \<in> L) \<and> q \<notin> L - {p} \<and> (sz \<noteq> 0 \<longrightarrow> q \<noteq> 0)"

fun sound_calls :: "call list \<Rightarrow> u64 set \<Rightarrow> bool" where
  "sound_calls [] L \<longleftrightarrow> True"
| "sound_calls (k # ks) L \<longleftrightarrow> call_fits k L \<and> (\<forall>v \<in> set (call_args k). unat v < 2 ^ 63) \<and> sound_calls ks (blocks_after k L)"

text \<open>The effect of a call, and its result, on the allocator alone.\<close>

fun made_by :: "'s allocator \<Rightarrow> call \<Rightarrow> 's \<Rightarrow> 's \<Rightarrow> bool" where
  "made_by A (Malloc sz p) s s' \<longleftrightarrow> do_malloc A sz s = (p, s')"
| "made_by A (Free p) s s' \<longleftrightarrow> do_free A p s = s'"
| "made_by A (Calloc n sz p) s s' \<longleftrightarrow> do_calloc A n sz s = (p, s')"
| "made_by A (Realloc p sz q) s s' \<longleftrightarrow> do_realloc A p sz s = (q, s')"

lemma client_step_run:
  assumes "client_step A c caller h = (k, h')" "malloc_hook_active h" "logfd h"
  shows "made_by A k (heap h) (heap h')" "log h' = log h @ log_call k caller" "malloc_hook_active h'" "logfd h'"
  using assms
  by (cases c; auto simp: hooked_malloc_def hooked_free_def hooked_calloc_def hooked_realloc_def my_malloc_hook_def my_free_hook_def
      my_calloc_hook_def my_realloc_hook_def write_log_def Let_def split: prod.splits)+

text \<open>The table of a replay in the same state: each block in use stands for itself.\<close>

definition mirrors :: "u64 set \<Rightarrow> (u64 \<Rightarrow> u64 list) \<Rightarrow> bool" where
  "mirrors L f \<longleftrightarrow> 0 \<notin> L \<and> (\<forall>p. p \<noteq> 0 \<longrightarrow> f p = (if p \<in> L then [p] else []))"

lemma mirrors_step:
  assumes "mirrors L f" "call_fits k L" "made_by A k s s'"
  shows "\<exists>f'. spec_call A k (f, s) = (True, f', s') \<and> mirrors (blocks_after k L) f'"
proof (cases k)
  case (Malloc sz p)
  then have "mirrors (blocks_after k L) (f(p := p # f p))" using assms(1,2) by (auto simp: mirrors_def)
  then show ?thesis using Malloc assms(3) by simp
next
  case (Calloc n sz p)
  then have "mirrors (blocks_after k L) (f(p := p # f p))" using assms(1,2) by (auto simp: mirrors_def)
  then show ?thesis using Calloc assms(3) by simp
next
  case (Free p)
  show ?thesis
  proof (cases "p = 0")
    case True
    then show ?thesis using Free assms by (simp add: mirrors_def)
  next
    case False
    then have "current f p = p" "p \<in> L" using Free assms(1,2) by (auto simp: mirrors_def current_def)
    moreover have "mirrors (blocks_after k L) (f(p := tl (f p)))" using Free False assms(1) by (simp add: mirrors_def)
    ultimately show ?thesis using Free False assms(3) by simp
  qed
next
  case (Realloc p sz q)
  have v: "p \<noteq> 0 \<Longrightarrow> current f p = p" using Realloc assms(1,2) by (auto simp: mirrors_def current_def)
  have do: "do_realloc A (if p = 0 then 0 else current f p) sz s = (q, s')" using Realloc assms(3) v by (cases "p = 0") simp_all
  define g where "g = f(p := tl (f p))"
  have g: "x \<noteq> 0 \<Longrightarrow> g x = (if x \<in> L - {p} then [x] else [])" for x using assms(1) by (simp add: mirrors_def g_def)
  have q: "q \<notin> L - {p}" "sz \<noteq> 0 \<Longrightarrow> q \<noteq> 0" "p = 0 \<or> p \<in> L" using Realloc assms(2) by simp_all
  have new: "mirrors (blocks_after k L) (g(q := q # g q))"
    using g q(1) assms(1) Realloc by (auto simp: mirrors_def)
  have stay: "mirrors (blocks_after k L) f" if "p = q" "q \<noteq> 0"
    using that q(3) assms(1) Realloc by (auto simp: mirrors_def)
  show ?thesis
  proof (cases "sz \<noteq> 0 \<and> p = q")
    case True
    then show ?thesis using do v q(2) stay Realloc by (simp add: Let_def)
  next
    case False
    then have "spec_call A k (f, s) = (True, g(q := q # g q), s')"
      using do v by (cases "p = 0") (auto simp: Realloc g_def Let_def)
    then show ?thesis using new by blast
  qed
qed

lemma client_run_mirrored:
  assumes "client_run A cs h = (ks, h')" "malloc_hook_active h" "logfd h" "sound_calls (map fst ks) L" "mirrors L f"
  shows "log h' = log h @ concat (map (\<lambda>(k, caller). log_call k caller) ks)"
    "spec_calls A (map (\<lambda>(k, caller). cut_call k) ks) n (f, heap h) = (0, n + length ks, heap h')"
proof -
  have "log h' = log h @ concat (map (\<lambda>(k, caller). log_call k caller) ks) \<and>
    spec_calls A (map (\<lambda>(k, caller). cut_call k) ks) n (f, heap h) = (0, n + length ks, heap h')"
    using assms
  proof (induction cs arbitrary: h ks L f n)
    case (Cons cc cs)
    obtain c caller where cc: "cc = (c, caller)" by (cases cc)
    obtain k h1 where 1: "client_step A c caller h = (k, h1)" by fastforce
    obtain ls h2 where 2: "client_run A cs h1 = (ls, h2)" by fastforce
    have e: "ks = (k, caller) # ls" "h2 = h'" using Cons.prems(1) 1 2 by (simp_all add: cc)
    note s = client_step_run [OF 1 Cons.prems(2,3)]
    have k: "call_fits k L" "\<forall>v \<in> set (call_args k). unat v < 2 ^ 63" "sound_calls (map fst ls) (blocks_after k L)"
      using Cons.prems(4) by (simp_all add: e)
    have cut: "cut_call k = k" using k(2) by (cases k) (simp_all add: cut_def)
    obtain f1 where f1: "spec_call A k (f, heap h) = (True, f1, heap h1)" "mirrors (blocks_after k L) f1"
      using mirrors_step [OF Cons.prems(5) k(1) s(1)] by blast
    have "log h2 = log h1 @ concat (map (\<lambda>(k, caller). log_call k caller) ls) \<and>
      spec_calls A (map (\<lambda>(k, caller). cut_call k) ls) (n + 1) (f1, heap h1) = (0, n + 1 + length ls, heap h2)"
      using Cons.IH [OF 2 [unfolded e(2)] s(3,4) k(3) f1(2)] e(2) by blast
    then show ?case using s(2) f1(1) cut by (simp add: e)
  qed simp
  then show "log h' = log h @ concat (map (\<lambda>(k, caller). log_call k caller) ks)"
    "spec_calls A (map (\<lambda>(k, caller). cut_call k) ks) n (f, heap h) = (0, n + length ks, heap h')" by simp_all
qed

text \<open>
  C14: A log reproduces the run: when a program that uses the allocator soundly runs under the hooks of \<open>mhook.c\<close>, and its log is
  replayed from the same start, the replay succeeds for every line and brings the allocator to the same state,
  with every block at the address it had, as long as no \<open>realloc\<close> of the program failed.
\<close>

theorem replay_reproduces_run:
  assumes "mmap_fresh (lphash_env mm)" "mmap_total (lphash_env mm)" "finite (regions m)" "length cs \<le> 2 ^ 31 - 511"
    and run: "client_run A cs h = (ks, h')" "malloc_hook_active h" "logfd h" "log h = []" and sound: "sound_calls (map fst ks) {}"
  shows "\<exists>st. process_file (lphash_env mm) A (Some (log h')) t m (heap h) = Some (0, length ks, st, heap h')"
proof -
  have "mirrors {} (\<lambda>_. [])" by (simp add: mirrors_def)
  note c = client_run_mirrored [OF run(1-3) sound this]
  have "length ks = length cs"
    using run(1) by (induction cs arbitrary: h ks) (auto split: prod.splits)
  then show ?thesis
    using process_log [OF assms(1-3), of ks A t "heap h"] c(1) c(2) [of 0] run(4) assms(4) by auto
qed

theorem replay_reproduces_run_witness:
  "\<exists>ks h' t st. client_run bump [(Ask_malloc 8, 1), (Ask_realloc 4096 100, 2), (Ask_free 4112, 3)]
       \<lparr>heap = 4096, malloc_hook_active = True, logfd = True, log = []\<rparr> = (ks, h') \<and>
     process_file (lphash_env first_fit) bump (Some (log h')) t (boot_mem (lphash_env first_fit)) 4096 = Some (0, 3, st, heap h') \<and>
     heap h' = 4128"
proof -
  define cs where "cs = [(Ask_malloc 8, 1), (Ask_realloc 4096 100, 2), (Ask_free 4112, 3 :: u64)]"
  define h where "h = \<lparr>heap = 4096 :: u64, malloc_hook_active = True, logfd = True, log = []\<rparr>"
  obtain ks h' where run: "client_run bump cs h = (ks, h')" by fastforce
  have ks: "map fst ks = [Malloc 8 4096, Realloc 4096 100 4112, Free 4112]" "heap h' = 4128"
    using run by (auto simp: cs_def h_def bump_def hooked_malloc_def hooked_realloc_def hooked_free_def my_malloc_hook_def
        my_realloc_hook_def my_free_hook_def write_log_def Let_def)
  have fin: "finite (regions (boot_mem (lphash_env first_fit)))" by simp
  have n: "length cs \<le> 2 ^ 31 - 511" by (simp add: cs_def)
  have h: "malloc_hook_active h" "logfd h" "log h = []" by (simp_all add: h_def)
  have "sound_calls (map fst ks) {}" by (simp add: ks)
  from replay_reproduces_run [OF lphash_example fin n run h this, of undefined]
  have "\<exists>st. process_file (lphash_env first_fit) bump (Some (log h')) undefined (boot_mem (lphash_env first_fit)) 4096 =
      Some (0, 3, st, heap h')"
    using arg_cong [OF ks(1), of length] by (simp add: h_def eval_nat_numeral)
  then show ?thesis using run ks(2) unfolding cs_def h_def by blast
qed

end
