(* ===== verification/Spec2Isabelle.thy ===== *)
theory Spec2Isabelle
  imports Metadata_Props Lphash_Props Lookup_Props Malloc_Program Malloc_Tune Malloc_Heaps_Props Arenas_Props Malloc_Cache
    Malloc_Hooks_Props Replay_Props
begin

text \<open>
  sri-glibc is the allocator of the GNU C library with its bookkeeping moved out of the heap: a chunk of memory has no header,
  and what \<open>malloc.c\<close> knows of it is in a record \<open>struct chunkinfo\<close> that a hash table finds by the address of the chunk.
  Files are named below as in \<open>src/src/sri-glibc/malloc\<close>, unless they have a directory.

  \<^bold>\<open>The program and its theories.\<close> A failed assertion, an abort and a memory fault are the result \<open>None\<close> of an operation; what
  the code returns, \<open>NULL\<close> and \<open>errno\<close> included, is in a \<open>Some\<close>. Words have the width of the code, and arithmetic on them wraps.
  The kernel is a function from what it was asked so far to its answer, so that a failing \<open>mmap\<close>, \<open>sbrk\<close> or \<open>mprotect\<close> is a branch.

  \<^item> \<open>Prelude\<close>: words, the failure monad and its elimination rules, the collections of facts.
  \<^item> \<open>Utils\<close> (\<open>utils.c\<close>): checked sizes, hash functions, bit counts, with their bijectivity and bounds.
  \<^item> \<open>Memcxt\<close>, \<open>Memcxt_Inv\<close> (\<open>memcxt.c\<close>): the pools that the records and the segments of the hash table come from: no object is given
    out twice and a pool is made only when all are full, for any well-behaved sequence of requests.
  \<^item> \<open>Metadata\<close> and the theories \<open>Metadata_*\<close> (\<open>metadata.c\<close>): the linear hash table, bin by bin, its growth and its
    contraction. The abstract table is a function from keys to lists of records; every operation refines its abstract one through
    every resize, and a locale states the interface that other theories use.
  \<^item> \<open>Lphash\<close>, \<open>Lphash_Same\<close>, \<open>Lphash_Props\<close> (\<open>src/lphash/lphash.c\<close>): its twin with values, shown to be the same table with other
    parameters, so that the facts of \<open>metadata.c\<close> hold for it.
  \<^item> \<open>Lfht\<close> and the theories \<open>Lfht_*\<close> (\<open>lfht.c\<close>): the hash table of the threads, one operation at a time, with its migration to larger
    tables, as a map.
  \<^item> \<open>Lookup\<close>, \<open>Lookup_Props\<close> (\<open>lookup.c\<close>): two of these tables and a list of regions say which arena an address belongs to.
  \<^item> \<open>Malloc_Size\<close>, \<open>Malloc_Size_Props\<close>: sizes of requests and chunks, and the numbers of the bins.
  \<^item> \<open>Malloc_State\<close> (\<open>struct malloc_state\<close>, the records of the chunks and the calls of the table), \<open>Malloc_Core\<close> (bins,
    \<open>malloc_consolidate\<close>), \<open>Malloc_Alloc\<close> (\<open>sysmalloc\<close>, \<open>systrim\<close>, \<open>_int_malloc\<close>, \<open>_int_free\<close>), \<open>Malloc_Api\<close> (\<open>malloc\<close>, \<open>free\<close>, \<open>calloc\<close>),
    \<open>Malloc_Realloc\<close> (\<open>realloc\<close>, \<open>memalign\<close> and its relatives), \<open>Malloc_Tune\<close> (\<open>mallopt\<close>, \<open>malloc_trim\<close>, \<open>mallinfo\<close>): \<open>malloc.c\<close> itself.
  \<^item> \<open>Malloc_View\<close> to \<open>Malloc_Program\<close>: the invariant of an arena and its proof. \<open>Malloc_View\<close> makes functions of the fields of the
    records; \<open>Malloc_Chain\<close>, \<open>Malloc_Ring\<close>, \<open>Malloc_Skip\<close>, \<open>Malloc_Arena\<close> and \<open>Malloc_Bins\<close> state the invariant: the chunks, with their
    sizes, \<open>PREV_INUSE\<close> bits and links in the order of addresses, the rings of the bins, the skip lists of the large bins, the fast bins
    and the map of the bins. \<open>Malloc_Merge\<close>, \<open>Malloc_Free\<close>, \<open>Malloc_Consolidate\<close> and \<open>Malloc_Release\<close> carry it through \<open>free\<close>;
    \<open>Malloc_Serve\<close>, \<open>Malloc_Split\<close>, \<open>Malloc_Place\<close>, \<open>Malloc_Unsorted\<close>, \<open>Malloc_Search\<close> and \<open>Malloc_Top\<close> through the searches of
    \<open>_int_malloc\<close>; \<open>Malloc_System\<close>, \<open>Malloc_Errno\<close>, \<open>Malloc_Fence\<close>, \<open>Malloc_Grow\<close>, \<open>Malloc_More\<close>, \<open>Malloc_Extend\<close> and \<open>Malloc_Int\<close> through
    \<open>sysmalloc\<close>; \<open>Malloc_Heap\<close>, \<open>Malloc_Bare\<close> and \<open>Malloc_Init\<close> do the public functions and the first call; and \<open>Malloc_Program\<close> has the
    theorem: whatever a program asks and the kernel grants, the blocks are apart, large enough and in memory of the program.
  \<^item> \<open>Malloc_Cache\<close>: the cache of records that an arena fills before each request, when memory runs out in the middle.
  \<^item> \<open>Malloc_Heaps\<close>, \<open>Malloc_Heaps_Props\<close> (\<open>arena.c\<close>): the heaps of the other arenas, mapped, grown, shrunk and trimmed.
  \<^item> \<open>Arenas\<close>, \<open>Arenas_Props\<close> (\<open>arena.c\<close>): which thread uses which arena; the steps of the threads, their invariant, and the
    interleaving that breaks it.
  \<^item> \<open>Malloc_Hooks\<close>, \<open>Malloc_Hooks_Props\<close> (\<open>hooks.c\<close>): the checking functions behind \<open>MALLOC_CHECK_\<close>.
  \<^item> \<open>Mhook\<close> (\<open>src/mhooks/mhook.c\<close>) and \<open>Replay\<close>, \<open>Replay_Props\<close> (\<open>src/replay/replaylib.c\<close>): the text of a log of calls, and the
    replay of a log through a table of \<open>lphash.c\<close>: it reads back what was written, and it reproduces the run.

  \<^bold>\<open>How the parts meet.\<close> The heap invariant holds the abstract table of \<open>metadata.c\<close>, so that each lookup and each
  registration of a chunk in \<open>malloc.c\<close> is a step of the theorem on the table, resizes and moves of records to the front included; the table in turn rests on
  the invariant of the pools. \<open>free\<close> finds the arena of an address through \<open>lookup.c\<close>, which rests on the map of \<open>lfht.c\<close>. A replay
  rests on the table of \<open>lphash.c\<close>, and so on that of \<open>metadata.c\<close>.

  \<^bold>\<open>Loops.\<close> Loops over a structure that the program may have damaged are \<open>partial_function (option)\<close>, for which not to return is
  \<open>None\<close>; the properties show the result to be \<open>Some\<close>. No operation has fuel.

  \<^bold>\<open>Bounds.\<close> A table of \<open>metadata.c\<close> aborts at its largest directory; the theorems on it name how many records fit. A request must not
  exceed what \<open>checked_request2size\<close> admits. The refinement of a replay allows \<open>2 ^ 31 - 511\<close> calls, below that largest directory.

  \<^bold>\<open>Not modelled.\<close> Locks and the interleaving of threads within an operation, apart from the arenas of \<open>Arenas\<close>; \<open>lfht.c\<close> is modelled
  one operation at a time, since a step of its threads may read between the two words of an entry. Arenas other than the one of the thread are
  a parameter of \<open>malloc.c\<close>. \<open>realloc\<close> and \<open>memalign\<close> are modelled without the theorem on the heap. The checks of \<open>MALLOC_DEBUG\<close> and
  the canaries of \<open>SRI_MALLOC_LOG\<close>, \<open>debug.c\<close>, \<open>mremap\<close>, \<open>malloc_info\<close> and the printing of statistics, the handlers of \<open>fork\<close>, the reading of the
  environment in \<open>ptmalloc_init\<close>, and the saving and restoring of a dumped heap of an older library in \<open>hooks.c\<close>: they
  print, are compiled out, or belong to the C library. The programs around the replay and the tests are not part of the allocator.
\<close>

end
